(* ===== verification/Prelude.thy ===== *)
theory Prelude
  imports Main "HOL-Library.Word" "HOL-Library.Monad_Syntax"
begin

text \<open>
  Shared vocabulary of the development.

  The modelled programs are C.  Three things of C recur in every component and are modelled
  once, here:
  \<^item> addresses, \<open>malloc\<close>/\<open>free\<close> and the store of allocated objects (\<open>'c heap\<close>), with an
    explicit script that says which of the coming allocations fail;
  \<^item> character buffers of a fixed capacity whose cells may be uninitialised (\<open>cbuf\<close>);
  \<^item> undefined behaviour: an operation that dereferences NULL, touches freed or unallocated
    memory, reads an uninitialised byte or leaves its buffer has the value \<^term>\<open>None\<close>, and a
    computation that meets it is \<^term>\<open>None\<close> as a whole.  A theorem that a call
    equals \<open>Some \<dots>\<close> therefore says that the call is memory safe and that it returns.
\<close>

unbundle bit_operations_syntax

named_theorems heap_simps \<open>rewrite rules for loads and stores of the C heap\<close>
named_theorems cbuf_simps \<open>rewrite rules for C character buffers\<close>

subsection \<open>The option monad\<close>

lemma bind_eq_SomeE:
  assumes "Option.bind m f = Some y"
  obtains x where "m = Some x" and "f x = Some y"
  using assms by (cases m) auto

lemma bind_Some_iff: "(Option.bind m f = Some y) = (\<exists>x. m = Some x \<and> f x = Some y)"
  by (cases m) auto

lemma bind_None_iff: "(Option.bind m f = None) = (m = None \<or> (\<exists>x. m = Some x \<and> f x = None))"
  by (cases m) auto

subsection \<open>Addresses and the heap of allocated objects\<close>

type_synonym addr = nat

definition NULL :: addr where
  "NULL = 0"

text \<open>
  \<open>brk\<close> is the next address \<open>malloc\<close> hands out; addresses are not used twice, so a
  dangling pointer is never valid again.  \<open>oom\<close> is the script of the coming allocations:
  its head says whether the next one fails, and all succeed once it is used up.
\<close>

record 'c heap =
  cells :: "addr \<Rightarrow> 'c option"
  brk :: addr
  oom :: "bool list"

definition malloc :: "'c \<Rightarrow> 'c heap \<Rightarrow> addr \<times> 'c heap" where
  "malloc c h =
     (if oom h \<noteq> [] \<and> hd (oom h) then (NULL, h\<lparr>oom := tl (oom h)\<rparr>)
      else (brk h, h\<lparr>cells := (cells h)(brk h := Some c), brk := Suc (brk h), oom := tl (oom h)\<rparr>))"

definition load :: "addr \<Rightarrow> 'c heap \<Rightarrow> 'c option" where
  "load p h = (if p = NULL then None else cells h p)"

definition store :: "addr \<Rightarrow> 'c \<Rightarrow> 'c heap \<Rightarrow> 'c heap option" where
  "store p c h =
     (if load p h = None then None else Some (h\<lparr>cells := (cells h)(p := Some c)\<rparr>))"

text \<open>\<open>free(NULL)\<close> does nothing; freeing anything but a live block is undefined.\<close>

definition free :: "addr \<Rightarrow> 'c heap \<Rightarrow> 'c heap option" where
  "free p h =
     (if p = NULL then Some h
      else if load p h = None then None
      else Some (h\<lparr>cells := (cells h)(p := None)\<rparr>))"

definition wf_heap :: "'c heap \<Rightarrow> bool" where
  "wf_heap h \<longleftrightarrow> NULL < brk h \<and> (\<forall>p \<ge> brk h. load p h = None)"

definition empty_heap :: "'c heap" where
  "empty_heap = \<lparr>cells = (\<lambda>_. None), brk = 1, oom = []\<rparr>"

lemma wf_empty_heap [simp]: "wf_heap empty_heap"
  by (simp add: wf_heap_def empty_heap_def NULL_def load_def)

lemma load_NULL [simp]: "load NULL h = None"
  by (simp add: load_def)

lemma load_Some_not_NULL [dest]: "load p h = Some c \<Longrightarrow> p \<noteq> NULL"
  by (auto simp: load_def split: if_splits)

lemma load_cells_upd [heap_simps]:
  "load q (h\<lparr>cells := (cells h)(p := c)\<rparr>) = (if q = p \<and> p \<noteq> NULL then c else load q h)"
  by (simp add: load_def)

lemma load_more_upd [simp]:
  "load q (h\<lparr>brk := b\<rparr>) = load q h" "load q (h\<lparr>oom := os\<rparr>) = load q h"
  by (simp_all add: load_def)

lemma store_Some [heap_simps]:
  "load p h = Some c0 \<Longrightarrow> store p c h = Some (h\<lparr>cells := (cells h)(p := Some c)\<rparr>)"
  by (simp add: store_def)

lemma store_eq_Some_iff:
  "(store p c h = Some h') = (load p h \<noteq> None \<and> h' = h\<lparr>cells := (cells h)(p := Some c)\<rparr>)"
  by (auto simp: store_def)

lemma load_store:
  "store p c h = Some h' \<Longrightarrow> load q h' = (if q = p then Some c else load q h)"
  by (auto simp: store_eq_Some_iff load_def split: if_splits)

lemma free_Some [heap_simps]:
  "load p h = Some c \<Longrightarrow> free p h = Some (h\<lparr>cells := (cells h)(p := None)\<rparr>)"
  by (auto simp: free_def load_def split: if_splits)

lemma free_NULL [simp]: "free NULL h = Some h"
  by (simp add: free_def)

lemma malloc_fail [heap_simps]:
  "oom h = True # os \<Longrightarrow> malloc c h = (NULL, h\<lparr>oom := os\<rparr>)"
  by (simp add: malloc_def)

lemma malloc_ok:
  "oom h = [] \<or> \<not> hd (oom h) \<Longrightarrow>
   malloc c h = (brk h, h\<lparr>cells := (cells h)(brk h := Some c), brk := Suc (brk h), oom := tl (oom h)\<rparr>)"
  by (auto simp: malloc_def)

text \<open>Whether the next allocation fails.\<close>

definition alloc_fails :: "'c heap \<Rightarrow> bool" where
  "alloc_fails h \<longleftrightarrow> oom h \<noteq> [] \<and> hd (oom h)"

lemma malloc_alloc_fails: "alloc_fails h \<Longrightarrow> malloc c h = (NULL, h\<lparr>oom := tl (oom h)\<rparr>)"
  by (simp add: alloc_fails_def malloc_def)

lemma malloc_succeeds:
  "\<not> alloc_fails h \<Longrightarrow>
   malloc c h = (brk h, h\<lparr>cells := (cells h)(brk h := Some c), brk := Suc (brk h), oom := tl (oom h)\<rparr>)"
  using malloc_ok [of h c] by (auto simp: alloc_fails_def)

lemma wf_heap_malloc: "wf_heap h \<Longrightarrow> malloc c h = (p, h') \<Longrightarrow> wf_heap h'"
  by (auto simp: malloc_def wf_heap_def load_def split: if_splits)

lemma wf_heap_fresh: "wf_heap h \<Longrightarrow> load (brk h) h = None"
  by (simp add: wf_heap_def)

lemma wf_heap_brk_pos: "wf_heap h \<Longrightarrow> brk h \<noteq> NULL"
  by (simp add: wf_heap_def)

text \<open>The first element of a chain that ends in \<open>b\<close>, and the last of one that starts after \<open>a\<close>.\<close>

definition hd_or :: "addr list \<Rightarrow> addr \<Rightarrow> addr" where
  "hd_or xs b = (case xs of [] \<Rightarrow> b | x # _ \<Rightarrow> x)"

definition last_or :: "addr \<Rightarrow> addr list \<Rightarrow> addr" where
  "last_or a xs = (if xs = [] then a else last xs)"

lemma hd_or_simps [simp]: "hd_or [] b = b" "hd_or (x # xs) b = x"
  by (simp_all add: hd_or_def)

lemma last_or_simps [simp]: "last_or a [] = a" "last_or a (xs @ [x]) = x" "last_or a (x # xs) = last_or x xs"
  by (simp_all add: last_or_def)

lemma hd_or_eq_NULL: "NULL \<notin> set xs \<Longrightarrow> (hd_or xs b = NULL) = (xs = [] \<and> b = NULL)"
  by (cases xs) auto

lemma hd_or_in: "hd_or xs b \<in> insert b (set xs)"
  by (cases xs) auto

lemma last_or_in: "last_or a xs \<in> insert a (set xs)"
  by (simp add: last_or_def)

lemma hd_or_append [simp]: "hd_or (xs @ ys) b = hd_or xs (hd_or ys b)"
  by (cases xs) auto

lemma last_or_append [simp]: "last_or a (xs @ ys) = last_or (last_or a xs) ys"
  by (simp add: last_or_def)

subsection \<open>Character buffers\<close>

type_synonym byte = "8 word"

text \<open>A buffer of known capacity; \<^term>\<open>None\<close> marks a cell that was never written.\<close>

type_synonym cbuf = "byte option list"

definition peek :: "cbuf \<Rightarrow> nat \<Rightarrow> byte option" where
  "peek b i = (if i < length b then b ! i else None)"

definition poke :: "cbuf \<Rightarrow> nat \<Rightarrow> byte \<Rightarrow> cbuf option" where
  "poke b i v = (if i < length b then Some (b[i := Some v]) else None)"

fun pokes :: "cbuf \<Rightarrow> nat \<Rightarrow> byte list \<Rightarrow> cbuf option" where
  "pokes b i [] = Some b"
| "pokes b i (v # vs) = do { b \<leftarrow> poke b i v; pokes b (Suc i) vs }"

text \<open>The C string at the start of a buffer, and at an offset; undefined without a terminator.\<close>

fun cstring :: "cbuf \<Rightarrow> byte list option" where
  "cstring [] = None"
| "cstring (None # b) = None"
| "cstring (Some c # b) = (if c = 0 then Some [] else map_option (Cons c) (cstring b))"

definition cstring_at :: "cbuf \<Rightarrow> nat \<Rightarrow> byte list option" where
  "cstring_at b i = (if i \<le> length b then cstring (drop i b) else None)"

definition uninit :: "nat \<Rightarrow> cbuf" where
  "uninit n = replicate n None"

text \<open>A NUL-terminated buffer that holds exactly the string \<open>s\<close>.\<close>

definition str_buf :: "byte list \<Rightarrow> cbuf" where
  "str_buf s = map Some (s @ [0])"

lemma length_uninit [simp]: "length (uninit n) = n"
  by (simp add: uninit_def)

lemma drop_uninit [simp]: "drop n (uninit m) = uninit (m - n)"
  by (simp add: uninit_def)

lemma uninit_0 [simp]: "uninit 0 = []"
  by (simp add: uninit_def)

lemma uninit_Suc: "uninit (Suc n) = None # uninit n"
  by (simp add: uninit_def)

lemma length_poke: "poke b i v = Some b' \<Longrightarrow> length b' = length b"
  by (auto simp: poke_def split: if_splits)

lemma poke_Some [cbuf_simps]: "i < length b \<Longrightarrow> poke b i v = Some (b[i := Some v])"
  by (simp add: poke_def)

lemma pokes_Some [cbuf_simps]:
  "i + length vs \<le> length b \<Longrightarrow>
   pokes b i vs = Some (take i b @ map Some vs @ drop (i + length vs) b)"
proof (induction vs arbitrary: b i)
  case (Cons v vs)
  then have "take (Suc i) (b[i := Some v]) = take i b @ [Some v]"
    by (simp add: take_Suc_conv_app_nth)
  with Cons show ?case by (simp add: poke_def)
qed simp

lemma pokes_append: "pokes b i (us @ vs) = do { b \<leftarrow> pokes b i us; pokes b (i + length us) vs }"
  by (induction us arbitrary: b i) (auto simp: bind_assoc split: bind_split)

lemma length_pokes: "pokes b i vs = Some b' \<Longrightarrow> length b' = length b"
  by (induction vs arbitrary: b i) (auto simp: bind_Some_iff dest: length_poke)

lemma pokes_None: "length b < i + length vs \<Longrightarrow> vs \<noteq> [] \<Longrightarrow> pokes b i vs = None"
proof (induction vs arbitrary: b i)
  case (Cons v vs)
  then show ?case by (cases "vs = []") (auto simp: poke_def bind_None_iff)
qed simp

lemma cstring_app [cbuf_simps]:
  "0 \<notin> set s \<Longrightarrow> cstring (map Some s @ Some 0 # b) = Some s"
  by (induction s) auto

lemma cstring_str_buf [simp]: "0 \<notin> set s \<Longrightarrow> cstring (str_buf s) = Some s"
  using cstring_app [of s "[]"] by (simp add: str_buf_def)

lemma cstring_SomeD: "cstring b = Some s \<Longrightarrow> 0 \<notin> set s \<and> (\<exists>r. b = map Some s @ Some 0 # r)"
proof (induction b arbitrary: s rule: cstring.induct)
  case (3 c b)
  show ?case
  proof (cases "c = 0")
    case False
    with "3.prems" obtain s' where "cstring b = Some s'" "s = c # s'" by auto
    with "3.IH" False show ?thesis by auto
  qed (use "3.prems" in auto)
qed auto

lemma cstring_Some_iff:
  "(cstring b = Some s) = (0 \<notin> set s \<and> (\<exists>r. b = map Some s @ Some 0 # r))"
  by (auto simp: cstring_app dest: cstring_SomeD)

lemma length_str_buf [simp]: "length (str_buf s) = Suc (length s)"
  by (simp add: str_buf_def)

end
