(* ===== verification/FrList.thy ===== *)
theory FrList
  imports Prelude
begin

text \<open>
  The doubly linked list of \<open>containers/list/c/list.c\<close> (\<open>Frlist_header\<close>, \<open>Frlist_node\<close>) on
  an explicit heap: the data and every operation.  Header and nodes are separate objects of one
  store, linked by addresses, so that shared and dangling pointers behave as in C.  A callback
  that only reads is a function of the heap; a callback that may write (\<open>pf_free\<close>, \<open>pf_run\<close>)
  returns the new heap, or \<^term>\<open>None\<close> when it runs into undefined behaviour.  A NULL callback
  is \<^term>\<open>None\<close>.

  The loops over a chain of nodes are \<open>partial_function\<close>s: on a cyclic chain the C code does
  not return, and the value is \<^term>\<open>None\<close>.
\<close>

subsection \<open>Data\<close>

text \<open>\<open>struct __st_listnode\<close>\<close>

record frnode =
  pre :: addr
  nxt :: addr
  data :: addr
  ul_idx :: "64 word"
  l_key :: "64 word"
  p_key :: addr
  ui_key_len :: "32 word"

text \<open>\<open>struct __st_list\<close>\<close>

record frhdr =
  hsize :: "32 word"
  head :: addr
  tail :: addr

text \<open>What an address can hold: a node, a list header, or caller data (\<open>data\<close>, \<open>p_key\<close>).\<close>

datatype frcell = NodeC frnode | HdrC frhdr | BlobC cbuf

type_synonym frheap = "frcell heap"
type_synonym list_node_free = "addr \<Rightarrow> frheap \<Rightarrow> frheap option"
type_synonym list_node_compare = "addr \<Rightarrow> addr \<Rightarrow> frheap \<Rightarrow> int"
type_synonym list_node_find = "addr \<Rightarrow> frheap \<Rightarrow> int"
type_synonym list_node_run = "addr \<Rightarrow> frheap \<Rightarrow> (int \<times> frheap) option"

definition load_node :: "addr \<Rightarrow> frheap \<Rightarrow> frnode option" where
  "load_node p h = (case load p h of Some (NodeC n) \<Rightarrow> Some n | _ \<Rightarrow> None)"

definition load_hdr :: "addr \<Rightarrow> frheap \<Rightarrow> frhdr option" where
  "load_hdr p h = (case load p h of Some (HdrC s) \<Rightarrow> Some s | _ \<Rightarrow> None)"

text \<open>\<open>p->field = v\<close> on a node and on a header.\<close>

definition upd_node :: "addr \<Rightarrow> (frnode \<Rightarrow> frnode) \<Rightarrow> frheap \<Rightarrow> frheap option" where
  "upd_node p f h = do { n \<leftarrow> load_node p h; store p (NodeC (f n)) h }"

definition upd_hdr :: "addr \<Rightarrow> (frhdr \<Rightarrow> frhdr) \<Rightarrow> frheap \<Rightarrow> frheap option" where
  "upd_hdr p f h = do { s \<leftarrow> load_hdr p h; store p (HdrC (f s)) h }"

subsection \<open>Creation and size\<close>

definition frlist_create :: "frheap \<Rightarrow> addr \<times> frheap" where
  "frlist_create h = malloc (HdrC \<lparr>hsize = 0, head = NULL, tail = NULL\<rparr>) h"

definition frlist_header_init :: "addr \<Rightarrow> frheap \<Rightarrow> frheap option" where
  "frlist_header_init l h =
     (if l = NULL then Some h
      else upd_hdr l (\<lambda>s. s\<lparr>hsize := 0, head := NULL, tail := NULL\<rparr>) h)"

definition frlist_size :: "addr \<Rightarrow> frheap \<Rightarrow> 32 word option" where
  "frlist_size l h =
     (if l = NULL then Some 0 else do { s \<leftarrow> load_hdr l h; Some (hsize s) })"

definition frlist_node_data_free :: "addr \<Rightarrow> frheap \<Rightarrow> frheap option" where
  "frlist_node_data_free p h =
     (if p = NULL then Some h
      else do {
        n \<leftarrow> load_node p h;
        h \<leftarrow> (if data n \<noteq> NULL then do {
               h \<leftarrow> free (data n) h;
               upd_node p (\<lambda>n. n\<lparr>data := NULL\<rparr>) h }
             else Some h);
        n \<leftarrow> load_node p h;
        (if p_key n \<noteq> NULL then do {
           h \<leftarrow> free (p_key n) h;
           upd_node p (\<lambda>n. n\<lparr>l_key := 0, p_key := NULL, ui_key_len := 0\<rparr>) h }
         else Some h) })"

text \<open>\<open>memset(p_node, 0x00, \<dots>)\<close> and then \<open>data\<close>.\<close>

definition frlist_node_create :: "addr \<Rightarrow> frheap \<Rightarrow> addr \<times> frheap" where
  "frlist_node_create p_data h =
     malloc (NodeC \<lparr>pre = NULL, nxt = NULL, data = p_data, ul_idx = 0, l_key = 0,
                    p_key = NULL, ui_key_len = 0\<rparr>) h"

definition frlist_empty :: "addr \<Rightarrow> frheap \<Rightarrow> int option" where
  "frlist_empty l h =
     (if l = NULL then Some 0
      else do { s \<leftarrow> load_hdr l h; Some (if head s = NULL then 0 else 1) })"

subsection \<open>Insertion\<close>

definition frlist_add_tail :: "addr \<Rightarrow> addr \<Rightarrow> frheap \<Rightarrow> frheap option" where
  "frlist_add_tail l p h =
     (if l = NULL \<or> p = NULL then Some h
      else do {
        h \<leftarrow> upd_node p (\<lambda>n. n\<lparr>nxt := NULL\<rparr>) h;
        s \<leftarrow> load_hdr l h;
        h \<leftarrow> (if head s \<noteq> NULL then do {
               h \<leftarrow> upd_node p (\<lambda>n. n\<lparr>pre := tail s\<rparr>) h;
               h \<leftarrow> upd_node (tail s) (\<lambda>n. n\<lparr>nxt := p\<rparr>) h;
               upd_hdr l (\<lambda>s. s\<lparr>tail := p\<rparr>) h }
             else do {
               h \<leftarrow> upd_node p (\<lambda>n. n\<lparr>pre := NULL\<rparr>) h;
               upd_hdr l (\<lambda>s. s\<lparr>head := p, tail := p\<rparr>) h });
        upd_hdr l (\<lambda>s. s\<lparr>hsize := hsize s + 1\<rparr>) h })"

definition frlist_add_header :: "addr \<Rightarrow> addr \<Rightarrow> frheap \<Rightarrow> frheap option" where
  "frlist_add_header l p h =
     (if l = NULL \<or> p = NULL then Some h
      else do {
        s \<leftarrow> load_hdr l h;
        h \<leftarrow> (if head s \<noteq> NULL then do {
               h \<leftarrow> upd_node (head s) (\<lambda>n. n\<lparr>pre := p\<rparr>) h;
               h \<leftarrow> upd_node p (\<lambda>n. n\<lparr>pre := NULL\<rparr>) h;
               h \<leftarrow> upd_node p (\<lambda>n. n\<lparr>nxt := head s\<rparr>) h;
               upd_hdr l (\<lambda>s. s\<lparr>head := p\<rparr>) h }
             else do {
               h \<leftarrow> upd_node p (\<lambda>n. n\<lparr>pre := NULL\<rparr>) h;
               h \<leftarrow> upd_node p (\<lambda>n. n\<lparr>nxt := NULL\<rparr>) h;
               upd_hdr l (\<lambda>s. s\<lparr>head := p, tail := p\<rparr>) h });
        upd_hdr l (\<lambda>s. s\<lparr>hsize := hsize s + 1\<rparr>) h })"

definition frlist_merge_header_top :: "addr \<Rightarrow> addr \<Rightarrow> frheap \<Rightarrow> frheap option" where
  "frlist_merge_header_top dst src h =
     (if dst = NULL \<or> src = NULL then Some h
      else do {
        s \<leftarrow> load_hdr src h;
        (if hsize s = 0 then Some h
         else do {
           d \<leftarrow> load_hdr dst h;
           h \<leftarrow> (if hsize d = 0
                 then upd_hdr dst (\<lambda>d. d\<lparr>head := head s, tail := tail s, hsize := hsize s\<rparr>) h
                 else do {
                   h \<leftarrow> upd_node (tail s) (\<lambda>n. n\<lparr>nxt := head d\<rparr>) h;
                   upd_hdr dst (\<lambda>d. d\<lparr>head := head s, hsize := hsize d + hsize s\<rparr>) h });
           upd_hdr src (\<lambda>s. s\<lparr>head := NULL, tail := NULL, hsize := 0\<rparr>) h }) })"

text \<open>The search loop of \<open>frlist_add_sort\<close>: (\<open>p_node_pre\<close>) when it stops at \<open>p_node_tmp\<close>.\<close>

partial_function (option) add_sort_search ::
  "list_node_compare \<Rightarrow> addr \<Rightarrow> addr \<Rightarrow> addr \<Rightarrow> frheap \<Rightarrow> addr option" where
  [code]: "add_sort_search cmp p node_pre node_tmp h =
     (if node_tmp = NULL then Some node_pre
      else if cmp p node_tmp h \<le> 0 then Some node_pre
      else do {
        n \<leftarrow> load_node node_tmp h;
        add_sort_search cmp p node_tmp (nxt n) h })"

definition frlist_add_sort ::
  "addr \<Rightarrow> addr \<Rightarrow> list_node_compare option \<Rightarrow> frheap \<Rightarrow> frheap option" where
  "frlist_add_sort l p pf_compare h =
     (if l = NULL \<or> p = NULL then Some h
      else do {
        s \<leftarrow> load_hdr l h;
        (case pf_compare of
           None \<Rightarrow> frlist_add_tail l p h
         | Some cmp \<Rightarrow>
             if hsize s < 1 then frlist_add_tail l p h
             else do {
               node_pre \<leftarrow> add_sort_search cmp p NULL (head s) h;
               (if node_pre = NULL then do {
                  h \<leftarrow> upd_hdr l (\<lambda>s. s\<lparr>head := p\<rparr>) h;
                  h \<leftarrow> upd_node p (\<lambda>n. n\<lparr>pre := NULL\<rparr>) h;
                  h \<leftarrow> upd_node p (\<lambda>n. n\<lparr>nxt := head s\<rparr>) h;
                  h \<leftarrow> upd_node (head s) (\<lambda>n. n\<lparr>pre := p\<rparr>) h;
                  upd_hdr l (\<lambda>s. s\<lparr>hsize := hsize s + 1\<rparr>) h }
                else do {
                  npre \<leftarrow> load_node node_pre h;
                  h \<leftarrow> upd_node node_pre (\<lambda>n. n\<lparr>nxt := p\<rparr>) h;
                  h \<leftarrow> upd_node p (\<lambda>n. n\<lparr>pre := node_pre\<rparr>) h;
                  h \<leftarrow> upd_node p (\<lambda>n. n\<lparr>nxt := nxt npre\<rparr>) h;
                  h \<leftarrow> (if nxt npre \<noteq> NULL then upd_node (nxt npre) (\<lambda>n. n\<lparr>pre := p\<rparr>) h
                        else Some h);
                  upd_hdr l (\<lambda>s. s\<lparr>hsize := hsize s + 1\<rparr>) h }) }) })"

subsection \<open>Lookup and traversal\<close>

text \<open>The loop of \<open>frlist_node_idx\<close> that follows \<open>next\<close> \<open>k\<close> times.\<close>

fun nth_next :: "nat \<Rightarrow> addr \<Rightarrow> frheap \<Rightarrow> addr option" where
  "nth_next 0 p h = Some p"
| "nth_next (Suc k) p h = do { n \<leftarrow> load_node p h; nth_next k (nxt n) h }"

definition frlist_node_idx :: "addr \<Rightarrow> 32 word \<Rightarrow> frheap \<Rightarrow> addr option" where
  "frlist_node_idx l i_idx h =
     (if l = NULL then Some NULL
      else do {
        s \<leftarrow> load_hdr l h;
        (if sint i_idx < 0 \<or> sint i_idx \<ge> sint (hsize s) then Some NULL
         else nth_next (nat (sint i_idx)) (head s) h) })"

partial_function (option) find_from :: "list_node_find \<Rightarrow> addr \<Rightarrow> frheap \<Rightarrow> addr option" where
  [code]: "find_from pf p h =
     (if p = NULL then Some NULL
      else if pf p h = 0 then Some p
      else do { n \<leftarrow> load_node p h; find_from pf (nxt n) h })"

definition frlist_find :: "addr \<Rightarrow> list_node_find option \<Rightarrow> frheap \<Rightarrow> addr option" where
  "frlist_find l pf_find h =
     (case pf_find of
        None \<Rightarrow> Some NULL
      | Some pf \<Rightarrow> if l = NULL then Some NULL
                   else do { s \<leftarrow> load_hdr l h; find_from pf (head s) h })"

partial_function (option) run_from ::
  "list_node_run \<Rightarrow> addr \<Rightarrow> int \<Rightarrow> frheap \<Rightarrow> (int \<times> frheap) option" where
  [code]: "run_from pf p ret h =
     (if p = NULL then Some (ret, h)
      else do {
        n \<leftarrow> load_node p h;
        r \<leftarrow> pf p h;
        (if fst r = 0 then Some (0, snd r) else run_from pf (nxt n) (fst r) (snd r)) })"

definition frlist_run :: "addr \<Rightarrow> list_node_run option \<Rightarrow> frheap \<Rightarrow> (int \<times> frheap) option" where
  "frlist_run l pf_run h =
     (case pf_run of
        None \<Rightarrow> Some (1, h)
      | Some pf \<Rightarrow> if l = NULL then Some (1, h)
                   else do { s \<leftarrow> load_hdr l h; run_from pf (head s) 1 h })"

partial_function (option) shallow_copy_from :: "addr \<Rightarrow> addr \<Rightarrow> frheap \<Rightarrow> frheap option" where
  [code]: "shallow_copy_from dst p h =
     (if p = NULL then Some h
      else do {
        n \<leftarrow> load_node p h;
        h \<leftarrow> (if data n \<noteq> NULL then
                (let (q, h) = frlist_node_create (data n) h in
                 if q \<noteq> NULL then frlist_add_tail dst q h else Some h)
              else Some h);
        shallow_copy_from dst (nxt n) h })"

definition frlist_shallow_copy :: "addr \<Rightarrow> addr \<Rightarrow> frheap \<Rightarrow> (int \<times> frheap) option" where
  "frlist_shallow_copy dst src h =
     (if dst = NULL \<or> src = NULL then Some (1, h)
      else do {
        s \<leftarrow> load_hdr src h;
        h \<leftarrow> shallow_copy_from dst (head s) h;
        Some (0, h) })"

subsection \<open>Removal\<close>

definition frlist_remove_head :: "addr \<Rightarrow> frheap \<Rightarrow> (addr \<times> frheap) option" where
  "frlist_remove_head l h =
     (if l = NULL then Some (NULL, h)
      else do {
        s \<leftarrow> load_hdr l h;
        (if head s \<noteq> NULL then do {
           n \<leftarrow> load_node (head s) h;
           h \<leftarrow> upd_hdr l (\<lambda>s. s\<lparr>head := nxt n\<rparr>) h;
           h \<leftarrow> (if nxt n = NULL then upd_hdr l (\<lambda>s. s\<lparr>tail := NULL\<rparr>) h
                 else upd_node (nxt n) (\<lambda>n. n\<lparr>pre := NULL\<rparr>) h);
           h \<leftarrow> upd_node (head s) (\<lambda>n. n\<lparr>nxt := NULL\<rparr>) h;
           h \<leftarrow> upd_hdr l (\<lambda>s. s\<lparr>hsize := hsize s - 1\<rparr>) h;
           Some (head s, h) }
         else Some (NULL, h)) })"

text \<open>
  The disposal of one node that \<open>frlist_remove_all\<close>, \<open>frlist_remove_from_idx\<close> and
  \<open>frlist_node_free\<close> share: the callback, then the key, then the node itself.
\<close>

definition dispose_node :: "list_node_free option \<Rightarrow> addr \<Rightarrow> frheap \<Rightarrow> frheap option" where
  "dispose_node pf_free p h = do {
     h \<leftarrow> (case pf_free of None \<Rightarrow> Some h | Some pf \<Rightarrow> pf p h);
     n \<leftarrow> load_node p h;
     h \<leftarrow> (if p_key n \<noteq> NULL then free (p_key n) h else Some h);
     free p h }"

partial_function (option) remove_all_loop ::
  "addr \<Rightarrow> list_node_free option \<Rightarrow> frheap \<Rightarrow> frheap option" where
  [code]: "remove_all_loop l pf_free h = do {
     r \<leftarrow> frlist_remove_head l h;
     (if fst r = NULL then Some (snd r)
      else do {
        h \<leftarrow> dispose_node pf_free (fst r) (snd r);
        remove_all_loop l pf_free h }) }"

definition frlist_remove_all :: "addr \<Rightarrow> list_node_free option \<Rightarrow> frheap \<Rightarrow> frheap option" where
  "frlist_remove_all l pf_free h =
     (if l = NULL then Some h
      else do {
        h \<leftarrow> remove_all_loop l pf_free h;
        upd_hdr l (\<lambda>s. s\<lparr>hsize := 0, head := NULL, tail := NULL\<rparr>) h })"

text \<open>
  The positioning loop of \<open>frlist_remove_from_idx\<close>: it moves \<open>p_st_header->tail\<close> along while
  it walks.
\<close>

fun seek_idx :: "addr \<Rightarrow> nat \<Rightarrow> addr \<Rightarrow> frheap \<Rightarrow> (addr \<times> frheap) option" where
  "seek_idx l 0 p h = Some (p, h)"
| "seek_idx l (Suc k) p h =
     (if p = NULL then Some (p, h)
      else do {
        h \<leftarrow> upd_hdr l (\<lambda>s. s\<lparr>tail := p\<rparr>) h;
        n \<leftarrow> load_node p h;
        seek_idx l k (nxt n) h })"

partial_function (option) release_from ::
  "addr \<Rightarrow> list_node_free option \<Rightarrow> addr \<Rightarrow> frheap \<Rightarrow> frheap option" where
  [code]: "release_from l pf_free p h =
     (if p = NULL then Some h
      else do {
        n \<leftarrow> load_node p h;
        h \<leftarrow> dispose_node pf_free p h;
        h \<leftarrow> upd_hdr l (\<lambda>s. s\<lparr>hsize := hsize s - 1\<rparr>) h;
        release_from l pf_free (nxt n) h })"

text \<open>
  \<open>p_st_header->size < i_idx + 1\<close> compares an \<open>unsigned\<close> with an \<open>int\<close>: both sides are read
  as unsigned.  (\<open>i_idx = INT_MAX\<close> overflows in C; here the sum wraps and the call returns.)
\<close>

definition frlist_remove_from_idx ::
  "addr \<Rightarrow> 32 word \<Rightarrow> list_node_free option \<Rightarrow> frheap \<Rightarrow> frheap option" where
  "frlist_remove_from_idx l i_idx pf_free h =
     (if l = NULL then Some h
      else do {
        s \<leftarrow> load_hdr l h;
        (if hsize s = 0 \<or> hsize s < i_idx + 1 then Some h
         else do {
           let i_free_idx = (if sint i_idx < 0 then 0 else nat (sint i_idx));
           (p, h) \<leftarrow> seek_idx l i_free_idx (head s) h;
           (if p = NULL then Some h
            else do {
              s \<leftarrow> load_hdr l h;
              h \<leftarrow> upd_node (tail s) (\<lambda>n. n\<lparr>nxt := NULL\<rparr>) h;
              h \<leftarrow> (if i_free_idx = 0 then upd_hdr l (\<lambda>s. s\<lparr>head := NULL, tail := NULL\<rparr>) h
                    else Some h);
              release_from l pf_free p h }) }) })"

text \<open>The unlinking that \<open>frlist_node_free\<close> and \<open>frlist_node_apart\<close> write out alike.\<close>

definition unlink_node :: "addr \<Rightarrow> addr \<Rightarrow> frheap \<Rightarrow> frheap option" where
  "unlink_node l p h = do {
     s \<leftarrow> load_hdr l h;
     n \<leftarrow> load_node p h;
     h \<leftarrow> (if head s = p then do {
            h \<leftarrow> upd_hdr l (\<lambda>s. s\<lparr>head := nxt n\<rparr>) h;
            (if tail s = p then upd_hdr l (\<lambda>s. s\<lparr>tail := NULL\<rparr>) h else Some h) }
          else if tail s = p then do {
            h \<leftarrow> upd_node (pre n) (\<lambda>m. m\<lparr>nxt := NULL\<rparr>) h;
            upd_hdr l (\<lambda>s. s\<lparr>tail := pre n\<rparr>) h }
          else do {
            h \<leftarrow> upd_node (pre n) (\<lambda>m. m\<lparr>nxt := nxt n\<rparr>) h;
            n \<leftarrow> load_node p h;
            upd_node (nxt n) (\<lambda>m. m\<lparr>pre := pre n\<rparr>) h });
     upd_hdr l (\<lambda>s. s\<lparr>hsize := hsize s - 1\<rparr>) h }"

definition frlist_node_free ::
  "addr \<Rightarrow> addr \<Rightarrow> int \<Rightarrow> list_node_free option \<Rightarrow> frheap \<Rightarrow> frheap option" where
  "frlist_node_free l p i_del_list pf_free h = do {
     no_list \<leftarrow> (if i_del_list = 0
                 then (if l = NULL then Some True
                       else do { s \<leftarrow> load_hdr l h; Some (head s = NULL) })
                 else Some False);
     (if no_list \<or> p = NULL then Some h
      else do {
        h \<leftarrow> (if i_del_list = 0 then unlink_node l p h else Some h);
        dispose_node pf_free p h }) }"

text \<open>\<open>frlist_node_free2\<close> takes the address of the caller's pointer; the second component is its new value.\<close>

definition frlist_node_free2 :: "addr \<Rightarrow> frheap \<Rightarrow> (addr \<times> frheap) option" where
  "frlist_node_free2 p h =
     (if p = NULL then Some (p, h)
      else do {
        n \<leftarrow> load_node p h;
        h \<leftarrow> (if p_key n \<noteq> NULL then free (p_key n) h else Some h);
        h \<leftarrow> free p h;
        Some (NULL, h) })"

definition frlist_node_apart :: "addr \<Rightarrow> addr \<Rightarrow> frheap \<Rightarrow> frheap option" where
  "frlist_node_apart l p h =
     (if l = NULL then Some h
      else do {
        s \<leftarrow> load_hdr l h;
        (if head s = NULL \<or> p = NULL then Some h else unlink_node l p h) })"

definition frlist_destroy :: "addr \<Rightarrow> list_node_free option \<Rightarrow> frheap \<Rightarrow> frheap option" where
  "frlist_destroy l pf_free h =
     (if l = NULL then Some h
      else do { h \<leftarrow> frlist_remove_all l pf_free h; free l h })"

end
