(* ===== verification/FrListSpec.thy ===== *)
theory FrListSpec
  imports FrList
begin

text \<open>
  What a well-formed \<open>Frlist_header\<close> is, and what each operation of \<open>FrList\<close> does to it.

  \<open>list_at h l a xs\<close>: the header at \<open>l\<close> describes the distinct nodes \<open>xs\<close>, linked forwards and
  backwards, and \<open>a\<close> is what the first node's \<open>pre\<close> field holds.  The code does not keep that
  field at NULL (\<open>frlist_node_apart\<close> of the first node leaves it dangling), so the invariant
  every operation keeps is \<open>is_list\<close>, which leaves it open.  Each operation is then shown to
  implement the obvious operation on the abstract list, to be memory safe, and to leave
  everything but links alone (\<open>frame\<close>).
\<close>

subsection \<open>Rewriting loads over stores\<close>

definition setc :: "addr \<Rightarrow> frcell \<Rightarrow> frheap \<Rightarrow> frheap" where
  "setc p c h = h\<lparr>cells := (cells h)(p := Some c)\<rparr>"

lemma load_setc [heap_simps]: "p \<noteq> NULL \<Longrightarrow> load q (setc p c h) = (if q = p then Some c else load q h)"
  by (simp add: setc_def load_def)

lemma setc_more [simp]: "brk (setc p c h) = brk h" "oom (setc p c h) = oom h"
  by (simp_all add: setc_def)

lemma load_node_Some_iff: "(load_node p h = Some n) = (load p h = Some (NodeC n))"
  by (auto simp: load_node_def split: option.splits frcell.splits)

lemma load_hdr_Some_iff: "(load_hdr p h = Some s) = (load p h = Some (HdrC s))"
  by (auto simp: load_hdr_def split: option.splits frcell.splits)

lemma load_node_not_NULL: "load_node p h = Some n \<Longrightarrow> p \<noteq> NULL"
  by (auto simp: load_node_Some_iff)

lemma load_hdr_not_NULL: "load_hdr p h = Some n \<Longrightarrow> p \<noteq> NULL"
  by (auto simp: load_hdr_Some_iff)

lemma load_node_NULL [simp]: "load_node NULL h = None"
  by (simp add: load_node_def)

lemma load_hdr_NULL [simp]: "load_hdr NULL h = None"
  by (simp add: load_hdr_def)

lemma node_hdr_disjoint: "load_node p h = Some n \<Longrightarrow> load_hdr l h = Some s \<Longrightarrow> p \<noteq> l \<and> l \<noteq> p"
  by (auto simp: load_node_Some_iff load_hdr_Some_iff)

lemma load_node_setc [heap_simps]:
  "p \<noteq> NULL \<Longrightarrow> load_node q (setc p c h) =
     (if q = p then (case c of NodeC n \<Rightarrow> Some n | _ \<Rightarrow> None) else load_node q h)"
  by (simp add: load_node_def load_setc split: frcell.splits)

lemma load_hdr_setc [heap_simps]:
  "p \<noteq> NULL \<Longrightarrow> load_hdr q (setc p c h) =
     (if q = p then (case c of HdrC n \<Rightarrow> Some n | _ \<Rightarrow> None) else load_hdr q h)"
  by (simp add: load_hdr_def load_setc split: frcell.splits)

lemma upd_node_Some [heap_simps]:
  "load_node p h = Some n \<Longrightarrow> upd_node p f h = Some (setc p (NodeC (f n)) h)"
  by (simp add: upd_node_def setc_def) (simp add: load_node_Some_iff store_Some)

lemma upd_hdr_Some [heap_simps]:
  "load_hdr p h = Some s \<Longrightarrow> upd_hdr p f h = Some (setc p (HdrC (f s)) h)"
  by (simp add: upd_hdr_def setc_def) (simp add: load_hdr_Some_iff store_Some)

lemma upd_node_None: "load_node p h = None \<Longrightarrow> upd_node p f h = None"
  by (simp add: upd_node_def)

subsection \<open>Chains of nodes\<close>

fun linked :: "frheap \<Rightarrow> addr \<Rightarrow> addr list \<Rightarrow> addr \<Rightarrow> bool" where
  "linked h a [] b = True"
| "linked h a (x # xs) b =
     ((\<exists>n. load_node x h = Some n \<and> pre n = a \<and> nxt n = hd_or xs b) \<and> linked h x xs b)"

lemma linked_append:
  "linked h a (xs @ ys) b = (linked h a xs (hd_or ys b) \<and> linked h (last_or a xs) ys b)"
  by (induction xs arbitrary: a) (auto simp: last_or_def)

lemma linked_nodes: "linked h a xs b \<Longrightarrow> x \<in> set xs \<Longrightarrow> \<exists>n. load_node x h = Some n"
  by (induction xs arbitrary: a) auto

lemma linked_not_NULL: "linked h a xs b \<Longrightarrow> NULL \<notin> set xs"
  using linked_nodes by fastforce

lemma linked_cong:
  "(\<And>x. x \<in> set xs \<Longrightarrow> load_node x h' = load_node x h) \<Longrightarrow> linked h' a xs b = linked h a xs b"
  by (induction xs arbitrary: a) auto

lemma linked_setc [heap_simps]:
  "p \<noteq> NULL \<Longrightarrow> p \<notin> set xs \<Longrightarrow> linked (setc p c h) a xs b = linked h a xs b"
  by (rule linked_cong) (auto simp: load_node_setc)

subsection \<open>Well-formed lists\<close>

definition list_at :: "frheap \<Rightarrow> addr \<Rightarrow> addr \<Rightarrow> addr list \<Rightarrow> bool" where
  "list_at h l a xs \<longleftrightarrow>
     load_hdr l h = Some \<lparr>hsize = of_nat (length xs), head = hd_or xs NULL, tail = last_or NULL xs\<rparr>
     \<and> linked h a xs NULL \<and> distinct xs"

definition is_list :: "frheap \<Rightarrow> addr \<Rightarrow> addr list \<Rightarrow> bool" where
  "is_list h l xs \<longleftrightarrow> (\<exists>a. list_at h l a xs)"

text \<open>
  \<open>frame l S h h'\<close>: between \<open>h\<close> and \<open>h'\<close> only the header \<open>l\<close> and the links of the nodes in
  \<open>S\<close> changed; nothing was allocated or freed.
\<close>

fun payload :: "frcell \<Rightarrow> frcell" where
  "payload (NodeC n) = NodeC (n\<lparr>pre := NULL, nxt := NULL\<rparr>)"
| "payload c = c"

definition frame :: "addr \<Rightarrow> addr set \<Rightarrow> frheap \<Rightarrow> frheap \<Rightarrow> bool" where
  "frame l S h h' \<longleftrightarrow> brk h' = brk h \<and> oom h' = oom h \<and>
     (\<forall>q. q \<noteq> l \<longrightarrow> map_option payload (load q h') = map_option payload (load q h)) \<and>
     (\<forall>q. q \<noteq> l \<longrightarrow> q \<notin> S \<longrightarrow> load q h' = load q h)"

lemma frame_refl [simp]: "frame l S h h"
  by (simp add: frame_def)

lemma frame_mono: "frame l S h h' \<Longrightarrow> S \<subseteq> T \<Longrightarrow> frame l T h h'"
  by (auto simp: frame_def)

lemma frame_trans: "frame l S h h' \<Longrightarrow> frame l S h' h'' \<Longrightarrow> frame l S h h''"
  by (auto simp: frame_def)

lemma frame_setc_hdr: "l \<noteq> NULL \<Longrightarrow> frame l S h h' \<Longrightarrow> frame l S h (setc l c h')"
  by (auto simp: frame_def load_setc)

lemma frame_setc_node:
  assumes "frame l S h h'" and "load_node p h' = Some n" and "p \<in> S"
    and "payload (NodeC m) = payload (NodeC n)"
  shows "frame l S h (setc p (NodeC m) h')"
  using assms load_node_not_NULL [OF assms(2)]
  by (auto simp: frame_def load_setc load_node_Some_iff)

lemmas frame_intros = frame_refl frame_setc_hdr frame_setc_node

lemma frame_other_list:
  assumes "frame l S h h'" and "is_list h m ys" and "m \<noteq> l" and "set ys \<inter> S = {}" and "m \<notin> S"
    and "l \<notin> set ys"
  shows "is_list h' m ys"
proof -
  have "load q h' = load q h" if "q \<in> insert m (set ys)" for q
    using that assms by (auto simp: frame_def)
  then have "load_hdr m h' = load_hdr m h" and "\<And>x. x \<in> set ys \<Longrightarrow> load_node x h' = load_node x h"
    by (auto simp: load_hdr_def load_node_def)
  then show ?thesis
    using assms(2) by (auto simp: is_list_def list_at_def cong: linked_cong)
qed


lemma list_atD:
  assumes "list_at h l a xs"
  shows "load_hdr l h = Some \<lparr>hsize = of_nat (length xs), head = hd_or xs NULL, tail = last_or NULL xs\<rparr>"
    and "linked h a xs NULL" and "distinct xs" and "l \<noteq> NULL" and "l \<notin> set xs" and "NULL \<notin> set xs"
  using assms linked_nodes node_hdr_disjoint load_hdr_not_NULL linked_not_NULL
  unfolding list_at_def by (blast, blast, blast, blast, metis, blast)

text \<open>The facts with which each operation below is computed on an explicit list.\<close>

lemmas list_ops_simps = heap_simps list_at_def linked_append hd_or_eq_NULL

subsection \<open>Insertion at the two ends\<close>

lemma frlist_add_tail_at:
  assumes L: "list_at h l a xs" and n: "load_node p h = Some n" and p: "p \<notin> set xs"
  shows "\<exists>h'. frlist_add_tail l p h = Some h' \<and>
    list_at h' l (if xs = [] then NULL else a) (xs @ [p]) \<and> frame l (insert p (set xs)) h h'"
proof (cases xs rule: rev_cases)
  case Nil
  note [simp] = list_atD(1,4) [OF L] load_node_not_NULL [OF n] node_hdr_disjoint [OF n list_atD(1) [OF L]]
  show ?thesis using Nil
    by (auto simp: n frlist_add_tail_def list_ops_simps intro!: frame_intros)
next
  case (snoc ys z)
  from list_atD(2) [OF L] snoc obtain m where
    m: "load_node z h = Some m" "pre m = last_or a ys" "nxt m = NULL" and ys: "linked h a ys z"
    by (auto simp: linked_append)
  note [simp] = list_atD(1,4) [OF L] load_node_not_NULL [OF n] load_node_not_NULL [OF m(1)]
    node_hdr_disjoint [OF n list_atD(1) [OF L]] node_hdr_disjoint [OF m(1) list_atD(1) [OF L]]
  show ?thesis using ys snoc p list_atD(3,5,6) [OF L]
    by (auto simp: n m frlist_add_tail_def list_ops_simps intro!: frame_intros)
qed

lemma frlist_add_header_at:
  assumes L: "list_at h l a xs" and n: "load_node p h = Some n" and p: "p \<notin> set xs"
  shows "\<exists>h'. frlist_add_header l p h = Some h' \<and>
    list_at h' l NULL (p # xs) \<and> frame l (insert p (set xs)) h h'"
proof (cases xs)
  case Nil
  note [simp] = list_atD(1,4) [OF L] load_node_not_NULL [OF n] node_hdr_disjoint [OF n list_atD(1) [OF L]]
  show ?thesis using Nil
    by (auto simp: n frlist_add_header_def list_ops_simps intro!: frame_intros)
next
  case (Cons z zs)
  from list_atD(2) [OF L] Cons obtain m where
    m: "load_node z h = Some m" "pre m = a" "nxt m = hd_or zs NULL" and zs: "linked h z zs NULL"
    by auto
  note [simp] = list_atD(1,4) [OF L] load_node_not_NULL [OF n] load_node_not_NULL [OF m(1)]
    node_hdr_disjoint [OF n list_atD(1) [OF L]] node_hdr_disjoint [OF m(1) list_atD(1) [OF L]]
  show ?thesis using zs Cons p list_atD(3,5,6) [OF L]
    by (auto simp: n m frlist_add_header_def list_ops_simps intro!: frame_intros)
qed

subsection \<open>Removal from the front and from the middle\<close>

lemma frlist_remove_head_Nil:
  "list_at h l a [] \<Longrightarrow> frlist_remove_head l h = Some (NULL, h)"
  by (auto simp: frlist_remove_head_def list_at_def dest: load_hdr_not_NULL)

lemma frlist_remove_head_at:
  assumes L: "list_at h l a (x # xs)"
  shows "\<exists>h'. frlist_remove_head l h = Some (x, h') \<and> list_at h' l NULL xs \<and>
    frame l (insert x (set xs)) h h'"
proof (cases xs)
  case Nil
  from list_atD(2) [OF L] Nil obtain n where n: "load_node x h = Some n" "nxt n = NULL" by auto
  note [simp] = list_atD(1,4) [OF L] load_node_not_NULL [OF n(1)]
    node_hdr_disjoint [OF n(1) list_atD(1) [OF L]]
  show ?thesis using Nil
    by (auto simp: n frlist_remove_head_def list_ops_simps intro!: frame_intros)
next
  case (Cons z zs)
  from list_atD(2) [OF L] Cons obtain n m where n: "load_node x h = Some n" "nxt n = z"
    and m: "load_node z h = Some m" "pre m = x" "nxt m = hd_or zs NULL" and zs: "linked h z zs NULL"
    by auto
  note [simp] = list_atD(1,4) [OF L] load_node_not_NULL [OF n(1)] load_node_not_NULL [OF m(1)]
    node_hdr_disjoint [OF n(1) list_atD(1) [OF L]] node_hdr_disjoint [OF m(1) list_atD(1) [OF L]]
  show ?thesis using zs Cons list_atD(3,5,6) [OF L]
    by (auto simp: n m frlist_remove_head_def list_ops_simps intro!: frame_intros)
qed

text \<open>
  Unlinking the node after \<open>ys\<close>.  When \<open>ys\<close> is empty the new first node keeps its \<open>pre\<close>
  pointing at the removed node: the list is well formed with that dangling pointer.
\<close>

lemma unlink_node_at:
  assumes L: "list_at h l a (ys @ p # zs)"
  shows "\<exists>h'. unlink_node l p h = Some h' \<and> list_at h' l (if ys = [] then p else a) (ys @ zs) \<and>
    frame l (set (ys @ zs)) h h' \<and> load_node p h' = load_node p h"
proof -
  from list_atD(2) [OF L] obtain n where n: "load_node p h = Some n" "pre n = last_or a ys"
    "nxt n = hd_or zs NULL" and ys: "linked h a ys p" and zs: "linked h p zs NULL"
    by (auto simp: linked_append)
  note [simp] = list_atD(1,4) [OF L] load_node_not_NULL [OF n(1)]
    node_hdr_disjoint [OF n(1) list_atD(1) [OF L]]
  note facts = ys zs list_atD(3,5,6) [OF L]
  show ?thesis
  proof (cases ys rule: rev_cases)
    case Nil
    moreover have "zs \<noteq> [] \<Longrightarrow> last zs \<noteq> p"
      using facts last_in_set [of zs] by auto
    ultimately show ?thesis using facts
      by (cases zs) (auto simp: n unlink_node_def list_ops_simps last_or_def intro!: frame_intros)
  next
    case (snoc us u)
    with ys obtain mu where mu: "load_node u h = Some mu" "nxt mu = p" "pre mu = last_or a us"
      and us: "linked h a us u" by (auto simp: linked_append)
    note [simp] = load_node_not_NULL [OF mu(1)] node_hdr_disjoint [OF mu(1) list_atD(1) [OF L]]
    show ?thesis
    proof (cases zs)
      case Nil
      then show ?thesis using facts us snoc
        by (cases us) (auto simp: n mu unlink_node_def list_ops_simps intro!: frame_intros)
    next
      case (Cons z zs')
      with zs obtain mz where mz: "load_node z h = Some mz" "pre mz = p" "nxt mz = hd_or zs' NULL"
        and zs': "linked h z zs' NULL" by auto
      note [simp] = load_node_not_NULL [OF mz(1)] node_hdr_disjoint [OF mz(1) list_atD(1) [OF L]]
      have "hd_or us u \<noteq> p" and "last_or z zs' \<noteq> p"
        using facts snoc Cons hd_or_in [of us u] last_or_in [of z zs'] by auto
      define h1 where "h1 = setc u (NodeC (mu\<lparr>nxt := z\<rparr>)) h"
      define h2 where "h2 = setc z (NodeC (mz\<lparr>pre := u\<rparr>)) h1"
      define h3 where "h3 = setc l (HdrC \<lparr>hsize = of_nat (length (ys @ zs)), head = hd_or ys NULL,
        tail = last_or NULL zs\<rparr>) h2"
      have dist: "u \<noteq> p" "u \<noteq> z" "p \<noteq> z" "u \<notin> set us" "u \<notin> set zs'" "z \<notin> set us" "z \<notin> set zs'"
        "l \<notin> set us" "l \<notin> set zs'" "p \<notin> set us" "p \<notin> set zs'" "NULL \<notin> set us"
        using facts snoc Cons by auto
      note [simp] = dist dist(1-3) [symmetric]
      have un: "unlink_node l p h = Some h3"
        using \<open>hd_or us u \<noteq> p\<close> \<open>last_or z zs' \<noteq> p\<close>
        by (simp add: unlink_node_def heap_simps n mu mz snoc Cons h3_def h2_def h1_def hd_or_eq_NULL)
      have "list_at h3 l a (ys @ zs)"
        using us zs' facts snoc Cons
        by (simp add: h3_def h2_def h1_def list_ops_simps n mu mz)
      moreover have "frame l (set (ys @ zs)) h h3"
        unfolding h3_def h2_def h1_def using snoc Cons
        by (auto simp: heap_simps n mu mz intro!: frame_intros)
      moreover have "load_node p h3 = load_node p h"
        by (simp add: h3_def h2_def h1_def heap_simps)
      ultimately show ?thesis using un snoc by simp
    qed
  qed
qed

lemma frlist_node_apart_at:
  assumes L: "list_at h l a (ys @ p # zs)"
  shows "\<exists>h'. frlist_node_apart l p h = Some h' \<and> list_at h' l (if ys = [] then p else a) (ys @ zs) \<and>
    frame l (set (ys @ zs)) h h' \<and> load_node p h' = load_node p h"
proof -
  have "hd_or (ys @ p # zs) NULL \<noteq> NULL" and "p \<noteq> NULL"
    using list_atD(6) [OF L] by (auto simp: hd_or_eq_NULL)
  then have "frlist_node_apart l p h = unlink_node l p h"
    using list_atD(1,4) [OF L] by (simp add: frlist_node_apart_def)
  then show ?thesis using unlink_node_at [OF L] by simp
qed

end
