(* ===== verification/FrListFree.thy ===== *)
theory FrListFree
  imports FrListLoops
begin

text \<open>
  Disposal: \<open>frlist_remove_all\<close>, \<open>frlist_remove_from_idx\<close>, \<open>frlist_node_free\<close> and
  \<open>frlist_destroy\<close> release nodes through a callback chosen by the caller.  What they need of
  that callback is the locale \<open>node_disposer\<close>; the two callbacks the code comes with, none at
  all and \<open>frlist_node_data_free\<close>, are its instances.
\<close>

subsection \<open>The contract of a disposal callback\<close>

definition is_blob :: "addr \<Rightarrow> frheap \<Rightarrow> bool" where
  "is_blob q h \<longleftrightarrow> (\<exists>b. load q h = Some (BlobC b))"

text \<open>\<open>own x h\<close> lists the blocks that are released together with node \<open>x\<close>.\<close>

type_synonym owner = "addr \<Rightarrow> frheap \<Rightarrow> addr list"

definition all_owned :: "owner \<Rightarrow> addr list \<Rightarrow> frheap \<Rightarrow> addr list" where
  "all_owned own xs h = concat (map (\<lambda>x. own x h) xs)"

definition owned :: "owner \<Rightarrow> addr list \<Rightarrow> frheap \<Rightarrow> bool" where
  "owned own xs h \<longleftrightarrow> distinct (all_owned own xs h) \<and> (\<forall>q \<in> set (all_owned own xs h). is_blob q h)"

lemma all_owned_simps [simp]:
  "all_owned own [] h = []" "all_owned own (x # xs) h = own x h @ all_owned own xs h"
  by (simp_all add: all_owned_def)

lemma all_owned_append: "all_owned own (xs @ ys) h = all_owned own xs h @ all_owned own ys h"
  by (simp add: all_owned_def)

lemma is_blob_payload:
  "map_option payload (load q h') = map_option payload (load q h) \<Longrightarrow> is_blob q h' = is_blob q h"
  by (cases "load q h"; cases "load q h'") (auto simp: is_blob_def elim!: payload.elims)

lemma node_payload:
  "map_option payload (load q h') = map_option payload (load q h) \<Longrightarrow>
   (load_node q h' = None) = (load_node q h = None)"
  by (cases "load q h"; cases "load q h'") (auto simp: load_node_def elim!: payload.elims)

lemma blob_not_node: "is_blob q h \<Longrightarrow> load_node q h = None \<and> load_hdr q h = None"
  by (auto simp: is_blob_def load_node_def load_hdr_def)

lemma blob_neq_node: "is_blob q h \<Longrightarrow> load_node x h = Some n \<Longrightarrow> q \<noteq> x \<and> x \<noteq> q"
  using blob_not_node [of q h] by auto

locale node_disposer =
  fixes pf_free :: "list_node_free option"
    and own :: owner
  assumes dispose: "load_node x h = Some n \<Longrightarrow> distinct (own x h) \<Longrightarrow> \<forall>q \<in> set (own x h). is_blob q h \<Longrightarrow>
      \<exists>h'. dispose_node pf_free x h = Some h' \<and>
        (\<forall>q. load q h' = (if q = x \<or> q \<in> set (own x h) then None else load q h))"
    and own_payload: "map_option payload (load x h') = map_option payload (load x h) \<Longrightarrow> own x h' = own x h"
begin

lemma all_owned_cong:
  "(\<And>x. x \<in> set xs \<Longrightarrow> map_option payload (load x h') = map_option payload (load x h)) \<Longrightarrow>
   all_owned own xs h' = all_owned own xs h"
  unfolding all_owned_def
  by (rule arg_cong [where f = concat], rule map_cong [OF refl], rule own_payload) blast

lemma owned_frame:
  assumes "owned own xs h" and fr: "frame l S h h'" and "l \<notin> set xs" and l: "load_hdr l h = Some s"
  shows "owned own xs h'" and "all_owned own xs h' = all_owned own xs h"
proof -
  have eq: "q \<noteq> l \<Longrightarrow> map_option payload (load q h') = map_option payload (load q h)" for q
    using fr by (simp add: frame_def)
  show a: "all_owned own xs h' = all_owned own xs h"
    by (rule all_owned_cong) (metis assms(3) eq)
  have "is_blob q h \<Longrightarrow> is_blob q h'" for q
    using is_blob_payload [OF eq, of q] blob_not_node [of q h] l by fastforce
  then show "owned own xs h'" using assms(1) a by (auto simp: owned_def)
qed

text \<open>Disposing of the first of several nodes leaves the list of the others intact.\<close>

lemma dispose_first:
  assumes O: "owned own (x # xs) h" and n: "load_node x h = Some n" and "x \<notin> set xs"
    and nodes: "\<forall>y \<in> set xs. load_node y h \<noteq> None"
  shows "\<exists>h'. dispose_node pf_free x h = Some h' \<and> owned own xs h' \<and>
    all_owned own xs h' = all_owned own xs h \<and>
    (\<forall>q. load q h' = (if q = x \<or> q \<in> set (own x h) then None else load q h)) \<and>
    (\<forall>q. q \<noteq> x \<longrightarrow> load_node q h' = load_node q h) \<and> (\<forall>q. load_hdr q h' = load_hdr q h)"
proof -
  from dispose [OF n] O obtain h' where h': "dispose_node pf_free x h = Some h'"
    and eff: "\<And>q. load q h' = (if q = x \<or> q \<in> set (own x h) then None else load q h)"
    by (auto simp: owned_def)
  have blob: "q \<in> set (own x h) \<Longrightarrow> is_blob q h" for q using O by (simp add: owned_def)
  have nd: "q \<noteq> x \<longrightarrow> load_node q h' = load_node q h" for q
    using blob_not_node [OF blob, of q] eff [of q] by (auto simp: load_node_def)
  have hd: "load_hdr q h' = load_hdr q h" for q
    using blob_not_node [OF blob, of q] eff [of q] n by (auto simp: load_hdr_def load_node_Some_iff)
  have "map_option payload (load y h') = map_option payload (load y h)" if "y \<in> set xs" for y
    using that nodes assms(3) blob_not_node [OF blob, of y] eff [of y] by auto
  then have a: "all_owned own xs h' = all_owned own xs h" by (rule all_owned_cong)
  have "x \<notin> set (all_owned own xs h)"
    using O n blob_not_node [of x h] by (auto simp: owned_def)
  then have "owned own xs h'"
    using O n eff by (auto simp: owned_def a is_blob_def load_node_Some_iff)
  with h' a eff nd hd show ?thesis by blast
qed

text \<open>
  The loop of \<open>frlist_remove_all\<close> returns, leaves an empty list, and frees exactly the nodes
  and what they own.
\<close>

lemma remove_all_loop_list:
  "owned own xs h \<Longrightarrow> list_at h l a xs \<Longrightarrow> \<exists>h' b. remove_all_loop l pf_free h = Some h' \<and> list_at h' l b [] \<and>
     (\<forall>q. q \<noteq> l \<longrightarrow> load q h' = (if q \<in> set xs \<or> q \<in> set (all_owned own xs h) then None else load q h))"
proof (induction xs arbitrary: h a)
  case Nil
  then show ?case
    by (auto simp: remove_all_loop.simps [of l pf_free h] frlist_remove_head_Nil)
next
  case (Cons x xs)
  note L = Cons.prems(2)
  note D = list_atD [OF L]
  from frlist_remove_head_at [OF L] obtain h1 where
    h1: "frlist_remove_head l h = Some (x, h1)" "list_at h1 l NULL xs"
    and fr: "frame l (insert x (set xs)) h h1" by auto
  note D1 = list_atD [OF h1(2)]
  have O1: "owned own (x # xs) h1" "all_owned own (x # xs) h1 = all_owned own (x # xs) h"
    using owned_frame [OF Cons.prems(1) fr D(5) D(1)] by auto
  have own1: "own x h1 = own x h"
    by (rule own_payload) (use fr D(5) in \<open>auto simp: frame_def\<close>)
  obtain n1 where n1: "load_node x h1 = Some n1"
    using node_payload [of x h1 h] fr D(2,5) by (auto simp: frame_def)
  have "\<forall>y \<in> set xs. load_node y h1 \<noteq> None" using linked_nodes [OF D1(2)] by auto
  with dispose_first [OF O1(1) n1] D(3) obtain h2 where
    h2: "dispose_node pf_free x h1 = Some h2" "owned own xs h2" "all_owned own xs h2 = all_owned own xs h1"
    and eff: "\<And>q. load q h2 = (if q = x \<or> q \<in> set (own x h1) then None else load q h1)"
    and nd: "\<And>q. q \<noteq> x \<Longrightarrow> load_node q h2 = load_node q h1"
    and hd: "\<And>q. load_hdr q h2 = load_hdr q h1" by auto
  have "linked h2 NULL xs NULL = linked h1 NULL xs NULL"
    by (rule linked_cong, rule nd) (use D(3) in auto)
  then have "list_at h2 l NULL xs" using D1 hd by (simp add: list_at_def)
  from Cons.IH [OF h2(2) this] obtain h' b where
    h': "remove_all_loop l pf_free h2 = Some h'" "list_at h' l b []"
    and eff': "\<And>q. q \<noteq> l \<Longrightarrow> load q h' = (if q \<in> set xs \<or> q \<in> set (all_owned own xs h2) then None else load q h2)"
    by blast
  have "remove_all_loop l pf_free h = Some h'"
    using D(6) by (simp add: remove_all_loop.simps [of l pf_free h] h1 h2 h' NULL_def)
  moreover have "load q h' = (if q \<in> set (x # xs) \<or> q \<in> set (all_owned own (x # xs) h) then None else load q h)"
    if "q \<noteq> l" for q
    using eff' [OF that] eff [of q] O1(2) h2(3) own1 fr that by (auto simp: frame_def)
  ultimately show ?case using h'(2) by blast
qed

lemma frlist_remove_all_list:
  assumes "owned own xs h" and L: "list_at h l a xs"
  shows "\<exists>h'. frlist_remove_all l pf_free h = Some h' \<and> list_at h' l NULL [] \<and>
    (\<forall>q. q \<noteq> l \<longrightarrow> load q h' = (if q \<in> set xs \<or> q \<in> set (all_owned own xs h) then None else load q h))"
proof -
  from remove_all_loop_list [OF assms] obtain h1 b where
    h1: "remove_all_loop l pf_free h = Some h1" "list_at h1 l b []"
    and eff: "\<forall>q. q \<noteq> l \<longrightarrow> load q h1 = (if q \<in> set xs \<or> q \<in> set (all_owned own xs h) then None else load q h)"
    by blast
  note D1 = list_atD [OF h1(2)]
  then show ?thesis
    using h1 eff list_atD(4) [OF L]
    by (auto simp: frlist_remove_all_def list_at_def heap_simps)
qed

text \<open>\<open>frlist_destroy\<close> also frees the header: nothing of the list is left.\<close>

lemma frlist_destroy_list:
  assumes "owned own xs h" and L: "list_at h l a xs"
  shows "\<exists>h'. frlist_destroy l pf_free h = Some h' \<and>
    (\<forall>q. load q h' = (if q = l \<or> q \<in> set xs \<or> q \<in> set (all_owned own xs h) then None else load q h))"
proof -
  from frlist_remove_all_list [OF assms] obtain h1 where
    h1: "frlist_remove_all l pf_free h = Some h1" "list_at h1 l NULL []"
    and eff: "\<forall>q. q \<noteq> l \<longrightarrow> load q h1 = (if q \<in> set xs \<or> q \<in> set (all_owned own xs h) then None else load q h)"
    by blast
  from list_atD(1) [OF h1(2)] have f: "free l h1 = Some (h1\<lparr>cells := (cells h1)(l := None)\<rparr>)"
    by (auto simp: free_Some load_hdr_Some_iff)
  show ?thesis
    using h1(1) eff list_atD(4) [OF L]
    by (auto simp: frlist_destroy_def f load_cells_upd)
qed

text \<open>
  The release loop of \<open>frlist_remove_from_idx\<close>, which counts the nodes down as it goes.
\<close>

lemma release_from_list:
  "owned own xs h \<Longrightarrow> fwd h xs NULL \<Longrightarrow> distinct xs \<Longrightarrow> load_hdr l h = Some s \<Longrightarrow>
   \<exists>h'. release_from l pf_free (hd_or xs NULL) h = Some h' \<and>
     load_hdr l h' = Some (s\<lparr>hsize := hsize s - of_nat (length xs)\<rparr>) \<and>
     (\<forall>q. q \<noteq> l \<longrightarrow> load q h' = (if q \<in> set xs \<or> q \<in> set (all_owned own xs h) then None else load q h))"
proof (induction xs arbitrary: h s)
  case Nil
  then show ?case by (auto simp: release_from.simps [of l pf_free NULL])
next
  case (Cons x xs)
  from Cons.prems(2) obtain n where n: "load_node x h = Some n" "nxt n = hd_or xs NULL" and f: "fwd h xs NULL"
    by auto
  have nodes: "y \<in> set xs \<Longrightarrow> load_node y h \<noteq> None" for y
    using f by (induction xs) auto
  have x: "x \<notin> set xs" "x \<noteq> NULL" using Cons.prems(3) load_node_not_NULL [OF n(1)] by auto
  with dispose_first [OF Cons.prems(1) n(1)] nodes obtain h1 where
    h1: "dispose_node pf_free x h = Some h1" "owned own xs h1" "all_owned own xs h1 = all_owned own xs h"
    and eff: "\<And>q. load q h1 = (if q = x \<or> q \<in> set (own x h) then None else load q h)"
    and nd: "\<And>q. q \<noteq> x \<Longrightarrow> load_node q h1 = load_node q h"
    and hd: "\<And>q. load_hdr q h1 = load_hdr q h" by auto
  define h2 where "h2 = setc l (HdrC (s\<lparr>hsize := hsize s - 1\<rparr>)) h1"
  have l: "l \<noteq> NULL" "load_hdr l h1 = Some s" "l \<notin> set xs"
    using Cons.prems(4) hd nodes load_hdr_not_NULL node_hdr_disjoint by (auto, metis)
  then have u: "upd_hdr l (\<lambda>s. s\<lparr>hsize := hsize s - 1\<rparr>) h1 = Some h2"
    by (simp add: h2_def upd_hdr_Some)
  have fr: "frame l {} h1 h2" using l by (auto simp: h2_def intro!: frame_intros)
  have O2: "owned own xs h2" "all_owned own xs h2 = all_owned own xs h"
    using owned_frame [OF h1(2) fr l(3,2)] h1(3) by auto
  have "load_node y h2 = load_node y h" if "y \<in> set xs" for y
    using nd [of y] that x l by (auto simp: h2_def load_node_setc)
  then have f2: "fwd h2 xs NULL" using f by (induction xs) auto
  have "load_hdr l h2 = Some (s\<lparr>hsize := hsize s - 1\<rparr>)" using l by (simp add: h2_def load_hdr_setc)
  from Cons.IH [OF O2(1) f2 _ this] Cons.prems(3) obtain h' where
    h': "release_from l pf_free (hd_or xs NULL) h2 = Some h'"
      "load_hdr l h' = Some (s\<lparr>hsize := hsize s - 1 - of_nat (length xs)\<rparr>)"
    and eff': "\<And>q. q \<noteq> l \<Longrightarrow> load q h' = (if q \<in> set xs \<or> q \<in> set (all_owned own xs h2) then None else load q h2)"
    by auto
  have "release_from l pf_free x h = Some h'"
    using x by (simp add: release_from.simps [of l pf_free x] n h1 u h')
  moreover have "load q h' = (if q \<in> set (x # xs) \<or> q \<in> set (all_owned own (x # xs) h) then None else load q h)"
    if "q \<noteq> l" for q
    using eff' [OF that] eff [of q] O2(2) l that by (auto simp: h2_def load_setc)
  ultimately show ?case using h'(2) by (auto simp: algebra_simps)
qed

end

subsection \<open>Truncation\<close>

text \<open>The seek of \<open>frlist_remove_from_idx\<close> moves \<open>tail\<close> to the last node it steps over.\<close>

lemma seek_idx_at:
  "linked h a (ys @ zs) NULL \<Longrightarrow> load_hdr l h = Some s \<Longrightarrow> l \<notin> set (ys @ zs) \<Longrightarrow>
   seek_idx l (length ys) (hd_or (ys @ zs) NULL) h =
     Some (hd_or zs NULL, if ys = [] then h else setc l (HdrC (s\<lparr>tail := last ys\<rparr>)) h)"
proof (induction ys arbitrary: h a s)
  case (Cons y ys)
  from Cons.prems obtain n where n: "load_node y h = Some n" "nxt n = hd_or (ys @ zs) NULL"
    and rest: "linked h y (ys @ zs) NULL" by auto
  have l: "l \<noteq> NULL" "y \<noteq> NULL" "y \<noteq> l" using Cons.prems load_hdr_not_NULL load_node_not_NULL [OF n(1)] by auto
  let ?h = "setc l (HdrC (s\<lparr>tail := y\<rparr>)) h"
  have "linked ?h y (ys @ zs) NULL" using rest Cons.prems(3) l by (auto simp: linked_setc)
  moreover have "setc l c (setc l c' h) = setc l c h" for c c' by (simp add: setc_def)
  ultimately show ?case
    using Cons.IH [of ?h y "s\<lparr>tail := y\<rparr>"] Cons.prems l n by (simp add: heap_simps)
qed simp

context node_disposer begin

text \<open>
  \<open>frlist_remove_from_idx\<close> keeps the nodes before the index and releases the others with what
  they own.
\<close>

lemma frlist_remove_from_idx_list:
  assumes L: "list_at h l a xs" and i: "sint i = int k" "k < length xs" and len: "length xs < 2 ^ 31"
    and O: "owned own (drop k xs) h"
  shows "\<exists>h'. frlist_remove_from_idx l i pf_free h = Some h' \<and> list_at h' l a (take k xs) \<and>
    (\<forall>q. q \<noteq> l \<longrightarrow> q \<notin> set (take k xs) \<longrightarrow>
      load q h' = (if q \<in> set (drop k xs) \<or> q \<in> set (all_owned own (drop k xs) h) then None else load q h))"
proof -
  define ys zs where "ys = take k xs" and "zs = drop k xs"
  have xs: "xs = ys @ zs" and ly: "length ys = k" and zne: "zs \<noteq> []" using i by (auto simp: ys_def zs_def)
  note D = list_atD [OF L]
  define s :: frhdr where
    "s = \<lparr>hsize = of_nat (length xs), head = hd_or xs NULL, tail = last_or NULL xs\<rparr>"
  note hs = D(1) [folded s_def]
  have "of_int (sint i) = i" by simp
  then have i': "i = of_nat k" by (simp add: i(1))
  have nz: "\<not> (hsize s = 0 \<or> hsize s < i + 1)"
    using len i by (auto simp: s_def i' word_less_nat_alt word_unat_eq_iff unat_of_nat
        take_bit_nat_eq_self unat_word_ariths)
  define h1 where "h1 = (if ys = [] then h else setc l (HdrC (s\<lparr>tail := last ys\<rparr>)) h)"
  define t where "t = (if ys = [] then last xs else last ys)"
  have txs: "t \<in> set xs" and tl: "t \<noteq> l"
    using zne D(5) xs by (auto simp: t_def)
  have lz: "l \<notin> set zs" "l \<notin> set ys" using D(5) xs by auto
  from linked_nodes [OF D(2) txs] obtain m where m: "load_node t h = Some m" by auto
  have tn: "t \<noteq> NULL" by (rule load_node_not_NULL [OF m])
  note [simp] = D(4) tl tl [symmetric] tn
  have seek: "seek_idx l k (hd_or xs NULL) h = Some (hd_or zs NULL, h1)"
    using seek_idx_at [of h a ys zs l s] D(2,5) hs by (simp add: xs ly h1_def)
  have hd1: "load_hdr l h1 = Some (s\<lparr>tail := t\<rparr>)"
    using hs by (auto simp: h1_def t_def load_hdr_setc s_def last_or_def xs zne)
  have m1: "load_node t h1 = Some m" using m by (simp add: h1_def load_node_setc)
  define h2 where "h2 = setc t (NodeC (m\<lparr>nxt := NULL\<rparr>)) h1"
  have hd2: "load_hdr l h2 = Some (s\<lparr>tail := t\<rparr>)" using hd1 by (simp add: h2_def load_hdr_setc)
  define s3 where "s3 = (if k = 0 then s\<lparr>head := NULL, tail := NULL\<rparr> else s\<lparr>tail := t\<rparr>)"
  define h3 where "h3 = (if k = 0 then setc l (HdrC s3) h2 else h2)"
  have hd3: "load_hdr l h3 = Some s3" using hd2 by (simp add: h3_def s3_def load_hdr_setc)
  have fr: "frame l {t} h h3"
    using m1 by (auto simp: h3_def h2_def h1_def intro!: frame_intros)
  have ld3: "load q h3 = load q h" if "q \<noteq> l" "q \<noteq> t" for q using fr that by (simp add: frame_def)
  have t3: "load_node t h3 = Some (m\<lparr>nxt := NULL\<rparr>)" by (simp add: h3_def h2_def load_node_setc)
  have nd3: "load_node q h3 = load_node q h" if "q \<noteq> l" "q \<noteq> t" for q
    using ld3 [OF that] by (simp add: load_node_def)
  have lys: "linked h a ys (hd_or zs NULL)" and lzs: "linked h (last_or a ys) zs NULL"
    using D(2) by (simp_all add: xs linked_append)
  have f3: "fwd h3 zs NULL"
  proof (cases "ys = []")
    case True
    obtain us where us: "zs = us @ [t]" using zne True xs by (cases zs rule: rev_cases) (auto simp: t_def)
    have "fwd h us t" using linked_fwd [OF lzs] us by (simp add: fwd_append)
    moreover have "load_node x h3 = load_node x h" if "x \<in> set us" for x
      using that D(3) xs us lz by (intro nd3) auto
    ultimately show ?thesis using fwd_cong [of us h3 h t] t3 by (simp add: us fwd_append)
  next
    case False
    then have "t \<notin> set zs"
      using D(3) unfolding t_def xs by (metis disjoint_iff distinct_append last_in_set)
    then have "load_node x h3 = load_node x h" if "x \<in> set zs" for x
      using that lz by (intro nd3) auto
    then show ?thesis using fwd_cong [of zs h3 h NULL] linked_fwd [OF lzs] by simp
  qed
  have O3: "owned own zs h3" "all_owned own zs h3 = all_owned own zs h"
    using owned_frame [OF _ fr lz(1) hs] O by (auto simp: zs_def)
  from release_from_list [OF O3(1) f3 _ hd3] D(3) xs obtain h' where
    h': "release_from l pf_free (hd_or zs NULL) h3 = Some h'"
      "load_hdr l h' = Some (s3\<lparr>hsize := hsize s3 - of_nat (length zs)\<rparr>)"
    and eff: "\<And>q. q \<noteq> l \<Longrightarrow> load q h' = (if q \<in> set zs \<or> q \<in> set (all_owned own zs h) then None else load q h3)"
    using O3(2) by auto
  have zn: "hd_or zs NULL \<noteq> NULL" using zne D(6) by (simp add: hd_or_eq_NULL xs)
  have "frlist_remove_from_idx l i pf_free h = Some h'"
    using nz zn i by (simp add: frlist_remove_from_idx_def hs seek s_def)
      (use h'(1) in \<open>auto simp: s_def [symmetric] hd1 upd_node_Some [OF m1] h2_def [symmetric]
        upd_hdr_Some [OF hd2] h3_def s3_def\<close>)
  moreover have "load x h' = load x h3" if "x \<in> set ys" for x
  proof -
    have "x \<noteq> l" "x \<notin> set zs" using that D(3) lz xs by auto
    moreover have "x \<notin> set (all_owned own zs h)"
      using O that linked_nodes [OF lys that] blob_not_node [of x h] by (auto simp: owned_def zs_def)
    ultimately show ?thesis using eff [of x] by simp
  qed
  note keep = this
  have "linked h' a ys NULL"
  proof (cases ys rule: rev_cases)
    case (snoc us u)
    then have [simp]: "u = t" by (simp add: t_def)
    have "load_node x h' = load_node x h" if "x \<in> set us" for x
      using that keep [of x] D(3) xs snoc lz nd3 [of x] by (auto simp: load_node_def)
    then have "linked h' a us t" using lys linked_cong [of us h' h a t] by (simp add: snoc linked_append)
    moreover have "load_node t h' = Some (m\<lparr>nxt := NULL\<rparr>)" using keep [of t] t3 snoc by (simp add: load_node_def)
    moreover have "pre m = last_or a us" using lys m by (simp add: snoc linked_append)
    ultimately show ?thesis by (simp add: snoc linked_append)
  qed simp
  moreover have "s3\<lparr>hsize := hsize s3 - of_nat (length zs)\<rparr> =
      \<lparr>hsize = of_nat (length ys), head = hd_or ys NULL, tail = last_or NULL ys\<rparr>"
  proof (cases "ys = []")
    case True
    then show ?thesis using ly by (simp add: s3_def s_def xs)
  next
    case False
    then have "hd_or (ys @ zs) NULL = hd_or ys NULL" by (cases ys) auto
    with False show ?thesis using ly by (auto simp: s3_def s_def xs t_def last_or_def)
  qed
  moreover have "distinct ys" using D(3) xs by simp
  moreover have "load q h' = (if q \<in> set zs \<or> q \<in> set (all_owned own zs h) then None else load q h)"
    if "q \<noteq> l" "q \<notin> set ys" for q
    using eff [OF that(1)] ld3 [OF that(1)] txs that(2) xs by (cases "q = t") auto
  ultimately show ?thesis
    using h'(2) unfolding ys_def [symmetric] zs_def [symmetric] list_at_def by metis
qed

end

subsection \<open>The two disposal callbacks of the code\<close>

text \<open>No callback: only the key is released with the node.\<close>

definition own_key :: owner where
  "own_key x h = (case load_node x h of None \<Rightarrow> []
     | Some n \<Rightarrow> filter (\<lambda>q. q \<noteq> NULL) [p_key n])"

text \<open>\<open>frlist_node_data_free\<close>: the data and the key.\<close>

definition own_data_key :: owner where
  "own_data_key x h = (case load_node x h of None \<Rightarrow> []
     | Some n \<Rightarrow> filter (\<lambda>q. q \<noteq> NULL) [data n, p_key n])"

lemma payload_node_eq:
  "payload (NodeC n) = payload (NodeC m) \<Longrightarrow> data n = data m \<and> p_key n = p_key m"
  by (cases n; cases m) simp

lemma load_node_payload:
  assumes "map_option payload (load x h') = map_option payload (load x h)"
    and f: "\<And>n m. payload (NodeC n) = payload (NodeC m) \<Longrightarrow> f n = f m"
  shows "(case load_node x h' of None \<Rightarrow> d | Some n \<Rightarrow> f n) = (case load_node x h of None \<Rightarrow> d | Some n \<Rightarrow> f n)"
proof (cases "load x h")
  case None
  with assms(1) show ?thesis by (simp add: load_node_def)
next
  case (Some c)
  with assms(1) obtain c' where c': "load x h' = Some c'" "payload c' = payload c" by auto
  show ?thesis
  proof (cases "\<exists>n. c = NodeC n")
    case True
    then obtain n where n: "c = NodeC n" by blast
    with c'(2) obtain m where m: "c' = NodeC m" by (cases c') auto
    have "f m = f n" by (rule f) (use c'(2) n m in simp)
    with Some c'(1) n m show ?thesis by (simp add: load_node_def)
  next
    case False
    with c'(2) have "\<not> (\<exists>n. c' = NodeC n)" by (cases c; cases c') auto
    with Some c'(1) False show ?thesis by (auto simp: load_node_def split: frcell.splits)
  qed
qed

lemma own_key_payload:
  "map_option payload (load x h') = map_option payload (load x h) \<Longrightarrow> own_key x h' = own_key x h"
  unfolding own_key_def by (rule load_node_payload, assumption, drule payload_node_eq) simp

lemma own_data_key_payload:
  "map_option payload (load x h') = map_option payload (load x h) \<Longrightarrow>
   own_data_key x h' = own_data_key x h"
  unfolding own_data_key_def by (rule load_node_payload, assumption, drule payload_node_eq) simp

definition clr :: "addr \<Rightarrow> frheap \<Rightarrow> frheap" where
  "clr p h = h\<lparr>cells := (cells h)(p := None)\<rparr>"

lemma clr_loads [heap_simps]:
  "load q (clr p h) = (if q = p then None else load q h)"
  "load_node q (clr p h) = (if q = p then None else load_node q h)"
  "load_hdr q (clr p h) = (if q = p then None else load_hdr q h)"
  "is_blob q (clr p h) = (q \<noteq> p \<and> is_blob q h)"
  by (auto simp: clr_def load_def load_node_def load_hdr_def is_blob_def)

lemma free_clr [heap_simps]:
  "is_blob q h \<Longrightarrow> free q h = Some (clr q h)"
  "load_node q h \<noteq> None \<Longrightarrow> free q h = Some (clr q h)"
  by (auto simp: is_blob_def load_node_Some_iff clr_def free_Some)

lemma is_blob_setc [heap_simps]:
  "p \<noteq> NULL \<Longrightarrow> is_blob q (setc p (NodeC n) h) = (q \<noteq> p \<and> is_blob q h)"
  by (auto simp: is_blob_def load_setc)

interpretation no_callback: node_disposer None own_key
proof
  fix x h n
  assume n: "load_node x h = Some n" and "distinct (own_key x h)" and "\<forall>q \<in> set (own_key x h). is_blob q h"
  then have "p_key n \<noteq> NULL \<Longrightarrow> is_blob (p_key n) h" by (simp add: own_key_def)
  with n have "p_key n \<noteq> NULL \<Longrightarrow> is_blob (p_key n) h \<and> x \<noteq> p_key n"
    using blob_neq_node by blast
  then show "\<exists>h'. dispose_node None x h = Some h' \<and>
      (\<forall>q. load q h' = (if q = x \<or> q \<in> set (own_key x h) then None else load q h))"
    using n
    by (auto simp: dispose_node_def own_key_def heap_simps split: if_splits)
next
  fix x h h'
  assume "map_option payload (load x h') = map_option payload (load x h)"
  then show "own_key x h' = own_key x h" by (rule own_key_payload)
qed

lemma dispose_data_free:
  assumes n: "load_node x h = Some n" and "distinct (own_data_key x h)"
    and "\<forall>q \<in> set (own_data_key x h). is_blob q h"
  shows "\<exists>h'. dispose_node (Some frlist_node_data_free) x h = Some h' \<and>
      (\<forall>q. load q h' = (if q = x \<or> q \<in> set (own_data_key x h) then None else load q h))"
proof -
  note [simp] = n load_node_not_NULL [OF n]
  have d0: "data n \<noteq> NULL \<Longrightarrow> is_blob (data n) h" and k0: "p_key n \<noteq> NULL \<Longrightarrow> is_blob (p_key n) h"
    using assms(3) by (simp_all add: own_data_key_def)
  have d: "data n \<noteq> NULL \<Longrightarrow> is_blob (data n) h \<and> x \<noteq> data n \<and> data n \<noteq> x"
    and k: "p_key n \<noteq> NULL \<Longrightarrow> is_blob (p_key n) h \<and> x \<noteq> p_key n \<and> p_key n \<noteq> x"
    using d0 k0 blob_neq_node [OF _ n] by blast+
  have dk: "data n \<noteq> NULL \<Longrightarrow> p_key n \<noteq> NULL \<Longrightarrow> data n \<noteq> p_key n \<and> p_key n \<noteq> data n"
    using assms(2) by (auto simp: own_data_key_def)
  show ?thesis
  proof (cases "data n = NULL"; cases "p_key n = NULL")
    assume "data n = NULL" "p_key n = NULL"
    then show ?thesis
      by (simp add: dispose_node_def frlist_node_data_free_def own_data_key_def heap_simps)
  next
    assume "data n \<noteq> NULL" "p_key n = NULL"
    with d show ?thesis
      by (simp add: dispose_node_def frlist_node_data_free_def own_data_key_def heap_simps)
  next
    assume "data n = NULL" "p_key n \<noteq> NULL"
    with k show ?thesis
      by (simp add: dispose_node_def frlist_node_data_free_def own_data_key_def heap_simps)
  next
    assume "data n \<noteq> NULL" "p_key n \<noteq> NULL"
    with d k dk show ?thesis
      by (simp add: dispose_node_def frlist_node_data_free_def own_data_key_def heap_simps)
  qed
qed

interpretation data_free: node_disposer "Some frlist_node_data_free" own_data_key
  by unfold_locales (fact dispose_data_free, fact own_data_key_payload)

end
