(* ===== verification/Fifo.thy ===== *)
theory Fifo
  imports Prelude
begin

text \<open>
  The contract of a first-in first-out queue with mutable state, for the clients of
  \<open>frlist_push\<close>/\<open>frlist_pop\<close> and of the work queues of the thread pools: \<open>rep s xs\<close> says that the
  state \<open>s\<close> holds the elements \<open>xs\<close> in order, \<open>fresh s x\<close> that \<open>x\<close> may be queued.
\<close>

fun push_all :: "('s \<Rightarrow> 'e \<Rightarrow> 's option) \<Rightarrow> 'e list \<Rightarrow> 's \<Rightarrow> 's option" where
  "push_all push [] s = Some s"
| "push_all push (x # xs) s = do { s \<leftarrow> push s x; push_all push xs s }"

fun pop_many :: "('s \<Rightarrow> ('r \<times> 's) option) \<Rightarrow> nat \<Rightarrow> 's \<Rightarrow> ('r list \<times> 's) option" where
  "pop_many pop 0 s = Some ([], s)"
| "pop_many pop (Suc k) s = do {
     r \<leftarrow> pop s;
     rs \<leftarrow> pop_many pop k (snd r);
     Some (fst r # fst rs, snd rs) }"

locale fifo =
  fixes push :: "'s \<Rightarrow> 'e \<Rightarrow> 's option"
    and pop :: "'s \<Rightarrow> ('e option \<times> 's) option"
    and rep :: "'s \<Rightarrow> 'e list \<Rightarrow> bool"
    and fresh :: "'s \<Rightarrow> 'e \<Rightarrow> bool"
  assumes push: "rep s xs \<Longrightarrow> fresh s x \<Longrightarrow> x \<notin> set xs \<Longrightarrow>
      \<exists>s'. push s x = Some s' \<and> rep s' (xs @ [x]) \<and> (\<forall>y. fresh s' y = fresh s y)"
    and pop_Nil: "rep s [] \<Longrightarrow> pop s = Some (None, s)"
    and pop_Cons: "rep s (x # xs) \<Longrightarrow>
      \<exists>s'. pop s = Some (Some x, s') \<and> rep s' xs \<and> (\<forall>y. fresh s' y = fresh s y)"
begin

lemma push_all_rep:
  "rep s xs \<Longrightarrow> distinct (xs @ ys) \<Longrightarrow> \<forall>y \<in> set ys. fresh s y \<Longrightarrow>
   \<exists>s'. push_all push ys s = Some s' \<and> rep s' (xs @ ys)"
proof (induction ys arbitrary: xs s)
  case (Cons y ys)
  from push [OF Cons.prems(1), of y] Cons.prems obtain s1 where
    s1: "push s y = Some s1" "rep s1 (xs @ [y])" "\<forall>z. fresh s1 z = fresh s z" by auto
  with Cons.IH [OF s1(2)] Cons.prems show ?case by auto
qed auto

lemma pop_many_rep:
  "rep s (xs @ ys) \<Longrightarrow> \<exists>s'. pop_many pop (length xs) s = Some (map Some xs, s') \<and> rep s' ys"
proof (induction xs arbitrary: s)
  case (Cons x xs)
  then obtain s1 where "pop s = Some (Some x, s1)" "rep s1 (xs @ ys)"
    using pop_Cons by fastforce
  with Cons.IH [of s1] show ?case by auto
qed auto

text \<open>What goes in comes out in the same order, behind what was already there.\<close>

lemma fifo_order:
  assumes "rep s xs" and "distinct (xs @ ys)" and "\<forall>y \<in> set ys. fresh s y"
  shows "\<exists>s1 s2. push_all push ys s = Some s1 \<and>
    pop_many pop (length xs + length ys) s1 = Some (map Some (xs @ ys), s2) \<and> rep s2 []"
  using push_all_rep [OF assms] pop_many_rep [of _ "xs @ ys" "[]"] by fastforce

end

end
