(* ===== verification/FrListProps.thy ===== *)
theory FrListProps
  imports FrListFree Fifo
begin

text \<open>
  The list of \<open>containers/list/c/list.c\<close> as its clients see it: the FIFO behind \<open>frlist_push\<close>
  and \<open>frlist_pop\<close>, concatenation, copying, and where the code departs from its own invariant.
\<close>

subsection \<open>Push and pop\<close>

definition frlist_push :: "addr \<Rightarrow> addr \<Rightarrow> frheap \<Rightarrow> frheap option" where
  "frlist_push l p h = frlist_add_tail l p h"

definition frlist_pop :: "addr \<Rightarrow> frheap \<Rightarrow> (addr option \<times> frheap) option" where
  "frlist_pop l h =
     map_option (\<lambda>(p, h). (if p = NULL then None else Some p, h)) (frlist_remove_head l h)"

definition is_node :: "frheap \<Rightarrow> addr \<Rightarrow> bool" where
  "is_node h p \<longleftrightarrow> load_node p h \<noteq> None"

lemma hdr_not_node: "load_hdr l h = Some s \<Longrightarrow> \<not> is_node h l"
  by (simp add: is_node_def load_node_def load_hdr_Some_iff)

lemma frame_is_node:
  assumes "frame l S h h'" and "load_hdr l h = Some s" and "load_hdr l h' = Some s'"
  shows "is_node h' p = is_node h p"
proof (cases "p = l")
  case True
  then show ?thesis using hdr_not_node assms(2,3) by blast
next
  case False
  then show ?thesis using assms(1) node_payload [of p h' h] by (simp add: frame_def is_node_def)
qed

interpretation fr: fifo "\<lambda>h p. frlist_push l p h" "frlist_pop l" "\<lambda>h xs. is_list h l xs"
  is_node for l
proof
  fix h xs p
  assume "is_list h l xs" and p: "is_node h p" "p \<notin> set xs"
  then obtain a n where L: "list_at h l a xs" and "load_node p h = Some n"
    by (auto simp: is_list_def is_node_def)
  with frlist_add_tail_at [OF L _ p(2)] obtain h' a' where
    h': "frlist_add_tail l p h = Some h'" "list_at h' l a' (xs @ [p])" and
    fr: "frame l (insert p (set xs)) h h'" by blast
  with frame_is_node [OF fr list_atD(1) [OF L] list_atD(1) [OF h'(2)]]
  show "\<exists>h'. frlist_push l p h = Some h' \<and> is_list h' l (xs @ [p]) \<and>
      (\<forall>y. is_node h' y = is_node h y)"
    by (auto simp: frlist_push_def is_list_def)
next
  fix h
  assume "is_list h l []"
  then show "frlist_pop l h = Some (None, h)"
    by (auto simp: is_list_def frlist_pop_def frlist_remove_head_Nil)
next
  fix h x xs
  assume "is_list h l (x # xs)"
  then obtain a where L: "list_at h l a (x # xs)" by (auto simp: is_list_def)
  from frlist_remove_head_at [OF this] obtain h' where
    h': "frlist_remove_head l h = Some (x, h')" "list_at h' l NULL xs" and
    fr: "frame l (insert x (set xs)) h h'" by blast
  with frame_is_node [OF fr list_atD(1) [OF L] list_atD(1) [OF h'(2)]] list_atD(6) [OF L]
  show "\<exists>h'. frlist_pop l h = Some (Some x, h') \<and> is_list h' l xs \<and>
      (\<forall>y. is_node h' y = is_node h y)"
    by (auto simp: frlist_pop_def is_list_def)
qed

subsection \<open>Concatenation\<close>

lemma of_nat_length_zero:
  "length xs < 2 ^ 32 \<Longrightarrow> ((of_nat (length xs) :: 32 word) = 0) = (xs = [])"
  by (auto simp: word_unat_eq_iff unat_of_nat take_bit_nat_eq_self)

lemma frlist_merge_at:
  assumes D: "list_at h d a xs" and S: "list_at h s b ys" and ne: "d \<noteq> s" "set xs \<inter> set ys = {}"
    and "d \<notin> set ys" "s \<notin> set xs" and len: "length xs < 2 ^ 32" "length ys < 2 ^ 32" and "ys \<noteq> []"
  shows "\<exists>h'. frlist_merge_header_top d s h = Some h' \<and> list_at h' s NULL [] \<and>
    load_hdr d h' = Some \<lparr>hsize = of_nat (length ys + length xs), head = hd ys, tail = last (ys @ xs)\<rparr> \<and>
    linked h' b ys (hd_or xs NULL) \<and> linked h' a xs NULL"
proof -
  obtain zs z where ys: "ys = zs @ [z]" using \<open>ys \<noteq> []\<close> by (cases ys rule: rev_cases) auto
  from list_atD(2) [OF S] ys obtain m where m: "load_node z h = Some m" "pre m = last_or b zs" "nxt m = NULL"
    and zs: "linked h b zs z" by (auto simp: linked_append)
  have hd: "hd_or (zs @ [z]) NULL = hd ys" by (simp add: ys hd_or_def split: list.splits)
  note [simp] = list_atD(1,4) [OF D] list_atD(1,4) [OF S] load_node_not_NULL [OF m(1)] ne(1) ne(1) [symmetric]
    node_hdr_disjoint [OF m(1) list_atD(1) [OF D]] node_hdr_disjoint [OF m(1) list_atD(1) [OF S]]
  have hd2: "hd_or zs z = hd ys" by (cases zs) (auto simp: ys)
  have n0: "(of_nat (length ys) :: 32 word) \<noteq> 0" using of_nat_length_zero [OF len(2)] \<open>ys \<noteq> []\<close> by blast
  note facts = list_atD(2,3,5,6) [OF D] list_atD(3,5,6) [OF S] ne(2) assms(5,6) zs
  show ?thesis
  proof (cases "xs = []")
    case True
    with n0 facts show ?thesis
      by (auto simp: frlist_merge_header_top_def ys m list_ops_simps hd2 algebra_simps)
  next
    case False
    then have x0: "(of_nat (length xs) :: 32 word) \<noteq> 0" using of_nat_length_zero [OF len(1)] by simp
    with False n0 facts show ?thesis
      by (auto simp: frlist_merge_header_top_def ys m list_ops_simps hd2 last_or_def algebra_simps)
  qed
qed

subsection \<open>Copying\<close>

definition node_data :: "frheap \<Rightarrow> addr \<Rightarrow> addr" where
  "node_data h x = (case load_node x h of Some n \<Rightarrow> data n | None \<Rightarrow> NULL)"

lemma node_data_payload:
  assumes "map_option payload (load x h') = map_option payload (load x h)"
  shows "node_data h' x = node_data h x"
proof -
  have "(case load_node x h' of None \<Rightarrow> NULL | Some n \<Rightarrow> data n) =
    (case load_node x h of None \<Rightarrow> NULL | Some n \<Rightarrow> data n)"
    by (rule load_node_payload [OF assms]) (drule payload_node_eq, simp)
  then show ?thesis by (simp add: node_data_def)
qed

text \<open>The data the copy gets under a script of allocation failures: a failed node is dropped.\<close>

fun copied :: "bool list \<Rightarrow> addr list \<Rightarrow> addr list" where
  "copied os [] = []"
| "copied os (d # ds) =
     (if d = NULL then copied os ds
      else if os \<noteq> [] \<and> hd os then copied (tl os) ds
      else d # copied (tl os) ds)"

lemma copied_no_failure: "True \<notin> set os \<Longrightarrow> copied os ds = filter (\<lambda>d. d \<noteq> NULL) ds"
proof (induction ds arbitrary: os)
  case (Cons d ds)
  then show ?case by (cases os) auto
qed simp

text \<open>One copied node: fresh, with the same \<open>data\<close>, at the end of the destination.\<close>

lemma copy_one:
  assumes wf: "wf_heap h" and L: "list_at h d a xs" and ok: "oom h = [] \<or> \<not> hd (oom h)"
    and c: "frlist_node_create p h = (q, h1)"
  shows "q \<noteq> NULL" and "load_node q h = None" and
    "\<exists>h2 a'. frlist_add_tail d q h1 = Some h2 \<and> list_at h2 d a' (xs @ [q]) \<and> wf_heap h2 \<and>
      oom h2 = tl (oom h) \<and> node_data h2 q = p \<and>
      (\<forall>x. x \<noteq> q \<longrightarrow> node_data h2 x = node_data h x) \<and>
      (\<forall>x. x \<noteq> d \<longrightarrow> x \<noteq> q \<longrightarrow> x \<notin> set xs \<longrightarrow> load x h2 = load x h)"
proof -
  from c have q: "q = brk h" and h1: "h1 = (snd (frlist_node_create p h))"
    and ld: "\<And>x. load x h1 = (if x = q then Some (NodeC \<lparr>pre = NULL, nxt = NULL, data = p, ul_idx = 0,
      l_key = 0, p_key = NULL, ui_key_len = 0\<rparr>) else load x h)"
    and om: "oom h1 = tl (oom h)" and wf1: "wf_heap h1"
    using malloc_ok [OF ok] wf_heap_malloc [OF wf, of _ q h1] wf_heap_brk_pos [OF wf]
    by (auto simp: frlist_node_create_def load_def)
  show qn: "q \<noteq> NULL" and qf: "load_node q h = None"
    using wf_heap_brk_pos [OF wf] wf_heap_fresh [OF wf] by (simp_all add: q load_node_def)
  have nodes: "load_node x h1 = load_node x h" if "x \<noteq> q" for x using ld that by (simp add: load_node_def)
  have hdrs: "load_hdr x h1 = load_hdr x h" for x
    using ld [of x] wf_heap_fresh [OF wf] q by (auto simp: load_hdr_def)
  have qx: "q \<notin> set xs" using qf linked_nodes [OF list_atD(2) [OF L]] by fastforce
  have "linked h1 a xs NULL = linked h a xs NULL"
    by (rule linked_cong, rule nodes) (use qx in auto)
  then have L1: "list_at h1 d a xs" using L hdrs by (simp add: list_at_def)
  from ld [of q] have n: "load_node q h1 = Some \<lparr>pre = NULL, nxt = NULL, data = p, ul_idx = 0,
      l_key = 0, p_key = NULL, ui_key_len = 0\<rparr>" by (simp add: load_node_def)
  from frlist_add_tail_at [OF L1 n qx] obtain h2 a' where
    h2: "frlist_add_tail d q h1 = Some h2" "list_at h2 d a' (xs @ [q])"
    and fr: "frame d (insert q (set xs)) h1 h2" by blast
  have data2: "node_data h2 x = node_data h1 x" for x
  proof (cases "x = d")
    case True
    then show ?thesis using hdr_not_node list_atD(1) [OF L1] list_atD(1) [OF h2(2)]
      by (simp add: node_data_def is_node_def)
  next
    case False
    then show ?thesis using fr by (auto simp: frame_def intro!: node_data_payload)
  qed
  have "wf_heap h2"
  proof -
    have "load x h2 = None" if "x \<ge> brk h1" for x
      using fr wf1 that list_atD(1) [OF L1] by (cases "x = d") (auto simp: frame_def wf_heap_def load_hdr_Some_iff)
    then show ?thesis using fr wf1 by (simp add: wf_heap_def frame_def)
  qed
  moreover have "node_data h1 q = p" and "x \<noteq> q \<Longrightarrow> node_data h1 x = node_data h x" for x
    using n nodes by (simp_all add: node_data_def)
  moreover have "load x h2 = load x h" if "x \<noteq> d" "x \<noteq> q" "x \<notin> set xs" for x
    using fr ld that by (simp add: frame_def)
  moreover have "oom h2 = tl (oom h)" using fr om by (simp add: frame_def)
  ultimately show "\<exists>h2 a'. frlist_add_tail d q h1 = Some h2 \<and> list_at h2 d a' (xs @ [q]) \<and> wf_heap h2 \<and>
      oom h2 = tl (oom h) \<and> node_data h2 q = p \<and>
      (\<forall>x. x \<noteq> q \<longrightarrow> node_data h2 x = node_data h x) \<and>
      (\<forall>x. x \<noteq> d \<longrightarrow> x \<noteq> q \<longrightarrow> x \<notin> set xs \<longrightarrow> load x h2 = load x h)"
    using h2 data2 by metis
qed

lemma copy_fail:
  assumes "oom h \<noteq> []" and "hd (oom h)"
  shows "frlist_node_create p h = (NULL, h\<lparr>oom := tl (oom h)\<rparr>)"
  using assms by (simp add: frlist_node_create_def malloc_def)

lemma node_loads_oom [simp]:
  "load_node q (h\<lparr>oom := os\<rparr>) = load_node q h" "load_hdr q (h\<lparr>oom := os\<rparr>) = load_hdr q h"
  by (simp_all add: load_node_def load_hdr_def)

lemma linked_oom [simp]: "linked (h\<lparr>oom := os\<rparr>) a xs b = linked h a xs b"
  by (rule linked_cong) simp

text \<open>The copying loop, with the destination \<open>d\<close> apart from the nodes \<open>ys\<close> still to copy.\<close>

lemma shallow_copy_from_at:
  "wf_heap h \<Longrightarrow> list_at h d a xs \<Longrightarrow> fwd h ys NULL \<Longrightarrow> d \<notin> set ys \<Longrightarrow> set xs \<inter> set ys = {} \<Longrightarrow>
   \<exists>h' a' ns. shallow_copy_from d (hd_or ys NULL) h = Some h' \<and> list_at h' d a' (xs @ ns) \<and>
     map (node_data h') ns = copied (oom h) (map (node_data h) ys) \<and>
     (\<forall>x. load_node x h \<noteq> None \<longrightarrow> node_data h' x = node_data h x) \<and>
     (\<forall>x \<in> set ns. load_node x h = None) \<and>
     (\<forall>x. x \<noteq> d \<longrightarrow> x \<notin> set xs \<longrightarrow> load x h \<noteq> None \<longrightarrow> load x h' = load x h)"
proof (induction ys arbitrary: h a xs)
  case Nil
  then show ?case by (intro exI [of _ h] exI [of _ a] exI [of _ "[]"]) (simp add: shallow_copy_from.simps)
next
  case (Cons y ys)
  note wf = Cons.prems(1) and L = Cons.prems(2)
  from Cons.prems(3) obtain n where n: "load_node y h = Some n" "nxt n = hd_or ys NULL"
    and f: "fwd h ys NULL" by auto
  have nd: "node_data h y = data n" by (simp add: node_data_def n)
  have ynn: "y \<noteq> NULL" by (rule load_node_not_NULL [OF n(1)])
  have isn: "z \<in> set ys \<Longrightarrow> load_node z h \<noteq> None" for z using f by (induction ys) auto
  note unf = shallow_copy_from.simps [of d y h]
  consider (skip) "data n = NULL" | (fail) "data n \<noteq> NULL" "oom h \<noteq> []" "hd (oom h)"
    | (ok) "data n \<noteq> NULL" "oom h = [] \<or> \<not> hd (oom h)" by blast
  then show ?case
  proof cases
    case skip
    with Cons.IH [OF wf L f] Cons.prems(4,5) ynn n nd show ?thesis by (auto simp: unf)
  next
    case fail
    let ?h = "h\<lparr>oom := tl (oom h)\<rparr>"
    have "wf_heap ?h" "list_at ?h d a xs" "fwd ?h ys NULL" "\<And>x. node_data ?h x = node_data h x"
      using wf L f fwd_cong [of ys ?h h NULL] by (simp_all add: wf_heap_def list_at_def node_data_def)
    with Cons.IH [of ?h a xs] Cons.prems(4,5) ynn n nd fail show ?thesis
      by (auto simp: unf copy_fail)
  next
    case ok
    obtain q h1 where c: "frlist_node_create (data n) h = (q, h1)" by fastforce
    from copy_one [OF wf L ok(2) c] obtain h2 a' where q: "q \<noteq> NULL" "load_node q h = None"
      and h2: "frlist_add_tail d q h1 = Some h2" "list_at h2 d a' (xs @ [q])" "wf_heap h2"
        "oom h2 = tl (oom h)" "node_data h2 q = data n"
      and d2: "\<And>x. x \<noteq> q \<Longrightarrow> node_data h2 x = node_data h x"
      and l2: "\<And>x. x \<noteq> d \<Longrightarrow> x \<noteq> q \<Longrightarrow> x \<notin> set xs \<Longrightarrow> load x h2 = load x h" by blast
    have qy: "q \<notin> set ys" using q(2) isn by blast
    have "load_node z h2 = load_node z h" if "z \<in> set ys" for z
    proof -
      have "z \<noteq> d" "z \<noteq> q" "z \<notin> set xs" using that Cons.prems(4,5) qy by auto
      then show ?thesis using l2 [of z] by (simp add: load_node_def)
    qed
    then have f2: "fwd h2 ys NULL" using f fwd_cong by blast
    have "set (xs @ [q]) \<inter> set ys = {}" using Cons.prems(5) qy by auto
    with Cons.IH [OF h2(3,2) f2] Cons.prems(4) obtain h' b ns where
      h': "shallow_copy_from d (hd_or ys NULL) h2 = Some h'" "list_at h' d b ((xs @ [q]) @ ns)"
      and nsd: "map (node_data h') ns = copied (oom h2) (map (node_data h2) ys)"
      and d': "\<And>x. load_node x h2 \<noteq> None \<Longrightarrow> node_data h' x = node_data h2 x"
      and fresh: "\<forall>x \<in> set ns. load_node x h2 = None"
      and l': "\<And>x. x \<noteq> d \<Longrightarrow> x \<notin> set (xs @ [q]) \<Longrightarrow> load x h2 \<noteq> None \<Longrightarrow> load x h' = load x h2"
      by auto
    have mq: "map (node_data h2) ys = map (node_data h) ys" 
      by (rule map_cong [OF refl], rule d2) (use qy in blast)
    have q2: "load_node q h2 \<noteq> None" using linked_nodes [OF list_atD(2) [OF h2(2)], of q] by auto
    have keep: "load_node x h \<noteq> None \<Longrightarrow> load_node x h2 \<noteq> None" for x
    proof -
      assume x: "load_node x h \<noteq> None"
      then have "x \<noteq> q" "x \<noteq> d" using q(2) hdr_not_node list_atD(1) [OF L] by (auto simp: is_node_def)
      then show "load_node x h2 \<noteq> None"
        using l2 [of x] x linked_nodes [OF list_atD(2) [OF h2(2)], of x]
        by (cases "x \<in> set xs") (auto simp: load_node_def [of x h2] load_node_def [of x h])
    qed
    have "shallow_copy_from d y h = Some h'"
      using ynn ok(1) q(1) by (simp add: unf n c h2 h')
    moreover have "map (node_data h') (q # ns) = copied (oom h) (map (node_data h) (y # ys))"
      using nsd d' [OF q2] h2(4,5) ok nd mq by auto
    moreover have "node_data h' x = node_data h x" if "load_node x h \<noteq> None" for x
      using d' [OF keep [OF that]] d2 [of x] that q(2) by (cases "x = q") auto
    moreover have "\<forall>x \<in> set (q # ns). load_node x h = None" using fresh keep q(2) by (metis set_ConsD)
    moreover have "load x h' = load x h" if "x \<noteq> d" "x \<notin> set xs" "load x h \<noteq> None" for x
    proof -
      have "x \<noteq> q" using that(3) c wf_heap_fresh [OF wf] malloc_ok [OF ok(2)] by (auto simp: frlist_node_create_def)
      then show ?thesis using l' [of x] l2 [of x] that by auto
    qed
    ultimately show ?thesis using h'(2)
      by (intro exI [of _ h'] exI [of _ b] exI [of _ "q # ns"]) simp
  qed
qed

end
