(* ===== verification/FrListShow.thy ===== *)
theory FrListShow
  imports FrListLoops
begin

text \<open>
  \<open>frlist_show\<close>, \<open>frlist_show_all\<close> and \<open>frlist_show_all2\<close>: the text of all nodes in one
  buffer, of the caller's size in the first and grown on demand in the other two.  Output
  buffers are blocks of the heap with uninitialised cells, so a write past a buffer's end, a
  string without terminator and the use of a freed buffer are all \<^term>\<open>None\<close>.
  Lengths are natural numbers: texts of 2 GiB and more, where \<open>int i_used\<close> would overflow, are
  outside the model.
\<close>

subsection \<open>The operations\<close>

text \<open>\<open>pf_show(node, buffer, size)\<close>: the text it leaves in the buffer, without the terminator.\<close>

type_synonym list_node_show = "addr \<Rightarrow> nat \<Rightarrow> frheap \<Rightarrow> byte list"

text \<open>\<open>pf_show(node, &p_tmp)\<close>: the block it allocated for the text, or NULL.\<close>

type_synonym list_node_show_all = "addr \<Rightarrow> frheap \<Rightarrow> (addr \<times> frheap) option"

definition load_blob :: "addr \<Rightarrow> frheap \<Rightarrow> cbuf option" where
  "load_blob p h = (case load p h of Some (BlobC b) \<Rightarrow> Some b | _ \<Rightarrow> None)"

text \<open>\<open>strcpy(p + i, s)\<close> and the string at \<open>p + i\<close>.\<close>

definition put_str :: "addr \<Rightarrow> nat \<Rightarrow> byte list \<Rightarrow> frheap \<Rightarrow> frheap option" where
  "put_str p i s h = do {
     b \<leftarrow> load_blob p h;
     b \<leftarrow> pokes b i (s @ [0]);
     store p (BlobC b) h }"

definition get_str :: "addr \<Rightarrow> nat \<Rightarrow> frheap \<Rightarrow> byte list option" where
  "get_str p i h = do { b \<leftarrow> load_blob p h; cstring_at b i }"

partial_function (option) show_from ::
  "list_node_show \<Rightarrow> addr \<Rightarrow> nat \<Rightarrow> addr \<Rightarrow> nat \<Rightarrow> frheap \<Rightarrow> frheap option" where
  [code]: "show_from pf out sz p i_used h =
     (if p = NULL \<or> \<not> i_used + 1 < sz then Some h
      else do {
        h \<leftarrow> put_str out i_used (pf p (sz - i_used) h) h;
        s \<leftarrow> get_str out i_used h;
        n \<leftarrow> load_node p h;
        show_from pf out sz (nxt n) (i_used + length s) h })"

definition frlist_show ::
  "addr \<Rightarrow> addr \<Rightarrow> nat \<Rightarrow> list_node_show option \<Rightarrow> frheap \<Rightarrow> frheap option" where
  "frlist_show l out ui_buff_size pf_show h =
     (case pf_show of
        None \<Rightarrow> Some h
      | Some pf \<Rightarrow>
          if l = NULL then Some h
          else do {
            h \<leftarrow> put_str out 0 [] h;
            s \<leftarrow> load_hdr l h;
            show_from pf out ui_buff_size (head s) 0 h })"

text \<open>
  Appending \<open>t\<close> to the text in \<open>p_all\<close>: into a larger block (\<open>snprintf(\<dots>, "%s%s", \<dots>)\<close>) when
  it would not fit, with \<open>strcat\<close> otherwise.  \<^term>\<open>None\<close> as the inner result is the
  \<open>malloc err\<close> exit, which has released \<open>p_all\<close>.
\<close>

definition append_text ::
  "addr \<Rightarrow> nat \<Rightarrow> nat \<Rightarrow> byte list \<Rightarrow> frheap \<Rightarrow> ((addr \<times> nat \<times> nat) option \<times> frheap) option" where
  "append_text p_all i_used i_malloc t h =
     (let i_used = i_used + length t in
      if i_malloc \<le> i_used then
        (let i_malloc = (if i_used - i_malloc < 1024 then i_malloc + 1024
                         else i_malloc + (i_used + 1));
             (p_remalloc, h) = malloc (BlobC (uninit i_malloc)) h
         in if p_remalloc = NULL then do { h \<leftarrow> free p_all h; Some (None, h) }
            else do {
              a \<leftarrow> get_str p_all 0 h;
              h \<leftarrow> put_str p_remalloc 0 (take (i_malloc - 1) (a @ t)) h;
              h \<leftarrow> free p_all h;
              Some (Some (p_remalloc, i_used, i_malloc), h) })
      else do {
        a \<leftarrow> get_str p_all 0 h;
        h \<leftarrow> put_str p_all (length a) t h;
        Some (Some (p_all, i_used, i_malloc), h) })"

partial_function (option) show_all_from ::
  "list_node_show_all \<Rightarrow> addr \<Rightarrow> addr \<Rightarrow> nat \<Rightarrow> nat \<Rightarrow> frheap \<Rightarrow> (addr option \<times> frheap) option" where
  [code]: "show_all_from pf p p_all i_used i_malloc h =
     (if p = NULL then Some (Some p_all, h)
      else do {
        r \<leftarrow> pf p h;
        (if fst r \<noteq> NULL then do {
           t \<leftarrow> get_str (fst r) 0 (snd r);
           a \<leftarrow> append_text p_all i_used i_malloc t (snd r);
           (case fst a of
              None \<Rightarrow> Some (None, snd a)
            | Some (p_all, i_used, i_malloc) \<Rightarrow> do {
                h \<leftarrow> free (fst r) (snd a);
                n \<leftarrow> load_node p h;
                show_all_from pf (nxt n) p_all i_used i_malloc h }) }
         else do {
           n \<leftarrow> load_node p (snd r);
           show_all_from pf (nxt n) p_all i_used i_malloc (snd r) }) })"

text \<open>The value is what \<open>*pp_outbuff\<close> is set to; \<^term>\<open>None\<close> where it is left unset.\<close>

definition frlist_show_all ::
  "addr \<Rightarrow> bool \<Rightarrow> list_node_show_all option \<Rightarrow> frheap \<Rightarrow> (addr option \<times> frheap) option" where
  "frlist_show_all l pp_outbuff_given pf_show h =
     (case pf_show of
        None \<Rightarrow> Some (None, h)
      | Some pf \<Rightarrow>
          if l = NULL \<or> \<not> pp_outbuff_given then Some (None, h)
          else (let (p_all, h) = malloc (BlobC (uninit 1024)) h in
                if p_all = NULL then Some (None, h)
                else do {
                  h \<leftarrow> put_str p_all 0 [] h;
                  s \<leftarrow> load_hdr l h;
                  show_all_from pf (head s) p_all 0 1024 h }))"

text \<open>\<open>frlist_show_all2\<close> has each node shown into a local array of 2048 characters.\<close>

partial_function (option) show_all2_from ::
  "list_node_show \<Rightarrow> addr \<Rightarrow> addr \<Rightarrow> nat \<Rightarrow> nat \<Rightarrow> frheap \<Rightarrow> (addr option \<times> frheap) option" where
  [code]: "show_all2_from pf p p_all i_used i_malloc h =
     (if p = NULL then Some (Some p_all, h)
      else do {
        arr_tmp \<leftarrow> pokes (uninit 2048) 0 (pf p 2048 h @ [0]);
        t \<leftarrow> cstring arr_tmp;
        a \<leftarrow> append_text p_all i_used i_malloc t h;
        (case fst a of
           None \<Rightarrow> Some (None, snd a)
         | Some (p_all, i_used, i_malloc) \<Rightarrow> do {
             n \<leftarrow> load_node p (snd a);
             show_all2_from pf (nxt n) p_all i_used i_malloc (snd a) }) })"

definition frlist_show_all2 ::
  "addr \<Rightarrow> bool \<Rightarrow> list_node_show option \<Rightarrow> frheap \<Rightarrow> (addr option \<times> frheap) option" where
  "frlist_show_all2 l pp_outbuff_given pf_show h =
     (case pf_show of
        None \<Rightarrow> Some (None, h)
      | Some pf \<Rightarrow>
          if l = NULL \<or> \<not> pp_outbuff_given then Some (None, h)
          else (let (p_all, h) = malloc (BlobC (uninit 1024)) h in
                if p_all = NULL then Some (None, h)
                else do {
                  h \<leftarrow> put_str p_all 0 [] h;
                  s \<leftarrow> load_hdr l h;
                  show_all2_from pf (head s) p_all 0 1024 h }))"

subsection \<open>The growing buffer\<close>

text \<open>\<open>text_buf h p cap s\<close>: the block \<open>p\<close> has room for \<open>cap\<close> characters and holds the string \<open>s\<close>.\<close>

definition text_buf :: "frheap \<Rightarrow> addr \<Rightarrow> nat \<Rightarrow> byte list \<Rightarrow> bool" where
  "text_buf h p cap s \<longleftrightarrow> length s < cap \<and>
     (\<exists>b. load_blob p h = Some b \<and> length b = cap \<and> cstring b = Some s)"

lemma load_blob_Some_iff: "(load_blob p h = Some b) = (load p h = Some (BlobC b))"
  by (auto simp: load_blob_def split: option.splits frcell.splits)

lemma text_bufE:
  assumes "text_buf h p cap s"
  obtains r where "load p h = Some (BlobC (map Some s @ Some 0 # r))" and "0 \<notin> set s"
    and "cap = Suc (length s + length r)"
  using assms by (auto simp: text_buf_def load_blob_Some_iff cstring_Some_iff)

lemma text_bufI:
  "load p h = Some (BlobC (map Some s @ Some 0 # r)) \<Longrightarrow> 0 \<notin> set s \<Longrightarrow> cap = Suc (length s + length r) \<Longrightarrow>
   text_buf h p cap s"
  by (auto simp: text_buf_def load_blob_Some_iff cstring_app)

lemma text_buf_get_str: "text_buf h p cap s \<Longrightarrow> get_str p 0 h = Some s"
  by (auto simp: text_buf_def get_str_def cstring_at_def)

lemma put_str_blob:
  assumes "load p h = Some (BlobC b)" and "i + length s < length b"
  shows "put_str p i s h = Some (setc p (BlobC (take i b @ map Some s @ Some 0 # drop (Suc (i + length s)) b)) h)"
  using assms by (simp add: put_str_def load_blob_Some_iff [THEN iffD2] pokes_Some store_Some setc_def)

text \<open>Appending keeps the buffer well formed, whether or not it has to move.\<close>

lemma append_text_ok:
  assumes T: "text_buf h p cap s" and t: "0 \<notin> set t" and wf: "wf_heap h" and oom: "oom h = []"
  shows "\<exists>p' cap' h'. append_text p (length s) cap t h = Some (Some (p', length (s @ t), cap'), h') \<and>
    text_buf h' p' cap' (s @ t) \<and> wf_heap h' \<and> oom h' = [] \<and> brk h \<le> brk h' \<and>
    (\<forall>q. q \<noteq> p \<longrightarrow> q \<noteq> p' \<longrightarrow> load q h' = load q h) \<and> (p' \<noteq> p \<longrightarrow> load p h' = None \<and> load p' h = None)"
proof -
  from T obtain r where b: "load p h = Some (BlobC (map Some s @ Some 0 # r))" and s: "0 \<notin> set s"
    and cap: "cap = Suc (length s + length r)" by (rule text_bufE)
  have pn: "p \<noteq> NULL" and plt: "p < brk h"
    using b wf by (auto simp: wf_heap_def not_le [symmetric])
  show ?thesis
  proof (cases "cap \<le> length s + length t")
    case False
    have "put_str p (length s) t h = Some (setc p (BlobC (map Some (s @ t) @ Some 0 # drop (length t) r)) h)"
      using put_str_blob [OF b, of "length s" t] False cap by simp
    moreover have "wf_heap (setc p (BlobC (map Some (s @ t) @ Some 0 # drop (length t) r)) h)"
      using wf pn plt by (auto simp: wf_heap_def load_setc)
    ultimately show ?thesis using False cap t s pn oom
      by (auto simp: append_text_def text_buf_get_str [OF T] load_setc
          intro!: exI [of _ p] exI [of _ cap] text_bufI)
  next
    case True
    define c where "c = (if length s + length t - cap < 1024 then cap + 1024
      else cap + (length s + length t + 1))"
    have c: "length s + length t < c" by (auto simp: c_def)
    let ?q = "brk h"
    define h1 where "h1 = snd (malloc (BlobC (uninit c)) h)"
    have m: "malloc (BlobC (uninit c)) h = (?q, h1)" and l1: "\<And>x. load x h1 = (if x = ?q then Some (BlobC (uninit c)) else load x h)"
      and wf1: "wf_heap h1" and o1: "oom h1 = []" and b1: "brk h1 = Suc ?q"
      using malloc_ok [of h "BlobC (uninit c)"] oom wf_heap_brk_pos [OF wf] wf_heap_malloc [OF wf]
      by (auto simp: h1_def load_def)
    have qn: "?q \<noteq> NULL" by (rule wf_heap_brk_pos [OF wf])
    have T1: "text_buf h1 p cap s" using T l1 plt by (auto simp: text_buf_def load_blob_def)
    define h2 where "h2 = setc ?q (BlobC (map Some (s @ t) @ Some 0 # drop (Suc (length s + length t)) (uninit c))) h1"
    have tk: "take (c - Suc 0) s = s" "take (c - Suc (length s)) t = t" using c by auto
    have p2: "put_str ?q 0 (s @ t) h1 = Some h2"
      using put_str_blob [of ?q h1 "uninit c" 0 "s @ t"] l1 c by (simp add: h2_def)
    have l2: "load x h2 = (if x = ?q then Some (BlobC (map Some (s @ t) @ Some 0 # drop (Suc (length s + length t)) (uninit c)))
        else load x h)" for x using qn l1 by (simp add: h2_def load_setc)
    define h3 where "h3 = h2\<lparr>cells := (cells h2)(p := None)\<rparr>"
    have f3: "free p h2 = Some h3" using l2 [of p] b plt by (simp add: h3_def free_Some)
    have l3: "load x h3 = (if x = p then None else load x h2)" for x by (simp add: h3_def load_def)
    have "wf_heap h3"
      using wf1 b1 l2 l3 plt wf by (auto simp: wf_heap_def h3_def h2_def setc_def)
    moreover have "text_buf h3 ?q c (s @ t)"
      using l2 [of ?q] l3 [of ?q] plt c s t by (intro text_bufI) auto
    moreover have "append_text p (length s) cap t h = Some (Some (?q, length (s @ t), c), h3)"
      using True qn by (simp add: append_text_def c_def [symmetric] m text_buf_get_str [OF T1] p2 f3 tk Let_def)
    moreover have "brk h3 = Suc ?q" "oom h3 = []" using b1 o1 by (simp_all add: h3_def h2_def)
    ultimately show ?thesis using l2 l3 plt wf_heap_fresh [OF wf]
      by (intro exI [of _ ?q] exI [of _ c] exI [of _ h3]) auto
  qed
qed

subsection \<open>The text of the whole list\<close>

text \<open>A callback that allocates the text of the node, and gives NULL for a node without one.\<close>

definition str_cb :: "(addr \<Rightarrow> byte list option) \<Rightarrow> list_node_show_all" where
  "str_cb txt p h =
     (case txt p of None \<Rightarrow> Some (NULL, h) | Some t \<Rightarrow> Some (malloc (BlobC (str_buf t)) h))"

definition all_text :: "(addr \<Rightarrow> byte list option) \<Rightarrow> addr list \<Rightarrow> byte list" where
  "all_text txt xs = concat (map (\<lambda>x. case txt x of None \<Rightarrow> [] | Some t \<Rightarrow> t) xs)"

definition texts_ok :: "(addr \<Rightarrow> byte list option) \<Rightarrow> addr list \<Rightarrow> bool" where
  "texts_ok txt xs \<longleftrightarrow> (\<forall>x \<in> set xs. \<forall>t. txt x = Some t \<longrightarrow> 0 \<notin> set t)"

lemma show_all_from_ok:
  "fwd h xs NULL \<Longrightarrow> text_buf h p cap s \<Longrightarrow> wf_heap h \<Longrightarrow> oom h = [] \<Longrightarrow> texts_ok txt xs \<Longrightarrow>
   \<exists>p' cap' h'. show_all_from (str_cb txt) (hd_or xs NULL) p (length s) cap h = Some (Some p', h') \<and>
     text_buf h' p' cap' (s @ all_text txt xs) \<and>
     (\<forall>q. q \<noteq> p \<longrightarrow> q \<noteq> p' \<longrightarrow> load q h' = load q h) \<and> (p' \<noteq> p \<longrightarrow> load p h' = None \<and> load p' h = None)"
proof (induction xs arbitrary: h p cap s)
  case Nil
  then show ?case by (auto simp: show_all_from.simps [of _ NULL] all_text_def)
next
  case (Cons x xs)
  note T = Cons.prems(2) and wf = Cons.prems(3) and oom = Cons.prems(4)
  from Cons.prems(1) obtain n where n: "load_node x h = Some n" "nxt n = hd_or xs NULL" and f: "fwd h xs NULL"
    by auto
  have xn: "x \<noteq> NULL" by (rule load_node_not_NULL [OF n(1)])
  have ok: "texts_ok txt xs" using Cons.prems(5) by (simp add: texts_ok_def)
  have nodes: "load_node z h \<noteq> None" if "z \<in> set xs" for z using f that by (induction xs) auto
  have p_blob: "load_node p h = None" "load p h \<noteq> None" using T by (auto simp: text_buf_def load_node_def load_blob_Some_iff)
  note unf = show_all_from.simps [of "str_cb txt" x p "length s" cap h]
  show ?case
  proof (cases "txt x")
    case None
    then have "str_cb txt x h = Some (NULL, h)" and "all_text txt (x # xs) = all_text txt xs"
      by (simp_all add: str_cb_def all_text_def)
    with Cons.IH [OF f T wf oom ok] n xn show ?thesis by (simp add: unf)
  next
    case (Some t)
    then have t: "0 \<notin> set t" using Cons.prems(5) by (auto simp: texts_ok_def)
    let ?tmp = "brk h"
    define h1 where "h1 = snd (malloc (BlobC (str_buf t)) h)"
    have m: "malloc (BlobC (str_buf t)) h = (?tmp, h1)"
      and l1: "\<And>q. load q h1 = (if q = ?tmp then Some (BlobC (str_buf t)) else load q h)"
      and wf1: "wf_heap h1" and o1: "oom h1 = []"
      using malloc_ok [of h "BlobC (str_buf t)"] oom wf_heap_brk_pos [OF wf] wf_heap_malloc [OF wf]
      by (auto simp: h1_def load_def)
    have cb: "str_cb txt x h = Some (?tmp, h1)" by (simp add: str_cb_def Some m)
    have fresh: "load ?tmp h = None" by (rule wf_heap_fresh [OF wf])
    have tmp: "?tmp \<noteq> NULL" "?tmp \<noteq> p" using wf_heap_brk_pos [OF wf] fresh p_blob by auto
    have T1: "text_buf h1 p cap s" using T l1 [of p] tmp by (simp add: text_buf_def load_blob_def)
    have g1: "get_str ?tmp 0 h1 = Some t"
      using l1 [of ?tmp] t by (simp add: get_str_def load_blob_def cstring_at_def)
    from append_text_ok [OF T1 t wf1 o1] obtain p2 c2 h2 where
      a: "append_text p (length s) cap t h1 = Some (Some (p2, length (s @ t), c2), h2)"
      and T2: "text_buf h2 p2 c2 (s @ t)" and wf2: "wf_heap h2" and o2: "oom h2 = []"
      and l2: "\<And>q. q \<noteq> p \<Longrightarrow> q \<noteq> p2 \<Longrightarrow> load q h2 = load q h1"
      and p2: "p2 \<noteq> p \<Longrightarrow> load p h2 = None \<and> load p2 h1 = None" by blast
    have p2t: "p2 \<noteq> ?tmp" using p2 tmp l1 [of ?tmp] by fastforce
    have lt2: "load ?tmp h2 = Some (BlobC (str_buf t))" using l2 [of ?tmp] tmp p2t l1 by auto
    define h3 where "h3 = h2\<lparr>cells := (cells h2)(?tmp := None)\<rparr>"
    have f3: "free ?tmp h2 = Some h3" by (simp add: h3_def free_Some [OF lt2])
    have l3: "load q h3 = (if q = ?tmp then None else load q h2)" for q by (simp add: h3_def load_def)
    have T3: "text_buf h3 p2 c2 (s @ t)" using T2 p2t l3 [of p2] by (simp add: text_buf_def load_blob_def)
    have keep: "load q h3 = load q h" if "q \<noteq> p" "q \<noteq> p2" for q
      using that l3 [of q] l2 [of q] l1 [of q] fresh by auto
    have ln: "load_node z h3 = load_node z h" if z: "load_node z h \<noteq> None" for z
    proof -
      have "z \<noteq> p" using z p_blob by auto
      moreover have "z \<noteq> p2" using z p2 l1 [of p2] p2t p_blob by (cases "p2 = p") (auto simp: load_node_def)
      ultimately show ?thesis using keep [of z] by (simp add: load_node_def)
    qed
    have f': "fwd h3 xs NULL" using f fwd_cong [of xs h3 h NULL] ln nodes by blast
    have wf3: "wf_heap h3" using wf2 l3 by (auto simp: wf_heap_def h3_def)
    have o3: "oom h3 = []" using o2 by (simp add: h3_def)
    from Cons.IH [OF f' T3 wf3 o3 ok] obtain p' c' h' where
      h': "show_all_from (str_cb txt) (hd_or xs NULL) p2 (length (s @ t)) c2 h3 = Some (Some p', h')"
      and T': "text_buf h' p' c' ((s @ t) @ all_text txt xs)"
      and l': "\<And>q. q \<noteq> p2 \<Longrightarrow> q \<noteq> p' \<Longrightarrow> load q h' = load q h3"
      and p': "p' \<noteq> p2 \<Longrightarrow> load p2 h' = None \<and> load p' h3 = None" by blast
    have n3: "load_node x h3 = Some n" using ln [of x] n by simp
    have "show_all_from (str_cb txt) (hd_or (x # xs) NULL) p (length s) cap h = Some (Some p', h')"
      using xn tmp g1 a h' cb by (simp add: unf f3 n3 n(2))
    moreover have "text_buf h' p' c' (s @ all_text txt (x # xs))" using T' Some by (simp add: all_text_def)
    moreover have "load q h' = load q h" if "q \<noteq> p" "q \<noteq> p'" for q
    proof (cases "q = p2")
      case True
      then have "load p2 h1 = None" "load q h' = None" using p2 p' that by auto
      then show ?thesis using l1 [of p2] p2t True by auto
    next
      case False
      then show ?thesis using l' keep that by metis
    qed
    moreover have "load p h' = None \<and> load p' h = None" if "p' \<noteq> p"
    proof (cases "p2 = p")
      case True
      then show ?thesis using p' that keep [of p'] by auto
    next
      case False
      then have "load p h3 = None" using p2 l3 by auto
      moreover have "load p2 h = None" using False p2 l1 [of p2] p2t by auto
      ultimately show ?thesis using l' [of p] p' keep [of p'] that False by (cases "p' = p2") auto
    qed
    ultimately show ?thesis by blast
  qed
qed

text \<open>
  \<open>frlist_show_all\<close> returns a fresh block with the concatenated texts; everything it allocated
  on the way is released again.
\<close>

lemma frlist_show_all_ok:
  assumes L: "fwd_list h l xs" and wf: "wf_heap h" and oom: "oom h = []" and ok: "texts_ok txt xs"
  shows "\<exists>p cap h'. frlist_show_all l True (Some (str_cb txt)) h = Some (Some p, h') \<and>
    text_buf h' p cap (all_text txt xs) \<and> load p h = None \<and> (\<forall>q. q \<noteq> p \<longrightarrow> load q h' = load q h)"
proof -
  from L obtain s where s: "load_hdr l h = Some s" "head s = hd_or xs NULL" and f: "fwd h xs NULL"
    and l: "l \<noteq> NULL" by (rule fwd_listE)
  let ?p = "brk h"
  define h1 where "h1 = setc ?p (BlobC (Some 0 # drop 1 (uninit 1024))) (snd (malloc (BlobC (uninit 1024)) h))"
  define h0 where "h0 = snd (malloc (BlobC (uninit 1024)) h)"
  have pn: "?p \<noteq> NULL" and fresh: "load ?p h = None" using wf_heap_brk_pos [OF wf] wf_heap_fresh [OF wf] by auto
  have m: "malloc (BlobC (uninit 1024)) h = (?p, h0)"
    and l0: "\<And>q. load q h0 = (if q = ?p then Some (BlobC (uninit 1024)) else load q h)"
    and wf0: "wf_heap h0" and o0: "oom h0 = []" and b0: "brk h0 = Suc ?p"
    using malloc_ok [of h "BlobC (uninit 1024)"] oom pn wf_heap_malloc [OF wf]
    by (auto simp: h0_def load_def)
  have p1: "put_str ?p 0 [] h0 = Some h1"
    using put_str_blob [of ?p h0 "uninit 1024" 0 "[]"] l0 [of ?p] by (simp add: h1_def h0_def)
  have l1: "load q h1 = (if q = ?p then Some (BlobC (Some 0 # drop 1 (uninit 1024))) else load q h)" for q
    using l0 pn by (simp add: h1_def h0_def [symmetric] load_setc)
  have T1: "text_buf h1 ?p 1024 []"
    using l1 [of ?p] by (intro text_bufI [of _ _ _ "drop 1 (uninit 1024)"]) auto
  have wf1: "wf_heap h1" using wf0 l1 b0 wf by (auto simp: wf_heap_def h1_def h0_def [symmetric])
  have "load_node q h1 = load_node q h" for q
    using l1 [of q] fresh by (auto simp: load_node_def)
  then have f1: "fwd h1 xs NULL" using f fwd_cong [of xs h1 h NULL] by blast
  have o1: "oom h1 = []" using o0 by (simp add: h1_def h0_def [symmetric])
  from show_all_from_ok [OF f1 T1 wf1 o1 ok, unfolded list.size(3)] obtain p' c' h' where
    h': "show_all_from (str_cb txt) (hd_or xs NULL) ?p 0 1024 h1 = Some (Some p', h')"
    "text_buf h' p' c' ([] @ all_text txt xs)"
    "\<forall>q. q \<noteq> ?p \<longrightarrow> q \<noteq> p' \<longrightarrow> load q h' = load q h1" "p' \<noteq> ?p \<longrightarrow> load ?p h' = None \<and> load p' h1 = None"
    by blast
  have "load_hdr l h1 = Some s" using s(1) l1 [of l] fresh by (auto simp: load_hdr_def)
  then have "frlist_show_all l True (Some (str_cb txt)) h = Some (Some p', h')"
    using l pn p1 h'(1) s(2) by (simp add: frlist_show_all_def m)
  moreover have "load p' h = None" using h'(4) l1 [of p'] fresh by (cases "p' = ?p") auto
  moreover have "load q h' = load q h" if "q \<noteq> p'" for q
    using h'(3,4) l1 [of q] fresh that by (cases "q = ?p") auto
  ultimately show ?thesis using h'(2) by auto
qed

end
