(* ===== verification/FrListClaims.thy ===== *)
theory FrListClaims
  imports FrListProps FrListShow
begin

text \<open>
  The properties of the list of \<open>containers/list/c/list.c\<close>, each applied to a small concrete
  heap.
\<close>

subsection \<open>A concrete heap\<close>

text \<open>
  Lists at 20 (nodes 2, 3) and 5 (node 6), free nodes 4 and 7, data blocks 8, 9, 10 and a key 11.
\<close>

definition ex_node :: "addr \<Rightarrow> addr \<Rightarrow> addr \<Rightarrow> addr \<Rightarrow> 64 word \<Rightarrow> frcell" where
  "ex_node a b d k v = NodeC \<lparr>pre = a, nxt = b, data = d, ul_idx = 0, l_key = v, p_key = k, ui_key_len = 0\<rparr>"

definition ex_heap :: frheap where
  "ex_heap = \<lparr>cells = [20 \<mapsto> HdrC \<lparr>hsize = 2, head = 2, tail = 3\<rparr>,
      2 \<mapsto> ex_node 0 3 8 11 10, 3 \<mapsto> ex_node 2 0 9 0 20, 4 \<mapsto> ex_node 0 0 10 0 15,
      5 \<mapsto> HdrC \<lparr>hsize = 1, head = 6, tail = 6\<rparr>, 6 \<mapsto> ex_node 0 0 0 0 7, 7 \<mapsto> ex_node 0 0 0 0 30,
      8 \<mapsto> BlobC (str_buf [65, 66]), 9 \<mapsto> BlobC (str_buf [67]), 10 \<mapsto> BlobC (str_buf []),
      11 \<mapsto> BlobC (str_buf [1])], brk = 21, oom = []\<rparr>"

lemma ex_heap_loads:
  "load_hdr 20 ex_heap = Some \<lparr>hsize = 2, head = 2, tail = 3\<rparr>"
  "load_hdr 5 ex_heap = Some \<lparr>hsize = 1, head = 6, tail = 6\<rparr>"
  "load_node 2 ex_heap = Some \<lparr>pre = 0, nxt = 3, data = 8, ul_idx = 0, l_key = 10, p_key = 11, ui_key_len = 0\<rparr>"
  "load_node 3 ex_heap = Some \<lparr>pre = 2, nxt = 0, data = 9, ul_idx = 0, l_key = 20, p_key = 0, ui_key_len = 0\<rparr>"
  "load_node 4 ex_heap = Some \<lparr>pre = 0, nxt = 0, data = 10, ul_idx = 0, l_key = 15, p_key = 0, ui_key_len = 0\<rparr>"
  "load_node 6 ex_heap = Some \<lparr>pre = 0, nxt = 0, data = 0, ul_idx = 0, l_key = 7, p_key = 0, ui_key_len = 0\<rparr>"
  "load_node 7 ex_heap = Some \<lparr>pre = 0, nxt = 0, data = 0, ul_idx = 0, l_key = 30, p_key = 0, ui_key_len = 0\<rparr>"
  "is_blob 8 ex_heap" "is_blob 9 ex_heap" "is_blob 10 ex_heap" "is_blob 11 ex_heap"
  by (simp_all add: ex_heap_def ex_node_def load_hdr_def load_node_def load_def NULL_def is_blob_def)

lemma ex_heap_lists:
  "list_at ex_heap 20 0 [2, 3]" "list_at ex_heap 5 0 [6]" "is_list ex_heap 20 [2, 3]" "is_list ex_heap 5 [6]"
  by (auto simp: is_list_def list_at_def ex_heap_loads NULL_def)

lemma ex_heap_wf [simp]: "wf_heap ex_heap" "oom ex_heap = []"
  by (auto simp: wf_heap_def ex_heap_def load_def NULL_def)

lemma ex_is_node: "is_node ex_heap 4" "is_node ex_heap 7"
  by (simp_all add: is_node_def ex_heap_loads)

text \<open>The comparison by \<open>l_key\<close>.\<close>

definition cmp_l_key :: list_node_compare where
  "cmp_l_key x y h = (case (load_node x h, load_node y h) of
     (Some m, Some n) \<Rightarrow> uint (l_key m) - uint (l_key n) | _ \<Rightarrow> 0)"

subsection \<open>Properties\<close>

text \<open>C28: the list is a first-in first-out queue.  Whatever distinct free nodes \<open>ys\<close> are pushed
  behind the nodes \<open>xs\<close> already there, popping \<open>length xs + length ys\<close> times returns exactly
  \<open>xs\<close> and then \<open>ys\<close>, in order, without undefined behaviour, and leaves an empty list.\<close>

theorem frlist_push_pop_order:
  assumes "is_list h l xs" and "distinct (xs @ ys)" and "\<forall>y \<in> set ys. is_node h y"
  shows "\<exists>h1 h2. push_all (\<lambda>h p. frlist_push l p h) ys h = Some h1 \<and>
    pop_many (frlist_pop l) (length xs + length ys) h1 = Some (map Some (xs @ ys), h2) \<and> is_list h2 l []"
  using assms by (rule fr.fifo_order)

theorem frlist_push_pop_order_witness:
  "\<exists>h1 h2. push_all (\<lambda>h p. frlist_push 20 p h) [7, 4] ex_heap = Some h1 \<and>
    pop_many (frlist_pop 20) (length [2, 3 :: nat] + length [7, 4 :: nat]) h1 = Some (map Some [2, 3, 7, 4], h2) \<and> is_list h2 20 []"
  using frlist_push_pop_order [OF ex_heap_lists(3), of "[7, 4]"] ex_is_node
  by (simp del: list.size push_all.simps)

text \<open>\<open>frlist_node_apart\<close> takes exactly the given node out of the list, wherever it stands, and
  changes nothing but the links of the other nodes and the header.\<close>

theorem frlist_node_apart_correct:
  assumes "is_list h l (ys @ p # zs)"
  shows "\<exists>h'. frlist_node_apart l p h = Some h' \<and> is_list h' l (ys @ zs) \<and>
    frame l (set (ys @ zs)) h h' \<and> load_node p h' = load_node p h"
  using assms frlist_node_apart_at unfolding is_list_def by blast

theorem frlist_node_apart_correct_witness:
  "\<exists>h'. frlist_node_apart 20 3 ex_heap = Some h' \<and> is_list h' 20 [2] \<and>
    frame 20 {2} ex_heap h' \<and> load_node 3 h' = load_node 3 ex_heap"
  using frlist_node_apart_correct [of ex_heap 20 "[2]" 3 "[]"] ex_heap_lists by simp

text \<open>sorted insertion.  When some node is not smaller than the new one, \<open>frlist_add_sort\<close> is
  insertion into the ordered list, and the result is again well formed and ordered.\<close>

lemma insort_takeWhile:
  "insort_key k p xs = takeWhile (\<lambda>x. k x < k p) xs @ p # dropWhile (\<lambda>x. k x < k p) xs"
  by (induction xs) auto

lemma frlist_add_sort_insort:
  assumes L: "list_at h l a xs" and n: "load_node p h = Some n" and p: "p \<notin> set xs"
    and len: "length xs < 2 ^ 32" and cmp: "\<And>x. x \<in> set xs \<Longrightarrow> (0 < cmp p x h) = (key x < key p)"
    and ex: "\<exists>x \<in> set xs. key p \<le> key x"
  shows "\<exists>h'. frlist_add_sort l p (Some cmp) h = Some h' \<and> is_list h' l (insort_key key p xs)
    \<and> frame l (insert p (set xs)) h h'"
proof -
  define ys zs where yz: "ys = takeWhile (\<lambda>x. key x < key p) xs" "zs = dropWhile (\<lambda>x. key x < key p) xs"
  have ys: "ys = takeWhile (\<lambda>x. 0 < cmp p x h) xs" and zs: "zs = dropWhile (\<lambda>x. 0 < cmp p x h) xs"
    using cmp by (auto simp: yz intro!: takeWhile_cong dropWhile_cong)
  have xs: "xs = ys @ zs" by (simp add: yz)
  have zne: "zs \<noteq> []" using ex by (auto simp: yz not_less)
  with ex have "0 < length xs" by auto
  from frlist_add_sort_at [OF L n p this len, of ys cmp zs] ys zs obtain h' where
    h': "frlist_add_sort l p (Some cmp) h = Some h'"
      "linked h' (if ys = [] then NULL else a) (ys @ p # zs) NULL"
      "load_hdr l h' = Some \<lparr>hsize = of_nat (Suc (length xs)), head = hd_or ys p, tail = last xs\<rparr>"
      "frame l (insert p (set xs)) h h'" by blast
  have ins: "insort_key key p xs = ys @ p # zs" by (simp add: insort_takeWhile yz)
  have "list_at h' l (if ys = [] then NULL else a) (ys @ p # zs)"
    unfolding list_at_def using h'(2,3) zne list_atD(3) [OF L] p xs
    by (auto simp: last_or_def)
  with h' ins show ?thesis by (auto simp: is_list_def)
qed

theorem frlist_add_sort_ordered:
  fixes key :: "addr \<Rightarrow> 'k::linorder"
  assumes "is_list h l xs" and "is_node h p" and "p \<notin> set xs" and "length xs < 2 ^ 32"
    and "\<forall>x \<in> set xs. (0 < cmp p x h) = (key x < key p)"
    and "\<exists>x \<in> set xs. key p \<le> key x" and "sorted (map key xs)"
  shows "\<exists>h'. frlist_add_sort l p (Some cmp) h = Some h' \<and>
    is_list h' l (insort_key key p xs) \<and> sorted (map key (insort_key key p xs))"
proof -
  from assms(1,2) obtain a n where "list_at h l a xs" "load_node p h = Some n"
    by (auto simp: is_list_def is_node_def)
  from frlist_add_sort_insort [OF this assms(3,4) _ assms(6), of cmp] assms(5,7)
  show ?thesis by (auto simp: sorted_insort_key)
qed

theorem frlist_add_sort_ordered_witness:
  "\<exists>h'. frlist_add_sort 20 4 (Some cmp_l_key) ex_heap = Some h' \<and> is_list h' 20 [2, 4, 3]"
  using frlist_add_sort_ordered [of ex_heap 20 "[2, 3]" 4 cmp_l_key
      "\<lambda>x. if x = 2 then 10 else if x = 4 then 15 else (20::int)"] ex_heap_lists(3) ex_is_node(1)
  by (auto simp: cmp_l_key_def ex_heap_loads)

text \<open>when the new node is larger than all others, \<open>frlist_add_sort\<close> links it last but leaves
  \<open>tail\<close> behind, so that the next \<open>frlist_add_tail\<close> drops it from the chain: the size counts
  two more nodes, the chain has one.\<close>

theorem frlist_add_sort_last_lost:
  assumes "is_list h l xs" and "is_node h p" and "is_node h q" and "xs \<noteq> []" and "length xs < 2 ^ 32"
    and "p \<notin> set xs" and "q \<notin> set xs" and "p \<noteq> q" and "\<forall>x \<in> set xs. 0 < cmp p x h"
  shows "\<exists>h1 h2. frlist_add_sort l p (Some cmp) h = Some h1 \<and> frlist_add_tail l q h1 = Some h2 \<and>
    (\<exists>s. load_hdr l h2 = Some s \<and> hsize s = of_nat (length xs + 2) \<and> head s = hd xs \<and> tail s = q) \<and>
    fwd h2 (xs @ [q]) NULL"
proof -
  from assms(1,2,3) obtain a n m where L: "list_at h l a xs" and n: "load_node p h = Some n"
    and m: "load_node q h = Some m" by (auto simp: is_list_def is_node_def)
  have tw: "takeWhile (\<lambda>x. 0 < cmp p x h) xs = xs" "dropWhile (\<lambda>x. 0 < cmp p x h) xs = []"
    using assms(9) by simp_all
  from assms(4) have "0 < length xs" by simp
  from frlist_add_sort_at [OF L n assms(6) this assms(5), of xs cmp "[]"] tw assms(4) obtain h1 where
    h1: "frlist_add_sort l p (Some cmp) h = Some h1" "linked h1 a (xs @ [p]) NULL"
      "load_hdr l h1 = Some \<lparr>hsize = of_nat (Suc (length xs)), head = hd_or xs p, tail = last xs\<rparr>"
      "frame l (insert p (set xs)) h h1" by auto
  have "q \<noteq> l" using node_hdr_disjoint [OF m list_atD(1) [OF L]] by blast
  then have q1: "load_node q h1 = Some m"
    using h1(4) assms(7,8) m by (auto simp: frame_def load_node_def)
  obtain us u where xs: "xs = us @ [u]" using assms(4) by (cases xs rule: rev_cases) auto
  from h1(2) obtain k where k: "load_node u h1 = Some k" "nxt k = p" and us: "linked h1 a us u"
    by (auto simp: xs linked_append)
  have hd0: "hd_or us u \<noteq> NULL" using list_atD(6) [OF L] by (auto simp: xs hd_or_eq_NULL)
  have hd1: "hd_or us u = hd xs" by (cases us) (simp_all add: xs)
  note [simp] = list_atD(4) [OF L] load_node_not_NULL [OF q1] load_node_not_NULL [OF k(1)]
    node_hdr_disjoint [OF q1 h1(3)] node_hdr_disjoint [OF k(1) h1(3)]
  note facts = list_atD(3,5,6) [OF L] assms(6,7,8) us [THEN linked_fwd] hd0
  have "\<exists>h2. frlist_add_tail l q h1 = Some h2 \<and>
    (\<exists>s. load_hdr l h2 = Some s \<and> hsize s = of_nat (length xs + 2) \<and> head s = hd_or us u \<and> tail s = q) \<and>
    fwd h2 (xs @ [q]) NULL"
    using facts by (auto simp: xs q1 k h1(3) frlist_add_tail_def heap_simps fwd_append)
  with h1(1) hd1 show ?thesis by auto
qed

theorem frlist_add_sort_last_lost_witness:
  "\<exists>h1 h2. frlist_add_sort 20 7 (Some cmp_l_key) ex_heap = Some h1 \<and>
    frlist_add_tail 20 4 h1 = Some h2 \<and> fwd h2 [2, 3, 4] NULL"
  using frlist_add_sort_last_lost [of ex_heap 20 "[2, 3]" 7 4 cmp_l_key] ex_heap_lists(3) ex_is_node
  by (auto simp: cmp_l_key_def ex_heap_loads)

lemma list_not_elem:
  assumes "list_at h d a xs" and "list_at h s b ys"
  shows "d \<notin> set ys"
  using linked_nodes [OF list_atD(2) [OF assms(2)], of d] node_hdr_disjoint [OF _ list_atD(1) [OF assms(1)]]
  by blast

lemma merged_fwd:
  assumes "load_hdr d h = Some \<lparr>hsize = of_nat (length ys + length xs), head = hd ys, tail = t\<rparr>"
    and "ys \<noteq> []" and "linked h b ys (hd_or xs NULL)" and "linked h a xs NULL"
  shows "fwd_list h d (ys @ xs)"
  using assms linked_fwd by (cases ys) (auto simp: fwd_list_def fwd_append)

text \<open>\<open>frlist_merge_header_top\<close> puts the source list in front of the destination: the chain is
  \<open>ys @ xs\<close>, the sizes add up and the source is left empty.\<close>

theorem frlist_merge_concat:
  assumes "is_list h d xs" and "is_list h s ys" and "d \<noteq> s" and "set xs \<inter> set ys = {}"
    and "length xs < 2 ^ 32" and "length ys < 2 ^ 32"
  shows "\<exists>h'. frlist_merge_header_top d s h = Some h' \<and> fwd_list h' d (ys @ xs) \<and> is_list h' s []"
proof -
  from assms(1,2) obtain a b where D: "list_at h d a xs" and S: "list_at h s b ys"
    by (auto simp: is_list_def)
  show ?thesis
  proof (cases "ys = []")
    case True
    then have "frlist_merge_header_top d s h = Some h"
      using list_atD(1,4) [OF S] list_atD(4) [OF D] by (simp add: frlist_merge_header_top_def)
    then show ?thesis using True assms(1,2) is_list_fwd by auto
  next
    case False
    from frlist_merge_at [OF D S assms(3,4) list_not_elem [OF D S] list_not_elem [OF S D] assms(5,6) False]
    show ?thesis using merged_fwd [OF _ False] unfolding is_list_def by blast
  qed
qed

theorem frlist_merge_concat_witness:
  "\<exists>h'. frlist_merge_header_top 20 5 ex_heap = Some h' \<and> fwd_list h' 20 [6, 2, 3] \<and> is_list h' 5 []"
  using frlist_merge_concat [of ex_heap 20 "[2, 3]" 5 "[6]"] ex_heap_lists by simp

text \<open>after merging two well-formed non-empty lists, the first node of the old destination still
  has no predecessor, and taking it out of the merged list dereferences NULL: undefined behaviour.\<close>

theorem frlist_merge_then_apart_undefined:
  assumes "list_at h d NULL (x # xs)" and "is_list h s ys" and "d \<noteq> s" and "set (x # xs) \<inter> set ys = {}"
    and "length (x # xs) < 2 ^ 32" and "length ys < 2 ^ 32" and "ys \<noteq> []"
  shows "\<exists>h'. frlist_merge_header_top d s h = Some h' \<and> fwd_list h' d (ys @ x # xs) \<and>
    frlist_node_apart d x h' = None"
proof -
  from assms(2) obtain b where S: "list_at h s b ys" by (auto simp: is_list_def)
  note D = assms(1)
  from frlist_merge_at [OF D S assms(3,4) list_not_elem [OF D S] list_not_elem [OF S D] assms(5,6,7)] obtain h' where
    h': "frlist_merge_header_top d s h = Some h'"
      "load_hdr d h' = Some \<lparr>hsize = of_nat (length ys + length (x # xs)), head = hd ys, tail = last (ys @ x # xs)\<rparr>"
      "linked h' b ys x" "linked h' NULL (x # xs) NULL" by auto
  have "hd ys \<noteq> x" "hd ys \<noteq> NULL" "x \<noteq> NULL"
    using assms(4,7) list_atD(6) [OF S] list_atD(6) [OF D] by (cases ys; auto)+
  then have "frlist_node_apart d x h' = None"
    using h'(2,4) list_atD(4) [OF D] by (auto simp: frlist_node_apart_def unlink_node_def upd_node_None)
  moreover have "fwd_list h' d (ys @ x # xs)"
    by (rule merged_fwd [OF h'(2) assms(7) _ h'(4)]) (use h'(3) in simp)
  ultimately show ?thesis using h'(1) by blast
qed

theorem frlist_merge_then_apart_undefined_witness:
  "\<exists>h'. frlist_merge_header_top 20 5 ex_heap = Some h' \<and> fwd_list h' 20 [6, 2, 3] \<and>
    frlist_node_apart 20 2 h' = None"
  using frlist_merge_then_apart_undefined [of ex_heap 20 2 "[3]" 5 "[6]"] ex_heap_lists
  by (simp add: NULL_def)

text \<open>C29: \<open>frlist_destroy\<close> with \<open>frlist_node_data_free\<close> as callback terminates and releases the
  header, every node and everything the nodes own, each exactly once (a second release would be
  undefined), and nothing else.\<close>

theorem frlist_destroy_exact:
  assumes "is_list h l xs" and "owned own_data_key xs h"
  shows "\<exists>h'. frlist_destroy l (Some frlist_node_data_free) h = Some h' \<and>
    (\<forall>q. load q h' = (if q = l \<or> q \<in> set xs \<or> q \<in> set (all_owned own_data_key xs h) then None else load q h))"
  using assms data_free.frlist_destroy_list unfolding is_list_def by blast

lemma ex_heap_owned: "all_owned own_data_key [2, 3] ex_heap = [8, 11, 9]" "owned own_data_key [2, 3] ex_heap"
  by (auto simp: owned_def own_data_key_def ex_heap_loads NULL_def all_owned_def)

theorem frlist_destroy_exact_witness:
  "\<exists>h'. frlist_destroy 20 (Some frlist_node_data_free) ex_heap = Some h' \<and>
    (\<forall>q. load q h' = (if q \<in> {20, 2, 3, 8, 11, 9} then None else load q ex_heap))"
  using frlist_destroy_exact [OF ex_heap_lists(3) ex_heap_owned(2)] unfolding ex_heap_owned(1) by auto

text \<open>\<open>frlist_remove_from_idx\<close> keeps the first \<open>k\<close> nodes as a well-formed list and releases the
  rest with their keys, exactly.\<close>

theorem frlist_remove_from_idx_truncates:
  assumes "is_list h l xs" and "sint i = int k" and "k < length xs" and "length xs < 2 ^ 31"
    and "owned own_key (drop k xs) h"
  shows "\<exists>h'. frlist_remove_from_idx l i None h = Some h' \<and> is_list h' l (take k xs) \<and>
    (\<forall>q. q \<noteq> l \<longrightarrow> q \<notin> set (take k xs) \<longrightarrow>
      load q h' = (if q \<in> set (drop k xs) \<or> q \<in> set (all_owned own_key (drop k xs) h) then None else load q h))"
proof -
  from assms(1) obtain a where "list_at h l a xs" by (auto simp: is_list_def)
  from no_callback.frlist_remove_from_idx_list [OF this assms(2-5)] show ?thesis
    by (auto simp: is_list_def)
qed

theorem frlist_remove_from_idx_truncates_witness:
  "\<exists>h'. frlist_remove_from_idx 20 1 None ex_heap = Some h' \<and> is_list h' 20 [2] \<and> load 3 h' = None"
proof -
  have "owned own_key [3] ex_heap"
    by (simp add: owned_def all_owned_def own_key_def ex_heap_loads NULL_def)
  then show ?thesis
    using frlist_remove_from_idx_truncates [OF ex_heap_lists(3), of 1 1] by fastforce
qed

text \<open>\<open>frlist_shallow_copy\<close> to a list of other nodes returns 0 and appends one fresh node for
  every source node with data, in order and sharing the data, for every script of allocation
  failures: a node whose allocation fails is left out, silently.  The source keeps its data.\<close>

theorem frlist_shallow_copy_appends:
  assumes "wf_heap h" and "is_list h d xs" and "is_list h s ys" and "d \<noteq> s" and "set xs \<inter> set ys = {}"
  shows "\<exists>h' ns. frlist_shallow_copy d s h = Some (0, h') \<and> is_list h' d (xs @ ns) \<and>
    map (node_data h') ns = copied (oom h) (map (node_data h) ys) \<and>
    (\<forall>x. is_node h x \<longrightarrow> node_data h' x = node_data h x) \<and> (\<forall>x \<in> set ns. \<not> is_node h x) \<and>
    is_list h' s ys"
proof -
  from assms(2,3) obtain a b where D: "list_at h d a xs" and S: "list_at h s b ys"
    by (auto simp: is_list_def)
  note dis = list_not_elem [OF D S] list_not_elem [OF S D]
  from shallow_copy_from_at [OF assms(1) D linked_fwd [OF list_atD(2) [OF S]] dis(1) assms(5)]
  obtain h' a' ns where h': "shallow_copy_from d (hd_or ys NULL) h = Some h'" "list_at h' d a' (xs @ ns)"
      "map (node_data h') ns = copied (oom h) (map (node_data h) ys)"
      "\<forall>x. load_node x h \<noteq> None \<longrightarrow> node_data h' x = node_data h x" "\<forall>x \<in> set ns. load_node x h = None"
    and keep: "\<forall>x. x \<noteq> d \<longrightarrow> x \<notin> set xs \<longrightarrow> load x h \<noteq> None \<longrightarrow> load x h' = load x h" by blast
  have "load_node x h' = load_node x h" if "x \<in> set ys" for x
  proof -
    have "x \<noteq> d" "x \<notin> set xs" using that dis assms(5) by auto
    moreover have "load x h \<noteq> None"
      using linked_nodes [OF list_atD(2) [OF S] that] by (auto simp: load_node_Some_iff)
    ultimately show ?thesis using keep by (simp add: load_node_def)
  qed
  moreover have "load_hdr s h' = load_hdr s h"
    using keep assms(4) dis(2) list_atD(1) [OF S] by (auto simp: load_hdr_def split: option.splits)
  ultimately have "list_at h' s b ys" using S linked_cong [of ys h' h b NULL] by (simp add: list_at_def)
  with h' S list_atD(1) [OF S] list_atD(4) [OF D] list_atD(4) [OF S] show ?thesis
    by (auto simp: frlist_shallow_copy_def is_list_def is_node_def)
qed

theorem frlist_shallow_copy_appends_witness:
  "\<exists>h' ns. frlist_shallow_copy 5 20 ex_heap = Some (0, h') \<and> is_list h' 5 ([6] @ ns) \<and>
    map (node_data h') ns = [8, 9]"
proof -
  have "node_data ex_heap 2 = 8" "node_data ex_heap 3 = 9" by (simp_all add: node_data_def ex_heap_loads)
  with frlist_shallow_copy_appends [OF ex_heap_wf(1) ex_heap_lists(4) ex_heap_lists(3)]
  show ?thesis by (simp add: NULL_def ex_heap_lists) metis
qed

text \<open>\<open>frlist_find\<close> returns the first node its predicate accepts and NULL when there is none, and
  \<open>frlist_node_idx\<close> the node at that index and NULL outside the list; both terminate.\<close>

theorem frlist_lookup_correct:
  assumes "is_list h l xs" and "length xs < 2 ^ 31"
  shows "frlist_node_idx l i h = Some (if 0 \<le> sint i \<and> nat (sint i) < length xs then xs ! nat (sint i) else NULL) \<and>
    frlist_find l (Some pf) h = Some (case find (\<lambda>x. pf x h = 0) xs of None \<Rightarrow> NULL | Some x \<Rightarrow> x)"
  using frlist_node_idx_fwd frlist_find_fwd is_list_fwd assms by blast

theorem frlist_lookup_correct_witness:
  "frlist_node_idx 20 1 ex_heap = Some 3 \<and> frlist_node_idx 20 (-1) ex_heap = Some NULL \<and>
   frlist_find 20 (Some (\<lambda>x h. if x = 3 then 0 else 1)) ex_heap = Some 3"
  using frlist_lookup_correct [OF ex_heap_lists(3), of 1 "\<lambda>x h. if x = 3 then 0 else 1"]
    frlist_lookup_correct [OF ex_heap_lists(3), of "-1" "\<lambda>x h. 0"] by simp

text \<open>\<open>frlist_show_all\<close> returns a fresh NUL-terminated block with the texts of all nodes in
  order, however often the buffer has to grow, without writing outside it, and releases every
  other block it used.\<close>

theorem frlist_show_all_text:
  assumes "fwd_list h l xs" and "wf_heap h" and "oom h = []" and "texts_ok txt xs"
  shows "\<exists>p cap h'. frlist_show_all l True (Some (str_cb txt)) h = Some (Some p, h') \<and>
    text_buf h' p cap (all_text txt xs) \<and> load p h = None \<and> (\<forall>q. q \<noteq> p \<longrightarrow> load q h' = load q h)"
  using assms by (rule frlist_show_all_ok)

theorem frlist_show_all_text_witness:
  "\<exists>p cap h'. frlist_show_all 20 True (Some (str_cb (\<lambda>x. if x = 2 then Some [65, 66] else Some [67]))) ex_heap =
      Some (Some p, h') \<and> text_buf h' p cap [65, 66, 67] \<and> load p ex_heap = None \<and>
      (\<forall>q. q \<noteq> p \<longrightarrow> load q h' = load q ex_heap)"
  using frlist_show_all_text [OF is_list_fwd [OF ex_heap_lists(3)] ex_heap_wf,
      of "\<lambda>x. if x = 2 then Some [65, 66] else Some [67]"]
  by (simp add: texts_ok_def all_text_def)

end
