(* ===== verification/CDouble.thy ===== *)
theory CDouble
  imports Complex_Main Prelude
begin

text \<open>
  The C type \<open>double\<close> as its IEEE 754 binary64 bit pattern, with the operations the code uses:
  comparison, truncation to \<open>int\<close>, \<open>strtod\<close>/\<open>sscanf("%lg")\<close> on decimal text and
  \<open>sprintf("%1.<p>g")\<close>.  Conversions are exact rational arithmetic followed by rounding to
  nearest, ties to even, as the C library does.
\<close>

subsection \<open>Values\<close>

type_synonym f64 = "64 word"

definition f64_sign :: "f64 \<Rightarrow> bool" where
  "f64_sign d = bit d 63"

definition f64_exp :: "f64 \<Rightarrow> nat" where
  "f64_exp d = unat (drop_bit 52 d AND 0x7FF)"

definition f64_frac :: "f64 \<Rightarrow> nat" where
  "f64_frac d = unat (d AND 0xFFFFFFFFFFFFF)"

definition f64_nan :: "f64 \<Rightarrow> bool" where
  "f64_nan d \<longleftrightarrow> f64_exp d = 2047 \<and> f64_frac d \<noteq> 0"

definition f64_inf :: "f64 \<Rightarrow> bool" where
  "f64_inf d \<longleftrightarrow> f64_exp d = 2047 \<and> f64_frac d = 0"

text \<open>A finite value is \<open>\<plusminus> m * 2 ^ e / 2 ^ 1074\<close> for natural numbers \<open>m\<close> and \<open>e\<close>.\<close>

definition f64_abs :: "f64 \<Rightarrow> rat" where
  "f64_abs d =
     (if f64_exp d = 0 then of_nat (f64_frac d) / 2 ^ 1074
      else of_nat (2 ^ 52 + f64_frac d) * 2 ^ (f64_exp d - 1) / 2 ^ 1074)"

definition f64_val :: "f64 \<Rightarrow> rat" where
  "f64_val d = (if f64_sign d then - f64_abs d else f64_abs d)"

text \<open>\<open>d >= n\<close>, \<open>d <= n\<close> for an integer constant, and \<open>d == e\<close>; false on NaN.\<close>

definition f64_ge_int :: "f64 \<Rightarrow> int \<Rightarrow> bool" where
  "f64_ge_int d n \<longleftrightarrow> \<not> f64_nan d \<and> (if f64_inf d then \<not> f64_sign d else of_int n \<le> f64_val d)"

definition f64_le_int :: "f64 \<Rightarrow> int \<Rightarrow> bool" where
  "f64_le_int d n \<longleftrightarrow> \<not> f64_nan d \<and> (if f64_inf d then f64_sign d else f64_val d \<le> of_int n)"

definition f64_eq :: "f64 \<Rightarrow> f64 \<Rightarrow> bool" where
  "f64_eq d e \<longleftrightarrow> \<not> f64_nan d \<and> \<not> f64_nan e \<and>
     (if f64_inf d \<or> f64_inf e then d = e else f64_val d = f64_val e)"

text \<open>\<open>(int) d\<close>: toward zero; undefined for NaN and infinities.\<close>

definition f64_trunc :: "f64 \<Rightarrow> int option" where
  "f64_trunc d =
     (if f64_nan d \<or> f64_inf d then None
      else Some (if f64_sign d then - \<lfloor>f64_abs d\<rfloor> else \<lfloor>f64_abs d\<rfloor>))"

text \<open>\<open>d * 0 != 0\<close>: the code's test for NaN and infinity.\<close>

definition f64_times_0_ne_0 :: "f64 \<Rightarrow> bool" where
  "f64_times_0_ne_0 d \<longleftrightarrow> f64_nan d \<or> f64_inf d"

subsection \<open>Rounding\<close>

definition round_even :: "rat \<Rightarrow> nat" where
  "round_even q =
     (let f = nat \<lfloor>q\<rfloor>; r = q - of_nat f in
      if r < 1 / 2 \<or> (r = 1 / 2 \<and> even f) then f else f + 1)"

text \<open>
  The least \<open>e\<close> with \<open>q < 2 ^ (53 + e)\<close>, for a \<open>q\<close> scaled by \<open>2 ^ 1074\<close>; the search stops at
  2046, beyond the largest exponent.
\<close>

fun find_exp :: "nat \<Rightarrow> nat \<Rightarrow> rat \<Rightarrow> nat" where
  "find_exp 0 e q = e"
| "find_exp (Suc k) e q = (if q < 2 ^ (53 + e) then e else find_exp k (Suc e) q)"

text \<open>The nearest double to \<open>\<plusminus> q\<close>; the bits of \<open>m + e * 2 ^ 52\<close> carry over into the exponent.\<close>

definition f64_of_rat :: "bool \<Rightarrow> rat \<Rightarrow> f64" where
  "f64_of_rat s q =
     (let q' = q * 2 ^ 1074; e = find_exp 2046 0 q'; m = round_even (q' / 2 ^ e);
          bits = min (m + e * 2 ^ 52) (2047 * 2 ^ 52)
      in of_nat bits OR (if s then push_bit 63 1 else 0))"

subsection \<open>\<open>strtod\<close>\<close>

definition is_digit :: "byte \<Rightarrow> bool" where
  "is_digit c \<longleftrightarrow> 48 \<le> c \<and> c \<le> 57"

fun digits_val :: "nat \<Rightarrow> byte list \<Rightarrow> nat" where
  "digits_val a [] = a"
| "digits_val a (c # cs) = digits_val (a * 10 + (unat c - 48)) cs"

definition pow10 :: "int \<Rightarrow> rat" where
  "pow10 e = (if 0 \<le> e then 10 ^ nat e else 1 / 10 ^ nat (- e))"

text \<open>An exponent part: its value and length; none (0, 0) without digits.\<close>

definition scan_exp :: "byte list \<Rightarrow> int \<times> nat" where
  "scan_exp s =
     (case s of
        c # cs \<Rightarrow>
          if c = 101 \<or> c = 69 then
            (let neg = (cs \<noteq> [] \<and> hd cs = 45);
                 sgn = (if cs \<noteq> [] \<and> (hd cs = 45 \<or> hd cs = 43) then 1 else 0);
                 ds = takeWhile is_digit (drop sgn cs); v = int (digits_val 0 ds)
             in if ds = [] then (0, 0) else (if neg then - v else v, 1 + sgn + length ds))
          else (0, 0)
      | [] \<Rightarrow> (0, 0))"

text \<open>
  The value and the number of characters consumed, for text of digits, signs, points and
  exponent letters without leading white space; 0 characters when there is no number.
\<close>

definition strtod :: "byte list \<Rightarrow> f64 \<times> nat" where
  "strtod s =
     (let neg = (s \<noteq> [] \<and> hd s = 45);
          sgn = (if s \<noteq> [] \<and> (hd s = 45 \<or> hd s = 43) then 1 else 0);
          s = drop sgn s; ip = takeWhile is_digit s; s = drop (length ip) s;
          pt = (s \<noteq> [] \<and> hd s = 46);
          fp = (if pt then takeWhile is_digit (tl s) else []);
          s = (if pt then drop (1 + length fp) s else s)
      in if ip = [] \<and> fp = [] then (0, 0)
         else (let (e, n) = scan_exp s in
               (f64_of_rat neg (of_nat (digits_val 0 (ip @ fp)) * pow10 (e - int (length fp))),
                sgn + length ip + (if pt then 1 + length fp else 0) + n)))"

subsection \<open>\<open>%1.<p>g\<close>\<close>

fun digits_of :: "nat \<Rightarrow> nat \<Rightarrow> byte list" where
  "digits_of 0 n = []"
| "digits_of (Suc k) n = digits_of k (n div 10) @ [of_nat (48 + n mod 10)]"

text \<open>The greatest \<open>x \<le> e\<close> with \<open>10 ^ x \<le> q\<close>, searched downwards at most \<open>k\<close> steps.\<close>

fun find_exp10 :: "nat \<Rightarrow> int \<Rightarrow> rat \<Rightarrow> int" where
  "find_exp10 0 e q = e"
| "find_exp10 (Suc k) e q = (if pow10 e \<le> q then e else find_exp10 k (e - 1) q)"

definition strip_zeros :: "byte list \<Rightarrow> byte list" where
  "strip_zeros s = rev (dropWhile (\<lambda>c. c = 48) (rev s))"

text \<open>The \<open>p\<close> significant digits of \<open>q > 0\<close> and the decimal exponent after rounding.\<close>

definition sig_digits :: "nat \<Rightarrow> rat \<Rightarrow> byte list \<times> int" where
  "sig_digits p q =
     (let x = find_exp10 700 320 q;
          m = round_even (q * pow10 (int p - 1 - x))
      in if 10 ^ p \<le> m then (digits_of p (10 ^ (p - 1)), x + 1) else (digits_of p m, x))"

definition with_point :: "byte list \<Rightarrow> byte list \<Rightarrow> byte list" where
  "with_point ip fp = (let fp = strip_zeros fp in if fp = [] then ip else ip @ 46 # fp)"

definition exp_text :: "int \<Rightarrow> byte list" where
  "exp_text x =
     (let n = nat \<bar>x\<bar> in
      101 # (if x < 0 then 45 else 43) # (if n < 100 then digits_of 2 n else digits_of 3 n))"

definition fmt_abs :: "nat \<Rightarrow> rat \<Rightarrow> byte list" where
  "fmt_abs p q =
     (let (ds, x) = sig_digits p q in
      if x < -4 \<or> int p \<le> x then with_point (take 1 ds) (drop 1 ds) @ exp_text x
      else if x < 0 then with_point [48] (replicate (nat (- x) - 1) 48 @ ds)
      else with_point (take (nat x + 1) ds) (drop (nat x + 1) ds))"

definition fmt_g :: "nat \<Rightarrow> f64 \<Rightarrow> byte list" where
  "fmt_g p d =
     (if f64_nan d then [110, 97, 110]
      else if f64_inf d then (if f64_sign d then [45, 105, 110, 102] else [105, 110, 102])
      else (if f64_sign d then [45] else []) @ (if f64_abs d = 0 then [48] else fmt_abs p (f64_abs d)))"

end
