(* ===== verification/CJson.thy ===== *)
theory CJson
  imports Prelude CDouble
begin

text \<open>
  \<open>file_format/json/cJSON\<close>: the item type, its storage and the operations on single items.
  Items and strings are separate objects of one heap (\<open>ItemC\<close>, \<open>StrC\<close>); an item refers to its
  neighbours, its first child and its strings by address, as in C.  A C string is a block whose
  first zero byte ends it (\<^const>\<open>cstring\<close>).

  The allocator hooks are \<open>malloc\<close>/\<open>free\<close> of the heap, which fail where its script says so; what
  the code can tell about them is whether \<open>reallocate\<close> is available (\<open>hooks\<close>).
\<close>

subsection \<open>Data\<close>

text \<open>\<open>struct cJSON\<close>; \<open>string\<close> is called \<open>key\<close> here.\<close>

record item =
  inext :: addr
  iprev :: addr
  child :: addr
  itype :: "32 word"
  valuestring :: addr
  valueint :: "32 word"
  valuedouble :: f64
  key :: addr

datatype jcell = ItemC item | StrC cbuf

type_synonym jheap = "jcell heap"

definition cJSON_Invalid :: "32 word" where "cJSON_Invalid = 0"
definition cJSON_False :: "32 word" where "cJSON_False = 1"
definition cJSON_True :: "32 word" where "cJSON_True = 2"
definition cJSON_NULL :: "32 word" where "cJSON_NULL = 4"
definition cJSON_Number :: "32 word" where "cJSON_Number = 8"
definition cJSON_String :: "32 word" where "cJSON_String = 16"
definition cJSON_Array :: "32 word" where "cJSON_Array = 32"
definition cJSON_Object :: "32 word" where "cJSON_Object = 64"
definition cJSON_Raw :: "32 word" where "cJSON_Raw = 128"
definition cJSON_IsReference :: "32 word" where "cJSON_IsReference = 256"
definition cJSON_StringIsConst :: "32 word" where "cJSON_StringIsConst = 512"

lemmas ctype_defs = cJSON_Invalid_def cJSON_False_def cJSON_True_def cJSON_NULL_def cJSON_Number_def
  cJSON_String_def cJSON_Array_def cJSON_Object_def cJSON_Raw_def cJSON_IsReference_def
  cJSON_StringIsConst_def

definition is_reference :: "32 word \<Rightarrow> bool" where
  "is_reference ty \<longleftrightarrow> ty AND cJSON_IsReference \<noteq> 0"

definition string_is_const :: "32 word \<Rightarrow> bool" where
  "string_is_const ty \<longleftrightarrow> ty AND cJSON_StringIsConst \<noteq> 0"

definition empty_item :: item where
  "empty_item = \<lparr>inext = NULL, iprev = NULL, child = NULL, itype = cJSON_Invalid, valuestring = NULL,
     valueint = 0, valuedouble = 0, key = NULL\<rparr>"

definition load_item :: "addr \<Rightarrow> jheap \<Rightarrow> item option" where
  "load_item p h = (case load p h of Some (ItemC i) \<Rightarrow> Some i | _ \<Rightarrow> None)"

definition load_str :: "addr \<Rightarrow> jheap \<Rightarrow> cbuf option" where
  "load_str p h = (case load p h of Some (StrC b) \<Rightarrow> Some b | _ \<Rightarrow> None)"

text \<open>\<open>p->field = v\<close>\<close>

definition upd_item :: "addr \<Rightarrow> (item \<Rightarrow> item) \<Rightarrow> jheap \<Rightarrow> jheap option" where
  "upd_item p f h = do { i \<leftarrow> load_item p h; store p (ItemC (f i)) h }"

text \<open>The C string at an address: what \<open>strlen\<close>, \<open>strcmp\<close>, \<open>strcpy\<close> read.\<close>

definition read_str :: "addr \<Rightarrow> jheap \<Rightarrow> byte list option" where
  "read_str p h = do { b \<leftarrow> load_str p h; cstring b }"

subsection \<open>Hooks\<close>

text \<open>An allocation function is the C library's or one of the program's own.\<close>

datatype alloc_fn = Libc | Custom nat

record hooks =
  allocate :: alloc_fn
  deallocate :: alloc_fn
  reallocate :: "alloc_fn option"

text \<open>The argument: NULL, or the two members, each of which may be NULL.\<close>

definition cJSON_InitHooks :: "(alloc_fn option \<times> alloc_fn option) option \<Rightarrow> hooks" where
  "cJSON_InitHooks hk =
     (case hk of
        None \<Rightarrow> \<lparr>allocate = Libc, deallocate = Libc, reallocate = Some Libc\<rparr>
      | Some (malloc_fn, free_fn) \<Rightarrow>
          let a = (case malloc_fn of None \<Rightarrow> Libc | Some f \<Rightarrow> f);
              d = (case free_fn of None \<Rightarrow> Libc | Some f \<Rightarrow> f)
          in \<lparr>allocate = a, deallocate = d,
              reallocate = (if a = Libc \<and> d = Libc then Some Libc else None)\<rparr>)"

text \<open>\<open>realloc\<close> of a string block: on failure the old block stays; otherwise the content moves.\<close>

definition resize :: "nat \<Rightarrow> cbuf \<Rightarrow> cbuf" where
  "resize n b = take n b @ uninit (n - length b)"

definition realloc :: "addr \<Rightarrow> nat \<Rightarrow> jheap \<Rightarrow> (addr \<times> jheap) option" where
  "realloc p n h = do {
     b \<leftarrow> load_str p h;
     let (q, h) = malloc (StrC (resize n b)) h;
     (if q = NULL then Some (NULL, h) else do { h \<leftarrow> free p h; Some (q, h) }) }"

subsection \<open>Single items\<close>

definition cJSON_New_Item :: "jheap \<Rightarrow> addr \<times> jheap" where
  "cJSON_New_Item h = malloc (ItemC empty_item) h"

text \<open>\<open>memcpy\<close> copies up to and including the terminator.\<close>

definition cJSON_strdup :: "addr \<Rightarrow> jheap \<Rightarrow> (addr \<times> jheap) option" where
  "cJSON_strdup s h =
     (if s = NULL then Some (NULL, h)
      else do { t \<leftarrow> read_str s h; Some (malloc (StrC (str_buf t)) h) })"

text \<open>
  The loop over \<open>next\<close> and the recursion into \<open>child\<close>.  The item is read again after its children
  are gone, as the code does.
\<close>

partial_function (option) cJSON_Delete :: "addr \<Rightarrow> jheap \<Rightarrow> jheap option" where
  [code]: "cJSON_Delete item h =
     (if item = NULL then Some h
      else do {
        i \<leftarrow> load_item item h;
        h \<leftarrow> (if \<not> is_reference (itype i) \<and> child i \<noteq> NULL then cJSON_Delete (child i) h else Some h);
        j \<leftarrow> load_item item h;
        h \<leftarrow> (if \<not> is_reference (itype j) \<and> valuestring j \<noteq> NULL then free (valuestring j) h else Some h);
        h \<leftarrow> (if \<not> string_is_const (itype j) \<and> key j \<noteq> NULL then free (key j) h else Some h);
        h \<leftarrow> free item h;
        cJSON_Delete (inext i) h })"

text \<open>\<open>cJSON_SetNumberHelper\<close> and the saturating conversion it shares with \<open>parse_number\<close> and
  \<open>cJSON_CreateNumber\<close>; converting a NaN to \<open>int\<close> is undefined.\<close>

definition int_of_number :: "f64 \<Rightarrow> 32 word option" where
  "int_of_number d =
     (if f64_ge_int d 2147483647 then Some 0x7FFFFFFF
      else if f64_le_int d (-2147483648) then Some 0x80000000
      else map_option of_int (f64_trunc d))"

definition cJSON_SetNumberHelper :: "addr \<Rightarrow> f64 \<Rightarrow> jheap \<Rightarrow> (f64 \<times> jheap) option" where
  "cJSON_SetNumberHelper object number h = do {
     v \<leftarrow> int_of_number number;
     h \<leftarrow> upd_item object (\<lambda>i. i\<lparr>valueint := v\<rparr>) h;
     h \<leftarrow> upd_item object (\<lambda>i. i\<lparr>valuedouble := number\<rparr>) h;
     Some (number, h) }"

subsection \<open>Creating items\<close>

text \<open>The shape shared by the constructors: a new item with some fields set.\<close>

definition create_with :: "(item \<Rightarrow> item) \<Rightarrow> jheap \<Rightarrow> (addr \<times> jheap) option" where
  "create_with f h =
     (let (p, h) = cJSON_New_Item h in
      if p \<noteq> NULL then do { h \<leftarrow> upd_item p f h; Some (p, h) } else Some (NULL, h))"

definition cJSON_CreateNull :: "jheap \<Rightarrow> (addr \<times> jheap) option" where
  "cJSON_CreateNull = create_with (\<lambda>i. i\<lparr>itype := cJSON_NULL\<rparr>)"

definition cJSON_CreateTrue :: "jheap \<Rightarrow> (addr \<times> jheap) option" where
  "cJSON_CreateTrue = create_with (\<lambda>i. i\<lparr>itype := cJSON_True\<rparr>)"

definition cJSON_CreateFalse :: "jheap \<Rightarrow> (addr \<times> jheap) option" where
  "cJSON_CreateFalse = create_with (\<lambda>i. i\<lparr>itype := cJSON_False\<rparr>)"

definition cJSON_CreateBool :: "bool \<Rightarrow> jheap \<Rightarrow> (addr \<times> jheap) option" where
  "cJSON_CreateBool b = create_with (\<lambda>i. i\<lparr>itype := (if b then cJSON_True else cJSON_False)\<rparr>)"

definition cJSON_CreateNumber :: "f64 \<Rightarrow> jheap \<Rightarrow> (addr \<times> jheap) option" where
  "cJSON_CreateNumber num h =
     (let (p, h) = cJSON_New_Item h in
      if p \<noteq> NULL then do {
        h \<leftarrow> upd_item p (\<lambda>i. i\<lparr>itype := cJSON_Number, valuedouble := num\<rparr>) h;
        v \<leftarrow> int_of_number num;
        h \<leftarrow> upd_item p (\<lambda>i. i\<lparr>valueint := v\<rparr>) h;
        Some (p, h) }
      else Some (NULL, h))"

definition create_string :: "32 word \<Rightarrow> addr \<Rightarrow> jheap \<Rightarrow> (addr \<times> jheap) option" where
  "create_string ty s h =
     (let (p, h) = cJSON_New_Item h in
      if p \<noteq> NULL then do {
        h \<leftarrow> upd_item p (\<lambda>i. i\<lparr>itype := ty\<rparr>) h;
        (v, h) \<leftarrow> cJSON_strdup s h;
        h \<leftarrow> upd_item p (\<lambda>i. i\<lparr>valuestring := v\<rparr>) h;
        (if v = NULL then do { h \<leftarrow> cJSON_Delete p h; Some (NULL, h) }
         else Some (p, h)) }
      else Some (NULL, h))"

definition cJSON_CreateString :: "addr \<Rightarrow> jheap \<Rightarrow> (addr \<times> jheap) option" where
  "cJSON_CreateString s = create_string cJSON_String s"

definition cJSON_CreateRaw :: "addr \<Rightarrow> jheap \<Rightarrow> (addr \<times> jheap) option" where
  "cJSON_CreateRaw s = create_string cJSON_Raw s"

definition cJSON_CreateStringReference :: "addr \<Rightarrow> jheap \<Rightarrow> (addr \<times> jheap) option" where
  "cJSON_CreateStringReference s =
     create_with (\<lambda>i. i\<lparr>itype := cJSON_String OR cJSON_IsReference, valuestring := s\<rparr>)"

definition cJSON_CreateObjectReference :: "addr \<Rightarrow> jheap \<Rightarrow> (addr \<times> jheap) option" where
  "cJSON_CreateObjectReference c =
     create_with (\<lambda>i. i\<lparr>itype := cJSON_Object OR cJSON_IsReference, child := c\<rparr>)"

definition cJSON_CreateArrayReference :: "addr \<Rightarrow> jheap \<Rightarrow> (addr \<times> jheap) option" where
  "cJSON_CreateArrayReference c =
     create_with (\<lambda>i. i\<lparr>itype := cJSON_Array OR cJSON_IsReference, child := c\<rparr>)"

definition cJSON_CreateArray :: "jheap \<Rightarrow> (addr \<times> jheap) option" where
  "cJSON_CreateArray = create_with (\<lambda>i. i\<lparr>itype := cJSON_Array\<rparr>)"

definition cJSON_CreateObject :: "jheap \<Rightarrow> (addr \<times> jheap) option" where
  "cJSON_CreateObject = create_with (\<lambda>i. i\<lparr>itype := cJSON_Object\<rparr>)"

end
