(* ===== verification/CJsonParse.thy ===== *)
theory CJsonParse
  imports CJson
begin

text \<open>
  The parser of \<open>cJSON.c\<close>.  The input is the byte sequence of the C string with its
  terminator (\<open>content\<close>, of \<open>len\<close> bytes); reading outside it is undefined, and so is moving
  \<open>offset\<close> below 0.  Parsing functions return whether they succeeded, the buffer and the heap; the
  item they fill is passed by address.  Output strings are written byte by byte into a buffer of the
  allocated size, which becomes the content of the allocated block.
\<close>

subsection \<open>The parse buffer\<close>

record parse_buffer =
  content :: "byte list"
  len :: nat
  offset :: nat
  depth :: nat

definition CJSON_NESTING_LIMIT :: nat where
  "CJSON_NESTING_LIMIT = 1000"

definition can_read :: "parse_buffer \<Rightarrow> nat \<Rightarrow> bool" where
  "can_read b n \<longleftrightarrow> offset b + n \<le> len b"

definition can_access_at_index :: "parse_buffer \<Rightarrow> nat \<Rightarrow> bool" where
  "can_access_at_index b i \<longleftrightarrow> offset b + i < len b"

text \<open>\<open>content[i]\<close>, and \<open>buffer_at_offset(b)[0]\<close>.\<close>

definition byte_at :: "parse_buffer \<Rightarrow> nat \<Rightarrow> byte option" where
  "byte_at b i = (if i < length (content b) then Some (content b ! i) else None)"

definition cur_byte :: "parse_buffer \<Rightarrow> byte option" where
  "cur_byte b = byte_at b (offset b)"

definition advance :: "nat \<Rightarrow> parse_buffer \<Rightarrow> parse_buffer" where
  "advance n b = b\<lparr>offset := offset b + n\<rparr>"

definition step_back :: "parse_buffer \<Rightarrow> parse_buffer option" where
  "step_back b = (if offset b = 0 then None else Some (b\<lparr>offset := offset b - 1\<rparr>))"

text \<open>\<open>can_access_at_index(b, 0) && b[0] == c\<close>\<close>

definition next_is :: "byte \<Rightarrow> parse_buffer \<Rightarrow> bool option" where
  "next_is c b = (if can_access_at_index b 0 then do { x \<leftarrow> cur_byte b; Some (x = c) } else Some False)"

partial_function (option) skip_blanks :: "parse_buffer \<Rightarrow> parse_buffer option" where
  [code]: "skip_blanks b =
     (if can_access_at_index b 0 then do {
        c \<leftarrow> cur_byte b;
        (if c \<le> 32 then skip_blanks (advance 1 b) else Some b) }
      else Some b)"

definition buffer_skip_whitespace :: "parse_buffer \<Rightarrow> parse_buffer option" where
  "buffer_skip_whitespace b = do {
     b \<leftarrow> skip_blanks b;
     (if offset b = len b then step_back b else Some b) }"

text \<open>\<open>strncmp\<close> of literal text without zero bytes at the offset.\<close>

definition at_text :: "byte list \<Rightarrow> parse_buffer \<Rightarrow> bool" where
  "at_text s b \<longleftrightarrow> take (length s) (drop (offset b) (content b)) = s"

definition skip_utf8_bom :: "parse_buffer \<Rightarrow> parse_buffer option" where
  "skip_utf8_bom b =
     (if offset b \<noteq> 0 then None
      else if can_access_at_index b 4 \<and> at_text [0xEF, 0xBB, 0xBF] b then Some (advance 3 b)
      else Some b)"

subsection \<open>Numbers\<close>

definition number_char :: "byte \<Rightarrow> bool" where
  "number_char c \<longleftrightarrow> 48 \<le> c \<and> c \<le> 57 \<or> c = 43 \<or> c = 45 \<or> c = 101 \<or> c = 69 \<or> c = 46"

text \<open>The copy of at most 63 characters into \<open>number_c_string\<close> (the decimal point is \<open>.\<close>).\<close>

definition number_c_string :: "parse_buffer \<Rightarrow> byte list" where
  "number_c_string b = takeWhile number_char (take 63 (take (len b - offset b) (drop (offset b) (content b))))"

definition parse_number :: "addr \<Rightarrow> parse_buffer \<Rightarrow> jheap \<Rightarrow> (bool \<times> parse_buffer \<times> jheap) option" where
  "parse_number item b h =
     (let (number, n) = strtod (number_c_string b) in
      if n = 0 then Some (False, b, h)
      else do {
        h \<leftarrow> upd_item item (\<lambda>i. i\<lparr>valuedouble := number\<rparr>) h;
        v \<leftarrow> int_of_number number;
        h \<leftarrow> upd_item item (\<lambda>i. i\<lparr>valueint := v\<rparr>) h;
        h \<leftarrow> upd_item item (\<lambda>i. i\<lparr>itype := cJSON_Number\<rparr>) h;
        Some (True, advance n b, h) })"

subsection \<open>Strings\<close>

definition hex_digit :: "byte \<Rightarrow> 32 word option" where
  "hex_digit c =
     (if 48 \<le> c \<and> c \<le> 57 then Some (ucast c - 48)
      else if 65 \<le> c \<and> c \<le> 70 then Some (10 + ucast c - 65)
      else if 97 \<le> c \<and> c \<le> 102 then Some (10 + ucast c - 97)
      else None)"

text \<open>
  The loop of \<open>parse_hex4\<close> for the digits \<open>i, \<dots>, 3\<close>: an invalid digit makes the result 0.
\<close>

fun hex4_loop :: "parse_buffer \<Rightarrow> nat \<Rightarrow> nat \<Rightarrow> nat \<Rightarrow> 32 word \<Rightarrow> 32 word option" where
  "hex4_loop b p 0 i h = Some h"
| "hex4_loop b p (Suc k) i h = do {
     c \<leftarrow> byte_at b (p + i);
     (case hex_digit c of
        None \<Rightarrow> Some 0
      | Some d \<Rightarrow>
          let h = h + d in hex4_loop b p k (i + 1) (if i < 3 then push_bit 4 h else h)) }"

definition parse_hex4 :: "parse_buffer \<Rightarrow> nat \<Rightarrow> 32 word option" where
  "parse_hex4 b p = hex4_loop b p 4 0 0"

text \<open>The continuation bytes, from position \<open>k\<close> down to 1; what is left of the code point.\<close>

fun put_continuation :: "nat \<Rightarrow> 64 word \<Rightarrow> cbuf \<Rightarrow> nat \<Rightarrow> (64 word \<times> cbuf) option" where
  "put_continuation 0 cp out op = Some (cp, out)"
| "put_continuation (Suc k) cp out op = do {
     out \<leftarrow> poke out (op + Suc k) (ucast ((cp OR 0x80) AND 0xBF));
     put_continuation k (drop_bit 6 cp) out op }"

text \<open>Encoding of a valid code point at \<open>out[op]\<close>; \<^term>\<open>None\<close> as the inner result is \<open>goto fail\<close>.\<close>

definition put_utf8 :: "64 word \<Rightarrow> cbuf \<Rightarrow> nat \<Rightarrow> (cbuf \<times> nat) option option" where
  "put_utf8 cp out op =
     (let (n, mark) = (if cp < 0x80 then (1, 0) else if cp < 0x800 then (2, 0xC0)
                       else if cp < 0x10000 then (3, 0xE0)
                       else if cp \<le> 0x10FFFF then (4, 0xF0) else (0, 0)) in
      if n = 0 then Some None
      else do {
        (cp, out) \<leftarrow> put_continuation (n - 1) cp out op;
        out \<leftarrow> poke out op (if n > 1 then ucast ((cp OR mark) AND 0xFF) else ucast (cp AND 0x7F));
        Some (Some (out, op + n)) })"

text \<open>
  \<open>utf16_literal_to_utf8\<close>: the sequence length (0 on failure), the output and its position.
\<close>

definition utf16_literal_to_utf8 ::
  "parse_buffer \<Rightarrow> nat \<Rightarrow> nat \<Rightarrow> cbuf \<Rightarrow> nat \<Rightarrow> (nat \<times> cbuf \<times> nat) option" where
  "utf16_literal_to_utf8 b ip iend out op =
     (if int iend - int ip < 6 then Some (0, out, op)
      else do {
        first_code \<leftarrow> parse_hex4 b (ip + 2);
        (if 0xDC00 \<le> first_code \<and> first_code \<le> 0xDFFF then Some (0, out, op)
         else if 0xD800 \<le> first_code \<and> first_code \<le> 0xDBFF then
           (if int iend - int (ip + 6) < 6 then Some (0, out, op)
            else do {
              c0 \<leftarrow> byte_at b (ip + 6);
              c1 \<leftarrow> byte_at b (ip + 7);
              (if c0 \<noteq> 92 \<or> c1 \<noteq> 117 then Some (0, out, op)
               else do {
                 second_code \<leftarrow> parse_hex4 b (ip + 8);
                 (if second_code < 0xDC00 \<or> 0xDFFF < second_code then Some (0, out, op)
                  else do {
                    r \<leftarrow> put_utf8 (0x10000 + ucast (push_bit 10 (first_code AND 0x3FF) OR (second_code AND 0x3FF)))
                           out op;
                    Some (case r of None \<Rightarrow> (0, out, op) | Some (out, op) \<Rightarrow> (12, out, op)) }) }) })
         else do {
           r \<leftarrow> put_utf8 (ucast first_code) out op;
           Some (case r of None \<Rightarrow> (0, out, op) | Some (out, op) \<Rightarrow> (6, out, op)) }) })"

text \<open>
  The size estimate: from \<open>input_end\<close> to the closing quote, counting escape sequences.  False
  when the last character is a backslash.
\<close>

partial_function (option) scan_string :: "parse_buffer \<Rightarrow> nat \<Rightarrow> nat \<Rightarrow> (bool \<times> nat \<times> nat) option" where
  [code]: "scan_string b input_end skipped =
     (if input_end < len b then do {
        c \<leftarrow> byte_at b input_end;
        (if c = 34 then Some (True, input_end, skipped)
         else if c = 92 then
           (if len b \<le> input_end + 1 then Some (False, input_end, skipped)
            else scan_string b (input_end + 2) (skipped + 1))
         else scan_string b (input_end + 1) skipped) }
      else Some (True, input_end, skipped))"

definition simple_escape :: "byte \<Rightarrow> byte option" where
  "simple_escape c =
     (if c = 98 then Some 8 else if c = 102 then Some 12 else if c = 110 then Some 10
      else if c = 114 then Some 13 else if c = 116 then Some 9
      else if c = 34 \<or> c = 92 \<or> c = 47 then Some c else None)"

text \<open>The loop through the literal: success, input position, output, output position.\<close>

partial_function (option) unescape ::
  "parse_buffer \<Rightarrow> nat \<Rightarrow> nat \<Rightarrow> cbuf \<Rightarrow> nat \<Rightarrow> (bool \<times> nat \<times> cbuf \<times> nat) option" where
  [code]: "unescape b ip iend out op =
     (if ip < iend then do {
        c \<leftarrow> byte_at b ip;
        (if c \<noteq> 92 then do {
           out \<leftarrow> poke out op c;
           unescape b (ip + 1) iend out (op + 1) }
         else if int iend - int ip < 1 then Some (False, ip, out, op)
         else do {
           e \<leftarrow> byte_at b (ip + 1);
           (case simple_escape e of
              Some x \<Rightarrow> do {
                out \<leftarrow> poke out op x;
                unescape b (ip + 2) iend out (op + 1) }
            | None \<Rightarrow>
                if e = 117 then do {
                  r \<leftarrow> utf16_literal_to_utf8 b ip iend out op;
                  (if fst r = 0 then Some (False, ip, fst (snd r), snd (snd r))
                   else unescape b (ip + fst r) iend (fst (snd r)) (snd (snd r))) }
                else Some (False, ip, out, op)) }) }
      else Some (True, ip, out, op))"

definition parse_string :: "addr \<Rightarrow> parse_buffer \<Rightarrow> jheap \<Rightarrow> (bool \<times> parse_buffer \<times> jheap) option" where
  "parse_string item b h =
     (let input_pointer = offset b + 1 in do {
      c \<leftarrow> cur_byte b;
      (if c \<noteq> 34 then Some (False, b\<lparr>offset := input_pointer\<rparr>, h)
       else do {
         (found, input_end, skipped) \<leftarrow> scan_string b input_pointer 0;
         closed \<leftarrow> (if \<not> found then Some False else if len b \<le> input_end then Some False
                   else do { c \<leftarrow> byte_at b input_end; Some (c = 34) });
         (if \<not> closed then Some (False, b\<lparr>offset := input_pointer\<rparr>, h)
          else
            (let allocation_length = input_end - offset b - skipped;
                 (output, h) = malloc (StrC (uninit (allocation_length + 1))) h in
             if output = NULL then Some (False, b\<lparr>offset := input_pointer\<rparr>, h)
             else do {
               (ok, ip, out, op) \<leftarrow> unescape b input_pointer input_end (uninit (allocation_length + 1)) 0;
               (if \<not> ok then do { h \<leftarrow> free output h; Some (False, b\<lparr>offset := ip\<rparr>, h) }
                else do {
                  out \<leftarrow> poke out op 0;
                  h \<leftarrow> store output (StrC out) h;
                  h \<leftarrow> upd_item item (\<lambda>i. i\<lparr>itype := cJSON_String, valuestring := output\<rparr>) h;
                  Some (True, b\<lparr>offset := input_end + 1\<rparr>, h) }) })) }) })"

subsection \<open>Arrays, objects and values\<close>

type_synonym value_parser = "addr \<Rightarrow> parse_buffer \<Rightarrow> jheap \<Rightarrow> (bool \<times> parse_buffer \<times> jheap) option"

text \<open>Allocating the next item and linking it behind \<open>current_item\<close>: (head, current item).\<close>

definition attach_new :: "addr \<Rightarrow> addr \<Rightarrow> jheap \<Rightarrow> ((addr \<times> addr) option \<times> jheap) option" where
  "attach_new head_item current_item h =
     (let (new_item, h) = cJSON_New_Item h in
      if new_item = NULL then Some (None, h)
      else if head_item = NULL then Some (Some (new_item, new_item), h)
      else do {
        h \<leftarrow> upd_item current_item (\<lambda>i. i\<lparr>inext := new_item\<rparr>) h;
        h \<leftarrow> upd_item new_item (\<lambda>i. i\<lparr>iprev := current_item\<rparr>) h;
        Some (Some (head_item, new_item), h) })"

text \<open>
  The loop through the elements, from the character in front of the next one: whether it ended
  without failure, the head of the list, buffer and heap.  \<open>pv\<close> parses one element.
\<close>

partial_function (option) parse_elements ::
  "value_parser \<Rightarrow> addr \<Rightarrow> addr \<Rightarrow> parse_buffer \<Rightarrow> jheap \<Rightarrow> (bool \<times> addr \<times> parse_buffer \<times> jheap) option" where
  [code]: "parse_elements pv head_item current_item b h = do {
     a \<leftarrow> attach_new head_item current_item h;
     (case fst a of
        None \<Rightarrow> Some (False, head_item, b, snd a)
      | Some (head_item, current_item) \<Rightarrow> do {
          b \<leftarrow> buffer_skip_whitespace (advance 1 b);
          r \<leftarrow> pv current_item b (snd a);
          (if \<not> fst r then Some (False, head_item, fst (snd r), snd (snd r))
           else do {
             b \<leftarrow> buffer_skip_whitespace (fst (snd r));
             comma \<leftarrow> next_is 44 b;
             (if comma then parse_elements pv head_item current_item b (snd (snd r))
              else Some (True, head_item, b, snd (snd r))) }) }) }"

text \<open>The name, the colon and the value of one member.\<close>

definition parse_member :: "value_parser \<Rightarrow> value_parser" where
  "parse_member pv current_item b h = do {
     (ok, b, h) \<leftarrow> parse_string current_item b h;
     (if \<not> ok then Some (False, b, h)
      else do {
        b \<leftarrow> buffer_skip_whitespace b;
        h \<leftarrow> upd_item current_item (\<lambda>i. i\<lparr>key := valuestring i, valuestring := NULL\<rparr>) h;
        colon \<leftarrow> next_is 58 b;
        (if \<not> colon then Some (False, b, h)
         else do {
           b \<leftarrow> buffer_skip_whitespace (advance 1 b);
           pv current_item b h }) }) }"

text \<open>
  What \<open>parse_array\<close> and \<open>parse_object\<close> do alike after the opening bracket, with the closing
  bracket \<open>close\<close>, the type \<open>ty\<close> and the parser of one element.
\<close>

definition parse_list ::
  "value_parser \<Rightarrow> byte \<Rightarrow> 32 word \<Rightarrow> addr \<Rightarrow> parse_buffer \<Rightarrow> jheap \<Rightarrow> (bool \<times> parse_buffer \<times> jheap) option" where
  "parse_list pv close ty item b h = do {
     b \<leftarrow> buffer_skip_whitespace (advance 1 b);
     is_empty \<leftarrow> next_is close b;
     (ok, head_item, b, h) \<leftarrow>
       (if is_empty then Some (True, NULL, b, h)
        else if \<not> can_access_at_index b 0 then do { b \<leftarrow> step_back b; Some (False, NULL, b, h) }
        else do {
          b \<leftarrow> step_back b;
          (ok, head_item, b, h) \<leftarrow> parse_elements pv NULL NULL b h;
          closed \<leftarrow> (if ok then next_is close b else Some False);
          Some (closed, head_item, b, h) });
     (if ok then do {
        h \<leftarrow> upd_item item (\<lambda>i. i\<lparr>itype := ty, child := head_item\<rparr>) h;
        Some (True, b\<lparr>depth := depth b - 1, offset := offset b + 1\<rparr>, h) }
      else do {
        h \<leftarrow> (if head_item \<noteq> NULL then cJSON_Delete head_item h else Some h);
        Some (False, b, h) }) }"

definition parse_array :: "value_parser \<Rightarrow> value_parser" where
  "parse_array pv item b h =
     (if CJSON_NESTING_LIMIT \<le> depth b then Some (False, b, h)
      else do {
        let b = b\<lparr>depth := depth b + 1\<rparr>;
        c \<leftarrow> cur_byte b;
        (if c \<noteq> 91 then Some (False, b, h)
         else parse_list pv 93 cJSON_Array item b h) })"

definition parse_object :: "value_parser \<Rightarrow> value_parser" where
  "parse_object pv item b h =
     (if CJSON_NESTING_LIMIT \<le> depth b then Some (False, b, h)
      else do {
        let b = b\<lparr>depth := depth b + 1\<rparr>;
        opening \<leftarrow> next_is 123 b;
        (if \<not> opening then Some (False, b, h)
         else parse_list (parse_member pv) 125 cJSON_Object item b h) })"

text \<open>
  \<open>parse_value\<close> calls itself through \<open>parse_array\<close> and \<open>parse_object\<close>; the first argument bounds
  that nesting, which the code bounds by \<open>CJSON_NESTING_LIMIT\<close>.
\<close>

fun parse_value :: "nat \<Rightarrow> value_parser" where
  "parse_value 0 item b h = None"
| "parse_value (Suc n) item b h =
     (if can_read b 4 \<and> at_text [110, 117, 108, 108] b then do {
        h \<leftarrow> upd_item item (\<lambda>i. i\<lparr>itype := cJSON_NULL\<rparr>) h;
        Some (True, advance 4 b, h) }
      else if can_read b 5 \<and> at_text [102, 97, 108, 115, 101] b then do {
        h \<leftarrow> upd_item item (\<lambda>i. i\<lparr>itype := cJSON_False\<rparr>) h;
        Some (True, advance 5 b, h) }
      else if can_read b 4 \<and> at_text [116, 114, 117, 101] b then do {
        h \<leftarrow> upd_item item (\<lambda>i. i\<lparr>itype := cJSON_True, valueint := 1\<rparr>) h;
        Some (True, advance 4 b, h) }
      else if \<not> can_access_at_index b 0 then Some (False, b, h)
      else do {
        c \<leftarrow> cur_byte b;
        (if c = 34 then parse_string item b h
         else if c = 45 \<or> 48 \<le> c \<and> c \<le> 57 then parse_number item b h
         else if c = 91 then parse_array (parse_value n) item b h
         else if c = 123 then parse_object (parse_value n) item b h
         else Some (False, b, h)) })"

text \<open>
  The item (NULL on failure), what \<open>*return_parse_end\<close> is set to as an offset into the text, and
  \<open>global_error\<close>: \<^term>\<open>None\<close> for the initial \<open>{ NULL, 0 }\<close>, otherwise the position.
\<close>

definition parse_failure ::
  "addr \<Rightarrow> bool \<Rightarrow> parse_buffer \<Rightarrow> jheap \<Rightarrow> (addr \<times> nat option \<times> nat option \<times> jheap) option" where
  "parse_failure item return_parse_end b h = do {
     h \<leftarrow> (if item \<noteq> NULL then cJSON_Delete item h else Some h);
     let position = (if offset b < len b then offset b else if 0 < len b then len b - 1 else 0);
     Some (NULL, if return_parse_end then Some position else None, Some position, h) }"

definition cJSON_ParseWithOpts ::
  "byte list option \<Rightarrow> bool \<Rightarrow> bool \<Rightarrow> jheap \<Rightarrow> (addr \<times> nat option \<times> nat option \<times> jheap) option" where
  "cJSON_ParseWithOpts val return_parse_end require_null_terminated h =
     (case val of
        None \<Rightarrow> Some (NULL, None, None, h)
      | Some s \<Rightarrow>
          let b = \<lparr>content = s @ [0], len = length s + 1, offset = 0, depth = 0\<rparr>;
              (item, h) = cJSON_New_Item h in
          if item = NULL then parse_failure NULL return_parse_end b h
          else do {
            b1 \<leftarrow> skip_utf8_bom b;
            b1 \<leftarrow> buffer_skip_whitespace b1;
            (ok, b2, h) \<leftarrow> parse_value (CJSON_NESTING_LIMIT + 1) item b1 h;
            (if \<not> ok then parse_failure item return_parse_end b2 h
             else do {
               (ended, b3) \<leftarrow>
                 (if require_null_terminated then do {
                    b3 \<leftarrow> buffer_skip_whitespace b2;
                    ended \<leftarrow> (if len b3 \<le> offset b3 then Some False
                             else do { c \<leftarrow> cur_byte b3; Some (c = 0) });
                    Some (ended, b3) }
                  else Some (True, b2));
               (if \<not> ended then parse_failure item return_parse_end b3 h
                else Some (item, if return_parse_end then Some (offset b3) else None, None, h)) }) })"

definition cJSON_Parse :: "byte list option \<Rightarrow> jheap \<Rightarrow> (addr \<times> nat option \<times> nat option \<times> jheap) option" where
  "cJSON_Parse val h = cJSON_ParseWithOpts val False False h"

end
