(* ===== verification/CJsonSpec.thy ===== *)
theory CJsonSpec
  imports CJson
begin

text \<open>
  What a heap of \<open>cJSON\<close> items stands for.  \<open>jtree\<close> is an item with its strings and its children,
  each with the address it has; \<open>items_at h a ts b\<close> says that the heap holds the sibling chain
  \<open>ts\<close> between the neighbours \<open>a\<close> and \<open>b\<close>, and \<open>foot ts\<close> lists the blocks the chain owns: what
  \<open>cJSON_Delete\<close> must release, and all it may release.  The children and the string of a reference
  item and a constant key belong to somebody else.
\<close>

subsection \<open>Trees\<close>

datatype jtree =
  JT (jaddr: addr) (jtype: "32 word") (jvalue: "(addr \<times> byte list) option") (jint: "32 word")
     (jdouble: f64) (jkey: "(addr \<times> byte list) option") (jkids: "jtree list")

definition ptr_of :: "(addr \<times> byte list) option \<Rightarrow> addr" where
  "ptr_of v = (case v of None \<Rightarrow> NULL | Some (p, s) \<Rightarrow> p)"

definition ptrs :: "(addr \<times> byte list) option \<Rightarrow> addr list" where
  "ptrs v = (case v of None \<Rightarrow> [] | Some (p, s) \<Rightarrow> [p])"

definition str_at :: "jheap \<Rightarrow> (addr \<times> byte list) option \<Rightarrow> bool" where
  "str_at h v = (case v of None \<Rightarrow> True | Some (p, s) \<Rightarrow> read_str p h = Some s)"

definition first_addr :: "jtree list \<Rightarrow> addr \<Rightarrow> addr" where
  "first_addr ts b = (case ts of [] \<Rightarrow> b | t # _ \<Rightarrow> jaddr t)"

definition last_addr :: "addr \<Rightarrow> jtree list \<Rightarrow> addr" where
  "last_addr a ts = (if ts = [] then a else jaddr (last ts))"

lemma addr_simps [simp]:
  "first_addr [] b = b" "first_addr (t # ts) b = jaddr t"
  "last_addr a [] = a" "last_addr a (t # ts) = last_addr (jaddr t) ts" "last_addr a (ts @ [t]) = jaddr t"
  by (simp_all add: first_addr_def last_addr_def)

lemma first_addr_append [simp]: "first_addr (ts @ us) b = first_addr ts (first_addr us b)"
  by (cases ts) auto

lemma ptr_simps [simp]:
  "ptr_of None = NULL" "ptr_of (Some (p, s)) = p" "ptrs None = []" "ptrs (Some (p, s)) = [p]"
  "str_at h None" "str_at h (Some (p, s)) = (read_str p h = Some s)"
  by (simp_all add: ptr_of_def ptrs_def str_at_def)

fun items_at :: "jheap \<Rightarrow> addr \<Rightarrow> jtree list \<Rightarrow> addr \<Rightarrow> bool" where
  "items_at h a [] b = True"
| "items_at h a (JT p ty vs vi vd k ks # ts) b =
     (load_item p h = Some \<lparr>inext = first_addr ts b, iprev = a, child = first_addr ks NULL, itype = ty,
        valuestring = ptr_of vs, valueint = vi, valuedouble = vd, key = ptr_of k\<rparr> \<and>
      str_at h vs \<and> str_at h k \<and> items_at h NULL ks NULL \<and> items_at h p ts b)"

text \<open>All blocks a reader of the chain may visit, and those it owns.\<close>

fun blocks :: "jtree list \<Rightarrow> addr list" where
  "blocks [] = []"
| "blocks (JT p ty vs vi vd k ks # ts) = ptrs vs @ blocks ks @ ptrs k @ p # blocks ts"

fun foot :: "jtree list \<Rightarrow> addr list" where
  "foot [] = []"
| "foot (JT p ty vs vi vd k ks # ts) =
     (if is_reference ty then [] else foot ks @ ptrs vs) @
     (if string_is_const ty then [] else ptrs k) @ p # foot ts"

lemma foot_append: "foot (ts @ us) = foot ts @ foot us"
  by (induction ts rule: foot.induct) auto

lemma blocks_append: "blocks (ts @ us) = blocks ts @ blocks us"
  by (induction ts rule: blocks.induct) auto

lemma foot_blocks: "set (foot ts) \<subseteq> set (blocks ts)"
  by (induction ts rule: foot.induct) auto

text \<open>Trees without references and constant keys own all their blocks.\<close>

fun plain :: "jtree list \<Rightarrow> bool" where
  "plain [] = True"
| "plain (JT p ty vs vi vd k ks # ts) =
     (\<not> is_reference ty \<and> \<not> string_is_const ty \<and> plain ks \<and> plain ts)"

lemma plain_append [simp]: "plain (ts @ us) = (plain ts \<and> plain us)"
  by (induction ts rule: plain.induct) auto

lemma plain_foot: "plain ts \<Longrightarrow> set (foot ts) = set (blocks ts)"
  by (induction ts rule: plain.induct) auto

subsection \<open>Loads and stores\<close>

lemma load_item_Some_iff: "(load_item p h = Some i) = (load p h = Some (ItemC i))"
  by (auto simp: load_item_def split: option.splits jcell.splits)

lemma load_str_Some_iff: "(load_str p h = Some b) = (load p h = Some (StrC b))"
  by (auto simp: load_str_def split: option.splits jcell.splits)

lemma read_str_SomeD: "read_str p h = Some s \<Longrightarrow> \<exists>b. load p h = Some (StrC b) \<and> cstring b = Some s"
  by (auto simp: read_str_def bind_Some_iff load_str_Some_iff)

lemma read_str_eqI: "load p h = Some (StrC b) \<Longrightarrow> read_str p h = cstring b"
  by (simp add: read_str_def load_str_def)

lemma item_not_str: "load_item p h = Some i \<Longrightarrow> read_str q h = Some s \<Longrightarrow> p \<noteq> q"
  by (auto simp: load_item_Some_iff dest!: read_str_SomeD)

lemma load_item_not_NULL: "load_item p h = Some i \<Longrightarrow> p \<noteq> NULL"
  by (auto simp: load_item_Some_iff)

lemma read_str_not_NULL: "read_str p h = Some s \<Longrightarrow> p \<noteq> NULL"
  by (auto dest: read_str_SomeD)

definition setj :: "addr \<Rightarrow> jcell \<Rightarrow> jheap \<Rightarrow> jheap" where
  "setj p c h = h\<lparr>cells := (cells h)(p := Some c)\<rparr>"

definition clrj :: "addr \<Rightarrow> jheap \<Rightarrow> jheap" where
  "clrj p h = h\<lparr>cells := (cells h)(p := None)\<rparr>"

lemma load_setj [heap_simps]: "p \<noteq> NULL \<Longrightarrow> load q (setj p c h) = (if q = p then Some c else load q h)"
  by (simp add: setj_def load_def)

lemma load_clrj [heap_simps]: "load q (clrj p h) = (if q = p then None else load q h)"
  by (simp add: clrj_def load_def)

lemma setj_more [simp]:
  "brk (setj p c h) = brk h" "oom (setj p c h) = oom h" "brk (clrj p h) = brk h" "oom (clrj p h) = oom h"
  by (simp_all add: setj_def clrj_def)

lemma upd_item_Some [heap_simps]:
  "load_item p h = Some i \<Longrightarrow> upd_item p f h = Some (setj p (ItemC (f i)) h)"
  by (simp add: upd_item_def setj_def) (simp add: load_item_Some_iff store_Some)

lemma load_item_setj [heap_simps]:
  "p \<noteq> NULL \<Longrightarrow> load_item q (setj p c h) =
     (if q = p then (case c of ItemC i \<Rightarrow> Some i | _ \<Rightarrow> None) else load_item q h)"
  by (simp add: load_item_def load_setj split: jcell.splits)

lemma free_live [heap_simps]: "load p h \<noteq> None \<Longrightarrow> free p h = Some (clrj p h)"
  by (auto simp: free_def load_def clrj_def split: if_splits)

lemma setj_live: "load p h = Some c0 \<Longrightarrow> store p c h = Some (setj p c h)"
  by (simp add: setj_def store_Some)

text \<open>The heap after a successful allocation of \<open>c\<close>, which stands at \<^term>\<open>brk h\<close>.\<close>

definition newj :: "jcell \<Rightarrow> jheap \<Rightarrow> jheap" where
  "newj c h = h\<lparr>cells := (cells h)(brk h := Some c), brk := Suc (brk h), oom := tl (oom h)\<rparr>"

definition nonew :: "jheap \<Rightarrow> jheap" where
  "nonew h = h\<lparr>oom := tl (oom h)\<rparr>"

lemma malloc_newj: "malloc c h = (if alloc_fails h then (NULL, nonew h) else (brk h, newj c h))"
  by (simp add: malloc_alloc_fails malloc_succeeds newj_def nonew_def)

lemma load_newj [heap_simps]: "wf_heap h \<Longrightarrow> load q (newj c h) = (if q = brk h then Some c else load q h)"
  using wf_heap_brk_pos [of h] by (simp add: newj_def load_def)

lemma load_nonew [simp]: "load q (nonew h) = load q h"
  by (simp add: nonew_def)

lemma newj_more [simp]:
  "brk (newj c h) = Suc (brk h)" "oom (newj c h) = tl (oom h)" "brk (nonew h) = brk h" "oom (nonew h) = tl (oom h)"
  by (simp_all add: newj_def nonew_def)

lemma wf_newj [simp]: "wf_heap h \<Longrightarrow> wf_heap (newj c h)"
  by (auto simp: wf_heap_def load_newj newj_def load_def)

lemma wf_nonew [simp]: "wf_heap (nonew h) = wf_heap h"
  by (simp add: wf_heap_def)

lemma wf_clrj [simp]: "wf_heap h \<Longrightarrow> wf_heap (clrj p h)"
  by (auto simp: wf_heap_def load_clrj)

lemma wf_clr_all [simp]: "wf_heap h \<Longrightarrow> wf_heap (fold clrj ps h)"
  by (induction ps arbitrary: h) auto

lemma wf_setj [simp]: "wf_heap h \<Longrightarrow> load p h \<noteq> None \<Longrightarrow> wf_heap (setj p c h)"
  by (cases "p = NULL") (auto simp: wf_heap_def load_setj)

lemma load_str_setj [heap_simps]:
  "p \<noteq> NULL \<Longrightarrow> load_str q (setj p c h) =
     (if q = p then (case c of StrC b \<Rightarrow> Some b | _ \<Rightarrow> None) else load_str q h)"
  by (simp add: load_str_def load_setj split: jcell.splits)

lemma load_str_live: "load_str p h = Some b \<Longrightarrow> load p h = Some (StrC b) \<and> p \<noteq> NULL"
  by (auto simp: load_str_Some_iff)

lemma setj_setj [simp]: "setj p c (setj p c' h) = setj p c h"
  by (simp add: setj_def)

lemma setj_same: "load p h = Some c \<Longrightarrow> setj p c h = h"
  by (cases "p = NULL") (auto simp: setj_def load_def fun_upd_idem)

text \<open>A chain depends on its blocks only.\<close>

lemma load_item_cong: "load q h' = load q h \<Longrightarrow> load_item q h' = load_item q h"
  by (simp add: load_item_def)

lemma read_str_cong: "load q h' = load q h \<Longrightarrow> read_str q h' = read_str q h"
  by (simp add: read_str_def load_str_def)

lemma str_at_cong: "(\<And>q. q \<in> set (ptrs v) \<Longrightarrow> load q h' = load q h) \<Longrightarrow> str_at h' v = str_at h v"
  by (cases v) (auto simp: read_str_def load_str_def)

lemma items_at_cong:
  "(\<And>q. q \<in> set (blocks ts) \<Longrightarrow> load q h' = load q h) \<Longrightarrow> items_at h' a ts b = items_at h a ts b"
proof (induction h a ts b rule: items_at.induct)
  case (2 h a p ty vs vi vd k ks ts b)
  from "2.prems" have "load_item p h' = load_item p h" "str_at h' vs = str_at h vs" "str_at h' k = str_at h k"
    by (auto intro!: load_item_cong str_at_cong)
  with "2.IH" "2.prems" show ?case by auto
qed simp

lemma items_at_append:
  "items_at h a (ts @ us) b = (items_at h a ts (first_addr us b) \<and> items_at h (last_addr a ts) us b)"
  by (induction h a ts b rule: items_at.induct) auto

lemma str_at_live: "str_at h v \<Longrightarrow> q \<in> set (ptrs v) \<Longrightarrow> load q h \<noteq> None"
  using read_str_SomeD by (cases v) fastforce+

lemma items_at_live: "items_at h a ts b \<Longrightarrow> q \<in> set (blocks ts) \<Longrightarrow> load q h \<noteq> None"
proof (induction h a ts b rule: items_at.induct)
  case (2 h a p ty vs vi vd k ks ts b)
  then show ?case by (auto simp: load_item_Some_iff dest: str_at_live)
qed simp

lemma items_at_not_NULL: "items_at h a ts b \<Longrightarrow> NULL \<notin> set (blocks ts)"
  using items_at_live [of h a ts b NULL] by auto

lemma first_addr_NULL: "items_at h a ts NULL \<Longrightarrow> (first_addr ts NULL = NULL) = (ts = [])"
  by (cases "(h, a, ts, NULL)" rule: items_at.cases) (auto dest: load_item_not_NULL)

subsection \<open>Deletion\<close>

text \<open>What \<open>cJSON_Delete\<close> needs of a chain: the blocks it owns, with the forward pointers.\<close>

fun owned_at :: "jheap \<Rightarrow> jtree list \<Rightarrow> addr \<Rightarrow> bool" where
  "owned_at h [] b = True"
| "owned_at h (JT p ty vs vi vd k ks # ts) b =
     ((\<exists>i. load_item p h = Some i \<and> inext i = first_addr ts b \<and> itype i = ty \<and>
        (\<not> is_reference ty \<longrightarrow> child i = first_addr ks NULL \<and> valuestring i = ptr_of vs) \<and>
        (\<not> string_is_const ty \<longrightarrow> key i = ptr_of k)) \<and>
      (\<not> is_reference ty \<longrightarrow> str_at h vs \<and> owned_at h ks NULL) \<and>
      (\<not> string_is_const ty \<longrightarrow> str_at h k) \<and> owned_at h ts b)"

lemma items_owned: "items_at h a ts b \<Longrightarrow> owned_at h ts b"
  by (induction h a ts b rule: items_at.induct) auto

lemma owned_at_cong:
  "(\<And>q. q \<in> set (foot ts) \<Longrightarrow> load q h' = load q h) \<Longrightarrow> owned_at h' ts b = owned_at h ts b"
proof (induction h ts b rule: owned_at.induct)
  case (2 h p ty vs vi vd k ks ts b)
  from "2.prems" have "load_item p h' = load_item p h" "\<not> is_reference ty \<Longrightarrow> str_at h' vs = str_at h vs"
    "\<not> string_is_const ty \<Longrightarrow> str_at h' k = str_at h k"
    by (auto intro!: load_item_cong str_at_cong)
  with "2.IH" "2.prems" show ?case by auto
qed simp

lemma owned_live: "owned_at h ts b \<Longrightarrow> q \<in> set (foot ts) \<Longrightarrow> load q h \<noteq> None"
proof (induction h ts b rule: owned_at.induct)
  case (2 h p ty vs vi vd k ks ts b)
  then show ?case by (auto simp: load_item_Some_iff split: if_splits dest: str_at_live)
qed simp

definition clr_all :: "addr list \<Rightarrow> jheap \<Rightarrow> jheap" where
  "clr_all qs h = fold clrj qs h"

lemma load_clr_all [heap_simps]: "load q (clr_all qs h) = (if q \<in> set qs then None else load q h)"
  by (induction qs arbitrary: h) (auto simp: clr_all_def load_clrj)

lemma clr_all_more [simp]: "brk (clr_all qs h) = brk h" "oom (clr_all qs h) = oom h"
  by (induction qs arbitrary: h) (auto simp: clr_all_def)

lemma clr_all_append: "clr_all (ps @ qs) h = clr_all qs (clr_all ps h)"
  by (simp add: clr_all_def)

lemma clr_all_simps [simp]: "clr_all [] h = h" "clr_all (q # qs) h = clr_all qs (clrj q h)"
  by (simp_all add: clr_all_def)

text \<open>Releasing an optional string.\<close>

lemma free_ptr:
  assumes "str_at h v"
  shows "ptr_of v \<noteq> NULL \<Longrightarrow> free (ptr_of v) h = Some (clr_all (ptrs v) h)"
    and "ptr_of v = NULL \<Longrightarrow> clr_all (ptrs v) h = h"
  using assms str_at_live [OF assms] by (cases v; auto simp: free_live dest: read_str_not_NULL)+

lemma owned_first_NULL: "owned_at h ts NULL \<Longrightarrow> (first_addr ts NULL = NULL) = (ts = [])"
  by (cases "(h, ts, NULL)" rule: owned_at.cases) (auto dest: load_item_not_NULL)

lemma cJSON_Delete_owned:
  "owned_at h ts NULL \<Longrightarrow> distinct (foot ts) \<Longrightarrow>
   cJSON_Delete (first_addr ts NULL) h = Some (clr_all (foot ts) h)"
proof (induction ts arbitrary: h rule: foot.induct)
  case 1
  then show ?case by (simp add: cJSON_Delete.simps)
next
  case (2 p ty vs vi vd k ks ts)
  let ?own = "if is_reference ty then [] else foot ks @ ptrs vs" and ?k = "if string_is_const ty then [] else ptrs k"
  from "2.prems"(1) obtain i where i: "load_item p h = Some i" "inext i = first_addr ts NULL" "itype i = ty"
    "\<not> is_reference ty \<Longrightarrow> child i = first_addr ks NULL \<and> valuestring i = ptr_of vs"
    "\<not> string_is_const ty \<Longrightarrow> key i = ptr_of k" and ts: "owned_at h ts NULL" by auto
  have pn: "p \<noteq> NULL" by (rule load_item_not_NULL [OF i(1)])
  have ks: "\<not> is_reference ty \<Longrightarrow> str_at h vs \<and> owned_at h ks NULL"
    and k: "\<not> string_is_const ty \<Longrightarrow> str_at h k" using "2.prems"(1) by auto
  let ?h1 = "if is_reference ty then h else clr_all (foot ks) h"
  have h1: "(if \<not> is_reference ty \<and> child i \<noteq> NULL then cJSON_Delete (child i) h else Some h) = Some ?h1"
  proof (cases "is_reference ty \<or> ks = []")
    case True
    then show ?thesis using i(4) by auto
  next
    case False
    then have "cJSON_Delete (first_addr ks NULL) h = Some (clr_all (foot ks) h)"
      using "2.IH"(1) ks "2.prems"(2) by simp
    then show ?thesis using False i(4) ks owned_first_NULL [of h ks] by simp
  qed
  have fresh: "distinct (?own @ ?k @ p # foot ts)" using "2.prems"(2) by (simp only: foot.simps append.assoc)
  then have "\<not> is_reference ty \<Longrightarrow> p \<notin> set (foot ks)" by simp
  then have "load p ?h1 = load p h" by (simp add: load_clr_all)
  from load_item_cong [OF this] i(1) have p1: "load_item p ?h1 = Some i" by (rule trans)
  let ?h2 = "if is_reference ty then ?h1 else clr_all (ptrs vs) ?h1"
  have h2: "(if \<not> is_reference ty \<and> valuestring i \<noteq> NULL then free (valuestring i) ?h1 else Some ?h1) = Some ?h2"
  proof (cases "is_reference ty")
    case False
    have "str_at ?h1 vs" using ks "2.prems"(2) False
      by (subst str_at_cong [of vs _ h]) (auto simp: load_clr_all)
    with free_ptr [of "clr_all (foot ks) h" vs] False i(4) show ?thesis by simp
  qed simp
  have e2: "?h2 = clr_all ?own h" by (simp add: clr_all_append)
  let ?h3 = "clr_all ?k ?h2"
  have h3: "(if \<not> string_is_const ty \<and> key i \<noteq> NULL then free (key i) ?h2 else Some ?h2) = Some ?h3"
  proof (cases "string_is_const ty")
    case False
    have "str_at ?h2 k" unfolding e2 using k "2.prems"(2) False
      by (subst str_at_cong [of k _ h]) (auto simp: load_clr_all split: if_splits)
    with free_ptr [of ?h2 k] False i(5) show ?thesis by simp
  qed simp
  have h4: "free p ?h3 = Some (clrj p ?h3)"
    unfolding e2 using "2.prems"(2) i(1)
    by (intro free_live) (auto simp: load_clr_all load_item_Some_iff split: if_splits)
  have e4: "clrj p ?h3 = clr_all (?own @ ?k @ [p]) h" by (simp add: clr_all_append)
  have "owned_at (clrj p ?h3) ts NULL"
    unfolding e4 using ts "2.prems"(2) by (subst owned_at_cong [of ts _ h]) (auto simp: load_clr_all split: if_splits)
  from "2.IH"(2) [OF this] "2.prems"(2)
  have "cJSON_Delete (first_addr ts NULL) (clrj p ?h3) = Some (clr_all (foot ts) (clrj p ?h3))"
    by simp
  then have "cJSON_Delete p h = Some (clr_all (foot ts) (clrj p ?h3))"
    using h1 h2 h3 h4 p1 i pn
    by (simp only: cJSON_Delete.simps [of p h] i(1,2,3) if_False Option.bind.bind_lunit h1 p1 h2 h3 h4)
  then show ?case unfolding e4 by (simp add: clr_all_append)
qed

end
