(* ===== verification/CJsonText.thy ===== *)
theory CJsonText
  imports CJsonParse CJsonSpec
begin

text \<open>
  String literals: what the loops of \<open>parse_string\<close> compute, as functions on lists.  \<open>scanned\<close> and
  \<open>escs\<close> describe the size estimate, \<open>decode\<close> the decoding of escape sequences, \<open>utf8\<close> and
  \<open>utf16\<close> the character encodings; \<open>need\<close> is how far the decoding loop writes, and
  \<open>need_bound\<close> the reason why the estimated block is large enough.
\<close>

subsection \<open>Hexadecimal digits and code points\<close>

definition hex_val :: "byte \<Rightarrow> nat option" where
  "hex_val c =
     (if 48 \<le> c \<and> c \<le> 57 then Some (unat c - 48)
      else if 65 \<le> c \<and> c \<le> 70 then Some (unat c - 55)
      else if 97 \<le> c \<and> c \<le> 102 then Some (unat c - 87)
      else None)"

text \<open>The value of four digits; 0 if one of them is invalid.\<close>

definition hex4 :: "byte list \<Rightarrow> nat" where
  "hex4 s = (case map hex_val (take 4 s) of
     [Some a, Some b, Some c, Some d] \<Rightarrow> ((a * 16 + b) * 16 + c) * 16 + d | _ \<Rightarrow> 0)"

lemma hex_digit_val: "hex_digit c = map_option of_nat (hex_val c)"
  by (auto simp: hex_digit_def hex_val_def word_le_nat_alt of_nat_diff)

lemma hex_val_less: "hex_val c = Some v \<Longrightarrow> v < 16"
  by (auto simp: hex_val_def word_le_nat_alt split: if_splits)

lemma hex4_less: "hex4 s < 65536"
proof -
  have "a < 16 \<Longrightarrow> b < 16 \<Longrightarrow> c < 16 \<Longrightarrow> d < 16 \<Longrightarrow> ((a * 16 + b) * 16 + c) * 16 + d < 65536"
    for a b c d :: nat by simp
  then show ?thesis
    by (auto simp: hex4_def map_eq_Cons_conv split: list.splits option.splits dest!: hex_val_less)
qed

lemma byte_at_drop: "drop p (content b) = c # s \<Longrightarrow> byte_at b p = Some c"
  by (metis byte_at_def drop_eq_Nil2 hd_drop_conv_nth list.distinct(1) list.sel(1) not_le)

lemma drop_add: "drop p xs = ys @ zs \<Longrightarrow> drop (p + length ys) xs = zs"
  by (metis add.commute append_eq_conv_conj drop_drop)

lemma byte_at_nth: "drop p (content b) = s \<Longrightarrow> i < length s \<Longrightarrow> byte_at b (p + i) = Some (s ! i)"
  by (auto simp: byte_at_def)

lemma parse_hex4_eq:
  assumes "4 \<le> length (drop p (content b))"
  shows "parse_hex4 b p = Some (of_nat (hex4 (drop p (content b))))"
proof -
  obtain c0 c1 c2 c3 s where s: "drop p (content b) = c0 # c1 # c2 # c3 # s"
    using assms by (cases "drop p (content b)" rule: remdups_adj.cases)
      (auto simp: numeral_eq_Suc Suc_le_length_iff)
  have [simp]: "byte_at b p = Some c0" "byte_at b (Suc p) = Some c1" "byte_at b (Suc (Suc p)) = Some c2"
    "byte_at b (Suc (Suc (Suc p))) = Some c3"
    using byte_at_nth [OF s, of 0] byte_at_nth [OF s, of 1] byte_at_nth [OF s, of 2] byte_at_nth [OF s, of 3]
    by (simp_all add: numeral_eq_Suc)
  have [simp]: "push_bit 4 (of_nat x :: 32 word) = of_nat (x * 16)" for x
    by (simp add: push_bit_eq_mult)
  show ?thesis
    unfolding parse_hex4_def hex4_def s
    by (simp add: numeral_eq_Suc hex_digit_val Let_def split: option.splits)
qed

text \<open>The UTF-8 encoding of a code point.\<close>

definition utf8 :: "nat \<Rightarrow> byte list" where
  "utf8 c =
     (if c < 0x80 then [of_nat c]
      else if c < 0x800 then [of_nat (0xC0 + c div 64), of_nat (0x80 + c mod 64)]
      else if c < 0x10000 then
        [of_nat (0xE0 + c div 4096), of_nat (0x80 + c div 64 mod 64), of_nat (0x80 + c mod 64)]
      else
        [of_nat (0xF0 + c div 262144), of_nat (0x80 + c div 4096 mod 64),
         of_nat (0x80 + c div 64 mod 64), of_nat (0x80 + c mod 64)])"

lemma length_utf8: "length (utf8 c) \<le> 4" "c < 0x10000 \<Longrightarrow> length (utf8 c) \<le> 3"
  by (simp_all add: utf8_def)

text \<open>The byte arithmetic of the encoder.\<close>

lemma nat_less_8_cases:
  assumes "n < LENGTH(8)" and "P 0" "P 1" "P 2" "P 3" "P 4" "P 5" "P 6" "P (7 :: nat)"
  shows "P n"
proof -
  have "n \<in> {0, 1, 2, 3, 4, 5, 6, 7}" using assms(1) by auto
  then show ?thesis using assms by blast
qed

lemma add_eq_or: "x < 2 ^ k \<Longrightarrow> push_bit k a + x = push_bit k a OR x" for x :: nat
proof (rule disjunctive_add)
  fix n assume "x < 2 ^ k"
  then have "take_bit k x = x" by (simp add: take_bit_nat_eq_self)
  then show "\<not> bit (push_bit k a) n \<or> \<not> bit x n"
    by (metis bit_push_bit_iff bit_take_bit_iff not_le)
qed

lemma byte_or:
  "x < 2 ^ k \<Longrightarrow> ucast (((of_nat x :: 64 word) OR of_nat (push_bit k a)) AND 0xFF) = (of_nat (push_bit k a + x) :: byte)"
proof (rule bit_word_eqI)
  fix n assume x: "x < 2 ^ k" and "n < LENGTH(8)"
  then have "bit (0xFF :: 64 word) n" and n: "n < 8"
    by (rule_tac nat_less_8_cases, simp_all)
  then show "bit (ucast (((of_nat x :: 64 word) OR of_nat (push_bit k a)) AND 0xFF) :: byte) n =
      bit (of_nat (push_bit k a + x) :: byte) n"
    unfolding add_eq_or [OF x] by (auto simp: bit_simps)
qed

lemma first_byte:
  "x < 32 \<Longrightarrow> ucast (((of_nat x :: 64 word) OR 0xC0) AND 0xFF) = (of_nat (0xC0 + x) :: byte)"
  "x < 16 \<Longrightarrow> ucast (((of_nat x :: 64 word) OR 0xE0) AND 0xFF) = (of_nat (0xE0 + x) :: byte)"
  "x < 8 \<Longrightarrow> ucast (((of_nat x :: 64 word) OR 0xF0) AND 0xFF) = (of_nat (0xF0 + x) :: byte)"
  using byte_or [of x 5 6] byte_or [of x 4 14] byte_or [of x 3 30] by (simp_all add: push_bit_eq_mult)

lemma cont_byte: "ucast (((of_nat c :: 64 word) OR 0x80) AND 0xBF) = (of_nat (0x80 + c mod 64) :: byte)"
proof (rule bit_word_eqI)
  fix n assume "n < LENGTH(8)"
  moreover have "0x80 + c mod 64 = push_bit 6 2 OR take_bit 6 c"
    using add_eq_or [of "c mod 64" 6 2] by (simp add: push_bit_eq_mult take_bit_eq_mod)
  ultimately show "bit (ucast (((of_nat c :: 64 word) OR 0x80) AND 0xBF) :: byte) n =
      bit (of_nat (0x80 + c mod 64) :: byte) n"
    by (simp only:, rule_tac nat_less_8_cases) (simp_all add: bit_simps)
qed

lemma ascii_byte: "c < 0x80 \<Longrightarrow> ucast ((of_nat c :: 64 word) AND 0x7F) = (of_nat c :: byte)"
proof (rule bit_word_eqI)
  fix n assume c: "c < 0x80" and "n < LENGTH(8)"
  then have "take_bit 7 c = c" by (simp add: take_bit_nat_eq_self)
  then have "\<not> bit c 7" by (metis bit_take_bit_iff less_irrefl)
  then show "bit (ucast ((of_nat c :: 64 word) AND 0x7F) :: byte) n = bit (of_nat c :: byte) n"
    using \<open>n < LENGTH(8)\<close> by (rule_tac nat_less_8_cases) (simp_all add: bit_simps)
qed

lemma drop_6: "c < 2 ^ 64 \<Longrightarrow> drop_bit 6 (of_nat c :: 64 word) = of_nat (c div 64)"
  by (simp add: drop_bit_eq_div word_unat_eq_iff unat_div unat_of_nat take_bit_nat_eq_self)

lemma put_utf8_eq:
  assumes c: "c \<le> 0x10FFFF" and cap: "op + length (utf8 c) \<le> length out"
  shows "put_utf8 (of_nat c) out op =
    do { out \<leftarrow> pokes out op (utf8 c); Some (Some (out, op + length (utf8 c))) }"
proof -
  have c64: "c < 2 ^ 64" "c div 64 < 2 ^ 64" "c div 4096 < 2 ^ 64" using c by auto
  have lt: "((of_nat c :: 64 word) < 0x80) = (c < 0x80)" "((of_nat c :: 64 word) < 0x800) = (c < 0x800)"
    "((of_nat c :: 64 word) < 0x10000) = (c < 0x10000)" "((of_nat c :: 64 word) \<le> 0x10FFFF) = (c \<le> 0x10FFFF)"
    using c64(1) by (simp_all add: word_less_nat_alt word_le_nat_alt unat_of_nat take_bit_nat_eq_self)
  have d: "drop_bit 6 (of_nat c :: 64 word) = of_nat (c div 64)"
    "drop_bit 6 (of_nat (c div 64) :: 64 word) = of_nat (c div 4096)"
    "drop_bit 6 (of_nat (c div 4096) :: 64 word) = of_nat (c div 262144)"
    using drop_6 c64 by (simp_all add: div_mult2_eq [symmetric])
  have m: "c div 64 < 32" if "c < 0x800" using that by simp
  consider "c < 0x80" | "0x80 \<le> c" "c < 0x800" | "0x800 \<le> c" "c < 0x10000" | "0x10000 \<le> c" by linarith
  then show ?thesis
  proof cases
    case 1
    with lt cap show ?thesis by (simp add: put_utf8_def utf8_def ascii_byte)
  next
    case 2
    with lt cap show ?thesis
      by (simp add: put_utf8_def utf8_def numeral_2_eq_2 cont_byte d first_byte(1) poke_Some list_update_swap)
  next
    case 3
    then have "c div 4096 < 16" by simp
    with 3 lt cap show ?thesis
      by (simp add: put_utf8_def utf8_def numeral_3_eq_3 cont_byte d first_byte(2) poke_Some list_update_swap)
  next
    case 4
    then have "c div 262144 < 8" using c by simp
    with 4 c lt cap show ?thesis
      by (simp add: put_utf8_def utf8_def numeral_3_eq_3 cont_byte d first_byte(3) poke_Some list_update_swap)
  qed
qed

text \<open>
  The code point of the text behind \<open>\u\<close>, and how many of its characters belong to it: four digits,
  or a high surrogate followed by \<open>\u\<close> and a low one.
\<close>

definition utf16 :: "byte list \<Rightarrow> (nat \<times> nat) option" where
  "utf16 s =
     (let a = hex4 s; b = hex4 (drop 6 s) in
      if length s < 4 \<or> 0xDC00 \<le> a \<and> a \<le> 0xDFFF then None
      else if 0xD800 \<le> a \<and> a \<le> 0xDBFF then
        (if length s < 10 \<or> s ! 4 \<noteq> 92 \<or> s ! 5 \<noteq> 117 \<or> b < 0xDC00 \<or> 0xDFFF < b then None
         else Some (0x10000 + (a - 0xD800) * 0x400 + (b - 0xDC00), 10))
      else Some (a, 4))"

lemma utf16_SomeD:
  assumes "utf16 s = Some (c, n)"
  shows "c \<le> 0x10FFFF" and "n = 4 \<and> c < 0x10000 \<or> n = 10" and "n \<le> length s"
  using assms hex4_less [of s] hex4_less [of "drop 6 s"]
  by (auto simp: utf16_def Let_def split: if_splits)

lemma hex4_append: "4 \<le> length s \<Longrightarrow> hex4 (s @ r) = hex4 s"
  by (simp add: hex4_def)

lemma word32_less: "a < 2 ^ 32 \<Longrightarrow> unat (of_nat a :: 32 word) = a"
  by (simp add: unat_of_nat take_bit_nat_eq_self)

lemma mask10: "(of_nat a :: 32 word) AND 0x3FF = of_nat (a mod 1024)"
proof -
  have "(of_nat a :: 32 word) AND mask 10 = of_nat (take_bit 10 a)"
    by (rule bit_word_eqI) (auto simp: bit_simps)
  then show ?thesis by (simp add: take_bit_eq_mod mask_eq_exp_minus_1)
qed

lemma surrogate_pair:
  assumes "0xD800 \<le> a" "a \<le> 0xDBFF" "0xDC00 \<le> b" "b \<le> 0xDFFF"
  shows "0x10000 + ucast (push_bit 10 ((of_nat a :: 32 word) AND 0x3FF) OR (of_nat b AND 0x3FF)) =
    (of_nat (0x10000 + (a - 0xD800) * 0x400 + (b - 0xDC00)) :: 64 word)"
proof -
  obtain x y where xy: "a = 54 * 1024 + x" "x < 1024" "b = 55 * 1024 + y" "y < 1024"
    using assms by (intro that [of "a - 0xD800" "b - 0xDC00"]) simp_all
  have "(54 * 1024 + x) mod 1024 = x mod 1024" "(55 * 1024 + y) mod 1024 = y mod 1024"
    by (rule mod_mult_self3)+
  with xy have ab: "a mod 1024 = a - 0xD800" "b mod 1024 = b - 0xDC00" by simp_all
  have lt: "b - 0xDC00 < 2 ^ 10" using assms by simp
  define z where "z = (a - 0xD800) * 0x400 + (b - 0xDC00)"
  have z: "z < 2 ^ 20" using xy by (simp add: z_def)
  have "push_bit 10 ((of_nat a :: 32 word) AND 0x3FF) OR (of_nat b AND 0x3FF) =
      of_nat (push_bit 10 (a - 0xD800) OR (b - 0xDC00))"
    by (simp only: mask10 ab push_bit_of_nat of_nat_or_eq)
  also have "push_bit 10 (a - 0xD800) OR (b - 0xDC00) = z"
    using add_eq_or [OF lt, of "a - 0xD800"] by (simp add: push_bit_eq_mult z_def)
  finally have "push_bit 10 ((of_nat a :: 32 word) AND 0x3FF) OR (of_nat b AND 0x3FF) = of_nat z" .
  moreover have "ucast (of_nat z :: 32 word) = (of_nat z :: 64 word)"
    using z by (simp add: word_unat_eq_iff unsigned_ucast_eq unat_of_nat take_bit_nat_eq_self)
  ultimately show ?thesis by (simp add: z_def)
qed

text \<open>Room for the encoding of what follows.\<close>

definition utf16_len :: "byte list \<Rightarrow> nat" where
  "utf16_len s = (case utf16 s of None \<Rightarrow> 0 | Some (c, n) \<Rightarrow> length (utf8 c))"

lemma utf16_literal_eq:
  assumes s: "drop ip (content b) = x # y # s @ r" and e: "iend = ip + 2 + length s"
    and cap: "op + utf16_len s \<le> length out"
  shows "utf16_literal_to_utf8 b ip iend out op =
    (case utf16 s of None \<Rightarrow> Some (0, out, op)
     | Some (c, n) \<Rightarrow> do { out \<leftarrow> pokes out op (utf8 c); Some (n + 2, out, op + length (utf8 c)) })"
proof (cases "length s < 4")
  case True
  then show ?thesis by (simp add: utf16_literal_to_utf8_def utf16_def e)
next
  case False
  let ?a = "hex4 s" and ?b = "hex4 (drop 6 s)"
  have dr: "drop (ip + 2) (content b) = s @ r" using drop_add [of ip "content b" "[x, y]"] s by simp
  have h1: "parse_hex4 b (ip + 2) = Some (of_nat ?a)"
    using parse_hex4_eq [of "ip + 2" b] False by (simp only: dr hex4_append) simp
  have i6: "\<not> int iend - int ip < 6" using False by (simp add: e)
  have w: "(0xDC00 \<le> (of_nat ?a :: 32 word)) = (0xDC00 \<le> ?a)" "((of_nat ?a :: 32 word) \<le> 0xDFFF) = (?a \<le> 0xDFFF)"
    "(0xD800 \<le> (of_nat ?a :: 32 word)) = (0xD800 \<le> ?a)" "((of_nat ?a :: 32 word) \<le> 0xDBFF) = (?a \<le> 0xDBFF)"
    "((of_nat ?b :: 32 word) < 0xDC00) = (?b < 0xDC00)" "(0xDFFF < (of_nat ?b :: 32 word)) = (0xDFFF < ?b)"
    using hex4_less [of s] hex4_less [of "drop 6 s"]
    by (simp_all add: word_le_nat_alt word_less_nat_alt word32_less)
  have u: "ucast (of_nat ?a :: 32 word) = (of_nat ?a :: 64 word)"
    using hex4_less [of s] by (simp add: word_unat_eq_iff unsigned_ucast_eq unat_of_nat take_bit_nat_eq_self)
  have put: "put_utf8 (of_nat c) out op = do { out \<leftarrow> pokes out op (utf8 c); Some (Some (out, op + length (utf8 c))) }"
    if "utf16 s = Some (c, n)" for c n
    by (rule put_utf8_eq) (use that utf16_SomeD(1) [OF that] cap in \<open>simp_all add: utf16_len_def\<close>)
  show ?thesis
  proof (cases "0xD800 \<le> ?a \<and> ?a \<le> 0xDBFF")
    case hi: True
    then have nl: "\<not> 0xDC00 \<le> ?a" by simp
    show ?thesis
    proof (cases "length s < 10")
      case True
      then have "int iend - int (ip + 6) < 6" by (simp add: e)
      with True False hi nl h1 i6 w show ?thesis
        by (simp add: utf16_literal_to_utf8_def utf16_def Let_def)
    next
      case len: False
      have "drop (ip + 2) (content b) = take 6 s @ drop 6 s @ r"
        unfolding dr append_assoc [symmetric] append_take_drop_id ..
      from drop_add [OF this] len have dr6: "drop (ip + 8) (content b) = drop 6 s @ r" by (simp add: add.commute)
      have h2: "parse_hex4 b (ip + 8) = Some (of_nat ?b)"
        using parse_hex4_eq [of "ip + 8" b] len by (simp only: dr6 hex4_append length_drop) simp
      have c: "byte_at b (ip + 6) = Some (s ! 4)" "byte_at b (ip + 7) = Some (s ! 5)"
        using byte_at_nth [OF dr, of 4] byte_at_nth [OF dr, of 5] len by (simp_all add: nth_append add.commute)
      have i12: "\<not> int iend - int (ip + 6) < 6" using len by (simp add: e)
      show ?thesis
      proof (cases "s ! 4 \<noteq> 92 \<or> s ! 5 \<noteq> 117 \<or> ?b < 0xDC00 \<or> 0xDFFF < ?b")
        case True
        then show ?thesis using False hi nl h1 i6 i12 w len c h2
          by (auto simp: utf16_literal_to_utf8_def utf16_def Let_def)
      next
        case ok: False
        let ?c = "0x10000 + (?a - 0xD800) * 0x400 + (?b - 0xDC00)"
        from ok False hi nl len have us: "utf16 s = Some (?c, 10)" by (auto simp: utf16_def Let_def)
        have "utf16_literal_to_utf8 b ip iend out op =
            do { r \<leftarrow> put_utf8 (0x10000 + ucast (push_bit 10 ((of_nat ?a :: 32 word) AND 0x3FF) OR (of_nat ?b AND 0x3FF)))
                   out op;
                 Some (case r of None \<Rightarrow> (0, out, op) | Some (out, op) \<Rightarrow> (12, out, op)) }"
          using ok hi nl h1 i6 i12 w c h2 by (simp add: utf16_literal_to_utf8_def)
        also have "0x10000 + ucast (push_bit 10 ((of_nat ?a :: 32 word) AND 0x3FF) OR (of_nat ?b AND 0x3FF)) =
            (of_nat ?c :: 64 word)"
          by (rule surrogate_pair) (use ok hi in auto)
        finally have "utf16_literal_to_utf8 b ip iend out op =
            do { r \<leftarrow> put_utf8 (of_nat ?c) out op;
                 Some (case r of None \<Rightarrow> (0, out, op) | Some (out, op) \<Rightarrow> (12, out, op)) }" .
        then show ?thesis unfolding put [OF us] us by (simp add: bind_assoc)
      qed
    qed
  next
    case lo: False
    show ?thesis
    proof (cases "0xDC00 \<le> ?a \<and> ?a \<le> 0xDFFF")
      case True
      then show ?thesis using False lo h1 i6 w by (simp add: utf16_literal_to_utf8_def utf16_def Let_def)
    next
      case ok: False
      with False lo have us: "utf16 s = Some (?a, 4)" by (auto simp: utf16_def Let_def)
      have "utf16_literal_to_utf8 b ip iend out op =
          do { r \<leftarrow> put_utf8 (of_nat ?a) out op;
               Some (case r of None \<Rightarrow> (0, out, op) | Some (out, op) \<Rightarrow> (6, out, op)) }"
        using ok lo h1 i6 w u by (auto simp: utf16_literal_to_utf8_def)
      then show ?thesis by (simp add: put [OF us] us bind_assoc)
    qed
  qed
qed

end
