(* ===== verification/CJsonString.thy ===== *)
theory CJsonString
  imports CJsonText
begin

text \<open>
  The two loops of \<open>parse_string\<close> and the function as a whole: it is memory safe for every input,
  and what it returns is the decoded literal.
\<close>

subsection \<open>The size estimate\<close>

text \<open>Text the scanning loop walks over to its end: every backslash takes a character with it.\<close>

fun scanned :: "byte list \<Rightarrow> bool" where
  "scanned [] = True"
| "scanned (c # s) =
     (if c = 92 then (case s of [] \<Rightarrow> False | e # s' \<Rightarrow> scanned s') else c \<noteq> 34 \<and> scanned s)"

lemma pair_induct [case_names Nil Plain Lone Pair]:
  fixes s :: "byte list"
  assumes "P []" and "\<And>c s. c \<noteq> 92 \<Longrightarrow> P s \<Longrightarrow> P (c # s)" and "P [92]" and "\<And>e s. P s \<Longrightarrow> P (92 # e # s)"
  shows "P s"
proof (induction s rule: scanned.induct)
  case (2 c s)
  then show ?case using assms by (cases "c = 92"; cases s) auto
qed (rule assms)

text \<open>The positions where an escape sequence starts.\<close>

fun marks :: "byte list \<Rightarrow> bool list" where
  "marks [] = []"
| "marks (c # s) =
     (if c = 92 then (case s of [] \<Rightarrow> [True] | e # s' \<Rightarrow> True # False # marks s') else False # marks s)"

definition count_true :: "bool list \<Rightarrow> nat" where
  "count_true ms = length (filter id ms)"

lemma count_true_simps [simp]:
  "count_true [] = 0" "count_true (m # ms) = (if m then 1 else 0) + count_true ms"
  "count_true (ms @ ns) = count_true ms + count_true ns"
  by (simp_all add: count_true_def)

definition escs :: "byte list \<Rightarrow> nat" where
  "escs s = count_true (marks s)"

lemma drop_Cons_less: "drop e xs = c # s \<Longrightarrow> e < length xs"
  by (metis drop_all list.distinct(1) not_le)

lemma scan_string_scanned:
  "scanned s \<Longrightarrow> drop e (content b) = s @ 34 # r \<Longrightarrow> len b = length (content b) \<Longrightarrow>
   scan_string b e sk = Some (True, e + length s, sk + escs s)"
proof (induction s arbitrary: e sk rule: scanned.induct)
  case 1
  then have "e < len b" using drop_Cons_less by simp
  with 1 show ?case by (simp add: scan_string.simps [of b e] byte_at_drop [of e b 34 r] escs_def)
next
  case (2 c s)
  then have e: "e < len b" using drop_Cons_less by simp
  have c: "byte_at b e = Some c" using byte_at_drop [of e b c] "2.prems" by simp
  show ?case
  proof (cases "c = 92")
    case True
    with "2.prems" obtain x s' where s: "s = x # s'" "scanned s'" by (cases s) auto
    have d: "drop (e + 2) (content b) = s' @ 34 # r"
      using drop_add [of e "content b" "[c, x]"] "2.prems" s by simp
    then have "e + 2 < length (content b)" by (cases s') (auto dest: drop_Cons_less)
    then show ?thesis using "2.IH"(1) [OF True s(1) s(2) d "2.prems"(3)] True s e c "2.prems"(3)
      by (simp add: scan_string.simps [of b e] escs_def)
  next
    case False
    have d: "drop (Suc e) (content b) = s @ 34 # r"
      using drop_add [of e "content b" "[c]"] "2.prems" by simp
    with "2.IH"(2) [OF False _ d "2.prems"(3)] False "2.prems" e c show ?thesis
      by (simp add: scan_string.simps [of b e] escs_def)
  qed
qed

lemma scan_string_total:
  assumes "len b = length (content b)"
  shows "\<exists>ok e' sk'. scan_string b e sk = Some (ok, e', sk') \<and>
    (ok \<and> e' < len b \<longrightarrow> (\<exists>s r. scanned s \<and> drop e (content b) = s @ 34 # r))"
proof (induction "len b - e" arbitrary: e sk rule: less_induct)
  case less
  show ?case
  proof (cases "e < len b")
    case False
    then have "scan_string b e sk = Some (True, e, sk)" by (simp add: scan_string.simps [of b e])
    then show ?thesis using False by blast
  next
    case True
    then obtain c where c: "byte_at b e = Some c" "drop e (content b) = c # drop (Suc e) (content b)"
      using assms by (simp add: byte_at_def Cons_nth_drop_Suc)
    consider "c = 34" | "c = 92" "len b \<le> e + 1" | "c = 92" "e + 1 < len b" | "c \<noteq> 34" "c \<noteq> 92"
      by linarith
    then show ?thesis
    proof cases
      case 1
      then have "scanned [] \<and> drop e (content b) = [] @ 34 # drop (Suc e) (content b)" using c by simp
      then have "\<exists>s r. scanned s \<and> drop e (content b) = s @ 34 # r" by blast
      moreover have "scan_string b e sk = Some (True, e, sk)"
        using 1 c True by (simp add: scan_string.simps [of b e])
      ultimately show ?thesis by blast
    next
      case 2
      then have "scan_string b e sk = Some (False, e, sk)"
        using c True by (simp add: scan_string.simps [of b e])
      then show ?thesis by blast
    next
      case 3
      have d: "drop (Suc e) (content b) = content b ! Suc e # drop (e + 2) (content b)"
        using 3 assms by (simp add: Cons_nth_drop_Suc)
      have "len b - (e + 2) < len b - e" using True by simp
      from less [OF this, of "sk + 1"] obtain ok e' sk' where
        r: "scan_string b (e + 2) (sk + 1) = Some (ok, e', sk')"
        "ok \<and> e' < len b \<Longrightarrow> \<exists>s r. scanned s \<and> drop (e + 2) (content b) = s @ 34 # r" by blast
      have "\<exists>s r. scanned s \<and> drop e (content b) = s @ 34 # r" if "ok \<and> e' < len b"
      proof -
        from r(2) [OF that] obtain s t where "scanned s" "drop (e + 2) (content b) = s @ 34 # t" by blast
        with 3 c d have "scanned (92 # content b ! Suc e # s)"
          "drop e (content b) = (92 # content b ! Suc e # s) @ 34 # t" by simp_all
        then show ?thesis by blast
      qed
      then show ?thesis using 3 c True r(1) by (auto simp: scan_string.simps [of b e])
    next
      case 4
      have "len b - (e + 1) < len b - e" using True by simp
      from less [OF this, of "sk"] obtain ok e' sk' where
        r: "scan_string b (e + 1) sk = Some (ok, e', sk')"
        "ok \<and> e' < len b \<Longrightarrow> \<exists>s r. scanned s \<and> drop (e + 1) (content b) = s @ 34 # r" by blast
      have "\<exists>s r. scanned s \<and> drop e (content b) = s @ 34 # r" if "ok \<and> e' < len b"
      proof -
        from r(2) [OF that] obtain s t where "scanned s" "drop (e + 1) (content b) = s @ 34 # t" by blast
        with 4 c have "scanned (c # s)" "drop e (content b) = (c # s) @ 34 # t" by simp_all
        then show ?thesis by blast
      qed
      then show ?thesis using 4 c True r(1) by (auto simp: scan_string.simps [of b e])
    qed
  qed
qed

subsection \<open>Decoding\<close>

text \<open>
  The decoding of the characters between the quotes.  A literal like \<open>"\u123\\"\<close>, where the four
  characters taken for digits end in a backslash, leaves a single backslash at the end; it then escapes
  the closing quote.
\<close>

function (sequential) decode :: "byte list \<Rightarrow> byte list option" where
  "decode [] = Some []"
| "decode (c # s) =
     (if c \<noteq> 92 then map_option (Cons c) (decode s)
      else (case s of
         [] \<Rightarrow> Some [34]
       | e # s' \<Rightarrow>
           (case simple_escape e of
              Some x \<Rightarrow> map_option (Cons x) (decode s')
            | None \<Rightarrow>
                if e = 117 then
                  (case utf16 s' of
                     None \<Rightarrow> None
                   | Some (cp, n) \<Rightarrow> map_option (append (utf8 cp)) (decode (drop n s')))
                else None)))"
  by pat_completeness auto
termination by (relation "measure length") auto

text \<open>How much the decoding loop writes before it ends, successfully or not.\<close>

function (sequential) need :: "byte list \<Rightarrow> nat" where
  "need [] = 0"
| "need (c # s) =
     (if c \<noteq> 92 then Suc (need s)
      else (case s of
         [] \<Rightarrow> 1
       | e # s' \<Rightarrow>
           (case simple_escape e of
              Some x \<Rightarrow> Suc (need s')
            | None \<Rightarrow>
                if e = 117 then
                  (case utf16 s' of
                     None \<Rightarrow> 0
                   | Some (cp, n) \<Rightarrow> length (utf8 cp) + need (drop n s'))
                else 0)))"
  by pat_completeness auto
termination by (relation "measure length") auto

lemma simple_escape_u [simp]: "simple_escape 117 = None"
  by (simp add: simple_escape_def)

lemma literal_induct [case_names Nil Plain Lone Simple Code Bad]:
  assumes "P []" and "\<And>c s. c \<noteq> 92 \<Longrightarrow> P s \<Longrightarrow> P (c # s)" and "P [92]"
    and "\<And>e x s. simple_escape e = Some x \<Longrightarrow> P s \<Longrightarrow> P (92 # e # s)"
    and "\<And>s cp n. utf16 s = Some (cp, n) \<Longrightarrow> P (drop n s) \<Longrightarrow> P (92 # 117 # s)"
    and "\<And>e s. simple_escape e = None \<Longrightarrow> e = 117 \<longrightarrow> utf16 s = None \<Longrightarrow> P (92 # e # s)"
  shows "P s"
proof (induction s rule: need.induct)
  case (2 c s)
  show ?case
  proof (cases "c = 92 \<and> s \<noteq> []")
    case True
    then obtain e s' where s: "c = 92" "s = e # s'" by (cases s) auto
    show ?thesis
    proof (cases "simple_escape e = None \<and> e = 117 \<and> utf16 s' \<noteq> None")
      case True
      then obtain cp n where u: "utf16 s' = Some (cp, n)" by auto
      then show ?thesis using "2.IH"(2) [of e s' "(cp, n)" cp n] True s assms(5) by auto
    next
      case no: False
      show ?thesis
      proof (cases "simple_escape e")
        case None
        with no have "e = 117 \<longrightarrow> utf16 s' = None" by blast
        with None show ?thesis unfolding s by (rule assms(6))
      next
        case (Some x)
        then show ?thesis using "2.IH"(3) [of e s'] s assms(4) by auto
      qed
    qed
  next
    case False
    then show ?thesis using "2.IH"(1) assms(2) [of c s] assms(3) by (cases "c = 92") auto
  qed
qed (rule assms)

lemma decode_unit [simp]:
  "c \<noteq> 92 \<Longrightarrow> decode (c # s) = map_option (Cons c) (decode s)"
  "decode [92] = Some [34]"
  "simple_escape e = Some x \<Longrightarrow> decode (92 # e # s) = map_option (Cons x) (decode s)"
  "utf16 s = Some (cp, n) \<Longrightarrow> decode (92 # 117 # s) = map_option (append (utf8 cp)) (decode (drop n s))"
  "simple_escape e = None \<Longrightarrow> e = 117 \<longrightarrow> utf16 s = None \<Longrightarrow> decode (92 # e # s) = None"
  by auto

lemma need_unit [simp]:
  "c \<noteq> 92 \<Longrightarrow> need (c # s) = Suc (need s)"
  "need [92] = 1"
  "simple_escape e = Some x \<Longrightarrow> need (92 # e # s) = Suc (need s)"
  "utf16 s = Some (cp, n) \<Longrightarrow> need (92 # 117 # s) = length (utf8 cp) + need (drop n s)"
  "simple_escape e = None \<Longrightarrow> e = 117 \<longrightarrow> utf16 s = None \<Longrightarrow> need (92 # e # s) = 0"
  by auto

declare decode.simps(2) [simp del] need.simps(2) [simp del]

lemma decode_need: "decode s = Some t \<Longrightarrow> length t = need s"
proof (induction s arbitrary: t rule: literal_induct)
  case (Code s cp n)
  then show ?case by (auto simp: decode_unit(4) need_unit(4))
next
  case (Bad e s)
  then show ?case by (simp add: decode_unit(5))
qed auto

text \<open>
  Why the estimate is enough: escape sequences that the estimate counted start at least two characters
  apart, and whatever the decoding loop takes for a unit is at least as long as its output
  plus the escapes counted inside it.
\<close>

fun sparse :: "bool list \<Rightarrow> bool" where
  "sparse [] = True"
| "sparse (m # ms) = ((m \<longrightarrow> ms = [] \<or> \<not> hd ms) \<and> sparse ms)"

lemma sparse_drop: "sparse ms \<Longrightarrow> sparse (drop n ms)"
  by (induction ms arbitrary: n) (auto simp: drop_Cons split: nat.splits)

lemma sparse_take_count: "sparse ms \<Longrightarrow> count_true (take (2 * n) ms) \<le> n"
proof (induction n arbitrary: ms)
  case (Suc n)
  show ?case
  proof (cases ms)
    case (Cons m ms')
    then show ?thesis using Suc.IH [of "tl ms'"] Suc.prems sparse_drop [of ms' 1]
      by (cases ms') (auto simp: drop_Suc)
  qed simp
qed simp

lemma count_split: "count_true ms = count_true (take n ms) + count_true (drop n ms)"
  by (metis append_take_drop_id count_true_simps(3))

lemma need_bound:
  "length ms = length s \<Longrightarrow> sparse ms \<Longrightarrow> (\<forall>i < length s. ms ! i \<longrightarrow> s ! i = 92) \<Longrightarrow>
   need s + count_true ms \<le> length s + 1"
proof (induction s arbitrary: ms rule: literal_induct)
  case (Plain c s)
  then obtain m ms' where ms: "ms = m # ms'" "length ms' = length s" by (cases ms) auto
  have "\<not> m" using Plain.prems(3) Plain.hyps ms by (auto dest: spec [of _ 0])
  moreover have "sparse ms'" using Plain.prems(2) ms by simp
  moreover have "\<forall>i < length s. ms' ! i \<longrightarrow> s ! i = 92"
    using Plain.prems(3) ms by (auto dest: spec [of _ "Suc _"])
  ultimately show ?case using Plain.IH [OF ms(2)] Plain.hyps ms by simp
next
  case Lone
  then show ?case by (cases ms) auto
next
  case (Simple e x s)
  then obtain m m' ns where ms: "ms = m # m' # ns" "length ns = length s"
    by (cases ms rule: remdups_adj.cases) auto
  have "sparse ns" "\<forall>i < length s. ns ! i \<longrightarrow> s ! i = 92"
    using Simple.prems(2,3) ms by (auto dest: spec [of _ "Suc (Suc _)"])
  from Simple.IH [OF ms(2) this] Simple.hyps Simple.prems(2) ms show ?case by auto
next
  case (Code s cp n)
  note D = utf16_SomeD [OF Code.hyps]
  have lm: "length (drop (n + 2) ms) = length (drop n s)" using Code.prems(1) by simp
  have am: "\<forall>i < length (drop n s). drop (n + 2) ms ! i \<longrightarrow> drop n s ! i = 92"
  proof (intro allI impI)
    fix i assume i: "i < length (drop n s)" and m: "drop (n + 2) ms ! i"
    then have "ms ! (n + 2 + i)" using Code.prems(1) by (simp add: add.assoc)
    then have "(92 # 117 # s) ! (n + 2 + i) = 92" using Code.prems(3) [rule_format, of "n + 2 + i"] i by simp
    then show "drop n s ! i = 92" using i by (simp add: nth_Cons')
  qed
  have "need (drop n s) + count_true (drop (n + 2) ms) \<le> length (drop n s) + 1"
    by (rule Code.IH [OF lm sparse_drop [OF Code.prems(2)] am])
  moreover have "count_true (take (n + 2) ms) \<le> n div 2 + 1"
    using sparse_take_count [OF Code.prems(2), of "n div 2 + 1"] D(2) by auto
  moreover have "count_true ms = count_true (take (n + 2) ms) + count_true (drop (n + 2) ms)"
    by (rule count_split)
  moreover have "length (utf8 cp) \<le> n div 2 + 1" using D(2) length_utf8 [of cp] by auto
  ultimately show ?case using D(2,3) Code.hyps by (auto simp: need_unit(4))
next
  case (Bad e s)
  have "count_true (take (2 * (length ms div 2 + 1)) ms) \<le> length ms div 2 + 1"
    by (rule sparse_take_count) fact
  then have "count_true ms \<le> length ms div 2 + 1" by simp
  then show ?case using Bad.hyps Bad.prems(1) by (simp add: need_unit(5))
qed simp

lemma length_marks: "length (marks s) = length s"
  by (induction s rule: pair_induct) auto

lemma marks_92: "i < length s \<Longrightarrow> marks s ! i \<Longrightarrow> s ! i = 92"
proof (induction s arbitrary: i rule: pair_induct)
  case (Plain c s)
  then show ?case by (cases i) auto
next
  case (Pair e s)
  then show ?case by (cases i rule: nat.exhaust; cases "i - 1") auto
qed auto

lemma sparse_marks: "sparse (marks s)"
  by (induction s rule: pair_induct) auto

lemma need_escs: "need s + escs s \<le> length s + 1"
  unfolding escs_def by (rule need_bound) (simp_all add: length_marks sparse_marks marks_92)

text \<open>
  The decoding loop stays inside an output with room for \<open>need s\<close> bytes, and computes \<open>decode\<close>.
\<close>

lemma unescape_decode:
  "drop ip (content b) = s @ 34 # r \<Longrightarrow> iend = ip + length s \<Longrightarrow> op + need s \<le> length out \<Longrightarrow>
   \<exists>ok ip' out' op'. unescape b ip iend out op = Some (ok, ip', out', op') \<and>
     (case decode s of
        Some t \<Rightarrow> ok \<and> pokes out op t = Some out' \<and> op' = op + length t
      | None \<Rightarrow> \<not> ok \<and> ip' < iend)"
proof (induction s arbitrary: ip op out rule: literal_induct)
  case Nil
  then have "unescape b ip iend out op = Some (True, ip, out, op)" by (simp add: unescape.simps [of b ip])
  then show ?case by auto
next
  case (Plain c s)
  have d: "drop (ip + 1) (content b) = s @ 34 # r" using drop_add [of ip "content b" "[c]"] Plain.prems(1) by simp
  have c: "byte_at b ip = Some c" using byte_at_drop [of ip b c] Plain.prems(1) by simp
  obtain out1 where o1: "poke out op c = Some out1" "length out1 = length out"
    using Plain.prems(3) Plain.hyps by (simp add: poke_Some)
  from Plain.IH [OF d, of "op + 1" out1] Plain.prems(2,3) Plain.hyps o1 obtain ok ip' out' op' where
    r: "unescape b (ip + 1) iend out1 (op + 1) = Some (ok, ip', out', op')"
    "case decode s of Some t \<Rightarrow> ok \<and> pokes out1 (op + 1) t = Some out' \<and> op' = op + 1 + length t
      | None \<Rightarrow> \<not> ok \<and> ip' < iend" by auto
  have "unescape b ip iend out op = Some (ok, ip', out', op')"
    using Plain.prems(2) Plain.hyps c o1 r(1) by (simp add: unescape.simps [of b ip])
  with r(2) o1 Plain.hyps show ?case by (auto split: option.splits)
next
  case Lone
  have "byte_at b ip = Some 92" "byte_at b (ip + 1) = Some 34"
    using byte_at_drop [of ip b 92] byte_at_nth [OF Lone.prems(1), of 1] Lone.prems(1) by simp_all
  then have "unescape b ip iend out op = Some (True, ip + 2, out[op := Some 34], op + 1)" using Lone.prems
    by (simp add: unescape.simps [of b ip] unescape.simps [of b "Suc (Suc ip)"] simple_escape_def poke_Some)
  then show ?case using Lone.prems by (auto simp: poke_Some)
next
  case (Simple e x s)
  have d: "drop (ip + 2) (content b) = s @ 34 # r"
    using drop_add [of ip "content b" "[92, e]"] Simple.prems(1) by simp
  have c: "byte_at b ip = Some 92" "byte_at b (ip + 1) = Some e"
    using byte_at_drop [of ip b 92] byte_at_nth [OF Simple.prems(1), of 1] Simple.prems(1) by simp_all
  obtain out1 where o1: "poke out op x = Some out1" "length out1 = length out"
    using Simple.prems(3) Simple.hyps by (simp add: poke_Some)
  from Simple.IH [OF d, of "op + 1" out1] Simple.prems(2,3) Simple.hyps o1 obtain ok ip' out' op' where
    r: "unescape b (ip + 2) iend out1 (op + 1) = Some (ok, ip', out', op')"
    "case decode s of Some t \<Rightarrow> ok \<and> pokes out1 (op + 1) t = Some out' \<and> op' = op + 1 + length t
      | None \<Rightarrow> \<not> ok \<and> ip' < iend" by auto
  have "unescape b ip iend out op = Some (ok, ip', out', op')"
    using Simple.prems(2) Simple.hyps c o1 r(1) by (simp add: unescape.simps [of b ip])
  with r(2) o1 Simple.hyps show ?case by (auto split: option.splits)
next
  case (Code s cp n)
  note D = utf16_SomeD [OF Code.hyps]
  have d0: "drop ip (content b) = 92 # 117 # s @ 34 # r" using Code.prems(1) by simp
  have e: "iend = ip + 2 + length s" using Code.prems(2) by simp
  have c: "byte_at b ip = Some 92" "byte_at b (ip + 1) = Some 117"
    using byte_at_drop [of ip b 92] byte_at_nth [OF Code.prems(1), of 1] Code.prems(1) by simp_all
  have cap: "op + utf16_len s \<le> length out" and cap2: "op + length (utf8 cp) + need (drop n s) \<le> length out"
    using Code.prems(3) Code.hyps by (simp_all add: utf16_len_def need_unit(4))
  obtain out1 where o1: "pokes out op (utf8 cp) = Some out1" using cap2 by (simp add: pokes_Some)
  then have l1: "length out1 = length out" by (rule length_pokes)
  have lit: "utf16_literal_to_utf8 b ip iend out op = Some (n + 2, out1, op + length (utf8 cp))"
    using utf16_literal_eq [OF d0 e cap] Code.hyps o1 by simp
  have "drop ip (content b) = (92 # 117 # take n s) @ drop n s @ 34 # r" using d0 by simp
  from drop_add [OF this] D(3) have d: "drop (ip + (n + 2)) (content b) = drop n s @ 34 # r"
    by (simp add: add.commute)
  have e': "iend = ip + (n + 2) + length (drop n s)" using e D(3) by simp
  from Code.IH [OF d e', of "op + length (utf8 cp)" out1] cap2 l1 obtain ok ip' out' op' where
    r: "unescape b (ip + (n + 2)) iend out1 (op + length (utf8 cp)) = Some (ok, ip', out', op')"
    "case decode (drop n s) of Some t \<Rightarrow> ok \<and> pokes out1 (op + length (utf8 cp)) t = Some out' \<and>
        op' = op + length (utf8 cp) + length t
      | None \<Rightarrow> \<not> ok \<and> ip' < iend" by auto
  have "unescape b ip iend out op = Some (ok, ip', out', op')"
    using Code.prems(2) c lit r(1) by (simp add: unescape.simps [of b ip])
  with r(2) o1 Code.hyps show ?case by (auto simp: pokes_append decode_unit(4) split: option.splits)
next
  case (Bad e s)
  have c: "byte_at b ip = Some 92" "byte_at b (ip + 1) = Some e"
    using byte_at_drop [of ip b 92] byte_at_nth [OF Bad.prems(1), of 1] Bad.prems(1) by simp_all
  show ?case
  proof (cases "e = 117")
    case True
    have d0: "drop ip (content b) = 92 # 117 # s @ 34 # r" using Bad.prems(1) True by simp
    have e: "iend = ip + 2 + length s" using Bad.prems(2) by simp
    have u: "utf16 s = None" using Bad.hyps True by simp
    have "utf16_literal_to_utf8 b ip iend out op = Some (0, out, op)"
      using utf16_literal_eq [OF d0 e, of op out] u Bad.prems(3) by (simp add: utf16_len_def)
    then have "unescape b ip iend out op = Some (False, ip, out, op)"
      using True Bad.prems(2) c by (simp add: unescape.simps [of b ip])
    then show ?thesis using Bad.prems(2) Bad.hyps by (auto simp: decode_unit(5))
  next
    case False
    then have "unescape b ip iend out op = Some (False, ip, out, op)"
      using Bad.prems(2) Bad.hyps c by (simp add: unescape.simps [of b ip])
    then show ?thesis using Bad.prems(2) Bad.hyps by (auto simp: decode_unit(5))
  qed
qed

subsection \<open>\<open>parse_string\<close>\<close>

text \<open>A C string as input: its terminator is its last byte.\<close>

definition content_ok :: "parse_buffer \<Rightarrow> bool" where
  "content_ok b \<longleftrightarrow> len b = length (content b) \<and> content b \<noteq> [] \<and> last (content b) = 0"

definition cstr :: "byte list \<Rightarrow> byte list" where
  "cstr t = takeWhile (\<lambda>c. c \<noteq> 0) t"

lemma cstring_cstr: "cstring (map Some t @ Some 0 # r) = Some (cstr t)"
  by (induction t) (auto simp: cstr_def)

lemma content_ok_offset [simp]: "content_ok (b\<lparr>offset := k\<rparr>) = content_ok b" "content_ok (b\<lparr>depth := d\<rparr>) = content_ok b"
  by (simp_all add: content_ok_def)

lemma content_ok_less:
  assumes "content_ok b" and "drop k (content b) = s @ c # r" and "c \<noteq> 0"
  shows "k + length s + 1 < len b"
proof -
  have d: "drop (k + length s) (content b) = c # r" using drop_add [OF assms(2)] .
  have "r \<noteq> []"
  proof
    assume "r = []"
    with d have "last (content b) = c" by (metis last_drop last.simps drop_Cons_less)
    with assms(1,3) show False by (simp add: content_ok_def)
  qed
  with d have "drop (k + length s + 1) (content b) \<noteq> []" by (metis Suc_eq_plus1 drop_Suc drop_Suc_Cons tl_drop list.sel(3))
  with assms(1) show ?thesis by (simp add: content_ok_def)
qed

text \<open>The block a decoded literal is put into.\<close>

definition string_block :: "byte list \<Rightarrow> byte list \<Rightarrow> cbuf" where
  "string_block s t = map Some t @ Some 0 # uninit (length s + 1 - escs s - length t)"

lemma parse_string_literal:
  assumes C: "content_ok b" and d: "drop (offset b) (content b) = 34 # s @ 34 # r" and s: "scanned s"
    and wf: "wf_heap h" and i: "load_item item h = Some i"
  shows "\<exists>b' h'. parse_string item b h = Some (decode s \<noteq> None \<and> \<not> alloc_fails h, b', h') \<and>
    wf_heap h' \<and> brk h \<le> brk h' \<and>
    (case decode s of
       Some t \<Rightarrow>
         if alloc_fails h then b' = b\<lparr>offset := offset b + 1\<rparr> \<and> (\<forall>q. load q h' = load q h)
         else b' = b\<lparr>offset := offset b + length s + 2\<rparr> \<and> brk h < brk h' \<and>
           (\<forall>q. load q h' = (if q = brk h then Some (StrC (string_block s t))
             else if q = item then Some (ItemC (i\<lparr>itype := cJSON_String, valuestring := brk h\<rparr>)) else load q h))
     | None \<Rightarrow> (\<exists>k \<le> len b. b' = b\<lparr>offset := k\<rparr>) \<and> (\<forall>q. load q h' = load q h))"
proof -
  let ?ip = "offset b + 1" and ?e = "offset b + 1 + length s" and ?cap = "length s + 1 - escs s + 1"
  have L: "len b = length (content b)" using C by (simp add: content_ok_def)
  have d1: "drop ?ip (content b) = s @ 34 # r" using drop_add [of "offset b" "content b" "[34]"] d by simp
  have sc: "scan_string b ?ip 0 = Some (True, ?e, escs s)" using scan_string_scanned [OF s d1 L, of 0] by simp
  have de: "drop ?e (content b) = 34 # r" using drop_add [OF d1] by simp
  have lt: "?e < len b" "byte_at b ?e = Some 34" using de L drop_Cons_less byte_at_drop by auto
  have c0: "cur_byte b = Some 34" using d by (simp add: cur_byte_def byte_at_drop)
  have cap: "?e - offset b - escs s + 1 = ?cap" by simp
  have nb: "need s + 1 \<le> ?cap" using need_escs [of s] by simp
  have kb: "offset b + 1 \<le> len b" using lt by simp
  show ?thesis
  proof (cases "alloc_fails h")
    case True
    then have "malloc (StrC (uninit ?cap)) h = (NULL, h\<lparr>oom := tl (oom h)\<rparr>)" by (rule malloc_alloc_fails)
    then have "parse_string item b h = Some (False, b\<lparr>offset := ?ip\<rparr>, h\<lparr>oom := tl (oom h)\<rparr>)"
      using c0 sc lt cap by (simp add: parse_string_def Let_def)
    then show ?thesis using True wf kb by (auto simp: wf_heap_def split: option.splits)
  next
    case False
    let ?o = "brk h"
    define h1 where "h1 = h\<lparr>cells := (cells h)(?o := Some (StrC (uninit ?cap))), brk := Suc ?o, oom := tl (oom h)\<rparr>"
    have m: "malloc (StrC (uninit ?cap)) h = (?o, h1)" using malloc_succeeds [OF False] by (simp add: h1_def)
    have on: "?o \<noteq> NULL" by (rule wf_heap_brk_pos [OF wf])
    have of: "load ?o h = None" by (rule wf_heap_fresh [OF wf])
    have oi: "?o \<noteq> item" "item \<noteq> ?o" using of i by (auto simp: load_item_Some_iff)
    have l1: "load q h1 = (if q = ?o then Some (StrC (uninit ?cap)) else load q h)" for q
      using on by (simp add: h1_def load_def)
    have wf1: "wf_heap h1" by (rule wf_heap_malloc [OF wf m])
    obtain ok ip' out op' where U: "unescape b ?ip ?e (uninit ?cap) 0 = Some (ok, ip', out, op')"
      "case decode s of Some t \<Rightarrow> ok \<and> pokes (uninit ?cap) 0 t = Some out \<and> op' = 0 + length t
       | None \<Rightarrow> \<not> ok \<and> ip' < ?e"
      using unescape_decode [OF d1 refl, of 0 "uninit ?cap"] nb by auto
    show ?thesis
    proof (cases "decode s")
      case None
      have "free ?o h1 = Some (clrj ?o h1)" by (rule free_live) (simp add: l1)
      then have "parse_string item b h = Some (False, b\<lparr>offset := ip'\<rparr>, clrj ?o h1)"
        using c0 sc lt cap m on U None by (simp add: parse_string_def Let_def)
      moreover have "wf_heap (clrj ?o h1)" using wf1 by (auto simp: wf_heap_def load_clrj)
      moreover have "load q (clrj ?o h1) = load q h" for q using l1 of by (simp add: load_clrj)
      ultimately show ?thesis using None U(2) lt by (auto simp: h1_def intro!: exI [of _ ip'])
    next
      case (Some t)
      from U(2) Some have ok: "ok" "pokes (uninit ?cap) 0 t = Some out" "op' = length t" by auto
      have lt2: "length t < ?cap" using decode_need [OF Some] nb by simp
      have out: "out = map Some t @ uninit (?cap - length t)"
        using ok(2) lt2 by (simp add: pokes_Some)
      have po: "poke out op' 0 = Some (string_block s t)"
      proof -
        have "?cap - length t = Suc (length s + 1 - escs s - length t)" using lt2 by simp
        then show ?thesis using ok(3) by (simp add: poke_def out string_block_def list_update_append uninit_Suc)
      qed
      let ?h2 = "setj ?o (StrC (string_block s t)) h1"
      let ?j = "i\<lparr>itype := cJSON_String, valuestring := ?o\<rparr>"
      let ?h3 = "setj item (ItemC ?j) ?h2"
      have st: "store ?o (StrC (string_block s t)) h1 = Some ?h2" using l1 [of ?o] by (simp add: setj_live)
      have "load_item item ?h2 = Some i" using i oi on l1 [of item] by (simp add: load_item_def load_setj)
      then have up: "upd_item item (\<lambda>i. i\<lparr>itype := cJSON_String, valuestring := ?o\<rparr>) ?h2 = Some ?h3"
        by (simp add: upd_item_Some)
      have "parse_string item b h = Some (True, b\<lparr>offset := ?e + 1\<rparr>, ?h3)"
        using c0 sc lt cap m on U(1) ok(1) po st up by (simp add: parse_string_def Let_def)
      moreover have "load q ?h3 = (if q = ?o then Some (StrC (string_block s t))
          else if q = item then Some (ItemC ?j) else load q h)" for q
        using on oi l1 load_item_not_NULL [OF i] by (simp add: load_setj)
      moreover have "wf_heap ?h3"
        using wf1 on oi load_item_not_NULL [OF i] i l1
        by (auto simp: wf_heap_def load_setj load_item_Some_iff h1_def not_le [symmetric])
      ultimately show ?thesis using Some False by (simp add: h1_def)
    qed
  qed
qed

lemma parse_string_no_literal:
  assumes C: "content_ok b" and o: "offset b < len b"
    and no: "\<nexists>s r. drop (offset b) (content b) = 34 # s @ 34 # r \<and> scanned s"
  shows "parse_string item b h = Some (False, b\<lparr>offset := offset b + 1\<rparr>, h)"
proof -
  have L: "len b = length (content b)" using C by (simp add: content_ok_def)
  obtain c r where d: "drop (offset b) (content b) = c # r" using o L by (cases "drop (offset b) (content b)") auto
  then have c: "cur_byte b = Some c" by (simp add: cur_byte_def byte_at_drop)
  show ?thesis
  proof (cases "c = 34")
    case False
    then show ?thesis using c by (simp add: parse_string_def)
  next
    case True
    have d1: "drop (offset b + 1) (content b) = r" using drop_add [of "offset b" "content b" "[c]"] d by simp
    from scan_string_total [OF L, of "offset b + 1" 0] obtain ok e' sk' where
      s: "scan_string b (offset b + 1) 0 = Some (ok, e', sk')"
      "ok \<and> e' < len b \<Longrightarrow> \<exists>s t. scanned s \<and> drop (offset b + 1) (content b) = s @ 34 # t" by blast
    have "\<not> (ok \<and> e' < len b)" using s(2) d d1 no True by auto
    then show ?thesis using s(1) c True by (auto simp: parse_string_def)
  qed
qed

end
