(* ===== verification/CJsonParser.thy ===== *)
theory CJsonParser
  imports CJsonString
begin

text \<open>
  The parser as a whole.  The contract of a value parser and of an element parser are locales;
  \<open>parse_array\<close> and \<open>parse_object\<close> are verified once, inside the second, for any element parser, and
  \<open>parse_value\<close> is shown to be a value parser by induction on the nesting bound.  The contract says
  that the call returns and is memory safe for every input and every script of allocation
  failures, that on success exactly the blocks of the new tree were allocated, and that on failure
  nothing is left behind.
\<close>

subsection \<open>White space\<close>

lemma skip_blanks_ok:
  assumes "content_ok b" and "offset b \<le> len b"
  shows "\<exists>k. skip_blanks b = Some (b\<lparr>offset := k\<rparr>) \<and> offset b \<le> k \<and> k \<le> len b"
  using assms
proof (induction "len b - offset b" arbitrary: b rule: less_induct)
  case less
  show ?case
  proof (cases "offset b < len b")
    case False
    then show ?thesis using less.prems by (intro exI [of _ "offset b"]) (simp add: skip_blanks.simps [of b] can_access_at_index_def)
  next
    case True
    then obtain c where c: "cur_byte b = Some c"
      using less.prems(1) by (simp add: cur_byte_def byte_at_def content_ok_def)
    show ?thesis
    proof (cases "c \<le> 32")
      case True
      let ?b = "b\<lparr>offset := offset b + 1\<rparr>"
      have "len ?b - offset ?b < len b - offset b" using \<open>offset b < len b\<close> by simp
      from less.hyps [OF this] less.prems(1) \<open>offset b < len b\<close> obtain k where
        "skip_blanks ?b = Some (?b\<lparr>offset := k\<rparr>)" "offset b + 1 \<le> k" "k \<le> len b" by auto
      then show ?thesis using True c \<open>offset b < len b\<close>
        by (intro exI [of _ k]) (simp add: skip_blanks.simps [of b] can_access_at_index_def advance_def)
    next
      case False
      then show ?thesis using c \<open>offset b < len b\<close>
        by (intro exI [of _ "offset b"]) (simp add: skip_blanks.simps [of b] can_access_at_index_def)
    qed
  qed
qed

lemma buffer_skip_whitespace_ok:
  assumes "content_ok b" and "offset b < len b"
  shows "\<exists>k. buffer_skip_whitespace b = Some (b\<lparr>offset := k\<rparr>) \<and> offset b \<le> k \<and> k < len b"
proof -
  from skip_blanks_ok [OF assms(1)] assms(2) obtain k where
    k: "skip_blanks b = Some (b\<lparr>offset := k\<rparr>)" "offset b \<le> k" "k \<le> len b" by auto
  show ?thesis
  proof (cases "k = len b")
    case True
    with k assms(2) show ?thesis
      by (intro exI [of _ "k - 1"]) (auto simp: buffer_skip_whitespace_def step_back_def)
  next
    case False
    with k show ?thesis by (intro exI [of _ k]) (auto simp: buffer_skip_whitespace_def)
  qed
qed

lemma next_is_ok:
  assumes "content_ok b" and "offset b < len b"
  shows "next_is c b = Some (content b ! offset b = c)"
  using assms by (simp add: next_is_def can_access_at_index_def cur_byte_def byte_at_def content_ok_def)

lemma byte_then_less:
  assumes "content_ok b" and "offset b < len b" and "content b ! offset b \<noteq> 0"
  shows "offset b + 1 < len b"
  using content_ok_less [of b "offset b" "[]"] assms
  by (auto simp: content_ok_def Cons_nth_drop_Suc [symmetric])

subsection \<open>Numbers never make the conversion undefined\<close>

lemma word_fields_or:
  fixes x s :: "64 word"
  assumes "\<And>n. n < 63 \<Longrightarrow> \<not> bit s n"
  shows "(x OR s) AND 0xFFFFFFFFFFFFF = x AND 0xFFFFFFFFFFFFF"
    and "drop_bit 52 (x OR s) AND 0x7FF = drop_bit 52 x AND 0x7FF"
proof -
  have m: "(0x7FF :: 64 word) = mask 11" "(0xFFFFFFFFFFFFF :: 64 word) = mask 52"
    by (simp_all add: mask_eq_exp_minus_1)
  show "(x OR s) AND 0xFFFFFFFFFFFFF = x AND 0xFFFFFFFFFFFFF"
    unfolding m using assms by (intro bit_word_eqI) (auto simp: bit_simps)
  show "drop_bit 52 (x OR s) AND 0x7FF = drop_bit 52 x AND 0x7FF"
    unfolding m using assms by (intro bit_word_eqI) (auto simp: bit_simps)
qed

lemma f64_fields_of_nat:
  assumes "n < 2 ^ 63"
  shows "f64_exp (of_nat n) = n div 2 ^ 52" and "f64_frac (of_nat n) = n mod 2 ^ 52"
proof -
  have m: "(0x7FF :: 64 word) = mask 11" "(0xFFFFFFFFFFFFF :: 64 word) = mask 52"
    by (simp_all add: mask_eq_exp_minus_1)
  have d: "drop_bit 52 n < 2 ^ 11" "drop_bit 52 n = n div 2 ^ 52" using assms by (simp_all add: drop_bit_eq_div)
  have "unat (take_bit 11 (drop_bit 52 (of_nat n :: 64 word))) = drop_bit 52 n"
    using assms d(1) by (simp add: unsigned_take_bit_eq unsigned_drop_bit_eq unat_of_nat take_bit_nat_eq_self)
  then show "f64_exp (of_nat n) = n div 2 ^ 52"
    unfolding f64_exp_def m d(2) by (simp only: take_bit_eq_mask)
  have "unat (take_bit 52 (of_nat n :: 64 word)) = take_bit 52 n"
    using assms by (simp only: unsigned_take_bit_eq unat_of_nat) (simp add: take_bit_nat_eq_self)
  moreover have "take_bit 52 n = n mod 2 ^ 52" by (simp add: take_bit_eq_mod)
  ultimately show "f64_frac (of_nat n) = n mod 2 ^ 52"
    unfolding f64_frac_def m by (simp only: take_bit_eq_mask)
qed

lemma f64_of_rat_not_nan: "\<not> f64_nan (f64_of_rat s q)"
proof -
  define bits where "bits = min (round_even (q * 2 ^ 1074 / 2 ^ find_exp 2046 0 (q * 2 ^ 1074)) +
    find_exp 2046 0 (q * 2 ^ 1074) * 2 ^ 52) (2047 * 2 ^ 52)"
  have b: "bits \<le> 2047 * 2 ^ 52" by (simp add: bits_def)
  then have b63: "bits < 2 ^ 63" by simp
  have e: "f64_of_rat s q = of_nat bits OR (if s then push_bit 63 1 else 0)"
    by (simp add: f64_of_rat_def bits_def Let_def)
  have "\<not> bit (if s then push_bit 63 1 else 0 :: 64 word) n" if "n < 63" for n
    using that bit_push_bit_iff [of 63 "1 :: 64 word" n] by (cases s) simp_all
  from word_fields_or [OF this, of "of_nat bits"]
  have "f64_exp (f64_of_rat s q) = bits div 2 ^ 52" "f64_frac (f64_of_rat s q) = bits mod 2 ^ 52"
    unfolding e f64_exp_def f64_frac_def using f64_fields_of_nat [OF b63]
    by (simp_all only: f64_exp_def f64_frac_def)
  moreover have "bits mod 2 ^ 52 = 0" if "bits div 2 ^ 52 = 2047"
  proof -
    have "bits = 2047 * 2 ^ 52 + bits mod 2 ^ 52" using that by (metis mult.commute mult_div_mod_eq)
    with b show ?thesis by simp
  qed
  ultimately show ?thesis by (auto simp: f64_nan_def)
qed

lemma int_of_number_defined: "\<not> f64_nan d \<Longrightarrow> \<exists>v. int_of_number d = Some v"
  by (auto simp: int_of_number_def f64_ge_int_def f64_le_int_def f64_trunc_def)

lemma scan_exp_le: "snd (scan_exp s) \<le> length s"
proof (cases s)
  case (Cons c cs)
  define sgn where "sgn = (if cs \<noteq> [] \<and> (hd cs = 45 \<or> hd cs = 43) then 1 else (0 :: nat))"
  have "sgn \<le> length cs" by (cases cs) (auto simp: sgn_def)
  moreover have "length (takeWhile is_digit (drop sgn cs)) \<le> length (drop sgn cs)"
    by (rule length_takeWhile_le)
  ultimately have "1 + sgn + length (takeWhile is_digit (drop sgn cs)) \<le> length s" using Cons by simp
  then show ?thesis using Cons by (auto simp: scan_exp_def Let_def sgn_def [symmetric])
qed (simp add: scan_exp_def)

lemma strtod_ok: "\<not> f64_nan (fst (strtod s))" "snd (strtod s) \<le> length s"
proof -
  have z: "\<not> f64_nan 0" by (simp add: f64_nan_def f64_exp_def)
  define sgn where "sgn = (if s \<noteq> [] \<and> (hd s = 45 \<or> hd s = 43) then 1 else (0 :: nat))"
  define s1 where "s1 = drop sgn s"
  define ip where "ip = takeWhile is_digit s1"
  define s2 where "s2 = drop (length ip) s1"
  define pt where "pt \<longleftrightarrow> s2 \<noteq> [] \<and> hd s2 = 46"
  define fp where "fp = (if pt then takeWhile is_digit (tl s2) else [])"
  define s3 where "s3 = (if pt then drop (1 + length fp) s2 else s2)"
  have e: "strtod s = (if ip = [] \<and> fp = [] then (0, 0)
      else (f64_of_rat (s \<noteq> [] \<and> hd s = 45)
              (of_nat (digits_val 0 (ip @ fp)) * pow10 (fst (scan_exp s3) - int (length fp))),
            sgn + length ip + (if pt then 1 + length fp else 0) + snd (scan_exp s3)))"
    unfolding s3_def fp_def pt_def s2_def ip_def s1_def sgn_def strtod_def Let_def prod.case_eq_if by (rule refl)
  show "\<not> f64_nan (fst (strtod s))" using z f64_of_rat_not_nan by (simp add: e)
  have a: "sgn + length s1 = length s" by (cases s) (auto simp: sgn_def s1_def)
  have b: "length ip + length s2 = length s1"
    using length_takeWhile_le [of is_digit s1] by (simp add: ip_def s2_def)
  have "length fp \<le> length (tl s2)" using length_takeWhile_le [of is_digit "tl s2"] by (simp add: fp_def)
  then have c: "(if pt then 1 + length fp else 0) + length s3 = length s2"
    by (cases s2) (auto simp: s3_def pt_def)
  show "snd (strtod s) \<le> length s" using a b c scan_exp_le [of s3] by (simp add: e)
qed

end
