(* ===== verification/CJsonSafe.thy ===== *)
theory CJsonSafe
  imports CJsonParser
begin

text \<open>
  The contracts of the mutually recursive parsing functions, as locales, and their proof: see the
  header of \<open>CJsonParser\<close>.
\<close>

subsection \<open>Nesting\<close>

fun height :: "jtree list \<Rightarrow> nat" where
  "height [] = 0"
| "height (JT p ty vs vi vd k ks # ts) = max (1 + height ks) (height ts)"

lemma height_append: "height (ts @ us) = max (height ts) (height us)"
  by (induction ts rule: height.induct) auto

subsection \<open>The contracts\<close>

text \<open>
  A value was parsed into \<open>item\<close>, whose old content is \<open>i\<close>: it owns the string \<open>vs\<close> and the children
  \<open>ks\<close>, all freshly allocated; nothing else changed.
\<close>

definition filled :: "jheap \<Rightarrow> jheap \<Rightarrow> addr \<Rightarrow> item \<Rightarrow> (addr \<times> byte list) option \<Rightarrow> jtree list \<Rightarrow> bool" where
  "filled h h' item i vs ks \<longleftrightarrow>
     (\<exists>ty vi vd. load_item item h' = Some (i\<lparr>itype := ty, valuestring := ptr_of vs, valueint := vi,
        valuedouble := vd, child := first_addr ks NULL\<rparr>) \<and> \<not> is_reference ty \<and> \<not> string_is_const ty) \<and>
     str_at h' vs \<and> items_at h' NULL ks NULL \<and> plain ks \<and> distinct (ptrs vs @ foot ks) \<and>
     (\<forall>q \<in> set (ptrs vs @ foot ks). load q h = None) \<and>
     (\<forall>q. q \<noteq> item \<longrightarrow> q \<notin> set (ptrs vs @ foot ks) \<longrightarrow> load q h' = load q h)"

text \<open>
  The item \<open>t\<close> stands at its address with the neighbours it had, and what it owns besides itself is fresh.
\<close>

definition built :: "jheap \<Rightarrow> jheap \<Rightarrow> item \<Rightarrow> jtree \<Rightarrow> bool" where
  "built h h' i t \<longleftrightarrow>
     items_at h' (iprev i) [t] (inext i) \<and> plain [t] \<and> distinct (foot [t]) \<and>
     (\<forall>q \<in> set (foot [t]). q \<noteq> jaddr t \<longrightarrow> load q h = None) \<and>
     (\<forall>q. q \<notin> set (foot [t]) \<longrightarrow> load q h' = load q h)"

definition blank :: "item \<Rightarrow> bool" where
  "blank i \<longleftrightarrow> child i = NULL \<and> valuestring i = NULL \<and> \<not> is_reference (itype i) \<and> \<not> string_is_const (itype i)"

definition same_input :: "parse_buffer \<Rightarrow> parse_buffer \<Rightarrow> bool" where
  "same_input b b' \<longleftrightarrow> content b' = content b \<and> len b' = len b"

definition parsed_value :: "jheap \<Rightarrow> parse_buffer \<Rightarrow> addr \<Rightarrow> item \<Rightarrow> (bool \<times> parse_buffer \<times> jheap) option \<Rightarrow> bool" where
  "parsed_value h b item i r \<longleftrightarrow>
     (\<exists>ok b' h'. r = Some (ok, b', h') \<and> same_input b b' \<and> offset b' \<le> len b \<and> wf_heap h' \<and>
        brk h \<le> brk h' \<and>
        (ok \<longrightarrow> offset b < offset b' \<and> offset b' < len b \<and> depth b' = depth b \<and>
           (\<exists>vs ks. filled h h' item i vs ks \<and> height ks + depth b \<le> CJSON_NESTING_LIMIT)) \<and>
        (\<not> ok \<longrightarrow> (\<forall>q. load q h' = load q h)))"

definition parsed_element :: "jheap \<Rightarrow> parse_buffer \<Rightarrow> addr \<Rightarrow> item \<Rightarrow> (bool \<times> parse_buffer \<times> jheap) option \<Rightarrow> bool" where
  "parsed_element h b item i r \<longleftrightarrow>
     (\<exists>ok b' h'. r = Some (ok, b', h') \<and> same_input b b' \<and> offset b' \<le> len b \<and> wf_heap h' \<and>
        brk h \<le> brk h' \<and> (ok \<longrightarrow> offset b < offset b' \<and> offset b' < len b \<and> depth b' = depth b) \<and>
        (\<exists>t. jaddr t = item \<and> built h h' i t \<and> height [t] \<le> 1 + CJSON_NESTING_LIMIT - depth b))"

lemma parsed_valueE:
  assumes "parsed_value h b item i r"
  obtains (fail) b' h' where "r = Some (False, b', h')" "same_input b b'" "offset b' \<le> len b" "wf_heap h'"
      "brk h \<le> brk h'" "\<And>q. load q h' = load q h"
  | (ok) b' h' vs ks where "r = Some (True, b', h')" "same_input b b'" "wf_heap h'" "brk h \<le> brk h'"
      "offset b < offset b'" "offset b' < len b" "depth b' = depth b" "filled h h' item i vs ks"
      "height ks + depth b \<le> CJSON_NESTING_LIMIT"
proof -
  from assms obtain ok b' h' where "r = Some (ok, b', h')" "same_input b b'" "offset b' \<le> len b" "wf_heap h'"
      "brk h \<le> brk h'"
      "ok \<longrightarrow> offset b < offset b' \<and> offset b' < len b \<and> depth b' = depth b \<and>
           (\<exists>vs ks. filled h h' item i vs ks \<and> height ks + depth b \<le> CJSON_NESTING_LIMIT)"
      "\<not> ok \<longrightarrow> (\<forall>q. load q h' = load q h)" unfolding parsed_value_def by blast
  with that show thesis by (cases ok) (simp, blast, simp)
qed

lemma parsed_valueI:
  "r = Some (ok, b', h') \<Longrightarrow> same_input b b' \<Longrightarrow> offset b' \<le> len b \<Longrightarrow> wf_heap h' \<Longrightarrow> brk h \<le> brk h' \<Longrightarrow>
   (ok \<Longrightarrow> offset b < offset b' \<and> offset b' < len b \<and> depth b' = depth b \<and>
      filled h h' item i vs ks \<and> height ks + depth b \<le> CJSON_NESTING_LIMIT) \<Longrightarrow>
   (\<And>q. \<not> ok \<Longrightarrow> load q h' = load q h) \<Longrightarrow> parsed_value h b item i r"
  unfolding parsed_value_def by blast

lemma parsed_elementI:
  "r = Some (ok, b', h') \<Longrightarrow> same_input b b' \<Longrightarrow> offset b' \<le> len b \<Longrightarrow> wf_heap h' \<Longrightarrow> brk h \<le> brk h' \<Longrightarrow>
   (ok \<Longrightarrow> offset b < offset b' \<and> offset b' < len b \<and> depth b' = depth b) \<Longrightarrow> jaddr t = item \<Longrightarrow>
   built h h' i t \<Longrightarrow> height [t] \<le> 1 + CJSON_NESTING_LIMIT - depth b \<Longrightarrow> parsed_element h b item i r"
  unfolding parsed_element_def by blast

locale value_parsing =
  fixes pv :: value_parser
    and ready :: "nat \<Rightarrow> bool"
  assumes parse: "content_ok b \<Longrightarrow> offset b < len b \<Longrightarrow> depth b \<le> CJSON_NESTING_LIMIT \<Longrightarrow> ready (depth b) \<Longrightarrow>
    wf_heap h \<Longrightarrow> load_item item h = Some i \<Longrightarrow> blank i \<Longrightarrow> parsed_value h b item i (pv item b h)"

locale element_parsing =
  fixes pe :: value_parser
    and ready :: "nat \<Rightarrow> bool"
  assumes parse: "content_ok b \<Longrightarrow> offset b < len b \<Longrightarrow> depth b \<le> CJSON_NESTING_LIMIT \<Longrightarrow> ready (depth b) \<Longrightarrow>
    wf_heap h \<Longrightarrow> load_item item h = Some i \<Longrightarrow> blank i \<Longrightarrow> key i = NULL \<Longrightarrow>
    parsed_element h b item i (pe item b h)"

subsection \<open>A value parser is an element parser\<close>

lemma filled_built:
  assumes F: "filled h h' item i vs ks" and k: "key i = ptr_of k" "str_at h' k"
    and fresh: "\<forall>q \<in> set (ptrs k). q \<noteq> item \<and> load q h \<noteq> None" and item: "load_item item h = Some i"
  shows "\<exists>ty vi vd. items_at h' (iprev i) [JT item ty vs vi vd k ks] (inext i) \<and>
    plain [JT item ty vs vi vd k ks] \<and> distinct (foot [JT item ty vs vi vd k ks])"
proof -
  from F obtain ty vi vd where ld: "load_item item h' = Some (i\<lparr>itype := ty, valuestring := ptr_of vs,
      valueint := vi, valuedouble := vd, child := first_addr ks NULL\<rparr>)" "\<not> is_reference ty" "\<not> string_is_const ty"
    and s: "str_at h' vs" "items_at h' NULL ks NULL" "plain ks" "distinct (ptrs vs @ foot ks)"
    and fr: "\<forall>q \<in> set (ptrs vs @ foot ks). load q h = None" by (auto simp: filled_def)
  have "item \<notin> set (ptrs vs @ foot ks)" using fr item by (auto simp: load_item_Some_iff)
  moreover have "set (ptrs k) \<inter> set (ptrs vs @ foot ks) = {}" using fr fresh by blast
  moreover have "distinct (ptrs k)" by (cases k) auto
  ultimately have "distinct (foot [JT item ty vs vi vd k ks])"
    using ld(2,3) s(4) fresh by auto
  moreover have "items_at h' (iprev i) [JT item ty vs vi vd k ks] (inext i)"
    using ld(1) s(1,2) k by (cases i) simp
  ultimately show ?thesis using ld(2,3) s(3) by auto
qed

lemma unchanged_built:
  assumes "load_item item h' = Some (i\<lparr>itype := ty, key := ptr_of k\<rparr>)" and "blank i"
    and "\<not> is_reference ty" "\<not> string_is_const ty" and "str_at h' k"
    and "\<forall>q \<in> set (ptrs k). q \<noteq> item \<and> load q h = None"
    and "\<forall>q. q \<noteq> item \<longrightarrow> q \<notin> set (ptrs k) \<longrightarrow> load q h' = load q h"
  shows "built h h' i (JT item ty None (valueint i) (valuedouble i) k [])"
proof -
  have "distinct (ptrs k)" by (cases k) auto
  then show ?thesis using assms by (cases i) (auto simp: built_def blank_def)
qed

sublocale value_parsing \<subseteq> element: element_parsing pv ready
proof
  fix b h item i
  assume a: "content_ok b" "offset b < len b" "depth b \<le> CJSON_NESTING_LIMIT" "ready (depth b)" "wf_heap h"
    and i: "load_item item h = Some i" "blank i" "key i = NULL"
  from parse [OF a i(1,2)] show "parsed_element h b item i (pv item b h)"
  proof (cases rule: parsed_valueE)
    case (ok b' h' vs ks)
    from filled_built [OF ok(8), of None] i obtain ty vi vd where
      t: "items_at h' (iprev i) [JT item ty vs vi vd None ks] (inext i)"
      "plain [JT item ty vs vi vd None ks]" "distinct (foot [JT item ty vs vi vd None ks])" by auto
    with ok(8) have "built h h' i (JT item ty vs vi vd None ks)" by (auto simp: built_def filled_def)
    then show ?thesis
      by (rule parsed_elementI [OF ok(1,2) _ ok(3,4), rotated 3]) (use ok in simp_all)
  next
    case (fail b' h')
    have ld: "load_item item h' = Some (i\<lparr>itype := itype i, key := ptr_of None\<rparr>)"
      using i load_item_cong [OF fail(6), of item] by simp
    have "built h h' i (JT item (itype i) None (valueint i) (valuedouble i) None [])"
      by (rule unchanged_built [OF ld i(2)]) (use i(2) fail(6) in \<open>simp_all add: blank_def\<close>)
    then show ?thesis
      by (rule parsed_elementI [OF fail(1-5), rotated 2]) (use a(3) in simp_all)
  qed
qed

subsection \<open>One member of an object\<close>

lemma string_type_plain [simp]: "\<not> is_reference cJSON_String" "\<not> string_is_const cJSON_String"
  by (simp_all add: is_reference_def string_is_const_def ctype_defs)

text \<open>Both outcomes of \<open>parse_string\<close>, for any input.\<close>

lemma parse_string_cases:
  assumes C: "content_ok b" and o: "offset b < len b" and wf: "wf_heap h" and i: "load_item item h = Some i"
  obtains (fail) b' h' where "parse_string item b h = Some (False, b', h')" "same_input b b'"
      "offset b' \<le> len b" "wf_heap h'" "brk h \<le> brk h'" "\<And>q. load q h' = load q h"
  | (ok) b' h' p t where "parse_string item b h = Some (True, b', h')" "same_input b b'" "depth b' = depth b"
      "offset b < offset b'" "offset b' < len b" "wf_heap h'" "brk h \<le> brk h'" "p \<noteq> item" "p \<noteq> NULL"
      "load p h = None" "read_str p h' = Some t"
      "load_item item h' = Some (i\<lparr>itype := cJSON_String, valuestring := p\<rparr>)"
      "\<And>q. q \<noteq> item \<Longrightarrow> q \<noteq> p \<Longrightarrow> load q h' = load q h"
proof (cases "\<exists>s r. drop (offset b) (content b) = 34 # s @ 34 # r \<and> scanned s")
  case False
  show ?thesis
  proof (rule fail)
    show "parse_string item b h = Some (False, b\<lparr>offset := offset b + 1\<rparr>, h)"
      by (rule parse_string_no_literal [OF C o False])
  qed (use o wf in \<open>simp_all add: same_input_def\<close>)
next
  case True
  then obtain s r where d: "drop (offset b) (content b) = 34 # s @ 34 # r" and s: "scanned s" by blast
  have "offset b + length (34 # s) + 1 < len b"
    by (rule content_ok_less [OF C, of _ _ 34 r]) (use d in simp_all)
  then have l2: "offset b + length s + 2 < len b" by simp
  from parse_string_literal [OF C d s wf i] obtain b' h' where
    r: "parse_string item b h = Some (decode s \<noteq> None \<and> \<not> alloc_fails h, b', h')"
    "wf_heap h'" "brk h \<le> brk h'" and P: "case decode s of
       Some t \<Rightarrow>
         if alloc_fails h then b' = b\<lparr>offset := offset b + 1\<rparr> \<and> (\<forall>q. load q h' = load q h)
         else b' = b\<lparr>offset := offset b + length s + 2\<rparr> \<and> brk h < brk h' \<and>
           (\<forall>q. load q h' = (if q = brk h then Some (StrC (string_block s t))
             else if q = item then Some (ItemC (i\<lparr>itype := cJSON_String, valuestring := brk h\<rparr>)) else load q h))
     | None \<Rightarrow> (\<exists>k \<le> len b. b' = b\<lparr>offset := k\<rparr>) \<and> (\<forall>q. load q h' = load q h)" by blast
  show ?thesis
  proof (cases "decode s \<noteq> None \<and> \<not> alloc_fails h")
    case False
    then have "\<forall>q. load q h' = load q h" "\<exists>k \<le> len b. b' = b\<lparr>offset := k\<rparr>"
      using P l2 by (auto split: option.splits if_splits intro: exI [of _ "Suc (offset b)"])
    with r False show ?thesis by (intro fail [of b' h']) (auto simp: same_input_def)
  next
    case True
    then obtain t where t: "decode s = Some t" by auto
    from P True t have b': "b' = b\<lparr>offset := offset b + length s + 2\<rparr>"
      and l: "load q h' = (if q = brk h then Some (StrC (string_block s t))
             else if q = item then Some (ItemC (i\<lparr>itype := cJSON_String, valuestring := brk h\<rparr>)) else load q h)" for q
      by auto
    have f: "load (brk h) h = None" by (rule wf_heap_fresh [OF wf])
    then have ne: "brk h \<noteq> item" using i by (auto simp: load_item_Some_iff)
    show ?thesis
    proof (rule ok [of b' h' "brk h" "cstr t"])
      show "parse_string item b h = Some (True, b', h')" using r True by simp
      show "read_str (brk h) h' = Some (cstr t)"
        using read_str_eqI [of "brk h" h'] l [of "brk h"] cstring_cstr by (simp add: string_block_def)
      show "load_item item h' = Some (i\<lparr>itype := cJSON_String, valuestring := brk h\<rparr>)"
        using l [of item] ne by (simp add: load_item_Some_iff)
    qed (use b' l2 r ne f l wf_heap_brk_pos [OF wf] in \<open>auto simp: same_input_def\<close>)
  qed
qed

lemma same_input_simps [simp]:
  "same_input b b" "same_input b (b'\<lparr>offset := k\<rparr>) = same_input b b'"
  "same_input b (b'\<lparr>depth := d\<rparr>) = same_input b b'"
  "same_input (b\<lparr>offset := k\<rparr>) b' = same_input b b'" "same_input (b\<lparr>depth := d\<rparr>) b' = same_input b b'"
  by (simp_all add: same_input_def)

lemma same_input_trans: "same_input a b \<Longrightarrow> same_input b c \<Longrightarrow> same_input a c"
  by (simp add: same_input_def)

lemma same_input_content_ok: "same_input b b' \<Longrightarrow> content_ok b' = content_ok b"
  by (simp add: same_input_def content_ok_def)

lemma same_input_len: "same_input b b' \<Longrightarrow> len b' = len b"
  by (simp add: same_input_def)

lemma wf_heap_setj: "wf_heap h \<Longrightarrow> load p h = Some c0 \<Longrightarrow> wf_heap (setj p c h)"
  using load_Some_not_NULL [of p h c0] by (auto simp: wf_heap_def load_setj)

lemma byte_less:
  assumes "content_ok b" and "same_input b b'" and "offset b' < len b" and "next_is c b' = Some True" and "c \<noteq> 0"
  shows "offset b' + 1 < len b"
proof -
  have "content_ok b'" "offset b' < len b'" using assms by (simp_all add: same_input_content_ok same_input_len)
  moreover from this have "content b' ! offset b' = c" using next_is_ok [of b' c] assms(4) by simp
  ultimately show ?thesis using byte_then_less [of b'] assms(2,5) by (simp add: same_input_len)
qed

sublocale value_parsing \<subseteq> member: element_parsing "parse_member pv" ready
proof
  fix b h item i
  assume C: "content_ok b" and o: "offset b < len b" and d: "depth b \<le> CJSON_NESTING_LIMIT" "ready (depth b)"
    and wf: "wf_heap h" and i: "load_item item h = Some i" "blank i" "key i = NULL"
  let ?h0 = "1 + CJSON_NESTING_LIMIT - depth b"
  from C o wf i(1) show "parsed_element h b item i (parse_member pv item b h)"
  proof (cases rule: parse_string_cases)
    case (fail b' h')
    have ld: "load_item item h' = Some (i\<lparr>itype := itype i, key := ptr_of None\<rparr>)"
      using i fail(6) load_item_cong [of item h' h] by simp
    have "built h h' i (JT item (itype i) None (valueint i) (valuedouble i) None [])"
      by (rule unchanged_built [OF ld i(2)]) (use i(2) fail(6) in \<open>simp_all add: blank_def\<close>)
    moreover have "parse_member pv item b h = Some (False, b', h')" using fail(1) by (simp add: parse_member_def)
    ultimately show ?thesis using fail d(1)
      by (auto simp: parsed_element_def intro!: exI [of _ "JT item (itype i) None (valueint i) (valuedouble i) None []"])
  next
    case (ok b1 h1 p t)
    have C1: "content_ok b1" "offset b1 < len b1"
      using C ok(2,5) by (simp_all add: same_input_content_ok same_input_len)
    from buffer_skip_whitespace_ok [OF this] obtain k where
      k: "buffer_skip_whitespace b1 = Some (b1\<lparr>offset := k\<rparr>)" "offset b1 \<le> k" "k < len b1" by blast
    let ?b2 = "b1\<lparr>offset := k\<rparr>" and ?i = "i\<lparr>itype := cJSON_String, key := p\<rparr>"
    let ?h2 = "setj item (ItemC ?i) h1"
    have item: "item \<noteq> NULL" by (rule load_item_not_NULL [OF i(1)])
    have iv: "i\<lparr>itype := cJSON_String, key := p, valuestring := NULL\<rparr> = ?i" using i(2) by (cases i) (simp add: blank_def)
    have u: "upd_item item (\<lambda>i. i\<lparr>key := valuestring i, valuestring := NULL\<rparr>) h1 = Some ?h2"
      using upd_item_Some [OF ok(12), of "\<lambda>i. i\<lparr>key := valuestring i, valuestring := NULL\<rparr>"] iv by simp
    have l2: "load q ?h2 = (if q = item then Some (ItemC ?i) else load q h1)" for q
      using item by (simp add: load_setj)
    have i2: "load_item item ?h2 = Some ?i" using l2 [of item] by (simp add: load_item_Some_iff)
    have wf2: "wf_heap ?h2" by (rule wf_heap_setj [OF ok(6)]) (use ok(12) in \<open>simp add: load_item_Some_iff\<close>)
    have s2: "str_at ?h2 (Some (p, t))" using ok(8,11) l2 [of p] read_str_cong [of p ?h2 h1] by simp
    let ?t0 = "JT item cJSON_String None (valueint i) (valuedouble i) (Some (p, t)) []"
    have failed: "built h h' i ?t0" if "\<And>q. load q h' = load q ?h2" for h'
    proof (rule unchanged_built [OF _ i(2)])
      show "load_item item h' = Some (i\<lparr>itype := cJSON_String, key := ptr_of (Some (p, t))\<rparr>)"
        using i2 load_item_cong [OF that, of item] by simp
      show "str_at h' (Some (p, t))" using s2 that by (subst str_at_cong [of _ _ ?h2]) auto
    qed (use ok(8,10,13) l2 that in auto)
    have n2: "next_is 58 ?b2 = Some (content b1 ! k = 58)"
      using next_is_ok [of ?b2 58] C1 k by simp
    show ?thesis
    proof (cases "content b1 ! k = 58")
      case False
      have "parse_member pv item b h = Some (False, ?b2, ?h2)"
        using ok(1) k(1) u n2 False by (simp add: parse_member_def)
      then show ?thesis
        by (rule parsed_elementI [where t = ?t0]) (use failed [of ?h2] ok(2,7) k wf2 d(1) in \<open>simp_all add: same_input_len\<close>)
    next
      case True
      have k1: "k + 1 < len b"
        using byte_less [OF C, of ?b2 58] ok(2) k n2 True by (simp add: same_input_len)
      have "content_ok (b1\<lparr>offset := k + 1\<rparr>)" "offset (b1\<lparr>offset := k + 1\<rparr>) < len (b1\<lparr>offset := k + 1\<rparr>)"
        using C1 k1 ok(2) by (simp_all add: same_input_len)
      from buffer_skip_whitespace_ok [OF this] obtain m where
        m: "buffer_skip_whitespace (b1\<lparr>offset := k + 1\<rparr>) = Some (b1\<lparr>offset := m\<rparr>)" "k + 1 \<le> m" "m < len b1" by auto
      let ?b3 = "b1\<lparr>offset := m\<rparr>"
      have eq: "parse_member pv item b h = pv item ?b3 ?h2"
        using ok(1) k(1) u n2 True m(1) by (simp add: parse_member_def advance_def)
      have bl: "blank ?i" using i(2) by (simp add: blank_def)
      have "parsed_value ?h2 ?b3 item ?i (pv item ?b3 ?h2)"
        by (rule parse) (use C1 m d ok(3) wf2 i2 bl in simp_all)
      then show ?thesis
      proof (cases rule: parsed_valueE)
        case F: (fail b' h')
        have sb: "same_input b b'" using same_input_trans [OF ok(2)] F(2) by simp
        show ?thesis unfolding eq
          by (rule parsed_elementI [OF F(1) sb _ F(4) _ _ _ failed [OF F(6)]])
            (use F(3,5) ok(2,7) d(1) in \<open>simp_all add: same_input_len\<close>)
      next
        case V: (ok b' h' vs ks)
        have sb: "same_input b b'" using same_input_trans [OF ok(2)] V(2) by simp
        have pl: "load p ?h2 \<noteq> None" using s2 str_at_live by fastforce
        have pn: "p \<notin> set (ptrs vs @ foot ks)" using V(8) pl by (auto simp: filled_def)
        then have "load p h' = load p ?h2" using V(8) ok(8) by (auto simp: filled_def)
        then have sk: "str_at h' (Some (p, t))" using s2 by (subst str_at_cong [of _ _ ?h2]) auto
        from filled_built [OF V(8), of "Some (p, t)"] sk pl ok(8) i2 obtain ty vi vd where
          t: "items_at h' (iprev i) [JT item ty vs vi vd (Some (p, t)) ks] (inext i)"
          "plain [JT item ty vs vi vd (Some (p, t)) ks]"
          "distinct (foot [JT item ty vs vi vd (Some (p, t)) ks])" by auto
        have fr: "load q h = None" if "q \<in> set (ptrs vs @ foot ks)" for q
        proof -
          have "load q ?h2 = None" using V(8) that by (auto simp: filled_def)
          then have "q \<noteq> item" "load q h1 = None" using l2 [of q] by (auto split: if_splits)
          moreover have "q \<noteq> p" using that pn by blast
          ultimately show ?thesis using ok(13) by simp
        qed
        have same: "load q h' = load q h" if "q \<noteq> item" "q \<noteq> p" "q \<notin> set (ptrs vs @ foot ks)" for q
          using V(8) l2 [of q] ok(13) [of q] that by (auto simp: filled_def)
        have bt: "built h h' i (JT item ty vs vi vd (Some (p, t)) ks)"
          unfolding built_def using t fr same ok(10) by auto
        show ?thesis unfolding eq
          by (rule parsed_elementI [OF V(1) sb _ V(3) _ _ _ bt])
            (use V ok m k in \<open>simp_all add: same_input_len\<close>)
      qed
    qed
  qed
qed

context value_parsing
begin

lemma element_parser: "element_parsing pv ready"
  by (rule element.element_parsing_axioms)

lemma member_parser: "element_parsing (parse_member pv) ready"
  by (rule member.element_parsing_axioms)

end

subsection \<open>The list of elements\<close>

text \<open>Since \<open>h0\<close> exactly the plain chain \<open>ts\<close> has been allocated.\<close>

definition grown :: "jheap \<Rightarrow> jheap \<Rightarrow> jtree list \<Rightarrow> bool" where
  "grown h0 h ts \<longleftrightarrow> wf_heap h \<and> items_at h NULL ts NULL \<and> plain ts \<and> distinct (foot ts) \<and>
     (\<forall>q \<in> set (foot ts). load q h0 = None) \<and> (\<forall>q. q \<notin> set (foot ts) \<longrightarrow> load q h = load q h0)"

lemma items_at_relink:
  assumes I: "items_at h a (us @ [t]) b" and pl: "plain (us @ [t])" and ds: "distinct (foot (us @ [t]))"
  shows "\<exists>i. load_item (jaddr t) h = Some i \<and>
    items_at (setj (jaddr t) (ItemC (i\<lparr>inext := n\<rparr>)) h) a (us @ [t]) n"
proof -
  obtain p ty vs vi vd k ks where t: "t = JT p ty vs vi vd k ks" by (cases t)
  from I t obtain i where i: "load_item p h = Some i" and I': "items_at h a us p" "items_at h NULL ks NULL"
    "str_at h vs" "str_at h k" and ie: "i = \<lparr>inext = b, iprev = last_addr a us, child = first_addr ks NULL,
      itype = ty, valuestring = ptr_of vs, valueint = vi, valuedouble = vd, key = ptr_of k\<rparr>"
    by (auto simp: items_at_append)
  have pn: "p \<noteq> NULL" by (rule load_item_not_NULL [OF i])
  have "p \<notin> set (blocks us)" "p \<notin> set (blocks ks)" "p \<notin> set (ptrs vs)" "p \<notin> set (ptrs k)"
    using ds pl plain_foot [of us] plain_foot [of ks] t by (auto simp: foot_append)
  moreover from this have "items_at (setj p (ItemC (i\<lparr>inext := n\<rparr>)) h) a us p = items_at h a us p"
    "items_at (setj p (ItemC (i\<lparr>inext := n\<rparr>)) h) NULL ks NULL = items_at h NULL ks NULL"
    "str_at (setj p (ItemC (i\<lparr>inext := n\<rparr>)) h) vs = str_at h vs"
    "str_at (setj p (ItemC (i\<lparr>inext := n\<rparr>)) h) k = str_at h k"
    using pn by (auto intro!: items_at_cong str_at_cong simp: load_setj)
  ultimately show ?thesis using i I' ie pn t
    by (auto simp: items_at_append load_item_setj)
qed

lemma attach_new_cases:
  assumes G: "grown h0 h ts"
  obtains (fail) h' where "attach_new (first_addr ts NULL) (last_addr NULL ts) h = Some (None, h')"
      "grown h0 h' ts" "brk h \<le> brk h'"
  | (ok) n h' where "attach_new (first_addr ts NULL) (last_addr NULL ts) h = Some (Some (first_addr ts n, n), h')"
      "wf_heap h'" "brk h \<le> brk h'" "n \<noteq> NULL" "load n h0 = None" "n \<notin> set (foot ts)" "items_at h' NULL ts n"
      "load_item n h' = Some (empty_item\<lparr>iprev := last_addr NULL ts\<rparr>)"
      "\<And>q. q \<notin> set (foot ts) \<Longrightarrow> q \<noteq> n \<Longrightarrow> load q h' = load q h0"
proof (cases "alloc_fails h")
  case True
  then have "attach_new (first_addr ts NULL) (last_addr NULL ts) h = Some (None, h\<lparr>oom := tl (oom h)\<rparr>)"
    by (simp add: attach_new_def cJSON_New_Item_def malloc_alloc_fails)
  moreover have "grown h0 (h\<lparr>oom := tl (oom h)\<rparr>) ts"
    using G items_at_cong [of ts "h\<lparr>oom := tl (oom h)\<rparr>" h] by (auto simp: grown_def wf_heap_def)
  ultimately show ?thesis by (intro fail) auto
next
  case False
  have wf: "wf_heap h" and I: "items_at h NULL ts NULL" and pl: "plain ts" and ds: "distinct (foot ts)"
    and fr: "\<forall>q \<in> set (foot ts). load q h0 = None" and un: "\<forall>q. q \<notin> set (foot ts) \<longrightarrow> load q h = load q h0"
    using G by (auto simp: grown_def)
  let ?n = "brk h"
  define h1 where "h1 = snd (malloc (ItemC empty_item) h)"
  have m: "malloc (ItemC empty_item) h = (?n, h1)" using malloc_succeeds [OF False] by (simp add: h1_def)
  have n: "?n \<noteq> NULL" "load ?n h = None" using wf_heap_brk_pos [OF wf] wf_heap_fresh [OF wf] by auto
  have l1: "load q h1 = (if q = ?n then Some (ItemC empty_item) else load q h)" for q
    using n malloc_succeeds [OF False] by (simp add: h1_def load_def)
  have wf1: "wf_heap h1" by (rule wf_heap_malloc [OF wf m])
  have b1: "brk h \<le> brk h1" using malloc_succeeds [OF False] by (simp add: h1_def)
  have nf: "?n \<notin> set (foot ts)" using items_at_live [OF I] foot_blocks n(2) by blast
  have n0: "load ?n h0 = None" using un nf n(2) by metis
  show ?thesis
  proof (cases ts rule: rev_cases)
    case Nil
    show ?thesis
    proof (rule ok [of ?n h1])
      show "attach_new (first_addr ts NULL) (last_addr NULL ts) h = Some (Some (first_addr ts ?n, ?n), h1)"
        using Nil n m by (simp add: attach_new_def cJSON_New_Item_def)
    qed (use Nil n n0 nf wf1 b1 l1 un in \<open>simp_all add: load_item_def empty_item_def\<close>)
  next
    case (snoc us t)
    have tb: "jaddr t \<in> set (blocks ts)" by (cases t) (simp add: snoc blocks_append)
    have nb: "?n \<notin> set (blocks ts)" using nf plain_foot [OF pl] by simp
    then have tn: "jaddr t \<noteq> ?n" using tb by metis
    have "items_at h1 NULL ts NULL = items_at h NULL ts NULL"
      by (rule items_at_cong) (use l1 nb in auto)
    with I snoc have I1: "items_at h1 NULL (us @ [t]) NULL" by simp
    from items_at_relink [OF I1, of ?n] pl ds snoc obtain i where
      i: "load_item (jaddr t) h1 = Some i"
      "items_at (setj (jaddr t) (ItemC (i\<lparr>inext := ?n\<rparr>)) h1) NULL (us @ [t]) ?n" by auto
    let ?h2 = "setj (jaddr t) (ItemC (i\<lparr>inext := ?n\<rparr>)) h1"
    let ?i = "empty_item\<lparr>iprev := jaddr t\<rparr>"
    let ?h3 = "setj ?n (ItemC ?i) ?h2"
    have t0: "jaddr t \<noteq> NULL" by (rule load_item_not_NULL [OF i(1)])
    have n2: "load_item ?n ?h2 = Some empty_item" using l1 [of ?n] tn t0 by (simp add: load_item_Some_iff load_setj)
    have hd: "first_addr ts NULL \<noteq> NULL" using first_addr_NULL [OF I] snoc by simp
    have at: "attach_new (first_addr ts NULL) (last_addr NULL ts) h = Some (Some (first_addr ts ?n, ?n), ?h3)"
      using hd n m upd_item_Some [OF i(1)] upd_item_Some [OF n2] snoc
      by (simp add: attach_new_def cJSON_New_Item_def)
    have l3: "load q ?h3 = (if q = ?n then Some (ItemC ?i) else if q = jaddr t then Some (ItemC (i\<lparr>inext := ?n\<rparr>)) else load q h)" for q
      using n t0 l1 by (simp add: load_setj)
    show ?thesis
    proof (rule ok [OF at])
      have "items_at ?h3 NULL ts ?n = items_at ?h2 NULL ts ?n"
        by (rule items_at_cong) (use nb n in \<open>auto simp: load_setj\<close>)
      with i(2) snoc show "items_at ?h3 NULL ts ?n" by simp
      show "load_item ?n ?h3 = Some (empty_item\<lparr>iprev := last_addr NULL ts\<rparr>)"
        using l3 [of ?n] snoc by (simp add: load_item_def)
      show "wf_heap ?h3"
        by (rule wf_heap_setj [OF wf_heap_setj [OF wf1]]) (use i(1) n2 in \<open>simp_all add: load_item_Some_iff\<close>)
      show "load q ?h3 = load q h0" if "q \<notin> set (foot ts)" "q \<noteq> ?n" for q
        using l3 [of q] that un tb plain_foot [OF pl] by auto
    qed (use n n0 nf b1 in simp_all)
  qed
qed

text \<open>Appending an element that was built in place.\<close>

lemma grown_snoc:
  assumes G: "grown h0 h ts" and I: "items_at h1 NULL ts n" and n: "load n h0 = None" "n \<notin> set (foot ts)"
    and i: "iprev i = last_addr NULL ts" "inext i = NULL" and li: "load_item n h1 = Some i"
    and un: "\<And>q. q \<notin> set (foot ts) \<Longrightarrow> q \<noteq> n \<Longrightarrow> load q h1 = load q h0"
    and B: "built h1 h2 i t" "jaddr t = n" and wf: "wf_heap h2"
  shows "grown h0 h2 (ts @ [t])"
proof -
  have pl: "plain ts" and ds: "distinct (foot ts)" and fr: "\<forall>q \<in> set (foot ts). load q h0 = None"
    using G by (auto simp: grown_def)
  have dis: "q \<notin> set (foot ts) \<and> load q h0 = None" if "q \<in> set (foot [t])" for q
  proof (cases "q = n")
    case False
    then have f: "load q h1 = None" using B that by (auto simp: built_def)
    then have "q \<notin> set (foot ts)" using items_at_live [OF I] foot_blocks by blast
    with f False show ?thesis using un [of q] by simp
  qed (use n in simp)
  have keep: "load q h2 = load q h1" if "q \<notin> set (foot [t])" for q using B(1) that by (simp add: built_def)
  have "items_at h2 NULL ts n = items_at h1 NULL ts n"
    by (rule items_at_cong, rule keep) (use dis plain_foot [OF pl] in blast)
  moreover have "first_addr [t] NULL = n" using B(2) by simp
  ultimately have "items_at h2 NULL (ts @ [t]) NULL"
    using I B(1) i by (simp add: items_at_append built_def)
  moreover have "distinct (foot (ts @ [t]))" using ds B(1) dis by (auto simp: foot_append built_def)
  moreover have "load q h2 = load q h0" if "q \<notin> set (foot (ts @ [t]))" for q
  proof -
    have "n \<in> set (foot [t])" using B(2) by (cases t) auto
    then show ?thesis using that keep [of q] un [of q] by (auto simp: foot_append)
  qed
  ultimately show ?thesis using wf pl B(1) fr dis by (auto simp: grown_def built_def foot_append)
qed

context element_parsing
begin

lemma parse_elements_ok:
  "grown h0 h ts \<Longrightarrow> brk h0 \<le> brk h \<Longrightarrow> content_ok b \<Longrightarrow> offset b + 1 < len b \<Longrightarrow>
   depth b \<le> CJSON_NESTING_LIMIT \<Longrightarrow> ready (depth b) \<Longrightarrow> height ts \<le> 1 + CJSON_NESTING_LIMIT - depth b \<Longrightarrow>
   \<exists>ok b' h' ts'. parse_elements pe (first_addr ts NULL) (last_addr NULL ts) b h =
       Some (ok, first_addr ts' NULL, b', h') \<and> grown h0 h' ts' \<and> brk h0 \<le> brk h' \<and> same_input b b' \<and>
     offset b' \<le> len b \<and> height ts' \<le> 1 + CJSON_NESTING_LIMIT - depth b \<and>
     (ok \<longrightarrow> offset b < offset b' \<and> offset b' < len b \<and> depth b' = depth b)"
proof (induction "len b - offset b" arbitrary: b h ts rule: less_induct)
  case less
  note G = less.prems(1)
  note unf = parse_elements.simps [of pe "first_addr ts NULL" "last_addr NULL ts" b h]
  from G show ?case
  proof (cases rule: attach_new_cases)
    case (fail h')
    then have "parse_elements pe (first_addr ts NULL) (last_addr NULL ts) b h = Some (False, first_addr ts NULL, b, h')"
      by (simp add: unf)
    then show ?thesis using fail less.prems by (intro exI [of _ False] exI [of _ b] exI [of _ h'] exI [of _ ts]) simp
  next
    case (ok n h1)
    let ?b1 = "b\<lparr>offset := offset b + 1\<rparr>" and ?i = "empty_item\<lparr>iprev := last_addr NULL ts\<rparr>"
    from buffer_skip_whitespace_ok [of ?b1] less.prems(3,4) obtain k where
      k: "buffer_skip_whitespace ?b1 = Some (b\<lparr>offset := k\<rparr>)" "offset b + 1 \<le> k" "k < len b" by auto
    let ?b2 = "b\<lparr>offset := k\<rparr>"
    have i: "blank ?i" "key ?i = NULL" "iprev ?i = last_addr NULL ts" "inext ?i = NULL"
      by (simp_all add: blank_def empty_item_def is_reference_def string_is_const_def ctype_defs)
    have "parsed_element h1 ?b2 n ?i (pe n ?b2 h1)"
      by (rule parse) (use less.prems k ok i in simp_all)
    then obtain okv b' h' t where r: "pe n ?b2 h1 = Some (okv, b', h')" "same_input b b'"
      "offset b' \<le> len b" "wf_heap h'" "brk h1 \<le> brk h'"
      "okv \<longrightarrow> k < offset b' \<and> offset b' < len b \<and> depth b' = depth b"
      "jaddr t = n" "built h1 h' ?i t" "height [t] \<le> 1 + CJSON_NESTING_LIMIT - depth b"
      unfolding parsed_element_def by auto
    have G': "grown h0 h' (ts @ [t])"
      by (rule grown_snoc [OF G ok(7,5,6) i(3,4) ok(8,9) r(8,7,4)])
    have f: "first_addr (ts @ [t]) NULL = first_addr ts n" "last_addr NULL (ts @ [t]) = n" using r(7) by simp_all
    have hts: "height (ts @ [t]) \<le> 1 + CJSON_NESTING_LIMIT - depth b" using less.prems(7) r(9) by (simp add: height_append)
    have bb: "brk h0 \<le> brk h'" using less.prems(2) ok(3) r(5) by simp
    have step: "parse_elements pe (first_addr ts NULL) (last_addr NULL ts) b h =
        (if \<not> okv then Some (False, first_addr ts n, b', h')
         else do {
           b \<leftarrow> buffer_skip_whitespace b';
           comma \<leftarrow> next_is 44 b;
           (if comma then parse_elements pe (first_addr ts n) n b h' else Some (True, first_addr ts n, b, h')) })"
      using ok(1) k(1) r(1) by (simp add: unf advance_def cong: if_cong)
    show ?thesis
    proof (cases okv)
      case False
      then show ?thesis using step r(2,3) G' bb hts f
        by (intro exI [of _ False] exI [of _ b'] exI [of _ h'] exI [of _ "ts @ [t]"]) simp
    next
      case True
      have C': "content_ok b'" "offset b' < len b'" "len b' = len b"
        using less.prems(3) r(2,6) True by (simp_all add: same_input_content_ok same_input_len)
      from buffer_skip_whitespace_ok [OF C'(1,2)] obtain m where
        m: "buffer_skip_whitespace b' = Some (b'\<lparr>offset := m\<rparr>)" "offset b' \<le> m" "m < len b'" by blast
      let ?b3 = "b'\<lparr>offset := m\<rparr>"
      have ni: "next_is 44 ?b3 = Some (content b' ! m = 44)" using next_is_ok [of ?b3 44] C' m by simp
      have o: "offset b < m" "m < len b" using k(2) r(6) True m C' by simp_all
      have sb: "same_input b ?b3" "depth ?b3 = depth b" using r(2,6) True by simp_all
      show ?thesis
      proof (cases "content b' ! m = 44")
        case False
        then show ?thesis using step True m(1) ni G' bb hts f o sb
          by (intro exI [of _ True] exI [of _ ?b3] exI [of _ h'] exI [of _ "ts @ [t]"]) simp
      next
        case comma: True
        have m1: "m + 1 < len b" using byte_less [OF less.prems(3) sb(1), of 44] ni comma o by simp
        have "\<exists>ok b'' h'' ts'. parse_elements pe (first_addr (ts @ [t]) NULL) (last_addr NULL (ts @ [t])) ?b3 h' =
            Some (ok, first_addr ts' NULL, b'', h'') \<and> grown h0 h'' ts' \<and> brk h0 \<le> brk h'' \<and> same_input ?b3 b'' \<and>
          offset b'' \<le> len ?b3 \<and> height ts' \<le> 1 + CJSON_NESTING_LIMIT - depth ?b3 \<and>
          (ok \<longrightarrow> offset ?b3 < offset b'' \<and> offset b'' < len ?b3 \<and> depth b'' = depth ?b3)"
          by (rule less.hyps [OF _ G']) (use o C' m1 sb less.prems(5,6) hts bb in simp_all)
        then obtain ok' b'' h'' ts' where
          R: "parse_elements pe (first_addr ts n) n ?b3 h' = Some (ok', first_addr ts' NULL, b'', h'')"
            "grown h0 h'' ts'" "brk h0 \<le> brk h''" "same_input ?b3 b''"
            "offset b'' \<le> len b" "height ts' \<le> 1 + CJSON_NESTING_LIMIT - depth b"
            "ok' \<longrightarrow> m < offset b'' \<and> offset b'' < len b \<and> depth b'' = depth b"
          using f C'(3) sb(2) by auto
        have "parse_elements pe (first_addr ts NULL) (last_addr NULL ts) b h = Some (ok', first_addr ts' NULL, b'', h'')"
          using step True m(1) ni comma R(1) by simp
        moreover have "same_input b b''" by (rule same_input_trans [OF sb(1) R(4)])
        ultimately show ?thesis using R o
          by (intro exI [of _ ok'] exI [of _ b''] exI [of _ h''] exI [of _ ts']) auto
      qed
    qed
  qed
qed

lemma parse_list_ok:
  assumes C: "content_ok b" and o: "offset b + 1 < len b" and d: "depth b = Suc d" "d < CJSON_NESTING_LIMIT"
    and rd: "ready (depth b)" and wf: "wf_heap h" and i: "load_item item h = Some i" and bl: "blank i"
    and close: "close \<noteq> 0" and ty: "\<not> is_reference ty" "\<not> string_is_const ty"
  shows "parsed_value h (b\<lparr>depth := d\<rparr>) item i (parse_list pe close ty item b h)"
proof -
  let ?b1 = "b\<lparr>offset := offset b + 1\<rparr>"
  from buffer_skip_whitespace_ok [of ?b1] C o obtain k where
    k: "buffer_skip_whitespace ?b1 = Some (b\<lparr>offset := k\<rparr>)" "offset b + 1 \<le> k" "k < len b" by auto
  let ?b2 = "b\<lparr>offset := k\<rparr>"
  have ni: "next_is close ?b2 = Some (content b ! k = close)" using next_is_ok [of ?b2 close] C k by simp
  have acc: "can_access_at_index ?b2 0" using k by (simp add: can_access_at_index_def)
  have sbk: "step_back ?b2 = Some (b\<lparr>offset := k - 1\<rparr>)" using k by (simp add: step_back_def)
  have item: "item \<noteq> NULL" by (rule load_item_not_NULL [OF i])
  have fin: "parsed_value h (b\<lparr>depth := d\<rparr>) item i
      (do { h \<leftarrow> upd_item item (\<lambda>i. i\<lparr>itype := ty, child := first_addr ks NULL\<rparr>) h';
            Some (True, b'\<lparr>depth := depth b' - 1, offset := offset b' + 1\<rparr>, h) })"
    if G: "grown h h' ks" and br: "brk h \<le> brk h'" and ht: "height ks \<le> 1 + CJSON_NESTING_LIMIT - depth b"
      and b': "same_input b b'" "depth b' = depth b" "offset b < offset b'" "offset b' + 1 < len b" for b' h' ks
  proof -
    from G have G': "wf_heap h'" "items_at h' NULL ks NULL" "plain ks" "distinct (foot ks)"
      "\<forall>q \<in> set (foot ks). load q h = None" "\<forall>q. q \<notin> set (foot ks) \<longrightarrow> load q h' = load q h"
      by (auto simp: grown_def)
    have nf: "item \<notin> set (foot ks)" using G'(5) i by (auto simp: load_item_Some_iff)
    then have i': "load_item item h' = Some i" using G'(6) i load_item_cong [of item h' h] by simp
    let ?j = "i\<lparr>itype := ty, child := first_addr ks NULL\<rparr>"
    let ?h = "setj item (ItemC ?j) h'"
    have l: "load q ?h = (if q = item then Some (ItemC ?j) else load q h')" for q using item by (simp add: load_setj)
    have "items_at ?h NULL ks NULL = items_at h' NULL ks NULL"
      by (rule items_at_cong) (use l nf plain_foot [OF G'(3)] in auto)
    moreover have "load_item item ?h = Some (i\<lparr>itype := ty, valuestring := ptr_of None, valueint := valueint i,
        valuedouble := valuedouble i, child := first_addr ks NULL\<rparr>)"
      using l [of item] bl by (simp add: load_item_Some_iff blank_def)
    ultimately have F: "filled h ?h item i None ks"
      unfolding filled_def using G'(2-6) l ty
      by (intro conjI exI [of _ ty] exI [of _ "valueint i"] exI [of _ "valuedouble i"]) simp_all
    show ?thesis
    proof (rule parsed_valueI [where vs = None and ks = ks])
      show "do { h \<leftarrow> upd_item item (\<lambda>i. i\<lparr>itype := ty, child := first_addr ks NULL\<rparr>) h';
            Some (True, b'\<lparr>depth := depth b' - 1, offset := offset b' + 1\<rparr>, h) } =
          Some (True, b'\<lparr>depth := depth b' - 1, offset := offset b' + 1\<rparr>, ?h)"
        by (simp add: upd_item_Some [OF i'])
      show "wf_heap ?h" by (rule wf_heap_setj [OF G'(1)]) (use i' in \<open>simp add: load_item_Some_iff\<close>)
    qed (use b' br F ht d in \<open>simp_all add: same_input_len\<close>)
  qed
  show ?thesis
  proof (cases "content b ! k = close")
    case True
    have "k + 1 < len b" using byte_less [OF C, of ?b2 close] ni True k close by simp
    moreover have "grown h h []" using wf by (simp add: grown_def)
    ultimately show ?thesis using fin [of h "[]" ?b2] k ni True d
      by (simp add: parse_list_def advance_def)
  next
    case False
    let ?b3 = "b\<lparr>offset := k - 1\<rparr>"
    have G0: "grown h h []" using wf by (simp add: grown_def)
    have "\<exists>ok b' h' ts'. parse_elements pe (first_addr [] NULL) (last_addr NULL []) ?b3 h =
       Some (ok, first_addr ts' NULL, b', h') \<and> grown h h' ts' \<and> brk h \<le> brk h' \<and> same_input ?b3 b' \<and>
     offset b' \<le> len ?b3 \<and> height ts' \<le> 1 + CJSON_NESTING_LIMIT - depth ?b3 \<and>
     (ok \<longrightarrow> offset ?b3 < offset b' \<and> offset b' < len ?b3 \<and> depth b' = depth ?b3)"
      by (rule parse_elements_ok [OF G0]) (use C k d rd in simp_all)
    then obtain ok b' h' ts where R: "parse_elements pe NULL NULL ?b3 h = Some (ok, first_addr ts NULL, b', h')"
      "grown h h' ts" "brk h \<le> brk h'" "same_input b b'" "offset b' \<le> len b"
      "height ts \<le> 1 + CJSON_NESTING_LIMIT - depth b"
      "ok \<longrightarrow> k - 1 < offset b' \<and> offset b' < len b \<and> depth b' = depth b" by auto
    have nb: "next_is close b' = Some (content b' ! offset b' = close)" if ok
      using next_is_ok [of b' close] R(4,7) C that by (simp add: same_input_content_ok same_input_len)
    have eq: "parse_list pe close ty item b h =
        (if ok \<and> content b' ! offset b' = close then
           do { h \<leftarrow> upd_item item (\<lambda>i. i\<lparr>itype := ty, child := first_addr ts NULL\<rparr>) h';
                Some (True, b'\<lparr>depth := depth b' - 1, offset := offset b' + 1\<rparr>, h) }
         else do { h \<leftarrow> (if first_addr ts NULL \<noteq> NULL then cJSON_Delete (first_addr ts NULL) h' else Some h');
                   Some (False, b', h) })"
      using k(1) ni False acc sbk R(1) nb by (cases ok) (simp_all add: parse_list_def advance_def)
    show ?thesis
    proof (cases "ok \<and> content b' ! offset b' = close")
      case True
      then have "offset b' + 1 < len b"
        using byte_less [OF C R(4), of close] R(7) nb close by simp
      moreover have "offset b < offset b'" using R(7) True k(2) by linarith
      ultimately show ?thesis using fin [OF R(2,3,6,4)] R(7) True eq by simp
    next
      case False
      have I: "items_at h' NULL ts NULL" and wf': "wf_heap h'" and ds: "distinct (foot ts)"
        and fr: "\<forall>q \<in> set (foot ts). load q h = None" "\<forall>q. q \<notin> set (foot ts) \<longrightarrow> load q h' = load q h"
        using R(2) by (auto simp: grown_def)
      have "cJSON_Delete (first_addr ts NULL) h' = Some (clr_all (foot ts) h')"
        by (rule cJSON_Delete_owned [OF items_owned [OF I] ds])
      then have "parse_list pe close ty item b h = Some (False, b', clr_all (foot ts) h')"
        using eq False first_addr_NULL [OF I] by auto
      then show ?thesis
        by (rule parsed_valueI)
          (use R(3-5) fr wf' in \<open>auto simp: load_clr_all wf_heap_def\<close>)
    qed
  qed
qed

end

end
