(* ===== verification/CJsonParseOk.thy ===== *)
theory CJsonParseOk
  imports CJsonSafe
begin

text \<open>
  \<open>parse_value\<close> meets the contract of a value parser, by induction on the nesting bound; from it the
  contract of \<open>cJSON_ParseWithOpts\<close>.
\<close>

subsection \<open>Scalars\<close>

lemma filled_scalar:
  assumes "load_item item h = Some i" and "blank i" and "\<not> is_reference ty" "\<not> string_is_const ty"
  shows "filled h (setj item (ItemC (i\<lparr>itype := ty, valueint := vi, valuedouble := vd\<rparr>)) h) item i None []"
  unfolding filled_def using assms load_item_not_NULL [OF assms(1)]
  by (intro conjI exI [of _ ty] exI [of _ vi] exI [of _ vd]) (simp_all add: load_item_setj load_setj blank_def)

lemma parsed_scalar:
  assumes r: "r = Some (True, advance n b, setj item (ItemC (i\<lparr>itype := ty, valueint := vi, valuedouble := vd\<rparr>)) h)"
    and wf: "wf_heap h" and i: "load_item item h = Some i" "blank i" and ty: "\<not> is_reference ty" "\<not> string_is_const ty"
    and n: "0 < n" "offset b + n < len b" and d: "depth b \<le> CJSON_NESTING_LIMIT"
  shows "parsed_value h b item i r"
  by (rule parsed_valueI [OF r, where vs = None and ks = "[]"])
    (use n d filled_scalar [OF i ty] wf_heap_setj [OF wf] i(1)
     in \<open>simp_all add: advance_def load_item_Some_iff\<close>)

lemma scalar_types [simp]:
  "\<not> is_reference cJSON_NULL" "\<not> string_is_const cJSON_NULL" "\<not> is_reference cJSON_False"
  "\<not> string_is_const cJSON_False" "\<not> is_reference cJSON_True" "\<not> string_is_const cJSON_True"
  "\<not> is_reference cJSON_Number" "\<not> string_is_const cJSON_Number" "\<not> is_reference cJSON_Array"
  "\<not> string_is_const cJSON_Array" "\<not> is_reference cJSON_Object" "\<not> string_is_const cJSON_Object"
  by (simp_all add: is_reference_def string_is_const_def ctype_defs)

lemma at_text_less:
  assumes "content_ok b" and "at_text (s @ [c]) b" and "c \<noteq> 0"
  shows "offset b + length s + 1 < len b"
proof -
  have "drop (offset b) (content b) = s @ c # drop (length (s @ [c])) (drop (offset b) (content b))"
    using assms(2) append_take_drop_id [of "length (s @ [c])" "drop (offset b) (content b)"]
    by (simp add: at_text_def)
  from content_ok_less [OF assms(1) this assms(3)] show ?thesis .
qed

lemma parse_number_ok:
  assumes C: "content_ok b" and wf: "wf_heap h" and i: "load_item item h = Some i" "blank i"
    and d: "depth b \<le> CJSON_NESTING_LIMIT" and o: "offset b < len b"
  shows "parsed_value h b item i (parse_number item b h)"
proof -
  let ?s = "number_c_string b"
  obtain v n where sn: "strtod ?s = (v, n)" by fastforce
  show ?thesis
  proof (cases "n = 0")
    case True
    then have "parse_number item b h = Some (False, b, h)" by (simp add: parse_number_def sn)
    then show ?thesis by (rule parsed_valueI) (use o wf in simp_all)
  next
    case False
    have nan: "\<not> f64_nan v" and nl: "n \<le> length ?s" using strtod_ok [of ?s] sn by simp_all
    from int_of_number_defined [OF nan] obtain vi where vi: "int_of_number v = Some vi" by blast
    obtain r where r: "drop (offset b) (content b) = ?s @ r"
      unfolding number_c_string_def by (metis takeWhile_dropWhile_id append_take_drop_id append.assoc)
    have "?s = take (n - 1) ?s @ ?s ! (n - 1) # drop n ?s"
      using id_take_nth_drop [of "n - 1" ?s] False nl by simp
    with r have "drop (offset b) (content b) = take (n - 1) ?s @ ?s ! (n - 1) # drop n ?s @ r"
      by (metis append.assoc append_Cons)
    moreover have "number_char (?s ! (n - 1))"
      using set_takeWhileD [of "?s ! (n - 1)" number_char] nth_mem [of "n - 1" ?s] False nl
      unfolding number_c_string_def by fastforce
    then have "?s ! (n - 1) \<noteq> 0" by (auto simp: number_char_def)
    ultimately have "offset b + length (take (n - 1) ?s) + 1 < len b" by (rule content_ok_less [OF C])
    then have on: "offset b + n < len b" using False nl by simp
    have item: "item \<noteq> NULL" by (rule load_item_not_NULL [OF i(1)])
    have "parse_number item b h =
        Some (True, advance n b, setj item (ItemC (i\<lparr>itype := cJSON_Number, valueint := vi, valuedouble := v\<rparr>)) h)"
      using sn False vi i(1) item
      by (cases i) (simp add: parse_number_def upd_item_Some load_item_setj setj_setj)
    then show ?thesis by (rule parsed_scalar [OF _ wf i]) (use False on d in simp_all)
  qed
qed

subsection \<open>\<open>parse_value\<close>\<close>

lemma parsed_string_value:
  assumes C: "content_ok b" and o: "offset b < len b" and wf: "wf_heap h" and i: "load_item item h = Some i" "blank i"
    and d: "depth b \<le> CJSON_NESTING_LIMIT"
  shows "parsed_value h b item i (parse_string item b h)"
  using C o wf i(1)
proof (cases rule: parse_string_cases)
  case (fail b' h')
  then show ?thesis by (intro parsed_valueI [OF fail(1)]) simp_all
next
  case (ok b' h' p t)
  have "filled h h' item i (Some (p, t)) []"
    unfolding filled_def using ok i(2)
    by (intro conjI exI [of _ cJSON_String] exI [of _ "valueint i"] exI [of _ "valuedouble i"])
      (simp_all add: blank_def)
  then show ?thesis
    by (intro parsed_valueI [OF ok(1), where vs = "Some (p, t)" and ks = "[]"]) (use ok d in simp_all)
qed

lemma value_parsing_parse_value:
  "value_parsing (parse_value n) (\<lambda>d. CJSON_NESTING_LIMIT < d + n)"
proof (induction n)
  case 0
  show ?case by unfold_locales simp
next
  case (Suc n)
  show ?case
  proof
    fix b h item i
    assume C: "content_ok b" and o: "offset b < len b" and d: "depth b \<le> CJSON_NESTING_LIMIT"
      and rd: "CJSON_NESTING_LIMIT < depth b + Suc n" and wf: "wf_heap h"
      and i: "load_item item h = Some i" "blank i"
    have item: "item \<noteq> NULL" by (rule load_item_not_NULL [OF i(1)])
    have acc: "can_access_at_index b 0" using o by (simp add: can_access_at_index_def)
    obtain c where c: "cur_byte b = Some c" "content b ! offset b = c" using C o
      by (simp add: cur_byte_def byte_at_def content_ok_def)
    have rest: "parsed_value h b item i (parse_list pe close ty item (b\<lparr>depth := depth b + 1\<rparr>) h)"
      if "element_parsing pe (\<lambda>d. CJSON_NESTING_LIMIT < d + n)" "c \<noteq> 0" "close \<noteq> 0" "depth b < CJSON_NESTING_LIMIT"
        "\<not> is_reference ty" "\<not> string_is_const ty" for pe close ty
    proof -
      have "offset b + 1 < len b" using byte_then_less [OF C o] c that by simp
      then have "parsed_value h (b\<lparr>depth := depth b + 1, depth := depth b\<rparr>) item i
          (parse_list pe close ty item (b\<lparr>depth := depth b + 1\<rparr>) h)"
        by (intro element_parsing.parse_list_ok [OF that(1)]) (use C that rd wf i in simp_all)
      then show ?thesis by simp
    qed
    have over: "parsed_value h b item i (Some (False, b, h))"
      by (rule parsed_valueI [OF refl]) (use o wf in simp_all)
    note elem = value_parsing.element_parser [OF Suc]
      and memb = value_parsing.member_parser [OF Suc]
    have cd: "cur_byte (b\<lparr>depth := depth b + 1\<rparr>) = Some c" using c(1) by (simp add: cur_byte_def byte_at_def split: if_splits)
    have arr: "parsed_value h b item i (parse_array (parse_value n) item b h)" if "c = 91"
      using rest [OF elem, of 93 cJSON_Array] that cd over by (auto simp: parse_array_def Let_def)
    have ni: "next_is 123 (b\<lparr>depth := depth b + 1\<rparr>) = Some (c = 123)"
      using next_is_ok [of "b\<lparr>depth := depth b + 1\<rparr>" 123] C o c by simp
    have obj: "parsed_value h b item i (parse_object (parse_value n) item b h)" if "c = 123"
      using rest [OF memb, of 125 cJSON_Object] that ni over by (auto simp: parse_object_def Let_def)
    show "parsed_value h b item i (parse_value (Suc n) item b h)"
    proof (cases "can_read b 4 \<and> at_text [110, 117, 108, 108] b")
      case True
      with at_text_less [OF C, of "[110, 117, 108]" 108] have lt: "offset b + 4 < len b" by simp
      have e: "parse_value (Suc n) item b h = Some (True, advance 4 b,
          setj item (ItemC (i\<lparr>itype := cJSON_NULL, valueint := valueint i, valuedouble := valuedouble i\<rparr>)) h)"
        using True i(1) by (auto simp: upd_item_Some)
      show ?thesis by (rule parsed_scalar [OF e wf i]) (use lt d in simp_all)
    next
      case nnull: False
      show ?thesis
      proof (cases "can_read b 5 \<and> at_text [102, 97, 108, 115, 101] b")
        case True
        with at_text_less [OF C, of "[102, 97, 108, 115]" 101] have lt: "offset b + 5 < len b" by simp
        have e: "parse_value (Suc n) item b h = Some (True, advance 5 b,
            setj item (ItemC (i\<lparr>itype := cJSON_False, valueint := valueint i, valuedouble := valuedouble i\<rparr>)) h)"
          using True nnull i(1) by (auto simp: upd_item_Some)
        show ?thesis by (rule parsed_scalar [OF e wf i]) (use lt d in simp_all)
      next
        case nfalse: False
        show ?thesis
        proof (cases "can_read b 4 \<and> at_text [116, 114, 117, 101] b")
          case True
          with at_text_less [OF C, of "[116, 114, 117]" 101] have lt: "offset b + 4 < len b" by simp
          have e: "parse_value (Suc n) item b h = Some (True, advance 4 b,
              setj item (ItemC (i\<lparr>itype := cJSON_True, valueint := 1, valuedouble := valuedouble i\<rparr>)) h)"
            using True nnull nfalse i(1) by (auto simp: upd_item_Some)
          show ?thesis by (rule parsed_scalar [OF e wf i]) (use lt d in simp_all)
        next
          case False
          then have "parse_value (Suc n) item b h =
              (if c = 34 then parse_string item b h
               else if c = 45 \<or> 48 \<le> c \<and> c \<le> 57 then parse_number item b h
               else if c = 91 then parse_array (parse_value n) item b h
               else if c = 123 then parse_object (parse_value n) item b h
               else Some (False, b, h))"
            using nnull nfalse acc c(1) by auto
          then show ?thesis
            using parsed_string_value [OF C o wf i d] parse_number_ok [OF C wf i d o] arr obj over by simp
        qed
      qed
    qed
  qed
qed

interpretation json: value_parsing "parse_value n" "\<lambda>d. CJSON_NESTING_LIMIT < d + n" for n
  by (rule value_parsing_parse_value)

subsection \<open>\<open>cJSON_ParseWithOpts\<close>\<close>

text \<open>The outcome of a parse of \<open>s\<close>: nothing left behind, or exactly the blocks of one tree.\<close>

definition parse_outcome :: "byte list \<Rightarrow> jheap \<Rightarrow> bool \<Rightarrow> addr \<Rightarrow> nat option \<Rightarrow> nat option \<Rightarrow> jheap \<Rightarrow> bool" where
  "parse_outcome s h return_parse_end item parse_end err h' \<longleftrightarrow>
     (if item = NULL then
        (\<forall>q. load q h' = load q h) \<and>
        (\<exists>k \<le> length s. err = Some k \<and> parse_end = (if return_parse_end then Some k else None))
      else
        (\<exists>t. jaddr t = item \<and> items_at h' NULL [t] NULL \<and> plain [t] \<and> distinct (foot [t]) \<and>
           height [t] \<le> 1 + CJSON_NESTING_LIMIT \<and> (\<forall>q \<in> set (foot [t]). load q h = None) \<and>
           (\<forall>q. q \<notin> set (foot [t]) \<longrightarrow> load q h' = load q h)) \<and>
        err = None \<and> (\<exists>k \<le> length s. parse_end = (if return_parse_end then Some k else None)))"

lemma parse_failure_ok:
  assumes L: "len b = Suc (length s)" and I: "items_at h1 NULL ts NULL" and ds: "distinct (foot ts)"
    and fr: "\<forall>q \<in> set (foot ts). load q h = None" "\<And>q. q \<notin> set (foot ts) \<Longrightarrow> load q h1 = load q h"
    and wf: "wf_heap h1"
  shows "\<exists>pe err h'. parse_failure (first_addr ts NULL) rpe b h1 = Some (NULL, pe, err, h') \<and> wf_heap h' \<and>
    parse_outcome s h rpe NULL pe err h'"
proof -
  let ?h = "clr_all (foot ts) h1" and ?k = "if offset b < len b then offset b else len b - 1"
  have "(if first_addr ts NULL \<noteq> NULL then cJSON_Delete (first_addr ts NULL) h1 else Some h1) = Some ?h"
    using cJSON_Delete_owned [OF items_owned [OF I] ds] first_addr_NULL [OF I] by auto
  then have "parse_failure (first_addr ts NULL) rpe b h1 = Some (NULL, if rpe then Some ?k else None, Some ?k, ?h)"
    using L by (simp add: parse_failure_def Let_def)
  moreover have "parse_outcome s h rpe NULL (if rpe then Some ?k else None) (Some ?k) ?h"
    using L fr by (auto simp: parse_outcome_def load_clr_all)
  moreover have "wf_heap ?h" using wf by (auto simp: wf_heap_def load_clr_all)
  ultimately show ?thesis by blast
qed

lemma cJSON_ParseWithOpts_outcome:
  assumes wf: "wf_heap h"
  shows "\<exists>item pe err h'. cJSON_ParseWithOpts (Some s) rpe rnt h = Some (item, pe, err, h') \<and> wf_heap h' \<and>
    parse_outcome s h rpe item pe err h'"
proof -
  let ?b = "\<lparr>content = s @ [0], len = length s + 1, offset = 0, depth = 0\<rparr>"
  have C: "content_ok \<lparr>content = s @ [0], len = Suc (length s), offset = j, depth = 0\<rparr>" for j
    by (simp add: content_ok_def)
  obtain p h0 where m: "cJSON_New_Item h = (p, h0)" by fastforce
  show ?thesis
  proof (cases "alloc_fails h")
    case True
    then have "p = NULL" "\<And>q. load q h0 = load q h" "wf_heap h0"
      using m wf by (auto simp: cJSON_New_Item_def malloc_alloc_fails wf_heap_def)
    with parse_failure_ok [of ?b s h0 "[]" h rpe] m show ?thesis by (simp add: cJSON_ParseWithOpts_def) blast
  next
    case False
    then have p: "p = brk h" and l0: "\<And>q. load q h0 = (if q = p then Some (ItemC empty_item) else load q h)"
      and wf0: "wf_heap h0"
      using m wf_heap_brk_pos [OF wf] wf_heap_malloc [OF wf, of "ItemC empty_item" p h0]
      by (auto simp: cJSON_New_Item_def malloc_succeeds load_def)
    have pn: "p \<noteq> NULL" and pf: "load p h = None" using wf_heap_brk_pos [OF wf] wf_heap_fresh [OF wf] p by auto
    have i: "load_item p h0 = Some empty_item" "blank empty_item"
      using l0 [of p] by (simp_all add: load_item_Some_iff blank_def empty_item_def is_reference_def string_is_const_def ctype_defs)
    obtain o1 where bom: "skip_utf8_bom ?b = Some (?b\<lparr>offset := o1\<rparr>)" "o1 \<le> length s"
      by (cases "can_access_at_index ?b 4 \<and> at_text [0xEF, 0xBB, 0xBF] ?b")
        (auto simp: skip_utf8_bom_def advance_def can_access_at_index_def)
    from buffer_skip_whitespace_ok [of "?b\<lparr>offset := o1\<rparr>"] C bom(2) obtain k where
      k: "buffer_skip_whitespace (?b\<lparr>offset := o1\<rparr>) = Some (?b\<lparr>offset := k\<rparr>)" "k \<le> length s" by auto
    let ?b1 = "?b\<lparr>offset := k\<rparr>"
    have "parsed_value h0 ?b1 p empty_item (parse_value (CJSON_NESTING_LIMIT + 1) p ?b1 h0)"
      by (rule json.parse) (use C k wf0 i in simp_all)
    then show ?thesis
    proof (cases rule: parsed_valueE)
      case (fail b' h1)
      let ?t = "JT p cJSON_Invalid None 0 0 None []"
      have lp: "load_item p h1 = Some empty_item" using i(1) load_item_cong [OF fail(6)] by simp
      then have "items_at h1 NULL [?t] NULL" by (simp add: empty_item_def)
      moreover have f: "foot [?t] = [p]" by simp
      ultimately have "\<exists>pe err h'. parse_failure p rpe b' h1 = Some (NULL, pe, err, h') \<and> wf_heap h' \<and>
          parse_outcome s h rpe NULL pe err h'"
        using parse_failure_ok [of b' s h1 "[?t]" h rpe] fail(2,4,6) l0 pf by (simp add: same_input_len)
      then show ?thesis using m pn bom k fail(1) by (auto simp: cJSON_ParseWithOpts_def)
    next
      case (ok b' h1 vs ks)
      from filled_built [OF ok(8), of None] i(1) obtain ty vi vd where
        t: "items_at h1 NULL [JT p ty vs vi vd None ks] NULL" "plain [JT p ty vs vi vd None ks]"
        "distinct (foot [JT p ty vs vi vd None ks])" by (auto simp: empty_item_def)
      let ?t = "JT p ty vs vi vd None ks"
      have fr: "load q h = None" if "q \<in> set (foot [?t])" for q
      proof (cases "q = p")
        case False
        then have "load q h0 = None" using ok(8) that by (auto simp: filled_def split: if_splits)
        then show ?thesis using l0 [of q] False by simp
      qed (use pf in simp)
      have un: "load q h1 = load q h" if "q \<notin> set (foot [?t])" for q
        using ok(8) l0 [of q] that t(2) by (auto simp: filled_def)
      have len': "len b' = length s + 1" using ok(2) by (simp add: same_input_len)
      have ht: "height [?t] \<le> 1 + CJSON_NESTING_LIMIT" using ok(9) by simp
      have fail': "\<exists>pe err h'. parse_failure p rpe b'' h1 = Some (NULL, pe, err, h') \<and> wf_heap h' \<and>
          parse_outcome s h rpe NULL pe err h'" if "len b'' = length s + 1" for b''
        using parse_failure_ok [OF _ t(1,3), of b'' s h rpe] that fr un ok(3) by simp
      have success: "parse_outcome s h rpe p (if rpe then Some (offset b'') else None) None h1"
        if "offset b'' \<le> length s" for b'' :: parse_buffer
        unfolding parse_outcome_def using that t ht fr un pn
        by (simp only: if_False) (intro conjI exI [of _ ?t], simp_all, auto)
      show ?thesis
      proof (cases rnt)
        case False
        then show ?thesis using m pn bom k ok(1,3,6) success [of b']
          by (auto simp: cJSON_ParseWithOpts_def)
      next
        case True
        have "content_ok b'" "offset b' < len b'" using C ok(2,6) len' by (simp_all add: same_input_content_ok)
        from buffer_skip_whitespace_ok [OF this] obtain j where
          j: "buffer_skip_whitespace b' = Some (b'\<lparr>offset := j\<rparr>)" "j < len b'" by blast
        have cj: "cur_byte (b'\<lparr>offset := j\<rparr>) = Some (content b' ! j)"
          using j(2) \<open>content_ok b'\<close> by (simp add: cur_byte_def byte_at_def content_ok_def)
        show ?thesis
        proof (cases "content b' ! j = 0")
          case True
          then show ?thesis using m pn bom k ok(1,3) success [of "b'\<lparr>offset := j\<rparr>"] \<open>rnt\<close> j cj len'
            by (auto simp: cJSON_ParseWithOpts_def)
        next
          case False
          then show ?thesis using m pn bom k ok(1) fail' [of "b'\<lparr>offset := j\<rparr>"] \<open>rnt\<close> j cj len'
            by (auto simp: cJSON_ParseWithOpts_def)
        qed
      qed
    qed
  qed
qed

end
