(* ===== verification/CJsonPrint.thy ===== *)
theory CJsonPrint
  imports CJson
begin

text \<open>
  The printer of \<open>cJSON.c\<close>.  The output buffer is a block of the heap; the record is the
  \<open>printbuffer\<close> of the code, whose \<open>length\<close> is the size of that block.  Functions return whether
  they succeeded, the buffer record and the heap.  A write outside the block, and a copy from beyond
  its end, are undefined.
\<close>

subsection \<open>The print buffer\<close>

record printbuffer =
  pbuffer :: addr
  plength :: nat
  poffset :: nat
  pdepth :: nat
  noalloc :: bool
  pformat :: bool
  phooks :: hooks

definition INT_MAX :: nat where
  "INT_MAX = 2147483647"

definition put_bytes :: "addr \<Rightarrow> nat \<Rightarrow> byte list \<Rightarrow> jheap \<Rightarrow> jheap option" where
  "put_bytes p i s h = do {
     b \<leftarrow> load_str p h;
     b \<leftarrow> pokes b i s;
     store p (StrC b) h }"

text \<open>Writing at the output pointer \<open>buffer + offset + i\<close>.\<close>

definition write_at :: "printbuffer \<Rightarrow> nat \<Rightarrow> byte list \<Rightarrow> jheap \<Rightarrow> jheap option" where
  "write_at p i s h = put_bytes (pbuffer p) (poffset p + i) s h"

text \<open>The exits of \<open>ensure\<close> after a failed allocation.\<close>

definition drop_buffer :: "printbuffer \<Rightarrow> jheap \<Rightarrow> (bool \<times> printbuffer \<times> jheap) option" where
  "drop_buffer p h = do {
     h \<leftarrow> free (pbuffer p) h;
     Some (False, p\<lparr>plength := 0, pbuffer := NULL\<rparr>, h) }"

definition ensure :: "printbuffer \<Rightarrow> nat \<Rightarrow> jheap \<Rightarrow> (bool \<times> printbuffer \<times> jheap) option" where
  "ensure p needed h =
     (if pbuffer p = NULL then Some (False, p, h)
      else if 0 < plength p \<and> plength p \<le> poffset p then Some (False, p, h)
      else if INT_MAX < needed then Some (False, p, h)
      else
        (let needed = needed + poffset p + 1 in
         if needed \<le> plength p then Some (True, p, h)
         else if noalloc p then Some (False, p, h)
         else if INT_MAX div 2 < needed \<and> INT_MAX < needed then Some (False, p, h)
         else
           (let newsize = (if INT_MAX div 2 < needed then INT_MAX else needed * 2) in
            if reallocate (phooks p) \<noteq> None then do {
              (newbuffer, h) \<leftarrow> realloc (pbuffer p) newsize h;
              (if newbuffer = NULL then drop_buffer p h
               else Some (True, p\<lparr>plength := newsize, pbuffer := newbuffer\<rparr>, h)) }
            else
              (let (newbuffer, h) = malloc (StrC (uninit newsize)) h in
               if newbuffer = NULL then drop_buffer p h
               else do {
                 b \<leftarrow> load_str (pbuffer p) h;
                 h \<leftarrow> (if poffset p + 1 \<le> length b
                       then store newbuffer (StrC (resize newsize (take (poffset p + 1) b))) h else None);
                 h \<leftarrow> free (pbuffer p) h;
                 Some (True, p\<lparr>plength := newsize, pbuffer := newbuffer\<rparr>, h) }))))"

definition update_offset :: "printbuffer \<Rightarrow> jheap \<Rightarrow> printbuffer option" where
  "update_offset p h =
     (if pbuffer p = NULL then Some p
      else do {
        b \<leftarrow> load_str (pbuffer p) h;
        s \<leftarrow> cstring_at b (poffset p);
        Some (p\<lparr>poffset := poffset p + length s\<rparr>) })"

text \<open>
  The pattern \<open>output = ensure(p, n); if (output == NULL) return false; \<dots>\<close>, followed by writing \<open>s\<close>
  at the output pointer and moving \<open>offset\<close> by \<open>k\<close>.
\<close>

definition emit :: "nat \<Rightarrow> byte list \<Rightarrow> nat \<Rightarrow> printbuffer \<Rightarrow> jheap \<Rightarrow> (bool \<times> printbuffer \<times> jheap) option" where
  "emit n s k p h = do {
     (ok, p, h) \<leftarrow> ensure p n h;
     (if \<not> ok then Some (False, p, h)
      else do {
        h \<leftarrow> write_at p 0 s h;
        Some (True, p\<lparr>poffset := poffset p + k\<rparr>, h) }) }"

subsection \<open>Scalars\<close>

text \<open>
  The text of a number as \<open>sprintf\<close> leaves it in \<open>number_buffer\<close>, which has 26 bytes.
\<close>

definition number_text :: "f64 \<Rightarrow> byte list" where
  "number_text d =
     (if f64_times_0_ne_0 d then [110, 117, 108, 108]
      else
        (let t = fmt_g 15 d; (test, n) = strtod t in
         if n = 0 \<or> \<not> f64_eq test d then fmt_g 17 d else t))"

definition print_number :: "item \<Rightarrow> printbuffer \<Rightarrow> jheap \<Rightarrow> (bool \<times> printbuffer \<times> jheap) option" where
  "print_number i p h =
     (let t = number_text (valuedouble i) in do {
      number_buffer \<leftarrow> pokes (uninit 26) 0 (t @ [0]);
      (if 25 < length t then Some (False, p, h)
       else emit (length t + 1) (t @ [0]) (length t) p h) })"

definition short_escape :: "byte \<Rightarrow> byte option" where
  "short_escape c =
     (if c = 92 \<or> c = 34 then Some c
      else if c = 8 then Some 98 else if c = 12 then Some 102 else if c = 10 then Some 110
      else if c = 13 then Some 114 else if c = 9 then Some 116 else None)"

text \<open>The counting loop.\<close>

fun escape_characters :: "byte list \<Rightarrow> nat" where
  "escape_characters [] = 0"
| "escape_characters (c # s) =
     (if short_escape c \<noteq> None then 1 else if c < 32 then 5 else 0) + escape_characters s"

definition hex_char :: "byte \<Rightarrow> byte" where
  "hex_char d = (if d < 10 then 48 + d else 87 + d)"

text \<open>\<open>"u%04x"\<close> of a byte.\<close>

definition u04x :: "byte \<Rightarrow> byte list" where
  "u04x c = [117, 48, 48, hex_char (c div 16), hex_char (c mod 16)]"

text \<open>The copying loop; \<open>sprintf\<close> also writes a terminator, which the next write replaces.\<close>

fun escape_into :: "byte list \<Rightarrow> printbuffer \<Rightarrow> nat \<Rightarrow> jheap \<Rightarrow> jheap option" where
  "escape_into [] p k h = Some h"
| "escape_into (c # s) p k h =
     (if 31 < c \<and> c \<noteq> 34 \<and> c \<noteq> 92 then do {
        h \<leftarrow> write_at p k [c] h;
        escape_into s p (k + 1) h }
      else do {
        h \<leftarrow> write_at p k [92] h;
        (case short_escape c of
           Some x \<Rightarrow> do {
             h \<leftarrow> write_at p (k + 1) [x] h;
             escape_into s p (k + 2) h }
         | None \<Rightarrow> do {
             h \<leftarrow> write_at p (k + 1) (u04x c @ [0]) h;
             escape_into s p (k + 6) h }) })"

definition print_string_ptr :: "addr \<Rightarrow> printbuffer \<Rightarrow> jheap \<Rightarrow> (bool \<times> printbuffer \<times> jheap) option" where
  "print_string_ptr input p h =
     (if input = NULL then emit 3 [34, 34, 0] 0 p h
      else do {
        s \<leftarrow> read_str input h;
        let output_length = length s + escape_characters s;
        (ok, p, h) \<leftarrow> ensure p (output_length + 3) h;
        (if \<not> ok then Some (False, p, h)
         else if escape_characters s = 0 then do {
           h \<leftarrow> write_at p 0 [34] h;
           s \<leftarrow> read_str input h;
           h \<leftarrow> write_at p 1 s h;
           h \<leftarrow> write_at p (output_length + 1) [34, 0] h;
           Some (True, p, h) }
         else do {
           h \<leftarrow> write_at p 0 [34] h;
           s \<leftarrow> read_str input h;
           h \<leftarrow> escape_into s p 1 h;
           h \<leftarrow> write_at p (output_length + 1) [34, 0] h;
           Some (True, p, h) }) })"

definition print_string :: "item \<Rightarrow> printbuffer \<Rightarrow> jheap \<Rightarrow> (bool \<times> printbuffer \<times> jheap) option" where
  "print_string i p h = print_string_ptr (valuestring i) p h"

subsection \<open>Arrays, objects and values\<close>

type_synonym value_printer = "addr \<Rightarrow> printbuffer \<Rightarrow> jheap \<Rightarrow> (bool \<times> printbuffer \<times> jheap) option"

partial_function (option) print_elements :: "value_printer \<Rightarrow> value_printer" where
  [code]: "print_elements pv current_element p h =
     (if current_element = NULL then Some (True, p, h)
      else do {
        r \<leftarrow> pv current_element p h;
        (if \<not> fst r then Some r
         else do {
           p \<leftarrow> update_offset (fst (snd r)) (snd (snd r));
           i \<leftarrow> load_item current_element (snd (snd r));
           r \<leftarrow> (if inext i \<noteq> NULL then
                   (let sep = (if pformat p then [44, 32] else [44]) in
                    emit (length sep + 1) (sep @ [0]) (length sep) p (snd (snd r)))
                 else Some (True, p, snd (snd r)));
           (if \<not> fst r then Some r
            else print_elements pv (inext i) (fst (snd r)) (snd (snd r))) }) })"

definition print_array :: "value_printer \<Rightarrow> item \<Rightarrow> printbuffer \<Rightarrow> jheap \<Rightarrow> (bool \<times> printbuffer \<times> jheap) option" where
  "print_array pv i p h = do {
     (ok, p, h) \<leftarrow> emit 1 [91] 1 p h;
     (if \<not> ok then Some (False, p, h)
      else do {
        (ok, p, h) \<leftarrow> print_elements pv (child i) (p\<lparr>pdepth := pdepth p + 1\<rparr>) h;
        (if \<not> ok then Some (False, p, h)
         else do {
           (ok, p, h) \<leftarrow> emit 2 [93, 0] 0 p h;
           Some (ok, if ok then p\<lparr>pdepth := pdepth p - 1\<rparr> else p, h) }) }) }"

text \<open>One member: indentation, key, colon, value, and what follows it.\<close>

definition print_member :: "value_printer \<Rightarrow> value_printer" where
  "print_member pv current_item p h = do {
     (ok, p, h) \<leftarrow> (if pformat p then emit (pdepth p) (replicate (pdepth p) 9) (pdepth p) p h
                    else Some (True, p, h));
     (if \<not> ok then Some (False, p, h)
      else do {
        i \<leftarrow> load_item current_item h;
        (ok, p, h) \<leftarrow> print_string_ptr (key i) p h;
        (if \<not> ok then Some (False, p, h)
         else do {
           p \<leftarrow> update_offset p h;
           let sep = (if pformat p then [58, 9] else [58]);
           (ok, p, h) \<leftarrow> emit (length sep) sep (length sep) p h;
           (if \<not> ok then Some (False, p, h)
            else do {
              (ok, p, h) \<leftarrow> pv current_item p h;
              (if \<not> ok then Some (False, p, h)
               else do {
                 p \<leftarrow> update_offset p h;
                 i \<leftarrow> load_item current_item h;
                 let sep = (if inext i \<noteq> NULL then [44] else []) @ (if pformat p then [10] else []);
                 emit (length sep + 1) (sep @ [0]) (length sep) p h }) }) }) }) }"

partial_function (option) print_members :: "value_printer \<Rightarrow> value_printer" where
  [code]: "print_members pv current_item p h =
     (if current_item = NULL then Some (True, p, h)
      else do {
        r \<leftarrow> print_member pv current_item p h;
        (if \<not> fst r then Some r
         else do {
           i \<leftarrow> load_item current_item (snd (snd r));
           print_members pv (inext i) (fst (snd r)) (snd (snd r)) }) })"

definition print_object :: "value_printer \<Rightarrow> item \<Rightarrow> printbuffer \<Rightarrow> jheap \<Rightarrow> (bool \<times> printbuffer \<times> jheap) option" where
  "print_object pv i p h = do {
     let opening = (if pformat p then [123, 10] else [123]);
     (ok, p, h) \<leftarrow> emit (length opening + 1) opening (length opening) p h;
     (if \<not> ok then Some (False, p, h)
      else do {
        (ok, p, h) \<leftarrow> print_members pv (child i) (p\<lparr>pdepth := pdepth p + 1\<rparr>) h;
        (if \<not> ok then Some (False, p, h)
         else do {
           let closing = (if pformat p then replicate (pdepth p - 1) 9 else []) @ [125, 0];
           (ok, p, h) \<leftarrow> emit (if pformat p then pdepth p + 1 else 2) closing 0 p h;
           Some (ok, if ok then p\<lparr>pdepth := pdepth p - 1\<rparr> else p, h) }) }) }"

text \<open>The first argument bounds the nesting of the items, which the code does not bound.\<close>

fun print_value :: "nat \<Rightarrow> value_printer" where
  "print_value 0 item p h = None"
| "print_value (Suc n) item p h =
     (if item = NULL then Some (False, p, h)
      else do {
        i \<leftarrow> load_item item h;
        let ty = itype i AND 0xFF;
        (if ty = cJSON_NULL then emit 5 [110, 117, 108, 108, 0] 0 p h
         else if ty = cJSON_False then emit 6 [102, 97, 108, 115, 101, 0] 0 p h
         else if ty = cJSON_True then emit 5 [116, 114, 117, 101, 0] 0 p h
         else if ty = cJSON_Number then print_number i p h
         else if ty = cJSON_Raw then
           (if valuestring i = NULL then Some (False, p, h)
            else do {
              s \<leftarrow> read_str (valuestring i) h;
              (ok, p, h) \<leftarrow> ensure p (length s + 1) h;
              (if \<not> ok then Some (False, p, h)
               else do {
                 s \<leftarrow> read_str (valuestring i) h;
                 h \<leftarrow> write_at p 0 (s @ [0]) h;
                 Some (True, p, h) }) })
         else if ty = cJSON_String then print_string i p h
         else if ty = cJSON_Array then print_array (print_value n) i p h
         else if ty = cJSON_Object then print_object (print_value n) i p h
         else Some (False, p, h)) })"

subsection \<open>Entry points\<close>

definition print_fail :: "printbuffer \<Rightarrow> jheap \<Rightarrow> (addr \<times> jheap) option" where
  "print_fail p h = do {
     h \<leftarrow> (if pbuffer p \<noteq> NULL then free (pbuffer p) h else Some h);
     Some (NULL, h) }"

definition print_text :: "nat \<Rightarrow> addr \<Rightarrow> bool \<Rightarrow> hooks \<Rightarrow> jheap \<Rightarrow> (addr \<times> jheap) option" where
  "print_text n item fmt hk h =
     (let (b, h) = malloc (StrC (uninit 256)) h;
          p = \<lparr>pbuffer = b, plength = 256, poffset = 0, pdepth = 0, noalloc = False, pformat = fmt, phooks = hk\<rparr>
      in if b = NULL then print_fail p h
         else do {
           (ok, p, h) \<leftarrow> print_value n item p h;
           (if \<not> ok then print_fail p h
            else do {
              p \<leftarrow> update_offset p h;
              (if reallocate hk \<noteq> None then do {
                 (printed, h) \<leftarrow> realloc (pbuffer p) (poffset p + 1) h;
                 (if printed = NULL then print_fail p h else Some (printed, h)) }
               else
                 (let (printed, h) = malloc (StrC (uninit (poffset p + 1))) h in
                  if printed = NULL then print_fail p h
                  else do {
                    b \<leftarrow> load_str (pbuffer p) h;
                    let m = min (plength p) (poffset p + 1);
                    h \<leftarrow> (if m \<le> length b then store printed (StrC (resize (poffset p + 1) (take m b))) h
                          else None);
                    h \<leftarrow> put_bytes printed (poffset p) [0] h;
                    h \<leftarrow> free (pbuffer p) h;
                    Some (printed, h) })) }) })"

definition cJSON_Print :: "nat \<Rightarrow> addr \<Rightarrow> hooks \<Rightarrow> jheap \<Rightarrow> (addr \<times> jheap) option" where
  "cJSON_Print n item hk h = print_text n item True hk h"

definition cJSON_PrintUnformatted :: "nat \<Rightarrow> addr \<Rightarrow> hooks \<Rightarrow> jheap \<Rightarrow> (addr \<times> jheap) option" where
  "cJSON_PrintUnformatted n item hk h = print_text n item False hk h"

definition cJSON_PrintBuffered :: "nat \<Rightarrow> addr \<Rightarrow> int \<Rightarrow> bool \<Rightarrow> hooks \<Rightarrow> jheap \<Rightarrow> (addr \<times> jheap) option" where
  "cJSON_PrintBuffered n item prebuffer fmt hk h =
     (if prebuffer < 0 then Some (NULL, h)
      else
        (let (b, h) = malloc (StrC (uninit (nat prebuffer))) h in
         if b = NULL then Some (NULL, h)
         else do {
           (ok, p, h) \<leftarrow> print_value n item
             \<lparr>pbuffer = b, plength = nat prebuffer, poffset = 0, pdepth = 0, noalloc = False, pformat = fmt,
              phooks = hk\<rparr> h;
           (if \<not> ok then do { h \<leftarrow> free (pbuffer p) h; Some (NULL, h) } else Some (pbuffer p, h)) }))"

definition cJSON_PrintPreallocated ::
  "nat \<Rightarrow> addr \<Rightarrow> addr \<Rightarrow> int \<Rightarrow> bool \<Rightarrow> hooks \<Rightarrow> jheap \<Rightarrow> (bool \<times> jheap) option" where
  "cJSON_PrintPreallocated n item buf sz fmt hk h =
     (if sz < 0 \<or> buf = NULL then Some (False, h)
      else do {
        (ok, p, h) \<leftarrow> print_value n item
          \<lparr>pbuffer = buf, plength = nat sz, poffset = 0, pdepth = 0, noalloc = True, pformat = fmt,
           phooks = hk\<rparr> h;
        Some (ok, h) })"

end
