(* ===== verification/CJsonRender.thy ===== *)
theory CJsonRender
  imports CJsonPrint CJsonSafe
begin

text \<open>
  What the printer of \<open>cJSON.c\<close> prints: \<open>render\<close> is the text of a tree, \<^const>\<open>None\<close> for an item
  without one.  The contract \<open>printing\<close> of the printing functions is stated on the output buffer,
  which is \<open>opened\<close> (the text so far ends at \<open>offset\<close>) or \<open>closed\<close> (more text and its terminator
  follow, and \<open>update_offset\<close> has not run yet).
\<close>

subsection \<open>The text of a tree\<close>

fun escaped :: "byte list \<Rightarrow> byte list" where
  "escaped [] = []"
| "escaped (c # s) =
     (if 31 < c \<and> c \<noteq> 34 \<and> c \<noteq> 92 then [c]
      else (case short_escape c of Some x \<Rightarrow> [92, x] | None \<Rightarrow> 92 # u04x c)) @ escaped s"

definition quoted :: "(addr \<times> byte list) option \<Rightarrow> byte list" where
  "quoted v = 34 # (case v of None \<Rightarrow> [] | Some (p, s) \<Rightarrow> escaped s) @ [34]"

definition comma :: "bool \<Rightarrow> byte list" where
  "comma fmt = (if fmt then [44, 32] else [44])"

definition colon :: "bool \<Rightarrow> byte list" where
  "colon fmt = (if fmt then [58, 9] else [58])"

definition tabs :: "bool \<Rightarrow> nat \<Rightarrow> byte list" where
  "tabs fmt n = (if fmt then replicate n 9 else [])"

definition newline :: "bool \<Rightarrow> byte list" where
  "newline fmt = (if fmt then [10] else [])"

fun render :: "bool \<Rightarrow> nat \<Rightarrow> jtree \<Rightarrow> byte list option"
  and render_elements :: "bool \<Rightarrow> nat \<Rightarrow> jtree list \<Rightarrow> byte list option"
  and render_members :: "bool \<Rightarrow> nat \<Rightarrow> jtree list \<Rightarrow> byte list option" where
  "render fmt d (JT p ty vs vi vd k ks) =
     (let ty = ty AND 0xFF in
      if ty = cJSON_NULL then Some [110, 117, 108, 108]
      else if ty = cJSON_False then Some [102, 97, 108, 115, 101]
      else if ty = cJSON_True then Some [116, 114, 117, 101]
      else if ty = cJSON_Number then Some (number_text vd)
      else if ty = cJSON_Raw then map_option snd vs
      else if ty = cJSON_String then Some (quoted vs)
      else if ty = cJSON_Array then
        map_option (\<lambda>s. [91] @ s @ [93]) (render_elements fmt (d + 1) ks)
      else if ty = cJSON_Object then
        map_option (\<lambda>s. [123] @ newline fmt @ s @ tabs fmt d @ [125]) (render_members fmt (d + 1) ks)
      else None)"
| "render_elements fmt d [] = Some []"
| "render_elements fmt d (t # ts) = do {
     x \<leftarrow> render fmt d t;
     y \<leftarrow> render_elements fmt d ts;
     Some (x @ (if ts = [] then [] else comma fmt) @ y) }"
| "render_members fmt d [] = Some []"
| "render_members fmt d (t # ts) = do {
     x \<leftarrow> render fmt d t;
     y \<leftarrow> render_members fmt d ts;
     Some (tabs fmt d @ quoted (jkey t) @ colon fmt @ x @ (if ts = [] then [] else [44]) @ newline fmt @ y) }"

lemma length_u04x [simp]: "length (u04x c) = 5"
  by (simp add: u04x_def)

lemma short_escape_small: "short_escape c = None \<Longrightarrow> \<not> (31 < c \<and> c \<noteq> 34 \<and> c \<noteq> 92) \<Longrightarrow> c < 32"
proof -
  have "(31 < c) = (\<not> c < 32)" for c :: byte
    unfolding word_less_nat_alt by simp presburger
  then show "short_escape c = None \<Longrightarrow> \<not> (31 < c \<and> c \<noteq> 34 \<and> c \<noteq> 92) \<Longrightarrow> c < 32"
    by (auto simp: short_escape_def split: if_splits)
qed

lemma short_escape_Some: "short_escape c = Some x \<Longrightarrow> \<not> (31 < c \<and> c \<noteq> 34 \<and> c \<noteq> 92)"
  by (auto simp: short_escape_def split: if_splits)

lemma length_escaped: "length (escaped s) = length s + escape_characters s"
proof (induction s)
  case (Cons c s)
  have "31 < c \<Longrightarrow> \<not> c < 32" by (simp add: word_less_nat_alt)
  then show ?case using Cons short_escape_small [of c] short_escape_Some [of c]
    by (auto split: option.splits)
qed simp

lemma escaped_id: "escape_characters s = 0 \<Longrightarrow> escaped s = s"
proof (induction s)
  case (Cons c s)
  then show ?case using short_escape_small [of c] short_escape_Some [of c]
    by (cases "short_escape c") (auto split: if_splits)
qed simp

lemma hex_char_not_0: "d < 16 \<Longrightarrow> hex_char d \<noteq> 0"
proof -
  assume "d < 16"
  then have "unat d < 16" by (simp add: word_less_nat_alt)
  then have "unat (hex_char d) \<noteq> 0"
    by (simp add: hex_char_def word_less_nat_alt unat_word_ariths)
  then show "hex_char d \<noteq> 0" by auto
qed

lemma u04x_not_0: "0 \<notin> set (u04x c)"
proof -
  have "c div 16 < 16" using unsigned_less [of c, where ?'a = nat] by (simp add: word_less_nat_alt unat_div)
  moreover have "c mod 16 < 16" by (simp add: word_mod_less_divisor)
  ultimately show ?thesis using hex_char_not_0 [of "c div 16"] hex_char_not_0 [of "c mod 16"]
    by (auto simp: u04x_def)
qed

lemma escaped_not_0: "0 \<notin> set s \<Longrightarrow> 0 \<notin> set (escaped s)"
  using u04x_not_0 by (induction s) (auto simp: short_escape_def split: option.splits if_splits)

lemma str_at_not_0: "str_at h v \<Longrightarrow> v = Some (p, s) \<Longrightarrow> 0 \<notin> set s"
  by (auto dest!: read_str_SomeD cstring_SomeD)

lemma quoted_not_0: "str_at h v \<Longrightarrow> 0 \<notin> set (quoted v)"
  using str_at_not_0 escaped_not_0 by (auto simp: quoted_def split: option.splits)

subsection \<open>The output buffer\<close>

definition opened :: "nat \<Rightarrow> printbuffer \<Rightarrow> jheap \<Rightarrow> byte list \<Rightarrow> bool" where
  "opened d p h pre \<longleftrightarrow> pdepth p = d \<and> poffset p = length pre \<and> length pre < plength p \<and>
     (\<exists>b. load_str (pbuffer p) h = Some b \<and> plength p \<le> length b \<and> take (length pre) b = map Some pre)"

definition closed :: "nat \<Rightarrow> printbuffer \<Rightarrow> jheap \<Rightarrow> byte list \<Rightarrow> byte list \<Rightarrow> bool" where
  "closed d p h pre txt \<longleftrightarrow> pdepth p = d \<and> 0 \<notin> set txt \<and>
     length pre \<le> poffset p \<and> poffset p \<le> length (pre @ txt) \<and> length (pre @ txt) < plength p \<and>
     (\<exists>b. load_str (pbuffer p) h = Some b \<and> plength p \<le> length b \<and>
        take (length (pre @ txt) + 1) b = map Some (pre @ txt @ [0]))"

text \<open>The buffer moved from block \<open>b\<close> to block \<open>b'\<close>, or stayed, or is gone (NULL).\<close>

definition kept :: "jheap \<Rightarrow> addr \<Rightarrow> jheap \<Rightarrow> addr \<Rightarrow> bool" where
  "kept h b h' b' \<longleftrightarrow>
     (\<forall>q. q \<noteq> b \<longrightarrow> q \<noteq> b' \<longrightarrow> load q h' = load q h) \<and>
     (b' \<noteq> b \<longrightarrow> load b' h = None \<and> load b h' = None) \<and>
     (b' = NULL \<or> load_str b' h' \<noteq> None)"

definition same_mode :: "printbuffer \<Rightarrow> printbuffer \<Rightarrow> bool" where
  "same_mode p p' \<longleftrightarrow> noalloc p' = noalloc p \<and> pformat p' = pformat p \<and> phooks p' = phooks p \<and>
     (noalloc p \<longrightarrow> pbuffer p' = pbuffer p)"

text \<open>
  Room for \<open>N\<close> bytes: in a fixed buffer its size; otherwise the largest size the code accepts, and
  no allocation that fails.
\<close>

definition fits :: "printbuffer \<Rightarrow> jheap \<Rightarrow> nat \<Rightarrow> bool" where
  "fits p h N \<longleftrightarrow> N \<le> INT_MAX \<and> (if noalloc p then N \<le> plength p else True \<notin> set (oom h))"

text \<open>
  The contract: the call returns; when it reports success, \<open>Q\<close> holds; it does report success when the
  \<open>m\<close> bytes it needs fit (\<open>None\<close>: the printer cannot succeed).
\<close>

definition printing ::
  "jheap \<Rightarrow> printbuffer \<Rightarrow> nat option \<Rightarrow> (printbuffer \<Rightarrow> jheap \<Rightarrow> bool) \<Rightarrow>
   (bool \<times> printbuffer \<times> jheap) option \<Rightarrow> bool" where
  "printing h p m Q r \<longleftrightarrow>
     (\<exists>ok p' h'. r = Some (ok, p', h') \<and> wf_heap h' \<and> same_mode p p' \<and> kept h (pbuffer p) h' (pbuffer p') \<and>
        (ok \<longrightarrow> Q p' h') \<and>
        (\<forall>N. fits p h N \<and> (\<exists>m'. m = Some m' \<and> m' \<le> N) \<longrightarrow> ok \<and> fits p' h' N))"

lemma printingE:
  assumes "printing h p m Q r"
  obtains ok p' h' where "r = Some (ok, p', h')" "wf_heap h'" "same_mode p p'" "kept h (pbuffer p) h' (pbuffer p')"
    "ok \<Longrightarrow> Q p' h'" "\<And>N m'. fits p h N \<Longrightarrow> m = Some m' \<Longrightarrow> m' \<le> N \<Longrightarrow> ok \<and> fits p' h' N"
  using assms unfolding printing_def by blast

lemma printingI:
  assumes "r = Some (ok, p', h')" "wf_heap h'" "same_mode p p'" "kept h (pbuffer p) h' (pbuffer p')"
    "ok \<Longrightarrow> Q p' h'" "\<And>N m'. fits p h N \<Longrightarrow> m = Some m' \<Longrightarrow> m' \<le> N \<Longrightarrow> ok \<and> fits p' h' N"
  shows "printing h p m Q r"
  using assms unfolding printing_def by blast

lemma same_mode_refl [simp]: "same_mode p p"
  by (simp add: same_mode_def)

lemma kept_refl: "load_str b h \<noteq> None \<Longrightarrow> kept h b h b"
  by (simp add: kept_def)

lemma kept_trans: "kept h b h1 b1 \<Longrightarrow> kept h1 b1 h2 b2 \<Longrightarrow> kept h b h2 b2"
proof -
  assume 1: "kept h b h1 b1" and 2: "kept h1 b1 h2 b2"
  have f1: "q \<noteq> b \<Longrightarrow> q \<noteq> b1 \<Longrightarrow> load q h1 = load q h" and f2: "q \<noteq> b1 \<Longrightarrow> q \<noteq> b2 \<Longrightarrow> load q h2 = load q h1" for q
    using 1 2 by (simp_all add: kept_def)
  have n1: "b1 \<noteq> b \<Longrightarrow> load b1 h = None \<and> load b h1 = None" and n2: "b2 \<noteq> b1 \<Longrightarrow> load b2 h1 = None \<and> load b1 h2 = None"
    using 1 2 by (simp_all add: kept_def)
  have "load q h2 = load q h" if "q \<noteq> b" "q \<noteq> b2" for q
    using f1 [of q] f2 [of q] n1 n2 that by (cases "q = b1") auto
  moreover have "load b2 h = None \<and> load b h2 = None" if "b2 \<noteq> b"
    using f1 [of b2] f2 [of b] n1 n2 that by (cases "b1 = b"; cases "b2 = b1") auto
  moreover have "b2 = NULL \<or> load_str b2 h2 \<noteq> None" using 2 by (simp add: kept_def)
  ultimately show ?thesis unfolding kept_def by blast
qed

lemma kept_load:
  assumes "kept h b h' b'" and "q \<noteq> b" and "load q h \<noteq> None"
  shows "load q h' = load q h" and "q \<noteq> b'"
  using assms by (auto simp: kept_def)

text \<open>Sequencing; the text the second part needs room for includes that of the first.\<close>

lemma printing_bind:
  assumes 1: "printing h p m1 Q1 r"
    and 2: "\<And>p' h'. Q1 p' h' \<Longrightarrow> wf_heap h' \<Longrightarrow> same_mode p p' \<Longrightarrow> kept h (pbuffer p) h' (pbuffer p') \<Longrightarrow>
      printing h' p' m2 Q2 (k p' h')"
    and m: "m2 \<noteq> None \<Longrightarrow> m1 \<noteq> None \<and> the m1 \<le> the m2"
    and eq: "\<And>p' h'. r = Some (True, p', h') \<Longrightarrow> r' = k p' h'"
      "\<And>p' h'. r = Some (False, p', h') \<Longrightarrow> \<exists>p''. r' = Some (False, p'', h') \<and> pbuffer p'' = pbuffer p' \<and> same_mode p' p''"
  shows "printing h p m2 Q2 r'"
  using 1
proof (cases rule: printingE)
  case (1 ok p' h')
  show ?thesis
  proof (cases ok)
    case False
    with eq(2) 1 obtain p'' where p'': "r' = Some (False, p'', h')" "pbuffer p'' = pbuffer p'" "same_mode p' p''" by auto
    show ?thesis
      by (rule printingI [OF p''(1) 1(2)])
        (use 1 p'' False m in \<open>fastforce simp: same_mode_def\<close>)+
  next
    case True
    then have "printing h' p' m2 Q2 (k p' h')" using 1 2 by blast
    then show ?thesis
    proof (cases rule: printingE)
      case k: (1 ok2 p2 h2)
      have r': "r' = Some (ok2, p2, h2)" using eq(1) 1(1) True k(1) by simp
      show ?thesis
      proof (rule printingI [OF r' k(2)])
        show "same_mode p p2" using 1(3) k(3) by (auto simp: same_mode_def)
        show "kept h (pbuffer p) h2 (pbuffer p2)" by (rule kept_trans [OF 1(4) k(4)])
        fix N m' assume N: "fits p h N" "m2 = Some m'" "m' \<le> N"
        with m obtain m1' where "m1 = Some m1'" "m1' \<le> N" by auto
        with 1(6) N have "fits p' h' N" by blast
        with k(6) N show "ok2 \<and> fits p2 h2 N" by blast
      qed (use k(5) in blast)
    qed
  qed
qed

lemma printing_mono:
  assumes "printing h p m Q r" and "\<And>p' h'. Q p' h' \<Longrightarrow> Q' p' h'" and "m' \<noteq> None \<Longrightarrow> m \<noteq> None \<and> the m \<le> the m'"
  shows "printing h p m' Q' r"
  using assms(1)
proof (cases rule: printingE)
  case (1 ok p' h')
  show ?thesis
    by (rule printingI [OF 1(1-4)]) (use 1(5,6) assms(2,3) in \<open>fastforce+\<close>)
qed

lemma printing_fail:
  "wf_heap h \<Longrightarrow> load_str (pbuffer p) h \<noteq> None \<Longrightarrow> printing h p None Q (Some (False, p, h))"
  by (rule printingI [OF refl]) (auto intro: kept_refl)

subsection \<open>\<open>ensure\<close> and \<open>update_offset\<close>\<close>

lemma put_bytes_eq:
  assumes "load_str p h = Some b" and "i + length s \<le> length b"
  shows "put_bytes p i s h = Some (setj p (StrC (take i b @ map Some s @ drop (i + length s) b)) h)"
  using assms setj_live [of p h "StrC b"] by (simp add: put_bytes_def pokes_Some load_str_live)

lemma realloc_eq:
  assumes "load_str p h = Some b" and "wf_heap h"
  shows "realloc p n h =
    Some (if alloc_fails h then (NULL, nonew h) else (brk h, clrj p (newj (StrC (resize n b)) h)))"
proof -
  have "load p (newj (StrC (resize n b)) h) \<noteq> None" using assms by (simp add: load_newj load_str_Some_iff)
  then show ?thesis using assms wf_heap_brk_pos [of h] by (simp add: realloc_def malloc_newj free_live)
qed

lemma take_resize: "n \<le> m \<Longrightarrow> n \<le> length b \<Longrightarrow> take n (resize m b) = take n b"
  by (simp add: resize_def min_def)

lemma length_resize [simp]: "length (resize m b) = m"
  by (simp add: resize_def)

lemma drop_buffer_eq:
  "load_str (pbuffer p) h = Some b \<Longrightarrow>
   drop_buffer p h = Some (False, p\<lparr>plength := 0, pbuffer := NULL\<rparr>, clrj (pbuffer p) h)"
  by (simp add: drop_buffer_def load_str_Some_iff free_live)

lemma alloc_fails_in: "alloc_fails h \<Longrightarrow> True \<in> set (oom h)"
  by (cases "oom h") (auto simp: alloc_fails_def)

lemma fits_tl: "fits p h N \<Longrightarrow> noalloc p' = noalloc p \<Longrightarrow> \<not> noalloc p \<Longrightarrow> set (oom h') \<subseteq> set (oom h) \<Longrightarrow> fits p' h' N"
  by (auto simp: fits_def)

lemma set_tl: "set (tl xs) \<subseteq> set xs"
  by (cases xs) auto

text \<open>The two outcomes of growing the buffer.\<close>

lemma printing_lost:
  assumes b: "load_str (pbuffer p) h = Some b" and wf: "wf_heap h" and f: "alloc_fails h" and na: "\<not> noalloc p"
  shows "printing h p m Q (drop_buffer p (nonew h))"
proof (rule printingI)
  have "load_str (pbuffer p) (nonew h) = Some b" using b by (simp add: load_str_def)
  from drop_buffer_eq [OF this]
  show "drop_buffer p (nonew h) = Some (False, p\<lparr>plength := 0, pbuffer := NULL\<rparr>, clrj (pbuffer p) (nonew h))" .
qed (use wf f na alloc_fails_in in \<open>auto simp: kept_def load_clrj same_mode_def fits_def\<close>)

lemma printing_moved:
  assumes O: "opened d p h pre" and wf: "wf_heap h" and na: "\<not> noalloc p"
    and n: "length b' = newsize" "length pre < newsize" "req \<le> newsize"
    and b': "take (length pre) b' = map Some pre"
    and h': "\<And>q. load q h' = (if q = brk h then Some (StrC b') else if q = pbuffer p then None else load q h)"
      "wf_heap h'" "oom h' = tl (oom h)"
  shows "printing h p m (\<lambda>p' h'. opened d p' h' pre \<and> req \<le> plength p')
    (Some (True, p\<lparr>plength := newsize, pbuffer := brk h\<rparr>, h'))"
proof (rule printingI [OF refl h'(2)])
  from O obtain b where b: "load_str (pbuffer p) h = Some b" by (auto simp: opened_def)
  then have ne: "brk h \<noteq> pbuffer p" using wf_heap_fresh [OF wf] by (auto simp: load_str_Some_iff)
  show "kept h (pbuffer p) h' (pbuffer (p\<lparr>plength := newsize, pbuffer := brk h\<rparr>))"
    using h'(1) ne wf_heap_fresh [OF wf] by (auto simp: kept_def load_str_def)
  show "opened d (p\<lparr>plength := newsize, pbuffer := brk h\<rparr>) h' pre \<and>
      req \<le> plength (p\<lparr>plength := newsize, pbuffer := brk h\<rparr>)"
    using O n b' h'(1) by (auto simp: opened_def load_str_def)
  show "True \<and> fits (p\<lparr>plength := newsize, pbuffer := brk h\<rparr>) h' N" if "fits p h N" for N
    using fits_tl [OF that, of "p\<lparr>plength := newsize, pbuffer := brk h\<rparr>" h'] na set_tl [of "oom h"] h'(3) by simp
qed (use na in \<open>simp add: same_mode_def\<close>)

lemma ensure_printing:
  assumes O: "opened d p h pre" and wf: "wf_heap h"
  shows "printing h p (Some (length pre + n + 1)) (\<lambda>p' h'. opened d p' h' pre \<and> length pre + n + 1 \<le> plength p')
    (ensure p n h)"
proof -
  from O obtain b where b: "load_str (pbuffer p) h = Some b" "plength p \<le> length b" "take (length pre) b = map Some pre"
    and o: "poffset p = length pre" "length pre < plength p" by (auto simp: opened_def)
  let ?needed = "n + length pre + 1" and ?Q = "\<lambda>p' h'. opened d p' h' pre \<and> length pre + n + 1 \<le> plength p'"
  let ?new = "if INT_MAX div 2 < ?needed then INT_MAX else ?needed * 2"
  have bn: "pbuffer p \<noteq> NULL" and bl: "load_str (pbuffer p) h \<noteq> None" using b by (auto dest: load_str_live)
  have nofit: "printing h p (Some (length pre + n + 1)) ?Q (Some (False, p, h))"
    if "\<And>N. fits p h N \<Longrightarrow> N < length pre + n + 1"
    by (rule printingI [OF refl wf same_mode_refl kept_refl [OF bl]]) (use that in force)+
  consider (huge) "INT_MAX < n" | (room) "n \<le> INT_MAX" "?needed \<le> plength p"
    | (fixed) "n \<le> INT_MAX" "plength p < ?needed" "noalloc p"
    | (over) "n \<le> INT_MAX" "plength p < ?needed" "\<not> noalloc p" "INT_MAX < ?needed"
    | (grow) "n \<le> INT_MAX" "plength p < ?needed" "\<not> noalloc p" "?needed \<le> INT_MAX"
    by linarith
  then show ?thesis
  proof cases
    case huge
    then have "ensure p n h = Some (False, p, h)" using o bn by (simp add: ensure_def)
    then show ?thesis using nofit huge by (simp add: fits_def)
  next
    case room
    then have "ensure p n h = Some (True, p, h)" using o bn by (simp add: ensure_def)
    then show ?thesis using O wf room bl by (intro printingI) (auto intro: kept_refl)
  next
    case fixed
    then have "ensure p n h = Some (False, p, h)" using o bn by (simp add: ensure_def)
    then show ?thesis using nofit fixed by (simp add: fits_def)
  next
    case over
    then have "ensure p n h = Some (False, p, h)" using o bn by (simp add: ensure_def INT_MAX_def)
    then show ?thesis using nofit over by (simp add: fits_def)
  next
    case grow
    have sz: "length pre < ?new" "length pre + n + 1 \<le> ?new" using grow by auto
    have pl: "length pre \<le> length b" "length pre < length b" using o b by simp_all
    have e: "ensure p n h =
       (if reallocate (phooks p) \<noteq> None then do {
          (newbuffer, h) \<leftarrow> realloc (pbuffer p) ?new h;
          (if newbuffer = NULL then drop_buffer p h
           else Some (True, p\<lparr>plength := ?new, pbuffer := newbuffer\<rparr>, h)) }
        else
          (let (newbuffer, h) = malloc (StrC (uninit ?new)) h in
           if newbuffer = NULL then drop_buffer p h
           else do {
             b \<leftarrow> load_str (pbuffer p) h;
             h \<leftarrow> (if poffset p + 1 \<le> length b
                   then store newbuffer (StrC (resize ?new (take (poffset p + 1) b))) h else None);
             h \<leftarrow> free (pbuffer p) h;
             Some (True, p\<lparr>plength := ?new, pbuffer := newbuffer\<rparr>, h) }))"
    proof -
      define nd where "nd = n + poffset p + 1"
      have nd: "?needed = nd" "plength p < nd" "nd \<le> INT_MAX" using grow o by (simp_all add: nd_def)
      show ?thesis unfolding ensure_def Let_def nd(1) nd_def [symmetric] using grow o bn nd(2,3) by simp
    qed
    have ne: "brk h \<noteq> pbuffer p" using b wf_heap_fresh [OF wf] by (auto simp: load_str_Some_iff)
    show ?thesis
    proof (cases "alloc_fails h")
      case True
      then have "ensure p n h = drop_buffer p (nonew h)"
        unfolding e using realloc_eq [OF b(1) wf] by (simp add: malloc_newj)
      then show ?thesis using printing_lost [OF b(1) wf True] grow by simp
    next
      case False
      show ?thesis
      proof (cases "reallocate (phooks p) = None")
        case no: False
        have "ensure p n h = Some (True, p\<lparr>plength := ?new, pbuffer := brk h\<rparr>,
            clrj (pbuffer p) (newj (StrC (resize ?new b)) h))"
          unfolding e using realloc_eq [OF b(1) wf] False no wf_heap_brk_pos [OF wf] by simp
        moreover have "take (length pre) (resize ?new b) = map Some pre"
          using sz pl b(3) by (subst take_resize) simp_all
        ultimately show ?thesis
          using printing_moved [OF O wf grow(3) length_resize sz] wf ne by (simp add: load_clrj load_newj)
      next
        case yes: True
        let ?h1 = "newj (StrC (uninit ?new)) h" and ?c = "StrC (resize ?new (take (length pre + 1) b))"
        have l1: "load (brk h) ?h1 = Some (StrC (uninit ?new))" "load_str (pbuffer p) ?h1 = Some b"
          using wf ne b by (simp_all add: load_newj load_str_def)
        have "load (pbuffer p) (setj (brk h) ?c ?h1) \<noteq> None"
          using wf ne b wf_heap_brk_pos [OF wf] by (simp add: load_newj load_setj load_str_Some_iff)
        then have "ensure p n h = Some (True, p\<lparr>plength := ?new, pbuffer := brk h\<rparr>,
            clrj (pbuffer p) (setj (brk h) ?c ?h1))"
          unfolding e using False yes wf_heap_brk_pos [OF wf] l1 o pl
          by (simp add: malloc_newj setj_live free_live)
        moreover have "take (length pre) (resize ?new (take (length pre + 1) b)) = map Some pre"
          using sz pl b(3) by (subst take_resize) (simp_all add: min_def)
        ultimately show ?thesis
          using printing_moved [OF O wf grow(3) length_resize sz] wf ne l1 wf_heap_brk_pos [OF wf]
          by (simp add: load_clrj load_newj load_setj)
      qed
    qed
  qed
qed

lemma load_str_NULL [simp]: "load_str NULL h = None"
  by (simp add: load_str_def)

lemma update_offset_closed:
  assumes C: "closed d p h pre txt"
  shows "update_offset p h = Some (p\<lparr>poffset := length (pre @ txt)\<rparr>)"
    and "opened d (p\<lparr>poffset := length (pre @ txt)\<rparr>) h (pre @ txt)"
proof -
  from C obtain b k where b: "load_str (pbuffer p) h = Some b" "plength p \<le> length b"
    "take (length (pre @ txt) + 1) b = map Some (pre @ txt @ [0])" and k: "poffset p = length pre + k" "k \<le> length txt"
    and z: "0 \<notin> set txt" and l: "length (pre @ txt) < plength p"
    unfolding closed_def by (metis le_iff_add add_le_cancel_left length_append)
  let ?r = "drop (length (pre @ txt) + 1) b"
  have "b = map Some pre @ map Some txt @ Some 0 # ?r"
    using b(3) append_take_drop_id [of "length (pre @ txt) + 1" b] by simp
  then have "drop (length pre + k) b = drop (length pre + k) (map Some pre @ map Some txt @ Some 0 # ?r)" by simp
  also have "\<dots> = map Some (drop k txt) @ Some 0 # ?r" using k(2) by (simp add: drop_map)
  finally have "drop (length pre + k) b = map Some (drop k txt) @ Some 0 # ?r" .
  moreover have "0 \<notin> set (drop k txt)" using z by (meson in_set_dropD)
  ultimately have "cstring (drop (length pre + k) b) = Some (drop k txt)" by (simp add: cstring_app)
  then show "update_offset p h = Some (p\<lparr>poffset := length (pre @ txt)\<rparr>)"
    using b k l by (auto simp: update_offset_def cstring_at_def)
  have "take (length (pre @ txt)) b = map Some (pre @ txt)"
    using arg_cong [OF b(3), of "take (length (pre @ txt))"] by (simp add: min_def)
  then show "opened d (p\<lparr>poffset := length (pre @ txt)\<rparr>) h (pre @ txt)"
    using C b l by (auto simp: opened_def closed_def)
qed

subsection \<open>Writing\<close>

lemma write_at_opened:
  assumes O: "opened d p h pre" and l: "length pre + length w \<le> plength p"
  obtains b where "write_at p 0 w h = Some (setj (pbuffer p) (StrC b) h)" "plength p \<le> length b"
    "take (length pre + length w) b = map Some (pre @ w)"
proof -
  from O obtain b where b: "load_str (pbuffer p) h = Some b" "plength p \<le> length b" "take (length pre) b = map Some pre"
    and o: "poffset p = length pre" by (auto simp: opened_def)
  let ?b = "take (length pre) b @ map Some w @ drop (length pre + length w) b"
  have "write_at p 0 w h = Some (setj (pbuffer p) (StrC ?b) h)"
    using put_bytes_eq [OF b(1), of "length pre" w] l b(2) o by (simp add: write_at_def)
  moreover have "plength p \<le> length ?b" "take (length pre + length w) ?b = map Some (pre @ w)"
    using b l by simp_all
  ultimately show thesis by (rule that)
qed

text \<open>A state reached by writing to the buffer only.\<close>

lemma printing_written:
  assumes "opened d p h pre" and "wf_heap h"
    and "pbuffer p' = pbuffer p" "plength p' = plength p" "noalloc p' = noalloc p" "pformat p' = pformat p" "phooks p' = phooks p"
    and "Q p' (setj (pbuffer p) (StrC b) h)"
  shows "printing h p m Q (Some (True, p', setj (pbuffer p) (StrC b) h))"
proof (rule printingI [OF refl])
  have "load (pbuffer p) h \<noteq> None" "pbuffer p \<noteq> NULL"
    using assms(1) by (auto simp: opened_def load_str_Some_iff)
  then show "kept h (pbuffer p) (setj (pbuffer p) (StrC b) h) (pbuffer p')" "wf_heap (setj (pbuffer p) (StrC b) h)"
    using assms(2,3) by (simp_all add: kept_def load_setj load_str_setj)
qed (use assms in \<open>simp_all add: same_mode_def fits_def\<close>)

lemma emit_printing:
  assumes O: "opened d p h pre" and wf: "wf_heap h" and l: "length w \<le> n + 1"
    and Q: "\<And>p' h' b. opened d p' h' pre \<Longrightarrow> length pre + n + 1 \<le> plength p' \<Longrightarrow>
      plength p' \<le> length b \<Longrightarrow> take (length pre + length w) b = map Some (pre @ w) \<Longrightarrow>
      Q (p'\<lparr>poffset := length pre + k\<rparr>) (setj (pbuffer p') (StrC b) h')"
  shows "printing h p (Some (length pre + n + 1)) Q (emit n w k p h)"
proof (rule printing_bind [OF ensure_printing [OF O wf, of n],
      where k = "\<lambda>p h. do { h \<leftarrow> write_at p 0 w h; Some (True, p\<lparr>poffset := poffset p + k\<rparr>, h) }"])
  fix p' h' assume 1: "opened d p' h' pre \<and> length pre + n + 1 \<le> plength p'" "wf_heap h'"
  then obtain b where b: "write_at p' 0 w h' = Some (setj (pbuffer p') (StrC b) h')" "plength p' \<le> length b"
    "take (length pre + length w) b = map Some (pre @ w)" using write_at_opened [of d p' h' pre w] l by auto
  have o: "poffset p' = length pre" using 1 by (simp add: opened_def)
  have "printing h' p' (Some (length pre + n + 1)) Q
      (Some (True, p'\<lparr>poffset := length pre + k\<rparr>, setj (pbuffer p') (StrC b) h'))"
    by (rule printing_written) (use 1 b Q in auto)
  then show "printing h' p' (Some (length pre + n + 1)) Q
      (do { h \<leftarrow> write_at p' 0 w h'; Some (True, p'\<lparr>poffset := poffset p' + k\<rparr>, h) })"
    using b(1) o by simp
qed (auto simp: emit_def)

lemma pbuffer_live: "opened d p h pre \<Longrightarrow> pbuffer p \<noteq> NULL"
  by (auto simp: opened_def)

lemma emit_opened:
  assumes O: "opened d p h pre" and wf: "wf_heap h" and w: "w = s \<or> w = s @ [0]" and l: "length w \<le> n + 1" "length s \<le> n"
  shows "printing h p (Some (length pre + n + 1)) (\<lambda>p' h'. opened d p' h' (pre @ s)) (emit n w (length s) p h)"
proof (rule emit_printing [OF O wf l(1)])
  fix p' h' b assume 1: "opened d p' h' pre" "length pre + n + 1 \<le> plength p'" "plength p' \<le> length b"
    "take (length pre + length w) b = map Some (pre @ w)"
  have "take (length (pre @ s)) b = map Some (pre @ s)"
    using arg_cong [OF 1(4), of "take (length (pre @ s))"] w by (auto simp: min_def)
  then show "opened d (p'\<lparr>poffset := length pre + length s\<rparr>) (setj (pbuffer p') (StrC b) h') (pre @ s)"
    using 1 l pbuffer_live [OF 1(1)] by (auto simp: opened_def load_str_setj)
qed

lemma emit_closed:
  assumes O: "opened d p h pre" and wf: "wf_heap h" and l: "length s \<le> n" and z: "0 \<notin> set s" and k: "k \<le> length s"
  shows "printing h p (Some (length pre + n + 1)) (\<lambda>p' h'. closed d p' h' pre s) (emit n (s @ [0]) k p h)"
proof (rule emit_printing [OF O wf])
  fix p' h' b assume 1: "opened d p' h' pre" "length pre + n + 1 \<le> plength p'" "plength p' \<le> length b"
    "take (length pre + length (s @ [0])) b = map Some (pre @ s @ [0])"
  then show "closed d (p'\<lparr>poffset := length pre + k\<rparr>) (setj (pbuffer p') (StrC b) h') pre s"
    using l z k pbuffer_live [OF 1(1)] by (auto simp: closed_def opened_def load_str_setj)
qed (use l in simp)

subsection \<open>Strings and numbers\<close>

text \<open>Appending \<open>w\<close> to what stands in front of \<open>offset + i\<close>.\<close>

lemma write_at_eq:
  assumes b: "load_str (pbuffer p) h = Some b" and u: "take (length u) b = map Some u" "length u = poffset p + i"
    and l: "length u + length w \<le> length b"
  obtains b' where "write_at p i w h = Some (setj (pbuffer p) (StrC b') h)" "length b' = length b"
    "take (length (u @ w)) b' = map Some (u @ w)"
proof -
  let ?b = "take (length u) b @ map Some w @ drop (length u + length w) b"
  have "write_at p i w h = Some (setj (pbuffer p) (StrC ?b) h)"
    using put_bytes_eq [OF b, of "poffset p + i" w] l u(2) by (simp add: write_at_def)
  moreover have "length ?b = length b" "take (length (u @ w)) ?b = map Some (u @ w)"
    using u l by simp_all
  ultimately show thesis by (rule that)
qed

lemma take_prefix: "take (length (u @ v)) b = map Some (u @ v) \<Longrightarrow> take (length u) b = map Some u"
  by (drule arg_cong [of _ _ "take (length u)"]) (simp add: min_def)

lemma escape_into_eq:
  "load_str (pbuffer p) h = Some b \<Longrightarrow> take (length u) b = map Some u \<Longrightarrow> length u = poffset p + k \<Longrightarrow>
   length u + length (escaped s) < length b \<Longrightarrow>
   \<exists>b'. escape_into s p k h = Some (setj (pbuffer p) (StrC b') h) \<and> length b' = length b \<and>
     take (length (u @ escaped s)) b' = map Some (u @ escaped s)"
proof (induction s arbitrary: k h b u)
  case Nil
  then show ?case by (intro exI [of _ b]) (simp add: setj_same load_str_Some_iff)
next
  case (Cons c s)
  have bn: "pbuffer p \<noteq> NULL" using Cons.prems(1) by (auto dest: load_str_live)
  have ls: "load_str (pbuffer p) (setj (pbuffer p) (StrC x) h) = Some x" for x h
    using bn by (simp add: load_str_setj)
  show ?case
  proof (cases "31 < c \<and> c \<noteq> 34 \<and> c \<noteq> 92")
    case True
    have "length u + length [c] \<le> length b" using Cons.prems(4) by simp
    from write_at_eq [OF Cons.prems(1-3) this] obtain b1 where
      b1: "write_at p k [c] h = Some (setj (pbuffer p) (StrC b1) h)" "length b1 = length b"
      "take (length (u @ [c])) b1 = map Some (u @ [c])" .
    from Cons.IH [OF ls b1(3), of "k + 1" h] Cons.prems(3,4) b1 True show ?thesis by simp
  next
    case False
    have "length u + length [92 :: byte] \<le> length b" using Cons.prems(4) False by (auto split: option.splits)
    from write_at_eq [OF Cons.prems(1-3) this] obtain b1 where
      b1: "write_at p k [92] h = Some (setj (pbuffer p) (StrC b1) h)" "length b1 = length b"
      "take (length (u @ [92])) b1 = map Some (u @ [92])" .
    have u1: "length (u @ [92]) = poffset p + (k + 1)" using Cons.prems(3) by simp
    show ?thesis
    proof (cases "short_escape c")
      case (Some x)
      have "length (u @ [92]) + length [x] \<le> length b1" using Cons.prems(4) False Some b1(2) by simp
      from write_at_eq [OF ls b1(3) u1 this] obtain b2 where
        b2: "write_at p (k + 1) [x] (setj (pbuffer p) (StrC b1) h) = Some (setj (pbuffer p) (StrC b2) h)"
        "length b2 = length b1" "take (length ((u @ [92]) @ [x])) b2 = map Some ((u @ [92]) @ [x])" by auto
      from Cons.IH [OF ls b2(3), of "k + 2" h] Cons.prems(3,4) b1 b2 False Some show ?thesis
        unfolding escape_into.simps escaped.simps if_not_P [OF False] by simp
    next
      case None
      have "length (u @ [92]) + length (u04x c @ [0]) \<le> length b1" using Cons.prems(4) False None b1(2) by simp
      from write_at_eq [OF ls b1(3) u1 this] obtain b2 where
        b2: "write_at p (k + 1) (u04x c @ [0]) (setj (pbuffer p) (StrC b1) h) = Some (setj (pbuffer p) (StrC b2) h)"
        "length b2 = length b1" "take (length ((u @ [92]) @ u04x c @ [0])) b2 = map Some ((u @ [92]) @ u04x c @ [0])"
        by auto
      have b3: "take (length (u @ 92 # u04x c)) b2 = map Some (u @ 92 # u04x c)"
        using take_prefix [of "u @ 92 # u04x c" "[0]" b2] b2(3) by simp
      from Cons.IH [OF ls b3, of "k + 6" h] Cons.prems(3,4) b1 b2(1,2) False None show ?thesis
        unfolding escape_into.simps escaped.simps if_not_P [OF False] by simp
    qed
  qed
qed

lemma length_quoted: "length (quoted (Some (q, s))) = length s + escape_characters s + 2"
  by (simp add: quoted_def length_escaped)

lemma print_string_ptr_printing:
  assumes O: "opened d p h pre" and wf: "wf_heap h" and v: "str_at h v" "pbuffer p \<notin> set (ptrs v)"
  shows "printing h p (Some (length (pre @ quoted v) + 2)) (\<lambda>p' h'. closed d p' h' pre (quoted v))
    (print_string_ptr (ptr_of v) p h)"
proof (cases v)
  case None
  have "printing h p (Some (length (pre @ quoted v) + 2)) (\<lambda>p' h'. closed d p' h' pre (quoted v))
      (emit 3 ([34, 34] @ [0]) 0 p h)"
    by (rule printing_mono [OF emit_closed [OF O wf, of "[34, 34]"]]) (simp_all add: None quoted_def)
  then show ?thesis using None by (simp add: print_string_ptr_def)
next
  case (Some qs)
  then obtain q s where qs: "v = Some (q, s)" by (cases qs) auto
  have rs: "read_str q h = Some s" and qp: "q \<noteq> pbuffer p" using v qs by auto
  have qn: "q \<noteq> NULL" by (rule read_str_not_NULL [OF rs])
  have ql: "load q h \<noteq> None" using rs by (auto dest: read_str_SomeD)
  let ?ol = "length s + escape_characters s"
  let ?k = "\<lambda>p h. if escape_characters s = 0 then do {
           h \<leftarrow> write_at p 0 [34] h;
           s \<leftarrow> read_str q h;
           h \<leftarrow> write_at p 1 s h;
           h \<leftarrow> write_at p (?ol + 1) [34, 0] h;
           Some (True, p, h) }
         else do {
           h \<leftarrow> write_at p 0 [34] h;
           s \<leftarrow> read_str q h;
           h \<leftarrow> escape_into s p 1 h;
           h \<leftarrow> write_at p (?ol + 1) [34, 0] h;
           Some (True, p, h) }"
  have "printing h p (Some (length pre + (?ol + 3) + 1)) (\<lambda>p' h'. closed d p' h' pre (quoted v))
    (print_string_ptr (ptr_of v) p h)"
  proof (rule printing_bind [OF ensure_printing [OF O wf, of "?ol + 3"], where k = ?k])
    fix p' h' assume o1: "opened d p' h' pre \<and> length pre + (?ol + 3) + 1 \<le> plength p'" and wf1: "wf_heap h'"
      and K: "kept h (pbuffer p) h' (pbuffer p')"
    from o1 obtain b where b: "load_str (pbuffer p') h' = Some b" "plength p' \<le> length b" "take (length pre) b = map Some pre"
      and off': "poffset p' = length pre" and d: "pdepth p' = d" by (auto simp: opened_def)
    have off: "length pre = poffset p' + 0" using off' by simp
    have bn: "pbuffer p' \<noteq> NULL" using b(1) by (auto dest: load_str_live)
    have lq: "load q h' = load q h" "q \<noteq> pbuffer p'" using kept_load [OF K qp ql] by auto
    have ls: "load_str (pbuffer p') (setj (pbuffer p') (StrC x) h) = Some x" for x h
      using bn by (simp add: load_str_setj)
    have rq: "read_str q (setj (pbuffer p') (StrC x) h') = Some s" for x
      using rs lq bn by (simp add: read_str_def load_str_def load_setj)
    have sz: "length pre + ?ol + 4 \<le> length b" using o1 b(2) by simp
    then have "length pre + length [34 :: byte] \<le> length b" by simp
    from write_at_eq [OF b(1,3) off this] obtain b1 where
      b1: "write_at p' 0 [34] h' = Some (setj (pbuffer p') (StrC b1) h')" "length b1 = length b"
      "take (length (pre @ [34])) b1 = map Some (pre @ [34])" .
    have u1: "length (pre @ [34]) = poffset p' + 1" using off by simp
    have l1: "length (pre @ [34]) + length (escaped s) < length b1" using sz b1(2) by (simp add: length_escaped)
    from escape_into_eq [OF ls b1(3) u1 l1, of h'] obtain b2 where
      b2: "escape_into s p' 1 (setj (pbuffer p') (StrC b1) h') = Some (setj (pbuffer p') (StrC b2) h')"
      "length b2 = length b1" "take (length ((pre @ [34]) @ escaped s)) b2 = map Some ((pre @ [34]) @ escaped s)" by auto
    have plain: "\<exists>b2. write_at p' 1 s (setj (pbuffer p') (StrC b1) h') = Some (setj (pbuffer p') (StrC b2) h') \<and>
      length b2 = length b1 \<and> take (length ((pre @ [34]) @ escaped s)) b2 = map Some ((pre @ [34]) @ escaped s)"
      if "escape_characters s = 0"
    proof -
      have "length (pre @ [34]) + length s \<le> length b1" using sz b1(2) by simp
      from write_at_eq [OF ls b1(3) u1 this, of h'] obtain b2 where
        "write_at p' 1 s (setj (pbuffer p') (StrC b1) h') = Some (setj (pbuffer p') (StrC b2) h')"
        "length b2 = length b1" "take (length ((pre @ [34]) @ s)) b2 = map Some ((pre @ [34]) @ s)" by auto
      then show ?thesis unfolding escaped_id [OF that] by blast
    qed
    have "\<exists>b3. ?k p' h' = Some (True, p', setj (pbuffer p') (StrC b3) h') \<and> length b3 = length b \<and>
      take (length (pre @ quoted v @ [0])) b3 = map Some (pre @ quoted v @ [0])"
    proof -
      have finish: "\<exists>b3. write_at p' (?ol + 1) [34, 0] (setj (pbuffer p') (StrC b2) h') = Some (setj (pbuffer p') (StrC b3) h') \<and>
        length b3 = length b \<and> take (length (pre @ quoted v @ [0])) b3 = map Some (pre @ quoted v @ [0])"
        if "length b2 = length b1" "take (length ((pre @ [34]) @ escaped s)) b2 = map Some ((pre @ [34]) @ escaped s)" for b2
      proof -
        have u2: "length ((pre @ [34]) @ escaped s) = poffset p' + (?ol + 1)" using off by (simp add: length_escaped)
        have "length ((pre @ [34]) @ escaped s) + length [34, 0 :: byte] \<le> length b2"
          using sz b1(2) that(1) by (simp add: length_escaped)
        from write_at_eq [OF ls that(2) u2 this, of h'] show ?thesis using that(1) b1(2) qs by (auto simp: quoted_def)
      qed
      show ?thesis
      proof (cases "escape_characters s = 0")
        case True
        with plain obtain b2 where "write_at p' 1 s (setj (pbuffer p') (StrC b1) h') = Some (setj (pbuffer p') (StrC b2) h')"
          "length b2 = length b1" "take (length ((pre @ [34]) @ escaped s)) b2 = map Some ((pre @ [34]) @ escaped s)" by blast
        with finish [of b2] b1(1) rq True show ?thesis by auto
      next
        case False
        with finish [OF b2(2,3)] b1(1) rq b2(1) show ?thesis by auto
      qed
    qed
    then obtain b3 where b3: "?k p' h' = Some (True, p', setj (pbuffer p') (StrC b3) h')" "length b3 = length b"
      "take (length (pre @ quoted v @ [0])) b3 = map Some (pre @ quoted v @ [0])" by blast
    have "closed d p' (setj (pbuffer p') (StrC b3) h') pre (quoted v)"
    proof -
      have "length (pre @ quoted v) < plength p'" using o1 length_quoted [of q s] qs by simp
      then show ?thesis using b(2) b3(2,3) bn d off' quoted_not_0 [OF v(1)]
        by (simp add: closed_def load_str_setj)
    qed
    then show "printing h' p' (Some (length pre + (?ol + 3) + 1)) (\<lambda>p' h'. closed d p' h' pre (quoted v)) (?k p' h')"
      unfolding b3(1) using o1 wf1 by (intro printing_written [of d p' h' pre p']) simp_all
  qed (use qs rs qn in \<open>auto simp: print_string_ptr_def Let_def\<close>)
  moreover have "length pre + (?ol + 3) + 1 = length (pre @ quoted v) + 2" using length_quoted [of q s] qs by simp
  ultimately show ?thesis by (simp only:)
qed

lemma length_digits_of [simp]: "length (digits_of k n) = k"
  by (induction k arbitrary: n) auto

lemma unat_byte: "x < 256 \<Longrightarrow> unat (of_nat x :: byte) = x"
  by (simp add: unat_of_nat take_bit_nat_eq_self)

lemma digits_of_digit: "c \<in> set (digits_of k n) \<Longrightarrow> is_digit c"
proof (induction k arbitrary: n)
  case (Suc k)
  have "unat (of_nat (48 + n mod 10) :: byte) = 48 + n mod 10"
    by (rule unat_byte) simp
  then have "is_digit (of_nat (48 + n mod 10))" unfolding is_digit_def word_le_nat_alt by simp
  then show ?case using Suc by auto
qed simp

lemma strip_zeros_sub: "set (strip_zeros s) \<subseteq> set s" "length (strip_zeros s) \<le> length s"
proof -
  show "set (strip_zeros s) \<subseteq> set s" using set_dropWhileD by (fastforce simp: strip_zeros_def)
  show "length (strip_zeros s) \<le> length s" using length_dropWhile_le [of _ "rev s"] by (simp add: strip_zeros_def)
qed

lemma digit_number_char: "is_digit c \<Longrightarrow> number_char c"
  by (simp add: is_digit_def number_char_def)

lemma with_point_char:
  "(\<forall>c \<in> set ip \<union> set fp. number_char c) \<Longrightarrow> c \<in> set (with_point ip fp) \<Longrightarrow> number_char c"
  using strip_zeros_sub(1) [of fp] by (auto simp: with_point_def Let_def number_char_def split: if_splits)

lemma length_with_point: "length (with_point ip fp) \<le> length ip + 1 + length fp"
  using strip_zeros_sub(2) [of fp] by (simp add: with_point_def Let_def)

lemma exp_text_char: "c \<in> set (exp_text x) \<Longrightarrow> number_char c"
proof -
  have "number_char 101" "number_char 45" "number_char 43" by (simp_all add: number_char_def)
  then show "c \<in> set (exp_text x) \<Longrightarrow> number_char c"
    using digits_of_digit digit_number_char by (auto simp: exp_text_def Let_def split: if_splits)
qed

lemma length_exp_text: "length (exp_text x) \<le> 5"
  by (simp add: exp_text_def Let_def)

lemma sig_digits_props:
  assumes "sig_digits p q = (ds, x)"
  shows "length ds = p" and "c \<in> set ds \<Longrightarrow> number_char c"
  using assms digits_of_digit digit_number_char by (auto simp: sig_digits_def Let_def split: if_splits)

text \<open>A finite number as text: its alphabet, and a length that leaves room in \<open>number_buffer\<close>.\<close>

lemma fmt_abs_char: "c \<in> set (fmt_abs p q) \<Longrightarrow> number_char c"
proof -
  obtain ds x where s: "sig_digits p q = (ds, x)" by fastforce
  have "number_char 48" by (simp add: number_char_def)
  then have "\<forall>c \<in> set (take n ds) \<union> set (drop n ds). number_char c"
    "\<forall>c \<in> set [48] \<union> set (replicate n 48 @ ds). number_char c" for n
    using sig_digits_props(2) [OF s] by (auto dest: in_set_takeD in_set_dropD)
  from this [THEN with_point_char] show "c \<in> set (fmt_abs p q) \<Longrightarrow> number_char c"
    using exp_text_char by (auto simp only: fmt_abs_def s Let_def prod.case set_append Un_iff split: if_splits)
qed

lemma fmt_g_char:
  assumes "\<not> f64_nan d" and "\<not> f64_inf d" and "c \<in> set (fmt_g p d)"
  shows "number_char c"
proof -
  have "number_char 45" "number_char 48" by (simp_all add: number_char_def)
  with assms fmt_abs_char [of c p] show ?thesis by (auto simp: fmt_g_def split: if_splits)
qed

lemma length_fmt_abs: "length (fmt_abs p q) \<le> p + 6"
proof -
  obtain ds x where s: "sig_digits p q = (ds, x)" by fastforce
  note l = sig_digits_props(1) [OF s]
  have 1: "length (with_point (take n ds) (drop n ds)) \<le> p + 1" for n
    using length_with_point [of "take n ds" "drop n ds"] l by simp
  have 2: "length (with_point [48] (replicate (nat (- x) - 1) 48 @ ds)) \<le> p + 5" if "\<not> x < -4"
    using length_with_point [of "[48]" "replicate (nat (- x) - 1) 48 @ ds"] l that by simp
  show ?thesis using 1 [of 1] 1 [of "nat x + 1"] 2 length_exp_text [of x]
    by (auto simp: fmt_abs_def s)
qed

lemma length_fmt_g: "length (fmt_g p d) \<le> p + 7"
  using length_fmt_abs [of p "f64_abs d"] by (auto simp: fmt_g_def)

lemma number_text_char: "\<not> f64_times_0_ne_0 d \<Longrightarrow> c \<in> set (number_text d) \<Longrightarrow> number_char c"
  using fmt_g_char [of d c 15] fmt_g_char [of d c 17]
  by (auto simp: number_text_def f64_times_0_ne_0_def Let_def split: prod.splits if_splits)

lemma length_number_text: "length (number_text d) \<le> 24"
  using length_fmt_g [of 15 d] length_fmt_g [of 17 d] by (auto simp: number_text_def Let_def split: prod.splits)

lemma number_text_not_0: "0 \<notin> set (number_text d)"
proof (cases "f64_times_0_ne_0 d")
  case True
  then show ?thesis by (simp add: number_text_def)
next
  case False
  have "\<not> number_char 0" by (simp add: number_char_def)
  then show ?thesis using number_text_char [OF False] by blast
qed

lemma print_number_printing:
  assumes O: "opened d p h pre" and wf: "wf_heap h"
  shows "printing h p (Some (length (pre @ number_text (valuedouble i)) + 2))
    (\<lambda>p' h'. closed d p' h' pre (number_text (valuedouble i))) (print_number i p h)"
proof -
  let ?t = "number_text (valuedouble i)"
  have "print_number i p h = emit (length ?t + 1) (?t @ [0]) (length ?t) p h"
    using length_number_text [of "valuedouble i"] by (simp add: print_number_def Let_def pokes_Some)
  moreover have "printing h p (Some (length pre + (length ?t + 1) + 1)) (\<lambda>p' h'. closed d p' h' pre ?t)
      (emit (length ?t + 1) (?t @ [0]) (length ?t) p h)"
    by (rule emit_closed [OF O wf]) (simp_all add: number_text_not_0)
  ultimately show ?thesis by simp
qed

end
