(* ===== verification/CJsonPrintOk.thy ===== *)
theory CJsonPrintOk
  imports CJsonRender
begin

text \<open>
  The printing functions meet their contract: whatever tree they are given, they return, they touch
  nothing but the output buffer, and on success the buffer holds the text of the tree.  The
  contract of the printer of one value is the locale \<open>value_printing\<close>; arrays and objects are
  verified against it, and \<open>print_value\<close> is its model.
\<close>

subsection \<open>Sequencing\<close>

lemma printing_offset [simp]:
  "printing h (p\<lparr>poffset := k\<rparr>) m Q r = printing h p m Q r"
  "printing h (p\<lparr>pdepth := k\<rparr>) m Q r = printing h p m Q r"
  by (simp_all add: printing_def fits_def same_mode_def)

lemma printing_seq:
  assumes "printing h p m1 Q1 r"
    and "\<And>p' h'. Q1 p' h' \<Longrightarrow> wf_heap h' \<Longrightarrow> same_mode p p' \<Longrightarrow> kept h (pbuffer p) h' (pbuffer p') \<Longrightarrow>
      printing h' p' m2 Q2 (k p' h')"
    and "m2 \<noteq> None \<Longrightarrow> m1 \<noteq> None \<and> the m1 \<le> the m2"
  shows "printing h p m2 Q2 (do { (ok, p, h) \<leftarrow> r; (if \<not> ok then Some (False, p, h) else k p h) })"
  by (rule printing_bind [OF assms(1), where k = k]) (use assms(2,3) in auto)

lemma printing_update:
  assumes C: "closed d p h pre s" and k: "\<And>p1. opened d p1 h (pre @ s) \<Longrightarrow> same_mode p p1 \<Longrightarrow> pbuffer p1 = pbuffer p \<Longrightarrow>
    printing h p1 m Q (k p1)"
  shows "printing h p m Q (update_offset p h \<bind> k)"
  using k [OF update_offset_closed(2) [OF C]] update_offset_closed(1) [OF C] by (simp add: same_mode_def)

lemma printing_skip:
  "opened d p h pre \<Longrightarrow> wf_heap h \<Longrightarrow> printing h p m (\<lambda>p' h'. opened d p' h' pre) (Some (True, p, h))"
  by (rule printingI [OF refl]) (auto simp: opened_def intro!: kept_refl)

lemma printing_mode:
  assumes "printing h p m Q r"
  shows "printing h p m (\<lambda>p' h'. Q p' h' \<and> same_mode p p') r"
  using assms
proof (cases rule: printingE)
  case (1 ok p' h')
  show ?thesis by (rule printingI [OF 1(1-4)]) (use 1 in auto)
qed

text \<open>The last step of arrays and objects, which leaves one level.\<close>

lemma printing_leave:
  assumes "printing h p m Q r" and "\<And>p' h'. Q p' h' \<Longrightarrow> Q' (p'\<lparr>pdepth := pdepth p' - 1\<rparr>) h'"
  shows "printing h p m Q' (do { (ok, p, h) \<leftarrow> r; Some (ok, if ok then p\<lparr>pdepth := pdepth p - 1\<rparr> else p, h) })"
  using assms(1)
proof (cases rule: printingE)
  case (1 ok p' h')
  let ?p = "if ok then p'\<lparr>pdepth := pdepth p' - 1\<rparr> else p'"
  have s: "same_mode p ?p = same_mode p p'" "pbuffer ?p = pbuffer p'" "fits ?p h' N = fits p' h' N" for N
    by (simp_all add: same_mode_def fits_def)
  show ?thesis
  proof (rule printingI [of _ ok ?p h'])
    show "Q' ?p h'" if ok using assms(2) 1(5) [OF that] that by simp
    show "ok \<and> fits ?p h' N" if "fits p h N" "m = Some m'" "m' \<le> N" for N m'
      using 1(6) [OF that] s(3) by simp
  qed (use 1(1-4) s in simp_all)
qed

text \<open>An optional piece of text.\<close>

lemma piece_opened:
  assumes "opened d p h pre" and "wf_heap h" and "w = s \<or> w = s @ [0]" and "length w \<le> n + 1" "length s \<le> n"
    and "length pre + n + 1 \<le> m"
  shows "printing h p (Some m) (\<lambda>p' h'. opened d p' h' (pre @ s)) (emit n w (length s) p h)"
  by (rule printing_mono [OF emit_opened [OF assms(1-5)]]) (use assms(6) in auto)

lemma kept_items:
  assumes K: "kept h b h' b'" and I: "items_at h a ts c" and n: "b \<notin> set (blocks ts)"
  shows "items_at h' a ts c" and "b' \<notin> set (blocks ts)"
proof -
  have "load q h' = load q h \<and> q \<noteq> b'" if "q \<in> set (blocks ts)" for q
    using kept_load [OF K _ items_at_live [OF I that]] n that by blast
  then show "items_at h' a ts c" "b' \<notin> set (blocks ts)" using items_at_cong [of ts h' h] I by auto
qed

text \<open>The text of a tree whose strings are C strings contains no zero byte.\<close>

lemma small_texts_not_0 [simp]: "0 \<notin> set (comma f)" "0 \<notin> set (colon f)" "0 \<notin> set (newline f)" "0 \<notin> set (tabs f n)"
  by (auto simp: comma_def colon_def newline_def tabs_def)

lemma render_not_0:
  "items_at h a [t] b \<Longrightarrow> render fmt d t = Some s \<Longrightarrow> 0 \<notin> set s"
  "items_at h a ts b \<Longrightarrow> render_elements fmt d ts = Some s \<Longrightarrow> 0 \<notin> set s"
  "items_at h a ts b \<Longrightarrow> render_members fmt d ts = Some s \<Longrightarrow> 0 \<notin> set s"
proof (induction fmt d t and fmt d ts and fmt d ts arbitrary: a b s and a b s and a b s
    rule: render_render_elements_render_members.induct)
  case (1 fmt d p ty vs vi vd k ks)
  have vs: "str_at h vs" and ks: "items_at h NULL ks NULL" using "1.prems"(1) by simp_all
  have raw: "0 \<notin> set x" if "map_option snd vs = Some x" for x
    using that str_at_not_0 [OF vs] by (cases vs) auto
  have e: "0 \<notin> set x" if "render_elements fmt (d + 1) ks = Some x" "ty AND 0xFF = cJSON_Array" for x
    by (rule "1.IH"(1) [OF refl _ _ _ _ _ _ _ ks]) (use that in \<open>simp_all add: ctype_defs\<close>)
  have m: "0 \<notin> set x" if "render_members fmt (d + 1) ks = Some x" "ty AND 0xFF = cJSON_Object" for x
    by (rule "1.IH"(2) [OF refl _ _ _ _ _ _ _ _ ks]) (use that in \<open>simp_all add: ctype_defs\<close>)
  show ?case using "1.prems"(2) e m raw quoted_not_0 [OF vs] number_text_not_0 [of vd]
    by (auto simp: Let_def split: if_splits)
next
  case (3 fmt d t ts)
  have I: "items_at h a [t] (first_addr ts b)" "items_at h (jaddr t) ts b" using "3.prems"(1) by (cases t; simp)+
  from "3.prems"(2) obtain x y where x: "render fmt d t = Some x" and y: "render_elements fmt d ts = Some y"
    and s: "s = x @ (if ts = [] then [] else comma fmt) @ y" by (auto simp: bind_eq_Some_conv)
  show ?case using "3.IH"(1) [OF I(1) x] "3.IH"(2) [OF x I(2) y] s by auto
next
  case (5 fmt d t ts)
  have I: "items_at h a [t] (first_addr ts b)" "items_at h (jaddr t) ts b" using "5.prems"(1) by (cases t; simp)+
  have k: "str_at h (jkey t)" using I(1) by (cases t) simp
  from "5.prems"(2) obtain x y where x: "render fmt d t = Some x" and y: "render_members fmt d ts = Some y"
    and s: "s = tabs fmt d @ quoted (jkey t) @ colon fmt @ x @ (if ts = [] then [] else [44]) @ newline fmt @ y"
    by (auto simp: bind_eq_Some_conv)
  show ?case using "5.IH"(1) [OF I(1) x] "5.IH"(2) [OF x I(2) y] s quoted_not_0 [OF k] by auto
qed auto

definition room :: "byte list \<Rightarrow> byte list option \<Rightarrow> nat option" where
  "room pre txt = map_option (\<lambda>s. length (pre @ s) + 2) txt"

definition prints :: "jheap \<Rightarrow> printbuffer \<Rightarrow> nat \<Rightarrow> byte list \<Rightarrow> byte list option \<Rightarrow>
    (bool \<times> printbuffer \<times> jheap) option \<Rightarrow> bool" where
  "prints h p d pre txt r \<longleftrightarrow>
     printing h p (room pre txt) (\<lambda>p' h'. \<exists>s. txt = Some s \<and> closed d p' h' pre s) r"

locale value_printing =
  fixes pv :: value_printer
    and limit :: nat
  assumes prints: "items_at h a [t] c \<Longrightarrow> height [t] \<le> limit \<Longrightarrow> opened d p h pre \<Longrightarrow> wf_heap h \<Longrightarrow>
    pbuffer p \<notin> set (blocks [t]) \<Longrightarrow> prints h p d pre (render (pformat p) d t) (pv (jaddr t) p h)"
begin

text \<open>The elements of an array.\<close>

lemma elements_printing:
  "items_at h a ts NULL \<Longrightarrow> height ts \<le> limit \<Longrightarrow> opened d p h pre \<Longrightarrow> wf_heap h \<Longrightarrow> pbuffer p \<notin> set (blocks ts) \<Longrightarrow>
   printing h p (room pre (render_elements (pformat p) d ts))
     (\<lambda>p' h'. \<exists>s. render_elements (pformat p) d ts = Some s \<and> opened d p' h' (pre @ s))
     (print_elements pv (first_addr ts NULL) p h)"
proof (induction ts arbitrary: h a p pre)
  case Nil
  then have "opened d p h (pre @ [])" by simp
  from printing_skip [OF this Nil.prems(4)] Nil show ?case
    by (simp add: print_elements.simps [of pv NULL] printing_mono)
next
  case (Cons t ts)
  let ?f = "pformat p" and ?T = "render_elements (pformat p) d (t # ts)"
  let ?m = "room pre ?T" and ?Q = "\<lambda>p' h'. \<exists>s. ?T = Some s \<and> opened d p' h' (pre @ s)"
  obtain q ty vs vi vd k ks where t: "t = JT q ty vs vi vd k ks" by (cases t)
  have I: "items_at h a [t] (first_addr ts NULL)" "items_at h (jaddr t) ts NULL"
    using Cons.prems(1) by (simp_all add: t)
  have B: "pbuffer p \<notin> set (blocks [t])" "pbuffer p \<notin> set (blocks ts)" using Cons.prems(5) by (simp_all add: t)
  have H: "height [t] \<le> limit" "height ts \<le> limit" using Cons.prems(2) by (simp_all add: t)
  have qn: "jaddr t \<noteq> NULL" using I(1) by (auto simp: t dest: load_item_not_NULL)
  have P: "printing h p (room pre (render ?f d t)) (\<lambda>p' h'. \<exists>s. render ?f d t = Some s \<and> closed d p' h' pre s)
      (pv (jaddr t) p h)"
    using prints [OF I(1) H(1) Cons.prems(3,4) B(1)] by (simp add: prints_def)
  let ?k = "\<lambda>p h. do {
           p \<leftarrow> update_offset p h;
           i \<leftarrow> load_item (jaddr t) h;
           r \<leftarrow> (if inext i \<noteq> NULL then
                   (let sep = (if pformat p then [44, 32] else [44]) in
                    emit (length sep + 1) (sep @ [0]) (length sep) p h)
                 else Some (True, p, h));
           (if \<not> fst r then Some r
            else print_elements pv (inext i) (fst (snd r)) (snd (snd r))) }"
  have "printing h p ?m ?Q (print_elements pv (jaddr t) p h)"
  proof (rule printing_bind [OF P, where k = ?k])
    fix p1 h1 assume S: "\<exists>s. render ?f d t = Some s \<and> closed d p1 h1 pre s" and wf1: "wf_heap h1"
      and sm: "same_mode p p1" and K: "kept h (pbuffer p) h1 (pbuffer p1)"
    from S obtain x where x: "render ?f d t = Some x" "closed d p1 h1 pre x" by blast
    let ?c = "if ts = [] then [] else comma ?f"
    have tx: "?T = map_option (\<lambda>y. x @ ?c @ y) (render_elements ?f d ts)"
      using x(1) by (cases "render_elements ?f d ts") simp_all
    note I1 = kept_items [OF K I(1) B(1)] and I2 = kept_items [OF K I(2) B(2)]
    from I1(1) obtain i where i: "load_item (jaddr t) h1 = Some i" "inext i = first_addr ts NULL"
      by (auto simp: t)
    show "printing h1 p1 ?m ?Q (?k p1 h1)"
    proof (rule printing_update [OF x(2)])
      fix p2 assume o2: "opened d p2 h1 (pre @ x)" and sm2: "same_mode p1 p2" and b2: "pbuffer p2 = pbuffer p1"
      have f2: "pformat p2 = ?f" using sm sm2 by (simp add: same_mode_def)
      have tn: "(first_addr ts NULL = NULL) = (ts = [])" using first_addr_NULL [OF I(2)] .
      let ?r = "if first_addr ts NULL \<noteq> NULL then
                   (let sep = (if pformat p2 then [44, 32] else [44]) in
                    emit (length sep + 1) (sep @ [0]) (length sep) p2 h1)
                 else Some (True, p2, h1)"
      have C: "printing h1 p2 (Some (length (pre @ x @ ?c) + 2)) (\<lambda>p' h'. opened d p' h' ((pre @ x) @ ?c)) ?r"
      proof (cases "ts = []")
        case True
        then show ?thesis using printing_skip [OF o2 wf1] tn by simp
      next
        case False
        have "printing h1 p2 (Some (length (pre @ x @ comma ?f) + 2)) (\<lambda>p' h'. opened d p' h' ((pre @ x) @ comma ?f))
            (emit (length (comma ?f) + 1) (comma ?f @ [0]) (length (comma ?f)) p2 h1)"
          by (rule piece_opened [OF o2 wf1]) simp_all
        then show ?thesis using False tn f2 by (simp add: comma_def Let_def)
      qed
      have "printing h1 p2 ?m ?Q (do { r \<leftarrow> ?r; (if \<not> fst r then Some r
            else print_elements pv (first_addr ts NULL) (fst (snd r)) (snd (snd r))) })"
      proof (rule printing_bind [OF C, where k = "\<lambda>p h. print_elements pv (first_addr ts NULL) p h"])
        fix p3 h3 assume o3: "opened d p3 h3 ((pre @ x) @ ?c)" and wf3: "wf_heap h3" and sm3: "same_mode p2 p3"
          and K3: "kept h1 (pbuffer p2) h3 (pbuffer p3)"
        have f3: "pformat p3 = ?f" using sm3 f2 by (simp add: same_mode_def)
        note I3 = kept_items [OF K3 I2(1)] I2(2)
        from Cons.IH [OF I3(1) H(2) o3 wf3] I3 b2
        have "printing h3 p3 (room ((pre @ x) @ ?c) (render_elements ?f d ts))
            (\<lambda>p' h'. \<exists>s. render_elements ?f d ts = Some s \<and> opened d p' h' (((pre @ x) @ ?c) @ s))
            (print_elements pv (first_addr ts NULL) p3 h3)"
          using f3 by simp
        then show "printing h3 p3 ?m ?Q (print_elements pv (first_addr ts NULL) p3 h3)"
          by (rule printing_mono) (auto simp: x(1) room_def bind_eq_Some_conv)
      qed (auto simp: x(1) room_def bind_eq_Some_conv)
      then show "printing h1 p2 ?m ?Q (do { i \<leftarrow> load_item (jaddr t) h1;
           r \<leftarrow> (if inext i \<noteq> NULL then
                   (let sep = (if pformat p2 then [44, 32] else [44]) in
                    emit (length sep + 1) (sep @ [0]) (length sep) p2 h1)
                 else Some (True, p2, h1));
           (if \<not> fst r then Some r
            else print_elements pv (inext i) (fst (snd r)) (snd (snd r))) })"
        by (simp only: i Option.bind.bind_lunit)
    qed
  qed (use qn in \<open>auto simp: room_def bind_eq_Some_conv print_elements.simps [of pv "jaddr t"] cong: if_cong\<close>)
  then show ?case by (simp only: addr_simps)
qed

lemma array_printing:
  assumes I: "items_at h NULL ks NULL" and H: "height ks \<le> limit" and O: "opened d p h pre" and wf: "wf_heap h"
    and B: "pbuffer p \<notin> set (blocks ks)" and i: "child i = first_addr ks NULL"
  shows "prints h p d pre (map_option (\<lambda>s. [91] @ s @ [93]) (render_elements (pformat p) (d + 1) ks)) (print_array pv i p h)"
proof -
  let ?f = "pformat p"
  let ?E = "render_elements ?f (d + 1) ks"
  let ?T = "map_option (\<lambda>s. [91] @ s @ [93]) ?E"
  let ?m = "room pre ?T" and ?Q = "\<lambda>p' h'. \<exists>s. ?T = Some s \<and> closed d p' h' pre s"
  let ?k2 = "\<lambda>p h. do {
           (ok, p, h) \<leftarrow> emit 2 [93, 0] 0 p h;
           Some (ok, if ok then p\<lparr>pdepth := pdepth p - 1\<rparr> else p, h) }"
  let ?k1 = "\<lambda>p h. do {
        (ok, p, h) \<leftarrow> print_elements pv (child i) (p\<lparr>pdepth := pdepth p + 1\<rparr>) h;
        (if \<not> ok then Some (False, p, h) else ?k2 p h) }"
  have "printing h p ?m ?Q (do { (ok, p, h) \<leftarrow> emit 1 [91] 1 p h; (if \<not> ok then Some (False, p, h) else ?k1 p h) })"
  proof (rule printing_seq)
    show "printing h p (Some (length (pre @ [91]) + 1)) (\<lambda>p' h'. opened d p' h' (pre @ [91])) (emit 1 [91] 1 p h)"
      using emit_opened [OF O wf, of "[91]" "[91]" 1] by simp
    fix p1 h1 assume o1: "opened d p1 h1 (pre @ [91])" and wf1: "wf_heap h1" and sm1: "same_mode p p1"
      and K1: "kept h (pbuffer p) h1 (pbuffer p1)"
    let ?p1 = "p1\<lparr>pdepth := pdepth p1 + 1\<rparr>"
    note I1 = kept_items [OF K1 I B]
    have f1: "pformat ?p1 = ?f" using sm1 by (simp add: same_mode_def)
    have o1': "opened (d + 1) ?p1 h1 (pre @ [91])" using o1 by (auto simp: opened_def)
    have "printing h1 ?p1 (room (pre @ [91]) ?E) (\<lambda>p' h'. \<exists>s. ?E = Some s \<and> opened (d + 1) p' h' ((pre @ [91]) @ s))
        (print_elements pv (first_addr ks NULL) ?p1 h1)"
      using elements_printing [OF I1(1) H o1' wf1] I1(2) f1 by simp
    then have E: "printing h1 p1 (room (pre @ [91]) ?E) (\<lambda>p' h'. \<exists>s. ?E = Some s \<and> opened (d + 1) p' h' ((pre @ [91]) @ s))
        (print_elements pv (child i) ?p1 h1)" by (simp only: printing_offset i)
    show "printing h1 p1 ?m ?Q (?k1 p1 h1)"
    proof (rule printing_seq [OF E])
      fix p2 h2 assume "\<exists>s. ?E = Some s \<and> opened (d + 1) p2 h2 ((pre @ [91]) @ s)" and wf2: "wf_heap h2"
      then obtain s where s: "?E = Some s" and o2: "opened (d + 1) p2 h2 (pre @ [91] @ s)" by auto
      have "printing h2 p2 (Some (length (pre @ [91] @ s) + 2 + 1)) (\<lambda>p' h'. closed (d + 1) p' h' (pre @ [91] @ s) [93])
          (emit 2 [93, 0] 0 p2 h2)"
        using emit_closed [OF o2 wf2, of "[93]" 2 0] by simp
      then have "printing h2 p2 (Some (length (pre @ [91] @ s) + 2 + 1)) (\<lambda>p' h'. closed d p' h' pre ([91] @ s @ [93])) (?k2 p2 h2)"
        by (rule printing_leave) (use render_not_0(2) [OF I s] in \<open>auto simp: closed_def\<close>)
      then show "printing h2 p2 ?m ?Q (?k2 p2 h2)"
        by (rule printing_mono) (auto simp: s [simplified] room_def)
    qed (auto simp: room_def)
  qed (auto simp: room_def)
  then show ?thesis by (simp add: prints_def print_array_def)
qed

text \<open>The members of an object, one and all.\<close>

lemma member_printing:
  assumes I: "items_at h a [t] c" and H: "height [t] \<le> limit" and O: "opened d p h pre" and wf: "wf_heap h"
    and B: "pbuffer p \<notin> set (blocks [t])" and f: "pformat p = fmt" and T: "render fmt d t = x"
    and tail: "tail = (if c \<noteq> NULL then [44] else []) @ newline fmt"
  shows "printing h p (room pre (map_option (\<lambda>x. tabs fmt d @ quoted (jkey t) @ colon fmt @ x @ tail) x))
    (\<lambda>p' h'. \<exists>s. x = Some s \<and> opened d p' h' (pre @ tabs fmt d @ quoted (jkey t) @ colon fmt @ s @ tail))
    (print_member pv (jaddr t) p h)"
proof -
  obtain q ty vs vi vd k ks where t: "t = JT q ty vs vi vd k ks" by (cases t)
  let ?m = "room pre (map_option (\<lambda>x. tabs fmt d @ quoted (jkey t) @ colon fmt @ x @ tail) x)"
    and ?Q = "\<lambda>p' h'. \<exists>s. x = Some s \<and> opened d p' h' (pre @ tabs fmt d @ quoted (jkey t) @ colon fmt @ s @ tail)"
  let ?k4 = "\<lambda>p h. do { p \<leftarrow> update_offset p h; i \<leftarrow> load_item (jaddr t) h;
     (let sep = (if inext i \<noteq> NULL then [44] else []) @ (if pformat p then [10] else []) in
      emit (length sep + 1) (sep @ [0]) (length sep) p h) }"
  let ?k3 = "\<lambda>p h. do { (ok, p, h) \<leftarrow> pv (jaddr t) p h; (if \<not> ok then Some (False, p, h) else ?k4 p h) }"
  let ?k2 = "\<lambda>p h. do { p \<leftarrow> update_offset p h;
     (let sep = (if pformat p then [58, 9] else [58]) in
      do { (ok, p, h) \<leftarrow> emit (length sep) sep (length sep) p h; (if \<not> ok then Some (False, p, h) else ?k3 p h) }) }"
  let ?k1 = "\<lambda>p h. do { i \<leftarrow> load_item (jaddr t) h;
     (ok, p, h) \<leftarrow> print_string_ptr (key i) p h; (if \<not> ok then Some (False, p, h) else ?k2 p h) }"
  let ?r0 = "if pformat p then emit (pdepth p) (replicate (pdepth p) 9) (pdepth p) p h else Some (True, p, h)"
  have dp: "pdepth p = d" using O by (simp add: opened_def)
  have r0: "printing h p (Some (length (pre @ tabs fmt d) + 1)) (\<lambda>p' h'. opened d p' h' (pre @ tabs fmt d)) ?r0"
    using emit_opened [OF O wf, of "tabs fmt d" "tabs fmt d" d] printing_skip [OF O wf] f dp
    by (cases fmt) (simp_all add: tabs_def)
  have "printing h p ?m ?Q (do { (ok, p, h) \<leftarrow> ?r0; (if \<not> ok then Some (False, p, h) else ?k1 p h) })"
  proof (rule printing_seq [OF r0])
    fix p1 h1 assume o1: "opened d p1 h1 (pre @ tabs fmt d)" and wf1: "wf_heap h1" and sm1: "same_mode p p1"
      and K1: "kept h (pbuffer p) h1 (pbuffer p1)"
    note I1 = kept_items [OF K1 I B]
    have k: "str_at h1 (jkey t)" "pbuffer p1 \<notin> set (ptrs (jkey t))" using I1 by (auto simp: t)
    obtain i where i: "load_item (jaddr t) h1 = Some i" "key i = ptr_of (jkey t)" using I1(1) by (auto simp: t)
    have "printing h1 p1 ?m ?Q (do { (ok, p, h) \<leftarrow> print_string_ptr (ptr_of (jkey t)) p1 h1;
        (if \<not> ok then Some (False, p, h) else ?k2 p h) })"
    proof (rule printing_seq [OF print_string_ptr_printing [OF o1 wf1 k]])
      fix p2 h2 assume c2: "closed d p2 h2 (pre @ tabs fmt d) (quoted (jkey t))" and wf2: "wf_heap h2"
        and sm2: "same_mode p1 p2" and K2: "kept h1 (pbuffer p1) h2 (pbuffer p2)"
      note I2 = kept_items [OF K2 I1]
      show "printing h2 p2 ?m ?Q (?k2 p2 h2)"
      proof (rule printing_update [OF c2])
        fix p3 assume o3: "opened d p3 h2 ((pre @ tabs fmt d) @ quoted (jkey t))" and sm3: "same_mode p2 p3"
          and b3: "pbuffer p3 = pbuffer p2"
        have f3: "pformat p3 = fmt" using sm1 sm2 sm3 f by (simp add: same_mode_def)
        let ?pre = "((pre @ tabs fmt d) @ quoted (jkey t)) @ colon fmt"
        have "printing h2 p3 ?m ?Q (do { (ok, p, h) \<leftarrow> emit (length (colon fmt)) (colon fmt) (length (colon fmt)) p3 h2;
            (if \<not> ok then Some (False, p, h) else ?k3 p h) })"
        proof (rule printing_seq [OF emit_opened [OF o3 wf2]])
          fix p4 h3 assume o4: "opened d p4 h3 ?pre" and wf3: "wf_heap h3" and sm4: "same_mode p3 p4"
            and K4: "kept h2 (pbuffer p3) h3 (pbuffer p4)"
          have f4: "pformat p4 = fmt" using sm4 f3 by (simp add: same_mode_def)
          note I4 = kept_items [OF K4 I2(1)] I2(2)
          from prints [OF I4(1) H o4 wf3] I4 b3 f4 T
          have V: "printing h3 p4 (room ?pre x) (\<lambda>p' h'. \<exists>s. x = Some s \<and> closed d p' h' ?pre s) (pv (jaddr t) p4 h3)"
            by (simp add: prints_def)
          show "printing h3 p4 ?m ?Q (?k3 p4 h3)"
          proof (rule printing_seq [OF V])
            fix p5 h4 assume "\<exists>s. x = Some s \<and> closed d p5 h4 ?pre s" and wf4: "wf_heap h4"
              and sm5: "same_mode p4 p5" and K5: "kept h3 (pbuffer p4) h4 (pbuffer p5)"
            then obtain s where s: "x = Some s" and c5: "closed d p5 h4 ?pre s" by blast
            note I5 = kept_items [OF K5 I4(1)]
            obtain j where j: "load_item (jaddr t) h4 = Some j" "inext j = c" using I5 I4 b3 by (auto simp: t)
            show "printing h4 p5 ?m ?Q (?k4 p5 h4)"
            proof (rule printing_update [OF c5])
              fix p6 assume o6: "opened d p6 h4 (?pre @ s)" and sm6: "same_mode p5 p6"
              have tl: "(if c \<noteq> NULL then [44] else []) @ (if pformat p6 then [10] else []) = tail"
                using sm6 sm5 f4 tail by (simp add: same_mode_def newline_def)
              have "printing h4 p6 (Some (length (?pre @ s @ tail) + 2)) (\<lambda>p' h'. opened d p' h' ((?pre @ s) @ tail))
                  (emit (length tail + 1) (tail @ [0]) (length tail) p6 h4)"
                by (rule piece_opened [OF o6 wf4]) simp_all
              then have "printing h4 p6 ?m ?Q (emit (length tail + 1) (tail @ [0]) (length tail) p6 h4)"
                by (rule printing_mono) (auto simp: s room_def)
              then show "printing h4 p6 ?m ?Q (do { i \<leftarrow> load_item (jaddr t) h4;
                  (let sep = (if inext i \<noteq> NULL then [44] else []) @ (if pformat p6 then [10] else []) in
                   emit (length sep + 1) (sep @ [0]) (length sep) p6 h4) })"
                by (simp only: j Option.bind.bind_lunit tl Let_def)
            qed
          qed (auto simp: room_def)
        qed (auto simp: room_def)
        then show "printing h2 p3 ?m ?Q (let sep = (if pformat p3 then [58, 9] else [58]) in
            do { (ok, p, h) \<leftarrow> emit (length sep) sep (length sep) p3 h2; (if \<not> ok then Some (False, p, h) else ?k3 p h) })"
          by (simp only: Let_def f3 colon_def [symmetric])
      qed
    qed (auto simp: room_def)
    then show "printing h1 p1 ?m ?Q (?k1 p1 h1)" by (simp only: i Option.bind.bind_lunit)
  qed (auto simp: room_def)
  then show ?thesis by (simp only: print_member_def)
qed

lemma members_printing:
  "items_at h a ts NULL \<Longrightarrow> height ts \<le> limit \<Longrightarrow> opened d p h pre \<Longrightarrow> wf_heap h \<Longrightarrow> pbuffer p \<notin> set (blocks ts) \<Longrightarrow>
   printing h p (room pre (render_members (pformat p) d ts))
     (\<lambda>p' h'. \<exists>s. render_members (pformat p) d ts = Some s \<and> opened d p' h' (pre @ s))
     (print_members pv (first_addr ts NULL) p h)"
proof (induction ts arbitrary: h a p pre)
  case Nil
  then have "opened d p h (pre @ [])" by simp
  from printing_skip [OF this Nil.prems(4)] Nil show ?case
    by (simp add: print_members.simps [of pv NULL] printing_mono)
next
  case (Cons t ts)
  let ?f = "pformat p" and ?T = "render_members (pformat p) d (t # ts)"
  let ?m = "room pre ?T" and ?Q = "\<lambda>p' h'. \<exists>s. ?T = Some s \<and> opened d p' h' (pre @ s)"
  let ?tail = "(if first_addr ts NULL \<noteq> NULL then [44] else []) @ newline ?f"
  let ?M = "\<lambda>x. tabs ?f d @ quoted (jkey t) @ colon ?f @ x @ ?tail"
  obtain q ty vs vi vd k ks where t: "t = JT q ty vs vi vd k ks" by (cases t)
  have I: "items_at h a [t] (first_addr ts NULL)" "items_at h (jaddr t) ts NULL"
    using Cons.prems(1) by (simp_all add: t)
  have B: "pbuffer p \<notin> set (blocks [t])" "pbuffer p \<notin> set (blocks ts)" using Cons.prems(5) by (simp_all add: t)
  have H: "height [t] \<le> limit" "height ts \<le> limit" using Cons.prems(2) by (simp_all add: t)
  have qn: "jaddr t \<noteq> NULL" using I(1) by (auto simp: t dest: load_item_not_NULL)
  have tail: "?tail = (if ts = [] then [] else [44]) @ newline ?f" using first_addr_NULL [OF I(2)] by simp
  have T: "?T = do { x \<leftarrow> render ?f d t; map_option (append (?M x)) (render_members ?f d ts) }"
    unfolding tail by (cases "render ?f d t"; cases "render_members ?f d ts") simp_all
  let ?k = "\<lambda>p h. do { i \<leftarrow> load_item (jaddr t) h; print_members pv (inext i) p h }"
  have "printing h p ?m ?Q (print_members pv (jaddr t) p h)"
  proof (rule printing_bind [OF member_printing [OF I(1) H(1) Cons.prems(3,4) B(1) refl refl refl], where k = ?k])
    fix p1 h1 assume S: "\<exists>s. render ?f d t = Some s \<and>
        opened d p1 h1 (pre @ tabs ?f d @ quoted (jkey t) @ colon ?f @ s @ ?tail)" and wf1: "wf_heap h1"
      and sm: "same_mode p p1" and K: "kept h (pbuffer p) h1 (pbuffer p1)"
    from S obtain x where x: "render ?f d t = Some x" "opened d p1 h1 (pre @ ?M x)" by blast
    have f1: "pformat p1 = ?f" using sm by (simp add: same_mode_def)
    from kept_items [OF K I(1) B(1)] obtain i where i: "load_item (jaddr t) h1 = Some i" "inext i = first_addr ts NULL"
      by (auto simp: t)
    note I2 = kept_items [OF K I(2) B(2)]
    from Cons.IH [OF I2(1) H(2) x(2) wf1 I2(2)]
    have "printing h1 p1 (room (pre @ ?M x) (render_members ?f d ts))
        (\<lambda>p' h'. \<exists>s. render_members ?f d ts = Some s \<and> opened d p' h' ((pre @ ?M x) @ s))
        (print_members pv (first_addr ts NULL) p1 h1)" by (simp only: f1)
    then have "printing h1 p1 ?m ?Q (print_members pv (first_addr ts NULL) p1 h1)"
      by (rule printing_mono) (unfold T, auto simp: x(1) room_def)
    then show "printing h1 p1 ?m ?Q (?k p1 h1)" by (simp only: i Option.bind.bind_lunit)
  qed (unfold T, auto simp: room_def bind_eq_Some_conv qn print_members.simps [of pv "jaddr t"] cong: if_cong)
  then show ?case by (simp only: addr_simps)
qed

lemma object_printing:
  assumes I: "items_at h NULL ks NULL" and H: "height ks \<le> limit" and O: "opened d p h pre" and wf: "wf_heap h"
    and B: "pbuffer p \<notin> set (blocks ks)" and i: "child i = first_addr ks NULL"
  shows "prints h p d pre (map_option (\<lambda>s. [123] @ newline (pformat p) @ s @ tabs (pformat p) d @ [125])
    (render_members (pformat p) (d + 1) ks)) (print_object pv i p h)"
proof -
  let ?f = "pformat p"
  let ?E = "render_members ?f (d + 1) ks" and ?o = "[123] @ newline ?f" and ?c = "tabs ?f d @ [125]"
  let ?T = "map_option (\<lambda>s. [123] @ newline ?f @ s @ tabs ?f d @ [125]) ?E"
  let ?m = "room pre ?T" and ?Q = "\<lambda>p' h'. \<exists>s. ?T = Some s \<and> closed d p' h' pre s"
  let ?k2 = "\<lambda>p h. let closing = (if pformat p then replicate (pdepth p - 1) 9 else []) @ [125, 0] in do {
           (ok, p, h) \<leftarrow> emit (if pformat p then pdepth p + 1 else 2) closing 0 p h;
           Some (ok, if ok then p\<lparr>pdepth := pdepth p - 1\<rparr> else p, h) }"
  let ?k1 = "\<lambda>p h. do {
        (ok, p, h) \<leftarrow> print_members pv (child i) (p\<lparr>pdepth := pdepth p + 1\<rparr>) h;
        (if \<not> ok then Some (False, p, h) else ?k2 p h) }"
  have o: "(if pformat p then [123, 10] else [123]) = ?o" by (simp add: newline_def)
  have "printing h p ?m ?Q (do { (ok, p, h) \<leftarrow> emit (length ?o + 1) ?o (length ?o) p h;
      (if \<not> ok then Some (False, p, h) else ?k1 p h) })"
  proof (rule printing_seq)
    show "printing h p (Some (length pre + (length ?o + 1) + 1)) (\<lambda>p' h'. opened d p' h' (pre @ ?o))
        (emit (length ?o + 1) ?o (length ?o) p h)"
      by (rule emit_opened [OF O wf]) simp_all
    fix p1 h1 assume o1: "opened d p1 h1 (pre @ ?o)" and wf1: "wf_heap h1" and sm1: "same_mode p p1"
      and K1: "kept h (pbuffer p) h1 (pbuffer p1)"
    let ?p1 = "p1\<lparr>pdepth := pdepth p1 + 1\<rparr>"
    note I1 = kept_items [OF K1 I B]
    have f1: "pformat ?p1 = ?f" using sm1 by (simp add: same_mode_def)
    have o1': "opened (d + 1) ?p1 h1 (pre @ ?o)" using o1 by (auto simp: opened_def)
    have "printing h1 ?p1 (room (pre @ ?o) ?E) (\<lambda>p' h'. \<exists>s. ?E = Some s \<and> opened (d + 1) p' h' ((pre @ ?o) @ s))
        (print_members pv (first_addr ks NULL) ?p1 h1)"
      using members_printing [OF I1(1) H o1' wf1] I1(2) f1 by simp
    from printing_mode [OF this, unfolded printing_offset]
    have E: "printing h1 p1 (room (pre @ ?o) ?E) (\<lambda>p' h'. \<exists>s. ?E = Some s \<and> opened (d + 1) p' h' ((pre @ ?o) @ s) \<and>
        pformat p' = ?f) (print_members pv (child i) ?p1 h1)"
      unfolding i by (rule printing_mono) (use f1 in \<open>auto simp: same_mode_def\<close>)
    show "printing h1 p1 ?m ?Q (?k1 p1 h1)"
    proof (rule printing_seq [OF E])
      fix p2 h2 assume "\<exists>s. ?E = Some s \<and> opened (d + 1) p2 h2 ((pre @ ?o) @ s) \<and> pformat p2 = ?f" and wf2: "wf_heap h2"
      then obtain s where s: "?E = Some s" and o2: "opened (d + 1) p2 h2 (pre @ ?o @ s)" and f2: "pformat p2 = ?f" by auto
      have dp: "pdepth p2 = d + 1" using o2 by (simp add: opened_def)
      let ?n = "if pformat p2 then pdepth p2 + 1 else 2"
      have "printing h2 p2 (Some (length (pre @ ?o @ s) + ?n + 1)) (\<lambda>p' h'. closed (d + 1) p' h' (pre @ ?o @ s) ?c)
          (emit ?n (?c @ [0]) 0 p2 h2)"
        by (rule emit_closed [OF o2 wf2]) (use f2 dp in \<open>auto simp: tabs_def\<close>)
      then have "printing h2 p2 (Some (length (pre @ ?o @ s) + ?n + 1)) (\<lambda>p' h'. closed d p' h' pre (?o @ s @ ?c))
          (do { (ok, p, h) \<leftarrow> emit ?n (?c @ [0]) 0 p2 h2;
                Some (ok, if ok then p\<lparr>pdepth := pdepth p - 1\<rparr> else p, h) })"
        by (rule printing_leave) (use render_not_0(3) [OF I s] in \<open>auto simp: closed_def\<close>)
      moreover have "(if pformat p2 then replicate (pdepth p2 - 1) 9 else []) @ [125, 0] = ?c @ [0]"
        using f2 dp by (simp add: tabs_def)
      ultimately have "printing h2 p2 (Some (length (pre @ ?o @ s) + ?n + 1)) (\<lambda>p' h'. closed d p' h' pre (?o @ s @ ?c))
          (?k2 p2 h2)" by (simp only: Let_def)
      then show "printing h2 p2 ?m ?Q (?k2 p2 h2)"
        by (rule printing_mono) (use f2 dp in \<open>auto simp: s [simplified] room_def tabs_def\<close>)
    qed (auto simp: room_def)
  qed (auto simp: room_def)
  then show ?thesis by (simp only: prints_def print_object_def Let_def o)
qed

end

subsection \<open>\<open>print_value\<close>\<close>

lemma prints_emit:
  assumes "opened d p h pre" and "wf_heap h" and "n = length s + 1" and "0 \<notin> set s" and "w = s @ [0]"
  shows "prints h p d pre (Some s) (emit n w 0 p h)"
  unfolding prints_def assms(5)
  by (rule printing_mono [OF emit_closed [OF assms(1,2) _ assms(4)]]) (use assms(3) in \<open>auto simp: room_def\<close>)

lemma prints_None:
  "opened d p h pre \<Longrightarrow> wf_heap h \<Longrightarrow> prints h p d pre None (Some (False, p, h))"
  unfolding prints_def room_def by (auto simp: opened_def intro!: printing_fail)

lemma prints_raw:
  assumes O: "opened d p h pre" and wf: "wf_heap h" and v: "str_at h (Some (q, s))" and B: "pbuffer p \<noteq> q"
  shows "prints h p d pre (Some s) (do {
    (ok, p, h) \<leftarrow> ensure p (length s + 1) h;
    (if \<not> ok then Some (False, p, h)
     else do { s \<leftarrow> read_str q h; h \<leftarrow> write_at p 0 (s @ [0]) h; Some (True, p, h) }) })"
  unfolding prints_def
proof (rule printing_seq [OF ensure_printing [OF O wf]])
  fix p1 h1 assume o: "opened d p1 h1 pre \<and> length pre + (length s + 1) + 1 \<le> plength p1" and wf1: "wf_heap h1"
    and K: "kept h (pbuffer p) h1 (pbuffer p1)"
  have "load q h \<noteq> None" using v by (auto dest: read_str_SomeD)
  from kept_load [OF K _ this] B have "load q h1 = load q h" by simp
  then have r: "read_str q h1 = Some s" using v read_str_cong [of q h1 h] by simp
  from o write_at_opened [of d p1 h1 pre "s @ [0]"] obtain b where
    b: "write_at p1 0 (s @ [0]) h1 = Some (setj (pbuffer p1) (StrC b) h1)" "plength p1 \<le> length b"
    "take (length pre + length (s @ [0])) b = map Some (pre @ s @ [0])" by auto
  have "0 \<notin> set s" by (rule str_at_not_0 [OF v refl])
  then have "closed d p1 (setj (pbuffer p1) (StrC b) h1) pre s"
    using o b pbuffer_live [of d p1 h1 pre] by (auto simp: closed_def opened_def load_str_setj)
  then have "printing h1 p1 (room pre (Some s)) (\<lambda>p' h'. \<exists>t. Some s = Some t \<and> closed d p' h' pre t)
      (Some (True, p1, setj (pbuffer p1) (StrC b) h1))"
    using o wf1 by (intro printing_written [of d p1 h1 pre]) auto
  then show "printing h1 p1 (room pre (Some s)) (\<lambda>p' h'. \<exists>t. Some s = Some t \<and> closed d p' h' pre t)
      (do { s \<leftarrow> read_str q h1; h \<leftarrow> write_at p1 0 (s @ [0]) h1; Some (True, p1, h) })"
    using r b(1) by simp
qed (auto simp: room_def)

lemma value_printing_print_value: "value_printing (print_value n) n"
proof (induction n)
  case 0
  show ?case
  proof
    fix h a t c assume "height [t] \<le> 0"
    then show "prints h p d pre (render (pformat p) d t) (print_value 0 (jaddr t) p h)" for p d pre by (cases t) simp
  qed
next
  case (Suc n)
  note arr = value_printing.array_printing [OF Suc.IH] and obj = value_printing.object_printing [OF Suc.IH]
  show ?case
  proof
    fix h a t c d p pre
    assume I: "items_at h a [t] c" and H: "height [t] \<le> Suc n" and O: "opened d p h pre" and wf: "wf_heap h"
      and B: "pbuffer p \<notin> set (blocks [t])"
    obtain q ty vs vi vd k ks where t: "t = JT q ty vs vi vd k ks" by (cases t)
    let ?ty = "ty AND 0xFF"
    from I obtain i where i: "load_item q h = Some i" "itype i = ty" "valuestring i = ptr_of vs" "valuedouble i = vd"
      "child i = first_addr ks NULL" and vs: "str_at h vs" and ks: "items_at h NULL ks NULL" by (auto simp: t)
    have hk: "height ks \<le> n" and qn: "q \<noteq> NULL" and Bs: "pbuffer p \<notin> set (ptrs vs)" "pbuffer p \<notin> set (blocks ks)"
      using H B i(1) by (auto simp: t dest: load_item_not_NULL)
    note arr = arr [OF ks hk O wf Bs(2) i(5)] and obj = obj [OF ks hk O wf Bs(2) i(5)]
    have lits: "prints h p d pre (Some [110, 117, 108, 108]) (emit 5 [110, 117, 108, 108, 0] 0 p h)"
      "prints h p d pre (Some [102, 97, 108, 115, 101]) (emit 6 [102, 97, 108, 115, 101, 0] 0 p h)"
      "prints h p d pre (Some [116, 114, 117, 101]) (emit 5 [116, 114, 117, 101, 0] 0 p h)"
      by (rule prints_emit [OF O wf]; simp)+
    have num: "prints h p d pre (Some (number_text vd)) (print_number i p h)"
      unfolding prints_def by (rule printing_mono [OF print_number_printing [OF O wf]]) (auto simp: i room_def)
    have str: "prints h p d pre (Some (quoted vs)) (print_string i p h)"
      unfolding prints_def print_string_def i
      by (rule printing_mono [OF print_string_ptr_printing [OF O wf vs Bs(1)]]) (auto simp: room_def)
    let ?raw = "\<lambda>v. if v = NULL then Some (False, p, h)
            else do {
              s \<leftarrow> read_str v h;
              (ok, p, h) \<leftarrow> ensure p (length s + 1) h;
              (if \<not> ok then Some (False, p, h)
               else do {
                 s \<leftarrow> read_str v h;
                 h \<leftarrow> write_at p 0 (s @ [0]) h;
                 Some (True, p, h) }) }"
    have raw: "prints h p d pre (map_option snd vs) (?raw (ptr_of vs))"
    proof (cases vs)
      case None
      then show ?thesis using prints_None [OF O wf] by simp
    next
      case (Some qs)
      then obtain x s where x: "vs = Some (x, s)" by (cases qs) auto
      then have "x \<noteq> NULL" "read_str x h = Some s" using vs by (auto dest: read_str_not_NULL)
      then show ?thesis using prints_raw [OF O wf, of x s] vs x Bs(1) by (simp cong: if_cong)
    qed
    have "print_value (Suc n) q p h =
       (if ?ty = cJSON_NULL then emit 5 [110, 117, 108, 108, 0] 0 p h
         else if ?ty = cJSON_False then emit 6 [102, 97, 108, 115, 101, 0] 0 p h
         else if ?ty = cJSON_True then emit 5 [116, 114, 117, 101, 0] 0 p h
         else if ?ty = cJSON_Number then print_number i p h
         else if ?ty = cJSON_Raw then ?raw (ptr_of vs)
         else if ?ty = cJSON_String then print_string i p h
         else if ?ty = cJSON_Array then print_array (print_value n) i p h
         else if ?ty = cJSON_Object then print_object (print_value n) i p h
         else Some (False, p, h))"
      using qn i(1) by (simp only: print_value.simps if_False Option.bind.bind_lunit Let_def i(2,3))
    then show "prints h p d pre (render (pformat p) d t) (print_value (Suc n) (jaddr t) p h)"
      using lits num str raw arr obj prints_None [OF O wf] by (simp only: t jtree.sel render.simps Let_def) simp
  qed
qed

interpretation printer: value_printing "print_value n" n for n
  by (rule value_printing_print_value)

end
