(* ===== verification/CJsonPrintTop.thy ===== *)
theory CJsonPrintTop
  imports CJsonPrintOk
begin

text \<open>
  The entry points of the printer, \<open>cJSON_Print\<close>, \<open>cJSON_PrintUnformatted\<close>, \<open>cJSON_PrintBuffered\<close> and
  \<open>cJSON_PrintPreallocated\<close>: what they return, and what they leave on the heap.
\<close>

lemma print_fail_eq:
  assumes "pbuffer p = NULL \<or> load_str (pbuffer p) h \<noteq> None"
  shows "print_fail p h = Some (NULL, if pbuffer p = NULL then h else clrj (pbuffer p) h)"
  using assms by (auto simp: print_fail_def free_live load_str_Some_iff)

lemma load_clrj_NULL [simp]: "load q (clrj NULL h) = load q h"
  by (simp add: load_clrj)

text \<open>The buffer a printer starts with.\<close>

lemma opened_fresh:
  assumes "load_str b h = Some u" and "sz \<le> length u" and "0 < sz"
  shows "opened 0 \<lparr>pbuffer = b, plength = sz, poffset = 0, pdepth = 0, noalloc = na, pformat = fmt, phooks = hk\<rparr> h []"
  using assms by (simp add: opened_def)

text \<open>The outcome of printing \<open>t\<close> into a block of its own: nothing left behind, or exactly that block.\<close>

definition text_outcome :: "bool \<Rightarrow> jtree \<Rightarrow> jheap \<Rightarrow> (cbuf \<Rightarrow> byte list \<Rightarrow> bool) \<Rightarrow> addr \<Rightarrow> jheap \<Rightarrow> bool" where
  "text_outcome fmt t h holds p h' \<longleftrightarrow>
     (if p = NULL then \<forall>q. load q h' = load q h
      else load p h = None \<and> (\<forall>q. q \<noteq> p \<longrightarrow> load q h' = load q h) \<and>
        (\<exists>s b. render fmt 0 t = Some s \<and> load p h' = Some (StrC b) \<and> holds b s))"

lemma render_str_buf:
  "take (length s + 1) b = map Some (s @ [0]) \<Longrightarrow> length s + 1 \<le> length b \<Longrightarrow> resize (length s + 1) b = str_buf s"
  by (simp add: resize_def str_buf_def)

lemma print_text_outcome:
  assumes wf: "wf_heap h" and I: "items_at h a [t] c" and H: "height [t] \<le> n"
  shows "\<exists>p h'. print_text n (jaddr t) fmt hk h = Some (p, h') \<and> wf_heap h' \<and>
    text_outcome fmt t h (\<lambda>b s. b = str_buf s) p h' \<and>
    ((\<exists>s. render fmt 0 t = Some s \<and> length s + 2 \<le> INT_MAX) \<and> True \<notin> set (oom h) \<longrightarrow> p \<noteq> NULL)"
proof (cases "alloc_fails h")
  case True
  then have "print_text n (jaddr t) fmt hk h = Some (NULL, nonew h)"
    by (simp add: print_text_def malloc_newj print_fail_def)
  then show ?thesis using wf alloc_fails_in [OF True] by (auto simp: text_outcome_def)
next
  case False
  let ?h0 = "newj (StrC (uninit 256)) h" and ?b0 = "brk h"
  let ?p0 = "\<lparr>pbuffer = ?b0, plength = 256, poffset = 0, pdepth = 0, noalloc = False, pformat = fmt, phooks = hk\<rparr>"
  have bn: "?b0 \<noteq> NULL" and fr: "load ?b0 h = None" and wf0: "wf_heap ?h0"
    using wf by (simp_all add: wf_heap_brk_pos wf_heap_fresh)
  have bs: "?b0 \<notin> set (blocks [t])" using items_at_live [OF I, of ?b0] fr by auto
  have I0: "items_at ?h0 a [t] c"
    by (rule items_at_cong [THEN iffD2, OF _ I]) (use bs in \<open>auto simp: load_newj [OF wf]\<close>)
  have "load_str ?b0 ?h0 = Some (uninit 256)" using wf by (simp add: load_str_def load_newj)
  then have O: "opened 0 ?p0 ?h0 []" by (rule opened_fresh) simp_all
  have "prints ?h0 ?p0 0 [] (render fmt 0 t) (print_value n (jaddr t) ?p0 ?h0)"
    using printer.prints [OF I0 H O wf0] bs by simp
  then obtain ok p1 h1 where r: "print_value n (jaddr t) ?p0 ?h0 = Some (ok, p1, h1)" and wf1: "wf_heap h1"
    and K: "kept ?h0 ?b0 h1 (pbuffer p1)"
    and ok: "ok \<Longrightarrow> \<exists>s. render fmt 0 t = Some s \<and> closed 0 p1 h1 [] s"
    and fits: "\<And>N m'. fits ?p0 ?h0 N \<Longrightarrow> room [] (render fmt 0 t) = Some m' \<Longrightarrow> m' \<le> N \<Longrightarrow> ok \<and> fits p1 h1 N"
    and sm: "same_mode ?p0 p1"
    unfolding prints_def by (elim printingE) auto
  have K1: "load q h1 = load q h" if "q \<noteq> ?b0" "q \<noteq> pbuffer p1" for q
    using K that by (simp add: kept_def load_newj [OF wf])
  have K2: "pbuffer p1 \<noteq> ?b0 \<Longrightarrow> load ?b0 h1 = None \<and> load (pbuffer p1) h = None"
    and K3: "pbuffer p1 = NULL \<or> load_str (pbuffer p1) h1 \<noteq> None"
    using K by (auto simp: kept_def load_newj [OF wf] split: if_splits)
  have fr1: "load (pbuffer p1) h = None" using K2 fr by (cases "pbuffer p1 = ?b0") auto
  have K0: "load q h1 = load q h" if "q \<noteq> pbuffer p1" for q
    using K1 [of q] K2 fr that by metis
  have cleared: "load q (clrj (pbuffer p1) h') = load q h"
    if "\<And>q. q \<noteq> pbuffer p1 \<Longrightarrow> load q h' = load q h1" for q h'
    using K0 [of q] fr1 that [of q] by (simp add: load_clrj)
  have undone: "\<exists>h2. print_fail p' h' = Some (NULL, h2) \<and> wf_heap h2 \<and> (\<forall>q. load q h2 = load q h)"
    if "pbuffer p' = pbuffer p1" "wf_heap h'" "\<And>q. load q h' = load q h1" for p' h'
  proof -
    have "load_str (pbuffer p1) h' = load_str (pbuffer p1) h1" using that(3) by (simp add: load_str_def)
    then have "print_fail p' h' = Some (NULL, if pbuffer p1 = NULL then h' else clrj (pbuffer p1) h')"
      using print_fail_eq [of p' h'] K3 that(1) by simp
    moreover have "load q (if pbuffer p1 = NULL then h' else clrj (pbuffer p1) h') = load q h" for q
      using cleared [of h' q] that(3) by (cases "pbuffer p1 = NULL") simp_all
    moreover have "wf_heap (if pbuffer p1 = NULL then h' else clrj (pbuffer p1) h')" using that(2) by simp
    ultimately show ?thesis by blast
  qed
  have start: "print_text n (jaddr t) fmt hk h =
      do { (ok, p, h) \<leftarrow> Some (ok, p1, h1);
           (if \<not> ok then print_fail p h
            else do {
              p \<leftarrow> update_offset p h;
              (if reallocate hk \<noteq> None then do {
                 (printed, h) \<leftarrow> realloc (pbuffer p) (poffset p + 1) h;
                 (if printed = NULL then print_fail p h else Some (printed, h)) }
               else
                 (let (printed, h) = malloc (StrC (uninit (poffset p + 1))) h in
                  if printed = NULL then print_fail p h
                  else do {
                    b \<leftarrow> load_str (pbuffer p) h;
                    let m = min (plength p) (poffset p + 1);
                    h \<leftarrow> (if m \<le> length b then store printed (StrC (resize (poffset p + 1) (take m b))) h
                          else None);
                    h \<leftarrow> put_bytes printed (poffset p) [0] h;
                    h \<leftarrow> free (pbuffer p) h;
                    Some (printed, h) })) }) }"
    using False bn by (simp only: print_text_def malloc_newj if_False Let_def prod.case r)
  have fit: "ok \<and> fits p1 h1 INT_MAX" if "render fmt 0 t = Some s" "length s + 2 \<le> INT_MAX" "True \<notin> set (oom h)" for s
    by (rule fits [of INT_MAX "length s + 2"]) (use that set_tl [of "oom h"] in \<open>auto simp: fits_def room_def\<close>)
  have success: "text_outcome fmt t h (\<lambda>b s. b = str_buf s) p' h'"
    if "render fmt 0 t = Some s" "load p' h' = Some (StrC (str_buf s))" "load p' h = None"
      "\<And>q. q \<noteq> p' \<Longrightarrow> load q h' = load q h" "p' \<noteq> NULL" for p' h' s
    using that by (auto simp: text_outcome_def)
  show ?thesis
  proof (cases ok)
    case nok: False
    from undone [OF refl wf1 refl] obtain h2 where h2: "print_fail p1 h1 = Some (NULL, h2)" "wf_heap h2"
      "\<forall>q. load q h2 = load q h" by blast
    have "\<not> (length s + 2 \<le> INT_MAX \<and> True \<notin> set (oom h))" if "render fmt 0 t = Some s" for s
      using fit [OF that] nok by blast
    then show ?thesis using start h2 nok by (auto simp: text_outcome_def)
  next
    case yes: True
    from ok [OF yes] obtain s where s: "render fmt 0 t = Some s" and C: "closed 0 p1 h1 [] s" by blast
    let ?p = "p1\<lparr>poffset := length s\<rparr>" and ?b = "pbuffer p1"
    have u: "update_offset p1 h1 = Some ?p" using update_offset_closed(1) [OF C] by simp
    from C obtain b where b: "load_str ?b h1 = Some b" "length s + 1 \<le> plength p1" "plength p1 \<le> length b"
      "take (length s + 1) b = map Some (s @ [0])" by (auto simp: closed_def)
    have rb: "resize (length s + 1) b = str_buf s" by (rule render_str_buf) (use b in simp_all)
    have b1n: "?b \<noteq> NULL" and b1l: "load ?b h1 \<noteq> None" using b(1) by (auto dest: load_str_live)
    have nb: "brk h1 \<noteq> ?b" "brk h1 \<noteq> NULL" "load (brk h1) h = None"
    proof -
      have f: "load (brk h1) h1 = None" by (rule wf_heap_fresh [OF wf1])
      then show "brk h1 \<noteq> ?b" "brk h1 \<noteq> NULL" using b1l wf_heap_brk_pos [OF wf1] by auto
      then show "load (brk h1) h = None" using K1 [of "brk h1"] f fr by metis
    qed
    have noalloc1: "\<not> noalloc p1" using sm by (simp add: same_mode_def)
    have room_left: "\<not> alloc_fails h1" if "length s + 2 \<le> INT_MAX" "True \<notin> set (oom h)"
    proof -
      have "fits p1 h1 INT_MAX" using fit [OF s that] by blast
      then show ?thesis using alloc_fails_in [of h1] noalloc1 by (auto simp: fits_def)
    qed
    have lost: ?thesis if "print_text n (jaddr t) fmt hk h = print_fail ?p (nonew h1)" "alloc_fails h1"
      using that undone [of ?p "nonew h1"] wf1 room_left s by (fastforce simp: text_outcome_def)
    have kept: ?thesis if e: "print_text n (jaddr t) fmt hk h = Some (brk h1, h')" and w: "wf_heap h'"
      and l: "\<And>q. load q h' = (if q = brk h1 then Some (StrC (str_buf s)) else if q = ?b then None else load q h1)" for h'
    proof -
      have "load q h' = load q h" if "q \<noteq> brk h1" for q
        using that l [of q] K0 [of q] fr1 by simp
      then have "text_outcome fmt t h (\<lambda>b s. b = str_buf s) (brk h1) h'"
        using success [OF s _ nb(3) _ nb(2)] l [of "brk h1"] by simp
      then show ?thesis using e w nb(2) by blast
    qed
    show ?thesis
    proof (cases "reallocate hk = None")
      case re: False
      then have e: "print_text n (jaddr t) fmt hk h = do {
          (printed, h) \<leftarrow> realloc ?b (length s + 1) h1;
          (if printed = NULL then print_fail ?p h else Some (printed, h)) }"
        unfolding start using yes u by simp
      show ?thesis
      proof (cases "alloc_fails h1")
        case True
        then show ?thesis using lost e realloc_eq [OF b(1) wf1] by simp
      next
        case False
        then have "print_text n (jaddr t) fmt hk h = Some (brk h1, clrj ?b (newj (StrC (str_buf s)) h1))"
          using e realloc_eq [OF b(1) wf1] nb(2) rb by simp
        then show ?thesis by (rule kept) (use wf1 nb in \<open>simp_all add: load_clrj load_newj\<close>)
      qed
    next
      case no: True
      let ?h2 = "newj (StrC (uninit (length s + 1))) h1"
      have e: "print_text n (jaddr t) fmt hk h = (let (printed, h) = malloc (StrC (uninit (length s + 1))) h1 in
                  if printed = NULL then print_fail ?p h
                  else do {
                    b \<leftarrow> load_str ?b h;
                    let m = min (plength p1) (length s + 1);
                    h \<leftarrow> (if m \<le> length b then store printed (StrC (resize (length s + 1) (take m b))) h
                          else None);
                    h \<leftarrow> put_bytes printed (length s) [0] h;
                    h \<leftarrow> free ?b h;
                    Some (printed, h) })"
        unfolding start using yes u no by (simp cong: if_cong)
      show ?thesis
      proof (cases "alloc_fails h1")
        case True
        then show ?thesis using lost e by (simp add: malloc_newj)
      next
        case False
        let ?h3 = "setj (brk h1) (StrC (str_buf s)) ?h2"
        have l2: "load_str ?b ?h2 = Some b" "load (brk h1) ?h2 = Some (StrC (uninit (length s + 1)))"
          using b(1) nb(1) by (simp_all add: load_str_def load_newj [OF wf1])
        have m: "min (plength p1) (length s + 1) = length s + 1" "length s + 1 \<le> length b" using b by simp_all
        have "resize (length s + 1) (take (length s + 1) b) = str_buf s"
          using b(4) m(2) by (simp add: resize_def str_buf_def)
        then have st: "store (brk h1) (StrC (resize (length s + 1) (take (length s + 1) b))) ?h2 = Some ?h3"
          using setj_live [OF l2(2)] by simp
        have "load_str (brk h1) ?h3 = Some (str_buf s)" using nb(2) by (simp add: load_str_setj)
        from put_bytes_eq [OF this, of "length s" "[0]"]
        have pb: "put_bytes (brk h1) (length s) [0] ?h3 = Some ?h3" by (simp add: str_buf_def)
        have "load ?b ?h3 \<noteq> None" using nb(1,2) b1l by (simp add: load_setj load_newj [OF wf1])
        then have fb: "free ?b ?h3 = Some (clrj ?b ?h3)" by (rule free_live)
        have "print_text n (jaddr t) fmt hk h = Some (brk h1, clrj ?b ?h3)"
          unfolding e using False nb(2) l2(1) m st pb fb by (simp add: malloc_newj Let_def)
        then show ?thesis by (rule kept) (use wf1 nb l2 in \<open>simp_all add: load_clrj load_newj load_setj\<close>)
      qed
    qed
  qed
qed

subsection \<open>Printing into a given buffer\<close>

lemma ensure_empty:
  "plength p = 0 \<Longrightarrow> noalloc p \<Longrightarrow> ensure p n h = Some (False, p, h)"
  by (simp add: ensure_def)

lemma emit_empty: "plength p = 0 \<Longrightarrow> noalloc p \<Longrightarrow> emit n w k p h = Some (False, p, h)"
  by (simp add: emit_def ensure_empty)

text \<open>A buffer of size 0 holds no value.\<close>

lemma print_value_empty:
  assumes p: "plength p = 0" "noalloc p" and I: "items_at h a [t] c"
  shows "print_value (Suc n) (jaddr t) p h = Some (False, p, h)"
proof -
  obtain q ty vs vi vd k ks where t: "t = JT q ty vs vi vd k ks" by (cases t)
  from I obtain i where i: "load_item q h = Some i" "valuestring i = ptr_of vs" and vs: "str_at h vs" by (auto simp: t)
  have qn: "q \<noteq> NULL" using i(1) by (rule load_item_not_NULL)
  have r: "\<exists>s. read_str (ptr_of vs) h = Some s" if "ptr_of vs \<noteq> NULL" using vs that by (cases vs) auto
  have s: "print_string i p h = Some (False, p, h)"
    using r p by (auto simp: print_string_def print_string_ptr_def emit_empty ensure_empty i Let_def)
  have "print_number i p h = Some (False, p, h)"
    using p length_number_text [of "valuedouble i"] by (simp add: print_number_def Let_def pokes_Some emit_empty)
  then show ?thesis using p i qn s r
    by (auto simp: t Let_def emit_empty ensure_empty print_array_def print_object_def)
qed

lemma cJSON_PrintPreallocated_outcome:
  assumes wf: "wf_heap h" and I: "items_at h a [t] c" and H: "height [t] \<le> n" and b: "load_str buf h = Some b"
    and sz: "length b = nat sz" and B: "buf \<notin> set (blocks [t])"
  shows "\<exists>ok h'. cJSON_PrintPreallocated n (jaddr t) buf sz fmt hk h = Some (ok, h') \<and> wf_heap h' \<and>
    (\<forall>q. q \<noteq> buf \<longrightarrow> load q h' = load q h) \<and>
    (ok \<longrightarrow> (\<exists>s. render fmt 0 t = Some s \<and> read_str buf h' = Some s)) \<and>
    ((\<exists>s. render fmt 0 t = Some s \<and> int (length s) + 2 \<le> sz \<and> sz \<le> int INT_MAX) \<longrightarrow> ok)"
proof -
  let ?p = "\<lparr>pbuffer = buf, plength = nat sz, poffset = 0, pdepth = 0, noalloc = True, pformat = fmt, phooks = hk\<rparr>"
  have bn: "buf \<noteq> NULL" using b by auto
  consider (neg) "sz < 0" | (zero) "sz = 0" | (pos) "0 < sz" by linarith
  then show ?thesis
  proof cases
    case neg
    then have "cJSON_PrintPreallocated n (jaddr t) buf sz fmt hk h = Some (False, h)"
      by (simp add: cJSON_PrintPreallocated_def)
    then show ?thesis using neg wf by auto
  next
    case zero
    have "0 < n" using H by (cases t) simp
    then obtain m where "n = Suc m" by (cases n) auto
    then have "cJSON_PrintPreallocated n (jaddr t) buf sz fmt hk h = Some (False, h)"
      using print_value_empty [of ?p h a t c m] I zero bn by (simp add: cJSON_PrintPreallocated_def del: print_value.simps)
    then show ?thesis using zero wf by auto
  next
    case pos
    have O: "opened 0 ?p h []" by (rule opened_fresh [OF b]) (use sz pos in simp_all)
    have "prints h ?p 0 [] (render fmt 0 t) (print_value n (jaddr t) ?p h)"
      using printer.prints [OF I H O wf] B by simp
    then obtain ok p1 h1 where r: "print_value n (jaddr t) ?p h = Some (ok, p1, h1)" and wf1: "wf_heap h1"
      and K: "kept h buf h1 (pbuffer p1)"
      and ok: "ok \<Longrightarrow> \<exists>s. render fmt 0 t = Some s \<and> closed 0 p1 h1 [] s"
      and fits: "\<And>N m'. fits ?p h N \<Longrightarrow> room [] (render fmt 0 t) = Some m' \<Longrightarrow> m' \<le> N \<Longrightarrow> ok \<and> fits p1 h1 N"
      and sm: "same_mode ?p p1"
      unfolding prints_def by (elim printingE) auto
    have pb: "pbuffer p1 = buf" using sm by (simp add: same_mode_def)
    have e: "cJSON_PrintPreallocated n (jaddr t) buf sz fmt hk h = Some (ok, h1)"
      using pos bn r by (simp add: cJSON_PrintPreallocated_def)
    have un: "\<forall>q. q \<noteq> buf \<longrightarrow> load q h1 = load q h" using K pb by (simp add: kept_def)
    have rd: "\<exists>s. render fmt 0 t = Some s \<and> read_str buf h1 = Some s" if ok
    proof -
      from ok [OF that] obtain s b' where s: "render fmt 0 t = Some s" "0 \<notin> set s" "load_str buf h1 = Some b'"
        "take (length s + 1) b' = map Some (s @ [0])" by (auto simp: closed_def pb)
      then have "b' = map Some s @ Some 0 # drop (length s + 1) b'"
        using append_take_drop_id [of "length s + 1" b'] by simp
      then show ?thesis using s cstring_app [OF s(2), of "drop (length s + 1) b'"] by (auto simp: read_str_def)
    qed
    have "ok" if "render fmt 0 t = Some s" "int (length s) + 2 \<le> sz" "sz \<le> int INT_MAX" for s
      using fits [of "length s + 2" "length s + 2"] that by (simp add: fits_def room_def)
    with e wf1 un rd show ?thesis by blast
  qed
qed

lemma cJSON_PrintBuffered_outcome:
  assumes wf: "wf_heap h" and I: "items_at h a [t] c" and H: "height [t] \<le> n" and pre: "0 < prebuffer"
  shows "\<exists>p h'. cJSON_PrintBuffered n (jaddr t) prebuffer fmt hk h = Some (p, h') \<and> wf_heap h' \<and>
    text_outcome fmt t h (\<lambda>b s. cstring b = Some s) p h' \<and>
    ((\<exists>s. render fmt 0 t = Some s \<and> length s + 2 \<le> INT_MAX) \<and> True \<notin> set (oom h) \<longrightarrow> p \<noteq> NULL)"
proof (cases "alloc_fails h")
  case True
  then have "cJSON_PrintBuffered n (jaddr t) prebuffer fmt hk h = Some (NULL, nonew h)"
    using pre by (simp add: cJSON_PrintBuffered_def malloc_newj)
  then show ?thesis using wf alloc_fails_in [OF True] by (auto simp: text_outcome_def)
next
  case False
  let ?h0 = "newj (StrC (uninit (nat prebuffer))) h" and ?b0 = "brk h"
  let ?p0 = "\<lparr>pbuffer = ?b0, plength = nat prebuffer, poffset = 0, pdepth = 0, noalloc = False, pformat = fmt, phooks = hk\<rparr>"
  have bn: "?b0 \<noteq> NULL" and fr: "load ?b0 h = None" and wf0: "wf_heap ?h0"
    using wf by (simp_all add: wf_heap_brk_pos wf_heap_fresh)
  have bs: "?b0 \<notin> set (blocks [t])" using items_at_live [OF I, of ?b0] fr by auto
  have I0: "items_at ?h0 a [t] c"
    by (rule items_at_cong [THEN iffD2, OF _ I]) (use bs in \<open>auto simp: load_newj [OF wf]\<close>)
  have "load_str ?b0 ?h0 = Some (uninit (nat prebuffer))" using wf by (simp add: load_str_def load_newj)
  then have O: "opened 0 ?p0 ?h0 []" by (rule opened_fresh) (use pre in simp_all)
  have "prints ?h0 ?p0 0 [] (render fmt 0 t) (print_value n (jaddr t) ?p0 ?h0)"
    using printer.prints [OF I0 H O wf0] bs by simp
  then obtain ok p1 h1 where r: "print_value n (jaddr t) ?p0 ?h0 = Some (ok, p1, h1)" and wf1: "wf_heap h1"
    and K: "kept ?h0 ?b0 h1 (pbuffer p1)"
    and ok: "ok \<Longrightarrow> \<exists>s. render fmt 0 t = Some s \<and> closed 0 p1 h1 [] s"
    and fits: "\<And>N m'. fits ?p0 ?h0 N \<Longrightarrow> room [] (render fmt 0 t) = Some m' \<Longrightarrow> m' \<le> N \<Longrightarrow> ok \<and> fits p1 h1 N"
    unfolding prints_def by (elim printingE) auto
  have K2: "pbuffer p1 \<noteq> ?b0 \<Longrightarrow> load ?b0 h1 = None \<and> load (pbuffer p1) h = None"
    and K3: "pbuffer p1 = NULL \<or> load_str (pbuffer p1) h1 \<noteq> None"
    and K1: "q \<noteq> ?b0 \<Longrightarrow> q \<noteq> pbuffer p1 \<Longrightarrow> load q h1 = load q h" for q
    using K by (auto simp: kept_def load_newj [OF wf] split: if_splits)
  have fr1: "load (pbuffer p1) h = None" using K2 fr by (cases "pbuffer p1 = ?b0") auto
  have K0: "load q h1 = load q h" if "q \<noteq> pbuffer p1" for q
    using K1 [of q] K2 fr that by metis
  have fit: "ok" if "render fmt 0 t = Some s" "length s + 2 \<le> INT_MAX" "True \<notin> set (oom h)" for s
    using fits [of INT_MAX "length s + 2"] that set_tl [of "oom h"] by (auto simp: fits_def room_def)
  have e: "cJSON_PrintBuffered n (jaddr t) prebuffer fmt hk h =
      (if \<not> ok then do { h \<leftarrow> free (pbuffer p1) h1; Some (NULL, h) } else Some (pbuffer p1, h1))"
    using False bn pre r by (simp add: cJSON_PrintBuffered_def malloc_newj)
  show ?thesis
  proof (cases ok)
    case True
    from ok [OF True] obtain s b where s: "render fmt 0 t = Some s" "0 \<notin> set s" "load_str (pbuffer p1) h1 = Some b"
      "take (length s + 1) b = map Some (s @ [0])" by (auto simp: closed_def)
    then have "b = map Some s @ Some 0 # drop (length s + 1) b"
      using append_take_drop_id [of "length s + 1" b] by simp
    then have "cstring b = Some s" using cstring_app [OF s(2), of "drop (length s + 1) b"] by simp
    moreover have "pbuffer p1 \<noteq> NULL" using s(3) by auto
    ultimately have "text_outcome fmt t h (\<lambda>b s. cstring b = Some s) (pbuffer p1) h1"
      using s K0 fr1 by (auto simp: text_outcome_def load_str_Some_iff)
    then show ?thesis using e True wf1 \<open>pbuffer p1 \<noteq> NULL\<close> by auto
  next
    case nok: False
    let ?h2 = "if pbuffer p1 = NULL then h1 else clrj (pbuffer p1) h1"
    have "free (pbuffer p1) h1 = Some ?h2" using K3 by (auto simp: free_live load_str_Some_iff)
    moreover have "load q ?h2 = load q h" for q using K0 [of q] fr1 by (simp add: load_clrj)
    ultimately show ?thesis using e nok wf1 fit by (auto simp: text_outcome_def)
  qed
qed

end
