(* ===== verification/CJsonItems.thy ===== *)
theory CJsonItems
  imports CJson
begin

text \<open>
  Arrays, objects and their members in \<open>cJSON.c\<close>: access, insertion, detaching, deletion and
  replacement, and the constructors of whole arrays.  Void functions return the heap, functions that
  return \<open>cJSON_bool\<close> a truth value and the heap.
\<close>

subsection \<open>Type tests and values\<close>

definition has_type :: "32 word \<Rightarrow> addr \<Rightarrow> jheap \<Rightarrow> bool option" where
  "has_type ty item h =
     (if item = NULL then Some False else do { i \<leftarrow> load_item item h; Some (itype i AND 0xFF = ty) })"

definition cJSON_IsInvalid :: "addr \<Rightarrow> jheap \<Rightarrow> bool option" where
  "cJSON_IsInvalid = has_type cJSON_Invalid"

definition cJSON_IsFalse :: "addr \<Rightarrow> jheap \<Rightarrow> bool option" where
  "cJSON_IsFalse = has_type cJSON_False"

definition cJSON_IsTrue :: "addr \<Rightarrow> jheap \<Rightarrow> bool option" where
  "cJSON_IsTrue = has_type cJSON_True"

definition cJSON_IsBool :: "addr \<Rightarrow> jheap \<Rightarrow> bool option" where
  "cJSON_IsBool item h =
     (if item = NULL then Some False
      else do { i \<leftarrow> load_item item h; Some (itype i AND (cJSON_True OR cJSON_False) \<noteq> 0) })"

definition cJSON_IsNull :: "addr \<Rightarrow> jheap \<Rightarrow> bool option" where
  "cJSON_IsNull = has_type cJSON_NULL"

definition cJSON_IsNumber :: "addr \<Rightarrow> jheap \<Rightarrow> bool option" where
  "cJSON_IsNumber = has_type cJSON_Number"

definition cJSON_IsString :: "addr \<Rightarrow> jheap \<Rightarrow> bool option" where
  "cJSON_IsString = has_type cJSON_String"

definition cJSON_IsArray :: "addr \<Rightarrow> jheap \<Rightarrow> bool option" where
  "cJSON_IsArray = has_type cJSON_Array"

definition cJSON_IsObject :: "addr \<Rightarrow> jheap \<Rightarrow> bool option" where
  "cJSON_IsObject = has_type cJSON_Object"

definition cJSON_IsRaw :: "addr \<Rightarrow> jheap \<Rightarrow> bool option" where
  "cJSON_IsRaw = has_type cJSON_Raw"

definition cJSON_GetStringValue :: "addr \<Rightarrow> jheap \<Rightarrow> addr option" where
  "cJSON_GetStringValue item h = do {
     s \<leftarrow> cJSON_IsString item h;
     (if \<not> s then Some NULL else do { i \<leftarrow> load_item item h; Some (valuestring i) }) }"

subsection \<open>Comparison of names\<close>

definition tolower :: "byte \<Rightarrow> byte" where
  "tolower c = (if 65 \<le> c \<and> c \<le> 90 then c + 32 else c)"

text \<open>The loop through two strings; a string ends in a zero byte.\<close>

fun ci_strcmp :: "byte list \<Rightarrow> byte list \<Rightarrow> int" where
  "ci_strcmp [] [] = 0"
| "ci_strcmp [] (d # t) = uint (tolower 0) - uint (tolower d)"
| "ci_strcmp (c # s) [] = uint (tolower c) - uint (tolower 0)"
| "ci_strcmp (c # s) (d # t) =
     (if tolower c = tolower d then ci_strcmp s t else uint (tolower c) - uint (tolower d))"

definition case_insensitive_strcmp :: "addr \<Rightarrow> addr \<Rightarrow> jheap \<Rightarrow> int option" where
  "case_insensitive_strcmp p q h =
     (if p = NULL \<or> q = NULL then Some 1
      else if p = q then Some 0
      else do { s \<leftarrow> read_str p h; t \<leftarrow> read_str q h; Some (ci_strcmp s t) })"

text \<open>Whether \<open>strcmp\<close> finds two strings different.\<close>

definition strs_differ :: "addr \<Rightarrow> addr \<Rightarrow> jheap \<Rightarrow> bool option" where
  "strs_differ p q h = do { s \<leftarrow> read_str p h; t \<leftarrow> read_str q h; Some (s \<noteq> t) }"

subsection \<open>Access\<close>

partial_function (option) count_items :: "addr \<Rightarrow> nat \<Rightarrow> jheap \<Rightarrow> nat option" where
  [code]: "count_items c n h =
     (if c = NULL then Some n else do { i \<leftarrow> load_item c h; count_items (inext i) (n + 1) h })"

text \<open>The size is converted from \<open>size_t\<close> to \<open>int\<close>.\<close>

definition cJSON_GetArraySize :: "addr \<Rightarrow> jheap \<Rightarrow> 32 word option" where
  "cJSON_GetArraySize array h =
     (if array = NULL then Some 0
      else do { a \<leftarrow> load_item array h; n \<leftarrow> count_items (child a) 0 h; Some (of_nat n) })"

fun skip_items :: "addr \<Rightarrow> nat \<Rightarrow> jheap \<Rightarrow> addr option" where
  "skip_items c 0 h = Some c"
| "skip_items c (Suc n) h =
     (if c = NULL then Some NULL else do { i \<leftarrow> load_item c h; skip_items (inext i) n h })"

definition get_array_item :: "addr \<Rightarrow> nat \<Rightarrow> jheap \<Rightarrow> addr option" where
  "get_array_item array index h =
     (if array = NULL then Some NULL
      else do { a \<leftarrow> load_item array h; skip_items (child a) index h })"

definition cJSON_GetArrayItem :: "addr \<Rightarrow> int \<Rightarrow> jheap \<Rightarrow> addr option" where
  "cJSON_GetArrayItem array index h =
     (if index < 0 then Some NULL else get_array_item array (nat index) h)"

text \<open>The two loops of \<open>get_object_item\<close>; the first stops at an element without a name.\<close>

partial_function (option) find_name :: "bool \<Rightarrow> addr \<Rightarrow> addr \<Rightarrow> jheap \<Rightarrow> addr option" where
  [code]: "find_name case_sensitive name c h =
     (if c = NULL then Some NULL
      else do {
        i \<leftarrow> load_item c h;
        (if case_sensitive then
           (if key i = NULL then Some c
            else do {
              d \<leftarrow> strs_differ name (key i) h;
              (if d then find_name case_sensitive name (inext i) h else Some c) })
         else do {
           d \<leftarrow> case_insensitive_strcmp name (key i) h;
           (if d \<noteq> 0 then find_name case_sensitive name (inext i) h else Some c) }) })"

definition get_object_item :: "addr \<Rightarrow> addr \<Rightarrow> bool \<Rightarrow> jheap \<Rightarrow> addr option" where
  "get_object_item object name case_sensitive h =
     (if object = NULL \<or> name = NULL then Some NULL
      else do {
        a \<leftarrow> load_item object h;
        c \<leftarrow> find_name case_sensitive name (child a) h;
        (if c = NULL then Some NULL
         else do { i \<leftarrow> load_item c h; Some (if key i = NULL then NULL else c) }) })"

definition cJSON_GetObjectItem :: "addr \<Rightarrow> addr \<Rightarrow> jheap \<Rightarrow> addr option" where
  "cJSON_GetObjectItem object string h = get_object_item object string False h"

definition cJSON_GetObjectItemCaseSensitive :: "addr \<Rightarrow> addr \<Rightarrow> jheap \<Rightarrow> addr option" where
  "cJSON_GetObjectItemCaseSensitive object string h = get_object_item object string True h"

definition cJSON_HasObjectItem :: "addr \<Rightarrow> addr \<Rightarrow> jheap \<Rightarrow> bool option" where
  "cJSON_HasObjectItem object string h = do { c \<leftarrow> cJSON_GetObjectItem object string h; Some (c \<noteq> NULL) }"

subsection \<open>Insertion\<close>

definition suffix_object :: "addr \<Rightarrow> addr \<Rightarrow> jheap \<Rightarrow> jheap option" where
  "suffix_object prev item h = do {
     h \<leftarrow> upd_item prev (\<lambda>i. i\<lparr>inext := item\<rparr>) h;
     upd_item item (\<lambda>i. i\<lparr>iprev := prev\<rparr>) h }"

text \<open>The copy of the whole structure, and the fields changed in it.\<close>

definition create_reference :: "addr \<Rightarrow> jheap \<Rightarrow> (addr \<times> jheap) option" where
  "create_reference item h =
     (if item = NULL then Some (NULL, h)
      else
        (let (reference, h) = cJSON_New_Item h in
         if reference = NULL then Some (NULL, h)
         else do {
           i \<leftarrow> load_item item h;
           h \<leftarrow> upd_item reference (\<lambda>_. i) h;
           h \<leftarrow> upd_item reference (\<lambda>i. i\<lparr>key := NULL, itype := itype i OR cJSON_IsReference\<rparr>) h;
           h \<leftarrow> upd_item reference (\<lambda>i. i\<lparr>inext := NULL, iprev := NULL\<rparr>) h;
           Some (reference, h) }))"

partial_function (option) last_item :: "addr \<Rightarrow> jheap \<Rightarrow> addr option" where
  [code]: "last_item c h = do {
     i \<leftarrow> load_item c h;
     (if inext i \<noteq> NULL then last_item (inext i) h else Some c) }"

definition add_item_to_array :: "addr \<Rightarrow> addr \<Rightarrow> jheap \<Rightarrow> (bool \<times> jheap) option" where
  "add_item_to_array array item h =
     (if item = NULL \<or> array = NULL then Some (False, h)
      else do {
        a \<leftarrow> load_item array h;
        h \<leftarrow> (if child a = NULL then upd_item array (\<lambda>i. i\<lparr>child := item\<rparr>) h
              else do { c \<leftarrow> last_item (child a) h; suffix_object c item h });
        Some (True, h) })"

definition cJSON_AddItemToArray :: "addr \<Rightarrow> addr \<Rightarrow> jheap \<Rightarrow> jheap option" where
  "cJSON_AddItemToArray array item h = map_option snd (add_item_to_array array item h)"

text \<open>Giving the item its name, after the old one is released unless it is constant.\<close>

definition set_key :: "addr \<Rightarrow> addr \<Rightarrow> 32 word \<Rightarrow> jheap \<Rightarrow> jheap option" where
  "set_key item new_key new_type h = do {
     i \<leftarrow> load_item item h;
     h \<leftarrow> (if \<not> string_is_const (itype i) \<and> key i \<noteq> NULL then free (key i) h else Some h);
     upd_item item (\<lambda>i. i\<lparr>key := new_key, itype := new_type\<rparr>) h }"

definition add_item_to_object :: "addr \<Rightarrow> addr \<Rightarrow> addr \<Rightarrow> bool \<Rightarrow> jheap \<Rightarrow> (bool \<times> jheap) option" where
  "add_item_to_object object string item constant_key h =
     (if object = NULL \<or> string = NULL \<or> item = NULL then Some (False, h)
      else if constant_key then do {
        i \<leftarrow> load_item item h;
        h \<leftarrow> set_key item string (itype i OR cJSON_StringIsConst) h;
        add_item_to_array object item h }
      else do {
        (new_key, h) \<leftarrow> cJSON_strdup string h;
        (if new_key = NULL then Some (False, h)
         else do {
           i \<leftarrow> load_item item h;
           h \<leftarrow> set_key item new_key (itype i AND NOT cJSON_StringIsConst) h;
           add_item_to_array object item h }) })"

definition cJSON_AddItemToObject :: "addr \<Rightarrow> addr \<Rightarrow> addr \<Rightarrow> jheap \<Rightarrow> jheap option" where
  "cJSON_AddItemToObject object string item h = map_option snd (add_item_to_object object string item False h)"

definition cJSON_AddItemToObjectCS :: "addr \<Rightarrow> addr \<Rightarrow> addr \<Rightarrow> jheap \<Rightarrow> jheap option" where
  "cJSON_AddItemToObjectCS object string item h = map_option snd (add_item_to_object object string item True h)"

definition cJSON_AddItemReferenceToArray :: "addr \<Rightarrow> addr \<Rightarrow> jheap \<Rightarrow> jheap option" where
  "cJSON_AddItemReferenceToArray array item h =
     (if array = NULL then Some h
      else do { (r, h) \<leftarrow> create_reference item h; map_option snd (add_item_to_array array r h) })"

definition cJSON_AddItemReferenceToObject :: "addr \<Rightarrow> addr \<Rightarrow> addr \<Rightarrow> jheap \<Rightarrow> jheap option" where
  "cJSON_AddItemReferenceToObject object string item h =
     (if object = NULL \<or> string = NULL then Some h
      else do { (r, h) \<leftarrow> create_reference item h; map_option snd (add_item_to_object object string r False h) })"

text \<open>The shape shared by the functions that create an item and add it.\<close>

definition add_created ::
  "(jheap \<Rightarrow> (addr \<times> jheap) option) \<Rightarrow> addr \<Rightarrow> addr \<Rightarrow> jheap \<Rightarrow> (addr \<times> jheap) option" where
  "add_created create object name h = do {
     (item, h) \<leftarrow> create h;
     (ok, h) \<leftarrow> add_item_to_object object name item False h;
     (if ok then Some (item, h) else do { h \<leftarrow> cJSON_Delete item h; Some (NULL, h) }) }"

definition cJSON_AddNullToObject :: "addr \<Rightarrow> addr \<Rightarrow> jheap \<Rightarrow> (addr \<times> jheap) option" where
  "cJSON_AddNullToObject = add_created cJSON_CreateNull"

definition cJSON_AddTrueToObject :: "addr \<Rightarrow> addr \<Rightarrow> jheap \<Rightarrow> (addr \<times> jheap) option" where
  "cJSON_AddTrueToObject = add_created cJSON_CreateTrue"

definition cJSON_AddFalseToObject :: "addr \<Rightarrow> addr \<Rightarrow> jheap \<Rightarrow> (addr \<times> jheap) option" where
  "cJSON_AddFalseToObject = add_created cJSON_CreateFalse"

definition cJSON_AddBoolToObject :: "addr \<Rightarrow> addr \<Rightarrow> bool \<Rightarrow> jheap \<Rightarrow> (addr \<times> jheap) option" where
  "cJSON_AddBoolToObject object name b = add_created (cJSON_CreateBool b) object name"

definition cJSON_AddNumberToObject :: "addr \<Rightarrow> addr \<Rightarrow> f64 \<Rightarrow> jheap \<Rightarrow> (addr \<times> jheap) option" where
  "cJSON_AddNumberToObject object name number = add_created (cJSON_CreateNumber number) object name"

definition cJSON_AddStringToObject :: "addr \<Rightarrow> addr \<Rightarrow> addr \<Rightarrow> jheap \<Rightarrow> (addr \<times> jheap) option" where
  "cJSON_AddStringToObject object name string = add_created (cJSON_CreateString string) object name"

definition cJSON_AddRawToObject :: "addr \<Rightarrow> addr \<Rightarrow> addr \<Rightarrow> jheap \<Rightarrow> (addr \<times> jheap) option" where
  "cJSON_AddRawToObject object name raw = add_created (cJSON_CreateRaw raw) object name"

definition cJSON_AddObjectToObject :: "addr \<Rightarrow> addr \<Rightarrow> jheap \<Rightarrow> (addr \<times> jheap) option" where
  "cJSON_AddObjectToObject = add_created cJSON_CreateObject"

definition cJSON_AddArrayToObject :: "addr \<Rightarrow> addr \<Rightarrow> jheap \<Rightarrow> (addr \<times> jheap) option" where
  "cJSON_AddArrayToObject = add_created cJSON_CreateArray"

subsection \<open>Detaching and deletion\<close>

definition cJSON_DetachItemViaPointer :: "addr \<Rightarrow> addr \<Rightarrow> jheap \<Rightarrow> (addr \<times> jheap) option" where
  "cJSON_DetachItemViaPointer parent item h =
     (if parent = NULL \<or> item = NULL then Some (NULL, h)
      else do {
        i \<leftarrow> load_item item h;
        h \<leftarrow> (if iprev i \<noteq> NULL then upd_item (iprev i) (\<lambda>j. j\<lparr>inext := inext i\<rparr>) h else Some h);
        i \<leftarrow> load_item item h;
        h \<leftarrow> (if inext i \<noteq> NULL then upd_item (inext i) (\<lambda>j. j\<lparr>iprev := iprev i\<rparr>) h else Some h);
        a \<leftarrow> load_item parent h;
        i \<leftarrow> load_item item h;
        h \<leftarrow> (if item = child a then upd_item parent (\<lambda>a. a\<lparr>child := inext i\<rparr>) h else Some h);
        h \<leftarrow> upd_item item (\<lambda>i. i\<lparr>iprev := NULL, inext := NULL\<rparr>) h;
        Some (item, h) })"

definition cJSON_DetachItemFromArray :: "addr \<Rightarrow> int \<Rightarrow> jheap \<Rightarrow> (addr \<times> jheap) option" where
  "cJSON_DetachItemFromArray array which h =
     (if which < 0 then Some (NULL, h)
      else do { c \<leftarrow> get_array_item array (nat which) h; cJSON_DetachItemViaPointer array c h })"

definition cJSON_DeleteItemFromArray :: "addr \<Rightarrow> int \<Rightarrow> jheap \<Rightarrow> jheap option" where
  "cJSON_DeleteItemFromArray array which h = do {
     (c, h) \<leftarrow> cJSON_DetachItemFromArray array which h; cJSON_Delete c h }"

definition cJSON_DetachItemFromObject :: "addr \<Rightarrow> addr \<Rightarrow> jheap \<Rightarrow> (addr \<times> jheap) option" where
  "cJSON_DetachItemFromObject object string h = do {
     c \<leftarrow> cJSON_GetObjectItem object string h; cJSON_DetachItemViaPointer object c h }"

definition cJSON_DetachItemFromObjectCaseSensitive :: "addr \<Rightarrow> addr \<Rightarrow> jheap \<Rightarrow> (addr \<times> jheap) option" where
  "cJSON_DetachItemFromObjectCaseSensitive object string h = do {
     c \<leftarrow> cJSON_GetObjectItemCaseSensitive object string h; cJSON_DetachItemViaPointer object c h }"

definition cJSON_DeleteItemFromObject :: "addr \<Rightarrow> addr \<Rightarrow> jheap \<Rightarrow> jheap option" where
  "cJSON_DeleteItemFromObject object string h = do {
     (c, h) \<leftarrow> cJSON_DetachItemFromObject object string h; cJSON_Delete c h }"

definition cJSON_DeleteItemFromObjectCaseSensitive :: "addr \<Rightarrow> addr \<Rightarrow> jheap \<Rightarrow> jheap option" where
  "cJSON_DeleteItemFromObjectCaseSensitive object string h = do {
     (c, h) \<leftarrow> cJSON_DetachItemFromObjectCaseSensitive object string h; cJSON_Delete c h }"

subsection \<open>Insertion in the middle, replacement\<close>

definition cJSON_InsertItemInArray :: "addr \<Rightarrow> int \<Rightarrow> addr \<Rightarrow> jheap \<Rightarrow> jheap option" where
  "cJSON_InsertItemInArray array which newitem h =
     (if which < 0 then Some h
      else do {
        after_inserted \<leftarrow> get_array_item array (nat which) h;
        (if after_inserted = NULL then map_option snd (add_item_to_array array newitem h)
         else do {
           h \<leftarrow> upd_item newitem (\<lambda>i. i\<lparr>inext := after_inserted\<rparr>) h;
           j \<leftarrow> load_item after_inserted h;
           h \<leftarrow> upd_item newitem (\<lambda>i. i\<lparr>iprev := iprev j\<rparr>) h;
           h \<leftarrow> upd_item after_inserted (\<lambda>j. j\<lparr>iprev := newitem\<rparr>) h;
           a \<leftarrow> load_item array h;
           (if after_inserted = child a then upd_item array (\<lambda>a. a\<lparr>child := newitem\<rparr>) h
            else do {
              i \<leftarrow> load_item newitem h;
              upd_item (iprev i) (\<lambda>p. p\<lparr>inext := newitem\<rparr>) h }) }) })"

definition cJSON_ReplaceItemViaPointer :: "addr \<Rightarrow> addr \<Rightarrow> addr \<Rightarrow> jheap \<Rightarrow> (bool \<times> jheap) option" where
  "cJSON_ReplaceItemViaPointer parent item replacement h =
     (if parent = NULL \<or> replacement = NULL \<or> item = NULL then Some (False, h)
      else if replacement = item then Some (True, h)
      else do {
        i \<leftarrow> load_item item h;
        h \<leftarrow> upd_item replacement (\<lambda>r. r\<lparr>inext := inext i, iprev := iprev i\<rparr>) h;
        r \<leftarrow> load_item replacement h;
        h \<leftarrow> (if inext r \<noteq> NULL then upd_item (inext r) (\<lambda>j. j\<lparr>iprev := replacement\<rparr>) h else Some h);
        r \<leftarrow> load_item replacement h;
        h \<leftarrow> (if iprev r \<noteq> NULL then upd_item (iprev r) (\<lambda>j. j\<lparr>inext := replacement\<rparr>) h else Some h);
        a \<leftarrow> load_item parent h;
        h \<leftarrow> (if child a = item then upd_item parent (\<lambda>a. a\<lparr>child := replacement\<rparr>) h else Some h);
        h \<leftarrow> upd_item item (\<lambda>i. i\<lparr>inext := NULL, iprev := NULL\<rparr>) h;
        h \<leftarrow> cJSON_Delete item h;
        Some (True, h) })"

definition cJSON_ReplaceItemInArray :: "addr \<Rightarrow> int \<Rightarrow> addr \<Rightarrow> jheap \<Rightarrow> jheap option" where
  "cJSON_ReplaceItemInArray array which newitem h =
     (if which < 0 then Some h
      else do {
        c \<leftarrow> get_array_item array (nat which) h;
        map_option snd (cJSON_ReplaceItemViaPointer array c newitem h) })"

definition cJSON_free :: "addr \<Rightarrow> jheap \<Rightarrow> jheap option" where
  "cJSON_free p h = free p h"

definition replace_item_in_object :: "addr \<Rightarrow> addr \<Rightarrow> addr \<Rightarrow> bool \<Rightarrow> jheap \<Rightarrow> (bool \<times> jheap) option" where
  "replace_item_in_object object string replacement case_sensitive h =
     (if replacement = NULL \<or> string = NULL then Some (False, h)
      else do {
        r \<leftarrow> load_item replacement h;
        h \<leftarrow> (if \<not> string_is_const (itype r) \<and> key r \<noteq> NULL then cJSON_free (key r) h else Some h);
        (k, h) \<leftarrow> cJSON_strdup string h;
        h \<leftarrow> upd_item replacement (\<lambda>r. r\<lparr>key := k, itype := itype r AND NOT cJSON_StringIsConst\<rparr>) h;
        c \<leftarrow> get_object_item object string case_sensitive h;
        (_, h) \<leftarrow> cJSON_ReplaceItemViaPointer object c replacement h;
        Some (True, h) })"

definition cJSON_ReplaceItemInObject :: "addr \<Rightarrow> addr \<Rightarrow> addr \<Rightarrow> jheap \<Rightarrow> jheap option" where
  "cJSON_ReplaceItemInObject object string newitem h =
     map_option snd (replace_item_in_object object string newitem False h)"

definition cJSON_ReplaceItemInObjectCaseSensitive :: "addr \<Rightarrow> addr \<Rightarrow> addr \<Rightarrow> jheap \<Rightarrow> jheap option" where
  "cJSON_ReplaceItemInObjectCaseSensitive object string newitem h =
     map_option snd (replace_item_in_object object string newitem True h)"

subsection \<open>Whole arrays\<close>

text \<open>
  The loop the constructors share, for the \<open>n\<close> elements still to be created from the caller's array:
  \<open>p\<close> is the last one so far.  On a failure the array is deleted.
\<close>

fun fill_array ::
  "('v \<Rightarrow> jheap \<Rightarrow> (addr \<times> jheap) option) \<Rightarrow> addr \<Rightarrow> nat \<Rightarrow> 'v list \<Rightarrow> bool \<Rightarrow> addr \<Rightarrow> jheap \<Rightarrow> (addr \<times> jheap) option" where
  "fill_array create a 0 vs first p h = Some (a, h)"
| "fill_array create a (Suc k) [] first p h = None"
| "fill_array create a (Suc k) (v # vs) first p h = do {
     (n, h) \<leftarrow> create v h;
     (if n = NULL then do { h \<leftarrow> cJSON_Delete a h; Some (NULL, h) }
      else do {
        h \<leftarrow> (if first then upd_item a (\<lambda>a. a\<lparr>child := n\<rparr>) h else suffix_object p n h);
        fill_array create a k vs False n h }) }"

text \<open>The argument is NULL or an array, of which the first \<open>count\<close> elements are read.\<close>

definition create_array ::
  "('v \<Rightarrow> jheap \<Rightarrow> (addr \<times> jheap) option) \<Rightarrow> 'v list option \<Rightarrow> int \<Rightarrow> jheap \<Rightarrow> (addr \<times> jheap) option" where
  "create_array create numbers count h =
     (case numbers of
        None \<Rightarrow> Some (NULL, h)
      | Some vs \<Rightarrow>
          if count < 0 then Some (NULL, h)
          else do {
            (a, h) \<leftarrow> cJSON_CreateArray h;
            (if a = NULL then Some (NULL, h) else fill_array create a (nat count) vs True NULL h) })"

definition f64_of_int :: "32 word \<Rightarrow> f64" where
  "f64_of_int n = f64_of_rat (sint n < 0) (of_int \<bar>sint n\<bar>)"

text \<open>\<open>(double) f\<close> of a \<open>float\<close>, which is exact.\<close>

definition f64_of_f32 :: "32 word \<Rightarrow> f64" where
  "f64_of_f32 f =
     (let s = bit f 31; e = unat (drop_bit 23 f AND 0xFF); m = unat (f AND 0x7FFFFF) in
      if e = 255 then
        (if s then push_bit 63 1 else 0) OR push_bit 52 0x7FF OR (if m = 0 then 0 else push_bit 51 1) OR
        push_bit 29 (of_nat m)
      else f64_of_rat s ((if e = 0 then of_nat m else of_nat (2 ^ 23 + m) * 2 ^ (e - 1)) / 2 ^ 149))"

definition cJSON_CreateIntArray :: "32 word list option \<Rightarrow> int \<Rightarrow> jheap \<Rightarrow> (addr \<times> jheap) option" where
  "cJSON_CreateIntArray = create_array (\<lambda>n. cJSON_CreateNumber (f64_of_int n))"

definition cJSON_CreateFloatArray :: "32 word list option \<Rightarrow> int \<Rightarrow> jheap \<Rightarrow> (addr \<times> jheap) option" where
  "cJSON_CreateFloatArray = create_array (\<lambda>f. cJSON_CreateNumber (f64_of_f32 f))"

definition cJSON_CreateDoubleArray :: "f64 list option \<Rightarrow> int \<Rightarrow> jheap \<Rightarrow> (addr \<times> jheap) option" where
  "cJSON_CreateDoubleArray = create_array cJSON_CreateNumber"

definition cJSON_CreateStringArray :: "addr list option \<Rightarrow> int \<Rightarrow> jheap \<Rightarrow> (addr \<times> jheap) option" where
  "cJSON_CreateStringArray = create_array cJSON_CreateString"

subsection \<open>Memory and version\<close>

definition cJSON_malloc :: "nat \<Rightarrow> jheap \<Rightarrow> addr \<times> jheap" where
  "cJSON_malloc n h = malloc (StrC (uninit n)) h"

text \<open>\<open>sprintf("%i.%i.%i")\<close> of the three parts, each of one or two digits.\<close>

definition version_part :: "nat \<Rightarrow> byte list" where
  "version_part n = (if n < 10 then digits_of 1 n else digits_of 2 n)"

definition cJSON_Version :: "byte list" where
  "cJSON_Version = version_part 1 @ [46] @ version_part 7 @ [46] @ version_part 11"

end
