(* ===== verification/CJsonChain.thy ===== *)
theory CJsonChain
  imports CJsonItems CJsonSpec
begin

text \<open>
  The chain of children of an item: what stores to the links of its elements do, the loops that walk
  it, and the invariant \<open>family\<close>: an item with its children, and some items that are on their own.
\<close>

subsection \<open>The blocks of a tree but its own item\<close>

fun inner :: "jtree \<Rightarrow> addr list" where
  "inner (JT p ty vs vi vd k ks) = ptrs vs @ blocks ks @ ptrs k"

lemma set_blocks: "set (blocks ts) = (\<Union>t \<in> set ts. insert (jaddr t) (set (inner t)))"
  by (induction ts rule: blocks.induct) auto

text \<open>The item and the strings and children of a tree, without the links of its item.\<close>

definition body_at :: "jheap \<Rightarrow> jtree \<Rightarrow> bool" where
  "body_at h t \<longleftrightarrow>
     (\<exists>i. load_item (jaddr t) h = Some i \<and> child i = first_addr (jkids t) NULL \<and> itype i = jtype t \<and>
        valuestring i = ptr_of (jvalue t) \<and> valueint i = jint t \<and> valuedouble i = jdouble t \<and> key i = ptr_of (jkey t)) \<and>
     str_at h (jvalue t) \<and> str_at h (jkey t) \<and> items_at h NULL (jkids t) NULL"

lemma items_at_Cons:
  "items_at h a (t # ts) b \<longleftrightarrow>
     body_at h t \<and> items_at h (jaddr t) ts b \<and>
     (\<exists>i. load_item (jaddr t) h = Some i \<and> inext i = first_addr ts b \<and> iprev i = a)"
  by (cases t) (auto simp: body_at_def)

lemma items_at_single:
  "items_at h a [t] b \<longleftrightarrow>
     body_at h t \<and> (\<exists>i. load_item (jaddr t) h = Some i \<and> inext i = b \<and> iprev i = a)"
  by (simp add: items_at_Cons)

lemma body_at_load: "body_at h t \<Longrightarrow> \<exists>i. load_item (jaddr t) h = Some i"
  by (auto simp: body_at_def)

lemma body_at_cong:
  assumes "\<And>q. q \<in> set (inner t) \<Longrightarrow> load q h' = load q h"
    and "load_item (jaddr t) h = Some i" "load_item (jaddr t) h' = Some i'"
    and "child i' = child i" "itype i' = itype i" "valuestring i' = valuestring i" "valueint i' = valueint i"
      "valuedouble i' = valuedouble i" "key i' = key i"
  shows "body_at h' t = body_at h t"
proof -
  obtain p ty vs vi vd k ks where t: "t = JT p ty vs vi vd k ks" by (cases t)
  have "str_at h' vs = str_at h vs" "str_at h' k = str_at h k" "items_at h' NULL ks NULL = items_at h NULL ks NULL"
    using assms(1) by (auto simp: t intro!: str_at_cong items_at_cong)
  then show ?thesis using assms(2-) by (simp add: body_at_def t)
qed

text \<open>Changing the links of one element.\<close>

definition relink :: "addr \<Rightarrow> (item \<Rightarrow> item) \<Rightarrow> bool" where
  "relink q f \<longleftrightarrow> (\<forall>i. child (f i) = child i \<and> itype (f i) = itype i \<and> valuestring (f i) = valuestring i \<and>
     valueint (f i) = valueint i \<and> valuedouble (f i) = valuedouble i \<and> key (f i) = key i)"

definition set_next :: "addr \<Rightarrow> addr \<Rightarrow> jheap \<Rightarrow> jheap" where
  "set_next q b h = setj q (ItemC (the (load_item q h)\<lparr>inext := b\<rparr>)) h"

definition set_prev :: "addr \<Rightarrow> addr \<Rightarrow> jheap \<Rightarrow> jheap" where
  "set_prev q a h = setj q (ItemC (the (load_item q h)\<lparr>iprev := a\<rparr>)) h"

definition set_child :: "addr \<Rightarrow> addr \<Rightarrow> jheap \<Rightarrow> jheap" where
  "set_child q c h = setj q (ItemC (the (load_item q h)\<lparr>child := c\<rparr>)) h"

lemmas set_link_defs = set_next_def set_prev_def set_child_def

lemma upd_links:
  "load_item q h = Some i \<Longrightarrow> upd_item q (\<lambda>i. i\<lparr>inext := b\<rparr>) h = Some (set_next q b h)"
  "load_item q h = Some i \<Longrightarrow> upd_item q (\<lambda>i. i\<lparr>iprev := a\<rparr>) h = Some (set_prev q a h)"
  "load_item q h = Some i \<Longrightarrow> upd_item q (\<lambda>i. i\<lparr>child := c\<rparr>) h = Some (set_child q c h)"
  by (simp_all add: upd_item_Some set_link_defs)

lemma load_set_links:
  assumes "load_item q h = Some i"
  shows "load_item r (set_next q b h) = (if r = q then Some (i\<lparr>inext := b\<rparr>) else load_item r h)"
    and "load_item r (set_prev q a h) = (if r = q then Some (i\<lparr>iprev := a\<rparr>) else load_item r h)"
    and "load_item r (set_child q c h) = (if r = q then Some (i\<lparr>child := c\<rparr>) else load_item r h)"
  using load_item_not_NULL [OF assms] assms by (simp_all add: set_link_defs load_item_setj)

lemma load_set_links_other:
  assumes "load_item q h = Some i" and "r \<noteq> q"
  shows "load r (set_next q b h) = load r h" "load r (set_prev q a h) = load r h" "load r (set_child q c h) = load r h"
  using load_item_not_NULL [OF assms(1)] assms(2) by (simp_all add: set_link_defs load_setj)

lemma set_links_more [simp]:
  "oom (set_next q b h) = oom h" "oom (set_prev q a h) = oom h" "oom (set_child q c h) = oom h"
  "brk (set_next q b h) = brk h" "brk (set_prev q a h) = brk h" "brk (set_child q c h) = brk h"
  by (simp_all add: set_link_defs)

lemma wf_set_links:
  assumes "wf_heap h" and "load_item q h = Some i"
  shows "wf_heap (set_next q b h)" "wf_heap (set_prev q a h)" "wf_heap (set_child q c h)"
  using assms by (simp_all add: set_link_defs load_item_Some_iff)

lemma items_at_set_other:
  assumes "load_item q h = Some i" and "q \<notin> set (blocks ts)"
  shows "items_at (set_next q x h) a ts b = items_at h a ts b"
    "items_at (set_prev q x h) a ts b = items_at h a ts b"
    "items_at (set_child q x h) a ts b = items_at h a ts b"
proof -
  have "r \<noteq> q" if "r \<in> set (blocks ts)" for r using assms(2) that by auto
  then show "items_at (set_next q x h) a ts b = items_at h a ts b"
    "items_at (set_prev q x h) a ts b = items_at h a ts b"
    "items_at (set_child q x h) a ts b = items_at h a ts b"
    using load_set_links_other [OF assms(1)] by (auto intro!: items_at_cong)
qed

lemma body_at_set:
  assumes b: "body_at h t" and n: "jaddr t \<notin> set (inner t)"
  shows "body_at (set_next (jaddr t) x h) t" "body_at (set_prev (jaddr t) x h) t"
proof -
  obtain i where i: "load_item (jaddr t) h = Some i" using body_at_load [OF b] by blast
  have m: "q \<noteq> jaddr t" if "q \<in> set (inner t)" for q using that n by auto
  have l: "load_item (jaddr t) (set_next (jaddr t) x h) = Some (i\<lparr>inext := x\<rparr>)"
    "load_item (jaddr t) (set_prev (jaddr t) x h) = Some (i\<lparr>iprev := x\<rparr>)"
    by (simp_all add: load_set_links [OF i])
  show "body_at (set_next (jaddr t) x h) t"
    by (rule body_at_cong [THEN iffD2, OF _ i l(1) _ _ _ _ _ _ b]) (simp_all add: load_set_links_other [OF i m])
  show "body_at (set_prev (jaddr t) x h) t"
    by (rule body_at_cong [THEN iffD2, OF _ i l(2) _ _ _ _ _ _ b]) (simp_all add: load_set_links_other [OF i m])
qed

text \<open>A new successor for the last element of a chain, a new predecessor for the first.\<close>

lemma items_at_set_next:
  assumes I: "items_at h a (ts @ [t]) b" and n: "jaddr t \<notin> set (blocks ts)" "jaddr t \<notin> set (inner t)"
  shows "items_at (set_next (jaddr t) c h) a (ts @ [t]) c"
proof -
  from I have T: "items_at h a ts (jaddr t)" and t: "items_at h (last_addr a ts) [t] b"
    by (simp_all add: items_at_append)
  then obtain i where i: "load_item (jaddr t) h = Some i" "iprev i = last_addr a ts" and b: "body_at h t"
    by (auto simp: items_at_single)
  have "items_at (set_next (jaddr t) c h) (last_addr a ts) [t] c"
    using body_at_set(1) [OF b n(2)] load_set_links(1) [OF i(1)] i(2) by (simp add: items_at_single)
  then show ?thesis using items_at_set_other(1) [OF i(1) n(1)] T by (simp add: items_at_append)
qed

lemma items_at_set_prev:
  assumes I: "items_at h a (t # ts) b" and n: "jaddr t \<notin> set (blocks ts)" "jaddr t \<notin> set (inner t)"
  shows "items_at (set_prev (jaddr t) c h) c (t # ts) b"
proof -
  from I obtain i where i: "load_item (jaddr t) h = Some i" "inext i = first_addr ts b" and b: "body_at h t"
    and T: "items_at h (jaddr t) ts b" by (auto simp: items_at_Cons)
  show ?thesis
    using body_at_set(2) [OF b n(2)] load_set_links(2) [OF i(1)] i(2) items_at_set_other(2) [OF i(1) n(1)] T
    by (simp add: items_at_Cons)
qed

subsection \<open>Walking the chain\<close>

lemma count_items_chain:
  "items_at h a ts NULL \<Longrightarrow> count_items (first_addr ts NULL) n h = Some (n + length ts)"
proof (induction ts arbitrary: a n)
  case (Cons t ts)
  then obtain i where i: "load_item (jaddr t) h = Some i" "inext i = first_addr ts NULL" and T: "items_at h (jaddr t) ts NULL"
    by (auto simp: items_at_Cons)
  then show ?case using Cons.IH [OF T, of "n + 1"] load_item_not_NULL [OF i(1)]
    by (simp add: count_items.simps [of "jaddr t"])
qed (simp add: count_items.simps)

lemma skip_items_chain:
  "items_at h a ts NULL \<Longrightarrow> skip_items (first_addr ts NULL) n h = Some (first_addr (drop n ts) NULL)"
proof (induction ts arbitrary: a n)
  case Nil
  then show ?case by (cases n) simp_all
next
  case (Cons t ts)
  then obtain i where i: "load_item (jaddr t) h = Some i" "inext i = first_addr ts NULL" and T: "items_at h (jaddr t) ts NULL"
    by (auto simp: items_at_Cons)
  then show ?case using Cons.IH [OF T] load_item_not_NULL [OF i(1)] by (cases n) simp_all
qed

lemma last_item_chain:
  "items_at h a (ts @ [t]) NULL \<Longrightarrow> last_item (first_addr (ts @ [t]) NULL) h = Some (jaddr t)"
proof (induction ts arbitrary: a)
  case Nil
  then obtain i where "load_item (jaddr t) h = Some i" "inext i = NULL" by (auto simp: items_at_single)
  then show ?case by (simp add: last_item.simps [of "jaddr t"])
next
  case (Cons u us)
  then obtain i where i: "load_item (jaddr u) h = Some i" "inext i = first_addr (us @ [t]) NULL"
    and T: "items_at h (jaddr u) (us @ [t]) NULL" by (auto simp: items_at_Cons)
  have "first_addr (us @ [t]) NULL \<noteq> NULL" using first_addr_NULL [OF T] by (cases us) auto
  with Cons.IH [OF T] i show ?case by (simp add: last_item.simps [of "jaddr u"])
qed

end
