(* ===== verification/CJsonSeq.thy ===== *)
theory CJsonSeq
  imports CJsonChain
begin

text \<open>
  Arrays as sequences: \<open>family h p a ts us\<close> says that the item at \<open>p\<close> has the children \<open>ts\<close>, and that
  the items \<open>us\<close> stand on their own.  Adding, inserting and detaching move items between the two.
  The contract they share is the locale \<open>arrangement\<close>.
\<close>

subsection \<open>The invariant\<close>

text \<open>The items are different, and none is a block inside another; strings and grandchildren may be shared.\<close>

definition apart :: "addr \<Rightarrow> jtree list \<Rightarrow> bool" where
  "apart p ts \<longleftrightarrow> distinct (p # map jaddr ts) \<and> (\<forall>t \<in> set ts. set (inner t) \<inter> set (p # map jaddr ts) = {})"

definition family :: "jheap \<Rightarrow> addr \<Rightarrow> item \<Rightarrow> jtree list \<Rightarrow> jtree list \<Rightarrow> bool" where
  "family h p a ts us \<longleftrightarrow>
     load_item p h = Some (a\<lparr>child := first_addr ts NULL\<rparr>) \<and> items_at h NULL ts NULL \<and>
     (\<forall>u \<in> set us. items_at h NULL [u] NULL) \<and> apart p (ts @ us)"

text \<open>Only the items \<open>ps\<close> may have changed.\<close>

definition touches :: "addr set \<Rightarrow> jheap \<Rightarrow> jheap \<Rightarrow> bool" where
  "touches ps h h' \<longleftrightarrow> (\<forall>q. q \<notin> ps \<longrightarrow> load q h' = load q h) \<and> brk h' = brk h \<and> oom h' = oom h \<and>
     (wf_heap h \<longrightarrow> wf_heap h')"

lemma touches_refl [simp]: "touches ps h h"
  by (simp add: touches_def)

lemma touches_trans: "touches ps h h1 \<Longrightarrow> touches ps h1 h2 \<Longrightarrow> touches ps h h2"
  by (simp add: touches_def)

lemma touches_mono: "touches ps h h' \<Longrightarrow> ps \<subseteq> qs \<Longrightarrow> touches qs h h'"
  by (auto simp: touches_def)

lemma touches_set:
  assumes "load_item q h = Some i" and "q \<in> ps"
  shows "touches ps h (set_next q b h)" "touches ps h (set_prev q b h)" "touches ps h (set_child q b h)"
proof -
  have "r \<noteq> q" if "r \<notin> ps" for r using assms(2) that by auto
  then show "touches ps h (set_next q b h)" "touches ps h (set_prev q b h)" "touches ps h (set_child q b h)"
    using load_set_links_other [OF assms(1)] wf_set_links [OF _ assms(1)] by (simp_all add: touches_def)
qed

lemma apart_perm: "set ts = set us \<Longrightarrow> length ts = length us \<Longrightarrow> apart p ts = apart p us"
proof -
  assume e: "set ts = set us" "length ts = length us"
  then have "distinct ts = distinct us" by (metis card_distinct distinct_card)
  with e show ?thesis by (simp add: apart_def distinct_map)
qed

lemma apartD:
  assumes "apart p (xs @ t # ys)"
  shows "jaddr t \<notin> set (blocks xs)" "jaddr t \<notin> set (blocks ys)" "jaddr t \<notin> set (inner t)" "p \<noteq> jaddr t"
    "p \<notin> set (blocks (xs @ t # ys))"
  using assms unfolding apart_def set_blocks by fastforce+

lemma apart_p: "apart p ts \<Longrightarrow> p \<notin> set (blocks ts)"
  unfolding apart_def set_blocks by fastforce

lemma apart_subset:
  assumes "apart p us" and "set ts \<subseteq> set us" and "distinct (map jaddr ts)"
  shows "apart p ts"
proof -
  have s: "set (p # map jaddr ts) \<subseteq> set (p # map jaddr us)" using assms(2) by auto
  have "set (inner t) \<inter> set (p # map jaddr ts) = {}" if "t \<in> set ts" for t
    using assms(1,2) s that unfolding apart_def by blast
  moreover have "distinct (p # map jaddr ts)" using assms by (auto simp: apart_def)
  ultimately show ?thesis by (simp add: apart_def)
qed

lemma apart_sub:
  assumes "apart p (xs @ ys @ zs)"
  shows "apart p (xs @ zs)"
  by (rule apart_subset [OF assms]) (use assms in \<open>auto simp: apart_def\<close>)

lemma family_load: "family h p a ts us \<Longrightarrow> \<exists>i. load_item p h = Some i \<and> child i = first_addr ts NULL"
  by (auto simp: family_def)

lemma family_p_not_NULL: "family h p a ts us \<Longrightarrow> p \<noteq> NULL"
  by (auto simp: family_def dest: load_item_not_NULL)

lemma items_at_load:
  "items_at h a [t] b \<Longrightarrow> \<exists>i. load_item (jaddr t) h = Some i \<and> inext i = b \<and> iprev i = a"
  by (auto simp: items_at_single)

text \<open>A store to the links of \<open>q\<close> keeps what does not contain \<open>q\<close>.\<close>

lemma keep_items:
  assumes "load_item q h = Some i" and "q \<notin> set (blocks ts)" and "items_at h a ts b"
  shows "items_at (set_next q x h) a ts b" "items_at (set_prev q x h) a ts b" "items_at (set_child q x h) a ts b"
  using items_at_set_other [OF assms(1,2)] assms(3) by simp_all

lemma keep_loose:
  assumes "load_item q h = Some i" and "\<forall>u \<in> set us. items_at h NULL [u] NULL" and "q \<notin> set (blocks us)"
  shows "\<forall>u \<in> set us. items_at (set_next q x h) NULL [u] NULL"
    "\<forall>u \<in> set us. items_at (set_prev q x h) NULL [u] NULL"
    "\<forall>u \<in> set us. items_at (set_child q x h) NULL [u] NULL"
  using keep_items [OF assms(1)] assms(2,3) by (auto simp: set_blocks)

subsection \<open>Adding\<close>

lemma add_item_to_array_family:
  assumes F: "family h p a ts (us @ u # vs)"
  shows "\<exists>h'. add_item_to_array p (jaddr u) h = Some (True, h') \<and> family h' p a (ts @ [u]) (us @ vs) \<and>
    touches (set (p # jaddr u # map jaddr ts)) h h'"
proof -
  from F have P: "load_item p h = Some (a\<lparr>child := first_addr ts NULL\<rparr>)" and T: "items_at h NULL ts NULL"
    and L: "\<forall>v \<in> set (us @ u # vs). items_at h NULL [v] NULL" and A: "apart p (ts @ us @ u # vs)"
    by (simp_all add: family_def)
  have A': "apart p ((ts @ [u]) @ us @ vs)" using A by (subst apart_perm [of _ "ts @ us @ u # vs"]) auto
  note Au = apartD [of p "ts @ us" u vs, simplified append_assoc, OF A]
  from L obtain iu where iu: "load_item (jaddr u) h = Some iu" "inext iu = NULL" using items_at_load by fastforce
  have un: "jaddr u \<noteq> NULL" and pn: "p \<noteq> NULL" using iu P by (auto dest: load_item_not_NULL)
  have ub: "jaddr u \<notin> set (blocks ts)" "jaddr u \<notin> set (blocks (us @ vs))" using Au by (simp_all add: blocks_append)
  show ?thesis
  proof (cases ts rule: rev_cases)
    case Nil
    let ?h = "set_child p (jaddr u) h"
    have "add_item_to_array p (jaddr u) h = Some (True, ?h)"
      using P un pn Nil by (simp add: add_item_to_array_def upd_links(3))
    moreover have "items_at ?h NULL [u] NULL" using keep_items(3) [OF P] L apart_p [OF A] by (auto simp: blocks_append set_blocks)
    moreover have "\<forall>v \<in> set (us @ vs). items_at ?h NULL [v] NULL"
      using L apart_p [OF A] by (intro keep_loose(3) [OF P]) (auto simp: blocks_append set_blocks)
    moreover have "load_item p ?h = Some (a\<lparr>child := jaddr u\<rparr>)" using load_set_links(3) [OF P] by simp
    ultimately show ?thesis using A' Nil touches_set(3) [OF P] by (auto simp: family_def)
  next
    case (snoc xs t)
    then have A1: "apart p (xs @ t # us @ u # vs)" using A by simp
    note At = apartD [OF A1]
    from T snoc obtain it where it: "load_item (jaddr t) h = Some it" by (auto simp: items_at_append items_at_single)
    let ?h1 = "set_next (jaddr t) (jaddr u) h" and ?h2 = "set_prev (jaddr u) (jaddr t) (set_next (jaddr t) (jaddr u) h)"
    have tu: "jaddr u \<noteq> jaddr t" using ub snoc by (auto simp: blocks_append set_blocks)
    have iu1: "load_item (jaddr u) ?h1 = Some iu" using load_set_links(1) [OF it] iu tu by simp
    have "last_item (first_addr ts NULL) h = Some (jaddr t)" using last_item_chain T snoc by simp
    moreover have "first_addr ts NULL \<noteq> NULL" using first_addr_NULL [OF T] snoc by simp
    ultimately have e: "add_item_to_array p (jaddr u) h = Some (True, ?h2)"
      using P un pn it iu1 by (simp add: add_item_to_array_def suffix_object_def upd_links(1) upd_links(2) [OF iu1])
    have T1: "items_at ?h1 NULL ts (jaddr u)" using items_at_set_next [of h NULL xs t NULL] T snoc At by simp
    have u1: "items_at ?h1 NULL [u] NULL" using keep_items(1) [OF it, of "[u]"] L At(2) by (auto simp: blocks_append set_blocks)
    have "items_at ?h2 NULL ts (jaddr u)" by (rule keep_items(2) [OF iu1 ub(1) T1])
    moreover have "items_at ?h2 (jaddr t) [u] NULL" using items_at_set_prev [OF u1] Au(3) by simp
    ultimately have "items_at ?h2 NULL (ts @ [u]) NULL"
      using snoc items_at_append [of ?h2 NULL ts "[u]" NULL] by simp
    moreover have "\<forall>v \<in> set (us @ vs). items_at ?h2 NULL [v] NULL"
      using L At(2) ub(2) by (intro keep_loose(2) [OF iu1] keep_loose(1) [OF it]) (auto simp: blocks_append set_blocks)
    moreover have "load_item p ?h2 = Some (a\<lparr>child := first_addr (ts @ [u]) NULL\<rparr>)"
      using load_set_links(2) [OF iu1] load_set_links(1) [OF it] P Au(4) At(4) snoc by (cases xs) simp_all
    moreover have "touches (set (p # jaddr u # map jaddr ts)) h ?h2"
      by (rule touches_trans [OF touches_set(1) [OF it] touches_set(2) [OF iu1]]) (use snoc in auto)
    ultimately show ?thesis using e A' by (auto simp: family_def)
  qed
qed

subsection \<open>Access\<close>

lemma cJSON_GetArraySize_family:
  assumes "family h p a ts us"
  shows "cJSON_GetArraySize p h = Some (of_nat (length ts))"
  using assms count_items_chain [of h NULL ts 0] load_item_not_NULL
  by (auto simp: family_def cJSON_GetArraySize_def)

lemma get_array_item_family:
  assumes "family h p a ts us"
  shows "get_array_item p n h = Some (if n < length ts then jaddr (ts ! n) else NULL)"
proof -
  from assms have "load_item p h = Some (a\<lparr>child := first_addr ts NULL\<rparr>)" "p \<noteq> NULL" "items_at h NULL ts NULL"
    using family_p_not_NULL by (auto simp: family_def)
  moreover have "first_addr (drop n ts) NULL = (if n < length ts then jaddr (ts ! n) else NULL)"
    by (simp add: Cons_nth_drop_Suc [symmetric])
  ultimately show ?thesis using skip_items_chain [of h NULL ts n] by (simp add: get_array_item_def)
qed

subsection \<open>Detaching\<close>

lemma family_split:
  assumes "family h p a (xs @ t # ys) us"
  shows "load_item p h = Some (a\<lparr>child := first_addr (xs @ t # ys) NULL\<rparr>)"
    "items_at h NULL xs (jaddr t)" "items_at h (last_addr NULL xs) [t] (first_addr ys NULL)" "items_at h (jaddr t) ys NULL"
    "\<forall>u \<in> set us. items_at h NULL [u] NULL" "apart p (xs @ t # ys @ us)"
proof -
  have "items_at h (last_addr NULL xs) [t] (first_addr ys NULL) \<and> items_at h (jaddr t) ys NULL"
    using assms by (cases t) (simp add: family_def items_at_append)
  then show "items_at h (last_addr NULL xs) [t] (first_addr ys NULL)" "items_at h (jaddr t) ys NULL" by auto
qed (use assms in \<open>auto simp: family_def items_at_append\<close>)

text \<open>The two writes that pass over an element: behind \<open>xs\<close> comes \<open>c\<close>, in front of \<open>ys\<close> stands \<open>d\<close>.\<close>

lemma patch_next:
  assumes X: "items_at h NULL xs b" and A: "apart p xs"
  obtains h' where "(if last_addr NULL xs \<noteq> NULL then upd_item (last_addr NULL xs) (\<lambda>j. j\<lparr>inext := c\<rparr>) h else Some h) = Some h'"
    "items_at h' NULL xs c" "touches (jaddr ` set xs) h h'"
proof (cases xs rule: rev_cases)
  case Nil
  then show ?thesis by (intro that [of h]) simp_all
next
  case (snoc xs' x)
  then have Ax: "apart p (xs' @ x # [])" using A by simp
  from X snoc obtain i where i: "load_item (jaddr x) h = Some i" by (auto simp: items_at_append items_at_single)
  show ?thesis
  proof (rule that)
    show "(if last_addr NULL xs \<noteq> NULL then upd_item (last_addr NULL xs) (\<lambda>j. j\<lparr>inext := c\<rparr>) h else Some h) =
        Some (set_next (jaddr x) c h)" using i load_item_not_NULL [OF i] snoc by (simp add: upd_links(1))
    show "items_at (set_next (jaddr x) c h) NULL xs c" using items_at_set_next [of h NULL xs' x b c] X snoc apartD [OF Ax] by simp
    show "touches (jaddr ` set xs) h (set_next (jaddr x) c h)" by (rule touches_set(1) [OF i]) (simp add: snoc)
  qed
qed

lemma patch_prev:
  assumes Y: "items_at h b ys NULL" and A: "apart p ys"
  obtains h' where "(if first_addr ys NULL \<noteq> NULL then upd_item (first_addr ys NULL) (\<lambda>j. j\<lparr>iprev := d\<rparr>) h else Some h) = Some h'"
    "items_at h' d ys NULL" "touches (jaddr ` set ys) h h'"
proof (cases ys)
  case Nil
  then show ?thesis by (intro that [of h]) simp_all
next
  case (Cons y ys')
  then have Ay: "apart p ([] @ y # ys')" using A by simp
  from Y Cons obtain i where i: "load_item (jaddr y) h = Some i" by (auto simp: items_at_Cons)
  show ?thesis
  proof (rule that)
    show "(if first_addr ys NULL \<noteq> NULL then upd_item (first_addr ys NULL) (\<lambda>j. j\<lparr>iprev := d\<rparr>) h else Some h) =
        Some (set_prev (jaddr y) d h)" using i load_item_not_NULL [OF i] Cons by (simp add: upd_links(2))
    show "items_at (set_prev (jaddr y) d h) d ys NULL" using items_at_set_prev [of h b y ys' NULL d] Y Cons apartD [OF Ay] by simp
    show "touches (jaddr ` set ys) h (set_prev (jaddr y) d h)" by (rule touches_set(2) [OF i]) (simp add: Cons)
  qed
qed

lemma patch_child:
  assumes P: "load_item p h = Some (a\<lparr>child := c\<rparr>)"
  obtains h' where "upd_item p (\<lambda>a. a\<lparr>child := d\<rparr>) h = Some h'"
    "load_item p h' = Some (a\<lparr>child := d\<rparr>)" "touches {p} h h'"
  by (rule that [of "set_child p d h"])
    (use upd_links(3) [OF P, of d] load_set_links(3) [OF P, of p d] touches_set(3) [OF P] in simp_all)

lemma child_upd: "child (a\<lparr>child := c\<rparr>) = c"
  by simp

lemma touches_items:
  "touches S h h' \<Longrightarrow> set (blocks ts) \<inter> S = {} \<Longrightarrow> items_at h' a ts b = items_at h a ts b"
  by (rule items_at_cong) (auto simp: touches_def)

lemma touches_item: "touches S h h' \<Longrightarrow> q \<notin> S \<Longrightarrow> load_item q h' = load_item q h"
  by (rule load_item_cong) (auto simp: touches_def)

lemma touches_loose:
  "touches S h h' \<Longrightarrow> set (blocks us) \<inter> S = {} \<Longrightarrow> \<forall>u \<in> set us. items_at h NULL [u] NULL \<Longrightarrow>
   \<forall>u \<in> set us. items_at h' NULL [u] NULL"
proof
  fix u assume T: "touches S h h'" and B: "set (blocks us) \<inter> S = {}" and I: "\<forall>u \<in> set us. items_at h NULL [u] NULL"
    and u: "u \<in> set us"
  have "set (blocks [u]) \<inter> S = {}" using B u unfolding set_blocks by auto
  from touches_items [OF T this] I u show "items_at h' NULL [u] NULL" by blast
qed

text \<open>Blocks of some of the trees and items of others.\<close>

lemma apart_blocks:
  assumes "apart p zs" and "set xs \<inter> set ys = {}" and "set (xs @ ys) \<subseteq> set zs"
  shows "set (blocks xs) \<inter> jaddr ` set ys = {}" "set (blocks xs) \<inter> insert p (jaddr ` set ys) = {}"
proof -
  have z: "set (inner x) \<inter> set (p # map jaddr zs) = {}" "p \<noteq> jaddr x" if "x \<in> set xs" for x
  proof -
    have x: "x \<in> set zs" using assms(3) that by auto
    show "set (inner x) \<inter> set (p # map jaddr zs) = {}" using assms(1) x unfolding apart_def by blast
    show "p \<noteq> jaddr x" using assms(1) x by (auto simp: apart_def)
  qed
  have y: "jaddr y \<in> set (p # map jaddr zs)" if "y \<in> set ys" for y using assms(3) that by auto
  have "inj_on jaddr (set zs)" using assms(1) by (simp add: apart_def distinct_map)
  with assms(2,3) have d: "jaddr ` set xs \<inter> jaddr ` set ys = {}" by (auto dest: inj_onD)
  show "set (blocks xs) \<inter> jaddr ` set ys = {}" "set (blocks xs) \<inter> insert p (jaddr ` set ys) = {}"
    unfolding set_blocks using z y d by fastforce+
qed

text \<open>The links of an item that leaves the chain.\<close>

lemma upd_alone:
  assumes I: "items_at h a [t] b" and n: "jaddr t \<notin> set (inner t)"
  obtains h' where "upd_item (jaddr t) (\<lambda>i. i\<lparr>iprev := c, inext := d\<rparr>) h = Some h'"
    "upd_item (jaddr t) (\<lambda>i. i\<lparr>inext := d, iprev := c\<rparr>) h = Some h'"
    "items_at h' c [t] d" "touches {jaddr t} h h'"
proof -
  from I obtain i where i: "load_item (jaddr t) h = Some i" using items_at_load by blast
  let ?h1 = "set_prev (jaddr t) c h"
  have i1: "load_item (jaddr t) ?h1 = Some (i\<lparr>iprev := c\<rparr>)" using load_set_links(2) [OF i] by simp
  have "set_next (jaddr t) d ?h1 = setj (jaddr t) (ItemC (i\<lparr>iprev := c, inext := d\<rparr>)) h"
    by (simp add: set_next_def i1) (simp add: set_prev_def)
  moreover have "items_at ?h1 c [t] b" using items_at_set_prev [OF I] n by simp
  then have "items_at (set_next (jaddr t) d ?h1) c [t] d" using items_at_set_next [of ?h1 c "[]" t b d] n by simp
  moreover have "touches {jaddr t} h (set_next (jaddr t) d ?h1)"
    by (rule touches_trans [OF touches_set(2) [OF i] touches_set(1) [OF i1]]) simp_all
  moreover have f: "(\<lambda>i. i\<lparr>inext := d, iprev := c\<rparr>) = (\<lambda>i :: item. i\<lparr>iprev := c, inext := d\<rparr>)" by (rule ext) simp
  ultimately show thesis using i by (intro that [of "set_next (jaddr t) d ?h1"]) (unfold f, simp_all add: upd_item_Some)
qed

lemma first_last:
  "items_at h a xs b \<Longrightarrow> (last_addr NULL xs = NULL) = (xs = [])"
  by (cases xs rule: rev_cases) (auto simp: items_at_append items_at_single dest: load_item_not_NULL)

lemma detach_family:
  assumes F: "family h p a (xs @ t # ys) us"
  shows "\<exists>h'. cJSON_DetachItemViaPointer p (jaddr t) h = Some (jaddr t, h') \<and> family h' p a (xs @ ys) (t # us) \<and>
    touches (set (p # map jaddr (xs @ t # ys))) h h'"
proof -
  note S = family_split [OF F]
  let ?b = "first_addr ys NULL" and ?d = "last_addr NULL xs" and ?zs = "xs @ t # ys @ us"
  let ?P = "set (p # map jaddr (xs @ t # ys))"
  have D: "distinct (map jaddr ?zs)" "p \<notin> jaddr ` set ?zs" using S(6) by (auto simp: apart_def)
  have D0: "distinct ?zs" using D(1) unfolding distinct_map by blast
  have tt: "jaddr t \<notin> jaddr ` set xs" "jaddr t \<notin> jaddr ` set ys" "jaddr t \<noteq> p" using D by auto
  have tin: "jaddr t \<notin> set (inner t)" by (rule apartD(3) [OF S(6)])
  have Ax: "apart p xs" "apart p ys" by (rule apart_subset [OF S(6)]; use D(1) in auto)+
  have B: "set (blocks xs) \<inter> jaddr ` set ys = {}" "set (blocks ys) \<inter> jaddr ` set xs = {}"
    "set (blocks [t]) \<inter> jaddr ` set xs = {}" "set (blocks [t]) \<inter> jaddr ` set ys = {}"
    "set (blocks xs) \<inter> jaddr ` set [t] = {}" "set (blocks ys) \<inter> jaddr ` set [t] = {}"
    "set (blocks us) \<inter> jaddr ` set xs = {}" "set (blocks us) \<inter> jaddr ` set ys = {}" "set (blocks us) \<inter> jaddr ` set [t] = {}"
    by (rule apart_blocks(1) [OF S(6)]; use D0 in auto)+
  from S(3) obtain i where i: "load_item (jaddr t) h = Some i" "iprev i = ?d" "inext i = ?b"
    using items_at_load by blast
  have pn: "p \<noteq> NULL" and tn: "jaddr t \<noteq> NULL" using S(1) i(1) by (auto dest: load_item_not_NULL)
  from patch_next [OF S(2) Ax(1), of ?b] obtain h1 where
    h1: "(if ?d \<noteq> NULL then upd_item ?d (\<lambda>j. j\<lparr>inext := ?b\<rparr>) h else Some h) = Some h1"
    "items_at h1 NULL xs ?b" "touches (jaddr ` set xs) h h1" .
  have Y1: "items_at h1 (jaddr t) ys NULL" using touches_items [OF h1(3) B(2)] S(4) by simp
  have i1: "load_item (jaddr t) h1 = Some i" using touches_item [OF h1(3) tt(1)] i(1) by simp
  from patch_prev [OF Y1 Ax(2), of ?d] obtain h2 where
    h2: "(if ?b \<noteq> NULL then upd_item ?b (\<lambda>j. j\<lparr>iprev := ?d\<rparr>) h1 else Some h1) = Some h2"
    "items_at h2 ?d ys NULL" "touches (jaddr ` set ys) h1 h2" .
  have X2: "items_at h2 NULL xs ?b" using touches_items [OF h2(3) B(1)] h1(2) by simp
  have i2: "load_item (jaddr t) h2 = Some i" using touches_item [OF h2(3) tt(2)] i1 by simp
  have p1: "p \<notin> jaddr ` set xs" "p \<notin> jaddr ` set ys" using D(2) by auto
  have P2: "load_item p h2 = Some (a\<lparr>child := first_addr (xs @ t # ys) NULL\<rparr>)"
    using touches_item [OF h2(3) p1(2)] touches_item [OF h1(3) p1(1)] S(1) by simp
  have T2: "touches ?P h h2"
    by (rule touches_trans [OF touches_mono [OF h1(3)] touches_mono [OF h2(3)]]) auto
  have "\<exists>h3. (if jaddr t = first_addr (xs @ t # ys) NULL then upd_item p (\<lambda>a. a\<lparr>child := ?b\<rparr>) h2 else Some h2) = Some h3 \<and>
      load_item p h3 = Some (a\<lparr>child := first_addr (xs @ ys) NULL\<rparr>) \<and> touches {p} h2 h3"
  proof (cases xs)
    case Nil
    from patch_child [OF P2, of ?b] obtain h3 where "upd_item p (\<lambda>a. a\<lparr>child := ?b\<rparr>) h2 = Some h3"
      "load_item p h3 = Some (a\<lparr>child := ?b\<rparr>)" "touches {p} h2 h3" .
    then show ?thesis using Nil by auto
  next
    case (Cons x xs')
    then show ?thesis using tt(1) P2 by auto
  qed
  then obtain h3 where h3: "(if jaddr t = first_addr (xs @ t # ys) NULL then upd_item p (\<lambda>a. a\<lparr>child := ?b\<rparr>) h2 else Some h2) = Some h3"
    "load_item p h3 = Some (a\<lparr>child := first_addr (xs @ ys) NULL\<rparr>)" "touches {p} h2 h3" by blast
  have pb: "set (blocks ?zs) \<inter> {p} = {}" using apart_p [OF S(6)] by simp
  have keep3: "items_at h3 c ws d = items_at h2 c ws d" if "set ws \<subseteq> set ?zs" for c ws d
  proof -
    have "set (blocks ws) \<inter> {p} = {}" using pb that unfolding set_blocks by blast
    from touches_items [OF h3(3) this] show ?thesis .
  qed
  have t3: "items_at h3 ?d [t] ?b"
    using touches_items [OF h1(3) B(3)] touches_items [OF h2(3) B(4)] keep3 [of "[t]"] S(3) by simp
  from upd_alone [OF t3 tin, of NULL NULL] obtain h4 where
    h4: "upd_item (jaddr t) (\<lambda>i. i\<lparr>iprev := NULL, inext := NULL\<rparr>) h3 = Some h4" "items_at h4 NULL [t] NULL"
    "touches {jaddr t} h3 h4" .
  have "cJSON_DetachItemViaPointer p (jaddr t) h = Some (jaddr t, h4)"
    by (simp only: cJSON_DetachItemViaPointer_def pn tn simp_thms if_False Option.bind.bind_lunit i h1(1) i1 h2(1) P2 i2
        child_upd h3(1) h4(1))
  moreover have "family h4 p a (xs @ ys) (t # us)"
  proof -
    have k3: "items_at h3 c xs d = items_at h2 c xs d" "items_at h3 c ys d = items_at h2 c ys d"
      "u \<in> set us \<Longrightarrow> items_at h3 c [u] d = items_at h2 c [u] d" for c d u
      by (rule keep3; auto)+
    have T4: "touches (jaddr ` set [t]) h3 h4" using h4(3) by simp
    have "items_at h4 NULL (xs @ ys) NULL"
      using touches_items [OF T4 B(5)] touches_items [OF T4 B(6)] k3 X2 h2(2) by (simp add: items_at_append)
    moreover have "\<forall>u \<in> set us. items_at h3 NULL [u] NULL"
      using touches_loose [OF h2(3) B(8) touches_loose [OF h1(3) B(7) S(5)]] k3(3) by blast
    from touches_loose [OF T4 B(9) this] have "\<forall>u \<in> set us. items_at h4 NULL [u] NULL" .
    moreover have "load_item p h4 = load_item p h3" using touches_item [OF h4(3)] tt(3) by auto
    moreover have "apart p ((xs @ ys) @ t # us)" using S(6) by (subst apart_perm [of _ ?zs]) auto
    ultimately show ?thesis using h3(2) h4(2) by (auto simp: family_def)
  qed
  moreover have "touches ?P h h4"
    by (rule touches_trans [OF T2 touches_trans [OF touches_mono [OF h3(3)] touches_mono [OF h4(3)]]]) auto
  ultimately show ?thesis by blast
qed

subsection \<open>Inserting\<close>

lemma upd_single:
  assumes I: "items_at h a [t] b" and n: "jaddr t \<notin> set (inner t)"
  obtains h1 h2 where "upd_item (jaddr t) (\<lambda>i. i\<lparr>inext := c\<rparr>) h = Some h1" "items_at h1 a [t] c" "touches {jaddr t} h h1"
    "upd_item (jaddr t) (\<lambda>i. i\<lparr>iprev := d\<rparr>) h1 = Some h2" "items_at h2 d [t] c" "touches {jaddr t} h1 h2"
proof -
  from I obtain i where i: "load_item (jaddr t) h = Some i" using items_at_load by blast
  let ?h1 = "set_next (jaddr t) c h"
  have i1: "load_item (jaddr t) ?h1 = Some (i\<lparr>inext := c\<rparr>)" using load_set_links(1) [OF i] by simp
  have I1: "items_at ?h1 a [t] c" using items_at_set_next [of h a "[]" t b c] I n by simp
  then have "items_at (set_prev (jaddr t) d ?h1) d [t] c" using items_at_set_prev [OF I1] n by simp
  then show thesis
    by (intro that [of ?h1 "set_prev (jaddr t) d ?h1"])
      (use I1 upd_links(1) [OF i] upd_links(2) [OF i1] touches_set(1) [OF i] touches_set(2) [OF i1] in simp_all)
qed

lemma insert_family:
  assumes F: "family h p a (xs @ y # ys) (us @ u # vs)"
  shows "\<exists>h'. cJSON_InsertItemInArray p (int (length xs)) (jaddr u) h = Some h' \<and>
    family h' p a (xs @ u # y # ys) (us @ vs) \<and> touches (set (p # jaddr u # map jaddr (xs @ y # ys))) h h'"
proof -
  note S = family_split [OF F]
  let ?zs = "xs @ y # ys @ us @ u # vs" and ?d = "last_addr NULL xs" and ?ws = "us @ vs"
  let ?P = "set (p # jaddr u # map jaddr (xs @ y # ys))"
  have D: "distinct (map jaddr ?zs)" "p \<notin> jaddr ` set ?zs" using S(6) by (auto simp: apart_def)
  have D0: "distinct ?zs" using D(1) unfolding distinct_map by blast
  have A: "apart p (y # ys)" "apart p xs" by (rule apart_subset [OF S(6)]; use D(1) in auto)+
  have uin: "jaddr u \<notin> set (inner u)" using apartD(3) [of p "xs @ y # ys @ us" u vs] S(6) by simp
  have B: "set (blocks xs) \<inter> jaddr ` set (y # ys) = {}" "set (blocks (y # ys)) \<inter> jaddr ` set xs = {}"
    "set (blocks [u]) \<inter> jaddr ` set xs = {}" "set (blocks [u]) \<inter> jaddr ` set (y # ys) = {}"
    "set (blocks xs) \<inter> jaddr ` set [u] = {}" "set (blocks (y # ys)) \<inter> jaddr ` set [u] = {}"
    "set (blocks ?ws) \<inter> jaddr ` set xs = {}" "set (blocks ?ws) \<inter> jaddr ` set (y # ys) = {}" "set (blocks ?ws) \<inter> jaddr ` set [u] = {}"
    by (rule apart_blocks(1) [OF S(6)]; use D0 in auto)+
  have pb: "p \<notin> set (blocks ?zs)" by (rule apart_p [OF S(6)])
  have yz: "y \<in> set ?zs" "u \<in> set ?zs" by auto
  have X: "items_at h NULL xs (jaddr y)" and Y: "items_at h ?d (y # ys) NULL" and U: "items_at h NULL [u] NULL"
    and W: "\<forall>v \<in> set ?ws. items_at h NULL [v] NULL"
    using S(2-5) F by (simp_all add: family_def items_at_append)
  have g: "get_array_item p (length xs) h = Some (jaddr y)" using get_array_item_family [OF F] by (simp add: nth_append)
  have un: "jaddr u \<noteq> NULL" and yn: "jaddr y \<noteq> NULL" using items_at_load [OF U] items_at_load [OF S(3)] by (auto dest: load_item_not_NULL)
  from upd_single [OF U uin, of "jaddr y" ?d] obtain h1 h2 where
    u1: "upd_item (jaddr u) (\<lambda>i. i\<lparr>inext := jaddr y\<rparr>) h = Some h1" "items_at h1 NULL [u] (jaddr y)" "touches {jaddr u} h h1"
    "upd_item (jaddr u) (\<lambda>i. i\<lparr>iprev := ?d\<rparr>) h1 = Some h2" "items_at h2 ?d [u] (jaddr y)" "touches {jaddr u} h1 h2" .
  then have h1: "upd_item (jaddr u) (\<lambda>i. i\<lparr>inext := jaddr y\<rparr>) h = Some h1" "touches (jaddr ` set [u]) h h1" and
    h2: "upd_item (jaddr u) (\<lambda>i. i\<lparr>iprev := ?d\<rparr>) h1 = Some h2" "items_at h2 ?d [u] (jaddr y)"
    "touches (jaddr ` set [u]) h1 h2" by simp_all
  have T2: "touches (jaddr ` set [u]) h h2" by (rule touches_trans [OF h1(2) h2(3)])
  have y1: "\<exists>j. load_item (jaddr y) h1 = Some j \<and> iprev j = ?d"
    using touches_items [OF h1(2) B(6)] Y by (auto simp: items_at_Cons)
  have X2: "items_at h2 NULL xs (jaddr y)" and Y2: "items_at h2 ?d (y # ys) NULL"
    using touches_items [OF T2 B(5)] touches_items [OF T2 B(6)] X Y by simp_all
  from patch_prev [OF Y2 A(1), of "jaddr u"] yn obtain h3 where
    h3: "upd_item (jaddr y) (\<lambda>j. j\<lparr>iprev := jaddr u\<rparr>) h2 = Some h3" "items_at h3 (jaddr u) (y # ys) NULL"
    "touches (jaddr ` set (y # ys)) h2 h3" by auto
  have X3: "items_at h3 NULL xs (jaddr y)" and U3: "items_at h3 ?d [u] (jaddr y)"
    using touches_items [OF h3(3) B(1)] touches_items [OF h3(3) B(4)] X2 h2(2) by simp_all
  have W3: "\<forall>v \<in> set ?ws. items_at h3 NULL [v] NULL"
    using touches_loose [OF h3(3) B(8) touches_loose [OF T2 B(9) W]] .
  have p3: "load_item p h3 = Some (a\<lparr>child := first_addr (xs @ y # ys) NULL\<rparr>)"
    using touches_item [OF h3(3), of p] touches_item [OF T2, of p] S(1) D(2) by auto
  from items_at_load [OF U3] obtain i where i: "load_item (jaddr u) h3 = Some i" "iprev i = ?d" by blast
  have T3: "touches ?P h h3" by (rule touches_trans [OF touches_mono [OF T2] touches_mono [OF h3(3)]]) auto
  have e: "cJSON_InsertItemInArray p (int (length xs)) (jaddr u) h =
      (if xs = [] then upd_item p (\<lambda>a. a\<lparr>child := jaddr u\<rparr>) h3 else upd_item ?d (\<lambda>p. p\<lparr>inext := jaddr u\<rparr>) h3)"
  proof -
    have "(jaddr y = first_addr (xs @ y # ys) NULL) = (xs = [])" using D(1) by (cases xs) auto
    then show ?thesis using g yn y1 h1(1) h2(1) h3(1) p3 i by (auto simp: cJSON_InsertItemInArray_def)
  qed
  have "\<exists>h4. cJSON_InsertItemInArray p (int (length xs)) (jaddr u) h = Some h4 \<and> items_at h4 NULL xs (jaddr u) \<and>
      items_at h4 ?d [u] (jaddr y) \<and> items_at h4 (jaddr u) (y # ys) NULL \<and> (\<forall>v \<in> set ?ws. items_at h4 NULL [v] NULL) \<and>
      load_item p h4 = Some (a\<lparr>child := first_addr (xs @ u # y # ys) NULL\<rparr>) \<and> touches ?P h3 h4"
  proof (cases "xs = []")
    case True
    from patch_child [OF p3, of "jaddr u"] obtain h4 where h4: "upd_item p (\<lambda>a. a\<lparr>child := jaddr u\<rparr>) h3 = Some h4"
      "load_item p h4 = Some (a\<lparr>child := jaddr u\<rparr>)" "touches {p} h3 h4" .
    have q: "set (blocks [u]) \<inter> {p} = {}" "set (blocks (y # ys)) \<inter> {p} = {}" "set (blocks ?ws) \<inter> {p} = {}"
      using pb by (simp_all add: blocks_append set_blocks)
    show ?thesis using e True h4 touches_items [OF h4(3) q(1)] touches_items [OF h4(3) q(2)] touches_loose [OF h4(3) q(3) W3]
        U3 h3(2) touches_mono [OF h4(3), of ?P] by auto
  next
    case False
    then have "?d \<noteq> NULL" using first_last [OF X3] by simp
    with patch_next [OF X3 A(2), of "jaddr u"] obtain h4 where
      h4: "upd_item ?d (\<lambda>j. j\<lparr>inext := jaddr u\<rparr>) h3 = Some h4" "items_at h4 NULL xs (jaddr u)"
      "touches (jaddr ` set xs) h3 h4" by auto
    have "load_item p h4 = Some (a\<lparr>child := first_addr (xs @ u # y # ys) NULL\<rparr>)"
      using touches_item [OF h4(3), of p] p3 D(2) False by (cases xs) auto
    then show ?thesis using e False h4 touches_items [OF h4(3) B(3)] touches_items [OF h4(3) B(2)]
        touches_loose [OF h4(3) B(7) W3] U3 h3(2) touches_mono [OF h4(3), of ?P] by auto
  qed
  then obtain h4 where h4: "cJSON_InsertItemInArray p (int (length xs)) (jaddr u) h = Some h4" "items_at h4 NULL xs (jaddr u)"
      "items_at h4 ?d [u] (jaddr y)" "items_at h4 (jaddr u) (y # ys) NULL" "\<forall>v \<in> set ?ws. items_at h4 NULL [v] NULL"
      "load_item p h4 = Some (a\<lparr>child := first_addr (xs @ u # y # ys) NULL\<rparr>)" "touches ?P h3 h4" by blast
  have "items_at h4 NULL (xs @ [u] @ y # ys) NULL"
    unfolding items_at_append using h4(2-4) by simp
  moreover have "apart p ((xs @ u # y # ys) @ ?ws)" using S(6) by (subst apart_perm [of _ ?zs]) auto
  ultimately have "family h4 p a (xs @ u # y # ys) ?ws" using h4(5,6) by (simp add: family_def)
  then show ?thesis using h4(1) touches_trans [OF T3 h4(7)] by blast
qed

subsection \<open>Replacing\<close>

lemma delete_single:
  assumes "items_at h NULL [t] NULL" and "distinct (foot [t])"
  shows "cJSON_Delete (jaddr t) h = Some (clr_all (foot [t]) h)"
  using cJSON_Delete_owned [OF items_owned [OF assms(1)] assms(2)] by simp

lemma replace_family:
  assumes F: "family h p a (xs @ t # ys) (us @ r # vs)"
    and own: "distinct (foot [t])" "set (foot [t]) \<inter> set (p # blocks (xs @ ys @ us @ r # vs)) = {}"
  shows "\<exists>h'. cJSON_ReplaceItemViaPointer p (jaddr t) (jaddr r) h = Some (True, h') \<and>
    family h' p a (xs @ r # ys) (us @ vs) \<and> (\<forall>q \<in> set (foot [t]). load q h' = None) \<and>
    (\<forall>q. q \<notin> set (p # jaddr r # map jaddr (xs @ ys) @ foot [t]) \<longrightarrow> load q h' = load q h)"
proof -
  note S = family_split [OF F]
  let ?zs = "xs @ t # ys @ us @ r # vs" and ?d = "last_addr NULL xs" and ?b = "first_addr ys NULL" and ?ws = "us @ vs"
  let ?P = "set (p # jaddr r # map jaddr (xs @ ys) @ foot [t])"
  have D: "distinct (map jaddr ?zs)" "p \<notin> jaddr ` set ?zs" using S(6) by (auto simp: apart_def)
  have D0: "distinct ?zs" using D(1) unfolding distinct_map by blast
  have A: "apart p ys" "apart p xs" by (rule apart_subset [OF S(6)]; use D(1) in auto)+
  have rin: "jaddr r \<notin> set (inner r)" using apartD(3) [of p "xs @ t # ys @ us" r vs] S(6) by simp
  have tin: "jaddr t \<notin> set (inner t)" by (rule apartD(3) [OF S(6)])
  have B: "set (blocks xs) \<inter> jaddr ` set ys = {}" "set (blocks ys) \<inter> jaddr ` set xs = {}"
    "set (blocks [r]) \<inter> jaddr ` set xs = {}" "set (blocks [r]) \<inter> jaddr ` set ys = {}"
    "set (blocks xs) \<inter> jaddr ` set [r] = {}" "set (blocks ys) \<inter> jaddr ` set [r] = {}"
    "set (blocks ?ws) \<inter> jaddr ` set xs = {}" "set (blocks ?ws) \<inter> jaddr ` set ys = {}" "set (blocks ?ws) \<inter> jaddr ` set [r] = {}"
    "set (blocks [t]) \<inter> jaddr ` set xs = {}" "set (blocks [t]) \<inter> jaddr ` set ys = {}" "set (blocks [t]) \<inter> jaddr ` set [r] = {}"
    by (rule apart_blocks(1) [OF S(6)]; use D0 in auto)+
  have pb: "p \<notin> set (blocks ?zs)" by (rule apart_p [OF S(6)])
  have X: "items_at h NULL xs (jaddr t)" and Y: "items_at h (jaddr t) ys NULL" and T: "items_at h ?d [t] ?b"
    and R: "items_at h NULL [r] NULL" and W: "\<forall>v \<in> set ?ws. items_at h NULL [v] NULL"
    using S(2-5) by simp_all
  from items_at_load [OF T] obtain i where i: "load_item (jaddr t) h = Some i" "inext i = ?b" "iprev i = ?d" by blast
  have tn: "jaddr t \<noteq> NULL" "jaddr r \<noteq> NULL" and pn: "p \<noteq> NULL" and rt: "jaddr r \<noteq> jaddr t"
    using i(1) items_at_load [OF R] S(1) D(1) by (auto dest: load_item_not_NULL)
  from upd_alone [OF R rin, where c = ?d and d = ?b] obtain h1 where
    "upd_item (jaddr r) (\<lambda>r. r\<lparr>iprev := ?d, inext := ?b\<rparr>) h = Some h1" and
    h1: "upd_item (jaddr r) (\<lambda>r. r\<lparr>inext := ?b, iprev := ?d\<rparr>) h = Some h1" "items_at h1 ?d [r] ?b" "touches {jaddr r} h h1" .
  have h1': "touches (jaddr ` set [r]) h h1" using h1(3) by simp
  from items_at_load [OF h1(2)] obtain j where j: "load_item (jaddr r) h1 = Some j" "inext j = ?b" "iprev j = ?d" by blast
  have Y1: "items_at h1 (jaddr t) ys NULL" and X1: "items_at h1 NULL xs (jaddr t)" and T1: "items_at h1 ?d [t] ?b"
    using touches_items [OF h1' B(6)] touches_items [OF h1' B(5)] touches_items [OF h1' B(12)] X Y T by simp_all
  from patch_prev [OF Y1 A(1), of "jaddr r"] obtain h2 where
    h2: "(if ?b \<noteq> NULL then upd_item ?b (\<lambda>j. j\<lparr>iprev := jaddr r\<rparr>) h1 else Some h1) = Some h2"
    "items_at h2 (jaddr r) ys NULL" "touches (jaddr ` set ys) h1 h2" .
  have X2: "items_at h2 NULL xs (jaddr t)" and R2: "items_at h2 ?d [r] ?b" and T2: "items_at h2 ?d [t] ?b"
    using touches_items [OF h2(3) B(1)] touches_items [OF h2(3) B(4)] touches_items [OF h2(3) B(11)] X1 h1(2) T1 by simp_all
  from items_at_load [OF R2] obtain j2 where j2: "load_item (jaddr r) h2 = Some j2" "iprev j2 = ?d" by blast
  from patch_next [OF X2 A(2), of "jaddr r"] obtain h3 where
    h3: "(if ?d \<noteq> NULL then upd_item ?d (\<lambda>j. j\<lparr>inext := jaddr r\<rparr>) h2 else Some h2) = Some h3"
    "items_at h3 NULL xs (jaddr r)" "touches (jaddr ` set xs) h2 h3" .
  have Y3: "items_at h3 (jaddr r) ys NULL" and R3: "items_at h3 ?d [r] ?b" and T3: "items_at h3 ?d [t] ?b"
    using touches_items [OF h3(3) B(2)] touches_items [OF h3(3) B(3)] touches_items [OF h3(3) B(10)] h2(2) R2 T2 by simp_all
  have W3: "\<forall>v \<in> set ?ws. items_at h3 NULL [v] NULL"
    using touches_loose [OF h3(3) B(7) touches_loose [OF h2(3) B(8) touches_loose [OF h1' B(9) W]]] .
  have p3: "load_item p h3 = Some (a\<lparr>child := first_addr (xs @ t # ys) NULL\<rparr>)"
  proof -
    have "p \<notin> jaddr ` set xs" "p \<notin> jaddr ` set ys" "p \<notin> jaddr ` set [r]" using D(2) by auto
    then show ?thesis using touches_item [OF h3(3)] touches_item [OF h2(3)] touches_item [OF h1'] S(1) by simp
  qed
  have "\<exists>h4. (if first_addr (xs @ t # ys) NULL = jaddr t then upd_item p (\<lambda>a. a\<lparr>child := jaddr r\<rparr>) h3 else Some h3) = Some h4 \<and>
      load_item p h4 = Some (a\<lparr>child := first_addr (xs @ r # ys) NULL\<rparr>) \<and> touches {p} h3 h4"
  proof (cases xs)
    case Nil
    from patch_child [OF p3, of "jaddr r"] obtain h4 where "upd_item p (\<lambda>a. a\<lparr>child := jaddr r\<rparr>) h3 = Some h4"
      "load_item p h4 = Some (a\<lparr>child := jaddr r\<rparr>)" "touches {p} h3 h4" .
    then show ?thesis using Nil by auto
  next
    case (Cons x xs')
    then show ?thesis using D(1) p3 by auto
  qed
  then obtain h4 where
    h4: "(if first_addr (xs @ t # ys) NULL = jaddr t then upd_item p (\<lambda>a. a\<lparr>child := jaddr r\<rparr>) h3 else Some h3) = Some h4"
    "load_item p h4 = Some (a\<lparr>child := first_addr (xs @ r # ys) NULL\<rparr>)" "touches {p} h3 h4" by blast
  have q: "set (blocks xs) \<inter> {p} = {}" "set (blocks ys) \<inter> {p} = {}" "set (blocks [r]) \<inter> {p} = {}"
    "set (blocks [t]) \<inter> {p} = {}" "set (blocks ?ws) \<inter> {p} = {}" using pb by (simp_all add: blocks_append set_blocks)
  have T4: "items_at h4 ?d [t] ?b" using touches_items [OF h4(3) q(4)] T3 by simp
  from upd_alone [OF T4 tin, of NULL NULL] obtain h5 where
    "upd_item (jaddr t) (\<lambda>i. i\<lparr>iprev := NULL, inext := NULL\<rparr>) h4 = Some h5" and
    h5: "upd_item (jaddr t) (\<lambda>i. i\<lparr>inext := NULL, iprev := NULL\<rparr>) h4 = Some h5" "items_at h5 NULL [t] NULL"
    "touches {jaddr t} h4 h5" .
  let ?h6 = "clr_all (foot [t]) h5"
  have e: "cJSON_ReplaceItemViaPointer p (jaddr t) (jaddr r) h = Some (True, ?h6)"
    by (simp only: cJSON_ReplaceItemViaPointer_def pn tn rt simp_thms if_False Option.bind.bind_lunit i h1(1) j h2(1)
        j2 h3(1) p3 child_upd h4(1) h5(1) delete_single [OF h5(2) own(1)])
  have tf: "jaddr t \<in> set (foot [t])" by (cases t) simp
  have fin: "load q ?h6 = load q h4" if "q \<notin> set (foot [t])" for q
  proof -
    have "q \<noteq> jaddr t" using that tf by auto
    then show ?thesis using that h5(3) by (simp add: load_clr_all touches_def)
  qed
  have keep: "items_at ?h6 c ws d = items_at h3 c ws d" if "set ws \<subseteq> set (xs @ ys @ us @ r # vs)" for c ws d
  proof -
    have s: "set (blocks ws) \<subseteq> set (blocks (xs @ ys @ us @ r # vs))"
      unfolding set_blocks by (rule UN_mono [OF that]) simp
    have "p \<notin> set (blocks (xs @ ys @ us @ r # vs))" using pb by (simp add: blocks_append set_blocks)
    with s own(2) have "set (blocks ws) \<inter> {p} = {}" "set (blocks ws) \<inter> set (foot [t]) = {}" by auto
    then have "items_at ?h6 c ws d = items_at h4 c ws d" using fin by (intro items_at_cong) auto
    then show ?thesis using touches_items [OF h4(3) \<open>set (blocks ws) \<inter> {p} = {}\<close>] by simp
  qed
  have k: "items_at ?h6 c xs d = items_at h3 c xs d" "items_at ?h6 c ys d = items_at h3 c ys d" "items_at ?h6 c [r] d = items_at h3 c [r] d"
    "v \<in> set ?ws \<Longrightarrow> items_at ?h6 c [v] d = items_at h3 c [v] d" for c d v by (rule keep; auto)+
  have "items_at ?h6 NULL (xs @ [r] @ ys) NULL"
    unfolding items_at_append using k h3(2) R3 Y3 by simp
  moreover have "load_item p ?h6 = load_item p h4" by (rule load_item_cong, rule fin) (use own(2) in auto)
  moreover have "apart p ((xs @ r # ys) @ ?ws)" by (rule apart_subset [OF S(6)]) (use D(1) in auto)
  ultimately have "family ?h6 p a (xs @ r # ys) ?ws" using h4(2) W3 k(4) by (simp add: family_def)
  moreover have "load q ?h6 = load q h" if "q \<notin> ?P" for q
  proof -
    have "load q ?h6 = load q h4" using that by (intro fin) auto
    also have "\<dots> = load q h3" using h4(3) that by (simp add: touches_def)
    also have "\<dots> = load q h2" using h3(3) that by (simp add: touches_def)
    also have "\<dots> = load q h1" using h2(3) that by (simp add: touches_def)
    also have "\<dots> = load q h" using h1(3) that by (simp add: touches_def)
    finally show ?thesis .
  qed
  ultimately show ?thesis using e by (auto simp: load_clr_all)
qed

end
