(* ===== verification/Arrangement.thy ===== *)
theory Arrangement
  imports Fifo
begin

text \<open>
  The contract of a mutable sequence whose elements can be taken out and put in at a position:
  \<open>rep s xs us\<close> says that the state \<open>s\<close> holds the elements \<open>xs\<close> in order, and that the elements \<open>us\<close>
  are free to be put in.  A client refers to an element by its \<open>handle\<close>.
\<close>

locale arrangement =
  fixes add :: "'s \<Rightarrow> 'k \<Rightarrow> 's option"
    and insert_at :: "nat \<Rightarrow> 's \<Rightarrow> 'k \<Rightarrow> 's option"
    and detach :: "nat \<Rightarrow> 's \<Rightarrow> ('k option \<times> 's) option"
    and rep :: "'s \<Rightarrow> 'e list \<Rightarrow> 'e list \<Rightarrow> bool"
    and handle :: "'e \<Rightarrow> 'k"
  assumes add: "rep s xs (us @ u # vs) \<Longrightarrow> \<exists>s'. add s (handle u) = Some s' \<and> rep s' (xs @ [u]) (us @ vs)"
    and insert_at: "rep s (xs @ y # ys) (us @ u # vs) \<Longrightarrow>
      \<exists>s'. insert_at (length xs) s (handle u) = Some s' \<and> rep s' (xs @ u # y # ys) (us @ vs)"
    and insert_end: "rep s xs (us @ u # vs) \<Longrightarrow> length xs \<le> n \<Longrightarrow> insert_at n s (handle u) = add s (handle u)"
    and detach: "rep s (xs @ x # ys) us \<Longrightarrow>
      \<exists>s'. detach (length xs) s = Some (Some (handle x), s') \<and> rep s' (xs @ ys) (x # us)"
    and detach_end: "rep s xs us \<Longrightarrow> length xs \<le> n \<Longrightarrow> detach n s = Some (None, s)"
begin

text \<open>Insertion at any position: that of \<open>take\<close> and \<open>drop\<close>.\<close>

lemma insert_any:
  assumes "rep s xs (us @ u # vs)"
  shows "\<exists>s'. insert_at n s (handle u) = Some s' \<and> rep s' (take n xs @ u # drop n xs) (us @ vs)"
proof (cases "n < length xs")
  case True
  then have "xs = take n xs @ xs ! n # drop (Suc n) xs" by (simp add: id_take_nth_drop)
  with assms have "rep s (take n xs @ xs ! n # drop (Suc n) xs) (us @ u # vs)" by simp
  from insert_at [OF this] True show ?thesis by (simp add: Cons_nth_drop_Suc)
next
  case False
  with insert_end [OF assms, of n] add [OF assms] show ?thesis by simp
qed

text \<open>What was inserted can be taken out again at its place, which restores the sequence.\<close>

lemma insert_then_detach:
  assumes "rep s xs (us @ u # vs)" and "n \<le> length xs"
  shows "\<exists>s1 s2. insert_at n s (handle u) = Some s1 \<and> detach n s1 = Some (Some (handle u), s2) \<and> rep s2 xs (u # us @ vs)"
proof -
  from insert_any [OF assms(1), of n] obtain s1 where
    s1: "insert_at n s (handle u) = Some s1" "rep s1 (take n xs @ u # drop n xs) (us @ vs)" by blast
  have "length (take n xs) = n" using assms(2) by simp
  with detach [OF s1(2)] s1(1) show ?thesis by auto
qed

text \<open>Taking an element out and putting it in at another place moves it.\<close>

lemma detach_then_insert:
  assumes "rep s (xs @ x # ys) us"
  shows "\<exists>s1 s2. detach (length xs) s = Some (Some (handle x), s1) \<and> insert_at n s1 (handle x) = Some s2 \<and>
    rep s2 (take n (xs @ ys) @ x # drop n (xs @ ys)) us"
proof -
  from detach [OF assms] obtain s1 where
    s1: "detach (length xs) s = Some (Some (handle x), s1)" "rep s1 (xs @ ys) ([] @ x # us)" by auto
  from insert_any [OF s1(2), of n] s1(1) show ?thesis by auto
qed

lemma add_all:
  "rep s xs us \<Longrightarrow> \<exists>s'. push_all add (map handle us) s = Some s' \<and> rep s' (xs @ us) []"
proof (induction us arbitrary: s xs)
  case (Cons u us)
  from add [of s xs "[]" u us] Cons.prems obtain s1 where
    "add s (handle u) = Some s1" "rep s1 (xs @ [u]) us" by auto
  with Cons.IH [of s1 "xs @ [u]"] show ?case by auto
qed simp

text \<open>Taking out the first element over and over empties the sequence, in order.\<close>

lemma drain:
  "rep s xs us \<Longrightarrow>
   \<exists>s'. pop_many (detach 0) (length xs) s = Some (map (Some \<circ> handle) xs, s') \<and> rep s' [] (rev xs @ us)"
proof (induction xs arbitrary: s us)
  case (Cons x xs)
  from detach [of s "[]" x xs us] Cons.prems obtain s1 where
    s1: "detach 0 s = Some (Some (handle x), s1)" "rep s1 xs (x # us)" by auto
  from Cons.IH [OF s1(2)] s1(1) show ?case by auto
qed simp

end

end
