(* ===== verification/CJsonArray.thy ===== *)
theory CJsonArray
  imports CJsonSeq Arrangement
begin

text \<open>
  The array operations of \<open>cJSON.c\<close> provide the contract \<open>arrangement\<close>, and the members of an object
  can be looked up by name.
\<close>

subsection \<open>Arrays are arrangements\<close>

definition detach_at :: "addr \<Rightarrow> nat \<Rightarrow> jheap \<Rightarrow> (addr option \<times> jheap) option" where
  "detach_at p n h = do {
     (c, h) \<leftarrow> cJSON_DetachItemFromArray p (int n) h;
     Some (if c = NULL then None else Some c, h) }"

lemma family_item_not_NULL: "family h p a ts us \<Longrightarrow> t \<in> set (ts @ us) \<Longrightarrow> jaddr t \<noteq> NULL"
proof -
  assume F: "family h p a ts us" and t: "t \<in> set (ts @ us)"
  then have "\<exists>b c. items_at h b [t] c"
    by (auto simp: family_def items_at_append in_set_conv_decomp items_at_single items_at_Cons)
  then show "jaddr t \<noteq> NULL" using items_at_load load_item_not_NULL by blast
qed

interpretation jarr: arrangement "\<lambda>h u. cJSON_AddItemToArray p u h" "\<lambda>n h u. cJSON_InsertItemInArray p (int n) u h"
  "detach_at p" "\<lambda>h. family h p a" jaddr for p a
proof
  fix h xs us u vs
  assume F: "family h p a xs (us @ u # vs)"
  from add_item_to_array_family [OF F]
  show "\<exists>h'. cJSON_AddItemToArray p (jaddr u) h = Some h' \<and> family h' p a (xs @ [u]) (us @ vs)"
    by (auto simp: cJSON_AddItemToArray_def)
  fix n assume "length xs \<le> n"
  then show "cJSON_InsertItemInArray p (int n) (jaddr u) h = cJSON_AddItemToArray p (jaddr u) h"
    using get_array_item_family [OF F] by (simp add: cJSON_InsertItemInArray_def cJSON_AddItemToArray_def)
next
  fix h xs y ys us u vs
  assume "family h p a (xs @ y # ys) (us @ u # vs)"
  from insert_family [OF this]
  show "\<exists>h'. cJSON_InsertItemInArray p (int (length xs)) (jaddr u) h = Some h' \<and> family h' p a (xs @ u # y # ys) (us @ vs)"
    by blast
next
  fix h xs x ys us
  assume F: "family h p a (xs @ x # ys) us"
  have "get_array_item p (length xs) h = Some (jaddr x)" using get_array_item_family [OF F] by (simp add: nth_append)
  with detach_family [OF F] family_item_not_NULL [OF F, of x]
  show "\<exists>h'. detach_at p (length xs) h = Some (Some (jaddr x), h') \<and> family h' p a (xs @ ys) (x # us)"
    by (auto simp: detach_at_def cJSON_DetachItemFromArray_def)
next
  fix h xs us and n :: nat
  assume F: "family h p a xs us" and "length xs \<le> n"
  then show "detach_at p n h = Some (None, h)"
    using get_array_item_family [OF F] by (simp add: detach_at_def cJSON_DetachItemFromArray_def cJSON_DetachItemViaPointer_def)
qed

lemma detach_at_SomeD: "detach_at p n h = Some (Some c, h') \<Longrightarrow> cJSON_DetachItemFromArray p (int n) h = Some (c, h')"
  by (auto simp: detach_at_def bind_Some_iff split: if_splits)

lemma pop_many_detach:
  "pop_many (detach_at p 0) n h = Some (map Some cs, h') \<Longrightarrow> pop_many (cJSON_DetachItemFromArray p 0) n h = Some (cs, h')"
proof (induction n arbitrary: h cs)
  case (Suc n)
  then obtain c cs' h1 where "detach_at p 0 h = Some (Some c, h1)" "pop_many (detach_at p 0) n h1 = Some (map Some cs', h')"
    "cs = c # cs'" by (auto simp: bind_Some_iff map_eq_Cons_conv)
  with Suc.IH detach_at_SomeD [of p 0 h c h1] show ?case by auto
qed auto

subsection \<open>Lookup by name\<close>

lemma tolower_0 [simp]: "tolower 0 = 0" "(tolower c = 0) = (c = 0)" "(0 = tolower c) = (c = 0)"
proof -
  have "c + 32 \<noteq> 0" if "65 \<le> c" "c \<le> 90"
  proof -
    have "unat (c + 32) = unat c + 32" using that by (subst unat_plus_if') (simp add: word_le_nat_alt)
    then show ?thesis by auto
  qed
  then show "tolower 0 = 0" "(tolower c = 0) = (c = 0)" "(0 = tolower c) = (c = 0)"
    by (auto simp: tolower_def word_le_nat_alt)
qed

text \<open>For C strings, the comparison finds equality up to the case of letters.\<close>

lemma ci_strcmp_eq_0:
  "0 \<notin> set s \<Longrightarrow> 0 \<notin> set t \<Longrightarrow> (ci_strcmp s t = 0) = (map tolower s = map tolower t)"
  by (induction s t rule: ci_strcmp.induct) (auto simp: uint_0_iff dest: word_uint_eqI)

text \<open>The first child with a matching name; the case-sensitive search gives up at a child without one.\<close>

fun lookup_name :: "bool \<Rightarrow> byte list \<Rightarrow> jtree list \<Rightarrow> addr" where
  "lookup_name cs n [] = NULL"
| "lookup_name cs n (t # ts) =
     (case jkey t of
        None \<Rightarrow> if cs then NULL else lookup_name cs n ts
      | Some (q, s) \<Rightarrow>
          if (if cs then s = n else map tolower s = map tolower n) then jaddr t else lookup_name cs n ts)"

definition named_item :: "addr \<Rightarrow> jheap \<Rightarrow> addr option" where
  "named_item c h = (if c = NULL then Some NULL else do { i \<leftarrow> load_item c h; Some (if key i = NULL then NULL else c) })"

lemma find_name_chain:
  assumes name: "read_str name h = Some n"
  shows "items_at h a ts NULL \<Longrightarrow>
    \<exists>c. find_name cs name (first_addr ts NULL) h = Some c \<and> named_item c h = Some (lookup_name cs n ts)"
proof (induction ts arbitrary: a)
  case Nil
  then show ?case by (simp add: find_name.simps named_item_def)
next
  case (Cons t ts)
  then obtain i where i: "load_item (jaddr t) h = Some i" "inext i = first_addr ts NULL" "key i = ptr_of (jkey t)"
    and k: "str_at h (jkey t)" and T: "items_at h (jaddr t) ts NULL"
    by (auto simp: items_at_Cons body_at_def)
  have tn: "jaddr t \<noteq> NULL" by (rule load_item_not_NULL [OF i(1)])
  have nn: "name \<noteq> NULL" "0 \<notin> set n" using name by (auto dest: read_str_not_NULL read_str_SomeD cstring_SomeD)
  from Cons.IH [OF T] obtain c where c: "find_name cs name (first_addr ts NULL) h = Some c"
    "named_item c h = Some (lookup_name cs n ts)" by blast
  have here: "named_item (jaddr t) h = Some (if key i = NULL then NULL else jaddr t)"
    using i(1) tn by (simp add: named_item_def)
  show ?case
  proof (cases "jkey t")
    case None
    then show ?thesis using i tn c here
      by (cases cs) (simp_all add: find_name.simps [of _ name "jaddr t"] case_insensitive_strcmp_def)
  next
    case (Some qs)
    then obtain q s where q: "jkey t = Some (q, s)" by (cases qs) auto
    then have rs: "read_str q h = Some s" and z: "0 \<notin> set s" using k by (auto dest: read_str_SomeD cstring_SomeD)
    have qn: "q \<noteq> NULL" by (rule read_str_not_NULL [OF rs])
    have "case_insensitive_strcmp name q h = Some (if name = q then 0 else ci_strcmp n s)"
      using nn(1) qn name rs by (auto simp: case_insensitive_strcmp_def)
    moreover have "(if name = q then 0 else ci_strcmp n s) = 0 \<longleftrightarrow> map tolower s = map tolower n"
      using ci_strcmp_eq_0 [OF nn(2) z] name rs by auto
    ultimately show ?thesis
      using i tn c q qn here name rs
      by (cases cs) (auto simp: find_name.simps [of _ name "jaddr t"] strs_differ_def)
  qed
qed

lemma get_object_item_chain:
  assumes P: "load_item p h = Some a" "child a = first_addr ts NULL" and I: "items_at h NULL ts NULL"
    and name: "read_str name h = Some n"
  shows "get_object_item p name cs h = Some (lookup_name cs n ts)"
proof -
  have "p \<noteq> NULL" "name \<noteq> NULL" using P(1) name by (auto dest: load_item_not_NULL read_str_not_NULL)
  with find_name_chain [OF name I, of cs] P show ?thesis
    by (auto simp: get_object_item_def named_item_def split: if_splits bind_splits)
qed

lemma get_object_item_family:
  "family h p a ts us \<Longrightarrow> read_str name h = Some n \<Longrightarrow> get_object_item p name cs h = Some (lookup_name cs n ts)"
  by (auto simp: family_def intro: get_object_item_chain)

end
