(* ===== verification/CJsonCopy.thy ===== *)
theory CJsonCopy
  imports CJsonItems
begin

text \<open>
  \<open>cJSON_Duplicate\<close>, \<open>cJSON_Compare\<close> and \<open>cJSON_Minify\<close> of \<open>cJSON.c\<close>.  The recursion into children is
  bounded by a first argument, the nesting; the loops over \<open>next\<close> are not.
\<close>

subsection \<open>Duplication\<close>

text \<open>The loop over the children: the copy so far has the last child \<open>last_copy\<close> (NULL: none).\<close>

partial_function (option) dup_children ::
  "(addr \<Rightarrow> jheap \<Rightarrow> (addr \<times> jheap) option) \<Rightarrow> addr \<Rightarrow> addr \<Rightarrow> addr \<Rightarrow> jheap \<Rightarrow> (bool \<times> jheap) option" where
  [code]: "dup_children dup newitem c last_copy h =
     (if c = NULL then Some (True, h)
      else do {
        r \<leftarrow> dup c h;
        (if fst r = NULL then Some (False, snd r)
         else do {
           h \<leftarrow> (if last_copy \<noteq> NULL then do {
                   h \<leftarrow> upd_item last_copy (\<lambda>i. i\<lparr>inext := fst r\<rparr>) (snd r);
                   upd_item (fst r) (\<lambda>i. i\<lparr>iprev := last_copy\<rparr>) h }
                 else upd_item newitem (\<lambda>i. i\<lparr>child := fst r\<rparr>) (snd r));
           i \<leftarrow> load_item c h;
           dup_children dup newitem (inext i) (fst r) h }) })"

text \<open>The jump to \<open>fail\<close>.\<close>

definition dup_fail :: "addr \<Rightarrow> jheap \<Rightarrow> (addr \<times> jheap) option" where
  "dup_fail newitem h = do {
     h \<leftarrow> (if newitem \<noteq> NULL then cJSON_Delete newitem h else Some h);
     Some (NULL, h) }"

text \<open>The strings: \<open>valuestring\<close>, then \<open>string\<close>; whether both could be copied.\<close>

definition dup_strings :: "addr \<Rightarrow> addr \<Rightarrow> jheap \<Rightarrow> (bool \<times> jheap) option" where
  "dup_strings item newitem h = do {
     i \<leftarrow> load_item item h;
     (ok, h) \<leftarrow> (if valuestring i \<noteq> NULL then do {
                   (s, h) \<leftarrow> cJSON_strdup (valuestring i) h;
                   h \<leftarrow> upd_item newitem (\<lambda>j. j\<lparr>valuestring := s\<rparr>) h;
                   Some (s \<noteq> NULL, h) }
                 else Some (True, h));
     (if \<not> ok then Some (False, h)
      else if key i \<noteq> NULL then do {
        (s, h) \<leftarrow> (if string_is_const (itype i) then Some (key i, h) else cJSON_strdup (key i) h);
        h \<leftarrow> upd_item newitem (\<lambda>j. j\<lparr>key := s\<rparr>) h;
        Some (s \<noteq> NULL, h) }
      else Some (True, h)) }"

fun cJSON_Duplicate :: "nat \<Rightarrow> addr \<Rightarrow> bool \<Rightarrow> jheap \<Rightarrow> (addr \<times> jheap) option" where
  "cJSON_Duplicate 0 item recurse h = None"
| "cJSON_Duplicate (Suc n) item recurse h =
     (if item = NULL then Some (NULL, h)
      else
        (let (newitem, h) = cJSON_New_Item h in
         if newitem = NULL then Some (NULL, h)
         else do {
           i \<leftarrow> load_item item h;
           h \<leftarrow> upd_item newitem (\<lambda>j. j\<lparr>itype := itype i AND NOT cJSON_IsReference, valueint := valueint i,
                  valuedouble := valuedouble i\<rparr>) h;
           (ok, h) \<leftarrow> dup_strings item newitem h;
           (if \<not> ok then dup_fail newitem h
            else if \<not> recurse then Some (newitem, h)
            else do {
              i \<leftarrow> load_item item h;
              (ok, h) \<leftarrow> dup_children (\<lambda>c. cJSON_Duplicate n c True) newitem (child i) NULL h;
              (if \<not> ok then dup_fail newitem h else Some (newitem, h)) }) }))"

subsection \<open>Comparison\<close>

partial_function (option) compare_elements ::
  "(addr \<Rightarrow> addr \<Rightarrow> bool option) \<Rightarrow> addr \<Rightarrow> addr \<Rightarrow> jheap \<Rightarrow> bool option" where
  [code]: "compare_elements cmp a_element b_element h =
     (if a_element \<noteq> NULL \<and> b_element \<noteq> NULL then do {
        e \<leftarrow> cmp a_element b_element;
        (if \<not> e then Some False
         else do {
           i \<leftarrow> load_item a_element h;
           j \<leftarrow> load_item b_element h;
           compare_elements cmp (inext i) (inext j) h }) }
      else Some (a_element = b_element))"

text \<open>Every member of one object against the first member of the other with its name.\<close>

partial_function (option) compare_members ::
  "(addr \<Rightarrow> addr \<Rightarrow> bool option) \<Rightarrow> addr \<Rightarrow> addr \<Rightarrow> bool \<Rightarrow> jheap \<Rightarrow> bool option" where
  [code]: "compare_members cmp a_element b case_sensitive h =
     (if a_element = NULL then Some True
      else do {
        i \<leftarrow> load_item a_element h;
        b_element \<leftarrow> get_object_item b (key i) case_sensitive h;
        (if b_element = NULL then Some False
         else do {
           e \<leftarrow> cmp a_element b_element;
           (if \<not> e then Some False else compare_members cmp (inext i) b case_sensitive h) }) })"

definition known_type :: "32 word \<Rightarrow> bool" where
  "known_type ty \<longleftrightarrow> ty \<in> {cJSON_False, cJSON_True, cJSON_NULL, cJSON_Number, cJSON_String, cJSON_Raw,
     cJSON_Array, cJSON_Object}"

fun cJSON_Compare :: "nat \<Rightarrow> addr \<Rightarrow> addr \<Rightarrow> bool \<Rightarrow> jheap \<Rightarrow> bool option" where
  "cJSON_Compare 0 a b case_sensitive h = None"
| "cJSON_Compare (Suc n) a b case_sensitive h =
     (if a = NULL \<or> b = NULL then Some False
      else do {
        i \<leftarrow> load_item a h;
        j \<leftarrow> load_item b h;
        let ty = itype i AND 0xFF;
        (if ty \<noteq> itype j AND 0xFF \<or> ty = cJSON_Invalid then Some False
         else if \<not> known_type ty then Some False
         else if a = b then Some True
         else if ty = cJSON_False \<or> ty = cJSON_True \<or> ty = cJSON_NULL then Some True
         else if ty = cJSON_Number then Some (f64_eq (valuedouble i) (valuedouble j))
         else if ty = cJSON_String \<or> ty = cJSON_Raw then
           (if valuestring i = NULL \<or> valuestring j = NULL then Some False
            else map_option Not (strs_differ (valuestring i) (valuestring j) h))
         else if ty = cJSON_Array then
           compare_elements (\<lambda>x y. cJSON_Compare n x y case_sensitive h) (child i) (child j) h
         else do {
           e \<leftarrow> compare_members (\<lambda>x y. cJSON_Compare n x y case_sensitive h) (child i) b case_sensitive h;
           (if \<not> e then Some False
            else compare_members (\<lambda>x y. cJSON_Compare n x y case_sensitive h) (child j) a case_sensitive h) }) })"

subsection \<open>Minification\<close>

text \<open>
  In place, in the buffer \<open>b\<close>: \<open>json\<close> is the reading and \<open>into\<close> the writing position.  A loop that
  runs forever is \<^term>\<open>None\<close>, like a read or write outside the buffer.
\<close>

partial_function (option) find_newline :: "cbuf \<Rightarrow> nat \<Rightarrow> nat option" where
  [code]: "find_newline b json = do {
     c \<leftarrow> peek b json;
     (if c = 0 then Some json else if c = 10 then Some (json + 1) else find_newline b (json + 1)) }"

definition skip_oneline_comment :: "cbuf \<Rightarrow> nat \<Rightarrow> nat option" where
  "skip_oneline_comment b json = find_newline b (json + 2)"

partial_function (option) find_comment_end :: "cbuf \<Rightarrow> nat \<Rightarrow> nat option" where
  [code]: "find_comment_end b json = do {
     c \<leftarrow> peek b json;
     (if c = 0 then Some json
      else do {
        closing \<leftarrow> (if c = 42 then do { d \<leftarrow> peek b (json + 1); Some (d = 47) } else Some False);
        (if closing then Some (json + 2) else find_comment_end b (json + 1)) }) }"

definition skip_multiline_comment :: "cbuf \<Rightarrow> nat \<Rightarrow> nat option" where
  "skip_multiline_comment b json = find_comment_end b (json + 2)"

text \<open>The loop of \<open>minify_string\<close>; the buffer and both positions.\<close>

partial_function (option) copy_string :: "cbuf \<Rightarrow> nat \<Rightarrow> nat \<Rightarrow> (cbuf \<times> nat \<times> nat) option" where
  [code]: "copy_string b json into = do {
     c \<leftarrow> peek b json;
     (if c = 0 then Some (b, json, into)
      else do {
        b \<leftarrow> poke b into c;
        c \<leftarrow> peek b json;
        (if c = 34 then do { b \<leftarrow> poke b into 34; Some (b, json + 1, into + 1) }
         else do {
           escaped \<leftarrow> (if c = 92 then do { d \<leftarrow> peek b (json + 1); Some (d = 34) } else Some False);
           (if escaped then do {
              d \<leftarrow> peek b (json + 1);
              b \<leftarrow> poke b (into + 1) d;
              copy_string b (json + 2) (into + 2) }
            else copy_string b (json + 1) (into + 1)) }) }) }"

definition minify_string :: "cbuf \<Rightarrow> nat \<Rightarrow> nat \<Rightarrow> (cbuf \<times> nat \<times> nat) option" where
  "minify_string b json into = do {
     c \<leftarrow> peek b json;
     b \<leftarrow> poke b into c;
     copy_string b (json + 1) (into + 1) }"

partial_function (option) minify_loop :: "cbuf \<Rightarrow> nat \<Rightarrow> nat \<Rightarrow> (cbuf \<times> nat) option" where
  [code]: "minify_loop b json into = do {
     c \<leftarrow> peek b json;
     (if c = 0 then Some (b, into)
      else if c = 32 \<or> c = 9 \<or> c = 13 \<or> c = 10 then minify_loop b (json + 1) into
      else if c = 47 then do {
        d \<leftarrow> peek b (json + 1);
        (if d = 47 then do { json \<leftarrow> skip_oneline_comment b json; minify_loop b json into }
         else if d = 42 then do { json \<leftarrow> skip_multiline_comment b json; minify_loop b json into }
         else minify_loop b json into) }
      else if c = 34 then do {
        (b, json, into) \<leftarrow> minify_string b json into;
        minify_loop b json into }
      else do {
        b \<leftarrow> poke b into c;
        minify_loop b (json + 1) (into + 1) }) }"

definition cJSON_Minify :: "addr \<Rightarrow> jheap \<Rightarrow> jheap option" where
  "cJSON_Minify json h =
     (if json = NULL then Some h
      else do {
        b \<leftarrow> load_str json h;
        (b, into) \<leftarrow> minify_loop b 0 0;
        b \<leftarrow> poke b into 0;
        store json (StrC b) h })"

end
