(* ===== verification/CJsonClaims.thy ===== *)
theory CJsonClaims
  imports CJsonParseOk CJsonPrintTop CJsonArray CJsonCopy
begin

text \<open>
  The properties of the parser, the printer and the array operations of \<open>cJSON.c\<close>, each applied to
  a small concrete heap.
\<close>

subsection \<open>A concrete heap\<close>

text \<open>
  The array \<open>[true, "hi", null]\<close> at 1 with the items 2, 3, 4; the free item \<open>false\<close> at 5; the object
  \<open>{"Ab": true, "ab": false}\<close> at 10 with the items 11, 12; the string \<open>"AB"\<close> at 15; an output
  buffer of 64 bytes at 7.
\<close>

definition ex_items :: "jtree list" where
  "ex_items = [JT 2 cJSON_True None 1 0 None [], JT 3 cJSON_String (Some (6, [104, 105])) 0 0 None [],
     JT 4 cJSON_NULL None 0 0 None []]"

definition ex_array :: jtree where
  "ex_array = JT 1 cJSON_Array None 0 0 None ex_items"

definition ex_free :: jtree where
  "ex_free = JT 5 cJSON_False None 0 0 None []"

definition ex_members :: "jtree list" where
  "ex_members = [JT 11 cJSON_True None 1 0 (Some (13, [65, 98])) [], JT 12 cJSON_False None 0 0 (Some (14, [97, 98])) []]"

definition ex_cell :: "addr \<Rightarrow> addr \<Rightarrow> addr \<Rightarrow> 32 word \<Rightarrow> addr \<Rightarrow> 32 word \<Rightarrow> addr \<Rightarrow> jcell" where
  "ex_cell n p c ty vs vi k = ItemC \<lparr>inext = n, iprev = p, child = c, itype = ty, valuestring = vs, valueint = vi,
     valuedouble = 0, key = k\<rparr>"

definition ex_json :: jheap where
  "ex_json = \<lparr>cells = [1 \<mapsto> ex_cell 0 0 2 cJSON_Array 0 0 0, 2 \<mapsto> ex_cell 3 0 0 cJSON_True 0 1 0,
      3 \<mapsto> ex_cell 4 2 0 cJSON_String 6 0 0, 4 \<mapsto> ex_cell 0 3 0 cJSON_NULL 0 0 0,
      5 \<mapsto> ex_cell 0 0 0 cJSON_False 0 0 0, 6 \<mapsto> StrC (str_buf [104, 105]), 7 \<mapsto> StrC (uninit 64),
      10 \<mapsto> ex_cell 0 0 11 cJSON_Object 0 0 0, 11 \<mapsto> ex_cell 12 0 0 cJSON_True 0 1 13,
      12 \<mapsto> ex_cell 0 11 0 cJSON_False 0 0 14, 13 \<mapsto> StrC (str_buf [65, 98]), 14 \<mapsto> StrC (str_buf [97, 98]),
      15 \<mapsto> StrC (str_buf [65, 66])], brk = 16, oom = []\<rparr>"

lemma ex_json_wf [simp]: "wf_heap ex_json" "oom ex_json = []" "\<not> alloc_fails ex_json"
  by (auto simp: wf_heap_def ex_json_def load_def NULL_def alloc_fails_def)

lemma ex_json_strs:
  "read_str 6 ex_json = Some [104, 105]" "read_str 13 ex_json = Some [65, 98]" "read_str 14 ex_json = Some [97, 98]"
  "read_str 15 ex_json = Some [65, 66]" "load_str 7 ex_json = Some (uninit 64)"
  by (simp_all add: read_str_def load_str_def load_def ex_json_def NULL_def)

lemma ex_json_items:
  "items_at ex_json NULL [ex_array] NULL" "items_at ex_json NULL ex_items NULL" "items_at ex_json NULL [ex_free] NULL"
  "items_at ex_json NULL ex_members NULL"
  using ex_json_strs
  by (simp_all add: ex_array_def ex_items_def ex_free_def ex_members_def load_item_def load_def NULL_def)
    (simp_all add: ex_json_def ex_cell_def)

lemma ex_json_render:
  "render True 0 ex_array = Some [91, 116, 114, 117, 101, 44, 32, 34, 104, 105, 34, 44, 32, 110, 117, 108, 108, 93]"
  by (simp add: ex_array_def ex_items_def ctype_defs comma_def quoted_def)

lemma ex_json_families:
  "family ex_json 1 \<lparr>inext = 0, iprev = 0, child = 0, itype = cJSON_Array, valuestring = 0, valueint = 0,
     valuedouble = 0, key = 0\<rparr> ex_items [ex_free]"
  "family ex_json 10 \<lparr>inext = 0, iprev = 0, child = 0, itype = cJSON_Object, valuestring = 0, valueint = 0,
     valuedouble = 0, key = 0\<rparr> ex_members [ex_free]"
  using ex_json_items
  by (auto simp: family_def apart_def ex_items_def ex_members_def ex_free_def load_item_def load_def NULL_def)
    (auto simp: ex_json_def ex_cell_def)

subsection \<open>Parsing\<close>

text \<open>C2: parsing any C string, whatever allocations fail, ends without undefined behaviour (no read
  outside the text, no use of freed memory).  It returns either NULL, with the heap as it was before
  (nothing leaks) and the error position inside the text, or the address of one well-formed tree that
  owns exactly the blocks allocated since, nested at most \<open>CJSON_NESTING_LIMIT\<close> deep.\<close>

theorem parse_safe:
  assumes "wf_heap h"
  shows "\<exists>item pe err h'. cJSON_ParseWithOpts (Some s) rpe rnt h = Some (item, pe, err, h') \<and> wf_heap h' \<and>
    parse_outcome s h rpe item pe err h'"
  using assms by (rule cJSON_ParseWithOpts_outcome)

theorem parse_safe_witness:
  "\<exists>item pe err h'. cJSON_ParseWithOpts (Some [91, 49, 44, 93]) True True ex_json = Some (item, pe, err, h') \<and>
    wf_heap h' \<and> parse_outcome [91, 49, 44, 93] ex_json True item pe err h'"
  by (rule parse_safe) simp

text \<open>\<open>parse_string\<close> on a string literal (the bytes \<open>s\<close> between two quotes, where a backslash
  hides the byte after it) decodes it: the escapes of JSON, and UTF-16 escapes and surrogate pairs to
  UTF-8, put into one new block that is large enough.  A literal that does not decode and a failed
  allocation leave the heap as it was.\<close>

theorem parse_string_decodes:
  assumes "content_ok b" and "drop (offset b) (content b) = 34 # s @ 34 # r" and "scanned s"
    and "wf_heap h" and "load_item item h = Some i"
  shows "\<exists>b' h'. parse_string item b h = Some (decode s \<noteq> None \<and> \<not> alloc_fails h, b', h') \<and>
    wf_heap h' \<and> brk h \<le> brk h' \<and>
    (case decode s of
       Some t \<Rightarrow>
         if alloc_fails h then b' = b\<lparr>offset := offset b + 1\<rparr> \<and> (\<forall>q. load q h' = load q h)
         else b' = b\<lparr>offset := offset b + length s + 2\<rparr> \<and> brk h < brk h' \<and>
           (\<forall>q. load q h' = (if q = brk h then Some (StrC (string_block s t))
             else if q = item then Some (ItemC (i\<lparr>itype := cJSON_String, valuestring := brk h\<rparr>)) else load q h))
     | None \<Rightarrow> (\<exists>k \<le> len b. b' = b\<lparr>offset := k\<rparr>) \<and> (\<forall>q. load q h' = load q h))"
  using assms by (rule parse_string_literal)

theorem parse_string_decodes_witness:
  "\<exists>b' h'. parse_string 5 \<lparr>content = [34, 92, 110, 92, 117, 48, 48, 101, 57, 34, 0], len = 11, offset = 0, depth = 0\<rparr>
      ex_json = Some (True, b', h') \<and> read_str 16 h' = Some [10, 0xC3, 0xA9] \<and> offset b' = 10"
proof -
  let ?b = "\<lparr>content = [34, 92, 110, 92, 117, 48, 48, 101, 57, 34, 0], len = 11, offset = 0, depth = 0\<rparr>"
  let ?s = "[92, 110, 92, 117, 48, 48, 101, 57]"
  have d: "decode ?s = Some [10, 0xC3, 0xA9]"
    by (simp add: simple_escape_def utf16_def hex4_def hex_val_def utf8_def)
  have s: "scanned ?s" "content_ok ?b" by (simp_all add: content_ok_def)
  obtain i where i: "load_item 5 ex_json = Some i"
    using ex_json_items(3) by (auto simp: ex_free_def)
  have b: "brk ex_json = 16" by (simp add: ex_json_def)
  from parse_string_decodes [OF s(2) _ s(1) ex_json_wf(1) i, of "[0]"] d b
  show ?thesis by (auto simp: read_str_def load_str_def string_block_def)
qed

text \<open>\<open>utf16_literal_to_utf8\<close> converts \<open>\\uXXXX\<close>, and a high surrogate followed by
  \<open>\\uXXXX\<close> with a low one, to the UTF-8 encoding of the code point, consuming 6 or 12 bytes; a lone
  or a wrong surrogate and a truncated literal are refused with nothing written.\<close>

theorem utf16_literal_decoded:
  assumes "drop ip (content b) = x # y # s @ r" and "iend = ip + 2 + length s"
    and "op + utf16_len s \<le> length out"
  shows "utf16_literal_to_utf8 b ip iend out op =
    (case utf16 s of None \<Rightarrow> Some (0, out, op)
     | Some (c, n) \<Rightarrow> do { out \<leftarrow> pokes out op (utf8 c); Some (n + 2, out, op + length (utf8 c)) })"
  using assms by (rule utf16_literal_eq)

theorem utf16_literal_decoded_witness:
  "\<exists>out'. utf16_literal_to_utf8
      \<lparr>content = [92, 117, 68, 56, 51, 68, 92, 117, 68, 69, 48, 48, 0], len = 13, offset = 0, depth = 0\<rparr> 0 12 (uninit 4) 0 =
      Some (12, out', 4) \<and> out' = map Some [0xF0, 0x9F, 0x98, 0x80]"
proof -
  let ?s = "[68, 56, 51, 68, 92, 117, 68, 69, 48, 48] :: byte list"
  have u: "utf16 ?s = Some (0x1F600, 10)" by (simp add: utf16_def hex4_def hex_val_def)
  have v: "utf8 0x1F600 = [0xF0, 0x9F, 0x98, 0x80]" by (simp add: utf8_def)
  have r: "pokes (uninit 4) 0 [0xF0, 0x9F, 0x98, 0x80] = Some (map Some [0xF0, 0x9F, 0x98, 0x80])"
    by (simp add: poke_def uninit_def numeral_eq_Suc)
  show ?thesis
    using utf16_literal_decoded [of 0 "\<lparr>content = [92, 117, 68, 56, 51, 68, 92, 117, 68, 69, 48, 48, 0], len = 13,
        offset = 0, depth = 0\<rparr>" 92 117 ?s "[0]" 12 0 "uninit 4"]
    by (simp add: u v r utf16_len_def del: pokes.simps)
qed

subsection \<open>Memory\<close>

text \<open>C6: \<open>cJSON_Delete\<close> of a chain of items releases exactly the blocks the chain owns - every item,
  the children and the strings of items that are not references, the names that are not constant -
  each once, and nothing else; it reads no released block and returns.\<close>

theorem delete_exact:
  assumes "items_at h a ts NULL" and "distinct (foot ts)"
  shows "cJSON_Delete (first_addr ts NULL) h = Some (clr_all (foot ts) h)"
  using assms by (intro cJSON_Delete_owned items_owned)

theorem delete_exact_witness:
  "cJSON_Delete 1 ex_json = Some (clr_all [2, 6, 3, 4, 1] ex_json)"
  using delete_exact [OF ex_json_items(1)]
  by (simp add: ex_array_def ex_items_def is_reference_def string_is_const_def ctype_defs)

subsection \<open>Printing\<close>

text \<open>C3: \<open>cJSON_Print\<close> and \<open>cJSON_PrintUnformatted\<close> of any tree, with any allocator, return NULL and
  leave the heap as it was, or return a new block that holds exactly the text of the tree and its
  terminator; all other blocks used on the way are released, and the tree is untouched.  A tree that has
  a text of less than \<open>INT_MAX - 1\<close> bytes is printed when no allocation fails.\<close>

theorem print_exact:
  assumes "wf_heap h" and "items_at h a [t] c" and "height [t] \<le> n"
  shows "\<exists>p h'. (if fmt then cJSON_Print n (jaddr t) hk h else cJSON_PrintUnformatted n (jaddr t) hk h) = Some (p, h') \<and>
    wf_heap h' \<and> text_outcome fmt t h (\<lambda>b s. b = str_buf s) p h' \<and>
    ((\<exists>s. render fmt 0 t = Some s \<and> length s + 2 \<le> INT_MAX) \<and> True \<notin> set (oom h) \<longrightarrow> p \<noteq> NULL)"
  using print_text_outcome [OF assms, of fmt hk]
  by (cases fmt) (simp_all add: cJSON_Print_def cJSON_PrintUnformatted_def)

theorem print_exact_witness:
  "\<exists>p h'. cJSON_Print 2 1 (cJSON_InitHooks None) ex_json = Some (p, h') \<and>
    load p h' = Some (StrC (str_buf [91, 116, 114, 117, 101, 44, 32, 34, 104, 105, 34, 44, 32, 110, 117, 108, 108, 93]))"
proof -
  have h: "height [ex_array] \<le> 2" "jaddr ex_array = 1" by (simp_all add: ex_array_def ex_items_def)
  from print_exact [OF ex_json_wf(1) ex_json_items(1) h(1), of True "cJSON_InitHooks None"]
  show ?thesis by (auto simp: text_outcome_def ex_json_render h(2) INT_MAX_def)
qed

text \<open>C27: \<open>cJSON_PrintPreallocated\<close> into a block of \<open>sz\<close> bytes never writes outside it, changes no other
  block and allocates nothing.  When it reports success the block holds the text of the tree, and it
  succeeds whenever the text, its terminator and one more byte fit.\<close>

theorem print_preallocated_bounded:
  assumes "wf_heap h" and "items_at h a [t] c" and "height [t] \<le> n" and "load_str buf h = Some b"
    and "length b = nat sz" and "buf \<notin> set (blocks [t])"
  shows "\<exists>ok h'. cJSON_PrintPreallocated n (jaddr t) buf sz fmt hk h = Some (ok, h') \<and> wf_heap h' \<and>
    (\<forall>q. q \<noteq> buf \<longrightarrow> load q h' = load q h) \<and>
    (ok \<longrightarrow> (\<exists>s. render fmt 0 t = Some s \<and> read_str buf h' = Some s)) \<and>
    ((\<exists>s. render fmt 0 t = Some s \<and> int (length s) + 2 \<le> sz \<and> sz \<le> int INT_MAX) \<longrightarrow> ok)"
  using assms by (rule cJSON_PrintPreallocated_outcome)

theorem print_preallocated_bounded_witness:
  "\<exists>h'. cJSON_PrintPreallocated 2 1 7 64 True (cJSON_InitHooks None) ex_json = Some (True, h') \<and>
    read_str 7 h' = Some [91, 116, 114, 117, 101, 44, 32, 34, 104, 105, 34, 44, 32, 110, 117, 108, 108, 93]"
proof -
  have h: "height [ex_array] \<le> 2" "jaddr ex_array = 1" by (simp_all add: ex_array_def ex_items_def)
  have b: "length (uninit 64) = nat 64" by (simp add: uninit_def)
  have n: "7 \<notin> set (blocks [ex_array])" by (simp add: ex_array_def ex_items_def)
  from print_preallocated_bounded [OF ex_json_wf(1) ex_json_items(1) h(1) ex_json_strs(5) b n, of True "cJSON_InitHooks None"]
  show ?thesis by (auto simp: ex_json_render h(2) INT_MAX_def)
qed

text \<open>\<open>cJSON_PrintBuffered\<close> with a positive first size returns NULL and leaves the heap as it was, or
  returns a new block that starts with the text of the tree and its terminator, however often the
  buffer had to grow.\<close>

theorem print_buffered_exact:
  assumes "wf_heap h" and "items_at h a [t] c" and "height [t] \<le> n" and "0 < prebuffer"
  shows "\<exists>p h'. cJSON_PrintBuffered n (jaddr t) prebuffer fmt hk h = Some (p, h') \<and> wf_heap h' \<and>
    text_outcome fmt t h (\<lambda>b s. cstring b = Some s) p h' \<and>
    ((\<exists>s. render fmt 0 t = Some s \<and> length s + 2 \<le> INT_MAX) \<and> True \<notin> set (oom h) \<longrightarrow> p \<noteq> NULL)"
  using assms by (rule cJSON_PrintBuffered_outcome)

theorem print_buffered_exact_witness:
  "\<exists>p h'. cJSON_PrintBuffered 2 1 1 True (cJSON_InitHooks (Some (Some (Custom 0), None))) ex_json = Some (p, h') \<and>
    read_str p h' = Some [91, 116, 114, 117, 101, 44, 32, 34, 104, 105, 34, 44, 32, 110, 117, 108, 108, 93]"
proof -
  have h: "height [ex_array] \<le> 2" "jaddr ex_array = 1" by (simp_all add: ex_array_def ex_items_def)
  from print_buffered_exact [OF ex_json_wf(1) ex_json_items(1) h(1), of 1 True "cJSON_InitHooks (Some (Some (Custom 0), None))"]
  show ?thesis by (auto simp: text_outcome_def ex_json_render h(2) INT_MAX_def read_str_def load_str_def)
qed

text \<open>without \<open>realloc\<close>, a first size of 0 makes \<open>ensure\<close> copy \<open>offset + 1\<close> bytes from the block of
  no bytes: printing any \<open>null\<close> item this way reads beyond the block.\<close>

theorem print_buffered_zero_overreads:
  assumes "wf_heap h" and "oom h = []" and "load_item item h = Some i" and "itype i = cJSON_NULL"
    and "reallocate hk = None"
  shows "cJSON_PrintBuffered (Suc n) item 0 fmt hk h = None"
proof -
  let ?h = "newj (StrC []) h"
  let ?p = "\<lparr>pbuffer = brk h, plength = 0, poffset = 0, pdepth = 0, noalloc = False, pformat = fmt, phooks = hk\<rparr>"
  have m: "malloc (StrC (uninit 0)) h = (brk h, ?h)" and n: "brk h \<noteq> NULL" "Suc (brk h) \<noteq> NULL"
    using assms(1,2) wf_heap_brk_pos [OF assms(1)] by (simp_all add: malloc_newj alloc_fails_def uninit_def NULL_def)
  have "item \<noteq> brk h" using assms(3) wf_heap_fresh [OF assms(1)] by (auto simp: load_item_Some_iff)
  then have i: "load_item item ?h = Some i" "item \<noteq> NULL"
    using assms(1,3) by (auto simp: load_item_Some_iff load_newj)
  have "emit 5 [110, 117, 108, 108, 0] 0 ?p ?h = None"
    using assms(1,2,5) n
    by (simp add: emit_def ensure_def INT_MAX_def malloc_newj alloc_fails_def load_str_def load_newj)
  then show ?thesis using m n i assms(4) by (simp add: cJSON_PrintBuffered_def ctype_defs)
qed

theorem print_buffered_zero_overreads_witness:
  "cJSON_PrintBuffered 1 4 0 False (cJSON_InitHooks (Some (Some (Custom 0), None))) ex_json = None"
proof -
  obtain i where i: "load_item 4 ex_json = Some i" "itype i = cJSON_NULL"
    by (simp add: load_item_def load_def NULL_def) (simp add: ex_json_def ex_cell_def)
  show ?thesis
    using print_buffered_zero_overreads [OF ex_json_wf(1,2) i, of "cJSON_InitHooks (Some (Some (Custom 0), None))" 0 False]
    by (simp add: cJSON_InitHooks_def)
qed

subsection \<open>Arrays and objects\<close>

text \<open>\<open>cJSON_InsertItemInArray\<close> at a position and \<open>cJSON_DetachItemFromArray\<close> there are inverse:
  the array has its items \<open>xs\<close> again, in order and correctly linked in both directions, and the item
  that came out, alone again, is the one that went in.\<close>

theorem insert_detach_inverse:
  assumes "family h p a xs (us @ u # vs)" and "n \<le> length xs"
  shows "\<exists>h1 h2. cJSON_InsertItemInArray p (int n) (jaddr u) h = Some h1 \<and>
    family h1 p a (take n xs @ u # drop n xs) (us @ vs) \<and>
    cJSON_DetachItemFromArray p (int n) h1 = Some (jaddr u, h2) \<and> family h2 p a xs (u # us @ vs)"
proof -
  from jarr.insert_any [OF assms(1), of n] jarr.insert_then_detach [OF assms] show ?thesis
    by (auto dest!: detach_at_SomeD)
qed

theorem insert_detach_inverse_witness:
  "\<exists>h1 h2. cJSON_InsertItemInArray 1 1 5 ex_json = Some h1 \<and> get_array_item 1 1 h1 = Some 5 \<and>
    get_array_item 1 2 h1 = Some 3 \<and> cJSON_DetachItemFromArray 1 1 h1 = Some (5, h2) \<and>
    get_array_item 1 1 h2 = Some 3"
proof -
  have n: "1 \<le> length ex_items" by (simp add: ex_items_def)
  from insert_detach_inverse [of _ _ _ _ "[]" _ "[]", simplified, OF ex_json_families(1) n]
  obtain h1 h2 where h: "cJSON_InsertItemInArray 1 1 5 ex_json = Some h1"
    "cJSON_DetachItemFromArray 1 1 h1 = Some (5, h2)"
    and f: "\<exists>a. family h1 1 a (take 1 ex_items @ ex_free # drop 1 ex_items) []" "\<exists>a. family h2 1 a ex_items [ex_free]"
    by (auto simp: ex_free_def)
  then show ?thesis
    using get_array_item_family [of h1 1] get_array_item_family [of h2 1] by (fastforce simp: ex_items_def ex_free_def)
qed

text \<open>appending items with \<open>cJSON_AddItemToArray\<close> one after the other and then detaching the first
  item over and over returns the old items and then the new ones, in order, each alone again; the
  array is empty in the end.\<close>

theorem array_fifo:
  assumes "family h p a xs us"
  shows "\<exists>h1 h2. push_all (\<lambda>h u. cJSON_AddItemToArray p u h) (map jaddr us) h = Some h1 \<and>
    cJSON_GetArraySize p h1 = Some (of_nat (length (xs @ us))) \<and>
    pop_many (cJSON_DetachItemFromArray p 0) (length (xs @ us)) h1 = Some (map jaddr (xs @ us), h2) \<and>
    family h2 p a [] (rev (xs @ us))"
proof -
  from jarr.add_all [OF assms] obtain h1 where
    h1: "push_all (\<lambda>h u. cJSON_AddItemToArray p u h) (map jaddr us) h = Some h1" "family h1 p a (xs @ us) []" by blast
  from jarr.drain [OF h1(2)] obtain h2 where
    h2: "pop_many (detach_at p 0) (length (xs @ us)) h1 = Some (map (Some \<circ> jaddr) (xs @ us), h2)"
    "family h2 p a [] (rev (xs @ us) @ [])" by blast
  from pop_many_detach [of p "length (xs @ us)" h1 "map jaddr (xs @ us)" h2] h1 h2 cJSON_GetArraySize_family [OF h1(2)]
  show ?thesis by auto
qed

theorem array_fifo_witness:
  "\<exists>h1 h2. push_all (\<lambda>h u. cJSON_AddItemToArray 1 u h) [5] ex_json = Some h1 \<and> cJSON_GetArraySize 1 h1 = Some 4 \<and>
    pop_many (cJSON_DetachItemFromArray 1 0) 4 h1 = Some ([2, 3, 4, 5], h2)"
proof -
  have "length (ex_items @ [ex_free]) = 4" "map jaddr (ex_items @ [ex_free]) = [2, 3, 4, 5]" "map jaddr [ex_free] = [5]"
    by (simp_all add: ex_items_def ex_free_def)
  with array_fifo [OF ex_json_families(1)] show ?thesis by (metis of_nat_numeral)
qed

text \<open>\<open>cJSON_ReplaceItemViaPointer\<close> puts the replacement exactly where the item was, with correct
  links on both sides, and releases everything the item owned and nothing else.\<close>

theorem replace_exact:
  assumes "family h p a (xs @ t # ys) (us @ r # vs)" and "distinct (foot [t])"
    and "set (foot [t]) \<inter> set (p # blocks (xs @ ys @ us @ r # vs)) = {}"
  shows "\<exists>h'. cJSON_ReplaceItemViaPointer p (jaddr t) (jaddr r) h = Some (True, h') \<and>
    family h' p a (xs @ r # ys) (us @ vs) \<and> (\<forall>q \<in> set (foot [t]). load q h' = None) \<and>
    (\<forall>q. q \<notin> set (p # jaddr r # map jaddr (xs @ ys) @ foot [t]) \<longrightarrow> load q h' = load q h)"
  using assms by (rule replace_family)

theorem replace_exact_witness:
  "\<exists>h'. cJSON_ReplaceItemViaPointer 1 3 5 ex_json = Some (True, h') \<and> get_array_item 1 1 h' = Some 5 \<and>
    get_array_item 1 2 h' = Some 4 \<and> load 3 h' = None \<and> load 6 h' = None"
proof -
  have F: "family ex_json 1 \<lparr>inext = 0, iprev = 0, child = 0, itype = cJSON_Array, valuestring = 0, valueint = 0,
     valuedouble = 0, key = 0\<rparr> ([JT 2 cJSON_True None 1 0 None []] @ JT 3 cJSON_String (Some (6, [104, 105])) 0 0 None [] #
       [JT 4 cJSON_NULL None 0 0 None []]) ([] @ ex_free # [])"
    using ex_json_families(1) by (simp add: ex_items_def)
  have "set (foot [JT 3 cJSON_String (Some (6, [104, 105])) 0 0 None []]) = {6, 3}"
    by (simp add: is_reference_def string_is_const_def ctype_defs)
  with replace_exact [OF F] obtain h' where
    "cJSON_ReplaceItemViaPointer 1 3 5 ex_json = Some (True, h')" "load 3 h' = None" "load 6 h' = None"
    and f: "\<exists>a. family h' 1 a [JT 2 cJSON_True None 1 0 None [], ex_free, JT 4 cJSON_NULL None 0 0 None []] []"
    by (auto simp: ex_free_def is_reference_def string_is_const_def ctype_defs)
  then show ?thesis using get_array_item_family [of h' 1] by (fastforce simp: ex_free_def)
qed

text \<open>looking up a member returns the first one with the name, up to the case of ASCII letters in
  \<open>cJSON_GetObjectItem\<close> and exactly in \<open>cJSON_GetObjectItemCaseSensitive\<close>, and NULL when there is
  none; the case-sensitive search also ends, with NULL, at the first member without a name.\<close>

theorem lookup_correct:
  assumes "family h p a ts us" and "read_str name h = Some n"
  shows "cJSON_GetObjectItem p name h = Some (lookup_name False n ts) \<and>
    cJSON_GetObjectItemCaseSensitive p name h = Some (lookup_name True n ts) \<and>
    cJSON_HasObjectItem p name h = Some (lookup_name False n ts \<noteq> NULL)"
  using get_object_item_family [OF assms]
  by (simp add: cJSON_GetObjectItem_def cJSON_GetObjectItemCaseSensitive_def cJSON_HasObjectItem_def)

theorem lookup_correct_witness:
  "cJSON_GetObjectItem 10 15 ex_json = Some 11 \<and> cJSON_GetObjectItemCaseSensitive 10 15 ex_json = Some NULL \<and>
   cJSON_GetObjectItemCaseSensitive 10 14 ex_json = Some 12"
  using lookup_correct [OF ex_json_families(2) ex_json_strs(4)] lookup_correct [OF ex_json_families(2) ex_json_strs(3)]
  by (simp add: ex_members_def tolower_def)

end
