(* ===== verification/CJsonValue.thy ===== *)
theory CJsonValue
  imports CJsonRender
begin

text \<open>
  The JSON value a tree of items stands for, and the text of a value.  Two trees stand for the same
  value however their blocks lie in memory; the printer prints the text of the value.
\<close>

subsection \<open>Values\<close>

datatype json =
    JNull
  | JFalse
  | JTrue
  | JNum f64
  | JStr "byte list"
  | JArr "json list"
  | JObj "(byte list \<times> json) list"

definition str_of :: "(addr \<times> byte list) option \<Rightarrow> byte list" where
  "str_of v = (case v of None \<Rightarrow> [] | Some (p, s) \<Rightarrow> s)"

text \<open>Items of an unknown type and raw items stand for no value.\<close>

fun json_of :: "jtree \<Rightarrow> json option"
  and elements_of :: "jtree list \<Rightarrow> json list option"
  and members_of :: "jtree list \<Rightarrow> (byte list \<times> json) list option" where
  "json_of (JT p ty vs vi vd k ks) =
     (let ty = ty AND 0xFF in
      if ty = cJSON_NULL then Some JNull
      else if ty = cJSON_False then Some JFalse
      else if ty = cJSON_True then Some JTrue
      else if ty = cJSON_Number then Some (JNum vd)
      else if ty = cJSON_String then Some (JStr (str_of vs))
      else if ty = cJSON_Array then map_option JArr (elements_of ks)
      else if ty = cJSON_Object then map_option JObj (members_of ks)
      else None)"
| "elements_of [] = Some []"
| "elements_of (t # ts) = do { j \<leftarrow> json_of t; js \<leftarrow> elements_of ts; Some (j # js) }"
| "members_of [] = Some []"
| "members_of (t # ts) = do { j \<leftarrow> json_of t; ms \<leftarrow> members_of ts; Some ((str_of (jkey t), j) # ms) }"

subsection \<open>Their text\<close>

definition quote :: "byte list \<Rightarrow> byte list" where
  "quote s = 34 # escaped s @ [34]"

lemma quoted_quote: "quoted v = quote (str_of v)"
  by (cases v) (auto simp: quoted_def quote_def str_of_def)

fun json_text :: "bool \<Rightarrow> nat \<Rightarrow> json \<Rightarrow> byte list"
  and elements_text :: "bool \<Rightarrow> nat \<Rightarrow> json list \<Rightarrow> byte list"
  and members_text :: "bool \<Rightarrow> nat \<Rightarrow> (byte list \<times> json) list \<Rightarrow> byte list" where
  "json_text fmt d JNull = [110, 117, 108, 108]"
| "json_text fmt d JFalse = [102, 97, 108, 115, 101]"
| "json_text fmt d JTrue = [116, 114, 117, 101]"
| "json_text fmt d (JNum x) = number_text x"
| "json_text fmt d (JStr s) = quote s"
| "json_text fmt d (JArr js) = [91] @ elements_text fmt (d + 1) js @ [93]"
| "json_text fmt d (JObj ms) = [123] @ newline fmt @ members_text fmt (d + 1) ms @ tabs fmt d @ [125]"
| "elements_text fmt d [] = []"
| "elements_text fmt d (j # js) = json_text fmt d j @ (if js = [] then [] else comma fmt) @ elements_text fmt d js"
| "members_text fmt d [] = []"
| "members_text fmt d ((k, j) # ms) =
     tabs fmt d @ quote k @ colon fmt @ json_text fmt d j @ (if ms = [] then [] else [44]) @ newline fmt @ members_text fmt d ms"

lemma elements_of_Nil: "elements_of ts = Some js \<Longrightarrow> (js = []) = (ts = [])"
  by (cases ts) (auto simp: bind_Some_iff)

lemma members_of_Nil: "members_of ts = Some ms \<Longrightarrow> (ms = []) = (ts = [])"
  by (cases ts) (auto simp: bind_Some_iff)

lemma json_of_cases [case_names null false true number string array object]:
  assumes "json_of (JT p ty vs vi vd k ks) = Some j"
  obtains "ty AND 0xFF = cJSON_NULL" "j = JNull"
  | "ty AND 0xFF = cJSON_False" "j = JFalse"
  | "ty AND 0xFF = cJSON_True" "j = JTrue"
  | "ty AND 0xFF = cJSON_Number" "j = JNum vd"
  | "ty AND 0xFF = cJSON_String" "j = JStr (str_of vs)"
  | js where "ty AND 0xFF = cJSON_Array" "elements_of ks = Some js" "j = JArr js"
  | ms where "ty AND 0xFF = cJSON_Object" "members_of ks = Some ms" "j = JObj ms"
  using assms unfolding json_of.simps Let_def by (auto split: if_split_asm)

lemma render_text:
  "json_of t = Some j \<Longrightarrow> render fmt d t = Some (json_text fmt d j)"
  "elements_of ts = Some js \<Longrightarrow> render_elements fmt d ts = Some (elements_text fmt d js)"
  "members_of ts = Some ms \<Longrightarrow> render_members fmt d ts = Some (members_text fmt d ms)"
proof (induction t and ts and ts arbitrary: d j and d js and d ms rule: json_of_elements_of_members_of.induct)
  case (1 p ty vs vi vd k ks)
  from "1.prems" show ?case
  proof (cases rule: json_of_cases)
    case (array js)
    with "1.IH"(1) show ?thesis by (simp add: ctype_defs)
  next
    case (object ms)
    with "1.IH"(2) show ?thesis by (simp add: ctype_defs)
  qed (simp_all add: ctype_defs quoted_quote)
next
  case (3 t ts)
  then show ?case by (auto simp: bind_Some_iff elements_of_Nil)
next
  case (5 t ts)
  then show ?case by (auto simp: bind_Some_iff members_of_Nil quoted_quote)
qed auto

subsection \<open>What the parser does with the text of a string\<close>

lemma hex_char_nibble:
  assumes "d < 16"
  shows "hex_val (hex_char d) = Some (unat d) \<and> hex_char d \<noteq> 34 \<and> hex_char d \<noteq> 92"
proof (cases "d < 10")
  case True
  then have "unat d < 10" "unat (48 + d) = 48 + unat d" "unat (48 + d) \<le> 57"
    by (simp_all add: word_less_nat_alt unat_word_ariths)
  moreover from this have "unat (48 + d) \<noteq> unat (34 :: byte)" "unat (48 + d) \<noteq> unat (92 :: byte)" by simp_all
  then have "48 + d \<noteq> 34" "48 + d \<noteq> 92" by metis+
  ultimately show ?thesis using True by (simp add: hex_val_def hex_char_def word_le_nat_alt)
next
  case False
  then have "unat d \<ge> 10" "unat d < 16" "unat (87 + d) = 87 + unat d"
    using assms by (simp_all add: word_less_nat_alt unat_word_ariths)
  moreover from this have "unat (87 + d) \<noteq> unat (34 :: byte)" "unat (87 + d) \<noteq> unat (92 :: byte)" by simp_all
  then have "87 + d \<noteq> 34" "87 + d \<noteq> 92" by metis+
  ultimately show ?thesis using False by (simp add: hex_val_def hex_char_def word_le_nat_alt)
qed

lemma byte_nibbles: "c < 32 \<Longrightarrow> c div 16 < 16" "c mod 16 < 16" for c :: byte
  by (simp_all add: word_less_nat_alt unat_div unat_mod less_mult_imp_div_less)

lemma u04x_utf16:
  assumes "c < 32"
  shows "utf16 ([48, 48, hex_char (c div 16), hex_char (c mod 16)] @ s) = Some (unat c, 4)"
proof -
  have 0: "hex_val 48 = Some 0" by (simp add: hex_val_def)
  have "unat (c div 16) * 16 + unat (c mod 16) = unat c"
    by (simp add: unat_div unat_mod)
  then have "hex4 ([48, 48, hex_char (c div 16), hex_char (c mod 16)] @ s) = unat c"
    using byte_nibbles [of c] assms by (simp add: hex4_def hex_char_nibble 0)
  moreover have "unat c < 32" using assms by (simp add: word_less_nat_alt)
  ultimately show ?thesis by (simp add: utf16_def Let_def)
qed

lemma escaped_cases [case_names Plain Short Code]:
  obtains "31 < c" "c \<noteq> 34" "c \<noteq> 92"
  | x where "short_escape c = Some x" "\<not> (31 < c \<and> c \<noteq> 34 \<and> c \<noteq> 92)"
  | "short_escape c = None" "c < 32" "\<not> (31 < c \<and> c \<noteq> 34 \<and> c \<noteq> 92)"
  using short_escape_small short_escape_Some by (cases "short_escape c") blast+

lemma short_escape_simple: "short_escape c = Some x \<Longrightarrow> simple_escape x = Some c"
  by (auto simp: short_escape_def simple_escape_def split: if_splits)

lemma scanned_escaped: "scanned (escaped s)"
proof (induction s)
  case (Cons c s)
  show ?case using Cons hex_char_nibble byte_nibbles [of c] by (cases c rule: escaped_cases) (auto simp: u04x_def)
qed simp

lemma decode_escaped: "0 \<notin> set s \<Longrightarrow> decode (escaped s) = Some s"
proof (induction s)
  case (Cons c s)
  then have IH: "decode (escaped s) = Some s" by simp
  show ?case
  proof (cases c rule: escaped_cases)
    case Plain
    then show ?thesis using IH by simp
  next
    case (Short x)
    then show ?thesis using IH short_escape_simple [of c x] by simp
  next
    case Code
    have "utf8 (unat c) = [c]" using Code by (simp add: utf8_def word_less_nat_alt)
    with Code show ?thesis using IH decode_unit(4) [OF u04x_utf16 [OF Code(2), of "escaped s"]]
      by (simp add: u04x_def)
  qed
qed simp

end
