(* ===== verification/CJsonReads.thy ===== *)
theory CJsonReads
  imports CJsonParseOk CJsonValue
begin

text \<open>
  The parser on text that stands for a value.  \<open>reads pe \<dots> x Q\<close> says that the parsing function \<open>pe\<close>
  consumes exactly the text \<open>x\<close> wherever it stands in front of a character that cannot continue it,
  provided no allocation fails, and that the item it fills satisfies \<open>Q\<close>.  What it does to the heap
  is the contract of the memory-safety proof, which holds for all inputs.
\<close>

subsection \<open>A heap determines its trees\<close>

lemma str_at_ptr: "str_at h v \<Longrightarrow> str_at h v' \<Longrightarrow> ptr_of v = ptr_of v' \<Longrightarrow> v = v'"
  by (cases v; cases v') (auto dest: read_str_not_NULL)

lemma items_at_unique:
  "items_at h a ts NULL \<Longrightarrow> items_at h a' ts' NULL \<Longrightarrow> first_addr ts NULL = first_addr ts' NULL \<Longrightarrow> ts = ts'"
proof (induction ts arbitrary: a a' ts' rule: blocks.induct)
  case 1
  then show ?case using first_addr_NULL by fastforce
next
  case (2 p ty vs vi vd k ks ts)
  then have "first_addr ts' NULL \<noteq> NULL" by (auto dest: load_item_not_NULL)
  with 2 obtain ty' vs' vi' vd' k' ks' us where ts': "ts' = JT p ty' vs' vi' vd' k' ks' # us"
    by (cases ts' rule: blocks.cases) auto
  with "2.prems" have same: "ty = ty'" "vi = vi'" "vd = vd'" "ptr_of vs = ptr_of vs'" "ptr_of k = ptr_of k'"
    "first_addr ks NULL = first_addr ks' NULL" "first_addr ts NULL = first_addr us NULL" by auto
  moreover have "vs = vs'" "k = k'" using same str_at_ptr "2.prems" ts' by auto
  moreover have "ks = ks'" "ts = us" using "2.IH" "2.prems" same ts' by auto
  ultimately show ?case using ts' by simp
qed

lemma item_of_tree:
  assumes "load_item p h = Some i" and "items_at h a [t] b" and "jaddr t = p"
  shows "jtype t = itype i" and "jdouble t = valuedouble i" and "ptr_of (jvalue t) = valuestring i"
    and "ptr_of (jkey t) = key i" and "first_addr (jkids t) NULL = child i" and "str_at h (jvalue t)"
    and "str_at h (jkey t)" and "items_at h NULL (jkids t) NULL"
  using assms by (cases t, force)+

subsection \<open>White space\<close>

definition white :: "byte list \<Rightarrow> bool" where
  "white w \<longleftrightarrow> (\<forall>x \<in> set w. x \<le> 32)"

lemma white_simps [simp]:
  "white []" "white (x # w) = (x \<le> 32 \<and> white w)" "white (v @ w) = (white v \<and> white w)"
  by (auto simp: white_def)

lemma skip_blanks_white:
  "white w \<Longrightarrow> \<not> c \<le> 32 \<Longrightarrow> content_ok b \<Longrightarrow> drop (offset b) (content b) = w @ c # r \<Longrightarrow>
   skip_blanks b = Some (b\<lparr>offset := offset b + length w\<rparr>)"
proof (induction w arbitrary: b)
  case Nil
  then show ?case
    by (simp add: skip_blanks.simps [of b] can_access_at_index_def cur_byte_def byte_at_drop drop_Cons_less content_ok_def)
next
  case (Cons x w)
  then have "skip_blanks (b\<lparr>offset := offset b + 1\<rparr>) = Some (b\<lparr>offset := offset b + 1 + length w\<rparr>)"
    using Cons.IH [of "b\<lparr>offset := offset b + 1\<rparr>"] drop_add [of "offset b" "content b" "[x]"] by simp
  with Cons.prems show ?case
    by (simp add: skip_blanks.simps [of b] can_access_at_index_def cur_byte_def byte_at_drop drop_Cons_less content_ok_def
      advance_def)
qed

lemma skip_white:
  assumes "white w" and "\<not> c \<le> 32" and "content_ok b" and "drop (offset b) (content b) = w @ c # r"
  shows "buffer_skip_whitespace b = Some (b\<lparr>offset := offset b + length w\<rparr>)"
proof -
  have "drop (offset b + length w) (content b) = c # r" using drop_add [OF assms(4)] .
  then have "offset b + length w < len b" using drop_Cons_less assms(3) by (simp add: content_ok_def)
  with skip_blanks_white [OF assms] show ?thesis by (simp add: buffer_skip_whitespace_def)
qed

lemma next_is_head: "content_ok b \<Longrightarrow> drop (offset b) (content b) = c # r \<Longrightarrow> next_is x b = Some (c = x)"
  by (simp add: next_is_def can_access_at_index_def cur_byte_def byte_at_drop drop_Cons_less content_ok_def)

subsection \<open>No failing allocation\<close>

lemma upd_item_oom: "upd_item p f h = Some h' \<Longrightarrow> oom h' = oom h"
  by (auto simp: upd_item_def bind_Some_iff store_eq_Some_iff)

lemma attach_new_oom:
  "oom h = [] \<Longrightarrow> wf_heap h \<Longrightarrow> attach_new a c h = Some (r, h') \<Longrightarrow> r \<noteq> None \<and> oom h' = []"
  by (auto simp: attach_new_def cJSON_New_Item_def malloc_newj alloc_fails_def bind_Some_iff upd_item_oom
    wf_heap_brk_pos split: if_splits dest!: upd_item_oom)

lemma parse_string_oom:
  assumes "oom h = []" and "parse_string item b h = Some (ok, b', h')"
  shows "oom h' = []"
proof -
  have st: "store p c h1 = Some h2 \<Longrightarrow> oom h2 = oom h1" for p c h1 h2 by (auto simp: store_eq_Some_iff)
  have fr: "free p h1 = Some h2 \<Longrightarrow> oom h2 = oom h1" for p h1 h2 by (auto simp: free_def split: if_splits)
  show ?thesis using assms
    by (auto simp: parse_string_def Let_def malloc_newj alloc_fails_def bind_Some_iff split: if_splits
      dest!: upd_item_oom st fr)
qed

subsection \<open>Reading\<close>

text \<open>What may follow a number.\<close>

definition stops :: "byte list \<Rightarrow> bool" where
  "stops r \<longleftrightarrow> r \<noteq> [] \<and> \<not> number_char (hd r)"

lemma stops_Cons [simp]: "stops (c # r) = (\<not> number_char c)"
  by (simp add: stops_def)

lemma number_char_codes [simp]:
  "\<not> number_char 0" "\<not> number_char 9" "\<not> number_char 10" "\<not> number_char 32" "\<not> number_char 44" "\<not> number_char 58"
  "\<not> number_char 93" "\<not> number_char 125"
  by (simp_all add: number_char_def)

definition reads ::
  "value_parser \<Rightarrow> (nat \<Rightarrow> bool) \<Rightarrow> (item \<Rightarrow> bool) \<Rightarrow> nat \<Rightarrow> byte list \<Rightarrow> (jtree \<Rightarrow> bool) \<Rightarrow> bool" where
  "reads pe ready ok n x Q \<longleftrightarrow>
     (\<forall>b h item i r. content_ok b \<longrightarrow> drop (offset b) (content b) = x @ r \<longrightarrow> stops r \<longrightarrow>
        depth b + n \<le> CJSON_NESTING_LIMIT \<longrightarrow> ready (depth b) \<longrightarrow> wf_heap h \<longrightarrow> oom h = [] \<longrightarrow>
        load_item item h = Some i \<longrightarrow> blank i \<longrightarrow> ok i \<longrightarrow>
        (\<exists>h'. pe item b h = Some (True, b\<lparr>offset := offset b + length x\<rparr>, h') \<and> oom h' = [] \<and>
           (\<forall>t. jaddr t = item \<longrightarrow> items_at h' (iprev i) [t] (inext i) \<longrightarrow> Q t)))"

lemma readsE:
  assumes "reads pe ready ok n x Q" and "content_ok b" and "drop (offset b) (content b) = x @ r" and "stops r"
    and "depth b + n \<le> CJSON_NESTING_LIMIT" and "ready (depth b)" and "wf_heap h" and "oom h = []"
    and "load_item item h = Some i" and "blank i" and "ok i"
  obtains h' where "pe item b h = Some (True, b\<lparr>offset := offset b + length x\<rparr>, h')" "oom h' = []"
    "\<And>t. jaddr t = item \<Longrightarrow> items_at h' (iprev i) [t] (inext i) \<Longrightarrow> Q t"
  using assms unfolding reads_def by meson

text \<open>
  The pieces of a list: white space, the text of an element, white space, and what the element
  shall satisfy; commas separate them.
\<close>

type_synonym piece = "byte list \<times> byte list \<times> byte list \<times> (jtree \<Rightarrow> bool)"

definition piece_text :: "piece \<Rightarrow> byte list" where
  "piece_text q = (case q of (u, x, v, Q) \<Rightarrow> u @ x @ v)"

fun joined :: "piece list \<Rightarrow> byte list" where
  "joined [] = []"
| "joined [q] = piece_text q"
| "joined (q # ps) = piece_text q @ 44 # joined ps"

definition reads_piece :: "value_parser \<Rightarrow> (nat \<Rightarrow> bool) \<Rightarrow> nat \<Rightarrow> piece \<Rightarrow> bool" where
  "reads_piece pe ready n q \<longleftrightarrow>
     (case q of (u, x, v, Q) \<Rightarrow> white u \<and> white v \<and> x \<noteq> [] \<and> \<not> hd x \<le> 32 \<and> reads pe ready (\<lambda>i. key i = NULL) n x Q)"

definition meets :: "piece \<Rightarrow> jtree \<Rightarrow> bool" where
  "meets q t = (case q of (u, x, v, Q) \<Rightarrow> Q t)"

lemma white_stops: "white w \<Longrightarrow> \<not> number_char c \<Longrightarrow> stops (w @ c # r)"
  by (cases w) (auto simp: number_char_def word_le_nat_alt)

context element_parsing
begin

text \<open>Reading one element behind the elements \<open>ts\<close>.\<close>

lemma reads_element:
  assumes q: "reads_piece pe ready n (u, x, v, Q)" and G: "grown h0 h ts" and C: "content_ok b"
    and d: "drop (offset b + 1) (content b) = u @ x @ v @ c # r" and c: "\<not> c \<le> 32" "\<not> number_char c"
    and n: "depth b + n \<le> CJSON_NESTING_LIMIT" and rd: "ready (depth b)" and o: "oom h = []"
  shows "\<exists>h' t. Q t \<and> grown h0 h' (ts @ [t]) \<and> oom h' = [] \<and>
    parse_elements pe (first_addr ts NULL) (last_addr NULL ts) b h =
      (let b' = b\<lparr>offset := offset b + 1 + length (u @ x @ v)\<rparr> in
       if c = 44 then parse_elements pe (first_addr (ts @ [t]) NULL) (last_addr NULL (ts @ [t])) b' h'
       else Some (True, first_addr (ts @ [t]) NULL, b', h'))"
  using G
proof (cases rule: attach_new_cases)
  case (fail h')
  then show ?thesis using attach_new_oom [OF o _ fail(1)] G by (simp add: grown_def)
next
  case (ok m h1)
  let ?b1 = "b\<lparr>offset := offset b + 1\<rparr>" and ?i = "empty_item\<lparr>iprev := last_addr NULL ts\<rparr>"
  let ?b2 = "b\<lparr>offset := offset b + 1 + length u\<rparr>"
  have Q: "white u" "white v" "x \<noteq> []" "\<not> hd x \<le> 32" "reads pe ready (\<lambda>i. key i = NULL) n x Q"
    using q by (simp_all add: reads_piece_def)
  then obtain e x' where x: "x = e # x'" "\<not> e \<le> 32" by (cases x) auto
  have o1: "oom h1 = []" using attach_new_oom [OF o _ ok(1)] G by (simp add: grown_def)
  have s1: "buffer_skip_whitespace ?b1 = Some ?b2"
    using skip_white [OF Q(1) x(2), of ?b1 "x' @ v @ c # r"] C d x by simp
  have i: "blank ?i" "key ?i = NULL" "iprev ?i = last_addr NULL ts" "inext ?i = NULL"
    by (simp_all add: blank_def empty_item_def is_reference_def string_is_const_def ctype_defs)
  have d2: "drop (offset b + 1 + length u) (content b) = x @ v @ c # r" using drop_add [OF d] .
  have st: "stops (v @ c # r)" by (rule white_stops [OF Q(2) c(2)])
  have lt: "offset ?b2 < len ?b2" using d2 x C drop_Cons_less by (simp add: content_ok_def)
  have C2: "content_ok ?b2" and dp: "depth ?b2 \<le> CJSON_NESTING_LIMIT" "ready (depth ?b2)" using C n rd by simp_all
  have P: "parsed_element h1 ?b2 m ?i (pe m ?b2 h1)"
    by (rule parse [OF C2 lt dp ok(2) ok(8) i(1,2)])
  obtain h' where h': "pe m ?b2 h1 = Some (True, ?b2\<lparr>offset := offset ?b2 + length x\<rparr>, h')" "oom h' = []"
    "\<And>t. jaddr t = m \<Longrightarrow> items_at h' (iprev ?i) [t] (inext ?i) \<Longrightarrow> Q t"
    by (rule readsE [OF Q(5), of ?b2 "v @ c # r" h1 m ?i]) (use C2 d2 st n rd ok(2,8) o1 i in simp_all)
  let ?b3 = "b\<lparr>offset := offset b + 1 + length u + length x\<rparr>"
  from P h'(1) obtain t where t: "jaddr t = m" "built h1 h' ?i t" and wf: "wf_heap h'"
    unfolding parsed_element_def by auto
  have "Q t" using h'(3) [OF t(1)] t(2) by (simp add: built_def)
  moreover have "grown h0 h' (ts @ [t])"
    by (rule grown_snoc [OF G ok(7,5,6) i(3,4) ok(8,9) t(2,1) wf])
  moreover have "buffer_skip_whitespace ?b3 = Some (b\<lparr>offset := offset b + 1 + length (u @ x @ v)\<rparr>)"
    using skip_white [OF Q(2) c(1), of ?b3 r] C drop_add [OF d2] by (simp add: add.assoc)
  moreover have "next_is 44 (b\<lparr>offset := offset b + 1 + length (u @ x @ v)\<rparr>) = Some (c = 44)"
    by (rule next_is_head [where r = r]) (use C drop_add [of "offset b + 1" "content b" "u @ x @ v" "c # r"] d in simp_all)
  moreover have "first_addr (ts @ [t]) NULL = first_addr ts m" "last_addr NULL (ts @ [t]) = m" using t(1) by simp_all
  ultimately show ?thesis
    using ok(1) s1 h'(1,2) parse_elements.simps [of pe "first_addr ts NULL" "last_addr NULL ts" b h]
    by (intro exI [of _ h'] exI [of _ t]) (auto simp: advance_def add.assoc)
qed

lemma parse_elements_reads:
  "ps \<noteq> [] \<Longrightarrow> \<forall>q \<in> set ps. reads_piece pe ready n q \<Longrightarrow> grown h0 h ts \<Longrightarrow> content_ok b \<Longrightarrow>
   drop (offset b + 1) (content b) = joined ps @ c # r \<Longrightarrow> \<not> c \<le> 32 \<Longrightarrow> \<not> number_char c \<Longrightarrow> c \<noteq> 44 \<Longrightarrow>
   depth b + n \<le> CJSON_NESTING_LIMIT \<Longrightarrow> ready (depth b) \<Longrightarrow> oom h = [] \<Longrightarrow>
   \<exists>h' us. parse_elements pe (first_addr ts NULL) (last_addr NULL ts) b h =
       Some (True, first_addr (ts @ us) NULL, b\<lparr>offset := offset b + 1 + length (joined ps)\<rparr>, h') \<and>
     grown h0 h' (ts @ us) \<and> list_all2 meets ps us \<and> oom h' = []"
proof (induction ps arbitrary: b h ts rule: joined.induct)
  case (2 q)
  obtain u x v Q where q: "q = (u, x, v, Q)" by (cases q) auto
  have "\<exists>h' t. Q t \<and> grown h0 h' (ts @ [t]) \<and> oom h' = [] \<and>
    parse_elements pe (first_addr ts NULL) (last_addr NULL ts) b h =
      (let b' = b\<lparr>offset := offset b + 1 + length (u @ x @ v)\<rparr> in
       if c = 44 then parse_elements pe (first_addr (ts @ [t]) NULL) (last_addr NULL (ts @ [t])) b' h'
       else Some (True, first_addr (ts @ [t]) NULL, b', h'))"
    by (rule reads_element [where r = r]) (use 2 q in \<open>simp_all add: piece_text_def\<close>)
  then obtain h' t where "Q t" "grown h0 h' (ts @ [t])" "oom h' = []"
    "parse_elements pe (first_addr ts NULL) (last_addr NULL ts) b h =
      Some (True, first_addr (ts @ [t]) NULL, b\<lparr>offset := offset b + 1 + length (u @ x @ v)\<rparr>, h')"
    using \<open>c \<noteq> 44\<close> by (auto simp: Let_def)
  then show ?case using q by (intro exI [of _ h'] exI [of _ "[t]"]) (simp add: meets_def piece_text_def)
next
  case (3 q q' ps)
  obtain u x v Q where q: "q = (u, x, v, Q)" by (cases q) auto
  let ?r = "joined (q' # ps) @ c # r" and ?b = "b\<lparr>offset := offset b + 1 + length (u @ x @ v)\<rparr>"
  have d: "drop (offset b + 1) (content b) = u @ x @ v @ 44 # ?r" using "3.prems" q by (simp add: piece_text_def)
  have "\<exists>h' t. Q t \<and> grown h0 h' (ts @ [t]) \<and> oom h' = [] \<and>
    parse_elements pe (first_addr ts NULL) (last_addr NULL ts) b h =
      (let b' = ?b in
       if 44 = (44 :: byte) then parse_elements pe (first_addr (ts @ [t]) NULL) (last_addr NULL (ts @ [t])) b' h'
       else Some (True, first_addr (ts @ [t]) NULL, b', h'))"
    by (rule reads_element [OF _ "3.prems"(3,4) d]) (use "3.prems" q in simp_all)
  then obtain h1 t where t: "Q t" "grown h0 h1 (ts @ [t])" "oom h1 = []"
    "parse_elements pe (first_addr ts NULL) (last_addr NULL ts) b h =
      parse_elements pe (first_addr (ts @ [t]) NULL) (last_addr NULL (ts @ [t])) ?b h1" by auto
  have d': "drop (offset ?b + 1) (content ?b) = joined (q' # ps) @ c # r"
    using drop_add [of "offset b + 1" "content b" "(u @ x @ v) @ [44]"] d by (simp add: add.assoc add.commute)
  have "\<exists>h' us. parse_elements pe (first_addr (ts @ [t]) NULL) (last_addr NULL (ts @ [t])) ?b h1 =
       Some (True, first_addr ((ts @ [t]) @ us) NULL, ?b\<lparr>offset := offset ?b + 1 + length (joined (q' # ps))\<rparr>, h') \<and>
     grown h0 h' ((ts @ [t]) @ us) \<and> list_all2 meets (q' # ps) us \<and> oom h' = []"
    by (rule "3.IH" [OF _ _ t(2) _ d']) (use "3.prems" t(3) in simp_all)
  then obtain h' us where "parse_elements pe (first_addr (ts @ [t]) NULL) (last_addr NULL (ts @ [t])) ?b h1 =
       Some (True, first_addr ((ts @ [t]) @ us) NULL, ?b\<lparr>offset := offset ?b + 1 + length (joined (q' # ps))\<rparr>, h')"
     "grown h0 h' ((ts @ [t]) @ us)" "list_all2 meets (q' # ps) us" "oom h' = []" by blast
  moreover have "meets q t" using t(1) q by (simp add: meets_def)
  ultimately show ?case using t(4) q by (intro exI [of _ h'] exI [of _ "t # us"]) (simp add: piece_text_def)
qed simp

text \<open>A whole list, between its brackets; \<open>w\<close> is the white space of an empty one.\<close>

lemma parse_list_reads:
  assumes ps: "\<forall>q \<in> set ps. reads_piece pe ready n q" and w: "white w"
    and C: "content_ok b" and d: "drop (offset b) (content b) = op # (if ps = [] then w else joined ps) @ close # r"
    and close: "\<not> close \<le> 32" "\<not> number_char close" "close \<noteq> 44" and op: "op \<noteq> 0"
    and first: "\<And>u x v Q qs. ps = (u, x, v, Q) # qs \<Longrightarrow> hd x \<noteq> close"
    and n: "depth b + n \<le> CJSON_NESTING_LIMIT" and rd: "ready (depth b)" and wf: "wf_heap h" and o: "oom h = []"
    and i: "load_item item h = Some i"
  shows "\<exists>h' us. parse_list pe close ty item b h =
      Some (True, b\<lparr>depth := depth b - 1, offset := offset b + 2 + length (if ps = [] then w else joined ps)\<rparr>, h') \<and>
    oom h' = [] \<and> list_all2 meets ps us \<and>
    (\<forall>t. jaddr t = item \<longrightarrow> items_at h' (iprev i) [t] (inext i) \<longrightarrow> jtype t = ty \<and> jkids t = us)"
proof (cases ps)
  case Nil
  let ?b1 = "b\<lparr>offset := offset b + 1\<rparr>" and ?b2 = "b\<lparr>offset := offset b + 1 + length w\<rparr>"
  let ?i = "i\<lparr>itype := ty, child := NULL\<rparr>"
  have d1: "drop (offset b + 1) (content b) = w @ close # r"
    using drop_add [of "offset b" "content b" "[op]"] d Nil by simp
  have s: "buffer_skip_whitespace ?b1 = Some ?b2" using skip_white [OF w close(1), of ?b1 r] C d1 by simp
  have nx: "next_is close ?b2 = Some True"
    using next_is_head [of ?b2 close r close] C drop_add [OF d1] by simp
  have e: "parse_list pe close ty item b h =
      Some (True, b\<lparr>depth := depth b - 1, offset := offset b + 2 + length w\<rparr>, setj item (ItemC ?i) h)"
    using s nx upd_item_Some [OF i] by (simp add: parse_list_def advance_def)
  have "jtype t = ty \<and> jkids t = []" if "jaddr t = item" "items_at (setj item (ItemC ?i) h) (iprev i) [t] (inext i)" for t
  proof -
    have "load_item item (setj item (ItemC ?i) h) = Some ?i"
      using load_item_not_NULL [OF i] by (simp add: load_item_setj)
    from item_of_tree [OF this that(2,1)] show ?thesis using first_addr_NULL by auto
  qed
  with e Nil o show ?thesis by (intro exI [of _ "setj item (ItemC ?i) h"] exI [of _ "[]"]) simp
next
  case (Cons q qs)
  obtain u x v Q where q: "q = (u, x, v, Q)" by (cases q) auto
  have rp: "white u" "x \<noteq> []" "\<not> hd x \<le> 32" using ps Cons q by (simp_all add: reads_piece_def)
  let ?ps = "([], x, v, Q) # qs"
  have j: "joined ps = u @ joined ?ps" using Cons q by (cases qs) (simp_all add: piece_text_def)
  obtain y where y: "joined ?ps = hd x # y" using rp(2) by (cases x; cases qs) (simp_all add: piece_text_def)
  have d1: "drop (offset b + 1) (content b) = u @ joined ?ps @ close # r"
    using drop_add [of "offset b" "content b" "[op]"] d Cons j by simp
  let ?b1 = "b\<lparr>offset := offset b + 1\<rparr>" and ?b2 = "b\<lparr>offset := offset b + 1 + length u\<rparr>"
  let ?b3 = "b\<lparr>offset := offset b + length u\<rparr>"
  have s: "buffer_skip_whitespace ?b1 = Some ?b2"
    using skip_white [OF rp(1,3), of ?b1 "y @ close # r"] C d1 y by simp
  have d2: "drop (offset b + 1 + length u) (content b) = joined ?ps @ close # r" using drop_add [OF d1] .
  have nx: "next_is close ?b2 = Some False"
    using next_is_head [of ?b2 "hd x" "y @ close # r" close] C d2 y first Cons q by simp
  have acc: "can_access_at_index ?b2 0" using d2 y C drop_Cons_less [of "offset b + 1 + length u"]
    by (simp add: can_access_at_index_def content_ok_def)
  have sb: "step_back ?b2 = Some ?b3" by (simp add: step_back_def)
  have "\<exists>h' us. parse_elements pe (first_addr [] NULL) (last_addr NULL []) ?b3 h =
       Some (True, first_addr ([] @ us) NULL, ?b3\<lparr>offset := offset ?b3 + 1 + length (joined ?ps)\<rparr>, h') \<and>
     grown h h' ([] @ us) \<and> list_all2 meets ?ps us \<and> oom h' = []"
    by (rule parse_elements_reads) (use ps Cons q C d2 close n rd o wf in \<open>auto simp: grown_def reads_piece_def add.commute\<close>)
  then obtain h1 us where us: "parse_elements pe NULL NULL ?b3 h =
       Some (True, first_addr us NULL, b\<lparr>offset := offset b + length u + 1 + length (joined ?ps)\<rparr>, h1)"
     "grown h h1 us" "list_all2 meets ?ps us" "oom h1 = []" by auto
  let ?b4 = "b\<lparr>offset := offset b + length u + 1 + length (joined ?ps)\<rparr>"
  have cl: "next_is close ?b4 = Some True"
    using next_is_head [of ?b4 close r close] C drop_add [OF d2] by (simp add: add.commute add.left_commute)
  from us(2) have G: "items_at h1 NULL us NULL" "plain us" "\<forall>q \<in> set (foot us). load q h = None"
    "\<forall>q. q \<notin> set (foot us) \<longrightarrow> load q h1 = load q h" by (simp_all add: grown_def)
  have nf: "item \<notin> set (foot us)" using G(3) i by (auto simp: load_item_Some_iff)
  then have i1: "load_item item h1 = Some i" using G(4) i load_item_cong [of item h1 h] by simp
  let ?i = "i\<lparr>itype := ty, child := first_addr us NULL\<rparr>" and ?n = "item \<noteq> NULL"
  let ?h = "setj item (ItemC ?i) h1"
  have e: "parse_list pe close ty item b h =
      Some (True, b\<lparr>depth := depth b - 1, offset := offset b + 2 + length (joined ps)\<rparr>, ?h)"
    using s nx acc sb us(1) cl upd_item_Some [OF i1] j
    by (simp add: parse_list_def advance_def add.assoc add.commute add.left_commute)
  have U: "items_at ?h NULL us NULL"
    by (rule items_at_cong [THEN iffD2, OF _ G(1)])
      (use nf plain_foot [OF G(2)] load_item_not_NULL [OF i] in \<open>auto simp: load_setj\<close>)
  have li: "load_item item ?h = Some ?i" using load_item_not_NULL [OF i] by (simp add: load_item_setj)
  have "jtype t = ty \<and> jkids t = us" if "jaddr t = item" "items_at ?h (iprev i) [t] (inext i)" for t
    using item_of_tree [OF li that(2,1)] items_at_unique [OF _ U, of NULL "jkids t"] by simp
  with e us(3,4) Cons q show ?thesis by (intro exI [of _ ?h] exI [of _ us]) (simp add: meets_def list_all2_Cons1)
qed

end

end
