(* ===== verification/CNumber.thy ===== *)
theory CNumber
  imports CJsonRender
begin

text \<open>
  Every finite \<open>double\<close> survives being printed by \<open>print_number\<close> and read by \<open>parse_number\<close>: the text
  of 15 significant digits is used only when it reads back as the same number, and 17 significant
  digits always do.
\<close>

subsection \<open>Decimal digits\<close>

definition all_digits :: "byte list \<Rightarrow> bool" where
  "all_digits s \<longleftrightarrow> (\<forall>c \<in> set s. is_digit c)"

lemma all_digits_simps [simp]:
  "all_digits []" "all_digits (c # s) = (is_digit c \<and> all_digits s)" "all_digits (s @ t) = (all_digits s \<and> all_digits t)"
  "all_digits (replicate n 48)" "all_digits (digits_of k n)"
  by (auto simp: all_digits_def is_digit_def dest: digits_of_digit)

lemma digits_val_append: "digits_val a (s @ t) = digits_val (digits_val a s) t"
  by (induction s arbitrary: a) auto

lemma digits_val_acc: "digits_val a s = a * 10 ^ length s + digits_val 0 s"
proof (induction s arbitrary: a)
  case (Cons c s)
  from Cons.IH [of "a * 10 + (unat c - 48)"] Cons.IH [of "unat c - 48"] show ?case
    by (simp add: algebra_simps)
qed simp

lemma digits_val_zeros: "digits_val a (replicate k 48) = a * 10 ^ k"
  by (induction k arbitrary: a) auto

lemma digits_val_digits_of: "digits_val a (digits_of k n) = a * 10 ^ k + n mod 10 ^ k"
proof (induction k arbitrary: a n)
  case (Suc k)
  have "unat (of_nat (48 + n mod 10) :: byte) = 48 + n mod 10" by (rule unat_byte) simp
  then show ?case
    using Suc.IH [of a "n div 10"] by (simp add: digits_val_append algebra_simps mod_mult2_eq)
qed simp

lemma strip_zeros_split: "\<exists>k. s = strip_zeros s @ replicate k 48"
proof -
  have "rev s = takeWhile (\<lambda>c. c = 48) (rev s) @ dropWhile (\<lambda>c. c = 48) (rev s)" by simp
  moreover have "takeWhile (\<lambda>c. c = 48) (rev s) = replicate (length (takeWhile (\<lambda>c. c = 48) (rev s))) 48"
    by (rule replicate_length_same [symmetric]) (auto dest: set_takeWhileD)
  ultimately have "s = strip_zeros s @ rev (replicate (length (takeWhile (\<lambda>c. c = 48) (rev s))) 48)"
    unfolding strip_zeros_def by (metis rev_append rev_rev_ident)
  then show ?thesis by (metis rev_replicate)
qed

lemma pow10_add: "pow10 (a + b) = pow10 a * pow10 b"
  by (cases "0 \<le> a"; cases "0 \<le> b"; cases "0 \<le> a + b")
    (auto simp: pow10_def field_simps nat_add_distrib power_add [symmetric] nat_diff_distrib' simp flip: nat_add_distrib)

lemma pow10_pos [simp]: "0 < pow10 e"
  by (simp add: pow10_def)

lemma pow10_nat: "pow10 (int n) = 10 ^ n"
  by (simp add: pow10_def)

text \<open>Stripping zeros behind the point does not change the value.\<close>

lemma strip_zeros_value:
  "of_nat (digits_val 0 (ip @ strip_zeros fp)) * pow10 (e - int (length (strip_zeros fp))) =
   of_nat (digits_val 0 (ip @ fp)) * pow10 (e - int (length fp))"
proof -
  obtain k where k: "fp = strip_zeros fp @ replicate k 48" using strip_zeros_split by blast
  let ?s = "strip_zeros fp"
  have "digits_val 0 (ip @ fp) = digits_val 0 (ip @ ?s) * 10 ^ k"
    by (subst k) (simp add: digits_val_append digits_val_zeros flip: append_assoc)
  moreover have "pow10 (e - int (length ?s)) = pow10 (e - int (length fp)) * 10 ^ k"
    using pow10_add [of "e - int (length fp)" "int k"] arg_cong [OF k, of length] by (simp add: pow10_nat)
  ultimately show ?thesis by simp
qed

lemma all_digits_strip: "all_digits s \<Longrightarrow> all_digits (strip_zeros s)"
  using strip_zeros_sub(1) [of s] by (auto simp: all_digits_def)

subsection \<open>\<open>strtod\<close> on printed text\<close>

definition exponent_part :: "int \<Rightarrow> byte list \<Rightarrow> bool" where
  "exponent_part e s \<longleftrightarrow> (s = [] \<and> e = 0) \<or> (s = exp_text e \<and> \<bar>e\<bar> < 1000)"

lemma takeWhile_digits:
  "all_digits s \<Longrightarrow> r = [] \<or> \<not> is_digit (hd r) \<Longrightarrow> takeWhile is_digit (s @ r) = s"
  by (cases r) (auto simp: all_digits_def takeWhile_append)

lemma exp_text_head: "\<exists>s. exp_text e = 101 # s"
  by (simp add: exp_text_def Let_def)

lemma scan_exp_part:
  assumes "exponent_part e s"
  shows "scan_exp s = (e, length s)" and "s = [] \<or> hd s = 101"
proof -
  show "scan_exp s = (e, length s)"
  proof (cases "s = []")
    case False
    define n where "n = nat \<bar>e\<bar>"
    define ds where "ds = (if n < 100 then digits_of 2 n else digits_of 3 n)"
    from False assms have s: "s = 101 # (if e < 0 then 45 else 43) # ds" and e: "n < 1000"
      by (auto simp: exponent_part_def exp_text_def Let_def n_def ds_def)
    have "all_digits ds" by (simp add: ds_def)
    then have d: "takeWhile is_digit ds = ds" using takeWhile_digits [of ds "[]"] by simp
    have v: "digits_val 0 ds = n"
    proof (cases "n < 100")
      case True
      then show ?thesis unfolding ds_def digits_val_digits_of if_P [OF True] by simp
    next
      case False
      then show ?thesis using e unfolding ds_def digits_val_digits_of if_not_P [OF False] by simp
    qed
    have "1 < length ds" by (simp add: ds_def)
    then have ne: "ds \<noteq> []" by auto
    have "int n = \<bar>e\<bar>" by (simp add: n_def)
    then show ?thesis using s v ne by (cases "e < 0") (simp_all add: scan_exp_def Let_def d)
  qed (use assms in \<open>auto simp: exponent_part_def scan_exp_def exp_text_def Let_def\<close>)
  show "s = [] \<or> hd s = 101" using assms exp_text_head [of e] by (auto simp: exponent_part_def)
qed

lemma strtod_parts:
  assumes "(s \<noteq> [] \<and> hd s = 45) = neg" and "(if s \<noteq> [] \<and> (hd s = 45 \<or> hd s = 43) then 1 else 0) = sg"
    and "drop sg s = w" and "takeWhile is_digit w = ip" and "drop (length ip) w = r" and "ip \<noteq> []"
  shows "strtod s =
    (let pt = (r \<noteq> [] \<and> hd r = 46); fp = (if pt then takeWhile is_digit (tl r) else []);
         r = (if pt then drop (1 + length fp) r else r); (e, n) = scan_exp r
     in (f64_of_rat neg (of_nat (digits_val 0 (ip @ fp)) * pow10 (e - int (length fp))),
         sg + length ip + (if pt then 1 + length fp else 0) + n))"
  unfolding strtod_def Let_def assms(1-5) using assms(6) by simp

lemma strtod_decimal:
  assumes ip: "all_digits ip" "ip \<noteq> []" and fp: "all_digits fp" and s: "exponent_part e s"
  shows "strtod ((if neg then [45] else []) @ with_point ip fp @ s) =
    (f64_of_rat neg (of_nat (digits_val 0 (ip @ fp)) * pow10 (e - int (length fp))),
     length ((if neg then [45] else []) @ with_point ip fp @ s))"
proof -
  note s' = scan_exp_part [OF s]
  have nd: "\<not> is_digit 46" "\<not> is_digit 101" "\<not> is_digit 45" "\<not> is_digit 43" by (simp_all add: is_digit_def)
  obtain c ip' where c: "ip = c # ip'" "is_digit c" using ip by (cases ip) auto
  have c': "c \<noteq> 45" "c \<noteq> 43" using c nd by auto
  let ?f = "strip_zeros fp" let ?w = "with_point ip fp @ s"
  have f: "all_digits ?f" using all_digits_strip [OF fp] .
  have w: "?w = ip @ (if ?f = [] then s else 46 # ?f @ s)" by (simp add: with_point_def Let_def)
  have 1: "takeWhile is_digit ?w = ip"
    unfolding w by (rule takeWhile_digits [OF ip(1)]) (use s' nd in auto)
  have 2: "takeWhile is_digit (?f @ s) = ?f" by (rule takeWhile_digits [OF f]) (use s' nd in auto)
  have h: "hd ?w = c" "?w \<noteq> []" unfolding w using c by simp_all
  have v: "of_nat (digits_val 0 (ip @ ?f)) * pow10 (e - int (length ?f)) =
      of_nat (digits_val 0 (ip @ fp)) * pow10 (e - int (length fp))" by (rule strip_zeros_value)
  define x where "x = (if neg then [45] else []) @ ?w"
  have sg: "(x \<noteq> [] \<and> hd x = 45) = neg" "(if x \<noteq> [] \<and> (hd x = 45 \<or> hd x = 43) then 1 else 0) = (if neg then 1 else 0 :: nat)"
    "drop (if neg then 1 else 0) x = ?w"
    using h c' by (auto simp: x_def)
  have dr: "drop (length ip) ?w = (if ?f = [] then s else 46 # ?f @ s)" unfolding w by simp
  have lx: "length x = (if neg then 1 else 0) + length ip + (if ?f = [] then 0 else 1 + length ?f) + length s"
    by (simp add: x_def w)
  note st = strtod_parts [OF sg 1 dr ip(2)]
  have "strtod x = (f64_of_rat neg (of_nat (digits_val 0 (ip @ fp)) * pow10 (e - int (length fp))), length x)"
  proof (cases "?f = []")
    case True
    have "(s \<noteq> [] \<and> hd s = 46) = False" using s'(2) by auto
    with True show ?thesis unfolding st using v s'(1) lx by (cases s) (auto simp: Let_def)
  next
    case False
    then show ?thesis unfolding st using v s'(1) 2 lx by (simp add: Let_def)
  qed
  then show ?thesis by (simp add: x_def)
qed

lemma fmt_abs_strtod:
  assumes sd: "sig_digits p q = (ds, x)" and p: "0 < p" and x: "\<bar>x\<bar> < 1000"
  shows "strtod ((if neg then [45] else []) @ fmt_abs p q) =
    (f64_of_rat neg (of_nat (digits_val 0 ds) * pow10 (x - (int p - 1))),
     length ((if neg then [45] else []) @ fmt_abs p q))"
proof -
  have l: "length ds = p" by (rule sig_digits_props(1) [OF sd])
  have d: "all_digits ds" using sd by (auto simp: sig_digits_def Let_def split: if_splits)
  have td: "all_digits (take n ds)" "all_digits (drop n ds)" for n
    using d by (auto simp: all_digits_def dest: in_set_takeD in_set_dropD)
  consider (exp) "x < -4 \<or> int p \<le> x" | (small) "-4 \<le> x" "x < 0" | (plain) "0 \<le> x" "x < int p" by linarith
  then show ?thesis
  proof cases
    case exp
    have f: "fmt_abs p q = with_point (take 1 ds) (drop 1 ds) @ exp_text x" using exp by (simp add: fmt_abs_def sd)
    have e: "x - int (length (drop 1 ds)) = x - (int p - 1)" using l p by simp
    have "take 1 ds \<noteq> []" "exponent_part x (exp_text x)" using l p x by (auto simp: exponent_part_def)
    from strtod_decimal [OF td(1) this(1) td(2) this(2), of neg 1, unfolded e append_take_drop_id] show ?thesis
      by (simp only: f append.assoc)
  next
    case small
    let ?z = "replicate (nat (- x) - 1) 48 @ ds"
    have f: "fmt_abs p q = with_point [48] ?z @ []" using small by (simp add: fmt_abs_def sd)
    have e: "0 - int (length ?z) = x - (int p - 1)" using small l by simp
    have v: "digits_val 0 ([48] @ ?z) = digits_val 0 ds" by (simp add: digits_val_append digits_val_zeros)
    have "all_digits [48]" "[48] \<noteq> ([] :: byte list)" "all_digits ?z" "exponent_part 0 []"
      using d by (simp_all add: is_digit_def exponent_part_def)
    from strtod_decimal [OF this, of neg, unfolded e v] show ?thesis by (simp only: f)
  next
    case plain
    let ?n = "nat x + 1"
    have f: "fmt_abs p q = with_point (take ?n ds) (drop ?n ds) @ []" using plain by (simp add: fmt_abs_def sd)
    have e: "0 - int (length (drop ?n ds)) = x - (int p - 1)" using plain l by simp
    have "take ?n ds \<noteq> []" "exponent_part 0 []" using l p by (auto simp: exponent_part_def)
    from strtod_decimal [OF td(1) this(1) td(2) this(2), of neg ?n, unfolded e append_take_drop_id] show ?thesis
      by (simp only: f)
  qed
qed

subsection \<open>Rounding to the nearest double\<close>

lemma round_even_near:
  assumes "\<bar>q - of_nat n\<bar> < 1 / 2" and "0 \<le> q"
  shows "round_even q = n"
proof (cases "of_nat n \<le> q")
  case True
  then have "\<lfloor>q\<rfloor> = int n" using assms by (simp add: floor_eq_iff abs_less_iff)
  then show ?thesis using True assms by (simp add: round_even_def Let_def)
next
  case False
  then have n: "0 < n" using assms by (cases n) auto
  then have "\<lfloor>q\<rfloor> = int n - 1" using False assms by (simp add: floor_eq_iff abs_less_iff of_nat_diff)
  then have "nat \<lfloor>q\<rfloor> = n - 1" by simp
  then show ?thesis using False assms n by (simp add: round_even_def Let_def of_nat_diff abs_less_iff)
qed

lemma find_exp_eq:
  "q < 2 ^ (53 + e) \<Longrightarrow> e0 \<le> e \<Longrightarrow> e \<le> e0 + k \<Longrightarrow> e = e0 \<or> 2 ^ (52 + e) \<le> q \<Longrightarrow> find_exp k e0 q = e"
proof (induction k arbitrary: e0)
  case (Suc k)
  show ?case
  proof (cases "e = e0")
    case False
    with Suc.prems have "2 ^ (53 + e0) \<le> (2 ^ (52 + e) :: rat)" "2 ^ (52 + e) \<le> q"
      by (auto intro!: power_increasing)
    then have "\<not> q < 2 ^ (53 + e0)" by linarith
    then show ?thesis using Suc.IH [of "Suc e0"] Suc.prems False by simp
  qed (use Suc.prems in simp)
qed simp

text \<open>A finite double as \<open>M * 2 ^ e / 2 ^ 1074\<close>, and its bits.\<close>

definition f64_mant :: "f64 \<Rightarrow> nat" where
  "f64_mant d = (if f64_exp d = 0 then f64_frac d else 2 ^ 52 + f64_frac d)"

definition f64_scale :: "f64 \<Rightarrow> nat" where
  "f64_scale d = f64_exp d - 1"

lemma f64_field_bounds: "f64_exp d < 2 ^ 11" "f64_frac d < 2 ^ 52"
proof -
  have m: "(0x7FF :: 64 word) = mask 11" "(0xFFFFFFFFFFFFF :: 64 word) = mask 52"
    by (simp_all add: mask_eq_exp_minus_1)
  have "unat (take_bit 11 (drop_bit 52 d)) < 2 ^ 11" "unat (take_bit 52 d) < 2 ^ 52"
    by (simp_all only: unsigned_take_bit_eq take_bit_nat_less_exp)
  then show "f64_exp d < 2 ^ 11" "f64_frac d < 2 ^ 52"
    unfolding f64_exp_def f64_frac_def m by (simp_all only: take_bit_eq_mask)
qed

lemma f64_abs_mant: "f64_abs d * 2 ^ 1074 = of_nat (f64_mant d) * 2 ^ f64_scale d"
  by (simp add: f64_abs_def f64_mant_def f64_scale_def)

lemma f64_bits: "f64_mant d + f64_scale d * 2 ^ 52 = f64_frac d + f64_exp d * 2 ^ 52"
  by (cases "f64_exp d") (simp_all add: f64_mant_def f64_scale_def)

lemma f64_rebuild: "of_nat (f64_frac d + f64_exp d * 2 ^ 52) OR (if f64_sign d then push_bit 63 1 else 0) = d"
proof -
  have m: "(0x7FF :: 64 word) = mask 11" "(0xFFFFFFFFFFFFF :: 64 word) = mask 52"
    by (simp_all add: mask_eq_exp_minus_1)
  have f: "of_nat (f64_frac d) = take_bit 52 d" "of_nat (f64_exp d) = take_bit 11 (drop_bit 52 d)"
    unfolding f64_frac_def f64_exp_def m by (simp_all only: take_bit_eq_mask of_nat_unat ucast_id)
  have "f64_frac d + f64_exp d * 2 ^ 52 = push_bit 52 (f64_exp d) OR f64_frac d"
    using add_eq_or [OF f64_field_bounds(2), of "f64_exp d" d] by (simp add: push_bit_eq_mult)
  then have "of_nat (f64_frac d + f64_exp d * 2 ^ 52) = push_bit 52 (take_bit 11 (drop_bit 52 d)) OR take_bit 52 d"
    by (simp add: of_nat_or_eq f flip: push_bit_of_nat)
  moreover have "bit (if f64_sign d then push_bit 63 1 else 0 :: 64 word) n = (n = 63 \<and> bit d 63)" if "n < 64" for n
    using that bit_push_bit_iff [of 63 "1 :: 64 word" n] by (auto simp: f64_sign_def bit_1_iff simp del: push_bit_of_1)
  moreover have "(n - 52 < 11) = (n \<noteq> 63)" if "52 \<le> n" "n < 64" for n :: nat using that by auto
  ultimately show ?thesis
    by (intro bit_word_eqI) (auto simp: bit_or_iff bit_push_bit_iff bit_take_bit_iff bit_drop_bit_eq not_less)
qed

lemma f64_of_rat_bits:
  assumes "find_exp 2046 0 (q * 2 ^ 1074) = e" and "round_even (q * 2 ^ 1074 / 2 ^ e) = m"
    and "m + e * 2 ^ 52 = f64_frac d + f64_exp d * 2 ^ 52" and "f64_exp d < 2047"
  shows "f64_of_rat (f64_sign d) q = d"
proof -
  have "f64_frac d + f64_exp d * 2 ^ 52 \<le> 2047 * 2 ^ 52" using f64_field_bounds(2) [of d] assms(4) by simp
  then have "min (m + e * 2 ^ 52) (2047 * 2 ^ 52) = f64_frac d + f64_exp d * 2 ^ 52" using assms(3) by simp
  then show ?thesis using f64_rebuild [of d] by (simp only: f64_of_rat_def Let_def assms(1,2))
qed

lemma f64_mant_bounds: "f64_mant d < 2 ^ 53" "0 < f64_scale d \<Longrightarrow> 2 ^ 52 \<le> f64_mant d"
  using f64_field_bounds(2) [of d] by (auto simp: f64_mant_def f64_scale_def)

text \<open>
  A rational closer than half a unit in the last place is converted to the double; below a power of
  two the units are half as large.
\<close>

lemma f64_of_rat_near:
  assumes fin: "f64_exp d < 2047" and q: "0 \<le> q"
    and near: "\<bar>q * 2 ^ 1074 - of_nat (f64_mant d) * 2 ^ f64_scale d\<bar> < 2 ^ f64_scale d / 2"
    and low: "f64_mant d = 2 ^ 52 \<Longrightarrow> \<bar>q * 2 ^ 1074 - of_nat (f64_mant d) * 2 ^ f64_scale d\<bar> < 2 ^ f64_scale d / 4"
  shows "f64_of_rat (f64_sign d) q = d"
proof -
  define Q where "Q = q * 2 ^ 1074"
  define M where "M = f64_mant d"
  define e where "e = f64_scale d"
  have M: "M < 2 ^ 53" "0 < e \<Longrightarrow> 2 ^ 52 \<le> M" using f64_mant_bounds [of d] by (simp_all add: M_def e_def)
  have e: "e \<le> 2046" using fin by (simp add: e_def f64_scale_def)
  have Q: "0 \<le> Q" "\<bar>Q - of_nat M * 2 ^ e\<bar> < 2 ^ e / 2" "M = 2 ^ 52 \<Longrightarrow> \<bar>Q - of_nat M * 2 ^ e\<bar> < 2 ^ e / 4"
    using q near low by (simp_all add: Q_def M_def e_def)
  have p: "(0 :: rat) < 2 ^ e" by simp
  have "of_nat M + 1 \<le> (2 ^ 53 :: rat)"
  proof -
    have "M + 1 \<le> 2 ^ 53" using M(1) by simp
    then have "(of_nat (M + 1) :: rat) \<le> of_nat (2 ^ 53)" by (rule of_nat_mono)
    then show ?thesis by simp
  qed
  then have "(of_nat M + 1) * 2 ^ e \<le> (2 ^ 53 :: rat) * 2 ^ e" by (rule mult_right_mono) simp
  then have up: "of_nat M * 2 ^ e + 2 ^ e \<le> (2 ^ (53 + e) :: rat)" by (simp add: distrib_right power_add)
  have bits: "M + e * 2 ^ 52 = f64_frac d + f64_exp d * 2 ^ 52" using f64_bits [of d] by (simp add: M_def e_def)
  show ?thesis
  proof (cases "e = 0 \<or> 2 ^ (52 + e) \<le> Q")
    case True
    have "Q < 2 ^ (53 + e)" using up Q(2) p unfolding abs_less_iff by linarith
    then have f: "find_exp 2046 0 Q = e" using True e by (intro find_exp_eq) auto
    have "\<bar>Q / 2 ^ e - of_nat M\<bar> < 1 / 2"
      using Q(2) by (simp add: abs_less_iff field_simps)
    then have "round_even (Q / 2 ^ e) = M" by (rule round_even_near) (use Q(1) in simp)
    with f bits show ?thesis using fin by (intro f64_of_rat_bits [where e = e and m = M]) (simp_all add: Q_def)
  next
    case False
    then have e0: "0 < e" and lt: "Q < 2 ^ (52 + e)" by auto
    have "M = 2 ^ 52"
    proof (rule ccontr)
      assume "M \<noteq> 2 ^ 52"
      with M(2) [OF e0] have "2 ^ 52 + 1 \<le> M" by simp
      then have "(of_nat (2 ^ 52 + 1) :: rat) \<le> of_nat M" by (rule of_nat_mono)
      then have "(2 ^ 52 + 1) * 2 ^ e \<le> (of_nat M :: rat) * 2 ^ e" by (intro mult_right_mono) simp_all
      then have "2 ^ (52 + e) + 2 ^ e \<le> (of_nat M :: rat) * 2 ^ e" by (simp add: distrib_right power_add)
      with Q(2) lt p show False unfolding abs_less_iff by linarith
    qed
    obtain k where k: "e = Suc k" using e0 by (cases e) auto
    have near': "\<bar>Q - 2 ^ (52 + e)\<bar> < 2 ^ e / 4" using Q(3) \<open>M = 2 ^ 52\<close> by (simp add: power_add)
    have "(2 ^ e :: rat) / 4 \<le> 2 ^ (52 + k)" by (simp add: k power_add)
    then have "2 ^ (52 + k) \<le> Q" using near' unfolding abs_less_iff by (simp add: k power_add)
    then have f: "find_exp 2046 0 Q = k" using lt e k by (intro find_exp_eq) auto
    have "\<bar>Q / 2 ^ k - of_nat (2 ^ 53)\<bar> < 1 / 2"
      using near' by (simp add: abs_less_iff k field_simps power_add)
    then have "round_even (Q / 2 ^ k) = 2 ^ 53" by (rule round_even_near) (use Q(1) in simp)
    moreover have "2 ^ 53 + k * 2 ^ 52 = f64_frac d + f64_exp d * 2 ^ 52" using bits \<open>M = 2 ^ 52\<close> k by simp
    ultimately show ?thesis using f fin by (intro f64_of_rat_bits [where e = k and m = "2 ^ 53"]) (simp_all add: Q_def)
  qed
qed

subsection \<open>Significant digits\<close>

lemma round_even_error:
  assumes "0 \<le> q"
  shows "\<bar>of_nat (round_even q) - q\<bar> \<le> 1 / 2" and "q < of_nat n \<Longrightarrow> round_even q \<le> n" and "of_nat n \<le> q \<Longrightarrow> n \<le> round_even q"
proof -
  define f where "f = nat \<lfloor>q\<rfloor>"
  have f: "of_nat f \<le> q" "q < of_nat f + 1" using assms floor_correct [of q] by (simp_all add: f_def of_nat_nat)
  have r: "round_even q = (if q - of_nat f < 1 / 2 \<or> (q - of_nat f = 1 / 2 \<and> even f) then f else f + 1)"
    by (simp only: round_even_def Let_def f_def)
  show "\<bar>of_nat (round_even q) - q\<bar> \<le> 1 / 2" using f by (auto simp: r abs_le_iff)
  have rf: "f \<le> round_even q" "round_even q \<le> f + 1" by (auto simp: r)
  show "round_even q \<le> n" if "q < of_nat n"
  proof -
    have "(of_nat f :: rat) < of_nat n" using f that by linarith
    then show ?thesis using rf by simp
  qed
  show "n \<le> round_even q" if "of_nat n \<le> q"
  proof -
    have "(of_nat n :: rat) < of_nat (f + 1)" using f that by simp
    then have "n < f + 1" by (simp only: of_nat_less_iff)
    then show ?thesis using rf by simp
  qed
qed

lemma find_exp10_spec:
  "pow10 (e - int k) \<le> q \<Longrightarrow> q < pow10 (e + 1) \<Longrightarrow>
   pow10 (find_exp10 k e q) \<le> q \<and> q < pow10 (find_exp10 k e q + 1) \<and> e - int k \<le> find_exp10 k e q \<and> find_exp10 k e q \<le> e"
proof (induction k arbitrary: e)
  case (Suc k)
  show ?case
  proof (cases "pow10 e \<le> q")
    case False
    with Suc.prems Suc.IH [of "e - 1"] show ?thesis by (simp add: algebra_simps)
  qed (use Suc.prems in simp)
qed simp

lemma abs_diff_mult: "0 \<le> c \<Longrightarrow> \<bar>a - b\<bar> * c = \<bar>a * c - b * c\<bar>" for a b c :: rat
  by (simp add: left_diff_distrib [symmetric] abs_mult)

lemma sig_digits_value:
  assumes sd: "sig_digits p q = (ds, x)" and p: "0 < p" and lo: "pow10 (-380) \<le> q" and hi: "q < pow10 321"
  shows "\<bar>x\<bar> < 1000" and "\<bar>of_nat (digits_val 0 ds) * pow10 (x - (int p - 1)) - q\<bar> \<le> q / (2 * 10 ^ (p - 1))"
proof -
  define y where "y = find_exp10 700 320 q"
  define r where "r = q * pow10 (int p - 1 - y)"
  define m where "m = round_even r"
  have y: "pow10 y \<le> q" "q < pow10 (y + 1)" "-380 \<le> y" "y \<le> 320"
    using find_exp10_spec [of 320 700 q] lo hi by (simp_all add: y_def)
  have s: "(ds, x) = (if 10 ^ p \<le> m then (digits_of p (10 ^ (p - 1)), y + 1) else (digits_of p m, y))"
    using sd [symmetric] by (simp only: sig_digits_def Let_def y_def r_def m_def)
  show "\<bar>x\<bar> < 1000" using s y by (auto split: if_splits)
  have P: "pow10 y * pow10 (int p - 1 - y) = 10 ^ (p - 1)" "pow10 (y + 1) * pow10 (int p - 1 - y) = 10 ^ p"
    using p by (simp_all add: pow10_add [symmetric] pow10_nat [symmetric] of_nat_diff)
  have r: "10 ^ (p - 1) \<le> r" "r < 10 ^ p"
    using mult_right_mono [OF y(1), of "pow10 (int p - 1 - y)"] mult_strict_right_mono [OF y(2), of "pow10 (int p - 1 - y)"] P
    by (simp_all add: r_def less_imp_le)
  have r0: "0 \<le> r" using order_trans [OF _ r(1)] by simp
  have m: "\<bar>of_nat m - r\<bar> \<le> 1 / 2" "m \<le> 10 ^ p"
    using round_even_error [OF r0] r(2) by (simp_all add: m_def)
  define z where "z = pow10 (y - (int p - 1))"
  have z: "r * z = q" "0 < z" "pow10 y = 10 ^ (p - 1) * z"
  proof -
    have "pow10 (int p - 1 - y) * z = 1" by (simp add: z_def pow10_add [symmetric]) (simp add: pow10_def)
    then show "r * z = q" by (simp add: r_def mult.assoc)
    have "10 ^ (p - 1) = pow10 (int p - 1)" using p by (simp add: pow10_nat [symmetric] of_nat_diff)
    then show "pow10 y = 10 ^ (p - 1) * z" by (simp add: z_def pow10_add [symmetric])
  qed (simp add: z_def)
  have v: "of_nat (digits_val 0 ds) * pow10 (x - (int p - 1)) = of_nat m * z"
  proof (cases "10 ^ p \<le> m")
    case True
    then have "m = 10 ^ p" using m(2) by simp
    moreover have "ds = digits_of p (10 ^ (p - 1))" "x = y + 1" using s True by auto
    moreover have "digits_val 0 (digits_of p (10 ^ (p - 1))) = 10 ^ (p - 1)" using p by (simp add: digits_val_digits_of)
    moreover have "pow10 (y + 1 - (int p - 1)) = 10 * z"
      using pow10_add [of 1 "y - (int p - 1)"] by (simp add: z_def pow10_def [of 1] algebra_simps)
    moreover have "(10 :: rat) ^ p = 10 * 10 ^ (p - 1)" using p by (cases p) auto
    ultimately show ?thesis by simp
  next
    case False
    then have "ds = digits_of p m" "x = y" "digits_val 0 (digits_of p m) = m" using s by (auto simp: digits_val_digits_of)
    then show ?thesis by (simp add: z_def)
  qed
  have "\<bar>of_nat m * z - q\<bar> = \<bar>of_nat m - r\<bar> * z"
    using abs_diff_mult [of z "of_nat m" r] z(1,2) by simp
  also have "\<dots> \<le> 1 / 2 * z" using m(1) z(2) by (intro mult_right_mono) simp_all
  also have "\<dots> \<le> q / (2 * 10 ^ (p - 1))" using y(1) z(3) by (simp add: field_simps)
  finally show "\<bar>of_nat (digits_val 0 ds) * pow10 (x - (int p - 1)) - q\<bar> \<le> q / (2 * 10 ^ (p - 1))" by (simp only: v)
qed

subsection \<open>Finite numbers survive\<close>

definition f64_finite :: "f64 \<Rightarrow> bool" where
  "f64_finite d \<longleftrightarrow> f64_exp d < 2047"

lemma f64_finite_iff: "f64_finite d = (\<not> f64_times_0_ne_0 d)"
  using f64_field_bounds(1) [of d] by (auto simp: f64_finite_def f64_times_0_ne_0_def f64_nan_def f64_inf_def)

lemma f64_of_rat_abs: "f64_finite d \<Longrightarrow> f64_of_rat (f64_sign d) (f64_abs d) = d"
  using f64_of_rat_near [of d "f64_abs d"] f64_abs_mant [of d] by (simp add: f64_finite_def f64_abs_def)

lemma f64_abs_range:
  assumes "f64_finite d" and "f64_abs d \<noteq> 0"
  shows "pow10 (-380) \<le> f64_abs d" and "f64_abs d < pow10 321"
proof -
  have e: "f64_scale d \<le> 2045" using assms(1) by (simp add: f64_finite_def f64_scale_def)
  have M: "f64_mant d < 2 ^ 53" by (rule f64_mant_bounds)
  have "f64_mant d \<noteq> 0"
  proof
    assume "f64_mant d = 0"
    then have "f64_abs d * 2 ^ 1074 = 0" by (simp only: f64_abs_mant)
    with assms(2) show False by simp
  qed
  then have "(1 :: rat) \<le> of_nat (f64_mant d)" by simp
  then have "(1 :: rat) * 1 \<le> of_nat (f64_mant d) * 2 ^ f64_scale d" by (intro mult_mono) simp_all
  then have "1 \<le> f64_abs d * 2 ^ 1074" by (simp only: f64_abs_mant mult_1)
  then have "1 / 2 ^ 1074 \<le> f64_abs d" by (simp add: divide_le_eq)
  moreover have "pow10 (-380) \<le> 1 / 2 ^ 1074" by (simp add: pow10_def)
  ultimately show "pow10 (-380) \<le> f64_abs d" by (rule order_trans [rotated])
  have "(of_nat (f64_mant d) :: rat) < of_nat (2 ^ 53)" using M by (rule of_nat_less_iff [THEN iffD2])
  then have "(of_nat (f64_mant d) :: rat) * 2 ^ f64_scale d < 2 ^ 53 * 2 ^ f64_scale d" by simp
  also have "(2 :: rat) ^ 53 * 2 ^ f64_scale d \<le> 2 ^ 53 * 2 ^ 2045" using e by (intro mult_left_mono power_increasing) simp_all
  finally have "f64_abs d * 2 ^ 1074 < 2 ^ 53 * 2 ^ 2045" by (simp only: f64_abs_mant)
  then have "f64_abs d < 2 ^ 53 * 2 ^ 2045 / 2 ^ 1074" by (simp add: less_divide_eq)
  also have "\<dots> < pow10 321" by (simp add: pow10_def)
  finally show "f64_abs d < pow10 321" .
qed

lemma f64_of_rat_sig_17:
  assumes fin: "f64_finite d" and nz: "f64_abs d \<noteq> 0" and sd: "sig_digits 17 (f64_abs d) = (ds, x)"
  shows "f64_of_rat (f64_sign d) (of_nat (digits_val 0 ds) * pow10 (x - 16)) = d"
proof -
  define v where "v = of_nat (digits_val 0 ds) * pow10 (x - 16)"
  define V where "V = (of_nat (f64_mant d) :: rat) * 2 ^ f64_scale d"
  have "\<bar>v - f64_abs d\<bar> \<le> f64_abs d / (2 * 10 ^ 16)"
    using sig_digits_value(2) [OF sd _ f64_abs_range [OF fin nz]] by (simp add: v_def)
  then have "\<bar>v - f64_abs d\<bar> * 2 ^ 1074 \<le> f64_abs d / (2 * 10 ^ 16) * 2 ^ 1074" by (rule mult_right_mono) simp
  moreover have "\<bar>v - f64_abs d\<bar> * 2 ^ 1074 = \<bar>v * 2 ^ 1074 - f64_abs d * 2 ^ 1074\<bar>"
    by (rule abs_diff_mult) simp
  moreover have "f64_abs d / (2 * 10 ^ 16) * 2 ^ 1074 = f64_abs d * 2 ^ 1074 / (2 * 10 ^ 16)" by (rule times_divide_eq_left)
  ultimately have err: "\<bar>v * 2 ^ 1074 - V\<bar> \<le> V / (2 * 10 ^ 16)" by (simp only: f64_abs_mant V_def)
  define S where "S = (2 :: rat) ^ f64_scale d"
  define w where "w = \<bar>v * 2 ^ 1074 - V\<bar>"
  have S: "0 < S" by (simp add: S_def)
  have "w \<le> V / 20000000000000000" using err by (simp add: w_def)
  then have err': "w * 20000000000000000 \<le> V" by (simp add: field_simps)
  have "(of_nat (f64_mant d) :: rat) \<le> of_nat (2 ^ 53)" using f64_mant_bounds(1) [of d] by (intro of_nat_mono) simp
  then have "V \<le> of_nat (2 ^ 53) * S" unfolding V_def S_def by (rule mult_right_mono) simp
  then have "V \<le> 9007199254740992 * S" by simp
  with err' S have "w < S / 2" by linarith
  then have near: "\<bar>v * 2 ^ 1074 - V\<bar> < 2 ^ f64_scale d / 2" by (simp only: w_def S_def)
  have low: "\<bar>v * 2 ^ 1074 - V\<bar> < 2 ^ f64_scale d / 4" if "f64_mant d = 2 ^ 52"
  proof -
    have "V = of_nat (2 ^ 52) * S" by (simp only: V_def S_def that)
    then have "V = 4503599627370496 * S" by simp
    with err' S have "w < S / 4" by linarith
    then show ?thesis by (simp only: w_def S_def)
  qed
  have "0 \<le> v" by (simp add: v_def less_imp_le)
  from f64_of_rat_near [OF _ this near [unfolded V_def] low [unfolded V_def]] fin show ?thesis
    by (simp add: v_def f64_finite_def)
qed

lemma strtod_fmt_g:
  assumes fin: "f64_finite d" and nz: "f64_abs d \<noteq> 0" and sd: "sig_digits p (f64_abs d) = (ds, x)" and p: "0 < p"
  shows "strtod (fmt_g p d) =
    (f64_of_rat (f64_sign d) (of_nat (digits_val 0 ds) * pow10 (x - (int p - 1))), length (fmt_g p d))"
proof -
  have f: "fmt_g p d = (if f64_sign d then [45] else []) @ fmt_abs p (f64_abs d)"
    using fin nz by (simp add: fmt_g_def f64_finite_iff f64_times_0_ne_0_def)
  have "\<bar>x\<bar> < 1000" by (rule sig_digits_value(1) [OF sd p f64_abs_range [OF fin nz]])
  from fmt_abs_strtod [OF sd p this] show ?thesis by (simp only: f)
qed

lemma f64_eq_bits:
  assumes fin: "f64_finite d" and nz: "f64_abs d \<noteq> 0" and e: "f64_eq a d"
  shows "a = d"
proof (cases "f64_inf a")
  case True
  then show ?thesis using e by (simp add: f64_eq_def)
next
  case False
  then have a: "f64_finite a" using e by (simp add: f64_eq_def f64_finite_iff f64_times_0_ne_0_def)
  have "\<not> f64_inf d" using fin by (simp add: f64_finite_iff f64_times_0_ne_0_def)
  with e False have v: "f64_val a = f64_val d" by (simp add: f64_eq_def)
  have "0 \<le> f64_abs a" "0 \<le> f64_abs d" by (simp_all add: f64_abs_def)
  with v nz have "f64_sign a = f64_sign d" "f64_abs a = f64_abs d"
    by (auto simp: f64_val_def split: if_splits)
  then have "f64_of_rat (f64_sign a) (f64_abs a) = f64_of_rat (f64_sign d) (f64_abs d)" by (simp only:)
  then show ?thesis unfolding f64_of_rat_abs [OF a] f64_of_rat_abs [OF fin] .
qed

lemma number_text_reads_back:
  assumes fin: "f64_finite d"
  shows "strtod (number_text d) = (d, length (number_text d))"
proof (cases "f64_abs d = 0")
  case True
  let ?t = "(if f64_sign d then [45] else []) @ with_point [48] [] @ []"
  have w: "with_point [48] [] = [48]" by (simp add: with_point_def strip_zeros_def)
  have t: "fmt_g p d = ?t" for p
    using fin True by (simp add: fmt_g_def w f64_finite_iff f64_times_0_ne_0_def)
  have "strtod ?t = (f64_of_rat (f64_sign d) 0, length ?t)"
    using strtod_decimal [of "[48]" "[]" 0 "[]" "f64_sign d"] by (simp add: is_digit_def exponent_part_def)
  moreover have "f64_of_rat (f64_sign d) 0 = d" using f64_of_rat_abs [OF fin] True by simp
  ultimately have s: "strtod (fmt_g p d) = (d, length (fmt_g p d))" for p by (simp only: t)
  have "number_text d = fmt_g 15 d \<or> number_text d = fmt_g 17 d"
    using fin by (auto simp: number_text_def f64_finite_iff Let_def split: prod.splits)
  with s show ?thesis by metis
next
  case False
  obtain ds x where s17: "sig_digits 17 (f64_abs d) = (ds, x)" by fastforce
  obtain ds' x' where s15: "sig_digits 15 (f64_abs d) = (ds', x')" by fastforce
  define test where "test = f64_of_rat (f64_sign d) (of_nat (digits_val 0 ds') * pow10 (x' - (int 15 - 1)))"
  have t15: "strtod (fmt_g 15 d) = (test, length (fmt_g 15 d))"
    using strtod_fmt_g [OF fin False s15] by (simp add: test_def)
  have t17: "strtod (fmt_g 17 d) = (d, length (fmt_g 17 d))"
    using strtod_fmt_g [OF fin False s17] f64_of_rat_sig_17 [OF fin False s17] by simp
  have n: "number_text d = (if length (fmt_g 15 d) = 0 \<or> \<not> f64_eq test d then fmt_g 17 d else fmt_g 15 d)"
    using fin by (simp add: number_text_def f64_finite_iff t15 Let_def)
  show ?thesis
  proof (cases "length (fmt_g 15 d) = 0 \<or> \<not> f64_eq test d")
    case True
    then have "number_text d = fmt_g 17 d" unfolding n by (rule if_P)
    with t17 show ?thesis by simp
  next
    case False
    then have "test = d" using f64_eq_bits [OF fin \<open>f64_abs d \<noteq> 0\<close>] by blast
    moreover have "number_text d = fmt_g 15 d" unfolding n using False by (rule if_not_P)
    ultimately show ?thesis using t15 by simp
  qed
qed

end
