(* ===== verification/CJsonRoundTrip.thy ===== *)
theory CJsonRoundTrip
  imports CJsonReads CNumber
begin

text \<open>
  Parsing the text of a value gives an item that stands for that value.  The texts of arrays and
  objects are lists of pieces in the sense of the contract of the list loop; the proof is one
  induction on the value.
\<close>

subsection \<open>Values the text determines\<close>

text \<open>Numbers have to be finite (the printer writes \<open>null\<close> for the others) and strings are C strings.\<close>

fun good :: "json \<Rightarrow> bool"
  and good_elements :: "json list \<Rightarrow> bool"
  and good_members :: "(byte list \<times> json) list \<Rightarrow> bool" where
  "good JNull = True"
| "good JFalse = True"
| "good JTrue = True"
| "good (JNum x) = f64_finite x"
| "good (JStr s) = (0 \<notin> set s)"
| "good (JArr js) = good_elements js"
| "good (JObj ms) = good_members ms"
| "good_elements [] = True"
| "good_elements (j # js) = (good j \<and> good_elements js)"
| "good_members [] = True"
| "good_members ((k, j) # ms) = (0 \<notin> set k \<and> good j \<and> good_members ms)"

fun nest :: "json \<Rightarrow> nat"
  and nest_elements :: "json list \<Rightarrow> nat"
  and nest_members :: "(byte list \<times> json) list \<Rightarrow> nat" where
  "nest JNull = 0"
| "nest JFalse = 0"
| "nest JTrue = 0"
| "nest (JNum x) = 0"
| "nest (JStr s) = 0"
| "nest (JArr js) = Suc (nest_elements js)"
| "nest (JObj ms) = Suc (nest_members ms)"
| "nest_elements [] = 0"
| "nest_elements (j # js) = max (nest j) (nest_elements js)"
| "nest_members [] = 0"
| "nest_members ((k, j) # ms) = max (nest j) (nest_members ms)"

subsection \<open>Texts as pieces\<close>

fun element_pieces :: "bool \<Rightarrow> nat \<Rightarrow> byte list \<Rightarrow> json list \<Rightarrow> piece list" where
  "element_pieces fmt d u [] = []"
| "element_pieces fmt d u (j # js) =
     (u, json_text fmt d j, [], \<lambda>t. json_of t = Some j) # element_pieces fmt d (tl (comma fmt)) js"

lemma joined_elements: "joined (element_pieces fmt d u js) = (if js = [] then [] else u @ elements_text fmt d js)"
proof (induction js arbitrary: u)
  case (Cons j js)
  then show ?case by (cases js) (auto simp: piece_text_def comma_def)
qed simp

lemma meets_elements: "list_all2 meets (element_pieces fmt d u js) ts \<Longrightarrow> elements_of ts = Some js"
  by (induction js arbitrary: u ts) (auto simp: list_all2_Cons1 meets_def)

definition member_text :: "bool \<Rightarrow> nat \<Rightarrow> byte list \<Rightarrow> json \<Rightarrow> byte list" where
  "member_text fmt d k j = quote k @ colon fmt @ json_text fmt d j"

fun member_pieces :: "bool \<Rightarrow> nat \<Rightarrow> byte list \<Rightarrow> (byte list \<times> json) list \<Rightarrow> piece list" where
  "member_pieces fmt d e [] = []"
| "member_pieces fmt d e ((k, j) # ms) =
     (newline fmt @ tabs fmt d, member_text fmt d k j, if ms = [] then newline fmt @ e else [],
      \<lambda>t. json_of t = Some j \<and> str_of (jkey t) = k) # member_pieces fmt d e ms"

lemma joined_members:
  "ms \<noteq> [] \<Longrightarrow> joined (member_pieces fmt d e ms) = newline fmt @ members_text fmt d ms @ e"
proof (induction ms)
  case (Cons m ms)
  obtain k j where m: "m = (k, j)" by (cases m)
  show ?case
  proof (cases ms)
    case Nil
    then show ?thesis using m by (simp add: piece_text_def member_text_def)
  next
    case (Cons m' ms')
    obtain k' j' where m': "m' = (k', j')" by (cases m')
    from Cons.IH show ?thesis using m m' \<open>ms = m' # ms'\<close> by (simp add: piece_text_def member_text_def)
  qed
qed simp

lemma meets_members: "list_all2 meets (member_pieces fmt d e ms) ts \<Longrightarrow> members_of ts = Some ms"
  by (induction ms arbitrary: ts) (auto simp: list_all2_Cons1 meets_def)

subsection \<open>How texts begin\<close>

lemma fmt_abs_head:
  assumes "0 < p"
  shows "fmt_abs p q \<noteq> [] \<and> is_digit (hd (fmt_abs p q))"
proof -
  obtain ds x where s: "sig_digits p q = (ds, x)" by fastforce
  have l: "length ds = p" using sig_digits_props(1) [OF s] .
  have "\<forall>c \<in> set ds. is_digit c"
    using s digits_of_digit by (auto simp: sig_digits_def Let_def split: if_splits)
  with l assms obtain y ys where ds: "ds = y # ys" "is_digit y" by (cases ds) auto
  have w: "with_point (c # u) v \<noteq> [] \<and> hd (with_point (c # u) v) = c" for c u v
    by (simp add: with_point_def Let_def)
  have "is_digit 48" by (simp add: is_digit_def)
  with w [of y] w [of 48 "[]"] ds show ?thesis by (auto simp: fmt_abs_def s)
qed

lemma number_text_head:
  assumes "\<not> f64_times_0_ne_0 d"
  shows "\<exists>c s. number_text d = c # s \<and> (c = 45 \<or> is_digit c)"
proof -
  have "\<exists>c s. fmt_g p d = c # s \<and> (c = 45 \<or> is_digit c)" if "0 < p" for p
    using fmt_abs_head [OF that, of "f64_abs d"] assms
    by (auto simp: fmt_g_def f64_times_0_ne_0_def is_digit_def neq_Nil_conv)
  from this [of 15] this [of 17] assms show ?thesis by (auto simp: number_text_def Let_def split: prod.splits)
qed

lemma text_head:
  assumes "good j"
  shows "json_text fmt d j \<noteq> []" and "\<not> hd (json_text fmt d j) \<le> 32" and "hd (json_text fmt d j) \<notin> {93, 125}"
proof -
  have "json_text fmt d j \<noteq> [] \<and> \<not> hd (json_text fmt d j) \<le> 32 \<and> hd (json_text fmt d j) \<notin> {93, 125}"
  proof (cases j)
    case (JNum x)
    then obtain c s where "number_text x = c # s" "c = 45 \<or> is_digit c"
      using number_text_head [of x] assms by (auto simp: f64_finite_iff)
    with JNum show ?thesis by (auto simp: is_digit_def word_le_nat_alt)
  qed (simp_all add: quote_def)
  then show "json_text fmt d j \<noteq> []" and "\<not> hd (json_text fmt d j) \<le> 32" and "hd (json_text fmt d j) \<notin> {93, 125}"
    by blast+
qed

lemma member_text_head [simp]: "member_text fmt d k j \<noteq> []" "hd (member_text fmt d k j) = 34"
  by (simp_all add: member_text_def quote_def)

lemma white_layout [simp]: "white (tl (comma fmt))" "white (newline fmt)" "white (tabs fmt d)"
  by (simp_all add: comma_def newline_def tabs_def white_def)

subsection \<open>Scalars\<close>

lemma at_text_head: "drop (offset b) (content b) = c # r \<Longrightarrow> c \<noteq> x \<Longrightarrow> \<not> at_text (x # s) b"
  by (simp add: at_text_def)

lemma parse_value_head:
  assumes "content_ok b" and "drop (offset b) (content b) = c # r" and "c \<notin> {110, 102, 116}"
  shows "parse_value (Suc n) item b h =
    (if c = 34 then parse_string item b h
     else if c = 45 \<or> 48 \<le> c \<and> c \<le> 57 then parse_number item b h
     else if c = 91 then parse_array (parse_value n) item b h
     else if c = 123 then parse_object (parse_value n) item b h
     else Some (False, b, h))"
proof -
  have "cur_byte b = Some c" "can_access_at_index b 0"
    using assms drop_Cons_less by (simp_all add: cur_byte_def byte_at_drop can_access_at_index_def content_ok_def)
  with assms at_text_head [OF assms(2)] show ?thesis by simp
qed

text \<open>An item whose type, number or string was set.\<close>

lemma reads_scalar:
  assumes "\<And>b h item i r. content_ok b \<Longrightarrow> drop (offset b) (content b) = x @ r \<Longrightarrow> stops r \<Longrightarrow>
      depth b + m \<le> CJSON_NESTING_LIMIT \<Longrightarrow> load_item item h = Some i \<Longrightarrow>
      \<exists>i'. pe item b h = Some (True, b\<lparr>offset := offset b + length x\<rparr>, setj item (ItemC i') h) \<and>
        (\<forall>t. jtype t = itype i' \<longrightarrow> jdouble t = valuedouble i' \<longrightarrow> Q t)"
  shows "reads pe ready ok m x Q"
  unfolding reads_def
proof (intro allI impI)
  fix b h item i r
  assume "content_ok b" "drop (offset b) (content b) = x @ r" "stops r" "depth b + m \<le> CJSON_NESTING_LIMIT"
    and o: "oom h = []" and i: "load_item item h = Some i"
  from assms [OF this(1-4) i] obtain i' where
    e: "pe item b h = Some (True, b\<lparr>offset := offset b + length x\<rparr>, setj item (ItemC i') h)"
    and Q: "\<And>t. jtype t = itype i' \<Longrightarrow> jdouble t = valuedouble i' \<Longrightarrow> Q t" by blast
  have "load_item item (setj item (ItemC i') h) = Some i'" using load_item_not_NULL [OF i] by (simp add: load_item_setj)
  from item_of_tree(1,2) [OF this] Q e o
  show "\<exists>h'. pe item b h = Some (True, b\<lparr>offset := offset b + length x\<rparr>, h') \<and> oom h' = [] \<and>
      (\<forall>t. jaddr t = item \<longrightarrow> items_at h' (iprev i) [t] (inext i) \<longrightarrow> Q t)"
    by (intro exI [of _ "setj item (ItemC i') h"]) auto
qed

lemma can_read_text: "content_ok b \<Longrightarrow> drop (offset b) (content b) = x @ r \<Longrightarrow> x \<noteq> [] \<Longrightarrow> can_read b (length x) \<and> at_text x b"
proof -
  assume C: "content_ok b" and d: "drop (offset b) (content b) = x @ r" and x: "x \<noteq> []"
  have "length (content b) - offset b = length x + length r" using d by (metis length_append length_drop)
  with C d x show ?thesis by (cases x) (auto simp: can_read_def at_text_def content_ok_def)
qed

lemma json_of_scalar:
  "jtype t = cJSON_NULL \<Longrightarrow> json_of t = Some JNull" "jtype t = cJSON_False \<Longrightarrow> json_of t = Some JFalse"
  "jtype t = cJSON_True \<Longrightarrow> json_of t = Some JTrue" "jtype t = cJSON_Number \<Longrightarrow> json_of t = Some (JNum (jdouble t))"
  "jtype t = cJSON_String \<Longrightarrow> json_of t = Some (JStr (str_of (jvalue t)))"
  "jtype t = cJSON_Array \<Longrightarrow> json_of t = map_option JArr (elements_of (jkids t))"
  "jtype t = cJSON_Object \<Longrightarrow> json_of t = map_option JObj (members_of (jkids t))"
  by (cases t, simp add: ctype_defs)+

lemma reads_constants:
  "reads (parse_value (Suc n)) ready ok m [110, 117, 108, 108] (\<lambda>t. json_of t = Some JNull)"
  "reads (parse_value (Suc n)) ready ok m [102, 97, 108, 115, 101] (\<lambda>t. json_of t = Some JFalse)"
  "reads (parse_value (Suc n)) ready ok m [116, 114, 117, 101] (\<lambda>t. json_of t = Some JTrue)"
proof -
  show "reads (parse_value (Suc n)) ready ok m [110, 117, 108, 108] (\<lambda>t. json_of t = Some JNull)"
  proof (rule reads_scalar)
    fix b h item i r
    assume a: "content_ok b" "drop (offset b) (content b) = [110, 117, 108, 108] @ r" and i: "load_item item h = Some i"
    show "\<exists>i'. parse_value (Suc n) item b h =
        Some (True, b\<lparr>offset := offset b + length [110, 117, 108, 108 :: byte]\<rparr>, setj item (ItemC i') h) \<and>
        (\<forall>t. jtype t = itype i' \<longrightarrow> jdouble t = valuedouble i' \<longrightarrow> json_of t = Some JNull)"
      using can_read_text [OF a] upd_item_Some [OF i]
      by (intro exI [of _ "i\<lparr>itype := cJSON_NULL\<rparr>"]) (simp add: advance_def json_of_scalar numeral_eq_Suc)
  qed
  show "reads (parse_value (Suc n)) ready ok m [102, 97, 108, 115, 101] (\<lambda>t. json_of t = Some JFalse)"
  proof (rule reads_scalar)
    fix b h item i r
    assume a: "content_ok b" "drop (offset b) (content b) = [102, 97, 108, 115, 101] @ r" and i: "load_item item h = Some i"
    have n: "\<not> at_text (110 # s) b" for s using at_text_head [of b 102 _ 110] a(2) by simp
    show "\<exists>i'. parse_value (Suc n) item b h =
        Some (True, b\<lparr>offset := offset b + length [102, 97, 108, 115, 101 :: byte]\<rparr>, setj item (ItemC i') h) \<and>
        (\<forall>t. jtype t = itype i' \<longrightarrow> jdouble t = valuedouble i' \<longrightarrow> json_of t = Some JFalse)"
      using can_read_text [OF a] upd_item_Some [OF i] n
      by (intro exI [of _ "i\<lparr>itype := cJSON_False\<rparr>"]) (simp add: advance_def json_of_scalar numeral_eq_Suc)
  qed
  show "reads (parse_value (Suc n)) ready ok m [116, 114, 117, 101] (\<lambda>t. json_of t = Some JTrue)"
  proof (rule reads_scalar)
    fix b h item i r
    assume a: "content_ok b" "drop (offset b) (content b) = [116, 114, 117, 101] @ r" and i: "load_item item h = Some i"
    have n: "\<not> at_text (110 # s) b" "\<not> at_text (102 # s) b" for s
      using at_text_head [of b 116 _ 110] at_text_head [of b 116 _ 102] a(2) by simp_all
    show "\<exists>i'. parse_value (Suc n) item b h =
        Some (True, b\<lparr>offset := offset b + length [116, 114, 117, 101 :: byte]\<rparr>, setj item (ItemC i') h) \<and>
        (\<forall>t. jtype t = itype i' \<longrightarrow> jdouble t = valuedouble i' \<longrightarrow> json_of t = Some JTrue)"
      using can_read_text [OF a] upd_item_Some [OF i] n
      by (intro exI [of _ "i\<lparr>itype := cJSON_True, valueint := 1\<rparr>"]) (simp add: advance_def json_of_scalar numeral_eq_Suc)
  qed
qed

lemma parse_number_text:
  assumes fin: "f64_finite x" and C: "content_ok b" and d: "drop (offset b) (content b) = number_text x @ r"
    and st: "stops r" and i: "load_item item h = Some i"
  shows "\<exists>v. int_of_number x = Some v \<and> parse_number item b h =
    Some (True, b\<lparr>offset := offset b + length (number_text x)\<rparr>,
      setj item (ItemC (i\<lparr>valuedouble := x, valueint := v, itype := cJSON_Number\<rparr>)) h)"
proof -
  from fin have fn: "\<not> f64_times_0_ne_0 x" and sd: "strtod (number_text x) = (x, length (number_text x))"
    by (simp_all add: f64_finite_iff number_text_reads_back)
  from number_text_head [OF fn] have ne: "number_text x \<noteq> []" by auto
  obtain e r' where r: "r = e # r'" "\<not> number_char e" using st by (cases r) (auto simp: stops_def)
  have L: "len b - offset b = length (number_text x @ r)"
    using C arg_cong [OF d, of length] by (simp add: content_ok_def)
  have ns: "number_c_string b = number_text x"
    using number_text_char [OF fn] length_number_text [of x] r
    by (simp add: number_c_string_def d L takeWhile_append takeWhile_eq_all_conv take_Cons')
  have "\<not> f64_nan x" using fn by (simp add: f64_times_0_ne_0_def)
  from int_of_number_defined [OF this] obtain v where "int_of_number x = Some v" by blast
  then show ?thesis using ns sd ne upd_item_Some [OF i] load_item_not_NULL [OF i]
    by (simp add: parse_number_def upd_item_Some load_item_setj advance_def)
qed

lemma reads_number:
  assumes ok: "f64_finite x"
  shows "reads (parse_value (Suc n)) ready ok m (number_text x) (\<lambda>t. json_of t = Some (JNum x))"
proof (rule reads_scalar)
  fix b h item i r
  assume C: "content_ok b" and d: "drop (offset b) (content b) = number_text x @ r" and st: "stops r"
    and i: "load_item item h = Some i"
  from number_text_head [of x] ok obtain c s where c: "number_text x = c # s" "c = 45 \<or> is_digit c"
    by (auto simp: f64_finite_iff)
  have "c \<notin> {110, 102, 116}" using c(2) by (auto simp: is_digit_def word_le_nat_alt)
  moreover have "c \<noteq> 34" "c = 45 \<or> 48 \<le> c \<and> c \<le> 57" using c(2) by (auto simp: is_digit_def word_le_nat_alt)
  ultimately have p: "parse_value (Suc n) item b h = parse_number item b h"
    using parse_value_head [OF C, of c "s @ r"] d c by simp
  from parse_number_text [OF ok C d st i] p show "\<exists>i'. parse_value (Suc n) item b h =
      Some (True, b\<lparr>offset := offset b + length (number_text x)\<rparr>, setj item (ItemC i') h) \<and>
      (\<forall>t. jtype t = itype i' \<longrightarrow> jdouble t = valuedouble i' \<longrightarrow> json_of t = Some (JNum x))"
    by (auto simp: json_of_scalar)
qed

subsection \<open>Strings and members\<close>

lemma parse_string_reads:
  assumes C: "content_ok b" and d: "drop (offset b) (content b) = quote s @ r" and s: "0 \<notin> set s"
    and wf: "wf_heap h" and o: "oom h = []" and i: "load_item item h = Some i"
  obtains h' where "parse_string item b h = Some (True, b\<lparr>offset := offset b + length (quote s)\<rparr>, h')"
    "wf_heap h'" "oom h' = []" "read_str (brk h) h' = Some s"
    "load_item item h' = Some (i\<lparr>itype := cJSON_String, valuestring := brk h\<rparr>)"
    "\<And>q. q \<noteq> item \<Longrightarrow> q \<noteq> brk h \<Longrightarrow> load q h' = load q h"
proof -
  have d': "drop (offset b) (content b) = 34 # escaped s @ 34 # r" using d by (simp add: quote_def)
  have na: "\<not> alloc_fails h" using o by (simp add: alloc_fails_def)
  from parse_string_literal [OF C d' scanned_escaped wf i] na obtain h' where
    h': "parse_string item b h = Some (True, b\<lparr>offset := offset b + length (escaped s) + 2\<rparr>, h')" "wf_heap h'"
    and l: "\<And>q. load q h' = (if q = brk h then Some (StrC (string_block (escaped s) s))
        else if q = item then Some (ItemC (i\<lparr>itype := cJSON_String, valuestring := brk h\<rparr>)) else load q h)"
    by (auto simp: decode_escaped [OF s])
  have ib: "item \<noteq> brk h" using i wf_heap_fresh [OF wf] by (auto simp: load_item_Some_iff)
  have "cstring (string_block (escaped s) s) = Some s"
    using s by (simp add: string_block_def cstring_app)
  then have "read_str (brk h) h' = Some s" using l [of "brk h"] by (simp add: read_str_eqI)
  moreover have "load_item item h' = Some (i\<lparr>itype := cJSON_String, valuestring := brk h\<rparr>)"
    using l [of item] ib by (simp add: load_item_Some_iff)
  moreover have "offset b + length (escaped s) + 2 = offset b + length (quote s)" by (simp add: quote_def)
  ultimately show thesis using that h' l parse_string_oom [OF o h'(1)] by simp
qed

lemma reads_string:
  assumes s: "0 \<notin> set s"
  shows "reads (parse_value (Suc n)) ready ok m (quote s) (\<lambda>t. json_of t = Some (JStr s))"
  unfolding reads_def
proof (intro allI impI)
  fix b h item i r
  assume C: "content_ok b" and d: "drop (offset b) (content b) = quote s @ r" and wf: "wf_heap h" and o: "oom h = []"
    and i: "load_item item h = Some i"
  from parse_string_reads [OF C d s wf o i] obtain h' where
    h': "parse_string item b h = Some (True, b\<lparr>offset := offset b + length (quote s)\<rparr>, h')" "oom h' = []"
    "read_str (brk h) h' = Some s" "load_item item h' = Some (i\<lparr>itype := cJSON_String, valuestring := brk h\<rparr>)" by blast
  have "parse_value (Suc n) item b h = parse_string item b h"
    using parse_value_head [OF C, of 34] d by (simp add: quote_def)
  moreover have "json_of t = Some (JStr s)" if "jaddr t = item" "items_at h' (iprev i) [t] (inext i)" for t
  proof -
    note t = item_of_tree [OF h'(4) that(2,1)]
    have "jvalue t = Some (brk h, s)" by (rule str_at_ptr [OF t(6)]) (use h'(3) t(3) in simp_all)
    with t(1) show ?thesis by (simp add: json_of_scalar str_of_def)
  qed
  ultimately show "\<exists>h'. parse_value (Suc n) item b h = Some (True, b\<lparr>offset := offset b + length (quote s)\<rparr>, h') \<and>
      oom h' = [] \<and> (\<forall>t. jaddr t = item \<longrightarrow> items_at h' (iprev i) [t] (inext i) \<longrightarrow> json_of t = Some (JStr s))"
    using h' by auto
qed

context value_parsing
begin

lemma reads_member:
  assumes V: "reads pv ready (\<lambda>_. True) n x Q" and x: "x \<noteq> []" "\<not> hd x \<le> 32" and k: "0 \<notin> set k"
  shows "reads (parse_member pv) ready (\<lambda>i. key i = NULL) n (quote k @ colon fmt @ x) (\<lambda>t. Q t \<and> str_of (jkey t) = k)"
  unfolding reads_def
proof (intro allI impI)
  fix b h item i r
  assume C: "content_ok b" and d: "drop (offset b) (content b) = (quote k @ colon fmt @ x) @ r" and st: "stops r"
    and n: "depth b + n \<le> CJSON_NESTING_LIMIT" "ready (depth b)" and wf: "wf_heap h" and o: "oom h = []"
    and i: "load_item item h = Some i" "blank i" "key i = NULL"
  obtain e y where y: "x = e # y" "\<not> e \<le> 32" using x by (cases x) auto
  from parse_string_reads [OF C _ k wf o i(1), of "colon fmt @ x @ r"] d obtain h1 where
    h1: "parse_string item b h = Some (True, b\<lparr>offset := offset b + length (quote k)\<rparr>, h1)" "wf_heap h1" "oom h1 = []"
      "read_str (brk h) h1 = Some k" "load_item item h1 = Some (i\<lparr>itype := cJSON_String, valuestring := brk h\<rparr>)" by auto
  let ?b1 = "b\<lparr>offset := offset b + length (quote k)\<rparr>" and ?b3 = "b\<lparr>offset := offset b + length (quote k) + length (colon fmt)\<rparr>"
  have d1: "drop (offset b + length (quote k)) (content b) = 58 # tl (colon fmt) @ x @ r"
    using drop_add [of "offset b" "content b" "quote k"] d by (simp add: colon_def)
  have w1: "buffer_skip_whitespace ?b1 = Some ?b1" using skip_white [of "[]" 58 ?b1] C d1 by simp
  have n1: "next_is 58 ?b1 = Some True" using next_is_head [of ?b1 58] C d1 by simp
  have d2: "drop (offset b + length (quote k) + 1) (content b) = tl (colon fmt) @ e # y @ r"
    using drop_add [of "offset b + length (quote k)" "content b" "[58]"] d1 y by simp
  have l: "offset b + length (quote k) + 1 + length (tl (colon fmt)) = offset b + length (quote k) + length (colon fmt)"
    by (simp add: colon_def)
  have w2: "buffer_skip_whitespace (b\<lparr>offset := offset b + length (quote k) + 1\<rparr>) = Some ?b3"
    using skip_white [OF _ y(2), of "tl (colon fmt)" "b\<lparr>offset := offset b + length (quote k) + 1\<rparr>" "y @ r"] C d2 l
    by (simp add: colon_def)
  let ?i = "i\<lparr>itype := cJSON_String, key := brk h\<rparr>"
  let ?h2 = "setj item (ItemC ?i) h1"
  have iv: "i\<lparr>itype := cJSON_String, key := brk h, valuestring := NULL\<rparr> = ?i" using i(2) by (cases i) (simp add: blank_def)
  have item: "item \<noteq> NULL" "item \<noteq> brk h" using i wf_heap_fresh [OF wf] by (auto simp: load_item_Some_iff)
  have u: "upd_item item (\<lambda>i. i\<lparr>key := valuestring i, valuestring := NULL\<rparr>) h1 = Some ?h2"
    using upd_item_Some [OF h1(5), of "\<lambda>i. i\<lparr>key := valuestring i, valuestring := NULL\<rparr>"] iv by simp
  have eq: "parse_member pv item b h = pv item ?b3 ?h2"
    using h1(1) w1 u n1 w2 by (simp add: parse_member_def advance_def)
  have i2: "load_item item ?h2 = Some ?i" using item by (simp add: load_item_setj)
  have bl: "blank ?i" using i(2) by (simp add: blank_def)
  have wf2: "wf_heap ?h2" by (rule wf_heap_setj [OF h1(2)]) (use h1(5) in \<open>simp add: load_item_Some_iff\<close>)
  have kl: "load (brk h) ?h2 = load (brk h) h1" "load (brk h) h1 \<noteq> None"
    using item h1(4) by (auto simp: load_setj dest: read_str_SomeD)
  have d3: "drop (offset ?b3) (content ?b3) = x @ r"
    using drop_add [OF d2, unfolded l] y by simp
  have C3: "content_ok ?b3" and lt: "offset ?b3 < len ?b3" and dp: "depth ?b3 \<le> CJSON_NESTING_LIMIT" "ready (depth ?b3)"
    using C d3 y n drop_Cons_less by (simp_all add: content_ok_def)
  obtain h' where h': "pv item ?b3 ?h2 = Some (True, ?b3\<lparr>offset := offset ?b3 + length x\<rparr>, h')" "oom h' = []"
    "\<And>t. jaddr t = item \<Longrightarrow> items_at h' (iprev ?i) [t] (inext ?i) \<Longrightarrow> Q t"
    by (rule readsE [OF V C3 d3 st _ _ wf2 _ i2 bl]) (use n h1(3) in simp_all)
  have "parsed_value ?h2 ?b3 item ?i (pv item ?b3 ?h2)" by (rule parse [OF C3 lt dp wf2 i2 bl])
  then obtain vs ks where F: "filled ?h2 h' item ?i vs ks" using h'(1) by (cases rule: parsed_valueE) auto
  then obtain i' where i': "load_item item h' = Some i'" "key i' = brk h" unfolding filled_def by auto
  have "brk h \<notin> set (ptrs vs @ foot ks)" using F kl by (auto simp: filled_def)
  then have "load (brk h) h' = load (brk h) h1" using F item kl(1) by (auto simp: filled_def)
  then have kr: "read_str (brk h) h' = Some k" using h1(4) read_str_cong by metis
  have "str_of (jkey t) = k" if "jaddr t = item" "items_at h' (iprev i) [t] (inext i)" for t
  proof -
    note t = item_of_tree [OF i'(1) that(2,1)]
    have "jkey t = Some (brk h, k)" by (rule str_at_ptr [OF t(7)]) (use kr t(4) i'(2) in simp_all)
    then show ?thesis by (simp add: str_of_def)
  qed
  then show "\<exists>h'. parse_member pv item b h =
      Some (True, b\<lparr>offset := offset b + length (quote k @ colon fmt @ x)\<rparr>, h') \<and> oom h' = [] \<and>
      (\<forall>t. jaddr t = item \<longrightarrow> items_at h' (iprev i) [t] (inext i) \<longrightarrow> Q t \<and> str_of (jkey t) = k)"
    using eq h' by (intro exI [of _ h']) (simp add: add.assoc)
qed

end

subsection \<open>Values\<close>

lemma reads_mono: "reads pe ready ok n x Q \<Longrightarrow> n \<le> m \<Longrightarrow> reads pe ready ok m x Q"
  by (simp add: reads_def)

lemma reads_any: "reads pe ready (\<lambda>_. True) n x Q \<Longrightarrow> reads pe ready ok n x Q"
  by (simp add: reads_def)

lemma reads_piece_mono: "reads_piece pe ready n q \<Longrightarrow> n \<le> m \<Longrightarrow> reads_piece pe ready m q"
  by (auto simp: reads_piece_def intro: reads_mono split: prod.splits)

abbreviation deep_enough :: "nat \<Rightarrow> nat \<Rightarrow> bool" where
  "deep_enough n d \<equiv> CJSON_NESTING_LIMIT < d + n"

lemma reads_no_fuel: "reads (parse_value 0) (deep_enough 0) ok m x Q"
  by (simp add: reads_def)

lemma reads_array:
  assumes ps: "\<forall>q \<in> set (element_pieces fmt (d + 1) [] js). reads_piece (parse_value n) (deep_enough n) m q"
    and g: "good_elements js"
  shows "reads (parse_value (Suc n)) (deep_enough (Suc n)) ok (Suc m) (json_text fmt d (JArr js)) (\<lambda>t. json_of t = Some (JArr js))"
  unfolding reads_def
proof (intro allI impI)
  fix b :: parse_buffer and h item i r
  let ?ps = "element_pieces fmt (d + 1) [] js" and ?b = "b\<lparr>depth := depth b + 1\<rparr>"
  assume C: "content_ok b" and dr: "drop (offset b) (content b) = json_text fmt d (JArr js) @ r"
    and n: "depth b + Suc m \<le> CJSON_NESTING_LIMIT" "deep_enough (Suc n) (depth b)" and wf: "wf_heap h" and o: "oom h = []"
    and i: "load_item item h = Some i"
  have tx: "json_text fmt d (JArr js) = 91 # joined ?ps @ [93]" by (simp add: joined_elements)
  have first: "hd x \<noteq> 93" if "?ps = (u, x, v, Q) # qs" for u x v Q qs
    using that g text_head(3) by (cases js) auto
  have "\<exists>h' us. parse_list (parse_value n) 93 cJSON_Array item ?b h =
      Some (True, ?b\<lparr>depth := depth ?b - 1, offset := offset ?b + 2 + length (if ?ps = [] then [] else joined ?ps)\<rparr>, h') \<and>
    oom h' = [] \<and> list_all2 meets ?ps us \<and>
    (\<forall>t. jaddr t = item \<longrightarrow> items_at h' (iprev i) [t] (inext i) \<longrightarrow> jtype t = cJSON_Array \<and> jkids t = us)"
    by (rule element_parsing.parse_list_reads [OF json.element_parser ps, where op = 91 and r = r])
      (use C dr tx n wf o i first in \<open>auto split: if_splits\<close>)
  then obtain h' us where us: "parse_list (parse_value n) 93 cJSON_Array item ?b h =
      Some (True, b\<lparr>offset := offset b + 2 + length (joined ?ps)\<rparr>, h')"
    "oom h' = []" "list_all2 meets ?ps us"
    "\<And>t. jaddr t = item \<Longrightarrow> items_at h' (iprev i) [t] (inext i) \<Longrightarrow> jtype t = cJSON_Array \<and> jkids t = us"
    by (auto split: if_splits)
  have "parse_value (Suc n) item b h = parse_list (parse_value n) 93 cJSON_Array item ?b h"
    using parse_value_head [OF C, of 91] dr tx n by (simp add: parse_array_def cur_byte_def byte_at_drop Let_def)
  with us tx meets_elements [OF us(3)] show "\<exists>h'. parse_value (Suc n) item b h =
      Some (True, b\<lparr>offset := offset b + length (json_text fmt d (JArr js))\<rparr>, h') \<and> oom h' = [] \<and>
      (\<forall>t. jaddr t = item \<longrightarrow> items_at h' (iprev i) [t] (inext i) \<longrightarrow> json_of t = Some (JArr js))"
    by (intro exI [of _ h']) (auto simp: json_of_scalar simp del: json_text.simps)
qed

lemma reads_object:
  assumes ps: "\<forall>q \<in> set (member_pieces fmt (d + 1) (tabs fmt d) ms).
      reads_piece (parse_member (parse_value n)) (deep_enough n) m q"
  shows "reads (parse_value (Suc n)) (deep_enough (Suc n)) ok (Suc m) (json_text fmt d (JObj ms)) (\<lambda>t. json_of t = Some (JObj ms))"
  unfolding reads_def
proof (intro allI impI)
  fix b :: parse_buffer and h item i r
  let ?ps = "member_pieces fmt (d + 1) (tabs fmt d) ms" and ?b = "b\<lparr>depth := depth b + 1\<rparr>"
  let ?x = "if ?ps = [] then newline fmt @ tabs fmt d else joined ?ps"
  assume C: "content_ok b" and dr: "drop (offset b) (content b) = json_text fmt d (JObj ms) @ r"
    and n: "depth b + Suc m \<le> CJSON_NESTING_LIMIT" "deep_enough (Suc n) (depth b)" and wf: "wf_heap h" and o: "oom h = []"
    and i: "load_item item h = Some i"
  have e: "(?ps = []) = (ms = [])" by (cases ms) auto
  have tx: "json_text fmt d (JObj ms) = 123 # ?x @ [125]" using joined_members [of ms] e by auto
  have first: "hd x \<noteq> 125" if "?ps = (u, x, v, Q) # qs" for u x v Q qs
    using that by (cases ms) auto
  have "\<exists>h' us. parse_list (parse_member (parse_value n)) 125 cJSON_Object item ?b h =
      Some (True, ?b\<lparr>depth := depth ?b - 1, offset := offset ?b + 2 + length ?x\<rparr>, h') \<and>
    oom h' = [] \<and> list_all2 meets ?ps us \<and>
    (\<forall>t. jaddr t = item \<longrightarrow> items_at h' (iprev i) [t] (inext i) \<longrightarrow> jtype t = cJSON_Object \<and> jkids t = us)"
    by (rule element_parsing.parse_list_reads [OF json.member_parser ps, where op = 123 and r = r])
      (use C dr tx n wf o i first in \<open>simp_all\<close>)
  then obtain h' us where us: "parse_list (parse_member (parse_value n)) 125 cJSON_Object item ?b h =
      Some (True, b\<lparr>offset := offset b + 2 + length ?x\<rparr>, h')"
    "oom h' = []" "list_all2 meets ?ps us"
    "\<And>t. jaddr t = item \<Longrightarrow> items_at h' (iprev i) [t] (inext i) \<Longrightarrow> jtype t = cJSON_Object \<and> jkids t = us"
    by auto
  have "drop (offset b) (content b) = 123 # (?x @ [125]) @ r" using dr tx by simp
  then have "parse_value (Suc n) item b h = parse_list (parse_member (parse_value n)) 125 cJSON_Object item ?b h"
    using parse_value_head [OF C, of 123] next_is_head [of ?b 123] C n
    by (simp add: parse_object_def Let_def)
  with us tx meets_members [OF us(3)] show "\<exists>h'. parse_value (Suc n) item b h =
      Some (True, b\<lparr>offset := offset b + length (json_text fmt d (JObj ms))\<rparr>, h') \<and> oom h' = [] \<and>
      (\<forall>t. jaddr t = item \<longrightarrow> items_at h' (iprev i) [t] (inext i) \<longrightarrow> json_of t = Some (JObj ms))"
    by (intro exI [of _ h']) (auto simp: json_of_scalar simp del: json_text.simps)
qed

lemma reads_value:
  "good j \<Longrightarrow> reads (parse_value n) (deep_enough n) ok (nest j) (json_text fmt d j) (\<lambda>t. json_of t = Some j)"
  "good_elements js \<Longrightarrow> white u \<Longrightarrow>
   \<forall>q \<in> set (element_pieces fmt d u js). reads_piece (parse_value n) (deep_enough n) (nest_elements js) q"
  "good_members ms \<Longrightarrow> white e \<Longrightarrow>
   \<forall>q \<in> set (member_pieces fmt d e ms). reads_piece (parse_member (parse_value n)) (deep_enough n) (nest_members ms) q"
proof (induction j and js and ms arbitrary: n ok d and n d u and n d e rule: nest_nest_elements_nest_members.induct)
  case 1
  show ?case using reads_no_fuel reads_constants(1) by (cases n) (simp_all del: parse_value.simps)
next
  case 2
  show ?case using reads_no_fuel reads_constants(2) by (cases n) (simp_all del: parse_value.simps)
next
  case 3
  show ?case using reads_no_fuel reads_constants(3) by (cases n) (simp_all del: parse_value.simps)
next
  case (4 x)
  then show ?case using reads_no_fuel reads_number by (cases n) (simp_all del: parse_value.simps)
next
  case (5 s)
  then show ?case using reads_no_fuel reads_string by (cases n) (simp_all del: parse_value.simps)
next
  case (6 js)
  show ?case
  proof (cases n)
    case (Suc n')
    have "\<forall>q \<in> set (element_pieces fmt (d + 1) [] js). reads_piece (parse_value n') (deep_enough n') (nest_elements js) q"
      by (rule "6.IH") (use "6.prems" in simp_all)
    from reads_array [OF this] "6.prems" Suc show ?thesis by (simp del: json_text.simps parse_value.simps)
  qed (use reads_no_fuel in \<open>simp del: parse_value.simps json_text.simps\<close>)
next
  case (7 ms)
  show ?case
  proof (cases n)
    case (Suc n')
    have "\<forall>q \<in> set (member_pieces fmt (d + 1) (tabs fmt d) ms).
        reads_piece (parse_member (parse_value n')) (deep_enough n') (nest_members ms) q"
      by (rule "7.IH") (use "7.prems" in simp_all)
    from reads_object [OF this] Suc show ?thesis by (simp del: json_text.simps parse_value.simps)
  qed (use reads_no_fuel in \<open>simp del: parse_value.simps json_text.simps\<close>)
next
  case (9 j js)
  have "reads (parse_value n) (deep_enough n) (\<lambda>i. key i = NULL) (nest_elements (j # js)) (json_text fmt d j) (\<lambda>t. json_of t = Some j)"
    by (rule reads_mono [OF "9.IH"(1)]) (use "9.prems" in simp_all)
  moreover have "\<forall>q \<in> set (element_pieces fmt d (tl (comma fmt)) js).
      reads_piece (parse_value n) (deep_enough n) (nest_elements (j # js)) q"
    using "9.IH"(2) [of "tl (comma fmt)" d n] "9.prems" reads_piece_mono [where m = "nest_elements (j # js)"] by auto
  ultimately show ?case using "9.prems" text_head [of j] by (simp add: reads_piece_def)
next
  case (11 k j ms)
  have "reads (parse_value n) (deep_enough n) (\<lambda>_. True) (nest_members ((k, j) # ms)) (json_text fmt d j) (\<lambda>t. json_of t = Some j)"
    by (rule reads_mono [OF "11.IH"(1)]) (use "11.prems" in simp_all)
  from json.reads_member [OF this, of k fmt] "11.prems" text_head [of j]
  have "reads (parse_member (parse_value n)) (deep_enough n) (\<lambda>i. key i = NULL) (nest_members ((k, j) # ms))
      (member_text fmt d k j) (\<lambda>t. json_of t = Some j \<and> str_of (jkey t) = k)" by (simp add: member_text_def)
  moreover have "\<forall>q \<in> set (member_pieces fmt d e ms).
      reads_piece (parse_member (parse_value n)) (deep_enough n) (nest_members ((k, j) # ms)) q"
    using "11.IH"(2) [of e d n] "11.prems" reads_piece_mono [where m = "nest_members ((k, j) # ms)"] by auto
  ultimately show ?case using "11.prems" by (simp add: reads_piece_def)
qed simp_all

subsection \<open>The whole text\<close>

lemma skip_at_end:
  assumes C: "content_ok b" and e: "offset b + 1 = len b"
  shows "buffer_skip_whitespace b = Some b"
proof -
  have l: "len b = length (content b)" "content b ! offset b = 0"
    using C arg_cong [OF e, of "\<lambda>k. k - 1"] by (auto simp: content_ok_def last_conv_nth)
  have "skip_blanks (b\<lparr>offset := offset b + 1\<rparr>) = Some (b\<lparr>offset := offset b + 1\<rparr>)"
    unfolding skip_blanks.simps [of "b\<lparr>offset := offset b + 1\<rparr>"] using e by (simp add: can_access_at_index_def)
  moreover have "cur_byte b = Some 0" using l e by (simp add: cur_byte_def byte_at_def)
  ultimately have "skip_blanks b = Some (b\<lparr>offset := offset b + 1\<rparr>)"
    using e by (simp add: skip_blanks.simps [of b] can_access_at_index_def advance_def)
  with e show ?thesis by (simp add: buffer_skip_whitespace_def step_back_def)
qed

lemma parse_json_text:
  assumes g: "good j" and n: "nest j \<le> CJSON_NESTING_LIMIT" and wf: "wf_heap h" and o: "oom h = []"
  shows "\<exists>item h' t. cJSON_ParseWithOpts (Some (json_text fmt d j)) rpe rnt h =
      Some (item, if rpe then Some (length (json_text fmt d j)) else None, None, h') \<and>
    item \<noteq> NULL \<and> jaddr t = item \<and> items_at h' NULL [t] NULL \<and> plain [t] \<and> json_of t = Some j"
proof -
  let ?s = "json_text fmt d j"
  let ?b = "\<lparr>content = ?s @ [0], len = length ?s + 1, offset = 0, depth = 0\<rparr>"
  let ?b2 = "?b\<lparr>offset := length ?s\<rparr>"
  obtain c s where s: "?s = c # s" "\<not> c \<le> 32" using text_head [OF g, of fmt d] by (cases ?s) auto
  have C: "content_ok ?b" by (simp add: content_ok_def)
  let ?h = "newj (ItemC empty_item) h" and ?p = "brk h"
  have m: "cJSON_New_Item h = (?p, ?h)" "?p \<noteq> NULL"
    using o wf by (simp_all add: cJSON_New_Item_def malloc_newj alloc_fails_def wf_heap_brk_pos)
  have i: "load_item ?p ?h = Some empty_item" "blank empty_item"
    using wf by (simp_all add: load_item_Some_iff load_newj blank_def empty_item_def is_reference_def string_is_const_def ctype_defs)
  have c: "c \<noteq> 0xEF"
  proof (cases j)
    case (JNum x)
    with g number_text_head [of x] s show ?thesis by (auto simp: f64_finite_iff is_digit_def word_le_nat_alt)
  qed (use s in \<open>auto simp: quote_def\<close>)
  have bom: "skip_utf8_bom ?b = Some ?b"
    using c s by (simp add: skip_utf8_bom_def at_text_def)
  have ws: "buffer_skip_whitespace ?b = Some ?b" using skip_white [of "[]" c ?b "s @ [0]"] s C by simp
  have lim: "deep_enough (CJSON_NESTING_LIMIT + 1) (depth ?b)" by simp
  have d0: "drop (offset ?b) (content ?b) = ?s @ [0]" and st: "stops [0]" by simp_all
  obtain h' where h': "parse_value (CJSON_NESTING_LIMIT + 1) ?p ?b ?h = Some (True, ?b\<lparr>offset := offset ?b + length ?s\<rparr>, h')"
    "oom h' = []" "\<And>t. jaddr t = ?p \<Longrightarrow> items_at h' (iprev empty_item) [t] (inext empty_item) \<Longrightarrow> json_of t = Some j"
    by (rule readsE [OF reads_value(1) [OF g, of "CJSON_NESTING_LIMIT + 1" "\<lambda>_. True" fmt d] C d0 st _ lim _ _ i])
      (use n wf o in \<open>simp_all del: parse_value.simps\<close>)
  have "parsed_value ?h ?b ?p empty_item (parse_value (CJSON_NESTING_LIMIT + 1) ?p ?b ?h)"
    by (rule json.parse) (use C wf i in simp_all)
  then obtain vs ks where F: "filled ?h h' ?p empty_item vs ks" using h'(1) by (cases rule: parsed_valueE) auto
  from filled_built [OF F, of None] i(1) obtain ty vi vd where
    t: "items_at h' NULL [JT ?p ty vs vi vd None ks] NULL" "plain [JT ?p ty vs vi vd None ks]" by (auto simp: empty_item_def)
  have "json_of (JT ?p ty vs vi vd None ks) = Some j" by (rule h'(3)) (use t(1) in \<open>simp_all add: empty_item_def\<close>)
  moreover have "buffer_skip_whitespace ?b2 = Some ?b2" by (rule skip_at_end) (simp_all add: content_ok_def)
  moreover have "cur_byte ?b2 = Some 0" by (simp add: cur_byte_def byte_at_def)
  ultimately show ?thesis using m bom ws h'(1) t
    by (intro exI [of _ ?p] exI [of _ h'] exI [of _ "JT ?p ty vs vi vd None ks"])
      (simp add: cJSON_ParseWithOpts_def del: parse_value.simps)
qed

end
