(* ===== verification/CJsonMinify.thy ===== *)
theory CJsonMinify
  imports CJsonCopy CJsonRoundTrip
begin

text \<open>
  What \<open>cJSON_Minify\<close> does to a text: \<open>minified\<close> is the same on byte lists, without positions.
  It is undefined where the code loops forever.  On the texts the printer writes it removes the
  formatting, unless a string ends in a backslash.
\<close>

subsection \<open>On lists\<close>

fun after_line :: "byte list \<Rightarrow> byte list" where
  "after_line [] = []"
| "after_line (c # s) = (if c = 10 then s else after_line s)"

fun after_comment :: "byte list \<Rightarrow> byte list" where
  "after_comment [] = []"
| "after_comment [c] = []"
| "after_comment (c # d # s) = (if c = 42 \<and> d = 47 then s else after_comment (d # s))"

text \<open>The rest of a literal up to its closing quote, and what follows it.\<close>

fun literal :: "byte list \<Rightarrow> byte list \<times> byte list" where
  "literal [] = ([], [])"
| "literal [c] = ([c], [])"
| "literal (c # d # s) =
     (if c = 34 then ([c], d # s)
      else if c = 92 \<and> d = 34 then (case literal s of (t, r) \<Rightarrow> (c # d # t, r))
      else (case literal (d # s) of (t, r) \<Rightarrow> (c # t, r)))"

lemma after_line_shorter [simp]: "length (after_line s) \<le> length s"
  by (induction s) auto

lemma after_comment_shorter [simp]: "length (after_comment s) \<le> length s"
  by (induction s rule: after_comment.induct) auto

lemma literal_split: "fst (literal s) @ snd (literal s) = s"
  by (induction s rule: literal.induct) (auto simp: case_prod_beta)

lemma literal_shorter [simp]: "length (snd (literal s)) \<le> length s"
  using arg_cong [OF literal_split [of s], of length] by simp

definition blank_byte :: "byte \<Rightarrow> bool" where
  "blank_byte c \<longleftrightarrow> c = 32 \<or> c = 9 \<or> c = 13 \<or> c = 10"

function minified :: "byte list \<Rightarrow> byte list option" where
  "minified [] = Some []"
| "minified (c # s) =
     (if blank_byte c then minified s
      else if c = 47 then
        (case s of
           [] \<Rightarrow> None
         | d # s \<Rightarrow>
             if d = 47 then minified (after_line s)
             else if d = 42 then minified (after_comment s)
             else None)
      else if c = 34 then map_option (\<lambda>m. 34 # fst (literal s) @ m) (minified (snd (literal s)))
      else map_option (Cons c) (minified s))"
  by pat_completeness auto
termination
  by (relation "measure length") (auto simp: less_Suc_eq_le intro: le_SucI)

lemma minified_shorter: "minified s = Some t \<Longrightarrow> length t \<le> length s"
proof (induction s arbitrary: t rule: minified.induct)
  case (2 c s)
  have l: "length s = length (fst (literal s)) + length (snd (literal s))"
    using arg_cong [OF literal_split [of s], of length] by simp
  show ?case
    using 2 l after_line_shorter [of "tl s"] after_comment_shorter [of "tl s"]
    by (fastforce split: if_splits list.splits)
qed simp

lemma literal_set: "set (fst (literal s)) \<union> set (snd (literal s)) = set s"
  using arg_cong [OF literal_split [of s], of set] by simp

lemma after_line_set: "set (after_line s) \<subseteq> set s"
  by (induction s) auto

lemma after_comment_set: "set (after_comment s) \<subseteq> set s"
  by (induction s rule: after_comment.induct) auto

lemma minified_set: "minified s = Some t \<Longrightarrow> set t \<subseteq> set s"
proof (induction s arbitrary: t rule: minified.induct)
  case (2 c s)
  show ?case
    using 2 literal_set [of s] after_line_set [of "tl s"] after_comment_set [of "tl s"]
    by (fastforce split: if_splits list.splits)
qed simp

subsection \<open>Positions in the buffer\<close>

text \<open>The text \<open>s\<close> and its terminator start at position \<open>j\<close>.\<close>

definition unread :: "cbuf \<Rightarrow> nat \<Rightarrow> byte list \<Rightarrow> bool" where
  "unread b j s \<longleftrightarrow> 0 \<notin> set s \<and> (\<exists>r. drop j b = map Some (s @ [0]) @ r)"

lemma drop_Cons_nth: "drop j b = x # r \<Longrightarrow> j < length b \<and> b ! j = x \<and> drop (Suc j) b = r"
  by (metis drop_eq_Nil Cons_nth_drop_Suc leI list.discI list.inject)

lemma unread_Nil: "unread b j [] \<Longrightarrow> peek b j = Some 0"
  by (auto simp: unread_def peek_def dest: drop_Cons_nth)

lemma unread_Cons:
  assumes "unread b j (c # s)"
  shows "peek b j = Some c" and "c \<noteq> 0" and "unread b (Suc j) s" and "j < length b"
  using assms by (auto simp: unread_def peek_def dest!: drop_Cons_nth)

lemma unread_update:
  assumes "unread b j (c # s)" and "i \<le> j"
  shows "unread (b[i := Some c]) j (c # s)"
proof (cases "i = j")
  case True
  then have "b[i := Some c] = b" using unread_Cons(1,4) [OF assms(1)] by (auto simp: peek_def list_update_same_conv)
  with assms(1) show ?thesis by simp
next
  case False
  with assms show ?thesis by (auto simp: unread_def)
qed

lemma take_update: "length u = i \<Longrightarrow> take i b = map Some u \<Longrightarrow> i < length b \<Longrightarrow>
  take (Suc i) (b[i := Some c]) = map Some (u @ [c])"
  by (simp add: take_Suc_conv_app_nth)

lemma find_newline_unread:
  "unread b j s \<Longrightarrow> \<exists>k. find_newline b j = Some k \<and> j \<le> k \<and> unread b k (after_line s)"
proof (induction s arbitrary: j)
  case Nil
  then show ?case by (simp add: find_newline.simps [of b j] unread_Nil)
next
  case (Cons c s)
  note u = unread_Cons [OF Cons.prems]
  show ?case
  proof (cases "c = 10")
    case True
    with u show ?thesis by (simp add: find_newline.simps [of b j])
  next
    case False
    from Cons.IH [OF u(3)] u False show ?thesis by (auto simp: find_newline.simps [of b j] intro: Suc_leD)
  qed
qed

lemma find_comment_end_unread:
  "unread b j s \<Longrightarrow> \<exists>k. find_comment_end b j = Some k \<and> j \<le> k \<and> unread b k (after_comment s)"
proof (induction s arbitrary: j rule: after_comment.induct)
  case 1
  then show ?case by (simp add: find_comment_end.simps [of b j] unread_Nil)
next
  case (2 c)
  note u = unread_Cons [OF "2.prems"] and v = unread_Nil [OF unread_Cons(3) [OF "2.prems"]]
  have "find_comment_end b (Suc j) = Some (Suc j)" by (simp add: find_comment_end.simps [of b "Suc j"] v)
  with u v show ?case by (simp add: find_comment_end.simps [of b j])
next
  case (3 c d s)
  note u = unread_Cons [OF "3.prems"]
  note v = unread_Cons [OF u(3)]
  show ?case
  proof (cases "c = 42 \<and> d = 47")
    case True
    with u v show ?thesis by (auto simp: find_comment_end.simps [of b j])
  next
    case False
    from "3.IH" [OF False u(3)] u v False show ?thesis
      by (auto simp: find_comment_end.simps [of b j] intro: Suc_leD)
  qed
qed

text \<open>Where the loops stand: \<open>s\<close> is still to be read and \<open>u\<close> has been written.\<close>

definition stands :: "cbuf \<Rightarrow> nat \<Rightarrow> nat \<Rightarrow> byte list \<Rightarrow> byte list \<Rightarrow> bool" where
  "stands b j i s u \<longleftrightarrow> unread b j s \<and> i \<le> j \<and> length u = i \<and> take i b = map Some u"

lemma stands_step:
  assumes "stands b j i (c # s) u"
  shows "poke b i c = Some (b[i := Some c])" and "stands (b[i := Some c]) (Suc j) (Suc i) s (u @ [c])"
    and "peek (b[i := Some c]) j = Some c"
proof -
  have a: "unread b j (c # s)" "i \<le> j" "length u = i" "take i b = map Some u" "i < length b"
    using assms unread_Cons(4) [of b j c s] by (auto simp: stands_def)
  show "poke b i c = Some (b[i := Some c])" using a(5) by (simp add: poke_def)
  note n = unread_Cons [OF unread_update [OF a(1,2)]]
  from n(1) show "peek (b[i := Some c]) j = Some c" .
  from n(3) a take_update [OF a(3,4,5)] show "stands (b[i := Some c]) (Suc j) (Suc i) s (u @ [c])" by (simp add: stands_def)
qed

lemma copy_string_stands:
  "stands b j i s u \<Longrightarrow> \<exists>b' j' i'. copy_string b j i = Some (b', j', i') \<and> length b' = length b \<and>
     stands b' j' i' (snd (literal s)) (u @ fst (literal s))"
proof (induction s arbitrary: b j i u rule: literal.induct)
  case 1
  then have "peek b j = Some 0" by (auto simp: stands_def unread_Nil)
  with 1 show ?case by (simp add: copy_string.simps [of b j i])
next
  case (2 c)
  note st = stands_step [OF 2]
  have u: "peek b j = Some c" "c \<noteq> 0" "peek (b[i := Some c]) (Suc j) = Some 0"
    using 2 st(2) unread_Cons [of b j c "[]"] unread_Nil [of "b[i := Some c]" "Suc j"] by (auto simp: stands_def)
  have "copy_string (b[i := Some c]) (Suc j) (Suc i) = Some (b[i := Some c], Suc j, Suc i)"
    by (simp add: copy_string.simps [of _ "Suc j"] u(3))
  moreover have "poke (b[i := Some c]) i 34 = Some (b[i := Some c])" if "c = 34"
    using st(1) that by (auto simp: poke_def split: if_splits)
  ultimately have "copy_string b j i = Some (b[i := Some c], Suc j, Suc i)"
    using st u by (auto simp: copy_string.simps [of b j i])
  with st show ?case by simp
next
  case (3 c d s)
  let ?b = "b[i := Some c]"
  note st = stands_step [OF "3.prems"]
  note su = stands_step [OF st(2)]
  have u: "peek b j = Some c" "c \<noteq> 0" using "3.prems" unread_Cons [of b j c "d # s"] by (auto simp: stands_def)
  have v: "peek ?b (Suc j) = Some d" using st(2) unread_Cons [of ?b "Suc j" d s] by (auto simp: stands_def)
  have w: "poke ?b i 34 = Some ?b" if "c = 34"
    using st(1) that by (auto simp: poke_def split: if_splits)
  consider (close) "c = 34" | (pair) "c = 92" "d = 34" | (other) "c \<noteq> 34" "\<not> (c = 92 \<and> d = 34)" by blast
  then show ?case
  proof cases
    case close
    then have "copy_string b j i = Some (?b, Suc j, Suc i)" using st(1,3) u w by (simp add: copy_string.simps [of b j i])
    with close st(2) show ?thesis by simp
  next
    case pair
    then have "copy_string b j i = copy_string (?b[Suc i := Some d]) (Suc (Suc j)) (Suc (Suc i))"
      using st(1,3) su(1) u v by (simp add: copy_string.simps [of b j i])
    with pair "3.IH"(1) [OF _ _ su(2)] show ?thesis by (auto simp: case_prod_beta)
  next
    case other
    then have "copy_string b j i = copy_string ?b (Suc j) (Suc i)"
      using st(1,3) u v by (auto simp: copy_string.simps [of b j i])
    with other "3.IH"(2) [OF _ _ st(2)] show ?thesis by (auto simp: case_prod_beta)
  qed
qed

subsection \<open>The main loop\<close>

text \<open>At a slash that starts no comment the loop makes no progress.\<close>

lemma minify_loop_stuck:
  assumes "minify_loop b j i = Some r"
  shows "\<not> (peek b j = Some 47 \<and> (\<exists>d. peek b (Suc j) = Some d \<and> d \<notin> {47, 42}))"
proof (rule minify_loop.raw_induct [of "\<lambda>b j i r. \<not> (peek b j = Some 47 \<and> (\<exists>d. peek b (Suc j) = Some d \<and> d \<notin> {47, 42}))",
    OF _ assms])
qed (fastforce split: if_split_asm)

lemma minify_loop_None:
  "peek b j = Some 47 \<Longrightarrow> peek b (Suc j) = Some d \<Longrightarrow> d \<noteq> 47 \<Longrightarrow> d \<noteq> 42 \<Longrightarrow> minify_loop b j i = None"
  using minify_loop_stuck [of b j i] by (cases "minify_loop b j i") auto

lemma minify_loop_stands:
  "stands b j i s u \<Longrightarrow>
    (case minified s of
       None \<Rightarrow> minify_loop b j i = None
     | Some t \<Rightarrow> (\<exists>b'. minify_loop b j i = Some (b', i + length t) \<and> length b' = length b \<and>
         take (i + length t) b' = map Some (u @ t)))"
proof (induction s arbitrary: b j i u rule: minified.induct)
  case 1
  then have "peek b j = Some 0" by (auto simp: stands_def unread_Nil)
  with 1 show ?case by (simp add: minify_loop.simps [of b j i] stands_def)
next
  case (2 c s)
  have u: "peek b j = Some c" "c \<noteq> 0" "unread b (Suc j) s" using "2.prems" unread_Cons [of b j c s] by (auto simp: stands_def)
  have st: "i \<le> j" "length u = i" "take i b = map Some u" using "2.prems" by (auto simp: stands_def)
  consider (blank) "blank_byte c" | (slash) "c = 47" | (quote) "c = 34" | (other) "\<not> blank_byte c" "c \<noteq> 47" "c \<noteq> 34" by blast
  then show ?case
  proof cases
    case blank
    then have "minify_loop b j i = minify_loop b (Suc j) i" using u by (auto simp: minify_loop.simps [of b j i] blank_byte_def)
    moreover have "stands b (Suc j) i s u" using st u(3) by (simp add: stands_def)
    ultimately show ?thesis using "2.IH"(1) [OF blank, of b "Suc j" i u] blank by (simp only: minified.simps if_True)
  next
    case slash
    show ?thesis
    proof (cases s)
      case Nil
      with u have "peek b (Suc j) = Some 0" by (simp add: unread_Nil)
      with minify_loop_None [of b j 0 i] u slash have "minify_loop b j i = None" by simp
      with Nil slash show ?thesis by (simp add: blank_byte_def)
    next
      case (Cons d s')
      have v: "peek b (Suc j) = Some d" "unread b (Suc (Suc j)) s'" using u(3) Cons unread_Cons [of b "Suc j" d s'] by auto
      consider (line) "d = 47" | (comment) "d = 42" | (lone) "d \<noteq> 47" "d \<noteq> 42" by blast
      then show ?thesis
      proof cases
        case line
        from find_newline_unread [OF v(2)] obtain k where
          k: "find_newline b (Suc (Suc j)) = Some k" "Suc (Suc j) \<le> k" "unread b k (after_line s')" by blast
        then have "minify_loop b j i = minify_loop b k i"
          using u v slash line by (simp add: minify_loop.simps [of b j i] skip_oneline_comment_def)
        moreover have "stands b k i (after_line s') u" using st k by (simp add: stands_def)
        ultimately show ?thesis using "2.IH"(2) [OF _ slash Cons line, of b k i u] slash Cons line by (simp add: blank_byte_def split: option.splits)
      next
        case comment
        from find_comment_end_unread [OF v(2)] obtain k where
          k: "find_comment_end b (Suc (Suc j)) = Some k" "Suc (Suc j) \<le> k" "unread b k (after_comment s')" by blast
        then have "minify_loop b j i = minify_loop b k i"
          using u v slash comment by (simp add: minify_loop.simps [of b j i] skip_multiline_comment_def)
        moreover have "stands b k i (after_comment s') u" using st k by (simp add: stands_def)
        ultimately show ?thesis using "2.IH"(3) [OF _ slash Cons _ comment, of b k i u] slash Cons comment by (simp add: blank_byte_def split: option.splits)
      next
        case lone
        with minify_loop_None [of b j d i] u v slash have "minify_loop b j i = None" by simp
        with Cons slash lone show ?thesis by (simp add: blank_byte_def)
      qed
    qed
  next
    case quote
    note p = stands_step [OF "2.prems"]
    from copy_string_stands [OF p(2)] obtain b' j' i' where
      c: "copy_string (b[i := Some c]) (Suc j) (Suc i) = Some (b', j', i')" "length b' = length b"
      "stands b' j' i' (snd (literal s)) ((u @ [c]) @ fst (literal s))" by auto
    have m: "minify_loop b j i = minify_loop b' j' i'"
      using u p(1) c(1) quote by (simp add: minify_loop.simps [of b j i] minify_string_def)
    have "i' = Suc i + length (fst (literal s))" using c(3) st by (simp add: stands_def)
    with m "2.IH"(4) [OF _ _ quote c(3)] c(2) quote show ?thesis
      by (auto simp: blank_byte_def add.assoc split: option.splits)
  next
    case other
    note p = stands_step [OF "2.prems"]
    have m: "minify_loop b j i = minify_loop (b[i := Some c]) (Suc j) (Suc i)"
      using u p(1) other by (simp add: minify_loop.simps [of b j i] blank_byte_def)
    with "2.IH"(5) [OF _ _ _ p(2)] other show ?thesis by (auto split: option.splits)
  qed
qed

text \<open>In a block that holds the string \<open>s\<close>, perhaps followed by more.\<close>

lemma cJSON_Minify_eq:
  assumes "load_str p h = Some b" and "cstring b = Some s"
  shows "case minified s of None \<Rightarrow> cJSON_Minify p h = None
    | Some t \<Rightarrow> (\<exists>b'. cJSON_Minify p h = Some (setj p (StrC b') h) \<and> cstring b' = Some t \<and> length b' = length b)"
proof -
  from cstring_SomeD [OF assms(2)] obtain r where r: "0 \<notin> set s" "b = map Some s @ Some 0 # r" by blast
  have u: "stands b 0 0 s []" using r by (auto simp: stands_def unread_def)
  have p: "p \<noteq> NULL" using assms(1) by (auto simp: load_str_def load_def)
  show ?thesis
  proof (cases "minified s")
    case None
    with minify_loop_stands [OF u] p assms(1) show ?thesis by (simp add: cJSON_Minify_def)
  next
    case (Some t)
    with minify_loop_stands [OF u] obtain b' where
      b': "minify_loop b 0 0 = Some (b', length t)" "length b' = length b" "take (length t) b' = map Some t" by auto
    have l: "length t < length b'" using minified_shorter [OF Some] b'(2) r(2) by simp
    let ?b = "b'[length t := Some 0]"
    have "take (Suc (length t)) ?b = map Some (t @ [0])" by (rule take_update) (use b'(3) l in simp_all)
    then have "?b = map Some t @ Some 0 # drop (Suc (length t)) ?b"
      using append_take_drop_id [of "Suc (length t)" ?b] by simp
    then have "cstring ?b = cstring (map Some t @ Some 0 # drop (Suc (length t)) ?b)" by (rule arg_cong)
    moreover have "0 \<notin> set t" using minified_set [OF Some] r(1) by blast
    ultimately have "cstring ?b = Some t" by (simp add: cbuf_simps)
    then show ?thesis using Some p assms(1) b' l
      by (auto simp: cJSON_Minify_def poke_def store_def setj_def load_str_Some_iff [symmetric] intro!: exI [of _ ?b])
        (simp_all add: load_str_Some_iff)
  qed
qed

subsection \<open>On the texts of values\<close>

text \<open>No string or name ends in a backslash.\<close>

definition no_trail :: "byte list \<Rightarrow> bool" where
  "no_trail s \<longleftrightarrow> s = [] \<or> last s \<noteq> 92"

fun trails_ok :: "json \<Rightarrow> bool"
  and trails_ok_elements :: "json list \<Rightarrow> bool"
  and trails_ok_members :: "(byte list \<times> json) list \<Rightarrow> bool" where
  "trails_ok JNull = True"
| "trails_ok JFalse = True"
| "trails_ok JTrue = True"
| "trails_ok (JNum x) = True"
| "trails_ok (JStr s) = no_trail s"
| "trails_ok (JArr js) = trails_ok_elements js"
| "trails_ok (JObj ms) = trails_ok_members ms"
| "trails_ok_elements [] = True"
| "trails_ok_elements (j # js) = (trails_ok j \<and> trails_ok_elements js)"
| "trails_ok_members [] = True"
| "trails_ok_members ((k, j) # ms) = (no_trail k \<and> trails_ok j \<and> trails_ok_members ms)"

lemma literal_plain: "c \<noteq> 34 \<Longrightarrow> c \<noteq> 92 \<or> s = [] \<or> hd s \<noteq> 34 \<Longrightarrow> literal (c # s) = (c # fst (literal s), snd (literal s))"
  by (cases s) (auto simp: case_prod_beta)

lemma literal_plains: "34 \<notin> set u \<Longrightarrow> 92 \<notin> set u \<Longrightarrow> literal (u @ s) = (u @ fst (literal s), snd (literal s))"
  by (induction u) (auto simp: literal_plain)

lemma hd_escaped: "hd (escaped (c # s) @ r) \<noteq> 34"
  by (auto split: option.split)

lemma literal_escaped: "no_trail s \<Longrightarrow> literal (escaped s @ 34 # r) = (escaped s @ [34], r)"
proof (induction s)
  case Nil
  show ?case by (cases r) auto
next
  case (Cons c s)
  have t: "no_trail s" using Cons.prems by (auto simp: no_trail_def split: if_splits)
  let ?r = "escaped s @ 34 # r"
  have IH: "literal ?r = (escaped s @ [34], r)" using Cons.IH t .
  consider (slash) "c = 92" | (quote) "c = 34" | (plain) "31 < c" "c \<noteq> 34" "c \<noteq> 92"
    | (named) x where "short_escape c = Some x" "\<not> (31 < c \<and> c \<noteq> 34 \<and> c \<noteq> 92)" "c \<noteq> 34" "c \<noteq> 92"
    | (coded) "short_escape c = None" "c < 32" "\<not> (31 < c \<and> c \<noteq> 34 \<and> c \<noteq> 92)"
    by (cases c rule: escaped_cases) blast+
  then show ?case
  proof cases
    case slash
    then obtain d s' where s: "s = d # s'" using Cons.prems by (cases s) (auto simp: no_trail_def)
    have "hd ?r \<noteq> 34" unfolding s by (rule hd_escaped)
    then have "literal (92 # ?r) = (92 # escaped s @ [34], r)" using literal_plain [of 92 ?r] IH by simp
    then have "literal (92 # 92 # ?r) = (92 # 92 # escaped s @ [34], r)" using literal_plain [of 92 "92 # ?r"] by simp
    with slash show ?thesis by (simp add: short_escape_def)
  next
    case quote
    with IH show ?thesis by (simp add: short_escape_def)
  next
    case plain
    with IH literal_plain [of c ?r] show ?thesis by simp
  next
    case named
    then have "x \<noteq> 34" "x \<noteq> 92" by (auto simp: short_escape_def split: if_splits)
    with IH literal_plain [of x ?r] literal_plain [of 92 "x # ?r"] named show ?thesis by simp
  next
    case coded
    have "34 \<notin> set (u04x c)" "92 \<notin> set (u04x c)" "hd (u04x c @ ?r) \<noteq> 34"
      using hex_char_nibble byte_nibbles [of c] coded(2) by (auto simp: u04x_def)
    with IH literal_plains [of "u04x c" ?r] literal_plain [of 92 "u04x c @ ?r"] coded(1)
      show ?thesis unfolding escaped.simps if_not_P [OF coded(3)] by simp
  qed
qed

text \<open>The text \<open>u\<close> becomes \<open>v\<close>, whatever follows it.\<close>

definition becomes :: "byte list \<Rightarrow> byte list \<Rightarrow> bool" where
  "becomes u v \<longleftrightarrow> (\<forall>r. minified (u @ r) = (case minified r of None \<Rightarrow> None | Some m \<Rightarrow> Some (v @ m)))"

definition solid :: "byte \<Rightarrow> bool" where
  "solid c \<longleftrightarrow> \<not> blank_byte c \<and> c \<noteq> 47 \<and> c \<noteq> 34"

lemma becomes_Nil: "becomes [] []"
  by (simp add: becomes_def split: option.split)

lemma becomes_append: "becomes u v \<Longrightarrow> becomes u' v' \<Longrightarrow> becomes (u @ u') (v @ v')"
  by (simp add: becomes_def split: option.split)

lemma becomes_solid: "\<forall>c \<in> set u. solid c \<Longrightarrow> becomes u u"
proof (induction u)
  case (Cons c u)
  have "becomes [c] [c]" using Cons.prems by (simp add: becomes_def solid_def split: option.split)
  from becomes_append [OF this Cons.IH] Cons.prems show ?case by simp
qed (rule becomes_Nil)

lemma becomes_blank: "\<forall>c \<in> set u. blank_byte c \<Longrightarrow> becomes u []"
proof (induction u)
  case (Cons c u)
  have "becomes [c] []" using Cons.prems becomes_Nil by (simp add: becomes_def)
  from becomes_append [OF this Cons.IH] Cons.prems show ?case by simp
qed (rule becomes_Nil)

lemma becomes_quote: "no_trail s \<Longrightarrow> becomes (quote s) (quote s)"
  unfolding becomes_def
proof
  fix r
  assume "no_trail s"
  then have "literal (escaped s @ 34 # r) = (escaped s @ [34], r)" by (rule literal_escaped)
  then have "minified (quote s @ r) = map_option (\<lambda>m. 34 # (escaped s @ [34]) @ m) (minified r)"
    by (simp add: quote_def blank_byte_def)
  then show "minified (quote s @ r) = (case minified r of None \<Rightarrow> None | Some m \<Rightarrow> Some (quote s @ m))"
    by (cases "minified r") (simp_all add: quote_def)
qed

lemma becomes_number: "f64_finite x \<Longrightarrow> becomes (number_text x) (number_text x)"
  by (rule becomes_solid) (use number_text_char [of x] in \<open>fastforce simp: f64_finite_iff number_char_def solid_def blank_byte_def\<close>)

lemma becomes_format:
  "becomes (comma True) (comma False)" "becomes (colon True) (colon False)"
  "becomes (newline True) (newline False)" "becomes (tabs True d) (tabs False e)"
proof -
  have b: "becomes [32] []" "becomes [9] []" by (rule becomes_blank; simp add: blank_byte_def)+
  have s: "becomes [c] [c]" if "solid c" for c by (rule becomes_solid) (simp add: that)
  from becomes_append [OF s b(1), of 44] show "becomes (comma True) (comma False)"
    by (simp add: comma_def solid_def blank_byte_def)
  from becomes_append [OF s b(2), of 58] show "becomes (colon True) (colon False)"
    by (simp add: colon_def solid_def blank_byte_def)
  show "becomes (newline True) (newline False)"
    unfolding newline_def by (simp, rule becomes_blank) (simp add: blank_byte_def)
  show "becomes (tabs True d) (tabs False e)"
    unfolding tabs_def by (simp, rule becomes_blank) (simp add: blank_byte_def)
qed

lemma becomes_punct: "becomes [44] [44]" "becomes [91] [91]" "becomes [93] [93]" "becomes [123] [123]" "becomes [125] [125]"
  by (rule becomes_solid; simp add: solid_def blank_byte_def)+

lemmas becomes_intros = becomes_punct becomes_Nil becomes_append becomes_format becomes_number becomes_quote

lemma becomes_json_text:
  "good j \<Longrightarrow> trails_ok j \<Longrightarrow> becomes (json_text True d j) (json_text False e j)"
  "good_elements js \<Longrightarrow> trails_ok_elements js \<Longrightarrow> becomes (elements_text True d js) (elements_text False e js)"
  "good_members ms \<Longrightarrow> trails_ok_members ms \<Longrightarrow> becomes (members_text True d ms) (members_text False e ms)"
proof (induction j and js and ms arbitrary: d e and d e and d e rule: trails_ok_trails_ok_elements_trails_ok_members.induct)
  case 1
  show ?case unfolding json_text.simps by (rule becomes_solid) (simp add: solid_def blank_byte_def)
next
  case 2
  show ?case unfolding json_text.simps by (rule becomes_solid) (simp add: solid_def blank_byte_def)
next
  case 3
  show ?case unfolding json_text.simps by (rule becomes_solid) (simp add: solid_def blank_byte_def)
next
  case (6 js)
  then show ?case unfolding json_text.simps by (intro becomes_intros) simp_all
next
  case (7 ms)
  then show ?case unfolding json_text.simps by (intro becomes_intros) simp_all
next
  case (9 j js)
  then show ?case unfolding elements_text.simps by (auto intro!: becomes_intros)
next
  case (11 k j ms)
  have "becomes (if ms = [] then [] else [44]) (if ms = [] then [] else [44])" by (simp add: becomes_intros)
  with 11 show ?case unfolding members_text.simps by (intro becomes_intros) simp_all
qed (simp_all add: becomes_Nil becomes_number becomes_quote)

lemma minified_json_text: "good j \<Longrightarrow> trails_ok j \<Longrightarrow> minified (json_text True d j) = Some (json_text False e j)"
  using becomes_json_text(1) [of j d e, unfolded becomes_def, THEN spec [of _ "[]"]] by simp

end
