(* ===== verification/CJsonRoundClaims.thy ===== *)
theory CJsonRoundClaims
  imports CJsonClaims CJsonMinify
begin

text \<open>
  The parser and the printer together: what is printed is parsed to the same value, and numbers
  survive bit by bit.  \<open>cJSON_Minify\<close> turns the formatted text into the unformatted one.
\<close>

text \<open>C1: printing a tree, formatted or not, and parsing the text in any heap gives a new tree for the same
  JSON value: the same structure, names, strings byte by byte (UTF-8 and control characters included)
  and numbers bit by bit.\<close>

theorem print_parse_roundtrip:
  assumes "wf_heap h" and "items_at h a [t] c" and "height [t] \<le> n" and "json_of t = Some j" and "good j"
    and "nest j \<le> CJSON_NESTING_LIMIT" and "length (json_text fmt 0 j) + 2 \<le> INT_MAX" and "True \<notin> set (oom h)"
    and "wf_heap g" and "oom g = []"
  shows "\<exists>p s h'. (if fmt then cJSON_Print n (jaddr t) hk h else cJSON_PrintUnformatted n (jaddr t) hk h) = Some (p, h') \<and>
    read_str p h' = Some s \<and>
    (\<exists>item g' t'. cJSON_Parse (Some s) g = Some (item, None, None, g') \<and> item = jaddr t' \<and> item \<noteq> NULL \<and>
       items_at g' NULL [t'] NULL \<and> json_of t' = Some j)"
proof -
  let ?s = "json_text fmt 0 j"
  have r: "render fmt 0 t = Some ?s" using assms(4) by (rule render_text(1))
  from print_text_outcome [OF assms(1,2,3), of fmt hk] r assms(7,8) obtain p h' where
    p: "print_text n (jaddr t) fmt hk h = Some (p, h')" "text_outcome fmt t h (\<lambda>b s. b = str_buf s) p h'" "p \<noteq> NULL"
    by auto
  have "load p h' = Some (StrC (str_buf ?s))" using p(2,3) r by (auto simp: text_outcome_def)
  then have s: "read_str p h' = Some ?s" using render_not_0(1) [OF assms(2) r] by (simp add: read_str_def load_str_def)
  show ?thesis
    using p(1) s parse_json_text [OF assms(5,6,9,10), of fmt 0 False False]
    by (auto simp: cJSON_Print_def cJSON_PrintUnformatted_def cJSON_Parse_def)
qed

theorem print_parse_roundtrip_witness:
  "\<exists>p s h' item g' t'. cJSON_Print 2 1 (cJSON_InitHooks None) ex_json = Some (p, h') \<and> read_str p h' = Some s \<and>
    cJSON_Parse (Some s) ex_json = Some (item, None, None, g') \<and> items_at g' NULL [t'] NULL \<and>
    json_of t' = Some (JArr [JTrue, JStr [104, 105], JNull])"
proof -
  let ?j = "JArr [JTrue, JStr [104, 105], JNull]"
  have h: "height [ex_array] \<le> 2" "jaddr ex_array = 1" by (simp_all add: ex_array_def ex_items_def)
  have j: "json_of ex_array = Some ?j" by (simp add: ex_array_def ex_items_def ctype_defs str_of_def)
  have g: "good ?j" "nest ?j \<le> CJSON_NESTING_LIMIT" by (simp_all add: CJSON_NESTING_LIMIT_def)
  have l: "length (json_text True 0 ?j) + 2 \<le> INT_MAX" by (simp add: comma_def quote_def INT_MAX_def)
  from print_parse_roundtrip [OF ex_json_wf(1) ex_json_items(1) h(1) j g l _ ex_json_wf(1,2), of "cJSON_InitHooks None"]
  show ?thesis unfolding h(2) by auto
qed

text \<open>C26: a finite number that \<open>print_number\<close> writes is parsed back by \<open>parse_number\<close> to the same
  64 bits, whatever follows it, and exactly its text is consumed: 15 significant digits are used only when
  they are enough, 17 always are.\<close>

theorem number_roundtrip:
  assumes "f64_finite x" and "content_ok b" and "drop (offset b) (content b) = number_text x @ c # r"
    and "\<not> number_char c" and "load_item item h = Some i"
  shows "\<exists>v. int_of_number x = Some v \<and> parse_number item b h =
    Some (True, b\<lparr>offset := offset b + length (number_text x)\<rparr>,
      setj item (ItemC (i\<lparr>valuedouble := x, valueint := v, itype := cJSON_Number\<rparr>)) h)"
  using parse_number_text [OF assms(1-3) _ assms(5)] assms(4) by simp

theorem number_roundtrip_witness:
  "\<exists>v h'. parse_number 5
      \<lparr>content = number_text 0x3FF8000000000000 @ [44, 0], len = length (number_text 0x3FF8000000000000) + 2,
       offset = 0, depth = 0\<rparr> ex_json =
      Some (True, \<lparr>content = number_text 0x3FF8000000000000 @ [44, 0], len = length (number_text 0x3FF8000000000000) + 2,
       offset = length (number_text 0x3FF8000000000000), depth = 0\<rparr>, h') \<and>
    load_item 5 h' = Some \<lparr>inext = 0, iprev = 0, child = 0, itype = cJSON_Number, valuestring = 0, valueint = v,
       valuedouble = 0x3FF8000000000000, key = 0\<rparr>"
proof -
  let ?x = "0x3FF8000000000000 :: f64"
  let ?b = "\<lparr>content = number_text ?x @ [44, 0], len = length (number_text ?x) + 2, offset = 0, depth = 0\<rparr>"
  have f: "f64_finite ?x" by (simp add: f64_finite_def f64_exp_def)
  have C: "content_ok ?b" by (simp add: content_ok_def)
  have i: "load_item 5 ex_json = Some \<lparr>inext = 0, iprev = 0, child = 0, itype = cJSON_False, valuestring = 0,
      valueint = 0, valuedouble = 0, key = 0\<rparr>"
    by (simp add: load_item_def load_def NULL_def) (simp add: ex_json_def ex_cell_def)
  from number_roundtrip [OF f C _ _ i, of 44 "[0]"] show ?thesis by (auto simp: load_item_setj [OF load_item_not_NULL [OF i]])
qed

text \<open>C25: \<open>cJSON_Minify\<close> works in place as the list function \<open>minified\<close> says - white space and both kinds of
  comments are dropped outside of literals - reads and writes only inside the block and changes no other
  block; the text never grows.  It does not return exactly where that function is undefined: at a slash
  that starts no comment.\<close>

theorem minify_exact:
  assumes "load_str p h = Some b" and "cstring b = Some s"
  shows "(cJSON_Minify p h = None) = (minified s = None) \<and>
    (\<forall>t. minified s = Some t \<longrightarrow> length t \<le> length s \<and>
      (\<exists>h'. cJSON_Minify p h = Some h' \<and> read_str p h' = Some t \<and> (\<forall>q. q \<noteq> p \<longrightarrow> load q h' = load q h)))"
proof (cases "minified s")
  case None
  with cJSON_Minify_eq [OF assms] show ?thesis by simp
next
  case (Some t)
  with cJSON_Minify_eq [OF assms] obtain b' where
    b': "cJSON_Minify p h = Some (setj p (StrC b') h)" "cstring b' = Some t" by auto
  have "p \<noteq> NULL" using assms(1) by (auto simp: load_str_def load_def)
  with Some b' minified_shorter [OF Some] show ?thesis
    by (auto simp: read_str_def load_str_def load_setj)
qed

theorem minify_exact_witness:
  "(\<exists>h'. cJSON_Minify 15 (setj 15 (StrC (str_buf [49, 32, 47, 42, 50, 42, 47, 51])) ex_json) = Some h' \<and>
    read_str 15 h' = Some [49, 51]) \<and>
  cJSON_Minify 15 (setj 15 (StrC (str_buf [49, 47, 50])) ex_json) = None"
proof -
  have l: "load_str 15 (setj 15 (StrC b) ex_json) = Some b" for b by (simp add: load_str_def load_setj NULL_def)
  have "\<exists>h'. cJSON_Minify 15 (setj 15 (StrC (str_buf [49, 32, 47, 42, 50, 42, 47, 51])) ex_json) = Some h' \<and>
    read_str 15 h' = Some [49, 51]"
    using minify_exact [OF l, of "str_buf [49, 32, 47, 42, 50, 42, 47, 51]" "[49, 32, 47, 42, 50, 42, 47, 51]"]
    by (auto simp: blank_byte_def)
  moreover have "cJSON_Minify 15 (setj 15 (StrC (str_buf [49, 47, 50])) ex_json) = None"
    using minify_exact [OF l, of "str_buf [49, 47, 50]" "[49, 47, 50]"] by (simp add: blank_byte_def)
  ultimately show ?thesis ..
qed

text \<open>minifying the formatted text of a value gives its unformatted text, provided that no string and no
  name in it ends in a backslash.\<close>

theorem minify_formatted:
  assumes "load_str p h = Some b" and "cstring b = Some (json_text True 0 j)" and "good j" and "trails_ok j"
  shows "\<exists>h'. cJSON_Minify p h = Some h' \<and> read_str p h' = Some (json_text False 0 j) \<and>
    (\<forall>q. q \<noteq> p \<longrightarrow> load q h' = load q h)"
proof -
  have "p \<noteq> NULL" using assms(1) by (auto simp: load_str_def load_def)
  with cJSON_Minify_eq [OF assms(1,2)] minified_json_text [OF assms(3,4), of 0 0] show ?thesis
    by (auto simp: read_str_def load_str_def load_setj)
qed

theorem minify_formatted_witness:
  "\<exists>h'. cJSON_Minify 15 (setj 15 (StrC (str_buf [123, 10, 9, 34, 97, 34, 58, 9, 91, 116, 114, 117, 101, 93, 10, 125])) ex_json)
      = Some h' \<and> read_str 15 h' = Some [123, 34, 97, 34, 58, 91, 116, 114, 117, 101, 93, 125]"
proof -
  let ?j = "JObj [([97], JArr [JTrue])]"
  let ?b = "str_buf [123, 10, 9, 34, 97, 34, 58, 9, 91, 116, 114, 117, 101, 93, 10, 125]"
  have l: "load_str 15 (setj 15 (StrC ?b) ex_json) = Some ?b" by (simp add: load_str_def load_setj NULL_def)
  have "cstring ?b = Some (json_text True 0 ?j)" by (simp add: newline_def tabs_def colon_def quote_def)
  from minify_formatted [OF l this] show ?thesis
    by (auto simp: no_trail_def newline_def tabs_def colon_def quote_def)
qed

text \<open>a string that ends in a backslash breaks \<open>cJSON_Minify\<close>: it takes the closing quote for an escaped
  one, and from there on the inside of the literals for the outside.  The text \<open>["\\", " "]\<close> becomes
  \<open>["\\", ""]\<close>.\<close>

theorem minify_trailing_backslash:
  assumes "read_str p h = Some (json_text True 0 (JArr [JStr [92], JStr [32]]))"
  shows "\<exists>h'. cJSON_Minify p h = Some h' \<and>
    read_str p h' = Some [91, 34, 92, 92, 34, 44, 32, 34, 34, 93]"
proof -
  let ?s = "json_text True 0 (JArr [JStr [92], JStr [32]])"
  obtain b where b: "load_str p h = Some b" "cstring b = Some ?s" using assms by (auto simp: read_str_def bind_eq_Some_conv)
  have p: "p \<noteq> NULL" using b(1) by (auto simp: load_str_def load_def)
  have "minified ?s = Some [91, 34, 92, 92, 34, 44, 32, 34, 34, 93]"
    by (simp add: comma_def quote_def short_escape_def blank_byte_def)
  with cJSON_Minify_eq [OF b] p show ?thesis by (auto simp: read_str_def load_str_def load_setj)
qed

theorem minify_trailing_backslash_witness:
  "\<exists>h'. cJSON_Minify 15 (setj 15 (StrC (str_buf [91, 34, 92, 92, 34, 44, 32, 34, 32, 34, 93])) ex_json) = Some h' \<and>
    read_str 15 h' = Some [91, 34, 92, 92, 34, 44, 32, 34, 34, 93]"
  by (rule minify_trailing_backslash)
    (simp add: read_str_def load_str_def load_setj NULL_def comma_def quote_def short_escape_def)

end
