(* ===== verification/CJsonDup.thy ===== *)
theory CJsonDup
  imports CJsonCopy CJsonSafe CJsonValue
begin

text \<open>
  \<open>cJSON_Duplicate\<close>.  The unfinished copy is a well-formed tree at all times, so that the jump to
  \<open>fail\<close> can delete it: \<open>copied h0 h S ts\<close> says that since \<open>h0\<close> exactly the blocks of the copy \<open>ts\<close> were
  allocated, apart from constant names, which it shares with the original, whose blocks are \<open>S\<close>.
\<close>

subsection \<open>Copies\<close>

fun sound :: "addr set \<Rightarrow> jtree list \<Rightarrow> bool" where
  "sound S [] = True"
| "sound S (JT p ty vs vi vd k ks # ts) =
     (\<not> is_reference ty \<and> (string_is_const ty \<longrightarrow> set (ptrs k) \<subseteq> S) \<and> sound S ks \<and> sound S ts)"

text \<open>The same items, apart from the addresses and the reference flags.\<close>

fun alike :: "jtree list \<Rightarrow> jtree list \<Rightarrow> bool" where
  "alike [] [] = True"
| "alike (JT p ty vs vi vd k ks # ts) (JT p' ty' vs' vi' vd' k' ks' # us) =
     (ty' = ty AND NOT cJSON_IsReference \<and> map_option snd vs' = map_option snd vs \<and> vi' = vi \<and> vd' = vd \<and>
      map_option snd k' = map_option snd k \<and> (string_is_const ty \<longrightarrow> k' = k) \<and> alike ks ks' \<and> alike ts us)"
| "alike _ _ = False"

definition copied :: "jheap \<Rightarrow> jheap \<Rightarrow> addr set \<Rightarrow> jtree list \<Rightarrow> bool" where
  "copied h0 h S ts \<longleftrightarrow> wf_heap h \<and> items_at h NULL ts NULL \<and> sound S ts \<and> distinct (foot ts) \<and>
     (\<forall>q \<in> set (foot ts). load q h0 = None) \<and> (\<forall>q. q \<notin> set (foot ts) \<longrightarrow> load q h = load q h0)"

definition live :: "jheap \<Rightarrow> addr set \<Rightarrow> bool" where
  "live h S \<longleftrightarrow> (\<forall>q \<in> S. load q h \<noteq> None)"

lemma sound_append [simp]: "sound S (ts @ us) = (sound S ts \<and> sound S us)"
  by (induction S ts rule: sound.induct) auto

lemma sound_mono: "sound S ts \<Longrightarrow> S \<subseteq> T \<Longrightarrow> sound T ts"
  by (induction S ts rule: sound.induct) auto

lemma sound_blocks: "sound S ts \<Longrightarrow> set (blocks ts) \<subseteq> set (foot ts) \<union> S"
  by (induction S ts rule: sound.induct) auto

lemma alike_append: "alike ts us \<Longrightarrow> alike ts' us' \<Longrightarrow> alike (ts @ ts') (us @ us')"
  by (induction ts us rule: alike.induct) auto

lemma alike_Nil [simp]: "alike ts [] = (ts = [])" "alike [] us = (us = [])"
  by (cases ts rule: foot.cases; simp) (cases us rule: foot.cases; simp)

lemma live_items: "items_at h a ts b \<Longrightarrow> live h (set (blocks ts))"
  using items_at_live by (auto simp: live_def)

lemma live_mono: "live h T \<Longrightarrow> S \<subseteq> T \<Longrightarrow> live h S"
  by (auto simp: live_def)

lemma copied_keeps: "copied h0 h S ts \<Longrightarrow> load q h0 \<noteq> None \<Longrightarrow> load q h = load q h0"
  unfolding copied_def by metis

lemma copied_cong:
  "copied h0 h S ts \<Longrightarrow> wf_heap h' \<Longrightarrow> (\<And>q. load q h' = load q h) \<Longrightarrow> copied h0 h' S ts"
  using items_at_cong [of ts h' h] by (simp add: copied_def)

lemma copied_source: "copied h0 h S us \<Longrightarrow> items_at h0 a ts b \<Longrightarrow> items_at h a ts b"
  using items_at_cong [of ts h h0] copied_keeps [of h0 h S us] items_at_live [of h0 a ts b] by blast

lemma copied_delete:
  assumes "copied h0 h S [t]"
  shows "\<exists>h'. cJSON_Delete (jaddr t) h = Some h' \<and> wf_heap h' \<and> oom h' = oom h \<and> (\<forall>q. load q h' = load q h0)"
proof -
  have "cJSON_Delete (first_addr [t] NULL) h = Some (clr_all (foot [t]) h)"
    using assms by (intro cJSON_Delete_owned items_owned) (auto simp: copied_def)
  moreover have "wf_heap (clr_all (foot [t]) h)" using assms by (simp add: copied_def clr_all_def)
  ultimately show ?thesis using assms by (auto simp: copied_def load_clr_all)
qed

text \<open>The root of an unfinished copy is not one of its other blocks.\<close>

lemma copied_root:
  assumes C: "copied h0 h S [JT p ty vs vi vd k us]" and S: "live h0 S"
  shows "p \<notin> set (blocks us)" and "p \<notin> set (ptrs vs)" and "p \<notin> set (ptrs k)" and "p \<noteq> NULL" and "p \<notin> S"
    and "load_item p h = Some \<lparr>inext = NULL, iprev = NULL, child = first_addr us NULL, itype = ty,
      valuestring = ptr_of vs, valueint = vi, valuedouble = vd, key = ptr_of k\<rparr>"
proof -
  from C have ty: "\<not> is_reference ty" and s: "sound S us" and d: "distinct (foot [JT p ty vs vi vd k us])"
    and f: "load p h0 = None" and l: "load_item p h = Some \<lparr>inext = NULL, iprev = NULL, child = first_addr us NULL,
      itype = ty, valuestring = ptr_of vs, valueint = vi, valuedouble = vd, key = ptr_of k\<rparr>"
    and k: "string_is_const ty \<Longrightarrow> set (ptrs k) \<subseteq> S"
    by (auto simp: copied_def)
  have pS: "p \<notin> S" using S f by (auto simp: live_def)
  then show "p \<notin> S" .
  show "p \<notin> set (blocks us)" using sound_blocks [OF s] d pS ty by auto
  show "p \<notin> set (ptrs vs)" using d ty by simp
  show "p \<notin> set (ptrs k)" using d k pS by (cases "string_is_const ty") auto
  show "p \<noteq> NULL" using l by (rule load_item_not_NULL)
  show "load_item p h = Some \<lparr>inext = NULL, iprev = NULL, child = first_addr us NULL, itype = ty,
      valuestring = ptr_of vs, valueint = vi, valuedouble = vd, key = ptr_of k\<rparr>" by (rule l)
qed

lemma copiedI:
  assumes "copied h0 h S [JT p ty vs vi vd k us]" and "live h0 S" and "wf_heap h'"
    and "load_item p h' = Some \<lparr>inext = NULL, iprev = NULL, child = first_addr us' NULL, itype = ty,
      valuestring = ptr_of vs', valueint = vi, valuedouble = vd, key = ptr_of k'\<rparr>"
    and "str_at h' vs'" and "str_at h' k'" and "items_at h' NULL us' NULL" and "sound S us'"
    and "string_is_const ty \<Longrightarrow> set (ptrs k') \<subseteq> S"
    and "distinct (foot us' @ ptrs vs' @ (if string_is_const ty then [] else ptrs k'))"
    and "\<And>q. q \<in> set (foot us' @ ptrs vs' @ (if string_is_const ty then [] else ptrs k')) \<Longrightarrow> load q h0 = None \<and> q \<noteq> p"
    and "\<And>q. q \<notin> set (foot [JT p ty vs' vi vd k' us']) \<Longrightarrow> load q h' = load q h0"
  shows "copied h0 h' S [JT p ty vs' vi vd k' us']"
proof -
  have ty: "\<not> is_reference ty" and p: "load p h0 = None" using assms(1) by (auto simp: copied_def)
  show ?thesis unfolding copied_def
    using assms(3-12) ty p by (auto split: if_splits)
qed

lemma copied_parts:
  assumes C: "copied h0 h S [JT p ty vs vi vd k us]"
  shows "wf_heap h" and "str_at h vs" and "str_at h k" and "items_at h NULL us NULL" and "sound S us"
    and "\<not> is_reference ty" and "string_is_const ty \<Longrightarrow> set (ptrs k) \<subseteq> S"
    and "distinct (foot us @ ptrs vs @ (if string_is_const ty then [] else ptrs k))"
    and "\<And>q. q \<in> set (foot us @ ptrs vs @ (if string_is_const ty then [] else ptrs k)) \<Longrightarrow> load q h0 = None \<and> q \<noteq> p"
    and "\<And>q. q \<notin> set (foot [JT p ty vs vi vd k us]) \<Longrightarrow> load q h = load q h0"
    and "load p h0 = None"
  using assms by (auto simp: copied_def split: if_splits)

text \<open>A block allocated now is not one of the copy or of the original.\<close>

lemma copied_brk:
  assumes C: "copied h0 h S ts"
  shows "brk h \<notin> set (blocks ts)" and "load (brk h) h0 = None" and "brk h \<noteq> NULL"
proof -
  have wf: "wf_heap h" using C by (simp add: copied_def)
  have f: "load (brk h) h = None" by (rule wf_heap_fresh [OF wf])
  then show "brk h \<notin> set (blocks ts)" using C items_at_live [of h NULL ts NULL "brk h"] by (auto simp: copied_def)
  show "load (brk h) h0 = None" using copied_keeps [OF C, of "brk h"] f by metis
  show "brk h \<noteq> NULL" by (rule wf_heap_brk_pos [OF wf])
qed

subsection \<open>The strings\<close>

lemma copied_value:
  assumes C: "copied h0 h S [JT p ty None vi vd k us]" and S: "live h0 S" and s: "0 \<notin> set s"
    and i: "load_item p h = Some i"
  shows "copied h0 (setj p (ItemC (i\<lparr>valuestring := brk h\<rparr>)) (newj (StrC (str_buf s)) h)) S
    [JT p ty (Some (brk h, s)) vi vd k us]"
proof -
  let ?b = "brk h" and ?h = "setj p (ItemC (i\<lparr>valuestring := brk h\<rparr>)) (newj (StrC (str_buf s)) h)"
  note r = copied_root [OF C S] and P = copied_parts [OF C] and b = copied_brk [OF C]
  have l: "load q ?h = (if q = p then Some (ItemC (i\<lparr>valuestring := ?b\<rparr>)) else if q = ?b then Some (StrC (str_buf s)) else load q h)" for q
    using r(4) P(1) by (simp add: load_setj load_newj)
  have bn: "?b \<noteq> p" "?b \<notin> set (blocks us)" "?b \<notin> set (ptrs k)" using b(1) by auto
  have bf: "?b \<notin> set (foot us)" using bn(2) foot_blocks by blast
  have "load ?b ?h = Some (StrC (str_buf s))" using l [of ?b] bn(1) by simp
  then have sb: "read_str ?b ?h = Some s" using s by (simp add: read_str_eqI)
  have ib: "items_at ?h NULL us NULL"
    by (rule items_at_cong [THEN iffD2, OF _ P(4)]) (use l r(1) bn in auto)
  have sk: "str_at ?h k" by (subst str_at_cong [of k _ h]) (use l r(3) bn P(3) in auto)
  have wf: "wf_heap ?h" using P(1) r(4,6) by (intro wf_setj wf_newj) (simp_all add: load_newj load_item_Some_iff)
  show ?thesis
    by (rule copiedI [OF C S wf _ _ sk ib P(5) P(7)])
      (use l r i sb b bn bf P in \<open>auto simp: load_item_Some_iff split: if_splits\<close>)
qed

lemma copied_key:
  assumes C: "copied h0 h S [JT p ty vs vi vd None us]" and S: "live h0 S" and s: "0 \<notin> set s"
    and i: "load_item p h = Some i" and ty: "\<not> string_is_const ty"
  shows "copied h0 (setj p (ItemC (i\<lparr>key := brk h\<rparr>)) (newj (StrC (str_buf s)) h)) S
    [JT p ty vs vi vd (Some (brk h, s)) us]"
proof -
  let ?b = "brk h" and ?h = "setj p (ItemC (i\<lparr>key := brk h\<rparr>)) (newj (StrC (str_buf s)) h)"
  note r = copied_root [OF C S] and P = copied_parts [OF C] and b = copied_brk [OF C]
  have l: "load q ?h = (if q = p then Some (ItemC (i\<lparr>key := ?b\<rparr>)) else if q = ?b then Some (StrC (str_buf s)) else load q h)" for q
    using r(4) P(1) by (simp add: load_setj load_newj)
  have bn: "?b \<noteq> p" "?b \<notin> set (blocks us)" "?b \<notin> set (ptrs vs)" using b(1) by auto
  have bf: "?b \<notin> set (foot us)" using bn(2) foot_blocks by blast
  have "load ?b ?h = Some (StrC (str_buf s))" using l [of ?b] bn(1) by simp
  then have sb: "read_str ?b ?h = Some s" using s by (simp add: read_str_eqI)
  have ib: "items_at ?h NULL us NULL"
    by (rule items_at_cong [THEN iffD2, OF _ P(4)]) (use l r(1) bn in auto)
  have sv: "str_at ?h vs" by (subst str_at_cong [of vs _ h]) (use l r(2) bn P(2) in auto)
  have wf: "wf_heap ?h" using P(1) r(4,6) by (intro wf_setj wf_newj) (simp_all add: load_newj load_item_Some_iff)
  show ?thesis
    by (rule copiedI [OF C S wf _ sv _ ib P(5)])
      (use l r i sb b bn bf P ty in \<open>auto simp: load_item_Some_iff split: if_splits\<close>)
qed

lemma copied_const_key:
  assumes C: "copied h0 h S [JT p ty vs vi vd None us]" and S: "live h0 S" and ty: "string_is_const ty"
    and q: "q \<in> S" "read_str q h = Some s" and i: "load_item p h = Some i"
  shows "copied h0 (setj p (ItemC (i\<lparr>key := q\<rparr>)) h) S [JT p ty vs vi vd (Some (q, s)) us]"
proof -
  let ?h = "setj p (ItemC (i\<lparr>key := q\<rparr>)) h"
  note r = copied_root [OF C S] and P = copied_parts [OF C]
  have l: "load x ?h = (if x = p then Some (ItemC (i\<lparr>key := q\<rparr>)) else load x h)" for x
    using r(4) by (simp add: load_setj)
  have "q \<noteq> p" using q(1) r(5) by auto
  then have sk: "read_str q ?h = Some s" using q(2) l by (subst read_str_cong) auto
  have ib: "items_at ?h NULL us NULL"
    by (rule items_at_cong [THEN iffD2, OF _ P(4)]) (use l r(1) in auto)
  have sv: "str_at ?h vs" by (subst str_at_cong [of vs _ h]) (use l r(2) P(2) in auto)
  show ?thesis
    by (rule copiedI [OF C S _ _ sv _ ib P(5)])
      (use l r i sk P ty q in \<open>auto simp: load_item_Some_iff split: if_splits\<close>)
qed

subsection \<open>Attaching a child\<close>

lemma sound_cell:
  assumes "sound S (us @ [t])" and "distinct (foot (us @ [t]))" and "set (foot (us @ [t])) \<inter> S = {}"
    and t: "t = JT p ty vs vi vd k ks"
  shows "p \<notin> set (blocks us)" and "p \<notin> set (blocks ks)" and "p \<notin> set (ptrs vs)" and "p \<notin> set (ptrs k)"
proof -
  have "sound S us" "sound S ks" "\<not> is_reference ty" "string_is_const ty \<longrightarrow> set (ptrs k) \<subseteq> S" using assms(1) t by auto
  with assms(2,3) t sound_blocks [of S us] sound_blocks [of S ks]
  show "p \<notin> set (blocks us)" "p \<notin> set (blocks ks)" "p \<notin> set (ptrs vs)" "p \<notin> set (ptrs k)"
    by (auto simp: foot_append split: if_splits)
qed

lemma sound_relink:
  assumes I: "items_at h a (us @ [t]) b" and s: "sound S (us @ [t])" and d: "distinct (foot (us @ [t]))"
    and S: "set (foot (us @ [t])) \<inter> S = {}"
  shows "\<exists>i. load_item (jaddr t) h = Some i \<and>
    items_at (setj (jaddr t) (ItemC (i\<lparr>inext := n\<rparr>)) h) a (us @ [t]) n"
proof -
  obtain p ty vs vi vd k ks where t: "t = JT p ty vs vi vd k ks" by (cases t)
  note c = sound_cell [OF s d S t]
  from I t obtain i where i: "load_item p h = Some i" and I': "items_at h a us p" "items_at h NULL ks NULL"
    "str_at h vs" "str_at h k" and ie: "i = \<lparr>inext = b, iprev = last_addr a us, child = first_addr ks NULL,
      itype = ty, valuestring = ptr_of vs, valueint = vi, valuedouble = vd, key = ptr_of k\<rparr>"
    by (auto simp: items_at_append)
  have pn: "p \<noteq> NULL" by (rule load_item_not_NULL [OF i])
  have "items_at (setj p (ItemC (i\<lparr>inext := n\<rparr>)) h) a us p = items_at h a us p"
    "items_at (setj p (ItemC (i\<lparr>inext := n\<rparr>)) h) NULL ks NULL = items_at h NULL ks NULL"
    "str_at (setj p (ItemC (i\<lparr>inext := n\<rparr>)) h) vs = str_at h vs"
    "str_at (setj p (ItemC (i\<lparr>inext := n\<rparr>)) h) k = str_at h k"
    using pn c by (auto intro!: items_at_cong str_at_cong simp: load_setj)
  then show ?thesis using i I' ie pn t by (auto simp: items_at_append load_item_setj)
qed

lemma sound_relink_prev:
  assumes I: "items_at h a [t] b" and s: "sound S [t]" and d: "distinct (foot [t])" and S: "set (foot [t]) \<inter> S = {}"
  shows "\<exists>i. load_item (jaddr t) h = Some i \<and> items_at (setj (jaddr t) (ItemC (i\<lparr>iprev := n\<rparr>)) h) n [t] b"
proof -
  obtain p ty vs vi vd k ks where t: "t = JT p ty vs vi vd k ks" by (cases t)
  have c: "p \<notin> set (blocks ks)" "p \<notin> set (ptrs vs)" "p \<notin> set (ptrs k)"
    using sound_cell [of S "[]" t, OF _ _ _ t] s d S by auto
  from I t obtain i where i: "load_item p h = Some i" and I': "items_at h NULL ks NULL"
    "str_at h vs" "str_at h k" and ie: "i = \<lparr>inext = b, iprev = a, child = first_addr ks NULL,
      itype = ty, valuestring = ptr_of vs, valueint = vi, valuedouble = vd, key = ptr_of k\<rparr>"
    by auto
  have pn: "p \<noteq> NULL" by (rule load_item_not_NULL [OF i])
  have "items_at (setj p (ItemC (i\<lparr>iprev := n\<rparr>)) h) NULL ks NULL = items_at h NULL ks NULL"
    "str_at (setj p (ItemC (i\<lparr>iprev := n\<rparr>)) h) vs = str_at h vs"
    "str_at (setj p (ItemC (i\<lparr>iprev := n\<rparr>)) h) k = str_at h k"
    using pn c by (auto intro!: items_at_cong str_at_cong simp: load_setj)
  then show ?thesis using i I' ie pn t by (auto simp: load_item_setj)
qed

text \<open>What the two branches of the loop body do to the heap.\<close>

definition attach_copy :: "addr \<Rightarrow> addr \<Rightarrow> addr \<Rightarrow> jheap \<Rightarrow> jheap option" where
  "attach_copy newitem last_copy c h =
     (if last_copy \<noteq> NULL then do {
        h \<leftarrow> upd_item last_copy (\<lambda>i. i\<lparr>inext := c\<rparr>) h;
        upd_item c (\<lambda>i. i\<lparr>iprev := last_copy\<rparr>) h }
      else upd_item newitem (\<lambda>i. i\<lparr>child := c\<rparr>) h)"

lemma copied_disjoint:
  assumes C: "copied h0 h S ts" and S: "live h0 S"
  shows "set (foot ts) \<inter> S = {}"
  using assms by (auto simp: copied_def live_def)

lemma copied_attach:
  assumes C: "copied h0 h S [JT p ty vs vi vd k us]" and S: "live h0 S" and T: "copied h h2 S' [t]" and S': "S' \<subseteq> S"
  shows "\<exists>h3. attach_copy p (last_addr NULL us) (jaddr t) h2 = Some h3 \<and> oom h3 = oom h2 \<and>
    copied h0 h3 S [JT p ty vs vi vd k (us @ [t])]"
proof -
  note r = copied_root [OF C S] and P = copied_parts [OF C]
  let ?root = "[JT p ty vs vi vd k us]"
  have I: "items_at h NULL ?root NULL" using C by (simp add: copied_def)
  have I2: "items_at h2 NULL ?root NULL" by (rule copied_source [OF T I])
  have wf2: "wf_heap h2" and It: "items_at h2 NULL [t] NULL" and st: "sound S [t]" and dt: "distinct (foot [t])"
    and fr: "\<And>q. q \<in> set (foot [t]) \<Longrightarrow> load q h = None" and un: "\<And>q. q \<notin> set (foot [t]) \<Longrightarrow> load q h2 = load q h"
    using T sound_mono [OF _ S', of "[t]"] by (auto simp: copied_def)
  have new: "q \<notin> set (blocks ?root)" if "q \<in> set (foot [t])" for q
    using fr [OF that] items_at_live [OF I, of q] by blast
  have bt: "q \<in> set (foot [t]) \<or> q \<in> S" if "q \<in> set (blocks [t])" for q using sound_blocks [OF st] that by blast
  have live_h: "load q h \<noteq> None" if "q \<in> S" for q using S that copied_keeps [OF C, of q] by (auto simp: live_def)
  have St: "set (foot [t]) \<inter> S = {}" using fr live_h by blast
  have f0: "load q h0 = None" if "q \<in> set (foot [t])" for q
    using fr [OF that] copied_keeps [OF C, of q] by fastforce
  have pt: "p \<notin> set (foot [t])" using new [of p] by auto
  then have ptb: "p \<notin> set (blocks [t])" using bt r(5) by blast
  have tp: "jaddr t \<in> set (foot [t])" by (cases t) simp
  have dj: "set (foot us) \<inter> set (foot [t]) = {}" using new foot_blocks [of us] by auto
  have I2': "items_at h2 NULL us NULL" "str_at h2 vs" "str_at h2 k" using I2 by simp_all
  have ld2: "load_item p h2 = Some \<lparr>inext = NULL, iprev = NULL, child = first_addr us NULL, itype = ty,
      valuestring = ptr_of vs, valueint = vi, valuedouble = vd, key = ptr_of k\<rparr>" using I2 by simp
  show ?thesis
  proof (cases us rule: rev_cases)
    case Nil
    let ?i = "\<lparr>inext = NULL, iprev = NULL, child = jaddr t, itype = ty, valuestring = ptr_of vs, valueint = vi,
      valuedouble = vd, key = ptr_of k\<rparr>"
    let ?h3 = "setj p (ItemC ?i) h2"
    have a: "attach_copy p (last_addr NULL us) (jaddr t) h2 = Some ?h3"
      using Nil upd_item_Some [OF ld2, of "\<lambda>i. i\<lparr>child := jaddr t\<rparr>"] by (simp add: attach_copy_def)
    have l: "load q ?h3 = (if q = p then Some (ItemC ?i) else load q h2)" for q using r(4) by (simp add: load_setj)
    have I3: "items_at ?h3 NULL [t] NULL" by (rule items_at_cong [THEN iffD2, OF _ It]) (use l ptb in auto)
    have s3: "str_at ?h3 vs" "str_at ?h3 k"
      by (subst str_at_cong [of _ _ h2]; use l r(2,3) I2'(2,3) in auto)+
    have wf3: "wf_heap ?h3" using wf2 ld2 by (intro wf_setj) (simp_all add: load_item_Some_iff)
    have "copied h0 ?h3 S [JT p ty vs vi vd k [t]]"
    proof (rule copiedI [OF C S wf3 _ s3 I3 st P(7)])
      show "load_item p ?h3 = Some \<lparr>inext = NULL, iprev = NULL, child = first_addr [t] NULL, itype = ty,
          valuestring = ptr_of vs, valueint = vi, valuedouble = vd, key = ptr_of k\<rparr>" using l by (simp add: load_item_def)
      show "distinct (foot [t] @ ptrs vs @ (if string_is_const ty then [] else ptrs k))"
        using dt P(8) new by (auto split: if_splits)
      show "load q h0 = None \<and> q \<noteq> p" if "q \<in> set (foot [t] @ ptrs vs @ (if string_is_const ty then [] else ptrs k))" for q
        using that P(9) [of q] f0 [of q] pt by (auto split: if_splits)
      show "load q ?h3 = load q h0" if "q \<notin> set (foot [JT p ty vs vi vd k [t]])" for q
        using that l [of q] un [of q] P(6) P(10) [of q] Nil by (auto split: if_splits)
    qed
    with a Nil show ?thesis by auto
  next
    case (snoc us' u)
    have Su: "set (foot (us' @ [u])) \<inter> S = {}" using copied_disjoint [OF C S] P(6) snoc by auto
    from sound_relink [OF I2'(1) [unfolded snoc] P(5) [unfolded snoc] _ Su, of "jaddr t"] P(8) snoc obtain i where
      i: "load_item (jaddr u) h2 = Some i" "items_at (setj (jaddr u) (ItemC (i\<lparr>inext := jaddr t\<rparr>)) h2) NULL us (jaddr t)"
      by auto
    let ?h = "setj (jaddr u) (ItemC (i\<lparr>inext := jaddr t\<rparr>)) h2"
    have un0: "jaddr u \<noteq> NULL" using i(1) by (rule load_item_not_NULL)
    have uf: "jaddr u \<in> set (foot us)" using snoc by (cases u) (simp add: foot_append)
    then have ut: "jaddr u \<notin> set (blocks [t])" using bt dj Su snoc by blast
    have up: "jaddr u \<noteq> p" using uf P(9) [of "jaddr u"] by auto
    have "items_at ?h NULL [t] NULL" by (rule items_at_cong [THEN iffD2, OF _ It]) (use ut un0 in \<open>auto simp: load_setj\<close>)
    from sound_relink_prev [OF this st dt St, of "jaddr u"] obtain j where
      j: "load_item (jaddr t) ?h = Some j" "items_at (setj (jaddr t) (ItemC (j\<lparr>iprev := jaddr u\<rparr>)) ?h) (jaddr u) [t] NULL"
      by blast
    let ?h3 = "setj (jaddr t) (ItemC (j\<lparr>iprev := jaddr u\<rparr>)) ?h"
    have tn0: "jaddr t \<noteq> NULL" using j(1) by (rule load_item_not_NULL)
    have a: "attach_copy p (last_addr NULL us) (jaddr t) h2 = Some ?h3"
      using snoc un0 upd_item_Some [OF i(1)] upd_item_Some [OF j(1)] by (simp add: attach_copy_def)
    have l: "load q ?h3 = load q h2" if "q \<noteq> jaddr t" "q \<noteq> jaddr u" for q
      using that un0 tn0 by (simp add: load_setj)
    have tr: "jaddr t \<notin> set (blocks ?root)" using new tp by blast
    have "items_at ?h3 NULL us (jaddr t) = items_at ?h NULL us (jaddr t)"
      by (rule items_at_cong) (use tr tn0 in \<open>auto simp: load_setj\<close>)
    moreover have "last_addr NULL us = jaddr u" using snoc by simp
    ultimately have I3: "items_at ?h3 NULL (us @ [t]) NULL" using i(2) j(2) by (simp add: items_at_append)
    have uv: "jaddr u \<notin> set (ptrs vs)" "jaddr u \<notin> set (ptrs k)"
      using uf P(8) P(7) Su snoc by (cases "string_is_const ty"; auto)+
    have "load q ?h3 = load q h2" if "q \<in> set (ptrs vs) \<union> set (ptrs k)" for q
      by (rule l) (use that tr uv in auto)
    then have s3: "str_at ?h3 vs" "str_at ?h3 k"
      using str_at_cong [of vs ?h3 h2] str_at_cong [of k ?h3 h2] I2'(2,3) by auto
    have wf3: "wf_heap ?h3" using wf2 i(1) j(1) by (intro wf_setj) (simp_all add: load_item_Some_iff)
    have "copied h0 ?h3 S [JT p ty vs vi vd k (us @ [t])]"
    proof (rule copiedI [OF C S wf3 _ s3 I3 _ P(7)])
      show "load_item p ?h3 = Some \<lparr>inext = NULL, iprev = NULL, child = first_addr (us @ [t]) NULL, itype = ty,
          valuestring = ptr_of vs, valueint = vi, valuedouble = vd, key = ptr_of k\<rparr>"
      proof -
        have "us \<noteq> []" using snoc by simp
        then have "first_addr (us @ [t]) NULL = first_addr us NULL" by (cases us) simp_all
        then show ?thesis using l [of p] up tr ld2 by (auto simp: load_item_Some_iff)
      qed
      show "sound S (us @ [t])" using P(5) st by simp
      show "distinct (foot (us @ [t]) @ ptrs vs @ (if string_is_const ty then [] else ptrs k))"
        using dt P(8) new dj by (auto simp: foot_append split: if_splits)
      show "load q h0 = None \<and> q \<noteq> p" if "q \<in> set (foot (us @ [t]) @ ptrs vs @ (if string_is_const ty then [] else ptrs k))" for q
        using that P(9) [of q] f0 [of q] pt by (auto simp: foot_append split: if_splits)
      show "load q ?h3 = load q h0" if q: "q \<notin> set (foot [JT p ty vs vi vd k (us @ [t])])" for q
      proof -
        have "q \<notin> set (foot ?root)" "q \<notin> set (foot [t])" "q \<notin> set (foot us)"
          using q P(6) by (auto simp: foot_append split: if_splits)
        moreover from this have "q \<noteq> jaddr t" "q \<noteq> jaddr u" using tp uf by auto
        ultimately show ?thesis using l [of q] un [of q] P(10) [of q] by simp
      qed
    qed
    with a show ?thesis by auto
  qed
qed

subsection \<open>The strings of an item\<close>

lemma read_str_strdup:
  assumes "read_str s h = Some x"
  shows "cJSON_strdup s h = Some (if alloc_fails h then (NULL, nonew h) else (brk h, newj (StrC (str_buf x)) h))"
  using assms read_str_not_NULL [OF assms] by (simp add: cJSON_strdup_def malloc_newj)

lemma read_str_no_0: "read_str s h = Some x \<Longrightarrow> 0 \<notin> set x"
  by (auto dest!: read_str_SomeD cstring_SomeD)

lemma alloc_fails_oom: "alloc_fails h \<Longrightarrow> True \<in> set (oom h)"
  by (cases "oom h") (auto simp: alloc_fails_def)

lemma set_tl_subset: "set (tl xs) \<subseteq> set xs"
  by (cases xs) auto

lemma copied_setj_same:
  assumes "copied h0 h S ts" and "load_item p h = Some i"
  shows "copied h0 (setj p (ItemC i) (nonew h)) S ts"
  by (rule copied_cong [OF assms(1)])
    (use assms load_item_not_NULL [OF assms(2)] in \<open>auto simp: load_setj load_item_Some_iff copied_def\<close>)

lemma dup_value_ok:
  assumes C: "copied h0 h S [JT p ty None vi vd None []]" and S: "live h0 S" and v: "str_at h vs"
  obtains ok h' vs' where
    "(if ptr_of vs \<noteq> NULL then do {
        (s, h) \<leftarrow> cJSON_strdup (ptr_of vs) h;
        h \<leftarrow> upd_item p (\<lambda>j. j\<lparr>valuestring := s\<rparr>) h;
        Some (s \<noteq> NULL, h) }
      else Some (True, h)) = Some (ok, h')"
    "copied h0 h' S [JT p ty vs' vi vd None []]" "set (oom h') \<subseteq> set (oom h)"
    "if ok then map_option snd vs' = map_option snd vs else True \<in> set (oom h)"
proof (cases vs)
  case None
  with C show ?thesis by (intro that [of True h None]) simp_all
next
  case (Some qs)
  then obtain q s where vs: "vs = Some (q, s)" by (cases qs) auto
  with v have r: "read_str q h = Some s" by simp
  note n = read_str_not_NULL [OF r]
  obtain i where i: "load_item p h = Some i" "i\<lparr>valuestring := NULL\<rparr> = i" using copied_root(6) [OF C S] by auto
  show ?thesis
  proof (cases "alloc_fails h")
    case True
    have in': "load_item p (nonew h) = load_item p h" by (rule load_item_cong) simp
    with upd_item_Some [of p "nonew h", OF trans [OF in' i(1)], of "\<lambda>j. j\<lparr>valuestring := NULL\<rparr>"] True vs n i(2)
      read_str_strdup [OF r] copied_setj_same [OF C i(1)] alloc_fails_oom [OF True] set_tl_subset [of "oom h"]
    show ?thesis by (intro that [of False "setj p (ItemC i) (nonew h)" None]) simp_all
  next
    case False
    let ?h = "newj (StrC (str_buf s)) h"
    have "p \<noteq> brk h" using copied_brk(1) [OF C] by auto
    then have "load p ?h = load p h" using copied_parts(1) [OF C] by (simp add: load_newj)
    then have "load_item p ?h = load_item p h" by (rule load_item_cong)
    with upd_item_Some [of p ?h, OF trans [OF _ i(1)], of "\<lambda>j. j\<lparr>valuestring := brk h\<rparr>"] False vs n read_str_strdup [OF r]
      copied_value [OF C S read_str_no_0 [OF r] i(1)] copied_brk(3) [OF C] set_tl_subset [of "oom h"]
    show ?thesis by (intro that [of True "setj p (ItemC (i\<lparr>valuestring := brk h\<rparr>)) ?h" "Some (brk h, s)"]) simp_all
  qed
qed

lemma dup_key_ok:
  assumes C: "copied h0 h S [JT p ty vs vi vd None []]" and S: "live h0 S" and k: "str_at h k"
    and kS: "set (ptrs k) \<subseteq> S"
  obtains ok h' k' where
    "(if ptr_of k \<noteq> NULL then do {
        (s, h) \<leftarrow> (if string_is_const ty then Some (ptr_of k, h) else cJSON_strdup (ptr_of k) h);
        h \<leftarrow> upd_item p (\<lambda>j. j\<lparr>key := s\<rparr>) h;
        Some (s \<noteq> NULL, h) }
      else Some (True, h)) = Some (ok, h')"
    "copied h0 h' S [JT p ty vs vi vd k' []]" "set (oom h') \<subseteq> set (oom h)"
    "if ok then map_option snd k' = map_option snd k \<and> (string_is_const ty \<longrightarrow> k' = k) else True \<in> set (oom h)"
proof (cases k)
  case None
  with C show ?thesis by (intro that [of True h None]) simp_all
next
  case (Some qs)
  then obtain q s where ks: "k = Some (q, s)" by (cases qs) auto
  with k have r: "read_str q h = Some s" by simp
  note n = read_str_not_NULL [OF r]
  obtain i where i: "load_item p h = Some i" "i\<lparr>key := NULL\<rparr> = i" using copied_root(6) [OF C S] by auto
  show ?thesis
  proof (cases "string_is_const ty")
    case True
    with upd_item_Some [OF i(1), of "\<lambda>j. j\<lparr>key := q\<rparr>"] copied_const_key [OF C S True _ r i(1)] kS ks n
    show ?thesis by (intro that [of True "setj p (ItemC (i\<lparr>key := q\<rparr>)) h" k]) simp_all
  next
    case nc: False
    show ?thesis
    proof (cases "alloc_fails h")
      case True
      have in': "load_item p (nonew h) = load_item p h" by (rule load_item_cong) simp
      with upd_item_Some [of p "nonew h", OF trans [OF in' i(1)], of "\<lambda>j. j\<lparr>key := NULL\<rparr>"] True nc ks n i(2)
        read_str_strdup [OF r] copied_setj_same [OF C i(1)] alloc_fails_oom [OF True] set_tl_subset [of "oom h"]
      show ?thesis by (intro that [of False "setj p (ItemC i) (nonew h)" None]) simp_all
    next
      case False
      let ?h = "newj (StrC (str_buf s)) h"
      have "p \<noteq> brk h" using copied_brk(1) [OF C] by auto
      then have "load p ?h = load p h" using copied_parts(1) [OF C] by (simp add: load_newj)
      then have "load_item p ?h = load_item p h" by (rule load_item_cong)
      with upd_item_Some [of p ?h, OF trans [OF _ i(1)], of "\<lambda>j. j\<lparr>key := brk h\<rparr>"] False nc ks n read_str_strdup [OF r]
        copied_key [OF C S read_str_no_0 [OF r] i(1) nc] copied_brk(3) [OF C] set_tl_subset [of "oom h"]
      show ?thesis by (intro that [of True "setj p (ItemC (i\<lparr>key := brk h\<rparr>)) ?h" "Some (brk h, s)"]) simp_all
    qed
  qed
qed

lemma dup_strings_ok:
  assumes C: "copied h0 h S [JT p ty None vi vd None []]" and S: "live h0 S"
    and I: "items_at h0 a [JT q ty0 vs0 vi0 vd0 k0 ks] c" and bS: "set (blocks [JT q ty0 vs0 vi0 vd0 k0 ks]) \<subseteq> S"
    and ty: "string_is_const ty = string_is_const ty0"
  obtains ok h' vs k where "dup_strings q p h = Some (ok, h')" "copied h0 h' S [JT p ty vs vi vd k []]"
    "set (oom h') \<subseteq> set (oom h)"
    "if ok then map_option snd vs = map_option snd vs0 \<and> map_option snd k = map_option snd k0 \<and>
       (string_is_const ty \<longrightarrow> k = k0) else True \<in> set (oom h)"
proof -
  have Ih: "items_at h a [JT q ty0 vs0 vi0 vd0 k0 ks] c" by (rule copied_source [OF C I])
  then obtain i where i: "load_item q h = Some i" "valuestring i = ptr_of vs0" "key i = ptr_of k0" "itype i = ty0" by auto
  have v: "str_at h vs0" using Ih by simp
  from dup_value_ok [OF C S v] obtain ok1 h1 vs where
    d1: "(if ptr_of vs0 \<noteq> NULL then do {
        (s, h) \<leftarrow> cJSON_strdup (ptr_of vs0) h;
        h \<leftarrow> upd_item p (\<lambda>j. j\<lparr>valuestring := s\<rparr>) h;
        Some (s \<noteq> NULL, h) } else Some (True, h)) = Some (ok1, h1)"
    "copied h0 h1 S [JT p ty vs vi vd None []]" "set (oom h1) \<subseteq> set (oom h)"
    "if ok1 then map_option snd vs = map_option snd vs0 else True \<in> set (oom h)" .
  show ?thesis
  proof (cases ok1)
    case False
    then have "dup_strings q p h = Some (False, h1)" 
      by (simp only: dup_strings_def i(1,2) Option.bind.bind_lunit d1(1) prod.case if_True not_False_eq_True)
    then show ?thesis using d1 False by (intro that) auto
  next
    case True
    have k: "str_at h1 k0" using copied_source [OF d1(2) I] by simp
    have kS: "set (ptrs k0) \<subseteq> S" using bS by simp
    from dup_key_ok [OF d1(2) S k kS] obtain ok2 h2 k' where
      d2: "(if ptr_of k0 \<noteq> NULL then do {
        (s, h) \<leftarrow> (if string_is_const ty then Some (ptr_of k0, h1) else cJSON_strdup (ptr_of k0) h1);
        h \<leftarrow> upd_item p (\<lambda>j. j\<lparr>key := s\<rparr>) h;
        Some (s \<noteq> NULL, h) } else Some (True, h1)) = Some (ok2, h2)"
      "copied h0 h2 S [JT p ty vs vi vd k' []]" "set (oom h2) \<subseteq> set (oom h1)"
      "if ok2 then map_option snd k' = map_option snd k0 \<and> (string_is_const ty \<longrightarrow> k' = k0) else True \<in> set (oom h1)" .
    have "dup_strings q p h = Some (ok2, h2)"
      using True d2(1)
      by (simp only: dup_strings_def i Option.bind.bind_lunit d1(1) prod.case if_False not_True_eq_False ty [symmetric])
    then show ?thesis using d1 d2 True by (intro that [of ok2 h2 vs k']) (auto split: if_splits)
  qed
qed

subsection \<open>The children\<close>

text \<open>The outcome of copying \<open>t\<close>, whose blocks are \<open>S\<close>.\<close>

definition duplicated :: "jheap \<Rightarrow> addr set \<Rightarrow> jtree \<Rightarrow> (addr \<times> jheap) option \<Rightarrow> bool" where
  "duplicated h S t r \<longleftrightarrow>
     (\<exists>p h'. r = Some (p, h') \<and> wf_heap h' \<and> set (oom h') \<subseteq> set (oom h) \<and>
        (if p = NULL then True \<in> set (oom h) \<and> (\<forall>q. load q h' = load q h)
         else \<exists>t'. jaddr t' = p \<and> copied h h' S [t'] \<and> alike [t] [t']))"

lemma dup_children_step:
  "c \<noteq> NULL \<Longrightarrow> dup_children dup p c last_copy h = do {
     r \<leftarrow> dup c h;
     (if fst r = NULL then Some (False, snd r)
      else do {
        h \<leftarrow> attach_copy p last_copy (fst r) (snd r);
        i \<leftarrow> load_item c h;
        dup_children dup p (inext i) (fst r) h }) }"
  by (simp add: dup_children.simps [of dup p c] attach_copy_def cong: if_cong)

locale duplicator =
  fixes dup :: "addr \<Rightarrow> jheap \<Rightarrow> (addr \<times> jheap) option"
    and n :: nat
  assumes dup: "wf_heap h \<Longrightarrow> items_at h a [t] c \<Longrightarrow> height [t] \<le> n \<Longrightarrow>
    duplicated h (set (blocks [t])) t (dup (jaddr t) h)"
begin

lemma dup_children_ok:
  "copied h0 h S [JT p ty vs vi vd k us] \<Longrightarrow> live h0 S \<Longrightarrow> items_at h0 a cs NULL \<Longrightarrow> set (blocks cs) \<subseteq> S \<Longrightarrow>
   height cs \<le> n \<Longrightarrow>
   \<exists>ok h' us'. dup_children dup p (first_addr cs NULL) (last_addr NULL us) h = Some (ok, h') \<and>
     copied h0 h' S [JT p ty vs vi vd k (us @ us')] \<and> set (oom h') \<subseteq> set (oom h) \<and>
     (if ok then alike cs us' else True \<in> set (oom h))"
proof (induction cs arbitrary: a h us)
  case Nil
  then show ?case
    by (intro exI [of _ True] exI [of _ h] exI [of _ "[]"]) (simp add: dup_children.simps)
next
  case (Cons t cs)
  note C = Cons.prems(1) and S = Cons.prems(2)
  have wf: "wf_heap h" using C by (simp add: copied_def)
  have ca: "first_addr (t # cs) NULL = jaddr t" "jaddr t \<noteq> NULL"
    using first_addr_NULL [OF Cons.prems(3)] by auto
  have I0: "items_at h0 a [t] (first_addr cs NULL)" "items_at h0 (jaddr t) cs NULL"
    using Cons.prems(3) by (cases t; simp)+
  have It: "items_at h a [t] (first_addr cs NULL)" by (rule copied_source [OF C I0(1)])
  have ht: "height [t] \<le> n" "height cs \<le> n" and bS: "set (blocks [t]) \<subseteq> S" "set (blocks cs) \<subseteq> S"
    using Cons.prems(4,5) by (cases t; simp)+
  from dup [OF wf It ht(1)] obtain q h2 where
    d: "dup (jaddr t) h = Some (q, h2)" "wf_heap h2" "set (oom h2) \<subseteq> set (oom h)" and
    o: "if q = NULL then True \<in> set (oom h) \<and> (\<forall>x. load x h2 = load x h)
        else \<exists>t'. jaddr t' = q \<and> copied h h2 (set (blocks [t])) [t'] \<and> alike [t] [t']"
    by (auto simp: duplicated_def)
  show ?case
  proof (cases "q = NULL")
    case True
    then have "dup_children dup p (jaddr t) (last_addr NULL us) h = Some (False, h2)"
      using ca(2) d(1) by (simp add: dup_children.simps [of dup p "jaddr t"])
    moreover have "copied h0 h2 S [JT p ty vs vi vd k us]" by (rule copied_cong [OF C d(2)]) (use o True in simp)
    ultimately show ?thesis using ca(1) d(3) o True
      by (intro exI [of _ False] exI [of _ h2] exI [of _ "[]"]) simp
  next
    case False
    with o obtain t' where t': "jaddr t' = q" "copied h h2 (set (blocks [t])) [t']" "alike [t] [t']" by auto
    from copied_attach [OF C S t'(2) bS(1)] obtain h3 where
      h3: "attach_copy p (last_addr NULL us) q h2 = Some h3" "oom h3 = oom h2"
      "copied h0 h3 S [JT p ty vs vi vd k (us @ [t'])]" using t'(1) by auto
    have "items_at h3 a [t] (first_addr cs NULL)" by (rule copied_source [OF h3(3) I0(1)])
    then obtain i where i: "load_item (jaddr t) h3 = Some i" "inext i = first_addr cs NULL" by (cases t) auto
    have st: "dup_children dup p (jaddr t) (last_addr NULL us) h = dup_children dup p (first_addr cs NULL) q h3"
      using d(1) False h3(1) i by (simp add: dup_children_step [OF ca(2)])
    have la: "last_addr NULL (us @ [t']) = q" using t'(1) by simp
    from Cons.IH [OF h3(3) S I0(2) bS(2) ht(2), unfolded la] obtain ok h' us' where
      r: "dup_children dup p (first_addr cs NULL) q h3 = Some (ok, h')"
      "copied h0 h' S [JT p ty vs vi vd k ((us @ [t']) @ us')]" "set (oom h') \<subseteq> set (oom h3)"
      "if ok then alike cs us' else True \<in> set (oom h3)" by blast
    have "alike (t # cs) (t' # us')" if ok using alike_append [OF t'(3), of cs us'] r(4) that by simp
    then show ?thesis unfolding ca(1) st using r d(3) h3(2)
      by (intro exI [of _ ok] exI [of _ h'] exI [of _ "t' # us'"]) auto
  qed
qed

end

subsection \<open>Whole trees\<close>

definition childless :: "jtree \<Rightarrow> jtree" where
  "childless t = JT (jaddr t) (jtype t) (jvalue t) (jint t) (jdouble t) (jkey t) []"

lemma reference_cleared:
  "\<not> is_reference (ty AND NOT cJSON_IsReference)" "string_is_const (ty AND NOT cJSON_IsReference) = string_is_const ty"
  "(ty AND NOT cJSON_IsReference) AND 0xFF = ty AND 0xFF"
proof -
  show "\<not> is_reference (ty AND NOT cJSON_IsReference)"
    by (simp add: is_reference_def cJSON_IsReference_def and.assoc)
  have "(ty AND NOT (256 :: 32 word)) AND 512 = ty AND (NOT 256 AND 512)" by (simp only: and.assoc)
  also have "\<dots> = ty AND 512" by simp
  finally show "string_is_const (ty AND NOT cJSON_IsReference) = string_is_const ty"
    by (simp add: string_is_const_def cJSON_IsReference_def cJSON_StringIsConst_def)
  have "(ty AND NOT (256 :: 32 word)) AND 255 = ty AND (NOT 256 AND 255)" by (simp only: and.assoc)
  also have "\<dots> = ty AND 255" by simp
  finally show "(ty AND NOT cJSON_IsReference) AND 0xFF = ty AND 0xFF"
    by (simp add: cJSON_IsReference_def)
qed

text \<open>The new item before its strings.\<close>

lemma copied_start:
  assumes wf: "wf_heap h" and ty: "\<not> is_reference ty"
  shows "copied h (setj (brk h) (ItemC (empty_item\<lparr>itype := ty, valueint := vi, valuedouble := vd\<rparr>))
    (newj (ItemC empty_item) h)) S [JT (brk h) ty None vi vd None []]"
  using ty wf_heap_brk_pos [OF wf] wf_heap_fresh [OF wf] wf
  by (auto simp: copied_def load_setj load_newj load_item_Some_iff empty_item_def)

lemma dup_fail_ok:
  assumes "copied h0 h S [t]" and "True \<in> set (oom h0)" and "set (oom h) \<subseteq> set (oom h0)"
  shows "duplicated h0 S t0 (dup_fail (jaddr t) h)"
proof -
  have "jaddr t \<noteq> NULL" using assms(1) by (cases t) (auto simp: copied_def dest: load_item_not_NULL)
  with copied_delete [OF assms(1)] assms(2,3) show ?thesis by (auto simp: dup_fail_def duplicated_def)
qed

lemma duplicatedI:
  assumes "copied h h' S [t']" and "alike [t] [t']" and "set (oom h') \<subseteq> set (oom h)"
  shows "duplicated h S t (Some (jaddr t', h'))"
proof -
  have "jaddr t' \<noteq> NULL" "wf_heap h'" using assms(1) by (cases t'; auto simp: copied_def dest: load_item_not_NULL)+
  with assms show ?thesis by (auto simp: duplicated_def)
qed

lemma duplicate_ok:
  "wf_heap h \<Longrightarrow> items_at h a [t] c \<Longrightarrow> height [t] \<le> n \<Longrightarrow>
    duplicated h (set (blocks [t])) (if recurse then t else childless t) (cJSON_Duplicate n (jaddr t) recurse h)"
proof (induction n arbitrary: h a t c recurse)
  case 0
  then show ?case by (cases t) simp
next
  case (Suc n)
  obtain p0 ty vs vi vd k ks where t: "t = JT p0 ty vs vi vd k ks" by (cases t)
  let ?S = "set (blocks [t])" and ?t = "if recurse then t else childless t" and ?ty = "ty AND NOT cJSON_IsReference"
  have S: "live h ?S" by (rule live_items [OF Suc.prems(2)])
  have D: "duplicator (\<lambda>c. cJSON_Duplicate n c True) n"
    using Suc.IH [of _ _ _ _ True] by unfold_locales simp
  have I: "items_at h a [JT p0 ty vs vi vd k ks] c" using Suc.prems(2) t by simp
  then obtain i where i: "load_item p0 h = Some i" "itype i = ty" "valueint i = vi" "valuedouble i = vd"
    "child i = first_addr ks NULL" by auto
  have p0: "p0 \<noteq> NULL" by (rule load_item_not_NULL [OF i(1)])
  show ?case
  proof (cases "alloc_fails h")
    case True
    then have "cJSON_New_Item h = (NULL, nonew h)" by (simp add: cJSON_New_Item_def malloc_newj)
    then have "cJSON_Duplicate (Suc n) (jaddr t) recurse h = Some (NULL, nonew h)" using p0 t by simp
    with Suc.prems(1) alloc_fails_oom [OF True] set_tl_subset [of "oom h"] show ?thesis by (simp add: duplicated_def)
  next
    case False
    let ?p = "brk h" and ?h1 = "newj (ItemC empty_item) h"
    let ?h2 = "setj ?p (ItemC (empty_item\<lparr>itype := ?ty, valueint := vi, valuedouble := vd\<rparr>)) ?h1"
    have m: "cJSON_New_Item h = (?p, ?h1)" "?p \<noteq> NULL"
      using False wf_heap_brk_pos [OF Suc.prems(1)] by (simp_all add: cJSON_New_Item_def malloc_newj)
    have pn: "p0 \<noteq> ?p" using i(1) wf_heap_fresh [OF Suc.prems(1)] by (auto simp: load_item_Some_iff)
    have i1: "load_item p0 ?h1 = Some i" "load_item ?p ?h1 = Some empty_item"
      using i(1) pn Suc.prems(1) by (simp_all add: load_item_Some_iff load_newj)
    note C2 = copied_start [OF Suc.prems(1) reference_cleared(1) [of ty], where vi = vi and vd = vd and S = ?S]
    have bS: "set (blocks [JT p0 ty vs vi vd k ks]) \<subseteq> ?S" using t by simp
    from dup_strings_ok [OF C2 S I bS reference_cleared(2)] obtain ok1 h3 vs' k' where
      s1: "dup_strings p0 ?p ?h2 = Some (ok1, h3)" "copied h h3 ?S [JT ?p ?ty vs' vi vd k' []]" "set (oom h3) \<subseteq> set (oom ?h2)"
      "if ok1 then map_option snd vs' = map_option snd vs \<and> map_option snd k' = map_option snd k \<and>
         (string_is_const ?ty \<longrightarrow> k' = k) else True \<in> set (oom ?h2)" .
    have tl: "set (oom ?h2) \<subseteq> set (oom h)" by (simp add: set_tl_subset)
    have s: "dup_strings p0 ?p ?h2 = Some (ok1, h3)" "copied h h3 ?S [JT ?p ?ty vs' vi vd k' []]" "set (oom h3) \<subseteq> set (oom h)"
      "if ok1 then map_option snd vs' = map_option snd vs \<and> map_option snd k' = map_option snd k \<and>
         (string_is_const ?ty \<longrightarrow> k' = k) else True \<in> set (oom h)"
      using s1 tl by (simp_all split: if_splits) blast+
    have st: "cJSON_Duplicate (Suc n) (jaddr t) recurse h =
      (if \<not> ok1 then dup_fail ?p h3 else if \<not> recurse then Some (?p, h3)
       else do {
         i \<leftarrow> load_item p0 h3;
         (ok, h) \<leftarrow> dup_children (\<lambda>c. cJSON_Duplicate n c True) ?p (child i) NULL h3;
         (if \<not> ok then dup_fail ?p h else Some (?p, h)) })"
      using p0 t m i1 upd_item_Some [OF i1(2), of "\<lambda>j. j\<lparr>itype := ?ty, valueint := vi, valuedouble := vd\<rparr>"] s(1) i
      by (simp del: cJSON_Duplicate.simps add: cJSON_Duplicate.simps(2))
    have root: "alike [JT p0 ty vs vi vd k ks'] [JT ?p ?ty vs' vi vd k' us] = alike ks' us" if ok1 for ks' us
      using s(4) that by (simp add: reference_cleared(2))
    consider (fail) "\<not> ok1" | (flat) "ok1" "\<not> recurse" | (deep) "ok1" "recurse" by blast
    then show ?thesis
    proof cases
      case fail
      then have "True \<in> set (oom h)" using s(4) by simp
      from dup_fail_ok [OF s(2) this s(3)] fail show ?thesis unfolding st by simp
    next
      case flat
      have "alike [childless t] [JT ?p ?ty vs' vi vd k' []]" using root [OF flat(1), of "[]" "[]"] t by (simp add: childless_def)
      from duplicatedI [OF s(2) this s(3)] flat show ?thesis unfolding st by simp
    next
      case deep
      have I': "items_at h NULL ks NULL" using I by simp
      have "items_at h3 a [JT p0 ty vs vi vd k ks] c" by (rule copied_source [OF s(2) I])
      then obtain i' where i': "load_item p0 h3 = Some i'" "child i' = first_addr ks NULL" by auto
      have hk: "set (blocks ks) \<subseteq> ?S" "height ks \<le> n" using t Suc.prems(3) by auto
      from duplicator.dup_children_ok [OF D s(2) S I' hk] obtain ok h4 us where
        c: "dup_children (\<lambda>c. cJSON_Duplicate n c True) ?p (first_addr ks NULL) NULL h3 = Some (ok, h4)"
        "copied h h4 ?S [JT ?p ?ty vs' vi vd k' us]" "set (oom h4) \<subseteq> set (oom h3)"
        "if ok then alike ks us else True \<in> set (oom h3)" by auto
      have st': "cJSON_Duplicate (Suc n) (jaddr t) recurse h = (if \<not> ok then dup_fail ?p h4 else Some (?p, h4))"
        using st deep i' c(1) by simp
      show ?thesis
      proof (cases ok)
        case False
        have "True \<in> set (oom h)" "set (oom h4) \<subseteq> set (oom h)" using False c(3,4) s(3) by auto
        from dup_fail_ok [OF c(2) this] False show ?thesis unfolding st' by simp
      next
        case True
        have "alike [t] [JT ?p ?ty vs' vi vd k' us]" using root [OF deep(1), of ks us] c(4) True t by simp
        from duplicatedI [OF c(2) this order_trans [OF c(3) s(3)]] deep True show ?thesis unfolding st' by simp
      qed
    qed
  qed
qed

interpretation dup: duplicator "\<lambda>c. cJSON_Duplicate n c True" n for n
  using duplicate_ok [of _ _ _ _ n True] by unfold_locales simp

lemma alike_values: "alike ts us \<Longrightarrow> elements_of us = elements_of ts \<and> members_of us = members_of ts"
proof (induction ts us rule: alike.induct)
  case (2 p ty vs vi vd k ks ts p' ty' vs' vi' vd' k' ks' us)
  have e: "elements_of ks' = elements_of ks" "members_of ks' = members_of ks"
    and r: "elements_of us = elements_of ts" "members_of us = members_of ts" using 2 by auto
  have s: "str_of vs' = str_of vs" "str_of k' = str_of k"
    using "2.prems" by (cases vs; cases vs'; cases k; cases k'; auto simp: str_of_def)+
  have "json_of (JT p' ty' vs' vi' vd' k' ks') = json_of (JT p ty vs vi vd k ks)"
    using "2.prems" e s by (simp add: reference_cleared(3) Let_def cong: if_cong)
  then show ?case using r s by simp
qed auto

lemma alike_json: "alike [t] [t'] \<Longrightarrow> json_of t' = json_of t"
  using alike_values [of "[t]" "[t']"] by (cases "json_of t"; cases "json_of t'") auto

end
