(* ===== verification/CJsonCompare.thy ===== *)
theory CJsonCompare
  imports CJsonArray CJsonDup "HOL-Library.Multiset"
begin

text \<open>
  What \<open>cJSON_Compare\<close> answers for two trees, as a function \<open>equal_json\<close> of the values they stand for, in all cases: it
  looks up each name of an object in the other, and finds the first member with it.  For values without NaN whose objects
  have distinct names this is equality, \<open>json_equal\<close>: an equivalence that takes numbers by the comparison of C,
  arrays by position, and the members of objects in any order.  A tree and its copy are equal.
\<close>

subsection \<open>The comparison of the code\<close>

definition name_eq :: "bool \<Rightarrow> byte list \<Rightarrow> byte list \<Rightarrow> bool" where
  "name_eq cs s n = (if cs then s = n else map tolower s = map tolower n)"

text \<open>The first member with the name.\<close>

definition member_of :: "bool \<Rightarrow> byte list \<Rightarrow> (byte list \<times> json) list \<Rightarrow> json option" where
  "member_of cs n ms = map_option snd (find (\<lambda>m. name_eq cs (fst m) n) ms)"

lemma member_of_simps [simp]:
  "member_of cs n [] = None"
  "member_of cs n ((k, j) # ms) = (if name_eq cs k n then Some j else member_of cs n ms)"
  by (simp_all add: member_of_def)

lemma member_of_size: "member_of cs n ms = Some j \<Longrightarrow> size j < size (JObj ms)"
proof (induction ms)
  case (Cons m ms)
  then show ?case by (cases m) (auto split: if_splits)
qed simp

lemma value_size: "m \<in> set ms \<Longrightarrow> size (snd m) < size (JObj ms)"
proof (induction ms)
  case (Cons x ms)
  then show ?case by (cases x) auto
qed simp

lemma element_size: "j \<in> set js \<Longrightarrow> size j < size (JArr js)"
  by (induction js) auto

function equal_json :: "bool \<Rightarrow> json \<Rightarrow> json \<Rightarrow> bool" where
  "equal_json cs j j' =
     (case (j, j') of
        (JNull, JNull) \<Rightarrow> True
      | (JFalse, JFalse) \<Rightarrow> True
      | (JTrue, JTrue) \<Rightarrow> True
      | (JNum x, JNum y) \<Rightarrow> f64_eq x y
      | (JStr s, JStr t) \<Rightarrow> s = t
      | (JArr js, JArr js') \<Rightarrow> list_all2 (\<lambda>j j'. equal_json cs j j') js js'
      | (JObj ms, JObj ms') \<Rightarrow>
          (\<forall>m \<in> set ms. case member_of cs (fst m) ms' of None \<Rightarrow> False | Some j' \<Rightarrow> equal_json cs (snd m) j') \<and>
          (\<forall>m \<in> set ms'. case member_of cs (fst m) ms of None \<Rightarrow> False | Some j \<Rightarrow> equal_json cs (snd m) j)
      | _ \<Rightarrow> False)"
  by pat_completeness auto
termination
  by (relation "measure (\<lambda>(cs, j, j'). size j + size j')")
    (auto dest!: element_size member_of_size value_size simp del: json.size)

declare equal_json.simps [simp del]

lemma equal_json_simps [simp]:
  "equal_json cs JNull j' = (j' = JNull)"
  "equal_json cs JFalse j' = (j' = JFalse)"
  "equal_json cs JTrue j' = (j' = JTrue)"
  "equal_json cs (JNum x) (JNum y) = f64_eq x y"
  "equal_json cs (JStr s) (JStr t) = (s = t)"
  "equal_json cs (JArr js) (JArr js') = list_all2 (equal_json cs) js js'"
  "equal_json cs (JObj ms) (JObj ns) =
     ((\<forall>m \<in> set ms. case member_of cs (fst m) ns of None \<Rightarrow> False | Some j \<Rightarrow> equal_json cs (snd m) j) \<and>
      (\<forall>m \<in> set ns. case member_of cs (fst m) ms of None \<Rightarrow> False | Some j \<Rightarrow> equal_json cs (snd m) j))"
  by (subst equal_json.simps; simp split: json.split)+

lemma equal_json_differ:
  "equal_json cs (JNum x) j' \<Longrightarrow> \<exists>y. j' = JNum y" "equal_json cs (JStr s) j' \<Longrightarrow> \<exists>t. j' = JStr t"
  "equal_json cs (JArr js) j' \<Longrightarrow> \<exists>js'. j' = JArr js'" "equal_json cs (JObj ms) j' \<Longrightarrow> \<exists>ms'. j' = JObj ms'"
  by (subst (asm) equal_json.simps; simp split: json.splits)+

subsection \<open>Trees\<close>

text \<open>The addresses of the items, and trees in which strings and members have their texts.\<close>

fun addrs :: "jtree list \<Rightarrow> addr list" where
  "addrs [] = []"
| "addrs (JT p ty vs vi vd k ks # ts) = p # addrs ks @ addrs ts"

fun complete :: "jtree list \<Rightarrow> bool" where
  "complete [] = True"
| "complete (JT p ty vs vi vd k ks # ts) =
     ((ty AND 0xFF = cJSON_String \<longrightarrow> vs \<noteq> None) \<and>
      (ty AND 0xFF = cJSON_Object \<longrightarrow> (\<forall>t \<in> set ks. jkey t \<noteq> None)) \<and> complete ks \<and> complete ts)"

lemma complete_in: "complete ts \<Longrightarrow> t \<in> set ts \<Longrightarrow> complete [t]"
  by (induction ts rule: complete.induct) auto

lemma height_in: "t \<in> set ts \<Longrightarrow> height [t] \<le> height ts"
  by (induction ts rule: height.induct) auto

lemma addrs_in: "t \<in> set ts \<Longrightarrow> set (addrs [t]) \<subseteq> set (addrs ts)"
  by (induction ts rule: addrs.induct) auto

lemma items_at_in: "items_at h a ts b \<Longrightarrow> t \<in> set ts \<Longrightarrow> \<exists>a b. items_at h a [t] b"
proof (induction ts arbitrary: a)
  case (Cons u us)
  from Cons.prems(1) have "items_at h a [u] (first_addr us b)" "items_at h (jaddr u) us b" by (cases u; simp)+
  with Cons show ?case by auto
qed simp

lemma members_of_in:
  "members_of us = Some ns \<Longrightarrow> u \<in> set us \<Longrightarrow> \<exists>j. json_of u = Some j \<and> (str_of (jkey u), j) \<in> set ns"
  by (induction us arbitrary: ns) (auto simp: bind_Some_iff)

text \<open>The lookup of a name among the children finds the member.\<close>

lemma lookup_member:
  "members_of us = Some ns \<Longrightarrow> \<forall>u \<in> set us. jkey u \<noteq> None \<and> jaddr u \<noteq> NULL \<Longrightarrow>
   (case member_of cs n ns of
      None \<Rightarrow> lookup_name cs n us = NULL
    | Some j \<Rightarrow> \<exists>u \<in> set us. lookup_name cs n us = jaddr u \<and> json_of u = Some j)"
proof (induction us arbitrary: ns)
  case (Cons u us)
  then obtain j ns' where ns: "json_of u = Some j" "members_of us = Some ns'" "ns = (str_of (jkey u), j) # ns'"
    by (auto simp: bind_Some_iff)
  from Cons.prems(2) obtain q s where k: "jkey u = Some (q, s)" by (cases "jkey u") auto
  then show ?case using Cons.IH [OF ns(2)] Cons.prems(2) ns
    by (auto simp: str_of_def name_eq_def split: option.splits if_splits)
qed simp

subsection \<open>The loops\<close>

text \<open>What the recursive call answers for two children.\<close>

definition compares :: "bool \<Rightarrow> jheap \<Rightarrow> (addr \<Rightarrow> addr \<Rightarrow> bool option) \<Rightarrow> jtree list \<Rightarrow> jtree list \<Rightarrow> bool" where
  "compares cs h cmp ts us \<longleftrightarrow>
     (\<forall>t \<in> set ts. \<forall>u \<in> set us. \<forall>j j'. json_of t = Some j \<longrightarrow> json_of u = Some j' \<longrightarrow>
        cmp (jaddr t) (jaddr u) = Some (equal_json cs j j'))"

lemma items_head:
  assumes "items_at h a (t # ts) NULL"
  shows "\<exists>i. load_item (jaddr t) h = Some i \<and> inext i = first_addr ts NULL \<and> key i = ptr_of (jkey t) \<and>
    str_at h (jkey t) \<and> jaddr t \<noteq> NULL \<and> items_at h (jaddr t) ts NULL"
  using assms by (cases t) (auto dest: load_item_not_NULL)

lemma compare_elements_ok:
  "items_at h a ts NULL \<Longrightarrow> items_at h a' us NULL \<Longrightarrow> elements_of ts = Some js \<Longrightarrow> elements_of us = Some js' \<Longrightarrow>
   compares cs h cmp ts us \<Longrightarrow>
   compare_elements cmp (first_addr ts NULL) (first_addr us NULL) h = Some (list_all2 (equal_json cs) js js')"
proof (induction ts arbitrary: a a' us js js')
  case Nil
  then show ?case using first_addr_NULL [OF Nil.prems(2)] elements_of_Nil [OF Nil.prems(4)]
    by (auto simp: compare_elements.simps)
next
  case (Cons t ts)
  from items_head [OF Cons.prems(1)] obtain i where i: "load_item (jaddr t) h = Some i" "inext i = first_addr ts NULL"
    "jaddr t \<noteq> NULL" "items_at h (jaddr t) ts NULL" by blast
  from Cons.prems(3) obtain j ks where js: "json_of t = Some j" "elements_of ts = Some ks" "js = j # ks"
    by (auto simp: bind_Some_iff)
  show ?case
  proof (cases us)
    case Nil
    with Cons.prems(4) i(3) js show ?thesis by (simp add: compare_elements.simps)
  next
    case us: (Cons u us')
    from items_head [OF Cons.prems(2) [unfolded us]] obtain i' where
      i': "load_item (jaddr u) h = Some i'" "inext i' = first_addr us' NULL" "jaddr u \<noteq> NULL" "items_at h (jaddr u) us' NULL"
      by blast
    from Cons.prems(4) us obtain j' ks' where js': "json_of u = Some j'" "elements_of us' = Some ks'" "js' = j' # ks'"
      by (auto simp: bind_Some_iff)
    have c: "cmp (jaddr t) (jaddr u) = Some (equal_json cs j j')" "compares cs h cmp ts us'"
      using Cons.prems(5) us js(1) js'(1) by (auto simp: compares_def)
    from Cons.IH [OF i(4) i'(4) js(2) js'(2) c(2)] show ?thesis
      using i i' c(1) us js(3) js'(3) by (simp add: compare_elements.simps [of _ "jaddr t"])
  qed
qed

lemma compare_members_ok:
  assumes b: "load_item b h = Some ib" "child ib = first_addr us NULL" "items_at h NULL us NULL" "members_of us = Some ns"
    and k: "\<forall>u \<in> set us. jkey u \<noteq> None"
  shows "items_at h a ts NULL \<Longrightarrow> members_of ts = Some ms \<Longrightarrow> \<forall>t \<in> set ts. jkey t \<noteq> None \<Longrightarrow> compares cs h cmp ts us \<Longrightarrow>
   compare_members cmp (first_addr ts NULL) b cs h =
     Some (\<forall>m \<in> set ms. case member_of cs (fst m) ns of None \<Rightarrow> False | Some j \<Rightarrow> equal_json cs (snd m) j)"
proof (induction ts arbitrary: a ms)
  case Nil
  then show ?case by (simp add: compare_members.simps)
next
  case (Cons t ts)
  from items_head [OF Cons.prems(1)] obtain i where i: "load_item (jaddr t) h = Some i" "inext i = first_addr ts NULL"
    "key i = ptr_of (jkey t)" "str_at h (jkey t)" "jaddr t \<noteq> NULL" "items_at h (jaddr t) ts NULL" by blast
  from Cons.prems(2) obtain j ms' where ms: "json_of t = Some j" "members_of ts = Some ms'" "ms = (str_of (jkey t), j) # ms'"
    by (auto simp: bind_Some_iff)
  from Cons.prems(3) obtain q s where q: "jkey t = Some (q, s)" by (cases "jkey t") auto
  then have "read_str (key i) h = Some s" "str_of (jkey t) = s" using i by (simp_all add: str_of_def)
  then have g: "get_object_item b (key i) cs h = Some (lookup_name cs s us)"
    using get_object_item_chain [OF b(1,2,3)] by blast
  have nn: "\<forall>u \<in> set us. jkey u \<noteq> None \<and> jaddr u \<noteq> NULL"
  proof
    fix u assume "u \<in> set us"
    with items_at_in [OF b(3)] obtain x y where "items_at h x [u] y" by blast
    then have "jaddr u \<noteq> NULL" by (cases u) (auto dest: load_item_not_NULL)
    with k \<open>u \<in> set us\<close> show "jkey u \<noteq> None \<and> jaddr u \<noteq> NULL" by blast
  qed
  have IH: "compare_members cmp (first_addr ts NULL) b cs h =
      Some (\<forall>m \<in> set ms'. case member_of cs (fst m) ns of None \<Rightarrow> False | Some j \<Rightarrow> equal_json cs (snd m) j)"
    by (rule Cons.IH [OF i(6) ms(2)]) (use Cons.prems(3,4) in \<open>auto simp: compares_def\<close>)
  show ?case
  proof (cases "member_of cs s ns")
    case None
    with lookup_member [OF b(4) nn, of cs s] have "lookup_name cs s us = NULL" by simp
    with i g None ms(3) \<open>str_of (jkey t) = s\<close> show ?thesis by (simp add: compare_members.simps [of _ "jaddr t"])
  next
    case (Some j')
    with lookup_member [OF b(4) nn, of cs s] obtain u where
      u: "u \<in> set us" "lookup_name cs s us = jaddr u" "json_of u = Some j'" by auto
    have "cmp (jaddr t) (jaddr u) = Some (equal_json cs j j')" using Cons.prems(4) u ms(1) by (auto simp: compares_def)
    with i g IH u nn Some ms(3) \<open>str_of (jkey t) = s\<close> show ?thesis
      by (simp add: compare_members.simps [of _ "jaddr t"])
  qed
qed

subsection \<open>Whole trees\<close>

lemma known_types:
  assumes "json_of (JT p ty vs vi vd k ks) = Some j"
  shows "known_type (ty AND 0xFF)" and "ty AND 0xFF \<noteq> cJSON_Invalid"
  using assms by (auto simp: known_type_def ctype_defs Let_def split: if_splits)

lemma compare_ok:
  "items_at h a [t] c \<Longrightarrow> items_at h a' [u] c' \<Longrightarrow> json_of t = Some j \<Longrightarrow> json_of u = Some j' \<Longrightarrow>
   complete [t] \<Longrightarrow> complete [u] \<Longrightarrow> set (addrs [t]) \<inter> set (addrs [u]) = {} \<Longrightarrow> height [t] \<le> n \<Longrightarrow> height [u] \<le> n \<Longrightarrow>
   cJSON_Compare n (jaddr t) (jaddr u) cs h = Some (equal_json cs j j')"
proof (induction n arbitrary: a t c a' u c' j j')
  case 0
  then show ?case by (cases t) simp
next
  case (Suc n)
  obtain p ty vs vi vd k ks where t: "t = JT p ty vs vi vd k ks" by (cases t)
  obtain p' ty' vs' vi' vd' k' ks' where u: "u = JT p' ty' vs' vi' vd' k' ks'" by (cases u)
  from Suc.prems(1) t obtain i where i: "load_item p h = Some i" "itype i = ty" "valuedouble i = vd"
    "valuestring i = ptr_of vs" "child i = first_addr ks NULL" and It: "items_at h NULL ks NULL" "str_at h vs" by auto
  from Suc.prems(2) u obtain i' where i': "load_item p' h = Some i'" "itype i' = ty'" "valuedouble i' = vd'"
    "valuestring i' = ptr_of vs'" "child i' = first_addr ks' NULL" and Iu: "items_at h NULL ks' NULL" "str_at h vs'" by auto
  note J = Suc.prems(3) [unfolded t] and J' = Suc.prems(4) [unfolded u]
  have pp: "p \<noteq> p'" "p \<noteq> NULL" "p' \<noteq> NULL"
    using Suc.prems(7) t u load_item_not_NULL [OF i(1)] load_item_not_NULL [OF i'(1)] by auto
  have C: "compares cs h (\<lambda>x y. cJSON_Compare n x y cs h) ks ks'" "compares cs h (\<lambda>x y. cJSON_Compare n x y cs h) ks' ks"
  proof -
    have *: "cJSON_Compare n (jaddr x) (jaddr y) cs h = Some (equal_json cs jx jy) \<and>
        cJSON_Compare n (jaddr y) (jaddr x) cs h = Some (equal_json cs jy jx)"
      if xy: "x \<in> set ks" "y \<in> set ks'" "json_of x = Some jx" "json_of y = Some jy" for x y jx jy
    proof -
      obtain ax cx ay cy where "items_at h ax [x] cx" "items_at h ay [y] cy"
        using items_at_in [OF It(1) xy(1)] items_at_in [OF Iu(1) xy(2)] by blast
      moreover have "complete [x]" "complete [y]"
        using complete_in [of ks x] complete_in [of ks' y] xy Suc.prems(5,6) t u by auto
      moreover have "set (addrs [x]) \<inter> set (addrs [y]) = {}"
        using addrs_in [OF xy(1)] addrs_in [OF xy(2)] Suc.prems(7) t u by auto
      moreover have "height [x] \<le> n" "height [y] \<le> n"
        using height_in [OF xy(1)] height_in [OF xy(2)] Suc.prems(8,9) t u by auto
      ultimately show ?thesis using Suc.IH xy(3,4) by (blast intro: inf_commute [THEN trans])
    qed
    then show "compares cs h (\<lambda>x y. cJSON_Compare n x y cs h) ks ks'" "compares cs h (\<lambda>x y. cJSON_Compare n x y cs h) ks' ks"
      by (auto simp: compares_def)
  qed
  have st: "cJSON_Compare (Suc n) (jaddr t) (jaddr u) cs h =
    (let ty = ty AND 0xFF in
     if ty \<noteq> ty' AND 0xFF then Some False
     else if ty = cJSON_False \<or> ty = cJSON_True \<or> ty = cJSON_NULL then Some True
     else if ty = cJSON_Number then Some (f64_eq vd vd')
     else if ty = cJSON_String \<or> ty = cJSON_Raw then
       (if ptr_of vs = NULL \<or> ptr_of vs' = NULL then Some False else map_option Not (strs_differ (ptr_of vs) (ptr_of vs') h))
     else if ty = cJSON_Array then
       compare_elements (\<lambda>x y. cJSON_Compare n x y cs h) (first_addr ks NULL) (first_addr ks' NULL) h
     else do {
       e \<leftarrow> compare_members (\<lambda>x y. cJSON_Compare n x y cs h) (first_addr ks NULL) p' cs h;
       (if \<not> e then Some False
        else compare_members (\<lambda>x y. cJSON_Compare n x y cs h) (first_addr ks' NULL) p cs h) })"
    using t u pp i i' known_types [OF J] by (simp add: Let_def cong: if_cong)
  note d = ctype_defs
  have other: "\<not> equal_json cs j j'" if "ty AND 0xFF \<noteq> ty' AND 0xFF"
    using that by (cases rule: json_of_cases [OF J]; cases rule: json_of_cases [OF J']) (auto dest: equal_json_differ)
  show ?case
  proof (cases "ty AND 0xFF = ty' AND 0xFF")
    case False
    then show ?thesis using other st by simp
  next
    case same: True
    from J show ?thesis
    proof (cases rule: json_of_cases)
      case null
      with J' same st show ?thesis by (simp add: d)
    next
      case false
      with J' same st show ?thesis by (simp add: d)
    next
      case true
      with J' same st show ?thesis by (simp add: d)
    next
      case number
      then have "j' = JNum vd'" using J' same by (simp add: d)
      with number same st show ?thesis by (simp add: d)
    next
      case string
      then obtain q s q' s' where v: "vs = Some (q, s)" "vs' = Some (q', s')"
        using Suc.prems(5,6) t u same by auto
      then have "strs_differ q q' h = Some (s \<noteq> s')" "q \<noteq> NULL" "q' \<noteq> NULL"
        using It(2) Iu(2) by (auto simp: strs_differ_def dest: read_str_not_NULL)
      moreover have "j' = JStr s'" using J' same string(1) v by (simp add: d str_of_def)
      ultimately show ?thesis using same st string v by (simp add: d str_of_def)
    next
      case (array js)
      then obtain js' where js': "elements_of ks' = Some js'" "j' = JArr js'" using J' same by (auto simp: d)
      with st same array compare_elements_ok [OF It(1) Iu(1) array(2) js'(1) C(1)] show ?thesis by (simp add: d)
    next
      case (object ms)
      then obtain ms' where ms': "members_of ks' = Some ms'" "j' = JObj ms'" using J' same by (auto simp: d)
      have keys: "\<forall>t \<in> set ks. jkey t \<noteq> None" "\<forall>t \<in> set ks'. jkey t \<noteq> None"
        using Suc.prems(5,6) t u object(1) same by auto
      note compare_members_ok [OF i'(1,5) Iu(1) ms'(1) keys(2) It(1) object(2) keys(1) C(1)]
        compare_members_ok [OF i(1,5) It(1) object(2) keys(1) Iu(1) ms'(1) keys(2) C(2)]
      with st same object ms' show ?thesis by (simp add: d)
    qed
  qed
qed

subsection \<open>Equality of values\<close>

text \<open>Two objects are equal when the members of one, in some order, have the names and values of those of the other.\<close>

inductive json_equal :: "bool \<Rightarrow> json \<Rightarrow> json \<Rightarrow> bool" for cs where
  null: "json_equal cs JNull JNull"
| false: "json_equal cs JFalse JFalse"
| true: "json_equal cs JTrue JTrue"
| num: "f64_eq x y \<Longrightarrow> json_equal cs (JNum x) (JNum y)"
| str: "json_equal cs (JStr s) (JStr s)"
| arr: "list_all2 (json_equal cs) js ks \<Longrightarrow> json_equal cs (JArr js) (JArr ks)"
| obj: "list_all2 (\<lambda>m n. name_eq cs (fst m) (fst n) \<and> json_equal cs (snd m) (snd n)) ms ns' \<Longrightarrow> mset ns' = mset ns \<Longrightarrow>
    json_equal cs (JObj ms) (JObj ns)"
  monos list_all2_mono

inductive_simps json_equal_simps [simp]:
  "json_equal cs JNull j" "json_equal cs JFalse j" "json_equal cs JTrue j" "json_equal cs (JNum x) j" "json_equal cs (JStr s) j"
  "json_equal cs (JArr js) j" 

inductive_simps json_equal_obj: "json_equal cs (JObj ms) (JObj ns)"

inductive_cases json_equal_objE: "json_equal cs (JObj ms) j"

lemma name_eq_trans: "name_eq cs s t \<Longrightarrow> name_eq cs t u \<Longrightarrow> name_eq cs s u"
  by (simp add: name_eq_def split: if_splits)

text \<open>Values without NaN whose objects have distinct names.\<close>

fun tidy :: "bool \<Rightarrow> json \<Rightarrow> bool"
  and tidy_elements :: "bool \<Rightarrow> json list \<Rightarrow> bool"
  and tidy_members :: "bool \<Rightarrow> (byte list \<times> json) list \<Rightarrow> bool" where
  "tidy cs JNull = True"
| "tidy cs JFalse = True"
| "tidy cs JTrue = True"
| "tidy cs (JNum x) = (\<not> f64_nan x)"
| "tidy cs (JStr s) = True"
| "tidy cs (JArr js) = tidy_elements cs js"
| "tidy cs (JObj ms) = tidy_members cs ms"
| "tidy_elements cs [] = True"
| "tidy_elements cs (j # js) = (tidy cs j \<and> tidy_elements cs js)"
| "tidy_members cs [] = True"
| "tidy_members cs ((k, j) # ms) = ((\<forall>m \<in> set ms. \<not> name_eq cs (fst m) k) \<and> tidy cs j \<and> tidy_members cs ms)"

lemma name_eq_refl [simp]: "name_eq cs s s"
  by (simp add: name_eq_def)

lemma name_eq_sym: "name_eq cs s t = name_eq cs t s"
  by (auto simp: name_eq_def)

lemma f64_eq_sym: "f64_eq x y \<Longrightarrow> f64_eq y x"
  by (auto simp: f64_eq_def)

lemma f64_eq_trans: "f64_eq x y \<Longrightarrow> f64_eq y z \<Longrightarrow> f64_eq x z"
  by (auto simp: f64_eq_def split: if_splits)

text \<open>It is symmetric and transitive, and reflexive on values without NaN.\<close>

lemma json_equal_sym: "json_equal cs j k \<Longrightarrow> json_equal cs k j"
proof (induction rule: json_equal.induct)
  case (num x y)
  then show ?case by (simp add: f64_eq_sym)
next
  case (arr js ks)
  then show ?case by (auto simp: list_all2_conv_all_nth)
next
  case (obj ms ns' ns)
  have "list_all2 (\<lambda>m n. name_eq cs (fst m) (fst n) \<and> json_equal cs (snd m) (snd n)) ns' ms"
    using obj(1) by (auto simp: list_all2_conv_all_nth name_eq_sym)
  from list_all2_reorder_left_invariance [OF this obj(2) [symmetric]] obtain ms' where
    "list_all2 (\<lambda>m n. name_eq cs (fst m) (fst n) \<and> json_equal cs (snd m) (snd n)) ns ms'" "mset ms' = mset ms" by blast
  then show ?case by (rule json_equal.obj)
qed simp_all

lemma json_equal_refl:
  "tidy cs j \<Longrightarrow> json_equal cs j j"
  "tidy_elements cs js \<Longrightarrow> list_all2 (json_equal cs) js js"
  "tidy_members cs ms \<Longrightarrow> list_all2 (\<lambda>m n. name_eq cs (fst m) (fst n) \<and> json_equal cs (snd m) (snd n)) ms ms"
  by (induction cs j and cs js and cs ms rule: tidy_tidy_elements_tidy_members.induct) (auto simp: f64_eq_def intro: json_equal.obj)

lemma json_equal_trans: "json_equal cs j k \<Longrightarrow> json_equal cs k l \<Longrightarrow> json_equal cs j l"
proof (induction arbitrary: l rule: json_equal.induct)
  case (num x y)
  then show ?case by (auto dest: f64_eq_trans)
next
  case (arr js ks)
  from arr.prems obtain ls where l: "l = JArr ls" "list_all2 (json_equal cs) ks ls" by auto
  have "list_all2 (json_equal cs) js ls"
    by (rule list_all2_trans [OF _ arr.IH l(2)]) auto
  with l(1) show ?case by simp
next
  case (obj ms ns' ns)
  from obj.prems obtain ls ls' where l: "l = JObj ls" "mset ls' = mset ls"
    "list_all2 (\<lambda>m n. name_eq cs (fst m) (fst n) \<and> json_equal cs (snd m) (snd n)) ns ls'" by (auto elim: json_equal_objE)
  from list_all2_reorder_left_invariance [OF l(3) obj(2)] obtain us where
    u: "list_all2 (\<lambda>m n. name_eq cs (fst m) (fst n) \<and> json_equal cs (snd m) (snd n)) ns' us" "mset us = mset ls'" by blast
  have "list_all2 (\<lambda>m n. name_eq cs (fst m) (fst n) \<and> json_equal cs (snd m) (snd n)) ms us"
    by (rule list_all2_trans [OF _ obj.IH(1) u(1)]) (auto dest: name_eq_trans)
  with u(2) l(1,2) show ?case by (auto intro: json_equal.obj)
qed simp_all

definition canon :: "bool \<Rightarrow> byte list \<times> json \<Rightarrow> byte list" where
  "canon cs m = (if cs then fst m else map tolower (fst m))"

lemma name_eq_canon: "name_eq cs (fst m) (fst n) = (canon cs m = canon cs n)"
  by (simp add: name_eq_def canon_def)

lemma tidy_canon: "tidy_members cs ms \<Longrightarrow> distinct (map (canon cs) ms)"
  by (induction ms) (fastforce simp: name_eq_def canon_def split: if_splits)+

lemma tidy_in:
  "tidy_members cs ms \<Longrightarrow> m \<in> set ms \<Longrightarrow> tidy cs (snd m)"
  "tidy_elements cs js \<Longrightarrow> j \<in> set js \<Longrightarrow> tidy cs j"
  by (induction ms, auto) (induction js, auto)

lemma member_of_canon:
  assumes "distinct (map (canon cs) ns)"
  shows "member_of cs (fst m) ns = Some j \<longleftrightarrow> (\<exists>n \<in> set ns. canon cs m = canon cs n \<and> j = snd n)"
  using assms
proof (induction ns)
  case (Cons n ns)
  have "member_of cs (fst m) (n # ns) = (if canon cs n = canon cs m then Some (snd n) else member_of cs (fst m) ns)"
    by (simp add: member_of_def name_eq_canon)
  then show ?case using Cons by auto
qed simp

lemma list_all2_choice: "\<forall>x \<in> set xs. \<exists>y. P x y \<Longrightarrow> \<exists>ys. list_all2 P xs ys"
  by (induction xs) (auto intro: list_all2_Cons [THEN iffD2])

lemma list_all2_set: "list_all2 P xs ys \<Longrightarrow> (\<forall>x \<in> set xs. \<exists>y \<in> set ys. P x y) \<and> (\<forall>y \<in> set ys. \<exists>x \<in> set xs. P x y)"
  by (induction rule: list_all2_induct) auto

text \<open>Members with distinct names are matched up to their order exactly when each has its match.\<close>

lemma matched:
  assumes d: "distinct (map f ms)" "distinct (map f ns)"
  shows "(\<exists>ns'. list_all2 (\<lambda>m n. f m = f n \<and> P m n) ms ns' \<and> mset ns' = mset ns) \<longleftrightarrow>
    (\<forall>m \<in> set ms. \<exists>n \<in> set ns. f m = f n \<and> P m n) \<and> (\<forall>n \<in> set ns. \<exists>m \<in> set ms. f n = f m \<and> P m n)" (is "?L = (?A \<and> ?B)")
proof
  assume ?L
  then obtain ns' where n: "list_all2 (\<lambda>m n. f m = f n \<and> P m n) ms ns'" "mset ns' = mset ns" by (elim exE conjE)
  note s = list_all2_set [OF n(1), unfolded mset_eq_setD [OF n(2)]]
  have ?B
  proof
    fix n assume "n \<in> set ns"
    with s obtain m where "m \<in> set ms" "f m = f n \<and> P m n" by blast
    then show "\<exists>m \<in> set ms. f n = f m \<and> P m n" by (intro bexI [of _ m]) simp_all
  qed
  with s show "?A \<and> ?B" by (elim conjE) (rule conjI)
next
  assume AB: "?A \<and> ?B"
  then have "\<forall>m \<in> set ms. \<exists>n. n \<in> set ns \<and> f m = f n \<and> P m n" by blast
  from list_all2_choice [OF this] obtain ns' where n: "list_all2 (\<lambda>m n. n \<in> set ns \<and> f m = f n \<and> P m n) ms ns'" by blast
  then have m: "map f ms = map f ns'" "set ns' \<subseteq> set ns" "list_all2 (\<lambda>m n. f m = f n \<and> P m n) ms ns'"
    by (auto simp: list_all2_conv_all_nth in_set_conv_nth intro: nth_equalityI)
  have "n \<in> set ns'" if "n \<in> set ns" for n
  proof -
    obtain m where "m \<in> set ms" "f n = f m" using AB \<open>n \<in> set ns\<close> by blast
    then have "f n \<in> set (map f ms)" by simp
    then have "f n \<in> set (map f ns')" unfolding m(1) .
    then obtain n' where n': "n' \<in> set ns'" "f n = f n'" by auto
    with m(2) that d(2) have "n = n'" by (auto simp: distinct_map dest: inj_onD)
    with n' show ?thesis by simp
  qed
  with m(2) have "set ns' = set ns" by blast
  moreover have "distinct ns'" "distinct ns" using d m(1) by (simp_all add: distinct_map)
  ultimately have "mset ns' = mset ns" using set_eq_iff_mset_eq_distinct by blast
  with m(3) show ?L by blast
qed

text \<open>On values without NaN and with distinct names, the comparison of the code is equality.\<close>

lemma equal_json_members:
  assumes "distinct (map (canon cs) ns)"
  shows "(\<forall>m \<in> set ms. case member_of cs (fst m) ns of None \<Rightarrow> False | Some j \<Rightarrow> Q (snd m) j) \<longleftrightarrow>
    (\<forall>m \<in> set ms. \<exists>n \<in> set ns. canon cs m = canon cs n \<and> Q (snd m) (snd n))"
proof (rule ball_cong [OF refl])
  fix m assume "m \<in> set ms"
  have "(case member_of cs (fst m) ns of None \<Rightarrow> False | Some j \<Rightarrow> Q (snd m) j) \<longleftrightarrow> (\<exists>j. member_of cs (fst m) ns = Some j \<and> Q (snd m) j)"
    by (simp split: option.split)
  then show "(case member_of cs (fst m) ns of None \<Rightarrow> False | Some j \<Rightarrow> Q (snd m) j) \<longleftrightarrow>
      (\<exists>n \<in> set ns. canon cs m = canon cs n \<and> Q (snd m) (snd n))"
    unfolding member_of_canon [OF assms] by blast
qed

lemma equal_json_equality: "tidy cs j \<Longrightarrow> tidy cs k \<Longrightarrow> equal_json cs j k = json_equal cs j k"
proof (induction "size j + size k" arbitrary: j k rule: less_induct)
  case less
  show ?case
  proof (cases "\<exists>js ks. j = JArr js \<and> k = JArr ks")
    case True
    then obtain js ks where a: "j = JArr js" "k = JArr ks" by blast
    have "equal_json cs x y = json_equal cs x y" if "x \<in> set js" "y \<in> set ks" for x y
      using that less a tidy_in(2) element_size [OF that(1)] element_size [OF that(2)] by (intro less.hyps) auto
    then show ?thesis unfolding a by (auto simp: list_all2_conv_all_nth)
  next
    case arr: False
    show ?thesis
    proof (cases "\<exists>ms ns. j = JObj ms \<and> k = JObj ns")
      case True
      then obtain ms ns where o: "j = JObj ms" "k = JObj ns" by blast
      have t: "tidy_members cs ms" "tidy_members cs ns" using less.prems o by simp_all
      have e: "equal_json cs (snd x) (snd y) = json_equal cs (snd x) (snd y)" "equal_json cs (snd y) (snd x) = json_equal cs (snd x) (snd y)"
        if "x \<in> set ms" "y \<in> set ns" for x y
      proof -
        have s: "size (snd x) < size j" "size (snd y) < size k" using value_size that o by auto
        have y: "tidy cs (snd x)" "tidy cs (snd y)" using tidy_in(1) t that by auto
        show "equal_json cs (snd x) (snd y) = json_equal cs (snd x) (snd y)" by (rule less.hyps) (use s y in auto)
        have "equal_json cs (snd y) (snd x) = json_equal cs (snd y) (snd x)" by (rule less.hyps) (use s y in auto)
        then show "equal_json cs (snd y) (snd x) = json_equal cs (snd x) (snd y)" using json_equal_sym by blast
      qed
      show ?thesis
        unfolding o equal_json_simps json_equal_obj name_eq_canon equal_json_members [OF tidy_canon [OF t(1)]]
          equal_json_members [OF tidy_canon [OF t(2)]] matched [OF tidy_canon [OF t(1)] tidy_canon [OF t(2)]]
        using e by blast
    next
      case False
      with arr show ?thesis by (cases j; cases k) (auto dest: equal_json_differ elim: json_equal_objE)
    qed
  qed
qed

subsection \<open>A tree and its copy\<close>

lemma equal_json_refl:
  "tidy cs j \<Longrightarrow> equal_json cs j j"
  "tidy_elements cs js \<Longrightarrow> list_all2 (equal_json cs) js js"
  "tidy_members cs ms \<Longrightarrow> \<forall>m \<in> set ms. member_of cs (fst m) ms = Some (snd m) \<and> equal_json cs (snd m) (snd m)"
proof (induction cs j and cs js and cs ms rule: tidy_tidy_elements_tidy_members.induct)
  case (4 cs x)
  then show ?case by (simp add: f64_eq_def)
next
  case (11 cs k j ms)
  then show ?case by (auto simp: name_eq_sym [of cs k])
qed auto

lemma alike_complete: "alike ts us \<Longrightarrow> complete ts \<Longrightarrow> complete us"
proof (induction ts us rule: alike.induct)
  case (2 p ty vs vi vd k ks ts p' ty' vs' vi' vd' k' ks' us)
  have keys: "alike xs ys \<Longrightarrow> \<forall>x \<in> set xs. jkey x \<noteq> None \<Longrightarrow> \<forall>y \<in> set ys. jkey y \<noteq> None" for xs ys
    by (induction xs ys rule: alike.induct) auto
  from 2 keys [of ks ks'] show ?case by (auto simp: reference_cleared(3))
qed auto

lemma alike_height: "alike ts us \<Longrightarrow> height us = height ts"
  by (induction ts us rule: alike.induct) auto

lemma sound_addrs: "sound S us \<Longrightarrow> set (addrs us) \<subseteq> set (foot us)"
  by (induction S us rule: sound.induct) auto

lemma addrs_blocks: "set (addrs ts) \<subseteq> set (blocks ts)"
  by (induction ts rule: blocks.induct) auto

lemma compare_copy:
  assumes I: "items_at h a [t] c" and C: "copied h h' (set (blocks [t])) [t']" and A: "alike [t] [t']"
    and j: "json_of t = Some j" "tidy cs j" and ct: "complete [t]" and n: "height [t] \<le> n"
  shows "cJSON_Compare n (jaddr t) (jaddr t') cs h' = Some True"
proof -
  have "items_at h' a [t] c" by (rule copied_source [OF C I])
  moreover have "items_at h' NULL [t'] NULL" using C by (simp add: copied_def)
  moreover have "json_of t' = Some j" using alike_json [OF A] j(1) by simp
  moreover have "set (addrs [t]) \<inter> set (addrs [t']) = {}"
  proof -
    have "set (addrs [t']) \<subseteq> set (foot [t'])" 
      using C by (intro sound_addrs [of "set (blocks [t])"]) (simp add: copied_def)
    moreover have "load q h \<noteq> None" if "q \<in> set (addrs [t])" for q
      using that addrs_blocks [of "[t]"] items_at_live [OF I] by blast
    ultimately show ?thesis using C by (fastforce simp: copied_def)
  qed
  ultimately show ?thesis
    using compare_ok [of h' a t c NULL t' NULL j j n cs] j ct alike_complete [OF A ct] n alike_height [OF A]
      equal_json_refl(1) [OF j(2)] by simp
qed

end
