(* ===== verification/CJsonCopyClaims.thy ===== *)
theory CJsonCopyClaims
  imports CJsonClaims CJsonCompare
begin

text \<open>The properties of \<open>cJSON_Duplicate\<close> and \<open>cJSON_Compare\<close>.\<close>

text \<open>C4: \<open>cJSON_Duplicate\<close> of any tree, with any failing allocations, returns NULL and leaves the heap as it
  was, or returns a new tree with the same items, types (without the reference flag), numbers and texts. Only
  constant names are shared with the original; all other blocks of the copy are new, everything else is
  untouched, and the copy stands for the same JSON value. It is NULL only if an allocation failed.\<close>

theorem duplicate_copies:
  assumes "wf_heap h" and "items_at h a [t] c" and "height [t] \<le> n"
  shows "\<exists>p h'. cJSON_Duplicate n (jaddr t) recurse h = Some (p, h') \<and> wf_heap h' \<and>
    (if p = NULL then True \<in> set (oom h) \<and> (\<forall>q. load q h' = load q h)
     else \<exists>t'. jaddr t' = p \<and> copied h h' (set (blocks [t])) [t'] \<and>
       alike [if recurse then t else childless t] [t'] \<and> (recurse \<longrightarrow> json_of t' = json_of t))"
  using duplicate_ok [OF assms, of recurse] alike_json [of t] by (fastforce simp: duplicated_def split: if_splits)

theorem duplicate_copies_witness:
  "\<exists>p h' t'. cJSON_Duplicate 2 1 True ex_json = Some (p, h') \<and> p = jaddr t' \<and> items_at h' NULL [t'] NULL \<and>
    json_of t' = Some (JArr [JTrue, JStr [104, 105], JNull]) \<and> set (foot [t']) \<inter> set (blocks [ex_array]) = {}"
proof -
  have h: "height [ex_array] \<le> 2" "jaddr ex_array = 1" by (simp_all add: ex_array_def ex_items_def)
  have j: "json_of ex_array = Some (JArr [JTrue, JStr [104, 105], JNull])"
    by (simp add: ex_array_def ex_items_def ctype_defs str_of_def)
  from duplicate_copies [OF ex_json_wf(1) ex_json_items(1) h(1), of True] obtain p h' t' where
    r: "cJSON_Duplicate 2 1 True ex_json = Some (p, h')" "jaddr t' = p" "json_of t' = json_of ex_array"
    and C: "copied ex_json h' (set (blocks [ex_array])) [t']" by (auto simp: h(2) split: if_splits)
  have "load q ex_json \<noteq> None" if "q \<in> set (blocks [ex_array])" for q
    using items_at_live [OF ex_json_items(1) that] .
  with r C j show ?thesis by (fastforce simp: copied_def)
qed

text \<open>C5: \<open>cJSON_Compare\<close> of two trees of different items, whose numbers are not NaN and whose objects have distinct
  names (up to the case of letters, if the comparison is without regard to it), decides whether they stand for equal values: numbers
  that are equal in C, the same strings, arrays with equal elements at the same positions, and objects with equal
  members under the same names, in any order.  For objects with repeated names it is not equality, since the code only
  finds the first member with a name: see \<open>compare_repeated_names\<close>.\<close>

theorem compare_decides:
  assumes "items_at h a [t] c" and "items_at h a' [u] c'" and "json_of t = Some j" and "json_of u = Some j'"
    and "tidy cs j" and "tidy cs j'" and "complete [t]" and "complete [u]" and "set (addrs [t]) \<inter> set (addrs [u]) = {}"
    and "height [t] \<le> n" and "height [u] \<le> n"
  shows "cJSON_Compare n (jaddr t) (jaddr u) cs h = Some (json_equal cs j j')"
  using compare_ok [OF assms(1-4,7-11)] equal_json_equality [OF assms(5,6)] by simp

text \<open>The objects \<open>{"a": true, "b": "hi"}\<close> at 1 and \<open>{"b": "hi", "A": true}\<close> at 4.\<close>

definition ex_orders :: jheap where
  "ex_orders = \<lparr>cells = [1 \<mapsto> ex_cell 0 0 2 cJSON_Object 0 0 0, 2 \<mapsto> ex_cell 3 0 0 cJSON_True 0 1 7,
      3 \<mapsto> ex_cell 0 2 0 cJSON_String 9 0 8, 4 \<mapsto> ex_cell 0 0 5 cJSON_Object 0 0 0,
      5 \<mapsto> ex_cell 6 0 0 cJSON_String 10 0 11, 6 \<mapsto> ex_cell 0 5 0 cJSON_True 0 1 12,
      7 \<mapsto> StrC (str_buf [97]), 8 \<mapsto> StrC (str_buf [98]), 9 \<mapsto> StrC (str_buf [104, 105]),
      10 \<mapsto> StrC (str_buf [104, 105]), 11 \<mapsto> StrC (str_buf [98]), 12 \<mapsto> StrC (str_buf [65])], brk = 13, oom = []\<rparr>"

definition ex_order_a :: jtree where
  "ex_order_a = JT 1 cJSON_Object None 0 0 None [JT 2 cJSON_True None 1 0 (Some (7, [97])) [],
     JT 3 cJSON_String (Some (9, [104, 105])) 0 0 (Some (8, [98])) []]"

definition ex_order_b :: jtree where
  "ex_order_b = JT 4 cJSON_Object None 0 0 None [JT 5 cJSON_String (Some (10, [104, 105])) 0 0 (Some (11, [98])) [],
     JT 6 cJSON_True None 1 0 (Some (12, [65])) []]"

lemma ex_orders_items: "items_at ex_orders NULL [ex_order_a] NULL" "items_at ex_orders NULL [ex_order_b] NULL"
proof -
  have "read_str 7 ex_orders = Some [97]" "read_str 8 ex_orders = Some [98]" "read_str 9 ex_orders = Some [104, 105]"
    "read_str 10 ex_orders = Some [104, 105]" "read_str 11 ex_orders = Some [98]" "read_str 12 ex_orders = Some [65]"
    by (simp_all add: read_str_def load_str_def load_def ex_orders_def NULL_def)
  then show "items_at ex_orders NULL [ex_order_a] NULL" "items_at ex_orders NULL [ex_order_b] NULL"
    by (simp_all add: ex_order_a_def ex_order_b_def load_item_def load_def NULL_def) (simp_all add: ex_orders_def ex_cell_def)
qed

theorem compare_decides_witness:
  "cJSON_Compare 2 1 4 False ex_orders = Some True \<and> cJSON_Compare 2 1 4 True ex_orders = Some False"
proof -
  let ?ms = "[([97], JTrue), ([98], JStr [104, 105])]" and ?ns = "[([98], JStr [104, 105]), ([65], JTrue)]"
  have j: "json_of ex_order_a = Some (JObj ?ms)" "json_of ex_order_b = Some (JObj ?ns)"
    by (simp_all add: ex_order_a_def ex_order_b_def ctype_defs str_of_def)
  have n: "tidy cs (JObj ?ms)" "tidy cs (JObj ?ns)" for cs by (simp_all add: name_eq_def tolower_def)
  have c: "complete [ex_order_a]" "complete [ex_order_b]" by (simp_all add: ex_order_a_def ex_order_b_def ctype_defs)
  have d: "set (addrs [ex_order_a]) \<inter> set (addrs [ex_order_b]) = {}" "height [ex_order_a] \<le> 2" "height [ex_order_b] \<le> 2"
    "jaddr ex_order_a = 1" "jaddr ex_order_b = 4" by (simp_all add: ex_order_a_def ex_order_b_def)
  have e: "json_equal False (JObj ?ms) (JObj ?ns)"
    by (rule json_equal.obj [of _ _ "[([65], JTrue), ([98], JStr [104, 105])]"]) (simp_all add: name_eq_def tolower_def)
  have f: "\<not> json_equal True (JObj ?ms) (JObj ?ns)"
  proof
    assume "json_equal True (JObj ?ms) (JObj ?ns)"
    then obtain ns' where ns': "list_all2 (\<lambda>m n. name_eq True (fst m) (fst n) \<and> json_equal True (snd m) (snd n)) ?ms ns'"
      "mset ns' = mset ?ns" unfolding json_equal_obj by (elim exE conjE)
    from ns'(1) obtain y ys where y: "ns' = y # ys" "fst y = [97]" by (cases ns') (simp_all add: name_eq_def)
    have "y \<in> set ns'" using y(1) by simp
    then have "y \<in> set ?ns" by (simp only: mset_eq_setD [OF ns'(2)])
    then show False using y(2) by auto
  qed
  show ?thesis using compare_decides [OF ex_orders_items j n c d(1-3)] e f by (simp add: d(4,5))
qed

text \<open>Objects with a repeated name are not compared as values: trees that stand for the same object with the members
  \<open>(k, x)\<close> and \<open>(k, y)\<close>, a tree and its copy for instance, compare unequal when \<open>y\<close> differs from \<open>x\<close>.\<close>

lemma compare_repeated_names:
  assumes "items_at h a [t] c" and "items_at h a' [u] c'" and "json_of t = Some (JObj [(k, x), (k, y)])" and "json_of u = json_of t"
    and "complete [t]" and "complete [u]" and "set (addrs [t]) \<inter> set (addrs [u]) = {}"
    and "height [t] \<le> n" and "height [u] \<le> n" and "\<not> equal_json cs y x"
  shows "cJSON_Compare n (jaddr t) (jaddr u) cs h = Some False"
proof -
  have "\<not> equal_json cs (JObj [(k, x), (k, y)]) (JObj [(k, x), (k, y)])" using assms(10) by simp
  moreover have "json_of u = Some (JObj [(k, x), (k, y)])" using assms(3,4) by simp
  ultimately show ?thesis using compare_ok [OF assms(1-3) _ assms(5-9)] by simp
qed

definition ex_object :: jtree where
  "ex_object = JT 10 cJSON_Object None 0 0 None ex_members"

lemma ex_object_items: "items_at ex_json NULL [ex_object] NULL"
  using ex_json_items(4)
  by (simp add: ex_object_def load_item_def load_def NULL_def) (simp add: ex_json_def ex_cell_def ex_members_def)

text \<open>A tree without NaN whose objects have distinct names compares equal to the copy that
  \<open>cJSON_Duplicate\<close> makes of it.\<close>

theorem duplicate_compares_equal:
  assumes "wf_heap h" and "items_at h a [t] c" and "height [t] \<le> n" and "json_of t = Some j" and "tidy cs j"
    and "complete [t]" and "True \<notin> set (oom h)"
  shows "\<exists>p h'. cJSON_Duplicate n (jaddr t) True h = Some (p, h') \<and> p \<noteq> NULL \<and>
    cJSON_Compare n (jaddr t) p cs h' = Some True"
proof -
  from duplicate_ok [OF assms(1-3), of True] assms(7) obtain h' t' where
    d: "cJSON_Duplicate n (jaddr t) True h = Some (jaddr t', h')" "jaddr t' \<noteq> NULL"
    "copied h h' (set (blocks [t])) [t']" "alike [t] [t']"
    by (auto simp: duplicated_def split: if_splits)
  from compare_copy [OF assms(2) d(3,4) assms(4,5,6,3)] d show ?thesis by blast
qed

theorem duplicate_compares_equal_witness:
  "\<exists>p h'. cJSON_Duplicate 2 10 True ex_json = Some (p, h') \<and> cJSON_Compare 2 10 p True h' = Some True"
proof -
  have h: "height [ex_object] \<le> 2" "complete [ex_object]"
    and j: "json_of ex_object = Some (JObj [([65, 98], JTrue), ([97, 98], JFalse)])"
    by (simp_all add: ex_object_def ex_members_def ctype_defs str_of_def)
  have n: "tidy True (JObj [([65, 98], JTrue), ([97, 98], JFalse)])" by (simp add: name_eq_def)
  from duplicate_compares_equal [OF ex_json_wf(1) ex_object_items h(1) j n h(2)] show ?thesis
    by (auto simp: ex_object_def)
qed

end
