(* ===== verification/SimplePool.thy ===== *)
theory SimplePool
  imports Prelude
begin

text \<open>
  The thread pool of \<open>simple_threadpool.c\<close>: a bounded queue of jobs between the threads that call
  \<open>threadpool_add_job\<close>, the worker threads and one thread that calls \<open>threadpool_destory\<close>.

  The job nodes live on an explicit heap.  What a thread does while it holds the mutex, up to the
  unlock or the \<open>pthread_cond_wait\<close> that gives it up, is one step; a thread that was woken has to
  take the mutex and test its condition again, like one that arrives.  The scheduler, spurious
  wake-ups and failing allocations are arbitrary.
\<close>

subsection \<open>Data\<close>

record job =
  p_callback_func :: nat
  arg :: addr
  jnext :: addr

type_synonym job_heap = "job heap"

record tpool =
  thread_num :: nat
  queue_max_num :: int
  qhead :: addr
  qtail :: addr
  queue_cur_num :: int
  queue_close :: bool
  pool_close :: bool

subsection \<open>With the mutex held\<close>

text \<open>\<open>threadpool_add_job\<close>: wait for \<open>queue_not_full\<close>, or return and whether to broadcast \<open>queue_not_empty\<close>.\<close>

datatype add_result = Add_Wait | Add_Return int bool

definition add_job_locked :: "nat \<Rightarrow> addr \<Rightarrow> tpool \<Rightarrow> job_heap \<Rightarrow> (add_result \<times> tpool \<times> job_heap) option" where
  "add_job_locked f a p h =
     (if queue_cur_num p = queue_max_num p \<and> \<not> (pool_close p \<or> queue_close p) then Some (Add_Wait, p, h)
      else if queue_close p \<or> pool_close p then Some (Add_Return (-1) False, p, h)
      else
        (let (pjob, h) = malloc \<lparr>p_callback_func = f, arg = a, jnext = NULL\<rparr> h in
         if pjob = NULL then Some (Add_Return (-1) False, p, h)
         else if qhead p = NULL then
           Some (Add_Return 0 True, p\<lparr>qhead := pjob, qtail := pjob, queue_cur_num := queue_cur_num p + 1\<rparr>, h)
         else do {
           t \<leftarrow> load (qtail p) h;
           h \<leftarrow> store (qtail p) (t\<lparr>jnext := pjob\<rparr>) h;
           Some (Add_Return 0 False, p\<lparr>qtail := pjob, queue_cur_num := queue_cur_num p + 1\<rparr>, h) }))"

text \<open>
  \<open>threadpool_routine\<close>: wait for \<open>queue_not_empty\<close>, exit, or take a job; then whether to signal
  \<open>queue_empty\<close> and whether to broadcast \<open>queue_not_full\<close>.
\<close>

datatype take_result = Take_Wait | Take_Exit | Take_Job addr bool bool

definition take_job_locked :: "tpool \<Rightarrow> job_heap \<Rightarrow> (take_result \<times> tpool) option" where
  "take_job_locked p h =
     (if queue_cur_num p = 0 \<and> \<not> pool_close p then Some (Take_Wait, p)
      else if pool_close p then Some (Take_Exit, p)
      else
        (let n = queue_cur_num p - 1; pjob = qhead p in
         if n = 0 then Some (Take_Job pjob True False, p\<lparr>queue_cur_num := n, qhead := NULL, qtail := NULL\<rparr>)
         else do {
           j \<leftarrow> load pjob h;
           Some (Take_Job pjob False (n \<le> queue_max_num p - 1), p\<lparr>queue_cur_num := n, qhead := jnext j\<rparr>) }))"

text \<open>\<open>threadpool_destory\<close>: the wait for the empty queue, and the last loop, which releases what is left.\<close>

definition drained_locked :: "tpool \<Rightarrow> bool \<times> tpool" where
  "drained_locked p = (if queue_cur_num p \<noteq> 0 then (False, p) else (True, p\<lparr>pool_close := True\<rparr>))"

partial_function (option) free_jobs :: "addr \<Rightarrow> job_heap \<Rightarrow> job_heap option" where
  [code]: "free_jobs pjob h =
     (if pjob = NULL then Some h
      else do {
        j \<leftarrow> load pjob h;
        h \<leftarrow> free pjob h;
        free_jobs (jnext j) h })"

subsection \<open>The threads\<close>

text \<open>
  A worker is before \<open>pthread_mutex_lock\<close>, asleep on \<open>queue_not_empty\<close>, about to call the callback of
  its job, about to free the job, or gone.
\<close>

datatype worker = W_Lock | W_Wait | W_Call addr | W_Free addr | W_Exit

text \<open>A caller of \<open>threadpool_add_job\<close>: before the lock, asleep on \<open>queue_not_full\<close>, or returned.\<close>

datatype producer = P_Lock nat addr | P_Wait nat addr | P_Done int

text \<open>
  The caller of \<open>threadpool_destory\<close>: not yet called, before the lock, asleep on \<open>queue_empty\<close>, woken,
  before each of the two broadcasts, joining thread \<open>k\<close>, returned.
\<close>

datatype destroyer = D_Idle | D_Lock | D_Wait | D_Woken | D_Wake_Workers | D_Wake_Producers | D_Join nat | D_Done

text \<open>
  The last three fields record what happened: the jobs that were accepted, taken from the queue and
  called, in order.
\<close>

record sys =
  pool :: tpool
  mem :: job_heap
  released :: bool
  workers :: "worker list"
  producers :: "producer list"
  destroyer :: destroyer
  accepted :: "(nat \<times> addr) list"
  taken :: "(nat \<times> addr) list"
  called :: "(nat \<times> addr) list"

datatype event = Submit nat addr | Destroy | Worker nat | Producer nat | Destroyer
  | Spurious_Worker nat | Spurious_Producer nat | Spurious_Destroyer

datatype outcome = Blocked | Undefined | Next sys

definition outcome_of :: "sys option \<Rightarrow> outcome" where
  "outcome_of r = (case r of None \<Rightarrow> Undefined | Some s \<Rightarrow> Next s)"

definition wake_worker :: "worker \<Rightarrow> worker" where
  "wake_worker w = (if w = W_Wait then W_Lock else w)"

definition wake_producer :: "producer \<Rightarrow> producer" where
  "wake_producer p = (case p of P_Wait f a \<Rightarrow> P_Lock f a | _ \<Rightarrow> p)"

definition wake_destroyer :: "destroyer \<Rightarrow> destroyer" where
  "wake_destroyer d = (if d = D_Wait then D_Woken else d)"

definition payload :: "job \<Rightarrow> nat \<times> addr" where
  "payload j = (p_callback_func j, arg j)"

definition payloads :: "job_heap \<Rightarrow> addr list \<Rightarrow> (nat \<times> addr) list" where
  "payloads h js = List.map_filter (\<lambda>q. map_option payload (load q h)) js"

definition worker_step :: "nat \<Rightarrow> sys \<Rightarrow> outcome" where
  "worker_step i s =
     (case workers s ! i of
        W_Lock \<Rightarrow>
          if released s then Undefined
          else outcome_of (do {
            (r, p) \<leftarrow> take_job_locked (pool s) (mem s);
            (case r of
               Take_Wait \<Rightarrow> Some (s\<lparr>workers := (workers s)[i := W_Wait]\<rparr>)
             | Take_Exit \<Rightarrow> Some (s\<lparr>workers := (workers s)[i := W_Exit]\<rparr>)
             | Take_Job pjob signal_empty broadcast_not_full \<Rightarrow>
                 Some (s\<lparr>pool := p, workers := (workers s)[i := W_Call pjob],
                   destroyer := (if signal_empty then wake_destroyer (destroyer s) else destroyer s),
                   producers := (if broadcast_not_full then map wake_producer (producers s) else producers s),
                   taken := taken s @ payloads (mem s) [pjob]\<rparr>)) })
      | W_Call pjob \<Rightarrow> outcome_of (do {
          j \<leftarrow> load pjob (mem s);
          Some (s\<lparr>workers := (workers s)[i := W_Free pjob], called := called s @ [payload j]\<rparr>) })
      | W_Free pjob \<Rightarrow> outcome_of (do {
          h \<leftarrow> free pjob (mem s);
          Some (s\<lparr>mem := h, workers := (workers s)[i := W_Lock]\<rparr>) })
      | _ \<Rightarrow> Blocked)"

definition producer_step :: "nat \<Rightarrow> sys \<Rightarrow> outcome" where
  "producer_step i s =
     (case producers s ! i of
        P_Lock f a \<Rightarrow>
          if released s then Undefined
          else outcome_of (do {
            (r, p, h) \<leftarrow> add_job_locked f a (pool s) (mem s);
            (case r of
               Add_Wait \<Rightarrow> Some (s\<lparr>producers := (producers s)[i := P_Wait f a]\<rparr>)
             | Add_Return v broadcast_not_empty \<Rightarrow>
                 Some (s\<lparr>pool := p, mem := h, producers := (producers s)[i := P_Done v],
                   workers := (if broadcast_not_empty then map wake_worker (workers s) else workers s),
                   accepted := (if v = 0 then accepted s @ [(f, a)] else accepted s)\<rparr>)) })
      | _ \<Rightarrow> Blocked)"

definition destroyer_step :: "sys \<Rightarrow> outcome" where
  "destroyer_step s =
     (case destroyer s of
        D_Lock \<Rightarrow>
          if released s then Undefined
          else if queue_close (pool s) \<and> pool_close (pool s) then Next (s\<lparr>destroyer := D_Done\<rparr>)
          else
            (let (empty, p) = drained_locked ((pool s)\<lparr>queue_close := True\<rparr>) in
             Next (s\<lparr>pool := p, destroyer := (if empty then D_Wake_Workers else D_Wait)\<rparr>))
      | D_Woken \<Rightarrow>
          (let (empty, p) = drained_locked (pool s) in
           Next (s\<lparr>pool := p, destroyer := (if empty then D_Wake_Workers else D_Wait)\<rparr>))
      | D_Wake_Workers \<Rightarrow> Next (s\<lparr>workers := map wake_worker (workers s), destroyer := D_Wake_Producers\<rparr>)
      | D_Wake_Producers \<Rightarrow> Next (s\<lparr>producers := map wake_producer (producers s), destroyer := D_Join 0\<rparr>)
      | D_Join k \<Rightarrow>
          if k < thread_num (pool s) then
            (if workers s ! k = W_Exit then Next (s\<lparr>destroyer := D_Join (k + 1)\<rparr>) else Blocked)
          else outcome_of (do {
            h \<leftarrow> free_jobs (qhead (pool s)) (mem s);
            Some (s\<lparr>mem := h, released := True, destroyer := D_Done\<rparr>) })
      | _ \<Rightarrow> Blocked)"

fun step :: "event \<Rightarrow> sys \<Rightarrow> outcome" where
  "step (Submit f a) s =
     Next (s\<lparr>producers := producers s @ [if f = NULL then P_Done (-1) else P_Lock f a]\<rparr>)"
| "step Destroy s = (if destroyer s = D_Idle then Next (s\<lparr>destroyer := D_Lock\<rparr>) else Blocked)"
| "step (Worker i) s = (if i < length (workers s) then worker_step i s else Blocked)"
| "step (Producer i) s = (if i < length (producers s) then producer_step i s else Blocked)"
| "step Destroyer s = destroyer_step s"
| "step (Spurious_Worker i) s =
     (if i < length (workers s) \<and> workers s ! i = W_Wait then Next (s\<lparr>workers := (workers s)[i := W_Lock]\<rparr>) else Blocked)"
| "step (Spurious_Producer i) s =
     (if i < length (producers s) then
        (case producers s ! i of P_Wait f a \<Rightarrow> Next (s\<lparr>producers := (producers s)[i := P_Lock f a]\<rparr>) | _ \<Rightarrow> Blocked)
      else Blocked)"
| "step Spurious_Destroyer s = (if destroyer s = D_Wait then Next (s\<lparr>destroyer := D_Woken\<rparr>) else Blocked)"

fun run :: "event list \<Rightarrow> sys \<Rightarrow> outcome" where
  "run [] s = Next s"
| "run (e # es) s = (case step e s of Next s' \<Rightarrow> run es s' | r \<Rightarrow> r)"

text \<open>
  \<open>threadpool_init\<close>: the two allocations and the four initialisations of the mutex and the conditions may
  fail; \<^term>\<open>None\<close> is the NULL that is then returned.  The threads are running afterwards.
\<close>

definition threadpool_init :: "nat \<Rightarrow> int \<Rightarrow> bool \<Rightarrow> int list \<Rightarrow> bool \<Rightarrow> job_heap \<Rightarrow> sys option" where
  "threadpool_init threads queue_max pool_ok inits pthreads_ok h =
     (if \<not> pool_ok then None
      else if \<exists>r \<in> set inits. r \<noteq> 0 then None
      else if \<not> pthreads_ok then None
      else Some \<lparr>pool = \<lparr>thread_num = threads, queue_max_num = queue_max, qhead = NULL, qtail = NULL,
          queue_cur_num = 0, queue_close = False, pool_close = False\<rparr>,
        mem = h, released = False, workers = replicate threads W_Lock, producers = [], destroyer = D_Idle,
        accepted = [], taken = [], called = []\<rparr>)"

end
