(* ===== verification/SimplePoolOk.thy ===== *)
theory SimplePoolOk
  imports SimplePool "HOL-Library.Multiset"
begin

text \<open>
  The invariant of the thread pool and its consequences.  \<open>queue_rep\<close> says which nodes the queue
  consists of, and each operation on it is shown to be what it is on lists; \<open>pool_inv\<close> says who owns
  which node, which jobs were accepted, taken and called, and why no thread sleeps through what it
  waits for.
\<close>

subsection \<open>The queue\<close>

fun chain :: "job_heap \<Rightarrow> addr \<Rightarrow> addr list \<Rightarrow> bool" where
  "chain h p [] = (p = NULL)"
| "chain h p (q # qs) = (p = q \<and> (\<exists>j. load q h = Some j \<and> chain h (jnext j) qs))"

definition queue_rep :: "tpool \<Rightarrow> job_heap \<Rightarrow> addr list \<Rightarrow> bool" where
  "queue_rep p h js \<longleftrightarrow> chain h (qhead p) js \<and> distinct js \<and> (js \<noteq> [] \<longrightarrow> qtail p = last js) \<and>
     queue_cur_num p = int (length js)"

lemma chain_live: "chain h p js \<Longrightarrow> q \<in> set js \<Longrightarrow> load q h \<noteq> None"
  by (induction js arbitrary: p) auto

lemma chain_cong: "(\<And>q. q \<in> set js \<Longrightarrow> load q h' = load q h) \<Longrightarrow> chain h' p js = chain h p js"
  by (induction js arbitrary: p) auto

lemma chain_head_NULL: "chain h p js \<Longrightarrow> (p = NULL) = (js = [])"
  by (cases js) auto

lemma chain_snoc:
  "chain h p (js @ [t]) \<Longrightarrow> distinct (js @ [t]) \<Longrightarrow> load t h = Some j \<Longrightarrow> q \<noteq> t \<Longrightarrow> q \<notin> set js \<Longrightarrow>
   load t h' = Some (j\<lparr>jnext := q\<rparr>) \<Longrightarrow> (\<And>x. x \<in> set js \<Longrightarrow> load x h' = load x h) \<Longrightarrow>
   load q h' = Some k \<Longrightarrow> jnext k = NULL \<Longrightarrow> chain h' p (js @ [t, q])"
  by (induction js arbitrary: p) auto

lemma payloads_simps [simp]:
  "payloads h [] = []" "payloads h (q # qs) = (case load q h of None \<Rightarrow> payloads h qs | Some j \<Rightarrow> payload j # payloads h qs)"
  "payloads h (xs @ ys) = payloads h xs @ payloads h ys"
  by (simp_all add: payloads_def List.map_filter_def split: option.splits)

lemma payloads_cong: "(\<And>q. q \<in> set js \<Longrightarrow> map_option payload (load q h') = map_option payload (load q h)) \<Longrightarrow>
  payloads h' js = payloads h js"
proof (induction js)
  case (Cons q js)
  then have "map_option payload (load q h') = map_option payload (load q h)" "payloads h' js = payloads h js" by simp_all
  then show ?case by (cases "load q h'"; cases "load q h") auto
qed simp

text \<open>Taking a job is taking the head of the list.\<close>

lemma take_job_ok:
  assumes "queue_rep p h js"
  shows "js = [] \<Longrightarrow> \<not> pool_close p \<Longrightarrow> take_job_locked p h = Some (Take_Wait, p)"
    and "pool_close p \<Longrightarrow> take_job_locked p h = Some (Take_Exit, p)"
    and "js = q # qs \<Longrightarrow> \<not> pool_close p \<Longrightarrow> \<exists>p'. take_job_locked p h =
      Some (Take_Job q (qs = []) (qs \<noteq> [] \<and> int (length qs) \<le> queue_max_num p - 1), p') \<and> queue_rep p' h qs \<and>
      thread_num p' = thread_num p \<and> queue_max_num p' = queue_max_num p \<and> queue_close p' = queue_close p \<and>
      pool_close p' = pool_close p"
proof -
  show "take_job_locked p h = Some (Take_Wait, p)" if "js = []" "\<not> pool_close p"
    using assms that by (simp add: queue_rep_def take_job_locked_def)
  show "take_job_locked p h = Some (Take_Exit, p)" if "pool_close p"
    using assms that by (simp add: queue_rep_def take_job_locked_def)
  show "\<exists>p'. take_job_locked p h =
      Some (Take_Job q (qs = []) (qs \<noteq> [] \<and> int (length qs) \<le> queue_max_num p - 1), p') \<and> queue_rep p' h qs \<and>
      thread_num p' = thread_num p \<and> queue_max_num p' = queue_max_num p \<and> queue_close p' = queue_close p \<and>
      pool_close p' = pool_close p" if "js = q # qs" "\<not> pool_close p"
  proof (cases qs)
    case Nil
    then show ?thesis using assms that by (simp add: queue_rep_def take_job_locked_def)
  next
    case (Cons r rs)
    then show ?thesis using assms that by (auto simp: queue_rep_def take_job_locked_def Let_def)
  qed
qed

text \<open>Adding a job appends a new node, if there is room and memory and the queue is open.\<close>

lemma add_job_ok:
  assumes R: "queue_rep p h js" and wf: "wf_heap h"
  obtains (wait) "int (length js) = queue_max_num p" "\<not> pool_close p" "\<not> queue_close p"
      "add_job_locked f a p h = Some (Add_Wait, p, h)"
  | (refused) h' where "add_job_locked f a p h = Some (Add_Return (-1) False, p, h')" "wf_heap h'"
      "\<And>q. load q h' = load q h"
  | (added) q p' h' where "add_job_locked f a p h = Some (Add_Return 0 (js = []), p', h')" "wf_heap h'"
      "int (length js) \<noteq> queue_max_num p" "\<not> pool_close p" "\<not> queue_close p"
      "load q h = None" "queue_rep p' h' (js @ [q])" "map_option payload (load q h') = Some (f, a)"
      "\<And>x. x \<noteq> q \<Longrightarrow> map_option payload (load x h') = map_option payload (load x h)"
      "thread_num p' = thread_num p" "queue_max_num p' = queue_max_num p" "queue_close p' = queue_close p"
      "pool_close p' = pool_close p"
proof -
  have n: "queue_cur_num p = int (length js)" and hd: "(qhead p = NULL) = (js = [])"
    using R chain_head_NULL [of h "qhead p" js] by (auto simp: queue_rep_def)
  consider (full) "queue_cur_num p = queue_max_num p \<and> \<not> (pool_close p \<or> queue_close p)"
    | (closed) "\<not> (queue_cur_num p = queue_max_num p \<and> \<not> (pool_close p \<or> queue_close p))" "queue_close p \<or> pool_close p"
    | (room) "queue_cur_num p \<noteq> queue_max_num p" "\<not> queue_close p" "\<not> pool_close p" by blast
  then show ?thesis
  proof cases
    case full
    then show ?thesis using n by (intro wait) (auto simp: add_job_locked_def)
  next
    case closed
    then have "add_job_locked f a p h = Some (Add_Return (-1) False, p, h)" by (auto simp: add_job_locked_def)
    then show ?thesis using wf by (rule refused) simp
  next
    case room
    show ?thesis
    proof (cases "alloc_fails h")
      case True
      then have "add_job_locked f a p h = Some (Add_Return (-1) False, p, h\<lparr>oom := tl (oom h)\<rparr>)"
        using room by (simp add: add_job_locked_def malloc_alloc_fails)
      then show ?thesis by (rule refused) (use wf in \<open>simp_all add: wf_heap_def\<close>)
    next
      case False
      let ?q = "brk h" and ?j = "\<lparr>p_callback_func = f, arg = a, jnext = NULL\<rparr>"
      define h1 where "h1 = snd (malloc ?j h)"
      have m: "malloc ?j h = (?q, h1)" using malloc_succeeds [OF False] by (simp add: h1_def)
      have wf1: "wf_heap h1" by (rule wf_heap_malloc [OF wf m])
      have qn: "?q \<noteq> NULL" "load ?q h = None" using wf_heap_brk_pos [OF wf] wf_heap_fresh [OF wf] by auto
      have l1: "load x h1 = (if x = ?q then Some ?j else load x h)" for x
        using qn malloc_succeeds [OF False] by (simp add: h1_def load_def)
      have qj: "?q \<notin> set js" using R chain_live [of h "qhead p" js ?q] qn(2) by (auto simp: queue_rep_def)
      show ?thesis
      proof (cases js rule: rev_cases)
        case Nil
        show ?thesis
        proof (rule added [of "p\<lparr>qhead := ?q, qtail := ?q, queue_cur_num := queue_cur_num p + 1\<rparr>" h1 ?q])
          show "add_job_locked f a p h = Some (Add_Return 0 (js = []),
              p\<lparr>qhead := ?q, qtail := ?q, queue_cur_num := queue_cur_num p + 1\<rparr>, h1)"
            using room m qn Nil hd by (simp add: add_job_locked_def)
        qed (use Nil room wf1 l1 n qn in \<open>simp_all add: queue_rep_def payload_def\<close>)
      next
        case (snoc us t)
        have t: "qtail p = t" "t \<in> set js" using R snoc by (auto simp: queue_rep_def)
        have ch: "chain h (qhead p) (us @ [t])" "distinct (us @ [t])" using R snoc by (auto simp: queue_rep_def)
        obtain j where j: "load t h = Some j" using chain_live [OF ch(1), of t] by auto
        have tq: "t \<noteq> ?q" using j qn by auto
        then have jt: "load t h1 = Some j" using l1 j by simp
        let ?h = "h1\<lparr>cells := (cells h1)(t := Some (j\<lparr>jnext := ?q\<rparr>))\<rparr>"
        have st: "store t (j\<lparr>jnext := ?q\<rparr>) h1 = Some ?h" by (rule store_Some [OF jt])
        have l2: "load x ?h = (if x = t then Some (j\<lparr>jnext := ?q\<rparr>) else load x h1)" for x
          using load_store [OF st] by simp
        have "chain ?h (qhead p) (us @ [t, ?q])"
          by (rule chain_snoc [OF ch j]) (use tq qj snoc l1 l2 ch(2) in auto)
        moreover have "wf_heap ?h" using wf1 l2 jt by (auto simp: wf_heap_def)
        ultimately show ?thesis
        proof (intro added [of "p\<lparr>qtail := ?q, queue_cur_num := queue_cur_num p + 1\<rparr>" ?h ?q])
          show "add_job_locked f a p h = Some (Add_Return 0 (js = []), p\<lparr>qtail := ?q, queue_cur_num := queue_cur_num p + 1\<rparr>, ?h)"
            using room m qn snoc hd t jt st by (simp add: add_job_locked_def)
        qed (use snoc room l1 l2 n qn qj j ch tq in \<open>auto simp: queue_rep_def payload_def\<close>)
      qed
    qed
  qed
qed

subsection \<open>Who owns which node\<close>

definition total :: "(worker \<Rightarrow> 'b multiset) \<Rightarrow> worker list \<Rightarrow> 'b multiset" where
  "total g ws = sum_list (map g ws)"

lemma total_simps [simp]: "total g [] = {#}" "total g (w # ws) = g w + total g ws"
  by (simp_all add: total_def)

lemma total_update: "i < length ws \<Longrightarrow> total g (ws[i := w]) + g (ws ! i) = total g ws + g w"
  by (induction ws arbitrary: i) (auto split: nat.split simp: ac_simps)

lemma total_map: "(\<And>w. g (f w) = g w) \<Longrightarrow> total g (map f ws) = total g ws"
  by (induction ws) auto

lemma total_replicate: "g w = {#} \<Longrightarrow> total g (replicate n w) = {#}"
  by (induction n) auto

lemma total_cong: "(\<And>w. w \<in> set ws \<Longrightarrow> g w = g' w) \<Longrightarrow> total g ws = total g' ws"
  by (induction ws) auto

lemma total_in: "i < length ws \<Longrightarrow> g (ws ! i) \<subseteq># total g ws"
  by (induction ws arbitrary: i) (auto simp: nth_Cons' intro: subset_mset.add_increasing)

definition held :: "worker \<Rightarrow> addr multiset" where
  "held w = (case w of W_Call q \<Rightarrow> {#q#} | W_Free q \<Rightarrow> {#q#} | _ \<Rightarrow> {#})"

definition calling :: "job_heap \<Rightarrow> worker \<Rightarrow> (nat \<times> addr) multiset" where
  "calling h w = (case w of W_Call q \<Rightarrow> mset (payloads h [q]) | _ \<Rightarrow> {#})"

lemma held_simps [simp]:
  "held W_Lock = {#}" "held W_Wait = {#}" "held W_Exit = {#}" "held (W_Call q) = {#q#}" "held (W_Free q) = {#q#}"
  "calling h W_Lock = {#}" "calling h W_Wait = {#}" "calling h W_Exit = {#}" "calling h (W_Free q) = {#}"
  "held (wake_worker w) = held w" "calling h (wake_worker w) = calling h w"
  by (simp_all add: held_def calling_def wake_worker_def)

text \<open>
  Every allocated node is in the queue or in the hands of one worker; what was accepted is what was
  taken and what is queued, in order; what was taken was called or is about to be.
\<close>

definition owns :: "addr list \<Rightarrow> sys \<Rightarrow> bool" where
  "owns js s \<longleftrightarrow> wf_heap (mem s) \<and> queue_rep (pool s) (mem s) js \<and>
     (\<forall>q. count (mset js + total held (workers s)) q = (if load q (mem s) = None then 0 else 1)) \<and>
     accepted s = taken s @ payloads (mem s) js \<and>
     mset (taken s) = mset (called s) + total (calling (mem s)) (workers s) \<and>
     length (workers s) = thread_num (pool s) \<and> int (length js) \<le> queue_max_num (pool s) \<and> 0 < queue_max_num (pool s)"

text \<open>Why nobody sleeps through what he waits for, and how far the destruction has come.\<close>

definition closing :: "destroyer \<Rightarrow> bool" where
  "closing d \<longleftrightarrow> (case d of D_Wake_Workers \<Rightarrow> True | D_Wake_Producers \<Rightarrow> True | D_Join k \<Rightarrow> True | D_Done \<Rightarrow> True | _ \<Rightarrow> False)"

definition waits :: "producer \<Rightarrow> bool" where
  "waits p \<longleftrightarrow> (case p of P_Wait f a \<Rightarrow> True | _ \<Rightarrow> False)"

definition sync :: "addr list \<Rightarrow> sys \<Rightarrow> bool" where
  "sync js s \<longleftrightarrow>
     (W_Wait \<in> set (workers s) \<longrightarrow> js = [] \<and> (pool_close (pool s) \<longrightarrow> destroyer s = D_Wake_Workers)) \<and>
     (2 \<le> queue_max_num (pool s) \<longrightarrow> (\<exists>p \<in> set (producers s). waits p) \<longrightarrow>
        int (length js) = queue_max_num (pool s) \<or> destroyer s \<in> {D_Wake_Workers, D_Wake_Producers}) \<and>
     (destroyer s = D_Wait \<longrightarrow> js \<noteq> []) \<and>
     pool_close (pool s) = closing (destroyer s) \<and>
     queue_close (pool s) = (destroyer s \<notin> {D_Idle, D_Lock}) \<and>
     (pool_close (pool s) \<longrightarrow> js = []) \<and>
     (\<forall>k. destroyer s = D_Join k \<longrightarrow> k \<le> thread_num (pool s) \<and> (\<forall>i < k. workers s ! i = W_Exit)) \<and>
     released s = (destroyer s = D_Done) \<and>
     (destroyer s = D_Done \<longrightarrow> set (workers s) \<subseteq> {W_Exit}) \<and>
     (W_Exit \<in> set (workers s) \<longrightarrow> pool_close (pool s))"

lemma syncD:
  assumes "sync js s"
  shows "W_Wait \<in> set (workers s) \<Longrightarrow> js = [] \<and> (pool_close (pool s) \<longrightarrow> destroyer s = D_Wake_Workers)"
    and "2 \<le> queue_max_num (pool s) \<Longrightarrow> p \<in> set (producers s) \<Longrightarrow> waits p \<Longrightarrow> int (length js) = queue_max_num (pool s) \<or> destroyer s \<in> {D_Wake_Workers, D_Wake_Producers}"
    and "destroyer s = D_Wait \<Longrightarrow> js \<noteq> []"
    and "pool_close (pool s) = closing (destroyer s)"
    and "queue_close (pool s) = (destroyer s \<notin> {D_Idle, D_Lock})"
    and "pool_close (pool s) \<Longrightarrow> js = []"
    and "destroyer s = D_Join k \<Longrightarrow> k \<le> thread_num (pool s) \<and> (\<forall>i < k. workers s ! i = W_Exit)"
    and "released s = (destroyer s = D_Done)"
    and "destroyer s = D_Done \<Longrightarrow> set (workers s) \<subseteq> {W_Exit}"
    and "W_Exit \<in> set (workers s) \<Longrightarrow> pool_close (pool s)"
  using assms by (auto simp: sync_def)

lemma syncI:
  assumes "W_Wait \<in> set (workers s) \<Longrightarrow> js = [] \<and> (pool_close (pool s) \<longrightarrow> destroyer s = D_Wake_Workers)"
    and "\<And>p. 2 \<le> queue_max_num (pool s) \<Longrightarrow> p \<in> set (producers s) \<Longrightarrow> waits p \<Longrightarrow> int (length js) = queue_max_num (pool s) \<or> destroyer s \<in> {D_Wake_Workers, D_Wake_Producers}"
    and "destroyer s = D_Wait \<Longrightarrow> js \<noteq> []"
    and "pool_close (pool s) = closing (destroyer s)"
    and "queue_close (pool s) = (destroyer s \<notin> {D_Idle, D_Lock})"
    and "pool_close (pool s) \<Longrightarrow> js = []"
    and "\<And>k. destroyer s = D_Join k \<Longrightarrow> k \<le> thread_num (pool s) \<and> (\<forall>i < k. workers s ! i = W_Exit)"
    and "released s = (destroyer s = D_Done)"
    and "destroyer s = D_Done \<Longrightarrow> set (workers s) \<subseteq> {W_Exit}"
    and "W_Exit \<in> set (workers s) \<Longrightarrow> pool_close (pool s)"
  shows "sync js s"
  unfolding sync_def using assms by blast

lemma closing_simps [simp]:
  "\<not> closing D_Idle" "\<not> closing D_Lock" "\<not> closing D_Wait" "\<not> closing D_Woken" "closing D_Wake_Workers"
  "closing D_Wake_Producers" "closing (D_Join k)" "closing D_Done"
  by (simp_all add: closing_def)

lemma owns_next:
  "owns js s \<Longrightarrow> mem s' = mem s \<Longrightarrow> pool s' = pool s \<Longrightarrow> accepted s' = accepted s \<Longrightarrow> taken s' = taken s \<Longrightarrow>
   called s' = called s \<Longrightarrow> length (workers s') = length (workers s) \<Longrightarrow>
   total held (workers s') = total held (workers s) \<Longrightarrow>
   total (calling (mem s)) (workers s') = total (calling (mem s)) (workers s) \<Longrightarrow> owns js s'"
  by (simp add: owns_def)

lemma total_idle:
  assumes "i < length ws" and "g (ws ! i) = {#}" and "g w = {#}"
  shows "total g (ws[i := w]) = total g ws"
  using total_update [OF assms(1), of g w] assms(2,3) by simp

lemma in_update: "x \<in> set (xs[i := y]) \<Longrightarrow> x = y \<or> x \<in> set xs"
  using set_update_subset_insert [of xs i y] by auto

lemma wake_workers_simps [simp]:
  "W_Wait \<notin> wake_worker ` A" "(W_Exit \<in> wake_worker ` A) = (W_Exit \<in> A)"
  "wake_worker W_Exit = W_Exit"
  by (auto simp: wake_worker_def image_iff split: if_splits)

lemma wake_worker_Exit [simp]: "(wake_worker w = W_Exit) = (w = W_Exit)"
  by (simp add: wake_worker_def)

lemma wake_producer_waits [simp]: "\<not> waits (wake_producer p)"
  by (cases p) (simp_all add: wake_producer_def waits_def)

lemma wake_destroyer_simps [simp]:
  "wake_destroyer d \<noteq> D_Wait" "closing (wake_destroyer d) = closing d"
  "(wake_destroyer d = D_Done) = (d = D_Done)" "(wake_destroyer d = D_Idle) = (d = D_Idle)"
  "(wake_destroyer d = D_Lock) = (d = D_Lock)" "(wake_destroyer d = D_Join k) = (d = D_Join k)"
  "(wake_destroyer d = D_Wake_Workers) = (d = D_Wake_Workers)" "(wake_destroyer d = D_Wake_Producers) = (d = D_Wake_Producers)"
  by (auto simp: wake_destroyer_def)

subsection \<open>Every step keeps the invariant\<close>

definition pool_inv :: "sys \<Rightarrow> bool" where
  "pool_inv s \<longleftrightarrow> (\<exists>js. owns js s \<and> sync js s)"

text \<open>A step is blocked or leads to another good state; it is not undefined.\<close>

definition fine :: "outcome \<Rightarrow> bool" where
  "fine r \<longleftrightarrow> r = Blocked \<or> (\<exists>s. r = Next s \<and> pool_inv s)"

lemma fine_Next: "owns js s \<Longrightarrow> sync js s \<Longrightarrow> fine (Next s)"
  by (auto simp: fine_def pool_inv_def)

lemma member_update:
  assumes "i < length ws" and "ws ! i \<noteq> x"
  shows "(x \<in> set (ws[i := w])) = (w = x \<or> x \<in> set ws)"
proof
  assume "w = x \<or> x \<in> set ws"
  then show "x \<in> set (ws[i := w])"
  proof
    assume "x \<in> set ws"
    then obtain k where "k < length ws" "ws ! k = x" by (auto simp: in_set_conv_nth)
    with assms have "k < length (ws[i := w])" "ws[i := w] ! k = x" by (auto simp: nth_list_update)
    then show ?thesis by (metis nth_mem)
  qed (use assms(1) in \<open>simp add: set_update_memI\<close>)
qed (use in_update in fastforce)

lemma prefix_update: "ws ! i \<noteq> x \<Longrightarrow> \<forall>k < n. ws ! k = x \<Longrightarrow> \<forall>k < n. ws[i := w] ! k = x"
  by (metis nth_list_update_neq)

lemma sync_update:
  assumes Y: "sync js s" and i: "i < length (workers s)" and w: "workers s ! i \<noteq> W_Wait" "workers s ! i \<noteq> W_Exit"
    and w': "w = W_Wait \<Longrightarrow> js = [] \<and> \<not> pool_close (pool s)" "w = W_Exit \<Longrightarrow> pool_close (pool s)"
    and eq: "pool s' = pool s" "released s' = released s" "producers s' = producers s"
    "destroyer s' = destroyer s" "workers s' = (workers s)[i := w]"
  shows "sync js s'"
proof (rule syncI, unfold eq member_update [OF i w(1)] member_update [OF i w(2)])
  have "workers s ! i \<in> set (workers s)" using i by simp
  then have nd: "destroyer s \<noteq> D_Done" using syncD(9) [OF Y] w(2) by blast
  show "set ((workers s)[i := w]) \<subseteq> {W_Exit}" if "destroyer s = D_Done" using nd that by simp
  show "k \<le> thread_num (pool s) \<and> (\<forall>j < k. (workers s)[i := w] ! j = W_Exit)" if "destroyer s = D_Join k" for k
    using syncD(7) [OF Y that] prefix_update [OF w(2)] by blast
qed (use syncD [OF Y] w' in blast)+

lemma sync_take:
  assumes Y: "sync (q # qs) s" and i: "i < length (workers s)" and w: "workers s ! i \<noteq> W_Wait" "workers s ! i \<noteq> W_Exit"
    and le: "int (length (q # qs)) \<le> queue_max_num (pool s)" and w': "w \<noteq> W_Wait" "w \<noteq> W_Exit"
    and eq: "released s' = released s" "thread_num (pool s') = thread_num (pool s)"
    "queue_max_num (pool s') = queue_max_num (pool s)" "queue_close (pool s') = queue_close (pool s)"
    "pool_close (pool s') = pool_close (pool s)" "workers s' = (workers s)[i := w]"
    "destroyer s' = (if qs = [] then wake_destroyer (destroyer s) else destroyer s)"
    "producers s' = (if qs \<noteq> [] \<and> int (length qs) \<le> queue_max_num (pool s) - 1
      then map wake_producer (producers s) else producers s)"
  shows "sync qs s'"
proof -
  have nc: "\<not> pool_close (pool s)" using syncD(6) [OF Y] by blast
  then have n: "\<not> closing (destroyer s)" "W_Wait \<notin> set (workers s)" "W_Exit \<notin> set (workers s)"
    using syncD(1,4,10) [OF Y] by blast+
  then have d: "destroyer s \<notin> {D_Wake_Workers, D_Wake_Producers, D_Done}" "\<And>k. destroyer s \<noteq> D_Join k" by auto
  have m: "W_Wait \<notin> set (workers s')" "W_Exit \<notin> set (workers s')"
    unfolding eq member_update [OF i w(1)] member_update [OF i w(2)] using n w' by simp_all
  have c: "closing (destroyer s') = closing (destroyer s)" unfolding eq by simp
  have dd: "destroyer s' \<notin> {D_Done}" "\<And>k. destroyer s' \<noteq> D_Join k" unfolding eq using d by simp_all
  show ?thesis
  proof (rule syncI)
    fix p assume p: "2 \<le> queue_max_num (pool s')" "p \<in> set (producers s')" "waits p"
    have "qs = []" using p(2,3) le unfolding eq by (auto split: if_splits)
    then have "p \<in> set (producers s)" using p(2) unfolding eq by simp
    with syncD(2) [OF Y _ this p(3)] p(1) d(1) \<open>qs = []\<close> show "int (length qs) = queue_max_num (pool s') \<or>
        destroyer s' \<in> {D_Wake_Workers, D_Wake_Producers}" unfolding eq by simp
  next
    show "queue_close (pool s') = (destroyer s' \<notin> {D_Idle, D_Lock})" unfolding eq using syncD(5) [OF Y] by simp
    show "released s' = (destroyer s' = D_Done)" unfolding eq using syncD(8) [OF Y] by simp
    show "qs \<noteq> []" if "destroyer s' = D_Wait" using that unfolding eq by (auto split: if_splits)
    show "pool_close (pool s') = closing (destroyer s')" using c eq(5) syncD(4) [OF Y] by simp
  qed (use m nc dd eq in auto)
qed

lemma worker_lock_fine:
  assumes O: "owns js s" and Y: "sync js s" and i: "i < length (workers s)" and w: "workers s ! i = W_Lock"
  shows "fine (worker_step i s)"
proof -
  have wi: "W_Lock \<in> set (workers s)" using i w by (metis nth_mem)
  then have nr: "\<not> released s" using Y by (auto simp: sync_def)
  have R: "queue_rep (pool s) (mem s) js" using O by (simp add: owns_def)
  note T = take_job_ok [OF R]
  consider (wait) "js = []" "\<not> pool_close (pool s)" | (close) "pool_close (pool s)"
    | (take) q qs where "js = q # qs" "\<not> pool_close (pool s)" by (cases js) auto
  then show ?thesis
  proof cases
    case wait
    let ?s = "s\<lparr>workers := (workers s)[i := W_Wait]\<rparr>"
    have "worker_step i s = Next ?s" using T(1) wait w nr by (simp add: worker_step_def outcome_of_def)
    moreover have "owns js ?s" by (rule owns_next [OF O]) (use i w in \<open>simp_all add: total_idle\<close>)
    moreover have "sync js ?s" by (rule sync_update [OF Y i, of W_Wait]) (use w wait in simp_all)
    ultimately show ?thesis by (metis fine_Next)
  next
    case close
    let ?s = "s\<lparr>workers := (workers s)[i := W_Exit]\<rparr>"
    have "worker_step i s = Next ?s" using T(2) close w nr by (simp add: worker_step_def outcome_of_def)
    moreover have "owns js ?s" by (rule owns_next [OF O]) (use i w in \<open>simp_all add: total_idle\<close>)
    moreover have "sync js ?s" by (rule sync_update [OF Y i, of W_Exit]) (use w close in simp_all)
    ultimately show ?thesis by (metis fine_Next)
  next
    case take
    from T(3) [OF take] obtain p' where
      p': "take_job_locked (pool s) (mem s) =
        Some (Take_Job q (qs = []) (qs \<noteq> [] \<and> int (length qs) \<le> queue_max_num (pool s) - 1), p')"
      "queue_rep p' (mem s) qs" "thread_num p' = thread_num (pool s)" "queue_max_num p' = queue_max_num (pool s)"
      "queue_close p' = queue_close (pool s)" "pool_close p' = pool_close (pool s)" by blast
    let ?s = "s\<lparr>pool := p', workers := (workers s)[i := W_Call q],
      destroyer := (if qs = [] then wake_destroyer (destroyer s) else destroyer s),
      producers := (if qs \<noteq> [] \<and> int (length qs) \<le> queue_max_num (pool s) - 1
        then map wake_producer (producers s) else producers s),
      taken := taken s @ payloads (mem s) [q]\<rparr>"
    have st: "worker_step i s = Next ?s" using p'(1) w nr by (simp add: worker_step_def outcome_of_def)
    have h: "total held ((workers s)[i := W_Call q]) = total held (workers s) + {#q#}"
      using total_update [OF i, of held "W_Call q"] w by simp
    have c: "total (calling (mem s)) ((workers s)[i := W_Call q]) =
        total (calling (mem s)) (workers s) + mset (payloads (mem s) [q])"
      using total_update [OF i, of "calling (mem s)" "W_Call q"] w by (simp add: calling_def)
    have "owns qs ?s" using O take(1) p'(2-4) unfolding owns_def
      by (simp add: h c ac_simps) (auto split: option.splits)
    moreover have "sync qs ?s"
      by (rule sync_take [OF Y [unfolded take(1)] i, of "W_Call q"]) (use w O take p' in \<open>simp_all add: owns_def\<close>)
    ultimately show ?thesis unfolding st by (rule fine_Next)
  qed
qed

lemma owned_node:
  assumes O: "owns js s" and i: "i < length (workers s)" and q: "held (workers s ! i) = {#q#}"
  shows "\<exists>j. load q (mem s) = Some j" and "q \<notin> set js" and "count (total held (workers s)) q = 1"
proof -
  define n where "n = count (total held (workers s)) q"
  have "q \<in># total held (workers s)" using total_in [OF i, of held] q by simp
  then have c: "0 < n" by (simp add: n_def)
  have s: "count (mset js) q + n = (if load q (mem s) = None then 0 else 1)"
    using O by (simp add: owns_def n_def)
  then have l: "load q (mem s) \<noteq> None" using c by (auto split: if_splits)
  with s have "count (mset js) q + n = 1" by simp
  with c have "count (mset js) q = 0" "n = 1" by linarith+
  with l show "\<exists>j. load q (mem s) = Some j" "q \<notin> set js" "count (total held (workers s)) q = 1"
    by (auto simp: n_def)
qed

lemma worker_call_fine:
  assumes O: "owns js s" and Y: "sync js s" and i: "i < length (workers s)" and w: "workers s ! i = W_Call q"
  shows "fine (worker_step i s)"
proof -
  from owned_node(1) [OF O i, of q] w obtain j where j: "load q (mem s) = Some j" by auto
  let ?s = "s\<lparr>workers := (workers s)[i := W_Free q], called := called s @ [payload j]\<rparr>"
  have st: "worker_step i s = Next ?s" using w j by (simp add: worker_step_def outcome_of_def)
  have h: "total held ((workers s)[i := W_Free q]) = total held (workers s)"
    using total_update [OF i, of held "W_Free q"] w by simp
  have c: "total (calling (mem s)) (workers s) =
      total (calling (mem s)) ((workers s)[i := W_Free q]) + {#payload j#}"
    using total_update [OF i, of "calling (mem s)" "W_Free q"] w j by (simp add: calling_def)
  have "owns js ?s" using O unfolding owns_def by (simp add: h c ac_simps)
  moreover have "sync js ?s" by (rule sync_update [OF Y i, of "W_Free q"]) (simp_all add: w)
  ultimately show ?thesis unfolding st by (rule fine_Next)
qed

lemma worker_free_fine:
  assumes O: "owns js s" and Y: "sync js s" and i: "i < length (workers s)" and w: "workers s ! i = W_Free q"
  shows "fine (worker_step i s)"
proof -
  note N = owned_node [OF O i, of q]
  have q: "held (workers s ! i) = {#q#}" using w by simp
  from N(1) [OF q] obtain j where j: "load q (mem s) = Some j" by auto
  let ?h = "(mem s)\<lparr>cells := (cells (mem s))(q := None)\<rparr>"
  let ?s = "s\<lparr>mem := ?h, workers := (workers s)[i := W_Lock]\<rparr>"
  have st: "worker_step i s = Next ?s" using w free_Some [OF j] by (simp add: worker_step_def outcome_of_def)
  have l: "load x ?h = (if x = q then None else load x (mem s))" for x using load_Some_not_NULL [OF j] by (simp add: load_def)
  have h: "total held (workers s) = total held ((workers s)[i := W_Lock]) + {#q#}"
    using total_update [OF i, of held W_Lock] w by simp
  then have nh: "count (total held ((workers s)[i := W_Lock])) q = 0" using N(3) [OF q] by simp
  have c: "total (calling (mem s)) ((workers s)[i := W_Lock]) = total (calling (mem s)) (workers s)"
    using w i by (simp add: total_idle)
  have c': "total (calling ?h) ((workers s)[i := W_Lock]) = total (calling (mem s)) ((workers s)[i := W_Lock])"
  proof (rule total_cong)
    fix w' assume "w' \<in> set ((workers s)[i := W_Lock])"
    then obtain k where k: "k < length ((workers s)[i := W_Lock])" "w' = (workers s)[i := W_Lock] ! k" by (metis in_set_conv_nth)
    have "held w' \<subseteq># total held ((workers s)[i := W_Lock])" unfolding k(2) by (rule total_in [OF k(1)])
    then have "q \<notin># held w'" using nh by (metis mset_subset_eqD not_in_iff)
    then show "calling ?h w' = calling (mem s) w'" using l by (cases w') (auto simp: calling_def split: option.splits)
  qed
  have R: "queue_rep (pool s) ?h js"
  proof -
    have "chain ?h (qhead (pool s)) js = chain (mem s) (qhead (pool s)) js"
      by (rule chain_cong) (use l N(2) [OF q] in auto)
    with O show ?thesis by (simp add: queue_rep_def owns_def)
  qed
  have P: "payloads ?h js = payloads (mem s) js" by (rule payloads_cong) (use l N(2) [OF q] in auto)
  have wf: "wf_heap ?h" using O l by (auto simp: owns_def wf_heap_def)
  have cnt: "count (mset js + total held ((workers s)[i := W_Lock])) x = (if load x ?h = None then 0 else 1)" for x
  proof (cases "x = q")
    case True
    then show ?thesis using l nh N(2) [OF q] by simp
  next
    case False
    moreover have "count (mset js + total held (workers s)) x = (if load x (mem s) = None then 0 else 1)"
      using O unfolding owns_def by blast
    ultimately show ?thesis unfolding h l by simp
  qed
  have "owns js ?s" using O R P wf cnt unfolding owns_def by (simp add: c c')
  moreover have "sync js ?s" by (rule sync_update [OF Y i, of W_Lock]) (simp_all add: w)
  ultimately show ?thesis unfolding st by (rule fine_Next)
qed

lemma worker_fine:
  assumes "owns js s" and "sync js s" and "i < length (workers s)"
  shows "fine (worker_step i s)"
proof (cases "workers s ! i")
  case W_Lock
  with assms show ?thesis by (rule worker_lock_fine)
next
  case (W_Call q)
  with assms show ?thesis by (rule worker_call_fine)
next
  case (W_Free q)
  with assms show ?thesis by (rule worker_free_fine)
qed (simp_all add: worker_step_def fine_def)

text \<open>The other threads.\<close>

lemma owns_same:
  "owns js s \<Longrightarrow> mem s' = mem s \<Longrightarrow> pool s' = pool s \<Longrightarrow> accepted s' = accepted s \<Longrightarrow> taken s' = taken s \<Longrightarrow>
   called s' = called s \<Longrightarrow> workers s' = workers s \<Longrightarrow> owns js s'"
  by (simp add: owns_def)

lemma producer_fine:
  assumes O: "owns js s" and Y: "sync js s" and i: "i < length (producers s)" and nr: "\<not> released s"
  shows "fine (producer_step i s)"
proof (cases "producers s ! i")
  case (P_Lock f a)
  have R: "queue_rep (pool s) (mem s) js" and wf: "wf_heap (mem s)" using O by (simp_all add: owns_def)
  show ?thesis
  proof (cases rule: add_job_ok [OF R wf, of f a, case_names wait refused added])
    case wait
    let ?s = "s\<lparr>producers := (producers s)[i := P_Wait f a]\<rparr>"
    have st: "producer_step i s = Next ?s" using P_Lock wait(4) nr by (simp add: producer_step_def outcome_of_def)
    have "owns js ?s" by (rule owns_same [OF O]) simp_all
    moreover have "sync js ?s"
      by (rule syncI) (use syncD [OF Y] wait(1) in \<open>simp_all\<close>)
    ultimately show ?thesis unfolding st by (rule fine_Next)
  next
    case (refused h')
    let ?s = "s\<lparr>mem := h', producers := (producers s)[i := P_Done (-1)]\<rparr>"
    have st: "producer_step i s = Next ?s" using P_Lock refused(1) nr by (simp add: producer_step_def outcome_of_def)
    have "chain h' (qhead (pool s)) js = chain (mem s) (qhead (pool s)) js" by (rule chain_cong) (rule refused(3))
    then have "queue_rep (pool s) h' js" using R by (simp add: queue_rep_def)
    moreover have "payloads h' xs = payloads (mem s) xs" for xs by (rule payloads_cong) (simp add: refused(3))
    moreover from this have "calling h' w = calling (mem s) w" for w
      by (cases w) (simp_all add: calling_def del: payloads_simps)
    then have "total (calling h') ws = total (calling (mem s)) ws" for ws by (intro total_cong) simp
    ultimately have "owns js ?s" using O refused(2,3) by (simp add: owns_def)
    moreover have "sync js ?s"
    proof (rule syncI)
      fix p assume p: "2 \<le> queue_max_num (pool ?s)" "p \<in> set (producers ?s)" "waits p"
      then have "p \<in> set (producers s)" using in_update [of p "producers s" i "P_Done (-1)"] by (auto simp: waits_def)
      with syncD(2) [OF Y _ this p(3)] p(1) show "int (length js) = queue_max_num (pool ?s) \<or>
        destroyer ?s \<in> {D_Wake_Workers, D_Wake_Producers}" by simp
    qed (use syncD [OF Y] in simp_all)
    ultimately show ?thesis unfolding st by (rule fine_Next)
  next
    case (added q p' h')
    let ?s = "s\<lparr>pool := p', mem := h', producers := (producers s)[i := P_Done 0],
      workers := (if js = [] then map wake_worker (workers s) else workers s), accepted := accepted s @ [(f, a)]\<rparr>"
    have st: "producer_step i s = Next ?s" using P_Lock added(1) nr by (simp add: producer_step_def outcome_of_def)
    have cq: "count (mset js + total held (workers s)) q = 0" using O added(6) by (simp add: owns_def)
    have h: "total held (workers ?s) = total held (workers s)" by (simp add: total_map)
    have lN: "load x h' = None \<longleftrightarrow> load x (mem s) = None" if "x \<noteq> q" for x
      using added(9) [OF that] by (cases "load x h'"; cases "load x (mem s)") auto
    obtain k where k: "load q h' = Some k" "payload k = (f, a)" using added(8) by auto
    have cnt: "count (mset (js @ [q]) + total held (workers ?s)) x = (if load x h' = None then 0 else 1)" for x
    proof (cases "x = q")
      case True
      then show ?thesis using cq k h by simp
    next
      case False
      then show ?thesis using O lN [OF False] h by (simp add: owns_def)
    qed
    have pq: "payloads h' xs = payloads (mem s) xs" if "q \<notin> set xs" for xs
      by (rule payloads_cong, rule added(9)) (use that in auto)
    have qj: "q \<notin> set js" using cq by simp
    have "calling h' w = calling (mem s) w" if "w \<in> set (workers s)" for w
    proof -
      have "held w \<subseteq># total held (workers s)" using that total_in by (metis in_set_conv_nth)
      then have "q \<notin># held w" using cq by (metis add_eq_0_iff_both_eq_0 mset_subset_eqD not_in_iff plus_multiset.rep_eq)
      then show ?thesis using pq [of "[x]" for x] by (cases w) (auto simp: calling_def simp del: payloads_simps)
    qed
    then have c: "total (calling h') (workers ?s) = total (calling (mem s)) (workers s)"
      using total_cong [of "workers s" "calling h'" "calling (mem s)"] by (simp add: total_map)
    have "owns (js @ [q]) ?s"
      using O added(2,3,7,10,11) cnt c pq [OF qj] k unfolding owns_def by (simp add: total_map)
    moreover have "sync (js @ [q]) ?s"
    proof (rule syncI)
      fix p assume p: "2 \<le> queue_max_num (pool ?s)" "p \<in> set (producers ?s)" "waits p"
      then have "p \<in> set (producers s)" using in_update [of p "producers s" i "P_Done 0"] by (auto simp: waits_def)
      with syncD(2) [OF Y _ this p(3)] p(1) added(3,11) have "destroyer s \<in> {D_Wake_Workers, D_Wake_Producers}" by simp
      with syncD(4) [OF Y] added(4) show "int (length (js @ [q])) = queue_max_num (pool ?s) \<or>
        destroyer ?s \<in> {D_Wake_Workers, D_Wake_Producers}" by auto
    next
      show "js @ [q] = [] \<and> (pool_close (pool ?s) \<longrightarrow> destroyer ?s = D_Wake_Workers)" if "W_Wait \<in> set (workers ?s)"
        using that syncD(1) [OF Y] wake_workers_simps(1) by (auto split: if_splits)
      show "W_Exit \<in> set (workers ?s) \<Longrightarrow> pool_close (pool ?s)" using syncD(10) [OF Y] added(13) by (simp split: if_splits)
      show "destroyer ?s = D_Done \<Longrightarrow> set (workers ?s) \<subseteq> {W_Exit}" using syncD(8) [OF Y] nr by simp
      show "k \<le> thread_num (pool ?s) \<and> (\<forall>i<k. workers ?s ! i = W_Exit)" if "destroyer ?s = D_Join k" for k
        using that syncD(4) [OF Y] added(4) by simp
    qed (use syncD [OF Y] added(4,5,10-13) in simp_all)
    ultimately show ?thesis unfolding st by (rule fine_Next)
  qed
qed (simp_all add: producer_step_def fine_def)

lemma owns_pool:
  "owns js s \<Longrightarrow> mem s' = mem s \<Longrightarrow> qhead (pool s') = qhead (pool s) \<Longrightarrow> qtail (pool s') = qtail (pool s) \<Longrightarrow>
   queue_cur_num (pool s') = queue_cur_num (pool s) \<Longrightarrow> queue_max_num (pool s') = queue_max_num (pool s) \<Longrightarrow>
   thread_num (pool s') = thread_num (pool s) \<Longrightarrow> accepted s' = accepted s \<Longrightarrow> taken s' = taken s \<Longrightarrow>
   called s' = called s \<Longrightarrow> length (workers s') = length (workers s) \<Longrightarrow>
   total held (workers s') = total held (workers s) \<Longrightarrow>
   total (calling (mem s)) (workers s') = total (calling (mem s)) (workers s) \<Longrightarrow> owns js s'"
  by (simp add: owns_def queue_rep_def)

text \<open>The check for the empty queue: either the pool is closed or the caller goes to sleep.\<close>

lemma sync_drained:
  assumes O: "owns js s" and Y: "sync js s" and d: "destroyer s = D_Lock \<or> destroyer s = D_Woken"
    and p: "drained_locked ((pool s)\<lparr>queue_close := True\<rparr>) = (e, p')"
  shows "fine (Next (s\<lparr>pool := p', destroyer := (if e then D_Wake_Workers else D_Wait)\<rparr>))"
proof -
  let ?s = "s\<lparr>pool := p', destroyer := (if e then D_Wake_Workers else D_Wait)\<rparr>"
  have n: "queue_cur_num (pool s) = int (length js)" using O by (simp add: owns_def queue_rep_def)
  have c: "\<not> pool_close (pool s)" "W_Exit \<notin> set (workers s)" using syncD(4,10) [OF Y] d by auto
  have e: "e = (js = [])" "p' = (pool s)\<lparr>queue_close := True, pool_close := e\<rparr>"
    using p n c(1) by (auto simp: drained_locked_def split: if_splits)
  have "owns js ?s" by (rule owns_pool [OF O]) (simp_all add: e)
  moreover have "sync js ?s"
  proof (rule syncI)
    show "released ?s = (destroyer ?s = D_Done)" using syncD(8) [OF Y] d by auto
    show "p \<in> set (producers ?s) \<Longrightarrow> waits p \<Longrightarrow> 2 \<le> queue_max_num (pool ?s) \<Longrightarrow>
      int (length js) = queue_max_num (pool ?s) \<or> destroyer ?s \<in> {D_Wake_Workers, D_Wake_Producers}" for p
      using syncD(2) [OF Y, of p] d by (auto simp: e)
  qed (use syncD(1) [OF Y] c e in \<open>auto split: if_splits\<close>)
  ultimately show ?thesis by (rule fine_Next)
qed

lemma destroyer_fine:
  assumes O: "owns js s" and Y: "sync js s" and nr: "\<not> released s"
  shows "fine (destroyer_step s)"
proof (cases "destroyer s")
  case D_Lock
  then have "\<not> pool_close (pool s)" using syncD(4) [OF Y] by simp
  with D_Lock nr sync_drained [OF O Y] show ?thesis
    by (auto simp: destroyer_step_def split: prod.split)
next
  case D_Woken
  then have "(pool s)\<lparr>queue_close := True\<rparr> = pool s" using syncD(5) [OF Y] by simp
  with D_Woken sync_drained [OF O Y] show ?thesis
    by (auto simp: destroyer_step_def split: prod.split)
next
  case D_Wake_Workers
  let ?s = "s\<lparr>workers := map wake_worker (workers s), destroyer := D_Wake_Producers\<rparr>"
  have "owns js ?s" by (rule owns_next [OF O]) (simp_all add: total_map)
  moreover have "sync js ?s"
  proof (rule syncI)
    show "released ?s = (destroyer ?s = D_Done)" using nr by simp
    show "W_Wait \<in> set (workers ?s) \<Longrightarrow> js = [] \<and> (pool_close (pool ?s) \<longrightarrow> destroyer ?s = D_Wake_Workers)"
      using wake_workers_simps(1) by simp
    show "W_Exit \<in> set (workers ?s) \<Longrightarrow> pool_close (pool ?s)" using syncD(4) [OF Y] D_Wake_Workers by simp
  qed (use syncD [OF Y] D_Wake_Workers in simp_all)
  ultimately show ?thesis using D_Wake_Workers by (auto simp: destroyer_step_def intro: fine_Next)
next
  case D_Wake_Producers
  let ?s = "s\<lparr>producers := map wake_producer (producers s), destroyer := D_Join 0\<rparr>"
  have "owns js ?s" by (rule owns_same [OF O]) simp_all
  moreover have "sync js ?s"
    by (rule syncI) (use syncD [OF Y] D_Wake_Producers nr in \<open>auto\<close>)
  ultimately show ?thesis using D_Wake_Producers by (auto simp: destroyer_step_def intro: fine_Next)
next
  case (D_Join k)
  note J = syncD(7) [OF Y D_Join]
  have len: "length (workers s) = thread_num (pool s)" using O by (simp add: owns_def)
  have nw: "W_Wait \<notin> set (workers s)" using syncD(1,4) [OF Y] D_Join by auto
  show ?thesis
  proof (cases "k < thread_num (pool s)")
    case True
    let ?s = "s\<lparr>destroyer := D_Join (k + 1)\<rparr>"
    have "fine (Next ?s)" if e: "workers s ! k = W_Exit"
    proof (rule fine_Next)
      show "owns js ?s" by (rule owns_same [OF O]) simp_all
      show "sync js ?s"
        by (rule syncI) (use syncD [OF Y] D_Join nr J True e nw in \<open>auto simp: less_Suc_eq\<close>)
    qed
    with D_Join True show ?thesis by (simp add: destroyer_step_def) (simp add: fine_def)
  next
    case False
    have all: "set (workers s) \<subseteq> {W_Exit}" using J False len by (auto simp: in_set_conv_nth)
    have "js = []" using syncD(4,6) [OF Y] D_Join by simp
    then have "qhead (pool s) = NULL" using O by (auto simp: owns_def queue_rep_def)
    then have st: "destroyer_step s = Next (s\<lparr>released := True, destroyer := D_Done\<rparr>)" (is "_ = Next ?s")
      using D_Join False by (simp add: destroyer_step_def free_jobs.simps outcome_of_def)
    have "owns js ?s" by (rule owns_same [OF O]) simp_all
    moreover have "sync js ?s" by (rule syncI) (use syncD [OF Y] D_Join all nw in auto)
    ultimately show ?thesis unfolding st by (rule fine_Next)
  qed
qed (simp_all add: destroyer_step_def fine_def)

subsection \<open>Reachable states\<close>

lemma sync_producers:
  assumes Y: "sync js s" and "\<And>p. p \<in> set ps \<Longrightarrow> waits p \<Longrightarrow> p \<in> set (producers s)"
  shows "sync js (s\<lparr>producers := ps\<rparr>)"
proof (rule syncI)
  fix p assume p: "2 \<le> queue_max_num (pool (s\<lparr>producers := ps\<rparr>))" "p \<in> set (producers (s\<lparr>producers := ps\<rparr>))" "waits p"
  then have "2 \<le> queue_max_num (pool s)" "p \<in> set (producers s)" using assms(2) by simp_all
  from syncD(2) [OF Y this p(3)] show "int (length js) = queue_max_num (pool (s\<lparr>producers := ps\<rparr>)) \<or>
    destroyer (s\<lparr>producers := ps\<rparr>) \<in> {D_Wake_Workers, D_Wake_Producers}" by simp
qed (use syncD [OF Y] in simp_all)

lemma spurious_worker_fine:
  assumes O: "owns js s" and Y: "sync js s" and i: "i < length (workers s)" and w: "workers s ! i = W_Wait"
  shows "fine (Next (s\<lparr>workers := (workers s)[i := W_Lock]\<rparr>))"
proof (rule fine_Next)
  let ?s = "s\<lparr>workers := (workers s)[i := W_Lock]\<rparr>"
  have wi: "W_Wait \<in> set (workers s)" using i w nth_mem [OF i] by simp
  have s: "W_Wait \<in> set (workers ?s) \<Longrightarrow> W_Wait \<in> set (workers s)" "W_Exit \<in> set (workers ?s) \<Longrightarrow> W_Exit \<in> set (workers s)"
    using in_update [of _ "workers s" i W_Lock] by auto
  show "owns js ?s" by (rule owns_next [OF O]) (use i w in \<open>simp_all add: total_idle\<close>)
  show "sync js ?s"
  proof (rule syncI)
    show "destroyer ?s = D_Done \<Longrightarrow> set (workers ?s) \<subseteq> {W_Exit}" using syncD(9) [OF Y] wi by auto
    show "k \<le> thread_num (pool ?s) \<and> (\<forall>j<k. workers ?s ! j = W_Exit)" if "destroyer ?s = D_Join k" for k
      using syncD(7) [OF Y, of k] that prefix_update [of "workers s" i W_Exit k W_Lock] w by simp
    show "W_Wait \<in> set (workers ?s) \<Longrightarrow> js = [] \<and> (pool_close (pool ?s) \<longrightarrow> destroyer ?s = D_Wake_Workers)"
      using syncD(1) [OF Y] s(1) by simp
    show "W_Exit \<in> set (workers ?s) \<Longrightarrow> pool_close (pool ?s)" using syncD(10) [OF Y] s(2) by simp
  qed (use syncD(2-6,8) [OF Y] in simp_all)
qed

lemma step_fine:
  assumes O: "owns js s" and Y: "sync js s"
  shows "fine (step e s) \<or> released s \<and> step e s = Undefined"
proof (cases e)
  case (Submit f a)
  let ?s = "s\<lparr>producers := producers s @ [if f = NULL then P_Done (-1) else P_Lock f a]\<rparr>"
  have "owns js ?s" by (rule owns_same [OF O]) simp_all
  moreover have "sync js ?s" by (rule sync_producers [OF Y]) (auto simp: waits_def split: if_splits)
  ultimately show ?thesis using Submit by (auto intro: fine_Next)
next
  case Destroy
  let ?s = "s\<lparr>destroyer := D_Lock\<rparr>"
  have "fine (Next ?s)" if d: "destroyer s = D_Idle"
  proof (rule fine_Next)
    show "owns js ?s" by (rule owns_same [OF O]) simp_all
    show "sync js ?s" by (rule syncI) (use syncD [OF Y] d in auto)
  qed
  then show ?thesis using Destroy by (simp add: fine_def)
next
  case (Worker i)
  show ?thesis
  proof (cases "i < length (workers s)")
    case True
    with Worker worker_fine [OF O Y] show ?thesis by simp
  qed (simp add: Worker fine_def)
next
  case (Producer i)
  then show ?thesis using producer_fine [OF O Y, of i]
    by (cases "released s") (auto simp: fine_def producer_step_def split: producer.splits)
next
  case Destroyer
  then show ?thesis using destroyer_fine [OF O Y] syncD(8) [OF Y]
    by (cases "released s") (auto simp: fine_def destroyer_step_def)
next
  case (Spurious_Worker i)
  then show ?thesis using spurious_worker_fine [OF O Y, of i] by (simp add: fine_def)
next
  case (Spurious_Producer i)
  have "fine (Next (s\<lparr>producers := (producers s)[i := P_Lock f a]\<rparr>))" for f a
  proof (rule fine_Next)
    show "owns js (s\<lparr>producers := (producers s)[i := P_Lock f a]\<rparr>)" by (rule owns_same [OF O]) simp_all
    show "sync js (s\<lparr>producers := (producers s)[i := P_Lock f a]\<rparr>)"
      by (rule sync_producers [OF Y]) (auto simp: waits_def dest!: in_update)
  qed
  then show ?thesis using Spurious_Producer by (auto simp: fine_def split: producer.splits)
next
  case Spurious_Destroyer
  let ?s = "s\<lparr>destroyer := D_Woken\<rparr>"
  have "fine (Next ?s)" if d: "destroyer s = D_Wait"
  proof (rule fine_Next)
    show "owns js ?s" by (rule owns_same [OF O]) simp_all
    show "sync js ?s" by (rule syncI) (use syncD [OF Y] d in auto)
  qed
  then show ?thesis using Spurious_Destroyer by (simp add: fine_def)
qed

text \<open>The states a pool with room for at least one job gets into, with any scheduler.\<close>

inductive reachable :: "sys \<Rightarrow> bool" where
  init: "threadpool_init n m True [0, 0, 0, 0] True h = Some s \<Longrightarrow> 0 < m \<Longrightarrow> wf_heap h \<Longrightarrow>
    (\<forall>q. load q h = None) \<Longrightarrow> reachable s"
| step: "reachable s \<Longrightarrow> step e s = Next s' \<Longrightarrow> reachable s'"

lemma init_inv:
  assumes "threadpool_init n m True [0, 0, 0, 0] True h = Some s" and "0 < m" and "wf_heap h" and "\<forall>q. load q h = None"
  shows "owns [] s \<and> sync [] s"
  using assms by (auto simp: threadpool_init_def owns_def sync_def queue_rep_def total_replicate)

lemma reachable_inv: "reachable s \<Longrightarrow> pool_inv s"
proof (induction rule: reachable.induct)
  case (init n m h s)
  from init_inv [OF this] show ?case unfolding pool_inv_def by blast
next
  case (step s e s')
  then obtain js where "owns js s" "sync js s" by (auto simp: pool_inv_def)
  from step_fine [OF this, of e] step.hyps(2) show ?case by (auto simp: fine_def)
qed

lemma run_reachable: "reachable s \<Longrightarrow> run es s = Next s' \<Longrightarrow> reachable s'"
proof (induction es arbitrary: s)
  case (Cons e es)
  then show ?case by (auto split: outcome.splits intro: reachable.step)
qed simp

lemma total_calling_size: "size (total (calling h) ws) \<le> length ws"
proof (induction ws)
  case (Cons w ws)
  have "size (calling h w) \<le> 1" by (cases w) (auto simp: calling_def split: option.splits)
  with Cons show ?case by simp
qed simp

lemma length_payloads: "(\<And>q. q \<in> set js \<Longrightarrow> load q h \<noteq> None) \<Longrightarrow> length (payloads h js) = length js"
  by (induction js) (auto split: option.splits)

lemma all_idle: "set ws \<subseteq> {W_Wait, W_Exit} \<Longrightarrow> total held ws = {#} \<and> total (calling h) ws = {#}"
  by (induction ws) auto

text \<open>Which threads a state without steps leaves.\<close>

lemma worker_blocked: "worker_step i s = Blocked \<Longrightarrow> workers s ! i \<in> {W_Wait, W_Exit}"
  by (auto simp: worker_step_def outcome_of_def split: worker.splits if_splits option.splits)

lemma producer_blocked: "producer_step i s = Blocked \<Longrightarrow> waits (producers s ! i) \<or> (\<exists>v. producers s ! i = P_Done v)"
  by (auto simp: producer_step_def outcome_of_def waits_def split: producer.splits if_splits option.splits)

lemma destroyer_blocked:
  "destroyer_step s = Blocked \<Longrightarrow> destroyer s \<in> {D_Idle, D_Wait, D_Done} \<or>
    (\<exists>k. destroyer s = D_Join k \<and> k < thread_num (pool s) \<and> workers s ! k \<noteq> W_Exit)"
  by (auto simp: destroyer_step_def outcome_of_def split: destroyer.splits if_splits option.splits prod.splits)

lemma quiescent:
  assumes O: "owns js s" and Y: "sync js s" and m: "2 \<le> queue_max_num (pool s)" and n: "0 < thread_num (pool s)"
    and w: "\<And>i. i < length (workers s) \<Longrightarrow> worker_step i s = Blocked"
    and p: "\<And>i. i < length (producers s) \<Longrightarrow> producer_step i s = Blocked" and d: "destroyer_step s = Blocked"
  shows "js = [] \<and> set (workers s) \<subseteq> {W_Wait, W_Exit} \<and> (\<forall>x \<in> set (producers s). \<exists>v. x = P_Done v) \<and>
    destroyer s \<in> {D_Idle, D_Done}"
proof -
  have ws: "set (workers s) \<subseteq> {W_Wait, W_Exit}"
  proof
    fix x assume "x \<in> set (workers s)"
    then obtain i where "i < length (workers s)" "x = workers s ! i" by (auto simp: in_set_conv_nth)
    with worker_blocked [OF w] show "x \<in> {W_Wait, W_Exit}" by simp
  qed
  have "workers s \<noteq> []" using O n by (auto simp: owns_def)
  then have ne: "W_Wait \<in> set (workers s) \<or> W_Exit \<in> set (workers s)" using ws by (cases "workers s") auto
  have js: "js = []" using ne syncD(1) [OF Y] syncD(10) [OF Y] syncD(6) [OF Y] by blast
  have dd: "destroyer s \<in> {D_Idle, D_Done}"
    using destroyer_blocked [OF d]
  proof
    assume "destroyer s \<in> {D_Idle, D_Wait, D_Done}"
    with syncD(3) [OF Y] js show ?thesis by auto
  next
    assume "\<exists>k. destroyer s = D_Join k \<and> k < thread_num (pool s) \<and> workers s ! k \<noteq> W_Exit"
    then obtain k where k: "destroyer s = D_Join k" "k < length (workers s)" "workers s ! k \<noteq> W_Exit"
      using O by (auto simp: owns_def)
    then have "W_Wait \<in> set (workers s)" using ws nth_mem [OF k(2)] by (metis empty_iff insert_iff subsetD)
    with syncD(1,4) [OF Y] k(1) show ?thesis by auto
  qed
  have "\<exists>v. x = P_Done v" if x: "x \<in> set (producers s)" for x
  proof -
    obtain i where i: "i < length (producers s)" "x = producers s ! i" using x by (metis in_set_conv_nth)
    from producer_blocked [OF p [OF i(1)]] syncD(2) [OF Y m x] js m dd i(2) show ?thesis by auto
  qed
  with js ws dd show ?thesis by blast
qed

end
