(* ===== verification/SimplePoolEnd.thy ===== *)
theory SimplePoolEnd
  imports SimplePoolOk
begin

text \<open>
  How long the threads of a pool can run by themselves: every step of a worker, of a caller of
  \<open>threadpool_add_job\<close> or of the caller of \<open>threadpool_destory\<close> lowers \<open>rank\<close>, a number made of the
  work that is left, the stage of the destruction and the threads that are awake.
\<close>

definition thread_event :: "event \<Rightarrow> bool" where
  "thread_event e \<longleftrightarrow> (case e of Worker i \<Rightarrow> True | Producer i \<Rightarrow> True | Destroyer \<Rightarrow> True | _ \<Rightarrow> False)"

definition pending :: "producer \<Rightarrow> nat" where
  "pending p = (case p of P_Done v \<Rightarrow> 0 | _ \<Rightarrow> 2)"

definition worker_awake :: "worker \<Rightarrow> nat" where
  "worker_awake w = (case w of W_Call q \<Rightarrow> 3 | W_Free q \<Rightarrow> 2 | W_Lock \<Rightarrow> 1 | _ \<Rightarrow> 0)"

definition producer_awake :: "producer \<Rightarrow> nat" where
  "producer_awake p = (case p of P_Lock f a \<Rightarrow> 1 | _ \<Rightarrow> 0)"

definition destroyer_awake :: "destroyer \<Rightarrow> nat" where
  "destroyer_awake d = (if d = D_Lock \<or> d = D_Woken then 1 else 0)"

definition phase :: "nat \<Rightarrow> destroyer \<Rightarrow> nat" where
  "phase n d = (case d of D_Wake_Workers \<Rightarrow> n + 4 | D_Wake_Producers \<Rightarrow> n + 3 | D_Join k \<Rightarrow> Suc (n + 1 - k) | D_Done \<Rightarrow> 0 | _ \<Rightarrow> n + 5)"

definition work :: "sys \<Rightarrow> nat" where
  "work s = sum_list (map pending (producers s)) + nat (queue_cur_num (pool s))"

definition awake :: "sys \<Rightarrow> nat" where
  "awake s = sum_list (map worker_awake (workers s)) + sum_list (map producer_awake (producers s)) +
     destroyer_awake (destroyer s)"

definition width :: "sys \<Rightarrow> nat" where
  "width s = 3 * length (workers s) + length (producers s) + 2"

definition rank :: "sys \<Rightarrow> nat" where
  "rank s = (work s * (thread_num (pool s) + 6) + phase (thread_num (pool s)) (destroyer s)) * width s + awake s"

lemma sum_update: "i < length xs \<Longrightarrow> sum_list (map g (xs[i := x])) + g (xs ! i) = sum_list (map g xs) + (g x :: nat)"
  by (induction xs arbitrary: i) (auto split: nat.split)

lemma sum_bound: "(\<And>x. g x \<le> k) \<Longrightarrow> sum_list (map g xs) \<le> k * length xs" for k :: nat
proof (induction xs)
  case (Cons x xs)
  then have "g x \<le> k" "sum_list (map g xs) \<le> k * length xs" by simp_all
  then show ?case by simp
qed simp

lemma awake_bound: "awake s < width s"
proof -
  have "sum_list (map worker_awake (workers s)) \<le> 3 * length (workers s)"
    by (rule sum_bound) (simp add: worker_awake_def split: worker.split)
  moreover have "sum_list (map producer_awake (producers s)) \<le> 1 * length (producers s)"
    by (rule sum_bound) (simp add: producer_awake_def split: producer.split)
  moreover have "destroyer_awake (destroyer s) \<le> 1" by (simp add: destroyer_awake_def)
  ultimately show ?thesis unfolding awake_def width_def by linarith
qed

lemma phase_bound: "phase n d < n + 6"
  by (cases d) (auto simp: phase_def)

lemma lex_less: "(x' :: nat) < x \<or> x' = x \<and> y' < y \<Longrightarrow> y' < k \<Longrightarrow> x' * k + y' < x * k + y"
proof (elim disjE)
  assume "x' < x" and "y' < k"
  then have "x' * k + y' < (x' + 1) * k" by simp
  also have "\<dots> \<le> x * k" using \<open>x' < x\<close> by (intro mult_right_mono) simp_all
  finally show ?thesis by simp
qed simp

lemma rank_less:
  assumes "work s' < work s \<or> work s' = work s \<and> (phase (thread_num (pool s)) (destroyer s') < phase (thread_num (pool s)) (destroyer s) \<or>
      phase (thread_num (pool s)) (destroyer s') = phase (thread_num (pool s)) (destroyer s) \<and> awake s' < awake s)"
    and "thread_num (pool s') = thread_num (pool s)" and "length (workers s') = length (workers s)"
    and "length (producers s') = length (producers s)"
  shows "rank s' < rank s"
proof -
  let ?n = "thread_num (pool s)"
  let ?x = "\<lambda>t. work t * (?n + 6) + phase ?n (destroyer t)"
  have w: "width s' = width s" using assms(3,4) by (simp add: width_def)
  have "?x s' < ?x s \<or> ?x s' = ?x s \<and> awake s' < awake s"
    using assms(1)
  proof (elim disjE conjE)
    assume "work s' < work s"
    then show ?thesis using lex_less [OF disjI1 phase_bound] by blast
  next
    assume "work s' = work s" "phase ?n (destroyer s') < phase ?n (destroyer s)"
    then show ?thesis by simp
  qed simp
  then have "?x s' * width s + awake s' < ?x s * width s + awake s"
    by (rule lex_less) (use awake_bound [of s'] w in simp)
  then show ?thesis by (simp only: rank_def assms(2) w)
qed

lemma pending_wake [simp]: "pending (wake_producer p) = pending p"
  by (cases p) (simp_all add: pending_def wake_producer_def)

lemma pending_wake_all [simp]: "pending \<circ> wake_producer = pending"
  by (rule ext) simp

lemma phase_wake [simp]: "phase n (wake_destroyer d) = phase n d"
  by (simp add: phase_def wake_destroyer_def)

lemmas rank_defs = work_def awake_def pending_def worker_awake_def producer_awake_def destroyer_awake_def

lemma worker_rank:
  assumes i: "i < length (workers s)" and n: "0 \<le> queue_cur_num (pool s)" and st: "worker_step i s = Next s'"
  shows "rank s' < rank s"
proof (cases "workers s ! i")
  case W_Lock
  note U = sum_update [OF i, of worker_awake]
  show ?thesis
  proof (cases "take_job_locked (pool s) (mem s)")
    case None
    with st W_Lock show ?thesis by (auto simp: worker_step_def outcome_of_def split: if_splits)
  next
    case (Some rp)
    obtain r p where rp: "rp = (r, p)" by (cases rp)
    show ?thesis
    proof (cases r)
      case Take_Wait
      have "s' = s\<lparr>workers := (workers s)[i := W_Wait]\<rparr>" using st W_Lock Some rp Take_Wait
        by (auto simp: worker_step_def outcome_of_def split: if_splits)
      then show ?thesis using U [of W_Wait] W_Lock by (intro rank_less) (auto simp: rank_defs)
    next
      case Take_Exit
      have "s' = s\<lparr>workers := (workers s)[i := W_Exit]\<rparr>" using st W_Lock Some rp Take_Exit
        by (auto simp: worker_step_def outcome_of_def split: if_splits)
      then show ?thesis using U [of W_Exit] W_Lock by (intro rank_less) (auto simp: rank_defs)
    next
      case (Take_Job q e f)
      have "queue_cur_num p = queue_cur_num (pool s) - 1 \<and> thread_num p = thread_num (pool s) \<and> queue_cur_num (pool s) \<noteq> 0"
        using Some rp Take_Job by (auto simp: take_job_locked_def Let_def split: if_splits bind_splits)
      then have p: "nat (queue_cur_num p) < nat (queue_cur_num (pool s))" "thread_num p = thread_num (pool s)"
        using n by auto
      show ?thesis using st W_Lock Some rp Take_Job p
        by (intro rank_less) (auto simp: worker_step_def outcome_of_def work_def split: if_splits)
    qed
  qed
next
  case (W_Call q)
  then obtain j where "s' = s\<lparr>workers := (workers s)[i := W_Free q], called := called s @ [payload j]\<rparr>"
    using st by (auto simp: worker_step_def outcome_of_def split: bind_splits option.splits)
  then show ?thesis using sum_update [OF i, of worker_awake "W_Free q"] W_Call by (intro rank_less) (auto simp: rank_defs)
next
  case (W_Free q)
  then obtain h where "s' = s\<lparr>mem := h, workers := (workers s)[i := W_Lock]\<rparr>"
    using st by (auto simp: worker_step_def outcome_of_def split: bind_splits option.splits)
  then show ?thesis using sum_update [OF i, of worker_awake W_Lock] W_Free by (intro rank_less) (auto simp: rank_defs)
qed (use st in \<open>simp_all add: worker_step_def\<close>)

lemma producer_rank:
  assumes i: "i < length (producers s)" and n: "0 \<le> queue_cur_num (pool s)" and st: "producer_step i s = Next s'"
  shows "rank s' < rank s"
proof (cases "producers s ! i")
  case (P_Lock f a)
  note U = sum_update [OF i, of pending] sum_update [OF i, of producer_awake]
  show ?thesis
  proof (cases "add_job_locked f a (pool s) (mem s)")
    case None
    with st P_Lock show ?thesis by (auto simp: producer_step_def outcome_of_def split: if_splits)
  next
    case (Some rph)
    obtain r p h where rp: "rph = (r, p, h)" by (cases rph)
    show ?thesis
    proof (cases r)
      case Add_Wait
      have "s' = s\<lparr>producers := (producers s)[i := P_Wait f a]\<rparr>" using st P_Lock Some rp Add_Wait
        by (auto simp: producer_step_def outcome_of_def split: if_splits)
      then show ?thesis using U [of "P_Wait f a"] P_Lock by (intro rank_less) (auto simp: rank_defs)
    next
      case (Add_Return v b)
      have "nat (queue_cur_num p) \<le> nat (queue_cur_num (pool s)) + 1 \<and> thread_num p = thread_num (pool s)"
        using Some rp Add_Return by (auto simp: add_job_locked_def Let_def split: if_splits bind_splits prod.splits)
      moreover have "sum_list (map pending ((producers s)[i := P_Done v])) + 2 = sum_list (map pending (producers s))"
        using U(1) [of "P_Done v"] P_Lock by (simp add: pending_def)
      ultimately show ?thesis using st P_Lock Some rp Add_Return
        by (intro rank_less) (auto simp: producer_step_def outcome_of_def work_def split: if_splits)
    qed
  qed
qed (use st in \<open>simp_all add: producer_step_def\<close>)

lemma destroyer_rank:
  assumes st: "destroyer_step s = Next s'"
  shows "rank s' < rank s"
proof (cases "destroyer s")
  case D_Lock
  with st show ?thesis by (intro rank_less)
    (auto simp: destroyer_step_def drained_locked_def phase_def rank_defs split: if_splits)
next
  case D_Woken
  with st show ?thesis by (intro rank_less)
    (auto simp: destroyer_step_def drained_locked_def phase_def rank_defs split: if_splits)
next
  case (D_Join k)
  show ?thesis
  proof (cases "k < thread_num (pool s)")
    case True
    with D_Join st have "s' = s\<lparr>destroyer := D_Join (k + 1)\<rparr>" by (auto simp: destroyer_step_def split: if_splits)
    with D_Join True show ?thesis by (intro rank_less) (auto simp: phase_def work_def)
  next
    case False
    with D_Join st obtain h where "s' = s\<lparr>mem := h, released := True, destroyer := D_Done\<rparr>"
      by (auto simp: destroyer_step_def outcome_of_def split: option.splits bind_splits)
    with D_Join show ?thesis by (intro rank_less) (auto simp: phase_def work_def awake_def destroyer_awake_def)
  qed
qed (use st in \<open>auto simp: destroyer_step_def phase_def work_def intro!: rank_less\<close>)

lemma step_rank:
  assumes "thread_event e" and "0 \<le> queue_cur_num (pool s)" and "step e s = Next s'"
  shows "rank s' < rank s"
  using assms worker_rank producer_rank destroyer_rank
  by (cases e) (auto simp: thread_event_def split: if_splits)

lemma reachable_count: "reachable s \<Longrightarrow> 0 \<le> queue_cur_num (pool s)"
  using reachable_inv [of s] by (auto simp: pool_inv_def owns_def queue_rep_def)

lemma run_rank:
  "reachable s \<Longrightarrow> set es \<subseteq> Collect thread_event \<Longrightarrow> run es s = Next s' \<Longrightarrow> length es + rank s' \<le> rank s"
proof (induction es arbitrary: s)
  case (Cons e es)
  then obtain s1 where s1: "step e s = Next s1" "run es s1 = Next s'" by (auto split: outcome.splits)
  have "rank s1 < rank s" using step_rank [OF _ reachable_count s1(1)] Cons.prems by simp
  moreover have "length es + rank s' \<le> rank s1"
    using Cons.IH [OF reachable.step [OF Cons.prems(1) s1(1)] _ s1(2)] Cons.prems(2) by simp
  ultimately show ?case by simp
qed simp

end
