(* ===== verification/SimplePoolClaims.thy ===== *)
theory SimplePoolClaims
  imports SimplePoolEnd
begin

text \<open>What the thread pool of \<open>simple_threadpool.c\<close> guarantees, and where it fails.\<close>

definition ex_pool :: "nat \<Rightarrow> int \<Rightarrow> sys" where
  "ex_pool n m = the (threadpool_init n m True [0, 0, 0, 0] True empty_heap)"

lemma ex_pool_reachable: "0 < m \<Longrightarrow> reachable (ex_pool n m)"
  by (rule reachable.init [of n m empty_heap])
    (simp_all add: ex_pool_def threadpool_init_def, simp add: load_def empty_heap_def)

definition busy_run :: "event list" where
  "busy_run = [Submit 7 70, Producer 0, Submit 8 80, Producer 1, Worker 0]"

definition shutdown_run :: "event list" where
  "shutdown_run = [Destroy, Destroyer, Worker 0, Worker 0, Worker 0, Destroyer, Worker 0, Worker 0,
     Destroyer, Destroyer, Worker 0, Destroyer, Destroyer]"

definition after :: "event list \<Rightarrow> sys \<Rightarrow> sys" where
  "after es s = (case run es s of Next s' \<Rightarrow> s' | _ \<Rightarrow> s)"

lemma after_reachable: "reachable s \<Longrightarrow> reachable (after es s)"
  by (auto simp: after_def split: outcome.split intro: run_reachable)

lemmas pool_eval = ex_pool_def threadpool_init_def empty_heap_def worker_step_def producer_step_def destroyer_step_def
  take_job_locked_def add_job_locked_def drained_locked_def free_jobs.simps outcome_of_def malloc_def load_def store_def
  free_def NULL_def payloads_def payload_def List.map_filter_def wake_worker_def wake_producer_def wake_destroyer_def
  after_def eval_nat_numeral

lemma busy: "let s = after busy_run (ex_pool 1 2) in accepted s = [(7, 70), (8, 80)] \<and> taken s = [(7, 70)] \<and>
  called s = [] \<and> \<not> released s \<and> queue_cur_num (pool s) = 1"
  by (simp add: pool_eval busy_run_def)

lemma shutdown: "let s = after (busy_run @ shutdown_run) (ex_pool 1 2) in destroyer s = D_Done \<and>
  accepted s = [(7, 70), (8, 80)]"
  by (simp add: pool_eval busy_run_def shutdown_run_def)

lemma idle: "let s = after (busy_run @ replicate 6 (Worker 0)) (ex_pool 1 2) in accepted s = [(7, 70), (8, 80)] \<and>
  queue_max_num (pool s) = 2 \<and> thread_num (pool s) = 1 \<and> workers s = [W_Wait] \<and> destroyer s = D_Idle \<and>
  producers s = [P_Done 0, P_Done 0]"
  by (simp add: pool_eval busy_run_def)

text \<open>C8: In every state a pool gets into, the accepted jobs are, in order, those the workers have taken followed by
  those on the linked list, \<open>queue_cur_num\<close> is the length of that list and never exceeds
  \<open>queue_max_num\<close>; the jobs taken are those called so far and at most one for each worker.\<close>

theorem pool_jobs_in_order:
  assumes "reachable s"
  shows "\<exists>js running. chain (mem s) (qhead (pool s)) js \<and> accepted s = taken s @ payloads (mem s) js \<and>
    length (payloads (mem s) js) = length js \<and>
    queue_cur_num (pool s) = int (length js) \<and> queue_cur_num (pool s) \<le> queue_max_num (pool s) \<and>
    mset (taken s) = mset (called s) + running \<and> size running \<le> thread_num (pool s)"
proof -
  from reachable_inv [OF assms] obtain js where O: "owns js s" by (auto simp: pool_inv_def)
  then have ch: "chain (mem s) (qhead (pool s)) js" by (simp add: owns_def queue_rep_def)
  have "length (payloads (mem s) js) = length js" using chain_live [OF ch] by (rule length_payloads)
  then show ?thesis
    using O ch total_calling_size [of "mem s" "workers s"]
    by (intro exI [of _ js] exI [of _ "total (calling (mem s)) (workers s)"]) (simp add: owns_def queue_rep_def)
qed

theorem pool_jobs_in_order_witness:
  "let s = after busy_run (ex_pool 1 2) in taken s = [(7, 70)] \<and>
    (\<exists>js. chain (mem s) (qhead (pool s)) js \<and> payloads (mem s) js = [(8, 80)] \<and> length js = 1)"
  using pool_jobs_in_order [OF after_reachable [OF ex_pool_reachable [of 2 1], of busy_run]] busy
  by (auto simp: Let_def)

text \<open>C18: Until the pool is released, no step of any thread in any reachable state is undefined: no dangling or
  NULL job is read, called or freed, and no job is freed twice, whatever the scheduler does and
  whichever allocations fail.\<close>

theorem pool_step_defined:
  assumes "reachable s" and "\<not> released s"
  shows "step e s \<noteq> Undefined"
proof -
  from reachable_inv [OF assms(1)] obtain js where "owns js s" "sync js s" by (auto simp: pool_inv_def)
  from step_fine [OF this, of e] assms(2) show ?thesis by (auto simp: fine_def)
qed

theorem pool_step_defined_witness: "step (Worker 0) (after busy_run (ex_pool 1 2)) \<noteq> Undefined"
  using pool_step_defined [OF after_reachable [OF ex_pool_reachable [of 2 1], of busy_run]] busy
  by (simp add: Let_def del: step.simps)

text \<open>C19: When \<open>threadpool_destory\<close> has returned, every accepted job has been called exactly once, every worker has
  exited and no job node is left allocated.\<close>

theorem pool_shutdown_complete:
  assumes "reachable s" and "destroyer s = D_Done"
  shows "mset (called s) = mset (accepted s) \<and> set (workers s) \<subseteq> {W_Exit} \<and> (\<forall>q. load q (mem s) = None)"
proof -
  from reachable_inv [OF assms(1)] obtain js where O: "owns js s" and Y: "sync js s" by (auto simp: pool_inv_def)
  have js: "js = []" using syncD(4,6) [OF Y] assms(2) by simp
  have ws: "set (workers s) \<subseteq> {W_Exit}" by (rule syncD(9) [OF Y assms(2)])
  then have e: "total held (workers s) = {#} \<and> total (calling (mem s)) (workers s) = {#}" by (intro all_idle) auto
  have "load q (mem s) = None" for q
  proof -
    have "count (mset js + total held (workers s)) q = (if load q (mem s) = None then 0 else 1)"
      using O unfolding owns_def by blast
    then show ?thesis using js e by (simp split: if_splits)
  qed
  moreover have "accepted s = taken s" "mset (taken s) = mset (called s)" using O js e by (simp_all add: owns_def)
  ultimately show ?thesis using ws by simp
qed

theorem pool_shutdown_complete_witness:
  "let s = after (busy_run @ shutdown_run) (ex_pool 1 2) in mset (called s) = {#(7, 70), (8, 80)#} \<and> load 1 (mem s) = None"
  using pool_shutdown_complete [OF after_reachable [OF ex_pool_reachable [of 2 1], of "busy_run @ shutdown_run"]] shutdown
  by (simp add: Let_def)

text \<open>C7: A pool with a thread and room for two jobs does not deadlock: when no thread can take a step without a
  spurious wake-up, every call of \<open>threadpool_add_job\<close> has returned, every accepted job has been
  called, and \<open>threadpool_destory\<close> was not called or has returned.\<close>

theorem pool_no_deadlock:
  assumes "reachable s" and "2 \<le> queue_max_num (pool s)" and "0 < thread_num (pool s)"
    and "\<forall>e. thread_event e \<longrightarrow> step e s = Blocked"
  shows "mset (called s) = mset (accepted s) \<and> queue_cur_num (pool s) = 0 \<and>
    (\<forall>p \<in> set (producers s). \<exists>v. p = P_Done v) \<and> destroyer s \<in> {D_Idle, D_Done}"
proof -
  from reachable_inv [OF assms(1)] obtain js where O: "owns js s" and Y: "sync js s" by (auto simp: pool_inv_def)
  have "worker_step i s = Blocked" if "i < length (workers s)" for i
    using assms(4) [rule_format, of "Worker i"] that by (simp add: thread_event_def)
  moreover have "producer_step i s = Blocked" if "i < length (producers s)" for i
    using assms(4) [rule_format, of "Producer i"] that by (simp add: thread_event_def)
  moreover have "destroyer_step s = Blocked"
    using assms(4) [rule_format, of Destroyer] by (simp add: thread_event_def)
  ultimately have Q: "js = [] \<and> set (workers s) \<subseteq> {W_Wait, W_Exit} \<and>
    (\<forall>x \<in> set (producers s). \<exists>v. x = P_Done v) \<and> destroyer s \<in> {D_Idle, D_Done}"
    by (rule quiescent [OF O Y assms(2,3)])
  then have "total (calling (mem s)) (workers s) = {#}" using all_idle by blast
  with O Q show ?thesis by (simp add: owns_def queue_rep_def)
qed

theorem pool_no_deadlock_witness:
  "mset (called (after (busy_run @ replicate 6 (Worker 0)) (ex_pool 1 2))) = {#(7, 70), (8, 80)#}"
proof -
  let ?s = "after (busy_run @ replicate 6 (Worker 0)) (ex_pool 1 2)"
  note S = idle [unfolded Let_def]
  have "step e ?s = Blocked" if "thread_event e" for e
    using that S by (cases e) (auto simp: thread_event_def worker_step_def producer_step_def destroyer_step_def nth_Cons')
  then have "mset (called ?s) = mset (accepted ?s)"
    using pool_no_deadlock [OF after_reachable [OF ex_pool_reachable [of 2 1], of "busy_run @ replicate 6 (Worker 0)"]] S by simp
  with S show ?thesis by simp
qed

text \<open>C20: Left to themselves, the threads of a pool come to rest: from any reachable state a schedule without
  spurious wake-ups and new calls has at most \<open>rank s\<close> steps.\<close>

theorem pool_schedules_end:
  assumes "reachable s" and "set es \<subseteq> Collect thread_event" and "run es s = Next s'"
  shows "length es \<le> rank s"
  using run_rank [OF assms] by simp

theorem pool_schedules_end_witness: "length (replicate 6 (Worker 0)) \<le> rank (after busy_run (ex_pool 1 2))"
proof -
  obtain s' where "run (replicate 6 (Worker 0)) (after busy_run (ex_pool 1 2)) = Next s'"
    by (simp add: pool_eval busy_run_def)
  from pool_schedules_end [OF after_reachable [OF ex_pool_reachable [of 2 1], of busy_run] _ this]
  show ?thesis by (simp add: thread_event_def)
qed

text \<open>With \<open>queue_max_num\<close> 1 the pool does deadlock: a worker that takes the only job signals
  \<open>queue_empty\<close> and not \<open>queue_not_full\<close>, so a caller of \<open>threadpool_add_job\<close> that waits for room sleeps
  on while the queue is empty and the worker waits for a job.\<close>

theorem pool_single_slot_deadlock:
  "let s = after ([Submit 7 70, Submit 8 80, Producer 0, Producer 1] @ replicate 4 (Worker 0)) (ex_pool 1 1) in
    producers s = [P_Done 0, P_Wait 8 80] \<and> workers s = [W_Wait] \<and> queue_cur_num (pool s) = 0 \<and>
    step (Worker 0) s = Blocked \<and> step (Producer 1) s = Blocked \<and> step Destroyer s = Blocked"
  by (simp add: pool_eval)

text \<open>A caller of \<open>threadpool_add_job\<close> that waits for room while the pool is destroyed uses the mutex after it
  was destroyed and the pool freed: \<open>threadpool_destory\<close> wakes it but joins only the workers.\<close>

theorem pool_destroy_races_add:
  "let s = after [Submit 7 70, Submit 8 80, Producer 0, Producer 1, Destroy, Destroyer, Worker 0, Destroyer,
      Destroyer, Destroyer, Worker 0, Worker 0, Worker 0, Destroyer, Destroyer] (ex_pool 1 1) in
    destroyer s = D_Done \<and> producers s = [P_Done 0, P_Lock 8 80] \<and> step (Producer 1) s = Undefined"
  by (simp add: pool_eval)

end
