(* ===== verification/Checksum.thy ===== *)
theory Checksum
  imports Prelude
begin

unbundle bit_operations_syntax

text \<open>
  The Internet checksum of \<open>tcp_checksum.c\<close>.  The data is the list of the octets from \<open>dataptr\<close> on;
  reading beyond it is undefined.  \<open>len\<close>, \<open>src\<close> and \<open>acc\<close> keep their widths.
\<close>

subsection \<open>The code\<close>

fun chksum_loop :: "byte list \<Rightarrow> 16 word \<Rightarrow> 32 word \<Rightarrow> (byte list \<times> 16 word \<times> 32 word) option" where
  "chksum_loop octetptr len acc =
     (if 1 < len then
        (case octetptr of
           hi # lo # octetptr \<Rightarrow>
             (let src = push_bit 8 (ucast hi) OR ucast lo :: 16 word in
              chksum_loop octetptr (len - 2) (acc + ucast src))
         | _ \<Rightarrow> None)
      else Some (octetptr, len, acc))"

definition fold16 :: "32 word \<Rightarrow> 32 word" where
  "fold16 acc = drop_bit 16 acc + (acc AND 0x0000FFFF)"

definition chksum :: "byte list \<Rightarrow> 16 word \<Rightarrow> 16 word option" where
  "chksum dataptr len = do {
     (octetptr, len, acc) \<leftarrow> chksum_loop dataptr len 0;
     acc \<leftarrow> (if 0 < len then (case octetptr of hi # _ \<Rightarrow> Some (acc + ucast (push_bit 8 (ucast hi) :: 16 word)) | [] \<Rightarrow> None)
       else Some acc);
     let acc = fold16 acc;
     let acc = (if acc AND 0xFFFF0000 \<noteq> 0 then fold16 acc else acc);
     let src = (ucast acc :: 16 word);
     Some (NOT src) }"

declare chksum_loop.simps [simp del]

subsection \<open>One's-complement sums\<close>

text \<open>The sum of the big-endian 16-bit groups, the last one padded with a zero octet.\<close>

fun group_sum :: "byte list \<Rightarrow> nat" where
  "group_sum (a # b # bs) = 256 * unat a + unat b + group_sum bs"
| "group_sum [a] = 256 * unat a"
| "group_sum [] = 0"

text \<open>The sum modulo \<open>0xFFFF\<close>, with \<open>0xFFFF\<close> and not 0 for a positive multiple.\<close>

definition ones_sum :: "nat \<Rightarrow> nat" where
  "ones_sum n = (if n = 0 then 0 else (n - 1) mod 0xFFFF + 1)"

lemma ones_sum_le: "ones_sum n \<le> 0xFFFF"
  unfolding ones_sum_def using mod_less_divisor [of "0xFFFF" "n - 1"] by (simp del: mod_less_divisor)

lemma ones_sum_cong: "int (ones_sum n) mod 0xFFFF = int n mod 0xFFFF"
proof (cases "n = 0")
  case False
  then obtain m where "n = Suc m" by (cases n) auto
  then show ?thesis by (simp add: ones_sum_def zmod_int mod_simps)
qed (simp add: ones_sum_def)

text \<open>Folding the high half into the low one keeps the sum.\<close>

lemma fold16_unat: "unat (fold16 acc) = unat acc div 2 ^ 16 + unat acc mod 2 ^ 16"
proof -
  have m: "acc AND 0x0000FFFF = take_bit 16 acc" by (simp add: take_bit_eq_mask mask_eq_exp_minus_1)
  have "unat acc < 2 ^ 32" using unsigned_less [of acc] by simp
  then have "unat acc div 2 ^ 16 < 2 ^ 16" by (simp add: less_mult_imp_div_less)
  then have "unat acc div 2 ^ 16 + unat acc mod 2 ^ 16 < 2 ^ 32" 
    using mod_less_divisor [of "2 ^ 16" "unat acc"] by (simp del: mod_less_divisor)
  then show ?thesis unfolding fold16_def m
    by (simp add: unat_word_ariths unat_drop_bit_eq unsigned_take_bit_eq drop_bit_eq_div take_bit_eq_mod)
qed

lemma high_zero: "(acc AND 0xFFFF0000 \<noteq> (0 :: 32 word)) = (2 ^ 16 \<le> unat acc)"
proof -
  have m: "(0xFFFF0000 :: 32 word) = push_bit 16 (mask 16)" by (simp add: mask_eq_exp_minus_1)
  have "acc AND 0xFFFF0000 = push_bit 16 (drop_bit 16 acc)" "drop_bit 16 (acc AND 0xFFFF0000) = drop_bit 16 acc"
    unfolding m by (rule bit_word_eqI; auto simp: bit_simps dest: bit_imp_le_length)+
  then have "(acc AND 0xFFFF0000 = 0) = (drop_bit 16 acc = 0)" by (metis push_bit_of_0 drop_bit_of_0)
  also have "\<dots> = (unat acc div 2 ^ 16 = 0)"
    by (metis unat_eq_0 unat_drop_bit_eq drop_bit_eq_div)
  finally show ?thesis by (auto simp: div_greater_zero_iff)
qed

lemma ones_sum_rem: "0 < s \<Longrightarrow> s \<le> 0xFFFF \<Longrightarrow> ones_sum (0xFFFF * k + s) = s"
proof -
  assume s: "0 < s" "s \<le> 0xFFFF"
  then have "0xFFFF * k + s - 1 = (s - 1) + 0xFFFF * k" by simp
  then have "(0xFFFF * k + s - 1) mod 0xFFFF = s - 1" using s by (simp only: mod_mult_self2) simp
  then show ?thesis using s by (simp add: ones_sum_def)
qed

lemma double_fold:
  assumes "unat acc < 0x7FFFFFFF"
  shows "unat (if fold16 acc AND 0xFFFF0000 \<noteq> 0 then fold16 (fold16 acc) else fold16 acc) = ones_sum (unat acc)"
proof -
  define n where "n = unat acc"
  define a where "a = n div 2 ^ 16"
  define b where "b = n mod 2 ^ 16"
  have n: "n = 2 ^ 16 * a + b" "b < 2 ^ 16" "a < 2 ^ 15" using assms by (simp_all add: a_def b_def n_def)
  have f: "unat (fold16 acc) = a + b" by (simp add: fold16_unat a_def b_def n_def)
  show ?thesis
  proof (cases "2 ^ 16 \<le> a + b")
    case True
    have "(a + b) div 2 ^ 16 = 1" "(a + b) mod 2 ^ 16 = a + b - 2 ^ 16" using True n(2,3) by (simp_all add: div_nat_eqI mod_nat_eqI)
    then have "unat (fold16 (fold16 acc)) = (a + b) - 0xFFFF" unfolding fold16_unat [of "fold16 acc"] f using True by simp
    moreover have "ones_sum n = (a + b) - 0xFFFF"
      using ones_sum_rem [of "a + b - 0xFFFF" "a + 1"] True n by (simp add: algebra_simps)
    ultimately show ?thesis using True f by (simp add: high_zero n_def)
  next
    case False
    have "ones_sum n = a + b"
    proof (cases "n = 0")
      case False
      then have "ones_sum (0xFFFF * a + (a + b)) = a + b" using \<open>\<not> 2 ^ 16 \<le> a + b\<close> n by (intro ones_sum_rem) auto
      then show ?thesis using n(1) by simp
    qed (use n(1) in \<open>simp add: ones_sum_def\<close>)
    then show ?thesis using False f by (simp add: high_zero n_def)
  qed
qed

subsection \<open>The loop\<close>

lemma group_sum_bound: "group_sum bs \<le> 0xFFFF * ((length bs + 1) div 2)"
proof (induction bs rule: group_sum.induct)
  case (1 a b bs)
  have "unat a < 256" "unat b < 256" using unsigned_less [of a] unsigned_less [of b] by simp_all
  with 1 show ?case by simp
next
  case (2 a)
  have "unat a < 256" using unsigned_less [of a] by simp
  then show ?case by simp
qed simp

lemma byte_pair_bound: "256 * unat (a :: byte) + unat (b :: byte) < 2 ^ 16"
  using unsigned_less [of a, where ?'a = nat] unsigned_less [of b, where ?'a = nat] by simp

lemma complement16:
  assumes "unat (x :: 32 word) \<le> 0xFFFF"
  shows "unat (NOT (ucast x :: 16 word)) = 0xFFFF - unat x"
proof -
  let ?w = "ucast x :: 16 word"
  have "NOT ?w = - 1 - ?w" by (simp add: not_eq_complement)
  moreover have "unat (- 1 - ?w) = unat (- 1 :: 16 word) - unat ?w" by (rule unat_sub) simp
  moreover have "unat (- 1 :: 16 word) = 0xFFFF" by (simp add: unsigned_minus_1_eq_mask mask_eq_exp_minus_1)
  ultimately show ?thesis using assms by (simp add: unsigned_ucast_eq take_bit_eq_mod)
qed

lemma src_unat: "unat (push_bit 8 (ucast a) OR ucast (b :: byte) :: 16 word) = 256 * unat (a :: byte) + unat b"
proof -
  have a: "unat a < 256" and b: "unat b < 256" using unsigned_less [of a] unsigned_less [of b] by simp_all
  have "(push_bit 8 (ucast a) OR ucast b :: 16 word) = push_bit 8 (ucast a) + ucast b"
    by (rule disjunctive_add_eq_or [symmetric], rule bit_word_eqI) (auto simp: bit_simps dest: bit_imp_le_length)
  then show ?thesis using a b
    by (simp add: unat_word_ariths unsigned_push_bit_eq push_bit_eq_mult unsigned_ucast_eq take_bit_eq_mod)
qed

lemma chksum_loop_sum:
  assumes "unat len = length bs" and "unat acc + group_sum bs < 2 ^ 32"
  shows "\<exists>acc'. chksum_loop bs len acc = Some (if even (length bs) then [] else [last bs], word_of_nat (length bs mod 2), acc') \<and>
    unat acc' = unat acc + group_sum (if even (length bs) then bs else butlast bs)"
  using assms
proof (induction bs arbitrary: len acc rule: group_sum.induct)
  case (1 a b bs)
  let ?src = "push_bit 8 (ucast a) OR ucast b :: 16 word"
  have l: "1 < len" using "1.prems"(1) by (simp add: word_less_nat_alt)
  have l2: "unat (len - 2) = length bs" using "1.prems"(1) by (simp add: unat_sub_if_size word_le_nat_alt)
  have s: "unat (ucast ?src :: 32 word) = 256 * unat a + unat b" using src_unat [of a b] byte_pair_bound [of a b] by (simp add: unsigned_ucast_eq take_bit_eq_mod)
  have acc: "unat (acc + ucast ?src) = unat acc + (256 * unat a + unat b)"
    using "1.prems"(2) s by (simp add: unat_word_ariths)
  from "1.IH" [OF l2, of "acc + ucast ?src"] "1.prems"(2) obtain acc' where
    "chksum_loop bs (len - 2) (acc + ucast ?src) =
      Some (if even (length bs) then [] else [last bs], word_of_nat (length bs mod 2), acc')"
    "unat acc' = unat acc + (256 * unat a + unat b) + group_sum (if even (length bs) then bs else butlast bs)"
    unfolding acc by auto
  then show ?case using l by (subst chksum_loop.simps) (auto simp: Let_def)
next
  case (2 a)
  then have "len = 1" by (metis One_nat_def length_Cons list.size(3) unat_1 word_unat_eq_iff)
  then show ?case by (simp add: chksum_loop.simps)
next
  case 3
  then have "len = 0" by (simp add: unat_eq_0)
  then show ?case by (simp add: chksum_loop.simps)
qed

lemma group_sum_odd: "odd (length bs) \<Longrightarrow> group_sum bs = group_sum (butlast bs) + 256 * unat (last bs)"
  by (induction bs rule: group_sum.induct) auto

lemma chksum_value:
  assumes "length bs < 2 ^ 16"
  shows "\<exists>c. chksum bs (word_of_nat (length bs)) = Some c \<and> unat c = 0xFFFF - ones_sum (group_sum bs)"
proof -
  have b: "group_sum bs < 0x7FFFFFFF" 
    using group_sum_bound [of bs] assms by (simp add: less_le_trans)
  have l: "unat (word_of_nat (length bs) :: 16 word) = length bs" using assms by (simp add: unat_of_nat)
  from chksum_loop_sum [OF l, of 0] b obtain acc where acc:
    "chksum_loop bs (word_of_nat (length bs)) 0 =
       Some (if even (length bs) then [] else [last bs], word_of_nat (length bs mod 2), acc)"
    "unat acc = group_sum (if even (length bs) then bs else butlast bs)" by auto
  define acc2 where "acc2 = (if even (length bs) then acc else acc + ucast (push_bit 8 (ucast (last bs)) :: 16 word))"
  have "unat (ucast (push_bit 8 (ucast (last bs)) :: 16 word) :: 32 word) = 256 * unat (last bs)"
    using src_unat [of "last bs" 0] byte_pair_bound [of "last bs" 0] by (simp add: unsigned_ucast_eq take_bit_eq_mod)
  then have a2: "unat acc2 = group_sum bs"
    using acc(2) group_sum_odd [of bs] b by (auto simp: acc2_def unat_word_ariths)
  let ?f = "if fold16 acc2 AND 0xFFFF0000 \<noteq> 0 then fold16 (fold16 acc2) else fold16 acc2"
  have "chksum bs (word_of_nat (length bs)) = Some (NOT (ucast ?f))"
    using acc(1) by (auto simp: chksum_def acc2_def odd_iff_mod_2_eq_one even_iff_mod_2_eq_zero)
  moreover have "unat ?f = ones_sum (group_sum bs)" using double_fold [of acc2] a2 b by simp
  then have "unat (NOT (ucast ?f :: 16 word)) = 0xFFFF - ones_sum (group_sum bs)"
    using ones_sum_le [of "group_sum bs"] complement16 [of ?f] by simp
  ultimately show ?thesis by blast
qed

text \<open>The sum of two pieces, the first of even length, and the octets of a checksum.\<close>

lemma group_sum_append: "even (length xs) \<Longrightarrow> group_sum (xs @ ys) = group_sum xs + group_sum ys"
  by (induction xs rule: group_sum.induct) auto

definition be16 :: "16 word \<Rightarrow> byte list" where
  "be16 c = [ucast (drop_bit 8 c), ucast c]"

lemma length_be16 [simp]: "length (be16 c) = 2"
  by (simp add: be16_def)

lemma group_sum_be16: "group_sum (be16 c @ bs) = unat c + group_sum bs"
proof -
  have "unat c div 256 < 256" using unsigned_less [of c, where ?'a = nat] by (simp add: less_mult_imp_div_less)
  moreover have "unat (drop_bit 8 c) = unat c div 256"
    unfolding unat_drop_bit_eq by (simp add: drop_bit_eq_div)
  ultimately have "unat (ucast (drop_bit 8 c) :: byte) = unat c div 256" "unat (ucast c :: byte) = unat c mod 256"
    by (simp_all add: unsigned_ucast_eq take_bit_eq_mod)
  then show ?thesis by (simp add: be16_def)
qed

lemma ones_sum_complement: "ones_sum (n + (0xFFFF - ones_sum n)) = 0xFFFF"
proof (cases "n = 0")
  case False
  then obtain m where m: "n = Suc m" by (cases n) auto
  have "m mod 0xFFFF < 0xFFFF" "m = 0xFFFF * (m div 0xFFFF) + m mod 0xFFFF" by simp_all
  then have "n + (0xFFFF - ones_sum n) = 0xFFFF * (m div 0xFFFF) + 0xFFFF"
    unfolding m ones_sum_def diff_Suc_1 by (simp only: if_False nat.simps)
  then show ?thesis using ones_sum_rem [of "0xFFFF" "m div 0xFFFF"] by simp
qed (simp add: ones_sum_def)

section \<open>The properties\<close>

text \<open>What the Internet checksum of \<open>tcp_checksum.c\<close> computes.\<close>

text \<open>C39: For any data of at most 65535 octets, \<open>chksum\<close> reads inside the data and returns the complement of
  the one's-complement sum of its big-endian 16-bit groups, an odd last octet padded with zero; the
  32-bit sum does not wrap and two folds are enough.\<close>

theorem chksum_ones_complement:
  assumes "length bs < 2 ^ 16"
  shows "\<exists>c. chksum bs (word_of_nat (length bs)) = Some c \<and> unat c = 0xFFFF - ones_sum (group_sum bs)"
  using assms by (rule chksum_value)

theorem chksum_ones_complement_witness: "chksum [0xFF, 0xFF, 0xFF, 0xFF, 1] 5 = Some 0xFEFF"
proof -
  obtain c where c: "chksum [0xFF, 0xFF, 0xFF, 0xFF, 1] 5 = Some c" "unat c = 0xFEFF"
    using chksum_ones_complement [of "[0xFF, 0xFF, 0xFF, 0xFF, 1]"] by (auto simp: ones_sum_def)
  then have "c = 0xFEFF" by (simp add: word_unat_eq_iff)
  with c(1) show ?thesis by simp
qed

text \<open>A checksum computed with its own field set to zero, at an even offset, and then stored there
  verifies: over the complete data \<open>chksum\<close> is 0.\<close>

theorem chksum_verifies:
  assumes "even (length pre)" and "length (pre @ [0, 0] @ post) < 2 ^ 16"
    and "chksum (pre @ [0, 0] @ post) (word_of_nat (length (pre @ [0, 0] @ post))) = Some c"
  shows "chksum (pre @ be16 c @ post) (word_of_nat (length (pre @ be16 c @ post))) = Some 0"
proof -
  have s: "group_sum (pre @ be16 c @ post) = group_sum (pre @ [0, 0] @ post) + unat c"
    using assms(1) group_sum_be16 [of c post] by (simp add: group_sum_append)
  have "unat c = 0xFFFF - ones_sum (group_sum (pre @ [0, 0] @ post))" using chksum_value [OF assms(2)] assms(3) by auto
  then have "ones_sum (group_sum (pre @ be16 c @ post)) = 0xFFFF" unfolding s using ones_sum_complement by simp
  moreover have "length (pre @ be16 c @ post) < 2 ^ 16" using assms(2) by (simp add: be16_def)
  ultimately obtain c' where "chksum (pre @ be16 c @ post) (word_of_nat (length (pre @ be16 c @ post))) = Some c'" "unat c' = 0"
    using chksum_value [of "pre @ be16 c @ post"] by auto
  then show ?thesis by (simp add: unat_eq_0)
qed

theorem chksum_verifies_witness: "chksum ([0x45, 0x12] @ be16 0xB5ED @ [5]) 5 = Some 0"
proof -
  have "chksum ([0x45, 0x12] @ [0, 0] @ [5]) 5 = Some 0xB5ED"
    by (simp add: chksum_def chksum_loop.simps fold16_def Let_def)
  then show ?thesis using chksum_verifies [of "[0x45, 0x12]" "[5]"] by simp
qed

end
