(* ===== verification/HexString.thy ===== *)
theory HexString
  imports Prelude
begin

unbundle bit_operations_syntax

text \<open>
  The converters of \<open>convert_hexstring_to_buffer.c\<close> and \<open>convert_hexstring_to_buffer2.c\<close>: from a text such
  as \<open>00 1F a0\<close> to a block of bytes, and the output of such a block.  The two files differ in how a
  byte is stored: the first assigns a \<open>char\<close>, the second lets \<open>sscanf\<close> store an \<open>unsigned int\<close> there.
  The input is a terminated buffer, the output block lives on a heap, and an access outside either
  is undefined.  Lengths have the type \<open>size_t\<close> and \<open>int\<close> of the code; the position in the text is a
  number, so texts of 2 GiB and more, where \<open>int i\<close> would overflow, are outside the theorems.
\<close>

subsection \<open>The code\<close>

type_synonym hex_heap = "cbuf heap"

text \<open>\<open>isxdigit\<close> in the C locale, 0 for the characters from 128 on, which are negative, as with glibc.\<close>

definition isxdigit :: "byte \<Rightarrow> bool" where
  "isxdigit c \<longleftrightarrow> 48 \<le> c \<and> c \<le> 57 \<or> 65 \<le> c \<and> c \<le> 70 \<or> 97 \<le> c \<and> c \<le> 102"

definition digit_value :: "byte \<Rightarrow> nat" where
  "digit_value c = (if c \<le> 57 then unat c - 48 else if c \<le> 70 then unat c - 55 else unat c - 87)"

text \<open>\<open>sscanf(s, "%2x", &v)\<close> where \<open>s\<close> starts with two hexadecimal digits.\<close>

definition sscanf_2x :: "byte \<Rightarrow> byte \<Rightarrow> 32 word" where
  "sscanf_2x a b = of_nat (16 * digit_value a + digit_value b)"

text \<open>\<open>p_out[i] = (char) v\<close>, and the four octets of \<open>v\<close> from \<open>p_out + i\<close> on, lowest first.\<close>

definition put_char :: "addr \<Rightarrow> nat \<Rightarrow> 32 word \<Rightarrow> hex_heap \<Rightarrow> hex_heap option" where
  "put_char p i v h = do { b \<leftarrow> load p h; b \<leftarrow> poke b i (ucast v); store p b h }"

definition put_uint :: "addr \<Rightarrow> nat \<Rightarrow> 32 word \<Rightarrow> hex_heap \<Rightarrow> hex_heap option" where
  "put_uint p i v h = do {
     b \<leftarrow> load p h;
     b \<leftarrow> pokes b i [ucast v, ucast (drop_bit 8 v), ucast (drop_bit 16 v), ucast (drop_bit 24 v)];
     store p b h }"

type_synonym put = "addr \<Rightarrow> nat \<Rightarrow> 32 word \<Rightarrow> hex_heap \<Rightarrow> hex_heap option"

text \<open>The loop over the text; the result says whether it ended at the end of the text or at \<open>error\<close>.\<close>

function hex_loop :: "put \<Rightarrow> cbuf \<Rightarrow> nat \<Rightarrow> addr \<Rightarrow> nat \<Rightarrow> nat \<Rightarrow> hex_heap \<Rightarrow> (bool \<times> hex_heap) option" where
  "hex_loop put s i_str_len p_out i i_offset h =
     (if i < i_str_len then do {
        c0 \<leftarrow> peek s i;
        if \<not> isxdigit c0 then Some (False, h)
        else do {
          c1 \<leftarrow> peek s (i + 1);
          if \<not> isxdigit c1 then Some (False, h)
          else do {
            h \<leftarrow> put p_out i_offset (sscanf_2x c0 c1) h;
            if i + 2 = i_str_len then Some (True, h)
            else do {
              c2 \<leftarrow> peek s (i + 2);
              if c2 \<noteq> 32 then Some (False, h)
              else hex_loop put s i_str_len p_out (i + 3) (i_offset + 1) h } } } }
      else Some (True, h))"
  by auto
termination by (relation "measure (\<lambda>(_, _, n, _, i, _, _). n - i)") auto

declare hex_loop.simps [simp del]

text \<open>The result is the returned value and, where they are assigned, \<open>*pp_out\<close> and \<open>*p_i_out_len\<close>.\<close>

definition convert :: "put \<Rightarrow> cbuf option \<Rightarrow> hex_heap \<Rightarrow> ((int \<times> (addr \<times> 32 word) option) \<times> hex_heap) option" where
  "convert put p_hexstring h =
     (case p_hexstring of
        None \<Rightarrow> Some ((-1, None), h)
      | Some s \<Rightarrow> do {
          str \<leftarrow> cstring s;
          let i_str_len = (of_nat (length str) :: 64 word);
          if i_str_len \<noteq> 2 \<and> (i_str_len - 2) mod 3 \<noteq> 0 then Some ((-1, None), h)
          else do {
            let i_out_len = (if i_str_len = 2 then 1 else ucast ((i_str_len - 2) div 3 + 1) :: 32 word);
            let (p_out, h) = malloc (uninit (unat (scast i_out_len :: 64 word))) h;
            if p_out = NULL then Some ((-1, None), h)
            else do {
              (ok, h) \<leftarrow> hex_loop put s (length str) p_out 0 0 h;
              if ok then Some ((0, Some (p_out, i_out_len)), h)
              else do { h \<leftarrow> free p_out h; Some ((-1, None), h) } } } })"

definition hexstring_to_bytearray where
  "hexstring_to_bytearray = convert put_char"

definition hexstring_to_bytearray2 where
  "hexstring_to_bytearray2 = convert put_uint"

text \<open>\<open>print_as_hexstring\<close> of the first file, as the characters it prints.\<close>

definition upper_digit :: "nat \<Rightarrow> byte" where
  "upper_digit n = of_nat (if n < 10 then 48 + n else 55 + n)"

definition printf_02X :: "byte \<Rightarrow> byte list" where
  "printf_02X c = [upper_digit (unat c div 16), upper_digit (unat c mod 16)]"

fun print_bytes :: "byte list \<Rightarrow> byte \<Rightarrow> byte list \<times> byte" where
  "print_bytes [] check_sum = ([], check_sum)"
| "print_bytes (c # cs) check_sum =
     (let (out, check_sum) = print_bytes cs (check_sum + c) in (printf_02X c @ out, check_sum))"

definition print_as_hexstring :: "byte list \<Rightarrow> byte list" where
  "print_as_hexstring p_data =
     (let (out, check_sum) = print_bytes p_data 0 in
      out @ [10, 99, 104, 101, 99, 107, 32, 115, 117, 109, 58, 91, 48, 120] @ printf_02X check_sum @ [93, 10])"

subsection \<open>What a text stands for\<close>

fun hex_parse :: "byte list \<Rightarrow> byte list option" where
  "hex_parse [a, b] = (if isxdigit a \<and> isxdigit b then Some [ucast (sscanf_2x a b)] else None)"
| "hex_parse (a # b # c # cs) =
     (if isxdigit a \<and> isxdigit b \<and> c = 32 then map_option (Cons (ucast (sscanf_2x a b))) (hex_parse cs) else None)"
| "hex_parse _ = None"

lemma hex_parse_length: "hex_parse s = Some bs \<Longrightarrow> length s + 1 = 3 * length bs"
  by (induction s arbitrary: bs rule: hex_parse.induct) (auto split: if_splits)

lemma peek_str [simp]: "peek (str_buf s) i = (if i < length s then Some (s ! i) else if i = length s then Some 0 else None)"
  by (auto simp: peek_def str_buf_def nth_append)

lemma not_digits [simp]: "\<not> isxdigit 0" "\<not> isxdigit 32"
  by (simp_all add: isxdigit_def)

lemma put_char_Some:
  "load p h = Some b \<Longrightarrow> i < length b \<Longrightarrow>
   put_char p i v h = Some (h\<lparr>cells := (cells h)(p := Some (b[i := Some (ucast v)]))\<rparr>)"
  by (simp add: put_char_def poke_def store_Some)

text \<open>
  What the loop does with the rest of the text: \<open>k\<close> bytes of the block are to be filled.
\<close>

lemma hex_loop_ok:
  assumes "length s + 1 = i + 3 * k" and "0 < k" and "load p h = Some (map Some bs @ uninit k)"
  shows "\<exists>h' b. hex_loop put_char (str_buf s) (length s) p i (length bs) h = Some (hex_parse (drop i s) \<noteq> None, h') \<and>
    load p h' = Some b \<and> (\<forall>cs. hex_parse (drop i s) = Some cs \<longrightarrow> b = map Some (bs @ cs)) \<and>
    (\<forall>q. q \<noteq> p \<longrightarrow> load q h' = load q h) \<and> (wf_heap h \<longrightarrow> wf_heap h')"
  using assms
proof (induction k arbitrary: i bs h)
  case (Suc k)
  note P = Suc.prems and IH = Suc.IH
  let ?a = "s ! i" and ?b = "s ! Suc i" and ?v = "ucast (sscanf_2x (s ! i) (s ! Suc i)) :: byte"
  have i: "i < length s" "Suc i < length s" using P(1) by simp_all
  have d: "drop i s = ?a # ?b # drop (i + 2) s" using i by (simp add: Cons_nth_drop_Suc [symmetric])
  show ?case
  proof (cases "isxdigit ?a \<and> isxdigit ?b")
    case False
    then have "hex_parse (drop i s) = None" unfolding d by (cases "drop (i + 2) s") auto
    then show ?thesis using False i P by (subst hex_loop.simps) auto
  next
    case True
    let ?h = "h\<lparr>cells := (cells h)(p := Some (map Some (bs @ [?v]) @ uninit k))\<rparr>"
    have p: "put_char p (length bs) (sscanf_2x ?a ?b) h = Some ?h"
      using put_char_Some [OF P(3), of "length bs"] by (simp add: uninit_Suc list_update_append)
    have l: "load q ?h = (if q = p then Some (map Some (bs @ [?v]) @ uninit k) else load q h)" for q
      using load_Some_not_NULL [OF P(3)] by (simp add: load_def)
    have wf: "wf_heap h \<longrightarrow> wf_heap ?h" using l P(3) by (auto simp: wf_heap_def)
    show ?thesis
    proof (cases k)
      case 0
      then have "drop (i + 2) s = []" "i + 2 = length s" using P(1) by simp_all
      moreover from this have "hex_parse (drop i s) = Some [?v]" unfolding d using True by simp
      ultimately show ?thesis using True i p l wf 0 by (subst hex_loop.simps) auto
    next
      case (Suc m)
      then have i2: "i + 2 < length s" "i + 2 \<noteq> length s" using P(1) by simp_all
      then have d2: "drop (i + 2) s = s ! (i + 2) # drop (i + 3) s"
        by (simp add: Cons_nth_drop_Suc numeral_3_eq_3)
      show ?thesis
      proof (cases "s ! (i + 2) = 32")
        case False
        then have "hex_parse (drop i s) = None" unfolding d d2 by simp
        then show ?thesis using False True i i2 p l wf by (subst hex_loop.simps) auto
      next
        case sp: True
        have "hex_parse (drop i s) = map_option (Cons ?v) (hex_parse (drop (i + 3) s))"
          unfolding d d2 using True sp by simp
        moreover from IH [where i = "i + 3" and bs = "bs @ [?v]" and h = ?h] P(1) Suc l obtain h' b where
          "hex_loop put_char (str_buf s) (length s) p (i + 3) (length bs + 1) ?h = Some (hex_parse (drop (i + 3) s) \<noteq> None, h')"
          "load p h' = Some b" "\<forall>cs. hex_parse (drop (i + 3) s) = Some cs \<longrightarrow> b = map Some (bs @ [?v] @ cs)"
          "\<forall>q. q \<noteq> p \<longrightarrow> load q h' = load q h" "wf_heap ?h \<longrightarrow> wf_heap h'" by auto
        ultimately show ?thesis using True sp i i2 p wf by (subst hex_loop.simps) auto
      qed
    qed
  qed
qed simp

subsection \<open>The length checks\<close>

lemma length_sub:
  assumes "2 \<le> n" and "n < 2 ^ 31"
  shows "unat ((of_nat n - 2) mod 3 :: 64 word) = (n - 2) mod 3" and "unat ((of_nat n - 2) div 3 + 1 :: 64 word) = (n - 2) div 3 + 1"
proof -
  have "(of_nat n - 2 :: 64 word) = of_nat (n - 2)" using assms(1) by (simp add: of_nat_diff)
  moreover have "unat (of_nat (n - 2) :: 64 word) = n - 2" using assms(2) by (simp add: unat_of_nat)
  ultimately have s: "unat (of_nat n - 2 :: 64 word) = n - 2" by simp
  then show "unat ((of_nat n - 2) mod 3 :: 64 word) = (n - 2) mod 3" by (simp add: unat_mod_distrib)
  have "unat ((of_nat n - 2) div 3 :: 64 word) = (n - 2) div 3" using s by (simp add: unat_div_distrib)
  moreover have "(n - 2) div 3 + 1 < 2 ^ 64" using assms(2) by simp
  ultimately show "unat ((of_nat n - 2) div 3 + 1 :: 64 word) = (n - 2) div 3 + 1"
    by (simp add: unat_word_ariths)
qed

lemma of_nat_is_2: "n < 2 ^ 31 \<Longrightarrow> ((of_nat n :: 64 word) = 2) = (n = 2)"
  using unat_of_nat [of n, where 'a = 64] by (auto simp: word_unat_eq_iff)

text \<open>A text that passes the check has one character or is of the length of \<open>k\<close> bytes.\<close>

lemma length_check:
  assumes "n < 2 ^ 31" and "\<not> ((of_nat n :: 64 word) \<noteq> 2 \<and> ((of_nat n :: 64 word) - 2) mod 3 \<noteq> 0)"
  shows "n = 1 \<or> (\<exists>k > 0. n + 1 = 3 * k)"
proof (cases "n < 2")
  case True
  then have "n = 0 \<or> n = 1" by auto
  then show ?thesis
  proof
    assume "n = 0"
    with assms(2) show ?thesis by simp
  qed simp
next
  case False
  then have "(n - 2) mod 3 = 0" using assms length_sub(1) [of n] of_nat_is_2 [of n]
    by (cases "n = 2") (auto simp: unsigned_0)
  then obtain m where "n - 2 = 3 * m" by (auto simp: mod_eq_0_iff_dvd)
  then have "n + 1 = 3 * (m + 1)" using False by simp
  then show ?thesis by (intro disjI2 exI [of _ "m + 1"]) simp
qed

lemma length_passes:
  assumes "n < 2 ^ 31" and "n + 1 = 3 * k" and "0 < k"
  shows "\<not> ((of_nat n :: 64 word) \<noteq> 2 \<and> ((of_nat n :: 64 word) - 2) mod 3 \<noteq> 0)"
    and "(if (of_nat n :: 64 word) = 2 then 1 else ucast (((of_nat n :: 64 word) - 2) div 3 + 1) :: 32 word) = of_nat k"
    and "unat (scast (of_nat k :: 32 word) :: 64 word) = k"
proof -
  obtain j where j: "k = Suc j" using assms(3) by (cases k) auto
  then have "n = 3 * j + 2" using assms(2) by simp
  then have n: "2 \<le> n" "(n - 2) mod 3 = 0" "(n - 2) div 3 + 1 = k" and k: "k < 2 ^ 31" using assms(1) j by simp_all
  show "\<not> ((of_nat n :: 64 word) \<noteq> 2 \<and> ((of_nat n :: 64 word) - 2) mod 3 \<noteq> 0)"
    using length_sub(1) [OF n(1) assms(1)] n(2) by (simp add: unat_eq_0)
  have "unat (ucast ((of_nat n - 2) div 3 + 1 :: 64 word) :: 32 word) = k"
    using length_sub(2) [OF n(1) assms(1)] n(3) k by (simp add: unsigned_ucast_eq take_bit_eq_mod)
  then have u: "(ucast ((of_nat n - 2) div 3 + 1 :: 64 word) :: 32 word) = of_nat k" by (metis of_nat_unat ucast_id)
  show "(if (of_nat n :: 64 word) = 2 then 1 else ucast (((of_nat n :: 64 word) - 2) div 3 + 1) :: 32 word) = of_nat k"
    using u of_nat_is_2 [OF assms(1)] assms(2) by auto
  have "sint (of_nat k :: 32 word) = int k" using k by (simp add: signed_of_nat signed_take_bit_int_eq_self)
  then have "(scast (of_nat k :: 32 word) :: 64 word) = of_nat k" by (metis of_int_of_nat_eq of_int_sint)
  then show "unat (scast (of_nat k :: 32 word) :: 64 word) = k" using k by (simp add: unat_of_nat)
qed

subsection \<open>The converters\<close>

lemma hex_parse_short: "length s \<le> 1 \<Longrightarrow> hex_parse s = None"
  by (cases s; cases "tl s") auto

text \<open>A single character is taken for a text of the greatest length and ends at \<open>error\<close>.\<close>

lemma hex_loop_single: "length s = 1 \<Longrightarrow> hex_loop put (str_buf s) 1 p 0 0 h = Some (False, h)"
  by (subst hex_loop.simps) (auto simp: length_Suc_conv)

lemma free_again:
  assumes "load p h' = Some b" and "load p h = None" and "\<forall>q. q \<noteq> p \<longrightarrow> load q h' = load q h"
  shows "\<exists>h''. free p h' = Some h'' \<and> (\<forall>q. load q h'' = load q h)"
  using assms free_Some [OF assms(1)] load_Some_not_NULL [OF assms(1)] by (auto simp: load_def)

lemma convert_unfold:
  assumes "0 \<notin> set s" and "length s < 2 ^ 31" and "wf_heap h" and "\<not> alloc_fails h" and "length s + 1 = 3 * k" and "0 < k"
  obtains h1 where "load (brk h) h1 = Some (uninit k)" and "load (brk h) h = None"
    and "\<forall>q. q \<noteq> brk h \<longrightarrow> load q h1 = load q h" and "wf_heap h1"
    and "convert put (Some (str_buf s)) h = do {
      (ok, h2) \<leftarrow> hex_loop put (str_buf s) (length s) (brk h) 0 0 h1;
      if ok then Some ((0, Some (brk h, of_nat k)), h2)
      else do { h2 \<leftarrow> free (brk h) h2; Some ((-1, None), h2) } }"
proof -
  define h1 where "h1 = snd (malloc (uninit k :: cbuf) h)"
  have m: "malloc (uninit k) h = (brk h, h1)" using malloc_succeeds [OF assms(4)] by (simp add: h1_def)
  have p: "brk h \<noteq> NULL" "load (brk h) h = None" using wf_heap_brk_pos [OF assms(3)] wf_heap_fresh [OF assms(3)] by auto
  have l: "load q h1 = (if q = brk h then Some (uninit k) else load q h)" for q
    using p malloc_succeeds [OF assms(4)] by (simp add: h1_def load_def)
  note L = length_passes [OF assms(2,5,6)]
  show ?thesis
  proof (rule that [of h1])
    show "wf_heap h1" by (rule wf_heap_malloc [OF assms(3) m])
    show "convert put (Some (str_buf s)) h = do {
      (ok, h2) \<leftarrow> hex_loop put (str_buf s) (length s) (brk h) 0 0 h1;
      if ok then Some ((0, Some (brk h, of_nat k)), h2)
      else do { h2 \<leftarrow> free (brk h) h2; Some ((-1, None), h2) } }"
      unfolding convert_def option.case Let_def cstring_str_buf [OF assms(1)] bind.bind_lunit L(2) L(3)
      using L(1) p m by auto
  qed (use l p in auto)
qed

lemma hexstring_ok:
  assumes "0 \<notin> set s" and "length s < 2 ^ 31" and "wf_heap h"
  shows "\<exists>h'. wf_heap h' \<and> (case hex_parse s of
      Some bs \<Rightarrow>
        if alloc_fails h then hexstring_to_bytearray (Some (str_buf s)) h = Some ((-1, None), h') \<and> (\<forall>q. load q h' = load q h)
        else hexstring_to_bytearray (Some (str_buf s)) h = Some ((0, Some (brk h, of_nat (length bs))), h') \<and>
          load (brk h) h' = Some (map Some bs) \<and> load (brk h) h = None \<and> (\<forall>q. q \<noteq> brk h \<longrightarrow> load q h' = load q h)
    | None \<Rightarrow> hexstring_to_bytearray (Some (str_buf s)) h = Some ((-1, None), h') \<and> (\<forall>q. load q h' = load q h))"
proof (cases "(of_nat (length s) :: 64 word) \<noteq> 2 \<and> ((of_nat (length s) :: 64 word) - 2) mod 3 \<noteq> 0")
  case True
  have "hex_parse s = None"
  proof (rule ccontr)
    assume "hex_parse s \<noteq> None"
    then obtain bs where "hex_parse s = Some bs" by blast
    then have "length s + 1 = 3 * length bs" by (rule hex_parse_length)
    with length_passes(1) [OF assms(2) this] True show False by (cases bs) auto
  qed
  with True assms show ?thesis by (intro exI [of _ h]) (simp add: hexstring_to_bytearray_def convert_def)
next
  case False
  note checked = this
  consider "alloc_fails h" | (one) "\<not> alloc_fails h" "length s = 1" | (more) k where "\<not> alloc_fails h" "0 < k" "length s + 1 = 3 * k"
    using length_check [OF assms(2) False] by blast
  then show ?thesis
  proof cases
    case 1
    let ?h = "h\<lparr>oom := tl (oom h)\<rparr>"
    have "hexstring_to_bytearray (Some (str_buf s)) h = Some ((-1, None), ?h)"
      using checked 1 assms(1) by (auto simp: hexstring_to_bytearray_def convert_def malloc_alloc_fails Let_def)
    moreover have "wf_heap ?h" using assms(3) by (simp add: wf_heap_def)
    ultimately show ?thesis using 1 by (intro exI [of _ ?h]) (auto split: option.split)
  next
    case one
    define b where "b = uninit 1431655766"
    define h1 where "h1 = snd (malloc b h)"
    have m: "malloc b h = (brk h, h1)" using malloc_succeeds [OF one(1)] by (simp add: h1_def)
    have p: "brk h \<noteq> NULL" "load (brk h) h = None" using wf_heap_brk_pos [OF assms(3)] wf_heap_fresh [OF assms(3)] by auto
    have l: "load q h1 = (if q = brk h then Some b else load q h)" for q
      using p malloc_succeeds [OF one(1)] by (simp add: h1_def load_def)
    from free_again [of "brk h" h1 b h] l p(2) obtain h2 where h2: "free (brk h) h1 = Some h2" "\<forall>q. load q h2 = load q h"
      by auto
    have "hexstring_to_bytearray (Some (str_buf s)) h = Some ((-1, None), h2)"
      using p m h2(1) hex_loop_single [OF one(2), of put_char "brk h" h1] one(2) assms(1)
      by (simp add: hexstring_to_bytearray_def convert_def Let_def b_def)
    moreover have "wf_heap h2"
      using wf_heap_malloc [OF assms(3) m] h2 assms(3) l by (auto simp: free_def wf_heap_def split: if_splits)
    ultimately show ?thesis using h2(2) hex_parse_short [of s] one(2) by (intro exI [of _ h2]) simp
  next
    case more
    from convert_unfold [OF assms more(1,3,2), of put_char] obtain h1 where
      h1: "load (brk h) h1 = Some (uninit k)" "load (brk h) h = None" "\<forall>q. q \<noteq> brk h \<longrightarrow> load q h1 = load q h" "wf_heap h1"
        and c: "convert put_char (Some (str_buf s)) h = do {
      (ok, h2) \<leftarrow> hex_loop put_char (str_buf s) (length s) (brk h) 0 0 h1;
      if ok then Some ((0, Some (brk h, of_nat k)), h2)
      else do { h2 \<leftarrow> free (brk h) h2; Some ((-1, None), h2) } }" by blast
    from hex_loop_ok [of s 0 k "brk h" h1 "[]"] more(2,3) h1 obtain h2 b where
      h2: "hex_loop put_char (str_buf s) (length s) (brk h) 0 0 h1 = Some (hex_parse s \<noteq> None, h2)"
        "load (brk h) h2 = Some b" "\<forall>cs. hex_parse s = Some cs \<longrightarrow> b = map Some cs"
        "\<forall>q. q \<noteq> brk h \<longrightarrow> load q h2 = load q h" "wf_heap h2" by auto
    show ?thesis
    proof (cases "hex_parse s")
      case None
      from free_again [OF h2(2) h1(2) h2(4)] obtain h3 where h3: "free (brk h) h2 = Some h3" "\<forall>q. load q h3 = load q h" by blast
      moreover have "wf_heap h3" using h2(5) h3(1) by (auto simp: free_def wf_heap_def load_def split: if_splits)
      ultimately show ?thesis using c h2(1) None by (intro exI [of _ h3]) (simp add: hexstring_to_bytearray_def)
    next
      case (Some bs)
      then have "length bs = k" using hex_parse_length [OF Some] more(3) by simp
      then show ?thesis using c h2 Some h1(2) more(1) by (intro exI [of _ h2]) (simp add: hexstring_to_bytearray_def)
    qed
  qed
qed

text \<open>The second file: a text that is accepted makes the last store leave the block.\<close>

lemma hex_loop_overflow:
  assumes "hex_parse (drop i s) = Some cs" and "load p h = Some b" and "length b = off + length cs"
  shows "hex_loop put_uint (str_buf s) (length s) p i off h = None"
  using assms
proof (induction cs arbitrary: i b off h)
  case Nil
  then show ?case using hex_parse_length [OF Nil.prems(1)] by simp
next
  case (Cons c cs)
  have len: "length (drop i s) + 1 = 3 * length (c # cs)" by (rule hex_parse_length [OF Cons.prems(1)])
  then have i: "i < length s" "Suc i < length s" by simp_all
  have d: "drop i s = s ! i # s ! Suc i # drop (i + 2) s" using i by (simp add: Cons_nth_drop_Suc [symmetric])
  have dig: "isxdigit (s ! i)" "isxdigit (s ! Suc i)"
    using Cons.prems(1) unfolding d by (cases "drop (i + 2) s"; simp split: if_splits)+
  define v where "v = sscanf_2x (s ! i) (s ! Suc i)"
  show ?case
  proof (cases "put_uint p off v h")
    case None
    then show ?thesis using i dig by (subst hex_loop.simps) (simp add: v_def)
  next
    case (Some h1)
    then obtain b1 where b1: "pokes b off [ucast v, ucast (drop_bit 8 v), ucast (drop_bit 16 v), ucast (drop_bit 24 v)] = Some b1"
      "store p b1 h = Some h1" using Cons.prems(2) by (auto simp: put_uint_def bind_eq_Some_conv)
    have "\<not> length b < off + 4"
    proof
      assume "length b < off + 4"
      then have "pokes b off [ucast v, ucast (drop_bit 8 v), ucast (drop_bit 16 v), ucast (drop_bit 24 v)] = None"
        by (intro pokes_None) simp_all
      with b1(1) show False by simp
    qed
    then have "cs \<noteq> []" using Cons.prems(3) by auto
    then have i2: "i + 2 < length s" using len by (cases cs) auto
    then have d2: "drop (i + 2) s = s ! (i + 2) # drop (i + 3) s" by (simp add: Cons_nth_drop_Suc numeral_3_eq_3)
    have sp: "s ! (i + 2) = 32" "hex_parse (drop (i + 3) s) = Some cs"
      using Cons.prems(1) dig unfolding d d2 by (auto split: if_splits)
    have "load p h1 = Some b1" "length b1 = (off + 1) + length cs"
      using load_store [OF b1(2)] length_pokes [OF b1(1)] Cons.prems(3) by simp_all
    from Cons.IH [OF sp(2) this] show ?thesis using Some i i2 dig sp(1) by (subst hex_loop.simps) (simp add: v_def)
  qed
qed

lemma hexstring2_overflow:
  assumes "0 \<notin> set s" and "length s < 2 ^ 31" and "wf_heap h" and "\<not> alloc_fails h" and "hex_parse s = Some bs"
  shows "hexstring_to_bytearray2 (Some (str_buf s)) h = None"
proof -
  have k: "length s + 1 = 3 * length bs" by (rule hex_parse_length [OF assms(5)])
  then have "0 < length bs" by (cases bs) auto
  from convert_unfold [OF assms(1-4) k this, of put_uint] obtain h1 where
    "load (brk h) h1 = Some (uninit (length bs))"
    "convert put_uint (Some (str_buf s)) h = do {
      (ok, h2) \<leftarrow> hex_loop put_uint (str_buf s) (length s) (brk h) 0 0 h1;
      if ok then Some ((0, Some (brk h, of_nat (length bs))), h2)
      else do { h2 \<leftarrow> free (brk h) h2; Some ((-1, None), h2) } }" by blast
  moreover from this have "hex_loop put_uint (str_buf s) (length s) (brk h) 0 0 h1 = None"
    using hex_loop_overflow [of 0 s bs] assms(5) by simp
  ultimately show ?thesis by (simp add: hexstring_to_bytearray2_def)
qed

subsection \<open>The output\<close>

definition upper_case :: "byte \<Rightarrow> byte" where
  "upper_case c = (if 97 \<le> c \<and> c \<le> 122 then c - 32 else c)"

lemma digit_cases:
  assumes "isxdigit c"
  shows "digit_value c < 16 \<and> upper_digit (digit_value c) = upper_case c"
proof -
  from assms have "unat c \<in> {48..57} \<union> {65..70} \<union> {97..102}" by (auto simp: isxdigit_def word_le_nat_alt)
  moreover have "c = of_nat (unat c)" by simp
  moreover have "\<forall>n \<in> {48..57} \<union> {65..70} \<union> {97..102}. digit_value (of_nat n) < 16 \<and>
      upper_digit (digit_value (of_nat n)) = upper_case (of_nat n)"
    by (simp add: numeral_eq_Suc atLeastAtMostSuc_conv) (simp add: digit_value_def upper_digit_def upper_case_def)
  ultimately show ?thesis by metis
qed

lemma printf_scanf:
  assumes "isxdigit a" and "isxdigit b"
  shows "printf_02X (ucast (sscanf_2x a b)) = [upper_case a, upper_case b]"
proof -
  have d: "digit_value a < 16" "digit_value b < 16" using digit_cases assms by blast+
  then have "unat (sscanf_2x a b) = 16 * digit_value a + digit_value b"
    unfolding sscanf_2x_def unat_of_nat by simp
  with d have "unat (ucast (sscanf_2x a b) :: byte) = 16 * digit_value a + digit_value b"
    by (simp add: unsigned_ucast_eq take_bit_eq_mod)
  with d digit_cases [OF assms(1)] digit_cases [OF assms(2)] show ?thesis by (simp add: printf_02X_def)
qed

lemma print_bytes_parse:
  "hex_parse s = Some bs \<Longrightarrow>
   print_bytes bs c = (map upper_case (filter (\<lambda>x. x \<noteq> 32) s), c + sum_list bs)"
proof (induction s arbitrary: bs c rule: hex_parse.induct)
  case (1 a b)
  then show ?case using printf_scanf [of a b] not_digits by (auto split: if_splits)
next
  case (2 a b x xs)
  then obtain bs' where "isxdigit a" "isxdigit b" "x = 32" "hex_parse xs = Some bs'" "bs = ucast (sscanf_2x a b) # bs'"
    by (auto split: if_splits)
  moreover from this have "a \<noteq> 32" "b \<noteq> 32" using not_digits by auto
  ultimately show ?case using 2 printf_scanf [of a b] by (auto simp: ac_simps)
qed auto

section \<open>The properties\<close>

text \<open>What the two hexadecimal converters do.\<close>

text \<open>The text \<open>1F a0\<close>.\<close>

definition ex_hex :: "byte list" where
  "ex_hex = [49, 70, 32, 97, 48]"

lemma ex_hex_parse: "hex_parse ex_hex = Some [0x1F, 0xA0]"
  by (simp add: ex_hex_def isxdigit_def sscanf_2x_def digit_value_def)

lemma no_failure: "alloc_fails empty_heap = False" "brk empty_heap = 1"
  by (simp_all add: alloc_fails_def empty_heap_def)

text \<open>C40: \<open>hexstring_to_bytearray\<close> of the first file accepts exactly the texts of pairs of hexadecimal digits
  separated by single spaces: for these it returns 0, a new block of exactly their bytes and its
  length, for all others, and when the allocation fails, -1 with every block released; it reads
  inside the text, writes inside the block and returns for every text.\<close>

theorem hexstring_decodes:
  assumes "0 \<notin> set s" and "length s < 2 ^ 31" and "wf_heap h"
  shows "\<exists>h'. wf_heap h' \<and> (case hex_parse s of
      Some bs \<Rightarrow>
        if alloc_fails h then hexstring_to_bytearray (Some (str_buf s)) h = Some ((-1, None), h') \<and> (\<forall>q. load q h' = load q h)
        else hexstring_to_bytearray (Some (str_buf s)) h = Some ((0, Some (brk h, of_nat (length bs))), h') \<and>
          load (brk h) h' = Some (map Some bs) \<and> load (brk h) h = None \<and> (\<forall>q. q \<noteq> brk h \<longrightarrow> load q h' = load q h)
    | None \<Rightarrow> hexstring_to_bytearray (Some (str_buf s)) h = Some ((-1, None), h') \<and> (\<forall>q. load q h' = load q h))"
  using assms by (rule hexstring_ok)

theorem hexstring_decodes_witness:
  "\<exists>h'. hexstring_to_bytearray (Some (str_buf ex_hex)) empty_heap = Some ((0, Some (1, 2)), h') \<and>
    load 1 h' = Some [Some 0x1F, Some 0xA0]"
proof -
  have "0 \<notin> set ex_hex" "length ex_hex < 2 ^ 31" by (simp_all add: ex_hex_def)
  from hexstring_decodes [OF this wf_empty_heap] show ?thesis
    unfolding ex_hex_parse option.case no_failure if_False by auto
qed

text \<open>The bytes of an accepted text, printed by \<open>print_as_hexstring\<close>, are the digits of the text in upper case
  without the spaces, followed by the sum of the bytes modulo 256.\<close>

theorem hexstring_print_roundtrip:
  assumes "0 \<notin> set s" and "length s < 2 ^ 31" and "wf_heap h"
    and "hexstring_to_bytearray (Some (str_buf s)) h = Some ((0, Some (p, n)), h')"
  shows "\<exists>bs. load p h' = Some (map Some bs) \<and> unat n = length bs \<and>
    print_as_hexstring bs = map upper_case (filter (\<lambda>c. c \<noteq> 32) s) @
      [10, 99, 104, 101, 99, 107, 32, 115, 117, 109, 58, 91, 48, 120] @ printf_02X (sum_list bs) @ [93, 10]"
proof (cases "hex_parse s")
  case None
  then show ?thesis using hexstring_ok [OF assms(1-3)] assms(4) by auto
next
  case (Some bs)
  have "length s + 1 = 3 * length bs" by (rule hex_parse_length [OF Some])
  then have "unat (of_nat (length bs) :: 32 word) = length bs" using assms(2) by (simp add: unat_of_nat)
  moreover have "load p h' = Some (map Some bs)" "n = of_nat (length bs)"
    using hexstring_ok [OF assms(1-3)] assms(4) Some by (auto split: if_splits)
  ultimately show ?thesis using print_bytes_parse [OF Some, of 0] by (auto simp: print_as_hexstring_def)
qed

theorem hexstring_print_roundtrip_witness:
  "\<exists>p n h'. hexstring_to_bytearray (Some (str_buf ex_hex)) empty_heap = Some ((0, Some (p, n)), h') \<and>
    (\<exists>bs. load p h' = Some (map Some bs) \<and> take 4 (print_as_hexstring bs) = [49, 70, 65, 48])"
proof -
  have s: "0 \<notin> set ex_hex" "length ex_hex < 2 ^ 31" by (simp_all add: ex_hex_def)
  obtain p n h' where r: "hexstring_to_bytearray (Some (str_buf ex_hex)) empty_heap = Some ((0, Some (p, n)), h')"
    using hexstring_ok [OF s wf_empty_heap] unfolding ex_hex_parse option.case no_failure if_False by auto
  from hexstring_print_roundtrip [OF s wf_empty_heap r] obtain bs where "load p h' = Some (map Some bs)"
    "print_as_hexstring bs = map upper_case (filter (\<lambda>c. c \<noteq> 32) ex_hex) @
      [10, 99, 104, 101, 99, 107, 32, 115, 117, 109, 58, 91, 48, 120] @ printf_02X (sum_list bs) @ [93, 10]" by blast
  with r show ?thesis by (auto simp: ex_hex_def upper_case_def)
qed

text \<open>The second file lets \<open>sscanf\<close> store an \<open>unsigned int\<close> for every byte: for every text of pairs of digits
  a store leaves the block, which has one byte for each pair.\<close>

theorem hexstring2_overflows:
  assumes "0 \<notin> set s" and "length s < 2 ^ 31" and "wf_heap h" and "\<not> alloc_fails h" and "hex_parse s = Some bs"
  shows "hexstring_to_bytearray2 (Some (str_buf s)) h = None"
  using assms by (rule hexstring2_overflow)

theorem hexstring2_overflows_witness: "hexstring_to_bytearray2 (Some (str_buf ex_hex)) empty_heap = None"
proof -
  have "0 \<notin> set ex_hex" "length ex_hex < 2 ^ 31" by (simp_all add: ex_hex_def)
  from hexstring2_overflows [OF this wf_empty_heap _ ex_hex_parse] show ?thesis by (simp add: no_failure)
qed

end
