(* ===== verification/TimeHeap.thy ===== *)
theory TimeHeap
  imports Prelude
begin

text \<open>
  The timer heap of \<open>timing_heap.h\<close>: a binary heap of pointers to timers, ordered by the absolute time
  at which they expire.  The timers live on an explicit heap, the array is a list of its capacity;
  an access outside the array or to a timer that does not exist is undefined.  Sizes are numbers,
  so a capacity of \<open>2^30\<close> and more, where \<open>2 * capacity\<close> would overflow, is outside the model.
  Callbacks are recorded with their argument; they do not touch the timers.
\<close>

subsection \<open>Data\<close>

record heap_timer =
  expire :: int
  cb_func :: nat
  user_data :: addr

type_synonym timer_mem = "heap_timer heap"

record time_heap =
  array :: "addr list"
  capacity :: nat
  cur_size :: nat

datatype exn = Exception

definition get :: "addr list \<Rightarrow> nat \<Rightarrow> addr option" where
  "get a i = (if i < length a then Some (a ! i) else None)"

definition put :: "addr list \<Rightarrow> nat \<Rightarrow> addr \<Rightarrow> addr list option" where
  "put a i p = (if i < length a then Some (a[i := p]) else None)"

definition expire_of :: "addr \<Rightarrow> timer_mem \<Rightarrow> int option" where
  "expire_of p m = map_option expire (load p m)"

subsection \<open>Percolation\<close>

text \<open>The loop of \<open>percolate_down\<close>; the result is the final hole and the array.\<close>

function percolate_loop :: "nat \<Rightarrow> nat \<Rightarrow> addr \<Rightarrow> addr list \<Rightarrow> timer_mem \<Rightarrow> (nat \<times> addr list) option" where
  "percolate_loop n hole temp a m =
     (if int (hole * 2 + 1) \<le> int n - 1 then do {
        let child = hole * 2 + 1;
        child \<leftarrow> (if int child < int n - 1 then do {
            q \<leftarrow> get a (child + 1);
            eq \<leftarrow> expire_of q m;
            p \<leftarrow> get a child;
            ep \<leftarrow> expire_of p m;
            Some (if eq < ep then child + 1 else child) }
          else Some child);
        p \<leftarrow> get a child;
        ep \<leftarrow> expire_of p m;
        et \<leftarrow> expire_of temp m;
        if ep < et then do {
          a \<leftarrow> put a hole p;
          if hole < child then percolate_loop n child temp a m else None }
        else Some (hole, a) }
      else Some (hole, a))"
  by auto
termination by (relation "measure (\<lambda>(n, hole, _). n - hole)") auto

definition percolate_down :: "nat \<Rightarrow> nat \<Rightarrow> addr list \<Rightarrow> timer_mem \<Rightarrow> addr list option" where
  "percolate_down n hole a m = do {
     temp \<leftarrow> get a hole;
     (hole, a) \<leftarrow> percolate_loop n hole temp a m;
     put a hole temp }"

text \<open>The loop of \<open>add_timer\<close>.\<close>

fun sift_up :: "nat \<Rightarrow> addr \<Rightarrow> addr list \<Rightarrow> timer_mem \<Rightarrow> (nat \<times> addr list) option" where
  "sift_up hole timer a m =
     (if 0 < hole then do {
        let parent = (hole - 1) div 2;
        p \<leftarrow> get a parent;
        ep \<leftarrow> expire_of p m;
        et \<leftarrow> expire_of timer m;
        if ep \<le> et then Some (hole, a)
        else do { a \<leftarrow> put a hole p; sift_up parent timer a m } }
      else Some (hole, a))"

declare percolate_loop.simps [simp del] sift_up.simps [simp del]

subsection \<open>The operations\<close>

definition time_heap_init :: "nat \<Rightarrow> time_heap" where
  "time_heap_init cap = \<lparr>array = replicate cap NULL, capacity = cap, cur_size = 0\<rparr>"

fun copy_timers :: "addr list \<Rightarrow> nat \<Rightarrow> nat \<Rightarrow> addr list \<Rightarrow> addr list option" where
  "copy_timers src i 0 a = Some a"
| "copy_timers src i (Suc k) a = do { p \<leftarrow> get src i; a \<leftarrow> put a i p; copy_timers src (Suc i) k a }"

fun heapify :: "nat \<Rightarrow> nat \<Rightarrow> addr list \<Rightarrow> timer_mem \<Rightarrow> addr list option" where
  "heapify n 0 a m = percolate_down n 0 a m"
| "heapify n (Suc i) a m = do { a \<leftarrow> percolate_down n (Suc i) a m; heapify n i a m }"

definition time_heap_from :: "addr list \<Rightarrow> nat \<Rightarrow> nat \<Rightarrow> timer_mem \<Rightarrow> (exn + time_heap) option" where
  "time_heap_from init_array sz cap m =
     (if cap < sz then Some (Inl Exception)
      else do {
        let a = replicate cap NULL;
        a \<leftarrow> (if sz \<noteq> 0 then do { a \<leftarrow> copy_timers init_array 0 sz a; heapify sz ((sz - 1) div 2) a m } else Some a);
        Some (Inr \<lparr>array = a, capacity = cap, cur_size = sz\<rparr>) })"

definition heap_resize :: "time_heap \<Rightarrow> time_heap option" where
  "heap_resize s = do {
     temp \<leftarrow> copy_timers (array s) 0 (cur_size s) (replicate (2 * capacity s) NULL);
     Some (s\<lparr>array := temp, capacity := 2 * capacity s\<rparr>) }"

definition heap_add_timer :: "addr \<Rightarrow> time_heap \<Rightarrow> timer_mem \<Rightarrow> time_heap option" where
  "heap_add_timer timer s m =
     (if timer = NULL then Some s
      else do {
        s \<leftarrow> (if capacity s \<le> cur_size s then heap_resize s else Some s);
        let hole = cur_size s;
        (hole, a) \<leftarrow> sift_up hole timer (array s) m;
        a \<leftarrow> put a hole timer;
        Some (s\<lparr>array := a, cur_size := cur_size s + 1\<rparr>) })"

definition heap_del_timer :: "addr \<Rightarrow> timer_mem \<Rightarrow> timer_mem option" where
  "heap_del_timer timer m =
     (if timer = NULL then Some m
      else do { t \<leftarrow> load timer m; store timer (t\<lparr>cb_func := NULL\<rparr>) m })"

definition heap_top :: "time_heap \<Rightarrow> addr option" where
  "heap_top s = (if cur_size s = 0 then Some NULL else get (array s) 0)"

definition pop_timer :: "time_heap \<Rightarrow> timer_mem \<Rightarrow> (time_heap \<times> timer_mem) option" where
  "pop_timer s m =
     (if cur_size s = 0 then Some (s, m)
      else do {
        p \<leftarrow> get (array s) 0;
        if p \<noteq> NULL then do {
          m \<leftarrow> free p m;
          let n = cur_size s - 1;
          q \<leftarrow> get (array s) n;
          a \<leftarrow> put (array s) 0 q;
          a \<leftarrow> percolate_down n 0 a m;
          Some (s\<lparr>array := a, cur_size := n\<rparr>, m) }
        else Some (s, m) })"

type_synonym calls = "(nat \<times> addr) list"

partial_function (option) heap_tick_loop ::
  "int \<Rightarrow> addr \<Rightarrow> time_heap \<Rightarrow> timer_mem \<Rightarrow> (calls \<times> time_heap \<times> timer_mem) option" where
  [code]: "heap_tick_loop cur tmp s m =
     (if cur_size s = 0 then Some ([], s, m)
      else if tmp = NULL then Some ([], s, m)
      else do {
        t \<leftarrow> load tmp m;
        if cur < expire t then Some ([], s, m)
        else do {
          p \<leftarrow> get (array s) 0;
          t \<leftarrow> load p m;
          (s, m) \<leftarrow> pop_timer s m;
          tmp \<leftarrow> get (array s) 0;
          (calls, s, m) \<leftarrow> heap_tick_loop cur tmp s m;
          Some ((if cb_func t \<noteq> NULL then [(cb_func t, user_data t)] else []) @ calls, s, m) } })"

definition heap_tick :: "int \<Rightarrow> time_heap \<Rightarrow> timer_mem \<Rightarrow> (calls \<times> time_heap \<times> timer_mem) option" where
  "heap_tick cur s m = do { tmp \<leftarrow> get (array s) 0; heap_tick_loop cur tmp s m }"

text \<open>The destructor.\<close>

fun delete_timers :: "addr list \<Rightarrow> nat \<Rightarrow> nat \<Rightarrow> timer_mem \<Rightarrow> timer_mem option" where
  "delete_timers a i 0 m = Some m"
| "delete_timers a i (Suc k) m = do { p \<leftarrow> get a i; m \<leftarrow> free p m; delete_timers a (Suc i) k m }"

definition time_heap_delete :: "time_heap \<Rightarrow> timer_mem \<Rightarrow> timer_mem option" where
  "time_heap_delete s m = delete_timers (array s) 0 (cur_size s) m"

end
