(* ===== verification/TimerStore.thy ===== *)
theory TimerStore
  imports Prelude "HOL-Library.Multiset"
begin

text \<open>
  The contract of a collection of timers that fires what is due in the order of the times, for the
  binary heap of \<open>timing_heap.h\<close> and the sorted list of \<open>lst_timer.h\<close>: \<open>rep s M\<close> says that the state
  \<open>s\<close> holds the timers \<open>M\<close>, pairs of the absolute time and the address; \<open>fresh s x\<close> that the timer
  \<open>x\<close> exists and is not stored; \<open>fire t s\<close> takes one timer out that is due at \<open>t\<close>.
\<close>

type_synonym due = "int \<times> addr"

partial_function (option) fire_all :: "('s \<Rightarrow> (due option \<times> 's) option) \<Rightarrow> 's \<Rightarrow> (due list \<times> 's) option" where
  "fire_all fire s = do {
     (r, s) \<leftarrow> fire s;
     (case r of
        None \<Rightarrow> Some ([], s)
      | Some x \<Rightarrow> do { (xs, s) \<leftarrow> fire_all fire s; Some (x # xs, s) }) }"

fun add_all :: "('s \<Rightarrow> due \<Rightarrow> 's option) \<Rightarrow> due list \<Rightarrow> 's \<Rightarrow> 's option" where
  "add_all add [] s = Some s"
| "add_all add (x # xs) s = do { s \<leftarrow> add s x; add_all add xs s }"

locale timer_store =
  fixes add :: "'s \<Rightarrow> due \<Rightarrow> 's option"
    and fire :: "int \<Rightarrow> 's \<Rightarrow> (due option \<times> 's) option"
    and rep :: "'s \<Rightarrow> due multiset \<Rightarrow> bool"
    and fresh :: "'s \<Rightarrow> due \<Rightarrow> bool"
  assumes add: "rep s M \<Longrightarrow> fresh s x \<Longrightarrow>
      \<exists>s'. add s x = Some s' \<and> rep s' (add_mset x M) \<and> (\<forall>y. snd y \<noteq> snd x \<longrightarrow> fresh s y \<longrightarrow> fresh s' y)"
    and fire_none: "rep s M \<Longrightarrow> \<forall>x \<in># M. t < fst x \<Longrightarrow> fire t s = Some (None, s)"
    and fire_some: "rep s M \<Longrightarrow> x \<in># M \<Longrightarrow> fst x \<le> t \<Longrightarrow>
      \<exists>y s'. fire t s = Some (Some y, s') \<and> y \<in># M \<and> (\<forall>z \<in># M. fst y \<le> fst z) \<and> rep s' (M - {#y#})"
begin

lemma fire_all_due:
  "rep s M \<Longrightarrow> \<exists>xs s'. fire_all (fire t) s = Some (xs, s') \<and> mset xs = filter_mset (\<lambda>x. fst x \<le> t) M \<and>
     sorted (map fst xs) \<and> rep s' (filter_mset (\<lambda>x. t < fst x) M)"
proof (induction "size M" arbitrary: s M)
  case 0
  then have "fire t s = Some (None, s)" using fire_none by simp
  then show ?case using 0 by (subst fire_all.simps) simp
next
  case (Suc n)
  show ?case
  proof (cases "\<forall>x \<in># M. t < fst x")
    case True
    then have "fire t s = Some (None, s)" using fire_none Suc.prems by simp
    moreover have "filter_mset (\<lambda>x. fst x \<le> t) M = {#}" "filter_mset (\<lambda>x. t < fst x) M = M"
      using True by (auto simp: filter_mset_eq_conv not_le)
    ultimately show ?thesis using Suc.prems by (subst fire_all.simps) simp
  next
    case False
    then obtain x where "x \<in># M" "fst x \<le> t" by (auto simp: not_less)
    from fire_some [OF Suc.prems this] obtain y s1 where
      y: "fire t s = Some (Some y, s1)" "y \<in># M" "\<forall>z \<in># M. fst y \<le> fst z" "rep s1 (M - {#y#})" by blast
    from \<open>x \<in># M\<close> \<open>fst x \<le> t\<close> y(3) have yt: "fst y \<le> t" by fastforce
    obtain N where N: "M = add_mset y N" using y(2) by (metis insert_DiffM)
    have "size N = n" using Suc.hyps(2) N by simp
    from Suc.hyps(1) [of N s1] this y(4) N obtain xs s' where
      xs: "fire_all (fire t) s1 = Some (xs, s')" "mset xs = filter_mset (\<lambda>x. fst x \<le> t) N" "sorted (map fst xs)"
        "rep s' (filter_mset (\<lambda>x. t < fst x) N)" by auto
    have "set xs = set_mset (filter_mset (\<lambda>x. fst x \<le> t) N)" using xs(2) by (metis set_mset_mset)
    then have "\<forall>z \<in> set xs. fst y \<le> fst z" using y(3) N by simp
    then show ?thesis using y(1) xs N yt by (subst fire_all.simps) auto
  qed
qed

lemma add_all_rep:
  "rep s M \<Longrightarrow> \<forall>x \<in> set xs. fresh s x \<Longrightarrow> distinct (map snd xs) \<Longrightarrow>
   \<exists>s'. add_all add xs s = Some s' \<and> rep s' (M + mset xs)"
proof (induction xs arbitrary: s M)
  case (Cons x xs)
  from add [OF Cons.prems(1), of x] Cons.prems(2) obtain s1 where
    s1: "add s x = Some s1" "rep s1 (add_mset x M)" "\<forall>y. snd y \<noteq> snd x \<longrightarrow> fresh s y \<longrightarrow> fresh s1 y" by auto
  have "\<forall>y \<in> set xs. fresh s1 y" using s1(3) Cons.prems(2,3) by (metis distinct.simps(2) image_eqI list.set_intros(2) list.simps(9) set_map)
  from Cons.IH [OF s1(2) this] Cons.prems(3) s1(1) show ?case by auto
qed simp

text \<open>Whatever the order in which timers are added, the due ones fire in the order of their times and the others stay.\<close>

lemma add_then_fire:
  assumes "rep s {#}" and "\<forall>x \<in> set xs. fresh s x" and "distinct (map snd xs)"
  shows "\<exists>s1 s2 ys. add_all add xs s = Some s1 \<and> fire_all (fire t) s1 = Some (ys, s2) \<and>
    mset ys = mset (filter (\<lambda>x. fst x \<le> t) xs) \<and> sorted (map fst ys) \<and> rep s2 (mset (filter (\<lambda>x. t < fst x) xs))"
  using add_all_rep [OF assms] fire_all_due [where M = "mset xs" and t = t] by fastforce

end

end
