(* ===== verification/TimeHeapOk.thy ===== *)
theory TimeHeapOk
  imports TimeHeap TimerStore
begin

text \<open>
  The heap property of the timer heap, that both percolations restore it, and that the heap is a
  timer store.
\<close>

subsection \<open>The heap property\<close>

definition key :: "timer_mem \<Rightarrow> addr \<Rightarrow> int" where
  "key m p = expire (the (load p m))"

definition parent :: "nat \<Rightarrow> nat" where
  "parent i = (i - 1) div 2"

lemma parent_simps [simp]: "parent (q * 2 + 1) = q" "parent (q * 2 + 2) = q" "parent (Suc (q * 2)) = q" "parent (Suc (Suc (q * 2))) = q"
  by (simp_all add: parent_def)

lemma parent_less: "0 < i \<Longrightarrow> parent i < i"
  by (auto simp: parent_def)

definition heap_on :: "(addr \<Rightarrow> int) \<Rightarrow> addr list \<Rightarrow> nat \<Rightarrow> nat \<Rightarrow> bool" where
  "heap_on k a n j \<longleftrightarrow> (\<forall>i < n. 0 < i \<longrightarrow> j \<le> parent i \<longrightarrow> k (a ! parent i) \<le> k (a ! i))"

lemma expire_of_key: "load p m \<noteq> None \<Longrightarrow> expire_of p m = Some (key m p)"
  by (auto simp: expire_of_def key_def)

lemma heap_root_min: "heap_on k a n 0 \<Longrightarrow> i < n \<Longrightarrow> k (a ! 0) \<le> k (a ! i)"
proof (induction i rule: less_induct)
  case (less i)
  show ?case
  proof (cases "i = 0")
    case False
    then have "parent i < i" "parent i < n" using less.prems(2) parent_less [of i] by auto
    with less.IH [of "parent i"] less.prems have "k (a ! 0) \<le> k (a ! parent i)" by blast
    also have "\<dots> \<le> k (a ! i)" using less.prems False by (simp add: heap_on_def)
    finally show ?thesis .
  qed simp
qed

lemma child_cases: "0 < i \<Longrightarrow> parent i = q \<Longrightarrow> i = q * 2 + 1 \<or> i = q * 2 + 2"
  by (auto simp: parent_def)

lemma mset_move:
  assumes "i < n" and "j < n" and "n \<le> length a" and "i \<noteq> j"
  shows "mset (take n (a[i := a ! j, j := x])) = mset (take n (a[i := x]))"
proof -
  let ?b = "take n (a[i := x])"
  have "mset (?b[i := ?b ! j, j := ?b ! i]) = mset ?b" by (rule mset_swap) (use assms in auto)
  moreover have "?b[i := ?b ! j, j := ?b ! i] = take n (a[i := a ! j, j := x])"
    using assms by (simp add: take_update_swap nth_list_update)
  ultimately show ?thesis by simp
qed

definition holed :: "timer_mem \<Rightarrow> addr list \<Rightarrow> nat \<Rightarrow> nat \<Rightarrow> nat \<Rightarrow> bool" where
  "holed m a n j hole \<longleftrightarrow> hole < n \<and> n \<le> length a \<and> (\<forall>i < n. i \<noteq> hole \<longrightarrow> load (a ! i) m \<noteq> None) \<and>
     (\<forall>i < n. 0 < i \<longrightarrow> j \<le> parent i \<longrightarrow> i \<noteq> hole \<longrightarrow> parent i \<noteq> hole \<longrightarrow> key m (a ! parent i) \<le> key m (a ! i)) \<and>
     (0 < hole \<longrightarrow> j \<le> parent hole \<longrightarrow> (\<forall>c < n. 0 < c \<longrightarrow> parent c = hole \<longrightarrow> key m (a ! parent hole) \<le> key m (a ! c)))"

lemma holedD:
  assumes "holed m a n j hole"
  shows "hole < n" and "n \<le> length a" and "i < n \<Longrightarrow> i \<noteq> hole \<Longrightarrow> load (a ! i) m \<noteq> None"
    and "i < n \<Longrightarrow> 0 < i \<Longrightarrow> j \<le> parent i \<Longrightarrow> i \<noteq> hole \<Longrightarrow> parent i \<noteq> hole \<Longrightarrow> key m (a ! parent i) \<le> key m (a ! i)"
    and "j \<le> parent hole \<Longrightarrow> i < n \<Longrightarrow> 0 < i \<Longrightarrow> 0 < hole \<Longrightarrow> parent i = hole \<Longrightarrow> key m (a ! parent hole) \<le> key m (a ! i)"
  using assms by (auto simp: holed_def)

text \<open>When the value fits into the hole, putting it there restores the heap.\<close>

lemma fill_hole:
  assumes H: "holed m a n j hole" and up: "0 < hole \<Longrightarrow> j \<le> parent hole \<Longrightarrow> key m (a ! parent hole) \<le> key m t"
    and down: "\<And>c. c < n \<Longrightarrow> 0 < c \<Longrightarrow> parent c = hole \<Longrightarrow> key m t \<le> key m (a ! c)"
  shows "heap_on (key m) (a[hole := t]) n j"
  unfolding heap_on_def
proof (intro allI impI)
  fix i assume i: "i < n" "0 < i" "j \<le> parent i"
  have hl: "hole < length a" using holedD(1,2) [OF H] by simp
  consider "i = hole" | "parent i = hole" "i \<noteq> hole" | "parent i \<noteq> hole" "i \<noteq> hole" by blast
  then show "key m (a[hole := t] ! parent i) \<le> key m (a[hole := t] ! i)"
  proof cases
    case 1
    then show ?thesis using up i hl parent_less [OF i(2)] by simp
  next
    case 2
    then show ?thesis using down [OF i(1,2)] hl by simp
  next
    case 3
    then show ?thesis using holedD(4) [OF H i] by simp
  qed
qed

lemma percolate_loop_ok:
  assumes "holed m a n j hole" and "j \<le> hole" and "load temp m \<noteq> None"
    and "0 < hole \<longrightarrow> j \<le> parent hole \<longrightarrow> key m (a ! parent hole) \<le> key m temp"
  shows "\<exists>hole' a'. percolate_loop n hole temp a m = Some (hole', a') \<and> hole' < length a' \<and> length a' = length a \<and>
    heap_on (key m) (a'[hole' := temp]) n j \<and> mset (take n (a'[hole' := temp])) = mset (take n (a[hole := temp])) \<and>
    drop n (a'[hole' := temp]) = drop n a"
  using assms
proof (induction "n - hole" arbitrary: hole a rule: less_induct)
  case less
  note D = holedD [OF less.prems(1)]
  have H: "hole < n" "n \<le> length a" "hole < length a" using D(1,2) by auto
  have stop: ?case if "percolate_loop n hole temp a m = Some (hole, a)" "\<forall>c < n. 0 < c \<longrightarrow> parent c = hole \<longrightarrow> key m temp \<le> key m (a ! c)"
  proof (intro exI conjI)
    show "percolate_loop n hole temp a m = Some (hole, a)" by (rule that(1))
    show "heap_on (key m) (a[hole := temp]) n j" by (rule fill_hole [OF less.prems(1)]) (use less.prems(4) that(2) in auto)
  qed (use H in auto)
  show ?case
  proof (cases "hole * 2 + 1 < n")
    case False
    have "parent c \<noteq> hole" if "c < n" "0 < c" for c using child_cases [OF that(2), of hole] that(1) False by auto
    with False show ?thesis by (intro stop) (auto simp: percolate_loop.simps)
  next
    case True
    define c where "c = (if hole * 2 + 2 < n \<and> key m (a ! (hole * 2 + 2)) < key m (a ! (hole * 2 + 1)) then hole * 2 + 2 else hole * 2 + 1)"
    have c: "c < n" "parent c = hole" "hole < c" "0 < c" using True by (auto simp: c_def)
    have le: "key m (a ! c) \<le> key m (a ! d)" if "d < n" "0 < d" "parent d = hole" for d
      using child_cases [OF that(2,3)] that(1) by (auto simp: c_def)
    have live: "load (a ! i) m \<noteq> None" if "i < n" "i \<noteq> hole" for i using D(3) that by blast
    have g: "get a i = Some (a ! i)" if "i < n" for i using that H by (simp add: get_def)
    have l1: "expire_of (a ! (hole * 2 + 1)) m = Some (key m (a ! (hole * 2 + 1)))"
      by (rule expire_of_key) (use live True in auto)
    have l2: "expire_of (a ! (hole * 2 + 2)) m = Some (key m (a ! (hole * 2 + 2)))" if "hole * 2 + 2 < n"
      by (rule expire_of_key) (use live that in auto)
    have lc: "expire_of (a ! c) m = Some (key m (a ! c))" by (rule expire_of_key) (use live c in auto)
    have lt: "expire_of temp m = Some (key m temp)" by (rule expire_of_key) (rule less.prems(3))
    have step: "percolate_loop n hole temp a m =
        (if key m (a ! c) < key m temp then percolate_loop n c temp (a[hole := a ! c]) m else Some (hole, a))"
    proof -
      have E: "(if int (hole * 2 + 1) < int n - 1 then do {
            q \<leftarrow> get a (hole * 2 + 1 + 1);
            eq \<leftarrow> expire_of q m;
            p \<leftarrow> get a (hole * 2 + 1);
            ep \<leftarrow> expire_of p m;
            Some (if eq < ep then hole * 2 + 1 + 1 else hole * 2 + 1) }
          else Some (hole * 2 + 1)) = Some c"
      proof (cases "hole * 2 + 2 < n")
        case True
        then show ?thesis using g [of "hole * 2 + 1"] g [of "hole * 2 + 2"] l1 l2 by (auto simp: c_def)
      qed (use True in \<open>auto simp: c_def\<close>)
      show ?thesis
        unfolding percolate_loop.simps [of n hole temp a m] Let_def E
        using True c H g [OF c(1)] lc lt by (simp add: put_def)
    qed
    show ?thesis
    proof (cases "key m (a ! c) < key m temp")
      case False
      show ?thesis
      proof (rule stop)
        show "percolate_loop n hole temp a m = Some (hole, a)" using step False by simp
        show "\<forall>d < n. 0 < d \<longrightarrow> parent d = hole \<longrightarrow> key m temp \<le> key m (a ! d)" using le False by force
      qed
    next
      case lt: True
      let ?a = "a[hole := a ! c]"
      have hl: "hole < length a" "c < length a" using H c by auto
      have "holed m ?a n j c"
        unfolding holed_def
      proof (intro conjI allI impI)
        fix i assume i: "i < n" "i \<noteq> c"
        show "load (?a ! i) m \<noteq> None" using live [OF c(1)] live [OF i(1)] hl c by (cases "i = hole") auto
      next
        fix i assume i: "i < n" "0 < i" "j \<le> parent i" "i \<noteq> c" "parent i \<noteq> c"
        consider "i = hole" | "parent i = hole" "i \<noteq> hole" | "parent i \<noteq> hole" "i \<noteq> hole" by blast
        then show "key m (?a ! parent i) \<le> key m (?a ! i)"
        proof cases
          case 1
          then show ?thesis using D(5) [OF _ c(1,4)] i c(2) hl parent_less [OF i(2)] by simp
        next
          case 2
          then show ?thesis using le [OF i(1,2)] hl by simp
        next
          case 3
          then show ?thesis using D(4) [OF i(1-3)] by simp
        qed
      next
        fix d assume d: "0 < c" "j \<le> parent c" "d < n" "0 < d" "parent d = c"
        have "d \<noteq> hole" "j \<le> parent d" using parent_less [OF d(4)] d(5) c(3) less.prems(2) by auto
        then have "key m (a ! c) \<le> key m (a ! d)" using D(4) [OF d(3,4)] d(5) c(3) by simp
        then show "key m (?a ! parent c) \<le> key m (?a ! d)" using c(2) hl \<open>d \<noteq> hole\<close> by simp
      qed (use H c in auto)
      moreover have "key m (?a ! parent c) \<le> key m temp" using lt c(2) hl by simp
      moreover have "n - c < n - hole" using c by linarith
      ultimately obtain hole' a' where r: "percolate_loop n c temp ?a m = Some (hole', a')" "hole' < length a'"
          "length a' = length ?a" "heap_on (key m) (a'[hole' := temp]) n j"
          "mset (take n (a'[hole' := temp])) = mset (take n (?a[c := temp]))" "drop n (a'[hole' := temp]) = drop n ?a"
        using less.hyps [of c ?a] c(3) less.prems(2,3) by (auto simp del: parent_simps)
      have "mset (take n (?a[c := temp])) = mset (take n (a[hole := temp]))" using mset_move [of hole n c a temp] H c by auto
      then show ?thesis using step lt r c H by auto
    qed
  qed
qed

lemma percolate_down_ok:
  assumes "hole < n" and "n \<le> length a" and "\<forall>i < n. load (a ! i) m \<noteq> None" and "heap_on (key m) a n (Suc hole)"
  shows "\<exists>a'. percolate_down n hole a m = Some a' \<and> length a' = length a \<and> heap_on (key m) a' n hole \<and>
    mset (take n a') = mset (take n a) \<and> drop n a' = drop n a"
proof -
  have "holed m a n hole hole" using assms parent_less [of hole] by (auto simp: holed_def heap_on_def)
  moreover have "0 < hole \<Longrightarrow> \<not> hole \<le> parent hole" using parent_less [of hole] by auto
  ultimately obtain h' a' where
    "percolate_loop n hole (a ! hole) a m = Some (h', a')" "h' < length a'" "length a' = length a"
    "heap_on (key m) (a'[h' := a ! hole]) n hole" "mset (take n (a'[h' := a ! hole])) = mset (take n a)"
    "drop n (a'[h' := a ! hole]) = drop n a"
    using percolate_loop_ok [of m a n hole hole "a ! hole"] assms by auto
  then show ?thesis using assms(1,2) by (auto simp: percolate_down_def get_def put_def)
qed

lemma sift_up_ok:
  assumes "holed m a n 0 hole" and "load timer m \<noteq> None"
    and "\<forall>c < n. 0 < c \<longrightarrow> parent c = hole \<longrightarrow> key m timer \<le> key m (a ! c)"
  shows "\<exists>hole' a'. sift_up hole timer a m = Some (hole', a') \<and> hole' < length a' \<and> length a' = length a \<and>
    heap_on (key m) (a'[hole' := timer]) n 0 \<and> mset (take n (a'[hole' := timer])) = mset (take n (a[hole := timer])) \<and>
    drop n (a'[hole' := timer]) = drop n a"
  using assms
proof (induction hole arbitrary: a rule: less_induct)
  case (less hole)
  note D = holedD [OF less.prems(1)]
  have H: "hole < n" "n \<le> length a" "hole < length a" using D(1,2) by auto
  have stop: ?case if "sift_up hole timer a m = Some (hole, a)" "0 < hole \<longrightarrow> key m (a ! parent hole) \<le> key m timer"
  proof (intro exI conjI)
    show "sift_up hole timer a m = Some (hole, a)" by (rule that(1))
    show "heap_on (key m) (a[hole := timer]) n 0" by (rule fill_hole [OF less.prems(1)]) (use less.prems(3) that(2) in auto)
  qed (use H in auto)
  show ?case
  proof (cases "hole = 0")
    case True
    then show ?thesis by (intro stop) (simp_all add: sift_up.simps)
  next
    case False
    let ?q = "parent hole"
    have q: "?q < hole" "?q < n" using False H parent_less [of hole] by auto
    have live: "load (a ! ?q) m \<noteq> None" using D(3) q by auto
    have step: "sift_up hole timer a m = (if key m (a ! ?q) \<le> key m timer then Some (hole, a) else sift_up ?q timer (a[hole := a ! ?q]) m)"
      unfolding sift_up.simps [of hole timer a m] Let_def parent_def [symmetric]
      using False q H expire_of_key [OF live] expire_of_key [OF less.prems(2)] by (simp add: get_def put_def)
    show ?thesis
    proof (cases "key m (a ! ?q) \<le> key m timer")
      case True
      then show ?thesis using step by (intro stop) simp_all
    next
      case gt: False
      let ?a = "a[hole := a ! ?q]"
      have hl: "hole < length a" using H by auto
      have up: "key m (a ! i) \<ge> key m (a ! ?q)" if "i < n" "0 < i" "parent i = ?q" "i \<noteq> hole" for i
        using D(4) [OF that(1,2)] that(3,4) q by simp
      have "holed m ?a n 0 ?q"
        unfolding holed_def
      proof (intro conjI allI impI)
        fix i assume "i < n" "i \<noteq> ?q"
        then show "load (?a ! i) m \<noteq> None" using live D(3) hl by (cases "i = hole") auto
      next
        fix i assume i: "i < n" "0 < i" "0 \<le> parent i" "i \<noteq> ?q" "parent i \<noteq> ?q"
        then have ih: "i \<noteq> hole" by auto
        show "key m (?a ! parent i) \<le> key m (?a ! i)"
        proof (cases "parent i = hole")
          case True
          then show ?thesis using D(5) [OF _ i(1,2)] False hl ih by simp
        qed (use D(4) [OF i(1-3)] ih in simp)
      next
        fix c assume c: "0 < ?q" "0 \<le> parent ?q" "c < n" "0 < c" "parent c = ?q"
        have "parent ?q < ?q" by (rule parent_less [OF c(1)])
        then have pq: "key m (a ! parent ?q) \<le> key m (a ! ?q)" "parent ?q \<noteq> hole" using D(4) [OF q(2) c(1)] q by auto
        show "key m (?a ! parent ?q) \<le> key m (?a ! c)"
          using pq up [OF c(3-5)] hl by (cases "c = hole") auto
      qed (use H q in auto)
      moreover have "\<forall>c < n. 0 < c \<longrightarrow> parent c = ?q \<longrightarrow> key m timer \<le> key m (?a ! c)"
        using up gt hl by (metis linorder_le_cases nth_list_update_eq nth_list_update_neq order_trans)
      ultimately obtain hole' a' where r: "sift_up ?q timer ?a m = Some (hole', a')" "hole' < length a'"
          "length a' = length ?a" "heap_on (key m) (a'[hole' := timer]) n 0"
          "mset (take n (a'[hole' := timer])) = mset (take n (?a[?q := timer]))" "drop n (a'[hole' := timer]) = drop n ?a"
        using less.IH [OF q(1), of ?a] less.prems(2) by auto
      have "mset (take n (?a[?q := timer])) = mset (take n (a[hole := timer]))" using mset_move [of hole n ?q a timer] H q by auto
      then show ?thesis using step gt r H by auto
    qed
  qed
qed

end
