(* ===== verification/TimeHeapInv.thy ===== *)
theory TimeHeapInv
  imports TimeHeapOk
begin

text \<open>
  The invariant of the timer heap and what each operation does to the stored timers; with that the
  heap is a timer store.
\<close>

subsection \<open>Invariant\<close>

definition stored :: "time_heap \<Rightarrow> addr list" where
  "stored s = take (cur_size s) (array s)"

definition heap_inv :: "time_heap \<Rightarrow> timer_mem \<Rightarrow> bool" where
  "heap_inv s m \<longleftrightarrow> length (array s) = capacity s \<and> 0 < capacity s \<and> cur_size s \<le> capacity s \<and>
     distinct (stored s) \<and> (\<forall>p \<in> set (stored s). load p m \<noteq> None) \<and> heap_on (key m) (array s) (cur_size s) 0"

lemma heap_invD:
  assumes "heap_inv s m"
  shows "length (array s) = capacity s" and "0 < capacity s" and "cur_size s \<le> capacity s" and "distinct (stored s)"
    and "p \<in> set (stored s) \<Longrightarrow> load p m \<noteq> None" and "heap_on (key m) (array s) (cur_size s) 0"
    and "length (stored s) = cur_size s" and "i < cur_size s \<Longrightarrow> stored s ! i = array s ! i"
  using assms by (auto simp: heap_inv_def stored_def)

lemma in_stored: "heap_inv s m \<Longrightarrow> i < cur_size s \<Longrightarrow> array s ! i \<in> set (stored s)"
  using heap_invD(7,8) [of s m] nth_mem by metis

lemma heap_on_cong: "(\<And>i. i < n \<Longrightarrow> k' (b ! i) = k (a ! i)) \<Longrightarrow> heap_on k' b n j = heap_on k a n j"
  using parent_less by (auto simp: heap_on_def) (metis less_trans)+

lemma time_heap_init_inv: "0 < cap \<Longrightarrow> heap_inv (time_heap_init cap) m \<and> stored (time_heap_init cap) = []"
  by (simp add: heap_inv_def time_heap_init_def stored_def heap_on_def)

lemma copy_timers_ok:
  "i + k \<le> length src \<Longrightarrow> i + k \<le> length a \<Longrightarrow>
   copy_timers src i k a = Some (take i a @ take k (drop i src) @ drop (i + k) a)"
proof (induction k arbitrary: i a)
  case (Suc k)
  have "take (Suc i) (a[i := src ! i]) = take i a @ [src ! i]" using Suc.prems by (simp add: take_Suc_conv_app_nth)
  moreover have "src ! i # take k (drop (Suc i) src) = take (Suc k) (drop i src)"
    using Suc.prems by (simp add: Cons_nth_drop_Suc [symmetric])
  ultimately show ?case using Suc by (simp add: get_def put_def)
qed simp

lemma heap_resize_ok:
  assumes "heap_inv s m"
  shows "\<exists>s'. heap_resize s = Some s' \<and> heap_inv s' m \<and> stored s' = stored s \<and> cur_size s' = cur_size s \<and> capacity s' = 2 * capacity s"
proof -
  note D = heap_invD [OF assms]
  let ?a = "stored s @ replicate (2 * capacity s - cur_size s) NULL"
  let ?s = "s\<lparr>array := ?a, capacity := 2 * capacity s\<rparr>"
  have "copy_timers (array s) 0 (cur_size s) (replicate (2 * capacity s) NULL) = Some ?a"
    using D by (subst copy_timers_ok) (auto simp: stored_def)
  then have "heap_resize s = Some ?s" by (simp add: heap_resize_def)
  moreover have st: "stored ?s = stored s" using D(7) by (simp add: stored_def [of ?s])
  moreover have "heap_on (key m) ?a (cur_size s) 0"
    using D(6) heap_on_cong [of "cur_size s" "key m" ?a "key m" "array s"] D(7,8) by (simp add: nth_append)
  ultimately show ?thesis using D by (intro exI [of _ ?s]) (simp add: heap_inv_def)
qed

lemma add_with_room:
  assumes I: "heap_inv s m" and room: "cur_size s < capacity s" and t: "load t m \<noteq> None" "t \<notin> set (stored s)"
  shows "\<exists>hole a a'. sift_up (cur_size s) t (array s) m = Some (hole, a) \<and> put a hole t = Some a' \<and>
    heap_inv (s\<lparr>array := a', cur_size := cur_size s + 1\<rparr>) m \<and>
    mset (stored (s\<lparr>array := a', cur_size := cur_size s + 1\<rparr>)) = add_mset t (mset (stored s))"
proof -
  note D = heap_invD [OF I]
  let ?n = "cur_size s"
  have none: "parent c \<noteq> ?n" if "c < Suc ?n" "0 < c" for c using parent_less [OF that(2)] that(1) by simp
  have "holed m (array s) (Suc ?n) 0 ?n"
    using D(1,6) room none D(5) in_stored [OF I] by (auto simp: holed_def heap_on_def less_Suc_eq)
  from sift_up_ok [OF this t(1)] none obtain hole a where a:
    "sift_up ?n t (array s) m = Some (hole, a)" "hole < length a" "length a = length (array s)"
    "heap_on (key m) (a[hole := t]) (Suc ?n) 0"
    "mset (take (Suc ?n) (a[hole := t])) = mset (take (Suc ?n) ((array s)[?n := t]))" by auto
  let ?s = "s\<lparr>array := a[hole := t], cur_size := ?n + 1\<rparr>"
  have "take (Suc ?n) ((array s)[?n := t]) = stored s @ [t]"
    using room D(1) by (simp add: take_Suc_conv_app_nth stored_def)
  then have ms: "mset (stored ?s) = add_mset t (mset (stored s))"
    unfolding stored_def [of ?s] using a(5) by simp
  then have "distinct (stored ?s) = distinct (t # stored s)" by (intro mset_eq_imp_distinct_iff) simp
  moreover have "set (stored ?s) = insert t (set (stored s))" using ms by (metis set_mset_mset set_mset_add_mset_insert)
  ultimately have "heap_inv ?s m" using D a t room by (simp add: heap_inv_def)
  then show ?thesis using a ms by (auto simp: put_def)
qed

lemma heap_add_ok:
  assumes I: "heap_inv s m" and t: "load t m \<noteq> None" "t \<notin> set (stored s)"
  shows "\<exists>s'. heap_add_timer t s m = Some s' \<and> heap_inv s' m \<and> mset (stored s') = add_mset t (mset (stored s))"
proof -
  have tn: "t \<noteq> NULL" using t(1) by auto
  obtain s1 where s1: "(if capacity s \<le> cur_size s then heap_resize s else Some s) = Some s1" "heap_inv s1 m"
    "stored s1 = stored s" "cur_size s1 < capacity s1"
  proof (cases "capacity s \<le> cur_size s")
    case True
    with heap_resize_ok [OF I] heap_invD(2,3) [OF I] that show ?thesis by auto
  qed (use I that in auto)
  from add_with_room [OF s1(2,4) t(1)] t(2) s1(3) show ?thesis
    using s1(1) tn by (auto simp: heap_add_timer_def Let_def)
qed

lemma heap_pop_ok:
  assumes I: "heap_inv s m" and n: "0 < cur_size s"
  shows "\<exists>s' m'. pop_timer s m = Some (s', m') \<and> free (array s ! 0) m = Some m' \<and> heap_inv s' m' \<and>
    cur_size s = Suc (cur_size s') \<and> mset (stored s) = add_mset (array s ! 0) (mset (stored s')) \<and>
    (\<forall>q. load q m' = (if q = array s ! 0 then None else load q m))"
proof -
  note D = heap_invD [OF I]
  let ?p = "array s ! 0"
  obtain k where k: "cur_size s = Suc k" using n by (cases "cur_size s") auto
  have hl: "0 < length (array s)" "k < length (array s)" using D k by auto
  have p: "load ?p m \<noteq> None" using D(5) in_stored [OF I n] by blast
  let ?m = "m\<lparr>cells := (cells m)(?p := None)\<rparr>"
  have fr: "free ?p m = Some ?m" "?p \<noteq> NULL" using p free_Some by auto
  have l: "load q ?m = (if q = ?p then None else load q m)" for q using fr(2) by (simp add: load_def)
  let ?q = "array s ! k" and ?a = "(array s)[0 := array s ! k]"
  have pop: "pop_timer s m = do { a \<leftarrow> percolate_down k 0 ?a ?m; Some (s\<lparr>array := a, cur_size := k\<rparr>, ?m) }"
    using k hl fr by (simp add: pop_timer_def get_def put_def)
  show ?thesis
  proof (cases "k = 0")
    case True
    have "percolate_down k 0 ?a ?m = Some ?a" using hl True by (simp add: percolate_down_def percolate_loop.simps get_def put_def)
    moreover have "heap_inv (s\<lparr>array := ?a, cur_size := 0\<rparr>) ?m" using D by (simp add: heap_inv_def stored_def heap_on_def)
    moreover have "stored s = [?p]" using True k D(7,8) by (intro nth_equalityI) auto
    ultimately show ?thesis using pop True k l fr by (simp add: stored_def)
  next
    case False
    have ne: "array s ! i \<noteq> ?p" if "0 < i" "i \<le> k" for i
      using that k D(4,7,8) nth_eq_iff_index_eq [of "stored s" i 0] by simp
    have keq: "key ?m r = key m r" if "r \<noteq> ?p" for r using l that by (simp add: key_def)
    have a: "?a ! i = (if i = 0 then ?q else array s ! i)" for i using hl by (simp add: nth_list_update)
    have live: "\<forall>i < k. load (?a ! i) ?m \<noteq> None"
      using a l ne False D(5) in_stored [OF I] k by auto
    have "heap_on (key ?m) ?a k (Suc 0)"
      unfolding heap_on_def
    proof (intro allI impI)
      fix i assume i: "i < k" "0 < i" "Suc 0 \<le> parent i"
      have "parent i < k" using parent_less [OF i(2)] i(1) by simp
      then have "key ?m (?a ! parent i) = key m (array s ! parent i)" "key ?m (?a ! i) = key m (array s ! i)"
        using a i keq ne by auto
      then show "key ?m (?a ! parent i) \<le> key ?m (?a ! i)" using D(6) i k by (simp add: heap_on_def)
    qed
    from percolate_down_ok [OF _ _ live this] False hl obtain a' where a':
      "percolate_down k 0 ?a ?m = Some a'" "length a' = length (array s)" "heap_on (key ?m) a' k 0"
      "mset (take k a') = mset (take k ?a)" by auto
    let ?s = "s\<lparr>array := a', cur_size := k\<rparr>"
    have "take k ?a = ?q # drop 1 (take k (array s))"
      using False hl by (cases "array s"; cases k) auto
    moreover have "stored s = ?p # drop 1 (take k (array s)) @ [?q]"
      using False hl k by (cases "array s"; cases k) (auto simp: stored_def take_Suc_conv_app_nth)
    ultimately have ms: "mset (stored s) = add_mset ?p (mset (stored ?s))" using a'(4) by (simp add: stored_def [of ?s])
    then have "distinct (stored s) = distinct (?p # stored ?s)" by (intro mset_eq_imp_distinct_iff) simp
    then have ds: "distinct (stored ?s)" "?p \<notin> set (stored ?s)" using D(4) by auto
    have "set (stored s) = insert ?p (set (stored ?s))" using ms by (metis set_mset_mset set_mset_add_mset_insert)
    then have "\<forall>r \<in> set (stored ?s). load r ?m \<noteq> None" using l ds(2) D(5) by (metis insertI2)
    then have "heap_inv ?s ?m" using D a' ds k by (simp add: heap_inv_def)
    then show ?thesis using pop a'(1) ms k l fr by simp
  qed
qed

subsection \<open>The heap is a timer store\<close>

definition heap_rep :: "time_heap \<times> timer_mem \<Rightarrow> due multiset \<Rightarrow> bool" where
  "heap_rep sm M \<longleftrightarrow> heap_inv (fst sm) (snd sm) \<and> M = image_mset (\<lambda>p. (key (snd sm) p, p)) (mset (stored (fst sm)))"

definition heap_fresh :: "time_heap \<times> timer_mem \<Rightarrow> due \<Rightarrow> bool" where
  "heap_fresh sm x \<longleftrightarrow> load (snd x) (snd sm) \<noteq> None \<and> key (snd sm) (snd x) = fst x \<and> snd x \<notin> set (stored (fst sm))"

definition heap_add :: "time_heap \<times> timer_mem \<Rightarrow> due \<Rightarrow> (time_heap \<times> timer_mem) option" where
  "heap_add sm x = map_option (\<lambda>s. (s, snd sm)) (heap_add_timer (snd x) (fst sm) (snd sm))"

text \<open>One round of the loop of \<open>tick\<close>.\<close>

definition heap_fire :: "int \<Rightarrow> time_heap \<times> timer_mem \<Rightarrow> (due option \<times> time_heap \<times> timer_mem) option" where
  "heap_fire cur sm = (case sm of (s, m) \<Rightarrow>
     if cur_size s = 0 then Some (None, s, m)
     else do {
       p \<leftarrow> get (array s) 0;
       t \<leftarrow> load p m;
       if cur < expire t then Some (None, s, m)
       else do { (s, m) \<leftarrow> pop_timer s m; Some (Some (expire t, p), s, m) } })"

lemma heap_fire_step:
  assumes I: "heap_inv s m" and n: "0 < cur_size s"
  shows "heap_fire cur (s, m) = (if cur < key m (array s ! 0) then Some (None, s, m)
    else do { (s', m') \<leftarrow> pop_timer s m; Some (Some (key m (array s ! 0), array s ! 0), s', m') })"
proof -
  have "load (array s ! 0) m \<noteq> None" using heap_invD(5) [OF I] in_stored [OF I n] by blast
  then show ?thesis using n heap_invD(1-3) [OF I] by (auto simp: heap_fire_def get_def key_def)
qed

lemma heap_min: "heap_inv s m \<Longrightarrow> p \<in> set (stored s) \<Longrightarrow> key m (array s ! 0) \<le> key m p"
  using heap_root_min heap_invD(6-8) [of s m] by (metis in_set_conv_nth)

interpretation hp: timer_store heap_add heap_fire heap_rep heap_fresh
proof
  fix sm M x assume "heap_rep sm M" "heap_fresh sm x"
  then show "\<exists>s'. heap_add sm x = Some s' \<and> heap_rep s' (add_mset x M) \<and>
      (\<forall>y. snd y \<noteq> snd x \<longrightarrow> heap_fresh sm y \<longrightarrow> heap_fresh s' y)"
    using heap_add_ok [of "fst sm" "snd sm" "snd x"]
    by (auto simp: heap_rep_def heap_fresh_def heap_add_def) (metis insert_iff set_mset_mset set_mset_add_mset_insert)
next
  fix sm M t assume r: "heap_rep sm M" and M: "\<forall>x \<in># M. t < fst x"
  show "heap_fire t sm = Some (None, sm)"
  proof (cases "cur_size (fst sm) = 0")
    case False
    with r M in_stored [of "fst sm" "snd sm" 0] have "t < key (snd sm) (array (fst sm) ! 0)" by (auto simp: heap_rep_def)
    then show ?thesis using heap_fire_step [of "fst sm" "snd sm" t] r False by (simp add: heap_rep_def)
  qed (cases sm, simp add: heap_fire_def)
next
  fix sm M x t assume r: "heap_rep sm M" and x: "x \<in># M" "fst x \<le> t"
  let ?s = "fst sm" and ?m = "snd sm"
  have I: "heap_inv ?s ?m" and M: "M = image_mset (\<lambda>p. (key ?m p, p)) (mset (stored ?s))" using r by (auto simp: heap_rep_def)
  have xs: "snd x \<in> set (stored ?s)" "key ?m (snd x) = fst x" using x(1) M by auto
  have n: "0 < cur_size ?s" using xs(1) by (cases "cur_size ?s") (auto simp: stored_def)
  let ?p = "array ?s ! 0"
  have le: "key ?m ?p \<le> t" using heap_min [OF I xs(1)] xs(2) x(2) by simp
  from heap_pop_ok [OF I n] obtain s' m' where p: "pop_timer ?s ?m = Some (s', m')" "heap_inv s' m'"
    "mset (stored ?s) = add_mset ?p (mset (stored s'))" "\<forall>q. load q m' = (if q = ?p then None else load q ?m)" by blast
  have "?p \<notin> set (stored s')" using p(2,4) heap_invD(5) [OF p(2)] by metis
  then have "image_mset (\<lambda>p. (key m' p, p)) (mset (stored s')) = image_mset (\<lambda>p. (key ?m p, p)) (mset (stored s'))"
    using p(4) by (intro image_mset_cong) (auto simp: key_def)
  then have "heap_rep (s', m') (M - {#(key ?m ?p, ?p)#})" using p(2,3) M by (simp add: heap_rep_def)
  moreover have "heap_fire t sm = Some (Some (key ?m ?p, ?p), s', m')"
    using heap_fire_step [OF I n, of t] le p(1) by simp
  moreover have "\<forall>z \<in># M. key ?m ?p \<le> fst z" using heap_min [OF I] M by auto
  moreover have "(key ?m ?p, ?p) \<in># M" using M in_stored [OF I n] by auto
  ultimately show "\<exists>y s'. heap_fire t sm = Some (Some y, s') \<and> y \<in># M \<and> (\<forall>z \<in># M. fst y \<le> fst z) \<and> heap_rep s' (M - {#y#})"
    by fastforce
qed

subsection \<open>The tick and the constructor\<close>

definition calls_of :: "timer_mem \<Rightarrow> addr list \<Rightarrow> calls" where
  "calls_of m ps = List.map_filter (\<lambda>p. case load p m of Some t \<Rightarrow>
     (if cb_func t \<noteq> NULL then Some (cb_func t, user_data t) else None) | None \<Rightarrow> None) ps"

lemma calls_of_simps [simp]:
  "calls_of m [] = []"
  "calls_of m (p # ps) = (case load p m of Some t \<Rightarrow> if cb_func t \<noteq> NULL then [(cb_func t, user_data t)] else [] | None \<Rightarrow> []) @ calls_of m ps"
  by (auto simp: calls_of_def List.map_filter_def split: option.splits)

lemma calls_of_cong: "(\<And>p. p \<in> set ps \<Longrightarrow> load p m' = load p m) \<Longrightarrow> calls_of m' ps = calls_of m ps"
  by (induction ps) auto

text \<open>The tick fires what \<^const>\<open>heap_fire\<close> fires, until that has nothing to fire.\<close>

lemma heap_tick_fires:
  assumes "heap_inv s m"
  shows "\<exists>xs s' m'. fire_all (heap_fire cur) (s, m) = Some (xs, s', m') \<and>
    heap_tick_loop cur (array s ! 0) s m = Some (calls_of m (map snd xs), s', m') \<and>
    set (map snd xs) \<subseteq> set (stored s) \<and> map fst xs = map (key m) (map snd xs) \<and>
    (\<forall>q. load q m' = (if q \<in> set (map snd xs) then None else load q m))"
  using assms
proof (induction "cur_size s" arbitrary: s m)
  case 0
  then show ?case by (subst fire_all.simps, subst heap_tick_loop.simps) (simp add: heap_fire_def)
next
  case (Suc n)
  note I = Suc.prems
  let ?p = "array s ! 0"
  have n: "0 < cur_size s" using Suc.hyps(2) by simp
  have hl: "0 < length (array s)" using heap_invD [OF I] by simp
  obtain t where t: "load ?p m = Some t" "key m ?p = expire t" "?p \<noteq> NULL"
    using heap_invD(5) [OF I in_stored [OF I n]] by (auto simp: key_def)
  show ?case
  proof (cases "cur < expire t")
    case True
    then show ?thesis using heap_fire_step [OF I n, of cur] t n
      by (subst fire_all.simps, subst heap_tick_loop.simps) simp
  next
    case False
    from heap_pop_ok [OF I n] obtain s1 m1 where p: "pop_timer s m = Some (s1, m1)" "heap_inv s1 m1" "cur_size s = Suc (cur_size s1)"
      "mset (stored s) = add_mset ?p (mset (stored s1))" "\<forall>q. load q m1 = (if q = ?p then None else load q m)" by blast
    from Suc.hyps(1) [OF _ p(2)] Suc.hyps(2) p(3) obtain xs s' m' where
      xs: "fire_all (heap_fire cur) (s1, m1) = Some (xs, s', m')"
        "heap_tick_loop cur (array s1 ! 0) s1 m1 = Some (calls_of m1 (map snd xs), s', m')"
        "set (map snd xs) \<subseteq> set (stored s1)" "map fst xs = map (key m1) (map snd xs)"
        "\<forall>q. load q m' = (if q \<in> set (map snd xs) then None else load q m1)" by auto
    have st: "set (stored s) = insert ?p (set (stored s1))" using p(4) by (metis set_mset_mset set_mset_add_mset_insert)
    have "?p \<notin> set (map snd xs)" using xs(3) p(5) heap_invD(5) [OF p(2)] by (metis subsetD)
    then have np: "(e, ?p) \<notin> set xs" for e by force
    have same: "load q m1 = load q m" if "q \<in> set (map snd xs)" for q using that p(5) np by auto
    then have c: "calls_of m1 (map snd xs) = calls_of m (map snd xs)" by (rule calls_of_cong)
    have k: "map (key m1) (map snd xs) = map (key m) (map snd xs)" using same by (intro map_cong) (auto simp: key_def)
    have "get (array s1) 0 = Some (array s1 ! 0)" using heap_invD(1,2) [OF p(2)] by (simp add: get_def)
    then have "heap_tick_loop cur ?p s m = Some (calls_of m (?p # map snd xs), s', m')"
      using t n hl False p(1) xs(2) c by (subst heap_tick_loop.simps) (simp add: get_def)
    moreover have "fire_all (heap_fire cur) (s, m) = Some ((expire t, ?p) # xs, s', m')"
      using heap_fire_step [OF I n, of cur] False t(2) p(1) xs(1) by (subst fire_all.simps) simp
    ultimately show ?thesis using xs(3-5) st p(5) k t(2) np
      by (intro exI [of _ "(expire t, ?p) # xs"] exI [of _ s'] exI [of _ m']) auto
  qed
qed

lemma heap_tick_ok:
  assumes I: "heap_inv s m"
  shows "\<exists>ps s' m'. heap_tick cur s m = Some (calls_of m ps, s', m') \<and> sorted (map (key m) ps) \<and>
    mset ps = filter_mset (\<lambda>p. key m p \<le> cur) (mset (stored s)) \<and> heap_inv s' m' \<and>
    mset (stored s') = filter_mset (\<lambda>p. cur < key m p) (mset (stored s)) \<and>
    (\<forall>q. load q m' = (if q \<in> set ps then None else load q m))"
proof -
  let ?M = "image_mset (\<lambda>p. (key m p, p)) (mset (stored s))"
  have R: "heap_rep (s, m) ?M" using I by (simp add: heap_rep_def)
  from heap_tick_fires [OF I, of cur] obtain xs s' m' where
    xs: "fire_all (heap_fire cur) (s, m) = Some (xs, s', m')"
      "heap_tick_loop cur (array s ! 0) s m = Some (calls_of m (map snd xs), s', m')"
      "map fst xs = map (key m) (map snd xs)" "\<forall>q. load q m' = (if q \<in> set (map snd xs) then None else load q m)" by blast
  from hp.fire_all_due [OF R, of cur] xs(1) have F: "mset xs = filter_mset (\<lambda>x. fst x \<le> cur) ?M" "sorted (map fst xs)"
    "heap_rep (s', m') (filter_mset (\<lambda>x. cur < fst x) ?M)" by auto
  have "mset (map snd xs) = image_mset snd (filter_mset (\<lambda>x. fst x \<le> cur) ?M)" using F(1) by simp
  also have "\<dots> = filter_mset (\<lambda>p. key m p \<le> cur) (mset (stored s))"
    by (simp add: filter_mset_image_mset image_mset.compositionality comp_def)
  finally have m1: "mset (map snd xs) = filter_mset (\<lambda>p. key m p \<le> cur) (mset (stored s))" .
  have I': "heap_inv s' m'" and E: "image_mset (\<lambda>p. (key m' p, p)) (mset (stored s')) = filter_mset (\<lambda>x. cur < fst x) ?M"
    using F(3) by (auto simp: heap_rep_def)
  have "mset (stored s') = image_mset snd (image_mset (\<lambda>p. (key m' p, p)) (mset (stored s')))"
    by (simp add: image_mset.compositionality comp_def)
  also have "\<dots> = filter_mset (\<lambda>p. cur < key m p) (mset (stored s))"
    unfolding E by (simp add: filter_mset_image_mset image_mset.compositionality comp_def)
  finally have "mset (stored s') = filter_mset (\<lambda>p. cur < key m p) (mset (stored s))" .
  moreover have "heap_tick cur s m = Some (calls_of m (map snd xs), s', m')"
    using xs(2) heap_invD(1,2) [OF I] by (simp add: heap_tick_def get_def)
  moreover have "sorted (map (key m) (map snd xs))" using F(2) xs(3) by simp
  ultimately show ?thesis using xs(4) m1 I' by (intro exI [of _ "map snd xs"] exI [of _ s'] exI [of _ m']) simp
qed

lemma heapify_ok:
  assumes "i < n" and "n \<le> length a" and "\<forall>i < n. load (a ! i) m \<noteq> None" and "heap_on (key m) a n (Suc i)"
  shows "\<exists>a'. heapify n i a m = Some a' \<and> length a' = length a \<and> heap_on (key m) a' n 0 \<and> mset (take n a') = mset (take n a)"
  using assms
proof (induction i arbitrary: a)
  case 0
  with percolate_down_ok [OF 0] show ?case by auto
next
  case (Suc i)
  from percolate_down_ok [OF Suc.prems] obtain a1 where a1:
    "percolate_down n (Suc i) a m = Some a1" "length a1 = length a" "heap_on (key m) a1 n (Suc i)" "mset (take n a1) = mset (take n a)" by blast
  have "set (take n a1) = set (take n a)" using a1(4) by (metis set_mset_mset)
  moreover have "\<forall>p \<in> set (take n a). load p m \<noteq> None" using Suc.prems(2,3) by (auto simp: in_set_conv_nth)
  ultimately have "\<forall>p \<in> set (take n a1). load p m \<noteq> None" by simp
  then have "\<forall>j < n. load (a1 ! j) m \<noteq> None" using Suc.prems(2) a1(2)
    by (metis length_take min.absorb2 nth_mem nth_take)
  from Suc.IH [OF _ _ this a1(3)] Suc.prems a1 show ?case by auto
qed

lemma time_heap_from_ok:
  assumes "length ts = n" and "n \<le> cap" and "0 < cap" and "distinct ts" and "\<forall>p \<in> set ts. load p m \<noteq> None"
  shows "\<exists>s. time_heap_from ts n cap m = Some (Inr s) \<and> heap_inv s m \<and> mset (stored s) = mset ts \<and> capacity s = cap"
proof (cases "n = 0")
  case True
  then show ?thesis using assms
    by (auto simp: time_heap_from_def heap_inv_def stored_def heap_on_def)
next
  case False
  let ?a = "ts @ replicate (cap - n) NULL"
  have half: "(n - 1) div 2 < n" using False by linarith
  have "copy_timers ts 0 n (replicate cap NULL) = Some ?a" using assms(1,2) by (subst copy_timers_ok) auto
  moreover have "heap_on (key m) ?a n (Suc ((n - 1) div 2))"
    unfolding heap_on_def
  proof (intro allI impI)
    fix i assume "i < n" "Suc ((n - 1) div 2) \<le> parent i"
    moreover have "parent i \<le> (n - 1) div 2" unfolding parent_def using \<open>i < n\<close> by (intro div_le_mono) simp
    ultimately show "key m (?a ! parent i) \<le> key m (?a ! i)" by simp
  qed
  moreover have "\<forall>i < n. load (?a ! i) m \<noteq> None" using assms(1,5) by (simp add: nth_append)
  ultimately obtain a' where a': "heapify n ((n - 1) div 2) ?a m = Some a'" "length a' = cap" "heap_on (key m) a' n 0"
    "mset (take n a') = mset ts" "copy_timers ts 0 n (replicate cap NULL) = Some ?a"
    using heapify_ok [of "(n - 1) div 2" n ?a m] half assms(1,2) by auto
  let ?s = "\<lparr>array = a', capacity = cap, cur_size = n\<rparr>"
  have "distinct (take n a') = distinct ts" by (rule mset_eq_imp_distinct_iff) (rule a'(4))
  moreover have "set (take n a') = set ts" using a'(4) by (metis set_mset_mset)
  ultimately have "heap_inv ?s m" using assms a' by (simp add: heap_inv_def stored_def)
  then show ?thesis using a' False assms(2) by (auto simp: time_heap_from_def stored_def)
qed

end
