(* ===== verification/TimeHeapClaims.thy ===== *)
theory TimeHeapClaims
  imports TimeHeapInv
begin

text \<open>What the timer heap of \<open>timing_heap.h\<close> does.\<close>

subsection \<open>Deleting a timer, the destructor, and the heap without capacity\<close>

lemma heap_del_ok:
  assumes I: "heap_inv s m" and p: "p \<in> set (stored s)"
  shows "\<exists>m'. heap_del_timer p m = Some m' \<and> heap_inv s m' \<and> (\<forall>q. key m' q = key m q) \<and>
    (\<forall>ps. set ps \<subseteq> set (stored s) \<longrightarrow> calls_of m' ps = calls_of m (filter (\<lambda>q. q \<noteq> p) ps))"
proof -
  obtain t where t: "load p m = Some t" "p \<noteq> NULL" using heap_invD(5) [OF I p] by auto
  obtain m1 where st: "store p (t\<lparr>cb_func := NULL\<rparr>) m = Some m1" using store_Some [OF t(1)] by blast
  have l: "load q m1 = (if q = p then Some (t\<lparr>cb_func := NULL\<rparr>) else load q m)" for q by (rule load_store [OF st])
  have k: "key m1 q = key m q" for q using l t(1) by (simp add: key_def)
  have "heap_on (key m1) (array s) (cur_size s) 0" using heap_invD(6) [OF I] by (simp add: heap_on_def k)
  then have "heap_inv s m1" using I l t by (auto simp: heap_inv_def)
  moreover have "calls_of m1 ps = calls_of m (filter (\<lambda>q. q \<noteq> p) ps)" for ps by (induction ps) (auto simp: l)
  moreover have "heap_del_timer p m = Some m1" using t st by (simp add: heap_del_timer_def)
  ultimately show ?thesis using k by blast
qed

lemma delete_timers_ok:
  "i + k \<le> length a \<Longrightarrow> distinct (take k (drop i a)) \<Longrightarrow> \<forall>p \<in> set (take k (drop i a)). load p m \<noteq> None \<Longrightarrow>
   \<exists>m'. delete_timers a i k m = Some m' \<and> (\<forall>q. load q m' = (if q \<in> set (take k (drop i a)) then None else load q m))"
proof (induction k arbitrary: i m)
  case (Suc k)
  have i: "i < length a" using Suc.prems(1) by simp
  have e: "take (Suc k) (drop i a) = a ! i # take k (drop (Suc i) a)" using i by (simp add: Cons_nth_drop_Suc [symmetric])
  have p: "load (a ! i) m \<noteq> None" "a ! i \<noteq> NULL" using Suc.prems(3) e by auto
  let ?m = "m\<lparr>cells := (cells m)(a ! i := None)\<rparr>"
  have f: "free (a ! i) m = Some ?m" using p(1) by (auto intro: free_Some)
  have l: "load q ?m = (if q = a ! i then None else load q m)" for q using p(2) by (simp add: load_def)
  have "\<forall>p \<in> set (take k (drop (Suc i) a)). load p ?m \<noteq> None" using Suc.prems(2,3) l unfolding e by auto
  then obtain m' where "delete_timers a (Suc i) k ?m = Some m'"
    "\<forall>q. load q m' = (if q \<in> set (take k (drop (Suc i) a)) then None else load q ?m)"
    using Suc.IH [of "Suc i" ?m] Suc.prems(1,2) unfolding e by auto
  then show ?case using f l i unfolding e by (auto simp: get_def)
qed simp

lemma time_heap_delete_ok:
  assumes "heap_inv s m"
  shows "\<exists>m'. time_heap_delete s m = Some m' \<and> (\<forall>q. load q m' = (if q \<in> set (stored s) then None else load q m))"
  using delete_timers_ok [of 0 "cur_size s" "array s" m] heap_invD(1,3-5) [OF assms] by (simp add: time_heap_delete_def stored_def)

subsection \<open>The claims\<close>

text \<open>Three timers.\<close>

definition ex_timers :: timer_mem where
  "ex_timers = \<lparr>cells = [5 \<mapsto> \<lparr>expire = 30, cb_func = 7, user_data = 100\<rparr>, 6 \<mapsto> \<lparr>expire = 10, cb_func = 8, user_data = 200\<rparr>,
     7 \<mapsto> \<lparr>expire = 20, cb_func = 9, user_data = 300\<rparr>], brk = 8, oom = []\<rparr>"

definition ex_timer_heap :: time_heap where
  "ex_timer_heap = \<lparr>array = [6, 5, 7, 0], capacity = 4, cur_size = 3\<rparr>"

lemma ex_timers: "load 5 ex_timers = Some \<lparr>expire = 30, cb_func = 7, user_data = 100\<rparr>"
  "load 6 ex_timers = Some \<lparr>expire = 10, cb_func = 8, user_data = 200\<rparr>"
  "load 7 ex_timers = Some \<lparr>expire = 20, cb_func = 9, user_data = 300\<rparr>"
  by (simp_all add: ex_timers_def load_def NULL_def)

lemma ex_timer_heap: "heap_inv ex_timer_heap ex_timers" "stored ex_timer_heap = [6, 5, 7]"
  by (auto simp: heap_inv_def heap_on_def stored_def ex_timer_heap_def parent_def key_def ex_timers less_Suc_eq numeral_3_eq_3)

text \<open>C22: Starting from an empty heap, whatever timers are added in whatever order (the array doubles when it is full),
  a tick calls the callbacks of exactly those whose time has come, the earliest first, deletes them
  and keeps the others.\<close>

theorem heap_adds_then_tick:
  assumes "0 < cap" and "distinct ps" and "\<forall>p \<in> set ps. load p m \<noteq> None"
  shows "\<exists>s qs s' m'. add_all heap_add (map (\<lambda>p. (key m p, p)) ps) (time_heap_init cap, m) = Some (s, m) \<and>
    heap_tick cur s m = Some (calls_of m qs, s', m') \<and>
    mset qs = mset (filter (\<lambda>p. key m p \<le> cur) ps) \<and> sorted (map (key m) qs) \<and>
    heap_inv s' m' \<and> mset (stored s') = mset (filter (\<lambda>p. cur < key m p) ps) \<and>
    (\<forall>q. load q m' = (if q \<in> set qs then None else load q m))"
proof -
  let ?xs = "map (\<lambda>p. (key m p, p)) ps"
  have "heap_rep (time_heap_init cap, m) {#}" using time_heap_init_inv [OF assms(1)] by (simp add: heap_rep_def)
  from hp.add_all_rep [OF this, of ?xs] assms time_heap_init_inv [OF assms(1), of m] obtain s m1 where
    a: "add_all heap_add ?xs (time_heap_init cap, m) = Some (s, m1)" "heap_rep (s, m1) (mset ?xs)"
    by (fastforce simp: heap_fresh_def comp_def)
  have "snd sm' = snd sm" if "add_all heap_add xs sm = Some sm'" for xs sm sm'
    using that by (induction xs arbitrary: sm) (auto simp: heap_add_def bind_Some_iff)
  from this [OF a(1)] have m1: "m1 = m" by simp
  have I: "heap_inv s m" and "mset ?xs = image_mset (\<lambda>p. (key m p, p)) (mset (stored s))" using a(2) m1 by (auto simp: heap_rep_def)
  then have "image_mset snd (mset ?xs) = image_mset snd (image_mset (\<lambda>p. (key m p, p)) (mset (stored s)))" by simp
  then have ms: "mset (stored s) = mset ps" by (simp add: image_mset.compositionality comp_def)
  from heap_tick_ok [OF I, of cur] show ?thesis using a(1) unfolding m1 ms by (auto simp flip: mset_filter)
qed

theorem heap_adds_then_tick_witness:
  "\<exists>s s' m'. add_all heap_add [(30, 5), (10, 6), (20, 7)] (time_heap_init 2, ex_timers) = Some (s, ex_timers) \<and>
    heap_tick 25 s ex_timers = Some ([(8, 200), (9, 300)], s', m') \<and> stored s' = [5]"
proof -
  have k: "key ex_timers 5 = 30" "key ex_timers 6 = 10" "key ex_timers 7 = 20" by (simp_all add: key_def ex_timers)
  obtain s qs s' m' where r: "add_all heap_add [(30, 5), (10, 6), (20, 7)] (time_heap_init 2, ex_timers) = Some (s, ex_timers)"
    "heap_tick 25 s ex_timers = Some (calls_of ex_timers qs, s', m')" "mset qs = {#6, 7#}" "sorted (map (key ex_timers) qs)"
    "mset (stored s') = {#5#}"
    using heap_adds_then_tick [of 2 "[5, 6, 7]" ex_timers 25] by (auto simp: k ex_timers)
  from r(3) have "length qs = 2" by (metis size_mset size_add_mset size_empty numeral_2_eq_2)
  then obtain a b where ab: "qs = [a, b]" by (auto simp: numeral_2_eq_2 length_Suc_conv)
  moreover from r(3) have "set qs = {6, 7}" by (metis set_mset_mset set_mset_add_mset_insert set_mset_empty)
  ultimately have "a = 6 \<and> b = 7 \<or> a = 7 \<and> b = 6" by (simp add: doubleton_eq_iff)
  with r(4) ab have "qs = [6, 7]" by (auto simp: k)
  then have c: "calls_of ex_timers qs = [(8, 200), (9, 300)]" by (simp add: ex_timers NULL_def)
  from r(5) have "stored s' = [5]" by simp
  with r(1,2) c show ?thesis by auto
qed

text \<open>The constructor from an array throws exactly when the array is longer than the capacity; otherwise it builds
  a heap of that capacity that holds the timers of the array, whatever their order.\<close>

theorem time_heap_from_builds:
  assumes "length ts = n" and "0 < cap" and "distinct ts" and "\<forall>p \<in> set ts. load p m \<noteq> None"
  shows "\<exists>r. time_heap_from ts n cap m = Some r \<and>
    (case r of Inl e \<Rightarrow> cap < n | Inr s \<Rightarrow> n \<le> cap \<and> heap_inv s m \<and> mset (stored s) = mset ts \<and> capacity s = cap)"
proof (cases "cap < n")
  case True
  then show ?thesis by (simp add: time_heap_from_def)
next
  case False
  with time_heap_from_ok [OF assms(1) _ assms(2-4)] show ?thesis by fastforce
qed

theorem time_heap_from_builds_witness:
  "\<exists>s. time_heap_from [5, 6, 7] 3 4 ex_timers = Some (Inr s) \<and> heap_inv s ex_timers \<and> mset (stored s) = {#5, 6, 7#}"
proof -
  from time_heap_from_builds [of "[5, 6, 7]" 3 4 ex_timers] obtain r where r: "time_heap_from [5, 6, 7] 3 4 ex_timers = Some r"
    "case r of Inl e \<Rightarrow> 4 < (3::nat) | Inr s \<Rightarrow> 3 \<le> (4::nat) \<and> heap_inv s ex_timers \<and> mset (stored s) = mset [5, 6, 7] \<and> capacity s = 4"
    by (auto simp: ex_timers)
  then show ?thesis by (cases r) auto
qed

text \<open>\<open>del_timer\<close> leaves the timer in the heap and silences it: the next tick calls what it would have called,
  in the same order, except the deleted timer.\<close>

theorem heap_del_silences:
  assumes "heap_inv s m" and "p \<in> set (stored s)"
  shows "\<exists>m1 qs s' m2. heap_del_timer p m = Some m1 \<and> heap_inv s m1 \<and>
    heap_tick cur s m1 = Some (calls_of m (filter (\<lambda>q. q \<noteq> p) qs), s', m2) \<and> heap_inv s' m2 \<and>
    sorted (map (key m) qs) \<and> mset qs = filter_mset (\<lambda>q. key m q \<le> cur) (mset (stored s))"
proof -
  from heap_del_ok [OF assms] obtain m1 where a: "heap_del_timer p m = Some m1" "heap_inv s m1" "\<forall>q. key m1 q = key m q"
    "\<forall>ps. set ps \<subseteq> set (stored s) \<longrightarrow> calls_of m1 ps = calls_of m (filter (\<lambda>q. q \<noteq> p) ps)" by blast
  have k: "key m1 = key m" using a(3) by blast
  from heap_tick_ok [OF a(2), of cur] obtain qs s' m2 where b: "heap_tick cur s m1 = Some (calls_of m1 qs, s', m2)"
    "sorted (map (key m) qs)" "mset qs = filter_mset (\<lambda>q. key m q \<le> cur) (mset (stored s))" "heap_inv s' m2" unfolding k by blast
  from b(3) have "set qs \<subseteq> set (stored s)" by (metis mset_subset_eqD multiset_filter_subset set_mset_mset subsetI)
  with a(4) b a(1,2) show ?thesis by auto
qed

theorem heap_del_silences_witness:
  "\<exists>m1 s' m2. heap_del_timer 6 ex_timers = Some m1 \<and> heap_tick 15 ex_timer_heap m1 = Some ([], s', m2)"
proof -
  have k: "key ex_timers 5 = 30" "key ex_timers 6 = 10" "key ex_timers 7 = 20" by (simp_all add: key_def ex_timers)
  from heap_del_silences [OF ex_timer_heap(1), of 6 15] obtain m1 qs s' m2 where r: "heap_del_timer 6 ex_timers = Some m1"
    "heap_tick 15 ex_timer_heap m1 = Some (calls_of ex_timers (filter (\<lambda>q. q \<noteq> 6) qs), s', m2)" "mset qs = {#6#}"
    by (auto simp: ex_timer_heap(2) k)
  from r(3) have "qs = [6]" by simp
  with r(1,2) show ?thesis by auto
qed

text \<open>A heap of capacity 0 cannot be used: doubling its capacity leaves it without room, so that adding a timer
  writes outside the array, and a tick reads outside it.\<close>

theorem heap_capacity_zero_undefined:
  "(p \<noteq> NULL \<longrightarrow> heap_add_timer p (time_heap_init 0) m = None) \<and> heap_tick cur (time_heap_init 0) m = None"
  by (simp add: heap_add_timer_def heap_tick_def time_heap_init_def heap_resize_def sift_up.simps put_def get_def)

theorem heap_capacity_zero_undefined_witness: "heap_add_timer 5 (time_heap_init 0) ex_timers = None"
  using heap_capacity_zero_undefined [of 5 ex_timers] by (simp add: NULL_def)

end
