(* ===== verification/DLinks.thy ===== *)
theory DLinks
  imports Prelude
begin

text \<open>
  Doubly linked lists of nodes on a heap, for the timers: the nodes are records that extend
  \<open>dnode\<close>, so the sorted list of \<open>lst_timer.h\<close> and the slots of \<open>timing_wheel.h\<close> share the
  accesses to the links and the lemmas on linking and unlinking.
\<close>

subsection \<open>Nodes\<close>

record dnode =
  t_prev :: addr
  t_next :: addr

type_synonym 'a dmem = "'a dnode_scheme heap"

definition put_next :: "addr \<Rightarrow> addr \<Rightarrow> 'a dmem \<Rightarrow> 'a dmem option" where
  "put_next p v m = do { t \<leftarrow> load p m; store p (t\<lparr>t_next := v\<rparr>) m }"

definition put_prev :: "addr \<Rightarrow> addr \<Rightarrow> 'a dmem \<Rightarrow> 'a dmem option" where
  "put_prev p v m = do { t \<leftarrow> load p m; store p (t\<lparr>t_prev := v\<rparr>) m }"

subsection \<open>Linked segments\<close>

fun dseg :: "'a dmem \<Rightarrow> addr \<Rightarrow> addr list \<Rightarrow> addr \<Rightarrow> bool" where
  "dseg m a [] b = True"
| "dseg m a (x # xs) b = (\<exists>t. load x m = Some t \<and> t_prev t = a \<and> t_next t = hd_or xs b \<and> dseg m x xs b)"

lemma dseg_append [simp]: "dseg m a (xs @ ys) b = (dseg m a xs (hd_or ys b) \<and> dseg m (last_or a xs) ys b)"
  by (induction xs arbitrary: a) auto

lemma dseg_cong: "(\<And>x. x \<in> set xs \<Longrightarrow> load x m' = load x m) \<Longrightarrow> dseg m' a xs b = dseg m a xs b"
  by (induction xs arbitrary: a) auto

lemma dseg_live: "dseg m a xs b \<Longrightarrow> x \<in> set xs \<Longrightarrow> load x m \<noteq> None \<and> x \<noteq> NULL"
  by (induction xs arbitrary: a) auto

lemma dseg_node:
  "dseg m a (us @ x # vs) b \<Longrightarrow> \<exists>t. load x m = Some t \<and> t_prev t = last_or a us \<and> t_next t = hd_or vs b"
  by auto

text \<open>Giving the last node another successor and the first another predecessor.\<close>

lemma dseg_last:
  assumes "dseg m a (xs @ [x]) b" and "x \<notin> set xs" and "load x m' = map_option (t_next_update (\<lambda>_. b')) (load x m)"
    and "\<And>y. y \<in> set xs \<Longrightarrow> load y m' = load y m"
  shows "dseg m' a (xs @ [x]) b'"
  using assms dseg_cong [of xs m' m a x] by auto

lemma dseg_first:
  assumes "dseg m a (x # xs) b" and "x \<notin> set xs" and "load x m' = map_option (t_prev_update (\<lambda>_. a')) (load x m)"
    and "\<And>y. y \<in> set xs \<Longrightarrow> load y m' = load y m"
  shows "dseg m' a' (x # xs) b"
  using assms dseg_cong [of xs m' m x b] by auto

text \<open>The memory with the successor or the predecessor of a node changed; nothing changes at NULL.\<close>

definition with_next :: "addr \<Rightarrow> addr \<Rightarrow> 'a dmem \<Rightarrow> 'a dmem" where
  "with_next p v m = m\<lparr>cells := (cells m)(p := map_option (t_next_update (\<lambda>_. v)) (cells m p))\<rparr>"

definition with_prev :: "addr \<Rightarrow> addr \<Rightarrow> 'a dmem \<Rightarrow> 'a dmem" where
  "with_prev p v m = m\<lparr>cells := (cells m)(p := map_option (t_prev_update (\<lambda>_. v)) (cells m p))\<rparr>"

lemma load_with [simp]:
  "load q (with_next p v m) = (if q = p then map_option (t_next_update (\<lambda>_. v)) (load q m) else load q m)"
  "load q (with_prev p v m) = (if q = p then map_option (t_prev_update (\<lambda>_. v)) (load q m) else load q m)"
  by (simp_all add: with_next_def with_prev_def load_def)

lemma set_with:
  "load p m \<noteq> None \<Longrightarrow> put_next p v m = Some (with_next p v m)"
  "load p m \<noteq> None \<Longrightarrow> put_prev p v m = Some (with_prev p v m)"
  by (auto simp: put_next_def put_prev_def store_Some with_next_def with_prev_def load_def split: if_splits)

text \<open>Linking a node in, and taking one out.\<close>

definition link :: "addr list \<Rightarrow> addr \<Rightarrow> addr list \<Rightarrow> 'a dmem \<Rightarrow> 'a dmem" where
  "link us x vs m = with_next (last_or NULL us) x (with_prev (hd_or vs NULL) x
     (with_next x (hd_or vs NULL) (with_prev x (last_or NULL us) m)))"

definition unlink :: "addr list \<Rightarrow> addr list \<Rightarrow> 'a dmem \<Rightarrow> 'a dmem" where
  "unlink us vs m = with_next (last_or NULL us) (hd_or vs NULL) (with_prev (hd_or vs NULL) (last_or NULL us) m)"

lemma ends_cases: "us = [] \<or> (\<exists>us' u. us = us' @ [u])" "vs = [] \<or> (\<exists>v vs'. vs = v # vs')"
  by (cases us rule: rev_cases; simp) (cases vs; simp)

lemma dseg_prefix:
  assumes "dseg m a us c" and "distinct us" and "\<And>y. y \<in> set us \<Longrightarrow> load y m' =
      (if y = last us then map_option (t_next_update (\<lambda>_. b)) (load y m) else load y m)"
  shows "dseg m' a us b"
proof (cases us rule: rev_cases)
  case (snoc ys y)
  have "\<And>x. x \<in> set ys \<Longrightarrow> load x m' = load x m" using assms(2,3) snoc by auto
  with assms snoc show ?thesis by (auto intro: dseg_last simp del: dseg_append)
qed simp

lemma dseg_suffix:
  assumes "dseg m c vs b" and "distinct vs" and "\<And>y. y \<in> set vs \<Longrightarrow> load y m' =
      (if y = hd vs then map_option (t_prev_update (\<lambda>_. a)) (load y m) else load y m)"
  shows "dseg m' a vs b"
proof (cases vs)
  case (Cons y ys)
  with assms have "\<And>x. x \<in> set ys \<Longrightarrow> load x m' = load x m" by auto
  with assms Cons show ?thesis by (auto intro!: dseg_first [of m c y ys b m' a] simp del: dseg.simps)
qed simp

lemma link_dseg:
  assumes D: "dseg m NULL (us @ vs) NULL" and d: "distinct (us @ x # vs)" and x: "load x m \<noteq> None"
  shows "dseg (link us x vs m) NULL (us @ x # vs) NULL"
proof -
  have nn: "NULL \<notin> set us" "NULL \<notin> set vs" "x \<noteq> NULL" using D x dseg_live [of m NULL us] dseg_live [of m _ vs NULL] by auto
  have l: "last_or NULL us = (if us = [] then NULL else last us)" and h: "hd_or vs NULL = (if vs = [] then NULL else hd vs)"
    by (auto simp: last_or_def hd_or_def split: list.split)
  have "dseg (link us x vs m) NULL us x"
  proof (rule dseg_prefix [of m NULL us "hd_or vs NULL"])
    fix y assume y: "y \<in> set us"
    moreover have "y \<noteq> x" "y \<noteq> hd_or vs NULL" using y d nn(1) by (auto simp: h dest: hd_in_set split: if_splits)
    ultimately show "load y (link us x vs m) = (if y = last us then map_option (t_next_update (\<lambda>_. x)) (load y m) else load y m)"
      by (cases "us = []") (auto simp: link_def l)
  qed (use D d in auto)
  moreover have "dseg (link us x vs m) x vs NULL"
  proof (rule dseg_suffix [of m "last_or NULL us" vs NULL])
    fix y assume y: "y \<in> set vs"
    moreover have "y \<noteq> x" "y \<noteq> last_or NULL us" using y d nn(2) by (auto simp: l dest: last_in_set split: if_splits)
    ultimately show "load y (link us x vs m) = (if y = hd vs then map_option (t_prev_update (\<lambda>_. x)) (load y m) else load y m)"
      by (cases "vs = []") (auto simp: link_def h)
  qed (use D d in auto)
  moreover have "x \<noteq> last_or NULL us" "x \<noteq> hd_or vs NULL" using d nn(3) by (auto simp: l h)
  ultimately show ?thesis using x by (auto simp: link_def)
qed

lemma unlink_dseg:
  assumes D: "dseg m NULL (us @ x # vs) NULL" and d: "distinct (us @ x # vs)"
  shows "dseg (unlink us vs m) NULL (us @ vs) NULL"
proof -
  have nn: "NULL \<notin> set us" "NULL \<notin> set vs" using D dseg_live [of m NULL us] dseg_live [of m x vs NULL] by auto
  have l: "last_or NULL us = (if us = [] then NULL else last us)" and h: "hd_or vs NULL = (if vs = [] then NULL else hd vs)"
    by (auto simp: last_or_def hd_or_def split: list.split)
  have "dseg (unlink us vs m) NULL us (hd_or vs NULL)"
  proof (rule dseg_prefix [of m NULL us x])
    fix y assume y: "y \<in> set us"
    moreover have "y \<noteq> hd_or vs NULL" using y d nn(1) by (auto simp: h dest: hd_in_set split: if_splits)
    ultimately show "load y (unlink us vs m) = (if y = last us then map_option (t_next_update (\<lambda>_. hd_or vs NULL)) (load y m) else load y m)"
      by (cases "us = []") (auto simp: unlink_def l)
  qed (use D d in auto)
  moreover have "dseg (unlink us vs m) (last_or NULL us) vs NULL"
  proof (rule dseg_suffix [of m x vs NULL])
    fix y assume y: "y \<in> set vs"
    moreover have "y \<noteq> last_or NULL us" using y d nn(2) by (auto simp: l dest: last_in_set split: if_splits)
    ultimately show "load y (unlink us vs m) = (if y = hd vs then map_option (t_prev_update (\<lambda>_. last_or NULL us)) (load y m) else load y m)"
      by (cases "vs = []") (auto simp: unlink_def h)
  qed (use D d in auto)
  ultimately show ?thesis by simp
qed

text \<open>Two memories that agree on every timer are the same for the list.\<close>

definition same_mem :: "'a dmem \<Rightarrow> 'a dmem \<Rightarrow> bool" where
  "same_mem m m' \<longleftrightarrow> (\<forall>q. load q m' = load q m)"

lemma same_memD: "same_mem m m' \<Longrightarrow> load q m' = load q m"
  by (simp add: same_mem_def)

lemma dseg_same: "same_mem m m' \<Longrightarrow> dseg m' a xs b = dseg m a xs b"
  by (rule dseg_cong) (simp add: same_mem_def)

lemma load_link: "q \<noteq> x \<Longrightarrow> q \<notin> set us \<Longrightarrow> q \<notin> set vs \<Longrightarrow> load q (link us x vs m) = load q m"
  by (cases us rule: rev_cases; cases vs) (auto simp: link_def)

lemma load_link_live: "(load q (link us x vs m) = None) = (load q m = None)"
  by (auto simp: link_def)

lemma last_or_live: "dseg m NULL us b \<Longrightarrow> us \<noteq> [] \<Longrightarrow> load (last_or NULL us) m \<noteq> None"
  using dseg_live [of m NULL us b "last us"] by (auto simp: last_or_def)

lemma load_unlink:
  "q \<notin> set us \<Longrightarrow> q \<notin> set vs \<Longrightarrow> load q (unlink us vs m) = load q m"
  by (cases us rule: rev_cases; cases vs) (auto simp: unlink_def)

lemma free_dseg:
  assumes "dseg m a xs b" and "x \<notin> set xs" and "load x m \<noteq> None"
  shows "\<exists>m'. free x m = Some m' \<and> dseg m' a xs b \<and> (\<forall>q. load q m' = (if q = x then None else load q m))"
proof -
  let ?m = "m\<lparr>cells := (cells m)(x := None)\<rparr>"
  have l: "load q ?m = (if q = x then None else load q m)" for q using assms(3) by (auto simp: load_def)
  have "dseg ?m a xs b = dseg m a xs b" by (rule dseg_cong) (use l assms(2) in auto)
  then show ?thesis using assms l by (auto simp: free_Some)
qed

lemma dseg_unique: "dseg m a xs NULL \<Longrightarrow> dseg m b ys NULL \<Longrightarrow> hd_or xs NULL = hd_or ys NULL \<Longrightarrow> xs = ys"
proof (induction xs arbitrary: a b ys)
  case Nil
  then show ?case by (cases ys) auto
next
  case (Cons x xs)
  then have "x \<noteq> NULL" by auto
  with Cons.prems obtain zs where "ys = x # zs" by (cases ys) auto
  with Cons.prems Cons.IH [of x x zs] show ?case by auto
qed

text \<open>Freeing a node after it was unlinked, in whatever order the links were changed.\<close>

lemma unlink_free:
  assumes D: "dseg m NULL (us @ x # vs) NULL" and d: "distinct (us @ x # vs)" and w: "same_mem (unlink us vs m) w"
  shows "\<exists>m'. free x w = Some m' \<and> dseg m' NULL (us @ vs) NULL \<and>
    (\<forall>q. load q m' = (if q = x then None else load q (unlink us vs m)))"
proof -
  have "dseg w NULL (us @ vs) NULL" using unlink_dseg [OF D d] dseg_same [OF w] by blast
  moreover have "load x w \<noteq> None" using same_memD [OF w] load_unlink [of x us vs m] d dseg_node [OF D] by auto
  ultimately show ?thesis using free_dseg [of w NULL "us @ vs" NULL x] d same_memD [OF w] by auto
qed

end
