(* ===== verification/TimerList.thy ===== *)
theory TimerList
  imports DLinks
begin

text \<open>
  The timer list of \<open>lst_timer.h\<close>: a doubly linked list of timers in the order of the absolute time at
  which they expire, on an explicit heap; every access to a timer that does not exist is undefined.
  Callbacks are recorded with their argument; they do not touch the timers.
\<close>

subsection \<open>Data\<close>

text \<open>\<open>util_timer\<close>; its \<open>prev\<close> and \<open>next\<close> are those of \<^typ>\<open>dnode\<close>.\<close>

record util_timer = dnode +
  t_expire :: int
  t_cb_func :: nat
  t_user_data :: addr

type_synonym lst_mem = "util_timer heap"

record sort_timer_lst =
  lst_head :: addr
  lst_tail :: addr

definition sort_timer_lst_init :: sort_timer_lst where
  "sort_timer_lst_init = \<lparr>lst_head = NULL, lst_tail = NULL\<rparr>"

subsection \<open>The operations\<close>

text \<open>The private \<open>add_timer(timer, lst_head)\<close>.\<close>

partial_function (option) add_after_loop :: "addr \<Rightarrow> addr \<Rightarrow> addr \<Rightarrow> sort_timer_lst \<Rightarrow> lst_mem \<Rightarrow> (sort_timer_lst \<times> lst_mem) option" where
  [code]: "add_after_loop timer prev tmp s m =
     (if tmp \<noteq> NULL then do {
        t \<leftarrow> load timer m;
        u \<leftarrow> load tmp m;
        if t_expire t < t_expire u then do {
          m \<leftarrow> put_next prev timer m;
          m \<leftarrow> put_next timer tmp m;
          m \<leftarrow> put_prev tmp timer m;
          m \<leftarrow> put_prev timer prev m;
          Some (s, m) }
        else add_after_loop timer tmp (t_next u) s m }
      else do {
        m \<leftarrow> put_next prev timer m;
        m \<leftarrow> put_prev timer prev m;
        m \<leftarrow> put_next timer NULL m;
        Some (s\<lparr>lst_tail := timer\<rparr>, m) })"

definition add_after :: "addr \<Rightarrow> addr \<Rightarrow> sort_timer_lst \<Rightarrow> lst_mem \<Rightarrow> (sort_timer_lst \<times> lst_mem) option" where
  "add_after timer first s m = do { u \<leftarrow> load first m; add_after_loop timer first (t_next u) s m }"

definition lst_add_timer :: "addr \<Rightarrow> sort_timer_lst \<Rightarrow> lst_mem \<Rightarrow> (sort_timer_lst \<times> lst_mem) option" where
  "lst_add_timer timer s m =
     (if timer = NULL then Some (s, m)
      else if lst_head s = NULL then Some (s\<lparr>lst_head := timer, lst_tail := timer\<rparr>, m)
      else do {
        t \<leftarrow> load timer m;
        u \<leftarrow> load (lst_head s) m;
        if t_expire t < t_expire u then do {
          m \<leftarrow> put_next timer (lst_head s) m;
          m \<leftarrow> put_prev (lst_head s) timer m;
          Some (s\<lparr>lst_head := timer\<rparr>, m) }
        else add_after timer (lst_head s) s m })"

definition lst_adjust_timer :: "addr \<Rightarrow> sort_timer_lst \<Rightarrow> lst_mem \<Rightarrow> (sort_timer_lst \<times> lst_mem) option" where
  "lst_adjust_timer timer s m =
     (if timer = NULL then Some (s, m)
      else do {
        t \<leftarrow> load timer m;
        let tmp = t_next t;
        stay \<leftarrow> (if tmp = NULL then Some True else map_option (\<lambda>u. t_expire t < t_expire u) (load tmp m));
        if stay then Some (s, m)
        else if timer = lst_head s then do {
          h \<leftarrow> load (lst_head s) m;
          let s = s\<lparr>lst_head := t_next h\<rparr>;
          m \<leftarrow> put_prev (lst_head s) NULL m;
          m \<leftarrow> put_next timer NULL m;
          add_after timer (lst_head s) s m }
        else do {
          m \<leftarrow> put_next (t_prev t) (t_next t) m;
          m \<leftarrow> put_prev (t_next t) (t_prev t) m;
          t \<leftarrow> load timer m;
          add_after timer (t_next t) s m } })"

definition lst_del_timer :: "addr \<Rightarrow> sort_timer_lst \<Rightarrow> lst_mem \<Rightarrow> (sort_timer_lst \<times> lst_mem) option" where
  "lst_del_timer timer s m =
     (if timer = NULL then Some (s, m)
      else if timer = lst_head s \<and> timer = lst_tail s then do {
        m \<leftarrow> free timer m;
        Some (s\<lparr>lst_head := NULL, lst_tail := NULL\<rparr>, m) }
      else if timer = lst_head s then do {
        h \<leftarrow> load (lst_head s) m;
        m \<leftarrow> put_prev (t_next h) NULL m;
        m \<leftarrow> free timer m;
        Some (s\<lparr>lst_head := t_next h\<rparr>, m) }
      else if timer = lst_tail s then do {
        t \<leftarrow> load (lst_tail s) m;
        m \<leftarrow> put_next (t_prev t) NULL m;
        m \<leftarrow> free timer m;
        Some (s\<lparr>lst_tail := t_prev t\<rparr>, m) }
      else do {
        t \<leftarrow> load timer m;
        m \<leftarrow> put_next (t_prev t) (t_next t) m;
        t \<leftarrow> load timer m;
        m \<leftarrow> put_prev (t_next t) (t_prev t) m;
        m \<leftarrow> free timer m;
        Some (s, m) })"

type_synonym lst_calls = "(nat \<times> addr) list"

partial_function (option) lst_tick_loop ::
  "int \<Rightarrow> addr \<Rightarrow> sort_timer_lst \<Rightarrow> lst_mem \<Rightarrow> (lst_calls \<times> sort_timer_lst \<times> lst_mem) option" where
  [code]: "lst_tick_loop cur tmp s m =
     (if tmp = NULL then Some ([], s, m)
      else do {
        t \<leftarrow> load tmp m;
        if cur < t_expire t then Some ([], s, m)
        else do {
          let s = s\<lparr>lst_head := t_next t\<rparr>;
          m \<leftarrow> (if lst_head s \<noteq> NULL then put_prev (lst_head s) NULL m else Some m);
          m \<leftarrow> free tmp m;
          (calls, s, m) \<leftarrow> lst_tick_loop cur (lst_head s) s m;
          Some ((t_cb_func t, t_user_data t) # calls, s, m) } })"

definition lst_tick :: "int \<Rightarrow> sort_timer_lst \<Rightarrow> lst_mem \<Rightarrow> (lst_calls \<times> sort_timer_lst \<times> lst_mem) option" where
  "lst_tick cur s m = (if lst_head s = NULL then Some ([], s, m) else lst_tick_loop cur (lst_head s) s m)"

text \<open>The destructor.\<close>

partial_function (option) lst_delete_loop :: "addr \<Rightarrow> lst_mem \<Rightarrow> lst_mem option" where
  [code]: "lst_delete_loop tmp m =
     (if tmp = NULL then Some m
      else do { t \<leftarrow> load tmp m; m \<leftarrow> free tmp m; lst_delete_loop (t_next t) m })"

definition lst_delete :: "sort_timer_lst \<Rightarrow> lst_mem \<Rightarrow> lst_mem option" where
  "lst_delete s m = lst_delete_loop (lst_head s) m"

end
