(* ===== verification/TimerListOk.thy ===== *)
theory TimerListOk
  imports TimerList TimerStore
begin

text \<open>
  The shape of the timer list, what linking and unlinking do to it, and each operation as an
  operation on lists of timers.
\<close>

subsection \<open>Times\<close>

definition tkey :: "lst_mem \<Rightarrow> addr \<Rightarrow> int" where
  "tkey m p = t_expire (the (load p m))"

lemma the_map_expire:
  "t_expire (the (map_option (t_next_update f) r)) = t_expire (the r)"
  "t_expire (the (map_option (t_prev_update f) r)) = t_expire (the r)"
  by (cases r; simp)+

lemma tkey_with [simp]: "tkey (with_next p v m) q = tkey m q" "tkey (with_prev p v m) q = tkey m q"
  by (simp_all only: tkey_def load_with if_distrib the_map_expire if_cancel split: if_split)

subsection \<open>The operations on lists\<close>

definition lst_inv :: "sort_timer_lst \<Rightarrow> lst_mem \<Rightarrow> addr list \<Rightarrow> bool" where
  "lst_inv s m xs \<longleftrightarrow> dseg m NULL xs NULL \<and> distinct xs \<and> lst_head s = hd_or xs NULL \<and> (xs \<noteq> [] \<longrightarrow> lst_tail s = last xs)"

lemma lst_invD:
  assumes "lst_inv s m xs"
  shows "dseg m NULL xs NULL" and "distinct xs" and "lst_head s = hd_or xs NULL" and "xs \<noteq> [] \<Longrightarrow> lst_tail s = last xs"
    and "x \<in> set xs \<Longrightarrow> load x m \<noteq> None" and "NULL \<notin> set xs"
  using assms dseg_live [of m NULL xs NULL] by (auto simp: lst_inv_def)

text \<open>The place of a timer: behind those that expire no later.\<close>

definition put_timer :: "(addr \<Rightarrow> int) \<Rightarrow> addr \<Rightarrow> addr list \<Rightarrow> addr list" where
  "put_timer k x xs = takeWhile (\<lambda>y. k y \<le> k x) xs @ x # dropWhile (\<lambda>y. k y \<le> k x) xs"

lemma mset_put_timer [simp]: "mset (put_timer k x xs) = add_mset x (mset xs)"
proof -
  have "mset (takeWhile (\<lambda>y. k y \<le> k x) xs) + mset (dropWhile (\<lambda>y. k y \<le> k x) xs) = mset xs"
    by (metis mset_append takeWhile_dropWhile_id)
  then show ?thesis by (simp add: put_timer_def)
qed

lemma sorted_put_timer: "sorted (map k xs) \<Longrightarrow> sorted (map k (put_timer k x xs))"
proof (induction xs)
  case (Cons y ys)
  then show ?case
    by (cases "k y \<le> k x") (auto simp: put_timer_def dest!: set_takeWhileD set_dropWhileD)
qed (simp add: put_timer_def)

text \<open>
  The search of the private \<open>add_timer\<close>: the list is \<open>us @ vs\<close> without the timer, which already has the
  links of the place it came from.
\<close>

lemma add_after_loop_ok:
  assumes "dseg m NULL (us @ vs) NULL" and "distinct (us @ x # vs)" and "us \<noteq> []" and "load x m \<noteq> None"
  shows "\<exists>m'. add_after_loop x (last us) (hd_or vs NULL) s m =
      Some (if \<forall>y \<in> set vs. tkey m y \<le> tkey m x then s\<lparr>lst_tail := x\<rparr> else s, m') \<and>
    same_mem (link (us @ takeWhile (\<lambda>y. tkey m y \<le> tkey m x) vs) x (dropWhile (\<lambda>y. tkey m y \<le> tkey m x) vs) m) m'"
  using assms
proof (induction vs arbitrary: us)
  case Nil
  have l: "load (last us) m \<noteq> None" "last us \<noteq> x" using Nil.prems dseg_live [of m NULL us NULL "last us"] by auto
  let ?m = "with_next x NULL (with_prev x (last us) (with_next (last us) x m))"
  have "add_after_loop x (last us) NULL s m = Some (s\<lparr>lst_tail := x\<rparr>, ?m)"
    using l Nil.prems(4) by (simp add: add_after_loop.simps set_with)
  moreover have "same_mem (link us x [] m) ?m" using l Nil.prems(3)
    by (auto simp: same_mem_def link_def last_or_def option.map_comp comp_def)
  ultimately show ?case by auto
next
  case (Cons v vs)
  have l: "load (last us) m \<noteq> None" "last us \<noteq> x" using Cons.prems dseg_live [of m NULL us v "last us"] by auto
  obtain u where u: "load v m = Some u" "t_next u = hd_or vs NULL" using Cons.prems(1) by auto
  obtain t where t: "load x m = Some t" using Cons.prems(4) by auto
  have ne: "v \<noteq> NULL" "v \<noteq> x" "v \<noteq> last us" using u Cons.prems(2,3) last_in_set [of us] by auto
  have k: "tkey m v = t_expire u" "tkey m x = t_expire t" using u t by (simp_all add: tkey_def)
  show ?case
  proof (cases "tkey m v \<le> tkey m x")
    case True
    from Cons.IH [of "us @ [v]"] Cons.prems True obtain m' where
      "add_after_loop x v (hd_or vs NULL) s m = Some (if \<forall>y \<in> set vs. tkey m y \<le> tkey m x then s\<lparr>lst_tail := x\<rparr> else s, m')"
      "same_mem (link (us @ v # takeWhile (\<lambda>y. tkey m y \<le> tkey m x) vs) x (dropWhile (\<lambda>y. tkey m y \<le> tkey m x) vs) m) m'" by auto
    then show ?thesis using True u t ne k by (subst add_after_loop.simps) auto
  next
    case False
    let ?m = "with_prev x (last us) (with_prev v x (with_next x v (with_next (last us) x m)))"
    have "add_after_loop x (last us) v s m = Some (s, ?m)"
      using False l u t ne k by (subst add_after_loop.simps) (simp add: set_with)
    moreover have "same_mem (link us x (v # vs) m) ?m" using l ne Cons.prems(3) t
      by (auto simp: same_mem_def link_def last_or_def option.map_comp comp_def)
    ultimately show ?thesis using False by auto
  qed
qed

lemma link_tkey [simp]: "tkey (link us x vs m) q = tkey m q" "tkey (unlink us vs m) q = tkey m q"
  by (simp_all add: link_def unlink_def)

lemma same_tkey: "same_mem m m' \<Longrightarrow> tkey m' q = tkey m q"
  by (simp add: same_mem_def tkey_def)

text \<open>Adding a timer to the rest of a sorted list behind \<open>us\<close>.\<close>

lemma add_after_ok:
  assumes D: "dseg m NULL (us @ v # vs) NULL" and d: "distinct (us @ x # v # vs)" and x: "load x m \<noteq> None"
    and le: "tkey m v \<le> tkey m x" and hd: "lst_head s = hd_or (us @ [v]) NULL" and tl: "vs \<noteq> [] \<longrightarrow> lst_tail s = last vs"
  shows "\<exists>s' m'. add_after x v s m = Some (s', m') \<and> lst_inv s' m' (us @ put_timer (tkey m) x (v # vs)) \<and>
    (\<forall>q. tkey m' q = tkey m q) \<and> (\<forall>q. q \<noteq> x \<longrightarrow> q \<notin> set (us @ v # vs) \<longrightarrow> load q m' = load q m)"
proof -
  define l where "l = takeWhile (\<lambda>y. tkey m y \<le> tkey m x) vs"
  define r where "r = dropWhile (\<lambda>y. tkey m y \<le> tkey m x) vs"
  have vs: "vs = l @ r" by (simp add: l_def r_def)
  obtain u where u: "load v m = Some u" "t_next u = hd_or vs NULL" using D by auto
  let ?s = "if \<forall>y \<in> set vs. tkey m y \<le> tkey m x then s\<lparr>lst_tail := x\<rparr> else s"
  from add_after_loop_ok [of m "us @ [v]" vs x s] D d x obtain m' where
    m': "add_after_loop x v (hd_or vs NULL) s m = Some (?s, m')" "same_mem (link (us @ v # l) x r m) m'"
    by (auto simp: l_def r_def)
  have ps: "put_timer (tkey m) x (v # vs) = v # l @ x # r" using le by (simp add: put_timer_def l_def r_def)
  have dd: "distinct ((us @ v # l) @ x # r)" using d unfolding vs by auto
  have "dseg m NULL ((us @ v # l) @ r) NULL" using D unfolding vs by simp
  from link_dseg [OF this dd x] have "dseg m' NULL ((us @ v # l) @ x # r) NULL" unfolding dseg_same [OF m'(2)] .
  then have "dseg m' NULL (us @ put_timer (tkey m) x (v # vs)) NULL"
    unfolding ps by (simp del: dseg_append dseg.simps)
  moreover have "lst_tail ?s = last (x # r)"
  proof (cases "\<forall>y \<in> set vs. tkey m y \<le> tkey m x")
    case True
    then have "r = []" by (simp add: r_def)
    with True show ?thesis by simp
  next
    case False
    then have "r \<noteq> []" by (auto simp: r_def)
    then show ?thesis using False tl vs by auto
  qed
  ultimately have "lst_inv ?s m' (us @ put_timer (tkey m) x (v # vs))"
    using dd hd unfolding lst_inv_def ps by (cases us) auto
  moreover have "load q m' = load q m" if "q \<noteq> x" "q \<notin> set (us @ v # vs)" for q
    using that same_memD [OF m'(2)] load_link [of q x "us @ v # l" r m] unfolding vs by auto
  ultimately show ?thesis using m'(1) u same_tkey [OF m'(2)] by (auto simp: add_after_def)
qed

lemma lst_add_ok:
  assumes I: "lst_inv s m xs" and x: "load x m = Some t" "t_prev t = NULL" "t_next t = NULL" "x \<notin> set xs"
  shows "\<exists>s' m'. lst_add_timer x s m = Some (s', m') \<and> lst_inv s' m' (put_timer (tkey m) x xs) \<and>
    (\<forall>q. tkey m' q = tkey m q) \<and> (\<forall>q. q \<noteq> x \<longrightarrow> q \<notin> set xs \<longrightarrow> load q m' = load q m)"
proof (cases xs)
  case Nil
  let ?s = "s\<lparr>lst_head := x, lst_tail := x\<rparr>"
  have "lst_add_timer x s m = Some (?s, m)" using I Nil x(1) by (auto simp: lst_add_timer_def lst_inv_def)
  moreover have "lst_inv ?s m [x]" using x by (simp add: lst_inv_def)
  ultimately show ?thesis using Nil by (auto simp: put_timer_def)
next
  case (Cons v vs)
  note D = lst_invD [OF I]
  obtain u where u: "load v m = Some u" using D(1) Cons by auto
  have vn: "v \<noteq> NULL" "x \<noteq> NULL" "v \<noteq> x" using u x Cons by auto
  have k: "tkey m v = t_expire u" "tkey m x = t_expire t" using u x by (simp_all add: tkey_def)
  show ?thesis
  proof (cases "tkey m x < tkey m v")
    case True
    let ?s = "s\<lparr>lst_head := x\<rparr>" and ?m = "with_prev v x (with_next x v m)"
    have st: "lst_add_timer x s m = Some (?s, ?m)"
      using D(3) Cons vn u x(1) k True by (simp add: lst_add_timer_def set_with)
    have "same_mem (link [] x xs m) ?m"
      using x vn Cons by (auto simp: same_mem_def link_def last_or_def option.map_comp comp_def)
    moreover have "dseg (link [] x xs m) NULL (x # xs) NULL" using link_dseg [of m "[]" xs x] D(1,2) x by simp
    ultimately have "dseg ?m NULL (x # xs) NULL" using dseg_same by blast
    then have "lst_inv ?s ?m (x # xs)" using D x(4) Cons by (simp add: lst_inv_def)
    then show ?thesis using st True Cons by (auto simp: put_timer_def)
  next
    case False
    have "lst_add_timer x s m = add_after x v s m"
      using D(3) Cons vn u x(1) k False by (simp add: lst_add_timer_def)
    with add_after_ok [of m "[]" v vs x s] D(1-4) x(1,4) False Cons show ?thesis by auto
  qed
qed

text \<open>Taking a timer out.\<close>

lemma lst_del_ok:
  assumes I: "lst_inv s m (us @ x # vs)"
  shows "\<exists>s' m'. lst_del_timer x s m = Some (s', m') \<and> lst_inv s' m' (us @ vs) \<and> load x m' = None \<and>
    (\<forall>q. q \<noteq> x \<longrightarrow> tkey m' q = tkey m q) \<and> (\<forall>q. q \<notin> set (us @ x # vs) \<longrightarrow> load q m' = load q m)"
proof -
  note D = lst_invD [OF I]
  have d: "distinct (us @ x # vs)" by (rule D(2))
  obtain t where t: "load x m = Some t" "t_prev t = last_or NULL us" "t_next t = hd_or vs NULL"
    using dseg_node [OF D(1)] by blast
  have xn: "x \<noteq> NULL" using t by auto
  have h: "x = lst_head s \<longleftrightarrow> us = []" using D(3) d by (cases us) auto
  have tl: "x = lst_tail s \<longleftrightarrow> vs = []" using D(4) d by (cases vs rule: rev_cases) auto
  have "dseg (unlink us vs m) NULL (us @ vs) NULL" by (rule unlink_dseg [OF D(1) d])
  moreover have ux: "load x (unlink us vs m) = Some t" using load_unlink [of x us vs m] d t(1) by simp
  ultimately obtain m2 where m2: "free x (unlink us vs m) = Some m2" "dseg m2 NULL (us @ vs) NULL"
      "\<forall>q. load q m2 = (if q = x then None else load q (unlink us vs m))"
    using free_dseg [of "unlink us vs m" NULL "us @ vs" NULL x] d by auto
  have lv: "vs \<noteq> [] \<Longrightarrow> load (hd_or vs NULL) m \<noteq> None" using D(5) by (cases vs) auto
  have lu: "us \<noteq> [] \<Longrightarrow> load (last_or NULL us) m \<noteq> None" using D(1) last_or_live by auto
  have ne: "us \<noteq> [] \<Longrightarrow> last_or NULL us \<noteq> x" "vs \<noteq> [] \<Longrightarrow> hd_or vs NULL \<noteq> x" "us \<noteq> [] \<Longrightarrow> vs \<noteq> [] \<Longrightarrow> last_or NULL us \<noteq> hd_or vs NULL"
    using d last_in_set [of us] by (auto simp: last_or_def) (cases vs; auto)+
  have done': ?thesis if "lst_del_timer x s m = Some (s', m')" "same_mem m2 m'"
    "us @ vs \<noteq> [] \<longrightarrow> lst_tail s' = last (us @ vs)" "lst_head s' = hd_or (us @ vs) NULL" for s' m'
  proof (intro exI conjI)
    show "lst_del_timer x s m = Some (s', m')" by (rule that(1))
    show "lst_inv s' m' (us @ vs)" using that(3,4) m2(2) dseg_same [OF that(2)] d by (simp add: lst_inv_def)
    show "load x m' = None" using same_memD [OF that(2)] m2(3) by simp
    show "\<forall>q. q \<noteq> x \<longrightarrow> tkey m' q = tkey m q"
    proof (intro allI impI)
      fix q assume "q \<noteq> x"
      then have "tkey m' q = tkey (unlink us vs m) q" using same_memD [OF that(2)] m2(3) by (simp add: tkey_def)
      then show "tkey m' q = tkey m q" by simp
    qed
    show "\<forall>q. q \<notin> set (us @ x # vs) \<longrightarrow> load q m' = load q m"
      using same_memD [OF that(2)] m2(3) load_unlink [of _ us vs m] by auto
  qed
  have fr: "\<exists>m'. free x w = Some m' \<and> same_mem m2 m'" if "same_mem (unlink us vs m) w" for w
  proof -
    have "load x w = Some t" using that ux by (simp add: same_mem_def)
    moreover from this have "load q (w\<lparr>cells := (cells w)(x := None)\<rparr>) = load q m2" for q
      using same_memD [OF that, of q] m2(3) xn by (simp add: load_cells_upd)
    ultimately show ?thesis by (auto simp: free_Some same_mem_def)
  qed
  show ?thesis
  proof (cases "us = []"; cases "vs = []")
    assume c: "us = []" "vs = []"
    then have "same_mem (unlink us vs m) m" by (simp add: same_mem_def unlink_def)
    from fr [OF this] obtain m' where "free x m = Some m'" "same_mem m2 m'" by blast
    then show ?thesis using c h tl xn by (intro done' [of "s\<lparr>lst_head := NULL, lst_tail := NULL\<rparr>" m']) (auto simp: lst_del_timer_def)
  next
    assume c: "us = []" "vs \<noteq> []"
    let ?w = "with_prev (hd_or vs NULL) NULL m"
    have "same_mem (unlink us vs m) ?w" using c by (simp add: same_mem_def unlink_def)
    from fr [OF this] obtain m' where "free x ?w = Some m'" "same_mem m2 m'" by blast
    then show ?thesis using c h tl xn t lv D(4) set_with(2) [of "hd_or vs NULL" m NULL]
      by (intro done' [of "s\<lparr>lst_head := hd_or vs NULL\<rparr>" m']) (auto simp: lst_del_timer_def)
  next
    assume c: "us \<noteq> []" "vs = []"
    let ?w = "with_next (last_or NULL us) NULL m"
    have "same_mem (unlink us vs m) ?w" using c by (simp add: same_mem_def unlink_def)
    from fr [OF this] obtain m' where "free x ?w = Some m'" "same_mem m2 m'" by blast
    moreover have "hd_or us b = hd_or us NULL" for b using c by (cases us) auto
    ultimately show ?thesis using c h tl xn t lu D(3) set_with(1) [of "last_or NULL us" m NULL]
      by (intro done' [of "s\<lparr>lst_tail := last_or NULL us\<rparr>" m']) (auto simp: lst_del_timer_def last_or_def)
  next
    assume c: "us \<noteq> []" "vs \<noteq> []"
    let ?w1 = "with_next (last_or NULL us) (hd_or vs NULL) m"
    let ?w = "with_prev (hd_or vs NULL) (last_or NULL us) ?w1"
    have w1: "load x ?w1 = Some t" using t ne(1) [OF c(1)] by simp
    have s1: "put_next (last_or NULL us) (hd_or vs NULL) m = Some ?w1" using lu [OF c(1)] by (rule set_with)
    have s2: "put_prev (hd_or vs NULL) (last_or NULL us) ?w1 = Some ?w" using lv [OF c(2)] ne(3) [OF c] by (intro set_with) auto
    have "same_mem (unlink us vs m) ?w" using ne(3) [OF c] by (auto simp: same_mem_def unlink_def)
    from fr [OF this] obtain m' where m': "free x ?w = Some m'" "same_mem m2 m'" by blast
    have "lst_del_timer x s m = Some (s, m')" using c h tl xn t w1 s1 s2 m'(1) by (simp add: lst_del_timer_def)
    moreover have "hd_or us x = hd_or us (hd_or vs NULL)" using c by (cases us) auto
    ultimately show ?thesis using m'(2) D(3,4) c by (intro done' [of s m']) auto
  qed
qed

text \<open>A timer whose time was put off moves behind the timers that now expire no later.\<close>

lemma lst_adjust_ok:
  assumes I: "lst_inv s m (us @ x # vs)"
  shows "\<exists>s' m'. lst_adjust_timer x s m = Some (s', m') \<and> lst_inv s' m' (us @ put_timer (tkey m) x vs) \<and>
    (\<forall>q. tkey m' q = tkey m q)"
proof -
  note D = lst_invD [OF I]
  have d: "distinct (us @ x # vs)" by (rule D(2))
  obtain t where t: "load x m = Some t" "t_prev t = last_or NULL us" "t_next t = hd_or vs NULL"
    using dseg_node [OF D(1)] by blast
  have xn: "x \<noteq> NULL" using t by auto
  have stay: ?thesis if "lst_adjust_timer x s m = Some (s, m)" "put_timer (tkey m) x vs = x # vs"
    using that I by auto
  show ?thesis
  proof (cases vs)
    case Nil
    then show ?thesis using t xn by (intro stay) (auto simp: lst_adjust_timer_def put_timer_def)
  next
    case (Cons v ws)
    obtain u where u: "load v m = Some u" "v \<noteq> NULL" using D(5) [of v] D(6) Cons by auto
    have k: "tkey m x = t_expire t" "tkey m v = t_expire u" using t u by (simp_all add: tkey_def)
    show ?thesis
    proof (cases "tkey m x < tkey m v")
      case True
      then show ?thesis using t u xn k Cons by (intro stay) (auto simp: lst_adjust_timer_def put_timer_def)
    next
      case False
      then have le: "tkey m v \<le> tkey m x" by simp
      let ?m = "unlink us vs m"
      have seg: "dseg ?m NULL (us @ v # ws) NULL" using unlink_dseg [OF D(1) d] unfolding Cons .
      have dv: "distinct (us @ x # v # ws)" using d unfolding Cons .
      have x': "load x ?m = Some t" using load_unlink [of x us vs m] d t(1) by simp
      show ?thesis
      proof (cases "us = []")
        case True
        let ?w = "with_next x NULL (with_prev v NULL m)" and ?s = "s\<lparr>lst_head := v\<rparr>"
        have xv: "x \<noteq> v" using dv by auto
        have "lst_adjust_timer x s m = add_after x v ?s ?w"
          using t u xn k Cons False True D(3) xv by (simp add: lst_adjust_timer_def set_with)
        moreover have "dseg ?w NULL ([] @ v # ws) NULL"
        proof -
          have "dseg ?w NULL (v # ws) NULL = dseg ?m NULL (v # ws) NULL"
            by (rule dseg_cong) (use dv True Cons in \<open>auto simp: unlink_def\<close>)
          then show ?thesis using seg True by simp
        qed
        moreover have "load x ?w \<noteq> None" using t xv by simp
        ultimately show ?thesis
          using add_after_ok [of ?w "[]" v ws x ?s] dv True le D(4) Cons by (auto simp: put_timer_def)
      next
        case ne: False
        let ?w1 = "with_next (last_or NULL us) v m"
        let ?w = "with_prev v (last_or NULL us) ?w1"
        have l: "last_or NULL us \<noteq> x" "last_or NULL us \<noteq> v" "load (last_or NULL us) m \<noteq> None" "x \<noteq> v"
          using ne dv last_in_set [OF ne] last_or_live [of m us x] D(1) by (auto simp: last_or_def)
        have hx: "x \<noteq> lst_head s" using D(3) ne d by (cases us) auto
        have s1: "put_next (last_or NULL us) v m = Some ?w1" using l(3) by (rule set_with)
        have s2: "put_prev v (last_or NULL us) ?w1 = Some ?w" using u l(2) by (intro set_with) auto
        have x2: "load x ?w = Some t" using t l by simp
        have "lst_adjust_timer x s m = add_after x v s ?w"
          using t u xn k Cons False hx s1 s2 x2 by (simp add: lst_adjust_timer_def)
        moreover have "same_mem ?m ?w" using l(2) Cons by (auto simp: same_mem_def unlink_def)
        then have "dseg ?w NULL (us @ v # ws) NULL" using seg dseg_same by blast
        moreover have "lst_head s = hd_or (us @ [v]) NULL" "ws \<noteq> [] \<longrightarrow> lst_tail s = last ws"
          using D(3,4) ne Cons by (cases us; simp)+
        moreover have keq: "tkey ?w = tkey m" by (rule ext) simp
        ultimately obtain s' m' where "lst_adjust_timer x s m = Some (s', m')"
          "lst_inv s' m' (us @ put_timer (tkey m) x (v # ws))" "\<forall>q. tkey m' q = tkey m q"
          using add_after_ok [of ?w us v ws x s] dv le x2 unfolding keq by auto
        then show ?thesis unfolding Cons by blast
      qed
    qed
  qed
qed

subsection \<open>The tick\<close>

definition lst_call :: "lst_mem \<Rightarrow> addr \<Rightarrow> nat \<times> addr" where
  "lst_call m p = (t_cb_func (the (load p m)), t_user_data (the (load p m)))"

lemma the_map_call:
  "t_cb_func (the (map_option (t_next_update f) r)) = t_cb_func (the r)"
  "t_user_data (the (map_option (t_next_update f) r)) = t_user_data (the r)"
  "t_cb_func (the (map_option (t_prev_update f) r)) = t_cb_func (the r)"
  "t_user_data (the (map_option (t_prev_update f) r)) = t_user_data (the r)"
  by (cases r; simp)+

lemma lst_call_unlink [simp]: "lst_call (unlink us vs m) p = lst_call m p"
  by (simp add: lst_call_def unlink_def the_map_call)

text \<open>Taking the first timer out the way the tick does.\<close>

lemma take_first:
  assumes I: "lst_inv s m (x # xs)"
  shows "\<exists>m1 m2. (if hd_or xs NULL \<noteq> NULL then put_prev (hd_or xs NULL) NULL m else Some m) = Some m1 \<and> free x m1 = Some m2 \<and>
    lst_inv (s\<lparr>lst_head := hd_or xs NULL\<rparr>) m2 xs \<and> load x m2 = None \<and>
    (\<forall>q. q \<noteq> x \<longrightarrow> tkey m2 q = tkey m q \<and> lst_call m2 q = lst_call m q) \<and> (\<forall>q. q \<notin> set (x # xs) \<longrightarrow> load q m2 = load q m)"
proof -
  note D = lst_invD [OF I]
  let ?u = "unlink [] xs m"
  obtain m1 where m1: "(if hd_or xs NULL \<noteq> NULL then put_prev (hd_or xs NULL) NULL m else Some m) = Some m1" "same_mem ?u m1"
  proof (cases xs)
    case Nil
    then have "same_mem ?u m" by (simp add: same_mem_def unlink_def)
    with Nil that show ?thesis by simp
  next
    case (Cons y ys)
    then have "load y m \<noteq> None" "y \<noteq> NULL" using D(5) D(6) by auto
    moreover have "same_mem ?u (with_prev y NULL m)" using Cons by (simp add: same_mem_def unlink_def)
    ultimately show ?thesis using Cons that [of "with_prev y NULL m"] by (simp add: set_with)
  qed
  have "dseg ?u NULL ([] @ xs) NULL" using unlink_dseg [of m "[]" x xs] D(1,2) by simp
  then have seg: "dseg m1 NULL xs NULL" using dseg_same [OF m1(2)] by simp
  have lu: "load q m1 = load q m" if "q \<notin> set xs" for q
    using same_memD [OF m1(2)] load_unlink [of q "[]" xs m] that by simp
  have "load x m1 \<noteq> None" using lu [of x] D(2,5) by auto
  with free_dseg [OF seg] D(2) obtain m2 where m2: "free x m1 = Some m2" "dseg m2 NULL xs NULL"
    "\<forall>q. load q m2 = (if q = x then None else load q m1)" by auto
  have q: "tkey m2 q = tkey m q \<and> lst_call m2 q = lst_call m q" if "q \<noteq> x" for q
  proof -
    have l: "load q m2 = load q ?u" using m2(3) same_memD [OF m1(2)] that by simp
    then have "tkey m2 q = tkey ?u q" "lst_call m2 q = lst_call ?u q" by (simp_all add: tkey_def lst_call_def)
    then show ?thesis by simp
  qed
  have "lst_inv (s\<lparr>lst_head := hd_or xs NULL\<rparr>) m2 xs" using m2(2) D(2,4) by (auto simp: lst_inv_def)
  then show ?thesis using m1(1) m2 q lu by auto
qed

lemma lst_tick_loop_ok:
  assumes "lst_inv s m xs" and "sorted (map (tkey m) xs)"
  shows "\<exists>s' m'. lst_tick_loop cur (hd_or xs NULL) s m =
      Some (map (lst_call m) (takeWhile (\<lambda>p. tkey m p \<le> cur) xs), s', m') \<and>
    lst_inv s' m' (dropWhile (\<lambda>p. tkey m p \<le> cur) xs) \<and>
    (\<forall>q \<in> set (takeWhile (\<lambda>p. tkey m p \<le> cur) xs). load q m' = None) \<and>
    (\<forall>q \<in> set (dropWhile (\<lambda>p. tkey m p \<le> cur) xs). tkey m' q = tkey m q) \<and>
    (\<forall>q. q \<notin> set xs \<longrightarrow> load q m' = load q m)"
  using assms
proof (induction xs arbitrary: s m)
  case Nil
  then show ?case by (simp add: lst_tick_loop.simps)
next
  case (Cons x xs)
  note D = lst_invD [OF Cons.prems(1)]
  obtain t where t: "load x m = Some t" "x \<noteq> NULL" "t_next t = hd_or xs NULL" using D(1) by auto
  have k: "tkey m x = t_expire t" "lst_call m x = (t_cb_func t, t_user_data t)" using t by (simp_all add: tkey_def lst_call_def)
  show ?case
  proof (cases "tkey m x \<le> cur")
    case False
    then show ?thesis using t k Cons.prems(1) by (subst lst_tick_loop.simps) simp
  next
    case True
    from take_first [OF Cons.prems(1)] obtain m1 m2 where
      m: "(if hd_or xs NULL \<noteq> NULL then put_prev (hd_or xs NULL) NULL m else Some m) = Some m1" "free x m1 = Some m2"
        "lst_inv (s\<lparr>lst_head := hd_or xs NULL\<rparr>) m2 xs" "load x m2 = None"
        "\<forall>q. q \<noteq> x \<longrightarrow> tkey m2 q = tkey m q \<and> lst_call m2 q = lst_call m q"
        "\<forall>q. q \<notin> set (x # xs) \<longrightarrow> load q m2 = load q m" by blast
    have nx: "x \<notin> set xs" using D(2) by simp
    then have km: "tkey m2 q = tkey m q" "lst_call m2 q = lst_call m q" if "q \<in> set xs" for q using m(5) that by auto
    have eq: "takeWhile (\<lambda>p. tkey m2 p \<le> cur) xs = takeWhile (\<lambda>p. tkey m p \<le> cur) xs"
      "dropWhile (\<lambda>p. tkey m2 p \<le> cur) xs = dropWhile (\<lambda>p. tkey m p \<le> cur) xs"
      "map (tkey m2) xs = map (tkey m) xs"
      by (auto intro!: takeWhile_cong dropWhile_cong simp: km)
    have cl: "map (lst_call m2) (takeWhile (\<lambda>p. tkey m p \<le> cur) xs) = map (lst_call m) (takeWhile (\<lambda>p. tkey m p \<le> cur) xs)"
      by (auto simp: km dest: set_takeWhileD)
    from Cons.IH [OF m(3)] Cons.prems(2) obtain s' m' where r:
      "lst_tick_loop cur (hd_or xs NULL) (s\<lparr>lst_head := hd_or xs NULL\<rparr>) m2 =
        Some (map (lst_call m) (takeWhile (\<lambda>p. tkey m p \<le> cur) xs), s', m')"
      "lst_inv s' m' (dropWhile (\<lambda>p. tkey m p \<le> cur) xs)"
      "\<forall>q \<in> set (takeWhile (\<lambda>p. tkey m p \<le> cur) xs). load q m' = None"
      "\<forall>q \<in> set (dropWhile (\<lambda>p. tkey m p \<le> cur) xs). tkey m' q = tkey m2 q"
      "\<forall>q. q \<notin> set xs \<longrightarrow> load q m' = load q m2" unfolding eq cl by auto
    have st: "lst_tick_loop cur x s m = Some (lst_call m x # map (lst_call m) (takeWhile (\<lambda>p. tkey m p \<le> cur) xs), s', m')"
      unfolding lst_tick_loop.simps [of cur x] using t k True m(1,2) r(1)
      by (cases "hd_or xs NULL = NULL") (simp_all add: Let_def)
    have "tkey m' q = tkey m q" if "q \<in> set (dropWhile (\<lambda>p. tkey m p \<le> cur) xs)" for q
      using r(4) km(1) set_dropWhileD [OF that] that by simp
    then show ?thesis using st True r(2,3,5) m(4,6) nx by (intro exI [of _ s'] exI [of _ m']) auto
  qed
qed

lemma lst_delete_ok:
  assumes "dseg m a xs NULL" and "distinct xs"
  shows "\<exists>m'. lst_delete_loop (hd_or xs NULL) m = Some m' \<and> (\<forall>q. load q m' = (if q \<in> set xs then None else load q m))"
  using assms
proof (induction xs arbitrary: a m)
  case (Cons x xs)
  then obtain t where t: "load x m = Some t" "t_next t = hd_or xs NULL" "dseg m x xs NULL" "x \<noteq> NULL" by auto
  from free_dseg [OF t(3), of x] t(1) Cons.prems(2) obtain m1 where
    m1: "free x m = Some m1" "dseg m1 x xs NULL" "\<forall>q. load q m1 = (if q = x then None else load q m)" by auto
  from Cons.IH [OF m1(2)] Cons.prems(2) t m1 show ?case by (subst lst_delete_loop.simps) auto
qed (simp add: lst_delete_loop.simps)

end
