(* ===== verification/TimerListStore.thy ===== *)
theory TimerListStore
  imports TimerListOk
begin

text \<open>The sorted timer list is a timer store.\<close>

lemma lst_inv_unique: "lst_inv s m xs \<Longrightarrow> lst_inv s m ys \<Longrightarrow> xs = ys"
  using dseg_unique [of m NULL xs NULL ys] by (simp add: lst_inv_def)

definition lst_rep :: "sort_timer_lst \<times> lst_mem \<Rightarrow> due multiset \<Rightarrow> bool" where
  "lst_rep sm M \<longleftrightarrow> (\<exists>xs. lst_inv (fst sm) (snd sm) xs \<and> sorted (map (tkey (snd sm)) xs) \<and>
     M = image_mset (\<lambda>p. (tkey (snd sm) p, p)) (mset xs))"

definition lst_fresh :: "sort_timer_lst \<times> lst_mem \<Rightarrow> due \<Rightarrow> bool" where
  "lst_fresh sm x \<longleftrightarrow> (\<exists>t. load (snd x) (snd sm) = Some t \<and> t_prev t = NULL \<and> t_next t = NULL \<and> t_expire t = fst x) \<and>
     (\<forall>xs. lst_inv (fst sm) (snd sm) xs \<longrightarrow> snd x \<notin> set xs)"

definition lst_add :: "sort_timer_lst \<times> lst_mem \<Rightarrow> due \<Rightarrow> (sort_timer_lst \<times> lst_mem) option" where
  "lst_add sm x = lst_add_timer (snd x) (fst sm) (snd sm)"

text \<open>One round of the loop of \<open>tick\<close>.\<close>

definition lst_fire :: "int \<Rightarrow> sort_timer_lst \<times> lst_mem \<Rightarrow> (due option \<times> sort_timer_lst \<times> lst_mem) option" where
  "lst_fire cur sm = (case sm of (s, m) \<Rightarrow>
     if lst_head s = NULL then Some (None, s, m)
     else do {
       t \<leftarrow> load (lst_head s) m;
       if cur < t_expire t then Some (None, s, m)
       else do {
         let tmp = lst_head s;
         let s = s\<lparr>lst_head := t_next t\<rparr>;
         m \<leftarrow> (if lst_head s \<noteq> NULL then put_prev (lst_head s) NULL m else Some m);
         m \<leftarrow> free tmp m;
         Some (Some (t_expire t, tmp), s, m) } })"

lemma lst_fire_none: "lst_inv s m xs \<Longrightarrow> xs = [] \<or> cur < tkey m (hd xs) \<Longrightarrow> lst_fire cur (s, m) = Some (None, s, m)"
  by (cases xs) (auto simp: lst_fire_def lst_inv_def tkey_def)

lemma lst_fire_first:
  assumes I: "lst_inv s m (x # xs)" and le: "tkey m x \<le> cur"
  shows "\<exists>m'. lst_fire cur (s, m) = Some (Some (tkey m x, x), s\<lparr>lst_head := hd_or xs NULL\<rparr>, m') \<and>
    lst_inv (s\<lparr>lst_head := hd_or xs NULL\<rparr>) m' xs \<and> (\<forall>q \<in> set xs. tkey m' q = tkey m q)"
proof -
  note D = lst_invD [OF I]
  obtain t where t: "load x m = Some t" "x \<noteq> NULL" "t_next t = hd_or xs NULL" "lst_head s = x" using D(1,3) by auto
  from take_first [OF I] obtain m1 m2 where
    m: "(if hd_or xs NULL \<noteq> NULL then put_prev (hd_or xs NULL) NULL m else Some m) = Some m1" "free x m1 = Some m2"
      "lst_inv (s\<lparr>lst_head := hd_or xs NULL\<rparr>) m2 xs"
      "\<forall>q. q \<noteq> x \<longrightarrow> tkey m2 q = tkey m q \<and> lst_call m2 q = lst_call m q" by blast
  have "lst_fire cur (s, m) = Some (Some (tkey m x, x), s\<lparr>lst_head := hd_or xs NULL\<rparr>, m2)"
    using t le m(1,2) by (cases "hd_or xs NULL = NULL") (simp_all add: lst_fire_def Let_def tkey_def)
  moreover have "\<forall>q \<in> set xs. tkey m2 q = tkey m q" using m(4) D(2) by auto
  ultimately show ?thesis using m(3) by blast
qed

interpretation lt: timer_store lst_add lst_fire lst_rep lst_fresh
proof
  fix sm M x assume r: "lst_rep sm M" and f: "lst_fresh sm x"
  obtain s m where sm: "sm = (s, m)" by (cases sm)
  obtain e p where x: "x = (e, p)" by (cases x)
  from r obtain xs where xs: "lst_inv s m xs" "sorted (map (tkey m) xs)" "M = image_mset (\<lambda>p. (tkey m p, p)) (mset xs)"
    by (auto simp: lst_rep_def sm)
  from f xs(1) obtain t where t: "load p m = Some t" "t_prev t = NULL" "t_next t = NULL" "t_expire t = e" "p \<notin> set xs"
    by (auto simp: lst_fresh_def sm x)
  from lst_add_ok [OF xs(1) t(1-3,5)] obtain s' m' where a: "lst_add_timer p s m = Some (s', m')"
    "lst_inv s' m' (put_timer (tkey m) p xs)" "\<forall>q. tkey m' q = tkey m q" "\<forall>q. q \<noteq> p \<longrightarrow> q \<notin> set xs \<longrightarrow> load q m' = load q m" by blast
  have k: "tkey m' = tkey m" using a(3) by (simp add: fun_eq_iff)
  have "lst_rep (s', m') (add_mset x M)"
    unfolding lst_rep_def using a(2) sorted_put_timer [OF xs(2), of p] t(1,4)
    by (intro exI [of _ "put_timer (tkey m) p xs"]) (simp add: k xs(3) x, simp add: tkey_def)
  moreover have "lst_fresh (s', m') y" if y: "snd y \<noteq> snd x" "lst_fresh sm y" for y
  proof -
    have ny: "snd y \<notin> set xs" using y(2) xs(1) by (simp add: lst_fresh_def sm)
    moreover have "set (put_timer (tkey m) p xs) = insert p (set xs)" by (metis mset_put_timer set_mset_add_mset_insert set_mset_mset)
    ultimately have "snd y \<notin> set ys" if "lst_inv s' m' ys" for ys
      using lst_inv_unique [OF that a(2)] y(1) x by simp
    with y ny a(4) x show ?thesis by (simp add: lst_fresh_def sm)
  qed
  ultimately show "\<exists>s'. lst_add sm x = Some s' \<and> lst_rep s' (add_mset x M) \<and>
      (\<forall>y. snd y \<noteq> snd x \<longrightarrow> lst_fresh sm y \<longrightarrow> lst_fresh s' y)"
    using a(1) by (simp add: lst_add_def sm x)
next
  fix sm M t assume r: "lst_rep sm M" and M: "\<forall>x \<in># M. t < fst x"
  obtain s m where sm: "sm = (s, m)" by (cases sm)
  from r obtain xs where xs: "lst_inv s m xs" "M = image_mset (\<lambda>p. (tkey m p, p)) (mset xs)" by (auto simp: lst_rep_def sm)
  have "xs = [] \<or> t < tkey m (hd xs)" using M xs(2) by (cases xs) auto
  then show "lst_fire t sm = Some (None, sm)" using lst_fire_none [OF xs(1)] sm by simp
next
  fix sm M x t assume r: "lst_rep sm M" and x: "x \<in># M" "fst x \<le> t"
  obtain s m where sm: "sm = (s, m)" by (cases sm)
  from r obtain xs where xs: "lst_inv s m xs" "sorted (map (tkey m) xs)" "M = image_mset (\<lambda>p. (tkey m p, p)) (mset xs)"
    by (auto simp: lst_rep_def sm)
  obtain y ys where c: "xs = y # ys" using x(1) xs(3) by (cases xs) auto
  have min: "\<forall>z \<in># M. tkey m y \<le> fst z" using xs(2,3) c by auto
  then have "tkey m y \<le> t" using x by fastforce
  from lst_fire_first [OF xs(1) [unfolded c] this] obtain m' where f:
    "lst_fire t (s, m) = Some (Some (tkey m y, y), s\<lparr>lst_head := hd_or ys NULL\<rparr>, m')"
    "lst_inv (s\<lparr>lst_head := hd_or ys NULL\<rparr>) m' ys" "\<forall>q \<in> set ys. tkey m' q = tkey m q" by blast
  have mk: "map (tkey m') ys = map (tkey m) ys" and ik: "image_mset (\<lambda>p. (tkey m' p, p)) (mset ys) = image_mset (\<lambda>p. (tkey m p, p)) (mset ys)"
    using f(3) by (auto intro: image_mset_cong)
  have "sorted (map (tkey m) ys)" using xs(2) c by simp
  then have "sorted (map (tkey m') ys)" unfolding mk .
  then have "lst_rep (s\<lparr>lst_head := hd_or ys NULL\<rparr>, m') (M - {#(tkey m y, y)#})"
    unfolding lst_rep_def using f(2) xs(3) c ik by (intro exI [of _ ys]) simp
  moreover have "(tkey m y, y) \<in># M" using xs(3) c by simp
  ultimately show "\<exists>y s'. lst_fire t sm = Some (Some y, s') \<and> y \<in># M \<and> (\<forall>z \<in># M. fst y \<le> fst z) \<and> lst_rep s' (M - {#y#})"
    using f(1) min sm by fastforce
qed

end
