(* ===== verification/TimerListClaims.thy ===== *)
theory TimerListClaims
  imports TimerListStore
begin

text \<open>What the timer list of \<open>lst_timer.h\<close> does.\<close>

subsection \<open>The tick of a sorted list\<close>

lemma lst_tick_ok:
  assumes I: "lst_inv s m xs" and sorted: "sorted (map (tkey m) xs)"
  shows "\<exists>s' m'. lst_tick cur s m = Some (map (lst_call m) (takeWhile (\<lambda>p. tkey m p \<le> cur) xs), s', m') \<and>
    lst_inv s' m' (dropWhile (\<lambda>p. tkey m p \<le> cur) xs) \<and>
    (\<forall>q \<in> set (takeWhile (\<lambda>p. tkey m p \<le> cur) xs). load q m' = None) \<and>
    (\<forall>q \<in> set (dropWhile (\<lambda>p. tkey m p \<le> cur) xs). tkey m' q = tkey m q)"
proof (cases xs)
  case Nil
  then show ?thesis using I by (auto simp: lst_tick_def lst_inv_def hd_or_def)
next
  case (Cons x ys)
  then have "lst_head s = hd_or xs NULL" "lst_head s \<noteq> NULL" using I dseg_live [of m NULL xs NULL x] by (auto simp: lst_inv_def)
  then have "lst_tick cur s m = lst_tick_loop cur (hd_or xs NULL) s m" by (simp add: lst_tick_def)
  then show ?thesis using lst_tick_loop_ok [OF I sorted, of cur] by metis
qed

lemma sorted_takeWhile_filter:
  "sorted (map k xs) \<Longrightarrow> takeWhile (\<lambda>p. k p \<le> cur) xs = filter (\<lambda>p. k p \<le> cur) xs \<and>
    dropWhile (\<lambda>p. k p \<le> cur) xs = filter (\<lambda>p. cur < k p) xs" for cur :: int
proof (induction xs)
  case (Cons x xs)
  show ?case
  proof (cases "k x \<le> cur")
    case True
    then show ?thesis using Cons by simp
  next
    case False
    then have "\<forall>p \<in> set (x # xs). cur < k p" using Cons.prems by auto
    then have "filter (\<lambda>p. k p \<le> cur) (x # xs) = []" "filter (\<lambda>p. cur < k p) (x # xs) = x # xs"
      by (auto simp: filter_empty_conv filter_id_conv not_le)
    then show ?thesis using False by simp
  qed
qed simp

text \<open>Adding a timer changes no callback.\<close>

lemma set_call:
  "put_next p v m = Some m' \<Longrightarrow> lst_call m' = lst_call m" "put_prev p v m = Some m' \<Longrightarrow> lst_call m' = lst_call m"
  by (auto simp: put_next_def put_prev_def store_def load_def lst_call_def fun_eq_iff bind_Some_iff split: if_splits)

lemma add_after_loop_call: "add_after_loop x p t s m = Some sm \<Longrightarrow> lst_call (snd sm) = lst_call m"
  by (erule add_after_loop.raw_induct [where P = "\<lambda>x p t s m sm. lst_call (snd sm) = lst_call m", rotated])
    (auto simp: bind_Some_iff dest!: set_call split: if_splits)

lemma lst_add_call: "lst_add_timer x s m = Some sm \<Longrightarrow> lst_call (snd sm) = lst_call m"
  by (auto simp: lst_add_timer_def add_after_def bind_Some_iff dest!: set_call add_after_loop_call split: if_splits)

lemma lst_adds_call: "add_all lst_add xs sm = Some sm' \<Longrightarrow> lst_call (snd sm') = lst_call (snd sm)"
  by (induction xs arbitrary: sm) (auto simp: lst_add_def bind_Some_iff dest!: lst_add_call)

subsection \<open>The claims\<close>

definition ex_lst_mem :: lst_mem where
  "ex_lst_mem = \<lparr>cells = [5 \<mapsto> \<lparr>t_prev = NULL, t_next = NULL, t_expire = 30, t_cb_func = 7, t_user_data = 100\<rparr>,
     6 \<mapsto> \<lparr>t_prev = NULL, t_next = NULL, t_expire = 10, t_cb_func = 8, t_user_data = 200\<rparr>], brk = 8, oom = []\<rparr>"

definition ex_lst_two :: lst_mem where
  "ex_lst_two = \<lparr>cells = [5 \<mapsto> \<lparr>t_prev = 6, t_next = NULL, t_expire = 30, t_cb_func = 7, t_user_data = 100\<rparr>,
     6 \<mapsto> \<lparr>t_prev = NULL, t_next = 5, t_expire = 10, t_cb_func = 8, t_user_data = 200\<rparr>], brk = 8, oom = []\<rparr>"

definition ex_lst :: sort_timer_lst where
  "ex_lst = \<lparr>lst_head = 6, lst_tail = 5\<rparr>"

lemma ex_lst: "lst_inv ex_lst ex_lst_two [6, 5]" "tkey ex_lst_two 5 = 30" "tkey ex_lst_two 6 = 10"
  "lst_call ex_lst_two 6 = (8, 200)"
  by (simp_all add: lst_inv_def ex_lst_def ex_lst_two_def load_def NULL_def hd_or_def tkey_def lst_call_def)

text \<open>C24: Timers added to an empty list in whatever order are fired by a tick in the order of their times, exactly those
  whose time is not after the current time; the others stay, in order.  A timer whose time equals the current time is
  among those that are fired (the loop of \<open>tick\<close> stops at the first timer with \<open>cur < tmp->expire\<close>); the comment at the
  head of the source disagrees: there a timer is due only when its time is less than the current time.\<close>

theorem lst_adds_then_tick:
  assumes "distinct ps" and "\<forall>p \<in> set ps. \<exists>t. load p m = Some t \<and> t_prev t = NULL \<and> t_next t = NULL"
  shows "\<exists>s1 m1 qs s' m'. add_all lst_add (map (\<lambda>p. (tkey m p, p)) ps) (sort_timer_lst_init, m) = Some (s1, m1) \<and>
    lst_inv s1 m1 qs \<and> mset qs = mset ps \<and> sorted (map (tkey m) qs) \<and>
    lst_tick cur s1 m1 = Some (map (lst_call m) (filter (\<lambda>p. tkey m p \<le> cur) qs), s', m') \<and>
    lst_inv s' m' (filter (\<lambda>p. cur < tkey m p) qs)"
proof -
  let ?xs = "map (\<lambda>p. (tkey m p, p)) ps"
  have i: "lst_inv sort_timer_lst_init m []" by (simp add: lst_inv_def sort_timer_lst_init_def hd_or_def)
  then have "lst_rep (sort_timer_lst_init, m) {#}" by (simp add: lst_rep_def exI [of _ "[]"])
  moreover have "lst_fresh (sort_timer_lst_init, m) x" if "x \<in> set ?xs" for x
    using that assms(2) lst_inv_unique [OF i] by (fastforce simp: lst_fresh_def tkey_def)
  ultimately obtain s1 m1 where a: "add_all lst_add ?xs (sort_timer_lst_init, m) = Some (s1, m1)" "lst_rep (s1, m1) (mset ?xs)"
    using lt.add_all_rep [of "(sort_timer_lst_init, m)" "{#}" ?xs] assms(1) by (fastforce simp: comp_def)
  from a(2) obtain qs where qs: "lst_inv s1 m1 qs" "sorted (map (tkey m1) qs)" "mset ?xs = image_mset (\<lambda>p. (tkey m1 p, p)) (mset qs)"
    by (auto simp: lst_rep_def)
  have "image_mset snd (mset ?xs) = image_mset snd (image_mset (\<lambda>p. (tkey m1 p, p)) (mset qs))" using qs(3) by simp
  then have ms: "mset qs = mset ps" by (simp add: image_mset.compositionality comp_def)
  have st: "set qs = set ps" using ms by (metis set_mset_mset)
  have k: "tkey m1 p = tkey m p" if "p \<in> set qs" for p
  proof -
    have "(tkey m p, p) \<in># mset ?xs" using that st by auto
    then show ?thesis unfolding qs(3) by auto
  qed
  have e: "map (tkey m1) qs = map (tkey m) qs" "filter (\<lambda>p. tkey m1 p \<le> cur) qs = filter (\<lambda>p. tkey m p \<le> cur) qs"
    "filter (\<lambda>p. cur < tkey m1 p) qs = filter (\<lambda>p. cur < tkey m p) qs" using k by (auto intro: filter_cong)
  note t = lst_tick_ok [OF qs(1,2), of cur, unfolded conjunct1 [OF sorted_takeWhile_filter [OF qs(2)]]
    conjunct2 [OF sorted_takeWhile_filter [OF qs(2)]] e]
  have "lst_call m1 = lst_call m" using lst_adds_call [OF a(1)] by simp
  with a(1) qs(1,2) ms t show ?thesis unfolding e by auto
qed

theorem lst_adds_then_tick_witness:
  "\<exists>s1 m1 s' m'. add_all lst_add [(30, 5), (10, 6)] (sort_timer_lst_init, ex_lst_mem) = Some (s1, m1) \<and>
    lst_tick 10 s1 m1 = Some ([(8, 200)], s', m') \<and> lst_inv s' m' [5]"
proof -
  have k: "tkey ex_lst_mem 5 = 30" "tkey ex_lst_mem 6 = 10" by (simp_all add: tkey_def ex_lst_mem_def load_def NULL_def)
  have "\<forall>p \<in> set [5, 6]. \<exists>t. load p ex_lst_mem = Some t \<and> t_prev t = NULL \<and> t_next t = NULL"
    by (simp add: ex_lst_mem_def load_def NULL_def)
  from lst_adds_then_tick [OF _ this, of 10] obtain s1 m1 qs s' m' where
    r: "add_all lst_add [(30, 5), (10, 6)] (sort_timer_lst_init, ex_lst_mem) = Some (s1, m1)" "mset qs = {#5, 6#}"
      "lst_tick 10 s1 m1 = Some (map (lst_call ex_lst_mem) (filter (\<lambda>p. tkey ex_lst_mem p \<le> 10) qs), s', m')"
      "lst_inv s' m' (filter (\<lambda>p. 10 < tkey ex_lst_mem p) qs)" by (auto simp: k simp del: add_all.simps)
  have "length qs = 2" using r(2) by (metis size_mset size_add_mset size_empty numeral_2_eq_2)
  then obtain a b where ab: "qs = [a, b]" by (auto simp: numeral_2_eq_2 length_Suc_conv)
  moreover from r(2) have "set qs = {5, 6}" by (metis set_mset_mset set_mset_add_mset_insert set_mset_empty)
  ultimately have "qs = [5, 6] \<or> qs = [6, 5]" by (simp add: doubleton_eq_iff)
  then have "filter (\<lambda>p. tkey ex_lst_mem p \<le> 10) qs = [6]" "filter (\<lambda>p. 10 < tkey ex_lst_mem p) qs = [5]" by (auto simp: k)
  moreover have "lst_call ex_lst_mem 6 = (8, 200)" by (simp add: lst_call_def ex_lst_mem_def load_def NULL_def)
  ultimately show ?thesis using r(1,3,4) by auto
qed

text \<open>Adding a timer to a list in order puts it behind the timers that expire no later and before the others.\<close>

theorem lst_add_keeps_order:
  assumes "lst_inv s m xs" and "sorted (map (tkey m) xs)" and "load x m = Some t" and "t_prev t = NULL" and "t_next t = NULL" and "x \<notin> set xs"
  shows "\<exists>s' m'. lst_add_timer x s m = Some (s', m') \<and>
    lst_inv s' m' (filter (\<lambda>y. tkey m y \<le> tkey m x) xs @ x # filter (\<lambda>y. tkey m x < tkey m y) xs) \<and>
    (\<forall>q. tkey m' q = tkey m q)"
proof -
  have "put_timer (tkey m) x xs = filter (\<lambda>y. tkey m y \<le> tkey m x) xs @ x # filter (\<lambda>y. tkey m x < tkey m y) xs"
    using sorted_takeWhile_filter [OF assms(2), of "tkey m x"] by (simp add: put_timer_def)
  with lst_add_ok [OF assms(1,3-6)] show ?thesis by metis
qed

theorem lst_add_keeps_order_witness:
  "\<exists>s' m'. lst_add_timer 6 \<lparr>lst_head = 5, lst_tail = 5\<rparr> ex_lst_mem = Some (s', m') \<and> lst_inv s' m' [6, 5]"
proof -
  have "lst_inv \<lparr>lst_head = 5, lst_tail = 5\<rparr> ex_lst_mem [5]" "load 6 ex_lst_mem = Some \<lparr>t_prev = NULL, t_next = NULL, t_expire = 10, t_cb_func = 8, t_user_data = 200\<rparr>"
    "tkey ex_lst_mem 5 = 30" "tkey ex_lst_mem 6 = 10"
    by (simp_all add: lst_inv_def ex_lst_mem_def load_def NULL_def hd_or_def tkey_def)
  with lst_add_keeps_order [OF this(1) _ this(2)] show ?thesis by auto
qed

text \<open>A timer whose time was put off is moved back to its place: if the list without it is in order and the timers
  before it expire no later, \<open>adjust_timer\<close> leaves all timers in order.\<close>

theorem lst_adjust_restores_order:
  assumes "lst_inv s m (us @ x # vs)" and "sorted (map (tkey m) (us @ vs))" and "\<forall>u \<in> set us. tkey m u \<le> tkey m x"
  shows "\<exists>s' m' ws. lst_adjust_timer x s m = Some (s', m') \<and> lst_inv s' m' ws \<and> mset ws = mset (us @ x # vs) \<and>
    sorted (map (tkey m') ws) \<and> (\<forall>q. tkey m' q = tkey m q)"
proof -
  from lst_adjust_ok [OF assms(1)] obtain s' m' where a: "lst_adjust_timer x s m = Some (s', m')"
    "lst_inv s' m' (us @ put_timer (tkey m) x vs)" "\<forall>q. tkey m' q = tkey m q" by blast
  have k: "tkey m' = tkey m" using a(3) by blast
  have "sorted (map (tkey m) (put_timer (tkey m) x vs))" using assms(2) by (intro sorted_put_timer) (simp add: sorted_append)
  moreover have "set (put_timer (tkey m) x vs) = insert x (set vs)" by (metis mset_put_timer set_mset_add_mset_insert set_mset_mset)
  ultimately have "sorted (map (tkey m) (us @ put_timer (tkey m) x vs))" using assms(2,3) by (auto simp: sorted_append)
  then show ?thesis using a k by (intro exI [of _ s'] exI [of _ m'] exI [of _ "us @ put_timer (tkey m) x vs"]) simp
qed

theorem lst_adjust_restores_order_witness:
  "\<exists>s' m' ws. lst_adjust_timer 6 ex_lst ex_lst_two = Some (s', m') \<and> lst_inv s' m' ws \<and> mset ws = {#6, 5#}"
  using lst_adjust_restores_order [of ex_lst ex_lst_two "[]" 6 "[5]"] ex_lst(1) by auto

text \<open>Deleting a timer of the list takes out exactly that one and releases it.\<close>

theorem lst_del_removes:
  assumes "lst_inv s m xs" and "x \<in> set xs"
  shows "\<exists>s' m'. lst_del_timer x s m = Some (s', m') \<and> lst_inv s' m' (remove1 x xs) \<and> load x m' = None \<and>
    (\<forall>q. q \<noteq> x \<longrightarrow> tkey m' q = tkey m q) \<and> (\<forall>q. q \<notin> set xs \<longrightarrow> load q m' = load q m)"
proof -
  from assms(2) obtain us vs where s: "xs = us @ x # vs" using split_list by fast
  moreover have "remove1 x xs = us @ vs" using s lst_invD(2) [OF assms(1)] by (simp add: remove1_append)
  ultimately show ?thesis using lst_del_ok [of s m us x vs] assms(1) by simp
qed

theorem lst_del_removes_witness: "\<exists>s' m'. lst_del_timer 6 ex_lst ex_lst_two = Some (s', m') \<and> lst_inv s' m' [5]"
  using lst_del_removes [OF ex_lst(1), of 6] by auto

end
