(* ===== verification/TimeWheel.thy ===== *)
theory TimeWheel
  imports DLinks
begin

text \<open>
  The timing wheel of \<open>timing_wheel.h\<close>: sixty slots, each a doubly linked list of timers that carry
  the number of turns they still have to wait.  A failing \<open>new\<close> throws and leaves the wheel as it
  was.  Callbacks are recorded with their argument; they do not touch the timers.
\<close>

subsection \<open>Data\<close>

text \<open>\<open>tw_timer\<close>; its \<open>prev\<close> and \<open>next\<close> are those of \<^typ>\<open>dnode\<close>.\<close>

record tw_timer = dnode +
  rotation :: int
  time_slot :: nat
  w_cb_func :: nat
  w_user_data :: addr

type_synonym wheel_mem = "tw_timer heap"

record time_wheel =
  slots :: "addr list"
  cur_slot :: nat

definition N_slots :: nat where
  "N_slots = 60"

definition TI :: int where
  "TI = 1"

definition slot :: "time_wheel \<Rightarrow> nat \<Rightarrow> addr option" where
  "slot w i = (if i < length (slots w) then Some (slots w ! i) else None)"

definition set_slot :: "nat \<Rightarrow> addr \<Rightarrow> time_wheel \<Rightarrow> time_wheel option" where
  "set_slot i p w = (if i < length (slots w) then Some (w\<lparr>slots := (slots w)[i := p]\<rparr>) else None)"

definition time_wheel_init :: time_wheel where
  "time_wheel_init = \<lparr>slots = replicate N_slots NULL, cur_slot = 0\<rparr>"

subsection \<open>The operations\<close>

text \<open>\<open>add_timer\<close>; the callback and its argument, which the caller assigns afterwards, are parameters here.\<close>

datatype 'a thrown = Throws | Returns 'a

definition wheel_add_timer ::
  "nat \<Rightarrow> addr \<Rightarrow> int \<Rightarrow> time_wheel \<Rightarrow> wheel_mem \<Rightarrow> (addr thrown \<times> time_wheel \<times> wheel_mem) option" where
  "wheel_add_timer cb ud timeout w m =
     (if timeout < 0 then Some (Returns NULL, w, m)
      else do {
        let ticks = (if timeout < TI then 1 else timeout div TI);
        let rot = ticks div int N_slots;
        let ts = nat ((int (cur_slot w) + ticks mod int N_slots) mod int N_slots);
        let (timer, m) = malloc \<lparr>t_prev = NULL, t_next = NULL, rotation = rot, time_slot = ts, w_cb_func = cb, w_user_data = ud\<rparr> m;
        if timer = NULL then Some (Throws, w, m)
        else do {
          p \<leftarrow> slot w ts;
          if p = NULL then do { w \<leftarrow> set_slot ts timer w; Some (Returns timer, w, m) }
          else do {
            m \<leftarrow> put_next timer p m;
            m \<leftarrow> put_prev p timer m;
            w \<leftarrow> set_slot ts timer w;
            Some (Returns timer, w, m) } } })"

definition wheel_del_timer :: "addr \<Rightarrow> time_wheel \<Rightarrow> wheel_mem \<Rightarrow> (time_wheel \<times> wheel_mem) option" where
  "wheel_del_timer timer w m =
     (if timer = NULL then Some (w, m)
      else do {
        t \<leftarrow> load timer m;
        let ts = time_slot t;
        p \<leftarrow> slot w ts;
        if timer = p then do {
          h \<leftarrow> load p m;
          w \<leftarrow> set_slot ts (t_next h) w;
          m \<leftarrow> (if t_next h \<noteq> NULL then put_prev (t_next h) NULL m else Some m);
          m \<leftarrow> free timer m;
          Some (w, m) }
        else do {
          m \<leftarrow> put_next (t_prev t) (t_next t) m;
          t \<leftarrow> load timer m;
          m \<leftarrow> (if t_next t \<noteq> NULL then put_prev (t_next t) (t_prev t) m else Some m);
          m \<leftarrow> free timer m;
          Some (w, m) } })"

type_synonym wheel_calls = "(nat \<times> addr) list"

partial_function (option) wheel_tick_loop ::
  "addr \<Rightarrow> time_wheel \<Rightarrow> wheel_mem \<Rightarrow> (wheel_calls \<times> time_wheel \<times> wheel_mem) option" where
  [code]: "wheel_tick_loop tmp w m =
     (if tmp = NULL then Some ([], w, m)
      else do {
        t \<leftarrow> load tmp m;
        if 0 < rotation t then do {
          m \<leftarrow> store tmp (t\<lparr>rotation := rotation t - 1\<rparr>) m;
          wheel_tick_loop (t_next t) w m }
        else do {
          p \<leftarrow> slot w (cur_slot w);
          (calls, w, m) \<leftarrow>
            (if tmp = p then do {
               w \<leftarrow> set_slot (cur_slot w) (t_next t) w;
               m \<leftarrow> free tmp m;
               m \<leftarrow> (if t_next t \<noteq> NULL then put_prev (t_next t) NULL m else Some m);
               wheel_tick_loop (t_next t) w m }
             else do {
               m \<leftarrow> put_next (t_prev t) (t_next t) m;
               t \<leftarrow> load tmp m;
               m \<leftarrow> (if t_next t \<noteq> NULL then put_prev (t_next t) (t_prev t) m else Some m);
               t \<leftarrow> load tmp m;
               m \<leftarrow> free tmp m;
               wheel_tick_loop (t_next t) w m });
          Some ((w_cb_func t, w_user_data t) # calls, w, m) } })"

definition wheel_tick :: "time_wheel \<Rightarrow> wheel_mem \<Rightarrow> (wheel_calls \<times> time_wheel \<times> wheel_mem) option" where
  "wheel_tick w m = do {
     tmp \<leftarrow> slot w (cur_slot w);
     (calls, w, m) \<leftarrow> wheel_tick_loop tmp w m;
     Some (calls, w\<lparr>cur_slot := (cur_slot w + 1) mod N_slots\<rparr>, m) }"

text \<open>The destructor: every slot in turn.\<close>

partial_function (option) wheel_delete_slot :: "nat \<Rightarrow> addr \<Rightarrow> time_wheel \<Rightarrow> wheel_mem \<Rightarrow> (time_wheel \<times> wheel_mem) option" where
  [code]: "wheel_delete_slot i tmp w m =
     (if tmp = NULL then Some (w, m)
      else do {
        t \<leftarrow> load tmp m;
        w \<leftarrow> set_slot i (t_next t) w;
        m \<leftarrow> free tmp m;
        wheel_delete_slot i (t_next t) w m })"

fun wheel_delete_from :: "nat \<Rightarrow> nat \<Rightarrow> time_wheel \<Rightarrow> wheel_mem \<Rightarrow> (time_wheel \<times> wheel_mem) option" where
  "wheel_delete_from i 0 w m = Some (w, m)"
| "wheel_delete_from i (Suc k) w m = do {
     tmp \<leftarrow> slot w i;
     (w, m) \<leftarrow> wheel_delete_slot i tmp w m;
     wheel_delete_from (Suc i) k w m }"

definition wheel_delete :: "time_wheel \<Rightarrow> wheel_mem \<Rightarrow> wheel_mem option" where
  "wheel_delete w m = map_option snd (wheel_delete_from 0 N_slots w m)"

end
