(* ===== verification/TimeWheelOk.thy ===== *)
theory TimeWheelOk
  imports TimeWheel "HOL-Library.Multiset"
begin

text \<open>
  The invariant of the timing wheel, the number of ticks each timer still has to wait, and what the
  operations do to it.  \<open>L i\<close> is the list of the timers in slot \<open>i\<close>.
\<close>

subsection \<open>What a timer says, apart from its links\<close>

definition rot :: "wheel_mem \<Rightarrow> addr \<Rightarrow> int" where
  "rot m p = rotation (the (load p m))"

definition home :: "wheel_mem \<Rightarrow> addr \<Rightarrow> nat" where
  "home m p = time_slot (the (load p m))"

definition wcall :: "wheel_mem \<Rightarrow> addr \<Rightarrow> nat \<times> addr" where
  "wcall m p = (w_cb_func (the (load p m)), w_user_data (the (load p m)))"

lemma the_map_links:
  "rotation (the (map_option (t_next_update f) r)) = rotation (the r)"
  "rotation (the (map_option (t_prev_update f) r)) = rotation (the r)"
  "time_slot (the (map_option (t_next_update f) r)) = time_slot (the r)"
  "time_slot (the (map_option (t_prev_update f) r)) = time_slot (the r)"
  "w_cb_func (the (map_option (t_next_update f) r)) = w_cb_func (the r)"
  "w_cb_func (the (map_option (t_prev_update f) r)) = w_cb_func (the r)"
  "w_user_data (the (map_option (t_next_update f) r)) = w_user_data (the r)"
  "w_user_data (the (map_option (t_prev_update f) r)) = w_user_data (the r)"
  by (cases r; simp)+

lemma data_links [simp]:
  "rot (unlink us vs m) p = rot m p" "home (unlink us vs m) p = home m p" "wcall (unlink us vs m) p = wcall m p"
  "rot (link us x vs m) p = rot m p" "home (link us x vs m) p = home m p" "wcall (link us x vs m) p = wcall m p"
  by (simp_all add: rot_def home_def wcall_def unlink_def link_def the_map_links)

lemma data_cong:
  "load p m' = load q m \<Longrightarrow> rot m' p = rot m q \<and> home m' p = home m q \<and> wcall m' p = wcall m q"
  by (simp add: rot_def home_def wcall_def)

lemma data_filters:
  assumes "\<forall>q. q \<noteq> x \<longrightarrow> rot m' q = rot m q \<and> home m' q = home m q \<and> wcall m' q = wcall m q" and "x \<notin> set xs"
  shows "filter (\<lambda>p. rot m' p \<le> 0) xs = filter (\<lambda>p. rot m p \<le> 0) xs"
    and "filter (\<lambda>p. 0 < rot m' p) xs = filter (\<lambda>p. 0 < rot m p) xs"
    and "map (wcall m') (filter (\<lambda>p. rot m p \<le> 0) xs) = map (wcall m) (filter (\<lambda>p. rot m p \<le> 0) xs)"
proof -
  have "\<forall>q \<in> set xs. rot m' q = rot m q \<and> wcall m' q = wcall m q" using assms by metis
  then show "filter (\<lambda>p. rot m' p \<le> 0) xs = filter (\<lambda>p. rot m p \<le> 0) xs"
    "filter (\<lambda>p. 0 < rot m' p) xs = filter (\<lambda>p. 0 < rot m p) xs"
    "map (wcall m') (filter (\<lambda>p. rot m p \<le> 0) xs) = map (wcall m) (filter (\<lambda>p. rot m p \<le> 0) xs)"
    by (auto intro: filter_cong)
qed

lemma removed_dseg:
  assumes "dseg m NULL (us @ x # vs) NULL" and "distinct (us @ x # vs)"
    and "\<forall>q. load q m' = (if q = x then None else load q (unlink us vs m))"
  shows "dseg m' NULL (us @ vs) NULL"
proof -
  have "dseg m' NULL (us @ vs) NULL = dseg (unlink us vs m) NULL (us @ vs) NULL"
    by (rule dseg_cong) (use assms(2,3) in auto)
  with unlink_dseg [OF assms(1,2)] show ?thesis by blast
qed

lemma same_links_dseg:
  assumes "load x m = Some t" and "load x m' = Some t'" and "t_prev t' = t_prev t" and "t_next t' = t_next t"
    and "\<forall>q. q \<noteq> x \<longrightarrow> load q m' = load q m"
  shows "dseg m' a xs b = dseg m a xs b"
proof (induction xs arbitrary: a)
  case (Cons y ys)
  then show ?case using assms by (cases "y = x") auto
qed simp

subsection \<open>The two removals\<close>

lemma remove_head:
  assumes D: "dseg m NULL (x # vs) NULL" and d: "distinct (x # vs)"
  shows "\<exists>m1 m2. free x m = Some m1 \<and> (if hd_or vs NULL \<noteq> NULL then put_prev (hd_or vs NULL) NULL m1 else Some m1) = Some m2 \<and>
    (\<forall>q. load q m2 = (if q = x then None else load q (unlink [] vs m)))"
proof -
  from free_dseg [of m x vs NULL x] D d obtain m1 where m1: "free x m = Some m1" "\<forall>q. load q m1 = (if q = x then None else load q m)"
    by auto
  show ?thesis
  proof (cases vs)
    case Nil
    then show ?thesis using m1 by (simp add: unlink_def)
  next
    case (Cons v ws)
    then have v: "load v m \<noteq> None" "v \<noteq> NULL" "v \<noteq> x" using D d by auto
    then have "put_prev v NULL m1 = Some (with_prev v NULL m1)" using m1(2) by (intro set_with) simp
    then show ?thesis using m1 v Cons by (auto simp: unlink_def)
  qed
qed

lemma remove_head_first:
  assumes D: "dseg m NULL (x # vs) NULL" and d: "distinct (x # vs)"
  shows "\<exists>m1 m2. (if hd_or vs NULL \<noteq> NULL then put_prev (hd_or vs NULL) NULL m else Some m) = Some m1 \<and> free x m1 = Some m2 \<and>
    (\<forall>q. load q m2 = (if q = x then None else load q (unlink [] vs m)))"
proof -
  obtain m1 where m1: "(if hd_or vs NULL \<noteq> NULL then put_prev (hd_or vs NULL) NULL m else Some m) = Some m1"
    "same_mem (unlink [] vs m) m1"
  proof (cases vs)
    case Nil
    then show ?thesis using that by (simp add: unlink_def same_mem_def)
  next
    case (Cons v ws)
    then have "load v m \<noteq> None" "v \<noteq> NULL" using D by auto
    then show ?thesis using that [of "with_prev v NULL m"] Cons by (simp add: set_with unlink_def same_mem_def)
  qed
  with unlink_free [of m "[]" x vs m1] D d show ?thesis by auto
qed

lemma remove_inner:
  assumes D: "dseg m NULL (us @ x # vs) NULL" and d: "distinct (us @ x # vs)" and us: "us \<noteq> []" and t: "load x m = Some t"
  shows "\<exists>m1 m2 m3. put_next (t_prev t) (t_next t) m = Some m1 \<and> load x m1 = Some t \<and>
    (if t_next t \<noteq> NULL then put_prev (t_next t) (t_prev t) m1 else Some m1) = Some m2 \<and> load x m2 = Some t \<and>
    free x m2 = Some m3 \<and> (\<forall>q. load q m3 = (if q = x then None else load q (unlink us vs m)))"
proof -
  let ?p = "last_or NULL us" and ?n = "hd_or vs NULL"
  have l: "t_prev t = ?p" "t_next t = ?n" using dseg_node [OF D] t by auto
  have p: "load ?p m \<noteq> None" "?p \<noteq> x" using last_or_live [of m us x] D us d last_in_set [of us] by (auto simp: last_or_def)
  let ?m1 = "with_next ?p ?n m"
  have s1: "put_next ?p ?n m = Some ?m1" "load x ?m1 = Some t" using p t by (auto intro: set_with)
  obtain m2 where m2: "(if ?n \<noteq> NULL then put_prev ?n ?p ?m1 else Some ?m1) = Some m2" "same_mem (unlink us vs m) m2"
  proof (cases vs)
    case Nil
    then show ?thesis using that [of ?m1] by (auto simp: same_mem_def unlink_def)
  next
    case (Cons v ws)
    then have v: "load v m \<noteq> None" "v \<noteq> NULL" "v \<noteq> ?p" using D d us last_in_set [of us] by (auto simp: last_or_def)
    then have "put_prev v ?p ?m1 = Some (with_prev v ?p ?m1)" by (intro set_with) simp
    moreover have "same_mem (unlink us vs m) (with_prev v ?p ?m1)" using v Cons by (auto simp: same_mem_def unlink_def)
    ultimately show ?thesis using that v Cons by simp
  qed
  moreover have "load x m2 = Some t" using same_memD [OF m2(2), of x] load_unlink [of x us vs m] d t by simp
  ultimately show ?thesis using unlink_free [OF D d m2(2)] s1 l by auto
qed

subsection \<open>The loop of the tick\<close>

lemma tick_loop_ok:
  assumes "cur_slot w < length (slots w)" and "slots w ! cur_slot w = hd_or (us @ xs) NULL"
    and "dseg m NULL (us @ xs) NULL" and "distinct (us @ xs)"
  shows "\<exists>w' m'. wheel_tick_loop (hd_or xs NULL) w m = Some (map (wcall m) (filter (\<lambda>p. rot m p \<le> 0) xs), w', m') \<and>
    cur_slot w' = cur_slot w \<and> slots w' = (slots w)[cur_slot w := hd_or (us @ filter (\<lambda>p. 0 < rot m p) xs) NULL] \<and>
    dseg m' NULL (us @ filter (\<lambda>p. 0 < rot m p) xs) NULL \<and>
    (\<forall>q \<in> set us. rot m' q = rot m q \<and> home m' q = home m q \<and> wcall m' q = wcall m q) \<and>
    (\<forall>q \<in> set xs. if 0 < rot m q then rot m' q = rot m q - 1 \<and> home m' q = home m q \<and> wcall m' q = wcall m q else load q m' = None) \<and>
    (\<forall>q. q \<notin> set (us @ xs) \<longrightarrow> load q m' = load q m)"
  using assms
proof (induction xs arbitrary: us w m)
  case Nil
  have "slots w = (slots w)[cur_slot w := hd_or us NULL]"
    using list_update_id [of "slots w" "cur_slot w"] Nil.prems(2) by simp
  with Nil show ?case by (simp add: wheel_tick_loop.simps)
next
  case (Cons x xs)
  obtain t where t: "load x m = Some t" "x \<noteq> NULL" "t_prev t = last_or NULL us" "t_next t = hd_or xs NULL"
    using Cons.prems(3) by auto
  have rt: "rot m x = rotation t" "wcall m x = (w_cb_func t, w_user_data t)" using t(1) by (simp_all add: rot_def wcall_def)
  have nx: "x \<notin> set us" "x \<notin> set xs" using Cons.prems(4) by auto
  show ?case
  proof (cases "0 < rotation t")
    case True
    let ?t = "t\<lparr>rotation := rotation t - 1\<rparr>"
    let ?m = "m\<lparr>cells := (cells m)(x := Some ?t)\<rparr>"
    have st: "store x ?t m = Some ?m" by (rule store_Some [OF t(1)])
    have l: "load q ?m = (if q = x then Some ?t else load q m)" for q using load_store [OF st] .
    have dm: "rot ?m q = rot m q \<and> home ?m q = home m q \<and> wcall ?m q = wcall m q" if "q \<noteq> x" for q
      by (rule data_cong) (use l that in simp)
    have dx: "rot ?m x = rot m x - 1" "home ?m x = home m x" "wcall ?m x = wcall m x" using l t(1) by (simp_all add: rot_def home_def wcall_def)
    have "\<forall>q. q \<noteq> x \<longrightarrow> rot ?m q = rot m q \<and> home ?m q = home m q \<and> wcall ?m q = wcall m q" using dm by blast
    note f = data_filters [OF this nx(2)]
    have D: "dseg ?m NULL ((us @ [x]) @ xs) NULL"
      using same_links_dseg [OF t(1), of ?m ?t] l Cons.prems(3) t(1) by auto
    have "slots w ! cur_slot w = hd_or ((us @ [x]) @ xs) NULL" "distinct ((us @ [x]) @ xs)" using Cons.prems(2,4) by simp_all
    from Cons.IH [OF Cons.prems(1) this(1) D this(2), unfolded f] obtain w' m' where r:
      "wheel_tick_loop (hd_or xs NULL) w ?m = Some (map (wcall m) (filter (\<lambda>p. rot m p \<le> 0) xs), w', m')"
      "cur_slot w' = cur_slot w" "slots w' = (slots w)[cur_slot w := hd_or ((us @ [x]) @ filter (\<lambda>p. 0 < rot m p) xs) NULL]"
      "dseg m' NULL ((us @ [x]) @ filter (\<lambda>p. 0 < rot m p) xs) NULL"
      "\<forall>q \<in> set (us @ [x]). rot m' q = rot ?m q \<and> home m' q = home ?m q \<and> wcall m' q = wcall ?m q"
      "\<forall>q \<in> set xs. if 0 < rot ?m q then rot m' q = rot ?m q - 1 \<and> home m' q = home ?m q \<and> wcall m' q = wcall ?m q else load q m' = None"
      "\<forall>q. q \<notin> set ((us @ [x]) @ xs) \<longrightarrow> load q m' = load q ?m" by blast
    have "wheel_tick_loop x w m = Some (map (wcall m) (filter (\<lambda>p. rot m p \<le> 0) xs), w', m')"
      using True t st r(1) by (subst wheel_tick_loop.simps) simp
    moreover have "rot m' q = rot m q \<and> home m' q = home m q \<and> wcall m' q = wcall m q" if "q \<in> set us" for q
      using r(5) dm [of q] that nx(1) by auto
    moreover have "if 0 < rot m q then rot m' q = rot m q - 1 \<and> home m' q = home m q \<and> wcall m' q = wcall m q else load q m' = None"
      if "q \<in> set (x # xs)" for q
    proof (cases "q = x")
      case True
      then show ?thesis using r(5) dx rt \<open>0 < rotation t\<close> by simp
    next
      case False
      then show ?thesis using that r(6) dm [OF False] by auto
    qed
    moreover have "load q m' = load q m" if "q \<notin> set (us @ x # xs)" for q using that r(7) l by auto
    ultimately show ?thesis using r(2-4) rt True by (intro exI [of _ w'] exI [of _ m']) simp
  next
    case False
    have rec: ?thesis if m2: "\<forall>q. load q m2 = (if q = x then None else load q (unlink us xs m))"
      and w2: "cur_slot w2 = cur_slot w" "slots w2 = (slots w)[cur_slot w := hd_or (us @ xs) NULL]"
      and st: "\<And>calls w' m'. wheel_tick_loop (hd_or xs NULL) w2 m2 = Some (calls, w', m') \<Longrightarrow>
        wheel_tick_loop x w m = Some ((w_cb_func t, w_user_data t) # calls, w', m')" for m2 w2
    proof -
      have D: "dseg m2 NULL (us @ xs) NULL" by (rule removed_dseg [OF Cons.prems(3,4) m2])
      have dm: "rot m2 q = rot m q \<and> home m2 q = home m q \<and> wcall m2 q = wcall m q" if "q \<noteq> x" for q
        using data_cong [of q m2 q "unlink us xs m"] m2 that by simp
      have "\<forall>q. q \<noteq> x \<longrightarrow> rot m2 q = rot m q \<and> home m2 q = home m q \<and> wcall m2 q = wcall m q" using dm by blast
      note f = data_filters [OF this nx(2)]
      have "cur_slot w2 < length (slots w2)" "slots w2 ! cur_slot w2 = hd_or (us @ xs) NULL" "distinct (us @ xs)"
        using Cons.prems(1,4) w2 by simp_all
      from Cons.IH [OF this(1,2) D this(3), unfolded f w2 list_update_overwrite] obtain w' m' where r:
        "wheel_tick_loop (hd_or xs NULL) w2 m2 = Some (map (wcall m) (filter (\<lambda>p. rot m p \<le> 0) xs), w', m')"
        "cur_slot w' = cur_slot w" "slots w' = (slots w)[cur_slot w := hd_or (us @ filter (\<lambda>p. 0 < rot m p) xs) NULL]"
        "dseg m' NULL (us @ filter (\<lambda>p. 0 < rot m p) xs) NULL"
        "\<forall>q \<in> set us. rot m' q = rot m2 q \<and> home m' q = home m2 q \<and> wcall m' q = wcall m2 q"
        "\<forall>q \<in> set xs. if 0 < rot m2 q then rot m' q = rot m2 q - 1 \<and> home m' q = home m2 q \<and> wcall m' q = wcall m2 q else load q m' = None"
        "\<forall>q. q \<notin> set (us @ xs) \<longrightarrow> load q m' = load q m2" by blast
      have "load x m' = None" using r(7) nx m2 by auto
      moreover have "load q m' = load q m" if "q \<notin> set (us @ x # xs)" for q
        using that r(7) m2 load_unlink [of q us xs m] by auto
      moreover have "\<forall>q \<in> set us. rot m' q = rot m q \<and> home m' q = home m q \<and> wcall m' q = wcall m q" using r(5) dm nx(1) by metis
      moreover have "\<forall>q \<in> set xs. if 0 < rot m q then rot m' q = rot m q - 1 \<and> home m' q = home m q \<and> wcall m' q = wcall m q else load q m' = None"
        using r(6) dm nx(2) by metis
      ultimately show ?thesis using r(2-4) st [OF r(1)] rt False by (intro exI [of _ w'] exI [of _ m']) simp
    qed
    show ?thesis
    proof (cases us)
      case Nil
      from remove_head [of m x xs] Cons.prems(3,4) Nil obtain m1 m2 where m: "free x m = Some m1"
        "(if hd_or xs NULL \<noteq> NULL then put_prev (hd_or xs NULL) NULL m1 else Some m1) = Some m2"
        "\<forall>q. load q m2 = (if q = x then None else load q (unlink [] xs m))" by auto
      let ?w = "w\<lparr>slots := (slots w)[cur_slot w := hd_or xs NULL]\<rparr>"
      show ?thesis
      proof (rule rec [of m2 ?w])
        show "wheel_tick_loop x w m = Some ((w_cb_func t, w_user_data t) # calls, w', m')"
          if "wheel_tick_loop (hd_or xs NULL) ?w m2 = Some (calls, w', m')" for calls w' m'
          unfolding wheel_tick_loop.simps [of x w m]
          using that t False Cons.prems(1,2) Nil m(1,2) by (cases "hd_or xs NULL = NULL") (simp_all add: slot_def set_slot_def)
      qed (use m(3) Nil in simp_all)
    next
      case (Cons u us')
      then have us: "us \<noteq> []" and ux: "x \<noteq> slots w ! cur_slot w" using nx(1) Cons.prems(2) by auto
      from remove_inner [OF Cons.prems(3,4) us t(1)] obtain m1 m2 m3 where
        m: "put_next (t_prev t) (t_next t) m = Some m1" "load x m1 = Some t"
          "(if t_next t \<noteq> NULL then put_prev (t_next t) (t_prev t) m1 else Some m1) = Some m2" "load x m2 = Some t"
          "free x m2 = Some m3" "\<forall>q. load q m3 = (if q = x then None else load q (unlink us xs m))" by blast
      show ?thesis
      proof (rule rec [of m3 w])
        show "slots w = (slots w)[cur_slot w := hd_or (us @ xs) NULL]" using list_update_id [of "slots w" "cur_slot w"] Cons.prems(2) Cons by simp
        show "wheel_tick_loop x w m = Some ((w_cb_func t, w_user_data t) # calls, w', m')"
          if "wheel_tick_loop (hd_or xs NULL) w m3 = Some (calls, w', m')" for calls w' m'
          unfolding wheel_tick_loop.simps [of x w m]
          using that t False Cons.prems(1) ux m by (cases "t_next t = NULL") (simp_all add: slot_def)
      qed (use m(6) in simp_all)
    qed
  qed
qed

end
