(* ===== verification/TimeWheelInv.thy ===== *)
theory TimeWheelInv
  imports TimeWheelOk
begin

text \<open>
  The invariant of the timing wheel and what each operation makes of the number of ticks a timer
  still waits.  \<open>L i\<close> lists the timers of slot \<open>i\<close>.
\<close>

subsection \<open>The invariant\<close>

definition slot_ok :: "wheel_mem \<Rightarrow> nat \<Rightarrow> addr \<Rightarrow> addr list \<Rightarrow> bool" where
  "slot_ok m i h xs \<longleftrightarrow> h = hd_or xs NULL \<and> dseg m NULL xs NULL \<and> distinct xs \<and> (\<forall>p \<in> set xs. home m p = i \<and> 0 \<le> rot m p)"

definition wheel_inv :: "time_wheel \<Rightarrow> wheel_mem \<Rightarrow> (nat \<Rightarrow> addr list) \<Rightarrow> bool" where
  "wheel_inv w m L \<longleftrightarrow> length (slots w) = N_slots \<and> cur_slot w < N_slots \<and> (\<forall>i < N_slots. slot_ok m i (slots w ! i) (L i))"

definition wheel_timers :: "(nat \<Rightarrow> addr list) \<Rightarrow> addr set" where
  "wheel_timers L = (\<Union>i \<in> {..<N_slots}. set (L i))"

text \<open>The number of ticks before the one that calls the timer.\<close>

definition delay_of :: "time_wheel \<Rightarrow> wheel_mem \<Rightarrow> addr \<Rightarrow> nat" where
  "delay_of w m p = nat (rot m p) * N_slots + (home m p + N_slots - cur_slot w) mod N_slots"

lemma wheel_invD:
  assumes "wheel_inv w m L"
  shows "length (slots w) = N_slots" "cur_slot w < N_slots" "i < N_slots \<Longrightarrow> slot_ok m i (slots w ! i) (L i)"
  using assms by (simp_all add: wheel_inv_def)

lemma wheel_init_inv: "wheel_inv time_wheel_init m (\<lambda>_. [])"
  by (simp add: wheel_inv_def time_wheel_init_def slot_ok_def N_slots_def hd_or_def)

lemma slot_home: "wheel_inv w m L \<Longrightarrow> i < N_slots \<Longrightarrow> p \<in> set (L i) \<Longrightarrow> home m p = i \<and> 0 \<le> rot m p \<and> load p m \<noteq> None \<and> p \<noteq> NULL"
  using wheel_invD(3) [of w m L i] dseg_live [of m NULL "L i" NULL p] by (auto simp: slot_ok_def)

lemma timer_home:
  assumes "wheel_inv w m L" and "p \<in> wheel_timers L"
  shows "home m p < N_slots" "p \<in> set (L (home m p))" "0 \<le> rot m p" "load p m \<noteq> None" "p \<noteq> NULL"
  using assms slot_home [OF assms(1)] by (auto simp: wheel_timers_def)

lemma slot_apart: "wheel_inv w m L \<Longrightarrow> i < N_slots \<Longrightarrow> j < N_slots \<Longrightarrow> i \<noteq> j \<Longrightarrow> set (L i) \<inter> set (L j) = {}"
  using slot_home [of w m L i] slot_home [of w m L j] by (metis disjoint_iff)

lemma timers_upd:
  "j < N_slots \<Longrightarrow> wheel_timers (L(j := xs)) = set xs \<union> (\<Union>i \<in> {..<N_slots} - {j}. set (L i))"
  by (auto simp: wheel_timers_def split: if_splits)

lemma slot_ok_cong:
  assumes "slot_ok m i h xs" and "\<forall>q \<in> set xs. load q m' = load q m"
  shows "slot_ok m' i h xs"
proof -
  have "dseg m' NULL xs NULL = dseg m NULL xs NULL" by (rule dseg_cong) (use assms(2) in blast)
  moreover have "home m' q = home m q \<and> rot m' q = rot m q" if "q \<in> set xs" for q using data_cong assms(2) that by blast
  ultimately show ?thesis using assms(1) by (simp add: slot_ok_def)
qed

text \<open>Changing one slot and nothing the other slots hold.\<close>

lemma wheel_inv_upd:
  assumes I: "wheel_inv w m L" and j: "j < N_slots" and s: "slots w' = (slots w)[j := h]" "cur_slot w' < N_slots"
    and ok: "slot_ok m' j h xs" and l: "\<And>i q. i < N_slots \<Longrightarrow> i \<noteq> j \<Longrightarrow> q \<in> set (L i) \<Longrightarrow> load q m' = load q m"
  shows "wheel_inv w' m' (L(j := xs))"
proof -
  have "slot_ok m' i (slots w' ! i) ((L(j := xs)) i)" if "i < N_slots" for i
    using slot_ok_cong [OF wheel_invD(3) [OF I that]] l [OF that] ok s(1) wheel_invD(1) [OF I] j that by (cases "i = j") auto
  then show ?thesis using s wheel_invD(1) [OF I] by (simp add: wheel_inv_def)
qed

subsection \<open>A tick\<close>

lemma due_iff:
  assumes "home m p < N_slots" and "cur_slot w < N_slots"
  shows "delay_of w m p = 0 \<longleftrightarrow> home m p = cur_slot w \<and> rot m p \<le> 0"
proof -
  have "(home m p + N_slots - cur_slot w) mod N_slots = 0 \<longleftrightarrow> home m p = cur_slot w"
    using assms by (cases "cur_slot w \<le> home m p") (auto simp: N_slots_def le_mod_geq mod_if)
  then show ?thesis by (auto simp: delay_of_def N_slots_def)
qed

lemma next_delay:
  assumes h: "home m p < N_slots" "cur_slot w < N_slots" "0 \<le> rot m p"
    and w': "cur_slot w' = (cur_slot w + 1) mod N_slots" and m': "home m' p = home m p"
    and r: "rot m' p = (if home m p = cur_slot w then rot m p - 1 else rot m p)"
    and nd: "delay_of w m p \<noteq> 0"
  shows "delay_of w m p = Suc (delay_of w' m' p)"
proof (cases "home m p = cur_slot w")
  case True
  then have "0 < rot m p" using nd due_iff [OF h(1,2)] by simp
  then obtain k where k: "nat (rot m p) = Suc k" "nat (rot m p - 1) = k" by (metis Suc_pred' nat_diff_distrib' nat_one_as_int One_nat_def diff_Suc_1 int_one_le_iff_zero_less nat_1 zero_less_nat_eq zero_le_one h(3))
  show ?thesis using True h w' m' r k by (simp add: delay_of_def N_slots_def mod_if)
next
  case False
  then show ?thesis using h w' m' r by (auto simp: delay_of_def N_slots_def mod_if)
qed

lemma tick_ok:
  assumes I: "wheel_inv w m L"
  defines "c \<equiv> cur_slot w"
  defines "L' \<equiv> L(c := filter (\<lambda>p. 0 < rot m p) (L c))"
  shows "\<exists>w' m'. wheel_tick w m = Some (map (wcall m) (filter (\<lambda>p. rot m p \<le> 0) (L c)), w', m') \<and> wheel_inv w' m' L' \<and>
    (\<forall>p \<in> wheel_timers L. if delay_of w m p = 0 then load p m' = None
       else delay_of w m p = Suc (delay_of w' m' p) \<and> wcall m' p = wcall m p)"
proof -
  note D = wheel_invD [OF I]
  have c: "c < N_slots" "c < length (slots w)" using D by (simp_all add: c_def)
  note S = D(3) [OF c(1)]
  from tick_loop_ok [of w "[]" "L c" m] S c obtain w1 m' where r:
    "wheel_tick_loop (hd_or (L c) NULL) w m = Some (map (wcall m) (filter (\<lambda>p. rot m p \<le> 0) (L c)), w1, m')"
    "cur_slot w1 = c" "slots w1 = (slots w)[c := hd_or (filter (\<lambda>p. 0 < rot m p) (L c)) NULL]"
    "dseg m' NULL (filter (\<lambda>p. 0 < rot m p) (L c)) NULL"
    "\<forall>q \<in> set (L c). if 0 < rot m q then rot m' q = rot m q - 1 \<and> home m' q = home m q \<and> wcall m' q = wcall m q else load q m' = None"
    "\<forall>q. q \<notin> set (L c) \<longrightarrow> load q m' = load q m" by (auto simp: slot_ok_def c_def)
  let ?w = "w1\<lparr>cur_slot := (c + 1) mod N_slots\<rparr>"
  have "wheel_tick w m = Some (map (wcall m) (filter (\<lambda>p. rot m p \<le> 0) (L c)), ?w, m')"
    using r(1,2) c S by (simp add: wheel_tick_def slot_def slot_ok_def c_def [symmetric])
  moreover have "wheel_inv ?w m' L'"
    unfolding L'_def
  proof (rule wheel_inv_upd [OF I c(1)])
    show "slots ?w = (slots w)[c := hd_or (filter (\<lambda>p. 0 < rot m p) (L c)) NULL]" using r(3) by simp
    show "cur_slot ?w < N_slots" by (simp add: N_slots_def)
    show "slot_ok m' c (hd_or (filter (\<lambda>p. 0 < rot m p) (L c)) NULL) (filter (\<lambda>p. 0 < rot m p) (L c))"
      using r(4,5) S by (simp add: slot_ok_def)
    show "load q m' = load q m" if "i < N_slots" "i \<noteq> c" "q \<in> set (L i)" for i q
      using r(6) slot_apart [OF I that(1) c(1) that(2)] that(3) by auto
  qed
  moreover have "if delay_of w m p = 0 then load p m' = None
       else delay_of w m p = Suc (delay_of ?w m' p) \<and> wcall m' p = wcall m p" if p: "p \<in> wheel_timers L" for p
  proof -
    note t = timer_home [OF I p]
    note due = due_iff [OF t(1) D(2)]
    show ?thesis
    proof (cases "home m p = c")
      case True
      then have "p \<in> set (L c)" using t(2) by simp
      with r(5) have v: "if 0 < rot m p then rot m' p = rot m p - 1 \<and> home m' p = home m p \<and> wcall m' p = wcall m p else load p m' = None"
        by blast
      show ?thesis
      proof (cases "0 < rot m p")
        case rp: True
        have nd: "delay_of w m p \<noteq> 0" using due rp by simp
        have "delay_of w m p = Suc (delay_of ?w m' p)"
          by (rule next_delay [OF t(1) D(2) t(3)]) (use v rp True nd in \<open>simp_all add: c_def\<close>)
        then show ?thesis using v rp nd by simp
      next
        case False
        then show ?thesis using due v True by (simp add: c_def)
      qed
    next
      case False
      then have "p \<notin> set (L c)" using slot_home [OF I c(1)] by auto
      then have e: "load p m' = load p m" using r(6) by blast
      note d = data_cong [OF e]
      have nd: "delay_of w m p \<noteq> 0" using due False by (simp add: c_def)
      have "delay_of w m p = Suc (delay_of ?w m' p)"
        by (rule next_delay [OF t(1) D(2) t(3)]) (use d False nd in \<open>simp_all add: c_def\<close>)
      then show ?thesis using d nd by simp
    qed
  qed
  ultimately show ?thesis by blast
qed

end
