(* ===== verification/TimeWheelRun.thy ===== *)
theory TimeWheelRun
  imports TimeWheelInv
begin

text \<open>
  Whole runs of the timing wheel: any number of ticks, adding and deleting timers, and the destructor.
\<close>

subsection \<open>Any number of ticks\<close>

fun wheel_ticks :: "nat \<Rightarrow> time_wheel \<Rightarrow> wheel_mem \<Rightarrow> (wheel_calls list \<times> time_wheel \<times> wheel_mem) option" where
  "wheel_ticks 0 w m = Some ([], w, m)"
| "wheel_ticks (Suc n) w m = do {
     (c, w, m) \<leftarrow> wheel_tick w m;
     (cs, w, m) \<leftarrow> wheel_ticks n w m;
     Some (c # cs, w, m) }"

text \<open>The timers that \<open>k\<close> more ticks leave waiting, by what they call.\<close>

definition due_in :: "nat \<Rightarrow> time_wheel \<Rightarrow> wheel_mem \<Rightarrow> (nat \<Rightarrow> addr list) \<Rightarrow> addr set" where
  "due_in k w m L = {p \<in> wheel_timers L. delay_of w m p = k}"

lemma finite_timers: "finite (wheel_timers L)"
  by (simp add: wheel_timers_def)

lemma tick_due:
  assumes I: "wheel_inv w m L"
  shows "\<exists>c w' m' L'. wheel_tick w m = Some (c, w', m') \<and> wheel_inv w' m' L' \<and>
    mset c = image_mset (wcall m) (mset_set (due_in 0 w m L)) \<and>
    wheel_timers L' = {p \<in> wheel_timers L. delay_of w m p \<noteq> 0} \<and>
    (\<forall>p \<in> due_in 0 w m L. load p m' = None) \<and>
    (\<forall>p \<in> wheel_timers L'. delay_of w m p = Suc (delay_of w' m' p) \<and> wcall m' p = wcall m p)"
proof -
  let ?c = "cur_slot w"
  note D = wheel_invD [OF I]
  from tick_ok [OF I] obtain w' m' where r:
    "wheel_tick w m = Some (map (wcall m) (filter (\<lambda>p. rot m p \<le> 0) (L ?c)), w', m')"
    "wheel_inv w' m' (L(?c := filter (\<lambda>p. 0 < rot m p) (L ?c)))"
    "\<forall>p \<in> wheel_timers L. if delay_of w m p = 0 then load p m' = None
       else delay_of w m p = Suc (delay_of w' m' p) \<and> wcall m' p = wcall m p" by blast
  have due: "delay_of w m p = 0 \<longleftrightarrow> p \<in> set (L ?c) \<and> rot m p \<le> 0" if "p \<in> wheel_timers L" for p
    using due_iff [OF timer_home(1) [OF I that] D(2)] timer_home(2) [OF I that] slot_home [OF I D(2), of p] by auto
  have sub: "set (L ?c) \<subseteq> wheel_timers L" using D(2) by (auto simp: wheel_timers_def)
  have e: "due_in 0 w m L = set (filter (\<lambda>p. rot m p \<le> 0) (L ?c))" using due sub by (auto simp: due_in_def)
  have "distinct (L ?c)" using D(3) [OF D(2)] by (simp add: slot_ok_def)
  then have "distinct (filter (\<lambda>p. rot m p \<le> 0) (L ?c))" by simp
  then have "mset (filter (\<lambda>p. rot m p \<le> 0) (L ?c)) = mset_set (due_in 0 w m L)"
    unfolding e by (metis mset_set_set)
  then have "mset (map (wcall m) (filter (\<lambda>p. rot m p \<le> 0) (L ?c))) = image_mset (wcall m) (mset_set (due_in 0 w m L))"
    by (metis mset_map)
  moreover have t: "wheel_timers (L(?c := filter (\<lambda>p. 0 < rot m p) (L ?c))) = {p \<in> wheel_timers L. delay_of w m p \<noteq> 0}"
  proof -
    have "wheel_timers (L(?c := filter (\<lambda>p. 0 < rot m p) (L ?c))) = {p \<in> wheel_timers L. \<not> (p \<in> set (L ?c) \<and> rot m p \<le> 0)}"
    proof (rule set_eqI)
      fix p
      show "p \<in> wheel_timers (L(?c := filter (\<lambda>p. 0 < rot m p) (L ?c))) \<longleftrightarrow> p \<in> {p \<in> wheel_timers L. \<not> (p \<in> set (L ?c) \<and> rot m p \<le> 0)}"
      proof (cases "p \<in> set (L ?c)")
        case True
        then have "p \<notin> set (L i)" if "i < N_slots" "i \<noteq> ?c" for i using slot_apart [OF I that(1) D(2) that(2)] by blast
        then show ?thesis using True sub unfolding timers_upd [OF D(2)] by (auto simp: not_le)
      next
        case False
        then show ?thesis using D(2) unfolding timers_upd [OF D(2)] by (auto simp: wheel_timers_def)
      qed
    qed
    also have "\<dots> = {p \<in> wheel_timers L. delay_of w m p \<noteq> 0}"
      by (rule Collect_cong, rule conj_cong [OF refl]) (simp add: due)
    finally show ?thesis .
  qed
  moreover have "\<forall>p \<in> due_in 0 w m L. load p m' = None" using r(3) by (fastforce simp: due_in_def)
  moreover have "\<forall>p \<in> wheel_timers (L(?c := filter (\<lambda>p. 0 < rot m p) (L ?c))).
      delay_of w m p = Suc (delay_of w' m' p) \<and> wcall m' p = wcall m p" unfolding t
  proof
    fix p assume "p \<in> {p \<in> wheel_timers L. delay_of w m p \<noteq> 0}"
    then have "p \<in> wheel_timers L" "delay_of w m p \<noteq> 0" by blast+
    with r(3) show "delay_of w m p = Suc (delay_of w' m' p) \<and> wcall m' p = wcall m p" by (metis (no_types))
  qed
  ultimately show ?thesis using r(1,2) by blast
qed

lemma ticks_due:
  "wheel_inv w m L \<Longrightarrow> \<exists>cs w' m' L'. wheel_ticks n w m = Some (cs, w', m') \<and> wheel_inv w' m' L' \<and> length cs = n \<and>
     (\<forall>k < n. mset (cs ! k) = image_mset (wcall m) (mset_set (due_in k w m L))) \<and>
     wheel_timers L' = {p \<in> wheel_timers L. n \<le> delay_of w m p} \<and>
     (\<forall>p \<in> wheel_timers L'. delay_of w m p = delay_of w' m' p + n \<and> wcall m' p = wcall m p)"
proof (induction n arbitrary: w m L)
  case 0
  then show ?case by auto
next
  case (Suc n)
  from tick_due [OF Suc.prems] obtain c w1 m1 L1 where
    a: "wheel_tick w m = Some (c, w1, m1)" "wheel_inv w1 m1 L1" "mset c = image_mset (wcall m) (mset_set (due_in 0 w m L))"
      "wheel_timers L1 = {p \<in> wheel_timers L. delay_of w m p \<noteq> 0}"
      "\<forall>p \<in> wheel_timers L1. delay_of w m p = Suc (delay_of w1 m1 p) \<and> wcall m1 p = wcall m p" by blast
  from Suc.IH [OF a(2)] obtain cs w' m' L' where
    b: "wheel_ticks n w1 m1 = Some (cs, w', m')" "wheel_inv w' m' L'" "length cs = n"
      "\<forall>k < n. mset (cs ! k) = image_mset (wcall m1) (mset_set (due_in k w1 m1 L1))"
      "wheel_timers L' = {p \<in> wheel_timers L1. n \<le> delay_of w1 m1 p}"
      "\<forall>p \<in> wheel_timers L'. delay_of w1 m1 p = delay_of w' m' p + n \<and> wcall m' p = wcall m1 p" by blast
  have s: "due_in k w1 m1 L1 = due_in (Suc k) w m L" for k
  proof (rule set_eqI)
    fix p
    show "p \<in> due_in k w1 m1 L1 \<longleftrightarrow> p \<in> due_in (Suc k) w m L"
    proof (cases "p \<in> wheel_timers L1")
      case True
      then have "delay_of w m p = Suc (delay_of w1 m1 p)" "p \<in> wheel_timers L" using a(4,5) by blast+
      then show ?thesis using True by (simp add: due_in_def)
    next
      case False
      then have "p \<in> wheel_timers L \<longrightarrow> delay_of w m p = 0" using a(4) by simp
      with False show ?thesis by (simp add: due_in_def)
    qed
  qed
  have "mset ((c # cs) ! k) = image_mset (wcall m) (mset_set (due_in k w m L))" if "k < Suc n" for k
  proof (cases k)
    case 0
    then show ?thesis using a(3) by simp
  next
    case (Suc j)
    have "finite (due_in (Suc j) w m L)" using finite_timers [of L] by (simp add: due_in_def)
    moreover have "wcall m1 p = wcall m p" if "p \<in> due_in (Suc j) w m L" for p
    proof -
      have "p \<in> wheel_timers L1" using that a(4) by (simp add: due_in_def)
      then show ?thesis using a(5) by blast
    qed
    ultimately have "image_mset (wcall m1) (mset_set (due_in (Suc j) w m L)) = image_mset (wcall m) (mset_set (due_in (Suc j) w m L))"
      by (intro image_mset_cong) simp
    then show ?thesis using b(4) that Suc s by simp
  qed
  moreover have "wheel_timers L' = {p \<in> wheel_timers L. Suc n \<le> delay_of w m p}"
  proof (rule set_eqI)
    fix p
    have t: "p \<in> wheel_timers L1 \<longleftrightarrow> p \<in> wheel_timers L \<and> delay_of w m p \<noteq> 0" using a(4) by blast
    show "p \<in> wheel_timers L' \<longleftrightarrow> p \<in> {p \<in> wheel_timers L. Suc n \<le> delay_of w m p}"
    proof (cases "p \<in> wheel_timers L1")
      case True
      then have d: "delay_of w m p = Suc (delay_of w1 m1 p)" using a(5) by blast
      show ?thesis using True t unfolding b(5) by (simp add: d)
    next
      case False
      then show ?thesis using t unfolding b(5) by (metis (no_types, lifting) Suc_le_D Zero_not_Suc mem_Collect_eq)
    qed
  qed
  moreover have "\<forall>p \<in> wheel_timers L'. delay_of w m p = delay_of w' m' p + Suc n \<and> wcall m' p = wcall m p"
  proof
    fix p assume p: "p \<in> wheel_timers L'"
    then have "p \<in> wheel_timers L1" using b(5) by blast
    with p a(5) b(6) show "delay_of w m p = delay_of w' m' p + Suc n \<and> wcall m' p = wcall m p" by fastforce
  qed
  ultimately show ?case using a(1) b(1-3) by (intro exI [of _ "c # cs"] exI [of _ w'] exI [of _ m'] exI [of _ L']) simp
qed

subsection \<open>Adding a timer\<close>

text \<open>The ticks a timeout stands for.\<close>

definition ticks_of :: "int \<Rightarrow> nat" where
  "ticks_of timeout = nat (if timeout < TI then 1 else timeout div TI)"

definition the_slot :: "time_wheel \<Rightarrow> nat \<Rightarrow> nat" where
  "the_slot w n = (cur_slot w + n mod N_slots) mod N_slots"

lemma around: "c < 60 \<Longrightarrow> k < 60 \<Longrightarrow> ((c + k) mod 60 + 60 - c) mod 60 = (k::nat)"
  by (cases "c + k < 60") (simp_all add: mod_if)

lemma new_delay:
  assumes "cur_slot w < N_slots" and "rot m p = int n div int N_slots" and "home m p = the_slot w n"
  shows "delay_of w m p = n"
proof -
  have "(the_slot w n + N_slots - cur_slot w) mod N_slots = n mod N_slots"
    using assms(1) around [of "cur_slot w" "n mod N_slots"] by (simp add: the_slot_def N_slots_def)
  moreover have "nat (rot m p) = n div N_slots" using assms(2) by (simp add: zdiv_int [symmetric])
  ultimately show ?thesis unfolding delay_of_def assms(3) by simp
qed

lemma wheel_add_negative: "timeout < 0 \<Longrightarrow> wheel_add_timer cb ud timeout w m = Some (Returns NULL, w, m)"
  by (simp add: wheel_add_timer_def)

lemma wheel_add_full:
  "0 \<le> timeout \<Longrightarrow> alloc_fails m \<Longrightarrow> wheel_add_timer cb ud timeout w m = Some (Throws, w, m\<lparr>oom := tl (oom m)\<rparr>)"
  by (simp add: wheel_add_timer_def Let_def malloc_alloc_fails NULL_def)

lemma wheel_add_eq:
  assumes "0 \<le> timeout" and "\<not> alloc_fails m" and "brk m \<noteq> NULL" and "wheel_inv w m L" and h: "hd_or (L (the_slot w n)) NULL \<noteq> NULL \<longrightarrow>
      load (hd_or (L (the_slot w n)) NULL) m \<noteq> None \<and> hd_or (L (the_slot w n)) NULL \<noteq> brk m"
    and n_def: "n = ticks_of timeout"
    and t_def: "t = \<lparr>t_prev = NULL, t_next = NULL, rotation = int n div int N_slots, time_slot = the_slot w n, w_cb_func = cb, w_user_data = ud\<rparr>"
  shows "\<exists>m'. wheel_add_timer cb ud timeout w m = Some (Returns (brk m), w\<lparr>slots := (slots w)[the_slot w n := brk m]\<rparr>, m') \<and>
    same_mem (link [] (brk m) (L (the_slot w n)) (snd (malloc t m))) m'"
proof -
  let ?ts = "the_slot w n" and ?x = "brk m"
  let ?h = "hd_or (L ?ts) NULL"
  obtain m0 where m0: "m0 = snd (malloc t m)" by simp
  note D = wheel_invD [OF assms(4)]
  have ts: "?ts < N_slots" by (simp add: the_slot_def N_slots_def)
  have sl: "slots w ! ?ts = ?h" using D(3) [OF ts] by (simp add: slot_ok_def)
  have tk: "(if timeout < TI then 1 else timeout div TI) = int n" using assms(1) by (simp add: n_def ticks_of_def TI_def)
  have ts': "nat ((int (cur_slot w) + int n mod int N_slots) mod int N_slots) = ?ts"
    by (simp add: the_slot_def zmod_int [symmetric] of_nat_add [symmetric] del: of_nat_add)
  have mal: "malloc t m = (?x, m0)" using malloc_succeeds [OF assms(2)] by (simp add: m0)
  have lm: "load q m0 = (if q = ?x then Some t else load q m)" for q
    using malloc_succeeds [OF assms(2), of t] assms(3) by (auto simp: load_def m0)
  have e: "wheel_add_timer cb ud timeout w m =
      (if ?h = NULL then Some (Returns ?x, w\<lparr>slots := (slots w)[?ts := ?x]\<rparr>, m0)
       else do { m1 \<leftarrow> put_next ?x ?h m0; m2 \<leftarrow> put_prev ?h ?x m1; Some (Returns ?x, w\<lparr>slots := (slots w)[?ts := ?x]\<rparr>, m2) })"
    unfolding wheel_add_timer_def tk Let_def ts' t_def [symmetric] mal using assms(1,3) ts D(1) sl
    by (simp add: slot_def set_slot_def)
  show ?thesis
  proof (cases "?h = NULL")
    case True
    then have "L ?ts = []" using D(3) [OF ts] by (cases "L ?ts") (auto simp: slot_ok_def)
    then have "same_mem (link [] ?x (L ?ts) m0) m0" using lm assms(3) by (auto simp: same_mem_def link_def t_def)
    then show ?thesis using e True m0 by auto
  next
    case False
    let ?m1 = "with_next ?x ?h m0"
    have "put_next ?x ?h m0 = Some ?m1" using lm by (intro set_with) simp
    moreover have "put_prev ?h ?x ?m1 = Some (with_prev ?h ?x ?m1)" using lm h False by (intro set_with) auto
    moreover have "same_mem (link [] ?x (L ?ts) m0) (with_prev ?h ?x ?m1)"
      using lm h False assms(3) by (auto simp: same_mem_def link_def t_def)
    ultimately show ?thesis using e False m0 by auto
  qed
qed

text \<open>A memory that agrees on the timers of a wheel gives them the same delays.\<close>

lemma delay_cong: "home m' p = home m p \<Longrightarrow> rot m' p = rot m p \<Longrightarrow> cur_slot w' = cur_slot w \<Longrightarrow> delay_of w' m' p = delay_of w m p"
  by (simp add: delay_of_def)

lemma wheel_add_ok:
  assumes I: "wheel_inv w m L" and wf: "wf_heap m" and t0: "0 \<le> timeout" and oom: "\<not> alloc_fails m"
  defines "j \<equiv> the_slot w (ticks_of timeout)"
  shows "\<exists>w' m'. wheel_add_timer cb ud timeout w m = Some (Returns (brk m), w', m') \<and> brk m \<notin> wheel_timers L \<and>
    wheel_inv w' m' (L(j := brk m # L j)) \<and> delay_of w' m' (brk m) = ticks_of timeout \<and> wcall m' (brk m) = (cb, ud) \<and>
    (\<forall>p \<in> wheel_timers L. delay_of w' m' p = delay_of w m p \<and> wcall m' p = wcall m p)"
proof -
  let ?x = "brk m" and ?n = "ticks_of timeout"
  let ?t = "\<lparr>t_prev = NULL, t_next = NULL, rotation = int ?n div int N_slots, time_slot = j, w_cb_func = cb, w_user_data = ud\<rparr>"
  note D = wheel_invD [OF I]
  have j: "j < N_slots" by (simp add: j_def the_slot_def N_slots_def)
  note S = D(3) [OF j]
  have x: "?x \<noteq> NULL" "load ?x m = None" using wf wf_heap_brk_pos wf_heap_fresh by blast+
  then have nt: "?x \<notin> wheel_timers L" using timer_home(4) [OF I] by blast
  have nj: "?x \<notin> set (L i)" if "i < N_slots" for i using nt that by (auto simp: wheel_timers_def)
  have "hd_or (L j) NULL \<noteq> NULL \<longrightarrow> load (hd_or (L j) NULL) m \<noteq> None \<and> hd_or (L j) NULL \<noteq> ?x"
    using S x by (cases "L j") (auto simp: slot_ok_def)
  from wheel_add_eq [OF t0 oom x(1) I this [unfolded j_def] refl refl, of cb ud] obtain m' where
    a: "wheel_add_timer cb ud timeout w m = Some (Returns ?x, w\<lparr>slots := (slots w)[j := ?x]\<rparr>, m')"
      "same_mem (link [] ?x (L j) (snd (malloc ?t m))) m'" unfolding j_def by blast
  let ?w = "w\<lparr>slots := (slots w)[j := ?x]\<rparr>"
  obtain m0 where m0: "m0 = snd (malloc ?t m)" by simp
  have lm: "load q m0 = (if q = ?x then Some ?t else load q m)" for q
    using malloc_succeeds [OF oom, of ?t] x(1) by (auto simp: load_def m0)
  note b = same_memD [OF a(2) [folded m0]]
  have d: "rot m' q = rot m0 q \<and> home m' q = home m0 q \<and> wcall m' q = wcall m0 q" for q
    using data_cong [OF b, of q] by simp
  have dm: "rot m' q = rot m q \<and> home m' q = home m q \<and> wcall m' q = wcall m q" if "q \<noteq> ?x" for q
    using d [of q] data_cong [of q m0 q m] lm that by simp
  have dx: "rot m' ?x = int ?n div int N_slots" "home m' ?x = j" "wcall m' ?x = (cb, ud)"
    using d [of ?x] lm by (simp_all add: rot_def home_def wcall_def)
  have "dseg m0 NULL (L j) NULL = dseg m NULL (L j) NULL" by (rule dseg_cong) (use lm nj [OF j] in auto)
  then have "dseg (link [] ?x (L j) m0) NULL ([] @ ?x # L j) NULL"
    using S nj [OF j] lm by (intro link_dseg) (auto simp: slot_ok_def)
  then have seg: "dseg m' NULL (?x # L j) NULL" using dseg_same [OF a(2) [folded m0]] by (simp del: dseg.simps)
  have "home m' q = j \<and> 0 \<le> rot m' q" if "q \<in> set (?x # L j)" for q
    using dx dm [of q] S that by (cases "q = ?x") (auto simp: slot_ok_def N_slots_def)
  then have "slot_ok m' j ?x (?x # L j)" using seg S nj [OF j] by (simp add: slot_ok_def hd_or_def)
  then have "wheel_inv ?w m' (L(j := ?x # L j))"
  proof (rule wheel_inv_upd [OF I j, rotated 2])
    show "load q m' = load q m" if "i < N_slots" "i \<noteq> j" "q \<in> set (L i)" for i q
      using b [of q] load_link [of q ?x "[]" "L j" m0] slot_apart [OF I that(1) j that(2)] that nj [OF that(1)] lm by auto
  qed (use D(2) in simp_all)
  moreover have "delay_of ?w m' ?x = ?n" by (rule new_delay) (use D(2) dx in \<open>simp_all add: j_def the_slot_def\<close>)
  moreover have "delay_of ?w m' p = delay_of w m p \<and> wcall m' p = wcall m p" if "p \<in> wheel_timers L" for p
    using dm [of p] that nt delay_cong [of m' p m ?w w] by auto
  ultimately show ?thesis using a(1) dx(3) nt by blast
qed

subsection \<open>Deleting a timer\<close>

lemma wheel_del_null: "wheel_del_timer NULL w m = Some (w, m)"
  by (simp add: wheel_del_timer_def)

lemma wheel_del_eq:
  assumes I: "wheel_inv w m L" and j: "j < N_slots" "L j = us @ x # vs"
  shows "\<exists>w' m'. wheel_del_timer x w m = Some (w', m') \<and> slots w' = (slots w)[j := hd_or (us @ vs) NULL] \<and> cur_slot w' = cur_slot w \<and>
    (\<forall>q. load q m' = (if q = x then None else load q (unlink us vs m)))"
proof -
  note D = wheel_invD [OF I]
  have S: "slots w ! j = hd_or (us @ x # vs) NULL" "dseg m NULL (us @ x # vs) NULL" "distinct (us @ x # vs)" "home m x = j"
    using D(3) [OF j(1)] j(2) by (simp_all add: slot_ok_def)
  obtain t where t: "load x m = Some t" "t_prev t = last_or NULL us" "t_next t = hd_or vs NULL" "x \<noteq> NULL"
    using dseg_node [OF S(2)] dseg_live [OF S(2), of x] by auto
  have h: "time_slot t = j" using S(4) t(1) by (simp add: home_def)
  show ?thesis
  proof (cases us)
    case Nil
    from remove_head_first [of m x vs] S(2,3) Nil obtain m1 m2 where m: "(if hd_or vs NULL \<noteq> NULL then put_prev (hd_or vs NULL) NULL m else Some m) = Some m1"
      "free x m1 = Some m2" "\<forall>q. load q m2 = (if q = x then None else load q (unlink [] vs m))" by auto
    have "wheel_del_timer x w m = Some (w\<lparr>slots := (slots w)[j := hd_or vs NULL]\<rparr>, m2)"
      unfolding wheel_del_timer_def using t h S(1) Nil m(1,2) j(1) D(1)
      by (cases "hd_or vs NULL = NULL") (simp_all add: slot_def set_slot_def)
    then show ?thesis using m(3) Nil by simp
  next
    case (Cons u us')
    then have us: "us \<noteq> []" and ux: "x \<noteq> slots w ! j" using S(1,3) by auto
    from remove_inner [OF S(2,3) us t(1)] obtain m1 m2 m3 where
      m: "put_next (t_prev t) (t_next t) m = Some m1" "load x m1 = Some t"
        "(if t_next t \<noteq> NULL then put_prev (t_next t) (t_prev t) m1 else Some m1) = Some m2" "load x m2 = Some t"
        "free x m2 = Some m3" "\<forall>q. load q m3 = (if q = x then None else load q (unlink us vs m))" by blast
    have "wheel_del_timer x w m = Some (w, m3)"
      unfolding wheel_del_timer_def using t h ux m j(1) D(1)
      by (cases "t_next t = NULL") (simp_all add: slot_def)
    moreover have "slots w = (slots w)[j := hd_or (us @ vs) NULL]"
      using list_update_id [of "slots w" j] S(1) Cons by simp
    ultimately show ?thesis using m(6) by auto
  qed
qed

lemma wheel_del_ok:
  assumes I: "wheel_inv w m L" and x: "x \<in> wheel_timers L"
  shows "\<exists>w' m'. wheel_del_timer x w m = Some (w', m') \<and> wheel_inv w' m' (L(home m x := remove1 x (L (home m x)))) \<and>
    load x m' = None \<and> (\<forall>p \<in> wheel_timers L. p \<noteq> x \<longrightarrow> delay_of w' m' p = delay_of w m p \<and> wcall m' p = wcall m p)"
proof -
  let ?j = "home m x"
  note D = wheel_invD [OF I]
  note t = timer_home [OF I x]
  note j = t(1)
  obtain us vs where s: "L ?j = us @ x # vs" using t(2) split_list by fast
  from wheel_del_eq [OF I j s] obtain w' m' where r: "wheel_del_timer x w m = Some (w', m')"
    "slots w' = (slots w)[?j := hd_or (us @ vs) NULL]" "cur_slot w' = cur_slot w"
    "\<forall>q. load q m' = (if q = x then None else load q (unlink us vs m))" by blast
  have S: "dseg m NULL (us @ x # vs) NULL" "distinct (us @ x # vs)" "\<forall>q \<in> set (us @ x # vs). home m q = ?j \<and> 0 \<le> rot m q"
    using D(3) [OF j] s by (simp_all add: slot_ok_def)
  have d: "rot m' q = rot m q \<and> home m' q = home m q \<and> wcall m' q = wcall m q" if "q \<noteq> x" for q
    using data_cong [of q m' q "unlink us vs m"] r(4) that by simp
  have rem: "remove1 x (L ?j) = us @ vs" using s S(2) by (simp add: remove1_append)
  have "home m' q = ?j \<and> 0 \<le> rot m' q" if "q \<in> set (us @ vs)" for q
  proof -
    have "q \<noteq> x" "q \<in> set (us @ x # vs)" using that S(2) by auto
    moreover from this(2) S(3) have "home m q = ?j \<and> 0 \<le> rot m q" by blast
    ultimately show ?thesis using d [of q] by metis
  qed
  then have "slot_ok m' ?j (hd_or (us @ vs) NULL) (us @ vs)"
    using removed_dseg [OF S(1,2) r(4)] S(2) by (simp add: slot_ok_def)
  then have "wheel_inv w' m' (L(?j := us @ vs))"
  proof (rule wheel_inv_upd [OF I j r(2), rotated])
    show "load q m' = load q m" if "i < N_slots" "i \<noteq> ?j" "q \<in> set (L i)" for i q
      using r(4) load_unlink [of q us vs m] slot_apart [OF I that(1) j that(2)] that s by auto
  qed (use D(2) r(3) in simp)
  moreover have "delay_of w' m' p = delay_of w m p \<and> wcall m' p = wcall m p" if "p \<noteq> x" for p
    using d [OF that] delay_cong [of m' p m w' w] r(3) by simp
  ultimately show ?thesis using r(1,4) rem by auto
qed

subsection \<open>The destructor\<close>

lemma delete_slot_ok:
  "dseg m a xs NULL \<Longrightarrow> distinct xs \<Longrightarrow> i < length (slots w) \<Longrightarrow>
   \<exists>w' m'. wheel_delete_slot i (hd_or xs NULL) w m = Some (w', m') \<and> length (slots w') = length (slots w) \<and>
     (\<forall>k. k \<noteq> i \<longrightarrow> slots w' ! k = slots w ! k) \<and> (\<forall>q. load q m' = (if q \<in> set xs then None else load q m))"
proof (induction xs arbitrary: a w m)
  case Nil
  then show ?case by (simp add: wheel_delete_slot.simps)
next
  case (Cons x xs)
  then obtain t where t: "load x m = Some t" "x \<noteq> NULL" "t_next t = hd_or xs NULL" by auto
  from Cons.prems have "dseg m x xs NULL" "x \<notin> set xs" by auto
  from free_dseg [OF this] t(1) obtain m1 where m1: "free x m = Some m1" "dseg m1 x xs NULL"
    "\<forall>q. load q m1 = (if q = x then None else load q m)" by auto
  let ?w = "w\<lparr>slots := (slots w)[i := hd_or xs NULL]\<rparr>"
  from Cons.IH [OF m1(2), of ?w] Cons.prems(2,3) obtain w' m' where
    r: "wheel_delete_slot i (hd_or xs NULL) ?w m1 = Some (w', m')" "length (slots w') = length (slots w)"
      "\<forall>k. k \<noteq> i \<longrightarrow> slots w' ! k = slots w ! k" "\<forall>q. load q m' = (if q \<in> set xs then None else load q m1)" by auto
  have "wheel_delete_slot i x w m = Some (w', m')"
    using t m1(1) r(1) Cons.prems(3) by (subst wheel_delete_slot.simps) (simp add: set_slot_def)
  then show ?case using r(2-4) m1(3) by auto
qed

lemma delete_from_ok:
  "\<forall>k. i \<le> k \<longrightarrow> k < i + n \<longrightarrow> slots w ! k = hd_or (L k) NULL \<and> dseg m NULL (L k) NULL \<and> distinct (L k) \<Longrightarrow>
   \<forall>k l. i \<le> k \<longrightarrow> k < l \<longrightarrow> l < i + n \<longrightarrow> set (L k) \<inter> set (L l) = {} \<Longrightarrow> i + n \<le> length (slots w) \<Longrightarrow>
   \<exists>w' m'. wheel_delete_from i n w m = Some (w', m') \<and>
     (\<forall>q. load q m' = (if \<exists>k. i \<le> k \<and> k < i + n \<and> q \<in> set (L k) then None else load q m))"
proof (induction n arbitrary: i w m)
  case (Suc n)
  then have S: "slots w ! i = hd_or (L i) NULL" "dseg m NULL (L i) NULL" "distinct (L i)" "i < length (slots w)" by auto
  from delete_slot_ok [OF S(2-4)] obtain w1 m1 where a: "wheel_delete_slot i (hd_or (L i) NULL) w m = Some (w1, m1)"
    "length (slots w1) = length (slots w)" "\<forall>k. k \<noteq> i \<longrightarrow> slots w1 ! k = slots w ! k"
    "\<forall>q. load q m1 = (if q \<in> set (L i) then None else load q m)" by blast
  have "slots w1 ! k = hd_or (L k) NULL \<and> dseg m1 NULL (L k) NULL \<and> distinct (L k)" if k: "Suc i \<le> k" "k < Suc i + n" for k
  proof -
    have "set (L i) \<inter> set (L k) = {}" using Suc.prems(2) k by simp
    then have "dseg m1 NULL (L k) NULL = dseg m NULL (L k) NULL" by (intro dseg_cong) (use a(4) in auto)
    then show ?thesis using Suc.prems(1) a(3) k by simp
  qed
  then obtain w' m' where r: "wheel_delete_from (Suc i) n w1 m1 = Some (w', m')"
    "\<forall>q. load q m' = (if \<exists>k. Suc i \<le> k \<and> k < Suc i + n \<and> q \<in> set (L k) then None else load q m1)"
    using Suc.IH [of "Suc i" w1 m1] Suc.prems(2,3) a(2) by auto
  have e: "(\<exists>k. i \<le> k \<and> k < i + Suc n \<and> q \<in> set (L k)) \<longleftrightarrow> q \<in> set (L i) \<or> (\<exists>k. Suc i \<le> k \<and> k < Suc i + n \<and> q \<in> set (L k))" for q
  proof -
    have "i \<le> k \<and> k < i + Suc n \<and> q \<in> set (L k) \<longleftrightarrow> k = i \<and> q \<in> set (L k) \<or> Suc i \<le> k \<and> k < Suc i + n \<and> q \<in> set (L k)" for k
      by linarith
    then show ?thesis by (simp only: ex_disj_distrib simp_thms)
  qed
  have "load q m' = (if \<exists>k. i \<le> k \<and> k < i + Suc n \<and> q \<in> set (L k) then None else load q m)" for q
    unfolding e using r(2) a(4) by (cases "q \<in> set (L i)"; cases "\<exists>k. Suc i \<le> k \<and> k < Suc i + n \<and> q \<in> set (L k)") presburger+
  moreover have "wheel_delete_from i (Suc n) w m = Some (w', m')" using r(1) a(1) S(1,4) by (simp add: slot_def)
  ultimately show ?case by blast
qed auto

lemma wheel_delete_ok:
  assumes I: "wheel_inv w m L"
  shows "\<exists>m'. wheel_delete w m = Some m' \<and> (\<forall>q. load q m' = (if q \<in> wheel_timers L then None else load q m))"
proof -
  note D = wheel_invD [OF I]
  have "\<forall>k. 0 \<le> k \<longrightarrow> k < 0 + N_slots \<longrightarrow> slots w ! k = hd_or (L k) NULL \<and> dseg m NULL (L k) NULL \<and> distinct (L k)"
    using D(3) by (simp add: slot_ok_def)
  moreover have "\<forall>k l. 0 \<le> k \<longrightarrow> k < l \<longrightarrow> l < 0 + N_slots \<longrightarrow> set (L k) \<inter> set (L l) = {}"
    using slot_apart [OF I] by simp
  ultimately obtain w' m' where "wheel_delete_from 0 N_slots w m = Some (w', m')"
    "\<forall>q. load q m' = (if \<exists>k. 0 \<le> k \<and> k < 0 + N_slots \<and> q \<in> set (L k) then None else load q m)"
    using delete_from_ok [of 0 N_slots w L m] D(1) by auto
  then show ?thesis by (auto simp: wheel_delete_def wheel_timers_def)
qed

end
