(* ===== verification/TimeWheelClaims.thy ===== *)
theory TimeWheelClaims
  imports TimeWheelRun
begin

text \<open>What the timing wheel of \<open>timing_wheel.h\<close> does.\<close>

text \<open>A wheel with one timer, added with a timeout of 63 seconds.\<close>

lemma ex_wheel:
  "\<exists>w m. wheel_add_timer 7 100 63 time_wheel_init empty_heap = Some (Returns 1, w, m) \<and>
    wheel_inv w m ((\<lambda>_. [])(3 := [1])) \<and> delay_of w m 1 = 63 \<and> wcall m 1 = (7, 100)"
proof -
  have s: "the_slot time_wheel_init 63 = 3" "ticks_of 63 = 63"
    by (simp_all add: the_slot_def ticks_of_def TI_def time_wheel_init_def N_slots_def)
  have "\<not> alloc_fails (empty_heap :: wheel_mem)" "brk (empty_heap :: wheel_mem) = 1" by (simp_all add: alloc_fails_def empty_heap_def)
  with wheel_add_ok [OF wheel_init_inv wf_empty_heap, of 63 7 100] obtain w m where "wheel_add_timer 7 100 63 time_wheel_init empty_heap = Some (Returns 1, w, m)"
    "wheel_inv w m ((\<lambda>_. [])(the_slot time_wheel_init (ticks_of 63) := [1]))" "delay_of w m 1 = ticks_of 63" "wcall m 1 = (7, 100)"
    by fastforce
  then show ?thesis unfolding s by blast
qed

lemma ex_wheel_timers: "wheel_timers ((\<lambda>_. [])(3 := [p])) = {p}"
  by (auto simp: wheel_timers_def N_slots_def split: if_splits)

text \<open>C21: A wheel may turn any number of times: its \<open>k\<close>-th tick (from 0) calls back exactly the timers whose delay is
  \<open>k\<close>, each once; the timers called are gone and all others are still there with what is left of their delay.\<close>

theorem wheel_fires_on_the_tick:
  assumes "wheel_inv w m L"
  shows "\<exists>cs w' m' L'. wheel_ticks n w m = Some (cs, w', m') \<and> length cs = n \<and>
    (\<forall>k < n. mset (cs ! k) = image_mset (wcall m) (mset_set {p \<in> wheel_timers L. delay_of w m p = k})) \<and>
    wheel_inv w' m' L' \<and> wheel_timers L' = {p \<in> wheel_timers L. n \<le> delay_of w m p} \<and>
    (\<forall>p \<in> wheel_timers L'. delay_of w m p = delay_of w' m' p + n \<and> wcall m' p = wcall m p)"
proof -
  from ticks_due [OF assms, of n, unfolded due_in_def] obtain cs w' m' L' where
    "wheel_ticks n w m = Some (cs, w', m')" "wheel_inv w' m' L'" "length cs = n"
    "\<forall>k < n. mset (cs ! k) = image_mset (wcall m) (mset_set {p \<in> wheel_timers L. delay_of w m p = k})"
    "wheel_timers L' = {p \<in> wheel_timers L. n \<le> delay_of w m p}"
    "\<forall>p \<in> wheel_timers L'. delay_of w m p = delay_of w' m' p + n \<and> wcall m' p = wcall m p" by (elim exE conjE) (rule that)
  then show ?thesis by (intro exI conjI)
qed

theorem wheel_fires_on_the_tick_witness:
  "\<exists>w m cs w' m'. wheel_add_timer 7 100 63 time_wheel_init empty_heap = Some (Returns 1, w, m) \<and>
    wheel_ticks 64 w m = Some (cs, w', m') \<and> cs ! 62 = [] \<and> cs ! 63 = [(7, 100)]"
proof -
  obtain w m where w: "wheel_add_timer 7 100 63 time_wheel_init empty_heap = Some (Returns 1, w, m)"
    "wheel_inv w m ((\<lambda>_. [])(3 := [1]))" "delay_of w m 1 = 63" "wcall m 1 = (7, 100)" using ex_wheel by blast
  from wheel_fires_on_the_tick [OF w(2), of 64] obtain cs w' m' where r: "wheel_ticks 64 w m = Some (cs, w', m')"
    "\<forall>k < 64. mset (cs ! k) = image_mset (wcall m) (mset_set {p \<in> {1}. delay_of w m p = k})"
    unfolding ex_wheel_timers by blast
  have e: "{p \<in> {1::nat}. delay_of w m p = 62} = {}" "{p \<in> {1::nat}. delay_of w m p = 63} = {1}" using w(3) by auto
  have "mset (cs ! 62) = image_mset (wcall m) (mset_set {p \<in> {1}. delay_of w m p = 62})"
    "mset (cs ! 63) = image_mset (wcall m) (mset_set {p \<in> {1}. delay_of w m p = 63})" using r(2) by simp_all
  then have "mset (cs ! 62) = {#}" "mset (cs ! 63) = {#(7, 100)#}" unfolding e using w(4) by simp_all
  then have "cs ! 62 = []" "cs ! 63 = [(7, 100)]" by simp_all
  with w(1) r(1) show ?thesis by blast
qed

text \<open>A timer added with a timeout of \<open>t\<close> seconds gets a delay of \<open>t\<close> ticks, one tick at least, however often the
  wheel has turned; nothing changes for the other timers.\<close>

theorem wheel_add_sets_delay:
  assumes "wheel_inv w m L" and "wf_heap m" and "0 \<le> timeout" and "\<not> alloc_fails m"
  shows "\<exists>p w' m' L'. wheel_add_timer cb ud timeout w m = Some (Returns p, w', m') \<and> p \<notin> wheel_timers L \<and>
    wheel_inv w' m' L' \<and> wheel_timers L' = insert p (wheel_timers L) \<and>
    delay_of w' m' p = max 1 (nat timeout) \<and> wcall m' p = (cb, ud) \<and>
    (\<forall>q \<in> wheel_timers L. delay_of w' m' q = delay_of w m q \<and> wcall m' q = wcall m q)"
proof -
  let ?j = "the_slot w (ticks_of timeout)"
  have "?j < N_slots" by (simp add: the_slot_def N_slots_def)
  then have "wheel_timers (L(?j := brk m # L ?j)) = insert (brk m) (wheel_timers L)"
    by (auto simp: wheel_timers_def split: if_splits)
  moreover have "ticks_of timeout = max 1 (nat timeout)" using assms(3) by (auto simp: ticks_of_def TI_def)
  ultimately show ?thesis using wheel_add_ok [OF assms, of cb ud] by metis
qed

theorem wheel_add_sets_delay_witness:
  "\<exists>p w m. wheel_add_timer 7 100 0 time_wheel_init empty_heap = Some (Returns p, w, m) \<and> delay_of w m p = 1"
proof -
  have "\<not> alloc_fails (empty_heap :: wheel_mem)" by (simp add: alloc_fails_def empty_heap_def)
  with wheel_add_sets_delay [OF wheel_init_inv wf_empty_heap, of 0 7 100] show ?thesis by auto
qed

text \<open>Deleting a timer of the wheel releases it, leaves every other timer with its delay, and the destructor
  releases exactly the timers that are left.\<close>

theorem wheel_del_then_delete:
  assumes "wheel_inv w m L" and "p \<in> wheel_timers L"
  shows "\<exists>w' m' L' m''. wheel_del_timer p w m = Some (w', m') \<and> wheel_inv w' m' L' \<and> load p m' = None \<and>
    wheel_timers L' = wheel_timers L - {p} \<and> (\<forall>q \<in> wheel_timers L'. delay_of w' m' q = delay_of w m q \<and> wcall m' q = wcall m q) \<and>
    wheel_delete w' m' = Some m'' \<and> (\<forall>q. load q m'' = (if q \<in> wheel_timers L' then None else load q m'))"
proof -
  let ?L = "L(home m p := remove1 p (L (home m p)))"
  from wheel_del_ok [OF assms] obtain w' m' where a: "wheel_del_timer p w m = Some (w', m')" "wheel_inv w' m' ?L" "load p m' = None"
    "\<forall>q \<in> wheel_timers L. q \<noteq> p \<longrightarrow> delay_of w' m' q = delay_of w m q \<and> wcall m' q = wcall m q" by blast
  note t = timer_home [OF assms]
  have d: "distinct (L (home m p))" using wheel_invD(3) [OF assms(1) t(1)] by (simp add: slot_ok_def)
  have "p \<notin> set (L i)" if "i < N_slots" "i \<noteq> home m p" for i using slot_apart [OF assms(1) that(1) t(1) that(2)] t(2) by blast
  then have "wheel_timers ?L = wheel_timers L - {p}"
    unfolding timers_upd [OF t(1)] using d t(1) by (auto simp: wheel_timers_def)
  then show ?thesis using a wheel_delete_ok [OF a(2)] by (metis DiffE singletonI)
qed

theorem wheel_del_then_delete_witness:
  "\<exists>w m w' m' m''. wheel_add_timer 7 100 63 time_wheel_init empty_heap = Some (Returns 1, w, m) \<and>
    wheel_del_timer 1 w m = Some (w', m') \<and> load 1 m' = None \<and> wheel_delete w' m' = Some m''"
proof -
  obtain w m where w: "wheel_add_timer 7 100 63 time_wheel_init empty_heap = Some (Returns 1, w, m)"
    "wheel_inv w m ((\<lambda>_. [])(3 := [1]))" using ex_wheel by blast
  from wheel_del_then_delete [OF w(2), of 1] w(1) show ?thesis unfolding ex_wheel_timers by blast
qed

end
