(* ===== verification/LunarCalendar.thy ===== *)
theory LunarCalendar
  imports Prelude
begin

text \<open>
  The Chinese calendar of \<open>chinese_calendar.c\<close>: \<open>LunarCalendar\<close> converts a date to the lunar month and day by
  walking the months of a table, forwards from the lunar new year or backwards from it.  Integers
  are unbounded, the table entries and the result variable are 32-bit words; an access outside an array
  and a shift by a count outside the range are undefined.
\<close>

subsection \<open>The table\<close>

definition LunarCalendarTable :: "32 word list" where
  "LunarCalendarTable = [
     0x04AE53, 0x0A5748, 0x5526BD, 0x0D2650, 0x0D9544, 0x46AAB9, 0x056A4D, 0x09AD42, 0x24AEB6, 0x04AE4A,
     0x6A4DBE, 0x0A4D52, 0x0D2546, 0x5D52BA, 0x0B544E, 0x0D6A43, 0x296D37, 0x095B4B, 0x749BC1, 0x049754,
     0x0A4B48, 0x5B25BC, 0x06A550, 0x06D445, 0x4ADAB8, 0x02B64D, 0x095742, 0x2497B7, 0x04974A, 0x664B3E,
     0x0D4A51, 0x0EA546, 0x56D4BA, 0x05AD4E, 0x02B644, 0x393738, 0x092E4B, 0x7C96BF, 0x0C9553, 0x0D4A48,
     0x6DA53B, 0x0B554F, 0x056A45, 0x4AADB9, 0x025D4D, 0x092D42, 0x2C95B6, 0x0A954A, 0x7B4ABD, 0x06CA51,
     0x0B5546, 0x555ABB, 0x04DA4E, 0x0A5B43, 0x352BB8, 0x052B4C, 0x8A953F, 0x0E9552, 0x06AA48, 0x6AD53C,
     0x0AB54F, 0x04B645, 0x4A5739, 0x0A574D, 0x052642, 0x3E9335, 0x0D9549, 0x75AABE, 0x056A51, 0x096D46,
     0x54AEBB, 0x04AD4F, 0x0A4D43, 0x4D26B7, 0x0D254B, 0x8D52BF, 0x0B5452, 0x0B6A47, 0x696D3C, 0x095B50,
     0x049B45, 0x4A4BB9, 0x0A4B4D, 0xAB25C2, 0x06A554, 0x06D449, 0x6ADA3D, 0x0AB651, 0x093746, 0x5497BB,
     0x04974F, 0x064B44, 0x36A537, 0x0EA54A, 0x86B2BF, 0x05AC53, 0x0AB647, 0x5936BC, 0x092E50, 0x0C9645,
     0x4D4AB8, 0x0D4A4C, 0x0DA541, 0x25AAB6, 0x056A49, 0x7AADBD, 0x025D52, 0x092D47, 0x5C95BA, 0x0A954E,
     0x0B4A43, 0x4B5537, 0x0AD54A, 0x955ABF, 0x04BA53, 0x0A5B48, 0x652BBC, 0x052B50, 0x0A9345, 0x474AB9,
     0x06AA4C, 0x0AD541, 0x24DAB6, 0x04B64A, 0x69573D, 0x0A4E51, 0x0D2646, 0x5E933A, 0x0D534D, 0x05AA43,
     0x36B537, 0x096D4B, 0xB4AEBF, 0x04AD53, 0x0A4D48, 0x6D25BC, 0x0D254F, 0x0D5244, 0x5DAA38, 0x0B5A4C,
     0x056D41, 0x24ADB6, 0x049B4A, 0x7A4BBE, 0x0A4B51, 0x0AA546, 0x5B52BA, 0x06D24E, 0x0ADA42, 0x355B37,
     0x09374B, 0x8497C1, 0x049753, 0x064B48, 0x66A53C, 0x0EA54F, 0x06B244, 0x4AB638, 0x0AAE4C, 0x092E42,
     0x3C9735, 0x0C9649, 0x7D4ABD, 0x0D4A51, 0x0DA545, 0x55AABA, 0x056A4E, 0x0A6D43, 0x452EB7, 0x052D4B,
     0x8A95BF, 0x0A9553, 0x0B4A47, 0x6B553B, 0x0AD54F, 0x055A45, 0x4A5D38, 0x0A5B4C, 0x052B42, 0x3A93B6,
     0x069349, 0x7729BD, 0x06AA51, 0x0AD546, 0x54DABA, 0x04B64E, 0x0A5743, 0x452738, 0x0D264A, 0x8E933E,
     0x0D5252, 0x0DAA47, 0x66B53B, 0x056D4F, 0x04AE45, 0x4A4EB9, 0x0A4D4C, 0x0D1541, 0x2D92B5]"

definition MonthAdd :: "int list" where
  "MonthAdd = [0, 31, 59, 90, 120, 151, 181, 212, 243, 273, 304, 334]"

definition table_at :: "int \<Rightarrow> 32 word option" where
  "table_at i = (if 0 \<le> i \<and> i < 199 then Some (LunarCalendarTable ! nat i) else None)"

definition month_add_at :: "int \<Rightarrow> int option" where
  "month_add_at i = (if 0 \<le> i \<and> i < 12 then Some (MonthAdd ! nat i) else None)"

text \<open>The fields of an entry: the leap month, the days from New Year's Day to the lunar new year, and the length of the
  \<open>index\<close>-th month.\<close>

definition leap_field :: "32 word \<Rightarrow> int" where
  "leap_field t = uint (drop_bit 20 (t AND 0xF00000))"

definition spring_field :: "32 word \<Rightarrow> int" where
  "spring_field t = (if drop_bit 5 (t AND 0x0060) = 1 then uint (t AND 0x001F) - 1 else uint (t AND 0x001F) - 1 + 31)"

definition month_days :: "32 word \<Rightarrow> int \<Rightarrow> int option" where
  "month_days t index =
     (if 0 \<le> index - 1 \<and> index - 1 < 32
      then Some (if t AND drop_bit (nat (index - 1)) 0x80000 = 0 then 29 else 30) else None)"

subsection \<open>The conversion\<close>

text \<open>The loop after the lunar new year; \<open>StaticDayCount\<close>, which the code computes before the loop and at the end of its
  body, is computed at its head.  The result is the month and what is left of \<open>Sun_NY\<close>.\<close>

function forward_loop :: "32 word \<Rightarrow> int \<Rightarrow> int \<Rightarrow> int \<Rightarrow> int \<Rightarrow> (int \<times> int) option" where
  "forward_loop t sun month index flag =
     (case month_days t index of
        None \<Rightarrow> None
      | Some days \<Rightarrow>
          if days \<le> sun then
            (if month = leap_field t
             then forward_loop t (sun - days) (if NOT flag = 0 then month + 1 else month) (index + 1) (NOT flag)
             else forward_loop t (sun - days) (month + 1) (index + 1) flag)
          else Some (month, sun))"
  by auto
termination by (relation "measure (\<lambda>(t, sun, _). nat sun)") (auto simp: month_days_def split: if_splits)

text \<open>The loop before it; the result is the month, what is left of \<open>Spring_NY\<close> and the last \<open>StaticDayCount\<close>.\<close>

function backward_loop :: "32 word \<Rightarrow> int \<Rightarrow> int \<Rightarrow> int \<Rightarrow> int \<Rightarrow> (int \<times> int \<times> int) option" where
  "backward_loop t spring month index flag =
     (case month_days t index of
        None \<Rightarrow> None
      | Some days \<Rightarrow>
          if days < spring then
            (let month = (if flag = 0 then month - 1 else month) in
             backward_loop t (spring - days) month (index - 1) (if month = leap_field t then NOT flag else flag))
          else Some (month, spring, days))"
  by auto
termination by (relation "measure (\<lambda>(t, spring, _). nat spring)") (auto simp: month_days_def split: if_splits)

declare forward_loop.simps [simp del] backward_loop.simps [simp del]

text \<open>\<open>LunarCalendar\<close>; the global \<open>LunarCalendarDay\<close> is the last argument and the second result.\<close>

definition LunarCalendar :: "int \<Rightarrow> int \<Rightarrow> int \<Rightarrow> 32 word \<Rightarrow> (int \<times> 32 word) option" where
  "LunarCalendar year month day lunar_day = do {
     t \<leftarrow> table_at (year - 1901);
     let spring = spring_field t;
     add \<leftarrow> month_add_at (month - 1);
     let sun = add + day - 1;
     let sun = (if year mod 4 = 0 \<and> 2 < month then sun + 1 else sun);
     (t, month, day) \<leftarrow>
       (if spring \<le> sun then do {
          (month, sun) \<leftarrow> forward_loop t (sun - spring) 1 1 0;
          Some (t, month, sun + 1) }
        else do {
          t \<leftarrow> table_at (year - 1 - 1901);
          (month, spring, days) \<leftarrow> backward_loop t (spring - sun) 12 (if leap_field t = 0 then 12 else 13) 0;
          Some (t, month, days - spring + 1) });
     let lunar_day = lunar_day OR word_of_int day;
     let lunar_day = lunar_day OR word_of_int (push_bit 6 month);
     Some (if month = leap_field t then 1 else 0, lunar_day) }"

end
