(* ===== verification/LunarCalendarOk.thy ===== *)
theory LunarCalendarOk
  imports LunarCalendar
begin

text \<open>
  The calendar the table stands for, and what the two loops of \<open>LunarCalendar\<close> compute: the months of a lunar year in
  order, with their numbers and lengths, and the place of a day among them.
\<close>

subsection \<open>The months of a lunar year\<close>

definition month_len :: "32 word \<Rightarrow> nat \<Rightarrow> int" where
  "month_len t i = (if t AND drop_bit (i - 1) 0x80000 = 0 then 29 else 30)"

definition leap_of :: "32 word \<Rightarrow> nat" where
  "leap_of t = nat (leap_field t)"

text \<open>The \<open>i\<close>-th month: its number, and whether it is the second month of that number.\<close>

definition month_no :: "nat \<Rightarrow> nat \<Rightarrow> nat" where
  "month_no leap i = (if leap = 0 \<or> i \<le> leap then i else i - 1)"

definition is_leap :: "nat \<Rightarrow> nat \<Rightarrow> bool" where
  "is_leap leap i \<longleftrightarrow> leap \<noteq> 0 \<and> i = leap + 1"

definition last_month :: "32 word \<Rightarrow> nat" where
  "last_month t = (if leap_of t = 0 then 12 else 13)"

text \<open>A day of a lunar year, counted from 0, is day \<open>d\<close> of the \<open>i\<close>-th month.\<close>

definition days_before :: "32 word \<Rightarrow> nat \<Rightarrow> int" where
  "days_before t i = (\<Sum>j \<in> {1..<i}. month_len t j)"

definition year_days :: "32 word \<Rightarrow> int" where
  "year_days t = days_before t (Suc (last_month t))"

definition day_in_month :: "32 word \<Rightarrow> int \<Rightarrow> nat \<Rightarrow> int \<Rightarrow> bool" where
  "day_in_month t n i d \<longleftrightarrow> 1 \<le> i \<and> i \<le> last_month t \<and> 1 \<le> d \<and> d \<le> month_len t i \<and> n = days_before t i + d - 1"

lemma len_pos: "0 < month_len t i" and len_bounds: "29 \<le> month_len t i" "month_len t i \<le> 30"
  by (simp_all add: month_len_def)

lemma leap_field_int: "leap_field t = int (leap_of t)"
  by (simp add: leap_of_def leap_field_def)

lemma month_days_len: "1 \<le> i \<Longrightarrow> i \<le> 32 \<Longrightarrow> month_days t (int i) = Some (month_len t i)"
  by (simp add: month_days_def month_len_def of_nat_diff nat_diff_distrib)

lemma days_before_Suc: "1 \<le> i \<Longrightarrow> days_before t (Suc i) = days_before t i + month_len t i"
  by (simp add: days_before_def)

lemma days_before_mono: "i \<le> j \<Longrightarrow> days_before t i \<le> days_before t j"
  unfolding days_before_def by (rule sum_mono2) (auto intro: less_imp_le len_pos)

lemma days_before_one [simp]: "days_before t (Suc 0) = 0"
  by (simp add: days_before_def)

text \<open>A day lies in one month only.\<close>

lemma day_in_month_unique:
  assumes "day_in_month t n i d" and "day_in_month t n j e"
  shows "i = j \<and> d = e"
proof -
  have "\<not> i < j" if a: "day_in_month t n i d" "day_in_month t n j e" for i j d e
  proof
    assume "i < j"
    then have "days_before t (Suc i) \<le> days_before t j" by (intro days_before_mono) simp
    then show False using a days_before_Suc [of i t] by (simp add: day_in_month_def)
  qed
  from this [OF assms] this [OF assms(2,1)] assms show ?thesis by (simp add: day_in_month_def)
qed

subsection \<open>The loops\<close>

definition flag_of :: "nat \<Rightarrow> nat \<Rightarrow> int" where
  "flag_of leap i = (if is_leap leap i then -1 else 0)"

lemma next_month:
  "1 \<le> i \<Longrightarrow> leap \<noteq> 0 \<longrightarrow> leap \<le> 12 \<Longrightarrow>
   (if month_no leap i = leap then month_no leap (Suc i) = (if NOT (flag_of leap i) = 0 then Suc (month_no leap i) else month_no leap i) \<and>
      flag_of leap (Suc i) = NOT (flag_of leap i)
    else month_no leap (Suc i) = Suc (month_no leap i) \<and> flag_of leap (Suc i) = flag_of leap i)"
  by (auto simp: month_no_def flag_of_def is_leap_def)

lemma forward_loop_ok:
  assumes "1 \<le> i" and "i \<le> last_month t" and "0 \<le> sun" and "days_before t i + sun < year_days t" and "leap_of t \<le> 12"
  shows "\<exists>k d. forward_loop t sun (int (month_no (leap_of t) i)) (int i) (flag_of (leap_of t) i) = Some (int (month_no (leap_of t) k), d - 1) \<and>
    day_in_month t (days_before t i + sun) k d"
  using assms
proof (induction "last_month t - i" arbitrary: i sun)
  case 0
  then have i: "i = last_month t" by simp
  then have "sun < month_len t i" using 0(5) days_before_Suc [OF 0(2), of t] by (simp add: year_days_def)
  moreover have "month_days t (int i) = Some (month_len t i)" using 0(2) i by (intro month_days_len) (simp_all add: last_month_def)
  ultimately show ?case using 0 i
    by (intro exI [of _ i] exI [of _ "sun + 1"]) (simp add: forward_loop.simps day_in_month_def)
next
  case (Suc n)
  have md: "month_days t (int i) = Some (month_len t i)" using Suc.prems(1,2) by (intro month_days_len) (simp_all add: last_month_def split: if_splits)
  show ?case
  proof (cases "month_len t i \<le> sun")
    case False
    then show ?thesis using Suc.prems md
      by (intro exI [of _ i] exI [of _ "sun + 1"]) (simp add: forward_loop.simps day_in_month_def)
  next
    case True
    have "n = last_month t - Suc i" "Suc i \<le> last_month t" using Suc.hyps(2) by simp_all
    with Suc.hyps(1) [of "Suc i" "sun - month_len t i"] True Suc.prems days_before_Suc [OF Suc.prems(1), of t] obtain k d where
      r: "forward_loop t (sun - month_len t i) (int (month_no (leap_of t) (Suc i))) (int (Suc i)) (flag_of (leap_of t) (Suc i)) =
          Some (int (month_no (leap_of t) k), d - 1)" "day_in_month t (days_before t i + sun) k d" by auto
    have e: "int (Suc i) = int i + 1" by simp
    have "forward_loop t sun (int (month_no (leap_of t) i)) (int i) (flag_of (leap_of t) i) =
        forward_loop t (sun - month_len t i) (int (month_no (leap_of t) (Suc i))) (int (Suc i)) (flag_of (leap_of t) (Suc i))"
      using next_month [of i "leap_of t"] Suc.prems(1,5) True
      unfolding forward_loop.simps [of t sun] md option.case leap_field_int e by (auto simp: add.commute split: if_splits)
    with r show ?thesis by auto
  qed
qed

lemma prev_month:
  "1 \<le> i \<Longrightarrow> leap \<noteq> 0 \<longrightarrow> leap \<le> 12 \<Longrightarrow>
   (let m = (if flag_of leap (Suc i) = 0 then int (month_no leap (Suc i)) - 1 else int (month_no leap (Suc i))) in
    m = int (month_no leap i) \<and> flag_of leap i = (if m = int leap then NOT (flag_of leap (Suc i)) else flag_of leap (Suc i)))"
  by (auto simp: month_no_def flag_of_def is_leap_def Let_def)

lemma backward_loop_ok:
  assumes "1 \<le> i" and "i \<le> last_month t" and "0 < left" and "left \<le> days_before t (Suc i)" and "leap_of t \<le> 12"
  shows "\<exists>k left' days. backward_loop t left (int (month_no (leap_of t) i)) (int i) (flag_of (leap_of t) i) =
      Some (int (month_no (leap_of t) k), left', days) \<and>
    day_in_month t (days_before t (Suc i) - left) k (days - left' + 1)"
  using assms
proof (induction i arbitrary: left rule: nat_induct_at_least)
  case base
  have "month_days t 1 = Some (month_len t 1)" using month_days_len [of 1 t] by simp
  with base show ?case using days_before_Suc [of 1 t]
    by (intro exI [of _ 1] exI [of _ left] exI [of _ "month_len t 1"]) (simp add: backward_loop.simps day_in_month_def)
next
  case (Suc i)
  have md: "month_days t (int (Suc i)) = Some (month_len t (Suc i))"
    using Suc.prems(1) by (intro month_days_len) (simp_all add: last_month_def split: if_splits)
  have b: "days_before t (Suc (Suc i)) = days_before t (Suc i) + month_len t (Suc i)" by (rule days_before_Suc) simp
  show ?case
  proof (cases "month_len t (Suc i) < left")
    case False
    then show ?thesis using Suc.prems md b
      by (intro exI [of _ "Suc i"] exI [of _ left] exI [of _ "month_len t (Suc i)"]) (simp add: backward_loop.simps day_in_month_def)
  next
    case True
    have "days_before t (Suc i) - (left - month_len t (Suc i)) = days_before t (Suc (Suc i)) - left" using b by simp
    with Suc.IH [of "left - month_len t (Suc i)"] True Suc.prems b obtain k left' days where
      r: "backward_loop t (left - month_len t (Suc i)) (int (month_no (leap_of t) i)) (int i) (flag_of (leap_of t) i) =
          Some (int (month_no (leap_of t) k), left', days)"
        "day_in_month t (days_before t (Suc (Suc i)) - left) k (days - left' + 1)" by auto
    have e: "int (Suc i) - 1 = int i" by simp
    have "backward_loop t left (int (month_no (leap_of t) (Suc i))) (int (Suc i)) (flag_of (leap_of t) (Suc i)) =
        backward_loop t (left - month_len t (Suc i)) (int (month_no (leap_of t) i)) (int i) (flag_of (leap_of t) i)"
      using prev_month [OF Suc.hyps, of "leap_of t"] Suc.prems(4) True
      unfolding backward_loop.simps [of t left] md option.case leap_field_int e by (simp add: Let_def)
    with r show ?thesis by auto
  qed
qed

end
