(* ===== verification/LunarCalendarClaims.thy ===== *)
theory LunarCalendarClaims
  imports LunarCalendarOk
begin

text \<open>
  The table of \<open>chinese_calendar.c\<close> is consistent: the months of each lunar year fill exactly the days between two lunar
  new years.  With that, \<open>LunarCalendar\<close> is right on every day the table covers.
\<close>

subsection \<open>The days\<close>

definition entry :: "int \<Rightarrow> 32 word" where
  "entry y = LunarCalendarTable ! nat (y - 1901)"

text \<open>The dates from 1901 to 2099, and their number counted from 1901-01-01.\<close>

definition month_size :: "int \<Rightarrow> int \<Rightarrow> int" where
  "month_size y m = (if m = 2 then (if y mod 4 = 0 then 29 else 28) else if m = 4 \<or> m = 6 \<or> m = 9 \<or> m = 11 then 30 else 31)"

definition valid_date :: "int \<Rightarrow> int \<Rightarrow> int \<Rightarrow> bool" where
  "valid_date y m d \<longleftrightarrow> 1901 \<le> y \<and> y \<le> 2099 \<and> 1 \<le> m \<and> m \<le> 12 \<and> 1 \<le> d \<and> d \<le> month_size y m"

definition year_start :: "int \<Rightarrow> int" where
  "year_start y = 365 * (y - 1901) + (y - 1901) div 4"

definition day_number :: "int \<Rightarrow> int \<Rightarrow> int \<Rightarrow> int" where
  "day_number y m d = year_start y + (\<Sum>k \<in> {1..<m}. month_size y k) + d - 1"

definition new_year :: "int \<Rightarrow> int" where
  "new_year y = year_start y + spring_field (entry y)"

subsection \<open>The table is consistent\<close>

definition total_days :: "32 word \<Rightarrow> int" where
  "total_days t = sum_list (map (month_len t) [1..<(if leap_field t = 0 then 13 else 14)])"

fun table_ok :: "nat \<Rightarrow> 32 word list \<Rightarrow> bool" where
  "table_ok n (a # b # ts) = (365 + (if n mod 4 = 3 then 1 else 0) - spring_field a + spring_field b = total_days a \<and>
     0 \<le> spring_field a \<and> leap_field a \<le> 11 \<and> table_ok (Suc n) (b # ts))"
| "table_ok n [a] = (0 \<le> spring_field a \<and> leap_field a \<le> 11 \<and> 365 - spring_field a \<le> total_days a)"
| "table_ok n [] = True"

lemma table_consistent: "table_ok 0 LunarCalendarTable"
  by code_simp

lemma table_length: "length LunarCalendarTable = 199"
  by (simp add: LunarCalendarTable_def)

lemma year_days_total: "year_days t = total_days t"
proof -
  have "year_days t = (\<Sum>j \<in> set [1..<Suc (last_month t)]. month_len t j)"
    by (simp only: year_days_def days_before_def atLeastLessThan_upt)
  also have "\<dots> = sum_list (map (month_len t) [1..<Suc (last_month t)])" by (rule sum_set_upt_conv_sum_list_nat)
  finally show ?thesis by (cases "leap_of t = 0") (simp_all add: total_days_def last_month_def leap_field_int del: upt_Suc)
qed

lemma table_ok_nth:
  "table_ok n ts \<Longrightarrow> i < length ts \<Longrightarrow> 0 \<le> spring_field (ts ! i) \<and> leap_field (ts ! i) \<le> 11 \<and>
    (Suc i < length ts \<longrightarrow> 365 + (if (n + i) mod 4 = 3 then 1 else 0) - spring_field (ts ! i) + spring_field (ts ! Suc i) = year_days (ts ! i)) \<and>
    (Suc i = length ts \<longrightarrow> 365 - spring_field (ts ! i) \<le> year_days (ts ! i))"
proof (induction n ts arbitrary: i rule: table_ok.induct)
  case (1 n a b ts)
  then show ?case by (cases i) (simp_all add: year_days_total)
qed (simp_all add: year_days_total)

lemma year_start_next: "year_start (y + 1) = year_start y + 365 + (if y mod 4 = 0 then 1 else 0)"
proof -
  have "(y + 1 - 1901) div 4 = (y - 1901) div 4 + (if y mod 4 = 0 then 1 else 0)" by presburger
  then show ?thesis by (simp add: year_start_def)
qed

lemma entry_ok:
  assumes "1901 \<le> y" and "y \<le> 2099"
  shows "0 \<le> spring_field (entry y)" "leap_of (entry y) \<le> 11"
    and "y < 2099 \<Longrightarrow> new_year (y + 1) = new_year y + year_days (entry y)"
    and "y = 2099 \<Longrightarrow> 365 - spring_field (entry y) \<le> year_days (entry y)"
proof -
  obtain i where i: "y = 1901 + int i" "i < 199" using assms zle_iff_zadd [of 1901 y] by auto
  have e: "entry y = LunarCalendarTable ! i" "entry (y + 1) = LunarCalendarTable ! Suc i" by (simp_all add: entry_def i(1) nat_add_distrib add.commute)
  note t = table_ok_nth [OF table_consistent, of i, unfolded table_length, OF i(2), folded e]
  show "0 \<le> spring_field (entry y)" "leap_of (entry y) \<le> 11" using t by (simp_all add: leap_field_int)
  have "y mod 4 = 0 \<longleftrightarrow> i mod 4 = 3" unfolding i(1) by presburger
  then show "new_year (y + 1) = new_year y + year_days (entry y)" if "y < 2099"
    using t that i(1) year_start_next [of y] by (simp add: new_year_def)
  show "365 - spring_field (entry y) \<le> year_days (entry y)" if "y = 2099" using t that i(1) by simp
qed

text \<open>A lunar new year is early in the year.\<close>

lemma spring_early: "spring_field t \<le> year_days u"
proof -
  have "uint (t AND 0x1F) \<le> 31" using word_and_le1 [of t "0x1F"] by (simp add: word_le_def)
  moreover have "(\<Sum>j \<in> {1..<Suc (last_month u)}. 29) \<le> year_days u"
    unfolding year_days_def days_before_def by (rule sum_mono) (rule len_bounds)
  ultimately show ?thesis by (simp add: spring_field_def last_month_def split: if_splits)
qed

subsection \<open>The conversion\<close>

lemma month_cases: "1 \<le> m \<Longrightarrow> m \<le> 12 \<Longrightarrow> m \<in> {1, 2, 3, 4, 5, 6, 7, 8, 9, 10, 11, 12 :: int}"
  unfolding insert_iff empty_iff by presburger

lemma sum_to_month:
  assumes "1 \<le> m" and "m \<le> 12"
  shows "month_add_at (m - 1) = Some ((\<Sum>k \<in> {1..<m}. month_size y k) - (if y mod 4 = 0 \<and> 2 < m then 1 else 0))"
proof -
  have up: "{1..<m} = set [1..m - 1]" by auto
  from month_cases [OF assms(1,2)] show ?thesis unfolding up
    by (elim insertE emptyE) (simp_all add: month_add_at_def MonthAdd_def upto.simps month_size_def)
qed

lemma in_year:
  assumes "1 \<le> m" and "m \<le> 12" and "d \<le> month_size y m"
  shows "(\<Sum>k \<in> {1..<m}. month_size y k) + d \<le> 365 + (if y mod 4 = 0 then 1 else 0)"
proof -
  have up: "{1..<m} = set [1..m - 1]" by auto
  from month_cases [OF assms(1,2)] show ?thesis using assms(3) unfolding up
    by (elim insertE emptyE) (simp_all add: upto.simps month_size_def split: if_splits)
qed

text \<open>The two fields of the result.\<close>

definition day_field :: "32 word \<Rightarrow> int" where
  "day_field w = uint (w AND 0x3F)"

definition month_field :: "32 word \<Rightarrow> int" where
  "month_field w = uint (drop_bit 6 (w AND 0x3C0))"

lemma result_fields:
  assumes "d < 64" and "k < 16"
  shows "day_field ((0 OR word_of_int (int d)) OR word_of_int (push_bit 6 (int k))) = int d"
    and "month_field ((0 OR word_of_int (int d)) OR word_of_int (push_bit 6 (int k))) = int k"
proof -
  have "take_bit 6 d = d" "take_bit 4 k = k" using assms by (simp_all add: take_bit_eq_mod)
  then have d: "bit d i \<Longrightarrow> i < 6" and k: "bit k i \<Longrightarrow> i < 4" for i by (metis bit_take_bit_iff)+
  have m: "0x3F = (mask 6 :: 32 word)" "0x3C0 = (push_bit 6 (mask 4) :: 32 word)" by (simp_all add: mask_eq_exp_minus_1)
  show "day_field ((0 OR word_of_int (int d)) OR word_of_int (push_bit 6 (int k))) = int d"
    unfolding day_field_def m
    by (intro bit_eqI) (auto simp: bit_simps not_le not_less dest: d)
  show "month_field ((0 OR word_of_int (int d)) OR word_of_int (push_bit 6 (int k))) = int k"
    unfolding month_field_def m
    by (intro bit_eqI) (auto simp: bit_simps not_le not_less dest: d k)
qed

lemma year_end: "valid_date y m d \<Longrightarrow> day_number y m d < year_start (y + 1)"
  using in_year [of m d y] by (simp add: valid_date_def day_number_def year_start_next)

text \<open>What the code returns at the end, and for the \<open>i\<close>-th month.\<close>

definition lunar_return :: "32 word \<Rightarrow> int \<Rightarrow> int \<Rightarrow> 32 word \<Rightarrow> int \<times> 32 word" where
  "lunar_return t month d g = (if month = leap_field t then 1 else 0, (g OR word_of_int d) OR word_of_int (push_bit 6 month))"

definition lunar_result :: "32 word \<Rightarrow> nat \<Rightarrow> int \<Rightarrow> 32 word \<Rightarrow> int \<times> 32 word" where
  "lunar_result t i d g = lunar_return t (int (month_no (leap_of t) i)) d g"

lemma table_at_entry: "1901 \<le> y \<Longrightarrow> y \<le> 2099 \<Longrightarrow> table_at (y - 1901) = Some (entry y)"
  by (simp add: table_at_def entry_def)

lemma LunarCalendar_eq:
  assumes "1901 \<le> y" and "y \<le> 2099" and "1 \<le> m" and "m \<le> 12" and "n = day_number y m d - year_start y"
  shows "LunarCalendar y m d g =
    (if spring_field (entry y) \<le> n
     then map_option (\<lambda>(month, sun). lunar_return (entry y) month (sun + 1) g) (forward_loop (entry y) (n - spring_field (entry y)) 1 1 0)
     else do {
       t \<leftarrow> table_at (y - 1902);
       (month, spring, days) \<leftarrow> backward_loop t (spring_field (entry y) - n) 12 (if leap_field t = 0 then 12 else 13) 0;
       Some (lunar_return t month (days - spring + 1) g) })"
proof -
  let ?c = "if y mod 4 = 0 \<and> 2 < m then 1 else 0 :: int"
  have a: "month_add_at (m - 1) = Some ((\<Sum>k \<in> {1..<m}. month_size y k) - ?c)" by (rule sum_to_month [OF assms(3,4)])
  have n: "(if y mod 4 = 0 \<and> 2 < m then (\<Sum>k \<in> {1..<m}. month_size y k) - ?c + d - 1 + 1
      else (\<Sum>k \<in> {1..<m}. month_size y k) - ?c + d - 1) = n" by (simp add: assms(5) day_number_def)
  have y: "y - 1 - 1901 = y - 1902" by simp
  show ?thesis
    unfolding LunarCalendar_def table_at_entry [OF assms(1,2)] a y Let_def bind.bind_lunit n
    by (cases "forward_loop (entry y) (n - spring_field (entry y)) 1 1 0")
      (auto simp: lunar_return_def split: Option.bind_split prod.splits)
qed

lemma lunar_same_year:
  assumes v: "valid_date y m d" and n: "new_year y \<le> day_number y m d"
  shows "\<exists>i e. day_in_month (entry y) (day_number y m d - new_year y) i e \<and> LunarCalendar y m d g = Some (lunar_result (entry y) i e g)"
proof -
  let ?t = "entry y"
  have y: "1901 \<le> y" "y \<le> 2099" "1 \<le> m" "m \<le> 12" using v by (simp_all add: valid_date_def)
  let ?n = "day_number y m d - new_year y"
  have n0: "?n = day_number y m d - year_start y - spring_field ?t" by (simp add: new_year_def)
  have "?n < year_days ?t"
  proof (cases "y = 2099")
    case True
    then show ?thesis using entry_ok(4) [OF y(1,2)] year_end [OF v] n0 year_start_next [of y] by simp
  next
    case False
    then have "new_year (y + 1) = new_year y + year_days ?t" "0 \<le> spring_field (entry (y + 1))" using entry_ok(3) [OF y(1,2)] entry_ok(1) [of "y + 1"] y by simp_all
    then show ?thesis using year_end [OF v] by (simp add: new_year_def [of "y + 1"])
  qed
  moreover have "(1::nat) \<le> last_month ?t" by (simp add: last_month_def)
  moreover have "leap_of ?t \<le> 12" using entry_ok(2) [OF y(1,2)] by simp
  ultimately obtain i e where r: "forward_loop ?t ?n (int (month_no (leap_of ?t) 1)) (int 1) (flag_of (leap_of ?t) 1) = Some (int (month_no (leap_of ?t) i), e - 1)"
    "day_in_month ?t ?n i e" using forward_loop_ok [of 1 ?t ?n] n by auto
  have st: "month_no (leap_of ?t) 1 = 1" "flag_of (leap_of ?t) 1 = 0" by (auto simp: month_no_def flag_of_def is_leap_def)
  have "LunarCalendar y m d g = Some (lunar_result ?t i e g)"
    using n r(1) n0 unfolding LunarCalendar_eq [OF y refl] st by (simp add: lunar_result_def)
  then show ?thesis using r(2) by blast
qed

lemma lunar_year_before:
  assumes v: "valid_date y m d" and n: "day_number y m d < new_year y" and y1: "1901 < y"
  shows "\<exists>i e. day_in_month (entry (y - 1)) (day_number y m d - new_year (y - 1)) i e \<and>
    LunarCalendar y m d g = Some (lunar_result (entry (y - 1)) i e g) \<and> new_year (y - 1) \<le> day_number y m d"
proof -
  let ?t = "entry (y - 1)"
  have y: "1901 \<le> y" "y \<le> 2099" "1 \<le> m" "m \<le> 12" "1 \<le> d" "d \<le> month_size y m" using v by (simp_all add: valid_date_def)
  let ?n = "day_number y m d - year_start y"
  let ?left = "spring_field (entry y) - ?n"
  have "0 \<le> (\<Sum>k \<in> {1..<m}. month_size y k)" by (rule sum_nonneg) (simp add: month_size_def)
  then have l: "0 < ?left" "?left \<le> year_days ?t" using n spring_early [of "entry y" ?t] y(5) by (simp_all add: day_number_def new_year_def)
  have ny: "new_year y = new_year (y - 1) + year_days ?t" using entry_ok(3) [of "y - 1"] y1 y(2) by simp
  have "leap_of ?t \<le> 11" using entry_ok(2) [of "y - 1"] y1 y(2) by simp
  then have st: "month_no (leap_of ?t) (last_month ?t) = 12" "flag_of (leap_of ?t) (last_month ?t) = 0" "leap_of ?t \<le> 12"
    by (auto simp: month_no_def flag_of_def is_leap_def last_month_def)
  have "(1::nat) \<le> last_month ?t" by (simp add: last_month_def)
  from backward_loop_ok [OF this order_refl l(1) l(2) [unfolded year_days_def] st(3)] obtain i rest days where r:
    "backward_loop ?t ?left 12 (int (last_month ?t)) 0 = Some (int (month_no (leap_of ?t) i), rest, days)"
    "day_in_month ?t (year_days ?t - ?left) i (days - rest + 1)" unfolding st year_days_def by auto
  have e: "year_days ?t - ?left = day_number y m d - new_year (y - 1)" using ny by (simp add: new_year_def)
  have lm: "int (last_month ?t) = (if leap_field ?t = 0 then 12 else 13)" by (simp add: last_month_def leap_field_int)
  have ty: "table_at (y - 1902) = Some ?t" using table_at_entry [of "y - 1"] y1 y(2) by simp
  have "LunarCalendar y m d g = Some (lunar_result ?t i (days - rest + 1) g)"
    using l(1) r(1) unfolding LunarCalendar_eq [OF y(1-4) refl] lm ty by (simp add: lunar_result_def)
  moreover have "0 \<le> year_days ?t - ?left" using l(2) by simp
  ultimately show ?thesis using r(2) e by auto
qed

subsection \<open>The claims\<close>

text \<open>C38: On every date from the lunar new year of 1901 to the end of 2099 the function is defined, and the month and the
  day it stores are those of that date in the lunar calendar of the table: the date lies in the lunar
  year \<open>Y\<close>, whose months, laid end to end from its new year's day, put it into their \<open>i\<close>-th month.\<close>

theorem lunar_calendar_places_day:
  assumes "valid_date y m d" and "new_year 1901 \<le> day_number y m d"
  shows "\<exists>Y i e f w. 1901 \<le> Y \<and> Y \<le> 2099 \<and> new_year Y \<le> day_number y m d \<and>
    (Y < 2099 \<longrightarrow> day_number y m d < new_year (Y + 1)) \<and>
    day_in_month (entry Y) (day_number y m d - new_year Y) i e \<and>
    LunarCalendar y m d 0 = Some (f, w) \<and> day_field w = e \<and> month_field w = int (month_no (leap_of (entry Y)) i)"
proof -
  have y: "1901 \<le> y" "y \<le> 2099" using assms(1) by (simp_all add: valid_date_def)
  obtain Y i e where Y: "1901 \<le> Y" "Y \<le> 2099" "new_year Y \<le> day_number y m d" "Y < 2099 \<longrightarrow> day_number y m d < new_year (Y + 1)"
    "day_in_month (entry Y) (day_number y m d - new_year Y) i e" "LunarCalendar y m d 0 = Some (lunar_result (entry Y) i e 0)"
  proof (cases "new_year y \<le> day_number y m d")
    case True
    have "y < 2099 \<longrightarrow> day_number y m d < new_year (y + 1)"
      using entry_ok(1) [of "y + 1"] y year_end [OF assms(1)] by (auto simp: new_year_def)
    then show ?thesis using lunar_same_year [OF assms(1) True, of 0] that [of y] y True by blast
  next
    case False
    then have "1901 < y" using assms(2) y by (cases "y = 1901") auto
    then show ?thesis using lunar_year_before [OF assms(1), of 0] that [of "y - 1"] y False by auto
  qed
  obtain d' where d': "e = int d'" "d' < 64" using Y(5) len_bounds [of "entry Y" i] zero_le_imp_eq_int [of e] by (auto simp: day_in_month_def)
  have "i \<le> 13" using Y(5) by (simp add: day_in_month_def last_month_def split: if_splits)
  then have "month_no (leap_of (entry Y)) i < 16" by (auto simp: month_no_def)
  from result_fields [OF d'(2) this] show ?thesis
    using Y unfolding lunar_result_def lunar_return_def d'(1) by blast
qed

theorem lunar_calendar_places_day_witness:
  "\<exists>f w. LunarCalendar 2020 5 22 0 = Some (f, w) \<and> 1 \<le> day_field w \<and> day_field w \<le> 30"
proof -
  have "valid_date 2020 5 22" by (simp add: valid_date_def month_size_def)
  moreover have "new_year 1901 \<le> day_number 2020 5 22"
  proof -
    have "0 \<le> (\<Sum>k \<in> {1..<5}. month_size 2020 k)" by (rule sum_nonneg) (simp add: month_size_def)
    moreover have "spring_field (entry 1901) = 49" by (simp add: entry_def LunarCalendarTable_def spring_field_def)
    ultimately show ?thesis by (simp add: new_year_def day_number_def year_start_def)
  qed
  ultimately obtain Y i e f w where "day_in_month (entry Y) (day_number 2020 5 22 - new_year Y) i e"
    "LunarCalendar 2020 5 22 0 = Some (f, w)" "day_field w = e"
    using lunar_calendar_places_day by blast
  then show ?thesis using len_bounds [of "entry Y" i] by (auto simp: day_in_month_def)
qed

text \<open>Before the lunar new year of 1901 the function reads the table at the index -1.\<close>

theorem lunar_before_table_undefined:
  assumes "valid_date 1901 m d" and "day_number 1901 m d < new_year 1901"
  shows "LunarCalendar 1901 m d g = None"
proof -
  have y: "1 \<le> m" "m \<le> 12" using assms(1) by (simp_all add: valid_date_def)
  have "table_at (1901 - 1902) = None" by (simp add: table_at_def)
  with assms(2) show ?thesis by (subst LunarCalendar_eq [OF _ _ y refl]) (simp_all add: new_year_def)
qed

theorem lunar_before_table_undefined_witness: "LunarCalendar 1901 1 1 0 = None"
proof -
  have "spring_field (entry 1901) = 49" by (simp add: entry_def LunarCalendarTable_def spring_field_def)
  then show ?thesis by (intro lunar_before_table_undefined) (simp_all add: valid_date_def month_size_def new_year_def day_number_def)
qed

text \<open>The result says "leap month" for both months of the same number: in 2020 the first day of the fourth month and the
  first day of the leap month after it give the same result and the same fields.\<close>

theorem lunar_leap_month_ambiguous:
  "LunarCalendar 2020 4 23 0 = Some (1, 0x101) \<and> LunarCalendar 2020 5 23 0 = Some (1, 0x101)"
  by code_simp

text \<open>\<open>LunarCalendarDay\<close> is not cleared: a second call leaves the union of the bits of both dates in it.\<close>

theorem lunar_second_call_mixed:
  assumes "LunarCalendar y m d 0 = Some (f, w)"
  shows "LunarCalendar y m d g = Some (f, g OR w)"
proof -
  obtain t k e where r: "\<And>g. LunarCalendar y m d g = Some (lunar_return t k e g)"
  proof -
    from assms obtain t where t: "table_at (y - 1901) = Some t" by (cases "table_at (y - 1901)") (simp_all add: LunarCalendar_def)
    from assms obtain a where a: "month_add_at (m - 1) = Some a" by (cases "month_add_at (m - 1)") (simp_all add: LunarCalendar_def t)
    let ?sun = "if y mod 4 = 0 \<and> 2 < m then a + d - 1 + 1 else a + d - 1"
    have "\<exists>t' k e. (if spring_field t \<le> ?sun then do { (month, sun) \<leftarrow> forward_loop t (?sun - spring_field t) 1 1 0; Some (t, month, sun + 1) }
        else do {
          t \<leftarrow> table_at (y - 1 - 1901);
          (month, spring, days) \<leftarrow> backward_loop t (spring_field (the (table_at (y - 1901))) - ?sun) 12 (if leap_field t = 0 then 12 else 13) 0;
          Some (t, month, days - spring + 1) }) = Some (t', k, e)"
      using assms unfolding LunarCalendar_def Let_def t a bind.bind_lunit option.sel
      by (elim bind_eq_SomeE) auto
    then obtain t' k e where "(if spring_field t \<le> ?sun then do { (month, sun) \<leftarrow> forward_loop t (?sun - spring_field t) 1 1 0; Some (t, month, sun + 1) }
        else do {
          t \<leftarrow> table_at (y - 1 - 1901);
          (month, spring, days) \<leftarrow> backward_loop t (spring_field (the (table_at (y - 1901))) - ?sun) 12 (if leap_field t = 0 then 12 else 13) 0;
          Some (t, month, days - spring + 1) }) = Some (t', k, e)" by blast
    then have "LunarCalendar y m d g = Some (lunar_return t' k e g)" for g
      unfolding LunarCalendar_def Let_def t a bind.bind_lunit option.sel by (simp add: lunar_return_def)
    then show ?thesis using that by blast
  qed
  then show ?thesis using assms by (auto simp: lunar_return_def or.assoc)
qed

theorem lunar_second_call_mixed_witness: "LunarCalendar 2020 5 23 0x31D = Some (1, 0x31D OR 0x101)"
  by (rule lunar_second_call_mixed) code_simp

end
