(* ===== verification/MemPool.thy ===== *)
theory MemPool
  imports Prelude
begin

text \<open>
  The memory pool of \<open>MemoryPool.cpp\<close> and \<open>MemoryChunk.cpp\<close>: for each of the sizes 8, 16, 32, \<open>\<dots>\<close> up to the
  maximum a chunk with a list of idle blocks; larger requests go to \<open>malloc\<close>.  A block is on
  the heap with its header; the pointer handed out, which the code gets by adding the size of the header, is
  identified with the block, and the word in front of it with the size in the header.  The operations
  of a chunk run under its lock, so they are atomic.
\<close>

subsection \<open>Data\<close>

text \<open>The union of a block: the link of an idle block, or whatever its user stores in it.\<close>

datatype block_data = PNext addr | Data

datatype pool_cell = Block nat nat block_data | LargeBlock nat

type_synonym pool_mem = "pool_cell heap"

text \<open>The chunk that a block's header points to is named by its place in the list of the pool.\<close>

record memory_chunk =
  m_pFreeBlock :: addr
  m_nSize :: nat
  m_iBlockCount :: nat

record memory_pool =
  m_pChunkList :: "memory_chunk list"
  m_iChunkCount :: nat
  m_nMaxSize :: nat
  m_iChunkBlockNum :: nat

definition MAX_SIZE :: nat where
  "MAX_SIZE = 1024"

definition MIN_SIZE :: nat where
  "MIN_SIZE = 8"

text \<open>Reading and writing \<open>pBlock->stData.pNext\<close>; user data is no pointer.\<close>

definition get_pnext :: "addr \<Rightarrow> pool_mem \<Rightarrow> addr option" where
  "get_pnext p h = (case load p h of Some (Block _ _ (PNext q)) \<Rightarrow> Some q | _ \<Rightarrow> None)"

definition set_pnext :: "addr \<Rightarrow> addr \<Rightarrow> pool_mem \<Rightarrow> pool_mem option" where
  "set_pnext p q h = (case load p h of Some (Block i n _) \<Rightarrow> store p (Block i n (PNext q)) h | _ \<Rightarrow> None)"

subsection \<open>Chunks\<close>

definition CreateBlock :: "nat \<Rightarrow> memory_chunk \<Rightarrow> pool_mem \<Rightarrow> addr \<times> memory_chunk \<times> pool_mem" where
  "CreateBlock i c h =
     (let (pBlock, h) = malloc (Block i (m_nSize c) Data) h in
      if pBlock \<noteq> NULL then (pBlock, c\<lparr>m_iBlockCount := m_iBlockCount c + 1\<rparr>, h) else (NULL, c, h))"

fun chunk_init_loop :: "nat \<Rightarrow> nat \<Rightarrow> memory_chunk \<Rightarrow> pool_mem \<Rightarrow> (memory_chunk \<times> pool_mem) option" where
  "chunk_init_loop i 0 c h = Some (c, h)"
| "chunk_init_loop i (Suc iBlockNum) c h =
     (let (pBlock, c, h) = CreateBlock i c h in
      if pBlock = NULL then Some (c, h)
      else do {
        h \<leftarrow> set_pnext pBlock (m_pFreeBlock c) h;
        chunk_init_loop i iBlockNum (c\<lparr>m_pFreeBlock := pBlock\<rparr>) h })"

definition chunk_init :: "nat \<Rightarrow> nat \<Rightarrow> nat \<Rightarrow> pool_mem \<Rightarrow> (memory_chunk \<times> pool_mem) option" where
  "chunk_init i nSize iBlockNum h =
     chunk_init_loop i iBlockNum \<lparr>m_pFreeBlock = NULL, m_nSize = nSize, m_iBlockCount = 0\<rparr> h"

partial_function (option) chunk_delete_loop :: "addr \<Rightarrow> nat \<Rightarrow> pool_mem \<Rightarrow> (nat \<times> pool_mem) option" where
  [code]: "chunk_delete_loop pBlock iFreedCount h =
     (if pBlock = NULL then Some (iFreedCount, h)
      else do {
        q \<leftarrow> get_pnext pBlock h;
        h \<leftarrow> free pBlock h;
        chunk_delete_loop q (iFreedCount + 1) h })"

text \<open>The destructor; the first result says whether its assertion holds.\<close>

definition chunk_delete :: "memory_chunk \<Rightarrow> pool_mem \<Rightarrow> (bool \<times> pool_mem) option" where
  "chunk_delete c h = do {
     (iFreedCount, h) \<leftarrow> chunk_delete_loop (m_pFreeBlock c) 0 h;
     Some (iFreedCount = m_iBlockCount c, h) }"

definition chunk_malloc :: "nat \<Rightarrow> memory_chunk \<Rightarrow> pool_mem \<Rightarrow> (addr \<times> memory_chunk \<times> pool_mem) option" where
  "chunk_malloc i c h =
     (if m_pFreeBlock c \<noteq> NULL then do {
        q \<leftarrow> get_pnext (m_pFreeBlock c) h;
        Some (m_pFreeBlock c, c\<lparr>m_pFreeBlock := q\<rparr>, h) }
      else Some (CreateBlock i c h))"

definition chunk_free :: "memory_chunk \<Rightarrow> addr \<Rightarrow> pool_mem \<Rightarrow> (memory_chunk \<times> pool_mem) option" where
  "chunk_free c pBlock h = do {
     h \<leftarrow> set_pnext pBlock (m_pFreeBlock c) h;
     Some (c\<lparr>m_pFreeBlock := pBlock\<rparr>, h) }"

subsection \<open>The pool\<close>

text \<open>The two loops of the constructor.\<close>

function count_chunks :: "nat \<Rightarrow> nat \<Rightarrow> nat \<Rightarrow> nat" where
  "count_chunks sz m n = (if 0 < sz \<and> sz \<le> m then count_chunks (sz * 2) m (n + 1) else n)"
  by auto
termination by (relation "measure (\<lambda>(sz, m, _). Suc m - sz)") auto

function build_chunks ::
  "nat \<Rightarrow> nat \<Rightarrow> nat \<Rightarrow> memory_chunk list \<Rightarrow> pool_mem \<Rightarrow> (memory_chunk list \<times> pool_mem) option" where
  "build_chunks sz m num cs h =
     (if 0 < sz \<and> sz \<le> m then
        (case chunk_init (length cs) sz num h of
           None \<Rightarrow> None
         | Some (c, h) \<Rightarrow> build_chunks (sz * 2) m num (cs @ [c]) h)
      else Some (cs, h))"
  by auto
termination by (relation "measure (\<lambda>(sz, m, _). Suc m - sz)") auto

definition pool_create :: "nat \<Rightarrow> nat \<Rightarrow> pool_mem \<Rightarrow> (memory_pool \<times> pool_mem) option" where
  "pool_create nMaxSize iChunkBlockNum h = do {
     let m = (if MAX_SIZE < nMaxSize then MAX_SIZE else nMaxSize);
     (cs, h) \<leftarrow> build_chunks MIN_SIZE m iChunkBlockNum [] h;
     Some (\<lparr>m_pChunkList = cs, m_iChunkCount = count_chunks MIN_SIZE m 0, m_nMaxSize = m, m_iChunkBlockNum = iChunkBlockNum\<rparr>, h) }"

fun pool_delete_loop :: "memory_chunk list \<Rightarrow> pool_mem \<Rightarrow> (bool \<times> pool_mem) option" where
  "pool_delete_loop [] h = Some (True, h)"
| "pool_delete_loop (c # cs) h = do {
     (ok, h) \<leftarrow> chunk_delete c h;
     if ok then pool_delete_loop cs h else Some (False, h) }"

definition pool_delete :: "memory_pool \<Rightarrow> pool_mem \<Rightarrow> (bool \<times> pool_mem) option" where
  "pool_delete s h = pool_delete_loop (m_pChunkList s) h"

definition LargeMalloc :: "nat \<Rightarrow> pool_mem \<Rightarrow> addr \<times> pool_mem" where
  "LargeMalloc nSize h = malloc (LargeBlock nSize) h"

text \<open>The size that \<open>LargeFree\<close> reads in front of the pointer is that of either header.\<close>

definition LargeFree :: "addr \<Rightarrow> memory_pool \<Rightarrow> pool_mem \<Rightarrow> (bool \<times> pool_mem) option" where
  "LargeFree pMem s h = do {
     c \<leftarrow> load pMem h;
     case c of
       LargeBlock n \<Rightarrow> if m_nMaxSize s < n then do { h \<leftarrow> free pMem h; Some (True, h) } else Some (False, h)
     | Block _ n _ \<Rightarrow> if m_nMaxSize s < n then None else Some (False, h) }"

function find_chunk :: "nat \<Rightarrow> nat \<Rightarrow> nat \<Rightarrow> nat \<Rightarrow> nat" where
  "find_chunk sz m nSize i =
     (if 0 < sz \<and> sz \<le> m then if nSize \<le> sz then i else find_chunk (sz * 2) m nSize (i + 1) else i)"
  by auto
termination by (relation "measure (\<lambda>(sz, m, _). Suc m - sz)") auto

declare count_chunks.simps [simp del] build_chunks.simps [simp del] find_chunk.simps [simp del]

definition New :: "nat \<Rightarrow> memory_pool \<Rightarrow> pool_mem \<Rightarrow> (addr \<times> memory_pool \<times> pool_mem) option" where
  "New nSize s h =
     (if m_nMaxSize s < nSize then (let (p, h) = LargeMalloc nSize h in Some (p, s, h))
      else
        (let i = find_chunk MIN_SIZE (m_nMaxSize s) nSize 0 in
         if i < length (m_pChunkList s) then do {
           (p, c, h) \<leftarrow> chunk_malloc i (m_pChunkList s ! i) h;
           Some (p, s\<lparr>m_pChunkList := (m_pChunkList s)[i := c]\<rparr>, h) }
         else None))"

definition Delete :: "addr \<Rightarrow> memory_pool \<Rightarrow> pool_mem \<Rightarrow> (memory_pool \<times> pool_mem) option" where
  "Delete pMem s h = do {
     (large, h) \<leftarrow> LargeFree pMem s h;
     if large then Some (s, h)
     else do {
       cell \<leftarrow> load pMem h;
       case cell of
         LargeBlock _ \<Rightarrow> None
       | Block i _ _ \<Rightarrow>
           if i < length (m_pChunkList s) then do {
             (c, h) \<leftarrow> chunk_free (m_pChunkList s ! i) pMem h;
             Some (s\<lparr>m_pChunkList := (m_pChunkList s)[i := c]\<rparr>, h) }
           else None } }"

end
