(* ===== verification/Allocator.thy ===== *)
theory Allocator
  imports Prelude
begin

text \<open>
  The contract of a memory allocator: \<open>rep s A\<close> says that in the state \<open>s\<close> the client holds the pointers
  \<open>dom A\<close>, each with the room \<open>A\<close> gives; \<open>admits n\<close> that the client may ask for \<open>n\<close> bytes.
\<close>

datatype request = Get nat | Put nat

text \<open>
  A client that gets memory and gives back the \<open>k\<close>-th pointer it holds, in any order;
  \<open>ps\<close> lists the pointers with the sizes that were asked for.
\<close>

fun alloc_run ::
  "(nat \<Rightarrow> 's \<Rightarrow> (addr \<times> 's) option) \<Rightarrow> (addr \<Rightarrow> 's \<Rightarrow> 's option) \<Rightarrow> request list \<Rightarrow> (addr \<times> nat) list \<Rightarrow> 's \<Rightarrow> ((addr \<times> nat) list \<times> 's) option" where
  "alloc_run new delete [] ps s = Some (ps, s)"
| "alloc_run new delete (Get n # rs) ps s = do {
     (p, s) \<leftarrow> new n s;
     alloc_run new delete rs (if p = NULL then ps else (p, n) # ps) s }"
| "alloc_run new delete (Put k # rs) ps s =
     (if k < length ps then do {
        s \<leftarrow> delete (fst (ps ! k)) s;
        alloc_run new delete rs (take k ps @ drop (Suc k) ps) s }
      else alloc_run new delete rs ps s)"

text \<open>The pointers are different and all that is held, and each has the room that was asked for.\<close>

definition holds :: "(addr \<times> nat) list \<Rightarrow> (addr \<rightharpoonup> nat) \<Rightarrow> bool" where
  "holds ps A \<longleftrightarrow> distinct (map fst ps) \<and> dom A = fst ` set ps \<and> (\<forall>(p, n) \<in> set ps. \<exists>c \<ge> n. A p = Some c)"

lemma holds_Nil [simp]: "holds [] Map.empty"
  by (simp add: holds_def)

lemma holds_Cons: "holds ps A \<Longrightarrow> A p = None \<Longrightarrow> n \<le> c \<Longrightarrow> holds ((p, n) # ps) (A(p \<mapsto> c))"
  by (fastforce simp: holds_def dom_def)

lemma holds_remove:
  assumes "holds ps A" and "k < length ps"
  shows "holds (take k ps @ drop (Suc k) ps) (A(fst (ps ! k) := None))" and "A (fst (ps ! k)) \<noteq> None"
proof -
  define us v vs where "us = take k ps" and "v = ps ! k" and "vs = drop (Suc k) ps"
  have ps: "ps = us @ v # vs" using assms(2) id_take_nth_drop by (simp add: us_def v_def vs_def)
  have all: "distinct (map fst (us @ v # vs))" "dom A = fst ` set (us @ v # vs)" "\<forall>(p, n) \<in> set (us @ v # vs). \<exists>c \<ge> n. A p = Some c"
    using assms(1) unfolding ps holds_def by blast+
  then have d: "fst v \<notin> fst ` set (us @ vs)" by (auto simp: image_iff)
  have "dom (A(fst v := None)) = fst ` set (us @ vs)" using all(2) d by (auto simp: image_iff)
  moreover have "\<exists>c \<ge> n. (A(fst v := None)) p = Some c" if "(p, n) \<in> set (us @ vs)" for p n
  proof -
    have "p \<noteq> fst v" using d that by (metis fst_conv imageI)
    moreover have "(p, n) \<in> set (us @ v # vs)" using that by simp
    ultimately show ?thesis using all(3) by fastforce
  qed
  ultimately have "holds (us @ vs) (A(fst v := None))" using all(1) unfolding holds_def by auto
  then show "holds (take k ps @ drop (Suc k) ps) (A(fst (ps ! k) := None))" by (simp add: us_def v_def vs_def)
  show "A (fst (ps ! k)) \<noteq> None" using assms by (auto simp: holds_def domIff)
qed

fun release_all :: "(addr \<Rightarrow> 's \<Rightarrow> 's option) \<Rightarrow> addr list \<Rightarrow> 's \<Rightarrow> 's option" where
  "release_all delete [] s = Some s"
| "release_all delete (p # ps) s = do {
     s \<leftarrow> delete p s;
     release_all delete ps s }"

locale allocator =
  fixes new :: "nat \<Rightarrow> 's \<Rightarrow> (addr \<times> 's) option"
    and delete :: "addr \<Rightarrow> 's \<Rightarrow> 's option"
    and rep :: "'s \<Rightarrow> (addr \<rightharpoonup> nat) \<Rightarrow> bool"
    and admits :: "nat \<Rightarrow> bool"
  assumes new: "rep s A \<Longrightarrow> admits n \<Longrightarrow> \<exists>p s'. new n s = Some (p, s') \<and>
      (p = NULL \<and> rep s' A \<or> p \<noteq> NULL \<and> A p = None \<and> (\<exists>c \<ge> n. rep s' (A(p \<mapsto> c))))"
    and delete: "rep s A \<Longrightarrow> A p \<noteq> None \<Longrightarrow> \<exists>s'. delete p s = Some s' \<and> rep s' (A(p := None))"
begin

text \<open>Every client is served.\<close>

lemma alloc_run_ok:
  "rep s A \<Longrightarrow> holds ps A \<Longrightarrow> \<forall>n. Get n \<in> set rs \<longrightarrow> admits n \<Longrightarrow> \<exists>ps' s' A'. alloc_run new delete rs ps s = Some (ps', s') \<and> rep s' A' \<and> holds ps' A'"
proof (induction rs arbitrary: ps s A)
  case Nil
  then show ?case by auto
next
  case (Cons r rs)
  show ?case
  proof (cases r)
    case (Get n)
    have n: "admits n" and rs: "\<forall>n. Get n \<in> set rs \<longrightarrow> admits n" using Cons.prems(3) Get by simp_all
    from new [OF Cons.prems(1) n] obtain p s1 where p: "new n s = Some (p, s1)"
      "p = NULL \<and> rep s1 A \<or> p \<noteq> NULL \<and> A p = None \<and> (\<exists>c \<ge> n. rep s1 (A(p \<mapsto> c)))" by blast
    then obtain A' where "rep s1 A'" "holds (if p = NULL then ps else (p, n) # ps) A'"
      using Cons.prems(2) holds_Cons by (metis (full_types))
    from Cons.IH [OF this rs] show ?thesis using Get p(1) by simp
  next
    case (Put k)
    have rs: "\<forall>n. Get n \<in> set rs \<longrightarrow> admits n" using Cons.prems(3) by simp
    show ?thesis
    proof (cases "k < length ps")
      case True
      from delete [OF Cons.prems(1) holds_remove(2) [OF Cons.prems(2) True]]
      obtain s1 where s1: "delete (fst (ps ! k)) s = Some s1" "rep s1 (A(fst (ps ! k) := None))" by blast
      from Cons.IH [OF s1(2) holds_remove(1) [OF Cons.prems(2) True] rs] show ?thesis using Put True s1(1) by simp
    next
      case False
      then show ?thesis using Put Cons.IH [OF Cons.prems(1,2) rs] by simp
    qed
  qed
qed

lemma release_all_ok:
  "rep s A \<Longrightarrow> dom A = set ps \<Longrightarrow> distinct ps \<Longrightarrow> \<exists>s'. release_all delete ps s = Some s' \<and> rep s' Map.empty"
proof (induction ps arbitrary: s A)
  case Nil
  then show ?case by (simp add: dom_eq_empty_conv [simplified])
next
  case (Cons p ps)
  then have "A p \<noteq> None" by auto
  from delete [OF Cons.prems(1) this] obtain s1 where s1: "delete p s = Some s1" "rep s1 (A(p := None))" by blast
  have "dom (A(p := None)) = set ps" using Cons.prems(2,3) by auto
  from Cons.IH [OF s1(2) this] Cons.prems(3) s1(1) show ?case by simp
qed

text \<open>What a client still holds at its end can be given back.\<close>

lemma run_release:
  assumes "rep s Map.empty" and "\<forall>n. Get n \<in> set rs \<longrightarrow> admits n"
  shows "\<exists>ps s1 A s2. alloc_run new delete rs [] s = Some (ps, s1) \<and> rep s1 A \<and> holds ps A \<and>
    release_all delete (map fst ps) s1 = Some s2 \<and> rep s2 Map.empty"
proof -
  from alloc_run_ok [OF assms(1) holds_Nil assms(2)] obtain ps s1 A where a: "alloc_run new delete rs [] s = Some (ps, s1)" "rep s1 A" "holds ps A"
    by blast
  then have "dom A = set (map fst ps)" "distinct (map fst ps)" by (simp_all add: holds_def)
  from release_all_ok [OF a(2) this] a show ?thesis by blast
qed

end

end
