(* ===== verification/MemPoolOk.thy ===== *)
theory MemPoolOk
  imports MemPool Allocator
begin

text \<open>
  The invariant of the memory pool and its operations.  \<open>F i\<close> lists the idle blocks of chunk \<open>i\<close>,
  \<open>A\<close> the pointers in the hands of the client with their room, \<open>base\<close> what was on the heap before the pool.
\<close>

subsection \<open>The list of idle blocks\<close>

fun idle :: "pool_mem \<Rightarrow> nat \<Rightarrow> nat \<Rightarrow> addr list \<Rightarrow> bool" where
  "idle h i n [] = True"
| "idle h i n (q # qs) = (load q h = Some (Block i n (PNext (hd_or qs NULL))) \<and> idle h i n qs)"

lemma idle_cong: "(\<And>q. q \<in> set qs \<Longrightarrow> load q h' = load q h) \<Longrightarrow> idle h' i n qs = idle h i n qs"
  by (induction qs) auto

lemma idle_block: "idle h i n qs \<Longrightarrow> q \<in> set qs \<Longrightarrow> \<exists>r. load q h = Some (Block i n (PNext r))"
  by (induction qs) auto

lemma idle_live: "idle h i n qs \<Longrightarrow> q \<in> set qs \<Longrightarrow> q \<noteq> NULL"
  using idle_block [of h i n qs q] by auto

lemma idle_head: "idle h i n qs \<Longrightarrow> hd_or qs NULL = NULL \<longleftrightarrow> qs = []"
  using idle_live [of h i n qs "hd qs"] by (cases qs) auto

text \<open>The block \<open>p\<close> belongs to chunk \<open>i\<close>.\<close>

definition of_chunk :: "pool_mem \<Rightarrow> nat \<Rightarrow> addr \<Rightarrow> bool" where
  "of_chunk h i p \<longleftrightarrow> (\<exists>n d. load p h = Some (Block i n d))"

subsection \<open>The invariant\<close>

definition chunk_ok :: "pool_mem \<Rightarrow> nat \<Rightarrow> memory_chunk \<Rightarrow> addr list \<Rightarrow> nat \<Rightarrow> bool" where
  "chunk_ok h i c qs used \<longleftrightarrow> m_nSize c = MIN_SIZE * 2 ^ i \<and> m_pFreeBlock c = hd_or qs NULL \<and> idle h i (MIN_SIZE * 2 ^ i) qs \<and>
     distinct qs \<and> m_iBlockCount c = length qs + used"

definition owned :: "nat \<Rightarrow> (nat \<Rightarrow> addr list) \<Rightarrow> (addr \<rightharpoonup> nat) \<Rightarrow> addr set" where
  "owned k F A = dom A \<union> (\<Union>i \<in> {..<k}. set (F i))"

definition frame :: "pool_mem \<Rightarrow> addr set \<Rightarrow> (addr \<Rightarrow> pool_cell option) \<Rightarrow> bool" where
  "frame h S base \<longleftrightarrow> wf_heap h \<and> (\<forall>q \<in> S. base q = None) \<and> (\<forall>q. q \<notin> S \<longrightarrow> load q h = base q)"

definition held :: "pool_mem \<Rightarrow> memory_pool \<Rightarrow> addr \<Rightarrow> nat \<Rightarrow> bool" where
  "held h s p n \<longleftrightarrow> (\<exists>i d. i < length (m_pChunkList s) \<and> load p h = Some (Block i n d) \<and> n = MIN_SIZE * 2 ^ i) \<or>
     (load p h = Some (LargeBlock n) \<and> m_nMaxSize s < n)"

text \<open>The sizes of the chunks are all of 8, 16, 32, \<open>\<dots>\<close> up to the maximum.  Between the largest chunk and the maximum no size is
  provided for.\<close>

definition fits :: "memory_pool \<Rightarrow> bool" where
  "fits s \<longleftrightarrow> (\<forall>i < length (m_pChunkList s). MIN_SIZE * 2 ^ i \<le> m_nMaxSize s)"

definition provided :: "memory_pool \<Rightarrow> nat \<Rightarrow> bool" where
  "provided s n \<longleftrightarrow> m_nMaxSize s < n \<or> (\<exists>i < length (m_pChunkList s). n \<le> MIN_SIZE * 2 ^ i)"

text \<open>The largest chunk is as large as the maximum.\<close>

definition sized :: "memory_pool \<Rightarrow> bool" where
  "sized s \<longleftrightarrow> (\<exists>k. length (m_pChunkList s) = Suc k \<and> m_nMaxSize s = MIN_SIZE * 2 ^ k)"

lemma sized_provided: "sized s \<Longrightarrow> provided s n"
  by (auto simp: sized_def provided_def not_less)

definition chunks_ok :: "memory_chunk list \<Rightarrow> pool_mem \<Rightarrow> (nat \<Rightarrow> addr list) \<Rightarrow> (addr \<rightharpoonup> nat) \<Rightarrow> bool" where
  "chunks_ok cs h F A \<longleftrightarrow> (\<forall>i < length cs. chunk_ok h i (cs ! i) (F i) (card {p \<in> dom A. of_chunk h i p}) \<and> set (F i) \<inter> dom A = {})"

definition mem_inv ::
  "memory_pool \<Rightarrow> pool_mem \<Rightarrow> (nat \<Rightarrow> addr list) \<Rightarrow> (addr \<rightharpoonup> nat) \<Rightarrow> (addr \<Rightarrow> pool_cell option) \<Rightarrow> bool" where
  "mem_inv s h F A base \<longleftrightarrow> fits s \<and> chunks_ok (m_pChunkList s) h F A \<and> finite (dom A) \<and>
     frame h (owned (length (m_pChunkList s)) F A) base \<and> (\<forall>p n. A p = Some n \<longrightarrow> held h s p n)"

lemma mem_invD:
  assumes "mem_inv s h F A base"
  shows "fits s" "finite (dom A)" "wf_heap h" "A p = Some n \<Longrightarrow> held h s p n"
    and "i < length (m_pChunkList s) \<Longrightarrow> chunk_ok h i (m_pChunkList s ! i) (F i) (card {p \<in> dom A. of_chunk h i p})"
    and "i < length (m_pChunkList s) \<Longrightarrow> set (F i) \<inter> dom A = {}"
    and "q \<in> owned (length (m_pChunkList s)) F A \<Longrightarrow> base q = None" "q \<notin> owned (length (m_pChunkList s)) F A \<Longrightarrow> load q h = base q"
  using assms by (simp_all add: mem_inv_def chunks_ok_def frame_def)

lemma held_live: "held h s p n \<Longrightarrow> load p h \<noteq> None \<and> p \<noteq> NULL"
  by (auto simp: held_def)

text \<open>Different chunks have different blocks.\<close>

lemma idle_apart:
  assumes "chunks_ok cs h F A" and "i < length cs" and "j < length cs" and "i \<noteq> j"
  shows "set (F i) \<inter> set (F j) = {}"
proof -
  have "idle h i (MIN_SIZE * 2 ^ i) (F i)" "idle h j (MIN_SIZE * 2 ^ j) (F j)" using assms by (auto simp: chunks_ok_def chunk_ok_def)
  then have "\<not> (q \<in> set (F i) \<and> q \<in> set (F j))" for q using idle_block [of h i _ "F i" q] idle_block [of h j _ "F j" q] assms(4) by force
  then show ?thesis by blast
qed

lemma chunk_ok_cong:
  assumes "chunk_ok h i c qs u" and "\<And>q. q \<in> set qs \<Longrightarrow> load q h' = load q h" and "u' = u"
  shows "chunk_ok h' i c qs u'"
proof -
  have "idle h' i n qs = idle h i n qs" for n by (rule idle_cong) (rule assms(2))
  then show ?thesis using assms(1,3) unfolding chunk_ok_def by metis
qed

lemma load_new_block:
  "malloc c h = (p, h') \<Longrightarrow> p \<noteq> NULL \<Longrightarrow> load q h' = (if q = p then Some c else load q h)"
  by (auto simp: malloc_def load_def split: if_splits)

subsection \<open>Sizes\<close>

lemma find_chunk_ok:
  "j \<le> i \<Longrightarrow> n \<le> MIN_SIZE * 2 ^ i \<Longrightarrow> MIN_SIZE * 2 ^ i \<le> m \<Longrightarrow>
   j \<le> find_chunk (MIN_SIZE * 2 ^ j) m n j \<and> find_chunk (MIN_SIZE * 2 ^ j) m n j \<le> i \<and> n \<le> MIN_SIZE * 2 ^ find_chunk (MIN_SIZE * 2 ^ j) m n j"
proof (induction "i - j" arbitrary: j)
  case 0
  then show ?case by (simp add: find_chunk.simps MIN_SIZE_def)
next
  case (Suc d)
  have "MIN_SIZE * 2 ^ j \<le> MIN_SIZE * 2 ^ i" using Suc.prems(1) by (simp add: MIN_SIZE_def)
  then have le: "MIN_SIZE * 2 ^ j \<le> m" using Suc.prems(3) by (rule order_trans)
  show ?case
  proof (cases "n \<le> MIN_SIZE * 2 ^ j")
    case True
    then have "find_chunk (MIN_SIZE * 2 ^ j) m n j = j" using le by (subst find_chunk.simps) (simp add: MIN_SIZE_def)
    then show ?thesis using True Suc.prems by simp
  next
    case False
    have e: "MIN_SIZE * 2 ^ j * 2 = MIN_SIZE * 2 ^ Suc j" by simp
    have "find_chunk (MIN_SIZE * 2 ^ j) m n j = find_chunk (MIN_SIZE * 2 ^ Suc j) m n (Suc j)"
      using le False unfolding find_chunk.simps [of "MIN_SIZE * 2 ^ j"] e by (simp add: MIN_SIZE_def)
    moreover have "d = i - Suc j" "Suc j \<le> i" using Suc.hyps(2) by simp_all
    ultimately show ?thesis using Suc.hyps(1) [of "Suc j"] Suc.prems(2,3) Suc_leD by metis
  qed
qed

lemma class_found:
  assumes "fits s" and "provided s n" and "n \<le> m_nMaxSize s"
  shows "\<exists>i. find_chunk MIN_SIZE (m_nMaxSize s) n 0 = i \<and> i < length (m_pChunkList s) \<and> n \<le> MIN_SIZE * 2 ^ i"
proof -
  obtain k where "k < length (m_pChunkList s)" "n \<le> MIN_SIZE * 2 ^ k" using assms(2,3) by (auto simp: provided_def)
  with find_chunk_ok [of 0 k n "m_nMaxSize s"] assms(1) show ?thesis by (auto simp: fits_def)
qed

subsection \<open>New\<close>

lemma owned_add: "owned k F (A(p \<mapsto> c)) = insert p (owned k F A)"
  by (auto simp: owned_def)

lemma card_insert_chunk:
  assumes "finite (dom A)" and "A p = None" and "of_chunk h' i p" and "\<And>q. q \<in> dom A \<Longrightarrow> of_chunk h' i q = of_chunk h i q"
  shows "card {q \<in> dom (A(p \<mapsto> c)). of_chunk h' i q} = Suc (card {q \<in> dom A. of_chunk h i q})"
proof -
  have "{q \<in> dom (A(p \<mapsto> c)). of_chunk h' i q} = insert p {q \<in> dom A. of_chunk h i q}" using assms(3,4) by auto
  moreover have "p \<notin> {q \<in> dom A. of_chunk h i q}" using assms(2) by auto
  ultimately show ?thesis using assms(1) by simp
qed

lemma card_same_chunk:
  assumes "\<And>q. q \<in> dom A \<Longrightarrow> of_chunk h' i q = of_chunk h i q" and "\<not> of_chunk h' i p"
  shows "card {q \<in> dom (A(p \<mapsto> c)). of_chunk h' i q} = card {q \<in> dom A. of_chunk h i q}"
proof -
  have "{q \<in> dom (A(p \<mapsto> c)). of_chunk h' i q} = {q \<in> dom A. of_chunk h i q} - {p}" using assms by auto
  also have "\<dots> = {q \<in> dom A. of_chunk h i q}" using assms by (cases "p \<in> dom A") auto
  finally show ?thesis by simp
qed

lemma of_chunk_cong: "load q h' = load q h \<Longrightarrow> of_chunk h' i q = of_chunk h i q"
  by (simp add: of_chunk_def)

text \<open>A pointer that was not owned: the state with it in the hands of the client.\<close>

lemma give_fresh:
  assumes S: "mem_inv s h F A base" and p: "load p h = None" "p \<noteq> NULL"
    and h': "wf_heap h'" "load p h' = Some cell" "\<And>q. q \<noteq> p \<Longrightarrow> load q h' = load q h"
    and c: "(\<exists>i. i < length (m_pChunkList s) \<and> cell = Block i n Data \<and> n = MIN_SIZE * 2 ^ i \<and>
        s' = s\<lparr>m_pChunkList := (m_pChunkList s)[i := (m_pChunkList s ! i)\<lparr>m_iBlockCount := m_iBlockCount (m_pChunkList s ! i) + 1\<rparr>]\<rparr>) \<or>
      (cell = LargeBlock n \<and> m_nMaxSize s < n \<and> s' = s)"
  shows "mem_inv s' h' F (A(p \<mapsto> n)) base \<and> A p = None"
proof -
  note D = mem_invD [OF S]
  have np: "p \<notin> set (F i)" if "i < length (m_pChunkList s)" for i
    using D(5) [OF that] idle_block [of h i _ "F i" p] p(1) by (auto simp: chunk_ok_def)
  have nA: "A p = None"
  proof (rule ccontr)
    assume "A p \<noteq> None"
    then obtain l where "A p = Some l" by blast
    from held_live [OF D(4) [OF this]] p(1) show False by simp
  qed
  have ow: "p \<notin> owned (length (m_pChunkList s)) F A" using np nA by (auto simp: owned_def)
  have len: "length (m_pChunkList s') = length (m_pChunkList s)" "m_nMaxSize s' = m_nMaxSize s" using c by auto
  have oc: "of_chunk h' i q = of_chunk h i q" if "q \<in> dom A" for q i
    by (rule of_chunk_cong, rule h'(3)) (use that nA in auto)
  have "chunk_ok h' i (m_pChunkList s' ! i) (F i) (card {q \<in> dom (A(p \<mapsto> n)). of_chunk h' i q}) \<and> set (F i) \<inter> dom (A(p \<mapsto> n)) = {}"
    if i: "i < length (m_pChunkList s')" for i
  proof -
    have i': "i < length (m_pChunkList s)" using i len by simp
    have d: "set (F i) \<inter> dom (A(p \<mapsto> n)) = {}" using D(6) [OF i'] np [OF i'] by auto
    have same: "load q h' = load q h" if "q \<in> set (F i)" for q using h'(3) np [OF i'] that by metis
    show ?thesis
    proof (cases "of_chunk h' i p")
      case True
      then have cell: "cell = Block i n Data" "s' = s\<lparr>m_pChunkList := (m_pChunkList s)[i := (m_pChunkList s ! i)\<lparr>m_iBlockCount := m_iBlockCount (m_pChunkList s ! i) + 1\<rparr>]\<rparr>"
        using c h'(2) by (auto simp: of_chunk_def)
      have "card {q \<in> dom (A(p \<mapsto> n)). of_chunk h' i q} = Suc (card {q \<in> dom A. of_chunk h i q})"
        by (rule card_insert_chunk [OF D(2) nA True oc])
      moreover have "chunk_ok h' i (m_pChunkList s ! i) (F i) (card {q \<in> dom A. of_chunk h i q})"
        by (rule chunk_ok_cong [OF D(5) [OF i'] same refl])
      ultimately show ?thesis using d cell(2) i' by (simp add: chunk_ok_def)
    next
      case False
      then have "m_pChunkList s' ! i = m_pChunkList s ! i" using c h'(2) i' by (auto simp: of_chunk_def nth_list_update)
      moreover have "card {q \<in> dom (A(p \<mapsto> n)). of_chunk h' i q} = card {q \<in> dom A. of_chunk h i q}"
        by (rule card_same_chunk [OF oc False])
      ultimately show ?thesis using chunk_ok_cong [OF D(5) [OF i'] same] d by simp
    qed
  qed
  moreover have "frame h' (owned (length (m_pChunkList s')) F (A(p \<mapsto> n))) base"
    unfolding frame_def owned_add len(1) using D(7,8) p(1) ow h'(1,3) by (metis insert_iff)
  moreover have "held h' s' q l" if "(A(p \<mapsto> n)) q = Some l" for q l
  proof (cases "q = p")
    case True
    then show ?thesis using that c h'(2) len by (auto simp: held_def)
  next
    case False
    then have "held h s q l" using that D(4) by simp
    then show ?thesis using h'(3) [OF False] len by (simp add: held_def)
  qed
  moreover have "fits s'" using D(1) len by (simp add: fits_def)
  ultimately show ?thesis using D(2) nA by (simp add: mem_inv_def chunks_ok_def)
qed

text \<open>An idle block in the hands of the client.\<close>

lemma give_idle:
  assumes S: "mem_inv s h F A base" and i: "i < length (m_pChunkList s)" and F: "F i = p # qs"
  shows "mem_inv (s\<lparr>m_pChunkList := (m_pChunkList s)[i := (m_pChunkList s ! i)\<lparr>m_pFreeBlock := hd_or qs NULL\<rparr>]\<rparr>) h (F(i := qs))
    (A(p \<mapsto> MIN_SIZE * 2 ^ i)) base \<and> A p = None"
proof -
  let ?s = "s\<lparr>m_pChunkList := (m_pChunkList s)[i := (m_pChunkList s ! i)\<lparr>m_pFreeBlock := hd_or qs NULL\<rparr>]\<rparr>"
  let ?A = "A(p \<mapsto> MIN_SIZE * 2 ^ i)"
  note D = mem_invD [OF S]
  have ci: "chunk_ok h i (m_pChunkList s ! i) (p # qs) (card {q \<in> dom A. of_chunk h i q})" using D(5) [OF i] F by simp
  then have lp: "load p h = Some (Block i (MIN_SIZE * 2 ^ i) (PNext (hd_or qs NULL)))" "p \<notin> set qs" by (auto simp: chunk_ok_def)
  have nA: "A p = None" using D(6) [OF i] F by auto
  have np: "p \<notin> set (F j)" if "j < length (m_pChunkList s)" "j \<noteq> i" for j
    using idle_apart [of "m_pChunkList s" h F A i j] S i that F by (auto simp: mem_inv_def)
  have "chunk_ok h j (m_pChunkList ?s ! j) ((F(i := qs)) j) (card {q \<in> dom ?A. of_chunk h j q}) \<and> set ((F(i := qs)) j) \<inter> dom ?A = {}"
    if j: "j < length (m_pChunkList ?s)" for j
  proof (cases "j = i")
    case True
    have "card {q \<in> dom ?A. of_chunk h i q} = Suc (card {q \<in> dom A. of_chunk h i q})"
      by (rule card_insert_chunk [OF D(2) nA]) (use lp(1) in \<open>simp_all add: of_chunk_def\<close>)
    then show ?thesis using True ci i D(6) [OF i] F lp(2) by (auto simp: chunk_ok_def)
  next
    case False
    have "card {q \<in> dom ?A. of_chunk h j q} = card {q \<in> dom A. of_chunk h j q}"
      by (rule card_same_chunk) (use lp(1) False in \<open>auto simp: of_chunk_def\<close>)
    then show ?thesis using False D(5,6) [of j] j np [of j] by auto
  qed
  moreover have "owned (length (m_pChunkList ?s)) (F(i := qs)) ?A = owned (length (m_pChunkList s)) F A"
  proof -
    have "q \<in> set (F j) \<longleftrightarrow> (j = i \<and> q = p) \<or> q \<in> set ((F(i := qs)) j)" for q j using F by auto
    then have "insert p (\<Union>j \<in> {..<length (m_pChunkList s)}. set ((F(i := qs)) j)) = (\<Union>j \<in> {..<length (m_pChunkList s)}. set (F j))"
      unfolding set_eq_iff insert_iff UN_iff using i by blast
    then show ?thesis unfolding owned_def by (simp add: Un_insert_right [symmetric] del: fun_upd_apply Un_insert_right)
  qed
  moreover have "held h ?s q l" if "?A q = Some l" for q l
    using that D(4) [of q l] lp(1) i by (cases "q = p") (auto simp: held_def)
  moreover have "fits ?s" using D(1) by (simp add: fits_def)
  ultimately show ?thesis using S D(2) nA by (simp add: mem_inv_def chunks_ok_def)
qed

lemma out_of_memory:
  assumes "mem_inv s h F A base"
  shows "mem_inv s (h\<lparr>oom := tl (oom h)\<rparr>) F A base"
proof -
  have l: "load q (h\<lparr>oom := tl (oom h)\<rparr>) = load q h" for q by (simp add: load_def)
  have "idle (h\<lparr>oom := tl (oom h)\<rparr>) i n qs = idle h i n qs" for i n qs by (rule idle_cong) (rule l)
  then have "chunk_ok (h\<lparr>oom := tl (oom h)\<rparr>) i c qs u = chunk_ok h i c qs u" for i c qs u by (simp add: chunk_ok_def)
  with assms l show ?thesis
    by (simp add: mem_inv_def chunks_ok_def frame_def held_def of_chunk_def wf_heap_def)
qed

text \<open>The number of chunks and the maximum never change.\<close>

definition same_shape :: "memory_pool \<Rightarrow> memory_pool \<Rightarrow> bool" where
  "same_shape s s' \<longleftrightarrow> length (m_pChunkList s') = length (m_pChunkList s) \<and> m_nMaxSize s' = m_nMaxSize s"

lemma same_shape_simps [simp]:
  "same_shape s s" "same_shape s (s\<lparr>m_pChunkList := (m_pChunkList s)[i := c]\<rparr>)"
  by (simp_all add: same_shape_def)

lemma New_ok:
  assumes S: "mem_inv s h F A base" and P: "provided s n"
  shows "\<exists>p s' h' F'. New n s h = Some (p, s', h') \<and> same_shape s s' \<and>
    (p = NULL \<and> mem_inv s' h' F' A base \<or> p \<noteq> NULL \<and> A p = None \<and> (\<exists>c \<ge> n. mem_inv s' h' F' (A(p \<mapsto> c)) base))"
proof (cases "m_nMaxSize s < n")
  case True
  show ?thesis
  proof (cases "alloc_fails h")
    case f: True
    have "New n s h = Some (NULL, s, h\<lparr>oom := tl (oom h)\<rparr>)"
      using True by (simp add: New_def LargeMalloc_def malloc_alloc_fails [OF f])
    then show ?thesis using out_of_memory [OF S] same_shape_simps by blast
  next
    case f: False
    let ?p = "brk h"
    note D = mem_invD [OF S]
    define g where "g = snd (malloc (LargeBlock n) h)"
    have m: "malloc (LargeBlock n) h = (?p, g)" using malloc_succeeds [OF f] by (simp add: g_def)
    have p: "load ?p h = None" "?p \<noteq> NULL" using D(3) wf_heap_fresh wf_heap_brk_pos by auto
    have l: "load q g = (if q = ?p then Some (LargeBlock n) else load q h)" for q by (rule load_new_block [OF m p(2)])
    have "mem_inv s g F (A(?p \<mapsto> n)) base \<and> A ?p = None"
      by (rule give_fresh [OF S p]) (use l True wf_heap_malloc [OF D(3) m] in auto)
    moreover have "New n s h = Some (?p, s, g)" using True m by (simp add: New_def LargeMalloc_def)
    ultimately show ?thesis using p(2) same_shape_simps by blast
  qed
next
  case False
  note D = mem_invD [OF S]
  obtain i where i: "find_chunk MIN_SIZE (m_nMaxSize s) n 0 = i" "i < length (m_pChunkList s)" "n \<le> MIN_SIZE * 2 ^ i"
    using class_found [OF D(1) P] False by auto
  let ?c = "m_pChunkList s ! i"
  have ci: "chunk_ok h i ?c (F i) (card {q \<in> dom A. of_chunk h i q})" by (rule D(5) [OF i(2)])
  have N: "New n s h = do { (p, c, h) \<leftarrow> chunk_malloc i ?c h; Some (p, s\<lparr>m_pChunkList := (m_pChunkList s)[i := c]\<rparr>, h) }"
    using False i by (simp add: New_def)
  show ?thesis
  proof (cases "F i")
    case (Cons p qs)
    then have lp: "load p h = Some (Block i (MIN_SIZE * 2 ^ i) (PNext (hd_or qs NULL)))" "m_pFreeBlock ?c = p" "p \<noteq> NULL"
      using ci idle_live [of h i "MIN_SIZE * 2 ^ i" "F i" p] by (auto simp: chunk_ok_def)
    then have "New n s h = Some (p, s\<lparr>m_pChunkList := (m_pChunkList s)[i := ?c\<lparr>m_pFreeBlock := hd_or qs NULL\<rparr>]\<rparr>, h)"
      unfolding N by (simp add: chunk_malloc_def get_pnext_def)
    then show ?thesis using give_idle [OF S i(2) Cons] lp(3) i(3) same_shape_simps(2) by blast
  next
    case Nil
    then have e: "m_pFreeBlock ?c = NULL" "m_nSize ?c = MIN_SIZE * 2 ^ i" using ci by (simp_all add: chunk_ok_def)
    show ?thesis
    proof (cases "alloc_fails h")
      case f: True
      have "New n s h = Some (NULL, s, h\<lparr>oom := tl (oom h)\<rparr>)"
        unfolding N using e by (simp add: chunk_malloc_def CreateBlock_def malloc_alloc_fails [OF f])
      then show ?thesis using out_of_memory [OF S] same_shape_simps by blast
    next
      case f: False
      let ?cell = "Block i (MIN_SIZE * 2 ^ i) Data"
      let ?p = "brk h" and ?s = "s\<lparr>m_pChunkList := (m_pChunkList s)[i := ?c\<lparr>m_iBlockCount := m_iBlockCount ?c + 1\<rparr>]\<rparr>"
      define g where "g = snd (malloc ?cell h)"
      have m: "malloc ?cell h = (?p, g)" using malloc_succeeds [OF f] by (simp add: g_def)
      have p: "load ?p h = None" "?p \<noteq> NULL" using D(3) wf_heap_fresh wf_heap_brk_pos by auto
      have l: "load q g = (if q = ?p then Some ?cell else load q h)" for q by (rule load_new_block [OF m p(2)])
      have "mem_inv ?s g F (A(?p \<mapsto> MIN_SIZE * 2 ^ i)) base \<and> A ?p = None"
        by (rule give_fresh [OF S p]) (use l i(2) wf_heap_malloc [OF D(3) m] in auto)
      moreover have "New n s h = Some (?p, ?s, g)"
        unfolding N using e m p(2) by (simp add: chunk_malloc_def CreateBlock_def)
      ultimately show ?thesis using p(2) i(3) same_shape_simps(2) by blast
    qed
  qed
qed

text \<open>A pool all of whose sizes are provided for.\<close>

definition pool_state ::
  "memory_pool \<Rightarrow> pool_mem \<Rightarrow> (nat \<Rightarrow> addr list) \<Rightarrow> (addr \<rightharpoonup> nat) \<Rightarrow> (addr \<Rightarrow> pool_cell option) \<Rightarrow> bool" where
  "pool_state s h F A base \<longleftrightarrow> sized s \<and> mem_inv s h F A base"

lemma pool_stateD: "pool_state s h F A base \<Longrightarrow> sized s" "pool_state s h F A base \<Longrightarrow> mem_inv s h F A base"
  by (simp_all add: pool_state_def)

lemma sized_shape: "sized s \<Longrightarrow> same_shape s s' \<Longrightarrow> sized s'"
  by (simp add: sized_def same_shape_def)

lemma provided_shape: "same_shape s s' \<Longrightarrow> provided s' n = provided s n"
  by (simp add: provided_def same_shape_def)

end
