(* ===== verification/MemPoolRun.thy ===== *)
theory MemPoolRun
  imports MemPoolOk
begin

text \<open>
  The rest of the life of a memory pool: \<open>Delete\<close>, the constructor, the destructor, and the proof that the
  pool is an allocator.
\<close>

subsection \<open>Delete\<close>

lemma card_remove_chunk:
  assumes "finite (dom A)" and "A p \<noteq> None" and "of_chunk h i p" and "\<And>q. q \<noteq> p \<Longrightarrow> of_chunk h' i q = of_chunk h i q"
  shows "card {q \<in> dom A. of_chunk h i q} = Suc (card {q \<in> dom (A(p := None)). of_chunk h' i q})"
proof -
  have "{q \<in> dom A. of_chunk h i q} = insert p {q \<in> dom (A(p := None)). of_chunk h' i q}" using assms(2-4) by auto
  then show ?thesis using assms(1) by simp
qed

lemma card_keep_chunk:
  assumes "\<And>q. q \<noteq> p \<Longrightarrow> of_chunk h' i q = of_chunk h i q" and "\<not> of_chunk h i p"
  shows "card {q \<in> dom (A(p := None)). of_chunk h' i q} = card {q \<in> dom A. of_chunk h i q}"
proof -
  have "{q \<in> dom (A(p := None)). of_chunk h' i q} = {q \<in> dom A. of_chunk h i q}" using assms
    by (metis (no_types, lifting) domIff fun_upd_apply)
  then show ?thesis by simp
qed

lemma owned_move:
  assumes "i < k" and "A p \<noteq> None"
  shows "owned k (F(i := p # F i)) (A(p := None)) = owned k F A"
proof -
  have "q \<in> set ((F(i := p # F i)) j) \<longleftrightarrow> (j = i \<and> q = p) \<or> q \<in> set (F j)" for q j by auto
  then show ?thesis unfolding owned_def set_eq_iff Un_iff UN_iff using assms by (auto simp del: fun_upd_apply simp: dom_fun_upd)
qed

lemma block_size_le: "fits s \<Longrightarrow> i < length (m_pChunkList s) \<Longrightarrow> MIN_SIZE * 2 ^ i \<le> m_nMaxSize s"
  by (simp add: fits_def)

lemma Delete_block:
  assumes S: "mem_inv s h F A base" and A: "A p = Some n" and l: "load p h = Some (Block i n d)" "i < length (m_pChunkList s)"
    "n = MIN_SIZE * 2 ^ i"
  shows "\<exists>s' h'. Delete p s h = Some (s', h') \<and> mem_inv s' h' (F(i := p # F i)) (A(p := None)) base \<and>
    s' = s\<lparr>m_pChunkList := (m_pChunkList s)[i := (m_pChunkList s ! i)\<lparr>m_pFreeBlock := p\<rparr>]\<rparr> \<and>
    (\<forall>q. load q h' = (if q = p then Some (Block i n (PNext (hd_or (F i) NULL))) else load q h)) \<and> brk h' = brk h \<and> oom h' = oom h"
proof -
  note D = mem_invD [OF S]
  let ?c = "m_pChunkList s ! i" and ?A = "A(p := None)"
  let ?s = "s\<lparr>m_pChunkList := (m_pChunkList s)[i := ?c\<lparr>m_pFreeBlock := p\<rparr>]\<rparr>"
  define g where "g = h\<lparr>cells := (cells h)(p := Some (Block i n (PNext (hd_or (F i) NULL))))\<rparr>"
  have pn: "p \<noteq> NULL" using l(1) by auto
  have lg: "load q g = (if q = p then Some (Block i n (PNext (hd_or (F i) NULL))) else load q h)" for q
    using pn by (simp add: g_def load_cells_upd)
  have ci: "chunk_ok h i ?c (F i) (card {q \<in> dom A. of_chunk h i q})" by (rule D(5) [OF l(2)])
  then have hd: "m_pFreeBlock ?c = hd_or (F i) NULL" by (simp add: chunk_ok_def)
  have "\<not> m_nMaxSize s < n" using block_size_le [OF D(1) l(2)] l(3) by simp
  then have "Delete p s h = Some (?s, g)"
    using l hd by (simp add: Delete_def LargeFree_def chunk_free_def set_pnext_def store_Some g_def)
  moreover have "mem_inv ?s g (F(i := p # F i)) ?A base"
  proof -
    have oc: "of_chunk g j q = of_chunk h j q" if "q \<noteq> p" for j q by (rule of_chunk_cong) (use lg that in simp)
    have np: "p \<notin> set (F j)" if "j < length (m_pChunkList s)" for j using D(6) [OF that] A by auto
    have "chunk_ok g j (m_pChunkList ?s ! j) ((F(i := p # F i)) j) (card {q \<in> dom ?A. of_chunk g j q}) \<and>
        set ((F(i := p # F i)) j) \<inter> dom ?A = {}" if j: "j < length (m_pChunkList ?s)" for j
    proof -
      have j': "j < length (m_pChunkList s)" using j by simp
      have same: "load q g = load q h" if "q \<in> set (F j)" for q using lg np [OF j'] that by metis
      show ?thesis
      proof (cases "j = i")
        case True
        have "card {q \<in> dom A. of_chunk h i q} = Suc (card {q \<in> dom ?A. of_chunk g i q})"
          by (rule card_remove_chunk [OF D(2) _ _ oc]) (use A l(1) in \<open>auto simp: of_chunk_def\<close>)
        moreover have "chunk_ok g i ?c (F i) (card {q \<in> dom A. of_chunk h i q})"
          by (rule chunk_ok_cong [OF ci _ refl]) (use same True in simp)
        ultimately show ?thesis using True l np [OF l(2)] lg D(6) [OF l(2)] by (auto simp: chunk_ok_def)
      next
        case False
        have "card {q \<in> dom ?A. of_chunk g j q} = card {q \<in> dom A. of_chunk h j q}"
          by (rule card_keep_chunk [OF oc]) (use l(1) False in \<open>auto simp: of_chunk_def\<close>)
        from chunk_ok_cong [OF D(5) [OF j'] same this] show ?thesis using False D(6) [OF j'] by auto
      qed
    qed
    moreover have "frame g (owned (length (m_pChunkList ?s)) (F(i := p # F i)) ?A) base"
    proof -
      have o: "owned (length (m_pChunkList ?s)) (F(i := p # F i)) ?A = owned (length (m_pChunkList s)) F A"
        using owned_move [of i "length (m_pChunkList s)" A p F] l(2) A by simp
      have p: "p \<in> owned (length (m_pChunkList s)) F A" using A by (auto simp: owned_def)
      have "wf_heap g" using D(3) l(1) lg by (auto simp: wf_heap_def g_def load_def)
      then show ?thesis unfolding o frame_def using D(7,8) lg p by metis
    qed
    moreover have "held g ?s q m" if "?A q = Some m" for q m
      using that D(4) [of q m] lg [of q] by (auto simp: held_def split: if_splits)
    moreover have "fits ?s" using D(1) by (simp add: fits_def)
    ultimately show ?thesis using D(2) by (simp add: mem_inv_def chunks_ok_def)
  qed
  ultimately show ?thesis using lg by (auto simp: g_def)
qed

lemma Delete_large:
  assumes S: "mem_inv s h F A base" and A: "A p = Some n" and l: "load p h = Some (LargeBlock n)" "m_nMaxSize s < n"
  shows "\<exists>h'. Delete p s h = Some (s, h') \<and> mem_inv s h' F (A(p := None)) base"
proof -
  note D = mem_invD [OF S]
  let ?A = "A(p := None)"
  define g where "g = h\<lparr>cells := (cells h)(p := None)\<rparr>"
  have pn: "p \<noteq> NULL" using l(1) by auto
  have lg: "load q g = (if q = p then None else load q h)" for q using pn by (simp add: g_def load_cells_upd)
  have "Delete p s h = Some (s, g)" using l by (simp add: Delete_def LargeFree_def free_Some g_def)
  moreover have oc: "of_chunk g j q = of_chunk h j q" if "q \<noteq> p" for j q by (rule of_chunk_cong) (use lg that in simp)
  have np: "p \<notin> set (F j)" if "j < length (m_pChunkList s)" for j using D(6) [OF that] A by auto
  have "chunk_ok g j (m_pChunkList s ! j) (F j) (card {q \<in> dom ?A. of_chunk g j q}) \<and> set (F j) \<inter> dom ?A = {}"
    if j: "j < length (m_pChunkList s)" for j
  proof -
    have same: "load q g = load q h" if "q \<in> set (F j)" for q using lg np [OF j] that by metis
    have "card {q \<in> dom ?A. of_chunk g j q} = card {q \<in> dom A. of_chunk h j q}"
      by (rule card_keep_chunk [OF oc]) (use l(1) in \<open>auto simp: of_chunk_def\<close>)
    from chunk_ok_cong [OF D(5) [OF j] same this] show ?thesis using D(6) [OF j] by auto
  qed
  moreover have "frame g (owned (length (m_pChunkList s)) F ?A) base"
  proof -
    have o: "owned (length (m_pChunkList s)) F ?A = owned (length (m_pChunkList s)) F A - {p}" using np by (auto simp: owned_def)
    have "p \<in> owned (length (m_pChunkList s)) F A" using A by (auto simp: owned_def)
    moreover have "wf_heap g" using D(3) lg by (auto simp: wf_heap_def g_def load_def)
    ultimately show ?thesis unfolding o frame_def using D(7,8) lg by (metis Diff_iff singletonD singletonI)
  qed
  moreover have "held g s q m" if "?A q = Some m" for q m
    using that D(4) [of q m] lg [of q] by (auto simp: held_def split: if_splits)
  ultimately show ?thesis using D(1,2) by (simp add: mem_inv_def chunks_ok_def)
qed

lemma Delete_ok:
  assumes S: "mem_inv s h F A base" and A: "A p \<noteq> None"
  shows "\<exists>s' h' F'. Delete p s h = Some (s', h') \<and> same_shape s s' \<and> mem_inv s' h' F' (A(p := None)) base"
proof -
  obtain n where n: "A p = Some n" using A by blast
  from mem_invD(4) [OF S n] show ?thesis
    unfolding held_def using Delete_block [OF S n] Delete_large [OF S n] same_shape_simps by metis
qed

subsection \<open>The constructor\<close>

lemma chunk_init_loop_ok:
  "idle h i (m_nSize c) qs \<Longrightarrow> distinct qs \<Longrightarrow> m_pFreeBlock c = hd_or qs NULL \<Longrightarrow> m_iBlockCount c = length qs \<Longrightarrow> wf_heap h \<Longrightarrow>
   \<exists>ps c' h'. chunk_init_loop i k c h = Some (c', h') \<and> m_nSize c' = m_nSize c \<and> idle h' i (m_nSize c) ps \<and> distinct ps \<and>
     m_pFreeBlock c' = hd_or ps NULL \<and> m_iBlockCount c' = length ps \<and> wf_heap h' \<and> (\<forall>q. q \<notin> set ps \<longrightarrow> load q h' = load q h) \<and>
     set qs \<subseteq> set ps \<and> (\<forall>q \<in> set ps - set qs. load q h = None)"
proof (induction k arbitrary: c qs h)
  case 0
  then show ?case by (intro exI [of _ qs] exI [of _ c] exI [of _ h]) simp
next
  case (Suc k)
  show ?case
  proof (cases "alloc_fails h")
    case True
    have l: "load q (h\<lparr>oom := tl (oom h)\<rparr>) = load q h" for q by simp
    have "idle (h\<lparr>oom := tl (oom h)\<rparr>) i (m_nSize c) qs = idle h i (m_nSize c) qs" by (rule idle_cong) (rule l)
    moreover have "chunk_init_loop i (Suc k) c h = Some (c, h\<lparr>oom := tl (oom h)\<rparr>)"
      by (simp add: CreateBlock_def malloc_alloc_fails [OF True])
    moreover have "wf_heap (h\<lparr>oom := tl (oom h)\<rparr>)" using Suc.prems(5) l by (simp add: wf_heap_def)
    ultimately show ?thesis using Suc.prems l
      by (intro exI [of _ qs] exI [of _ c] exI [of _ "h\<lparr>oom := tl (oom h)\<rparr>"]) simp
  next
    case False
    let ?p = "brk h"
    define g where "g = snd (malloc (Block i (m_nSize c) Data) h)"
    have m: "malloc (Block i (m_nSize c) Data) h = (?p, g)" using malloc_succeeds [OF False] by (simp add: g_def)
    have p: "load ?p h = None" "?p \<noteq> NULL" using Suc.prems(5) wf_heap_fresh wf_heap_brk_pos by auto
    have wg: "wf_heap g" by (rule wf_heap_malloc [OF Suc.prems(5) m])
    have lg: "load q g = (if q = ?p then Some (Block i (m_nSize c) Data) else load q h)" for q by (rule load_new_block [OF m p(2)])
    define g' where "g' = g\<lparr>cells := (cells g)(?p := Some (Block i (m_nSize c) (PNext (m_pFreeBlock c))))\<rparr>"
    have lg': "load q g' = (if q = ?p then Some (Block i (m_nSize c) (PNext (m_pFreeBlock c))) else load q h)" for q
      using p(2) lg [of q] by (simp add: g'_def load_cells_upd)
    define c' where "c' = c\<lparr>m_iBlockCount := m_iBlockCount c + 1, m_pFreeBlock := ?p\<rparr>"
    have step: "chunk_init_loop i (Suc k) c h = chunk_init_loop i k c' g'"
      using m p(2) lg [of ?p] by (simp add: CreateBlock_def set_pnext_def store_Some g'_def c'_def)
    have np: "?p \<notin> set qs" using idle_block [OF Suc.prems(1), of ?p] p(1) by auto
    have same: "load q g' = load q h" if "q \<in> set qs" for q using lg' np that by metis
    have "idle g' i (m_nSize c) qs = idle h i (m_nSize c) qs" by (rule idle_cong) (rule same)
    then have "idle g' i (m_nSize c') (?p # qs)" using Suc.prems(1,3) lg' by (simp add: c'_def)
    moreover have "distinct (?p # qs)" "m_pFreeBlock c' = hd_or (?p # qs) NULL" "m_iBlockCount c' = length (?p # qs)"
      using np Suc.prems(2,4) by (simp_all add: c'_def)
    moreover have "wf_heap g'"
    proof -
      have b: "brk g' = brk g" by (simp add: g'_def)
      show ?thesis unfolding wf_heap_def b using wg [unfolded wf_heap_def] lg lg' by (metis option.distinct(1))
    qed
    ultimately obtain ps d k' where r: "chunk_init_loop i k c' g' = Some (d, k')" "m_nSize d = m_nSize c'" "idle k' i (m_nSize c') ps"
      "distinct ps" "m_pFreeBlock d = hd_or ps NULL" "m_iBlockCount d = length ps" "wf_heap k'"
      "\<forall>q. q \<notin> set ps \<longrightarrow> load q k' = load q g'" "set (?p # qs) \<subseteq> set ps" "\<forall>q \<in> set ps - set (?p # qs). load q g' = None"
      using Suc.IH [of g' c' "?p # qs"] by blast
    have fresh: "load q h = None" if "q \<in> set ps - set qs" for q
      using r(10) lg' [of q] p(1) that by (cases "q = ?p") auto
    have rest: "load q k' = load q h" if "q \<notin> set ps" for q
    proof -
      have "q \<noteq> ?p" using r(9) that by auto
      then show ?thesis using r(8) lg' that by metis
    qed
    have n: "m_nSize c' = m_nSize c" by (simp add: c'_def)
    show ?thesis
      using r(1-7,9) unfolding step n by (intro exI [of _ ps] exI [of _ d] exI [of _ k']) (auto simp: rest fresh)
  qed
qed

text \<open>A new chunk at the end of the list.\<close>

lemma add_chunk:
  assumes C: "chunks_ok cs h F Map.empty" and fr: "frame h (owned (length cs) F Map.empty) base"
  shows "\<exists>c h' F'. chunk_init (length cs) (MIN_SIZE * 2 ^ length cs) num h = Some (c, h') \<and> chunks_ok (cs @ [c]) h' F' Map.empty \<and>
    frame h' (owned (length (cs @ [c])) F' Map.empty) base"
proof -
  let ?i = "length cs"
  have wf: "wf_heap h" using fr by (simp add: frame_def)
  obtain qs c h' where r: "chunk_init ?i (MIN_SIZE * 2 ^ ?i) num h = Some (c, h')" "m_nSize c = MIN_SIZE * 2 ^ ?i"
    "idle h' ?i (MIN_SIZE * 2 ^ ?i) qs" "distinct qs" "m_pFreeBlock c = hd_or qs NULL" "m_iBlockCount c = length qs" "wf_heap h'"
    "\<forall>q. q \<notin> set qs \<longrightarrow> load q h' = load q h" "\<forall>q \<in> set qs. load q h = None"
    using chunk_init_loop_ok [of h ?i "\<lparr>m_pFreeBlock = NULL, m_nSize = MIN_SIZE * 2 ^ ?i, m_iBlockCount = 0\<rparr>" "[]" num] wf
    unfolding chunk_init_def by auto
  define F' where "F' = F(?i := qs)"
  have ok: "chunk_ok h j (cs ! j) (F j) 0" if "j < ?i" for j using C that by (simp add: chunks_ok_def)
  have "chunk_ok h' j ((cs @ [c]) ! j) (F' j) 0" if j: "j < length (cs @ [c])" for j
  proof (cases "j = ?i")
    case True
    then show ?thesis using r by (simp add: chunk_ok_def F'_def)
  next
    case False
    then have j': "j < ?i" using j by simp
    have "load q h' = load q h" if "q \<in> set (F j)" for q
    proof -
      have "load q h \<noteq> None" using ok [OF j'] idle_block [of h j _ "F j" q] that by (auto simp: chunk_ok_def)
      then show ?thesis using r(8,9) by metis
    qed
    from chunk_ok_cong [OF ok [OF j'] this refl] show ?thesis using False j' by (simp add: F'_def nth_append)
  qed
  then have "chunks_ok (cs @ [c]) h' F' Map.empty" by (simp add: chunks_ok_def)
  moreover have "owned (length (cs @ [c])) F' Map.empty = owned ?i F Map.empty \<union> set qs"
  proof -
    have "(\<Union>j \<in> {..<?i}. set (F' j)) = (\<Union>j \<in> {..<?i}. set (F j))" by (simp add: F'_def)
    then show ?thesis by (simp add: owned_def lessThan_Suc Un_commute) (simp add: F'_def)
  qed
  then have "frame h' (owned (length (cs @ [c])) F' Map.empty) base"
    using fr r(7-9) unfolding frame_def by (metis Un_iff)
  ultimately show ?thesis using r(1) by blast
qed

lemma build_chunks_total:
  "chunks_ok cs h F Map.empty \<Longrightarrow> frame h (owned (length cs) F Map.empty) base \<Longrightarrow>
   \<exists>cs' h' F'. build_chunks (MIN_SIZE * 2 ^ length cs) m num cs h = Some (cs', h') \<and>
     chunks_ok cs' h' F' Map.empty \<and> frame h' (owned (length cs') F' Map.empty) base"
proof (induction "Suc m - MIN_SIZE * 2 ^ length cs" arbitrary: cs h F rule: less_induct)
  case less
  show ?case
  proof (cases "MIN_SIZE * 2 ^ length cs \<le> m")
    case False
    then show ?thesis using less.prems by (subst build_chunks.simps) auto
  next
    case True
    from add_chunk [OF less.prems, of num] obtain c h' F' where c: "chunk_init (length cs) (MIN_SIZE * 2 ^ length cs) num h = Some (c, h')"
      "chunks_ok (cs @ [c]) h' F' Map.empty" "frame h' (owned (length (cs @ [c])) F' Map.empty) base" by blast
    have e: "MIN_SIZE * 2 ^ length cs * 2 = MIN_SIZE * 2 ^ length (cs @ [c])" by simp
    have "build_chunks (MIN_SIZE * 2 ^ length cs) m num cs h = build_chunks (MIN_SIZE * 2 ^ length (cs @ [c])) m num (cs @ [c]) h'"
      using True c(1) unfolding build_chunks.simps [of "MIN_SIZE * 2 ^ length cs"] e by (simp add: MIN_SIZE_def)
    moreover have "(0::nat) < MIN_SIZE * 2 ^ length cs" by (simp add: MIN_SIZE_def)
    then have "Suc m - MIN_SIZE * 2 ^ length (cs @ [c]) < Suc m - MIN_SIZE * 2 ^ length cs"
      using True by (intro diff_less_mono2) simp_all
    ultimately show ?thesis using less.hyps [OF _ c(2,3)] by simp
  qed
qed

text \<open>There are as many chunks as the first loop counted.\<close>

lemma build_chunks_length: "build_chunks sz m num cs h = Some (cs', h') \<Longrightarrow> length cs' = count_chunks sz m (length cs)"
proof (induction sz m num cs h rule: build_chunks.induct)
  case (1 sz m num cs h)
  show ?case
  proof (cases "0 < sz \<and> sz \<le> m")
    case True
    with "1.prems" obtain c g where c: "chunk_init (length cs) sz num h = Some (c, g)"
      "build_chunks (sz * 2) m num (cs @ [c]) g = Some (cs', h')"
      by (subst (asm) build_chunks.simps) (auto split: option.splits)
    from "1.IH" [OF True c(1) refl c(2)] True show ?thesis by (subst count_chunks.simps) simp
  next
    case False
    with "1.prems" show ?thesis by (subst (asm) build_chunks.simps) (subst count_chunks.simps, auto)
  qed
qed

text \<open>The sizes of all chunks are at most the maximum.\<close>

lemma build_chunks_fit:
  "build_chunks (MIN_SIZE * 2 ^ length cs) m num cs h = Some (cs', h') \<Longrightarrow> \<forall>i < length cs. MIN_SIZE * 2 ^ i \<le> m \<Longrightarrow>
   (\<forall>i < length cs'. MIN_SIZE * 2 ^ i \<le> m) \<and> m < MIN_SIZE * 2 ^ length cs'"
proof (induction "Suc m - MIN_SIZE * 2 ^ length cs" arbitrary: cs h rule: less_induct)
  case less
  show ?case
  proof (cases "MIN_SIZE * 2 ^ length cs \<le> m")
    case True
    with less.prems(1) obtain c g where c: "chunk_init (length cs) (MIN_SIZE * 2 ^ length cs) num h = Some (c, g)"
      "build_chunks (MIN_SIZE * 2 ^ length cs * 2) m num (cs @ [c]) g = Some (cs', h')"
      by (subst (asm) build_chunks.simps) (auto simp: MIN_SIZE_def split: option.splits)
    have e: "MIN_SIZE * 2 ^ length cs * 2 = MIN_SIZE * 2 ^ length (cs @ [c])" by simp
    have "(0::nat) < MIN_SIZE * 2 ^ length cs" by (simp add: MIN_SIZE_def)
    then have "Suc m - MIN_SIZE * 2 ^ length (cs @ [c]) < Suc m - MIN_SIZE * 2 ^ length cs"
      using True by (intro diff_less_mono2) simp_all
    moreover have "\<forall>i < length (cs @ [c]). MIN_SIZE * 2 ^ i \<le> m" using less.prems(2) True by (auto simp: less_Suc_eq)
    ultimately show ?thesis using less.hyps [OF _ c(2) [unfolded e]] by blast
  next
    case False
    then have "cs' = cs" using less.prems(1) by (subst (asm) build_chunks.simps) auto
    then show ?thesis using less.prems(2) False by simp
  qed
qed

lemma create_chunks:
  assumes "wf_heap h"
  shows "\<exists>cs h' F. build_chunks MIN_SIZE m num [] h = Some (cs, h') \<and> length cs = count_chunks MIN_SIZE m 0 \<and>
    chunks_ok cs h' F Map.empty \<and> frame h' (owned (length cs) F Map.empty) (\<lambda>q. load q h)"
proof -
  have "chunks_ok [] h (\<lambda>_. []) Map.empty" "frame h (owned (length ([] :: memory_chunk list)) (\<lambda>_. []) Map.empty) (\<lambda>q. load q h)"
    using assms by (simp_all add: chunks_ok_def frame_def owned_def)
  from build_chunks_total [OF this, of m num] build_chunks_length [of MIN_SIZE m num "[]" h] show ?thesis by fastforce
qed

text \<open>The maximum of a pool, after the cut at \<open>MAX_SIZE\<close>, and the sizes that a client may ask it for: those that some chunk
  has room for, and those beyond the maximum.\<close>

definition pool_max :: "nat \<Rightarrow> nat" where
  "pool_max m = (if MAX_SIZE < m then MAX_SIZE else m)"

definition served :: "nat \<Rightarrow> nat \<Rightarrow> bool" where
  "served m n \<longleftrightarrow> pool_max m < n \<or> (\<exists>i. n \<le> MIN_SIZE * 2 ^ i \<and> MIN_SIZE * 2 ^ i \<le> pool_max m)"

lemma pool_create_ok:
  assumes "wf_heap h"
  shows "\<exists>s h' F. pool_create m num h = Some (s, h') \<and> mem_inv s h' F Map.empty (\<lambda>q. load q h) \<and> (\<forall>n. provided s n = served m n) \<and>
    m_iChunkCount s = length (m_pChunkList s) \<and> m_nMaxSize s = pool_max m"
proof -
  from create_chunks [OF assms, of "pool_max m" num] obtain cs h' F where
    b: "build_chunks MIN_SIZE (pool_max m) num [] h = Some (cs, h')" "length cs = count_chunks MIN_SIZE (pool_max m) 0"
    "chunks_ok cs h' F Map.empty" "frame h' (owned (length cs) F Map.empty) (\<lambda>q. load q h)" by blast
  from build_chunks_fit [of "[]" "pool_max m" num h cs h'] b(1)
  have f: "\<forall>i < length cs. MIN_SIZE * 2 ^ i \<le> pool_max m" "pool_max m < MIN_SIZE * 2 ^ length cs" by simp_all
  have i: "i < length cs" if "MIN_SIZE * 2 ^ i \<le> pool_max m" for i
  proof (rule ccontr)
    assume "\<not> i < length cs"
    then have "MIN_SIZE * 2 ^ length cs \<le> MIN_SIZE * 2 ^ i" by (intro mult_left_mono power_increasing) simp_all
    from order_trans [OF this that] show False using f(2) leD by blast
  qed
  let ?s = "\<lparr>m_pChunkList = cs, m_iChunkCount = count_chunks MIN_SIZE (pool_max m) 0, m_nMaxSize = pool_max m, m_iChunkBlockNum = num\<rparr>"
  have "provided ?s n = served m n" for n using f(1) i by (auto simp: provided_def served_def)
  moreover have "mem_inv ?s h' F Map.empty (\<lambda>q. load q h)" using b(3,4) f(1) by (simp add: mem_inv_def fits_def)
  ultimately show ?thesis using b(1,2) by (intro exI [of _ ?s] exI [of _ h'] exI [of _ F]) (simp add: pool_create_def pool_max_def)
qed

subsection \<open>The destructor\<close>

lemma chunk_delete_loop_ok:
  "idle h i n qs \<Longrightarrow> distinct qs \<Longrightarrow>
   \<exists>h'. chunk_delete_loop (hd_or qs NULL) k h = Some (k + length qs, h') \<and> (\<forall>q. load q h' = (if q \<in> set qs then None else load q h))"
proof (induction qs arbitrary: h k)
  case Nil
  then show ?case by (subst chunk_delete_loop.simps) simp
next
  case (Cons p qs)
  define g where "g = h\<lparr>cells := (cells h)(p := None)\<rparr>"
  have p: "load p h = Some (Block i n (PNext (hd_or qs NULL)))" using Cons.prems(1) by simp
  then have pn: "p \<noteq> NULL" by auto
  have lg: "load q g = (if q = p then None else load q h)" for q using pn by (simp add: g_def load_cells_upd)
  have "idle g i n qs = idle h i n qs" by (rule idle_cong) (use Cons.prems(2) lg in auto)
  then obtain h' where h': "chunk_delete_loop (hd_or qs NULL) (k + 1) g = Some (k + 1 + length qs, h')"
    "\<forall>q. load q h' = (if q \<in> set qs then None else load q g)" using Cons.IH [of g "k + 1"] Cons.prems by auto
  have "chunk_delete_loop (hd_or (p # qs) NULL) k h = chunk_delete_loop (hd_or qs NULL) (k + 1) g"
    using p pn by (subst chunk_delete_loop.simps) (simp add: get_pnext_def free_Some g_def)
  then show ?case using h' lg by auto
qed

lemma pool_delete_loop_ok:
  assumes "\<And>j. j < length cs \<Longrightarrow> chunk_ok h (m + j) (cs ! j) (F (m + j)) (u (m + j))"
    and "\<And>i j. i < length cs \<Longrightarrow> j < length cs \<Longrightarrow> i \<noteq> j \<Longrightarrow> set (F (m + i)) \<inter> set (F (m + j)) = {}"
  shows "\<exists>h'. pool_delete_loop cs h = Some (\<forall>j < length cs. u (m + j) = 0, h') \<and>
    ((\<forall>j < length cs. u (m + j) = 0) \<longrightarrow> (\<forall>q. load q h' = (if \<exists>j < length cs. q \<in> set (F (m + j)) then None else load q h)))"
  using assms
proof (induction cs arbitrary: m h)
  case Nil
  then show ?case by simp
next
  case (Cons c cs)
  have c: "chunk_ok h m c (F m) (u m)" using Cons.prems(1) [of 0] by simp
  then have "idle h m (MIN_SIZE * 2 ^ m) (F m)" "distinct (F m)" "m_pFreeBlock c = hd_or (F m) NULL" by (simp_all add: chunk_ok_def)
  with chunk_delete_loop_ok [of h m "MIN_SIZE * 2 ^ m" "F m" 0] obtain g where
    g: "chunk_delete_loop (m_pFreeBlock c) 0 h = Some (length (F m), g)" "\<forall>q. load q g = (if q \<in> set (F m) then None else load q h)"
    by auto
  have d: "chunk_delete c h = Some (u m = 0, g)" using g(1) c by (simp add: chunk_delete_def chunk_ok_def)
  show ?case
  proof (cases "u m = 0")
    case True
    have "chunk_ok g (Suc m + j) (cs ! j) (F (Suc m + j)) (u (Suc m + j))" if "j < length cs" for j
    proof (rule chunk_ok_cong [OF _ _ refl])
      show "chunk_ok h (Suc m + j) (cs ! j) (F (Suc m + j)) (u (Suc m + j))" using Cons.prems(1) [of "Suc j"] that by simp
      show "load q g = load q h" if "q \<in> set (F (Suc m + j))" for q
        using Cons.prems(2) [of 0 "Suc j"] \<open>j < length cs\<close> that g(2) by auto
    qed
    moreover have "set (F (Suc m + i)) \<inter> set (F (Suc m + j)) = {}" if "i < length cs" "j < length cs" "i \<noteq> j" for i j
      using Cons.prems(2) [of "Suc i" "Suc j"] that by simp
    ultimately obtain h' where h': "pool_delete_loop cs g = Some (\<forall>j < length cs. u (Suc m + j) = 0, h')"
      "(\<forall>j < length cs. u (Suc m + j) = 0) \<Longrightarrow> load q h' = (if \<exists>j < length cs. q \<in> set (F (Suc m + j)) then None else load q g)" for q
      using Cons.IH [of g "Suc m"] by blast
    have a: "(\<forall>j < length (c # cs). u (m + j) = 0) \<longleftrightarrow> (\<forall>j < length cs. u (Suc m + j) = 0)"
      using True by (auto simp: less_Suc_eq_0_disj)
    have e: "(\<exists>j < length (c # cs). q \<in> set (F (m + j))) \<longleftrightarrow> q \<in> set (F m) \<or> (\<exists>j < length cs. q \<in> set (F (Suc m + j)))" for q
      by (auto simp: less_Suc_eq_0_disj)
    show ?thesis unfolding a e using d True h' g(2) by auto
  next
    case False
    then have "\<not> (\<forall>j < length (c # cs). u (m + j) = 0)" by auto
    then show ?thesis using d False by auto
  qed
qed

lemma pool_delete_ok:
  assumes S: "mem_inv s h F A base"
  shows "\<exists>h'. pool_delete s h = Some (\<forall>p \<in> dom A. \<forall>i < length (m_pChunkList s). \<not> of_chunk h i p, h') \<and>
    ((\<forall>p \<in> dom A. \<forall>i < length (m_pChunkList s). \<not> of_chunk h i p) \<longrightarrow> (\<forall>q. load q h' = (if q \<in> dom A then load q h else base q)))"
proof -
  note D = mem_invD [OF S]
  let ?cs = "m_pChunkList s" and ?u = "\<lambda>i. card {p \<in> dom A. of_chunk h i p}"
  have apart: "set (F (0 + i)) \<inter> set (F (0 + j)) = {}" if "i < length ?cs" "j < length ?cs" "i \<noteq> j" for i j
    using idle_apart [of ?cs h F A i j] S that by (simp add: mem_inv_def)
  from pool_delete_loop_ok [of ?cs h 0 F ?u, OF _ apart] D(5) obtain h' where
    h': "pool_delete_loop ?cs h = Some (\<forall>j < length ?cs. ?u j = 0, h')"
    "(\<forall>j < length ?cs. ?u j = 0) \<Longrightarrow> load q h' = (if \<exists>j < length ?cs. q \<in> set (F j) then None else load q h)" for q
    by auto
  have all: "(\<forall>j < length ?cs. ?u j = 0) \<longleftrightarrow> (\<forall>p \<in> dom A. \<forall>i < length ?cs. \<not> of_chunk h i p)"
    using D(2) by auto
  have "load q h' = (if q \<in> dom A then load q h else base q)" if "\<forall>p \<in> dom A. \<forall>i < length ?cs. \<not> of_chunk h i p" for q
  proof (cases "\<exists>j < length ?cs. q \<in> set (F j)")
    case True
    then have "q \<notin> dom A" "q \<in> owned (length ?cs) F A" using D(6) by (auto simp: owned_def)
    then show ?thesis using h'(2) [of q] that all True D(7) by simp
  next
    case False
    then have "q \<notin> dom A \<Longrightarrow> q \<notin> owned (length ?cs) F A" by (auto simp: owned_def)
    then show ?thesis using h'(2) [of q] that all False D(8) by auto
  qed
  then show ?thesis using h'(1) all unfolding pool_delete_def by auto
qed

subsection \<open>The pool is an allocator\<close>

type_synonym pool = "memory_pool \<times> pool_mem"

definition pool_new :: "nat \<Rightarrow> pool \<Rightarrow> (addr \<times> pool) option" where
  "pool_new n = (\<lambda>(s, h). New n s h)"

definition pool_free :: "addr \<Rightarrow> pool \<Rightarrow> pool option" where
  "pool_free p = (\<lambda>(s, h). Delete p s h)"

definition pool_rep :: "nat \<Rightarrow> (addr \<Rightarrow> pool_cell option) \<Rightarrow> pool \<Rightarrow> (addr \<rightharpoonup> nat) \<Rightarrow> bool" where
  "pool_rep m base = (\<lambda>(s, h) A. (\<exists>F. mem_inv s h F A base) \<and> (\<forall>n. provided s n = served m n))"

interpretation memory_pool: allocator pool_new pool_free "pool_rep m base" "served m"
proof (unfold_locales, goal_cases)
  case (1 s A n)
  then obtain s1 h1 F where s: "s = (s1, h1)" "mem_inv s1 h1 F A base" "\<forall>n. provided s1 n = served m n" by (cases s) (auto simp: pool_rep_def)
  with New_ok [OF s(2), of n] 1(2) obtain p s' h' F' where n: "New n s1 h1 = Some (p, s', h')" "same_shape s1 s'"
    "p = NULL \<and> mem_inv s' h' F' A base \<or> p \<noteq> NULL \<and> A p = None \<and> (\<exists>c \<ge> n. mem_inv s' h' F' (A(p \<mapsto> c)) base)" by blast
  have "\<forall>n. provided s' n = served m n" using s(3) provided_shape [OF n(2)] by simp
  then show ?case using n(1,3) s(1) by (auto simp: pool_new_def pool_rep_def)
next
  case (2 s A p)
  then obtain s1 h1 F where s: "s = (s1, h1)" "mem_inv s1 h1 F A base" "\<forall>n. provided s1 n = served m n" by (cases s) (auto simp: pool_rep_def)
  with Delete_ok [OF s(2) 2(2)] obtain s' h' F' where d: "Delete p s1 h1 = Some (s', h')" "same_shape s1 s'"
    "mem_inv s' h' F' (A(p := None)) base" by blast
  have "\<forall>n. provided s' n = served m n" using s(3) provided_shape [OF d(2)] by simp
  then show ?case using d(1,3) s(1) by (auto simp: pool_free_def pool_rep_def)
qed

end
