(* ===== verification/MemPoolClaims.thy ===== *)
theory MemPoolClaims
  imports MemPoolRun
begin

text \<open>What the memory pool does.\<close>

subsection \<open>Choosing the chunk\<close>

lemma find_chunk_exact:
  "j \<le> i \<Longrightarrow> i \<le> k \<Longrightarrow> n \<le> MIN_SIZE * 2 ^ i \<Longrightarrow> (\<And>l. l < i \<Longrightarrow> MIN_SIZE * 2 ^ l < n) \<Longrightarrow>
   find_chunk (MIN_SIZE * 2 ^ j) (MIN_SIZE * 2 ^ k) n j = i"
proof (induction "i - j" arbitrary: j)
  case 0
  then have "j = i" by simp
  then show ?case using 0 by (subst find_chunk.simps) (simp add: MIN_SIZE_def)
next
  case (Suc d)
  then have j: "j < i" by simp
  then have n: "\<not> n \<le> MIN_SIZE * 2 ^ j" using Suc.prems(4) [of j] by simp
  have le: "MIN_SIZE * 2 ^ j \<le> MIN_SIZE * 2 ^ k" using j Suc.prems(2) by (simp add: MIN_SIZE_def)
  have e: "MIN_SIZE * 2 ^ j * 2 = MIN_SIZE * 2 ^ Suc j" by simp
  have "find_chunk (MIN_SIZE * 2 ^ j) (MIN_SIZE * 2 ^ k) n j = find_chunk (MIN_SIZE * 2 ^ Suc j) (MIN_SIZE * 2 ^ k) n (Suc j)"
    using le n unfolding find_chunk.simps [of "MIN_SIZE * 2 ^ j"] e by (simp add: MIN_SIZE_def)
  also have "\<dots> = i" by (rule Suc.hyps(1)) (use Suc.hyps(2) Suc.prems j in auto)
  finally show ?case .
qed

lemma find_chunk_none:
  "(\<And>j. sz * 2 ^ j \<le> m \<Longrightarrow> sz * 2 ^ j < n) \<Longrightarrow> find_chunk sz m n i = count_chunks sz m i"
proof (induction sz m n i rule: find_chunk.induct)
  case (1 sz m n i)
  show ?case
  proof (cases "0 < sz \<and> sz \<le> m")
    case True
    then have n: "\<not> n \<le> sz" using "1.prems" [of 0] by simp
    have "find_chunk (sz * 2) m n (i + 1) = count_chunks (sz * 2) m (i + 1)"
      by (rule "1.IH" [OF True n]) (use "1.prems" [of "Suc j" for j] in \<open>simp add: mult.assoc\<close>)
    then show ?thesis using True n by (subst find_chunk.simps, subst count_chunks.simps) simp
  next
    case False
    then show ?thesis by (subst find_chunk.simps, subst count_chunks.simps) auto
  qed
qed

text \<open>The room behind a pointer, as its header says.\<close>

definition room :: "addr \<Rightarrow> pool_mem \<Rightarrow> nat option" where
  "room p h = (case load p h of Some (Block _ n _) \<Rightarrow> Some n | Some (LargeBlock n) \<Rightarrow> Some n | None \<Rightarrow> None)"

lemma held_room: "held h s p n \<Longrightarrow> room p h = Some n"
  by (auto simp: held_def room_def)

subsection \<open>The claims\<close>

text \<open>C9: From the constructor, for any maximum \<open>m\<close>, to the destructor the pool serves every client that asks for sizes the
  pool provides for: at most that of its largest chunk, or more than its maximum (which is cut at 1024).  Whatever sequence of
  New and Delete the client performs, and whichever calls of malloc fail, each operation is memory safe and returns; the pointers
  in its hands are different, none of them was on the heap before, and each has the room that was asked for.  Once they
  are given back, the assertion of the destructor holds and the heap is what it was before the constructor.  The sizes
  that are left out, between the largest chunk and the maximum, are the ones for which New reads behind its list of chunks;
  there are none when the maximum is 8, 16, \<open>\<dots>\<close>, 512 or at least 1024.\<close>

theorem mempool_serves_clients:
  assumes "wf_heap h" and "\<forall>n. Get n \<in> set rs \<longrightarrow> served m n"
  shows "\<exists>s h1 ps t u h2. pool_create m num h = Some (s, h1) \<and> alloc_run pool_new pool_free rs [] (s, h1) = Some (ps, t) \<and>
    distinct (map fst ps) \<and> (\<forall>(p, n) \<in> set ps. p \<noteq> NULL \<and> load p h = None \<and> (\<exists>c \<ge> n. room p (snd t) = Some c)) \<and>
    release_all pool_free (map fst ps) t = Some u \<and> pool_delete (fst u) (snd u) = Some (True, h2) \<and> (\<forall>q. load q h2 = load q h)"
proof -
  let ?base = "\<lambda>q. load q h"
  obtain s h1 F where c: "pool_create m num h = Some (s, h1)" "mem_inv s h1 F Map.empty ?base" "\<forall>n. provided s n = served m n"
    using pool_create_ok [OF assms(1)] by blast
  then have "pool_rep m ?base (s, h1) Map.empty" by (auto simp: pool_rep_def)
  from memory_pool.run_release [OF this assms(2)] obtain ps t A u where r: "alloc_run pool_new pool_free rs [] (s, h1) = Some (ps, t)"
    "pool_rep m ?base t A" "holds ps A" "release_all pool_free (map fst ps) t = Some u" "pool_rep m ?base u Map.empty" by blast
  from r(2) obtain G where g: "mem_inv (fst t) (snd t) G A ?base" by (auto simp: pool_rep_def split: prod.splits)
  have "p \<noteq> NULL \<and> load p h = None \<and> (\<exists>c \<ge> n. room p (snd t) = Some c)" if "(p, n) \<in> set ps" for p n
  proof -
    from r(3) that obtain k where k: "n \<le> k" "A p = Some k" by (auto simp: holds_def)
    note D = mem_invD [OF g]
    have "p \<in> owned (length (m_pChunkList (fst t))) G A" using k(2) by (auto simp: owned_def)
    then show ?thesis using D(4) [OF k(2)] D(7) held_live held_room k(1) by blast
  qed
  moreover obtain E where "mem_inv (fst u) (snd u) E Map.empty ?base" using r(5) by (auto simp: pool_rep_def split: prod.splits)
  from pool_delete_ok [OF this] obtain h2 where "pool_delete (fst u) (snd u) = Some (True, h2)" "\<forall>q. load q h2 = load q h" by auto
  moreover have "distinct (map fst ps)" using r(3) by (simp add: holds_def)
  ultimately show ?thesis using c(1) r(1,4)
    by (intro exI [of _ s] exI [of _ h1] exI [of _ ps] exI [of _ t] exI [of _ u] exI [of _ h2] conjI) auto
qed

text \<open>A heap with one object, on which the third and the sixth allocation fail.\<close>

definition ex_pool_mem :: pool_mem where
  "ex_pool_mem = \<lparr>cells = [5 \<mapsto> LargeBlock 3], brk = 6, oom = [False, False, True, False, False, True]\<rparr>"

lemma wf_ex_pool_mem: "wf_heap ex_pool_mem"
  by (simp add: ex_pool_mem_def wf_heap_def load_def NULL_def)

lemma served_100: "n \<le> 64 \<or> 100 < n \<Longrightarrow> served 100 n"
  by (auto simp: served_def pool_max_def MAX_SIZE_def MIN_SIZE_def intro: exI [of _ 3])

lemma whole_served:
  assumes "m = MIN_SIZE * 2 ^ k \<or> MAX_SIZE \<le> m"
  shows "served m n"
proof -
  obtain i where i: "pool_max m = MIN_SIZE * 2 ^ i"
  proof (cases "MAX_SIZE \<le> m")
    case True
    then have "pool_max m = MIN_SIZE * 2 ^ 7" by (simp add: pool_max_def MAX_SIZE_def MIN_SIZE_def)
    then show ?thesis by (rule that)
  next
    case False
    then have "pool_max m = MIN_SIZE * 2 ^ k" using assms by (simp add: pool_max_def)
    then show ?thesis by (rule that)
  qed
  show ?thesis
  proof (cases "pool_max m < n")
    case False
    then have "n \<le> MIN_SIZE * 2 ^ i \<and> MIN_SIZE * 2 ^ i \<le> pool_max m" using i by simp
    then show ?thesis unfolding served_def by blast
  qed (simp add: served_def)
qed

theorem mempool_serves_clients_witness:
  "\<exists>s h1 ps t u h2. pool_create 100 2 ex_pool_mem = Some (s, h1) \<and>
    alloc_run pool_new pool_free [Get 6, Get 64, Get 2000, Put 1, Get 3, Put 7, Get 101] [] (s, h1) = Some (ps, t) \<and>
    distinct (map fst ps) \<and> (\<forall>(p, n) \<in> set ps. p \<noteq> NULL \<and> load p ex_pool_mem = None \<and> (\<exists>c \<ge> n. room p (snd t) = Some c)) \<and>
    release_all pool_free (map fst ps) t = Some u \<and> pool_delete (fst u) (snd u) = Some (True, h2) \<and> (\<forall>q. load q h2 = load q ex_pool_mem)"
proof (rule mempool_serves_clients [OF wf_ex_pool_mem])
  have "n \<le> 64 \<or> 100 < n" if "Get n \<in> set [Get 6, Get 64, Get 2000, Put 1, Get 3, Put 7, Get 101]" for n
    using that by (simp only: list.set insert_iff empty_iff request.inject request.distinct simp_thms) (elim disjE; simp)
  then show "\<forall>n. Get n \<in> set [Get 6, Get 64, Get 2000, Put 1, Get 3, Put 7, Get 101] \<longrightarrow> served 100 n"
    using served_100 by blast
qed

text \<open>C23: New and Delete keep the pool well formed: the blocks of each chunk, idle or handed out, carry the size of the
  chunk and the chunk in their header, their number is the block count of the chunk, and nothing else on the heap is touched.\<close>

theorem mempool_well_formed:
  assumes "pool_state s h F A base"
  shows "(\<exists>p s' h' F'. New n s h = Some (p, s', h') \<and>
      (p = NULL \<and> pool_state s' h' F' A base \<or> p \<noteq> NULL \<and> A p = None \<and> (\<exists>c \<ge> n. pool_state s' h' F' (A(p \<mapsto> c)) base))) \<and>
    (\<forall>p. A p \<noteq> None \<longrightarrow> (\<exists>s' h' F'. Delete p s h = Some (s', h') \<and> pool_state s' h' F' (A(p := None)) base))"
proof -
  note D = pool_stateD [OF assms]
  obtain p s' h' F' where n: "New n s h = Some (p, s', h')" "same_shape s s'"
    "p = NULL \<and> mem_inv s' h' F' A base \<or> p \<noteq> NULL \<and> A p = None \<and> (\<exists>c \<ge> n. mem_inv s' h' F' (A(p \<mapsto> c)) base)"
    using New_ok [OF D(2) sized_provided [OF D(1)], of n] by (elim exE conjE) (rule that)
  have "\<exists>s' h' F'. Delete p s h = Some (s', h') \<and> pool_state s' h' F' (A(p := None)) base" if A: "A p \<noteq> None" for p
  proof -
    obtain s2 h2 F2 where d: "Delete p s h = Some (s2, h2)" "same_shape s s2" "mem_inv s2 h2 F2 (A(p := None)) base"
      using Delete_ok [OF D(2) A] by blast
    then have "pool_state s2 h2 F2 (A(p := None)) base" using sized_shape [OF D(1) d(2)] by (simp add: pool_state_def)
    with d(1) show ?thesis by blast
  qed
  then have d: "\<forall>p. A p \<noteq> None \<longrightarrow> (\<exists>s' h' F'. Delete p s h = Some (s', h') \<and> pool_state s' h' F' (A(p := None)) base)" by blast
  have "pool_state s' h' F' B base = mem_inv s' h' F' B base" for B
    using sized_shape [OF D(1) n(2)] by (simp add: pool_state_def)
  then have "p = NULL \<and> pool_state s' h' F' A base \<or> p \<noteq> NULL \<and> A p = None \<and> (\<exists>c \<ge> n. pool_state s' h' F' (A(p \<mapsto> c)) base)"
    using n(3) by simp
  with n(1) have "\<exists>p s' h' F'. New n s h = Some (p, s', h') \<and>
      (p = NULL \<and> pool_state s' h' F' A base \<or> p \<noteq> NULL \<and> A p = None \<and> (\<exists>c \<ge> n. pool_state s' h' F' (A(p \<mapsto> c)) base))"
    by (intro exI conjI)
  from this d show ?thesis by (rule conjI)
qed

text \<open>A pool with one chunk of size 8: an idle block, one handed out, and a large one.\<close>

definition ex_pool :: memory_pool where
  "ex_pool = \<lparr>m_pChunkList = [\<lparr>m_pFreeBlock = 6, m_nSize = 8, m_iBlockCount = 2\<rparr>], m_iChunkCount = 1, m_nMaxSize = 8, m_iChunkBlockNum = 2\<rparr>"

definition ex_pool_heap :: pool_mem where
  "ex_pool_heap = \<lparr>cells = [5 \<mapsto> LargeBlock 3, 6 \<mapsto> Block 0 8 (PNext 0), 7 \<mapsto> Block 0 8 Data, 8 \<mapsto> LargeBlock 100], brk = 9, oom = []\<rparr>"

definition ex_pool_idle :: "nat \<Rightarrow> addr list" where
  "ex_pool_idle i = [6]"

definition ex_pool_held :: "addr \<rightharpoonup> nat" where
  "ex_pool_held = [7 \<mapsto> 8, 8 \<mapsto> 100]"

lemma ex_pool_state: "pool_state ex_pool ex_pool_heap ex_pool_idle ex_pool_held [5 \<mapsto> LargeBlock 3]"
proof -
  have l: "load q ex_pool_heap = (if q = 5 then Some (LargeBlock 3) else if q = 6 then Some (Block 0 8 (PNext 0)) else
      if q = 7 then Some (Block 0 8 Data) else if q = 8 then Some (LargeBlock 100) else None)" for q
    by (simp add: ex_pool_heap_def load_def NULL_def)
  have "{p \<in> dom ex_pool_held. of_chunk ex_pool_heap 0 p} = {7 :: nat}" by (auto simp: ex_pool_held_def of_chunk_def l split: if_splits)
  then have "card {p \<in> dom ex_pool_held. of_chunk ex_pool_heap 0 p} = 1" by (metis card_1_singleton_iff One_nat_def)
  then have "chunks_ok (m_pChunkList ex_pool) ex_pool_heap ex_pool_idle ex_pool_held"
    unfolding chunks_ok_def chunk_ok_def by (simp add: ex_pool_def ex_pool_held_def ex_pool_idle_def MIN_SIZE_def l NULL_def)
  moreover have wf: "wf_heap ex_pool_heap" unfolding wf_heap_def l by (simp add: ex_pool_heap_def NULL_def)
  moreover have "sized ex_pool" "fits ex_pool" by (simp_all add: sized_def fits_def ex_pool_def MIN_SIZE_def)
  moreover have "owned (length (m_pChunkList ex_pool)) ex_pool_idle ex_pool_held = {6, 7, 8}"
    by (auto simp: owned_def ex_pool_held_def ex_pool_def ex_pool_idle_def lessThan_Suc split: if_splits)
  then have "frame ex_pool_heap (owned (length (m_pChunkList ex_pool)) ex_pool_idle ex_pool_held) [5 \<mapsto> LargeBlock 3]"
    unfolding frame_def by (simp add: wf) (simp add: l)
  moreover have "held ex_pool_heap ex_pool p n" if "ex_pool_held p = Some n" for p n
    using that by (auto simp: held_def ex_pool_held_def l ex_pool_def MIN_SIZE_def split: if_splits)
  moreover have "finite (dom ex_pool_held)" by (simp add: ex_pool_held_def)
  ultimately show ?thesis by (simp add: pool_state_def mem_inv_def)
qed

theorem mempool_well_formed_witness:
  "(\<exists>p s' h' F'. New 3 ex_pool ex_pool_heap = Some (p, s', h') \<and>
      (p = NULL \<and> pool_state s' h' F' ex_pool_held [5 \<mapsto> LargeBlock 3] \<or> p \<noteq> NULL \<and> ex_pool_held p = None \<and>
        (\<exists>c \<ge> 3. pool_state s' h' F' (ex_pool_held(p \<mapsto> c)) [5 \<mapsto> LargeBlock 3]))) \<and>
    (\<exists>s' h' F'. Delete 7 ex_pool ex_pool_heap = Some (s', h') \<and> pool_state s' h' F' (ex_pool_held(7 := None)) [5 \<mapsto> LargeBlock 3]) \<and>
    (\<exists>s' h' F'. Delete 8 ex_pool ex_pool_heap = Some (s', h') \<and> pool_state s' h' F' (ex_pool_held(8 := None)) [5 \<mapsto> LargeBlock 3])"
proof -
  have "ex_pool_held 7 \<noteq> None" "ex_pool_held 8 \<noteq> None" by (simp_all add: ex_pool_held_def)
  then show ?thesis using mempool_well_formed [OF ex_pool_state, of 3] by blast
qed

text \<open>The assertion of the destructor holds exactly when no block of a chunk is in the hands of the client, and then
  what is left of the pool is what the client still holds, the blocks that were too large for a chunk.\<close>

theorem mempool_destructor_checks:
  assumes "pool_state s h F A base"
  shows "\<exists>h'. pool_delete s h = Some (\<forall>p \<in> dom A. \<forall>i < length (m_pChunkList s). \<not> of_chunk h i p, h') \<and>
    ((\<forall>p \<in> dom A. \<forall>i < length (m_pChunkList s). \<not> of_chunk h i p) \<longrightarrow> (\<forall>q. load q h' = (if q \<in> dom A then load q h else base q)))"
  by (rule pool_delete_ok [OF pool_stateD(2) [OF assms]])

theorem mempool_destructor_checks_witness: "\<exists>h'. pool_delete ex_pool ex_pool_heap = Some (False, h')"
proof -
  have "7 \<in> dom ex_pool_held" "0 < length (m_pChunkList ex_pool)" "of_chunk ex_pool_heap 0 7"
    by (simp_all add: ex_pool_held_def ex_pool_def of_chunk_def ex_pool_heap_def load_def NULL_def)
  then have "\<not> (\<forall>p \<in> dom ex_pool_held. \<forall>i < length (m_pChunkList ex_pool). \<not> of_chunk ex_pool_heap i p)" by blast
  then show ?thesis using mempool_destructor_checks [OF ex_pool_state] by (auto simp only: simp_thms)
qed

text \<open>A chunk is a stack: after Delete the next request of the same chunk gets the pointer that was given back,
  without an allocation.\<close>

theorem mempool_reuses_last:
  assumes S: "pool_state s h F A base" and A: "A p = Some (MIN_SIZE * 2 ^ i)" and i: "MIN_SIZE * 2 ^ i \<le> m_nMaxSize s"
    and n: "n \<le> MIN_SIZE * 2 ^ i" "\<forall>l < i. MIN_SIZE * 2 ^ l < n"
  shows "\<exists>s' h' s''. Delete p s h = Some (s', h') \<and> New n s' h' = Some (p, s'', h') \<and> brk h' = brk h \<and> oom h' = oom h"
proof -
  note D = mem_invD [OF pool_stateD(2) [OF S]]
  have eq: "MIN_SIZE * 2 ^ i = MIN_SIZE * 2 ^ j \<Longrightarrow> i = j" for j by (simp add: MIN_SIZE_def)
  obtain d where d: "i < length (m_pChunkList s)" "load p h = Some (Block i (MIN_SIZE * 2 ^ i) d)"
    using D(4) [OF A] i eq unfolding held_def by fastforce
  obtain s' h' where r: "Delete p s h = Some (s', h')"
    "s' = s\<lparr>m_pChunkList := (m_pChunkList s)[i := (m_pChunkList s ! i)\<lparr>m_pFreeBlock := p\<rparr>]\<rparr>"
    "load p h' = Some (Block i (MIN_SIZE * 2 ^ i) (PNext (hd_or (F i) NULL)))" "brk h' = brk h" "oom h' = oom h"
    using Delete_block [OF pool_stateD(2) [OF S] A d(2,1) refl] by auto
  obtain k where k: "length (m_pChunkList s) = Suc k" "m_nMaxSize s = MIN_SIZE * 2 ^ k" using pool_stateD(1) [OF S] by (auto simp: sized_def)
  then have "find_chunk MIN_SIZE (m_nMaxSize s) n 0 = i" using find_chunk_exact [of 0 i k n] n d(1) by auto
  moreover have "p \<noteq> NULL" using d(2) by auto
  ultimately have "\<exists>s''. New n s' h' = Some (p, s'', h')"
    using r(2,3) i n(1) d(1) by (simp add: New_def chunk_malloc_def get_pnext_def)
  then show ?thesis using r(1,4,5) by blast
qed

theorem mempool_reuses_last_witness:
  "\<exists>s' h' s''. Delete 7 ex_pool ex_pool_heap = Some (s', h') \<and> New 5 s' h' = Some (7, s'', h') \<and> brk h' = brk ex_pool_heap \<and> oom h' = oom ex_pool_heap"
  by (rule mempool_reuses_last [OF ex_pool_state, of 7 0]) (simp_all add: MIN_SIZE_def ex_pool_def ex_pool_held_def)

text \<open>When the maximum is not one of the sizes 8, 16, 32, \<open>\<dots>\<close> of the chunks, a request between the largest chunk and the
  maximum finds no chunk, and New reads the list of chunks behind its end.\<close>

theorem mempool_gap_out_of_bounds:
  assumes "wf_heap h" and "m \<le> MAX_SIZE" and "n \<le> m" and "\<forall>j. MIN_SIZE * 2 ^ j \<le> m \<longrightarrow> MIN_SIZE * 2 ^ j < n"
  shows "\<exists>s h'. pool_create m num h = Some (s, h') \<and> m_iChunkCount s = length (m_pChunkList s) \<and> New n s h' = None"
proof -
  obtain cs h' where b: "build_chunks MIN_SIZE m num [] h = Some (cs, h')" "length cs = count_chunks MIN_SIZE m 0"
    using create_chunks [OF assms(1), of m num] by blast
  have "find_chunk MIN_SIZE m n 0 = length cs" using find_chunk_none [of MIN_SIZE m n 0] assms(4) b(2) by simp
  then show ?thesis using b assms(2,3) by (simp add: pool_create_def New_def)
qed

theorem mempool_gap_out_of_bounds_witness:
  "\<exists>s h'. pool_create 100 2 ex_pool_mem = Some (s, h') \<and> m_iChunkCount s = length (m_pChunkList s) \<and> New 70 s h' = None"
proof (rule mempool_gap_out_of_bounds [OF wf_ex_pool_mem])
  show "\<forall>j. MIN_SIZE * 2 ^ j \<le> 100 \<longrightarrow> MIN_SIZE * 2 ^ j < 70"
  proof (intro allI impI)
    fix j :: nat
    assume "MIN_SIZE * 2 ^ j \<le> 100"
    then have "j < 4" using power_increasing [of 4 j "2::nat"] by (cases "j < 4") (simp_all add: MIN_SIZE_def)
    then have "(2::nat) ^ j \<le> 2 ^ 3" by (intro power_increasing) simp_all
    then show "MIN_SIZE * 2 ^ j < 70" by (simp add: MIN_SIZE_def)
  qed
qed (simp_all add: MAX_SIZE_def)

end
