(* ===== verification/UartRecv.thy ===== *)
theory UartRecv
  imports Checksum
begin

text \<open>
  The receiver of the serial protocol: the thread \<open>RecvingThread\<close> of \<open>SerialPort.cpp\<close>, its check of a frame,
  and the callback of \<open>McuComm.cpp\<close>.  The port is the environment: each call of \<open>read\<close> that asks for
  \<open>n\<close> bytes returns at most \<open>n\<close> of them, or fails.  The buffers have their sizes, and a write behind their end
  is undefined.
\<close>

subsection \<open>Data\<close>

definition UART_FRAME_MAGIC_NUMBER :: "16 word" where
  "UART_FRAME_MAGIC_NUMBER = 0xAAAA"

definition MAGIC_HI :: byte where
  "MAGIC_HI = ucast (drop_bit 8 UART_FRAME_MAGIC_NUMBER)"

definition MAGIC_LO :: byte where
  "MAGIC_LO = ucast (UART_FRAME_MAGIC_NUMBER AND 0xFF)"

definition UART_FRAME_SIZE_BEFORE_WITH_LENGTH :: nat where
  "UART_FRAME_SIZE_BEFORE_WITH_LENGTH = 4"

definition UART_FRAME_SIZE_AFTER_LENGTH :: nat where
  "UART_FRAME_SIZE_AFTER_LENGTH = 16"

definition UART_FRAME_HEADER_SIZE :: nat where
  "UART_FRAME_HEADER_SIZE = UART_FRAME_SIZE_BEFORE_WITH_LENGTH + UART_FRAME_SIZE_AFTER_LENGTH"

definition UART_FRAME_DATA_MAX_SIZE :: nat where
  "UART_FRAME_DATA_MAX_SIZE = 324"

definition UART_FRAME_MAX_SIZE :: nat where
  "UART_FRAME_MAX_SIZE = UART_FRAME_DATA_MAX_SIZE + UART_FRAME_HEADER_SIZE"

definition COMM_BUFFER_MAX_LEN :: nat where
  "COMM_BUFFER_MAX_LEN = 2 * 1024"

datatype uart_recv_state =
  WAIT_MAGIC_NUMBER | WAIT_MAGIC_NUMBER_SECOND_BYTE | WAIT_LENGTH | WAIT_LENGTH_SECOND_BYTE | WAIT_REST_FRAME_AND_DATA

text \<open>The static variables of the callback, and the replies it records.\<close>

record mcu_comm =
  mcu_id :: "32 word"
  totalLost :: "16 word"
  totalFrame :: "32 word"
  g_bReplies :: "bool list"
  g_ReplyCodes :: "byte list"

text \<open>\<open>received\<close> records the frames that were handed to the callback.\<close>

record serial_port =
  r_state :: uart_recv_state
  len_temp :: nat
  recv_len :: nat
  r_last :: nat
  r_buf :: "byte list"
  errorBuff :: cbuf
  errorBuffOffset :: nat
  mcu :: mcu_comm
  received :: "byte list list"

definition mcu_init :: mcu_comm where
  "mcu_init = \<lparr>mcu_id = 0, totalLost = 0, totalFrame = 0, g_bReplies = replicate 256 False, g_ReplyCodes = replicate 256 0\<rparr>"

definition recv_init :: serial_port where
  "recv_init = \<lparr>r_state = WAIT_MAGIC_NUMBER, len_temp = 0, recv_len = 0, r_last = 0, r_buf = replicate COMM_BUFFER_MAX_LEN 0,
     errorBuff = uninit (COMM_BUFFER_MAX_LEN * 2), errorBuffOffset = 0, mcu = mcu_init, received = []\<rparr>"

subsection \<open>The frame in the buffer\<close>

definition get_u16 :: "byte list \<Rightarrow> nat \<Rightarrow> 16 word" where
  "get_u16 b i = ucast (b ! i) OR push_bit 8 (ucast (b ! (i + 1)))"

definition get_u32 :: "byte list \<Rightarrow> nat \<Rightarrow> 32 word" where
  "get_u32 b i = ucast (b ! i) OR push_bit 8 (ucast (b ! (i + 1))) OR push_bit 16 (ucast (b ! (i + 2))) OR push_bit 24 (ucast (b ! (i + 3)))"

definition f_magic :: "byte list \<Rightarrow> 16 word" where "f_magic b = get_u16 b 0"
definition f_length :: "byte list \<Rightarrow> 16 word" where "f_length b = get_u16 b 2"
definition f_id :: "byte list \<Rightarrow> 32 word" where "f_id b = get_u32 b 4"
definition f_command :: "byte list \<Rightarrow> byte" where "f_command b = b ! 8"
definition f_checksum :: "byte list \<Rightarrow> 16 word" where "f_checksum b = get_u16 b 18"
definition f_data0 :: "byte list \<Rightarrow> byte" where "f_data0 b = b ! 20"

text \<open>The frame with \<open>id\<close> and \<open>checksum\<close> set to 0.\<close>

definition cleared :: "byte list \<Rightarrow> byte list" where
  "cleared b = b[4 := 0, 5 := 0, 6 := 0, 7 := 0, 18 := 0, 19 := 0]"

definition CalcChecksum :: "byte list \<Rightarrow> 16 word \<Rightarrow> 16 word option" where
  "CalcChecksum dataptr len = do {
     (octetptr, len, acc) \<leftarrow> chksum_loop dataptr len 0;
     acc \<leftarrow> (if 0 < len then (case octetptr of hi # _ \<Rightarrow> Some (acc + ucast (push_bit 8 (ucast hi) :: 16 word)) | [] \<Rightarrow> None)
       else Some acc);
     let acc = fold16 acc;
     let acc = (if acc AND 0xFFFF0000 \<noteq> 0 then fold16 acc else acc);
     let src = (ucast acc :: 16 word);
     Some (NOT src) }"

subsection \<open>Printing bytes\<close>

text \<open>The text is built in 8192 characters; each \<open>snprintf\<close> writes the bytes that its size allows.\<close>

fun hex_string_loop :: "nat \<Rightarrow> nat \<Rightarrow> nat option" where
  "hex_string_loop 0 iBuffOffset = Some iBuffOffset"
| "hex_string_loop (Suc k) iBuffOffset =
     (if k = 0 then if iBuffOffset + 3 \<le> 4096 * 2 then hex_string_loop k (iBuffOffset + 2) else None
      else if iBuffOffset + 4 \<le> 4096 * 2 then hex_string_loop k (iBuffOffset + 3) else None)"

definition label_length :: "nat \<Rightarrow> nat option" where
  "label_length type = (if type = 0 then Some 4 else if type = 1 then Some 4 else if type = 2 then Some 7 else if type = 3 then Some 7 else None)"

definition PrintAsHexString :: "nat \<Rightarrow> nat \<Rightarrow> unit option" where
  "PrintAsHexString type len = do {
     l \<leftarrow> label_length type;
     let iStrLen = l + 3 + 29 + 7;
     iBuffOffset \<leftarrow> hex_string_loop len (iStrLen - 1);
     let iStrLen = 2 + 1 + 4;
     if iBuffOffset + iStrLen \<le> 4096 * 2 then Some () else None }"

subsection \<open>Handling a frame\<close>

definition CheckRecvData :: "byte list \<Rightarrow> int option" where
  "CheckRecvData b =
     (if f_magic b \<noteq> UART_FRAME_MAGIC_NUMBER then Some (- 1)
      else do {
        checksum \<leftarrow> CalcChecksum (cleared b) (f_length b + word_of_nat UART_FRAME_SIZE_BEFORE_WITH_LENGTH);
        if checksum \<noteq> f_checksum b then do {
          PrintAsHexString 3 (unat (f_length b) + UART_FRAME_SIZE_BEFORE_WITH_LENGTH);
          Some (- 1) }
        else Some 0 })"

definition RecvCallBack :: "byte list \<Rightarrow> mcu_comm \<Rightarrow> mcu_comm" where
  "RecvCallBack b m =
     (let m = m\<lparr>totalFrame := totalFrame m + 1\<rparr>;
          m = (if mcu_id m \<noteq> 0 \<and> mcu_id m + 1 \<noteq> f_id b
               then m\<lparr>totalLost := totalLost m + ucast (f_id b - mcu_id m - 1)\<rparr> else m);
          m = m\<lparr>mcu_id := f_id b\<rparr>;
          command = unat (f_command b)
      in m\<lparr>g_bReplies := (g_bReplies m)[command := True], g_ReplyCodes := (g_ReplyCodes m)[command := f_data0 b]\<rparr>)"

definition HandleRecvData :: "serial_port \<Rightarrow> (int \<times> serial_port) option" where
  "HandleRecvData s = do {
     r \<leftarrow> CheckRecvData (r_buf s);
     if r < 0 then Some (- 2, s)
     else Some (0, s\<lparr>mcu := RecvCallBack (r_buf s) (mcu s),
       received := received s @ [take (unat (f_length (r_buf s)) + UART_FRAME_SIZE_BEFORE_WITH_LENGTH) (r_buf s)]\<rparr>) }"

subsection \<open>The thread\<close>

datatype read_result = Got "byte list" | Read_Failed

definition iReadLen :: "read_result \<Rightarrow> int" where
  "iReadLen r = (case r of Got bs \<Rightarrow> int (length bs) | Read_Failed \<Rightarrow> - 1)"

text \<open>The bytes that \<open>read\<close> puts into the buffer.\<close>

definition put_read :: "nat \<Rightarrow> read_result \<Rightarrow> serial_port \<Rightarrow> serial_port option" where
  "put_read i r s = (case r of
     Got bs \<Rightarrow> if i + length bs \<le> length (r_buf s) then Some (s\<lparr>r_buf := take i (r_buf s) @ bs @ drop (i + length bs) (r_buf s)\<rparr>) else None
   | Read_Failed \<Rightarrow> Some s)"

text \<open>\<open>memcpy(errorBuff + errorBuffOffset, buf, iReadLen)\<close>; a length of -1 is the largest \<open>size_t\<close>.\<close>

definition log_error :: "int \<Rightarrow> serial_port \<Rightarrow> serial_port option" where
  "log_error n s =
     (if n < 0 then None
      else do {
        b \<leftarrow> pokes (errorBuff s) (errorBuffOffset s) (take (nat n) (r_buf s));
        Some (s\<lparr>errorBuff := b, errorBuffOffset := errorBuffOffset s + nat n\<rparr>) })"

definition recv_magic :: "read_result \<Rightarrow> serial_port \<Rightarrow> serial_port option" where
  "recv_magic r s = do {
     s \<leftarrow> put_read 0 r s;
     if iReadLen r = 1 \<and> r_buf s ! 0 = MAGIC_HI then Some (s\<lparr>r_state := WAIT_MAGIC_NUMBER_SECOND_BYTE, recv_len := recv_len s + 1\<rparr>)
     else if iReadLen r = 2 then
       if r_buf s ! 1 = MAGIC_LO then
         if r_buf s ! 0 = MAGIC_HI then Some (s\<lparr>r_state := WAIT_LENGTH, recv_len := recv_len s + 2\<rparr>)
         else Some (s\<lparr>r_state := WAIT_MAGIC_NUMBER_SECOND_BYTE, r_buf := (r_buf s)[0 := r_buf s ! 1], recv_len := recv_len s + 1\<rparr>)
       else log_error (iReadLen r) s
     else log_error (iReadLen r) s }"

definition recv_magic_second :: "read_result \<Rightarrow> serial_port \<Rightarrow> serial_port option" where
  "recv_magic_second r s = do {
     s \<leftarrow> put_read (recv_len s) r s;
     if iReadLen r = 1 \<and> r_buf s ! recv_len s = MAGIC_LO then Some (s\<lparr>r_state := WAIT_LENGTH, recv_len := recv_len s + 1\<rparr>)
     else log_error (iReadLen r) (s\<lparr>recv_len := 0, r_state := WAIT_MAGIC_NUMBER\<rparr>) }"

definition check_length :: "read_result \<Rightarrow> serial_port \<Rightarrow> serial_port option" where
  "check_length r s =
     (if UART_FRAME_MAX_SIZE < len_temp s then log_error (iReadLen r) (s\<lparr>recv_len := 0, r_state := WAIT_MAGIC_NUMBER\<rparr>)
      else Some s)"

definition recv_length :: "read_result \<Rightarrow> serial_port \<Rightarrow> serial_port option" where
  "recv_length r s = do {
     s \<leftarrow> put_read (recv_len s) r s;
     if iReadLen r = 1 then
       Some (s\<lparr>r_state := WAIT_LENGTH_SECOND_BYTE, len_temp := unat (r_buf s ! recv_len s), recv_len := recv_len s + 1\<rparr>)
     else if iReadLen r = 2 then
       check_length r (s\<lparr>r_state := WAIT_REST_FRAME_AND_DATA,
         len_temp := unat (r_buf s ! (recv_len s + 1)) * 256 + unat (r_buf s ! recv_len s), recv_len := recv_len s + 2\<rparr>)
     else Some s }"

definition recv_length_second :: "read_result \<Rightarrow> serial_port \<Rightarrow> serial_port option" where
  "recv_length_second r s = do {
     s \<leftarrow> put_read (recv_len s) r s;
     if iReadLen r = 1 then
       check_length r (s\<lparr>r_state := WAIT_REST_FRAME_AND_DATA,
         len_temp := len_temp s + unat (r_buf s ! recv_len s) * 256, recv_len := recv_len s + 1\<rparr>)
     else Some s }"

definition recv_rest :: "read_result \<Rightarrow> serial_port \<Rightarrow> serial_port option" where
  "recv_rest r s = do {
     s \<leftarrow> put_read (recv_len s + r_last s) r s;
     if iReadLen r < int (len_temp s) - int (r_last s) \<and> 0 < iReadLen r then Some (s\<lparr>r_last := r_last s + nat (iReadLen r)\<rparr>)
     else do {
       s \<leftarrow> (if 0 < errorBuffOffset s then do {
         PrintAsHexString 3 (errorBuffOffset s);
         Some (s\<lparr>errorBuffOffset := 0\<rparr>) } else Some s);
       let s = s\<lparr>recv_len := recv_len s + len_temp s, r_last := 0, r_state := WAIT_MAGIC_NUMBER\<rparr>;
       (r, s) \<leftarrow> HandleRecvData s;
       Some (s\<lparr>recv_len := 0\<rparr>) } }"

definition request_size :: "serial_port \<Rightarrow> nat" where
  "request_size s = (case r_state s of WAIT_MAGIC_NUMBER \<Rightarrow> 2 | WAIT_MAGIC_NUMBER_SECOND_BYTE \<Rightarrow> 1 | WAIT_LENGTH \<Rightarrow> 2 |
     WAIT_LENGTH_SECOND_BYTE \<Rightarrow> 1 | WAIT_REST_FRAME_AND_DATA \<Rightarrow> len_temp s - r_last s)"

definition recv_step :: "read_result \<Rightarrow> serial_port \<Rightarrow> serial_port option" where
  "recv_step r s = (case r_state s of WAIT_MAGIC_NUMBER \<Rightarrow> recv_magic r s | WAIT_MAGIC_NUMBER_SECOND_BYTE \<Rightarrow> recv_magic_second r s |
     WAIT_LENGTH \<Rightarrow> recv_length r s | WAIT_LENGTH_SECOND_BYTE \<Rightarrow> recv_length_second r s | WAIT_REST_FRAME_AND_DATA \<Rightarrow> recv_rest r s)"

text \<open>
  The thread on a stream of bytes.  The \<open>i\<close>-th call of \<open>read\<close> finds \<open>ks ! i\<close> bytes waiting and returns as many as it
  asked for or as there are; it blocks when the stream has ended.
\<close>

fun recv_run :: "nat list \<Rightarrow> byte list \<Rightarrow> serial_port \<Rightarrow> (serial_port \<times> byte list) option" where
  "recv_run [] bs s = Some (s, bs)"
| "recv_run (k # ks) bs s =
     (if bs = [] then Some (s, [])
      else (let n = min k (request_size s) in do {
        s \<leftarrow> recv_step (Got (take n bs)) s;
        recv_run ks (drop n bs) s }))"

end
