(* ===== verification/UartRecvOk.thy ===== *)
theory UartRecvOk
  imports UartRecv
begin

text \<open>The receiver on a stream of frames: however the reads cut the stream, it is in step with it.\<close>

subsection \<open>Fields and checksum of a frame\<close>

lemma magic_simps [simp]: "MAGIC_HI = 0xAA" "MAGIC_LO = 0xAA"
  by (simp_all add: MAGIC_HI_def MAGIC_LO_def UART_FRAME_MAGIC_NUMBER_def)

lemma CalcChecksum_eq: "CalcChecksum = chksum"
  by (simp add: CalcChecksum_def chksum_def fun_eq_iff)

text \<open>Octets behind the length do not matter.\<close>

lemma chksum_loop_prefix:
  "unat len \<le> length xs \<Longrightarrow> \<exists>o' l a. chksum_loop xs len acc = Some (o', l, a) \<and> chksum_loop (xs @ ys) len acc = Some (o' @ ys, l, a) \<and>
     unat l \<le> length o'"
proof (induction xs arbitrary: len acc rule: group_sum.induct)
  case (1 a b xs)
  show ?case
  proof (cases "1 < len")
    case True
    then have l: "unat (len - 2) = unat len - 2" by (simp add: unat_sub_if_size word_le_nat_alt word_less_nat_alt)
    have "unat (len - 2) \<le> length xs" using "1.prems" unfolding l by simp
    from "1.IH" [OF this, of "acc + ucast (push_bit 8 (ucast a) OR ucast b :: 16 word)"] True show ?thesis
      by (subst (1 2) chksum_loop.simps) (simp add: Let_def)
  next
    case False
    then show ?thesis using "1.prems" by (subst (1 2) chksum_loop.simps) simp
  qed
next
  case (2 a)
  then have "\<not> 1 < len" by (simp add: word_less_nat_alt)
  then show ?case using 2 by (subst (1 2) chksum_loop.simps) simp
next
  case 3
  then have "\<not> 1 < len" by (simp add: word_less_nat_alt)
  then show ?case using 3 by (subst (1 2) chksum_loop.simps) simp
qed

lemma CalcChecksum_prefix:
  assumes "unat len \<le> length xs"
  shows "CalcChecksum (xs @ ys) len = CalcChecksum xs len"
proof -
  obtain o' l a where c: "chksum_loop xs len 0 = Some (o', l, a)" "chksum_loop (xs @ ys) len 0 = Some (o' @ ys, l, a)" "unat l \<le> length o'"
    using chksum_loop_prefix [OF assms, of 0 ys] by blast
  have "o' = [] \<Longrightarrow> \<not> 0 < l" using c(3) by (simp add: word_less_nat_alt)
  then show ?thesis using c(1,2) by (cases o') (simp_all add: CalcChecksum_def)
qed

lemma get_u16_unat: "unat (get_u16 b i) = unat (b ! i) + 256 * unat (b ! (i + 1))"
proof -
  have "get_u16 b i = push_bit 8 (ucast (b ! (i + 1))) OR ucast (b ! i)" by (simp add: get_u16_def or.commute)
  then show ?thesis using src_unat [of "b ! (i + 1)" "b ! i"] by simp
qed

definition valid_frame :: "byte list \<Rightarrow> bool" where
  "valid_frame f \<longleftrightarrow> UART_FRAME_HEADER_SIZE \<le> length f \<and> unat (f_length f) + UART_FRAME_SIZE_BEFORE_WITH_LENGTH = length f \<and>
     unat (f_length f) \<le> UART_FRAME_MAX_SIZE \<and> f ! 0 = MAGIC_HI \<and> f ! 1 = MAGIC_LO \<and>
     CalcChecksum (cleared f) (word_of_nat (length f)) = Some (f_checksum f)"

lemma valid_frameD:
  assumes "valid_frame f"
  shows "20 \<le> length f" "length f \<le> 348" "unat (f_length f) + 4 = length f" "f ! 0 = 0xAA" "f ! 1 = 0xAA"
    and "unat (f ! 3) * 256 + unat (f ! 2) = length f - 4"
  using assms get_u16_unat [of f 2]
  by (auto simp: valid_frame_def UART_FRAME_HEADER_SIZE_def UART_FRAME_SIZE_BEFORE_WITH_LENGTH_def UART_FRAME_SIZE_AFTER_LENGTH_def
      UART_FRAME_MAX_SIZE_def UART_FRAME_DATA_MAX_SIZE_def f_length_def numeral_3_eq_3)

lemma get_prefix: "i + 1 < length f \<Longrightarrow> get_u16 (f @ r) i = get_u16 f i" "i + 3 < length f \<Longrightarrow> get_u32 (f @ r) i = get_u32 f i"
  by (simp_all add: get_u16_def get_u32_def nth_append)

text \<open>A frame at the start of the buffer is accepted.\<close>

lemma CheckRecvData_valid:
  assumes "valid_frame f"
  shows "CheckRecvData (f @ r) = Some 0"
proof -
  note V = valid_frameD [OF assms]
  have "f_magic (f @ r) = UART_FRAME_MAGIC_NUMBER"
    using V(1,4,5) by (simp add: f_magic_def get_prefix) (simp add: get_u16_def UART_FRAME_MAGIC_NUMBER_def)
  moreover have "f_length (f @ r) = f_length f" "f_checksum (f @ r) = f_checksum f"
    using V(1) by (simp_all add: f_length_def f_checksum_def get_prefix)
  moreover have "cleared (f @ r) = cleared f @ r" using V(1) by (simp add: cleared_def list_update_append1)
  moreover have "f_length f + word_of_nat UART_FRAME_SIZE_BEFORE_WITH_LENGTH = word_of_nat (length f)"
    unfolding V(3) [symmetric] by (simp add: UART_FRAME_SIZE_BEFORE_WITH_LENGTH_def)
  moreover have "length (cleared f) = length f" by (simp add: cleared_def)
  moreover have "unat (word_of_nat (length f) :: 16 word) = length f" using V(2) by (simp add: unsigned_of_nat take_bit_eq_mod)
  ultimately show ?thesis using assms CalcChecksum_prefix [of "word_of_nat (length f)" "cleared f" r]
    by (simp add: CheckRecvData_def valid_frame_def)
qed

subsection \<open>Printing fits\<close>

lemma hex_string_loop_ok: "i + 3 * k \<le> 8192 \<Longrightarrow> hex_string_loop k i = Some (if k = 0 then i else i + 3 * k - 1)"
  by (induction k arbitrary: i) auto

lemma hex_string_loop_None: "0 < k \<Longrightarrow> 8192 < i + 3 * k \<Longrightarrow> hex_string_loop k i = None"
  by (induction k arbitrary: i) auto

lemma PrintAsHexString_fits: "len \<le> 2713 \<Longrightarrow> PrintAsHexString 3 len = Some ()"
  by (simp add: PrintAsHexString_def label_length_def hex_string_loop_ok)

lemma PrintAsHexString_overflows: "2713 < len \<Longrightarrow> PrintAsHexString 3 len = None"
proof -
  assume l: "2713 < len"
  show ?thesis
  proof (cases "8192 < 45 + 3 * len")
    case True
    then show ?thesis using l hex_string_loop_None [of len 45] by (simp add: PrintAsHexString_def label_length_def)
  next
    case False
    then show ?thesis using l by (simp add: PrintAsHexString_def label_length_def hex_string_loop_ok)
  qed
qed

subsection \<open>In the middle of a frame\<close>

text \<open>\<open>i\<close> bytes of the frame \<open>f\<close> are in the buffer.\<close>

definition receiving :: "byte list \<Rightarrow> nat \<Rightarrow> serial_port \<Rightarrow> bool" where
  "receiving f i s \<longleftrightarrow> take i (r_buf s) = take i f \<and>
     (if i = 0 then r_state s = WAIT_MAGIC_NUMBER \<and> recv_len s = 0 \<and> r_last s = 0
      else if i = 1 then r_state s = WAIT_MAGIC_NUMBER_SECOND_BYTE \<and> recv_len s = 1 \<and> r_last s = 0
      else if i = 2 then r_state s = WAIT_LENGTH \<and> recv_len s = 2 \<and> r_last s = 0
      else if i = 3 then r_state s = WAIT_LENGTH_SECOND_BYTE \<and> recv_len s = 3 \<and> r_last s = 0 \<and> len_temp s = unat (f ! 2)
      else r_state s = WAIT_REST_FRAME_AND_DATA \<and> recv_len s = 4 \<and> r_last s = i - 4 \<and> len_temp s = length f - 4)"

definition ready :: "serial_port \<Rightarrow> bool" where
  "ready s \<longleftrightarrow> r_state s = WAIT_MAGIC_NUMBER \<and> recv_len s = 0 \<and> r_last s = 0"

definition buffers_ok :: "serial_port \<Rightarrow> bool" where
  "buffers_ok s \<longleftrightarrow> length (r_buf s) = 2048 \<and> length (errorBuff s) = 4096"

lemma receiving_0: "receiving f 0 s = ready s"
  by (simp add: receiving_def ready_def)

lemma put_read_ok:
  assumes "length (r_buf s) = 2048" and "i + length c \<le> 2048"
  shows "put_read i (Got c) s = Some (s\<lparr>r_buf := take i (r_buf s) @ c @ drop (i + length c) (r_buf s)\<rparr>)"
  using assms by (simp add: put_read_def)

text \<open>What the callback counts depends on the identification of the frame only.\<close>

definition counters :: "mcu_comm \<Rightarrow> 32 word \<times> 16 word \<times> 32 word" where
  "counters m = (mcu_id m, totalLost m, totalFrame m)"

fun count_frame :: "32 word \<Rightarrow> 32 word \<times> 16 word \<times> 32 word \<Rightarrow> 32 word \<times> 16 word \<times> 32 word" where
  "count_frame i (l, lost, n) = (i, if l \<noteq> 0 \<and> l + 1 \<noteq> i then lost + ucast (i - l - 1) else lost, n + 1)"

lemma counters_RecvCallBack: "counters (RecvCallBack b m) = count_frame (f_id b) (counters m)"
  by (simp add: RecvCallBack_def counters_def Let_def)

text \<open>The bytes of the frame that are in the buffer after the next read.\<close>

definition next_buf :: "byte list \<Rightarrow> nat \<Rightarrow> nat \<Rightarrow> serial_port \<Rightarrow> byte list" where
  "next_buf f i n s = take i (r_buf s) @ take n (drop i f) @ drop (i + n) (r_buf s)"

lemma next_buf_ok:
  assumes "length (r_buf s) = 2048" and "take i (r_buf s) = take i f" and "i + n \<le> length f" and "length f \<le> 348"
  shows "put_read i (Got (take n (drop i f))) s = Some (s\<lparr>r_buf := next_buf f i n s\<rparr>)" and "length (next_buf f i n s) = 2048"
    and "next_buf f i n s = take (i + n) f @ drop (i + n) (r_buf s)" and "j < i + n \<Longrightarrow> next_buf f i n s ! j = f ! j"
proof -
  have l: "length (take n (drop i f)) = n" using assms(3) by simp
  show "put_read i (Got (take n (drop i f))) s = Some (s\<lparr>r_buf := next_buf f i n s\<rparr>)"
    using put_read_ok [OF assms(1), of i "take n (drop i f)"] assms(3,4) l by (simp add: next_buf_def)
  show e: "next_buf f i n s = take (i + n) f @ drop (i + n) (r_buf s)" using assms(2) by (simp add: next_buf_def take_add)
  show "length (next_buf f i n s) = 2048" unfolding e using assms(1,3,4) by simp
  show "j < i + n \<Longrightarrow> next_buf f i n s ! j = f ! j" unfolding e using assms(3) by (simp add: nth_append)
qed

text \<open>A frame that is complete is handed to the callback.\<close>

lemma frame_complete:
  assumes "valid_frame f" and "r_buf s = f @ r" and "errorBuffOffset s \<le> 2713"
  shows "\<exists>m. HandleRecvData s = Some (0, s\<lparr>mcu := m, received := received s @ [f]\<rparr>) \<and> counters m = count_frame (f_id f) (counters (mcu s))"
proof -
  note V = valid_frameD [OF assms(1)]
  have f: "f_length (f @ r) = f_length f" "f_id (f @ r) = f_id f" using V(1) by (simp_all add: f_length_def f_id_def get_prefix)
  have "HandleRecvData s = Some (0, s\<lparr>mcu := RecvCallBack (f @ r) (mcu s), received := received s @ [f]\<rparr>)"
    using V(3) f(1) by (simp add: HandleRecvData_def assms(2) CheckRecvData_valid [OF assms(1)] UART_FRAME_SIZE_BEFORE_WITH_LENGTH_def)
  then show ?thesis using counters_RecvCallBack [of "f @ r" "mcu s"] f(2) by auto
qed

lemma receive_part:
  assumes V: "valid_frame f" and R: "receiving f i s" and B: "buffers_ok s"
    and n: "0 < n" "n \<le> request_size s" "i + n < length f"
  shows "\<exists>s'. recv_step (Got (take n (drop i f))) s = Some s' \<and> buffers_ok s' \<and>
    receiving f (i + n) s' \<and> received s' = received s \<and> mcu s' = mcu s \<and> errorBuffOffset s' = errorBuffOffset s"
proof -
  note F = valid_frameD [OF V]
  have t: "take i (r_buf s) = take i f" using R by (simp add: receiving_def)
  have b: "length (r_buf s) = 2048" "length (errorBuff s) = 4096" using B by (simp_all add: buffers_ok_def)
  have le: "i + n \<le> length f" using n(3) by simp
  note N = next_buf_ok [OF b(1) t le F(2)]
  have len: "iReadLen (Got (take n (drop i f))) = int n" using le by (simp add: iReadLen_def)
  have tk: "take (i + n) (next_buf f i n s) = take (i + n) f" unfolding N(3) using le by simp
  consider "i = 0" | "i = 1" | "i = 2" | "i = 3" | "4 \<le> i" by linarith
  then show ?thesis
  proof cases
    case 1
    then have r: "r_state s = WAIT_MAGIC_NUMBER" "recv_len s = 0" "r_last s = 0" using R by (simp_all add: receiving_def)
    then have "n = 1 \<or> n = 2" using n(1,2) by (auto simp: request_size_def)
    moreover have "next_buf f i n s ! 0 = 0xAA" using N(4) [of 0] n(1) F(4) by simp
    moreover have "n = 2 \<Longrightarrow> next_buf f i n s ! 1 = 0xAA" using N(4) [of 1] F(5) by simp
    moreover have "n = 2 \<Longrightarrow> take (Suc (Suc 0)) (next_buf f i n s) = take (Suc (Suc 0)) f" using tk 1 by (simp add: numeral_2_eq_2)
    ultimately show ?thesis using 1 r N(1,2) len F(1) b(2) tk
      by (auto simp: recv_step_def recv_magic_def receiving_def buffers_ok_def)
  next
    case 2
    then have r: "r_state s = WAIT_MAGIC_NUMBER_SECOND_BYTE" "recv_len s = 1" "r_last s = 0" using R by (simp_all add: receiving_def)
    then have "n = 1" using n(1,2) by (simp add: request_size_def)
    moreover have "next_buf f i n s ! 1 = 0xAA" using N(4) [of 1] n(1) F(5) 2 by simp
    ultimately show ?thesis using 2 r N(1,2) len F(1) b(2) tk
      by (auto simp: recv_step_def recv_magic_second_def receiving_def buffers_ok_def)
  next
    case 3
    then have r: "r_state s = WAIT_LENGTH" "recv_len s = 2" "r_last s = 0" using R by (simp_all add: receiving_def)
    then have "n = 1 \<or> n = 2" using n(1,2) by (auto simp: request_size_def)
    moreover have "next_buf f i n s ! 2 = f ! 2" using N(4) [of 2] n(1) 3 by simp
    moreover have "n = 2 \<Longrightarrow> next_buf f i n s ! 3 = f ! 3" using N(4) [of 3] 3 by simp
    moreover have "n = 1 \<Longrightarrow> take 3 (next_buf f i n s) = take 3 f" using tk 3 by (simp add: numeral_3_eq_3)
    ultimately show ?thesis using 3 r N(1,2) len F(1,2,6) b(2) tk
      by (auto simp: recv_step_def recv_length_def receiving_def buffers_ok_def check_length_def UART_FRAME_MAX_SIZE_def
          UART_FRAME_DATA_MAX_SIZE_def UART_FRAME_HEADER_SIZE_def UART_FRAME_SIZE_BEFORE_WITH_LENGTH_def UART_FRAME_SIZE_AFTER_LENGTH_def)
  next
    case 4
    then have r: "r_state s = WAIT_LENGTH_SECOND_BYTE" "recv_len s = 3" "r_last s = 0" "len_temp s = unat (f ! 2)"
      using R by (simp_all add: receiving_def)
    then have "n = 1" using n(1,2) by (simp add: request_size_def)
    moreover have "next_buf f i n s ! 3 = f ! 3" using N(4) [of 3] n(1) 4 by simp
    ultimately show ?thesis using 4 r N(1,2) len F(1,2,6) b(2) tk
      by (auto simp: recv_step_def recv_length_second_def receiving_def buffers_ok_def check_length_def UART_FRAME_MAX_SIZE_def
          UART_FRAME_DATA_MAX_SIZE_def UART_FRAME_HEADER_SIZE_def UART_FRAME_SIZE_BEFORE_WITH_LENGTH_def UART_FRAME_SIZE_AFTER_LENGTH_def)
  next
    case 5
    then have r: "r_state s = WAIT_REST_FRAME_AND_DATA" "recv_len s = 4" "r_last s = i - 4" "len_temp s = length f - 4"
      using R by (simp_all add: receiving_def)
    have p: "recv_len s + r_last s = i" using r 5 by simp
    have c: "int n < int (len_temp s) - int (r_last s) \<and> 0 < int n" using r n 5 by simp
    have "recv_step (Got (take n (drop i f))) s = Some (s\<lparr>r_buf := next_buf f i n s, r_last := i + n - 4\<rparr>)"
      using r(1) p N(1) len c r(3) 5 by (simp add: recv_step_def recv_rest_def)
    then show ?thesis using 5 r N(2) tk b(2) by (auto simp: receiving_def buffers_ok_def)
  qed
qed

text \<open>The last part of a frame.\<close>

lemma receive_last:
  assumes V: "valid_frame f" and R: "receiving f i s" and B: "buffers_ok s"
    and n: "0 < n" "n \<le> request_size s" "i + n = length f"
  shows "2713 < errorBuffOffset s \<Longrightarrow> recv_step (Got (take n (drop i f))) s = None"
    and "errorBuffOffset s \<le> 2713 \<Longrightarrow> \<exists>s'. recv_step (Got (take n (drop i f))) s = Some s' \<and> buffers_ok s' \<and> ready s' \<and>
      received s' = received s @ [f] \<and> counters (mcu s') = count_frame (f_id f) (counters (mcu s)) \<and> errorBuffOffset s' = 0 \<and>
      take (length f) (r_buf s') = f"
proof -
  note F = valid_frameD [OF V]
  have t: "take i (r_buf s) = take i f" using R by (simp add: receiving_def)
  have b: "length (r_buf s) = 2048" "length (errorBuff s) = 4096" using B by (simp_all add: buffers_ok_def)
  have le: "i + n \<le> length f" using n(3) by simp
  note N = next_buf_ok [OF b(1) t le F(2)]
  have len: "iReadLen (Got (take n (drop i f))) = int n" using le by (simp add: iReadLen_def)
  have i: "4 \<le> i" using R n F(1) by (auto simp: receiving_def request_size_def split: if_splits)
  then have r: "r_state s = WAIT_REST_FRAME_AND_DATA" "recv_len s = 4" "r_last s = i - 4" "len_temp s = length f - 4"
    using R by (auto simp: receiving_def)
  have p: "recv_len s + r_last s = i" using r i by simp
  have c: "int (len_temp s) - int (r_last s) = int n" using r i F(1) n(3) by simp
  show "recv_step (Got (take n (drop i f))) s = None" if e: "2713 < errorBuffOffset s"
    using r(1) p N(1) len c PrintAsHexString_overflows [OF e] e by (simp add: recv_step_def recv_rest_def)
  assume e: "errorBuffOffset s \<le> 2713"
  define s1 where "s1 = s\<lparr>r_buf := next_buf f i n s, errorBuffOffset := 0, recv_len := recv_len s + len_temp s, r_last := 0, r_state := WAIT_MAGIC_NUMBER\<rparr>"
  have bf: "r_buf s1 = f @ drop (length f) (r_buf s)" using N(3) n(3) by (simp add: s1_def)
  from frame_complete [OF V this] obtain m where m: "HandleRecvData s1 = Some (0, s1\<lparr>mcu := m, received := received s1 @ [f]\<rparr>)"
    "counters m = count_frame (f_id f) (counters (mcu s1))" by (auto simp: s1_def)
  have "recv_rest (Got (take n (drop i f))) s = do { (r, s) \<leftarrow> HandleRecvData s1; Some (s\<lparr>recv_len := 0\<rparr>) }"
  proof (cases "errorBuffOffset s = 0")
    case True
    then have "s1 = s\<lparr>r_buf := next_buf f i n s, recv_len := recv_len s + len_temp s, r_last := 0, r_state := WAIT_MAGIC_NUMBER\<rparr>"
      unfolding s1_def by (cases s) simp
    then show ?thesis using p N(1) len c True by (simp add: recv_rest_def)
  next
    case False
    then show ?thesis using p N(1) len c PrintAsHexString_fits [OF e] by (simp add: recv_rest_def s1_def)
  qed
  then have "recv_step (Got (take n (drop i f))) s = Some (s1\<lparr>mcu := m, received := received s1 @ [f], recv_len := 0\<rparr>)"
    using r(1) m(1) by (simp add: recv_step_def)
  moreover have "take (length f) (r_buf s1) = f" using bf by simp
  ultimately show "\<exists>s'. recv_step (Got (take n (drop i f))) s = Some s' \<and> buffers_ok s' \<and> ready s' \<and>
      received s' = received s @ [f] \<and> counters (mcu s') = count_frame (f_id f) (counters (mcu s)) \<and> errorBuffOffset s' = 0 \<and>
      take (length f) (r_buf s') = f"
    using m(2) N(2) b(2) by (auto simp: ready_def buffers_ok_def s1_def)
qed

text \<open>A read never goes beyond the frame.\<close>

lemma request_inside:
  assumes "valid_frame f" and "receiving f i s" and "i < length f" and "n \<le> request_size s"
  shows "i + n \<le> length f"
proof -
  note F = valid_frameD [OF assms(1)]
  consider "i < 4" | "4 \<le> i" by linarith
  then show ?thesis
  proof cases
    case 1
    then have "request_size s \<le> 2" using assms(2) by (auto simp: receiving_def request_size_def split: if_splits)
    then show ?thesis using assms(4) 1 F(1) by simp
  next
    case 2
    then have "request_size s = length f - 4 - (i - 4)" using assms(2) by (simp add: receiving_def request_size_def)
    then show ?thesis using assms(3,4) 2 by simp
  qed
qed

subsection \<open>Noise\<close>

text \<open>Bytes that do not look like the start of a frame are collected for the error message.\<close>

lemma noise_step:
  assumes "ready s" and "buffers_ok s" and "MAGIC_HI \<notin> set c" and "length c = 1 \<or> length c = 2"
    and "errorBuffOffset s + length c \<le> 4096"
  shows "\<exists>s'. recv_step (Got c) s = Some s' \<and> ready s' \<and> buffers_ok s' \<and> received s' = received s \<and> mcu s' = mcu s \<and>
    errorBuffOffset s' = errorBuffOffset s + length c"
proof -
  have b: "length (r_buf s) = 2048" "length (errorBuff s) = 4096" using assms(2) by (simp_all add: buffers_ok_def)
  have r: "r_state s = WAIT_MAGIC_NUMBER" "recv_len s = 0" "r_last s = 0" using assms(1) by (simp_all add: ready_def)
  define nb where "nb = c @ drop (length c) (r_buf s)"
  have p: "put_read 0 (Got c) s = Some (s\<lparr>r_buf := nb\<rparr>)" using put_read_ok [OF b(1), of 0 c] assms(4) by (auto simp: nb_def)
  have t: "take (length c) nb = c" by (simp add: nb_def)
  have neq: "nb ! 0 \<noteq> 0xAA" "length c = 2 \<Longrightarrow> nb ! 1 \<noteq> 0xAA"
    using assms(3,4) by (auto simp: nb_def nth_append in_set_conv_nth)
  define eb where "eb = take (errorBuffOffset s) (errorBuff s) @ map Some c @ drop (errorBuffOffset s + length c) (errorBuff s)"
  have "pokes (errorBuff s) (errorBuffOffset s) c = Some eb" using assms(5) b(2) by (simp add: pokes_Some eb_def)
  then have l: "log_error (int (length c)) (s\<lparr>r_buf := nb\<rparr>) = Some (s\<lparr>r_buf := nb, errorBuff := eb, errorBuffOffset := errorBuffOffset s + length c\<rparr>)"
    using t by (simp add: log_error_def)
  have "recv_step (Got c) s = Some (s\<lparr>r_buf := nb, errorBuff := eb, errorBuffOffset := errorBuffOffset s + length c\<rparr>)"
    using p r neq l assms(4) by (auto simp: recv_step_def recv_magic_def iReadLen_def)
  moreover have "length nb = 2048" "length eb = 4096" using b assms(4,5) by (auto simp: nb_def eb_def)
  ultimately show ?thesis using r by (simp add: ready_def buffers_ok_def)
qed

text \<open>The last byte of the noise and the first of a frame in one read.\<close>

lemma noise_frame_step:
  assumes "ready s" and "buffers_ok s" and "x \<noteq> MAGIC_HI" and V: "valid_frame f"
  shows "\<exists>s'. recv_step (Got [x, f ! 0]) s = Some s' \<and> receiving f 1 s' \<and> buffers_ok s' \<and> received s' = received s \<and> mcu s' = mcu s \<and>
    errorBuffOffset s' = errorBuffOffset s"
proof -
  note F = valid_frameD [OF V]
  have b: "length (r_buf s) = 2048" "length (errorBuff s) = 4096" using assms(2) by (simp_all add: buffers_ok_def)
  have r: "r_state s = WAIT_MAGIC_NUMBER" "recv_len s = 0" "r_last s = 0" using assms(1) by (simp_all add: ready_def)
  have p: "put_read 0 (Got [x, 0xAA]) s = Some (s\<lparr>r_buf := x # 0xAA # drop 2 (r_buf s)\<rparr>)"
    using put_read_ok [OF b(1), of 0 "[x, 0xAA]"] by (simp add: numeral_2_eq_2)
  have f: "take 1 f = [0xAA]" using F(1,4) by (cases f) auto
  have "recv_step (Got [x, f ! 0]) s = Some (s\<lparr>r_state := WAIT_MAGIC_NUMBER_SECOND_BYTE, r_buf := 0xAA # 0xAA # drop 2 (r_buf s), recv_len := 1\<rparr>)"
    using p r assms(3) F(4) by (simp add: recv_step_def recv_magic_def iReadLen_def)
  then show ?thesis using r b f by (simp add: receiving_def buffers_ok_def)
qed

subsection \<open>Streams\<close>

text \<open>The longest noise that can be printed, and the streams that carry the frames \<open>fs\<close>.\<close>

definition quiet :: "byte list \<Rightarrow> bool" where
  "quiet nz \<longleftrightarrow> MAGIC_HI \<notin> set nz \<and> length nz \<le> 2713"

inductive frame_stream :: "byte list list \<Rightarrow> byte list \<Rightarrow> bool" where
  stream_end: "quiet nz \<Longrightarrow> frame_stream [] nz"
| stream_frame: "quiet nz \<Longrightarrow> valid_frame f \<Longrightarrow> frame_stream fs rest \<Longrightarrow> frame_stream (f # fs) (nz @ f @ rest)"

text \<open>The thread has still to hand over \<open>fs\<close> when \<open>bs\<close> is what comes.\<close>

definition noise_ahead :: "nat \<Rightarrow> byte list \<Rightarrow> byte list list \<Rightarrow> bool" where
  "noise_ahead o' bs fs \<longleftrightarrow> (\<exists>nz r. bs = nz @ r \<and> MAGIC_HI \<notin> set nz \<and> o' + length nz \<le> 2713 \<and>
     (r = [] \<and> fs = [] \<or> (\<exists>f fs' rest. fs = f # fs' \<and> r = f @ rest \<and> valid_frame f \<and> frame_stream fs' rest)))"

definition sync :: "serial_port \<Rightarrow> byte list \<Rightarrow> byte list list \<Rightarrow> bool" where
  "sync s bs fs \<longleftrightarrow> buffers_ok s \<and> (ready s \<and> noise_ahead (errorBuffOffset s) bs fs \<or>
     (\<exists>i f fs' rest. fs = f # fs' \<and> receiving f i s \<and> 0 < i \<and> i < length f \<and> errorBuffOffset s \<le> 2713 \<and> bs = drop i f @ rest \<and>
        valid_frame f \<and> frame_stream fs' rest))"

lemma stream_ahead: "frame_stream fs bs \<Longrightarrow> noise_ahead 0 bs fs"
  by (induction rule: frame_stream.cases) (fastforce simp: noise_ahead_def quiet_def)+

text \<open>What has been handed over and what has been counted, with what is still to come.\<close>

definition all_frames :: "serial_port \<Rightarrow> byte list list \<Rightarrow> byte list list \<times> (32 word \<times> 16 word \<times> 32 word)" where
  "all_frames s fs = (received s @ fs, fold (\<lambda>f. count_frame (f_id f)) fs (counters (mcu s)))"

lemma sync_frame_step:
  assumes V: "valid_frame f" and R: "receiving f i s" and B: "buffers_ok s" and e: "errorBuffOffset s \<le> 2713" and i: "i < length f"
    and st: "frame_stream fs rest" and n: "0 < n" "n \<le> request_size s"
  shows "\<exists>s' fs'. recv_step (Got (take n (drop i f @ rest))) s = Some s' \<and> sync s' (drop n (drop i f @ rest)) fs' \<and>
    all_frames s' fs' = all_frames s (f # fs)"
proof -
  have le: "i + n \<le> length f" by (rule request_inside [OF V R i n(2)])
  have t: "take n (drop i f @ rest) = take n (drop i f)" "drop n (drop i f @ rest) = drop (i + n) f @ rest" using le by (simp_all add: add.commute)
  show ?thesis
  proof (cases "i + n < length f")
    case True
    from receive_part [OF V R B n True] obtain s' where s': "recv_step (Got (take n (drop i f))) s = Some s'" "buffers_ok s'"
      "receiving f (i + n) s'" "received s' = received s" "mcu s' = mcu s" "errorBuffOffset s' = errorBuffOffset s" by blast
    then have "sync s' (drop (i + n) f @ rest) (f # fs)" using e V st n(1) True unfolding sync_def by auto
    moreover have "all_frames s' (f # fs) = all_frames s (f # fs)" using s' by (simp add: all_frames_def)
    ultimately show ?thesis using s'(1) unfolding t by blast
  next
    case False
    then have d: "i + n = length f" using le by simp
    from receive_last(2) [OF V R B n d e] obtain s' where s': "recv_step (Got (take n (drop i f))) s = Some s'" "buffers_ok s'" "ready s'"
      "received s' = received s @ [f]" "counters (mcu s') = count_frame (f_id f) (counters (mcu s))" "errorBuffOffset s' = 0" by blast
    then have "sync s' (drop (i + n) f @ rest) fs" using d stream_ahead [OF st] by (simp add: sync_def)
    moreover have "all_frames s' fs = all_frames s (f # fs)" using s' by (simp add: all_frames_def)
    ultimately show ?thesis using s'(1) unfolding t by blast
  qed
qed

lemma split_first:
  assumes "1 < length f"
  shows "take 2 ([x] @ f @ rest) = [x, f ! 0]" and "drop 2 ([x] @ f @ rest) = drop 1 f @ rest"
  using assms by (cases f; simp add: numeral_2_eq_2)+

lemma sync_noise_step:
  assumes R: "ready s" and B: "buffers_ok s" and nz: "MAGIC_HI \<notin> set c" "length c = 1 \<or> length c = 2"
    and A: "noise_ahead (errorBuffOffset s + length c) bs fs"
  shows "\<exists>s'. recv_step (Got c) s = Some s' \<and> sync s' bs fs \<and> all_frames s' fs = all_frames s fs"
proof -
  have "errorBuffOffset s + length c \<le> 4096" using A by (auto simp: noise_ahead_def)
  from noise_step [OF R B nz this] A show ?thesis by (force simp: sync_def all_frames_def)
qed

lemma sync_step:
  assumes S: "sync s bs fs" and bs: "bs \<noteq> []" and n: "0 < n" "n \<le> request_size s"
  shows "\<exists>s' fs'. recv_step (Got (take n bs)) s = Some s' \<and> sync s' (drop n bs) fs' \<and> all_frames s' fs' = all_frames s fs"
proof -
  have B: "buffers_ok s" using S by (simp add: sync_def)
  from S consider (ready) "ready s" "noise_ahead (errorBuffOffset s) bs fs"
    | (frame) i f fs' rest where "fs = f # fs'" "receiving f i s" "0 < i" "i < length f" "errorBuffOffset s \<le> 2713" "bs = drop i f @ rest"
      "valid_frame f" "frame_stream fs' rest" unfolding sync_def by blast
  then show ?thesis
  proof cases
    case frame
    show ?thesis unfolding frame(1,6) by (rule sync_frame_step [OF frame(7,2) B frame(5,4,8) n])
  next
    case ready
    have n2: "n = 1 \<or> n = 2" using ready(1) n by (auto simp: ready_def request_size_def)
    from ready(2) obtain nz r where d: "bs = nz @ r" "MAGIC_HI \<notin> set nz" "errorBuffOffset s + length nz \<le> 2713"
      "r = [] \<and> fs = [] \<or> (\<exists>f fs' rest. fs = f # fs' \<and> r = f @ rest \<and> valid_frame f \<and> frame_stream fs' rest)"
      unfolding noise_ahead_def by blast
    have ahead: "noise_ahead (errorBuffOffset s + length c) (nz' @ r) fs" if "nz = c @ nz'" for c nz'
      unfolding noise_ahead_def using d that by (intro exI [of _ nz'] exI [of _ r]) auto
    show ?thesis
    proof (cases "nz = [] \<or> (length nz = 1 \<and> n = 2 \<and> r \<noteq> [])")
      case False
      define c where "c = take n nz"
      have nzc: "nz = c @ drop n nz" "MAGIC_HI \<notin> set c" using d(2) by (auto simp: c_def dest: in_set_takeD)
      have e: "take n bs = c \<and> drop n bs = drop n nz @ r"
      proof (cases "n \<le> length nz")
        case True
        then show ?thesis by (simp add: d(1) c_def)
      next
        case f: False
        have "0 < length nz" using False by simp
        then have "length nz = 1" "n = 2" using n2 f by linarith+
        then show ?thesis using False by (auto simp: d(1) c_def)
      qed
      have "0 < length nz" "length c = min (length nz) n" using False by (simp_all add: c_def)
      then have "length c = 1 \<or> length c = 2" using n2 by arith
      from sync_noise_step [OF ready(1) B nzc(2) this ahead [OF nzc(1)]] e show ?thesis by auto
    next
      case True
      then have "r \<noteq> []" using bs d(1) by auto
      with d(4) obtain f fs' rest where f: "fs = f # fs'" "r = f @ rest" "valid_frame f" "frame_stream fs' rest" by blast
      show ?thesis
      proof (cases "nz = []")
        case True
        have "0 < length f" using valid_frameD(1) [OF f(3)] by linarith
        moreover have "receiving f 0 s" using ready(1) by (simp add: receiving_0)
        ultimately show ?thesis using sync_frame_step [OF f(3) _ B _ _ f(4) n, of 0] d(3) True
          unfolding f(1) d(1) f(2) by simp
      next
        case False
        then obtain x where x: "nz = [x]" "n = 2" using \<open>nz = [] \<or> _\<close> by (cases nz) auto
        then have xm: "x \<noteq> MAGIC_HI" using d(2) by auto
        have fl: "1 < length f" using valid_frameD(1) [OF f(3)] by linarith
        have e: "take n bs = [x, f ! 0]" "drop n bs = drop 1 f @ rest"
          unfolding d(1) f(2) x by (rule split_first [OF fl])+
        from noise_frame_step [OF ready(1) B xm f(3)] obtain s' where s': "recv_step (Got [x, f ! 0]) s = Some s'" "receiving f 1 s'"
          "buffers_ok s'" "received s' = received s" "mcu s' = mcu s" "errorBuffOffset s' = errorBuffOffset s" by blast
        have "sync s' (drop 1 f @ rest) fs" unfolding sync_def f(1) using s' f fl d(3) x(1) by fastforce
        moreover have "all_frames s' fs = all_frames s fs" using s' by (simp add: all_frames_def)
        ultimately show ?thesis using s'(1) unfolding e by blast
      qed
    qed
  qed
qed

lemma sync_request: "sync s bs fs \<Longrightarrow> 0 < request_size s"
  by (auto simp: sync_def ready_def receiving_def request_size_def split: if_splits)

lemma sync_end: "sync s [] fs \<Longrightarrow> fs = [] \<and> ready s"
  by (auto simp: sync_def noise_ahead_def) (use valid_frameD(1) in fastforce)+

lemma recv_run_ok:
  "sync s bs fs \<Longrightarrow> \<forall>k \<in> set ks. 0 < k \<Longrightarrow> length bs \<le> length ks \<Longrightarrow>
   \<exists>s'. recv_run ks bs s = Some (s', []) \<and> ready s' \<and> all_frames s' [] = all_frames s fs"
proof (induction ks arbitrary: s bs fs)
  case Nil
  then show ?case using sync_end by auto
next
  case (Cons k ks)
  show ?case
  proof (cases "bs = []")
    case True
    then show ?thesis using Cons.prems(1) sync_end by auto
  next
    case False
    let ?n = "min k (request_size s)"
    have n: "0 < ?n" "?n \<le> request_size s" using Cons.prems(2) sync_request [OF Cons.prems(1)] by auto
    from sync_step [OF Cons.prems(1) False n] obtain s' fs' where s': "recv_step (Got (take ?n bs)) s = Some s'"
      "sync s' (drop ?n bs) fs'" "all_frames s' fs' = all_frames s fs" by blast
    have "length (drop ?n bs) \<le> length ks" using Cons.prems(3) n(1) False by (cases bs) auto
    with Cons.IH [OF s'(2)] Cons.prems(2) s' False show ?thesis by (auto simp: Let_def)
  qed
qed

lemma sync_init: "frame_stream fs bs \<Longrightarrow> sync recv_init bs fs"
  using stream_ahead by (simp add: sync_def recv_init_def ready_def buffers_ok_def COMM_BUFFER_MAX_LEN_def)

end
