(* ===== verification/UartRecvSafe.thy ===== *)
theory UartRecvSafe
  imports UartRecvOk
begin

text \<open>What noise, arbitrary bytes and failing reads do to the receiver.\<close>

subsection \<open>Too much noise\<close>

lemma noise_too_long:
  assumes "ready s" and "buffers_ok s" and "MAGIC_HI \<notin> set c" and "length c = 1 \<or> length c = 2" and "4096 < errorBuffOffset s + length c"
  shows "recv_step (Got c) s = None"
proof -
  have b: "length (r_buf s) = 2048" "length (errorBuff s) = 4096" using assms(2) by (simp_all add: buffers_ok_def)
  have r: "r_state s = WAIT_MAGIC_NUMBER" "recv_len s = 0" "r_last s = 0" using assms(1) by (simp_all add: ready_def)
  define nb where "nb = c @ drop (length c) (r_buf s)"
  have p: "put_read 0 (Got c) s = Some (s\<lparr>r_buf := nb\<rparr>)" using put_read_ok [OF b(1), of 0 c] assms(4) by (auto simp: nb_def)
  have t: "take (length c) nb = c" by (simp add: nb_def)
  have neq: "nb ! 0 \<noteq> 0xAA" "length c = 2 \<Longrightarrow> nb ! 1 \<noteq> 0xAA"
    using assms(3,4) by (auto simp: nb_def nth_append in_set_conv_nth)
  have "c \<noteq> []" using assms(4) by auto
  then have "pokes (errorBuff s) (errorBuffOffset s) c = None" using pokes_None assms(5) b(2) by metis
  then have "log_error (int (length c)) (s\<lparr>r_buf := nb\<rparr>) = None" using t by (simp add: log_error_def)
  then show ?thesis using p r neq assms(4) by (auto simp: recv_step_def recv_magic_def iReadLen_def)
qed

text \<open>A frame after more noise than can be printed.\<close>

lemma frame_after_noise:
  "valid_frame f \<Longrightarrow> receiving f i s \<Longrightarrow> buffers_ok s \<Longrightarrow> i < length f \<Longrightarrow> 2713 < errorBuffOffset s \<Longrightarrow> \<forall>k \<in> set ks. 0 < k \<Longrightarrow>
   length f - i \<le> length ks \<Longrightarrow> recv_run ks (drop i f @ rest) s = None"
proof (induction ks arbitrary: i s)
  case Nil
  then show ?case by simp
next
  case (Cons k ks)
  let ?n = "min k (request_size s)"
  have req: "0 < request_size s" using Cons.prems(2,4) by (auto simp: receiving_def request_size_def split: if_splits)
  have n: "0 < ?n" "?n \<le> request_size s" using Cons.prems(6) req by auto
  have le: "i + ?n \<le> length f" by (rule request_inside [OF Cons.prems(1,2,4) n(2)])
  have t: "take ?n (drop i f @ rest) = take ?n (drop i f)" "drop ?n (drop i f @ rest) = drop (i + ?n) f @ rest" using le by (simp_all add: add.commute)
  have ne: "drop i f @ rest \<noteq> []" using Cons.prems(4) by simp
  show ?case
  proof (cases "i + ?n < length f")
    case True
    from receive_part [OF Cons.prems(1-3) n True] obtain s' where s': "recv_step (Got (take ?n (drop i f))) s = Some s'" "buffers_ok s'"
      "receiving f (i + ?n) s'" "errorBuffOffset s' = errorBuffOffset s" by blast
    have "length f - i \<le> Suc (length ks)" using Cons.prems(7) by simp
    then have "length f - (i + ?n) \<le> length ks" using n(1) by arith
    then have "recv_run ks (drop (i + ?n) f @ rest) s' = None"
      using Cons.IH [OF Cons.prems(1) s'(3,2) True] Cons.prems(5,6) s'(4) by simp
    then show ?thesis using ne s'(1) unfolding recv_run.simps Let_def t by simp
  next
    case False
    then have "i + ?n = length f" using le by simp
    from receive_last(1) [OF Cons.prems(1-3) n this Cons.prems(5)] show ?thesis using ne unfolding recv_run.simps Let_def t by simp
  qed
qed

lemma noise_run:
  "ready s \<Longrightarrow> buffers_ok s \<Longrightarrow> errorBuffOffset s \<le> 4096 \<Longrightarrow> MAGIC_HI \<notin> set nz \<Longrightarrow> 2715 \<le> errorBuffOffset s + length nz \<Longrightarrow> valid_frame f \<Longrightarrow>
   \<forall>k \<in> set ks. 0 < k \<Longrightarrow> length nz + length f \<le> length ks \<Longrightarrow> recv_run ks (nz @ f @ rest) s = None"
proof (induction ks arbitrary: nz s)
  case Nil
  then show ?case using valid_frameD(1) by fastforce
next
  case (Cons k ks)
  have f: "20 \<le> length f" using valid_frameD(1) [OF Cons.prems(6)] .
  let ?n = "min k (request_size s)"
  have n: "?n = 1 \<or> ?n = 2" using Cons.prems(1,7) by (auto simp: ready_def request_size_def min_def)
  have ne: "nz @ f @ rest \<noteq> []" using f by auto
  have "length nz = 0 \<or> length nz = 1 \<and> ?n = 2 \<or> ?n \<le> length nz \<and> length nz \<noteq> 0" using n by linarith
  then consider "nz = []" | "length nz = 1" "?n = 2" | "?n \<le> length nz" "nz \<noteq> []" by auto
  then show ?case
  proof cases
    case 1
    have "receiving f 0 s" using Cons.prems(1) by (simp add: receiving_0)
    then have "recv_run (k # ks) (drop 0 f @ rest) s = None"
      by (rule frame_after_noise [OF Cons.prems(6)]) (use Cons.prems 1 f in auto)
    then show ?thesis using 1 by simp
  next
    case 2
    then obtain x where x: "nz = [x]" by (cases nz) auto
    have fl: "1 < length f" using f by linarith
    have e: "take ?n (nz @ f @ rest) = [x, f ! 0]" "drop ?n (nz @ f @ rest) = drop 1 f @ rest"
      unfolding x 2(2) by (rule split_first [OF fl])+
    have "x \<noteq> MAGIC_HI" using Cons.prems(4) x by auto
    from noise_frame_step [OF Cons.prems(1,2) this Cons.prems(6)] obtain s' where s': "recv_step (Got [x, f ! 0]) s = Some s'"
      "receiving f 1 s'" "buffers_ok s'" "errorBuffOffset s' = errorBuffOffset s" by blast
    have "recv_run ks (drop 1 f @ rest) s' = None"
      by (rule frame_after_noise [OF Cons.prems(6) s'(2,3) fl]) (use Cons.prems s'(4) x in auto)
    then show ?thesis using ne s'(1) unfolding recv_run.simps Let_def e by simp
  next
    case 3
    define c where "c = take ?n nz"
    have c: "nz = c @ drop ?n nz" "length c = ?n" "MAGIC_HI \<notin> set c" "MAGIC_HI \<notin> set (drop ?n nz)"
      using Cons.prems(4) 3 by (auto simp: c_def dest: in_set_takeD in_set_dropD)
    have e: "take ?n (nz @ f @ rest) = c" "drop ?n (nz @ f @ rest) = drop ?n nz @ f @ rest" using 3 by (simp_all add: c_def)
    show ?thesis
    proof (cases "errorBuffOffset s + length c \<le> 4096")
      case True
      from noise_step [OF Cons.prems(1,2) c(3) _ True] n c(2) obtain s' where s': "recv_step (Got c) s = Some s'" "ready s'" "buffers_ok s'"
        "errorBuffOffset s' = errorBuffOffset s + length c" by auto
      have l: "length nz = length c + length (drop ?n nz)" using arg_cong [OF c(1), of length] by simp
      have "recv_run ks (drop ?n nz @ f @ rest) s' = None"
      proof (rule Cons.IH [OF s'(2,3) _ c(4)])
        show "errorBuffOffset s' \<le> 4096" using s'(4) True by simp
        show "2715 \<le> errorBuffOffset s' + length (drop ?n nz)" using s'(4) l Cons.prems(5) by linarith
        show "valid_frame f" "\<forall>k \<in> set ks. 0 < k" using Cons.prems(6,7) by simp_all
        have "length nz + length f \<le> Suc (length ks)" using Cons.prems(8) by simp
        then show "length (drop ?n nz) + length f \<le> length ks" using l c(2) n by linarith
      qed
      then show ?thesis using ne s'(1) unfolding recv_run.simps Let_def e by simp
    next
      case False
      then have "recv_step (Got c) s = None" using noise_too_long [OF Cons.prems(1,2) c(3)] n c(2) by auto
      then show ?thesis using ne unfolding recv_run.simps Let_def e by simp
    qed
  qed
qed

subsection \<open>Arbitrary bytes\<close>

definition safe_state :: "serial_port \<Rightarrow> bool" where
  "safe_state s \<longleftrightarrow> buffers_ok s \<and> (case r_state s of
     WAIT_MAGIC_NUMBER \<Rightarrow> recv_len s = 0 \<and> r_last s = 0
   | WAIT_MAGIC_NUMBER_SECOND_BYTE \<Rightarrow> recv_len s = 1 \<and> r_last s = 0
   | WAIT_LENGTH \<Rightarrow> recv_len s = 2 \<and> r_last s = 0
   | WAIT_LENGTH_SECOND_BYTE \<Rightarrow> recv_len s = 3 \<and> r_last s = 0 \<and> len_temp s = unat (r_buf s ! 2)
   | WAIT_REST_FRAME_AND_DATA \<Rightarrow> recv_len s = 4 \<and> r_last s \<le> len_temp s \<and> len_temp s \<le> 344 \<and> len_temp s = unat (f_length (r_buf s)))"

lemma log_error_ok:
  assumes "buffers_ok s" and "errorBuffOffset s + n \<le> 4096" and "n \<le> 2048"
  shows "\<exists>eb. log_error (int n) s = Some (s\<lparr>errorBuff := eb, errorBuffOffset := errorBuffOffset s + n\<rparr>) \<and> length eb = 4096"
proof -
  define eb where "eb = take (errorBuffOffset s) (errorBuff s) @ map Some (take n (r_buf s)) @ drop (errorBuffOffset s + n) (errorBuff s)"
  have b: "length (r_buf s) = 2048" "length (errorBuff s) = 4096" using assms(1) by (simp_all add: buffers_ok_def)
  have "pokes (errorBuff s) (errorBuffOffset s) (take n (r_buf s)) = Some eb" using assms(2,3) b by (simp add: pokes_Some eb_def)
  moreover have "length eb = 4096" using assms(2,3) b by (simp add: eb_def)
  ultimately show ?thesis by (intro exI [of _ eb]) (simp add: log_error_def)
qed

lemma put_read_len:
  assumes "length (r_buf s) = 2048" and "i + length c \<le> 2048"
  shows "\<exists>nb. put_read i (Got c) s = Some (s\<lparr>r_buf := nb\<rparr>) \<and> length nb = 2048 \<and> (\<forall>j < i. nb ! j = r_buf s ! j)"
  using assms by (auto simp: put_read_def nth_append)

lemma HandleRecvData_total:
  assumes "length (r_buf s) = 2048" and "unat (f_length (r_buf s)) \<le> 344"
  shows "\<exists>ret m fs. HandleRecvData s = Some (ret, s\<lparr>mcu := m, received := fs\<rparr>)"
proof -
  let ?len = "f_length (r_buf s) + word_of_nat UART_FRAME_SIZE_BEFORE_WITH_LENGTH"
  have "unat ?len \<le> length (cleared (r_buf s))"
    using assms by (simp add: cleared_def UART_FRAME_SIZE_BEFORE_WITH_LENGTH_def unat_word_ariths)
  from chksum_loop_prefix [OF this, of 0 "[]"] obtain o' l a where
    c: "chksum_loop (cleared (r_buf s)) ?len 0 = Some (o', l, a)" "unat l \<le> length o'" by auto
  have "o' = [] \<Longrightarrow> \<not> 0 < l" using c(2) by (simp add: word_less_nat_alt)
  then have "\<exists>k. CalcChecksum (cleared (r_buf s)) ?len = Some k" using c(1) by (cases o') (simp_all add: CalcChecksum_def Let_def)
  moreover have "PrintAsHexString 3 (unat (f_length (r_buf s)) + UART_FRAME_SIZE_BEFORE_WITH_LENGTH) = Some ()"
    by (rule PrintAsHexString_fits) (use assms(2) in \<open>simp add: UART_FRAME_SIZE_BEFORE_WITH_LENGTH_def\<close>)
  ultimately have "\<exists>r. CheckRecvData (r_buf s) = Some r" by (auto simp: CheckRecvData_def)
  then obtain r where r: "CheckRecvData (r_buf s) = Some r" by blast
  show ?thesis
  proof (cases "r < 0")
    case True
    have "s\<lparr>mcu := mcu s, received := received s\<rparr> = s" by (cases s) simp
    then have "HandleRecvData s = Some (- 2, s\<lparr>mcu := mcu s, received := received s\<rparr>)" using r True by (simp add: HandleRecvData_def)
    then show ?thesis by blast
  next
    case False
    then show ?thesis unfolding HandleRecvData_def r by (simp only: Option.bind.bind_lunit if_False) blast
  qed
qed

definition grows :: "nat \<Rightarrow> serial_port \<Rightarrow> serial_port option \<Rightarrow> bool" where
  "grows n s r \<longleftrightarrow> (\<exists>s'. r = Some s' \<and> safe_state s' \<and> errorBuffOffset s' \<le> errorBuffOffset s + n)"

lemma grows_log:
  assumes "buffers_ok s" and "r_state s = WAIT_MAGIC_NUMBER" and "recv_len s = 0" and "r_last s = 0" and "errorBuffOffset s + n \<le> 4096" and "n \<le> 2048"
  shows "grows n s (log_error (int n) s)"
proof -
  from log_error_ok [OF assms(1,5,6)] obtain eb where
    "log_error (int n) s = Some (s\<lparr>errorBuff := eb, errorBuffOffset := errorBuffOffset s + n\<rparr>)" "length eb = 4096" by blast
  then show ?thesis using assms(1-4) by (simp add: grows_def safe_state_def buffers_ok_def)
qed

lemma grows_check_length:
  assumes "buffers_ok s" and "r_state s = WAIT_REST_FRAME_AND_DATA" and "recv_len s = 4" and "r_last s = 0"
    and "len_temp s = unat (f_length (r_buf s))" and "errorBuffOffset s + length c \<le> 4096" and "length c \<le> 2048"
  shows "grows (length c) s (check_length (Got c) s)"
proof (cases "UART_FRAME_MAX_SIZE < len_temp s")
  case True
  let ?s = "s\<lparr>recv_len := 0, r_state := WAIT_MAGIC_NUMBER\<rparr>"
  have "grows (length c) ?s (log_error (int (length c)) ?s)" by (rule grows_log) (use assms in \<open>simp_all add: buffers_ok_def\<close>)
  then show ?thesis using True by (simp add: check_length_def iReadLen_def grows_def)
next
  case False
  then have "len_temp s \<le> 344" by (simp add: UART_FRAME_MAX_SIZE_def UART_FRAME_DATA_MAX_SIZE_def UART_FRAME_HEADER_SIZE_def
        UART_FRAME_SIZE_BEFORE_WITH_LENGTH_def UART_FRAME_SIZE_AFTER_LENGTH_def)
  then show ?thesis using False assms by (simp add: check_length_def grows_def safe_state_def)
qed

lemma safe_step:
  assumes S: "safe_state s" and c: "length c \<le> request_size s" and e: "errorBuffOffset s + length c \<le> 2713"
  shows "grows (length c) s (recv_step (Got c) s)"
proof -
  have B: "buffers_ok s" using S by (simp add: safe_state_def)
  then have b: "length (r_buf s) = 2048" "length (errorBuff s) = 4096" by (simp_all add: buffers_ok_def)
  have n: "iReadLen (Got c) = int (length c)" by (simp add: iReadLen_def)
  show ?thesis
  proof (cases "r_state s")
    case WAIT_MAGIC_NUMBER
    then have r: "recv_len s = 0" "r_last s = 0" "length c \<le> 2" using S c by (simp_all add: safe_state_def request_size_def)
    from put_read_len [OF b(1), of 0 c] r(3) obtain nb where nb: "put_read 0 (Got c) s = Some (s\<lparr>r_buf := nb\<rparr>)" "length nb = 2048" by auto
    have "grows (length c) (s\<lparr>r_buf := nb\<rparr>) (log_error (int (length c)) (s\<lparr>r_buf := nb\<rparr>))"
      by (rule grows_log) (use WAIT_MAGIC_NUMBER r nb(2) b(2) e in \<open>simp_all add: buffers_ok_def\<close>)
    then have G: "grows (length c) s (log_error (iReadLen (Got c)) (s\<lparr>r_buf := nb\<rparr>))" unfolding n by (simp add: grows_def)
    have "recv_step (Got c) s = log_error (iReadLen (Got c)) (s\<lparr>r_buf := nb\<rparr>) \<or>
        recv_step (Got c) s = Some (s\<lparr>r_buf := nb, r_state := WAIT_MAGIC_NUMBER_SECOND_BYTE, recv_len := 1\<rparr>) \<or>
        recv_step (Got c) s = Some (s\<lparr>r_buf := nb[0 := nb ! 1], r_state := WAIT_MAGIC_NUMBER_SECOND_BYTE, recv_len := 1\<rparr>) \<or>
        recv_step (Got c) s = Some (s\<lparr>r_buf := nb, r_state := WAIT_LENGTH, recv_len := 2\<rparr>)"
      using WAIT_MAGIC_NUMBER nb(1) r(1) by (simp add: recv_step_def recv_magic_def)
    then show ?thesis using G nb(2) r(1,2) b(2) by (elim disjE) (simp_all add: grows_def safe_state_def buffers_ok_def)
  next
    case WAIT_MAGIC_NUMBER_SECOND_BYTE
    then have r: "recv_len s = 1" "r_last s = 0" "length c \<le> 1" using S c by (simp_all add: safe_state_def request_size_def)
    from put_read_len [OF b(1), of 1 c] r(3) obtain nb where nb: "put_read 1 (Got c) s = Some (s\<lparr>r_buf := nb\<rparr>)" "length nb = 2048" by auto
    let ?s = "s\<lparr>r_buf := nb, recv_len := 0, r_state := WAIT_MAGIC_NUMBER\<rparr>"
    have "grows (length c) ?s (log_error (int (length c)) ?s)"
      by (rule grows_log) (use r nb(2) b(2) e in \<open>simp_all add: buffers_ok_def\<close>)
    then show ?thesis using WAIT_MAGIC_NUMBER_SECOND_BYTE nb r b(2) n
      by (simp add: recv_step_def recv_magic_second_def grows_def safe_state_def buffers_ok_def)
  next
    case WAIT_LENGTH
    then have r: "recv_len s = 2" "r_last s = 0" "length c \<le> 2" using S c by (simp_all add: safe_state_def request_size_def)
    from put_read_len [OF b(1), of 2 c] r(3) obtain nb where nb: "put_read 2 (Got c) s = Some (s\<lparr>r_buf := nb\<rparr>)" "length nb = 2048" by auto
    let ?s = "s\<lparr>r_buf := nb, r_state := WAIT_REST_FRAME_AND_DATA, len_temp := unat (nb ! 3) * 256 + unat (nb ! 2), recv_len := 4\<rparr>"
    have "grows (length c) ?s (check_length (Got c) ?s)"
      by (rule grows_check_length) (use r nb(2) b(2) e get_u16_unat [of nb 2] in \<open>simp_all add: buffers_ok_def f_length_def numeral_3_eq_3\<close>)
    then have G: "grows (length c) s (check_length (Got c) ?s)" by (simp add: grows_def)
    have "recv_step (Got c) s = check_length (Got c) ?s \<or> recv_step (Got c) s = Some (s\<lparr>r_buf := nb\<rparr>) \<or>
        recv_step (Got c) s = Some (s\<lparr>r_buf := nb, r_state := WAIT_LENGTH_SECOND_BYTE, len_temp := unat (nb ! 2), recv_len := 3\<rparr>)"
      using WAIT_LENGTH nb(1) r(1) by (simp add: recv_step_def recv_length_def)
    then show ?thesis using WAIT_LENGTH G nb(2) r(1,2) b(2) by (elim disjE) (simp_all add: grows_def safe_state_def buffers_ok_def)
  next
    case WAIT_LENGTH_SECOND_BYTE
    then have r: "recv_len s = 3" "r_last s = 0" "length c \<le> 1" "len_temp s = unat (r_buf s ! 2)"
      using S c by (simp_all add: safe_state_def request_size_def)
    from put_read_len [OF b(1), of 3 c] r(3) obtain nb where nb: "put_read 3 (Got c) s = Some (s\<lparr>r_buf := nb\<rparr>)" "length nb = 2048"
      "nb ! 2 = r_buf s ! 2" by auto
    let ?s = "s\<lparr>r_buf := nb, r_state := WAIT_REST_FRAME_AND_DATA, len_temp := unat (nb ! 2) + unat (nb ! 3) * 256, recv_len := 4\<rparr>"
    have "grows (length c) ?s (check_length (Got c) ?s)"
      by (rule grows_check_length) (use r nb(2) b(2) e get_u16_unat [of nb 2] in \<open>simp_all add: buffers_ok_def f_length_def numeral_3_eq_3\<close>)
    then have G: "grows (length c) s (check_length (Got c) ?s)" by (simp add: grows_def)
    have "recv_step (Got c) s = check_length (Got c) ?s \<or> recv_step (Got c) s = Some (s\<lparr>r_buf := nb\<rparr>)"
      using WAIT_LENGTH_SECOND_BYTE nb(1,3) r(1,4) by (simp add: recv_step_def recv_length_second_def)
    then show ?thesis using WAIT_LENGTH_SECOND_BYTE G nb(2,3) r b(2) by (elim disjE) (simp_all add: grows_def safe_state_def buffers_ok_def)
  next
    case WAIT_REST_FRAME_AND_DATA
    then have r: "recv_len s = 4" "r_last s \<le> len_temp s" "len_temp s \<le> 344" "len_temp s = unat (f_length (r_buf s))"
      "length c \<le> len_temp s - r_last s" using S c by (simp_all add: safe_state_def request_size_def)
    have i: "4 + r_last s + length c \<le> 2048" using r(2,3,5) by linarith
    from put_read_len [OF b(1) i] obtain nb where nb: "put_read (4 + r_last s) (Got c) s = Some (s\<lparr>r_buf := nb\<rparr>)" "length nb = 2048"
      "nb ! 2 = r_buf s ! 2" "nb ! 3 = r_buf s ! 3" by auto
    have l: "f_length nb = f_length (r_buf s)" using nb(3,4) by (simp add: f_length_def get_u16_def numeral_3_eq_3)
    have pr: "errorBuffOffset s = 0 \<or> PrintAsHexString 3 (errorBuffOffset s) = Some ()" using PrintAsHexString_fits e by simp
    show ?thesis
    proof (cases "int (length c) < int (len_temp s) - int (r_last s) \<and> 0 < int (length c)")
      case True
      then show ?thesis using WAIT_REST_FRAME_AND_DATA nb r b(2) n l
        by (simp add: recv_step_def recv_rest_def grows_def safe_state_def buffers_ok_def)
    next
      case False
      then have D: "c = [] \<or> int (len_temp s) - int (r_last s) = int (length c)" using r(2,5) by auto
      define s1 where "s1 = s\<lparr>r_buf := nb, errorBuffOffset := 0, recv_len := recv_len s + len_temp s, r_last := 0, r_state := WAIT_MAGIC_NUMBER\<rparr>"
      have "recv_step (Got c) s = do { (r, s) \<leftarrow> HandleRecvData s1; Some (s\<lparr>recv_len := 0\<rparr>) }"
      proof (cases "errorBuffOffset s = 0")
        case True
        then have "s1 = s\<lparr>r_buf := nb, recv_len := recv_len s + len_temp s, r_last := 0, r_state := WAIT_MAGIC_NUMBER\<rparr>"
          unfolding s1_def by (cases s) simp
        then show ?thesis using D WAIT_REST_FRAME_AND_DATA nb(1) r(1) n True
          by (elim disjE) (simp_all add: recv_step_def recv_rest_def)
      next
        case f: False
        then show ?thesis using D WAIT_REST_FRAME_AND_DATA nb(1) r(1) n pr
          by (elim disjE) (simp_all add: recv_step_def recv_rest_def s1_def)
      qed
      moreover obtain ret m fs where "HandleRecvData s1 = Some (ret, s1\<lparr>mcu := m, received := fs\<rparr>)"
        using HandleRecvData_total [of s1] nb(2) l r(3,4) by (auto simp: s1_def)
      ultimately show ?thesis using nb(2) b(2) by (simp add: grows_def safe_state_def buffers_ok_def s1_def)
    qed
  qed
qed

lemma safe_run: "safe_state s \<Longrightarrow> errorBuffOffset s + length bs \<le> 2713 \<Longrightarrow> \<exists>s' r. recv_run ks bs s = Some (s', r)"
proof (induction ks arbitrary: s bs)
  case (Cons k ks)
  show ?case
  proof (cases "bs = []")
    case False
    let ?c = "take (min k (request_size s)) bs"
    have "length ?c \<le> request_size s" "errorBuffOffset s + length ?c \<le> 2713" using Cons.prems(2) by auto
    from safe_step [OF Cons.prems(1) this] obtain s' where s': "recv_step (Got ?c) s = Some s'" "safe_state s'"
      "errorBuffOffset s' \<le> errorBuffOffset s + length ?c" by (auto simp: grows_def)
    have "length ?c + length (drop (min k (request_size s)) bs) = length bs" by (simp flip: length_append)
    then have "errorBuffOffset s' + length (drop (min k (request_size s)) bs) \<le> 2713" using s'(3) Cons.prems(2) by linarith
    from Cons.IH [OF s'(2) this] s'(1) False show ?thesis by (simp add: Let_def)
  qed simp
qed simp

lemma safe_init: "safe_state recv_init" "errorBuffOffset recv_init = 0"
  by (simp_all add: safe_state_def buffers_ok_def recv_init_def COMM_BUFFER_MAX_LEN_def)

end
