(* ===== verification/UartRecvClaims.thy ===== *)
theory UartRecvClaims
  imports UartRecvSafe
begin

text \<open>What the receiver of the serial protocol does.\<close>

subsection \<open>Counting frames\<close>

text \<open>Identifications that grow lose as many frames as they skip.\<close>

lemma count_increasing:
  "l \<noteq> 0 \<Longrightarrow> sorted_wrt (<) (l # map f_id fs) \<Longrightarrow>
   fold (\<lambda>f. count_frame (f_id f)) fs (l, lost, n) =
     (last (l # map f_id fs), lost + word_of_nat (unat (last (l # map f_id fs)) - unat l - length fs), n + word_of_nat (length fs)) \<and>
   unat l + length fs \<le> unat (last (l # map f_id fs))"
proof (induction fs arbitrary: l lost n)
  case Nil
  then show ?case by simp
next
  case (Cons f fs)
  let ?i = "f_id f"
  have lt0: "l < ?i" using Cons.prems(2) by simp
  moreover have "sorted_wrt (<) (?i # map f_id fs)" using Cons.prems(2) by simp
  moreover have "?i \<noteq> 0" using lt0 by auto
  ultimately have lt: "l < ?i" "?i \<noteq> 0" "sorted_wrt (<) (?i # map f_id fs)" by blast+
  let ?lost = "lost + word_of_nat (unat ?i - unat l - 1)"
  have ls: "(if l \<noteq> 0 \<and> l + 1 \<noteq> ?i then lost + ucast (?i - l - 1) else lost) = ?lost"
  proof (cases "l + 1 = ?i")
    case True
    then have "unat ?i = unat l + 1" using lt(2) unatSuc [of l] by (auto simp: add.commute)
    then show ?thesis using True by simp
  next
    case False
    have "l + 1 \<le> ?i" using lt(1) by (rule inc_le)
    have "unat (?i - l - 1) = unat ?i - unat l - 1"
      using lt(1) False by (simp add: unat_sub word_le_nat_alt word_less_nat_alt)
    then have "(ucast (?i - l - 1) :: 16 word) = word_of_nat (unat ?i - unat l - 1)" 
      using arg_cong [of _ _ "word_of_nat :: nat \<Rightarrow> 16 word"] by (metis of_nat_unat)
    then show ?thesis using False Cons.prems(1) by simp
  qed
  have IH: "fold (\<lambda>f. count_frame (f_id f)) fs (?i, ?lost, n + 1) =
     (last (?i # map f_id fs), ?lost + word_of_nat (unat (last (?i # map f_id fs)) - unat ?i - length fs), n + 1 + word_of_nat (length fs))"
    "unat ?i + length fs \<le> unat (last (?i # map f_id fs))" using Cons.IH [OF lt(2,3), of ?lost "n + 1"] by blast+
  have u: "unat l < unat ?i" using lt(1) by (simp add: word_less_nat_alt)
  have "word_of_nat (unat ?i - unat l - 1) + word_of_nat (unat (last (?i # map f_id fs)) - unat ?i - length fs) =
      (word_of_nat (unat (last (?i # map f_id fs)) - unat l - length (f # fs)) :: 16 word)"
  proof -
    have "(unat ?i - unat l - 1) + (unat (last (?i # map f_id fs)) - unat ?i - length fs) =
        unat (last (?i # map f_id fs)) - unat l - length (f # fs)" using u IH(2) by simp
    then show ?thesis by (simp only: of_nat_add [symmetric])
  qed
  then show ?case using IH ls u by (simp add: add.assoc)
qed

subsection \<open>A failing read\<close>

lemma put_read_same:
  assumes "r_buf s = f @ r" and "i + n \<le> length f"
  shows "put_read i (Got (take n (drop i f))) s = Some s"
proof -
  let ?b = "r_buf s"
  have "take n (drop i f) = take n (drop i ?b)" using assms by simp
  then have "take i ?b @ take n (drop i f) @ drop (i + n) ?b = take (i + n) ?b @ drop (i + n) ?b" by (simp add: take_add)
  then show ?thesis using assms by (cases s) (simp add: put_read_def)
qed

text \<open>One frame, which stays in the buffer.\<close>

lemma frame_stays:
  "valid_frame f \<Longrightarrow> receiving f i s \<Longrightarrow> buffers_ok s \<Longrightarrow> i < length f \<Longrightarrow> errorBuffOffset s \<le> 2713 \<Longrightarrow> \<forall>k \<in> set ks. 0 < k \<Longrightarrow>
   length f - i \<le> length ks \<Longrightarrow> \<exists>s'. recv_run ks (drop i f) s = Some (s', []) \<and> buffers_ok s' \<and> ready s' \<and> received s' = received s @ [f] \<and>
     take (length f) (r_buf s') = f \<and> errorBuffOffset s' = 0"
proof (induction ks arbitrary: i s)
  case Nil
  then show ?case by simp
next
  case (Cons k ks)
  let ?n = "min k (request_size s)"
  have req: "0 < request_size s" using Cons.prems(2,4) by (auto simp: receiving_def request_size_def split: if_splits)
  have n: "0 < ?n" "?n \<le> request_size s" using Cons.prems(6) req by auto
  have le: "i + ?n \<le> length f" by (rule request_inside [OF Cons.prems(1,2,4) n(2)])
  have ne: "drop i f \<noteq> []" using Cons.prems(4) by simp
  have dd: "drop ?n (drop i f) = drop (i + ?n) f" by (simp add: add.commute)
  show ?case
  proof (cases "i + ?n < length f")
    case True
    from receive_part [OF Cons.prems(1-3) n True] obtain s' where s': "recv_step (Got (take ?n (drop i f))) s = Some s'" "buffers_ok s'"
      "receiving f (i + ?n) s'" "received s' = received s" "errorBuffOffset s' = errorBuffOffset s" by blast
    have "length f - i \<le> Suc (length ks)" using Cons.prems(7) by simp
    then have "length f - (i + ?n) \<le> length ks" using n(1) by arith
    with Cons.IH [OF Cons.prems(1) s'(3,2) True] Cons.prems(5,6) s'(1,4,5) ne show ?thesis
      unfolding recv_run.simps Let_def dd by simp
  next
    case False
    then have d: "i + ?n = length f" using le by simp
    from receive_last(2) [OF Cons.prems(1-3) n d Cons.prems(5)] obtain s' where s': "recv_step (Got (take ?n (drop i f))) s = Some s'"
      "buffers_ok s'" "ready s'" "received s' = received s @ [f]" "errorBuffOffset s' = 0" "take (length f) (r_buf s') = f" by blast
    have "recv_run ks [] s' = Some (s', [])" by (cases ks) simp_all
    then show ?thesis using s' ne d unfolding recv_run.simps Let_def dd by simp
  qed
qed

lemma failed_read_repeats:
  assumes V: "valid_frame f" and B: "buffers_ok s" and R: "ready s" and f: "take (length f) (r_buf s) = f" and e: "errorBuffOffset s = 0"
  shows "\<exists>s1 s2 s3. recv_step (Got (take 2 f)) s = Some s1 \<and> recv_step (Got (take 2 (drop 2 f))) s1 = Some s2 \<and>
    recv_step Read_Failed s2 = Some s3 \<and> received s3 = received s @ [f]"
proof -
  note F = valid_frameD [OF V]
  define r where "r = drop (length f) (r_buf s)"
  have b: "r_buf s = f @ r" using f by (metis append_take_drop_id r_def)
  have s: "r_state s = WAIT_MAGIC_NUMBER" "recv_len s = 0" "r_last s = 0" using R by (simp_all add: ready_def)
  have nth: "(f @ r) ! 0 = 0xAA" "(f @ r) ! 1 = 0xAA" "unat ((f @ r) ! 3) * 256 + unat ((f @ r) ! 2) = length f - 4"
    using F by (auto simp: nth_append)
  have l2: "length (take 2 f) = 2" "length (take 2 (drop 2 f)) = 2" using F(1) by simp_all
  define s1 where "s1 = s\<lparr>r_state := WAIT_LENGTH, recv_len := 2\<rparr>"
  have p1: "put_read 0 (Got (take 2 f)) s = Some s" using put_read_same [OF b, of 0 2] F(1) by simp
  have 1: "recv_step (Got (take 2 f)) s = Some s1"
    using s p1 nth(1,2) l2(1) by (simp add: recv_step_def recv_magic_def iReadLen_def b s1_def)
  define s2 where "s2 = s1\<lparr>r_state := WAIT_REST_FRAME_AND_DATA, len_temp := length f - 4, recv_len := 4\<rparr>"
  have b1: "r_buf s1 = f @ r" "r_state s1 = WAIT_LENGTH" "recv_len s1 = 2" using b by (simp_all add: s1_def)
  have p2: "put_read 2 (Got (take 2 (drop 2 f))) s1 = Some s1" using put_read_same [OF b1(1), of 2 2] F(1) by simp
  have lim: "\<not> 344 < length f - 4" using F(2) by simp
  have 2: "recv_step (Got (take 2 (drop 2 f))) s1 = Some s2"
    using b1 p2 nth(3) l2(2) lim by (simp add: recv_step_def recv_length_def iReadLen_def check_length_def s2_def numeral_3_eq_3
        UART_FRAME_MAX_SIZE_def UART_FRAME_DATA_MAX_SIZE_def UART_FRAME_HEADER_SIZE_def UART_FRAME_SIZE_BEFORE_WITH_LENGTH_def UART_FRAME_SIZE_AFTER_LENGTH_def)
  define s3 where "s3 = s2\<lparr>recv_len := recv_len s2 + len_temp s2, r_last := 0, r_state := WAIT_MAGIC_NUMBER\<rparr>"
  have "r_buf s3 = f @ r" "errorBuffOffset s3 \<le> 2713" using b1 e by (simp_all add: s3_def s2_def s1_def)
  from frame_complete [OF V this] obtain m where h: "HandleRecvData s3 = Some (0, s3\<lparr>mcu := m, received := received s3 @ [f]\<rparr>)" by blast
  have "r_state s2 = WAIT_REST_FRAME_AND_DATA" "errorBuffOffset s2 = 0" using e by (simp_all add: s2_def s1_def)
  then have 3: "recv_step Read_Failed s2 = Some (s3\<lparr>mcu := m, received := received s3 @ [f], recv_len := 0\<rparr>)"
    using h by (simp add: recv_step_def recv_rest_def put_read_def iReadLen_def s3_def)
  have "received s3 = received s" by (simp add: s3_def s2_def s1_def)
  then show ?thesis using 1 2 3 by auto
qed

lemma failed_read_in_noise: "ready s \<Longrightarrow> recv_step Read_Failed s = None"
  by (simp add: ready_def recv_step_def recv_magic_def put_read_def iReadLen_def log_error_def)

subsection \<open>The claims\<close>

text \<open>C10: Whatever pieces the reads return a stream of valid frames in, with noise before and between them that does not
  contain the magic byte and can be printed, exactly these frames are handed to the callback, in order, and the
  thread waits for the next magic number.\<close>

theorem uart_frames_delivered:
  assumes "frame_stream fs bs" and "\<forall>k \<in> set ks. 0 < k" and "length bs \<le> length ks"
  shows "\<exists>s. recv_run ks bs recv_init = Some (s, []) \<and> received s = fs \<and> r_state s = WAIT_MAGIC_NUMBER"
  using recv_run_ok [OF sync_init [OF assms(1)] assms(2,3)]
  by (auto simp: all_frames_def ready_def recv_init_def)

text \<open>A frame with one byte of data.\<close>

definition ex_frame :: "byte list" where
  "ex_frame = [0xAA, 0xAA, 17, 0, 1, 0, 0, 0, 0xF3, 0, 0, 0, 0, 0, 0, 0, 0, 0, 0x54, 0x4C, 5]"

lemma ex_frame_valid: "valid_frame ex_frame"
proof -
  have "CalcChecksum (cleared ex_frame) 21 = Some 0x4C54"
    by (simp add: CalcChecksum_def ex_frame_def cleared_def chksum_loop.simps fold16_def Let_def)
  moreover have "f_checksum ex_frame = 0x4C54" "f_length ex_frame = 17"
    by (simp_all add: f_checksum_def f_length_def get_u16_def ex_frame_def)
  moreover have "length ex_frame = 21" "ex_frame ! 0 = 0xAA" "ex_frame ! 1 = 0xAA" by (simp_all add: ex_frame_def)
  ultimately show ?thesis by (simp add: valid_frame_def UART_FRAME_HEADER_SIZE_def UART_FRAME_SIZE_BEFORE_WITH_LENGTH_def
        UART_FRAME_SIZE_AFTER_LENGTH_def UART_FRAME_MAX_SIZE_def UART_FRAME_DATA_MAX_SIZE_def)
qed

lemma ex_stream: "frame_stream [ex_frame, ex_frame] ([7, 8, 9] @ ex_frame @ [] @ ex_frame @ [1])"
  by (intro frame_stream.intros ex_frame_valid) (simp_all add: quiet_def)

theorem uart_frames_delivered_witness:
  "\<exists>s. recv_run (replicate 50 3) ([7, 8, 9] @ ex_frame @ [] @ ex_frame @ [1]) recv_init = Some (s, []) \<and>
    received s = [ex_frame, ex_frame] \<and> r_state s = WAIT_MAGIC_NUMBER"
  by (rule uart_frames_delivered [OF ex_stream]) (simp_all add: ex_frame_def)

text \<open>C17: On arbitrary input, in arbitrary pieces, the thread stays inside its buffers as long as no more than 2713 bytes
  have come; whatever the length field of a frame says, what follows it fits the buffer.\<close>

theorem uart_memory_safe:
  assumes "length bs \<le> 2713"
  shows "\<exists>s r. recv_run ks bs recv_init = Some (s, r)"
  using safe_run [OF safe_init(1)] safe_init(2) assms by simp

theorem uart_memory_safe_witness: "\<exists>s r. recv_run [1, 0, 7, 2, 9] [0xAA, 0xAA, 0xFF, 0xFF, 3] recv_init = Some (s, r)"
  by (rule uart_memory_safe) simp

text \<open>C33: Noise is collected without a bound: a frame after 2715 or more bytes of noise makes the printing of the noise
  write behind its buffer, or the noise itself is written behind the end of the error buffer.\<close>

theorem uart_noise_overflows:
  assumes "MAGIC_HI \<notin> set nz" and "2715 \<le> length nz" and "valid_frame f" and "\<forall>k \<in> set ks. 0 < k" and "length nz + length f \<le> length ks"
  shows "recv_run ks (nz @ f @ rest) recv_init = None"
  by (rule noise_run) (use assms in \<open>simp_all add: recv_init_def ready_def buffers_ok_def COMM_BUFFER_MAX_LEN_def\<close>)

theorem uart_noise_overflows_witness: "recv_run (replicate 3000 2) (replicate 2800 0 @ ex_frame @ []) recv_init = None"
  by (rule uart_noise_overflows [OF _ _ ex_frame_valid]) (simp_all add: ex_frame_def)

text \<open>A read that fails is not handled.  While the thread waits for a magic number it copies \<open>(size_t) -1\<close> bytes; and in
  the rest of a frame it takes what the buffer still holds for the frame: the previous frame is handed over again.\<close>

theorem uart_failed_read:
  assumes "valid_frame f" and "\<forall>k \<in> set ks. 0 < k" and "length f \<le> length ks"
  shows "\<exists>s s1 s2 s3. recv_run ks f recv_init = Some (s, []) \<and> received s = [f] \<and> recv_step Read_Failed s = None \<and>
    recv_step (Got (take 2 f)) s = Some s1 \<and> recv_step (Got (take 2 (drop 2 f))) s1 = Some s2 \<and>
    recv_step Read_Failed s2 = Some s3 \<and> received s3 = [f, f]"
proof -
  have R: "receiving f 0 recv_init" "buffers_ok recv_init" "errorBuffOffset recv_init \<le> 2713" "0 < length f" "received recv_init = []"
    using valid_frameD(1) [OF assms(1)] by (auto simp: receiving_0 recv_init_def ready_def buffers_ok_def COMM_BUFFER_MAX_LEN_def)
  from frame_stays [OF assms(1) R(1,2,4,3) assms(2)] assms(3) obtain s where s: "recv_run ks f recv_init = Some (s, [])" "buffers_ok s" "ready s"
    "received s = [f]" "take (length f) (r_buf s) = f" "errorBuffOffset s = 0" using R(5) by auto
  from failed_read_repeats [OF assms(1) s(2,3,5,6)] s(1,3,4) failed_read_in_noise show ?thesis by fastforce
qed

theorem uart_failed_read_witness:
  "\<exists>s s1 s2 s3. recv_run (replicate 30 1) ex_frame recv_init = Some (s, []) \<and> received s = [ex_frame] \<and> recv_step Read_Failed s = None \<and>
    recv_step (Got (take 2 ex_frame)) s = Some s1 \<and> recv_step (Got (take 2 (drop 2 ex_frame))) s1 = Some s2 \<and>
    recv_step Read_Failed s2 = Some s3 \<and> received s3 = [ex_frame, ex_frame]"
  by (rule uart_failed_read [OF ex_frame_valid]) (simp_all add: ex_frame_def)

text \<open>C32: When the identifications of the frames grow, the callback counts all frames, and as many lost ones as
  identifications are missing.\<close>

theorem uart_counts_lost:
  assumes "frame_stream (f # fs) bs" and "\<forall>k \<in> set ks. 0 < k" and "length bs \<le> length ks"
    and "f_id f \<noteq> 0" and "sorted_wrt (<) (map f_id (f # fs))"
  shows "\<exists>s. recv_run ks bs recv_init = Some (s, []) \<and> totalFrame (mcu s) = word_of_nat (length (f # fs)) \<and>
    totalLost (mcu s) = word_of_nat (unat (f_id (last (f # fs))) + 1 - unat (f_id f) - length (f # fs))"
proof -
  from recv_run_ok [OF sync_init [OF assms(1)] assms(2,3)] obtain s where s: "recv_run ks bs recv_init = Some (s, [])"
    "counters (mcu s) = fold (\<lambda>f. count_frame (f_id f)) (f # fs) (counters (mcu recv_init))" by (auto simp: all_frames_def)
  have l: "last (f_id f # map f_id fs) = f_id (last (f # fs))" by (simp add: last_map)
  have "fold (\<lambda>f. count_frame (f_id f)) (f # fs) (counters (mcu recv_init)) = fold (\<lambda>f. count_frame (f_id f)) fs (f_id f, 0, 1)"
    by (simp add: recv_init_def mcu_init_def counters_def)
  then have "counters (mcu s) = (f_id (last (f # fs)), word_of_nat (unat (f_id (last (f # fs))) - unat (f_id f) - length fs), 1 + word_of_nat (length fs))"
    using count_increasing [OF assms(4), of fs 0 1] assms(5) s(2) l by simp
  then show ?thesis using s(1) by (auto simp: counters_def)
qed

text \<open>A second frame, with the identification 4.\<close>

lemma ex_frame_4_valid: "valid_frame (ex_frame[4 := 4])"
proof -
  have "cleared (ex_frame[4 := 4]) = cleared ex_frame" "f_checksum (ex_frame[4 := 4]) = f_checksum ex_frame"
    "f_length (ex_frame[4 := 4]) = f_length ex_frame"
    by (simp_all add: ex_frame_def cleared_def f_checksum_def f_length_def get_u16_def)
  then show ?thesis using ex_frame_valid by (simp add: valid_frame_def)
qed

theorem uart_counts_lost_witness:
  "\<exists>s. recv_run (replicate 50 4) ([] @ ex_frame @ [] @ ex_frame[4 := 4] @ []) recv_init = Some (s, []) \<and> totalFrame (mcu s) = 2 \<and> totalLost (mcu s) = 2"
proof -
  have st: "frame_stream [ex_frame, ex_frame[4 := 4]] ([] @ ex_frame @ [] @ ex_frame[4 := 4] @ [])"
    by (intro frame_stream.intros ex_frame_valid ex_frame_4_valid) (simp_all add: quiet_def)
  have i: "f_id ex_frame = 1" "f_id (ex_frame[4 := 4]) = 4" by (simp_all add: f_id_def get_u32_def ex_frame_def)
  have l: "length ([] @ ex_frame @ [] @ ex_frame[4 := 4] @ []) \<le> length (replicate 50 (4::nat))" by (simp add: ex_frame_def)
  from uart_counts_lost [OF st _ l] i show ?thesis by simp
qed

end
