(* ===== verification/CircleBuf.thy ===== *)
theory CircleBuf
  imports Prelude
begin

text \<open>
  The circular buffer of \<open>CircleBuffer.cpp\<close>: eight slots for messages, each with the set of the subscribers that have
  still to read it, under one lock for the pool and one for each slot.  A call is a sequence of steps, each the
  part of the code from one acquisition of a lock to the next.  Waiting on a condition gives the lock back; a thread that
  is woken takes it again and tests its condition, and is blocked as long as it does not hold.
\<close>

subsection \<open>Data\<close>

definition MSG_POOL_SIZE :: nat where "MSG_POOL_SIZE = 8"
definition MSG_SUB_SIZE :: nat where "MSG_SUB_SIZE = 8"

record msg_data =
  m_pData :: "byte list option"
  m_nMsgSize :: nat
  m_bs :: "bool list"
  m_bRelease :: bool

record msg_data_pool =
  bsSubscribers :: "bool list"
  arrMsgData :: "msg_data list"
  arrSubPos :: "nat list"
  uiCurrWritePos :: nat
  uiCurrMsgDataNum :: nat
  p_bRelease :: bool
  PoolCond :: bool
  DataLocker :: "bool list"
  deleted :: bool

text \<open>\<open>PoolCond\<close> and \<open>DataLocker\<close> say which locks are held, \<open>deleted\<close> that the destructor has released the pool.\<close>

definition circle_init :: msg_data_pool where
  "circle_init = \<lparr>bsSubscribers = replicate MSG_SUB_SIZE False,
     arrMsgData = replicate MSG_POOL_SIZE \<lparr>m_pData = None, m_nMsgSize = 0, m_bs = replicate MSG_SUB_SIZE False, m_bRelease = False\<rparr>,
     arrSubPos = replicate MSG_SUB_SIZE 0, uiCurrWritePos = 0, uiCurrMsgDataNum = 0, p_bRelease = False,
     PoolCond = False, DataLocker = replicate MSG_POOL_SIZE False, deleted = False\<rparr>"

text \<open>Where a thread is, and what its call returned.\<close>

datatype circle_pc =
    Sub_Start | Sub_Slot nat nat
  | UnSub_Start nat | UnSub_Slot nat nat
  | Write_Start "byte list option" | Write_Slot "byte list" nat
  | Read_Start nat | Read_Wait nat | Read_Slot nat nat | Read_Slot_Wait nat nat | Read_Drop nat nat "byte list" | Read_Advance nat "byte list"
  | Delete_Start | Returns int | Returns_Data "byte list"

datatype circle_step = Blocked | Next circle_pc msg_data_pool

definition uint_dec :: "nat \<Rightarrow> nat" where
  "uint_dec n = (if n = 0 then 2 ^ 32 - 1 else n - 1)"

definition wrap_pos :: "nat \<Rightarrow> nat" where
  "wrap_pos i = (if MSG_POOL_SIZE \<le> i then i - MSG_POOL_SIZE else i)"

definition set_slot :: "nat \<Rightarrow> msg_data \<Rightarrow> msg_data_pool \<Rightarrow> msg_data_pool" where
  "set_slot i m c = c\<lparr>arrMsgData := (arrMsgData c)[i := m]\<rparr>"

subsection \<open>Subscribing\<close>

fun SetFirstEmptyField :: "nat \<Rightarrow> bool list \<Rightarrow> (nat \<times> bool list) option" where
  "SetFirstEmptyField i [] = None"
| "SetFirstEmptyField i (b # bs) =
     (if \<not> b then Some (i, True # bs)
      else (case SetFirstEmptyField (Suc i) bs of None \<Rightarrow> None | Some (k, bs) \<Rightarrow> Some (k, b # bs)))"

definition sub_start :: "msg_data_pool \<Rightarrow> circle_step option" where
  "sub_start c =
     (if PoolCond c then Some Blocked
      else case SetFirstEmptyField 0 (bsSubscribers c) of
        None \<Rightarrow> Some (Next (Returns (- 1)) c)
      | Some (iBitsetPos, bs) \<Rightarrow> Some (Next (Sub_Slot iBitsetPos (uiCurrWritePos c)) (c\<lparr>bsSubscribers := bs, PoolCond := True\<rparr>)))"

definition sub_slot :: "nat \<Rightarrow> nat \<Rightarrow> msg_data_pool \<Rightarrow> circle_step option" where
  "sub_slot iBitsetPos i c =
     (if i < uiCurrMsgDataNum c then
        (let uiEndPosition = wrap_pos i in
         if MSG_POOL_SIZE \<le> uiEndPosition then None
         else if DataLocker c ! uiEndPosition then Some Blocked
         else let m = arrMsgData c ! uiEndPosition in
           Some (Next (Sub_Slot iBitsetPos (i + 1)) (set_slot uiEndPosition (m\<lparr>m_bs := (m_bs m)[iBitsetPos := True]\<rparr>) c)))
      else Some (Next (Returns (int iBitsetPos))
        (c\<lparr>arrSubPos := (arrSubPos c)[iBitsetPos := uiCurrWritePos c], PoolCond := False\<rparr>)))"

definition unsub_start :: "nat \<Rightarrow> msg_data_pool \<Rightarrow> circle_step option" where
  "unsub_start iBitsetPos c =
     (if PoolCond c then Some Blocked
      else if iBitsetPos < MSG_SUB_SIZE then
        Some (Next (UnSub_Slot iBitsetPos 0) (c\<lparr>bsSubscribers := (bsSubscribers c)[iBitsetPos := False], PoolCond := True\<rparr>))
      else None)"

definition unsub_slot :: "nat \<Rightarrow> nat \<Rightarrow> msg_data_pool \<Rightarrow> circle_step option" where
  "unsub_slot iBitsetPos i c =
     (if i < MSG_POOL_SIZE then
        if DataLocker c ! i then Some Blocked
        else let m = arrMsgData c ! i in
          Some (Next (UnSub_Slot iBitsetPos (i + 1)) (set_slot i (m\<lparr>m_bs := (m_bs m)[iBitsetPos := False]\<rparr>) c))
      else Some (Next (Returns 0) (c\<lparr>PoolCond := False\<rparr>)))"

subsection \<open>Writing\<close>

definition write_start :: "byte list option \<Rightarrow> msg_data_pool \<Rightarrow> circle_step option" where
  "write_start pData c =
     (case pData of
        None \<Rightarrow> Some (Next (Returns 1) c)
      | Some d \<Rightarrow>
          if d = [] then Some (Next (Returns 1) c)
          else if PoolCond c then Some Blocked
          else if True \<notin> set (bsSubscribers c) then Some (Next (Returns 1) c)
          else let uiEndPosition = wrap_pos ((uiCurrMsgDataNum c + uiCurrWritePos c) mod 2 ^ 32) in
            if MSG_POOL_SIZE \<le> uiEndPosition then None
            else Some (Next (Write_Slot d uiEndPosition) (c\<lparr>PoolCond := True\<rparr>)))"

definition write_slot :: "byte list \<Rightarrow> nat \<Rightarrow> msg_data_pool \<Rightarrow> circle_step option" where
  "write_slot d uiEndPosition c =
     (if DataLocker c ! uiEndPosition then Some Blocked
      else let m = arrMsgData c ! uiEndPosition;
               c = set_slot uiEndPosition (m\<lparr>m_pData := Some d, m_nMsgSize := length d, m_bs := bsSubscribers c\<rparr>) c;
               c = (if uiCurrMsgDataNum c = MSG_POOL_SIZE then c else c\<lparr>uiCurrMsgDataNum := uiCurrMsgDataNum c + 1\<rparr>)
           in Some (Next (Returns 0) (c\<lparr>PoolCond := False\<rparr>)))"

subsection \<open>Reading\<close>

definition read_pos :: "nat \<Rightarrow> msg_data_pool \<Rightarrow> circle_step option" where
  "read_pos iBitsetPos c =
     (if MSG_SUB_SIZE \<le> iBitsetPos then None
      else let uiCurrReadPos = arrSubPos c ! iBitsetPos in
        if MSG_POOL_SIZE \<le> uiCurrReadPos then None else Some (Next (Read_Slot iBitsetPos uiCurrReadPos) c))"

definition read_start :: "nat \<Rightarrow> msg_data_pool \<Rightarrow> circle_step option" where
  "read_start iBitsetPos c =
     (if PoolCond c then Some Blocked
      else if uiCurrMsgDataNum c = 0 \<and> \<not> p_bRelease c then Some (Next (Read_Wait iBitsetPos) c)
      else read_pos iBitsetPos c)"

definition read_wait :: "nat \<Rightarrow> msg_data_pool \<Rightarrow> circle_step option" where
  "read_wait iBitsetPos c =
     (if PoolCond c then Some Blocked
      else if p_bRelease c then Some (Next (Returns 1) c)
      else if uiCurrMsgDataNum c = 0 then Some Blocked
      else read_pos iBitsetPos c)"

definition no_data :: "nat \<Rightarrow> msg_data \<Rightarrow> bool" where
  "no_data iBitsetPos m \<longleftrightarrow> \<not> m_bs m ! iBitsetPos \<or> m_pData m = None \<or> m_nMsgSize m = 0"

definition read_copy :: "nat \<Rightarrow> nat \<Rightarrow> msg_data_pool \<Rightarrow> circle_step option" where
  "read_copy iBitsetPos uiCurrReadPos c =
     (let m = arrMsgData c ! uiCurrReadPos in
      case m_pData m of
        None \<Rightarrow> None
      | Some d \<Rightarrow>
          (let bs = (m_bs m)[iBitsetPos := False];
               c = set_slot uiCurrReadPos (m\<lparr>m_bs := bs\<rparr>) c
           in if True \<notin> set bs
              then Some (Next (Read_Drop iBitsetPos uiCurrReadPos d) (c\<lparr>DataLocker := (DataLocker c)[uiCurrReadPos := True]\<rparr>))
              else Some (Next (Read_Advance iBitsetPos d) c)))"

definition read_slot :: "nat \<Rightarrow> nat \<Rightarrow> msg_data_pool \<Rightarrow> circle_step option" where
  "read_slot iBitsetPos uiCurrReadPos c =
     (if DataLocker c ! uiCurrReadPos then Some Blocked
      else if no_data iBitsetPos (arrMsgData c ! uiCurrReadPos) \<and> \<not> m_bRelease (arrMsgData c ! uiCurrReadPos)
      then Some (Next (Read_Slot_Wait iBitsetPos uiCurrReadPos) c)
      else read_copy iBitsetPos uiCurrReadPos c)"

definition read_slot_wait :: "nat \<Rightarrow> nat \<Rightarrow> msg_data_pool \<Rightarrow> circle_step option" where
  "read_slot_wait iBitsetPos uiCurrReadPos c =
     (if DataLocker c ! uiCurrReadPos then Some Blocked
      else if m_bRelease (arrMsgData c ! uiCurrReadPos) then Some (Next (Returns 1) c)
      else if no_data iBitsetPos (arrMsgData c ! uiCurrReadPos) then Some Blocked
      else read_copy iBitsetPos uiCurrReadPos c)"

definition read_drop :: "nat \<Rightarrow> nat \<Rightarrow> byte list \<Rightarrow> msg_data_pool \<Rightarrow> circle_step option" where
  "read_drop iBitsetPos uiCurrReadPos d c =
     (if PoolCond c then Some Blocked
      else Some (Next (Read_Advance iBitsetPos d)
        (c\<lparr>uiCurrMsgDataNum := uint_dec (uiCurrMsgDataNum c), uiCurrWritePos := wrap_pos (uiCurrWritePos c + 1),
           DataLocker := (DataLocker c)[uiCurrReadPos := False]\<rparr>)))"

definition read_advance :: "nat \<Rightarrow> byte list \<Rightarrow> msg_data_pool \<Rightarrow> circle_step option" where
  "read_advance iBitsetPos d c =
     (if PoolCond c then Some Blocked
      else Some (Next (Returns_Data d) (c\<lparr>arrSubPos := (arrSubPos c)[iBitsetPos := wrap_pos (arrSubPos c ! iBitsetPos + 1)]\<rparr>)))"

subsection \<open>The destructor\<close>

text \<open>It does not take the locks of the slots.\<close>

definition circle_delete :: "msg_data_pool \<Rightarrow> circle_step option" where
  "circle_delete c =
     (if PoolCond c then Some Blocked
      else Some (Next (Returns 0) (c\<lparr>arrMsgData := map (\<lambda>m. m\<lparr>m_pData := None, m_bRelease := True\<rparr>) (arrMsgData c),
        p_bRelease := True, deleted := True\<rparr>)))"

subsection \<open>Threads\<close>

text \<open>A call that has returned does not step; a step of any other on a pool that is released touches freed memory.\<close>

definition returned :: "circle_pc \<Rightarrow> bool" where
  "returned p \<longleftrightarrow> (case p of Returns _ \<Rightarrow> True | Returns_Data _ \<Rightarrow> True | _ \<Rightarrow> False)"

definition circle_step_of :: "circle_pc \<Rightarrow> msg_data_pool \<Rightarrow> circle_step option" where
  "circle_step_of p c = (if deleted c \<and> \<not> returned p then None else case p of
     Sub_Start \<Rightarrow> sub_start c | Sub_Slot k i \<Rightarrow> sub_slot k i c
   | UnSub_Start k \<Rightarrow> unsub_start k c | UnSub_Slot k i \<Rightarrow> unsub_slot k i c
   | Write_Start d \<Rightarrow> write_start d c | Write_Slot d i \<Rightarrow> write_slot d i c
   | Read_Start k \<Rightarrow> read_start k c | Read_Wait k \<Rightarrow> read_wait k c
   | Read_Slot k i \<Rightarrow> read_slot k i c | Read_Slot_Wait k i \<Rightarrow> read_slot_wait k i c
   | Read_Drop k i d \<Rightarrow> read_drop k i d c | Read_Advance k d \<Rightarrow> read_advance k d c
   | Delete_Start \<Rightarrow> circle_delete c | Returns r \<Rightarrow> Some Blocked | Returns_Data d \<Rightarrow> Some Blocked)"

text \<open>The threads \<open>ps\<close> under a schedule.\<close>

fun circle_run :: "nat list \<Rightarrow> circle_pc list \<Rightarrow> msg_data_pool \<Rightarrow> (circle_pc list \<times> msg_data_pool) option" where
  "circle_run [] ps c = Some (ps, c)"
| "circle_run (t # ts) ps c =
     (if t < length ps then do {
        r \<leftarrow> circle_step_of (ps ! t) c;
        case r of Blocked \<Rightarrow> circle_run ts ps c | Next p c \<Rightarrow> circle_run ts (ps[t := p]) c }
      else circle_run ts ps c)"

text \<open>One call without interference; it ends when it has returned or is blocked.\<close>

fun circle_call :: "nat \<Rightarrow> circle_pc \<Rightarrow> msg_data_pool \<Rightarrow> (circle_pc \<times> msg_data_pool) option" where
  "circle_call 0 p c = None"
| "circle_call (Suc n) p c =
     (if returned p then Some (p, c)
      else do {
        r \<leftarrow> circle_step_of p c;
        case r of Blocked \<Rightarrow> Some (p, c) | Next p c \<Rightarrow> circle_call n p c })"

end
