(* ===== verification/CircleBufOk.thy ===== *)
theory CircleBufOk
  imports CircleBuf
begin

text \<open>
  The circular buffer as a broadcast: a log of messages, of which each subscriber reads all, in order.  The buffer
  holds the messages from the slowest subscriber on.
\<close>

subsection \<open>The broadcast\<close>

datatype circle_op = Put_Msg "byte list" | Get_Msg nat

datatype circle_outcome = Stored | Got_Msg "byte list" | Waits

text \<open>Of \<open>n\<close> subscribers, \<open>k\<close> has read the first \<open>cur k\<close> messages of the log.\<close>

definition slowest :: "nat \<Rightarrow> (nat \<Rightarrow> nat) \<Rightarrow> nat" where
  "slowest n cur = Min (cur ` {..<n})"

fun broadcast :: "nat \<Rightarrow> circle_op list \<Rightarrow> byte list list \<Rightarrow> (nat \<Rightarrow> nat) \<Rightarrow> circle_outcome list option" where
  "broadcast n [] log cur = Some []"
| "broadcast n (Put_Msg d # ops) log cur =
     (if d \<noteq> [] \<and> length log - slowest n cur < MSG_POOL_SIZE then map_option (Cons Stored) (broadcast n ops (log @ [d]) cur) else None)"
| "broadcast n (Get_Msg k # ops) log cur =
     (if n \<le> k then None
      else if cur k < length log then map_option (Cons (Got_Msg (log ! cur k))) (broadcast n ops log (cur(k := cur k + 1)))
      else map_option (Cons Waits) (broadcast n ops log cur))"

text \<open>The calls, one after the other.\<close>

definition call_of :: "circle_op \<Rightarrow> circle_pc" where
  "call_of p = (case p of Put_Msg d \<Rightarrow> Write_Start (Some d) | Get_Msg k \<Rightarrow> Read_Start k)"

definition outcome :: "circle_pc \<Rightarrow> circle_outcome option" where
  "outcome p = (case p of Returns r \<Rightarrow> if r = 0 then Some Stored else None | Returns_Data d \<Rightarrow> Some (Got_Msg d) |
     Read_Wait _ \<Rightarrow> Some Waits | Read_Slot_Wait _ _ \<Rightarrow> Some Waits | _ \<Rightarrow> None)"

fun calls :: "circle_op list \<Rightarrow> msg_data_pool \<Rightarrow> circle_outcome list option" where
  "calls [] c = Some []"
| "calls (p # ps) c = do {
     (q, c) \<leftarrow> circle_call 5 (call_of p) c;
     r \<leftarrow> outcome q;
     rs \<leftarrow> calls ps c;
     Some (r # rs) }"

fun subscribe :: "nat \<Rightarrow> msg_data_pool \<Rightarrow> msg_data_pool option" where
  "subscribe 0 c = Some c"
| "subscribe (Suc n) c = do {
     c \<leftarrow> subscribe n c;
     (p, c) \<leftarrow> circle_call 3 Sub_Start c;
     if p = Returns (int n) then Some c else None }"

subsection \<open>The relation\<close>

definition members :: "nat \<Rightarrow> bool list" where
  "members n = map (\<lambda>k. k < n) [0..<8]"

definition readers :: "nat \<Rightarrow> (nat \<Rightarrow> nat) \<Rightarrow> nat \<Rightarrow> bool list" where
  "readers n cur j = map (\<lambda>k. k < n \<and> cur k \<le> j) [0..<8]"

definition at_rest :: "nat \<Rightarrow> msg_data_pool \<Rightarrow> bool" where
  "at_rest n c \<longleftrightarrow> n \<le> 8 \<and> \<not> PoolCond c \<and> DataLocker c = replicate 8 False \<and> \<not> deleted c \<and> \<not> p_bRelease c \<and> bsSubscribers c = members n \<and>
     length (arrMsgData c) = 8 \<and> length (arrSubPos c) = 8"

definition slots_ok :: "nat \<Rightarrow> byte list list \<Rightarrow> (nat \<Rightarrow> nat) \<Rightarrow> nat \<Rightarrow> msg_data list \<Rightarrow> bool" where
  "slots_ok n log cur D arr \<longleftrightarrow> (\<forall>i < 8. \<not> m_bRelease (arr ! i)) \<and>
     (\<forall>j. D \<le> j \<and> j < length log \<longrightarrow> m_pData (arr ! (j mod 8)) = Some (log ! j) \<and> m_nMsgSize (arr ! (j mod 8)) = length (log ! j) \<and>
        m_bs (arr ! (j mod 8)) = readers n cur j) \<and>
     (\<forall>i < 8. (\<forall>j. D \<le> j \<and> j < length log \<longrightarrow> j mod 8 \<noteq> i) \<longrightarrow> m_bs (arr ! i) = replicate 8 False)"

definition cursors_ok :: "nat \<Rightarrow> byte list list \<Rightarrow> (nat \<Rightarrow> nat) \<Rightarrow> nat \<Rightarrow> nat list \<Rightarrow> bool" where
  "cursors_ok n log cur D pos \<longleftrightarrow> (\<forall>k < n. D \<le> cur k \<and> cur k \<le> length log \<and> pos ! k = cur k mod 8) \<and> (\<exists>k < n. cur k = D)"

definition circle_rel :: "nat \<Rightarrow> byte list list \<Rightarrow> (nat \<Rightarrow> nat) \<Rightarrow> nat \<Rightarrow> msg_data_pool \<Rightarrow> bool" where
  "circle_rel n log cur D c \<longleftrightarrow> at_rest n c \<and> slots_ok n log cur D (arrMsgData c) \<and> cursors_ok n log cur D (arrSubPos c) \<and> [] \<notin> set log \<and>
     length log \<le> D + 8 \<and> uiCurrMsgDataNum c = length log - D \<and> uiCurrWritePos c = D mod 8"

lemma circle_relD:
  assumes "circle_rel n log cur D c"
  shows "at_rest n c" "slots_ok n log cur D (arrMsgData c)" "cursors_ok n log cur D (arrSubPos c)" "[] \<notin> set log"
    "length log \<le> D + 8" "uiCurrMsgDataNum c = length log - D" "uiCurrWritePos c = D mod 8"
  using assms by (simp_all add: circle_rel_def)

lemma at_restD:
  assumes "at_rest n c"
  shows "n \<le> 8" "\<not> PoolCond c" "DataLocker c = replicate 8 False" "\<not> deleted c" "\<not> p_bRelease c" "bsSubscribers c = members n"
    "length (arrMsgData c) = 8" "length (arrSubPos c) = 8"
  using assms by (simp_all add: at_rest_def)

lemma slowest_eq: "cursors_ok n log cur D pos \<Longrightarrow> slowest n cur = D"
  unfolding slowest_def by (rule Min_eqI) (auto simp: cursors_ok_def)

lemma readers_nth: "k < 8 \<Longrightarrow> readers n cur j ! k = (k < n \<and> cur k \<le> j)"
  by (simp add: readers_def)

lemma readers_none: "n \<le> 8 \<Longrightarrow> True \<notin> set (readers n cur j) \<longleftrightarrow> (\<forall>k < n. j < cur k)"
  by (auto simp: readers_def image_iff)

lemma readers_read: "readers n (cur(k := cur k + 1)) (cur k) = (readers n cur (cur k))[k := False]"
  by (rule nth_equalityI) (auto simp: readers_def nth_list_update)

lemma readers_other: "j \<noteq> cur k \<Longrightarrow> readers n (cur(k := cur k + 1)) j = readers n cur j"
  by (auto simp: readers_def)

lemma readers_members: "(\<And>k. k < n \<Longrightarrow> cur k \<le> j) \<Longrightarrow> readers n cur j = members n"
  by (auto simp: readers_def members_def)

lemma window_inj:
  fixes D :: nat
  assumes "D \<le> j" "j < D + 8" "D \<le> k" "k < D + 8" "j mod 8 = k mod 8"
  shows "j = k"
proof -
  have "int j mod 8 = int k mod 8" using assms(5) by (metis of_nat_mod of_nat_numeral)
  then have "(int j - int k) mod 8 = 0" by (simp add: mod_eq_dvd_iff)
  then show ?thesis using assms(1-4) by presburger
qed

lemma wrap_pos_mod: "i < 16 \<Longrightarrow> wrap_pos i = i mod 8"
  by (simp add: wrap_pos_def MSG_POOL_SIZE_def) (simp add: mod_if)

lemma wrap_Suc: "wrap_pos (Suc (i mod 8)) = Suc i mod 8"
proof -
  have "i mod 8 < 8" by simp
  then have "Suc (i mod 8) < 16" by linarith
  from wrap_pos_mod [OF this] show ?thesis by (simp add: mod_Suc_eq)
qed

lemma write_pos:
  fixes D L :: nat
  assumes "D \<le> L" and "L \<le> D + 8"
  shows "wrap_pos ((L - D + D mod 8) mod 2 ^ 32) = L mod 8"
proof -
  have b: "L - D + D mod 8 < 16" using assms mod_less_divisor [of 8 D] by linarith
  then have "(L - D + D mod 8) mod 2 ^ 32 = L - D + D mod 8" by (intro mod_less) simp
  moreover have "(L - D + D mod 8) mod 8 = L mod 8" using assms(1) by (metis mod_add_right_eq le_add_diff_inverse2)
  ultimately show ?thesis using wrap_pos_mod [OF b] by simp
qed

lemma cursors_le: "cursors_ok n log cur D pos \<Longrightarrow> D \<le> length log"
  by (auto simp: cursors_ok_def)

lemma members_some: "0 < n \<Longrightarrow> True \<in> set (members n)"
  by (force simp: members_def)

lemma call_next: "0 < k \<Longrightarrow> \<not> returned p \<Longrightarrow> circle_step_of p c = Some (Next q c') \<Longrightarrow> circle_call k p c = circle_call (k - 1) q c'"
  by (cases k) simp_all

lemma call_blocked: "0 < k \<Longrightarrow> \<not> returned p \<Longrightarrow> circle_step_of p c = Some Blocked \<Longrightarrow> circle_call k p c = Some (p, c)"
  by (cases k) simp_all

lemma call_done: "0 < k \<Longrightarrow> returned p \<Longrightarrow> circle_call k p c = Some (p, c)"
  by (cases k) simp_all

subsection \<open>Writing\<close>

text \<open>What a call of \<open>Write\<close> does with the slots.\<close>

definition written :: "byte list \<Rightarrow> nat \<Rightarrow> msg_data_pool \<Rightarrow> msg_data_pool" where
  "written d i c = c\<lparr>arrMsgData := (arrMsgData c)[i := (arrMsgData c ! i)\<lparr>m_pData := Some d, m_nMsgSize := length d, m_bs := bsSubscribers c\<rparr>],
     uiCurrMsgDataNum := (if uiCurrMsgDataNum c = 8 then 8 else uiCurrMsgDataNum c + 1)\<rparr>"

lemma write_call:
  assumes R: "circle_rel n log cur D c" and d: "d \<noteq> []"
  shows "circle_call 5 (Write_Start (Some d)) c = Some (Returns 0, written d (length log mod 8) c)"
proof -
  note A = at_restD [OF circle_relD(1) [OF R]] and C = circle_relD [OF R]
  have n: "0 < n" using C(3) by (auto simp: cursors_ok_def)
  have D: "D \<le> length log" by (rule cursors_le [OF C(3)])
  have p: "wrap_pos ((uiCurrMsgDataNum c + uiCurrWritePos c) mod 2 ^ 32) = length log mod 8" using write_pos [OF D C(5)] C(6,7) by simp
  have "length log mod 8 < MSG_POOL_SIZE" by (simp add: MSG_POOL_SIZE_def)
  then have 1: "circle_step_of (Write_Start (Some d)) c = Some (Next (Write_Slot d (length log mod 8)) (c\<lparr>PoolCond := True\<rparr>))"
    using A(2,4,6) members_some [OF n] d p by (simp add: circle_step_of_def write_start_def)
  have 2: "circle_step_of (Write_Slot d (length log mod 8)) (c\<lparr>PoolCond := True\<rparr>) = Some (Next (Returns 0) (written d (length log mod 8) c))"
    using A(2-4) by (cases c) (simp add: circle_step_of_def write_slot_def set_slot_def written_def Let_def MSG_POOL_SIZE_def)
  show ?thesis using call_next [OF _ _ 1] call_next [OF _ _ 2] call_done by (simp add: returned_def)
qed

lemma circle_write:
  assumes R: "circle_rel n log cur D c" and d: "d \<noteq> []" and f: "length log < D + 8"
  shows "circle_rel n (log @ [d]) cur D (written d (length log mod 8) c)"
proof -
  note A = at_restD [OF circle_relD(1) [OF R]] and C = circle_relD [OF R]
  let ?L = "length log" let ?i = "length log mod 8" let ?c = "written d ?i c"
  have D: "D \<le> ?L" by (rule cursors_le [OF C(3)])
  have i: "?i < 8" by simp
  have arr: "arrMsgData ?c ! m = (if m = ?i then (arrMsgData c ! ?i)\<lparr>m_pData := Some d, m_nMsgSize := length d, m_bs := members n\<rparr> else arrMsgData c ! m)"
    for m using A(6,7) by (simp add: written_def nth_list_update)
  have mem: "readers n cur ?L = members n" using C(3) by (intro readers_members) (auto simp: cursors_ok_def)
  have other: "j mod 8 \<noteq> ?i" if "D \<le> j" "j < ?L" for j using window_inj [of D j ?L] that D f by auto
  have "slots_ok n (log @ [d]) cur D (arrMsgData ?c)"
    unfolding slots_ok_def
  proof (intro conjI allI impI)
    fix j
    assume j: "D \<le> j \<and> j < length (log @ [d])"
    show "m_pData (arrMsgData ?c ! (j mod 8)) = Some ((log @ [d]) ! j)" "m_nMsgSize (arrMsgData ?c ! (j mod 8)) = length ((log @ [d]) ! j)"
      "m_bs (arrMsgData ?c ! (j mod 8)) = readers n cur j"
      using j other [of j] C(2) mem by (cases "j = ?L"; simp add: arr slots_ok_def nth_append)+
  next
    fix m :: nat
    assume m: "m < 8" and "\<forall>j. D \<le> j \<and> j < length (log @ [d]) \<longrightarrow> j mod 8 \<noteq> m"
    then have "m \<noteq> ?i" "\<forall>j. D \<le> j \<and> j < ?L \<longrightarrow> j mod 8 \<noteq> m" using D by auto
    then show "m_bs (arrMsgData ?c ! m) = replicate 8 False" using C(2) m by (simp add: arr slots_ok_def)
  next
    fix m :: nat
    assume "m < 8"
    then show "\<not> m_bRelease (arrMsgData ?c ! m)" using C(2) by (simp add: arr slots_ok_def)
  qed
  moreover have "at_rest n ?c" using C(1) by (simp add: at_rest_def written_def)
  moreover have "cursors_ok n (log @ [d]) cur D (arrSubPos ?c)" using C(3) by (auto simp: cursors_ok_def written_def)
  moreover have "uiCurrMsgDataNum ?c = length (log @ [d]) - D" 
  proof -
    have "length log - D \<noteq> 8" "Suc (length log - D) = Suc (length log) - D" using D f by linarith+
    then show ?thesis using C(6) by (simp add: written_def)
  qed
  ultimately show ?thesis using C(4,7) d f by (simp add: circle_rel_def written_def)
qed

subsection \<open>Reading\<close>

lemma read_begins:
  assumes R: "circle_rel n log cur D c" and k: "k < n"
  shows "circle_step_of (Read_Start k) c = Some (Next (if D = length log then Read_Wait k else Read_Slot k (cur k mod 8)) c)"
proof -
  note A = at_restD [OF circle_relD(1) [OF R]] and C = circle_relD [OF R]
  have "D \<le> length log" by (rule cursors_le [OF C(3)])
  then have z: "uiCurrMsgDataNum c = 0 \<longleftrightarrow> D = length log" using C(6) by auto
  have "\<not> MSG_SUB_SIZE \<le> k" "arrSubPos c ! k = cur k mod 8" "\<not> MSG_POOL_SIZE \<le> cur k mod 8"
    using k A(1) C(3) by (auto simp: MSG_SUB_SIZE_def MSG_POOL_SIZE_def cursors_ok_def not_le)
  then show ?thesis using A(2,4,5) z by (simp add: circle_step_of_def read_start_def read_pos_def)
qed

text \<open>A subscriber that has read everything waits.\<close>

lemma circle_wait:
  assumes R: "circle_rel n log cur D c" and k: "k < n" "cur k = length log"
  shows "\<exists>p. circle_call 5 (Read_Start k) c = Some (p, c) \<and> outcome p = Some Waits"
proof -
  note A = at_restD [OF circle_relD(1) [OF R]] and C = circle_relD [OF R]
  have k8: "k < 8" using k(1) A(1) by simp
  show ?thesis
  proof (cases "D = length log")
    case True
    then have "circle_step_of (Read_Wait k) c = Some Blocked"
      using A(2,4,5) C(6) by (simp add: circle_step_of_def read_wait_def returned_def)
    then have "circle_call 5 (Read_Start k) c = Some (Read_Wait k, c)"
      using read_begins [OF R k(1)] True call_next [of 5 "Read_Start k" c "Read_Wait k" c] call_blocked [of 4 "Read_Wait k" c]
      by (simp add: returned_def)
    then show ?thesis by (simp add: outcome_def)
  next
    case False
    let ?i = "cur k mod 8"
    have i: "?i < 8" by simp
    have nb: "\<not> m_bs (arrMsgData c ! ?i) ! k"
    proof (cases "\<exists>j. D \<le> j \<and> j < length log \<and> j mod 8 = ?i")
      case True
      then obtain j where j: "D \<le> j" "j < length log" "j mod 8 = ?i" by blast
      then have "m_bs (arrMsgData c ! ?i) = readers n cur j" using C(2) unfolding slots_ok_def by metis
      then show ?thesis using readers_nth [OF k8] j(2) k by simp
    next
      case False
      then have "m_bs (arrMsgData c ! ?i) = replicate 8 False" using C(2) i unfolding slots_ok_def by blast
      then show ?thesis using k8 by simp
    qed
    have rel: "\<not> m_bRelease (arrMsgData c ! ?i)" using C(2) i by (simp add: slots_ok_def)
    have "circle_step_of (Read_Slot k ?i) c = Some (Next (Read_Slot_Wait k ?i) c)"
      "circle_step_of (Read_Slot_Wait k ?i) c = Some Blocked"
      using A(3,4) nb rel by (simp_all add: circle_step_of_def read_slot_def read_slot_wait_def no_data_def)
    then have "circle_call 5 (Read_Start k) c = Some (Read_Slot_Wait k ?i, c)"
      using read_begins [OF R k(1)] False call_next [of 5 "Read_Start k" c "Read_Slot k ?i" c] call_next [of 4 "Read_Slot k ?i" c "Read_Slot_Wait k ?i" c]
        call_blocked [of 3 "Read_Slot_Wait k ?i" c] by (simp add: returned_def)
    then show ?thesis by (simp add: outcome_def)
  qed
qed

text \<open>The subscriber is taken from the readers of the slot, and its position moves on.\<close>

definition taken :: "nat \<Rightarrow> nat \<Rightarrow> msg_data_pool \<Rightarrow> msg_data_pool" where
  "taken k i c = set_slot i ((arrMsgData c ! i)\<lparr>m_bs := (m_bs (arrMsgData c ! i))[k := False]\<rparr>) c"

definition dropped :: "msg_data_pool \<Rightarrow> msg_data_pool" where
  "dropped c = c\<lparr>uiCurrMsgDataNum := uint_dec (uiCurrMsgDataNum c), uiCurrWritePos := wrap_pos (uiCurrWritePos c + 1)\<rparr>"

definition advanced :: "nat \<Rightarrow> msg_data_pool \<Rightarrow> msg_data_pool" where
  "advanced k c = c\<lparr>arrSubPos := (arrSubPos c)[k := wrap_pos (arrSubPos c ! k + 1)]\<rparr>"

lemma read_call:
  assumes A: "at_rest n c" and s: "circle_step_of (Read_Start k) c = Some (Next (Read_Slot k i) c)" and i: "i < 8"
    and m: "m_bs (arrMsgData c ! i) ! k" "m_pData (arrMsgData c ! i) = Some d" "m_nMsgSize (arrMsgData c ! i) \<noteq> 0"
  shows "circle_call 5 (Read_Start k) c = Some (Returns_Data d,
    advanced k (if True \<notin> set ((m_bs (arrMsgData c ! i))[k := False]) then dropped (taken k i c) else taken k i c))"
proof -
  note A = at_restD [OF A]
  have nd: "\<not> no_data k (arrMsgData c ! i)" using m by (simp add: no_data_def)
  have adv: "circle_step_of (Read_Advance k d) c' = Some (Next (Returns_Data d) (advanced k c'))"
    if "\<not> PoolCond c'" "\<not> deleted c'" for c' using that by (simp add: circle_step_of_def read_advance_def advanced_def)
  have t: "\<not> PoolCond (taken k i c)" "\<not> deleted (taken k i c)" "\<not> PoolCond (dropped (taken k i c))" "\<not> deleted (dropped (taken k i c))"
    using A(2,4) by (simp_all add: taken_def set_slot_def dropped_def)
  show ?thesis
  proof (cases "True \<notin> set ((m_bs (arrMsgData c ! i))[k := False])")
    case False
    then have "circle_step_of (Read_Slot k i) c = Some (Next (Read_Advance k d) (taken k i c))"
      using A(3,4) nd m(2) i by (simp add: circle_step_of_def read_slot_def read_copy_def taken_def Let_def)
    then show ?thesis using False s adv [OF t(1,2)] call_next [of 5 "Read_Start k" c "Read_Slot k i" c]
        call_next [of 4 "Read_Slot k i" c "Read_Advance k d" "taken k i c"]
        call_next [of 3 "Read_Advance k d" "taken k i c" "Returns_Data d" "advanced k (taken k i c)"]
        call_done [of 2 "Returns_Data d" "advanced k (taken k i c)"]
      by (simp add: returned_def)
  next
    case True
    let ?c = "(taken k i c)\<lparr>DataLocker := (DataLocker c)[i := True]\<rparr>"
    have 1: "circle_step_of (Read_Slot k i) c = Some (Next (Read_Drop k i d) ?c)"
      using True A(3,4) nd m(2) i by (simp add: circle_step_of_def read_slot_def read_copy_def taken_def set_slot_def Let_def)
    have "(replicate 8 False)[i := False] = replicate 8 False" using list_update_id [of "replicate 8 False" i] i by simp
    then have "?c\<lparr>uiCurrMsgDataNum := a, uiCurrWritePos := b, DataLocker := (DataLocker ?c)[i := False]\<rparr> =
        (taken k i c)\<lparr>uiCurrMsgDataNum := a, uiCurrWritePos := b\<rparr>" for a b
      using A(3) by (cases c) (simp add: taken_def set_slot_def)
    then have 2: "circle_step_of (Read_Drop k i d) ?c = Some (Next (Read_Advance k d) (dropped (taken k i c)))"
      using t by (simp add: circle_step_of_def read_drop_def dropped_def)
    show ?thesis using True s 1 2 adv [OF t(3,4)] call_next [of 5 "Read_Start k" c "Read_Slot k i" c]
        call_next [of 4 "Read_Slot k i" c "Read_Drop k i d" ?c] call_next [of 3 "Read_Drop k i d" ?c "Read_Advance k d" "dropped (taken k i c)"]
        call_next [of 2 "Read_Advance k d" "dropped (taken k i c)" "Returns_Data d" "advanced k (dropped (taken k i c))"]
        call_done [of 1 "Returns_Data d" "advanced k (dropped (taken k i c))"]
      by (simp add: returned_def)
  qed
qed

text \<open>The slots after the read, for the lower bound \<open>D\<close> that is left.\<close>

lemma slots_taken:
  assumes S: "slots_ok n log cur D arr" and len: "length arr = 8" "length log \<le> D + 8" and c: "D \<le> cur k" "cur k < length log"
    and D': "D' = D \<or> (D' = Suc D \<and> cur k = D \<and> (\<forall>j < n. D < (cur(k := cur k + 1)) j))" and n: "n \<le> 8"
  shows "slots_ok n log (cur(k := cur k + 1)) D'
    (arr[cur k mod 8 := (arr ! (cur k mod 8))\<lparr>m_bs := (m_bs (arr ! (cur k mod 8)))[k := False]\<rparr>])"
proof -
  let ?i = "cur k mod 8" let ?cur = "cur(k := cur k + 1)"
  let ?arr = "arr[?i := (arr ! ?i)\<lparr>m_bs := (m_bs (arr ! ?i))[k := False]\<rparr>]"
  have arr: "?arr ! m = (if m = ?i then (arr ! ?i)\<lparr>m_bs := (m_bs (arr ! ?i))[k := False]\<rparr> else arr ! m)" for m
    using len(1) by (simp add: nth_list_update)
  have slot: "m_pData (?arr ! (j mod 8)) = Some (log ! j) \<and> m_nMsgSize (?arr ! (j mod 8)) = length (log ! j) \<and>
      m_bs (?arr ! (j mod 8)) = readers n ?cur j" if j: "D \<le> j" "j < length log" for j
  proof -
    have o: "m_pData (arr ! (j mod 8)) = Some (log ! j)" "m_nMsgSize (arr ! (j mod 8)) = length (log ! j)" "m_bs (arr ! (j mod 8)) = readers n cur j"
      using S j by (simp_all add: slots_ok_def)
    show ?thesis
    proof (cases "j = cur k")
      case True
      then show ?thesis using o readers_read [of n cur k] len(1) by simp
    next
      case False
      then have "j mod 8 \<noteq> ?i" using window_inj [of D j "cur k"] j c len(2) by auto
      then show ?thesis using o readers_other [of j cur k n] False by (simp add: arr)
    qed
  qed
  have empty: "m_bs (?arr ! m) = replicate 8 False" if m: "m < 8" "\<forall>j. D' \<le> j \<and> j < length log \<longrightarrow> j mod 8 \<noteq> m" for m
  proof (cases "\<exists>j. D \<le> j \<and> j < length log \<and> j mod 8 = m")
    case True
    then obtain j where j: "D \<le> j" "j < length log" "j mod 8 = m" by blast
    then have "\<not> D' \<le> j" using m(2) by blast
    then have jD: "j = D" "\<forall>l < n. D < ?cur l" using D' j(1) by auto
    then have "m_bs (?arr ! m) = readers n ?cur D" using slot [OF j(1,2)] j(3) by simp
    also have "\<dots> = replicate 8 False" by (rule nth_equalityI) (use jD(2) in \<open>auto simp: readers_def\<close>)
    finally show ?thesis .
  next
    case False
    then have "m_bs (arr ! m) = replicate 8 False" using S m(1) unfolding slots_ok_def by blast
    moreover have "m \<noteq> ?i" using False c by auto
    ultimately show ?thesis by (simp add: arr)
  qed
  have "\<not> m_bRelease (?arr ! m)" if "m < 8" for m using S that by (simp add: arr slots_ok_def)
  moreover have "D \<le> D'" using D' by auto
  ultimately show ?thesis using slot empty unfolding slots_ok_def by (meson le_trans)
qed

lemma circle_read:
  assumes R: "circle_rel n log cur D c" and k: "k < n" "cur k < length log"
  shows "\<exists>c' D'. circle_call 5 (Read_Start k) c = Some (Returns_Data (log ! cur k), c') \<and> circle_rel n log (cur(k := cur k + 1)) D' c'"
proof -
  note A = at_restD [OF circle_relD(1) [OF R]] and C = circle_relD [OF R]
  let ?i = "cur k mod 8" let ?cur = "cur(k := cur k + 1)"
  have i: "?i < 8" by simp
  have k8: "k < 8" using k(1) A(1) by simp
  have D: "D \<le> cur k" using C(3) k(1) by (simp add: cursors_ok_def)
  have m: "m_pData (arrMsgData c ! ?i) = Some (log ! cur k)" "m_nMsgSize (arrMsgData c ! ?i) = length (log ! cur k)" "m_bs (arrMsgData c ! ?i) = readers n cur (cur k)"
    using C(2) D k(2) by (simp_all add: slots_ok_def)
  have ne: "log ! cur k \<noteq> []" using C(4) k(2) by (metis nth_mem)
  have s: "circle_step_of (Read_Start k) c = Some (Next (Read_Slot k ?i) c)" using read_begins [OF R k(1)] D k(2) by simp
  have bs: "m_bs (arrMsgData c ! ?i) ! k" using m(3) readers_nth [OF k8] k(1) by simp
  have bs': "(m_bs (arrMsgData c ! ?i))[k := False] = readers n ?cur (cur k)" unfolding m(3) by (rule readers_read [symmetric])
  define last_one where "last_one = (True \<notin> set (readers n ?cur (cur k)))"
  have last: "last_one \<longleftrightarrow> (\<forall>j < n. cur k < ?cur j)" unfolding last_one_def by (rule readers_none [OF A(1)])
  define c' where "c' = advanced k (if last_one then dropped (taken k ?i c) else taken k ?i c)"
  have call: "circle_call 5 (Read_Start k) c = Some (Returns_Data (log ! cur k), c')"
    using read_call [OF C(1) s i bs m(1)] m(2) ne unfolding bs' c'_def last_one_def by simp
  define D' where "D' = (if last_one then Suc D else D)"
  obtain k0 where k0: "k0 < n" "cur k0 = D" using C(3) by (auto simp: cursors_ok_def)
  have lastD: "cur k = D" if last_one using that last k0 D by (metis fun_upd_apply leD order.order_iff_strict)
  have D': "D' = D \<or> (D' = Suc D \<and> cur k = D \<and> (\<forall>j < n. D < ?cur j))" using last lastD by (auto simp: D'_def)
  have "slots_ok n log ?cur D' (arrMsgData c')"
    using slots_taken [OF C(2) A(7) C(5) D k(2) D' A(1)] by (simp add: c'_def advanced_def dropped_def taken_def set_slot_def)
  moreover have "cursors_ok n log ?cur D' (arrSubPos c')"
  proof -
    have pos: "arrSubPos c' = (arrSubPos c)[k := Suc (cur k) mod 8]"
      using C(3) k(1) wrap_Suc [of "cur k"] by (simp add: c'_def advanced_def dropped_def taken_def set_slot_def cursors_ok_def)
    have "D' \<le> ?cur j \<and> ?cur j \<le> length log \<and> arrSubPos c' ! j = ?cur j mod 8" if "j < n" for j
    proof -
      have "D' \<le> ?cur j" using D' C(3) that by (auto simp: cursors_ok_def Suc_le_eq)
      then show ?thesis using C(3) that k(2) A(1,8) unfolding pos by (auto simp: cursors_ok_def nth_list_update)
    qed
    moreover have "\<exists>j < n. ?cur j = D'"
    proof (cases last_one)
      case True
      then show ?thesis using lastD k(1) by (auto simp: D'_def)
    next
      case False
      then obtain j where j: "j < n" "?cur j \<le> cur k" using last by (auto simp: not_less)
      have "\<exists>l < n. l \<noteq> k \<and> cur l = D"
      proof (cases "cur k = D")
        case True
        then show ?thesis using j C(3) by (intro exI [of _ j]) (auto simp: cursors_ok_def split: if_splits)
      next
        case f: False
        then show ?thesis using k0 by blast
      qed
      then show ?thesis using False by (auto simp: D'_def)
    qed
    ultimately show ?thesis by (simp add: cursors_ok_def)
  qed
  moreover have "at_rest n c'" using C(1) by (simp add: at_rest_def c'_def advanced_def dropped_def taken_def set_slot_def)
  moreover have "uiCurrMsgDataNum c' = length log - D'"
    using C(6) D k(2) by (simp add: c'_def advanced_def dropped_def taken_def set_slot_def D'_def uint_dec_def)
  moreover have "uiCurrWritePos c' = D' mod 8"
    using C(7) wrap_Suc [of D] by (simp add: c'_def advanced_def dropped_def taken_def set_slot_def D'_def)
  ultimately have "circle_rel n log ?cur D' c'" using C(4,5) by (auto simp: circle_rel_def D'_def)
  then show ?thesis using call by blast
qed

subsection \<open>Sequences of calls\<close>

lemma calls_broadcast:
  "circle_rel n log cur D c \<Longrightarrow> broadcast n ops log cur = Some rs \<Longrightarrow> calls ops c = Some rs"
proof (induction ops arbitrary: log cur D c rs)
  case Nil
  then show ?case by simp
next
  case (Cons p ops)
  note R = Cons.prems(1)
  have sl: "slowest n cur = D" by (rule slowest_eq [OF circle_relD(3) [OF R]])
  show ?case
  proof (cases p)
    case (Put_Msg d)
    then obtain rs' where d: "d \<noteq> []" "length log - D < 8" "broadcast n ops (log @ [d]) cur = Some rs'" "rs = Stored # rs'"
      using Cons.prems(2) sl by (auto simp: MSG_POOL_SIZE_def split: if_splits)
    then have "length log < D + 8" by simp
    from Cons.IH [OF circle_write [OF R d(1) this] d(3)] write_call [OF R d(1)] show ?thesis
      using Put_Msg d(4) by (simp add: call_of_def outcome_def)
  next
    case (Get_Msg k)
    then have k: "k < n" using Cons.prems(2) by (auto split: if_splits)
    show ?thesis
    proof (cases "cur k < length log")
      case True
      with Get_Msg k Cons.prems(2) obtain rs' where rs: "broadcast n ops log (cur(k := cur k + 1)) = Some rs'" "rs = Got_Msg (log ! cur k) # rs'"
        by (auto split: if_splits)
      from circle_read [OF R k True] obtain c' D' where r: "circle_call 5 (Read_Start k) c = Some (Returns_Data (log ! cur k), c')"
        "circle_rel n log (cur(k := cur k + 1)) D' c'" by blast
      then show ?thesis using Cons.IH [OF r(2) rs(1)] rs(2) Get_Msg by (simp add: call_of_def outcome_def)
    next
      case False
      with Get_Msg k Cons.prems(2) obtain rs' where rs: "broadcast n ops log cur = Some rs'" "rs = Waits # rs'" by (auto split: if_splits)
      have "cur k = length log" using False circle_relD(3) [OF R] k by (auto simp: cursors_ok_def)
      from circle_wait [OF R k this] obtain q where "circle_call 5 (Read_Start k) c = Some (q, c)" "outcome q = Some Waits" by blast
      then show ?thesis using Cons.IH [OF R rs(1)] rs(2) Get_Msg by (simp add: call_of_def)
    qed
  qed
qed

subsection \<open>Subscribing to an empty buffer\<close>

lemma SetFirstEmptyField_members:
  "j \<le> n \<Longrightarrow> n < m \<Longrightarrow> SetFirstEmptyField j (map (\<lambda>k. k < n) [j..<m]) = Some (n, map (\<lambda>k. k < Suc n) [j..<m])"
proof (induction "n - j" arbitrary: j)
  case 0
  then have "[j..<m] = j # [Suc j..<m]" "j = n" by (simp_all add: upt_conv_Cons)
  then show ?case by (simp add: less_Suc_eq)
next
  case (Suc d)
  then have "[j..<m] = j # [Suc j..<m]" "j < n" by (simp_all add: upt_conv_Cons)
  moreover have "SetFirstEmptyField (Suc j) (map (\<lambda>k. k < n) [Suc j..<m]) = Some (n, map (\<lambda>k. k < Suc n) [Suc j..<m])"
    by (rule Suc.hyps(1)) (use Suc.hyps(2) Suc.prems in auto)
  ultimately show ?case by (simp add: less_Suc_eq)
qed

lemma subscribe_one:
  assumes "at_rest n c" and "n < 8"
  shows "circle_call 3 Sub_Start c = (let c' = c\<lparr>bsSubscribers := members (Suc n), PoolCond := True\<rparr> in
    circle_call 2 (Sub_Slot n (uiCurrWritePos c)) c')"
proof -
  note A = at_restD [OF assms(1)]
  have "SetFirstEmptyField 0 (bsSubscribers c) = Some (n, members (Suc n))"
    unfolding A(6) members_def using SetFirstEmptyField_members [of 0 n 8] assms(2) by simp
  then have "circle_step_of Sub_Start c = Some (Next (Sub_Slot n (uiCurrWritePos c)) (c\<lparr>bsSubscribers := members (Suc n), PoolCond := True\<rparr>))"
    using A(2,4) by (simp add: circle_step_of_def sub_start_def)
  then show ?thesis using call_next [of 3 Sub_Start c] by (simp add: returned_def)
qed

text \<open>A subscriber for which the loop over the messages does nothing.\<close>

lemma subscribe_no_loop:
  assumes "at_rest n c" and "n < 8" and "uiCurrMsgDataNum c \<le> uiCurrWritePos c"
  shows "circle_call 3 Sub_Start c =
    Some (Returns (int n), c\<lparr>bsSubscribers := members (Suc n), arrSubPos := (arrSubPos c)[n := uiCurrWritePos c]\<rparr>)"
proof -
  note A = at_restD [OF assms(1)]
  let ?c = "c\<lparr>bsSubscribers := members (Suc n), PoolCond := True\<rparr>"
  let ?d = "c\<lparr>bsSubscribers := members (Suc n), arrSubPos := (arrSubPos c)[n := uiCurrWritePos c]\<rparr>"
  have "?d = ?c\<lparr>arrSubPos := (arrSubPos c)[n := uiCurrWritePos c], PoolCond := False\<rparr>" using A(2) by (cases c) simp
  then have "circle_step_of (Sub_Slot n (uiCurrWritePos c)) ?c = Some (Next (Returns (int n)) ?d)"
    using A(4) assms(3) by (simp add: circle_step_of_def sub_slot_def)
  then show ?thesis using subscribe_one [OF assms(1,2)] call_next [of 2 "Sub_Slot n (uiCurrWritePos c)" ?c] call_done [of 1 "Returns (int n)" ?d]
    by (simp add: returned_def)
qed

lemma subscribe_ok:
  "n \<le> 8 \<Longrightarrow> \<exists>c. subscribe n circle_init = Some c \<and> at_rest n c \<and> arrMsgData c = arrMsgData circle_init \<and> arrSubPos c = replicate 8 0 \<and>
     uiCurrWritePos c = 0 \<and> uiCurrMsgDataNum c = 0"
proof (induction n)
  case 0
  have "replicate 8 False = members 0" by (rule nth_equalityI) (simp_all add: members_def)
  then show ?case by (simp add: at_rest_def circle_init_def MSG_POOL_SIZE_def MSG_SUB_SIZE_def)
next
  case (Suc n)
  then obtain c where c: "subscribe n circle_init = Some c" "at_rest n c" "arrMsgData c = arrMsgData circle_init" "arrSubPos c = replicate 8 0"
    "uiCurrWritePos c = 0" "uiCurrMsgDataNum c = 0" by auto
  have "(replicate 8 0)[n := 0] = (replicate 8 (0::nat))" using list_update_id [of "replicate 8 (0::nat)" n] Suc.prems by simp
  with subscribe_no_loop [OF c(2)] c Suc.prems show ?case by (simp add: at_rest_def)
qed

lemma circle_start:
  assumes "0 < n" and "n \<le> 8"
  shows "\<exists>c. subscribe n circle_init = Some c \<and> circle_rel n [] (\<lambda>_. 0) 0 c"
proof -
  obtain c where c: "subscribe n circle_init = Some c" "at_rest n c" "arrMsgData c = arrMsgData circle_init" "arrSubPos c = replicate 8 0"
    "uiCurrWritePos c = 0" "uiCurrMsgDataNum c = 0" using subscribe_ok [OF assms(2)] by blast
  have "slots_ok n [] (\<lambda>_. 0) 0 (arrMsgData c)" unfolding c(3) by (simp add: slots_ok_def circle_init_def MSG_POOL_SIZE_def MSG_SUB_SIZE_def)
  moreover have "cursors_ok n [] (\<lambda>_. 0) 0 (arrSubPos c)" unfolding c(4) using assms by (auto simp: cursors_ok_def)
  ultimately show ?thesis using c by (auto simp: circle_rel_def)
qed

end
