(* ===== verification/CircleBufClaims.thy ===== *)
theory CircleBufClaims
  imports CircleBufOk
begin

text \<open>What the circular buffer does.\<close>

subsection \<open>A full buffer\<close>

lemma circle_writes:
  "circle_rel n log cur D c \<Longrightarrow> [] \<notin> set ds \<Longrightarrow> length log + length ds \<le> D + 8 \<Longrightarrow>
   \<exists>c'. circle_rel n (log @ ds) cur D c' \<and>
     (\<forall>ops. calls (map Put_Msg ds @ ops) c = map_option (\<lambda>rs. replicate (length ds) Stored @ rs) (calls ops c'))"
proof (induction ds arbitrary: log c)
  case Nil
  have "map_option (\<lambda>rs. rs) r = r" for r :: "circle_outcome list option" by (cases r) simp_all
  with Nil show ?case by (intro exI [of _ c]) simp
next
  case (Cons d ds)
  have d: "d \<noteq> []" "length log < D + 8" using Cons.prems by auto
  let ?c = "written d (length log mod 8) c"
  have "circle_rel n (log @ [d]) cur D ?c" by (rule circle_write [OF Cons.prems(1) d])
  then obtain c' where c': "circle_rel n ((log @ [d]) @ ds) cur D c'"
    "\<forall>ops. calls (map Put_Msg ds @ ops) ?c = map_option (\<lambda>rs. replicate (length ds) Stored @ rs) (calls ops c')"
    using Cons.IH [of "log @ [d]" ?c] Cons.prems(2,3) by auto
  have "calls (map Put_Msg (d # ds) @ ops) c = map_option (Cons Stored) (calls (map Put_Msg ds @ ops) ?c)" for ops
    using write_call [OF Cons.prems(1) d(1)] by (cases "calls (map Put_Msg ds @ ops) ?c") (simp_all add: call_of_def outcome_def)
  then show ?case using c' by (intro exI [of _ c']) (simp add: option.map_comp o_def)
qed

lemma read_after_overwrite:
  assumes R: "circle_rel n log cur D c" and f: "length log = D + 8" and k: "k < n" "cur k = D" and d: "d \<noteq> []"
  shows "calls [Put_Msg d, Get_Msg k] c = Some [Stored, Got_Msg d]"
proof -
  note A = at_restD [OF circle_relD(1) [OF R]] and C = circle_relD [OF R]
  let ?i = "D mod 8" let ?c = "written d ?i c"
  have i: "length log mod 8 = ?i" "?i < 8" using f by simp_all
  have k8: "k < 8" using k(1) A(1) by simp
  have w: "circle_call 5 (Write_Start (Some d)) c = Some (Returns 0, ?c)" using write_call [OF R d] i(1) by simp
  have arr: "arrMsgData ?c ! ?i = (arrMsgData c ! ?i)\<lparr>m_pData := Some d, m_nMsgSize := length d, m_bs := members n\<rparr>"
    using A(6,7) by (simp add: written_def)
  have rest: "at_rest n ?c" using C(1) by (simp add: at_rest_def written_def)
  have "arrSubPos ?c ! k = ?i" "uiCurrMsgDataNum ?c = 8" using C(3,6) k f by (simp_all add: cursors_ok_def written_def)
  then have s: "circle_step_of (Read_Start k) ?c = Some (Next (Read_Slot k ?i) ?c)"
    using at_restD [OF rest] k8 by (simp add: circle_step_of_def read_start_def read_pos_def MSG_SUB_SIZE_def MSG_POOL_SIZE_def Let_def not_le)
  have "members n ! k" using k(1) k8 by (simp add: members_def)
  then obtain c' where "circle_call 5 (Read_Start k) ?c = Some (Returns_Data d, c')"
    using read_call [OF rest s i(2), of d] d unfolding arr by simp
  then show ?thesis using w by (simp add: call_of_def outcome_def)
qed

subsection \<open>Locks in the opposite order\<close>

definition stuck :: "circle_pc list \<Rightarrow> msg_data_pool \<Rightarrow> bool" where
  "stuck ps c \<longleftrightarrow> (\<forall>p \<in> set ps. circle_step_of p c = Some Blocked)"

lemma stuck_forever: "stuck ps c \<Longrightarrow> circle_run ts ps c = Some (ps, c)"
  by (induction ts) (auto simp: stuck_def)

lemma circle_run_append:
  "circle_run ts ps c = Some (qs, c') \<Longrightarrow> circle_run (ts @ us) ps c = circle_run us qs c'"
proof (induction ts arbitrary: ps c)
  case (Cons t ts)
  show ?case
  proof (cases "t < length ps")
    case True
    with Cons.prems obtain r where r: "circle_step_of (ps ! t) c = Some r" by (auto simp: bind_Some_iff)
    then show ?thesis using Cons True by (cases r) simp_all
  next
    case False
    then show ?thesis using Cons by simp
  qed
qed simp

lemma unsub_advances:
  "m \<le> i \<Longrightarrow> i < 8 \<Longrightarrow> \<not> deleted c \<Longrightarrow> DataLocker c = (replicate 8 False)[i := True] \<Longrightarrow>
   \<exists>c'. circle_run (replicate m 1) [p, UnSub_Slot j 0] c = Some ([p, UnSub_Slot j m], c') \<and> \<not> deleted c' \<and> DataLocker c' = DataLocker c \<and>
     PoolCond c' = PoolCond c"
proof (induction m)
  case (Suc m)
  then obtain c' where c': "circle_run (replicate m 1) [p, UnSub_Slot j 0] c = Some ([p, UnSub_Slot j m], c')" "\<not> deleted c'"
    "DataLocker c' = DataLocker c" "PoolCond c' = PoolCond c" by auto
  have "\<not> DataLocker c' ! m" using c'(3) Suc.prems by simp
  then have "circle_step_of (UnSub_Slot j m) c' = Some (Next (UnSub_Slot j (m + 1)) (set_slot m ((arrMsgData c' ! m)\<lparr>m_bs := (m_bs (arrMsgData c' ! m))[j := False]\<rparr>) c'))"
    using c'(2) Suc.prems(1,2) by (simp add: circle_step_of_def unsub_slot_def MSG_POOL_SIZE_def Let_def)
  then have "circle_run [1] [p, UnSub_Slot j m] c' = Some ([p, UnSub_Slot j (Suc m)], set_slot m ((arrMsgData c' ! m)\<lparr>m_bs := (m_bs (arrMsgData c' ! m))[j := False]\<rparr>) c')"
    by simp
  then show ?case using circle_run_append [OF c'(1), of "[1]"] c'(2-4)
    unfolding replicate_Suc replicate_append_same [symmetric] by (simp add: set_slot_def)
qed simp

subsection \<open>The claims\<close>

text \<open>C11: The buffer is a broadcast.  Up to eight subscribers that subscribe to the empty buffer each read all messages
  that are written, in order, as long as the slowest is no more than eight messages behind when one is written;
  and who has read everything waits.\<close>

theorem circle_broadcasts:
  assumes "0 < n" and "n \<le> 8" and "broadcast n ops [] (\<lambda>_. 0) = Some rs"
  shows "\<exists>c. subscribe n circle_init = Some c \<and> calls ops c = Some rs"
  using circle_start [OF assms(1,2)] calls_broadcast assms(3) by blast

theorem circle_broadcasts_witness:
  "\<exists>c. subscribe 2 circle_init = Some c \<and>
    calls [Put_Msg [1], Get_Msg 0, Get_Msg 0, Put_Msg [2, 3], Get_Msg 1, Get_Msg 0, Get_Msg 1] c =
      Some [Stored, Got_Msg [1], Waits, Stored, Got_Msg [1], Got_Msg [2, 3], Got_Msg [2, 3]]"
proof (rule circle_broadcasts)
  have s: "slowest 2 cur = min (cur 0) (cur 1)" for cur by (simp add: slowest_def numeral_2_eq_2 lessThan_Suc min.commute)
  show "broadcast 2 [Put_Msg [1], Get_Msg 0, Get_Msg 0, Put_Msg [2, 3], Get_Msg 1, Get_Msg 0, Get_Msg 1] [] (\<lambda>_. 0) =
      Some [Stored, Got_Msg [1], Waits, Stored, Got_Msg [1], Got_Msg [2, 3], Got_Msg [2, 3]]"
    by (simp add: s MSG_POOL_SIZE_def)
qed simp_all

text \<open>A write to the full buffer reports success, overwrites the oldest message and is read before the seven
  messages that are older.\<close>

theorem circle_full_reorders:
  assumes "0 < n" and "n \<le> 8" and "length ds = 8" and "[] \<notin> set ds" and "d \<noteq> []" and "k < n"
  shows "\<exists>c. subscribe n circle_init = Some c \<and>
    calls (map Put_Msg ds @ [Put_Msg d, Get_Msg k]) c = Some (replicate 8 Stored @ [Stored, Got_Msg d])"
proof -
  obtain c where c: "subscribe n circle_init = Some c" "circle_rel n [] (\<lambda>_. 0) 0 c" using circle_start [OF assms(1,2)] by blast
  have "length ([] :: byte list list) + length ds \<le> 0 + 8" using assms(3) by simp
  from circle_writes [OF c(2) assms(4) this] obtain c' where c': "circle_rel n ds (\<lambda>_. 0) 0 c'"
    "calls (map Put_Msg ds @ [Put_Msg d, Get_Msg k]) c = map_option (\<lambda>rs. replicate (length ds) Stored @ rs) (calls [Put_Msg d, Get_Msg k] c')"
    by auto
  have "calls [Put_Msg d, Get_Msg k] c' = Some [Stored, Got_Msg d]"
    by (rule read_after_overwrite [OF c'(1) _ assms(6) refl assms(5)]) (simp add: assms(3))
  then show ?thesis using c(1) c'(2) assms(3) by auto
qed

theorem circle_full_reorders_witness:
  "\<exists>c. subscribe 1 circle_init = Some c \<and>
    calls (map Put_Msg [[1], [2], [3], [4], [5], [6], [7], [8]] @ [Put_Msg [9], Get_Msg 0]) c = Some (replicate 8 Stored @ [Stored, Got_Msg [9]])"
  by (rule circle_full_reorders) simp_all

text \<open>Sub marks the messages that are waiting for the new subscriber only while the write position is below their
  number: otherwise, with messages waiting, the new subscriber starts at the first of them and waits.\<close>

theorem circle_late_subscriber_waits:
  assumes R: "circle_rel n log cur D c" and n: "n < 8" and w: "D < length log" "length log - D \<le> D mod 8"
  shows "\<exists>c' p. circle_call 3 Sub_Start c = Some (Returns (int n), c') \<and> circle_call 5 (Read_Start n) c' = Some (p, c') \<and> outcome p = Some Waits"
proof -
  note A = at_restD [OF circle_relD(1) [OF R]] and C = circle_relD [OF R]
  let ?i = "D mod 8"
  define c' where "c' = c\<lparr>bsSubscribers := members (Suc n), arrSubPos := (arrSubPos c)[n := ?i]\<rparr>"
  have s: "circle_call 3 Sub_Start c = Some (Returns (int n), c')"
    using subscribe_no_loop [OF C(1) n] C(6,7) w(2) by (simp add: c'_def)
  have A': "\<not> PoolCond c'" "DataLocker c' = replicate 8 False" "\<not> deleted c'" "uiCurrMsgDataNum c' \<noteq> 0" "arrSubPos c' ! n = ?i"
    using A C(6) w(1) n by (simp_all add: c'_def)
  have m: "m_bs (arrMsgData c' ! ?i) = readers n cur D" "\<not> m_bRelease (arrMsgData c' ! ?i)" using C(2) w(1) by (simp_all add: slots_ok_def c'_def)
  then have nd: "no_data n (arrMsgData c' ! ?i)" using readers_nth [OF n] by (simp add: no_data_def)
  have 1: "circle_step_of (Read_Start n) c' = Some (Next (Read_Slot n ?i) c')"
    using A' n by (simp add: circle_step_of_def read_start_def read_pos_def MSG_SUB_SIZE_def MSG_POOL_SIZE_def Let_def not_le)
  have 2: "circle_step_of (Read_Slot n ?i) c' = Some (Next (Read_Slot_Wait n ?i) c')" "circle_step_of (Read_Slot_Wait n ?i) c' = Some Blocked"
    using A' nd m(2) by (simp_all add: circle_step_of_def read_slot_def read_slot_wait_def)
  have "circle_call 5 (Read_Start n) c' = Some (Read_Slot_Wait n ?i, c')"
    using 1 2 call_next [of 5 "Read_Start n" c' "Read_Slot n ?i" c'] call_next [of 4 "Read_Slot n ?i" c' "Read_Slot_Wait n ?i" c']
      call_blocked [of 3 "Read_Slot_Wait n ?i" c'] by (simp add: returned_def)
  then show ?thesis using s by (auto simp: outcome_def)
qed

text \<open>One subscriber that has read one message, and a second message.\<close>

lemma ex_circle: "\<exists>cur c. circle_rel 1 [[1], [2]] cur 1 c"
proof -
  obtain c where c: "circle_rel 1 [] (\<lambda>_. 0) 0 c" using circle_start [of 1] by auto
  have "circle_rel 1 [[1]] (\<lambda>_. 0) 0 (written [1] 0 c)" using circle_write [OF c, of "[1]"] by simp
  from circle_read [OF this, of 0] obtain c' D' where "circle_rel 1 [[1]] ((\<lambda>_. 0)(0 := 1)) D' c'" by auto
  moreover from this have "D' = 1" by (auto simp: circle_rel_def cursors_ok_def)
  ultimately have "circle_rel 1 [[1]] ((\<lambda>_. 0)(0 := 1)) 1 c'" by simp
  from circle_write [OF this, of "[2]"] show ?thesis by auto
qed

theorem circle_late_subscriber_waits_witness:
  "\<exists>c c' p. circle_call 3 Sub_Start c = Some (Returns 1, c') \<and> circle_call 5 (Read_Start 1) c' = Some (p, c') \<and> outcome p = Some Waits"
proof -
  obtain cur c where "circle_rel 1 [[1], [2]] cur 1 c" using ex_circle by blast
  from circle_late_subscriber_waits [OF this] show ?thesis by auto
qed

text \<open>C16: Read and UnSub take their locks in opposite orders.  When the last reader of a message is reading it and
  another thread unsubscribes, they can block each other for ever.\<close>

theorem circle_deadlock:
  assumes R: "circle_rel n log cur D c" and k: "k < n" "cur k = D" "D < length log" and o: "\<forall>l < n. l \<noteq> k \<longrightarrow> D < cur l" and j: "j < 8"
  shows "\<exists>ts ps c'. circle_run ts [Read_Start k, UnSub_Start j] c = Some (ps, c') \<and> (\<forall>p \<in> set ps. \<not> returned p) \<and>
    (\<forall>us. circle_run us ps c' = Some (ps, c'))"
proof -
  note A = at_restD [OF circle_relD(1) [OF R]] and C = circle_relD [OF R]
  let ?i = "D mod 8"
  have i: "?i < 8" by simp
  have k8: "k < 8" using k(1) A(1) by simp
  have m: "m_pData (arrMsgData c ! ?i) = Some (log ! D)" "m_nMsgSize (arrMsgData c ! ?i) = length (log ! D)" "m_bs (arrMsgData c ! ?i) = readers n cur D"
    using C(2) k(3) by (simp_all add: slots_ok_def)
  have ne: "log ! D \<noteq> []" using C(4) k(3) by (metis nth_mem)
  have last: "True \<notin> set ((readers n cur D)[k := False])"
    using readers_read [of n cur k] readers_none [OF A(1), of "cur(k := cur k + 1)" D] o k(2) by auto
  have nd: "\<not> no_data k (arrMsgData c ! ?i)" using m ne readers_nth [OF k8] k by (simp add: no_data_def)
  let ?c1 = "(taken k ?i c)\<lparr>DataLocker := (DataLocker c)[?i := True]\<rparr>"
  let ?p = "Read_Drop k ?i (log ! D)"
  have 1: "circle_step_of (Read_Start k) c = Some (Next (Read_Slot k ?i) c)" using read_begins [OF R k(1)] k(2,3) by simp
  have 2: "circle_step_of (Read_Slot k ?i) c = Some (Next ?p ?c1)"
    using A(3,4) nd m last i by (simp add: circle_step_of_def read_slot_def read_copy_def taken_def set_slot_def Let_def)
  let ?c2 = "?c1\<lparr>bsSubscribers := (bsSubscribers c)[j := False], PoolCond := True\<rparr>"
  have 3: "circle_step_of (UnSub_Start j) ?c1 = Some (Next (UnSub_Slot j 0) ?c2)"
    using A(2,4) j by (simp add: circle_step_of_def unsub_start_def MSG_SUB_SIZE_def taken_def set_slot_def)
  have r1: "circle_run [0, 0, 1] [Read_Start k, UnSub_Start j] c = Some ([?p, UnSub_Slot j 0], ?c2)" using 1 2 3 by simp
  have "\<not> deleted ?c2" "DataLocker ?c2 = (replicate 8 False)[?i := True]" using A(3,4) by (simp_all add: taken_def set_slot_def)
  from unsub_advances [OF le_refl i this] obtain c' where c': "circle_run (replicate ?i 1) [?p, UnSub_Slot j 0] ?c2 = Some ([?p, UnSub_Slot j ?i], c')"
    "\<not> deleted c'" "DataLocker c' = DataLocker ?c2" "PoolCond c' = PoolCond ?c2" by blast
  have run: "circle_run ([0, 0, 1] @ replicate ?i 1) [Read_Start k, UnSub_Start j] c = Some ([?p, UnSub_Slot j ?i], c')"
    using circle_run_append [OF r1] c'(1) by simp
  have "DataLocker c' ! ?i" "PoolCond c'" using c'(3,4) A(3) by simp_all
  then have "stuck [?p, UnSub_Slot j ?i] c'" using c'(2) i
    by (simp add: stuck_def circle_step_of_def read_drop_def unsub_slot_def MSG_POOL_SIZE_def)
  then have "circle_run us [?p, UnSub_Slot j ?i] c' = Some ([?p, UnSub_Slot j ?i], c')" for us by (rule stuck_forever)
  moreover have "\<forall>p \<in> set [?p, UnSub_Slot j ?i]. \<not> returned p" by (simp add: returned_def)
  ultimately show ?thesis using run by blast
qed

theorem circle_deadlock_witness:
  "\<exists>c ts ps c'. circle_run ts [Read_Start 0, UnSub_Start 3] c = Some (ps, c') \<and> (\<forall>p \<in> set ps. \<not> returned p) \<and>
    (\<forall>us. circle_run us ps c' = Some (ps, c'))"
proof -
  obtain cur c where c: "circle_rel 1 [[1], [2]] cur 1 c" using ex_circle by blast
  then have "cur 0 = 1" by (auto simp: circle_rel_def cursors_ok_def)
  from circle_deadlock [OF c _ this, of 3] show ?thesis by auto
qed

text \<open>The destructor does not wait for the readers: one that waits touches freed memory when it is woken.\<close>

lemma circle_delete_under_reader:
  assumes R: "circle_rel n log cur D c" and k: "k < n" "D = length log"
  shows "circle_run [0, 1, 0] [Read_Start k, Delete_Start] c = None"
proof -
  note A = at_restD [OF circle_relD(1) [OF R]]
  have "circle_step_of (Read_Start k) c = Some (Next (Read_Wait k) c)" using read_begins [OF R k(1)] k(2) by simp
  moreover obtain c' where "circle_step_of Delete_Start c = Some (Next (Returns 0) c')" "deleted c'"
    using A(2,4) by (simp add: circle_step_of_def circle_delete_def)
  ultimately show ?thesis by (simp add: circle_step_of_def [of _ c'] returned_def)
qed

end
