(* ===== verification/RingPool.thy ===== *)
theory RingPool
  imports Prelude
begin

text \<open>
  The thread pool of \<open>sample1/threadpool.c\<close>: worker threads take tasks from a circular queue of 1000 entries, under
  one mutex, and clients wait in \<open>pool_wait\<close> for the condition \<open>done\<close>, which a worker signals when no task is left that a worker
  has picked.  A step is what a thread does between two acquisitions of the mutex.  The indices only grow; they
  are \<open>int\<close>, so that an index that passes \<open>INT_MAX\<close> is undefined.
\<close>

definition TASK_QUEUE_MAX :: nat where
  "TASK_QUEUE_MAX = 1000"

definition RING_INT_MAX :: nat where
  "RING_INT_MAX = 2 ^ 31 - 1"

record task_data =
  work_routine :: nat
  task_arg :: nat

record thread_pool =
  task_queue :: "task_data option list"
  queue_head :: nat
  queue_tail :: nat
  max_threads :: nat
  scheduled :: nat
  released :: bool

text \<open>A worker is about to look at the queue, blocked on \<open>work_available\<close>, or running a task.\<close>

datatype ring_worker = Picking | Asleep | Working task_data

text \<open>\<open>pthread_cond_broadcast\<close> on \<open>work_available\<close>.\<close>

fun awake :: "ring_worker \<Rightarrow> ring_worker" where
  "awake Asleep = Picking"
| "awake w = w"

text \<open>A client is outside of \<open>pool_wait\<close> and \<open>pool_destroy\<close>, blocked on \<open>done\<close>, woken and about to look at \<open>scheduled\<close> again, or about to free
  the pool.  The flag says that \<open>pool_destroy\<close> has called \<open>pool_wait\<close>.\<close>

datatype ring_client = Out | On_Done bool | Off_Done bool | Releasing

fun on_done :: "ring_client \<Rightarrow> bool" where
  "on_done (On_Done b) = True"
| "on_done c = False"

fun off_done :: "ring_client \<Rightarrow> ring_client" where
  "off_done (On_Done b) = Off_Done b"
| "off_done c = c"

text \<open>\<open>pthread_cond_signal\<close> on \<open>done\<close>: it wakes a client that is blocked, if there is one.  Which one is not said: client \<open>k\<close>, or the
  first if that one is not blocked.\<close>

fun signal_first :: "ring_client list \<Rightarrow> ring_client list" where
  "signal_first [] = []"
| "signal_first (c # cs) = (if on_done c then off_done c # cs else c # signal_first cs)"

definition signal_done :: "nat \<Rightarrow> ring_client list \<Rightarrow> ring_client list" where
  "signal_done k cs = (if k < length cs \<and> on_done (cs ! k) then cs[k := off_done (cs ! k)] else signal_first cs)"

text \<open>The pool, its worker threads, its clients, and the tasks that were started, in the order of their start.\<close>

record ring_system =
  ring :: thread_pool
  ring_workers :: "ring_worker list"
  ring_clients :: "ring_client list"
  started :: "task_data list"

definition pool_get_max_threads :: "thread_pool \<Rightarrow> nat option" where
  "pool_get_max_threads p = (if released p then None else Some (max_threads p))"

definition int_inc :: "nat \<Rightarrow> nat option" where
  "int_inc i = (if i < RING_INT_MAX then Some (i + 1) else None)"

text \<open>A worker that finds the queue empty gets no task, and waits.\<close>

definition worker_pick :: "thread_pool \<Rightarrow> (task_data option \<times> thread_pool) option" where
  "worker_pick p =
     (if released p then None
      else if queue_head p = queue_tail p then Some (None, p)
      else do {
        picked_task \<leftarrow> task_queue p ! (queue_head p mod TASK_QUEUE_MAX);
        h \<leftarrow> int_inc (queue_head p);
        Some (Some picked_task, p\<lparr>queue_head := h, scheduled := scheduled p + 1\<rparr>) })"

text \<open>\<open>True\<close> with the new pool: \<open>done\<close> is signalled.\<close>

definition worker_finish :: "thread_pool \<Rightarrow> (bool \<times> thread_pool) option" where
  "worker_finish p =
     (if released p then None
      else let p = p\<lparr>scheduled := scheduled p - 1\<rparr> in Some (scheduled p = 0, p))"

text \<open>\<open>True\<close> with the new pool: the workers are woken.\<close>

definition pool_add_task :: "thread_pool \<Rightarrow> task_data \<Rightarrow> (bool \<times> thread_pool) option" where
  "pool_add_task p task =
     (if released p then None
      else do {
        t \<leftarrow> int_inc (queue_tail p);
        Some (queue_head p = queue_tail p,
          p\<lparr>task_queue := (task_queue p)[queue_tail p mod TASK_QUEUE_MAX := Some task], queue_tail := t\<rparr>) })"

text \<open>A client in \<open>pool_wait\<close> that has the mutex: it waits for \<open>done\<close> while tasks are scheduled, and otherwise returns, to its caller
  or into \<open>pool_destroy\<close>.\<close>

definition pool_wait :: "bool \<Rightarrow> thread_pool \<Rightarrow> ring_client option" where
  "pool_wait destroying p =
     (if released p then None
      else Some (if 0 < scheduled p then On_Done destroying else if destroying then Releasing else Out))"

text \<open>\<open>pool_destroy\<close> after its wait releases the pool under the workers that it detaches.\<close>

definition ring_pool_destroy :: "thread_pool \<Rightarrow> thread_pool option" where
  "ring_pool_destroy p = (if released p then None else Some (p\<lparr>released := True\<rparr>))"

definition ring_pool_init :: "nat \<Rightarrow> nat \<Rightarrow> ring_system" where
  "ring_pool_init n c = \<lparr>ring = \<lparr>task_queue = replicate TASK_QUEUE_MAX None, queue_head = 0, queue_tail = 0, max_threads = n, scheduled = 0,
     released = False\<rparr>, ring_workers = replicate n Picking, ring_clients = replicate c Out, started = []\<rparr>"

text \<open>A worker runs, with the client that a signal of \<open>done\<close> wakes; a client calls \<open>pool_add_task\<close>, \<open>pool_wait\<close> or \<open>pool_destroy\<close>, or goes
  on inside its call.  \<open>pthread_cond_wait\<close> may also return without a signal, for a worker or for a client.\<close>

datatype ring_action =
    Work nat nat
  | Spurious nat
  | Add_Task task_data
  | Pool_Wait nat
  | Pool_Destroy nat
  | Go_On nat
  | Spurious_Done nat

text \<open>One step of a worker: it picks a task and runs it, or it has run it.\<close>

definition worker_step :: "nat \<Rightarrow> nat \<Rightarrow> ring_system \<Rightarrow> ring_system option" where
  "worker_step i k s =
     (if i < length (ring_workers s) then
        (case ring_workers s ! i of
           Picking \<Rightarrow> do {
             (t, p) \<leftarrow> worker_pick (ring s);
             Some (case t of
               None \<Rightarrow> s\<lparr>ring_workers := (ring_workers s)[i := Asleep]\<rparr>
             | Some task \<Rightarrow> s\<lparr>ring := p, ring_workers := (ring_workers s)[i := Working task], started := started s @ [task]\<rparr>) }
         | Asleep \<Rightarrow> Some s
         | Working task \<Rightarrow> do {
             (signal, p) \<leftarrow> worker_finish (ring s);
             Some (s\<lparr>ring := p, ring_workers := (ring_workers s)[i := Picking],
               ring_clients := (if signal then signal_done k (ring_clients s) else ring_clients s)\<rparr>) })
      else Some s)"

text \<open>One step of a client: a call, if it is outside, or what follows in its call.\<close>

definition client_call :: "bool \<Rightarrow> nat \<Rightarrow> ring_system \<Rightarrow> ring_system option" where
  "client_call destroying j s =
     (if j < length (ring_clients s) \<and> ring_clients s ! j = Out then do {
        c \<leftarrow> pool_wait destroying (ring s);
        Some (s\<lparr>ring_clients := (ring_clients s)[j := c]\<rparr>) }
      else Some s)"

definition client_step :: "nat \<Rightarrow> ring_system \<Rightarrow> ring_system option" where
  "client_step j s =
     (if j < length (ring_clients s) then
        (case ring_clients s ! j of
           Off_Done destroying \<Rightarrow> do {
             c \<leftarrow> pool_wait destroying (ring s);
             Some (s\<lparr>ring_clients := (ring_clients s)[j := c]\<rparr>) }
         | Releasing \<Rightarrow> do {
             p \<leftarrow> ring_pool_destroy (ring s);
             Some (s\<lparr>ring := p, ring_clients := (ring_clients s)[j := Out]\<rparr>) }
         | _ \<Rightarrow> Some s)
      else Some s)"

definition ring_step :: "ring_action \<Rightarrow> ring_system \<Rightarrow> ring_system option" where
  "ring_step a s = (case a of
     Work i k \<Rightarrow> worker_step i k s
   | Spurious i \<Rightarrow> Some (if i < length (ring_workers s) then s\<lparr>ring_workers := (ring_workers s)[i := awake (ring_workers s ! i)]\<rparr> else s)
   | Add_Task t \<Rightarrow> do {
       (b, p) \<leftarrow> pool_add_task (ring s) t;
       Some (s\<lparr>ring := p, ring_workers := (if b then map awake (ring_workers s) else ring_workers s)\<rparr>) }
   | Pool_Wait j \<Rightarrow> client_call False j s
   | Pool_Destroy j \<Rightarrow> client_call True j s
   | Go_On j \<Rightarrow> client_step j s
   | Spurious_Done j \<Rightarrow> Some (if j < length (ring_clients s) then s\<lparr>ring_clients := (ring_clients s)[j := off_done (ring_clients s ! j)]\<rparr> else s))"

fun ring_run :: "ring_action list \<Rightarrow> ring_system \<Rightarrow> ring_system option" where
  "ring_run [] s = Some s"
| "ring_run (a # as) s = do { s \<leftarrow> ring_step a s; ring_run as s }"

section \<open>The properties\<close>

text \<open>
  The pool with the circular queue against its specification, in which the queue is a list of at most 1000 tasks.
\<close>

subsection \<open>The specification\<close>

record fifo_system =
  waiting :: "task_data list"
  s_workers :: "ring_worker list"
  s_started :: "task_data list"

definition fifo_init :: "nat \<Rightarrow> fifo_system" where
  "fifo_init n = \<lparr>waiting = [], s_workers = replicate n Picking, s_started = []\<rparr>"

definition fifo_work :: "nat \<Rightarrow> fifo_system \<Rightarrow> fifo_system" where
  "fifo_work i t =
     (if i < length (s_workers t) then
        (case s_workers t ! i of
           Picking \<Rightarrow> (case waiting t of
               [] \<Rightarrow> t
             | task # ts \<Rightarrow> t\<lparr>waiting := ts, s_workers := (s_workers t)[i := Working task], s_started := s_started t @ [task]\<rparr>)
         | Asleep \<Rightarrow> t
         | Working task \<Rightarrow> t\<lparr>s_workers := (s_workers t)[i := Picking]\<rparr>)
      else t)"

fun fifo_run :: "ring_action list \<Rightarrow> fifo_system \<Rightarrow> fifo_system option" where
  "fifo_run [] t = Some t"
| "fifo_run (Work i k # as) t = fifo_run as (fifo_work i t)"
| "fifo_run (Spurious i # as) t = fifo_run as t"
| "fifo_run (Add_Task task # as) t =
     (if length (waiting t) < TASK_QUEUE_MAX then fifo_run as (t\<lparr>waiting := waiting t @ [task]\<rparr>) else None)"
| "fifo_run (Pool_Destroy j # as) t = None"
| "fifo_run (Pool_Wait j # as) t = fifo_run as t"
| "fifo_run (Go_On j # as) t = fifo_run as t"
| "fifo_run (Spurious_Done j # as) t = fifo_run as t"

fun added_tasks :: "ring_action list \<Rightarrow> task_data list" where
  "added_tasks [] = []"
| "added_tasks (Add_Task t # as) = t # added_tasks as"
| "added_tasks (a # as) = added_tasks as"

text \<open>Tasks are started in the order in which they were added, each once.\<close>

lemma fifo_work_order: "s_started (fifo_work i t) @ waiting (fifo_work i t) = s_started t @ waiting t"
  by (simp add: fifo_work_def split: ring_worker.split list.split)

lemma fifo_run_order: "fifo_run as t = Some t' \<Longrightarrow> s_started t' @ waiting t' = s_started t @ waiting t @ added_tasks as"
proof (induction as t rule: fifo_run.induct)
  case (2 i k as t)
  then show ?case using fifo_work_order [of i t] by (metis added_tasks.simps(3) append_assoc fifo_run.simps(2))
qed (auto split: if_splits)

subsection \<open>The relation\<close>

definition working :: "ring_worker \<Rightarrow> bool" where
  "working w \<longleftrightarrow> w \<noteq> Picking"

text \<open>Clients none of which destroys the pool.  If there is only one, it is blocked only while a task is scheduled.\<close>

definition clients_ok :: "nat \<Rightarrow> ring_client list \<Rightarrow> bool" where
  "clients_ok m cs \<longleftrightarrow> set cs \<subseteq> {Out, On_Done False, Off_Done False} \<and> (length cs = 1 \<and> m = 0 \<longrightarrow> On_Done False \<notin> set cs)"

definition ring_rel :: "nat \<Rightarrow> ring_system \<Rightarrow> fifo_system \<Rightarrow> bool" where
  "ring_rel b s t \<longleftrightarrow> \<not> released (ring s) \<and> length (task_queue (ring s)) = TASK_QUEUE_MAX \<and>
     queue_tail (ring s) = queue_head (ring s) + length (waiting t) \<and>
     (\<forall>j < length (waiting t). task_queue (ring s) ! ((queue_head (ring s) + j) mod TASK_QUEUE_MAX) = Some (waiting t ! j)) \<and>
     map awake (ring_workers s) = s_workers t \<and> (waiting t \<noteq> [] \<longrightarrow> Asleep \<notin> set (ring_workers s)) \<and>
     started s = s_started t \<and> scheduled (ring s) = length (filter working (s_workers t)) \<and>
     queue_tail (ring s) \<le> b \<and> clients_ok (length (filter working (s_workers t))) (ring_clients s)"

lemma ring_relD:
  assumes "ring_rel b s t"
  shows "\<not> released (ring s)" "length (task_queue (ring s)) = TASK_QUEUE_MAX"
    "queue_tail (ring s) = queue_head (ring s) + length (waiting t)" "clients_ok (scheduled (ring s)) (ring_clients s)"
    "j < length (waiting t) \<Longrightarrow> task_queue (ring s) ! ((queue_head (ring s) + j) mod TASK_QUEUE_MAX) = Some (waiting t ! j)"
    "map awake (ring_workers s) = s_workers t" "started s = s_started t" "scheduled (ring s) = length (filter working (s_workers t))"
    "queue_tail (ring s) \<le> b" "waiting t \<noteq> [] \<Longrightarrow> Asleep \<notin> set (ring_workers s)"
  using assms by (simp_all add: ring_rel_def)

text \<open>The clients, as tasks are scheduled and finished and as they take their own steps.\<close>

lemma signal_first_length [simp]: "length (signal_first cs) = length cs"
  by (induction cs) simp_all

lemma signal_done_length [simp]: "length (signal_done k cs) = length cs"
  by (simp add: signal_done_def)

lemma signal_first_set: "set (signal_first cs) \<subseteq> set cs \<union> off_done ` set cs"
  by (induction cs) auto

lemma signal_done_set: "set (signal_done k cs) \<subseteq> set cs \<union> off_done ` set cs"
proof (cases "k < length cs \<and> on_done (cs ! k)")
  case True
  then have "off_done (cs ! k) \<in> off_done ` set cs" by simp
  with set_update_subset_insert [of cs k "off_done (cs ! k)"] show ?thesis using True by (auto simp: signal_done_def)
next
  case False
  then have "signal_done k cs = signal_first cs" unfolding signal_done_def by (rule if_not_P)
  then show ?thesis using signal_first_set [of cs] by simp
qed

lemma signal_done_single: "length cs = 1 \<Longrightarrow> On_Done b \<notin> set (signal_done k cs)"
  by (cases cs; cases "hd cs") (auto simp: signal_done_def)

lemma clients_ok_finish:
  assumes "clients_ok m cs"
  shows "clients_ok (m - 1) (if m - 1 = 0 then signal_done k cs else cs)"
proof (cases "m - 1 = 0")
  case True
  have "set (signal_done k cs) \<subseteq> {Out, On_Done False, Off_Done False}"
    using signal_done_set [of k cs] assms by (fastforce simp: clients_ok_def)
  then show ?thesis using signal_done_single [of cs False k] True by (simp add: clients_ok_def)
qed (use assms in \<open>simp add: clients_ok_def\<close>)

lemma clients_ok_update:
  assumes "clients_ok m cs" and "c = Out \<or> c = Off_Done False \<or> c = On_Done False \<and> 0 < m"
  shows "clients_ok m (cs[j := c])"
proof -
  have "set (cs[j := c]) \<subseteq> insert c (set cs)" by (rule set_update_subset_insert)
  then show ?thesis using assms by (auto simp: clients_ok_def)
qed

lemma clients_ok_more: "clients_ok m cs \<Longrightarrow> clients_ok (Suc m) cs"
  by (simp add: clients_ok_def)

text \<open>Changing one worker changes the count by one.\<close>

lemma working_start: "i < length ws \<Longrightarrow> ws ! i = Picking \<Longrightarrow> length (filter working (ws[i := Working t])) = length (filter working ws) + 1"
  by (induction ws arbitrary: i) (auto simp: working_def less_Suc_eq_0_disj split: nat.split)

lemma working_end: "i < length ws \<Longrightarrow> ws ! i = Working t \<Longrightarrow> length (filter working (ws[i := Picking])) = length (filter working ws) - 1 \<and>
    0 < length (filter working ws)"
  by (induction ws arbitrary: i) (auto simp: working_def less_Suc_eq_0_disj Suc_diff_Suc split: nat.split)

text \<open>Waking the workers.\<close>

lemma awake_idem [simp]: "awake (awake w) = awake w" "awake w \<noteq> Asleep"
  by (cases w; simp)+

lemma awake_Working [simp]: "awake w = Working t \<longleftrightarrow> w = Working t"
  by (cases w) simp_all

lemma awake_Picking: "awake w = Picking \<longleftrightarrow> w = Picking \<or> w = Asleep"
  by (cases w) simp_all

lemma awake_all [simp]: "map awake (map awake ws) = map awake ws" "Asleep \<notin> set (map awake ws)"
  by (auto simp: image_iff) (metis awake_idem(2))

lemma working_some: "(0 < length (filter working (map awake ws))) = (\<exists>task. Working task \<in> set ws)"
proof (induction ws)
  case (Cons w ws)
  then show ?case by (cases w) (auto simp: working_def)
qed simp

lemma update_same: "xs ! i = x \<Longrightarrow> xs[i := x] = xs"
  by auto

lemma queue_index:
  fixes h :: nat
  assumes "j < k" and "k < 1000"
  shows "(h + j) mod 1000 \<noteq> (h + k) mod 1000"
proof
  assume "(h + j) mod 1000 = (h + k) mod 1000"
  then have "1000 dvd (h + k) - (h + j)" using assms(1) mod_eq_dvd_iff_nat [of "h + j" "h + k" 1000] by simp
  then show False using assms dvd_imp_le [of 1000 "k - j"] by simp
qed

lemma ring_add:
  assumes R: "ring_rel b s t" and w: "length (waiting t) < TASK_QUEUE_MAX" and b: "b < RING_INT_MAX"
  shows "\<exists>s'. ring_step (Add_Task task) s = Some s' \<and> ring_rel (b + 1) s' (t\<lparr>waiting := waiting t @ [task]\<rparr>)"
proof -
  note D = ring_relD [OF R]
  let ?p = "(ring s)\<lparr>task_queue := (task_queue (ring s))[queue_tail (ring s) mod TASK_QUEUE_MAX := Some task], queue_tail := queue_tail (ring s) + 1\<rparr>"
  have inc: "int_inc (queue_tail (ring s)) = Some (queue_tail (ring s) + 1)" using D(9) b by (simp add: int_inc_def)
  let ?w = "if queue_head (ring s) = queue_tail (ring s) then map awake (ring_workers s) else ring_workers s"
  have W: "map awake ?w = s_workers t" "Asleep \<notin> set ?w"
    using D(6) D(10) D(3) awake_all [of "ring_workers s"] by (auto simp del: map_map set_map)
  have "ring_step (Add_Task task) s = Some (s\<lparr>ring := ?p, ring_workers := ?w\<rparr>)"
    using D(1) inc by (simp add: ring_step_def pool_add_task_def)
  moreover have "ring_rel (b + 1) (s\<lparr>ring := ?p, ring_workers := ?w\<rparr>) (t\<lparr>waiting := waiting t @ [task]\<rparr>)"
  proof -
    have "task_queue ?p ! ((queue_head (ring s) + j) mod TASK_QUEUE_MAX) = Some ((waiting t @ [task]) ! j)" if j: "j < Suc (length (waiting t))" for j
    proof (cases "j = length (waiting t)")
      case True
      then show ?thesis using D(2,3) by (simp add: TASK_QUEUE_MAX_def)
    next
      case False
      then have "j < length (waiting t)" using j by simp
      moreover from this have "(queue_head (ring s) + j) mod TASK_QUEUE_MAX \<noteq> queue_tail (ring s) mod TASK_QUEUE_MAX"
        using queue_index [of j "length (waiting t)" "queue_head (ring s)"] w D(3) by (simp add: TASK_QUEUE_MAX_def)
      ultimately show ?thesis using D(5) by (simp add: nth_append)
    qed
    then show ?thesis using D(1,2,3,4,7,8,9) W by (simp add: ring_rel_def)
  qed
  ultimately show ?thesis by blast
qed

lemma ring_sleep:
  assumes R: "ring_rel b s t" and i: "i < length (ring_workers s)" and w: "w = Picking \<or> w = Asleep" "ring_workers s ! i = Picking \<or> ring_workers s ! i = Asleep"
    and e: "w = Asleep \<Longrightarrow> waiting t = []"
  shows "ring_rel b (s\<lparr>ring_workers := (ring_workers s)[i := w]\<rparr>) t"
proof -
  note D = ring_relD [OF R]
  have "awake w = awake (ring_workers s ! i)" using w by auto
  then have "map awake ((ring_workers s)[i := w]) = s_workers t" using D(6) [symmetric] i by (simp add: map_update update_same)
  moreover have "Asleep \<notin> set ((ring_workers s)[i := w])" if "waiting t \<noteq> []"
    using D(10) [OF that] e that w(1) set_update_subset_insert [of "ring_workers s" i w] by auto
  ultimately show ?thesis using R by (simp add: ring_rel_def)
qed

lemma ring_work_task:
  assumes R: "ring_rel b s t" and i: "i < length (ring_workers s)" and w: "ring_workers s ! i = Picking"
    and t: "waiting t = task # ts" and b: "b \<le> RING_INT_MAX"
  shows "\<exists>s'. worker_step i k s = Some s' \<and> ring_rel b s'
    (t\<lparr>waiting := ts, s_workers := (s_workers t)[i := Working task], s_started := s_started t @ [task]\<rparr>)"
proof -
  note D = ring_relD [OF R]
  let ?p = "(ring s)\<lparr>queue_head := queue_head (ring s) + 1, scheduled := scheduled (ring s) + 1\<rparr>"
  have "int_inc (queue_head (ring s)) = Some (queue_head (ring s) + 1)" using D(3,9) b t by (simp add: int_inc_def)
  then have "worker_pick (ring s) = Some (Some task, ?p)" using D(1,3) D(5) [of 0] t by (simp add: worker_pick_def)
  then have "worker_step i k s = Some (s\<lparr>ring := ?p, ring_workers := (ring_workers s)[i := Working task], started := started s @ [task]\<rparr>)"
    using i w by (simp add: worker_step_def)
  moreover have "task_queue (ring s) ! ((queue_head (ring s) + 1 + j) mod TASK_QUEUE_MAX) = Some (ts ! j)" if "j < length ts" for j
    using D(5) [of "Suc j"] t that by simp
  moreover have "map awake ((ring_workers s)[i := Working task]) = (s_workers t)[i := Working task]" using D(6) by (simp add: map_update)
  moreover have "Asleep \<notin> set ((ring_workers s)[i := Working task])"
    using D(10) t set_update_subset_insert [of "ring_workers s" i "Working task"] by auto
  moreover have "length (filter working ((s_workers t)[i := Working task])) = length (filter working (s_workers t)) + 1"
  proof (rule working_start)
    show "i < length (s_workers t)" using i D(6) [symmetric] by simp
    show "s_workers t ! i = Picking" using i w D(6) [symmetric] by simp
  qed
  ultimately show ?thesis using t D clients_ok_more [OF D(4)] by (simp add: ring_rel_def)
qed

lemma ring_work:
  assumes R: "ring_rel b s t" and b: "b \<le> RING_INT_MAX"
  shows "\<exists>s'. ring_step (Work i k) s = Some s' \<and> ring_rel b s' (fifo_work i t)"
proof (cases "i < length (ring_workers s)")
  case False
  then show ?thesis using R ring_relD(6) [OF R, symmetric] by (simp add: ring_step_def worker_step_def fifo_work_def)
next
  case i: True
  note D = ring_relD [OF R]
  have l: "i < length (s_workers t)" "s_workers t ! i = awake (ring_workers s ! i)" using i D(6) [symmetric] by simp_all
  show ?thesis
  proof (cases "ring_workers s ! i")
    case (Working task)
    have W: "s_workers t ! i = Working task" using l(2) Working by simp
    let ?cs = "if scheduled (ring s) - 1 = 0 then signal_done k (ring_clients s) else ring_clients s"
    have "ring_step (Work i k) s = Some (s\<lparr>ring := (ring s)\<lparr>scheduled := scheduled (ring s) - 1\<rparr>, ring_workers := (ring_workers s)[i := Picking],
        ring_clients := ?cs\<rparr>)"
      using i Working D(1) by (simp add: ring_step_def worker_step_def worker_finish_def Let_def)
    moreover have "clients_ok (scheduled (ring s) - 1) ?cs" by (rule clients_ok_finish [OF D(4)])
    moreover have "map awake ((ring_workers s)[i := Picking]) = (s_workers t)[i := Picking]" using D(6) by (simp add: map_update)
    moreover have "waiting t \<noteq> [] \<Longrightarrow> Asleep \<notin> set ((ring_workers s)[i := Picking])"
      using D(10) set_update_subset_insert [of "ring_workers s" i Picking] by auto
    ultimately show ?thesis using l(1) W R working_end [OF l(1) W] by (simp add: fifo_work_def ring_rel_def D(8))
  next
    case Asleep
    then have "waiting t = []" using D(10) i by (metis nth_mem)
    then show ?thesis using i Asleep l R by (simp add: ring_step_def worker_step_def fifo_work_def)
  next
    case Picking
    show ?thesis
    proof (cases "waiting t")
      case Nil
      then have "worker_pick (ring s) = Some (None, ring s)" using D(1,3) by (simp add: worker_pick_def)
      then show ?thesis using i Picking Nil l ring_sleep [OF R i, of Asleep] by (simp add: ring_step_def worker_step_def fifo_work_def)
    next
      case (Cons task ts)
      from ring_work_task [OF R i Picking this b, of k] show ?thesis using l Picking Cons by (simp add: ring_step_def fifo_work_def)
    qed
  qed
qed

lemma ring_spurious:
  assumes R: "ring_rel b s t"
  shows "\<exists>s'. ring_step (Spurious i) s = Some s' \<and> ring_rel b s' t"
proof (cases "i < length (ring_workers s) \<and> ring_workers s ! i = Asleep")
  case True
  then show ?thesis using ring_sleep [OF R, of i Picking] by (simp add: ring_step_def)
next
  case False
  then have "i < length (ring_workers s) \<Longrightarrow> awake (ring_workers s ! i) = ring_workers s ! i" by (cases "ring_workers s ! i") auto
  then show ?thesis using R by (simp add: ring_step_def update_same)
qed

lemma ring_client_step:
  assumes R: "ring_rel b s t" and a: "a = Pool_Wait j \<or> a = Go_On j \<or> a = Spurious_Done j"
  shows "\<exists>s'. ring_step a s = Some s' \<and> ring_rel b s' t"
proof (cases "j < length (ring_clients s)")
  case False
  then show ?thesis using a R by (auto simp: ring_step_def client_call_def client_step_def)
next
  case j: True
  note D = ring_relD [OF R]
  have upd: "ring_rel b (s\<lparr>ring_clients := (ring_clients s)[j := c]\<rparr>) t"
    if "c = Out \<or> c = Off_Done False \<or> c = On_Done False \<and> 0 < scheduled (ring s)" for c
    using R clients_ok_update [OF D(4) that, of j] by (simp add: ring_rel_def)
  obtain c where c: "pool_wait False (ring s) = Some c" "c = Out \<or> c = Off_Done False \<or> c = On_Done False \<and> 0 < scheduled (ring s)"
    using D(1) by (auto simp: pool_wait_def)
  have "ring_clients s ! j \<in> {Out, On_Done False, Off_Done False}" using D(4) nth_mem [OF j] unfolding clients_ok_def by blast
  then have cases: "ring_clients s ! j = Out \<or> ring_clients s ! j = On_Done False \<or> ring_clients s ! j = Off_Done False" by simp
  from a consider "a = Pool_Wait j" | "a = Go_On j" | "a = Spurious_Done j" by blast
  then show ?thesis
  proof cases
    case 1
    then show ?thesis using upd [OF c(2)] c(1) R by (simp add: ring_step_def client_call_def)
  next
    case 2
    then show ?thesis using cases upd [OF c(2)] c(1) R j by (auto simp: ring_step_def client_step_def)
  next
    case 3
    then show ?thesis using cases upd [of Out] upd [of "Off_Done False"] R j by (auto simp: ring_step_def update_same)
  qed
qed

lemma ring_run_fifo:
  "ring_rel b s t \<Longrightarrow> b + length as \<le> RING_INT_MAX \<Longrightarrow> fifo_run as t = Some t' \<Longrightarrow>
   \<exists>s'. ring_run as s = Some s' \<and> ring_rel (b + length as) s' t'"
proof (induction as arbitrary: b s t)
  case (Cons a as)
  have mono: "ring_rel b s t \<Longrightarrow> ring_rel (b + 1) s t" for s t by (simp add: ring_rel_def)
  have client: ?case if a: "a = Pool_Wait j \<or> a = Go_On j \<or> a = Spurious_Done j" and t: "fifo_run as t = Some t'" for j
  proof -
    from ring_client_step [OF Cons.prems(1) a] obtain s1 where s1: "ring_step a s = Some s1" "ring_rel (b + 1) s1 t" using mono by blast
    then show ?thesis using Cons.IH [OF s1(2) _ t] Cons.prems(2) by auto
  qed
  show ?case
  proof (cases a)
    case (Work i k)
    have "b \<le> RING_INT_MAX" using Cons.prems(2) by simp
    from ring_work [OF Cons.prems(1) this, of i k] obtain s1 where s1: "ring_step (Work i k) s = Some s1" "ring_rel (b + 1) s1 (fifo_work i t)"
      using mono by blast
    then show ?thesis using Cons.IH [OF s1(2)] Cons.prems(2,3) Work by auto
  next
    case (Spurious i)
    from ring_spurious [OF Cons.prems(1), of i] obtain s1 where s1: "ring_step (Spurious i) s = Some s1" "ring_rel (b + 1) s1 t"
      using mono by blast
    then show ?thesis using Cons.IH [OF s1(2)] Cons.prems(2,3) Spurious by auto
  next
    case (Add_Task task)
    then have w: "length (waiting t) < TASK_QUEUE_MAX" "fifo_run as (t\<lparr>waiting := waiting t @ [task]\<rparr>) = Some t'"
      using Cons.prems(3) by (auto split: if_splits)
    have "b < RING_INT_MAX" using Cons.prems(2) by simp
    from ring_add [OF Cons.prems(1) w(1) this] obtain s1 where s1: "ring_step (Add_Task task) s = Some s1"
      "ring_rel (b + 1) s1 (t\<lparr>waiting := waiting t @ [task]\<rparr>)" by blast
    then show ?thesis using Cons.IH [OF s1(2) _ w(2)] Cons.prems(2) Add_Task by auto
  next
    case (Pool_Destroy j)
    then show ?thesis using Cons.prems(3) by simp
  next
    case (Pool_Wait j)
    then show ?thesis using client [of j] Cons.prems(3) by simp
  next
    case (Go_On j)
    then show ?thesis using client [of j] Cons.prems(3) by simp
  next
    case (Spurious_Done j)
    then show ?thesis using client [of j] Cons.prems(3) by simp
  qed
qed simp

lemma ring_rel_init: "ring_rel 0 (ring_pool_init n c) (fifo_init n)"
  by (auto simp: ring_rel_def ring_pool_init_def fifo_init_def working_def clients_ok_def)

lemma ring_run_append: "ring_run (as @ bs) s = Option.bind (ring_run as s) (ring_run bs)"
proof (induction as arbitrary: s)
  case (Cons a as)
  then show ?case by (cases "ring_step a s") simp_all
qed simp

lemma fifo_adds: "length (waiting t) + length ts \<le> TASK_QUEUE_MAX \<Longrightarrow> fifo_run (map Add_Task ts) t = Some (t\<lparr>waiting := waiting t @ ts\<rparr>)"
  by (induction ts arbitrary: t) simp_all

lemma ring_run_clients: "ring_run as s = Some s' \<Longrightarrow> length (ring_clients s') = length (ring_clients s)"
proof (induction as arbitrary: s)
  case (Cons a as)
  then obtain s1 where s1: "ring_step a s = Some s1" "ring_run as s1 = Some s'" by (auto simp: bind_eq_Some_conv)
  then have "length (ring_clients s1) = length (ring_clients s)"
    by (auto simp: ring_step_def worker_step_def client_call_def client_step_def bind_eq_Some_conv
        split: ring_action.splits ring_worker.splits ring_client.splits option.splits if_splits)
  then show ?case using Cons.IH s1(2) by simp
qed simp

text \<open>After adding tasks to the new pool.\<close>

lemma adds_threads:
  "ring_run (map Add_Task ts) s = Some s' \<Longrightarrow> ring_workers s = replicate n Picking \<Longrightarrow>
   ring_workers s' = replicate n Picking \<and> ring_clients s' = ring_clients s"
proof (induction ts arbitrary: s)
  case (Cons t ts)
  then obtain s1 where s1: "ring_step (Add_Task t) s = Some s1" "ring_run (map Add_Task ts) s1 = Some s'" by (auto simp: bind_eq_Some_conv)
  then have "ring_workers s1 = replicate n Picking" "ring_clients s1 = ring_clients s" using Cons.prems(2)
    by (auto simp: ring_step_def bind_eq_Some_conv split: if_splits)
  then show ?case using Cons.IH s1(2) by fastforce
qed simp

lemma ring_adds:
  assumes "length ts \<le> TASK_QUEUE_MAX"
  shows "\<exists>s. ring_run (map Add_Task ts) (ring_pool_init n c) = Some s \<and> ring_rel (length ts) s ((fifo_init n)\<lparr>waiting := ts\<rparr>) \<and>
    ring_workers s = replicate n Picking \<and> ring_clients s = replicate c Out"
proof -
  have "fifo_run (map Add_Task ts) (fifo_init n) = Some ((fifo_init n)\<lparr>waiting := ts\<rparr>)"
    using fifo_adds [of "fifo_init n" ts] assms by (simp add: fifo_init_def)
  from ring_run_fifo [OF ring_rel_init [of n c] _ this] assms show ?thesis
    using adds_threads [of ts "ring_pool_init n c"] by (auto simp: TASK_QUEUE_MAX_def RING_INT_MAX_def ring_pool_init_def)
qed

subsection \<open>A full queue\<close>

text \<open>A task that is added to the full queue goes into the entry of the oldest, which then also is the last.\<close>

lemma ring_overflow:
  assumes R: "ring_rel b s t" and w: "length (waiting t) = TASK_QUEUE_MAX" and b: "b < RING_INT_MAX"
  shows "\<exists>s'. ring_step (Add_Task task) s = Some s' \<and> ring_rel (b + 1) s' (t\<lparr>waiting := task # tl (waiting t) @ [task]\<rparr>)"
proof -
  note D = ring_relD [OF R]
  let ?h = "queue_head (ring s)" and ?ws = "task # tl (waiting t) @ [task]"
  let ?q = "(task_queue (ring s))[?h mod TASK_QUEUE_MAX := Some task]"
  let ?p = "(ring s)\<lparr>task_queue := ?q, queue_tail := queue_tail (ring s) + 1\<rparr>"
  have full: "queue_tail (ring s) = ?h + 1000" "waiting t \<noteq> []" using D(3) w by (auto simp: TASK_QUEUE_MAX_def)
  have "int_inc (queue_tail (ring s)) = Some (queue_tail (ring s) + 1)" using D(9) b by (simp add: int_inc_def)
  then have "ring_step (Add_Task task) s = Some (s\<lparr>ring := ?p\<rparr>)"
    using D(1) full(1) by (simp add: ring_step_def pool_add_task_def TASK_QUEUE_MAX_def)
  moreover have "?q ! ((?h + j) mod TASK_QUEUE_MAX) = Some (?ws ! j)" if j: "j < length ?ws" for j
  proof (cases "j = 0 \<or> j = 1000")
    case True
    then have "?ws ! j = task" using w by (auto simp: nth_append TASK_QUEUE_MAX_def nth_Cons split: nat.split)
    then show ?thesis using True D(2) by (auto simp: TASK_QUEUE_MAX_def)
  next
    case False
    then have l: "0 < j" "j < 1000" using j w by (simp_all add: TASK_QUEUE_MAX_def)
    then have "?ws ! j = waiting t ! j" using w full(2) by (cases j) (auto simp: nth_append nth_tl TASK_QUEUE_MAX_def)
    moreover have "?h mod TASK_QUEUE_MAX \<noteq> (?h + j) mod TASK_QUEUE_MAX"
      using queue_index [of 0 j ?h] l by (simp add: TASK_QUEUE_MAX_def)
    ultimately show ?thesis using D(5) [of j] l w by (simp add: TASK_QUEUE_MAX_def)
  qed
  moreover have "length ?ws = length (waiting t) + 1" using full(2) by simp
  ultimately show ?thesis using D(1-4) D(6-9) D(10) [OF full(2)] by (auto simp: ring_rel_def simp del: list.size append.simps)
qed

text \<open>The steps of workers and of clients that wait.\<close>

definition serving :: "ring_action \<Rightarrow> bool" where
  "serving a = (case a of Add_Task t \<Rightarrow> False | Pool_Destroy j \<Rightarrow> False | _ \<Rightarrow> True)"

lemma fifo_serving: "\<forall>a \<in> set as. serving a \<Longrightarrow> added_tasks as = [] \<and> (\<exists>t'. fifo_run as t = Some t')"
proof (induction as arbitrary: t)
  case (Cons a as)
  then show ?case by (cases a) (auto simp: serving_def)
qed simp

lemma fifo_drain:
  "0 < length (s_workers t) \<Longrightarrow> s_workers t ! 0 = Picking \<Longrightarrow>
   \<exists>t'. fifo_run (concat (replicate (length (waiting t)) [Work 0 0, Work 0 0])) t = Some t' \<and> waiting t' = []"
proof (induction "waiting t" arbitrary: t)
  case (Cons x xs)
  let ?u = "t\<lparr>waiting := xs, s_workers := (s_workers t)[0 := Picking], s_started := s_started t @ [x]\<rparr>"
  have "fifo_work 0 (fifo_work 0 t) = ?u" using Cons.prems Cons.hyps(2) [symmetric] by (simp add: fifo_work_def)
  moreover have "\<exists>t'. fifo_run (concat (replicate (length (waiting ?u)) [Work 0 0, Work 0 0])) ?u = Some t' \<and> waiting t' = []"
    by (rule Cons.hyps(1)) (use Cons.prems in simp_all)
  ultimately show ?case unfolding Cons.hyps(2) [symmetric] by simp
qed simp

lemma ring_full_run:
  assumes "length ts = TASK_QUEUE_MAX" and "\<forall>a \<in> set bs. serving a" and "length bs + 1001 \<le> RING_INT_MAX"
  shows "\<exists>s u. ring_run (map Add_Task ts @ Add_Task t # bs) (ring_pool_init n c) = Some s \<and>
    fifo_run bs ((fifo_init n)\<lparr>waiting := t # tl ts @ [t]\<rparr>) = Some u \<and> started s @ waiting u = t # tl ts @ [t] \<and>
    (Asleep \<in> set (ring_workers s) \<longrightarrow> waiting u = [])"
proof -
  let ?i = "(fifo_init n)\<lparr>waiting := t # tl ts @ [t]\<rparr>"
  obtain s where s: "ring_run (map Add_Task ts) (ring_pool_init n c) = Some s" "ring_rel (length ts) s ((fifo_init n)\<lparr>waiting := ts\<rparr>)"
    using ring_adds [of ts n c] assms(1) by auto
  then obtain s1 where s1: "ring_step (Add_Task t) s = Some s1" "ring_rel 1001 s1 ?i"
    using ring_overflow [OF s(2), of t] assms(1) by (auto simp: TASK_QUEUE_MAX_def RING_INT_MAX_def)
  from fifo_serving [OF assms(2), of ?i] obtain u where u: "fifo_run bs ?i = Some u" "added_tasks bs = []" by blast
  from ring_run_fifo [OF s1(2) _ u(1)] assms(3) obtain s2 where s2: "ring_run bs s1 = Some s2" "ring_rel (1001 + length bs) s2 u"
    by (auto simp: add.commute)
  have "started s2 @ waiting u = t # tl ts @ [t]"
    using fifo_run_order [OF u(1)] u(2) ring_relD(7) [OF s2(2)] by (simp add: fifo_init_def)
  moreover have "ring_run (map Add_Task ts @ Add_Task t # bs) (ring_pool_init n c) = Some s2"
    using s(1) s1(1) s2(1) by (simp add: ring_run_append)
  ultimately show ?thesis using u(1) ring_relD(10) [OF s2(2)] by blast
qed

subsection \<open>The claims\<close>

text \<open>C13: As long as no more than 1000 tasks wait and the pool is not destroyed, it is a FIFO queue, under any schedule of its workers and
  clients: the tasks that are started and those that wait are the added ones, in order, and no worker sleeps while a task waits, since
  a wake-up is never lost.  A client that has the mutex in \<open>pool_wait\<close> returns exactly when no worker has a
  task, and otherwise blocks on \<open>done\<close>; if it is the only client, it is blocked only while a worker has a task, since
  the last worker to finish signals \<open>done\<close>.  So \<open>pool_wait\<close> does not do what \<open>threadpool.h\<close> says, to block until the pool
  is done executing its tasks: it returns while tasks wait that no worker has picked (\<open>ring_pool_destroy_early\<close>), and of two clients
  one may stay blocked for ever (\<open>ring_pool_wait_stuck\<close>).\<close>

theorem ring_pool_fifo:
  assumes "length as \<le> RING_INT_MAX" and "fifo_run as (fifo_init n) = Some t"
  shows "\<exists>s. ring_run as (ring_pool_init n c) = Some s \<and> started s @ waiting t = added_tasks as \<and>
    map awake (ring_workers s) = s_workers t \<and> (Asleep \<in> set (ring_workers s) \<longrightarrow> waiting t = []) \<and>
    pool_wait False (ring s) = Some (if \<exists>task. Working task \<in> set (ring_workers s) then On_Done False else Out) \<and>
    (c = 1 \<and> On_Done False \<in> set (ring_clients s) \<longrightarrow> (\<exists>task. Working task \<in> set (ring_workers s)))"
proof -
  from ring_run_fifo [OF ring_rel_init _ assms(2)] assms(1)
  obtain s where s: "ring_run as (ring_pool_init n c) = Some s" "ring_rel (length as) s t" by auto
  note D = ring_relD [OF s(2)]
  have "started s @ waiting t = added_tasks as" using fifo_run_order [OF assms(2)] D(7) by (simp add: fifo_init_def)
  moreover have W: "(0 < scheduled (ring s)) = (\<exists>task. Working task \<in> set (ring_workers s))"
    unfolding D(8) D(6) [symmetric] by (rule working_some)
  have "pool_wait False (ring s) = Some (if \<exists>task. Working task \<in> set (ring_workers s) then On_Done False else Out)"
    using D(1) W by (simp add: pool_wait_def)
  moreover have "\<exists>task. Working task \<in> set (ring_workers s)" if "c = 1" "On_Done False \<in> set (ring_clients s)"
    using that D(4) W ring_run_clients [OF s(1)] by (auto simp: clients_ok_def ring_pool_init_def)
  ultimately show ?thesis using s(1) D(6,10) by blast
qed

definition ex_task :: "nat \<Rightarrow> task_data" where
  "ex_task i = \<lparr>work_routine = 4096, task_arg = i\<rparr>"

definition ex_schedule :: "ring_action list" where
  "ex_schedule = [Work 0 0, Add_Task (ex_task 1), Add_Task (ex_task 2), Work 1 0, Pool_Wait 0, Work 0 0, Work 1 0, Spurious_Done 0, Go_On 0,
     Add_Task (ex_task 3)]"

theorem ring_pool_fifo_witness:
  "\<exists>s. ring_run ex_schedule (ring_pool_init 2 1) = Some s \<and>
    started s @ [ex_task 3] = [ex_task 1, ex_task 2, ex_task 3] \<and> map awake (ring_workers s) = [Working (ex_task 2), Picking] \<and>
    Asleep \<notin> set (ring_workers s) \<and> pool_wait False (ring s) = Some (On_Done False) \<and> ring_clients s = [On_Done False]"
proof -
  have f: "fifo_run ex_schedule (fifo_init 2) =
      Some \<lparr>waiting = [ex_task 3], s_workers = [Working (ex_task 2), Picking], s_started = [ex_task 1, ex_task 2]\<rparr>"
    by (simp add: ex_schedule_def fifo_init_def fifo_work_def TASK_QUEUE_MAX_def numeral_2_eq_2)
  have l: "length ex_schedule \<le> RING_INT_MAX" by (simp add: ex_schedule_def RING_INT_MAX_def)
  from ring_pool_fifo [OF l f, of 1] obtain s where s: "ring_run ex_schedule (ring_pool_init 2 1) = Some s"
    "started s @ [ex_task 3] = added_tasks ex_schedule" "map awake (ring_workers s) = [Working (ex_task 2), Picking]"
    "Asleep \<notin> set (ring_workers s)"
    "pool_wait False (ring s) = Some (if \<exists>task. Working task \<in> set (ring_workers s) then On_Done False else Out)" by auto
  moreover have "Working (ex_task 2) \<in> set (ring_workers s)"
    using s(3) by (cases "ring_workers s") auto
  moreover have "replicate 2 Picking = [Picking, Picking]" by (simp add: numeral_2_eq_2)
  then have "ring_clients s = [On_Done False]" using s(1)
    by (auto simp: ex_schedule_def ring_pool_init_def ring_step_def worker_step_def worker_pick_def worker_finish_def pool_add_task_def
        client_call_def client_step_def pool_wait_def int_inc_def RING_INT_MAX_def TASK_QUEUE_MAX_def Let_def)
  ultimately show ?thesis by (auto simp: ex_schedule_def)
qed

text \<open>C35: \<open>pool_add_task\<close> does not look whether the queue is full.  When 1000 tasks wait, the next one replaces the oldest: under any
  schedule of the workers, and of clients that wait, the pool starts the new task first, then the other 999 in order, and then
  the new task again; the oldest is never started.  No worker sleeps before all of these are started, and some schedule
  starts them all.\<close>

theorem ring_pool_full_loses:
  assumes "length ts = TASK_QUEUE_MAX" and "0 < n" and "\<forall>a \<in> set bs. serving a" and "length bs + 1001 \<le> RING_INT_MAX"
  shows "(\<exists>s rest. ring_run (map Add_Task ts @ Add_Task t # bs) (ring_pool_init n c) = Some s \<and>
      started s @ rest = t # tl ts @ [t] \<and> (Asleep \<in> set (ring_workers s) \<longrightarrow> rest = [])) \<and>
    (\<exists>ds s. (\<forall>a \<in> set ds. serving a) \<and> ring_run (map Add_Task ts @ Add_Task t # ds) (ring_pool_init n c) = Some s \<and>
      started s = t # tl ts @ [t])"
proof
  show "\<exists>s rest. ring_run (map Add_Task ts @ Add_Task t # bs) (ring_pool_init n c) = Some s \<and>
      started s @ rest = t # tl ts @ [t] \<and> (Asleep \<in> set (ring_workers s) \<longrightarrow> rest = [])"
    using ring_full_run [OF assms(1,3,4), of t n c] by blast
next
  let ?i = "(fifo_init n)\<lparr>waiting := t # tl ts @ [t]\<rparr>"
  let ?ds = "concat (replicate 1001 [Work 0 0, Work 0 0])"
  have l: "length (waiting ?i) = 1001" using assms(1) by (simp add: TASK_QUEUE_MAX_def)
  have "0 < length (s_workers ?i)" "s_workers ?i ! 0 = Picking" using assms(2) by (simp_all add: fifo_init_def)
  from fifo_drain [OF this, unfolded l] obtain u where u: "fifo_run ?ds ?i = Some u" "waiting u = []" by blast
  have ds: "\<forall>a \<in> set ?ds. serving a" by (simp add: serving_def)
  have "length ?ds + 1001 \<le> RING_INT_MAX" by (simp add: length_concat RING_INT_MAX_def sum_list_replicate)
  from ring_full_run [OF assms(1) ds this, of t n c] u obtain s where
    "ring_run (map Add_Task ts @ Add_Task t # ?ds) (ring_pool_init n c) = Some s" "started s = t # tl ts @ [t]" by auto
  with ds show "\<exists>ds s. (\<forall>a \<in> set ds. serving a) \<and> ring_run (map Add_Task ts @ Add_Task t # ds) (ring_pool_init n c) = Some s \<and>
      started s = t # tl ts @ [t]" by blast
qed

theorem ring_pool_full_loses_witness:
  "(\<exists>s rest. ring_run (map Add_Task (map ex_task [0..<1000]) @ Add_Task (ex_task 1000) # [Work 0 0, Pool_Wait 0, Work 0 0]) (ring_pool_init 1 1) = Some s \<and>
      started s @ rest = ex_task 1000 # tl (map ex_task [0..<1000]) @ [ex_task 1000]) \<and>
    (\<exists>ds s. ring_run (map Add_Task (map ex_task [0..<1000]) @ Add_Task (ex_task 1000) # ds) (ring_pool_init 1 1) = Some s \<and>
      started s = ex_task 1000 # tl (map ex_task [0..<1000]) @ [ex_task 1000])"
proof -
  have 1: "length (map ex_task [0..<1000]) = TASK_QUEUE_MAX" by (simp add: TASK_QUEUE_MAX_def)
  have 2: "\<forall>a \<in> set [Work 0 0, Pool_Wait 0, Work 0 0]. serving a" by (simp add: serving_def)
  have 3: "length [Work 0 0, Pool_Wait 0, Work 0 0] + 1001 \<le> RING_INT_MAX" by (simp add: RING_INT_MAX_def)
  from ring_pool_full_loses [OF 1 zero_less_one 2 3, of "ex_task 1000" 1] show ?thesis by (elim conjE) (intro conjI; blast)
qed

text \<open>\<open>pool_wait\<close> returns while tasks wait that no worker has picked.  \<open>pool_destroy\<close> then releases the pool: none of the
  tasks is run, and the next step of a worker touches freed memory.\<close>

theorem ring_pool_destroy_early:
  assumes "length ts \<le> TASK_QUEUE_MAX" and "i < n"
  shows "\<exists>s s'. ring_run (map Add_Task ts) (ring_pool_init n 1) = Some s \<and> ring_run [Pool_Wait 0] s = Some s \<and> ring_clients s = [Out] \<and> started s = [] \<and>
    ring_run [Pool_Destroy 0, Go_On 0] s = Some s' \<and> started s' = [] \<and> ring_run [Work i k] s' = None"
proof -
  obtain s where s: "ring_run (map Add_Task ts) (ring_pool_init n 1) = Some s" "ring_rel (length ts) s ((fifo_init n)\<lparr>waiting := ts\<rparr>)"
    and st: "ring_workers s = replicate n Picking" "ring_clients s = [Out]"
    using ring_adds [OF assms(1), of n 1] by auto
  note D = ring_relD [OF s(2)]
  have e: "started s = []" "\<not> released (ring s)" using D(1,7) by (simp_all add: fifo_init_def)
  have "scheduled (ring s) = 0" using D(8) by (simp add: fifo_init_def working_def)
  then have w: "pool_wait b (ring s) = Some (if b then Releasing else Out)" for b using e(2) by (simp add: pool_wait_def)
  let ?u = "s\<lparr>ring := (ring s)\<lparr>released := True\<rparr>, ring_clients := [Out]\<rparr>"
  have "ring_run [Pool_Wait 0] s = Some s" using st(2) w [of False] by (cases s) (simp add: ring_step_def client_call_def)
  moreover have "ring_run [Pool_Destroy 0, Go_On 0] s = Some ?u"
    using st(2) w [of True] e(2) by (simp add: ring_step_def client_call_def client_step_def ring_pool_destroy_def)
  moreover have "ring_run [Work i k] ?u = None" using st(1) assms(2) by (simp add: ring_step_def worker_step_def worker_pick_def)
  moreover have "started ?u = []" using e(1) by simp
  ultimately show ?thesis using s(1) st(2) e(1) by blast
qed

theorem ring_pool_destroy_early_witness:
  "\<exists>s s'. ring_run (map Add_Task [ex_task 1, ex_task 2]) (ring_pool_init 4 1) = Some s \<and> ring_run [Pool_Wait 0] s = Some s \<and> ring_clients s = [Out] \<and>
    started s = [] \<and> ring_run [Pool_Destroy 0, Go_On 0] s = Some s' \<and> started s' = [] \<and> ring_run [Work 3 0] s' = None"
  by (rule ring_pool_destroy_early) (simp_all add: TASK_QUEUE_MAX_def)

text \<open>\<open>pthread_cond_signal\<close> wakes one client.  When two clients wait for the same task, one of them stays blocked after it is done,
  with no task left, in every continuation in which no task is added and \<open>pthread_cond_wait\<close> does not return by itself.\<close>

definition client_stuck :: "ring_system \<Rightarrow> bool" where
  "client_stuck s \<longleftrightarrow> \<not> released (ring s) \<and> queue_head (ring s) = queue_tail (ring s) \<and> scheduled (ring s) = 0 \<and>
     (\<forall>w \<in> set (ring_workers s). \<forall>task. w \<noteq> Working task) \<and> (\<exists>c. ring_clients s = [c, On_Done False] \<and> c \<in> {Out, Off_Done False})"

lemma client_stuck_step:
  assumes S: "client_stuck s" and a: "serving a" "a \<noteq> Spurious_Done 1"
  shows "\<exists>s'. ring_step a s = Some s' \<and> client_stuck s'"
proof -
  from S obtain c where c: "ring_clients s = [c, On_Done False]" "c = Out \<or> c = Off_Done False" and r: "\<not> released (ring s)" "scheduled (ring s) = 0"
    "queue_head (ring s) = queue_tail (ring s)" "\<forall>w \<in> set (ring_workers s). \<forall>task. w \<noteq> Working task" by (auto simp: client_stuck_def)
  have up: "\<forall>x \<in> set ((ring_workers s)[i := w]). \<forall>task. x \<noteq> Working task" if "\<forall>task. w \<noteq> Working task" for i w
    using set_update_subset_insert [of "ring_workers s" i w] r(4) that by blast
  show ?thesis
  proof (cases a)
    case (Work i k)
    show ?thesis
    proof (cases "i < length (ring_workers s)")
      case i: True
      then have "ring_workers s ! i = Picking \<or> ring_workers s ! i = Asleep" using r(4) nth_mem [OF i] by (cases "ring_workers s ! i") auto
      then show ?thesis using Work i S r up [of Asleep i] by (auto simp: ring_step_def worker_step_def worker_pick_def client_stuck_def)
    qed (use Work S in \<open>simp add: ring_step_def worker_step_def\<close>)
  next
    case (Spurious i)
    have "awake (ring_workers s ! i) \<noteq> Working task" if "i < length (ring_workers s)" for task
      using r(4) nth_mem [OF that] by simp
    then show ?thesis using Spurious S up [of "awake (ring_workers s ! i)" i] by (auto simp: ring_step_def client_stuck_def)
  next
    case (Pool_Wait j)
    then show ?thesis using S c r by (auto simp: ring_step_def client_call_def pool_wait_def client_stuck_def less_Suc_eq)
  next
    case (Go_On j)
    then show ?thesis using S c r by (auto simp: ring_step_def client_step_def pool_wait_def client_stuck_def less_Suc_eq)
  next
    case (Spurious_Done j)
    then have "j = 0 \<or> 1 < j" using a(2) by (cases j) auto
    then show ?thesis using Spurious_Done S c by (auto simp: ring_step_def client_stuck_def)
  qed (use a in \<open>simp_all add: serving_def\<close>)
qed

lemma client_stuck_run:
  "client_stuck s \<Longrightarrow> \<forall>a \<in> set as. serving a \<and> a \<noteq> Spurious_Done 1 \<Longrightarrow> \<exists>s'. ring_run as s = Some s' \<and> client_stuck s'"
proof (induction as arbitrary: s)
  case (Cons a as)
  then show ?case using client_stuck_step [of s a] by fastforce
qed simp

theorem ring_pool_wait_stuck:
  "\<exists>s. ring_run [Add_Task t, Work 0 0, Pool_Wait 0, Pool_Wait 1, Work 0 0, Go_On 0] (ring_pool_init 1 2) = Some s \<and>
    started s = [t] \<and> ring_clients s = [Out, On_Done False] \<and>
    (\<forall>as. (\<forall>a \<in> set as. serving a \<and> a \<noteq> Spurious_Done 1) \<longrightarrow> (\<exists>s'. ring_run as s = Some s' \<and> ring_clients s' ! 1 = On_Done False))"
proof -
  have "replicate 2 Out = [Out, Out]" by (simp add: numeral_2_eq_2)
  then obtain s where s: "ring_run [Add_Task t, Work 0 0, Pool_Wait 0, Pool_Wait 1, Work 0 0, Go_On 0] (ring_pool_init 1 2) = Some s"
    "started s = [t]" "ring_clients s = [Out, On_Done False]" "client_stuck s"
    by (simp add: ring_pool_init_def ring_step_def worker_step_def worker_pick_def worker_finish_def pool_add_task_def
        client_call_def client_step_def pool_wait_def signal_done_def int_inc_def RING_INT_MAX_def TASK_QUEUE_MAX_def Let_def client_stuck_def)
  have "\<exists>s'. ring_run as s = Some s' \<and> ring_clients s' ! 1 = On_Done False" if "\<forall>a \<in> set as. serving a \<and> a \<noteq> Spurious_Done 1" for as
    using client_stuck_run [OF s(4) that] by (auto simp: client_stuck_def)
  with s(1-3) show ?thesis by blast
qed

end
