(* ===== verification/HmacMd5.thy ===== *)
theory HmacMd5
  imports Prelude
begin

text \<open>
  \<open>hmac_md5\<close> of \<open>encrypt/md5/c/hmac_md5.c\<close>.  The three functions of OpenSSL that it calls are parameters: the
  initial context, \<open>update\<close> for \<open>MD5_Update\<close> with a block of bytes and \<open>final\<close> for the digest that
  \<open>MD5_Final\<close> stores.  A copy or an update behind the end of an array is \<open>None\<close>.
\<close>

unbundle bit_operations_syntax

definition memcpy_to :: "8 word list \<Rightarrow> 8 word list \<Rightarrow> 8 word list option" where
  "memcpy_to a src = (if length src \<le> length a then Some (src @ drop (length src) a) else None)"

text \<open>The key that the pads are made of.\<close>

definition hmac_key :: "'c \<Rightarrow> ('c \<Rightarrow> 8 word list \<Rightarrow> 'c) \<Rightarrow> ('c \<Rightarrow> 8 word list) \<Rightarrow> 8 word list \<Rightarrow> 8 word list" where
  "hmac_key md5_init update final key = (if 64 < length key then take 16 (final (update md5_init key)) else key)"

text \<open>The loop that runs \<open>n\<close> more times, from index \<open>i\<close>.\<close>

fun pad_loop :: "nat \<Rightarrow> nat \<Rightarrow> 8 word list \<Rightarrow> 8 word list \<Rightarrow> (8 word list \<times> 8 word list) option" where
  "pad_loop 0 i k_ipad k_opad = Some (k_ipad, k_opad)"
| "pad_loop (Suc n) i k_ipad k_opad =
     (if i < length k_ipad \<and> i < length k_opad
      then pad_loop n (i + 1) (k_ipad[i := k_ipad ! i XOR 0x36]) (k_opad[i := k_opad ! i XOR 0x5c])
      else None)"

definition hmac_md5 ::
    "'c \<Rightarrow> ('c \<Rightarrow> 8 word list \<Rightarrow> 'c) \<Rightarrow> ('c \<Rightarrow> 8 word list) \<Rightarrow> 8 word list \<Rightarrow> 8 word list \<Rightarrow> 8 word list option" where
  "hmac_md5 md5_init update final t key = do {
     k_ipad \<leftarrow> memcpy_to (replicate 65 0) (hmac_key md5_init update final key);
     k_opad \<leftarrow> memcpy_to (replicate 65 0) (hmac_key md5_init update final key);
     (k_ipad, k_opad) \<leftarrow> pad_loop 64 0 k_ipad k_opad;
     let digest = final (update (update md5_init (take 64 k_ipad)) t);
     Some (final (update (update md5_init (take 64 k_opad)) (take 16 digest))) }"

section \<open>The properties\<close>

text \<open>
  \<open>hmac_md5\<close> against RFC 2104: \<open>H (K XOR opad, H (K XOR ipad, text))\<close>, where \<open>K\<close> is the key, hashed when it is longer
  than a block and filled with zeros to 64 bytes.
\<close>

subsection \<open>The specification\<close>

definition block_key :: "(8 word list \<Rightarrow> 8 word list) \<Rightarrow> 8 word list \<Rightarrow> 8 word list" where
  "block_key H key = (let k = if 64 < length key then H key else key in k @ replicate (64 - length k) 0)"

definition rfc2104 :: "(8 word list \<Rightarrow> 8 word list) \<Rightarrow> 8 word list \<Rightarrow> 8 word list \<Rightarrow> 8 word list" where
  "rfc2104 H t key = H (map (\<lambda>b. b XOR 0x5c) (block_key H key) @ H (map (\<lambda>b. b XOR 0x36) (block_key H key) @ t))"

subsection \<open>The loop\<close>

lemma pad_loop_maps:
  "i + n \<le> length a \<Longrightarrow> length b = length a \<Longrightarrow> pad_loop n i a b =
    Some (take i a @ map (\<lambda>b. b XOR 0x36) (take n (drop i a)) @ drop (i + n) a,
      take i b @ map (\<lambda>b. b XOR 0x5c) (take n (drop i b)) @ drop (i + n) b)"
proof (induction n arbitrary: i a b)
  case (Suc n)
  have step: "take (Suc i) (x[i := y]) @ z = take i x @ y # z" if "i < length x" for x y and z :: "8 word list"
    using that by (simp add: take_Suc_conv_app_nth)
  have chunk: "take (Suc n) (drop i x) = x ! i # take n (drop (Suc i) x)" if "i < length x" for x :: "8 word list"
    using that by (simp add: Cons_nth_drop_Suc [symmetric])
  show ?case using Suc.prems Suc.IH [of "Suc i" "a[i := a ! i XOR 0x36]" "b[i := b ! i XOR 0x5c]"] by (simp add: step chunk)
qed simp

text \<open>A key of at most 64 bytes fits, and the 64 bytes that are hashed are the pad.\<close>

lemma memcpy_pad:
  assumes "length k \<le> 64"
  shows "memcpy_to (replicate 65 0) k = Some (k @ replicate (65 - length k) 0)"
    "take 64 (k @ replicate (65 - length k) 0) = k @ replicate (64 - length k) 0"
  using assms by (simp_all add: memcpy_to_def)

lemma pads:
  assumes "length k \<le> 64"
  shows "\<exists>a b. pad_loop 64 0 (k @ replicate (65 - length k) 0) (k @ replicate (65 - length k) 0) = Some (a, b) \<and>
    take 64 a = map (\<lambda>b. b XOR 0x36) (k @ replicate (64 - length k) 0) \<and> take 64 b = map (\<lambda>b. b XOR 0x5c) (k @ replicate (64 - length k) 0)"
proof -
  let ?p = "k @ replicate (65 - length k) 0"
  have p: "length ?p = 65" "take 64 ?p = k @ replicate (64 - length k) 0" using assms by simp_all
  from pad_loop_maps [of 0 64 ?p ?p] p(1)
  have "pad_loop 64 0 ?p ?p = Some (map (\<lambda>b. b XOR 0x36) (take 64 ?p) @ drop 64 ?p, map (\<lambda>b. b XOR 0x5c) (take 64 ?p) @ drop 64 ?p)"
    by (simp del: take_append drop_append)
  moreover have "take 64 (map f (take 64 ?p) @ drop 64 ?p) = map f (take 64 ?p)" for f :: "8 word \<Rightarrow> 8 word"
    using p by simp
  ultimately show ?thesis unfolding p(2) [symmetric] by blast
qed

subsection \<open>The claims\<close>

text \<open>C30: \<open>hmac_md5\<close> computes the HMAC of RFC 2104 for keys and texts of every length, and stays inside its arrays.  Of
  OpenSSL it needs that the digest has 16 bytes and that updating in two pieces is updating with their concatenation.\<close>

theorem hmac_md5_rfc2104:
  assumes "\<And>c a b. update (update c a) b = update c (a @ b)" and "\<And>c. length (final c) = 16"
  shows "hmac_md5 md5_init update final t key = Some (rfc2104 (\<lambda>x. final (update md5_init x)) t key)"
proof -
  let ?k = "hmac_key md5_init update final key"
  have k: "length ?k \<le> 64" "block_key (\<lambda>x. final (update md5_init x)) key = ?k @ replicate (64 - length ?k) 0"
    using assms(2) by (simp_all add: hmac_key_def block_key_def Let_def)
  from pads [OF k(1)] show ?thesis using assms by (auto simp: hmac_md5_def memcpy_pad(1) [OF k(1)] rfc2104_def k(2))
qed

definition ex_final :: "8 word list \<Rightarrow> 8 word list" where
  "ex_final c = take 16 (rev c @ replicate 16 0)"

theorem hmac_md5_rfc2104_witness:
  "hmac_md5 [] (@) ex_final [1, 2] [7, 8, 9] = Some (rfc2104 (\<lambda>x. ex_final ([] @ x)) [1, 2] [7, 8, 9])"
  by (rule hmac_md5_rfc2104) (simp_all add: ex_final_def)

end
