(* ===== verification/CsvLine.thy ===== *)
theory CsvLine
  imports Prelude
begin

text \<open>
  \<open>CSV::ParseLine\<close> of \<open>file_format/csv/c++/csv.cpp\<close>.  A C string is the list of its characters before the zero.  The
  buffer for one field has 128 characters; a copy behind its end, and reading it as a string when it holds no
  zero, are \<open>None\<close>.
\<close>

definition nul :: char where
  "nul = CHR 0x00"

definition csv_buffer_size :: nat where
  "csv_buffer_size = 128"

definition clear_and_copy :: "string \<Rightarrow> nat \<Rightarrow> string option" where
  "clear_and_copy p n = (if n \<le> csv_buffer_size then Some (take n p @ replicate (csv_buffer_size - n) nul) else None)"

definition buffer_string :: "string \<Rightarrow> string option" where
  "buffer_string buffer = (if nul \<in> set buffer then Some (takeWhile (\<lambda>c. c \<noteq> nul) buffer) else None)"

text \<open>\<open>strchr\<close>: the offset of the first occurrence.\<close>

fun strchr :: "string \<Rightarrow> char \<Rightarrow> nat option" where
  "strchr [] c = None"
| "strchr (x # s) c = (if x = c then Some 0 else map_option Suc (strchr s c))"

lemma strchr_less: "strchr s c = Some n \<Longrightarrow> n < length s"
  by (induction s arbitrary: n) (auto split: if_splits)

function parse_fields :: "string \<Rightarrow> string list \<Rightarrow> string list option" where
  "parse_fields pDup oneline = (case strchr pDup CHR '','' of
     None \<Rightarrow> do {
       buffer \<leftarrow> clear_and_copy pDup (length pDup);
       s \<leftarrow> buffer_string buffer;
       Some (oneline @ [s]) }
   | Some strlength \<Rightarrow> do {
       buffer \<leftarrow> clear_and_copy pDup strlength;
       s \<leftarrow> buffer_string buffer;
       parse_fields (drop (strlength + 1) pDup) (oneline @ [s]) })"
  by pat_completeness auto
termination by (relation "measure (\<lambda>(p, l). length p)") (auto dest: strchr_less)

declare parse_fields.simps [simp del]

definition ParseLine :: "string \<Rightarrow> string list option" where
  "ParseLine pStr = parse_fields pStr []"

section \<open>The properties\<close>

text \<open>
  \<open>ParseLine\<close> against the lines that it is for: fields that are joined with commas.
\<close>

fun csv_join :: "string list \<Rightarrow> string" where
  "csv_join [] = []"
| "csv_join [f] = f"
| "csv_join (f # fs) = f @ CHR '','' # csv_join fs"

definition csv_field :: "string \<Rightarrow> bool" where
  "csv_field f \<longleftrightarrow> CHR '','' \<notin> set f \<and> nul \<notin> set f"

lemma strchr_none: "c \<notin> set s \<Longrightarrow> strchr s c = None"
  by (induction s) auto

lemma strchr_at: "c \<notin> set s \<Longrightarrow> strchr (s @ c # r) c = Some (length s)"
  by (induction s) auto

text \<open>The buffer gives back a field that leaves room for the zero.\<close>

lemma field_through_buffer:
  assumes "nul \<notin> set f"
  shows "Option.bind (clear_and_copy (f @ r) (length f)) buffer_string = (if length f < csv_buffer_size then Some f else None)"
proof -
  have "takeWhile (\<lambda>c. c \<noteq> nul) (f @ replicate n nul) = f" for n
    using assms by (cases n) (auto simp: takeWhile_append)
  then show ?thesis using assms by (auto simp: clear_and_copy_def buffer_string_def)
qed

lemma parse_fields_exact:
  "fs \<noteq> [] \<Longrightarrow> \<forall>f \<in> set fs. csv_field f \<Longrightarrow>
   parse_fields (csv_join fs) acc = (if \<forall>f \<in> set fs. length f < csv_buffer_size then Some (acc @ fs) else None)"
proof (induction fs arbitrary: acc rule: csv_join.induct)
  case (2 f)
  then have "strchr f CHR '','' = None" "nul \<notin> set f" by (simp_all add: csv_field_def strchr_none)
  then show ?case using field_through_buffer [of f "[]"] by (subst parse_fields.simps) (auto simp: bind_eq_Some_conv split: bind_splits if_splits)
next
  case (3 f g gs)
  then have c: "strchr (f @ CHR '','' # csv_join (g # gs)) CHR '','' = Some (length f)" "nul \<notin> set f"
    by (simp_all add: csv_field_def strchr_at)
  have "parse_fields (csv_join (f # g # gs)) acc =
      Option.bind (Option.bind (clear_and_copy (f @ CHR '','' # csv_join (g # gs)) (length f)) buffer_string)
        (\<lambda>s. parse_fields (csv_join (g # gs)) (acc @ [s]))"
    using c by (subst parse_fields.simps) simp
  also have "\<dots> = (if length f < csv_buffer_size then parse_fields (csv_join (g # gs)) (acc @ [f]) else None)"
    using field_through_buffer [OF c(2)] by simp
  finally show ?case using 3 by simp
qed simp

text \<open>Every C string is a line of fields.\<close>

lemma csv_join_exists: "nul \<notin> set s \<Longrightarrow> \<exists>fs. fs \<noteq> [] \<and> (\<forall>f \<in> set fs. csv_field f) \<and> csv_join fs = s"
proof (induction s)
  case Nil
  show ?case by (rule exI [of _ "[[]]"]) (simp add: csv_field_def)
next
  case (Cons c s)
  then obtain fs where fs: "fs \<noteq> []" "\<forall>f \<in> set fs. csv_field f" "csv_join fs = s" by auto
  show ?case
  proof (cases "c = CHR '',''")
    case True
    then show ?thesis using fs by (intro exI [of _ "[] # fs"]) (cases fs; simp add: csv_field_def)
  next
    case False
    obtain g gs where g: "fs = g # gs" using fs(1) by (cases fs) auto
    then have "csv_join ((c # g) # gs) = c # s" using fs(3) by (cases gs) auto
    then show ?thesis using fs(2) g False Cons.prems by (intro exI [of _ "(c # g) # gs"]) (auto simp: csv_field_def)
  qed
qed

subsection \<open>The claims\<close>

text \<open>C31: \<open>ParseLine\<close> undoes the joining of fields with commas, empty ones included, when every field has at most 127
  characters; with a longer field it leaves its buffer.\<close>

theorem csv_roundtrip:
  assumes "fs \<noteq> []" and "\<forall>f \<in> set fs. csv_field f"
  shows "ParseLine (csv_join fs) = (if \<forall>f \<in> set fs. length f \<le> 127 then Some fs else None)"
  using parse_fields_exact [OF assms, of "[]"] by (simp add: ParseLine_def csv_buffer_size_def less_Suc_eq_le [symmetric])

theorem csv_roundtrip_witness: "ParseLine ''12,,abc,'' = Some [''12'', [], ''abc'', []]"
  using csv_roundtrip [of "[''12'', [], ''abc'', []]"] by (simp add: csv_field_def nul_def)

text \<open>Joining what \<open>ParseLine\<close> returns gives the line.\<close>

lemma csv_parse_join: "nul \<notin> set s \<Longrightarrow> ParseLine s = Some fs \<Longrightarrow> csv_join fs = s"
  using csv_join_exists [of s] parse_fields_exact [of _ "[]"] by (auto simp: ParseLine_def split: if_splits)

end
