(* ===== verification/Barrier.thy ===== *)
theory Barrier
  imports Prelude
begin

text \<open>
  The two barriers: \<open>swp::barrier\<close> of \<open>thread/c++/barrier/barrier.h\<close>, and \<open>pthread_barrier_t\<close> of
  \<open>apple/apple_pthread_barrier.h\<close>.  A step of a thread runs from one acquisition of the mutex to its release, at the
  end of the call or in the wait on the condition variable.
\<close>

text \<open>A thread is between two calls, blocked on the condition variable, or about to take the mutex again.  The first number
  counts the calls that have returned; a call keeps the local \<open>gen\<close>.\<close>

datatype barrier_thread = Outside nat | Sleeping nat "32 word" | Woken nat "32 word"

fun notified :: "barrier_thread \<Rightarrow> barrier_thread" where
  "notified (Sleeping n gen) = Woken n gen"
| "notified t = t"

record barrier =
  m_threshold :: "32 word"
  m_count :: "32 word"
  m_generation :: "32 word"
  barrier_threads :: "barrier_thread list"
  results :: "(nat \<times> bool) list"

text \<open>\<open>results\<close> collects what the calls returned, with the thread.  The constructor, which throws when \<open>count\<close> is zero.\<close>

definition barrier_new :: "32 word \<Rightarrow> nat \<Rightarrow> barrier option" where
  "barrier_new count n =
     (if count = 0 then None
      else Some \<lparr>m_threshold = count, m_count = count, m_generation = 0, barrier_threads = replicate n (Outside 0),
        results = []\<rparr>)"

definition returns :: "nat \<Rightarrow> bool \<Rightarrow> barrier \<Rightarrow> barrier" where
  "returns i r b = b\<lparr>results := results b @ [(i, r)]\<rparr>"

definition set_thread :: "nat \<Rightarrow> barrier_thread \<Rightarrow> barrier \<Rightarrow> barrier" where
  "set_thread i t b = b\<lparr>barrier_threads := (barrier_threads b)[i := t]\<rparr>"

text \<open>\<open>wait\<close> up to the first release of the mutex.\<close>

definition wait_enter :: "nat \<Rightarrow> nat \<Rightarrow> barrier \<Rightarrow> barrier" where
  "wait_enter i n b =
     (let gen = m_generation b; b = b\<lparr>m_count := m_count b - 1\<rparr>
      in if m_count b = 0
         then returns i True (set_thread i (Outside (n + 1))
                (b\<lparr>m_generation := m_generation b + 1, m_count := m_threshold b, barrier_threads := map notified (barrier_threads b)\<rparr>))
         else set_thread i (Sleeping n gen) b)"

text \<open>The loop of \<open>wait\<close>, after a return from the wait on the condition variable.\<close>

definition wait_loop :: "nat \<Rightarrow> nat \<Rightarrow> 32 word \<Rightarrow> barrier \<Rightarrow> barrier" where
  "wait_loop i n gen b =
     (if gen = m_generation b then set_thread i (Sleeping n gen) b else returns i False (set_thread i (Outside (n + 1)) b))"

text \<open>Thread \<open>i\<close> runs, or its wait on the condition variable returns without a notification.\<close>

datatype barrier_action = Run nat | Spurious_Wake nat

definition barrier_step :: "barrier_action \<Rightarrow> barrier \<Rightarrow> barrier" where
  "barrier_step a b = (case a of
     Run i \<Rightarrow> if i < length (barrier_threads b) then
         (case barrier_threads b ! i of
            Outside n \<Rightarrow> wait_enter i n b
          | Sleeping n gen \<Rightarrow> b
          | Woken n gen \<Rightarrow> wait_loop i n gen b)
       else b
   | Spurious_Wake i \<Rightarrow> if i < length (barrier_threads b) then set_thread i (notified (barrier_threads b ! i)) b else b)"

definition barrier_run :: "barrier_action list \<Rightarrow> barrier \<Rightarrow> barrier" where
  "barrier_run as b = fold barrier_step as b"

subsection \<open>The barrier for macOS\<close>

text \<open>Its counters are \<open>int\<close>, one of them set from an \<open>unsigned int\<close>; \<open>gen\<close> of the threads is not used.  The mutex and the
  condition variable are created without an error.\<close>

record pthread_barrier =
  b_count :: int
  tripCount :: int
  b_threads :: "barrier_thread list"
  b_results :: "(nat \<times> int) list"

definition pthread_barrier_init :: "32 word \<Rightarrow> nat \<Rightarrow> pthread_barrier option" where
  "pthread_barrier_init count n =
     (if count = 0 then None else Some \<lparr>b_count = 0, tripCount = sint count, b_threads = replicate n (Outside 0), b_results = []\<rparr>)"

definition pthread_barrier_wait :: "nat \<Rightarrow> nat \<Rightarrow> pthread_barrier \<Rightarrow> pthread_barrier" where
  "pthread_barrier_wait i n b =
     (let b = b\<lparr>b_count := b_count b + 1\<rparr>
      in if tripCount b \<le> b_count b
         then b\<lparr>b_count := 0, b_threads := (map notified (b_threads b))[i := Outside (n + 1)], b_results := b_results b @ [(i, 1)]\<rparr>
         else b\<lparr>b_threads := (b_threads b)[i := Sleeping n 0]\<rparr>)"

definition pthread_barrier_step :: "barrier_action \<Rightarrow> pthread_barrier \<Rightarrow> pthread_barrier" where
  "pthread_barrier_step a b = (case a of
     Run i \<Rightarrow> if i < length (b_threads b) then
         (case b_threads b ! i of
            Outside n \<Rightarrow> pthread_barrier_wait i n b
          | Sleeping n gen \<Rightarrow> b
          | Woken n gen \<Rightarrow> b\<lparr>b_threads := (b_threads b)[i := Outside (n + 1)], b_results := b_results b @ [(i, 0)]\<rparr>)
       else b
   | Spurious_Wake i \<Rightarrow> if i < length (b_threads b) then b\<lparr>b_threads := (b_threads b)[i := notified (b_threads b ! i)]\<rparr> else b)"

definition pthread_barrier_run :: "barrier_action list \<Rightarrow> pthread_barrier \<Rightarrow> pthread_barrier" where
  "pthread_barrier_run as b = fold pthread_barrier_step as b"

subsection \<open>What the threads have done\<close>

fun passed :: "barrier_thread \<Rightarrow> nat" where
  "passed (Outside n) = n"
| "passed (Sleeping n gen) = n"
| "passed (Woken n gen) = n"

fun arrived :: "barrier_thread \<Rightarrow> nat" where
  "arrived (Outside n) = n"
| "arrived (Sleeping n gen) = n + 1"
| "arrived (Woken n gen) = n + 1"

section \<open>The properties\<close>

text \<open>
  The barriers, used by as many threads as their threshold.  In round \<open>g\<close> a thread has not arrived, or it waits for the end of
  the round, or it has been woken by the end of the round before.
\<close>

definition here :: "nat \<Rightarrow> barrier_thread \<Rightarrow> bool" where
  "here g t \<longleftrightarrow> passed t = g \<and> arrived t = g + 1"

definition in_round :: "nat \<Rightarrow> barrier_thread \<Rightarrow> bool" where
  "in_round g t \<longleftrightarrow> t = Outside g \<or> t = Sleeping g (of_nat g) \<or> t = Woken g (of_nat g) \<or> (0 < g \<and> t = Woken (g - 1) (of_nat (g - 1)))"

definition barrier_inv :: "nat \<Rightarrow> nat \<Rightarrow> barrier \<Rightarrow> bool" where
  "barrier_inv N g b \<longleftrightarrow> length (barrier_threads b) = N \<and> m_threshold b = of_nat N \<and> m_generation b = of_nat g \<and>
     (\<forall>t \<in> set (barrier_threads b). in_round g t) \<and> length (filter (here g) (barrier_threads b)) < N \<and>
     m_count b = of_nat (N - length (filter (here g) (barrier_threads b))) \<and> length (filter snd (results b)) = g"

lemma here_simps [simp]:
  "\<not> here g (Outside n)" "here g (Sleeping n w) \<longleftrightarrow> n = g" "here g (Woken n w) \<longleftrightarrow> n = g"
  by (auto simp: here_def)

lemma in_round_cases:
  assumes "in_round g t"
  obtains (out) "t = Outside g" | (sleep) "t = Sleeping g (of_nat g)" | (woken) "t = Woken g (of_nat g)"
  | (late) "0 < g" "t = Woken (g - 1) (of_nat (g - 1))"
  using assms by (auto simp: in_round_def)

lemma generation_changes [simp]: "(of_nat n :: 32 word) \<noteq> of_nat n + 1" "(of_nat n :: 32 word) + 1 \<noteq> of_nat n"
  by simp_all

lemma generation_before: "0 < g \<Longrightarrow> of_nat (g - 1) \<noteq> (of_nat g :: 32 word)"
  by (cases g) simp_all

lemma sint_of_nat_eq_self: "N < 2 ^ 31 \<Longrightarrow> sint (of_nat N :: 32 word) = int N"
  using sint_sbintrunc' [of "int N", where ?'a = 32] signed_take_bit_int_eq_self [of 31 "int N"] by simp

lemma small_word_0: "m < 2 ^ 32 \<Longrightarrow> (of_nat m :: 32 word) = 0 \<longleftrightarrow> m = 0"
  using nat_dvd_not_less [of m "2 ^ 32"] by (cases "m = 0") (simp_all add: word_of_nat_eq_0_iff)

lemma count_update:
  "i < length ts \<Longrightarrow> \<not> P (ts ! i) \<Longrightarrow> P t \<Longrightarrow> length (filter P (ts[i := t])) = Suc (length (filter P ts))"
  "i < length ts \<Longrightarrow> P (ts ! i) = P t \<Longrightarrow> length (filter P (ts[i := t])) = length (filter P ts)"
  by (induction ts arbitrary: i) (auto simp: less_Suc_eq_0_disj split: nat.split)

text \<open>When one is missing, all others are there.\<close>

lemma all_but_one:
  assumes "i < length ts" and "\<not> P (ts ! i)" and "length ts - length (filter P ts) = 1"
  shows "\<forall>j < length ts. j \<noteq> i \<longrightarrow> P (ts ! j)"
proof (rule ccontr)
  assume "\<not> ?thesis"
  then obtain j where j: "j < length ts" "j \<noteq> i" "\<not> P (ts ! j)" by blast
  have "length (filter P ts) + length (filter (\<lambda>t. \<not> P t) ts) = length ts" by (rule sum_length_filter_compl)
  then have "length (filter (\<lambda>t. \<not> P t) ts) = 1" using assms(3) by simp
  then have "card {k. k < length ts \<and> \<not> P (ts ! k)} = 1" by (simp add: length_filter_conv_card)
  then obtain k where k: "{k. k < length ts \<and> \<not> P (ts ! k)} = {k}" by (elim card_1_singletonE)
  have "i \<in> {k}" "j \<in> {k}" using assms(1,2) j unfolding k [symmetric] by simp_all
  then show False using j(2) by simp
qed

lemma in_round_update: "\<forall>t \<in> set ts. in_round g t \<Longrightarrow> in_round g t' \<Longrightarrow> \<forall>t \<in> set (ts[i := t']). in_round g t"
  using set_update_subset_insert [of ts i t'] by auto

subsection \<open>The invariant is kept\<close>

lemma inv_set_thread:
  assumes "barrier_inv N g b" and "i < N" and "in_round g t" and "here g (barrier_threads b ! i) = here g t"
  shows "barrier_inv N g (set_thread i t b)"
proof -
  have "length (filter (here g) ((barrier_threads b)[i := t])) = length (filter (here g) (barrier_threads b))"
    using assms by (intro count_update) (simp_all add: barrier_inv_def)
  then show ?thesis using assms in_round_update [of "barrier_threads b" g t i] by (simp add: barrier_inv_def set_thread_def)
qed

lemma inv_returns: "barrier_inv N g b \<Longrightarrow> barrier_inv N g (returns i False b)"
  by (simp add: barrier_inv_def returns_def)

lemma inv_enter:
  assumes I: "barrier_inv N g b" and N: "N < 2 ^ 32" and i: "i < N" and out: "barrier_threads b ! i = Outside n"
  shows "\<exists>g' \<ge> g. barrier_inv N g' (wait_enter i n b) \<and> arrived (barrier_threads (wait_enter i n b) ! i) = n + 1"
proof -
  let ?ts = "barrier_threads b" and ?k = "length (filter (here g) (barrier_threads b))"
  have l: "length ?ts = N" "?k < N" "m_generation b = of_nat g" "\<forall>t \<in> set ?ts. in_round g t" using I by (simp_all add: barrier_inv_def)
  have n: "n = g" using l(1,4) i out by (metis nth_mem in_round_cases barrier_thread.distinct(1,3) barrier_thread.inject(1))
  have c: "m_count b - 1 = of_nat (N - ?k - 1)" using I l(2) by (simp add: barrier_inv_def of_nat_diff)
  have z: "m_count b - 1 = 0 \<longleftrightarrow> N - ?k = 1"
  proof -
    have "(of_nat (N - ?k - 1) :: 32 word) = 0 \<longleftrightarrow> N - ?k - 1 = 0" by (rule small_word_0) (use N in simp)
    moreover have "N - ?k - 1 = 0 \<longleftrightarrow> N - ?k = 1" using l(2) by arith
    ultimately show ?thesis unfolding c by (rule trans)
  qed
  show ?thesis
  proof (cases "N - ?k = 1")
    case False
    have "length (filter (here g) (?ts[i := Sleeping n (of_nat g)])) = Suc ?k" using n i l(1) out by (intro count_update) simp_all
    moreover have "\<forall>t \<in> set (?ts[i := Sleeping n (of_nat g)]). in_round g t" using l(4) n by (intro in_round_update) (simp_all add: in_round_def)
    ultimately have "barrier_inv N g (wait_enter i n b)"
      using I z c False l by (simp add: barrier_inv_def wait_enter_def set_thread_def returns_def Let_def)
    then show ?thesis using False z i l(1) by (auto simp: wait_enter_def set_thread_def returns_def Let_def)
  next
    case True
    let ?ts' = "(map notified ?ts)[i := Outside (n + 1)]"
    have h: "here g (?ts ! j)" if "j < N" "j \<noteq> i" for j using all_but_one [of i ?ts "here g"] that True l(1) i out by simp
    have w: "?ts' ! j = (if j = i then Outside (g + 1) else Woken g (of_nat g))" if j: "j < N" for j
    proof (cases "j = i")
      case False
      have "in_round g (?ts ! j)" using l(1,4) j by simp
      then show ?thesis using h [OF j False] False j l(1) by (cases rule: in_round_cases) auto
    qed (use i l(1) n in simp)
    have "in_round (g + 1) t \<and> \<not> here (g + 1) t" if "t \<in> set ?ts'" for t
    proof -
      obtain j where "j < N" "t = ?ts' ! j" using \<open>t \<in> set ?ts'\<close> l(1) by (auto simp: in_set_conv_nth)
      then have "t = Outside (g + 1) \<or> t = Woken g (of_nat g)" using w by (simp split: if_splits)
      then show ?thesis by (auto simp: in_round_def)
    qed
    moreover from this have "filter (here (g + 1)) ?ts' = []" by (simp add: filter_empty_conv)
    ultimately have "barrier_inv N (g + 1) (wait_enter i n b)"
      using I True z i l(1) by (simp add: barrier_inv_def wait_enter_def set_thread_def returns_def Let_def)
    then show ?thesis using True z i l(1) by (intro exI [of _ "g + 1"]) (simp add: wait_enter_def set_thread_def returns_def Let_def)
  qed
qed

lemma inv_loop:
  assumes I: "barrier_inv N g b" and i: "i < N" and w: "barrier_threads b ! i = Woken n gen"
  shows "barrier_inv N g (wait_loop i n gen b)"
proof -
  have l: "length (barrier_threads b) = N" "m_generation b = of_nat g" using I by (simp_all add: barrier_inv_def)
  have "in_round g (Woken n gen)" using I i w by (metis barrier_inv_def nth_mem)
  then show ?thesis
  proof (cases rule: in_round_cases)
    case late
    then have "of_nat (g - 1) \<noteq> (of_nat g :: 32 word)" using generation_before by blast
    then show ?thesis using inv_set_thread [OF I i, of "Outside g"] late w l by (simp add: wait_loop_def in_round_def inv_returns)
  qed (use inv_set_thread [OF I i, of "Sleeping g (of_nat g)"] w l in \<open>auto simp: wait_loop_def in_round_def\<close>)
qed

lemma inv_step: "barrier_inv N g b \<Longrightarrow> N < 2 ^ 32 \<Longrightarrow> \<exists>g'. barrier_inv N g' (barrier_step a b)"
proof (cases a)
  case (Run i)
  assume I: "barrier_inv N g b" and N: "N < 2 ^ 32"
  have l: "length (barrier_threads b) = N" using I by (simp add: barrier_inv_def)
  show ?thesis
  proof (cases "i < N")
    case True
    then show ?thesis using Run I l inv_enter [OF I N True] inv_loop [OF I True]
      by (cases "barrier_threads b ! i") (auto simp: barrier_step_def)
  qed (use I l Run in \<open>auto simp: barrier_step_def\<close>)
next
  case (Spurious_Wake i)
  assume I: "barrier_inv N g b" and N: "N < 2 ^ 32"
  have l: "length (barrier_threads b) = N" using I by (simp add: barrier_inv_def)
  show ?thesis
  proof (cases "i < N")
    case True
    then have "in_round g (barrier_threads b ! i)" using I l by (simp add: barrier_inv_def)
    then have "in_round g (notified (barrier_threads b ! i))" "here g (barrier_threads b ! i) = here g (notified (barrier_threads b ! i))"
      by (cases rule: in_round_cases; simp add: in_round_def)+
    then show ?thesis using inv_set_thread [OF I True] Spurious_Wake True l by (auto simp: barrier_step_def)
  qed (use I l Spurious_Wake in \<open>auto simp: barrier_step_def\<close>)
qed

lemma inv_run: "barrier_inv N g b \<Longrightarrow> N < 2 ^ 32 \<Longrightarrow> \<exists>g'. barrier_inv N g' (barrier_run as b)"
  unfolding barrier_run_def
proof (induction as arbitrary: g b)
  case (Cons a as)
  then show ?case using inv_step [OF Cons.prems, of a] by auto
qed auto

lemma inv_new:
  assumes "0 < N" and "N < 2 ^ 32" and "barrier_new (of_nat N) N = Some b"
  shows "barrier_inv N 0 b"
proof -
  have "b = \<lparr>m_threshold = of_nat N, m_count = of_nat N, m_generation = 0, barrier_threads = replicate N (Outside 0), results = []\<rparr>"
    using assms(3) by (simp add: barrier_new_def split: if_splits)
  moreover have "filter (here 0) (replicate N (Outside 0)) = []" by (simp add: filter_empty_conv)
  ultimately show ?thesis using assms(1) by (simp add: barrier_inv_def in_round_def)
qed

text \<open>In every round some thread can go on.\<close>

lemma inv_progress:
  assumes I: "barrier_inv N g b" and N: "N < 2 ^ 32"
  shows "\<exists>i < N. passed (barrier_threads b ! i) + arrived (barrier_threads b ! i) <
    passed (barrier_threads (barrier_step (Run i) b) ! i) + arrived (barrier_threads (barrier_step (Run i) b) ! i)"
proof -
  have l: "length (barrier_threads b) = N" "length (filter (here g) (barrier_threads b)) < N" "m_generation b = of_nat g"
    using I by (simp_all add: barrier_inv_def)
  then have "filter (here g) (barrier_threads b) \<noteq> barrier_threads b" by auto
  then obtain t where "t \<in> set (barrier_threads b)" "\<not> here g t" by (auto simp: filter_id_conv)
  then obtain i where i: "i < N" "\<not> here g (barrier_threads b ! i)" using l(1) by (auto simp: in_set_conv_nth)
  have "in_round g (barrier_threads b ! i)" using I i(1) l(1) by (simp add: barrier_inv_def)
  then show ?thesis
  proof (cases rule: in_round_cases)
    case out
    obtain g' where "barrier_inv N g' (wait_enter i g b)" "arrived (barrier_threads (wait_enter i g b) ! i) = g + 1"
      using inv_enter [OF I N i(1) out] by blast
    moreover from this have "passed (barrier_threads (wait_enter i g b) ! i) \<ge> g" using i(1) l(1)
      by (auto simp: wait_enter_def set_thread_def returns_def Let_def split: if_splits)
    ultimately show ?thesis using out i(1) l(1) by (intro exI [of _ i]) (simp add: barrier_step_def)
  next
    case late
    then have "of_nat (g - 1) \<noteq> (of_nat g :: 32 word)" using generation_before by blast
    then show ?thesis using late i(1) l by (intro exI [of _ i]) (simp add: barrier_step_def wait_loop_def set_thread_def returns_def)
  qed (use i(2) in simp_all)
qed

subsection \<open>The claims\<close>

text \<open>C12: Under any schedule and with wake-ups for nothing, no thread returns from its \<open>k\<close>-th \<open>wait\<close> before all threads have
  called it \<open>k\<close> times, even after the generation has wrapped around; after \<open>g\<close> rounds, \<open>g\<close> calls have returned \<open>true\<close>; and there is always a thread whose next step takes it into or
  out of \<open>wait\<close>, so that the threads never block one another.\<close>

theorem barrier_synchronises:
  assumes "0 < N" and "N < 2 ^ 32"
  shows "\<exists>b. barrier_new (of_nat N) N = Some b \<and>
    (\<forall>i < N. \<forall>j < N. passed (barrier_threads (barrier_run as b) ! i) \<le> arrived (barrier_threads (barrier_run as b) ! j)) \<and>
    (\<forall>i < N. passed (barrier_threads (barrier_run as b) ! i) \<le> length (filter snd (results (barrier_run as b))) \<and>
      length (filter snd (results (barrier_run as b))) \<le> arrived (barrier_threads (barrier_run as b) ! i)) \<and>
    (\<exists>i < N. passed (barrier_threads (barrier_run as b) ! i) + arrived (barrier_threads (barrier_run as b) ! i) <
      passed (barrier_threads (barrier_run (as @ [Run i]) b) ! i) + arrived (barrier_threads (barrier_run (as @ [Run i]) b) ! i))"
proof -
  have "(of_nat N :: 32 word) \<noteq> 0" using assms small_word_0 [OF assms(2)] by simp
  then obtain b where b: "barrier_new (of_nat N) N = Some b" by (simp add: barrier_new_def)
  from inv_run [OF inv_new [OF assms b] assms(2), of as] obtain g where I: "barrier_inv N g (barrier_run as b)" ..
  have g: "passed (barrier_threads (barrier_run as b) ! i) \<le> g \<and> g \<le> arrived (barrier_threads (barrier_run as b) ! i)" if "i < N" for i
  proof -
    have "in_round g (barrier_threads (barrier_run as b) ! i)" using I that by (simp add: barrier_inv_def)
    then show ?thesis by (cases rule: in_round_cases) auto
  qed
  then have "\<forall>i < N. \<forall>j < N. passed (barrier_threads (barrier_run as b) ! i) \<le> arrived (barrier_threads (barrier_run as b) ! j)"
    by (meson le_trans)
  moreover have "length (filter snd (results (barrier_run as b))) = g" using I by (simp add: barrier_inv_def)
  ultimately show ?thesis using b g inv_progress [OF I assms(2)] by (auto simp: barrier_run_def)
qed

theorem barrier_synchronises_witness:
  "\<exists>b. barrier_new (of_nat 3) 3 = Some b \<and>
    (\<forall>i < 3. \<forall>j < 3. passed (barrier_threads (barrier_run [Run 0, Run 2, Spurious_Wake 0, Run 0, Run 1, Run 1, Run 2] b) ! i) \<le>
      arrived (barrier_threads (barrier_run [Run 0, Run 2, Spurious_Wake 0, Run 0, Run 1, Run 1, Run 2] b) ! j))"
  using barrier_synchronises [of 3 "[Run 0, Run 2, Spurious_Wake 0, Run 0, Run 1, Run 1, Run 2]"] by auto

text \<open>C37: The barrier for macOS waits once for the condition variable and does not look why it returned: a thread that is
  woken for nothing passes the barrier alone, and the next round ends one arrival too early.\<close>

theorem apple_barrier_spurious:
  assumes "2 \<le> N" and "N < 2 ^ 31"
  shows "\<exists>b. pthread_barrier_init (of_nat N) N = Some b \<and>
    passed (b_threads (pthread_barrier_run [Run 0, Spurious_Wake 0, Run 0] b) ! 0) = 1 \<and>
    (\<forall>j. 0 < j \<and> j < N \<longrightarrow> arrived (b_threads (pthread_barrier_run [Run 0, Spurious_Wake 0, Run 0] b) ! j) = 0) \<and>
    b_count (pthread_barrier_run [Run 0, Spurious_Wake 0, Run 0] b) = 1"
proof -
  let ?b = "\<lparr>b_count = 0, tripCount = int N, b_threads = replicate N (Outside 0), b_results = []\<rparr>"
  have "sint (of_nat N :: 32 word) = int N" using assms(2) by (simp add: sint_of_nat_eq_self)
  moreover have "(of_nat N :: 32 word) \<noteq> 0" using assms small_word_0 [of N] by simp
  ultimately have "pthread_barrier_init (of_nat N) N = Some ?b" by (simp add: pthread_barrier_init_def)
  moreover have "pthread_barrier_run [Run 0, Spurious_Wake 0, Run 0] ?b =
      \<lparr>b_count = 1, tripCount = int N, b_threads = (replicate N (Outside 0))[0 := Outside 1], b_results = [(0, 0)]\<rparr>"
    using assms by (simp add: pthread_barrier_run_def pthread_barrier_step_def pthread_barrier_wait_def)
  ultimately show ?thesis using assms by simp
qed

theorem apple_barrier_spurious_witness:
  "\<exists>b. pthread_barrier_init (of_nat 2) 2 = Some b \<and> passed (b_threads (pthread_barrier_run [Run 0, Spurious_Wake 0, Run 0] b) ! 0) = 1 \<and>
    b_count (pthread_barrier_run [Run 0, Spurious_Wake 0, Run 0] b) = 1"
  using apple_barrier_spurious [of 2] by auto

end
