(* ===== verification/WorkPool.thy ===== *)
theory WorkPool
  imports Prelude
begin

text \<open>
  The class template \<open>ThreadPool\<close> of \<open>thread/threadpool/c++/ThreadPool.h\<close>: a queue of pointers to requests under a lock, a
  semaphore that counts them, and \<open>stop\<close>, which waits for the queue to be empty and joins the workers.  A step is what
  a thread does between two points at which others can interfere: a lock, the semaphore, the condition variable and the
  unprotected reads of \<open>m_stop\<close> and of the queue.  A step on a pool that has been deleted is undefined.
\<close>

text \<open>A worker is at the test of its loop, at the semaphore, at the lock before the queue, in \<open>process\<close>, or at the lock
  behind it.\<close>

datatype pool_worker = At_Loop | At_Sem | At_Queue | Processing addr | After_Process | Exited

text \<open>The thread that calls \<open>stop\<close> is at the test of its loop, between the test and the condition variable, blocked on that,
  behind the loop, has posted the semaphore so often, or has joined so many workers.\<close>

datatype pool_stopper = Not_Called | Testing | Before_Wait | Waiting | Setting | Posting nat | Joining nat | Stopped

text \<open>\<open>pending_posts\<close> counts the calls of \<open>append\<close> that have still to post; \<open>accepted\<close> and \<open>processed\<close> collect the requests that were
  taken into the queue, and those whose \<open>process\<close> was called.\<close>

record work_pool =
  m_max_requests :: nat
  m_stop :: bool
  m_workqueue :: "addr list"
  m_queuestat :: nat
  pool_workers :: "pool_worker list"
  pool_stopper :: pool_stopper
  pending_posts :: nat
  accepted :: "addr list"
  processed :: "addr list"
  deleted :: bool

definition work_pool_new :: "int \<Rightarrow> nat \<Rightarrow> work_pool option" where
  "work_pool_new thread_number max_requests =
     (if thread_number \<le> 0 \<or> max_requests \<le> 0 then None
      else Some \<lparr>m_max_requests = max_requests, m_stop = False, m_workqueue = [], m_queuestat = 0,
        pool_workers = replicate (nat thread_number) At_Loop, pool_stopper = Not_Called, pending_posts = 0, accepted = [],
        processed = [], deleted = False\<rparr>)"

text \<open>\<open>append\<close> up to the unlock; the result is what it returns.\<close>

definition append_request :: "addr \<Rightarrow> work_pool \<Rightarrow> bool \<times> work_pool" where
  "append_request request s =
     (if m_max_requests s < length (m_workqueue s) then (False, s)
      else (True, s\<lparr>m_workqueue := m_workqueue s @ [request], accepted := accepted s @ [request], pending_posts := pending_posts s + 1\<rparr>))"

definition append_post :: "work_pool \<Rightarrow> work_pool" where
  "append_post s = (if 0 < pending_posts s then s\<lparr>m_queuestat := m_queuestat s + 1, pending_posts := pending_posts s - 1\<rparr> else s)"

definition set_worker :: "nat \<Rightarrow> pool_worker \<Rightarrow> work_pool \<Rightarrow> work_pool" where
  "set_worker i w s = s\<lparr>pool_workers := (pool_workers s)[i := w]\<rparr>"

text \<open>\<open>signal\<close> on \<open>m_emptyqueue_cond\<close>.\<close>

definition signal_empty :: "work_pool \<Rightarrow> work_pool" where
  "signal_empty s = (if pool_stopper s = Waiting then s\<lparr>pool_stopper := Testing\<rparr> else s)"

definition take_request :: "nat \<Rightarrow> work_pool \<Rightarrow> work_pool" where
  "take_request i s =
     (case m_workqueue s of
        [] \<Rightarrow> set_worker i At_Loop s
      | request # q \<Rightarrow>
          if request = NULL then set_worker i At_Loop (s\<lparr>m_workqueue := q\<rparr>)
          else set_worker i (Processing request) (s\<lparr>m_workqueue := q, processed := processed s @ [request]\<rparr>))"

text \<open>\<open>run\<close>.\<close>

definition run_step :: "nat \<Rightarrow> work_pool \<Rightarrow> work_pool" where
  "run_step i s =
     (case pool_workers s ! i of
        At_Loop \<Rightarrow> set_worker i (if m_stop s then Exited else At_Sem) s
      | At_Sem \<Rightarrow> if 0 < m_queuestat s then set_worker i At_Queue (s\<lparr>m_queuestat := m_queuestat s - 1\<rparr>) else s
      | At_Queue \<Rightarrow> take_request i s
      | Processing request \<Rightarrow> set_worker i After_Process s
      | After_Process \<Rightarrow> set_worker i At_Loop (if m_workqueue s = [] then signal_empty s else s)
      | Exited \<Rightarrow> s)"

text \<open>\<open>stop\<close> with \<open>join\<close>.\<close>

definition stop_step :: "work_pool \<Rightarrow> work_pool" where
  "stop_step s =
     (case pool_stopper s of
        Not_Called \<Rightarrow> s\<lparr>pool_stopper := Testing\<rparr>
      | Testing \<Rightarrow> s\<lparr>pool_stopper := if m_workqueue s = [] then Setting else Before_Wait\<rparr>
      | Before_Wait \<Rightarrow> s\<lparr>pool_stopper := Waiting\<rparr>
      | Waiting \<Rightarrow> s
      | Setting \<Rightarrow> s\<lparr>m_stop := True, pool_stopper := Posting 0\<rparr>
      | Posting i \<Rightarrow> if i < length (pool_workers s) then s\<lparr>m_queuestat := m_queuestat s + 1, pool_stopper := Posting (i + 1)\<rparr>
          else s\<lparr>pool_stopper := Joining 0\<rparr>
      | Joining i \<Rightarrow> if i < length (pool_workers s)
          then (if pool_workers s ! i = Exited then s\<lparr>pool_stopper := Joining (i + 1)\<rparr> else s)
          else s\<lparr>pool_stopper := Stopped\<rparr>
      | Stopped \<Rightarrow> s)"

text \<open>A call of \<open>append\<close>, its post, a step of a worker, a step of \<open>stop\<close>, a return from the condition variable without a signal,
  and the destructor.\<close>

datatype work_action = Append addr | Post | Worker nat | Stop | Spurious_Return | Delete_Pool

definition work_step :: "work_action \<Rightarrow> work_pool \<Rightarrow> work_pool option" where
  "work_step a s = (case a of
     Append r \<Rightarrow> if deleted s then None else Some (snd (append_request r s))
   | Post \<Rightarrow> if 0 < pending_posts s \<and> deleted s then None else Some (append_post s)
   | Worker i \<Rightarrow>
       if i < length (pool_workers s) \<and> pool_workers s ! i \<noteq> Exited then (if deleted s then None else Some (run_step i s)) else Some s
   | Stop \<Rightarrow> if deleted s then None else Some (stop_step s)
   | Spurious_Return \<Rightarrow> if deleted s \<and> pool_stopper s = Waiting then None else Some (signal_empty s)
   | Delete_Pool \<Rightarrow> if deleted s then None else Some (s\<lparr>m_stop := True, deleted := True\<rparr>))"

fun work_run :: "work_action list \<Rightarrow> work_pool \<Rightarrow> work_pool option" where
  "work_run [] s = Some s"
| "work_run (a # as) s = do { s \<leftarrow> work_step a s; work_run as s }"

section \<open>The invariant of the pool\<close>

text \<open>
  The invariant of the pool of \<open>ThreadPool.h\<close> and what it keeps: the requests are processed in order, each once; the semaphore
  covers the queue, and once \<open>m_stop\<close> is set it covers the workers that are blocked on it.
\<close>

lemma count_list_update:
  "i < length ws \<Longrightarrow> count_list (ws[i := w]) x + (if ws ! i = x then 1 else 0) = count_list ws x + (if w = x then 1 else 0)"
proof (induction ws arbitrary: i)
  case (Cons v ws)
  show ?case
  proof (cases i)
    case (Suc j)
    then show ?thesis using Cons.IH [of j] Cons.prems by (auto split: if_splits)
  qed simp
qed simp

subsection \<open>The invariant\<close>

definition stop_ok :: "nat \<Rightarrow> pool_stopper \<Rightarrow> bool \<Rightarrow> nat \<Rightarrow> pool_worker list \<Rightarrow> bool" where
  "stop_ok n st ms q ws \<longleftrightarrow> (case st of
     Posting i \<Rightarrow> ms \<and> i \<le> n \<and> count_list ws At_Sem \<le> q + (n - i)
   | Joining i \<Rightarrow> ms \<and> i \<le> n \<and> count_list ws At_Sem \<le> q \<and> (\<forall>j < i. ws ! j = Exited)
   | Stopped \<Rightarrow> ms \<and> (\<forall>j < n. ws ! j = Exited)
   | _ \<Rightarrow> \<not> ms \<and> (\<forall>j < n. ws ! j \<noteq> Exited))"

definition work_inv :: "nat \<Rightarrow> nat \<Rightarrow> work_pool \<Rightarrow> bool" where
  "work_inv n m s \<longleftrightarrow> length (pool_workers s) = n \<and> m_max_requests s = m \<and> \<not> deleted s \<and> length (m_workqueue s) \<le> m + 1 \<and>
     processed s @ filter (\<lambda>r. r \<noteq> NULL) (m_workqueue s) = filter (\<lambda>r. r \<noteq> NULL) (accepted s) \<and>
     length (m_workqueue s) \<le> m_queuestat s + pending_posts s + count_list (pool_workers s) At_Queue \<and>
     stop_ok n (pool_stopper s) (m_stop s) (m_queuestat s) (pool_workers s)"

lemma work_invD:
  assumes "work_inv n m s"
  shows "length (pool_workers s) = n" "m_max_requests s = m" "\<not> deleted s" "length (m_workqueue s) \<le> m + 1"
    "processed s @ filter (\<lambda>r. r \<noteq> NULL) (m_workqueue s) = filter (\<lambda>r. r \<noteq> NULL) (accepted s)"
    "length (m_workqueue s) \<le> m_queuestat s + pending_posts s + count_list (pool_workers s) At_Queue"
    "stop_ok n (pool_stopper s) (m_stop s) (m_queuestat s) (pool_workers s)"
  using assms by (simp_all add: work_inv_def)

lemma work_inv_new: "work_pool_new (int n) m = Some s \<Longrightarrow> work_inv n m s"
  by (auto simp: work_pool_new_def work_inv_def stop_ok_def split: if_splits)

text \<open>A worker that moves.\<close>

lemma stop_ok_worker:
  assumes S: "stop_ok n st ms q ws" and k: "k < n" "length ws = n" "ws ! k \<noteq> Exited" and e: "w = Exited \<Longrightarrow> ms"
    and c: "ms \<Longrightarrow> count_list (ws[k := w]) At_Sem + q \<le> count_list ws At_Sem + q'"
  shows "stop_ok n st ms q' (ws[k := w])"
proof (cases st)
  case (Posting i)
  then show ?thesis using S c by (auto simp: stop_ok_def)
next
  case (Joining i)
  then have "j < i \<Longrightarrow> ws[k := w] ! j = Exited" for j using S k by (cases "j = k") (auto simp: stop_ok_def)
  then show ?thesis using S c Joining by (auto simp: stop_ok_def)
next
  case Stopped
  then show ?thesis using S k by (auto simp: stop_ok_def)
qed (use S k e in \<open>auto simp: stop_ok_def nth_list_update\<close>)

lemma stop_ok_signal: "stop_ok n st ms q ws \<Longrightarrow> st = Waiting \<Longrightarrow> stop_ok n Testing ms q ws"
  by (simp add: stop_ok_def)

lemma inv_signal: "work_inv n m s \<Longrightarrow> work_inv n m (signal_empty s)"
  using stop_ok_signal [of n "pool_stopper s"] by (auto simp: work_inv_def signal_empty_def)

lemma signal_simps [simp]:
  "pool_workers (signal_empty s) = pool_workers s" "m_queuestat (signal_empty s) = m_queuestat s" "m_stop (signal_empty s) = m_stop s"
  "m_workqueue (signal_empty s) = m_workqueue s" "accepted (signal_empty s) = accepted s" "processed (signal_empty s) = processed s"
  "pending_posts (signal_empty s) = pending_posts s" "deleted (signal_empty s) = deleted s"
  by (simp_all add: signal_empty_def)

text \<open>A worker that moves and leaves the queue alone.\<close>

lemma inv_set_worker:
  assumes I: "work_inv n m s" and k: "k < n" "pool_workers s ! k \<noteq> Exited" "pool_workers s ! k \<noteq> At_Sem" "pool_workers s ! k \<noteq> At_Queue"
    and e: "w = Exited \<Longrightarrow> m_stop s" "w = At_Sem \<Longrightarrow> \<not> m_stop s"
  shows "work_inv n m (set_worker k w s)"
proof -
  note D = work_invD [OF I]
  have c: "count_list ((pool_workers s)[k := w]) x = count_list (pool_workers s) x + (if w = x then 1 else 0)"
    if "x = At_Sem \<or> x = At_Queue" for x
    using count_list_update [of k "pool_workers s" w x] k D(1) that by auto
  have "stop_ok n (pool_stopper s) (m_stop s) (m_queuestat s) ((pool_workers s)[k := w])"
    using e c [of At_Sem] by (intro stop_ok_worker [OF D(7) k(1) D(1) k(2)]) auto
  moreover have "length (m_workqueue s) \<le> m_queuestat s + pending_posts s + count_list ((pool_workers s)[k := w]) At_Queue"
    using D(6) c [of At_Queue] by simp
  ultimately show ?thesis using I by (simp add: work_inv_def set_worker_def)
qed

lemma inv_sem:
  assumes I: "work_inv n m s" and k: "k < n" "pool_workers s ! k = At_Sem" and q: "0 < m_queuestat s"
  shows "work_inv n m (set_worker k At_Queue (s\<lparr>m_queuestat := m_queuestat s - 1\<rparr>))"
proof -
  note D = work_invD [OF I]
  have c: "count_list ((pool_workers s)[k := At_Queue]) At_Sem + 1 = count_list (pool_workers s) At_Sem"
    "count_list ((pool_workers s)[k := At_Queue]) At_Queue = count_list (pool_workers s) At_Queue + 1"
    using count_list_update [of k "pool_workers s" At_Queue At_Sem] count_list_update [of k "pool_workers s" At_Queue At_Queue] k D(1) by simp_all
  have "stop_ok n (pool_stopper s) (m_stop s) (m_queuestat s - 1) ((pool_workers s)[k := At_Queue])"
    using k q c(1) by (intro stop_ok_worker [OF D(7) k(1) D(1)]) auto
  moreover have "length (m_workqueue s) \<le> m_queuestat s - 1 + pending_posts s + count_list ((pool_workers s)[k := At_Queue]) At_Queue"
    using D(6) c(2) q by simp
  ultimately show ?thesis using I by (simp add: work_inv_def set_worker_def)
qed

lemma inv_take:
  assumes I: "work_inv n m s" and k: "k < n" "pool_workers s ! k = At_Queue"
  shows "work_inv n m (take_request k s)"
proof -
  note D = work_invD [OF I]
  have c: "count_list ((pool_workers s)[k := w]) At_Sem = count_list (pool_workers s) At_Sem"
    "count_list ((pool_workers s)[k := w]) At_Queue + 1 = count_list (pool_workers s) At_Queue" if "w \<noteq> At_Sem" "w \<noteq> At_Queue" for w
    using count_list_update [of k "pool_workers s" w At_Sem] count_list_update [of k "pool_workers s" w At_Queue] k D(1) that by simp_all
  have s: "stop_ok n (pool_stopper s) (m_stop s) (m_queuestat s) ((pool_workers s)[k := w])" if "w \<noteq> At_Sem" "w \<noteq> At_Queue" "w \<noteq> Exited" for w
    using k that c(1) [of w] by (intro stop_ok_worker [OF D(7) k(1) D(1)]) auto
  show ?thesis
  proof (cases "m_workqueue s")
    case Nil
    then show ?thesis using I s [of At_Loop] by (simp add: take_request_def work_inv_def set_worker_def)
  next
    case (Cons r q)
    have "length q \<le> m_queuestat s + pending_posts s + count_list ((pool_workers s)[k := w]) At_Queue" if "w \<noteq> At_Sem" "w \<noteq> At_Queue" for w
      using D(6) Cons c(2) [OF that] by simp
    then show ?thesis using I s [of At_Loop] s [of "Processing r"] Cons
      by (auto simp: take_request_def work_inv_def set_worker_def)
  qed
qed

lemma inv_worker:
  assumes I: "work_inv n m s" and k: "k < n" "pool_workers s ! k \<noteq> Exited"
  shows "work_inv n m (run_step k s)"
proof (cases "pool_workers s ! k")
  case At_Loop
  then show ?thesis using inv_set_worker [OF I k, of Exited] inv_set_worker [OF I k, of At_Sem] by (simp add: run_step_def)
next
  case At_Sem
  then show ?thesis using I inv_sem [OF I k(1)] by (simp add: run_step_def)
next
  case At_Queue
  then show ?thesis using inv_take [OF I k(1)] by (simp add: run_step_def)
next
  case (Processing r)
  then show ?thesis using inv_set_worker [OF I k, of After_Process] by (simp add: run_step_def)
next
  case After_Process
  then show ?thesis using inv_set_worker [OF I k, of At_Loop] inv_set_worker [OF inv_signal [OF I] k(1), of At_Loop] by (simp add: run_step_def)
qed (use k in simp)

lemma inv_append: "work_inv n m s \<Longrightarrow> work_inv n m (snd (append_request r s))"
  by (auto simp: work_inv_def append_request_def)

lemma stop_ok_more: "stop_ok n st ms q ws \<Longrightarrow> stop_ok n st ms (q + 1) ws"
  by (cases st) (auto simp: stop_ok_def)

lemma inv_post: "work_inv n m s \<Longrightarrow> work_inv n m (append_post s)"
  using stop_ok_more [of n "pool_stopper s" "m_stop s" "m_queuestat s" "pool_workers s"] by (auto simp: work_inv_def append_post_def)

lemma inv_stop:
  assumes I: "work_inv n m s"
  shows "work_inv n m (stop_step s)"
proof (cases "pool_stopper s")
  case Setting
  have "count_list (pool_workers s) At_Sem \<le> n" using I count_le_length by (auto simp: work_inv_def)
  then show ?thesis using I Setting by (simp add: stop_step_def work_inv_def stop_ok_def)
next
  case (Joining i)
  then show ?thesis using I by (auto simp: stop_step_def work_inv_def stop_ok_def less_Suc_eq)
qed (use I in \<open>auto simp: stop_step_def work_inv_def stop_ok_def\<close>)

lemma inv_work_step:
  assumes "work_inv n m s" and "a \<noteq> Delete_Pool"
  shows "\<exists>s'. work_step a s = Some s' \<and> work_inv n m s'"
  using assms work_invD(1,3) [OF assms(1)] inv_append inv_post inv_worker inv_stop inv_signal
  by (cases a) (auto simp: work_step_def)

lemma inv_work_run:
  "work_inv n m s \<Longrightarrow> Delete_Pool \<notin> set as \<Longrightarrow> \<exists>s'. work_run as s = Some s' \<and> work_inv n m s'"
proof (induction as arbitrary: s)
  case (Cons a as)
  from inv_work_step [OF Cons.prems(1), of a] obtain s1 where "work_step a s = Some s1" "work_inv n m s1" using Cons.prems(2) by auto
  then show ?case using Cons.IH Cons.prems(2) by auto
qed simp

text \<open>For running a schedule by simplification.\<close>

lemma work_run_Cons: "work_run (a # as) s = (case work_step a s of None \<Rightarrow> None | Some s1 \<Rightarrow> work_run as s1)"
  by (cases "work_step a s") simp_all

lemma work_run_append: "work_run (as @ bs) s = Option.bind (work_run as s) (work_run bs)"
proof (induction as arbitrary: s)
  case (Cons a as)
  then show ?case by (cases "work_step a s") simp_all
qed simp

section \<open>The properties\<close>

text \<open>
  The properties of the pool of \<open>ThreadPool.h\<close>: what \<open>stop\<close> guarantees when it returns, how it can fail to return, and the limit
  of the queue.
\<close>

subsection \<open>No request comes once stop has been called\<close>

definition is_append :: "work_action \<Rightarrow> bool" where
  "is_append a \<longleftrightarrow> (\<exists>r. a = Append r)"

text \<open>Past the loop of \<open>stop\<close> the queue is empty.\<close>

definition past_loop :: "pool_stopper \<Rightarrow> bool" where
  "past_loop st \<longleftrightarrow> st = Setting \<or> (\<exists>i. st = Posting i) \<or> (\<exists>i. st = Joining i) \<or> st = Stopped"

definition drained :: "work_pool \<Rightarrow> bool" where
  "drained s \<longleftrightarrow> (past_loop (pool_stopper s) \<longrightarrow> m_workqueue s = [])"

lemma past_loop_simps [simp]:
  "\<not> past_loop Not_Called" "\<not> past_loop Testing" "\<not> past_loop Before_Wait" "\<not> past_loop Waiting"
  "past_loop Setting" "past_loop (Posting i)" "past_loop (Joining i)" "past_loop Stopped"
  by (simp_all add: past_loop_def)

lemma set_worker_simps [simp]:
  "pool_stopper (set_worker i w s) = pool_stopper s" "m_workqueue (set_worker i w s) = m_workqueue s"
  "accepted (set_worker i w s) = accepted s"
  by (simp_all add: set_worker_def)

lemma drained_signal: "drained s \<Longrightarrow> drained (signal_empty s)"
  by (simp add: drained_def signal_empty_def)

lemma run_step_drained: "drained s \<Longrightarrow> drained (run_step i s)"
  using drained_signal [of s]
  by (cases "pool_workers s ! i") (auto simp: drained_def run_step_def take_request_def split: list.splits)

lemma stop_step_drained: "drained s \<Longrightarrow> drained (stop_step s)"
  by (cases "pool_stopper s") (auto simp: drained_def stop_step_def)

lemma work_step_drained: "drained s \<Longrightarrow> work_step a s = Some s' \<Longrightarrow> \<not> is_append a \<Longrightarrow> drained s'"
  using run_step_drained [of s] stop_step_drained [of s] drained_signal [of s]
  by (cases a) (auto simp: work_step_def is_append_def append_post_def drained_def split: if_splits)

lemma work_run_drained: "drained s \<Longrightarrow> work_run as s = Some s' \<Longrightarrow> \<forall>a \<in> set as. \<not> is_append a \<Longrightarrow> drained s'"
proof (induction as arbitrary: s)
  case (Cons a as)
  then obtain s1 where "work_step a s = Some s1" "work_run as s1 = Some s'" by (auto simp: bind_eq_Some_conv)
  then show ?case using Cons.IH work_step_drained [OF Cons.prems(1)] Cons.prems(3) by auto
qed simp

text \<open>Before it is called, \<open>stop\<close> has no part in what happens.\<close>

lemma not_called_step: "pool_stopper s = Not_Called \<Longrightarrow> work_step a s = Some s' \<Longrightarrow> a \<noteq> Stop \<Longrightarrow> pool_stopper s' = Not_Called"
  by (cases a) (auto simp: work_step_def append_request_def append_post_def signal_empty_def run_step_def take_request_def
      split: if_splits pool_worker.splits list.splits)

lemma not_called_run: "pool_stopper s = Not_Called \<Longrightarrow> work_run as s = Some s' \<Longrightarrow> Stop \<notin> set as \<Longrightarrow> pool_stopper s' = Not_Called"
proof (induction as arbitrary: s)
  case (Cons a as)
  then obtain s1 where "work_step a s = Some s1" "work_run as s1 = Some s'" by (auto simp: bind_eq_Some_conv)
  then show ?case using Cons.IH not_called_step [OF Cons.prems(1)] Cons.prems(3) by auto
qed simp

text \<open>After \<open>Stopped\<close>, nothing the pool's threads do touches it.\<close>

lemma exited_run:
  "\<forall>w \<in> set (pool_workers s). w = Exited \<Longrightarrow> \<forall>a \<in> set as. \<exists>i. a = Worker i \<Longrightarrow> work_run as s = Some s"
proof (induction as)
  case (Cons a as)
  then obtain i where "a = Worker i" by auto
  moreover have "work_run as s = Some s" using Cons by simp
  moreover have "i < length (pool_workers s) \<Longrightarrow> pool_workers s ! i = Exited" using Cons.prems(1) by simp
  ultimately show ?case by (auto simp: work_step_def)
qed simp

subsection \<open>A wake-up that is lost\<close>

text \<open>Every worker is blocked on the semaphore, and \<open>stop\<close> on the condition variable.\<close>

definition lost_wakeup :: "work_pool \<Rightarrow> bool" where
  "lost_wakeup s \<longleftrightarrow> pool_stopper s = Waiting \<and> m_workqueue s = [] \<and> m_queuestat s = 0 \<and> pending_posts s = 0 \<and> \<not> deleted s \<and>
     (\<forall>w \<in> set (pool_workers s). w = At_Sem)"

lemma lost_wakeup_step: "lost_wakeup s \<Longrightarrow> a = Post \<or> a = Stop \<or> (\<exists>i. a = Worker i) \<Longrightarrow> work_step a s = Some s"
proof -
  assume s: "lost_wakeup s" and a: "a = Post \<or> a = Stop \<or> (\<exists>i. a = Worker i)"
  have w: "run_step i s = s" if "i < length (pool_workers s)" for i
  proof -
    have "pool_workers s ! i = At_Sem" "m_queuestat s = 0" using s that by (simp_all add: lost_wakeup_def)
    then show ?thesis by (simp add: run_step_def)
  qed
  then show ?thesis using s a by (auto simp: lost_wakeup_def work_step_def append_post_def stop_step_def)
qed

lemma lost_wakeup_run: "lost_wakeup s \<Longrightarrow> \<forall>a \<in> set as. a = Post \<or> a = Stop \<or> (\<exists>i. a = Worker i) \<Longrightarrow> work_run as s = Some s"
  by (induction as) (auto simp: lost_wakeup_step)

text \<open>A worker that cannot change the state has ended, or is blocked on the semaphore.\<close>

lemma set_worker_same: "set_worker i w t = s \<Longrightarrow> i < length (pool_workers t) \<Longrightarrow> pool_workers s ! i = w"
  by (auto simp: set_worker_def)

lemma run_step_blocked:
  assumes i: "i < length (pool_workers s)" and r: "run_step i s = s"
  shows "pool_workers s ! i = Exited \<or> (pool_workers s ! i = At_Sem \<and> m_queuestat s = 0)"
proof (cases "pool_workers s ! i")
  case At_Queue
  have t: "take_request i s = s" using r At_Queue by (simp add: run_step_def)
  show ?thesis
  proof (cases "m_workqueue s")
    case Nil
    then show ?thesis using t set_worker_same [OF _ i, of At_Loop] At_Queue by (simp add: take_request_def)
  next
    case (Cons q qs)
    then show ?thesis using arg_cong [OF t, of m_workqueue] by (simp add: take_request_def split: if_splits)
  qed
next
  case After_Process
  then show ?thesis using r set_worker_same [of i At_Loop "if m_workqueue s = [] then signal_empty s else s" s] i
    by (simp add: run_step_def split: if_splits)
next
  case At_Sem
  then show ?thesis using arg_cong [OF r, of m_queuestat] by (simp add: run_step_def set_worker_def split: if_splits)
next
  case At_Loop
  then show ?thesis using r set_worker_same [OF _ i, of Exited] set_worker_same [OF _ i, of At_Sem] by (simp add: run_step_def split: if_splits)
next
  case (Processing q)
  then show ?thesis using r set_worker_same [OF _ i, of After_Process] by (simp add: run_step_def)
qed simp

text \<open>All workers of a pool go to the semaphore.\<close>

lemma park_workers:
  "\<not> deleted s \<Longrightarrow> \<not> m_stop s \<Longrightarrow> pool_workers s = replicate j At_Sem @ replicate k At_Loop \<Longrightarrow>
   work_run (map Worker [j..<j + k]) s = Some (s\<lparr>pool_workers := replicate (j + k) At_Sem\<rparr>)"
proof (induction k arbitrary: j s)
  case (Suc k)
  have w: "pool_workers s ! j = At_Loop" "j < length (pool_workers s)" using Suc.prems(3) by (simp_all add: nth_append)
  have "(pool_workers s)[j := At_Sem] = replicate (Suc j) At_Sem @ replicate k At_Loop"
    using Suc.prems(3) by (simp add: list_update_append replicate_app_Cons_same)
  then have "work_step (Worker j) s = Some (s\<lparr>pool_workers := replicate (Suc j) At_Sem @ replicate k At_Loop\<rparr>)"
    using Suc.prems w by (simp add: work_step_def run_step_def set_worker_def)
  then show ?case using Suc.IH [of "s\<lparr>pool_workers := replicate (Suc j) At_Sem @ replicate k At_Loop\<rparr>" "Suc j"] Suc.prems
    by (simp add: upt_conv_Cons del: upt_Suc)
qed simp

subsection \<open>The claims\<close>

text \<open>C14: When no request is appended after the call of \<open>stop\<close>, then as soon as \<open>stop\<close> returns every accepted request has been
  processed, in the order in which they were accepted and each once, all workers have ended, and the pool may be deleted.\<close>

theorem work_pool_stop_complete:
  assumes "work_pool_new (int n) m = Some s0" and "work_run (as @ Stop # bs) s0 = Some s" and "pool_stopper s = Stopped"
    and "Stop \<notin> set as" and "Delete_Pool \<notin> set as \<union> set bs" and "\<forall>a \<in> set bs. \<forall>r. a \<noteq> Append r"
  shows "processed s = filter (\<lambda>r. r \<noteq> NULL) (accepted s) \<and> m_workqueue s = [] \<and> pool_workers s = replicate n Exited \<and>
    (\<forall>is. \<exists>s'. work_run (Delete_Pool # map Worker is) s = Some s')"
proof -
  note I0 = work_inv_new [OF assms(1)]
  have "Delete_Pool \<notin> set (as @ Stop # bs)" using assms(5) by auto
  then have I: "work_inv n m s" using inv_work_run [OF I0] assms(2) by fastforce
  note D = work_invD [OF I]
  obtain s1 where s1: "work_run as s0 = Some s1" "work_run (Stop # bs) s1 = Some s" using assms(2) by (auto simp: work_run_append bind_eq_Some_conv)
  have "pool_stopper s0 = Not_Called" using assms(1) by (auto simp: work_pool_new_def split: if_splits)
  then have "drained s1" using not_called_run [OF _ s1(1) assms(4)] by (simp add: drained_def)
  then have q: "m_workqueue s = []" using work_run_drained [OF _ s1(2)] assms(3,6) by (simp add: drained_def is_append_def)
  have w: "\<forall>j < n. pool_workers s ! j = Exited" using D(7) assms(3) by (simp add: stop_ok_def)
  then have "pool_workers s = replicate n Exited" using D(1) by (simp add: list_eq_iff_nth_eq)
  moreover from this have "\<exists>s'. work_run (Delete_Pool # map Worker is) s = Some s'" for "is"
    using exited_run [of "s\<lparr>m_stop := True, deleted := True\<rparr>" "map Worker is"] D(3) by (auto simp: work_step_def)
  ultimately show ?thesis using D(5) q by simp
qed

definition ex_schedule :: "work_action list" where
  "ex_schedule = [Post, Worker 0, Worker 0, Worker 0, Worker 0, Worker 0, Stop, Stop, Stop, Stop, Worker 0, Stop, Stop, Stop]"

definition ex_work_new :: work_pool where
  "ex_work_new = \<lparr>m_max_requests = 5, m_stop = False, m_workqueue = [], m_queuestat = 0, pool_workers = [At_Loop], pool_stopper = Not_Called,
    pending_posts = 0, accepted = [], processed = [], deleted = False\<rparr>"

definition ex_work_end :: work_pool where
  "ex_work_end = \<lparr>m_max_requests = 5, m_stop = True, m_workqueue = [], m_queuestat = 1, pool_workers = [Exited], pool_stopper = Stopped,
    pending_posts = 0, accepted = [7], processed = [7], deleted = False\<rparr>"

lemma ex_work_run: "work_run ([Append 7] @ Stop # ex_schedule) ex_work_new = Some ex_work_end"
proof -
  have "work_run ([Append 7] @ Stop # ex_schedule) ex_work_new = Some s \<longleftrightarrow> s = ex_work_end" for s
    unfolding ex_schedule_def ex_work_new_def ex_work_end_def by (code_simp, auto)
  then show ?thesis by simp
qed

theorem work_pool_stop_complete_witness:
  "work_run ([Append 7] @ Stop # ex_schedule) ex_work_new = Some ex_work_end \<and> processed ex_work_end = [7] \<and>
    pool_workers ex_work_end = [Exited] \<and> (\<exists>s'. work_run (Delete_Pool # map Worker [0, 0]) ex_work_end = Some s')"
proof -
  have n: "work_pool_new (int 1) 5 = Some ex_work_new" by (simp add: work_pool_new_def ex_work_new_def)
  have c: "processed ex_work_end = filter (\<lambda>r. r \<noteq> NULL) (accepted ex_work_end) \<and> m_workqueue ex_work_end = [] \<and>
      pool_workers ex_work_end = replicate 1 Exited \<and> (\<forall>is. \<exists>s'. work_run (Delete_Pool # map Worker is) ex_work_end = Some s')"
    by (rule work_pool_stop_complete [OF n ex_work_run]) (simp_all add: ex_schedule_def ex_work_end_def)
  have "\<exists>s'. work_run (Delete_Pool # map Worker [0, 0]) ex_work_end = Some s'" using c by blast
  moreover have "processed ex_work_end = [7] \<and> pool_workers ex_work_end = [Exited]" using c by (simp add: ex_work_end_def)
  ultimately show ?thesis using ex_work_run by blast
qed

text \<open>C34: \<open>stop\<close> tests the queue and then waits, without the lock: when the last request is processed in between, the signal is
  lost, and \<open>stop\<close> and all workers are blocked whatever they do, in a pool of any size.\<close>

theorem work_pool_stop_hangs:
  assumes "0 < n" and "0 < m" and "r \<noteq> NULL"
  shows "\<exists>s0 as s. work_pool_new (int n) m = Some s0 \<and> work_run (Append r # Post # Stop # as) s0 = Some s \<and> pool_stopper s = Waiting \<and>
    processed s = [r] \<and> (\<forall>bs. (\<forall>b \<in> set bs. b = Post \<or> b = Stop \<or> (\<exists>i. b = Worker i)) \<longrightarrow> work_run bs s = Some s)"
proof -
  obtain k where n: "n = Suc k" using assms(1) by (cases n) auto
  let ?s0 = "\<lparr>m_max_requests = m, m_stop = False, m_workqueue = [], m_queuestat = 0, pool_workers = replicate n At_Loop,
    pool_stopper = Not_Called, pending_posts = 0, accepted = [], processed = [], deleted = False\<rparr>"
  let ?s1 = "?s0\<lparr>pool_stopper := Waiting, accepted := [r], processed := [r]\<rparr>"
  let ?as = "[Stop, Worker 0, Worker 0, Worker 0, Worker 0, Worker 0, Stop]"
  have "work_pool_new (int n) m = Some ?s0" using assms(1,2) by (simp add: work_pool_new_def)
  moreover have s1: "work_run (Append r # Post # Stop # ?as) ?s0 = Some ?s1"
    using assms(3) n by (simp add: work_run_Cons work_step_def append_request_def append_post_def run_step_def take_request_def stop_step_def
        set_worker_def signal_empty_def del: work_run.simps(2))
  moreover have "work_run (map Worker [0..<n]) ?s1 = Some (?s1\<lparr>pool_workers := replicate n At_Sem\<rparr>)"
    using park_workers [of ?s1 0 n] by simp
  ultimately have "work_run (Append r # Post # Stop # (?as @ map Worker [0..<n])) ?s0 = Some (?s1\<lparr>pool_workers := replicate n At_Sem\<rparr>)"
    using work_run_append [of "Append r # Post # Stop # ?as" "map Worker [0..<n]" ?s0] by simp
  moreover have "lost_wakeup (?s1\<lparr>pool_workers := replicate n At_Sem\<rparr>)" by (simp add: lost_wakeup_def)
  ultimately show ?thesis using lost_wakeup_run [of "?s1\<lparr>pool_workers := replicate n At_Sem\<rparr>"] \<open>work_pool_new (int n) m = Some ?s0\<close>
    by (intro exI [of _ ?s0] exI [of _ "?as @ map Worker [0..<n]"] exI [of _ "?s1\<lparr>pool_workers := replicate n At_Sem\<rparr>"]) simp
qed

theorem work_pool_stop_hangs_witness:
  "\<exists>s0 as s. work_pool_new (int 3) 10000 = Some s0 \<and> work_run (Append 9 # Post # Stop # as) s0 = Some s \<and> pool_stopper s = Waiting \<and>
    processed s = [9] \<and> (\<forall>bs. (\<forall>b \<in> set bs. b = Post \<or> b = Stop \<or> (\<exists>i. b = Worker i)) \<longrightarrow> work_run bs s = Some s)"
  by (rule work_pool_stop_hangs) (simp_all add: NULL_def)

text \<open>C15: A lost wake-up is the only way to be stuck: in any other state that is reached, as long as \<open>stop\<close> has not returned, a
  thread that posts, a worker or \<open>stop\<close> can take a step that changes the state.\<close>

theorem work_pool_progress:
  assumes "work_pool_new (int n) m = Some s0" and "work_run as s0 = Some s" and "Delete_Pool \<notin> set as"
    and "pool_stopper s \<noteq> Stopped" and "\<not> lost_wakeup s"
  shows "work_step Stop s \<noteq> Some s \<or> work_step Post s \<noteq> Some s \<or> (\<exists>i. work_step (Worker i) s \<noteq> Some s)"
proof (rule ccontr)
  assume *: "\<not> ?thesis"
  have I: "work_inv n m s" using inv_work_run [OF work_inv_new [OF assms(1)] assms(3)] assms(2) by auto
  note D = work_invD [OF I]
  have fix_upd: "s\<lparr>pool_stopper := st\<rparr> = s \<longleftrightarrow> pool_stopper s = st" for st by (cases s) auto
  have "append_post s = s" using * D(3) by (simp add: work_step_def)
  from arg_cong [OF this, of pending_posts] have p: "pending_posts s = 0" by (simp add: append_post_def split: if_splits)
  have ws: "run_step i s = s" if "i < n" "pool_workers s ! i \<noteq> Exited" for i
    using * that D(1,3) by (auto simp: work_step_def split: if_splits)
  then have w: "pool_workers s ! i = Exited \<or> (pool_workers s ! i = At_Sem \<and> m_queuestat s = 0)" if "i < n" for i
    using run_step_blocked that D(1) by blast
  then have "\<forall>v \<in> set (pool_workers s). v = Exited \<or> v = At_Sem" using D(1) by (metis in_set_conv_nth)
  then have q0: "count_list (pool_workers s) At_Queue = 0" by (auto simp: count_list_0_iff)
  have st: "stop_step s = s" using * D(3) by (simp add: work_step_def)
  show False
  proof (cases "pool_stopper s")
    case Waiting
    then have "\<forall>j < n. pool_workers s ! j \<noteq> Exited" using D(7) by (simp add: stop_ok_def)
    then have all: "\<forall>j < n. pool_workers s ! j = At_Sem \<and> m_queuestat s = 0" using w by blast
    moreover have "0 < n" using assms(1) by (simp add: work_pool_new_def split: if_splits)
    ultimately have "m_queuestat s = 0" by blast
    moreover from this have "m_workqueue s = []" using D(6) p q0 by simp
    moreover have "\<forall>v \<in> set (pool_workers s). v = At_Sem" using all D(1) by (auto simp: in_set_conv_nth)
    ultimately show False using assms(5) Waiting p D(3) by (simp add: lost_wakeup_def)
  next
    case (Joining i)
    then have i: "i < n" "pool_workers s ! i \<noteq> Exited" using st D(1) by (auto simp: stop_step_def fix_upd split: if_splits)
    then have "pool_workers s ! i = At_Sem" "m_queuestat s = 0" using w by blast+
    moreover have "count_list (pool_workers s) At_Sem \<le> m_queuestat s" using D(7) Joining by (simp add: stop_ok_def)
    ultimately have "At_Sem \<notin> set (pool_workers s)" by (simp add: count_list_0_iff)
    then show False using \<open>pool_workers s ! i = At_Sem\<close> i(1) D(1) by (metis nth_mem)
  next
    case Setting
    then show False using arg_cong [OF st, of pool_stopper] by (simp add: stop_step_def)
  next
    case (Posting i)
    then show False using arg_cong [OF st, of pool_stopper] by (simp add: stop_step_def split: if_splits)
  qed (use st assms(4) in \<open>auto simp: stop_step_def fix_upd split: if_splits\<close>)
qed

theorem work_pool_progress_witness:
  "\<exists>s0 s. work_pool_new (int 1) 5 = Some s0 \<and> work_run [Append 7, Stop] s0 = Some s \<and>
    (work_step Stop s \<noteq> Some s \<or> work_step Post s \<noteq> Some s \<or> (\<exists>i. work_step (Worker i) s \<noteq> Some s))"
proof -
  obtain s0 where s0: "work_pool_new (int 1) 5 = Some s0" by (simp add: work_pool_new_def)
  then obtain s where s: "work_run [Append 7, Stop] s0 = Some s" "pool_stopper s = Testing"
    by (auto simp: work_pool_new_def work_step_def append_request_def stop_step_def)
  then show ?thesis using work_pool_progress [OF s0 s(1)] s0 by (auto simp: lost_wakeup_def)
qed

text \<open>C36: The queue never holds more than \<open>max_requests + 1\<close> requests, one more than the constructor was told: \<open>append\<close> refuses a
  request only when the limit has been passed.\<close>

theorem work_pool_limit:
  assumes "work_pool_new (int n) m = Some s0" and "work_run as s0 = Some s" and "Delete_Pool \<notin> set as"
  shows "length (m_workqueue s) \<le> m + 1 \<and> (fst (append_request r s) \<longleftrightarrow> length (m_workqueue s) \<le> m)"
proof -
  have "work_inv n m s" using inv_work_run [OF work_inv_new [OF assms(1)] assms(3)] assms(2) by auto
  then show ?thesis using work_invD(2,4) [of n m s] by (auto simp: append_request_def)
qed

theorem work_pool_limit_witness:
  "\<exists>s0 s. work_pool_new (int 1) 1 = Some s0 \<and> work_run [Append 7, Append 8, Append 9] s0 = Some s \<and> m_workqueue s = [7, 8] \<and>
    \<not> fst (append_request 9 s)"
proof -
  obtain s0 where s0: "work_pool_new (int 1) 1 = Some s0" by (simp add: work_pool_new_def)
  then obtain s where s: "work_run [Append 7, Append 8, Append 9] s0 = Some s" "m_workqueue s = [7, 8]"
    by (auto simp: work_pool_new_def work_step_def append_request_def)
  then show ?thesis using work_pool_limit [OF s0 s(1), of 9] s0 by auto
qed

end
