(* ===== verification/Spec2Isabelle.thy ===== *)
theory Spec2Isabelle
  imports FrListClaims CJsonClaims CJsonRoundClaims CJsonCopyClaims SimplePoolClaims Checksum HexString TimeHeapClaims TimerListClaims TimeWheelClaims LunarCalendarClaims MemPoolClaims UartRecvClaims CircleBufClaims
    RingPool HmacMd5 CsvLine Barrier WorkPool
begin

text \<open>
  Verification of the C and C++ components of the repository Orgrim.

  \<^bold>\<open>The program.\<close>  Orgrim is a collection of self-contained components and demonstrations.  The components that have
  logic of their own are modelled here; each is a shallow embedding of its source, translated function by function.  They
  do not call one another, apart from the callback of the serial receiver; what they share is C: allocation, pointers,
  buffers, machine integers, mutexes and condition variables.

  \<^bold>\<open>How C is modelled\<close> (theory \<open>Prelude\<close>).  Objects live in a \<open>heap\<close>: a map from addresses to cells, the next address, and a script
  of coming allocations that says which of them fail, so that every theorem about a function that allocates speaks about every
  pattern of failures.  A function that may do something undefined (access through \<open>NULL\<close> or a dangling pointer, an access outside an
  array, a second \<open>free\<close>, signed overflow where it is modelled) returns an option, and undefined behaviour is \<^term>\<open>None\<close>, as is
  not returning from a loop; so a theorem that says \<open>= Some \<dots>\<close> contains memory safety and termination.  Machine integers are words where
  they can wrap, and otherwise numbers whose bound the header of the theory or the theorem states.  Threads are sequences of
  steps: a step is what a thread does between two points at which others can interfere, a run is any list of steps, and the
  theorems hold for all runs.  Waiting on a condition variable may end without a signal.

  \<^bold>\<open>Components.\<close>  Paths are relative to \<open>src/\<close>.

  \<^item> \<open>containers/list/c/list.c\<close>, \<open>list.h\<close>: \<open>FrList\<close> (every function), \<open>FrListShow\<close> (the functions that print), \<open>FrListSpec\<close> (the
    invariant \<open>list_at\<close>), \<open>FrListLoops\<close>, \<open>FrListFree\<close> (disposal, for any callback that meets the locale \<open>node_disposer\<close>), \<open>FrListProps\<close>,
    \<open>FrListClaims\<close>.  \<open>Fifo\<close> is the contract of a queue, of which \<open>frlist_push\<close> and \<open>frlist_pop\<close> are an interpretation.
  \<^item> \<open>file_format/json/cJSON/cJSON.c\<close>, \<open>cJSON.h\<close>: \<open>CJson\<close> (items, hooks, deletion), \<open>CJsonParse\<close>, \<open>CJsonPrint\<close>, \<open>CJsonItems\<close> (arrays, objects,
    constructors), \<open>CJsonCopy\<close> (\<open>cJSON_Duplicate\<close>, \<open>cJSON_Compare\<close>, \<open>cJSON_Minify\<close>), and \<open>CDouble\<close> for the C type \<open>double\<close>.  \<open>CJsonSpec\<close> says what a heap
    of items stands for, \<open>CJsonValue\<close> which JSON value a tree is.  The parser is verified against the locales of \<open>CJsonSafe\<close>
    (\<open>CJsonText\<close>, \<open>CJsonString\<close>, \<open>CJsonParser\<close>, \<open>CJsonParseOk\<close>), the printer against \<open>value_printing\<close> (\<open>CJsonRender\<close>, \<open>CJsonPrintOk\<close>,
    \<open>CJsonPrintTop\<close>); \<open>CJsonReads\<close>, \<open>CNumber\<close> and \<open>CJsonRoundTrip\<close> show that what is printed is parsed to the same value; \<open>CJsonChain\<close>,
    \<open>CJsonSeq\<close>, \<open>Arrangement\<close> and \<open>CJsonArray\<close> that arrays are sequences; \<open>CJsonMinify\<close>, \<open>CJsonDup\<close> and \<open>CJsonCompare\<close> belong to \<open>CJsonCopy\<close>, the last with the
    equality of JSON values, \<open>json_equal\<close>, that \<open>cJSON_Compare\<close> decides when names are distinct.  The properties are in \<open>CJsonClaims\<close>, \<open>CJsonRoundClaims\<close> and \<open>CJsonCopyClaims\<close>.
  \<^item> \<open>thread/c/simple_threadpool.c\<close>: \<open>SimplePool\<close>, with its invariant in \<open>SimplePoolOk\<close>, the termination of its schedules in \<open>SimplePoolEnd\<close>
    and \<open>SimplePoolClaims\<close>.
  \<^item> \<open>thread/threadpool/c/sample1/threadpool.c\<close>: \<open>RingPool\<close>: workers that wait for tasks, clients that wait in \<open>pool_wait\<close> for
    the condition \<open>done\<close>, and the circular queue, refined to a queue that is a list.
  \<^item> \<open>thread/threadpool/c++/ThreadPool.h\<close>: \<open>WorkPool\<close>; the classes of its \<open>locker.h\<close> wrap one POSIX call each.
  \<^item> \<open>thread/c++/barrier/barrier.h\<close> and \<open>apple/apple_pthread_barrier.h\<close>: \<open>Barrier\<close>.
  \<^item> \<open>containers/CircleBuffer/c++/CircleBuffer.cpp\<close>: \<open>CircleBuf\<close>, \<open>CircleBufOk\<close>, \<open>CircleBufClaims\<close>; a broadcast to up to eight subscribers.
  \<^item> \<open>memory/MemoryPool/c++/MemoryPool.cpp\<close>, \<open>MemoryChunk.cpp\<close>: \<open>MemPool\<close>, with its invariant in \<open>MemPoolOk\<close>; \<open>Allocator\<close> is the contract
    of an allocator, \<open>MemPoolRun\<close> its interpretation for every maximum and the sizes \<open>served\<close> under it, \<open>MemPoolClaims\<close> the properties.
  \<^item> \<open>serial/c++/test_sweeper_baud/SerialPort.cpp\<close>, \<open>McuComm.cpp\<close>: \<open>UartRecv\<close>, the receiving thread and its callback; \<open>UartRecvOk\<close> on streams of
    frames, \<open>UartRecvSafe\<close> on arbitrary bytes, \<open>UartRecvClaims\<close>.
  \<^item> \<open>timer/c++/timing_heap.h\<close>: \<open>TimeHeap\<close>, \<open>TimeHeapOk\<close>, \<open>TimeHeapInv\<close>, \<open>TimeHeapClaims\<close>; \<open>timer/c++/lst_timer.h\<close>: \<open>TimerList\<close>, \<open>TimerListOk\<close>,
    \<open>TimerListStore\<close>, \<open>TimerListClaims\<close>; both are interpretations of the locale \<open>timer_store\<close> of \<open>TimerStore\<close>.  \<open>timer/c++/timing_wheel.h\<close>: \<open>TimeWheel\<close>,
    \<open>TimeWheelOk\<close>, \<open>TimeWheelInv\<close>, \<open>TimeWheelRun\<close>, \<open>TimeWheelClaims\<close>.  \<open>DLinks\<close> holds the doubly linked lists that the list and the wheel share.
  \<^item> \<open>checksum/c/tcp_checksum.c\<close>: \<open>Checksum\<close>; \<open>string/c/convert_hexstring_to_buffer.c\<close> and its second version: \<open>HexString\<close>;
    \<open>datetime/c/chinese_calendar.c\<close>: \<open>LunarCalendar\<close>, \<open>LunarCalendarOk\<close>, \<open>LunarCalendarClaims\<close>; \<open>encrypt/md5/c/hmac_md5.c\<close>: \<open>HmacMd5\<close>;
    \<open>file_format/csv/c++/csv.cpp\<close>: \<open>CsvLine\<close>.

  \<^bold>\<open>What is shown.\<close>  For the data structures: an invariant, that every operation keeps it, and what each operation is on the
  abstract value (a list, a tree, a multiset of timers, a map of allocated pointers), with every failing allocation.  For the parser and the
  printer: memory safety on every input and every pattern of allocation failures with no block lost, the exact text that is printed,
  and the round trips.  For the concurrent components: invariants of all interleavings, that no thread waits for ever, or
  where it can, and that each job, message or request is handled once and in order.  For the converters: equality with a
  specification (RFC 1071, RFC 2104, the lunar calendar of the table, the digits of a byte).  Where the code departs from what it is for,
  a theorem exhibits it.

  \<^bold>\<open>Bounds and fuel.\<close>  \<open>CJSON_NESTING_LIMIT\<close> bounds the recursion of the parser as in the code.  The recursion of the printer, of
  \<open>cJSON_Duplicate\<close> and of \<open>cJSON_Compare\<close> is bounded by an argument, for which the theorems take at least the depth of the tree.
  \<open>cJSON_Delete\<close> and the loops over linked lists are partial functions: the theorems show that they return.  \<open>recv_run\<close> of the receiver stops after
  the given reads, as many as bytes have come at most; 2713 is the largest number of bytes of noise that stays inside the 8192
  characters of \<open>PrintAsHexString\<close>.  \<open>circle_call\<close> runs a call of the circular buffer alone for at most 5 steps, which is the
  longest call; runs with other threads have no bound.  The indices of the circular queue of 1000 entries may grow up to \<open>INT_MAX\<close>.

  \<^bold>\<open>Assumptions.\<close>  Steps are atomic, and what a mutex protects is seen in the order in which it was written.  Pointers have 64 bits
  (the smallest block of the memory pool is 8), sizes in \<open>malloc\<close> calls do not exceed \<open>size_t\<close>, \<open>char\<close> is signed where it matters.
  Callbacks are parameters, or recorded; a callback that writes is required to meet a stated contract.  OpenSSL, the clock and
  the serial port are parameters.  Conversions between text and \<open>double\<close> are exact with rounding to nearest, ties to even.

  \<^bold>\<open>Not modelled.\<close>  \<open>tools/libmicrohttpd\<close> (most of the lines of the repository), \<open>cxxopts\<close>, \<open>nweb\<close>, CTPL, \<open>zpipe\<close> and the Android logging headers are
  third-party code.  The tools under \<open>serial/\<close>, \<open>ipc/\<close>, \<open>network/\<close>, \<open>io_multiplexing/\<close>, \<open>simple_app/\<close>, \<open>mactest/\<close> and \<open>file/\<close> are sequences of system
  calls, whose behaviour is that of the kernel and of devices; so are opening and configuring the port of the serial receiver.
  \<open>common/\<close> wraps library calls for time, printing and locks.  The other directories hold short programs that show a feature of a
  language or a library: they have a \<open>main\<close> that prints and no operation to verify.  Of the modelled files, \<open>main\<close> functions, debug output and
  failures of thread and mutex creation are left out.
\<close>

end
